(* ===== verification/Mica_Prelude.thy ===== *)
theory Mica_Prelude
  imports Main "HOL-Library.Monad_Syntax"
begin

text \<open>
  Shared vocabulary of the development.

  \<^item> \<open>usize\<close> values are natural numbers; the operations of Rust that can fail or saturate at the
    64-bit bound are written out (\<open>checked_add\<close>, \<open>checked_sub\<close>, \<open>saturating_add\<close>).
  \<^item> A Rust \<open>char\<close> is a Unicode scalar value, a natural number; a Rust \<open>str\<close> is the list of its
    scalars, and the byte positions that \<open>str\<close> indexing uses are computed from the UTF-8 width of
    each scalar. Slicing at a position that is not a character boundary panics, which is \<open>None\<close>.
  \<^item> A computation that can panic returns an \<open>option\<close>; one that returns \<open>Result<T, E>\<close>
    returns \<open>'e + 't\<close> with \<open>Inl\<close> the error.
\<close>

named_theorems buffer_simps \<open>content and size equations of the buffer text tree\<close>
named_theorems codec_simps \<open>byte-level encoding and decoding equations\<close>
named_theorems txn_simps \<open>lookups in staged and committed relation state\<close>

type_synonym usize = nat
type_synonym scalar = nat
type_synonym rstr = "scalar list"
type_synonym identity = nat
type_synonym symbol = nat

definition usize_max :: nat where
  "usize_max = 18446744073709551615"

definition checked_add :: "nat \<Rightarrow> nat \<Rightarrow> nat option" where
  "checked_add a b = (if a + b \<le> usize_max then Some (a + b) else None)"

definition checked_sub :: "nat \<Rightarrow> nat \<Rightarrow> nat option" where
  "checked_sub a b = (if b \<le> a then Some (a - b) else None)"

definition saturating_add :: "nat \<Rightarrow> nat \<Rightarrow> nat" where
  "saturating_add a b = min usize_max (a + b)"

definition as_u16 :: "nat \<Rightarrow> nat" where
  "as_u16 n = n mod 65536"

text \<open>\<open>std::ops::Range<usize>\<close>: empty unless start < end, and then of length end - start.\<close>

record range =
  range_start :: usize
  range_end :: usize

definition mk_range :: "usize \<Rightarrow> usize \<Rightarrow> range" where
  "mk_range a b = \<lparr>range_start = a, range_end = b\<rparr>"

definition range_is_empty :: "range \<Rightarrow> bool" where
  "range_is_empty r = (\<not> range_start r < range_end r)"

definition range_len :: "range \<Rightarrow> usize" where
  "range_len r = range_end r - range_start r"

text \<open>
  \<open>slice::partition_point\<close> on a slice partitioned by the predicate: the index of the first element
  that does not satisfy it.
\<close>

definition partition_point :: "('a \<Rightarrow> bool) \<Rightarrow> 'a list \<Rightarrow> usize" where
  "partition_point p xs = length (takeWhile p xs)"

section \<open>UTF-8 widths and byte-indexed string access\<close>

definition len_utf8 :: "scalar \<Rightarrow> nat" where
  "len_utf8 c = (if c < 128 then 1 else if c < 2048 then 2 else if c < 65536 then 3 else 4)"

definition str_len :: "rstr \<Rightarrow> usize" where
  "str_len s = sum_list (map len_utf8 s)"

fun byte_drop :: "nat \<Rightarrow> rstr \<Rightarrow> rstr option" where
  "byte_drop n s =
     (if n = 0 then Some s
      else case s of
        [] \<Rightarrow> None
      | c # cs \<Rightarrow> if len_utf8 c \<le> n then byte_drop (n - len_utf8 c) cs else None)"

fun byte_take :: "nat \<Rightarrow> rstr \<Rightarrow> rstr option" where
  "byte_take n s =
     (if n = 0 then Some []
      else case s of
        [] \<Rightarrow> None
      | c # cs \<Rightarrow>
          if len_utf8 c \<le> n then map_option ((#) c) (byte_take (n - len_utf8 c) cs) else None)"

declare byte_drop.simps [simp del] byte_take.simps [simp del]

definition is_char_boundary :: "rstr \<Rightarrow> nat \<Rightarrow> bool" where
  "is_char_boundary s n = (byte_drop n s \<noteq> None)"

text \<open>\<open>&s[a..b]\<close>: panics when a > b or when an end is not a character boundary.\<close>

definition str_slice :: "rstr \<Rightarrow> nat \<Rightarrow> nat \<Rightarrow> rstr option" where
  "str_slice s a b =
     (if a \<le> b then do { rest \<leftarrow> byte_drop a s; byte_take (b - a) rest } else None)"

fun char_indices_from :: "nat \<Rightarrow> rstr \<Rightarrow> (nat \<times> scalar) list" where
  "char_indices_from off [] = []"
| "char_indices_from off (c # cs) = (off, c) # char_indices_from (off + len_utf8 c) cs"

definition char_indices :: "rstr \<Rightarrow> (nat \<times> scalar) list" where
  "char_indices s = char_indices_from 0 s"

section \<open>Facts about UTF-8 widths\<close>

lemma len_utf8_pos [simp, intro]: "0 < len_utf8 c"
  by (simp add: len_utf8_def)

lemma len_utf8_le [simp]: "len_utf8 c \<le> 4"
  by (simp add: len_utf8_def)

lemma str_len_simps [simp]:
  "str_len [] = 0"
  "str_len (c # cs) = len_utf8 c + str_len cs"
  "str_len (xs @ ys) = str_len xs + str_len ys"
  by (simp_all add: str_len_def)

lemma length_le_str_len: "length s \<le> str_len s"
proof (induction s)
  case (Cons c cs)
  moreover have "0 < len_utf8 c" by simp
  ultimately show ?case unfolding str_len_simps list.size by linarith
qed simp

lemma str_len_eq_0 [simp]: "str_len s = 0 \<longleftrightarrow> s = []"
  using length_le_str_len [of s] by auto

lemma byte_drop_0 [simp]: "byte_drop 0 s = Some s"
  by (subst byte_drop.simps) simp

lemma byte_take_0 [simp]: "byte_take 0 s = Some []"
  by (subst byte_take.simps) simp

lemma byte_drop_append [simp]: "byte_drop (str_len xs) (xs @ ys) = Some ys"
proof (induction xs)
  case (Cons c cs)
  then show ?case by (subst byte_drop.simps) simp
qed simp

lemma byte_take_append [simp]: "byte_take (str_len xs) (xs @ ys) = Some xs"
proof (induction xs)
  case (Cons c cs)
  then show ?case by (subst byte_take.simps) simp
qed simp

lemma byte_drop_Some_iff: "byte_drop n s = Some r \<longleftrightarrow> (\<exists>p. s = p @ r \<and> str_len p = n)"
proof
  show "byte_drop n s = Some r \<Longrightarrow> \<exists>p. s = p @ r \<and> str_len p = n"
  proof (induction n s rule: byte_drop.induct)
    case (1 n s)
    show ?case
    proof (cases "n = 0")
      case True
      with "1.prems" show ?thesis by simp
    next
      case False
      with "1.prems" obtain c cs where s: "s = c # cs" and le: "len_utf8 c \<le> n"
        and rec: "byte_drop (n - len_utf8 c) cs = Some r"
        by (subst (asm) byte_drop.simps) (auto split: list.splits if_splits)
      from "1.IH" [OF False s le rec] obtain p where "cs = p @ r" "str_len p = n - len_utf8 c"
        by blast
      with s le have "s = (c # p) @ r \<and> str_len (c # p) = n" by simp
      then show ?thesis by blast
    qed
  qed
qed auto

lemma byte_take_Some_iff: "byte_take n s = Some p \<longleftrightarrow> (\<exists>r. s = p @ r \<and> str_len p = n)"
proof
  show "byte_take n s = Some p \<Longrightarrow> \<exists>r. s = p @ r \<and> str_len p = n"
  proof (induction n s arbitrary: p rule: byte_take.induct)
    case (1 n s)
    show ?case
    proof (cases "n = 0")
      case True
      with "1.prems" show ?thesis by simp
    next
      case False
      with "1.prems" obtain c cs q where s: "s = c # cs" and le: "len_utf8 c \<le> n"
        and rec: "byte_take (n - len_utf8 c) cs = Some q" and p: "p = c # q"
        by (subst (asm) byte_take.simps) (auto split: list.splits if_splits)
      from "1.IH" [OF False s le rec] obtain r where "cs = q @ r" "str_len q = n - len_utf8 c"
        by blast
      with s le p have "s = p @ r \<and> str_len p = n" by simp
      then show ?thesis by blast
    qed
  qed
qed auto

lemma str_slice_append:
  "str_slice (a @ b @ c) (str_len a) (str_len a + str_len b) = Some b"
  by (simp add: str_slice_def)

lemma str_slice_Some:
  assumes "str_slice s a b = Some m"
  obtains p r where "s = p @ m @ r" "str_len p = a" "str_len p + str_len m = b"
proof -
  from assms obtain rest where "a \<le> b" "byte_drop a s = Some rest" "byte_take (b - a) rest = Some m"
    by (auto simp: str_slice_def bind_eq_Some_conv split: if_splits)
  moreover from this(2) obtain p where "s = p @ rest" "str_len p = a"
    by (auto simp: byte_drop_Some_iff)
  moreover from calculation(3) obtain r where "rest = m @ r" "str_len m = b - a"
    by (auto simp: byte_take_Some_iff)
  ultimately show ?thesis using that by simp
qed

lemma length_char_indices_from [simp]: "length (char_indices_from off s) = length s"
  by (induction s arbitrary: off) auto

lemma nth_char_indices_from:
  "i < length s \<Longrightarrow> char_indices_from off s ! i = (off + str_len (take i s), s ! i)"
proof (induction s arbitrary: off i)
  case (Cons c cs)
  then show ?case by (cases i) auto
qed simp

section \<open>Facts about checked arithmetic and ranges\<close>

lemma checked_add_Some_iff [simp]:
  "checked_add a b = Some c \<longleftrightarrow> c = a + b \<and> a + b \<le> usize_max"
  by (auto simp: checked_add_def)

lemma checked_sub_Some_iff [simp]: "checked_sub a b = Some c \<longleftrightarrow> b \<le> a \<and> c = a - b"
  by (auto simp: checked_sub_def)

lemma range_sel [simp]:
  "range_start (mk_range a b) = a" "range_end (mk_range a b) = b"
  "range_len (mk_range a b) = b - a" "range_is_empty (mk_range a b) = (b \<le> a)"
  by (auto simp: mk_range_def range_len_def range_is_empty_def)

lemma mk_range_sel [simp]: "mk_range (range_start r) (range_end r) = r"
  by (simp add: mk_range_def)

lemma mk_range_inject [simp]: "mk_range a b = mk_range c d \<longleftrightarrow> a = c \<and> b = d"
  by (simp add: mk_range_def)

lemma bind_SomeE:
  assumes "Option.bind m f = Some y"
  obtains x where "m = Some x" "f x = Some y"
  using assms by (auto simp: bind_eq_Some_conv)

section \<open>Facts about slices of lists\<close>

lemma take_drop_split:
  "a \<le> b \<Longrightarrow> take b xs = take a xs @ take (b - a) (drop a xs)"
  by (metis le_add_diff_inverse take_add)

lemma drop_take_append_drop:
  "a \<le> b \<Longrightarrow> take (b - a) (drop a xs) @ drop b xs = drop a xs"
  by (metis add.commute append_take_drop_id drop_drop le_add_diff_inverse2)

end
