(* ===== verification/BufferText.thy ===== *)
theory BufferText
  imports Mica_Prelude
begin

text \<open>
  The persistent text tree of \<open>crates/relation-kernel/src/buffer/text.rs\<close>: immutable UTF-8 text in
  chunks of at most 4096 bytes, held in a height-balanced tree whose nodes cache the scalar, byte
  and newline counts of their subtree, with structurally shared edits.

  Allocation is explicit. Every \<open>Arc::new\<close> takes the next address from a counter \<open>h\<close> that the
  operations thread through, because the code observes addresses: \<open>Piece::origin\<close> returns the
  address of the chunk (the provenance that \<open>Delta::between\<close> compares) and \<open>shares_root\<close> compares
  the addresses of two roots. A panic (an index out of range, a slice off a character boundary, an
  \<open>unreachable!\<close>) is \<open>None\<close>.

  The lemmas show that on well-formed trees no operation panics, that each operation acts on the
  sequence of scalars as its name says, and that well-formedness (cached counts, height balance,
  chunk index tables) is preserved.
\<close>

section \<open>Data\<close>

definition CHUNK_BYTES :: nat where
  "CHUNK_BYTES = 4096"

definition SCALAR_SAMPLE :: nat where
  "SCALAR_SAMPLE = 32"

definition NEWLINE :: scalar where
  "NEWLINE = 10"

datatype text_error = TextInvalidRange | TextInvalidLine

record chunk =
  ch_addr :: nat
  ch_text :: rstr
  ch_samples :: "nat list"
  ch_newlines :: "nat list"
  ch_scalars :: usize

record piece =
  pc_chunk :: chunk
  pc_range :: range

record node_info =
  nd_addr :: nat
  nd_scalars :: usize
  nd_bytes :: usize
  nd_newlines :: usize
  nd_height :: nat

datatype node =
    Leaf (info: node_info) piece
  | Branch (info: node_info) node node

type_synonym root = "node option"

record btext =
  bt_root :: root

section \<open>Chunks\<close>

fun chunk_scan ::
  "(nat \<times> scalar) list \<Rightarrow> nat \<Rightarrow> nat list \<Rightarrow> nat list \<Rightarrow> nat \<Rightarrow> nat list \<times> nat list \<times> nat" where
  "chunk_scan [] index samples newlines scalars = (samples, newlines, scalars)"
| "chunk_scan ((offset, c) # rest) index samples newlines scalars =
     chunk_scan rest (index + 1)
       (if index mod SCALAR_SAMPLE = 0 then samples @ [as_u16 offset] else samples)
       (if c = NEWLINE then newlines @ [as_u16 index] else newlines)
       (scalars + 1)"

definition chunk_new :: "nat \<Rightarrow> rstr \<Rightarrow> chunk" where
  "chunk_new addr s =
     (let (samples, newlines, scalars) = chunk_scan (char_indices s) 0 [] [] 0
      in \<lparr>ch_addr = addr, ch_text = s, ch_samples = samples, ch_newlines = newlines,
          ch_scalars = scalars\<rparr>)"

definition byte_offset :: "chunk \<Rightarrow> usize \<Rightarrow> usize option" where
  "byte_offset c i =
     (if i = ch_scalars c then Some (str_len (ch_text c))
      else if i div SCALAR_SAMPLE < length (ch_samples c) then
        (let start = ch_samples c ! (i div SCALAR_SAMPLE) in do {
           rest \<leftarrow> byte_drop start (ch_text c);
           (if i mod SCALAR_SAMPLE < length (char_indices rest)
            then Some (start + fst (char_indices rest ! (i mod SCALAR_SAMPLE)))
            else None) })
      else None)"

section \<open>Pieces\<close>

definition piece_len :: "piece \<Rightarrow> usize" where
  "piece_len p = range_len (pc_range p)"

definition piece_text :: "piece \<Rightarrow> rstr option" where
  "piece_text p = do {
     a \<leftarrow> byte_offset (pc_chunk p) (range_start (pc_range p));
     b \<leftarrow> byte_offset (pc_chunk p) (range_end (pc_range p));
     str_slice (ch_text (pc_chunk p)) a b }"

definition piece_origin :: "piece \<Rightarrow> nat \<times> range" where
  "piece_origin p = (ch_addr (pc_chunk p), pc_range p)"

definition piece_split :: "piece \<Rightarrow> usize \<Rightarrow> piece \<times> piece" where
  "piece_split p at =
     (let middle = range_start (pc_range p) + at
      in (p\<lparr>pc_range := mk_range (range_start (pc_range p)) middle\<rparr>,
          p\<lparr>pc_range := mk_range middle (range_end (pc_range p))\<rparr>))"

definition newline_range :: "piece \<Rightarrow> range" where
  "newline_range p = mk_range
     (partition_point (\<lambda>offset. offset < range_start (pc_range p)) (ch_newlines (pc_chunk p)))
     (partition_point (\<lambda>offset. offset < range_end (pc_range p)) (ch_newlines (pc_chunk p)))"

section \<open>Nodes\<close>

abbreviation scalars :: "node \<Rightarrow> usize" where "scalars n \<equiv> nd_scalars (info n)"
abbreviation nbytes :: "node \<Rightarrow> usize" where "nbytes n \<equiv> nd_bytes (info n)"
abbreviation newlines :: "node \<Rightarrow> usize" where "newlines n \<equiv> nd_newlines (info n)"
abbreviation height :: "node \<Rightarrow> nat" where "height n \<equiv> nd_height (info n)"

definition node_leaf :: "piece \<Rightarrow> nat \<Rightarrow> (node \<times> nat) option" where
  "node_leaf p h = do {
     s \<leftarrow> piece_text p;
     Some (Leaf \<lparr>nd_addr = h, nd_scalars = piece_len p, nd_bytes = str_len s,
                 nd_newlines = range_len (newline_range p), nd_height = 1\<rparr> p, Suc h) }"

definition node_branch :: "node \<Rightarrow> node \<Rightarrow> nat \<Rightarrow> node \<times> nat" where
  "node_branch left right h =
     (Branch \<lparr>nd_addr = h,
              nd_scalars = scalars left + scalars right,
              nd_bytes = nbytes left + nbytes right,
              nd_newlines = newlines left + newlines right,
              nd_height = max (height left) (height right) + 1\<rparr> left right, Suc h)"

fun children :: "node \<Rightarrow> (node \<times> node) option" where
  "children (Branch _ left right) = Some (left, right)"
| "children (Leaf _ _) = None"

definition balance :: "node \<Rightarrow> node \<Rightarrow> nat \<Rightarrow> (node \<times> nat) option" where
  "balance left right h =
     (if height left > height right + 1 then do {
        (a, b) \<leftarrow> children left;
        (if height a \<ge> height b then
           let (br, h1) = node_branch b right h in Some (node_branch a br h1)
         else do {
           (b1, b2) \<leftarrow> children b;
           let (l, h1) = node_branch a b1 h;
               (r, h2) = node_branch b2 right h1
           in Some (node_branch l r h2) }) }
      else if height right > height left + 1 then do {
        (b, c) \<leftarrow> children right;
        (if height c \<ge> height b then
           let (lb, h1) = node_branch left b h in Some (node_branch lb c h1)
         else do {
           (b1, b2) \<leftarrow> children b;
           let (l, h1) = node_branch left b1 h;
               (r, h2) = node_branch b2 c h1
           in Some (node_branch l r h2) }) }
      else Some (node_branch left right h))"

fun join :: "root \<Rightarrow> root \<Rightarrow> nat \<Rightarrow> (root \<times> nat) option" where
  "join None right h = Some (right, h)"
| "join (Some left) None h = Some (Some left, h)"
| "join (Some left) (Some right) h =
     (if height left > height right + 1 then
        (case left of
           Branch _ a b \<Rightarrow> do {
             (inner, h1) \<leftarrow> join (Some b) (Some right) h;
             r \<leftarrow> inner;
             (n, h2) \<leftarrow> balance a r h1;
             Some (Some n, h2) }
         | Leaf _ _ \<Rightarrow> None)
      else if height right > height left + 1 then
        (case right of
           Branch _ b c \<Rightarrow> do {
             (inner, h1) \<leftarrow> join (Some left) (Some b) h;
             l \<leftarrow> inner;
             (n, h2) \<leftarrow> balance l c h1;
             Some (Some n, h2) }
         | Leaf _ _ \<Rightarrow> None)
      else let (n, h1) = node_branch left right h in Some (Some n, h1))"

declare join.simps(3) [simp del]

fun split_node :: "node \<Rightarrow> usize \<Rightarrow> nat \<Rightarrow> (root \<times> root \<times> nat) option" where
  "split_node (Leaf i p) at h =
     (if at = 0 then Some (None, Some (Leaf i p), h)
      else if at = nd_scalars i then Some (Some (Leaf i p), None, h)
      else let (lp, rp) = piece_split p at in do {
        (l, h1) \<leftarrow> node_leaf lp h;
        (r, h2) \<leftarrow> node_leaf rp h1;
        Some (Some l, Some r, h2) })"
| "split_node (Branch i left right) at h =
     (if at = 0 then Some (None, Some (Branch i left right), h)
      else if at = nd_scalars i then Some (Some (Branch i left right), None, h)
      else if at < scalars left then do {
        (a, b, h1) \<leftarrow> split_node left at h;
        (r, h2) \<leftarrow> join b (Some right) h1;
        Some (a, r, h2) }
      else do {
        (a, b, h1) \<leftarrow> split_node right (at - scalars left) h;
        (l, h2) \<leftarrow> join (Some left) a h1;
        Some (l, b, h2) })"

definition split_root :: "root \<Rightarrow> usize \<Rightarrow> nat \<Rightarrow> (root \<times> root \<times> nat) option" where
  "split_root root at h =
     (case root of None \<Rightarrow> Some (None, None, h) | Some n \<Rightarrow> split_node n at h)"

text \<open>
  \<open>visit_range\<close>: the visitor closure is a function from its captured state and a string to the new
  state and its boolean result.
\<close>

fun visit_range ::
  "node \<Rightarrow> range \<Rightarrow> ('s \<Rightarrow> rstr \<Rightarrow> 's \<times> bool) \<Rightarrow> 's \<Rightarrow> ('s \<times> bool) option" where
  "visit_range (Leaf i p) r visit s =
     (if range_is_empty r then Some (s, True)
      else do {
        a \<leftarrow> byte_offset (pc_chunk p) (range_start (pc_range p) + range_start r);
        b \<leftarrow> byte_offset (pc_chunk p) (range_start (pc_range p) + range_end r);
        t \<leftarrow> str_slice (ch_text (pc_chunk p)) a b;
        Some (visit s t) })"
| "visit_range (Branch i left right) r visit s =
     (if range_is_empty r then Some (s, True)
      else do {
        (s1, go) \<leftarrow>
          (if range_start r < scalars left
           then visit_range left (mk_range (range_start r) (min (range_end r) (scalars left)))
                  visit s
           else Some (s, True));
        (if \<not> go then Some (s1, False)
         else if range_end r > scalars left
         then visit_range right
                (mk_range (range_start r - scalars left) (range_end r - scalars left)) visit s1
         else Some (s1, True)) })"

definition append_range :: "node \<Rightarrow> range \<Rightarrow> rstr \<Rightarrow> rstr option" where
  "append_range n r out = map_option fst (visit_range n r (\<lambda>out t. (out @ t, True)) out)"

fun newline_position :: "node \<Rightarrow> usize \<Rightarrow> usize option" where
  "newline_position (Leaf i p) index =
     (let nls = ch_newlines (pc_chunk p); k = range_start (newline_range p) + index
      in if k < length nls then checked_sub (nls ! k) (range_start (pc_range p)) else None)"
| "newline_position (Branch i left right) index =
     (if index < newlines left then newline_position left index
      else map_option (\<lambda>q. scalars left + q) (newline_position right (index - newlines left)))"

fun newlines_before :: "node \<Rightarrow> usize \<Rightarrow> usize option" where
  "newlines_before (Leaf i p) position =
     (let stop = partition_point (\<lambda>offset. offset < range_start (pc_range p) + position)
                   (ch_newlines (pc_chunk p))
      in checked_sub stop (range_start (newline_range p)))"
| "newlines_before (Branch i left right) position =
     (if position \<le> scalars left then newlines_before left position
      else map_option (\<lambda>q. newlines left + q) (newlines_before right (position - scalars left)))"

fun collect_pieces :: "node \<Rightarrow> piece list \<Rightarrow> usize \<Rightarrow> piece list option" where
  "collect_pieces (Leaf i p) pieces limit =
     (if length pieces = limit then None else Some (pieces @ [p]))"
| "collect_pieces (Branch i left right) pieces limit = do {
     pieces1 \<leftarrow> collect_pieces left pieces limit;
     collect_pieces right pieces1 limit }"

section \<open>Text\<close>

definition text_default :: btext where
  "text_default = \<lparr>bt_root = None\<rparr>"

text \<open>The inner loop of \<open>from_text\<close>: step down to a character boundary.\<close>

fun floor_boundary :: "rstr \<Rightarrow> nat \<Rightarrow> nat" where
  "floor_boundary s 0 = 0"
| "floor_boundary s (Suc n) = (if is_char_boundary s (Suc n) then Suc n else floor_boundary s n)"

text \<open>
  The outer loop of \<open>from_text\<close> over the byte position \<open>start\<close>. The guard \<open>end > start\<close> holds
  whenever the slice succeeds (a chunk holds at least one scalar); the loop would not end without
  it, which is \<open>None\<close>.
\<close>

function from_text_loop :: "rstr \<Rightarrow> nat \<Rightarrow> root \<Rightarrow> nat \<Rightarrow> (root \<times> nat) option" where
  "from_text_loop s start root h =
     (if start < str_len s then
        (let stop = floor_boundary s (min (start + CHUNK_BYTES) (str_len s)) in
         if start < stop then do {
           t \<leftarrow> str_slice s start stop;
           let c = chunk_new h t;
           (leaf, h1) \<leftarrow> node_leaf \<lparr>pc_chunk = c, pc_range = mk_range 0 (ch_scalars c)\<rparr> (Suc h);
           (root', h2) \<leftarrow> join root (Some leaf) h1;
           from_text_loop s stop root' h2 }
         else None)
      else Some (root, h))"
  by pat_completeness auto
termination
  by (relation "measure (\<lambda>(s, start, root, h). str_len s - start)") (auto simp: Let_def)

declare from_text_loop.simps [simp del]

definition from_text :: "rstr \<Rightarrow> nat \<Rightarrow> (btext \<times> nat) option" where
  "from_text s h = do {
     (root, h1) \<leftarrow> from_text_loop s 0 None h;
     Some (\<lparr>bt_root = root\<rparr>, h1) }"

definition text_len :: "btext \<Rightarrow> usize" where
  "text_len t = (case bt_root t of None \<Rightarrow> 0 | Some n \<Rightarrow> scalars n)"

definition text_is_empty :: "btext \<Rightarrow> bool" where
  "text_is_empty t = (bt_root t = None)"

definition byte_len :: "btext \<Rightarrow> usize" where
  "byte_len t = (case bt_root t of None \<Rightarrow> 0 | Some n \<Rightarrow> nbytes n)"

definition line_count :: "btext \<Rightarrow> usize" where
  "line_count t = (case bt_root t of None \<Rightarrow> 1 | Some n \<Rightarrow> newlines n + 1)"

definition validate_range :: "btext \<Rightarrow> range \<Rightarrow> text_error + unit" where
  "validate_range t r =
     (if range_start r > range_end r \<or> range_end r > text_len t
      then Inl TextInvalidRange else Inr ())"

definition slice :: "btext \<Rightarrow> range \<Rightarrow> (text_error + rstr) option" where
  "slice t r =
     (case validate_range t r of
        Inl e \<Rightarrow> Some (Inl e)
      | Inr _ \<Rightarrow>
          (case bt_root t of
             None \<Rightarrow> Some (Inr [])
           | Some n \<Rightarrow> map_option Inr (append_range n r [])))"

definition to_text :: "btext \<Rightarrow> rstr option" where
  "to_text t =
     (case bt_root t of None \<Rightarrow> Some [] | Some n \<Rightarrow> append_range n (mk_range 0 (scalars n)) [])"

definition replace :: "btext \<Rightarrow> range \<Rightarrow> rstr \<Rightarrow> nat \<Rightarrow> (text_error + btext \<times> nat) option" where
  "replace t r s h =
     (case validate_range t r of
        Inl e \<Rightarrow> Some (Inl e)
      | Inr _ \<Rightarrow>
          if range_is_empty r \<and> s = [] then Some (Inr (t, h))
          else do {
            (left, tail, h1) \<leftarrow> split_root (bt_root t) (range_start r) h;
            (_, right, h2) \<leftarrow> split_root tail (range_len r) h1;
            (middle, h3) \<leftarrow> from_text s h2;
            (lm, h4) \<leftarrow> join left (bt_root middle) h3;
            (root, h5) \<leftarrow> join lm right h4;
            Some (Inr (\<lparr>bt_root = root\<rparr>, h5)) })"

definition line_start :: "btext \<Rightarrow> usize \<Rightarrow> (text_error + usize) option" where
  "line_start t line =
     (if line \<ge> line_count t then Some (Inl TextInvalidLine)
      else if line = 0 then Some (Inr 0)
      else do {
        n \<leftarrow> bt_root t;
        q \<leftarrow> newline_position n (line - 1);
        Some (Inr (q + 1)) })"

definition line_column :: "btext \<Rightarrow> usize \<Rightarrow> (text_error + usize \<times> usize) option" where
  "line_column t position =
     (if position > text_len t then Some (Inl TextInvalidRange)
      else do {
        line \<leftarrow> (case bt_root t of None \<Rightarrow> Some 0 | Some n \<Rightarrow> newlines_before n position);
        started \<leftarrow> line_start t line;
        (case started of
           Inl e \<Rightarrow> Some (Inl e)
         | Inr start \<Rightarrow> do { col \<leftarrow> checked_sub position start; Some (Inr (line, col)) }) })"

definition line_span :: "btext \<Rightarrow> usize \<Rightarrow> (text_error + range) option" where
  "line_span t line = do {
     started \<leftarrow> line_start t line;
     (case started of
        Inl e \<Rightarrow> Some (Inl e)
      | Inr start \<Rightarrow>
          if line + 1 < line_count t then do {
            following \<leftarrow> line_start t (line + 1);
            (case following of
               Inl e \<Rightarrow> Some (Inl e)
             | Inr next \<Rightarrow> do { stop \<leftarrow> checked_sub next 1; Some (Inr (mk_range start stop)) }) }
          else Some (Inr (mk_range start (text_len t)))) }"

definition shares_root :: "btext \<Rightarrow> btext \<Rightarrow> bool" where
  "shares_root t u =
     (case (bt_root t, bt_root u) of
        (None, None) \<Rightarrow> True
      | (Some l, Some r) \<Rightarrow> nd_addr (info l) = nd_addr (info r)
      | _ \<Rightarrow> False)"

definition pieces :: "btext \<Rightarrow> usize \<Rightarrow> piece list option" where
  "pieces t limit =
     (case bt_root t of None \<Rightarrow> Some [] | Some n \<Rightarrow> collect_pieces n [] limit)"

section \<open>Well-formed chunks and their index tables\<close>

definition count_nl :: "rstr \<Rightarrow> nat" where
  "count_nl s = length (filter ((=) NEWLINE) s)"

definition nl_positions :: "rstr \<Rightarrow> nat list" where
  "nl_positions s = filter (\<lambda>i. s ! i = NEWLINE) [0..<length s]"

definition wf_chunk :: "chunk \<Rightarrow> bool" where
  "wf_chunk c \<longleftrightarrow> c = chunk_new (ch_addr c) (ch_text c) \<and> str_len (ch_text c) \<le> CHUNK_BYTES"

lemma count_nl_simps [simp]:
  "count_nl [] = 0"
  "count_nl (c # s) = (if c = NEWLINE then Suc (count_nl s) else count_nl s)"
  "count_nl (s @ t) = count_nl s + count_nl t"
  by (simp_all add: count_nl_def)

lemma chunk_scan_scalars:
  "snd (snd (chunk_scan (char_indices_from off s) idx sa nl n)) = n + length s"
  by (induction s arbitrary: off idx sa nl n) auto

lemma chunk_scan_samples:
  "fst (chunk_scan (char_indices_from off s) idx sa nl n) =
     sa @ map (\<lambda>i. as_u16 (off + str_len (take i s)))
            (filter (\<lambda>i. (idx + i) mod SCALAR_SAMPLE = 0) [0..<length s])"
proof (induction s arbitrary: off idx sa nl n)
  case (Cons c s)
  have "[0..<length (c # s)] = 0 # map Suc [0..<length s]"
    by (simp add: map_Suc_upt upt_conv_Cons del: upt_Suc)
  then show ?case
    by (simp add: Cons.IH filter_map comp_def add.assoc del: upt_Suc)
qed simp

lemma chunk_scan_newlines:
  "fst (snd (chunk_scan (char_indices_from off s) idx sa nl n)) =
     nl @ map (\<lambda>i. as_u16 (idx + i)) (nl_positions s)"
proof (induction s arbitrary: off idx sa nl n)
  case (Cons c s)
  have "[0..<length (c # s)] = 0 # map Suc [0..<length s]"
    by (simp add: map_Suc_upt upt_conv_Cons del: upt_Suc)
  then show ?case
    by (simp add: Cons.IH nl_positions_def filter_map comp_def del: upt_Suc)
qed (simp add: nl_positions_def)

lemma filter_multiples:
  "filter (\<lambda>i. i mod SCALAR_SAMPLE = 0) [0..<n] =
     map (\<lambda>k. SCALAR_SAMPLE * k) [0..<(n + 31) div SCALAR_SAMPLE]"
proof (induction n)
  case (Suc n)
  show ?case
  proof (cases "n mod 32 = 0")
    case True
    then obtain k where n: "n = 32 * k" by (metis mult_div_mod_eq add_0_right)
    have "(n + 31) div 32 = k" "(Suc n + 31) div 32 = Suc k" unfolding n by presburger+
    with Suc True n show ?thesis by (simp add: SCALAR_SAMPLE_def)
  next
    case False
    define k r where "k = n div 32" and "r = n mod 32"
    then have n: "n = 32 * k + r" and r: "0 < r" "r < 32" using False by simp_all
    have "(r + 31) div 32 = 1" "(Suc r + 31) div 32 = 1" using r by (auto intro: div_nat_eqI)
    then have "(Suc n + 31) div 32 = (n + 31) div 32"
      unfolding n by (metis (no_types, lifting) add.assoc add_Suc_right div_mult_self4 zero_neq_numeral)
    with Suc False show ?thesis by (simp add: SCALAR_SAMPLE_def)
  qed
qed (simp add: SCALAR_SAMPLE_def)

lemma chunk_new_sel [simp]:
  "ch_addr (chunk_new a s) = a"
  "ch_text (chunk_new a s) = s"
  "ch_scalars (chunk_new a s) = length s"
  "ch_newlines (chunk_new a s) = map as_u16 (nl_positions s)"
  using chunk_scan_scalars [of 0 s 0 "[]" "[]" 0] chunk_scan_newlines [of 0 s 0 "[]" "[]" 0]
  by (auto simp: chunk_new_def char_indices_def split: prod.split)

lemma chunk_new_samples:
  "ch_samples (chunk_new a s) =
     map (\<lambda>k. as_u16 (str_len (take (SCALAR_SAMPLE * k) s))) [0..<(length s + 31) div SCALAR_SAMPLE]"
  using chunk_scan_samples [of 0 s 0 "[]" "[]" 0]
  by (auto simp: chunk_new_def char_indices_def filter_multiples split: prod.split)

lemma wf_chunk_new [simp]: "wf_chunk (chunk_new a s) \<longleftrightarrow> str_len s \<le> CHUNK_BYTES"
  by (simp add: wf_chunk_def)

lemma as_u16_id: "n \<le> CHUNK_BYTES \<Longrightarrow> as_u16 n = n"
  by (simp add: as_u16_def CHUNK_BYTES_def)

lemma str_len_take_le: "str_len (take i s) \<le> str_len s"
proof -
  have "str_len s = str_len (take i s) + str_len (drop i s)"
    by (metis append_take_drop_id str_len_simps(3))
  then show ?thesis by simp
qed

lemma wf_chunk_scalars: "wf_chunk c \<Longrightarrow> ch_scalars c = length (ch_text c)"
  by (metis wf_chunk_def chunk_new_sel(3))

lemma length_wf_chunk: "wf_chunk c \<Longrightarrow> length (ch_text c) \<le> CHUNK_BYTES"
  using length_le_str_len [of "ch_text c"] by (simp add: wf_chunk_def)

lemma wf_chunk_newlines:
  assumes "wf_chunk c"
  shows "ch_newlines c = nl_positions (ch_text c)"
proof -
  have "ch_newlines c = map as_u16 (nl_positions (ch_text c))"
    using assms by (metis wf_chunk_def chunk_new_sel(4))
  also have "\<dots> = nl_positions (ch_text c)"
    using length_wf_chunk [OF assms] by (intro map_idI) (auto simp: nl_positions_def as_u16_id)
  finally show ?thesis .
qed

text \<open>The sampled index finds the byte offset of every scalar of a chunk.\<close>

lemma byte_offset_wf:
  assumes "wf_chunk c" "i \<le> length (ch_text c)"
  shows "byte_offset c i = Some (str_len (take i (ch_text c)))"
proof (cases "i = length (ch_text c)")
  case True
  with assms show ?thesis by (simp add: byte_offset_def wf_chunk_scalars)
next
  case False
  let ?s = "ch_text c" and ?k = "i div SCALAR_SAMPLE"
  let ?p = "take (SCALAR_SAMPLE * ?k) ?s" and ?r = "drop (SCALAR_SAMPLE * ?k) ?s"
  from False assms have i: "i < length ?s" by simp
  have le: "SCALAR_SAMPLE * ?k \<le> i" "i = SCALAR_SAMPLE * ?k + i mod SCALAR_SAMPLE" by simp_all
  have k: "?k < (length ?s + 31) div SCALAR_SAMPLE"
    using i by (simp add: SCALAR_SAMPLE_def)
  have samples: "ch_samples c = map (\<lambda>k. as_u16 (str_len (take (SCALAR_SAMPLE * k) ?s)))
      [0..<(length ?s + 31) div SCALAR_SAMPLE]"
    using assms(1) by (metis wf_chunk_def chunk_new_samples)
  have small: "str_len ?p \<le> CHUNK_BYTES"
    using assms(1) str_len_take_le [of _ ?s] by (meson wf_chunk_def le_trans)
  have sample: "ch_samples c ! ?k = str_len ?p"
    using k small by (simp add: samples as_u16_id)
  have len: "?k < length (ch_samples c)" using k by (simp add: samples)
  have drop: "byte_drop (str_len ?p) ?s = Some ?r"
    using byte_drop_append [of ?p ?r] by simp
  have m: "i mod SCALAR_SAMPLE < length ?r" unfolding length_drop using i le by linarith
  have "take i ?s = ?p @ take (i mod SCALAR_SAMPLE) ?r"
    using take_drop_split [OF le(1), of ?s] le by (simp add: minus_mult_div_eq_mod)
  then show ?thesis
    using assms(1) i len m
    by (simp add: byte_offset_def wf_chunk_scalars sample drop char_indices_def
        nth_char_indices_from)
qed

lemma nl_positions_take:
  assumes "a \<le> length s"
  shows "takeWhile (\<lambda>i. i < a) (nl_positions s) = nl_positions (take a s)"
proof -
  have split: "[0..<length s] = [0..<a] @ [a..<length s]"
    using assms by (metis le0 le_add_diff_inverse upt_add_eq_append)
  have "nl_positions s = filter (\<lambda>i. s ! i = NEWLINE) [0..<a] @ filter (\<lambda>i. s ! i = NEWLINE) [a..<length s]"
    by (simp add: nl_positions_def split)
  moreover have "takeWhile (\<lambda>i. i < a) (filter (\<lambda>i. s ! i = NEWLINE) [a..<length s]) = []"
    by (auto simp: takeWhile_eq_Nil_iff dest!: hd_in_set)
  moreover have "\<And>i. i \<in> set (filter (\<lambda>i. s ! i = NEWLINE) [0..<a]) \<Longrightarrow> i < a" by simp
  ultimately have "takeWhile (\<lambda>i. i < a) (nl_positions s) = filter (\<lambda>i. s ! i = NEWLINE) [0..<a]"
    by (metis (no_types, lifting) takeWhile_append2 append_Nil2)
  also have "\<dots> = nl_positions (take a s)"
    using assms by (auto simp: nl_positions_def min_def intro!: filter_cong)
  finally show ?thesis .
qed

lemma length_nl_positions [simp]: "length (nl_positions s) = count_nl s"
proof (induction s rule: rev_induct)
  case (snoc c s)
  have "filter (\<lambda>i. (s @ [c]) ! i = NEWLINE) [0..<length s] = nl_positions s"
    by (auto simp: nl_positions_def nth_append intro!: filter_cong)
  with snoc show ?case by (simp add: nl_positions_def)
qed (simp add: nl_positions_def)

lemma partition_newlines:
  "wf_chunk c \<Longrightarrow> a \<le> length (ch_text c) \<Longrightarrow>
     partition_point (\<lambda>i. i < a) (ch_newlines c) = count_nl (take a (ch_text c))"
  by (simp add: partition_point_def wf_chunk_newlines nl_positions_take)

section \<open>Well-formed trees and their cells\<close>

text \<open>
  A cell is a scalar with its provenance: the address of its chunk and its index there. The cells of
  a text are what the editing operations rearrange; its scalars are their last components.
\<close>

type_synonym cell = "nat \<times> nat \<times> scalar"

definition piece_cells :: "piece \<Rightarrow> cell list" where
  "piece_cells p =
     map (\<lambda>i. (ch_addr (pc_chunk p), i, ch_text (pc_chunk p) ! i))
       [range_start (pc_range p)..<range_end (pc_range p)]"

definition wf_piece :: "piece \<Rightarrow> bool" where
  "wf_piece p \<longleftrightarrow> wf_chunk (pc_chunk p) \<and> range_start (pc_range p) < range_end (pc_range p) \<and>
     range_end (pc_range p) \<le> length (ch_text (pc_chunk p))"

fun leaves :: "node \<Rightarrow> piece list" where
  "leaves (Leaf i p) = [p]"
| "leaves (Branch i l r) = leaves l @ leaves r"

definition cells :: "node \<Rightarrow> cell list" where
  "cells n = concat (map piece_cells (leaves n))"

abbreviation scalars_of :: "cell list \<Rightarrow> rstr" where
  "scalars_of cs \<equiv> map (\<lambda>(a, i, x). x) cs"

definition node_text :: "node \<Rightarrow> rstr" where
  "node_text n = scalars_of (cells n)"

fun wf_node :: "node \<Rightarrow> bool" where
  "wf_node (Leaf i p) \<longleftrightarrow> wf_piece p \<and> nd_scalars i = length (piece_cells p) \<and>
     nd_bytes i = str_len (scalars_of (piece_cells p)) \<and>
     nd_newlines i = count_nl (scalars_of (piece_cells p)) \<and> nd_height i = 1"
| "wf_node (Branch i l r) \<longleftrightarrow> wf_node l \<and> wf_node r \<and>
     nd_scalars i = scalars l + scalars r \<and> nd_bytes i = nbytes l + nbytes r \<and>
     nd_newlines i = newlines l + newlines r \<and> nd_height i = max (height l) (height r) + 1 \<and>
     height l \<le> height r + 1 \<and> height r \<le> height l + 1"

definition wf_root :: "root \<Rightarrow> bool" where
  "wf_root r = (case r of None \<Rightarrow> True | Some n \<Rightarrow> wf_node n)"

definition root_cells :: "root \<Rightarrow> cell list" where
  "root_cells r = (case r of None \<Rightarrow> [] | Some n \<Rightarrow> cells n)"

abbreviation wf_text :: "btext \<Rightarrow> bool" where
  "wf_text t \<equiv> wf_root (bt_root t)"

abbreviation text_cells :: "btext \<Rightarrow> cell list" where
  "text_cells t \<equiv> root_cells (bt_root t)"

text \<open>The abstraction function of a text: its sequence of scalars.\<close>

definition text_str :: "btext \<Rightarrow> rstr" where
  "text_str t = scalars_of (text_cells t)"

text \<open>
  Editing never reorders the scalars of a chunk: along a text the cells of one chunk have ascending
  indices. The binary search over the spans of a chunk relies on it.
\<close>

definition ordered :: "cell list \<Rightarrow> bool" where
  "ordered cs \<longleftrightarrow> sorted_wrt (\<lambda>(a, i, x) (b, j, y). a = b \<longrightarrow> i < j) cs"

lemma ordered_append:
  "ordered (cs @ ds) \<longleftrightarrow> ordered cs \<and> ordered ds \<and>
     (\<forall>(a, i, x) \<in> set cs. \<forall>(b, j, y) \<in> set ds. a = b \<longrightarrow> i < j)"
  by (auto simp: ordered_def sorted_wrt_append)

lemma ordered_Nil [simp]: "ordered []"
  by (simp add: ordered_def)

lemma ordered_piece [simp]: "ordered (piece_cells p)"
  by (simp add: ordered_def piece_cells_def sorted_wrt_map sorted_wrt_upt)

lemma wf_root_simps [simp]: "wf_root None" "wf_root (Some n) = wf_node n"
  by (simp_all add: wf_root_def)

lemma root_cells_simps [simp]: "root_cells None = []" "root_cells (Some n) = cells n"
  by (simp_all add: root_cells_def)

lemma cells_simps [simp]:
  "cells (Leaf i p) = piece_cells p" "cells (Branch i l r) = cells l @ cells r"
  by (simp_all add: cells_def)

lemma length_piece_cells [simp]: "length (piece_cells p) = piece_len p"
  by (simp add: piece_cells_def piece_len_def range_len_def)

lemma scalars_of_piece:
  assumes "wf_piece p"
  shows "scalars_of (piece_cells p) =
    take (piece_len p) (drop (range_start (pc_range p)) (ch_text (pc_chunk p)))"
proof (rule nth_equalityI)
  fix j assume "j < length (scalars_of (piece_cells p))"
  with assms show "scalars_of (piece_cells p) ! j =
    take (piece_len p) (drop (range_start (pc_range p)) (ch_text (pc_chunk p))) ! j"
    by (simp add: piece_cells_def piece_len_def range_len_def wf_piece_def)
qed (use assms in \<open>auto simp: wf_piece_def piece_len_def range_len_def\<close>)

lemma wf_node_counts:
  "wf_node n \<Longrightarrow> scalars n = length (cells n)"
  "wf_node n \<Longrightarrow> nbytes n = str_len (node_text n)"
  "wf_node n \<Longrightarrow> newlines n = count_nl (node_text n)"
  by (induction n) (auto simp: node_text_def)

lemma wf_node_nonempty: "wf_node n \<Longrightarrow> cells n \<noteq> []"
  by (induction n) (auto simp: wf_piece_def piece_cells_def)

lemma wf_node_scalars_pos: "wf_node n \<Longrightarrow> 0 < scalars n"
  using wf_node_counts(1) wf_node_nonempty by (metis length_greater_0_conv)

lemma wf_node_height_pos: "wf_node n \<Longrightarrow> 0 < height n"
  by (cases n) auto

text \<open>Slicing a chunk through its sampled byte index gives the scalars between two positions.\<close>

lemma chunk_slice:
  assumes "wf_chunk c" "a \<le> b" "b \<le> length (ch_text c)"
  shows "do { x \<leftarrow> byte_offset c a; y \<leftarrow> byte_offset c b; str_slice (ch_text c) x y } =
    Some (take (b - a) (drop a (ch_text c)))"
proof -
  let ?s = "ch_text c"
  have s: "?s = take a ?s @ take (b - a) (drop a ?s) @ drop b ?s"
    using assms(2) by (simp add: drop_take_append_drop)
  have "take b ?s = take a ?s @ take (b - a) (drop a ?s)"
    by (rule take_drop_split [OF assms(2)])
  then have "str_slice ?s (str_len (take a ?s)) (str_len (take b ?s)) = Some (take (b - a) (drop a ?s))"
    using str_slice_append [of "take a ?s" "take (b - a) (drop a ?s)" "drop b ?s"] s by simp
  with assms show ?thesis by (simp add: byte_offset_wf)
qed

lemma piece_text_wf:
  assumes "wf_piece p"
  shows "piece_text p = Some (scalars_of (piece_cells p))"
proof -
  from assms have "wf_chunk (pc_chunk p)" "range_start (pc_range p) \<le> range_end (pc_range p)"
    "range_end (pc_range p) \<le> length (ch_text (pc_chunk p))"
    by (auto simp: wf_piece_def)
  from chunk_slice [OF this] show ?thesis
    by (simp add: piece_text_def scalars_of_piece [OF assms] piece_len_def range_len_def)
qed

lemma newline_range_wf:
  assumes "wf_piece p"
  shows "newline_range p = mk_range (count_nl (take (range_start (pc_range p)) (ch_text (pc_chunk p))))
      (count_nl (take (range_end (pc_range p)) (ch_text (pc_chunk p))))"
    and "range_len (newline_range p) = count_nl (scalars_of (piece_cells p))"
proof -
  let ?s = "ch_text (pc_chunk p)" and ?a = "range_start (pc_range p)" and ?b = "range_end (pc_range p)"
  have le: "?a \<le> ?b" "?b \<le> length ?s" and wf: "wf_chunk (pc_chunk p)"
    using assms by (auto simp: wf_piece_def)
  then show nr: "newline_range p = mk_range (count_nl (take ?a ?s)) (count_nl (take ?b ?s))"
    by (simp add: newline_range_def partition_newlines)
  have "take ?b ?s = take ?a ?s @ take (?b - ?a) (drop ?a ?s)"
    by (rule take_drop_split [OF le(1)])
  then show "range_len (newline_range p) = count_nl (scalars_of (piece_cells p))"
    by (simp add: nr scalars_of_piece [OF assms] piece_len_def range_len_def)
qed

lemma node_leaf_wf:
  assumes "wf_piece p"
  obtains n where "node_leaf p h = Some (n, Suc h)" "wf_node n" "leaves n = [p]" "height n = 1"
  using assms that by (simp add: node_leaf_def piece_text_wf newline_range_wf(2))

section \<open>Balancing, joining and splitting\<close>

lemma node_branch_wf:
  assumes "wf_node l" "wf_node r" "height l \<le> height r + 1" "height r \<le> height l + 1"
    and "node_branch l r h = (n, h')"
  shows "wf_node n" "leaves n = leaves l @ leaves r" "height n = max (height l) (height r) + 1"
  using assms by (auto simp: node_branch_def)

lemma children_wf:
  assumes "wf_node n" "1 < height n"
  obtains l r where "children n = Some (l, r)" "wf_node l" "wf_node r" "leaves n = leaves l @ leaves r"
    "height n = max (height l) (height r) + 1" "height l \<le> height r + 1" "height r \<le> height l + 1"
  using assms by (cases n) auto

lemma balance_left_wf:
  assumes l: "wf_node l" and r: "wf_node r" and hl: "height l = height r + 2"
  shows "\<exists>n h'. balance l r h = Some (n, h') \<and> wf_node n \<and> leaves n = leaves l @ leaves r \<and>
    height l \<le> height n \<and> height n \<le> height l + 1"
proof -
  obtain a b where ab: "children l = Some (a, b)" "wf_node a" "wf_node b" "leaves l = leaves a @ leaves b"
    "height l = max (height a) (height b) + 1" "height a \<le> height b + 1" "height b \<le> height a + 1"
    using children_wf [OF l] hl by auto
  show ?thesis
  proof (cases "height a \<ge> height b")
    case True
    with ab hl r show ?thesis by (auto simp: balance_def node_branch_def)
  next
    case False
    moreover have "1 < height b" using False wf_node_height_pos [OF ab(2)] by simp
    then obtain b1 b2 where "children b = Some (b1, b2)" "wf_node b1" "wf_node b2"
      "leaves b = leaves b1 @ leaves b2" "height b = max (height b1) (height b2) + 1"
      "height b1 \<le> height b2 + 1" "height b2 \<le> height b1 + 1"
      using children_wf [OF ab(3)] by auto
    ultimately show ?thesis using ab hl r by (auto simp: balance_def node_branch_def)
  qed
qed

lemma balance_right_wf:
  assumes l: "wf_node l" and r: "wf_node r" and hr: "height r = height l + 2"
  shows "\<exists>n h'. balance l r h = Some (n, h') \<and> wf_node n \<and> leaves n = leaves l @ leaves r \<and>
    height r \<le> height n \<and> height n \<le> height r + 1"
proof -
  obtain b c where bc: "children r = Some (b, c)" "wf_node b" "wf_node c" "leaves r = leaves b @ leaves c"
    "height r = max (height b) (height c) + 1" "height b \<le> height c + 1" "height c \<le> height b + 1"
    using children_wf [OF r] hr by auto
  show ?thesis
  proof (cases "height c \<ge> height b")
    case True
    with bc hr l show ?thesis by (auto simp: balance_def node_branch_def)
  next
    case False
    moreover have "1 < height b" using False wf_node_height_pos [OF bc(3)] by simp
    then obtain b1 b2 where "children b = Some (b1, b2)" "wf_node b1" "wf_node b2"
      "leaves b = leaves b1 @ leaves b2" "height b = max (height b1) (height b2) + 1"
      "height b1 \<le> height b2 + 1" "height b2 \<le> height b1 + 1"
      using children_wf [OF bc(2)] by auto
    ultimately show ?thesis using bc hr l by (auto simp: balance_def node_branch_def)
  qed
qed

lemma balance_wf:
  assumes "wf_node l" "wf_node r" "height l \<le> height r + 2" "height r \<le> height l + 2"
  shows "\<exists>n h'. balance l r h = Some (n, h') \<and> wf_node n \<and> leaves n = leaves l @ leaves r \<and>
    height n \<le> max (height l) (height r) + 1 \<and>
    (if height l \<le> height r + 1 \<and> height r \<le> height l + 1
     then height n = max (height l) (height r) + 1 else max (height l) (height r) \<le> height n)"
proof -
  consider "height l = height r + 2" | "height r = height l + 2"
    | "height l \<le> height r + 1" "height r \<le> height l + 1"
    using assms(3,4) by linarith
  then show ?thesis
  proof cases
    case 1
    from balance_left_wf [OF assms(1,2) 1, of h] 1 show ?thesis by auto
  next
    case 2
    from balance_right_wf [OF assms(1,2) 2, of h] 2 show ?thesis by auto
  next
    case 3
    with assms show ?thesis by (auto simp: balance_def node_branch_def)
  qed
qed

lemma join_node_wf:
  assumes "wf_node l" "wf_node r"
  shows "\<exists>n h'. join (Some l) (Some r) h = Some (Some n, h') \<and> wf_node n \<and>
    leaves n = leaves l @ leaves r \<and>
    max (height l) (height r) \<le> height n \<and> height n \<le> max (height l) (height r) + 1"
  using assms
proof (induction "size l + size r" arbitrary: l r h rule: less_induct)
  case less
  consider (left) "height l > height r + 1" | (right) "height r > height l + 1"
    | (even) "height l \<le> height r + 1" "height r \<le> height l + 1"
    by linarith
  then show ?case
  proof cases
    case left
    with less.prems obtain i a b where l: "l = Branch i a b" by (cases l) auto
    from l less.prems have wf: "wf_node a" "wf_node b" and hl: "height l = max (height a) (height b) + 1"
      and ab: "height a \<le> height b + 1" "height b \<le> height a + 1" by auto
    obtain m h1 where m: "join (Some b) (Some r) h = Some (Some m, h1)" "wf_node m"
      "leaves m = leaves b @ leaves r" "max (height b) (height r) \<le> height m"
      "height m \<le> max (height b) (height r) + 1"
      using less.hyps [of b r h] l wf less.prems by auto
    obtain n h2 where n: "balance a m h1 = Some (n, h2)" "wf_node n" "leaves n = leaves a @ leaves m"
      "height n \<le> max (height a) (height m) + 1"
      "if height a \<le> height m + 1 \<and> height m \<le> height a + 1
       then height n = max (height a) (height m) + 1 else max (height a) (height m) \<le> height n"
      using balance_wf [OF wf(1) m(2), of h1] m(4,5) ab hl left by auto
    have "max (height l) (height r) \<le> height n \<and> height n \<le> max (height l) (height r) + 1"
      using n(4,5) m(4,5) hl ab left by (auto split: if_splits)
    then show ?thesis
      using left m(1,3) n(1-3) unfolding l by (auto simp: join.simps(3) [of "Branch i a b" r])
  next
    case right
    with less.prems obtain i b c where r: "r = Branch i b c" by (cases r) auto
    from r less.prems have wf: "wf_node b" "wf_node c" and hr: "height r = max (height b) (height c) + 1"
      and bc: "height b \<le> height c + 1" "height c \<le> height b + 1" by auto
    obtain m h1 where m: "join (Some l) (Some b) h = Some (Some m, h1)" "wf_node m"
      "leaves m = leaves l @ leaves b" "max (height l) (height b) \<le> height m"
      "height m \<le> max (height l) (height b) + 1"
      using less.hyps [of l b h] r wf less.prems by auto
    obtain n h2 where n: "balance m c h1 = Some (n, h2)" "wf_node n" "leaves n = leaves m @ leaves c"
      "height n \<le> max (height m) (height c) + 1"
      "if height m \<le> height c + 1 \<and> height c \<le> height m + 1
       then height n = max (height m) (height c) + 1 else max (height m) (height c) \<le> height n"
      using balance_wf [OF m(2) wf(2), of h1] m(4,5) bc hr right by auto
    have "max (height l) (height r) \<le> height n \<and> height n \<le> max (height l) (height r) + 1"
      using n(4,5) m(4,5) hr bc right by (auto split: if_splits)
    then show ?thesis
      using right m(1,3) n(1-3) unfolding r by (auto simp: join.simps(3) [of l "Branch i b c"])
  next
    case even
    with less.prems show ?thesis by (auto simp: join.simps(3) [of l r] node_branch_def)
  qed
qed

definition root_leaves :: "root \<Rightarrow> piece list" where
  "root_leaves r = (case r of None \<Rightarrow> [] | Some n \<Rightarrow> leaves n)"

lemma root_leaves_simps [simp]: "root_leaves None = []" "root_leaves (Some n) = leaves n"
  by (simp_all add: root_leaves_def)

lemma root_cells_leaves: "root_cells r = concat (map piece_cells (root_leaves r))"
  by (cases r) (simp_all add: cells_def)

lemma join_wf:
  assumes "wf_root l" "wf_root r"
  obtains n h' where "join l r h = Some (n, h')" "wf_root n"
    "root_leaves n = root_leaves l @ root_leaves r" "root_cells n = root_cells l @ root_cells r"
proof -
  have "\<exists>n h'. join l r h = Some (n, h') \<and> wf_root n \<and> root_leaves n = root_leaves l @ root_leaves r"
  proof (cases l; cases r)
    fix x y assume "l = Some x" "r = Some y"
    with assms join_node_wf [of x y h] show ?thesis by fastforce
  qed (use assms in auto)
  then show ?thesis using that by (auto simp: root_cells_leaves)
qed

text \<open>The allocation counter only grows.\<close>

lemma balance_mono: "balance l r h = Some (n, h') \<Longrightarrow> h \<le> h'"
  by (auto simp: balance_def node_branch_def bind_eq_Some_conv split: if_splits)

lemma join_mono: "join l r h = Some (n, h') \<Longrightarrow> h \<le> h'"
proof (induction l r h arbitrary: n h' rule: join.induct)
  case (3 left right h)
  consider (left) "height left > height right + 1" | (right) "height right > height left + 1"
    "\<not> height left > height right + 1"
    | (even) "\<not> height left > height right + 1" "\<not> height right > height left + 1"
    by linarith
  then show ?case
  proof cases
    case left
    with "3.prems" obtain i a b m h1 n' where "left = Branch i a b"
      "join (Some b) (Some right) h = Some (Some m, h1)" "balance a m h1 = Some (n', h')"
      by (auto simp: join.simps(3) [of left] bind_eq_Some_conv split: node.splits)
    with left "3.IH"(1) [OF left, of i a b] balance_mono [of a m h1] show ?thesis by force
  next
    case right
    with "3.prems" obtain i b c m h1 n' where "right = Branch i b c"
      "join (Some left) (Some b) h = Some (Some m, h1)" "balance m c h1 = Some (n', h')"
      by (auto simp: join.simps(3) [of left right] bind_eq_Some_conv split: node.splits)
    with right "3.IH"(2) [of i b c] balance_mono [of m c h1] show ?thesis by force
  qed (use "3.prems" in \<open>auto simp: join.simps(3) [of left right] node_branch_def\<close>)
qed auto

lemma piece_split_wf:
  assumes "wf_piece p" "0 < at" "at < piece_len p" "piece_split p at = (l, r)"
  shows "wf_piece l" "wf_piece r" "piece_cells l = take at (piece_cells p)"
    "piece_cells r = drop at (piece_cells p)" "pc_chunk l = pc_chunk p" "pc_chunk r = pc_chunk p"
proof -
  let ?a = "range_start (pc_range p)" and ?b = "range_end (pc_range p)"
  from assms have l: "l = p\<lparr>pc_range := mk_range ?a (?a + at)\<rparr>"
    and r: "r = p\<lparr>pc_range := mk_range (?a + at) ?b\<rparr>"
    by (auto simp: piece_split_def Let_def)
  have ab: "?a + at < ?b" using assms by (simp add: piece_len_def range_len_def)
  then show "wf_piece l" "wf_piece r" using assms by (auto simp: wf_piece_def l r)
  have "[?a..<?b] = [?a..<?a + at] @ [?a + at..<?b]"
    using ab by (metis le_add1 less_imp_le upt_add_eq_append le_add_diff_inverse)
  then have "piece_cells p = piece_cells l @ piece_cells r" by (simp add: piece_cells_def l r)
  moreover have "length (piece_cells l) = at" by (simp add: l piece_len_def)
  ultimately show "piece_cells l = take at (piece_cells p)" "piece_cells r = drop at (piece_cells p)"
    by simp_all
  show "pc_chunk l = pc_chunk p" "pc_chunk r = pc_chunk p" by (simp_all add: l r)
qed

lemma split_node_wf:
  assumes "wf_node n" "at \<le> length (cells n)"
  shows "\<exists>l r h'. split_node n at h = Some (l, r, h') \<and> wf_root l \<and> wf_root r \<and>
    root_cells l = take at (cells n) \<and> root_cells r = drop at (cells n)"
  using assms
proof (induction n at h rule: split_node.induct)
  case (1 i p at h)
  show ?case
  proof (cases "at = 0 \<or> at = nd_scalars i")
    case True
    with "1.prems" show ?thesis by auto
  next
    case False
    obtain lp rp where sp: "piece_split p at = (lp, rp)" by fastforce
    from False "1.prems" have p: "wf_piece p" "0 < at" "at < piece_len p" by auto
    note split = piece_split_wf [OF p sp]
    obtain l where l: "node_leaf lp h = Some (l, Suc h)" "wf_node l" "leaves l = [lp]"
      using node_leaf_wf [OF split(1)] by metis
    obtain r where r: "node_leaf rp (Suc h) = Some (r, Suc (Suc h))" "wf_node r" "leaves r = [rp]"
      using node_leaf_wf [OF split(2)] by metis
    show ?thesis using False sp split l r by (simp add: cells_def)
  qed
next
  case (2 i left right at h)
  show ?case
  proof (cases "at = 0 \<or> at = nd_scalars i")
    case True
    with "2.prems" show ?thesis by (auto simp: wf_node_counts)
  next
    case False
    from "2.prems" have wf: "wf_node left" "wf_node right"
      and len: "scalars left = length (cells left)" by (auto simp: wf_node_counts)
    show ?thesis
    proof (cases "at < scalars left")
      case True
      obtain a b h1 where ab: "split_node left at h = Some (a, b, h1)" "wf_root a" "wf_root b"
        "root_cells a = take at (cells left)" "root_cells b = drop at (cells left)"
        using "2.IH"(1) False True wf(1) len by auto
      obtain n h2 where "join b (Some right) h1 = Some (n, h2)" "wf_root n"
        "root_cells n = root_cells b @ cells right"
        using join_wf [of b "Some right" h1] ab(3) wf(2) by (metis wf_root_simps(2) root_cells_simps(2))
      with ab True False len show ?thesis by auto
    next
      case ge: False
      have "at - scalars left \<le> length (cells right)" using "2.prems"(2) len by simp
      then obtain a b h1 where ab: "split_node right (at - scalars left) h = Some (a, b, h1)"
        "wf_root a" "wf_root b" "root_cells a = take (at - scalars left) (cells right)"
        "root_cells b = drop (at - scalars left) (cells right)"
        using "2.IH"(2) False ge wf(2) by auto
      obtain n h2 where "join (Some left) a h1 = Some (n, h2)" "wf_root n"
        "root_cells n = cells left @ root_cells a"
        using join_wf [of "Some left" a h1] ab(2) wf(1) by (metis wf_root_simps(2) root_cells_simps(2))
      with ab ge False len show ?thesis by auto
    qed
  qed
qed

lemma split_node_mono: "split_node n at h = Some (l, r, h') \<Longrightarrow> h \<le> h'"
proof (induction n at h arbitrary: l r h' rule: split_node.induct)
  case (1 i p at h)
  then show ?case
    by (auto simp: node_leaf_def bind_eq_Some_conv split: if_splits prod.splits)
next
  case (2 i left right at h)
  consider "at = 0 \<or> at = nd_scalars i" | (left) "\<not> (at = 0 \<or> at = nd_scalars i)" "at < scalars left"
    | (right) "\<not> (at = 0 \<or> at = nd_scalars i)" "\<not> at < scalars left" by blast
  then show ?case
  proof cases
    case left
    with "2.prems" obtain b h1 where "split_node left at h = Some (l, b, h1)"
      "join b (Some right) h1 = Some (r, h')"
      by (auto simp: bind_eq_Some_conv)
    with left "2.IH"(1) join_mono show ?thesis by (meson le_trans)
  next
    case right
    with "2.prems" obtain a h1 where "split_node right (at - scalars left) h = Some (a, r, h1)"
      "join (Some left) a h1 = Some (l, h')"
      by (auto simp: bind_eq_Some_conv)
    with right "2.IH"(2) join_mono show ?thesis by (meson le_trans)
  qed (use "2.prems" in \<open>auto split: if_splits\<close>)
qed

lemma split_root_mono: "split_root t at h = Some (l, r, h') \<Longrightarrow> h \<le> h'"
  by (auto simp: split_root_def dest: split_node_mono split: option.splits)

lemma split_root_wf:
  assumes "wf_root t" "at \<le> length (root_cells t)"
  obtains l r h' where "split_root t at h = Some (l, r, h')" "wf_root l" "wf_root r"
    "root_cells l = take at (root_cells t)" "root_cells r = drop at (root_cells t)"
  using assms split_node_wf [of _ at h] by (cases t) (fastforce simp: split_root_def)+

section \<open>Building a text\<close>

lemma floor_boundary_le: "floor_boundary s n \<le> n"
  by (induction s n rule: floor_boundary.induct) (auto simp: le_SucI)

lemma floor_boundary_is: "is_char_boundary s (floor_boundary s n)"
  by (induction s n rule: floor_boundary.induct) (auto simp: is_char_boundary_def)

lemma floor_boundary_greatest: "is_char_boundary s m \<Longrightarrow> m \<le> n \<Longrightarrow> m \<le> floor_boundary s n"
  by (induction s n rule: floor_boundary.induct) (auto simp: le_Suc_eq)

lemma is_char_boundary_iff: "is_char_boundary s n \<longleftrightarrow> (\<exists>p r. s = p @ r \<and> str_len p = n)"
  by (auto simp: is_char_boundary_def byte_drop_Some_iff)

lemma append_eq_str_len:
  assumes "p @ r = q @ w" "str_len p \<le> str_len q"
  obtains m where "q = p @ m" "r = m @ w"
proof -
  from assms(1) obtain us where "p = q @ us \<and> us @ r = w \<or> p @ us = q \<and> r = us @ w"
    by (auto simp: append_eq_append_conv2)
  with assms(2) show ?thesis using that by auto
qed

text \<open>One round of the loop cuts a nonempty prefix of at most 4096 bytes off the rest.\<close>

lemma from_text_cut:
  assumes "s = p @ r" "r \<noteq> []"
  obtains m w where "r = m @ w" "m \<noteq> []" "str_len m \<le> CHUNK_BYTES"
    "floor_boundary s (min (str_len p + CHUNK_BYTES) (str_len s)) = str_len p + str_len m"
proof -
  let ?n = "min (str_len p + CHUNK_BYTES) (str_len s)"
  let ?stop = "floor_boundary s ?n"
  obtain c cs where r: "r = c # cs" using assms(2) by (cases r) auto
  have "is_char_boundary s (str_len (p @ [c]))"
    unfolding is_char_boundary_iff using assms(1) r by (intro exI [of _ "p @ [c]"] exI [of _ cs]) simp
  moreover have "str_len (p @ [c]) \<le> ?n"
    using assms(1) r le_trans [OF len_utf8_le [of c]] by (simp add: CHUNK_BYTES_def)
  ultimately have lower: "str_len p + len_utf8 c \<le> ?stop"
    using floor_boundary_greatest by fastforce
  obtain q w where q: "s = q @ w" "str_len q = ?stop"
    using floor_boundary_is [of s ?n] unfolding is_char_boundary_iff by metis
  have "p @ r = q @ w" "str_len p \<le> str_len q" using assms(1) q lower by auto
  then obtain m where m: "q = p @ m" "r = m @ w" by (rule append_eq_str_len)
  have "?stop \<le> str_len p + CHUNK_BYTES" using floor_boundary_le [of s ?n] by simp
  with q m have le: "str_len m \<le> CHUNK_BYTES" by simp
  have "0 < len_utf8 c" by simp
  then have "str_len p < str_len q" using lower q(2) by linarith
  then have "m \<noteq> []" using m(1) by auto
  then show ?thesis using that [of m w] q m le by simp
qed

lemma from_text_loop_wf:
  assumes "s = p @ r" "wf_root t" "scalars_of (root_cells t) = p"
  shows "\<exists>t' h'. from_text_loop s (str_len p) t h = Some (t', h') \<and> wf_root t' \<and>
    (\<exists>cs. root_cells t' = root_cells t @ cs \<and> scalars_of cs = r \<and>
      (\<forall>(a, i, x) \<in> set cs. h \<le> a) \<and> ordered cs)"
  using assms
proof (induction "length r" arbitrary: p r t h rule: less_induct)
  case less
  show ?case
  proof (cases "r = []")
    case True
    with less.prems show ?thesis by (subst from_text_loop.simps) auto
  next
    case False
    obtain m w where r: "r = m @ w" and m: "m \<noteq> []" "str_len m \<le> CHUNK_BYTES"
      and stop: "floor_boundary s (min (str_len p + CHUNK_BYTES) (str_len s)) = str_len p + str_len m"
      using from_text_cut [OF less.prems(1) False] by metis
    let ?p = "\<lparr>pc_chunk = chunk_new h m, pc_range = mk_range 0 (length m)\<rparr>"
    have wfp: "wf_piece ?p" using m by (simp add: wf_piece_def)
    obtain n where n: "node_leaf ?p (Suc h) = Some (n, Suc (Suc h))" "wf_node n" "leaves n = [?p]"
      using node_leaf_wf [OF wfp] by metis
    obtain t1 h2 where t1: "join t (Some n) (Suc (Suc h)) = Some (t1, h2)" "wf_root t1"
      "root_cells t1 = root_cells t @ cells n" "h < h2"
    proof -
      obtain t1 h2 where j: "join t (Some n) (Suc (Suc h)) = Some (t1, h2)" "wf_root t1"
        "root_cells t1 = root_cells t @ cells n"
        using join_wf [of t "Some n" "Suc (Suc h)"] less.prems(2) n(2)
        by (metis wf_root_simps(2) root_cells_simps(2))
      have "h < h2" using join_mono [OF j(1)] by simp
      with j that show ?thesis by blast
    qed
    have cn: "cells n = piece_cells ?p" using n(3) by (simp add: cells_def)
    have sn: "scalars_of (cells n) = m"
      using scalars_of_piece [OF wfp] by (simp add: cn piece_len_def)
    have "length w < length r" using r m by simp
    moreover have "s = (p @ m) @ w" using less.prems(1) r by simp
    moreover have "scalars_of (root_cells t1) = p @ m" using less.prems(3) t1(3) sn by simp
    ultimately obtain t' h' cs where rest: "from_text_loop s (str_len (p @ m)) t1 h2 = Some (t', h')"
      "wf_root t'" "root_cells t' = root_cells t1 @ cs" "scalars_of cs = w"
      "\<forall>(a, i, x) \<in> set cs. h2 \<le> a" "ordered cs"
      using less.hyps [of w "p @ m" t1 h2] t1(2) by blast
    have slice: "str_slice s (str_len p) (str_len p + str_len m) = Some m"
      using less.prems(1) r by (simp add: str_slice_append)
    have "0 < str_len m" using m(1) str_len_eq_0 [of m] by linarith
    moreover from this have "str_len p < str_len s" using less.prems(1) r by simp
    ultimately have guard: "str_len p < str_len s" "0 < str_len m" by simp_all
    then have "from_text_loop s (str_len p) t h = Some (t', h')"
      using guard stop slice n(1) t1(1) rest(1)
      by (simp add: from_text_loop.simps [of s "str_len p"] Let_def)
    moreover have "root_cells t' = root_cells t @ (cells n @ cs)" using rest(3) t1(3) by simp
    moreover have "scalars_of (cells n @ cs) = r" using sn rest(4) r by simp
    moreover have "\<forall>(a, i, x) \<in> set (cells n @ cs). h \<le> a"
      using rest(5) t1(4) by (auto simp: cn piece_cells_def)
    moreover have "ordered (cells n @ cs)"
    proof -
      have "a = h" if "(a, i, x) \<in> set (cells n)" for a i x
        using that by (auto simp: cn piece_cells_def)
      then have "\<forall>(a, i, x) \<in> set (cells n). \<forall>(b, j, y) \<in> set cs. a \<noteq> b"
        using rest(5) t1(4) by fastforce
      then show ?thesis using rest(6) unfolding ordered_append by (auto simp: cn)
    qed
    ultimately show ?thesis using rest(2) by blast
  qed
qed

lemma from_text_wf:
  obtains t h' where "from_text s h = Some (t, h')" "wf_text t" "text_str t = s"
    "\<And>a i x. (a, i, x) \<in> set (text_cells t) \<Longrightarrow> h \<le> a" "ordered (text_cells t)"
proof -
  obtain r h' cs where "from_text_loop s 0 None h = Some (r, h')" "wf_root r" "root_cells r = cs"
    "scalars_of cs = s" "\<forall>(a, i, x) \<in> set cs. h \<le> a" "ordered cs"
    using from_text_loop_wf [of s "[]" s None h] by auto
  then show ?thesis
    using that [of "\<lparr>bt_root = r\<rparr>" h'] by (fastforce simp: from_text_def text_str_def)
qed

section \<open>Reading a text\<close>

lemma wf_text_counts:
  "wf_text t \<Longrightarrow> text_len t = length (text_str t)"
  "wf_text t \<Longrightarrow> byte_len t = str_len (text_str t)"
  "wf_text t \<Longrightarrow> line_count t = Suc (count_nl (text_str t))"
  "wf_text t \<Longrightarrow> text_is_empty t \<longleftrightarrow> text_str t = []"
  by (cases "bt_root t";
      simp add: text_len_def byte_len_def line_count_def text_is_empty_def text_str_def
        wf_node_counts node_text_def wf_node_nonempty)+

text \<open>
  Visiting a range hands the visitor consecutive strings that make up exactly the scalars of the
  range, until the visitor stops.
\<close>

fun visit_all :: "('s \<Rightarrow> rstr \<Rightarrow> 's \<times> bool) \<Rightarrow> rstr list \<Rightarrow> 's \<Rightarrow> 's \<times> bool" where
  "visit_all visit [] s = (s, True)"
| "visit_all visit (x # xs) s =
     (let (s1, go) = visit s x in if go then visit_all visit xs s1 else (s1, False))"

lemma visit_all_append:
  "visit_all visit (xs @ ys) s =
     (let (s1, go) = visit_all visit xs s in if go then visit_all visit ys s1 else (s1, False))"
  by (induction xs arbitrary: s) (auto simp: Let_def split: prod.splits)

lemma visit_range_wf:
  assumes "wf_node n" "range_start r \<le> range_end r" "range_end r \<le> length (cells n)"
  shows "\<exists>xs. concat xs = take (range_len r) (drop (range_start r) (node_text n)) \<and>
    (\<forall>visit (s :: 's). visit_range n r visit s = Some (visit_all visit xs s))"
  using assms
proof (induction n arbitrary: r)
  case (Leaf i p)
  show ?case
  proof (cases "range_is_empty r")
    case True
    then show ?thesis by (intro exI [of _ "[]"]) (simp add: range_is_empty_def range_len_def)
  next
    case False
    let ?a = "range_start (pc_range p) + range_start r" and ?b = "range_start (pc_range p) + range_end r"
    let ?t = "take (range_len r) (drop ?a (ch_text (pc_chunk p)))"
    from Leaf.prems have wf: "wf_piece p" and le: "range_end r \<le> piece_len p" by auto
    then have "wf_chunk (pc_chunk p)" "?a \<le> ?b" "?b \<le> length (ch_text (pc_chunk p))"
      using Leaf.prems(2) by (auto simp: wf_piece_def piece_len_def range_len_def)
    from chunk_slice [OF this] have slice: "do { x \<leftarrow> byte_offset (pc_chunk p) ?a; y \<leftarrow> byte_offset (pc_chunk p) ?b;
        str_slice (ch_text (pc_chunk p)) x y } = Some ?t"
      by (simp add: range_len_def)
    have "visit_range (Leaf i p) r visit s = Some (visit_all visit [?t] s)" for visit and s :: 's
      using False slice by (auto simp: bind_eq_Some_conv split: prod.split)
    moreover have "concat [?t] = take (range_len r) (drop (range_start r) (node_text (Leaf i p)))"
      using le Leaf.prems(2)
      by (simp add: node_text_def scalars_of_piece [OF wf] drop_take take_take range_len_def add.commute min_def)
    ultimately show ?thesis by blast
  qed
next
  case (Branch i left right)
  let ?a = "range_start r" and ?b = "range_end r" and ?k = "scalars left"
  from Branch.prems have wf: "wf_node left" "wf_node right"
    and k: "?k = length (cells left)" by (auto simp: wf_node_counts)
  have kt: "?k = length (node_text left)" using k by (simp add: node_text_def)
  show ?case
  proof (cases "range_is_empty r")
    case True
    then show ?thesis by (intro exI [of _ "[]"]) (simp add: range_is_empty_def range_len_def)
  next
    case False
    have "\<exists>xs. concat xs = take (min ?b ?k - ?a) (drop ?a (node_text left)) \<and>
        (\<forall>visit (s :: 's). (if ?a < ?k then visit_range left (mk_range ?a (min ?b ?k)) visit s
          else Some (s, True)) = Some (visit_all visit xs s))"
    proof (cases "?a < ?k")
      case True
      then show ?thesis
        using Branch.IH(1) [of "mk_range ?a (min ?b ?k)"] Branch.prems(2) wf(1) k by auto
    next
      case False
      then show ?thesis by (intro exI [of _ "[]"]) simp
    qed
    then obtain xs where xs: "concat xs = take (min ?b ?k - ?a) (drop ?a (node_text left))"
      "\<And>visit (s :: 's). (if ?a < ?k then visit_range left (mk_range ?a (min ?b ?k)) visit s
          else Some (s, True)) = Some (visit_all visit xs s)"
      by auto
    have "\<exists>ys. concat ys = take (?b - ?k - (?a - ?k)) (drop (?a - ?k) (node_text right)) \<and>
        (\<forall>visit (s :: 's). (if ?b > ?k then visit_range right (mk_range (?a - ?k) (?b - ?k)) visit s
          else Some (s, True)) = Some (visit_all visit ys s))"
    proof (cases "?b > ?k")
      case True
      then show ?thesis
        using Branch.IH(2) [of "mk_range (?a - ?k) (?b - ?k)"] Branch.prems(2,3) wf(2) k by auto
    next
      case False
      then show ?thesis by (intro exI [of _ "[]"]) simp
    qed
    then obtain ys where ys: "concat ys = take (?b - ?k - (?a - ?k)) (drop (?a - ?k) (node_text right))"
      "\<And>visit (s :: 's). (if ?b > ?k then visit_range right (mk_range (?a - ?k) (?b - ?k)) visit s
          else Some (s, True)) = Some (visit_all visit ys s)"
      by auto
    have "visit_range (Branch i left right) r visit s = Some (visit_all visit (xs @ ys) s)"
      for visit and s :: 's
    proof -
      obtain s1 go where s1: "visit_all visit xs s = (s1, go)" by fastforce
      have "visit_range (Branch i left right) r visit s =
          (if go then Some (visit_all visit ys s1) else Some (s1, False))"
        using False s1 by (simp only: visit_range.simps xs(2)) (simp add: ys(2) [symmetric])
      then show ?thesis by (simp add: visit_all_append s1)
    qed
    moreover have "concat (xs @ ys) = take (?b - ?a) (drop ?a (node_text (Branch i left right)))"
    proof (cases "?a < ?k")
      case True
      then have "node_text (Branch i left right) = node_text left @ node_text right"
        and "min ?b ?k - ?a = min (?b - ?a) (?k - ?a)" by (auto simp: node_text_def)
      with True show ?thesis using kt by (auto simp: xs(1) ys(1) min_def)
    next
      case ge: False
      then have "?a \<ge> ?k" "?b - ?k - (?a - ?k) = ?b - ?a" by auto
      then show ?thesis using kt by (simp add: xs(1) ys(1) node_text_def)
    qed
    ultimately show ?thesis unfolding range_len_def by blast
  qed
qed

lemma visit_all_collect: "visit_all (\<lambda>out t. (out @ t, True)) xs s = (s @ concat xs, True)"
  by (induction xs arbitrary: s) auto

lemma append_range_wf:
  assumes "wf_node n" "range_start r \<le> range_end r" "range_end r \<le> length (cells n)"
  shows "append_range n r out = Some (out @ take (range_len r) (drop (range_start r) (node_text n)))"
proof -
  obtain xs where "concat xs = take (range_len r) (drop (range_start r) (node_text n))"
    "\<forall>visit (s :: rstr). visit_range n r visit s = Some (visit_all visit xs s)"
    using visit_range_wf [OF assms] by blast
  then show ?thesis by (simp add: append_range_def visit_all_collect)
qed

lemma to_text_wf: "wf_text t \<Longrightarrow> to_text t = Some (text_str t)"
  by (auto simp: to_text_def append_range_wf wf_node_counts text_str_def node_text_def split: option.split)

lemma slice_wf:
  assumes "wf_text t"
  shows "slice t r =
    (if range_start r \<le> range_end r \<and> range_end r \<le> length (text_str t)
     then Some (Inr (take (range_len r) (drop (range_start r) (text_str t))))
     else Some (Inl TextInvalidRange))"
  using assms
  by (auto simp: slice_def validate_range_def wf_text_counts append_range_wf text_str_def node_text_def
      range_len_def split: option.split)

section \<open>Editing a text\<close>

lemma replace_invalid:
  assumes "wf_text t" "\<not> (range_start r \<le> range_end r \<and> range_end r \<le> length (text_str t))"
  shows "replace t r s h = Some (Inl TextInvalidRange)"
  using assms by (auto simp: replace_def validate_range_def wf_text_counts)

lemma replace_wf:
  assumes t: "wf_text t" and r: "range_start r \<le> range_end r" "range_end r \<le> length (text_str t)"
  obtains t' h' cs where "replace t r s h = Some (Inr (t', h'))" "wf_text t'"
    "text_cells t' = take (range_start r) (text_cells t) @ cs @ drop (range_end r) (text_cells t)"
    "scalars_of cs = s" "\<And>a i x. (a, i, x) \<in> set cs \<Longrightarrow> h \<le> a" "ordered cs"
proof (cases "range_is_empty r \<and> s = []")
  case True
  then have "range_end r = range_start r" using r by (simp add: range_is_empty_def)
  then show ?thesis
    using that [of t h "[]"] True t r by (simp add: replace_def validate_range_def wf_text_counts)
next
  case False
  have len: "length (text_str t) = length (text_cells t)" by (simp add: text_str_def)
  obtain l tl h1 where split1: "split_root (bt_root t) (range_start r) h = Some (l, tl, h1)"
    "wf_root l" "wf_root tl" "root_cells l = take (range_start r) (text_cells t)"
    "root_cells tl = drop (range_start r) (text_cells t)" "h \<le> h1"
    using split_root_wf [OF t, of "range_start r" h] split_root_mono r len
    by (metis le_trans)
  obtain m rt h2 where split2: "split_root tl (range_len r) h1 = Some (m, rt, h2)" "wf_root rt"
    "root_cells rt = drop (range_len r) (root_cells tl)" "h1 \<le> h2"
  proof -
    have "range_len r \<le> length (root_cells tl)"
      using r len by (simp add: split1(5) range_len_def diff_le_mono)
    then show ?thesis using split_root_wf [OF split1(3)] split_root_mono that by metis
  qed
  obtain mid h3 where mid: "from_text s h2 = Some (mid, h3)" "wf_text mid" "text_str mid = s"
    "\<And>a i x. (a, i, x) \<in> set (text_cells mid) \<Longrightarrow> h2 \<le> a" "ordered (text_cells mid)"
    using from_text_wf by metis
  obtain lm h4 where lm: "join l (bt_root mid) h3 = Some (lm, h4)" "wf_root lm"
    "root_cells lm = root_cells l @ text_cells mid"
    using join_wf [OF split1(2) mid(2)] by metis
  obtain root h5 where root: "join lm rt h4 = Some (root, h5)" "wf_root root"
    "root_cells root = root_cells lm @ root_cells rt"
    using join_wf [OF lm(2) split2(2)] by metis
  have res: "replace t r s h = Some (Inr (\<lparr>bt_root = root\<rparr>, h5))"
    using False r split1(1) split2(1) mid(1) lm(1) root(1)
    by (auto simp: replace_def validate_range_def wf_text_counts [OF t])
  have "root_cells rt = drop (range_end r) (text_cells t)"
    using split2(3) split1(5) r by (simp add: range_len_def)
  then have cs: "root_cells root = take (range_start r) (text_cells t) @ text_cells mid @
      drop (range_end r) (text_cells t)"
    by (simp add: root(3) lm(3) split1(4))
  show ?thesis
  proof (rule that [of "\<lparr>bt_root = root\<rparr>" h5 "text_cells mid"])
    show "scalars_of (text_cells mid) = s" using mid(3) by (simp add: text_str_def)
    show "\<And>a i x. (a, i, x) \<in> set (text_cells mid) \<Longrightarrow> h \<le> a"
      using mid(4) split1(6) split2(4) by (meson le_trans)
  qed (use res root(2) cs mid(5) in auto)
qed

section \<open>Lines\<close>

lemma nl_positions_append:
  "nl_positions (s @ t) = nl_positions s @ map (\<lambda>i. length s + i) (nl_positions t)"
proof -
  have "[0..<length (s @ t)] = [0..<length s] @ map (\<lambda>i. length s + i) [0..<length t]"
    using upt_add_eq_append [of 0 "length s" "length t"] map_add_upt [of "length s" "length t"]
    by (simp add: add.commute)
  moreover have "filter (\<lambda>i. (s @ t) ! i = NEWLINE) [0..<length s] = nl_positions s"
    by (auto simp: nl_positions_def nth_append intro!: filter_cong)
  moreover have "filter (\<lambda>i. (s @ t) ! i = NEWLINE) (map (\<lambda>i. length s + i) [0..<length t]) =
      map (\<lambda>i. length s + i) (nl_positions t)"
    by (simp add: nl_positions_def filter_map comp_def)
  ultimately show ?thesis by (simp add: nl_positions_def)
qed

lemma nl_positions_Cons:
  "nl_positions (c # s) = (if c = NEWLINE then [0] else []) @ map Suc (nl_positions s)"
  using nl_positions_append [of "[c]" s] by (simp add: nl_positions_def)

lemma nl_positions_Nil [simp]: "nl_positions [] = []"
  by (simp add: nl_positions_def)

lemma nl_positions_bound: "k < count_nl s \<Longrightarrow> nl_positions s ! k < length s"
proof -
  assume "k < count_nl s"
  then have "nl_positions s ! k \<in> set (nl_positions s)" by simp
  then show ?thesis by (simp add: nl_positions_def)
qed

lemma piece_text_parts:
  assumes "wf_piece p"
  obtains pre post where "ch_text (pc_chunk p) = pre @ scalars_of (piece_cells p) @ post"
    "length pre = range_start (pc_range p)"
proof -
  let ?s = "ch_text (pc_chunk p)" and ?a = "range_start (pc_range p)" and ?b = "range_end (pc_range p)"
  have le: "?a \<le> ?b" "?b \<le> length ?s" using assms by (auto simp: wf_piece_def)
  have "?s = take ?a ?s @ take (?b - ?a) (drop ?a ?s) @ drop ?b ?s"
    using le by (simp add: drop_take_append_drop)
  then have "?s = take ?a ?s @ scalars_of (piece_cells p) @ drop ?b ?s"
    by (simp add: scalars_of_piece [OF assms] piece_len_def range_len_def)
  moreover have "length (take ?a ?s) = ?a" using le by simp
  ultimately show ?thesis by (rule that)
qed

lemma newline_position_wf:
  "wf_node n \<Longrightarrow> k < count_nl (node_text n) \<Longrightarrow> newline_position n k = Some (nl_positions (node_text n) ! k)"
proof (induction n k rule: newline_position.induct)
  case (1 i p k)
  then have wf: "wf_piece p" "wf_chunk (pc_chunk p)" by (auto simp: wf_piece_def)
  obtain pre post where s: "ch_text (pc_chunk p) = pre @ scalars_of (piece_cells p) @ post"
    and pre: "length pre = range_start (pc_range p)"
    by (rule piece_text_parts [OF wf(1)])
  have "take (range_start (pc_range p)) (ch_text (pc_chunk p)) = pre" using s pre by simp
  then have start: "range_start (newline_range p) = count_nl pre"
    by (simp add: newline_range_wf [OF wf(1)])
  have k: "k < count_nl (scalars_of (piece_cells p))" using "1.prems" by (simp add: node_text_def)
  have nls: "ch_newlines (pc_chunk p) = nl_positions pre @
      map (\<lambda>i. length pre + i) (nl_positions (scalars_of (piece_cells p) @ post))"
    by (simp add: wf_chunk_newlines [OF wf(2)] s nl_positions_append)
  have "ch_newlines (pc_chunk p) ! (count_nl pre + k) =
      length pre + nl_positions (scalars_of (piece_cells p)) ! k"
    using k by (simp add: nls nth_append nl_positions_append)
  moreover have "count_nl pre + k < length (ch_newlines (pc_chunk p))"
    using k by (simp add: nls nl_positions_append)
  ultimately show ?case
    using start pre by (simp add: node_text_def Let_def)
next
  case (2 i left right k)
  then have wf: "wf_node left" "wf_node right"
    and t: "node_text (Branch i left right) = node_text left @ node_text right"
    by (auto simp: node_text_def)
  show ?case
  proof (cases "k < newlines left")
    case True
    with "2.IH"(1) wf t show ?thesis by (simp add: wf_node_counts nl_positions_append nth_append)
  next
    case False
    with "2.IH"(2) "2.prems"(2) wf t show ?thesis
      by (simp add: wf_node_counts nl_positions_append nth_append node_text_def)
  qed
qed

lemma newlines_before_wf:
  "wf_node n \<Longrightarrow> q \<le> length (cells n) \<Longrightarrow> newlines_before n q = Some (count_nl (take q (node_text n)))"
proof (induction n q rule: newlines_before.induct)
  case (1 i p q)
  then have wf: "wf_piece p" "wf_chunk (pc_chunk p)" and q: "q \<le> piece_len p" by (auto simp: wf_piece_def)
  let ?s = "ch_text (pc_chunk p)" and ?a = "range_start (pc_range p)"
  have le: "?a + q \<le> length ?s" using wf q by (auto simp: wf_piece_def piece_len_def range_len_def)
  have "take (?a + q) ?s = take ?a ?s @ take q (scalars_of (piece_cells p))"
    using q by (simp add: take_add scalars_of_piece [OF wf(1)] min_def)
  then show ?case
    using le by (simp add: partition_newlines [OF wf(2)] newline_range_wf [OF wf(1)] node_text_def checked_sub_def)
next
  case (2 i left right q)
  then have wf: "wf_node left" "wf_node right"
    and t: "node_text (Branch i left right) = node_text left @ node_text right"
    and len: "length (node_text left) = length (cells left)"
    by (auto simp: node_text_def)
  show ?case
    using "2.IH" "2.prems"(2) wf len by (cases "q \<le> scalars left") (auto simp: t wf_node_counts)
qed

text \<open>The lines of a string, without their terminating newlines, and where each one starts.\<close>

fun split_lines :: "rstr \<Rightarrow> rstr list" where
  "split_lines [] = [[]]"
| "split_lines (c # s) =
     (if c = NEWLINE then [] # split_lines s
      else case split_lines s of [] \<Rightarrow> [[c]] | l # ls \<Rightarrow> (c # l) # ls)"

definition line_begin :: "rstr \<Rightarrow> nat \<Rightarrow> nat" where
  "line_begin s k = (if k = 0 then 0 else Suc (nl_positions s ! (k - 1)))"

definition line_stop :: "rstr \<Rightarrow> nat \<Rightarrow> nat" where
  "line_stop s k = (if k < count_nl s then nl_positions s ! k else length s)"

lemma split_lines_nonempty [simp]: "split_lines s \<noteq> []"
  by (cases s) (auto split: list.split)

lemma length_split_lines: "length (split_lines s) = Suc (count_nl s)"
  by (induction s) (auto split: list.split)

lemma split_lines_nth:
  "k \<le> count_nl s \<Longrightarrow> line_begin s k \<le> line_stop s k \<and> line_stop s k \<le> length s \<and>
     split_lines s ! k = take (line_stop s k - line_begin s k) (drop (line_begin s k) s)"
proof (induction s arbitrary: k)
  case (Cons c s)
  obtain l ls where ls: "split_lines s = l # ls" using split_lines_nonempty [of s] by (cases "split_lines s") auto
  show ?case
  proof (cases "c = NEWLINE")
    case nl: True
    show ?thesis
    proof (cases k)
      case 0
      then show ?thesis using nl by (simp add: line_begin_def line_stop_def nl_positions_Cons)
    next
      case (Suc j)
      then have j: "j \<le> count_nl s" using Cons.prems nl by simp
      have "line_begin (c # s) k = Suc (line_begin s j)"
        using Suc nl j by (auto simp: line_begin_def nl_positions_Cons nth_Cons split: nat.split)
      moreover have "line_stop (c # s) k = Suc (line_stop s j)"
        using Suc nl by (auto simp: line_stop_def nl_positions_Cons)
      ultimately show ?thesis using Cons.IH [OF j] Suc nl by simp
    qed
  next
    case other: False
    then have k: "k \<le> count_nl s" using Cons.prems by simp
    have stop: "line_stop (c # s) k = Suc (line_stop s k)"
      using other by (auto simp: line_stop_def nl_positions_Cons)
    show ?thesis
    proof (cases k)
      case 0
      then show ?thesis using Cons.IH [OF k] other stop ls by (simp add: line_begin_def)
    next
      case (Suc j)
      then have "line_begin (c # s) k = Suc (line_begin s k)"
        using other k by (simp add: line_begin_def nl_positions_Cons)
      then show ?thesis using Cons.IH [OF k] other stop ls Suc by simp
    qed
  qed
qed (simp add: line_begin_def line_stop_def)

lemma line_start_wf:
  assumes "wf_text t"
  shows "line_start t k =
    (if k \<le> count_nl (text_str t) then Some (Inr (line_begin (text_str t) k)) else Some (Inl TextInvalidLine))"
proof (cases "bt_root t")
  case None
  then show ?thesis by (simp add: line_start_def line_count_def text_str_def line_begin_def)
next
  case (Some n)
  with assms have wf: "wf_node n" by simp
  have t: "text_str t = node_text n" using Some by (simp add: text_str_def node_text_def)
  show ?thesis
    using Some wf wf_text_counts(3) [OF assms]
    by (auto simp: line_start_def line_begin_def t newline_position_wf)
qed

lemma line_span_wf:
  assumes "wf_text t"
  shows "line_span t k =
    (if k \<le> count_nl (text_str t)
     then Some (Inr (mk_range (line_begin (text_str t) k) (line_stop (text_str t) k)))
     else Some (Inl TextInvalidLine))"
  by (auto simp: line_span_def line_start_wf [OF assms] wf_text_counts [OF assms] line_stop_def
      line_begin_def checked_sub_def)

text \<open>The line of a position is the number of newlines before it; it starts at or before it.\<close>

lemma line_begin_count:
  assumes "q \<le> length s"
  shows "line_begin s (count_nl (take q s)) \<le> q"
    and "count_nl (take (q - line_begin s (count_nl (take q s))) (drop (line_begin s (count_nl (take q s))) s)) = 0"
proof -
  let ?k = "count_nl (take q s)"
  have nl: "nl_positions s = nl_positions (take q s) @ map (\<lambda>i. length (take q s) + i) (nl_positions (drop q s))"
    using nl_positions_append [of "take q s" "drop q s"] by simp
  show le: "line_begin s ?k \<le> q"
  proof (cases ?k)
    case (Suc j)
    then have "nl_positions s ! j = nl_positions (take q s) ! j" by (simp add: nl nth_append)
    moreover have "nl_positions (take q s) ! j < length (take q s)"
      using nl_positions_bound [of j "take q s"] Suc by simp
    ultimately show ?thesis using Suc by (simp add: line_begin_def)
  qed (simp add: line_begin_def)
  have "take q s = take (line_begin s ?k) s @ take (q - line_begin s ?k) (drop (line_begin s ?k) s)"
    by (rule take_drop_split [OF le])
  moreover have "count_nl (take (line_begin s ?k) s) = ?k"
  proof (cases ?k)
    case (Suc j)
    let ?x = "nl_positions s ! j"
    have j: "j < length (nl_positions s)" using Suc nl by simp
    have x: "?x < length s" "s ! ?x = NEWLINE"
      using nth_mem [OF j] by (auto simp: nl_positions_def)
    have "sorted_wrt (<) (nl_positions s)" by (simp add: nl_positions_def sorted_wrt_filter)
    have "nl_positions (take (Suc ?x) s) = takeWhile (\<lambda>i. i < Suc ?x) (nl_positions s)"
      using nl_positions_take [of "Suc ?x" s] x by simp
    also have "\<dots> = take (Suc j) (nl_positions s)"
    proof (rule takeWhile_eq_take_P_nth)
      fix i assume "i < Suc j" "i < length (nl_positions s)"
      then show "nl_positions s ! i < Suc ?x"
        using \<open>sorted_wrt (<) (nl_positions s)\<close> j
        by (metis less_SucE less_SucI lessI sorted_wrt_nth_less)
    next
      assume "Suc j < length (nl_positions s)"
      then show "\<not> nl_positions s ! Suc j < Suc ?x"
        using \<open>sorted_wrt (<) (nl_positions s)\<close> by (metis lessI less_Suc_eq not_less_iff_gr_or_eq sorted_wrt_nth_less)
    qed
    finally have "count_nl (take (Suc ?x) s) = Suc j"
      using j by (metis Suc_leI length_nl_positions length_take min.absorb2)
    then show ?thesis using Suc by (simp add: line_begin_def)
  qed (simp add: line_begin_def)
  ultimately show "count_nl (take (q - line_begin s ?k) (drop (line_begin s ?k) s)) = 0"
    by (metis add_cancel_left_right count_nl_simps(3))
qed

lemma line_column_wf:
  assumes "wf_text t"
  shows "line_column t q =
    (if q \<le> length (text_str t)
     then let k = count_nl (take q (text_str t)) in Some (Inr (k, q - line_begin (text_str t) k))
     else Some (Inl TextInvalidRange))"
proof (cases "q \<le> length (text_str t)")
  case True
  let ?k = "count_nl (take q (text_str t))"
  have "(case bt_root t of None \<Rightarrow> Some 0 | Some n \<Rightarrow> newlines_before n q) = Some ?k"
    using assms True
    by (cases "bt_root t") (simp_all add: text_str_def newlines_before_wf node_text_def)
  moreover have "?k \<le> count_nl (text_str t)"
    by (metis append_take_drop_id count_nl_simps(3) le_add1)
  ultimately show ?thesis
    using True line_begin_count(1) [OF True]
    by (simp add: line_column_def wf_text_counts [OF assms] line_start_wf [OF assms] Let_def checked_sub_def)
qed (simp add: line_column_def wf_text_counts [OF assms])

end
