(* ===== verification/BufferHeap.thy ===== *)
theory BufferHeap
  imports BufferText
begin

text \<open>
  The sharing discipline of the text tree. A heap is a history of allocations: it gives, for every
  address below the allocation counter, the node or chunk that was put there, and it is only ever
  extended. A text is live in a heap when each of its nodes and chunks sits at the address it
  carries. Two live texts whose roots have the same address therefore have the same root, and a
  provenance (chunk address and index) names one scalar: what \<open>Arc::ptr_eq\<close> and \<open>Arc::as_ptr\<close> are
  used for in \<open>buffer/text.rs\<close> and \<open>buffer/delta.rs\<close>.
\<close>

datatype heap_obj = ONode node | OChunk chunk

type_synonym heap = "nat \<Rightarrow> heap_obj"

fun live :: "heap \<Rightarrow> nat \<Rightarrow> node \<Rightarrow> bool" where
  "live H h (Leaf i p) \<longleftrightarrow> nd_addr i < h \<and> H (nd_addr i) = ONode (Leaf i p) \<and>
     ch_addr (pc_chunk p) < h \<and> H (ch_addr (pc_chunk p)) = OChunk (pc_chunk p)"
| "live H h (Branch i l r) \<longleftrightarrow> nd_addr i < h \<and> H (nd_addr i) = ONode (Branch i l r) \<and>
     live H h l \<and> live H h r"

definition live_root :: "heap \<Rightarrow> nat \<Rightarrow> root \<Rightarrow> bool" where
  "live_root H h r = (case r of None \<Rightarrow> True | Some n \<Rightarrow> live H h n)"

abbreviation live_text :: "heap \<Rightarrow> nat \<Rightarrow> btext \<Rightarrow> bool" where
  "live_text H h t \<equiv> live_root H h (bt_root t)"

definition heap_le :: "heap \<Rightarrow> nat \<Rightarrow> heap \<Rightarrow> nat \<Rightarrow> bool" where
  "heap_le H h H' h' \<longleftrightarrow> h \<le> h' \<and> (\<forall>a < h. H' a = H a)"

lemma live_root_simps [simp]: "live_root H h None" "live_root H h (Some n) = live H h n"
  by (simp_all add: live_root_def)

lemma heap_le_refl [simp]: "heap_le H h H h"
  by (simp add: heap_le_def)

lemma heap_le_trans [trans]: "heap_le H h H' h' \<Longrightarrow> heap_le H' h' H'' h'' \<Longrightarrow> heap_le H h H'' h''"
  by (auto simp: heap_le_def)

lemma heap_le_upd [simp]: "heap_le H h (H(h := x)) (Suc h)"
  by (simp add: heap_le_def)

lemma live_mono: "heap_le H h H' h' \<Longrightarrow> live H h n \<Longrightarrow> live H' h' n"
  by (induction n) (auto simp: heap_le_def)

lemma live_root_mono: "heap_le H h H' h' \<Longrightarrow> live_root H h r \<Longrightarrow> live_root H' h' r"
  by (cases r) (auto intro: live_mono)

lemma live_node_addr: "live H h n \<Longrightarrow> nd_addr (info n) < h \<and> H (nd_addr (info n)) = ONode n"
  by (cases n) auto

text \<open>Address equality of live roots is equality.\<close>

lemma live_same_addr:
  "live H h n \<Longrightarrow> live H h m \<Longrightarrow> nd_addr (info n) = nd_addr (info m) \<Longrightarrow> n = m"
  by (metis live_node_addr heap_obj.inject(1))

lemma shares_root_eq:
  assumes "live_text H h t" "live_text H h u" "shares_root t u"
  shows "bt_root t = bt_root u"
  using assms live_same_addr [of H h]
  by (cases "bt_root t"; cases "bt_root u") (auto simp: shares_root_def)

lemma live_leaves: "live H h n \<Longrightarrow> p \<in> set (leaves n) \<Longrightarrow>
    ch_addr (pc_chunk p) < h \<and> H (ch_addr (pc_chunk p)) = OChunk (pc_chunk p)"
  by (induction n) auto

lemma live_cell:
  assumes "live_root H h r" "(a, i, x) \<in> set (root_cells r)"
  shows "a < h \<and> (\<exists>c. H a = OChunk c \<and> x = ch_text c ! i)"
  using assms live_leaves [of H h]
  by (cases r) (fastforce simp: cells_def piece_cells_def)+

text \<open>A provenance names one scalar across all live texts.\<close>

lemma live_cells_coherent:
  assumes "live_root H h r" "live_root H h s" "(a, i, x) \<in> set (root_cells r)" "(a, i, y) \<in> set (root_cells s)"
  shows "x = y"
  using live_cell [OF assms(1,3)] live_cell [OF assms(2,4)] by auto

section \<open>Every operation keeps texts live\<close>

lemma node_branch_live:
  assumes "node_branch l r h = (n, h')" "live H h l" "live H h r"
  shows "\<exists>H'. heap_le H h H' h' \<and> live H' h' n"
proof (intro exI conjI)
  let ?H = "H(h := ONode n)"
  show le: "heap_le H h ?H h'" using assms(1) by (auto simp: node_branch_def)
  show "live ?H h' n"
    using assms(1) live_mono [OF le assms(2)] live_mono [OF le assms(3)] by (auto simp: node_branch_def)
qed

lemma node_leaf_live:
  assumes "node_leaf p h = Some (n, h')" "ch_addr (pc_chunk p) < h" "H (ch_addr (pc_chunk p)) = OChunk (pc_chunk p)"
  shows "\<exists>H'. heap_le H h H' h' \<and> live H' h' n"
proof (intro exI conjI)
  let ?H = "H(h := ONode n)"
  show "heap_le H h ?H h'" using assms(1) by (auto simp: node_leaf_def bind_eq_Some_conv)
  show "live ?H h' n" using assms by (auto simp: node_leaf_def bind_eq_Some_conv)
qed

lemma children_live: "children n = Some (l, r) \<Longrightarrow> live H h n \<Longrightarrow> live H h l \<and> live H h r"
  by (cases n) auto

lemma branch3_live:
  assumes "node_branch a b h = (x, h1)" "node_branch c d h1 = (y, h2)" "node_branch x y h2 = (n, h3)"
    and "live H h a" "live H h b" "live H h c" "live H h d"
  shows "\<exists>H'. heap_le H h H' h3 \<and> live H' h3 n"
proof -
  obtain H1 where 1: "heap_le H h H1 h1" "live H1 h1 x" using node_branch_live [OF assms(1,4,5)] by blast
  obtain H2 where 2: "heap_le H1 h1 H2 h2" "live H2 h2 y"
    using node_branch_live [OF assms(2) live_mono [OF 1(1) assms(6)] live_mono [OF 1(1) assms(7)]] by blast
  obtain H3 where 3: "heap_le H2 h2 H3 h3" "live H3 h3 n"
    using node_branch_live [OF assms(3) live_mono [OF 2(1) 1(2)] 2(2)] by blast
  have "heap_le H h H3 h3" using 1(1) 2(1) 3(1) heap_le_trans by blast
  with 3(2) show ?thesis by blast
qed

lemma branch2_live:
  assumes "node_branch a b h = (x, h1)" "node_branch c x h1 = (n, h2) \<or> node_branch x c h1 = (n, h2)"
    and "live H h a" "live H h b" "live H h c"
  shows "\<exists>H'. heap_le H h H' h2 \<and> live H' h2 n"
proof -
  obtain H1 where 1: "heap_le H h H1 h1" "live H1 h1 x" using node_branch_live [OF assms(1,3,4)] by blast
  note c = live_mono [OF 1(1) assms(5)]
  obtain H2 where "heap_le H1 h1 H2 h2" "live H2 h2 n"
    using assms(2) node_branch_live [of c x h1 n h2 H1] node_branch_live [of x c h1 n h2 H1] 1(2) c by blast
  with 1(1) show ?thesis using heap_le_trans by blast
qed

lemma balance_live:
  assumes "balance l r h = Some (n, h')" "live H h l" "live H h r"
  shows "\<exists>H'. heap_le H h H' h' \<and> live H' h' n"
proof -
  consider (left) "height l > height r + 1"
    | (right) "\<not> height l > height r + 1" "height r > height l + 1"
    | (even) "\<not> height l > height r + 1" "\<not> height r > height l + 1" by blast
  then show ?thesis
  proof cases
    case left
    then obtain a b where ab: "children l = Some (a, b)"
      using assms(1) by (auto simp: balance_def bind_eq_Some_conv)
    note lab = children_live [OF ab assms(2)]
    show ?thesis
    proof (cases "height a \<ge> height b")
      case True
      with assms(1) left ab show ?thesis
        using branch2_live [of b r h _ _ a] lab assms(3)
        by (auto simp: balance_def split: prod.splits)
    next
      case False
      with assms(1) left ab obtain b1 b2 where b: "children b = Some (b1, b2)"
        by (auto simp: balance_def bind_eq_Some_conv)
      with assms(1) left ab False show ?thesis
        using branch3_live [of a b1 h _ _ b2 r] lab children_live [OF b] assms(3)
        by (auto simp: balance_def split: prod.splits)
    qed
  next
    case right
    then obtain b c where bc: "children r = Some (b, c)"
      using assms(1) by (auto simp: balance_def bind_eq_Some_conv)
    note lbc = children_live [OF bc assms(3)]
    show ?thesis
    proof (cases "height c \<ge> height b")
      case True
      with assms(1) right bc show ?thesis
        using branch2_live [of l b h _ _ c] lbc assms(2)
        by (auto simp: balance_def split: prod.splits)
    next
      case False
      with assms(1) right bc obtain b1 b2 where b: "children b = Some (b1, b2)"
        by (auto simp: balance_def bind_eq_Some_conv)
      with assms(1) right bc False show ?thesis
        using branch3_live [of l b1 h _ _ b2 c] lbc children_live [OF b] assms(2)
        by (auto simp: balance_def split: prod.splits)
    qed
  next
    case even
    with assms show ?thesis using node_branch_live [of l r h n h' H] by (simp add: balance_def)
  qed
qed

lemma join_live:
  "join l r h = Some (n, h') \<Longrightarrow> live_root H h l \<Longrightarrow> live_root H h r \<Longrightarrow>
     \<exists>H'. heap_le H h H' h' \<and> live_root H' h' n"
proof (induction l r h arbitrary: n h' rule: join.induct)
  case (3 left right h)
  consider (left) "height left > height right + 1"
    | (right) "height right > height left + 1" "\<not> height left > height right + 1"
    | (even) "\<not> height left > height right + 1" "\<not> height right > height left + 1"
    by linarith
  then show ?case
  proof cases
    case left
    with "3.prems" obtain i a b m h1 x where l: "left = Branch i a b"
      and j: "join (Some b) (Some right) h = Some (Some m, h1)" and x: "balance a m h1 = Some (x, h')" "n = Some x"
      by (auto simp: join.simps(3) [of left] bind_eq_Some_conv split: node.splits)
    obtain H1 where H1: "heap_le H h H1 h1" "live H1 h1 m"
      using "3.IH"(1) [OF left l j] "3.prems"(2,3) l by auto
    have "live H h a" using "3.prems"(2) l by simp
    with balance_live [OF x(1) live_mono [OF H1(1)] H1(2)] show ?thesis
      using H1(1) heap_le_trans x(2) by fastforce
  next
    case right
    with "3.prems" obtain i b c m h1 x where r: "right = Branch i b c"
      and j: "join (Some left) (Some b) h = Some (Some m, h1)" and x: "balance m c h1 = Some (x, h')" "n = Some x"
      by (auto simp: join.simps(3) [of left right] bind_eq_Some_conv split: node.splits)
    obtain H1 where H1: "heap_le H h H1 h1" "live H1 h1 m"
      using "3.IH"(2) [OF right(2,1) r j] "3.prems"(2,3) r by auto
    have "live H h c" using "3.prems"(3) r by simp
    with balance_live [OF x(1) H1(2) live_mono [OF H1(1)]] show ?thesis
      using H1(1) heap_le_trans x(2) by fastforce
  next
    case even
    with "3.prems" show ?thesis
      using node_branch_live [of left right h _ h' H]
      by (auto simp: join.simps(3) [of left right] split: prod.splits)
  qed
qed (auto intro: exI [of _ H])

lemma split_node_live:
  "split_node n at h = Some (l, r, h') \<Longrightarrow> live H h n \<Longrightarrow>
     \<exists>H'. heap_le H h H' h' \<and> live_root H' h' l \<and> live_root H' h' r"
proof (induction n at h arbitrary: l r h' rule: split_node.induct)
  case (1 i p at h)
  show ?case
  proof (cases "at = 0 \<or> at = nd_scalars i")
    case True
    with "1.prems" show ?thesis by (auto intro: exI [of _ H] split: if_splits)
  next
    case False
    with "1.prems"(1) obtain lp rp ln h1 rn where sp: "piece_split p at = (lp, rp)"
      and ln: "node_leaf lp h = Some (ln, h1)" and rn: "node_leaf rp h1 = Some (rn, h')"
      and lr: "l = Some ln" "r = Some rn"
      by (auto simp: bind_eq_Some_conv split: prod.splits)
    have c: "pc_chunk lp = pc_chunk p" "pc_chunk rp = pc_chunk p"
      using sp by (auto simp: piece_split_def Let_def)
    obtain H1 where H1: "heap_le H h H1 h1" "live H1 h1 ln"
      using node_leaf_live [OF ln, of H] "1.prems"(2) c by auto
    then have "ch_addr (pc_chunk rp) < h1" "H1 (ch_addr (pc_chunk rp)) = OChunk (pc_chunk rp)"
      using "1.prems"(2) c by (auto simp: heap_le_def)
    from node_leaf_live [where H = H1, OF rn this] obtain H2 where
      H2: "heap_le H1 h1 H2 h'" "live H2 h' rn" by blast
    have "heap_le H h H2 h'" using H1(1) H2(1) by (rule heap_le_trans)
    moreover have "live H2 h' ln" using H2(1) H1(2) by (rule live_mono)
    ultimately show ?thesis using H2(2) lr by auto
  qed
next
  case (2 i left right at h)
  consider "at = 0 \<or> at = nd_scalars i" | (left) "\<not> (at = 0 \<or> at = nd_scalars i)" "at < scalars left"
    | (right) "\<not> (at = 0 \<or> at = nd_scalars i)" "\<not> at < scalars left" by blast
  then show ?case
  proof cases
    case left
    with "2.prems"(1) obtain b h1 where s: "split_node left at h = Some (l, b, h1)"
      and j: "join b (Some right) h1 = Some (r, h')"
      by (auto simp: bind_eq_Some_conv)
    obtain H1 where H1: "heap_le H h H1 h1" "live_root H1 h1 l" "live_root H1 h1 b"
      using "2.IH"(1) s left "2.prems"(2) by fastforce
    have "live_root H1 h1 (Some right)" using live_mono [OF H1(1)] "2.prems"(2) by simp
    from join_live [OF j H1(3) this] obtain H2 where "heap_le H1 h1 H2 h'" "live_root H2 h' r" by blast
    with H1 show ?thesis using heap_le_trans live_root_mono by blast
  next
    case right
    with "2.prems"(1) obtain a h1 where s: "split_node right (at - scalars left) h = Some (a, r, h1)"
      and j: "join (Some left) a h1 = Some (l, h')"
      by (auto simp: bind_eq_Some_conv)
    obtain H1 where H1: "heap_le H h H1 h1" "live_root H1 h1 a" "live_root H1 h1 r"
      using "2.IH"(2) s right "2.prems"(2) by fastforce
    have "live_root H1 h1 (Some left)" using live_mono [OF H1(1)] "2.prems"(2) by simp
    from join_live [OF j this H1(2)] obtain H2 where "heap_le H1 h1 H2 h'" "live_root H2 h' l" by blast
    with H1 show ?thesis using heap_le_trans live_root_mono by blast
  qed (use "2.prems" in \<open>auto intro: exI [of _ H] split: if_splits\<close>)
qed

lemma split_root_live:
  assumes "split_root t at h = Some (l, r, h')" "live_root H h t"
  shows "\<exists>H'. heap_le H h H' h' \<and> live_root H' h' l \<and> live_root H' h' r"
  using assms split_node_live [of _ at h l r h' H]
  by (cases t) (auto simp: split_root_def intro: exI [of _ H])

lemma from_text_loop_live:
  "from_text_loop s start t h = Some (t', h') \<Longrightarrow> live_root H h t \<Longrightarrow>
     \<exists>H'. heap_le H h H' h' \<and> live_root H' h' t'"
proof (induction s start t h arbitrary: H rule: from_text_loop.induct)
  case (1 s start t h)
  show ?case
  proof (cases "start < str_len s")
    case False
    with "1.prems" show ?thesis
      by (auto simp: from_text_loop.simps [of s start] intro: exI [of _ H])
  next
    case True
    define stop where "stop = floor_boundary s (min (start + CHUNK_BYTES) (str_len s))"
    from True "1.prems"(1) have lt: "start < stop"
      by (auto simp: from_text_loop.simps [of s start] stop_def Let_def split: if_splits)
    with True "1.prems"(1) obtain m n h1 t1 h2 where
      m: "str_slice s start stop = Some m"
      and n: "node_leaf \<lparr>pc_chunk = chunk_new h m, pc_range = mk_range 0 (length m)\<rparr> (Suc h) = Some (n, h1)"
      and j: "join t (Some n) h1 = Some (t1, h2)" and rest: "from_text_loop s stop t1 h2 = Some (t', h')"
      by (auto simp: from_text_loop.simps [of s start] stop_def [symmetric] Let_def bind_eq_Some_conv)
    let ?H0 = "H(h := OChunk (chunk_new h m))"
    obtain H1 where H1: "heap_le ?H0 (Suc h) H1 h1" "live H1 h1 n"
      using node_leaf_live [OF n, of ?H0] by auto
    have le1: "heap_le H h H1 h1" using heap_le_upd H1(1) by (rule heap_le_trans)
    obtain H2 where H2: "heap_le H1 h1 H2 h2" "live_root H2 h2 t1"
      using join_live [OF j live_root_mono [OF le1 "1.prems"(2)]] H1(2) by auto
    obtain H3 where "heap_le H2 h2 H3 h'" "live_root H3 h' t'"
      using "1.IH" [OF True stop_def lt m refl n [unfolded chunk_new_sel(3) [of h m, symmetric]] refl j refl rest H2(2)] by blast
    with le1 H2(1) show ?thesis using heap_le_trans by blast
  qed
qed

lemma from_text_live:
  assumes "from_text s h = Some (t, h')"
  shows "\<exists>H'. heap_le H h H' h' \<and> live_text H' h' t"
  using assms from_text_loop_live [of s 0 None h _ h' H] by (auto simp: from_text_def bind_eq_Some_conv)

lemma replace_live:
  assumes "replace t r s h = Some (Inr (t', h'))" "live_text H h t"
  shows "\<exists>H'. heap_le H h H' h' \<and> live_text H' h' t'"
proof (cases "range_is_empty r \<and> s = []")
  case True
  with assms show ?thesis by (auto simp: replace_def intro: exI [of _ H] split: sum.splits)
next
  case False
  with assms(1) obtain l tl h1 x rt h2 mid h3 lm h4 where
    s1: "split_root (bt_root t) (range_start r) h = Some (l, tl, h1)"
    and s2: "split_root tl (range_len r) h1 = Some (x, rt, h2)"
    and m: "from_text s h2 = Some (mid, h3)" and j1: "join l (bt_root mid) h3 = Some (lm, h4)"
    and j2: "join lm rt h4 = Some (bt_root t', h')"
    by (auto simp: replace_def bind_eq_Some_conv split: sum.splits)
  obtain H1 where H1: "heap_le H h H1 h1" "live_root H1 h1 l" "live_root H1 h1 tl"
    using split_root_live [OF s1 assms(2)] by blast
  obtain H2 where H2: "heap_le H1 h1 H2 h2" "live_root H2 h2 rt"
    using split_root_live [OF s2 H1(3)] by blast
  obtain H3 where H3: "heap_le H2 h2 H3 h3" "live_text H3 h3 mid"
    using from_text_live [OF m] by blast
  have l3: "live_root H3 h3 l" using H1(2) H2(1) H3(1) live_root_mono by blast
  obtain H4 where H4: "heap_le H3 h3 H4 h4" "live_root H4 h4 lm"
    using join_live [OF j1 l3 H3(2)] by blast
  have r4: "live_root H4 h4 rt" using H2(2) H3(1) H4(1) live_root_mono by blast
  obtain H5 where H5: "heap_le H4 h4 H5 h'" "live_text H5 h' t'"
    using join_live [OF j2 H4(2) r4] by blast
  have "heap_le H h H5 h'" using H1(1) H2(1) H3(1) H4(1) H5(1) heap_le_trans by meson
  with H5(2) show ?thesis by blast
qed

end
