(* ===== verification/BufferDelta.thy ===== *)
theory BufferDelta
  imports BufferHeap
begin

text \<open>
  Deltas of \<open>crates/relation-kernel/src/buffer/delta.rs\<close>: sorted, disjoint replacements in the
  coordinates of one base revision; their normalisation, application, conflict test, rebasing over a
  concurrent delta, marker rebasing, and their reconstruction from the provenance of a view's
  pieces under a work budget.

  The budget is threaded through as state, because a failed \<open>between\<close> leaves it partly spent and a
  caller may go on using it. \<open>None\<close> is a panic, \<open>Inl\<close> a \<open>DeltaError\<close>.
\<close>

section \<open>Data\<close>

record replacement =
  rp_range :: range
  rp_text :: rstr

record delta =
  dl_replacements :: "replacement list"

datatype delta_error =
    DeltaInvalidRange | DeltaOutOfOrder | DeltaForeignProvenance | DeltaBudgetExceeded | DeltaConflict

datatype insertion_affinity = Before | After

record delta_budget =
  bg_pieces :: usize
  bg_text_bytes :: usize
  bg_replacements :: usize

record base_span =
  sp_range :: range
  sp_offset :: usize

abbreviation rp_start :: "replacement \<Rightarrow> usize" where "rp_start r \<equiv> range_start (rp_range r)"
abbreviation rp_end :: "replacement \<Rightarrow> usize" where "rp_end r \<equiv> range_end (rp_range r)"

definition mk_replacement :: "usize \<Rightarrow> usize \<Rightarrow> rstr \<Rightarrow> replacement" where
  "mk_replacement a b s = \<lparr>rp_range = mk_range a b, rp_text = s\<rparr>"

definition delta_default :: delta where
  "delta_default = \<lparr>dl_replacements = []\<rparr>"

definition budget_default :: delta_budget where
  "budget_default = \<lparr>bg_pieces = 4096, bg_text_bytes = 1048576, bg_replacements = 1024\<rparr>"

section \<open>The budget\<close>

type_synonym 'a budgeted = "delta_budget \<Rightarrow> ((delta_error + 'a) \<times> delta_budget) option"

definition bret :: "'a \<Rightarrow> 'a budgeted" where
  "bret x b = Some (Inr x, b)"

definition bfail :: "delta_error \<Rightarrow> 'a budgeted" where
  "bfail e b = Some (Inl e, b)"

definition bthen :: "'a budgeted \<Rightarrow> ('a \<Rightarrow> 'b budgeted) \<Rightarrow> 'b budgeted" where
  "bthen m f b =
     (case m b of
        None \<Rightarrow> None
      | Some (Inl e, b') \<Rightarrow> Some (Inl e, b')
      | Some (Inr x, b') \<Rightarrow> f x b')"

definition budget_pieces :: "usize \<Rightarrow> unit budgeted" where
  "budget_pieces n b =
     (case checked_sub (bg_pieces b) n of
        None \<Rightarrow> Some (Inl DeltaBudgetExceeded, b)
      | Some k \<Rightarrow> Some (Inr (), b\<lparr>bg_pieces := k\<rparr>))"

definition budget_text :: "usize \<Rightarrow> unit budgeted" where
  "budget_text n b =
     (case checked_sub (bg_text_bytes b) n of
        None \<Rightarrow> Some (Inl DeltaBudgetExceeded, b)
      | Some k \<Rightarrow> Some (Inr (), b\<lparr>bg_text_bytes := k\<rparr>))"

section \<open>Normalisation\<close>

fun delta_new_loop :: "replacement list \<Rightarrow> replacement list \<Rightarrow> delta_error + replacement list" where
  "delta_new_loop [] normalized = Inr normalized"
| "delta_new_loop (r # rs) normalized =
     (if rp_start r > rp_end r then Inl DeltaInvalidRange
      else if range_is_empty (rp_range r) \<and> rp_text r = [] then delta_new_loop rs normalized
      else if normalized \<noteq> [] \<and> rp_end (last normalized) > rp_start r then Inl DeltaOutOfOrder
      else if normalized \<noteq> [] \<and> rp_end (last normalized) = rp_start r then
        (let previous = last normalized in
         delta_new_loop rs (butlast normalized @
           [mk_replacement (rp_start previous) (rp_end r) (rp_text previous @ rp_text r)]))
      else delta_new_loop rs (normalized @ [r]))"

definition delta_new :: "replacement list \<Rightarrow> delta_error + delta" where
  "delta_new rs =
     (case delta_new_loop rs [] of
        Inl e \<Rightarrow> Inl e
      | Inr normalized \<Rightarrow> Inr \<lparr>dl_replacements = normalized\<rparr>)"

definition delta_is_empty :: "delta \<Rightarrow> bool" where
  "delta_is_empty d = (dl_replacements d = [])"

section \<open>Application\<close>

text \<open>Replacements in the given order, each through the text's splice operation.\<close>

fun splice_each ::
  "('t \<Rightarrow> range \<Rightarrow> rstr \<Rightarrow> nat \<Rightarrow> (text_error + 't \<times> nat) option) \<Rightarrow>
   replacement list \<Rightarrow> 't \<Rightarrow> nat \<Rightarrow> (delta_error + 't \<times> nat) option" where
  "splice_each edit [] view h = Some (Inr (view, h))"
| "splice_each edit (r # rs) view h =
     (case edit view (rp_range r) (rp_text r) h of
        None \<Rightarrow> None
      | Some (Inl _) \<Rightarrow> Some (Inl DeltaInvalidRange)
      | Some (Inr (view', h')) \<Rightarrow> splice_each edit rs view' h')"

definition delta_apply :: "delta \<Rightarrow> btext \<Rightarrow> nat \<Rightarrow> (delta_error + btext \<times> nat) option" where
  "delta_apply d base h = splice_each replace (rev (dl_replacements d)) base h"

section \<open>Conflicts and rebasing\<close>

definition replacements_conflict :: "replacement \<Rightarrow> replacement \<Rightarrow> bool" where
  "replacements_conflict left right =
     (case (range_is_empty (rp_range left), range_is_empty (rp_range right)) of
        (True, True) \<Rightarrow> rp_start left = rp_start right
      | (True, False) \<Rightarrow> rp_start right < rp_start left \<and> rp_start left < rp_end right
      | (False, True) \<Rightarrow> rp_start left < rp_start right \<and> rp_start right < rp_end left
      | (False, False) \<Rightarrow> rp_start left < rp_end right \<and> rp_start right < rp_end left)"

text \<open>The inner loop over \<open>other.replacements[first..]\<close>.\<close>

fun conflict_scan :: "replacement \<Rightarrow> replacement list \<Rightarrow> bool" where
  "conflict_scan left [] = False"
| "conflict_scan left (right # rest) =
     (if rp_start right > rp_end left then False
      else if replacements_conflict left right then True
      else conflict_scan left rest)"

text \<open>The outer loop; the second argument is the suffix of the other delta from \<open>first\<close> on.\<close>

fun conflicts_loop :: "replacement list \<Rightarrow> replacement list \<Rightarrow> bool" where
  "conflicts_loop [] others = False"
| "conflicts_loop (left # lefts) others =
     (let others' = dropWhile (\<lambda>right. rp_end right < rp_start left) others in
      if conflict_scan left others' then True else conflicts_loop lefts others')"

definition conflicts :: "delta \<Rightarrow> delta \<Rightarrow> bool" where
  "conflicts d other = conflicts_loop (dl_replacements d) (dl_replacements other)"

fun shift_loop :: "replacement list \<Rightarrow> usize \<Rightarrow> bool \<Rightarrow> usize \<Rightarrow> usize \<Rightarrow> delta_error + usize \<times> usize" where
  "shift_loop [] position start removed inserted = Inr (removed, inserted)"
| "shift_loop (r # rs) position start removed inserted =
     (if rp_end r < position \<or> (rp_end r = position \<and> (start \<or> \<not> range_is_empty (rp_range r))) then
        (case checked_add inserted (length (rp_text r)) of
           None \<Rightarrow> Inl DeltaInvalidRange
         | Some ins \<Rightarrow> shift_loop rs position start (removed + range_len (rp_range r)) ins)
      else shift_loop rs position start removed inserted)"

definition shift :: "delta \<Rightarrow> usize \<Rightarrow> bool \<Rightarrow> delta_error + usize" where
  "shift d position start =
     (case shift_loop (dl_replacements d) position start 0 0 of
        Inl e \<Rightarrow> Inl e
      | Inr (removed, inserted) \<Rightarrow>
          (case do { q \<leftarrow> checked_sub position removed; checked_add q inserted } of
             None \<Rightarrow> Inl DeltaInvalidRange
           | Some q \<Rightarrow> Inr q))"

fun shift_all :: "replacement list \<Rightarrow> delta \<Rightarrow> delta_error + replacement list" where
  "shift_all [] concurrent = Inr []"
| "shift_all (r # rs) concurrent =
     (case shift concurrent (rp_start r) True of
        Inl e \<Rightarrow> Inl e
      | Inr a \<Rightarrow>
          (case shift concurrent (rp_end r) False of
             Inl e \<Rightarrow> Inl e
           | Inr b \<Rightarrow>
               (case shift_all rs concurrent of
                  Inl e \<Rightarrow> Inl e
                | Inr rest \<Rightarrow> Inr (mk_replacement a b (rp_text r) # rest))))"

definition transform_after :: "delta \<Rightarrow> delta \<Rightarrow> delta_error + delta" where
  "transform_after d concurrent =
     (if conflicts d concurrent then Inl DeltaConflict
      else case shift_all (dl_replacements d) concurrent of
             Inl e \<Rightarrow> Inl e
           | Inr rs \<Rightarrow> delta_new rs)"

text \<open>
  Marker rebasing: \<open>None\<close> would be the subtraction of more removed scalars than the position holds,
  which a sorted delta excludes.
\<close>

fun rebase_loop ::
  "replacement list \<Rightarrow> usize \<Rightarrow> insertion_affinity \<Rightarrow> usize \<Rightarrow> usize \<Rightarrow> (delta_error + usize) option" where
  "rebase_loop [] position affinity removed inserted = do {
     q \<leftarrow> checked_sub position removed;
     Some (case checked_add q inserted of None \<Rightarrow> Inl DeltaInvalidRange | Some z \<Rightarrow> Inr z) }"
| "rebase_loop (r # rs) position affinity removed inserted =
     (if range_is_empty (rp_range r) then
        (if rp_start r < position \<or> (rp_start r = position \<and> affinity = After) then
           (case checked_add inserted (length (rp_text r)) of
              None \<Rightarrow> Some (Inl DeltaInvalidRange)
            | Some ins \<Rightarrow> rebase_loop rs position affinity removed ins)
         else rebase_loop rs position affinity removed inserted)
      else if position \<le> rp_start r then do {
        q \<leftarrow> checked_sub position removed;
        Some (case checked_add q inserted of None \<Rightarrow> Inl DeltaInvalidRange | Some z \<Rightarrow> Inr z) }
      else if position < rp_end r then do {
        q \<leftarrow> checked_sub (rp_start r) removed;
        Some (case checked_add q inserted of None \<Rightarrow> Inl DeltaInvalidRange | Some z \<Rightarrow> Inr z) }
      else
        (case checked_add inserted (length (rp_text r)) of
           None \<Rightarrow> Some (Inl DeltaInvalidRange)
         | Some ins \<Rightarrow> rebase_loop rs position affinity (removed + range_len (rp_range r)) ins))"

definition rebase_marker :: "delta \<Rightarrow> usize \<Rightarrow> insertion_affinity \<Rightarrow> (delta_error + usize) option" where
  "rebase_marker d position affinity = rebase_loop (dl_replacements d) position affinity 0 0"

section \<open>Reconstruction from provenance\<close>

text \<open>The mutable locals of the loop over the view's pieces.\<close>

record between_state =
  bs_replacements :: "replacement list"
  bs_cursor :: usize
  bs_inserted :: rstr

definition flush :: "usize \<Rightarrow> between_state \<Rightarrow> between_state budgeted" where
  "flush retained s b =
     (if range_is_empty (mk_range (bs_cursor s) retained) \<and> bs_inserted s = [] then Some (Inr s, b)
      else case checked_sub (bg_replacements b) 1 of
        None \<Rightarrow> Some (Inl DeltaBudgetExceeded, b)
      | Some k \<Rightarrow>
          Some (Inr (s\<lparr>bs_replacements := bs_replacements s @
                         [mk_replacement (bs_cursor s) retained (bs_inserted s)],
                       bs_inserted := []\<rparr>),
                b\<lparr>bg_replacements := k\<rparr>))"

fun base_origins :: "piece list \<Rightarrow> usize \<Rightarrow> (nat \<Rightarrow> base_span list) \<Rightarrow> (nat \<Rightarrow> base_span list)" where
  "base_origins [] offset origins = origins"
| "base_origins (p # ps) offset origins =
     (let (origin, r) = piece_origin p in
      base_origins ps (offset + piece_len p)
        (origins(origin := origins origin @ [\<lparr>sp_range = r, sp_offset = offset\<rparr>])))"

text \<open>
  The loop over \<open>&spans[first..]\<close>. A hash map entry holds at least one span, so a missing entry is
  the empty list.
\<close>

fun between_spans ::
  "base_span list \<Rightarrow> usize \<Rightarrow> usize \<Rightarrow> between_state \<Rightarrow> (usize \<times> between_state) budgeted" where
  "between_spans [] start stop s = bret (start, s)"
| "between_spans (span # spans) start stop s =
     (if start = stop then bret (start, s)
      else bthen (budget_pieces 1) (\<lambda>_.
        if start < range_start (sp_range span) then bfail DeltaForeignProvenance
        else
          let e = min stop (range_end (sp_range span));
              retained = sp_offset span + start - range_start (sp_range span)
          in if retained < bs_cursor s then bfail DeltaForeignProvenance
             else bthen (flush retained s) (\<lambda>s'.
               between_spans spans e stop (s'\<lparr>bs_cursor := retained + e - start\<rparr>))))"

fun between_pieces ::
  "(nat \<Rightarrow> base_span list) \<Rightarrow> piece list \<Rightarrow> between_state \<Rightarrow> between_state budgeted" where
  "between_pieces origins [] s = bret s"
| "between_pieces origins (p # ps) s =
     (let (origin, r) = piece_origin p; spans = origins origin in
      if spans = [] then
        (\<lambda>b. case piece_text p of
           None \<Rightarrow> None
         | Some t \<Rightarrow>
             bthen (budget_text (str_len t)) (\<lambda>_.
               between_pieces origins ps (s\<lparr>bs_inserted := bs_inserted s @ t\<rparr>)) b)
      else
        let first = partition_point (\<lambda>span. range_end (sp_range span) \<le> range_start r) spans in
        bthen (between_spans (drop first spans) (range_start r) (range_end r) s) (\<lambda>(start, s').
          if start \<noteq> range_end r then bfail DeltaForeignProvenance
          else between_pieces origins ps s'))"

definition between_limited :: "btext \<Rightarrow> piece list budgeted" where
  "between_limited t b =
     (case pieces t (bg_pieces b) of
        None \<Rightarrow> Some (Inl DeltaBudgetExceeded, b)
      | Some ps \<Rightarrow> bthen (budget_pieces (length ps)) (\<lambda>_. bret ps) b)"

definition between :: "btext \<Rightarrow> btext \<Rightarrow> delta budgeted" where
  "between base view =
     (if shares_root base view then bret delta_default
      else
        bthen (between_limited base) (\<lambda>base_pieces.
        bthen (between_limited view) (\<lambda>view_pieces.
        bthen (between_pieces (base_origins base_pieces 0 (\<lambda>_. [])) view_pieces
                 \<lparr>bs_replacements = [], bs_cursor = 0, bs_inserted = []\<rparr>) (\<lambda>s.
        bthen (flush (text_len base) s) (\<lambda>s'.
        bret \<lparr>dl_replacements = bs_replacements s'\<rparr>)))))"

section \<open>Sorted replacement lists and what applying them means\<close>

text \<open>
  \<open>sorted_from p rs\<close>: valid ranges in ascending order from position \<open>p\<close> on, touching at most at
  their ends. \<open>normal_from\<close> is the normal form \<open>Delta::new\<close> produces: a gap between any two
  replacements and no replacement that does nothing.
\<close>

fun sorted_from :: "usize \<Rightarrow> replacement list \<Rightarrow> bool" where
  "sorted_from p [] = True"
| "sorted_from p (r # rs) \<longleftrightarrow> p \<le> rp_start r \<and> rp_start r \<le> rp_end r \<and> sorted_from (rp_end r) rs"

definition effective :: "replacement \<Rightarrow> bool" where
  "effective r \<longleftrightarrow> rp_start r \<le> rp_end r \<and> (rp_start r < rp_end r \<or> rp_text r \<noteq> [])"

definition normal :: "replacement list \<Rightarrow> bool" where
  "normal rs \<longleftrightarrow> list_all effective rs \<and> sorted_wrt (\<lambda>r q. rp_end r < rp_start q) rs"

definition within :: "usize \<Rightarrow> replacement list \<Rightarrow> bool" where
  "within n rs \<longleftrightarrow> list_all (\<lambda>r. rp_end r \<le> n) rs"

definition wf_delta :: "usize \<Rightarrow> delta \<Rightarrow> bool" where
  "wf_delta n d \<longleftrightarrow> normal (dl_replacements d) \<and> within n (dl_replacements d)"

text \<open>The meaning of a sorted list on the suffix \<open>xs\<close> of a string that starts at position \<open>p\<close>.\<close>

fun app_from :: "usize \<Rightarrow> replacement list \<Rightarrow> rstr \<Rightarrow> rstr" where
  "app_from p [] xs = xs"
| "app_from p (r # rs) xs =
     take (rp_start r - p) xs @ rp_text r @ app_from (rp_end r) rs (drop (rp_end r - p) xs)"

definition delta_str :: "delta \<Rightarrow> rstr \<Rightarrow> rstr" where
  "delta_str d s = app_from 0 (dl_replacements d) s"

lemma within_simps [simp]:
  "within n []" "within n (r # rs) \<longleftrightarrow> rp_end r \<le> n \<and> within n rs"
  "within n (rs @ qs) \<longleftrightarrow> within n rs \<and> within n qs"
  by (auto simp: within_def)

lemma normal_simps [simp]:
  "normal []"
  "normal (r # rs) \<longleftrightarrow> effective r \<and> (\<forall>q \<in> set rs. rp_end r < rp_start q) \<and> normal rs"
  by (auto simp: normal_def)

lemma mk_replacement_sel [simp]:
  "rp_start (mk_replacement a b s) = a" "rp_end (mk_replacement a b s) = b"
  "rp_text (mk_replacement a b s) = s" "rp_range (mk_replacement a b s) = mk_range a b"
  by (simp_all add: mk_replacement_def)

lemma sorted_from_mono: "sorted_from p rs \<Longrightarrow> q \<le> p \<Longrightarrow> sorted_from q rs"
  by (cases rs) auto

lemma sorted_from_start: "sorted_from p rs \<Longrightarrow> r \<in> set rs \<Longrightarrow> p \<le> rp_start r \<and> rp_start r \<le> rp_end r"
proof (induction rs arbitrary: p)
  case (Cons q rs)
  then show ?case by (auto dest: Cons.IH)
qed simp

lemma normal_sorted: "normal rs \<Longrightarrow> (\<And>r. r \<in> set rs \<Longrightarrow> p \<le> rp_start r) \<Longrightarrow> sorted_from p rs"
proof (induction rs arbitrary: p)
  case (Cons r rs)
  then show ?case by (auto simp: effective_def intro!: Cons.IH less_imp_le)
qed simp

lemma normal_sorted_0: "normal rs \<Longrightarrow> sorted_from 0 rs"
  by (rule normal_sorted) auto

lemma app_from_length_prefix:
  assumes "sorted_from q rs" "p \<le> q"
  shows "app_from p rs xs = take (q - p) xs @ app_from q rs (drop (q - p) xs)"
proof (cases rs)
  case (Cons r rs')
  with assms have "p \<le> q" "q \<le> rp_start r" "rp_start r \<le> rp_end r" by auto
  moreover from this have "take (rp_start r - p) xs = take (q - p) xs @ take (rp_start r - q) (drop (q - p) xs)"
    using take_drop_split [of "q - p" "rp_start r - p" xs] by simp
  ultimately show ?thesis using Cons by simp
qed simp

lemma app_from_append_prefix:
  assumes "sorted_from (p + length pre) rs"
  shows "app_from p rs (pre @ xs) = pre @ app_from (p + length pre) rs xs"
  using app_from_length_prefix [OF assms, of p "pre @ xs"] by simp

lemma app_from_snoc:
  assumes "sorted_from p (rs @ [r])" "within (p + length xs) (rs @ [r])"
  shows "app_from p (rs @ [r]) xs =
    app_from p rs (take (rp_start r - p) xs @ rp_text r @ drop (rp_end r - p) xs)"
  using assms
proof (induction rs arbitrary: p xs)
  case (Cons q rs)
  then have q: "p \<le> rp_start q" "rp_start q \<le> rp_end q" and s: "sorted_from (rp_end q) (rs @ [r])"
    and le: "rp_end q \<le> p + length xs" and w: "within (p + length xs) (rs @ [r])" by auto
  have r: "rp_end q \<le> rp_start r" "rp_start r \<le> rp_end r" using sorted_from_start [OF s] by auto
  let ?ys = "drop (rp_end q - p) xs"
  have "rp_end q + length ?ys = p + length xs" using le q by simp
  then have "within (rp_end q + length ?ys) (rs @ [r])" using w by (simp only:)
  from Cons.IH [OF s this]
  have IH: "app_from (rp_end q) (rs @ [r]) ?ys = app_from (rp_end q) rs
      (take (rp_start r - rp_end q) ?ys @ rp_text r @ drop (rp_end r - rp_end q) ?ys)" .
  let ?zs = "take (rp_start r - p) xs @ rp_text r @ drop (rp_end r - p) xs"
  have r_le: "rp_start r - p \<le> length xs" using w r by auto
  have "take (rp_start q - p) ?zs = take (rp_start q - p) xs"
    using q r r_le by (simp add: min_def)
  moreover have "drop (rp_end q - p) ?zs =
      take (rp_start r - rp_end q) ?ys @ rp_text r @ drop (rp_end r - rp_end q) ?ys"
    using q r r_le by (simp add: drop_take)
  ultimately show ?case using IH by simp
qed simp

section \<open>Applying a delta\<close>

text \<open>
  What \<open>Delta::apply\<close> relies on of a text: an operation that splices a string in for a valid range,
  refuses an invalid range, and keeps the text usable.
\<close>

locale spliceable =
  fixes edit :: "'t \<Rightarrow> range \<Rightarrow> rstr \<Rightarrow> nat \<Rightarrow> (text_error + 't \<times> nat) option"
    and str :: "'t \<Rightarrow> rstr"
    and ok :: "'t \<Rightarrow> bool"
  assumes edit_valid:
    "ok t \<Longrightarrow> range_start r \<le> range_end r \<Longrightarrow> range_end r \<le> length (str t) \<Longrightarrow>
       \<exists>t' h'. edit t r s h = Some (Inr (t', h')) \<and> ok t' \<and>
         str t' = take (range_start r) (str t) @ s @ drop (range_end r) (str t)"
    and edit_invalid:
    "ok t \<Longrightarrow> \<not> (range_start r \<le> range_end r \<and> range_end r \<le> length (str t)) \<Longrightarrow>
       \<exists>e. edit t r s h = Some (Inl e)"
begin

lemma splice_each_rev:
  assumes "ok t" "sorted_from 0 rs" "within (length (str t)) rs"
  shows "\<exists>t' h'. splice_each edit (rev rs) t h = Some (Inr (t', h')) \<and> ok t' \<and>
    str t' = app_from 0 rs (str t)"
  using assms
proof (induction rs arbitrary: t h rule: rev_induct)
  case (snoc r rs)
  have r: "rp_start r \<le> rp_end r" "rp_end r \<le> length (str t)"
    using sorted_from_start [OF snoc.prems(2)] snoc.prems(3) by auto
  obtain t1 h1 where t1: "edit t (rp_range r) (rp_text r) h = Some (Inr (t1, h1))" "ok t1"
    "str t1 = take (rp_start r) (str t) @ rp_text r @ drop (rp_end r) (str t)"
    using edit_valid [OF snoc.prems(1) r] by metis
  have sorted: "sorted_from p (rs @ [r]) \<Longrightarrow> sorted_from p rs \<and> within (rp_start r) rs" for p
  proof (induction rs arbitrary: p)
    case (Cons q rs)
    then show ?case using sorted_from_start [of "rp_end q" "rs @ [r]" r] by auto
  qed simp
  have rs: "sorted_from 0 rs" "within (rp_start r) rs" using sorted [OF snoc.prems(2)] by auto
  have "rp_start r \<le> length (str t1)" using t1(3) r by simp
  then have "within (length (str t1)) rs" using rs(2) by (auto simp: within_def list_all_iff)
  from snoc.IH [OF t1(2) rs(1) this] obtain t' h' where
    "splice_each edit (rev rs) t1 h1 = Some (Inr (t', h'))" "ok t'" "str t' = app_from 0 rs (str t1)"
    by blast
  then show ?case
    using t1(1,3) app_from_snoc [of 0 rs r "str t"] snoc.prems(2,3) by auto
qed auto

lemma splice_each_err:
  assumes "ok t" "splice_each edit rs t h = Some (Inl e)"
  shows "e = DeltaInvalidRange"
  using assms
proof (induction rs arbitrary: t h)
  case (Cons r rs)
  show ?case
  proof (cases "rp_start r \<le> rp_end r \<and> rp_end r \<le> length (str t)")
    case True
    then obtain t1 h1 where "edit t (rp_range r) (rp_text r) h = Some (Inr (t1, h1))" "ok t1"
      using edit_valid [OF Cons.prems(1)] by metis
    with Cons show ?thesis by auto
  next
    case False
    then obtain x where "edit t (rp_range r) (rp_text r) h = Some (Inl x)"
      using edit_invalid [OF Cons.prems(1)] by metis
    with Cons.prems show ?thesis by simp
  qed
qed simp

end

interpretation tree_text: spliceable replace text_str wf_text
proof unfold_locales
  fix t and r :: range and s h
  assume t: "wf_text t" and r: "range_start r \<le> range_end r" "range_end r \<le> length (text_str t)"
  obtain t' h' cs where rep: "replace t r s h = Some (Inr (t', h'))" "wf_text t'"
    "text_cells t' = take (range_start r) (text_cells t) @ cs @ drop (range_end r) (text_cells t)"
    "scalars_of cs = s"
    using replace_wf [OF t r] by metis
  then have "text_str t' = take (range_start r) (text_str t) @ s @ drop (range_end r) (text_str t)"
    by (simp add: text_str_def take_map drop_map)
  with rep show "\<exists>t' h'. replace t r s h = Some (Inr (t', h')) \<and> wf_text t' \<and>
      text_str t' = take (range_start r) (text_str t) @ s @ drop (range_end r) (text_str t)"
    by blast
qed (use replace_invalid in blast)

lemma delta_apply_wf:
  assumes "wf_text t" "sorted_from 0 (dl_replacements d)" "within (length (text_str t)) (dl_replacements d)"
  obtains t' h' where "delta_apply d t h = Some (Inr (t', h'))" "wf_text t'" "text_str t' = delta_str d (text_str t)"
  using tree_text.splice_each_rev [OF assms, of h] by (auto simp: delta_apply_def delta_str_def)

lemma delta_apply_wf_delta:
  assumes "wf_text t" "wf_delta (length (text_str t)) d"
  obtains t' h' where "delta_apply d t h = Some (Inr (t', h'))" "wf_text t'" "text_str t' = delta_str d (text_str t)"
  using assms delta_apply_wf normal_sorted_0 by (metis wf_delta_def)

section \<open>Normalisation keeps the meaning\<close>

fun end_of :: "usize \<Rightarrow> replacement list \<Rightarrow> usize" where
  "end_of p [] = p"
| "end_of p (r # rs) = end_of (rp_end r) rs"

lemma end_of_last: "end_of p rs = (if rs = [] then p else rp_end (last rs))"
  by (induction rs arbitrary: p) auto

lemma sorted_from_append [simp]:
  "sorted_from p (rs @ qs) \<longleftrightarrow> sorted_from p rs \<and> sorted_from (end_of p rs) qs"
  by (induction rs arbitrary: p) auto

lemma app_from_merge:
  assumes "sorted_from p (bs @ q # r # fs)" "rp_end q = rp_start r"
  shows "app_from p (bs @ q # r # fs) xs =
    app_from p (bs @ mk_replacement (rp_start q) (rp_end r) (rp_text q @ rp_text r) # fs) xs"
  using assms by (induction bs arbitrary: p xs) auto

lemma normal_append:
  "normal (rs @ [r]) \<longleftrightarrow> normal rs \<and> effective r \<and> (\<forall>q \<in> set rs. rp_end q < rp_start r)"
  by (induction rs) auto

lemma normal_butlast_merge:
  assumes "normal (bs @ [q])" "rp_end q \<le> c" "rp_start q < c \<or> t \<noteq> []"
  shows "normal (bs @ [mk_replacement (rp_start q) c t])"
  using assms by (auto simp: normal_append effective_def)

lemma normal_push:
  assumes "normal acc" "effective r" "acc = [] \<or> rp_end (last acc) < rp_start r"
  shows "normal (acc @ [r])"
proof (cases acc rule: rev_cases)
  case (snoc bs l)
  with assms have "rp_end l < rp_start r" "rp_start l \<le> rp_end l" by (auto simp: normal_append effective_def)
  with assms snoc have "\<forall>q \<in> set acc. rp_end q < rp_start r" by (auto simp: normal_append)
  with assms show ?thesis by (simp add: normal_append)
qed (use assms in simp)

lemma delta_new_loop_ok:
  assumes "delta_new_loop rs acc = Inr out" "normal acc"
  shows "normal out \<and> sorted_from 0 (acc @ filter effective rs) \<and>
    (\<forall>xs. app_from 0 (acc @ filter effective rs) xs = app_from 0 out xs) \<and>
    (\<forall>n. within n (acc @ filter effective rs) \<longrightarrow> within n out)"
  using assms
proof (induction rs acc rule: delta_new_loop.induct)
  case (1 acc)
  then show ?case by (auto simp: normal_sorted_0)
next
  case (2 r rs acc)
  from "2.prems"(1) have r: "rp_start r \<le> rp_end r" by (auto split: if_splits)
  consider (noop) "range_is_empty (rp_range r) \<and> rp_text r = []"
    | (merge) "\<not> (range_is_empty (rp_range r) \<and> rp_text r = [])" "acc \<noteq> []" "rp_end (last acc) = rp_start r"
    | (push) "\<not> (range_is_empty (rp_range r) \<and> rp_text r = [])" "acc = [] \<or> rp_end (last acc) < rp_start r"
    using "2.prems"(1) by (fastforce split: if_splits)
  then show ?case
  proof cases
    case noop
    then have "\<not> effective r" by (auto simp: effective_def range_is_empty_def)
    with noop r "2.IH"(1) "2.prems" show ?thesis by simp
  next
    case merge
    define bs q where "bs = butlast acc" and "q = last acc"
    with merge(2) have acc: "acc = bs @ [q]" by simp
    let ?m = "mk_replacement (rp_start q) (rp_end r) (rp_text q @ rp_text r)"
    have eff: "effective r" using merge(1) r by (auto simp: effective_def range_is_empty_def)
    have q: "effective q" "rp_end q = rp_start r" using "2.prems"(2) merge(3) acc by (auto simp: normal_append)
    have nm: "normal (bs @ [?m])"
      by (rule normal_butlast_merge)
        (use "2.prems"(2) acc q r in \<open>auto simp: effective_def\<close>)
    have "delta_new_loop rs (bs @ [?m]) = Inr out"
      using "2.prems"(1) merge r acc by (simp add: Let_def)
    then have IH: "normal out" "sorted_from 0 (bs @ ?m # filter effective rs)"
      "\<And>xs. app_from 0 (bs @ ?m # filter effective rs) xs = app_from 0 out xs"
      "\<And>n. within n (bs @ ?m # filter effective rs) \<Longrightarrow> within n out"
      using "2.IH"(2) merge r acc nm by (auto simp: Let_def)
    have sorted: "sorted_from 0 (bs @ q # r # filter effective rs)"
      using IH(2) q r by (auto simp: effective_def)
    show ?thesis
      using IH sorted app_from_merge [OF sorted q(2)] eff acc by auto
  next
    case push
    have eff: "effective r" using push(1) r by (auto simp: effective_def range_is_empty_def)
    have "normal (acc @ [r])" by (rule normal_push [OF "2.prems"(2) eff push(2)])
    moreover have c: "\<not> rp_end r < rp_start r" "\<not> (acc \<noteq> [] \<and> rp_start r < rp_end (last acc))"
      "\<not> (acc \<noteq> [] \<and> rp_end (last acc) = rp_start r)"
      using push(2) r by auto
    moreover from c push(1) have "delta_new_loop rs (acc @ [r]) = Inr out"
      using "2.prems"(1) by (simp only: delta_new_loop.simps if_False)
    ultimately have "normal out \<and> sorted_from 0 ((acc @ [r]) @ filter effective rs) \<and>
        (\<forall>xs. app_from 0 ((acc @ [r]) @ filter effective rs) xs = app_from 0 out xs) \<and>
        (\<forall>n. within n ((acc @ [r]) @ filter effective rs) \<longrightarrow> within n out)"
      using "2.IH"(3) push(1) by blast
    then show ?thesis using eff by simp
  qed
qed

lemma delta_new_loop_succeeds:
  assumes "sorted_from 0 (acc @ rs)" "normal acc"
  shows "\<exists>out. delta_new_loop rs acc = Inr out"
  using assms
proof (induction rs acc rule: delta_new_loop.induct)
  case (2 r rs acc)
  from "2.prems"(1) have r: "rp_start r \<le> rp_end r" "acc \<noteq> [] \<Longrightarrow> rp_end (last acc) \<le> rp_start r"
    by (auto simp: end_of_last)
  consider (noop) "range_is_empty (rp_range r) \<and> rp_text r = []"
    | (merge) "\<not> (range_is_empty (rp_range r) \<and> rp_text r = [])" "acc \<noteq> []" "rp_end (last acc) = rp_start r"
    | (push) "\<not> (range_is_empty (rp_range r) \<and> rp_text r = [])" "acc = [] \<or> rp_end (last acc) < rp_start r"
    using r by fastforce
  then show ?case
  proof cases
    case noop
    have "sorted_from 0 (acc @ rs)"
      using "2.prems"(1) r by (auto intro: sorted_from_mono)
    with noop r "2.IH"(1) "2.prems"(2) show ?thesis by auto
  next
    case merge
    define bs q where "bs = butlast acc" and "q = last acc"
    with merge(2) have acc: "acc = bs @ [q]" by simp
    let ?m = "mk_replacement (rp_start q) (rp_end r) (rp_text q @ rp_text r)"
    have q: "effective q" "rp_end q = rp_start r" using "2.prems"(2) merge(3) acc by (auto simp: normal_append)
    have "normal (bs @ [?m])"
      by (rule normal_butlast_merge) (use "2.prems"(2) acc q r in \<open>auto simp: effective_def\<close>)
    moreover have "sorted_from 0 ((bs @ [?m]) @ rs)" using "2.prems"(1) acc q r by auto
    ultimately show ?thesis using "2.IH"(2) merge r acc by (auto simp: Let_def)
  next
    case push
    have eff: "effective r" using push(1) r by (auto simp: effective_def range_is_empty_def)
    have "normal (acc @ [r])" by (rule normal_push [OF "2.prems"(2) eff push(2)])
    moreover have "sorted_from 0 ((acc @ [r]) @ rs)" using "2.prems"(1) by simp
    moreover have c: "\<not> rp_end r < rp_start r" "\<not> (acc \<noteq> [] \<and> rp_start r < rp_end (last acc))"
      "\<not> (acc \<noteq> [] \<and> rp_end (last acc) = rp_start r)"
      using push(2) r by auto
    ultimately have "\<exists>out. delta_new_loop rs (acc @ [r]) = Inr out" using "2.IH"(3) push(1) by blast
    with c push(1) show ?thesis by (simp only: delta_new_loop.simps if_False)
  qed
qed simp

lemma delta_new_ok:
  assumes "delta_new rs = Inr d"
  shows "normal (dl_replacements d)" "delta_str d s = app_from 0 (filter effective rs) s"
    "within n rs \<Longrightarrow> within n (dl_replacements d)"
proof -
  have within: "within n rs \<Longrightarrow> within n (filter effective rs)" by (auto simp: within_def list_all_iff)
  from assms obtain out where "delta_new_loop rs [] = Inr out" "d = \<lparr>dl_replacements = out\<rparr>"
    by (auto simp: delta_new_def split: sum.splits)
  with delta_new_loop_ok [of rs "[]" out] within
  show "normal (dl_replacements d)" "delta_str d s = app_from 0 (filter effective rs) s"
    "within n rs \<Longrightarrow> within n (dl_replacements d)"
    by (auto simp: delta_str_def)
qed

lemma delta_new_succeeds:
  assumes "sorted_from 0 rs"
  obtains d where "delta_new rs = Inr d"
  using delta_new_loop_succeeds [of "[]" rs] assms by (auto simp: delta_new_def)

end
