(* ===== verification/BufferRebase.thy ===== *)
theory BufferRebase
  imports BufferDelta
begin

text \<open>
  Rebasing of deltas over concurrent deltas, the merge step of \<open>Span\<close> buffers. The lemmas show that
  the two-pointer conflict test decides whether any two replacements conflict, that rebasing a
  non-conflicting delta always succeeds within the machine bounds, and that the two orders of
  applying two non-conflicting deltas give the same text.
\<close>

section \<open>The conflict test\<close>

lemma replacements_conflict_sym: "replacements_conflict a b = replacements_conflict b a"
  by (auto simp: replacements_conflict_def split: bool.splits)

lemma no_conflict_before:
  "rp_start a \<le> rp_end a \<Longrightarrow> rp_start b \<le> rp_end b \<Longrightarrow> rp_end b < rp_start a \<Longrightarrow> \<not> replacements_conflict a b"
  by (auto simp: replacements_conflict_def range_is_empty_def split: bool.splits)

lemma no_conflict_after:
  "rp_start a \<le> rp_end a \<Longrightarrow> rp_start b \<le> rp_end b \<Longrightarrow> rp_end a < rp_start b \<Longrightarrow> \<not> replacements_conflict a b"
  by (auto simp: replacements_conflict_def range_is_empty_def split: bool.splits)

text \<open>Without a conflict one of the two replacements ends before the other one starts, and not both.\<close>

lemma no_conflict_iff:
  assumes "rp_start a \<le> rp_end a" "rp_start b \<le> rp_end b"
  shows "\<not> replacements_conflict a b \<longleftrightarrow>
    (rp_end a \<le> rp_start b \<and> \<not> rp_end b \<le> rp_start a) \<or> (rp_end b \<le> rp_start a \<and> \<not> rp_end a \<le> rp_start b)"
  using assms by (auto simp: replacements_conflict_def range_is_empty_def split: bool.splits)

lemma conflict_scan_iff:
  assumes "rp_start l \<le> rp_end l" "sorted_from p os"
  shows "conflict_scan l os \<longleftrightarrow> (\<exists>r \<in> set os. replacements_conflict l r)"
  using assms
proof (induction os arbitrary: p)
  case (Cons r os)
  then have r: "rp_start r \<le> rp_end r" "sorted_from (rp_end r) os" by auto
  have "\<not> replacements_conflict l q" if "rp_end l < rp_start r" "q \<in> set (r # os)" for q
    using that r Cons.prems(1) sorted_from_start [OF r(2)] no_conflict_after [of l q] by fastforce
  with Cons.IH [OF Cons.prems(1) r(2)] show ?case by auto
qed simp

lemma sorted_from_dropWhile: "sorted_from p os \<Longrightarrow> sorted_from p (dropWhile P os)"
proof (induction os arbitrary: p)
  case (Cons r os)
  then show ?case by (auto intro: sorted_from_mono)
qed simp

lemma conflicts_loop_iff:
  assumes "sorted_from p as" "sorted_from q os"
  shows "conflicts_loop as os \<longleftrightarrow> (\<exists>a \<in> set as. \<exists>b \<in> set os. replacements_conflict a b)"
  using assms
proof (induction as os arbitrary: p q rule: conflicts_loop.induct)
  case (2 l as os)
  let ?P = "\<lambda>r. rp_end r < rp_start l"
  let ?os = "dropWhile ?P os"
  from "2.prems"(1) have l: "rp_start l \<le> rp_end l" "sorted_from (rp_end l) as" by auto
  have sorted: "sorted_from q ?os" by (rule sorted_from_dropWhile [OF "2.prems"(2)])
  have skip: "\<not> replacements_conflict a b" if "b \<in> set (takeWhile ?P os)" "a \<in> set (l # as)" for a b
  proof (rule no_conflict_before)
    have b: "rp_end b < rp_start l" "b \<in> set os" using that(1) by (auto dest: set_takeWhileD)
    show "rp_start b \<le> rp_end b" using sorted_from_start [OF "2.prems"(2) b(2)] by simp
    have "rp_start l \<le> rp_start a \<and> rp_start a \<le> rp_end a"
      using that(2) l sorted_from_start [OF l(2), of a] by auto
    with b show "rp_end b < rp_start a" "rp_start a \<le> rp_end a" by auto
  qed
  have "set os = set (takeWhile ?P os) \<union> set ?os"
    by (metis set_append takeWhile_dropWhile_id)
  moreover have "conflicts_loop (l # as) os \<longleftrightarrow>
      (\<exists>r \<in> set ?os. replacements_conflict l r) \<or> (\<exists>a \<in> set as. \<exists>b \<in> set ?os. replacements_conflict a b)"
    using conflict_scan_iff [OF l(1) sorted] "2.IH" [OF refl _ l(2) sorted] by (auto simp: Let_def)
  ultimately show ?case using skip by auto
qed simp

lemma conflicts_iff:
  assumes "wf_delta m a" "wf_delta n b"
  shows "conflicts a b \<longleftrightarrow>
    (\<exists>l \<in> set (dl_replacements a). \<exists>r \<in> set (dl_replacements b). replacements_conflict l r)"
  using assms conflicts_loop_iff [of 0 _ 0] normal_sorted_0 by (simp add: conflicts_def wf_delta_def)

section \<open>Shifting a replacement over a concurrent delta\<close>

definition before :: "replacement \<Rightarrow> replacement \<Rightarrow> bool" where
  "before r q \<longleftrightarrow> rp_end r \<le> rp_start q"

text \<open>What the replacements of \<open>bs\<close> that end before \<open>a\<close> remove and insert.\<close>

definition removed :: "replacement list \<Rightarrow> replacement \<Rightarrow> nat" where
  "removed bs a = sum_list (map (\<lambda>b. range_len (rp_range b)) (filter (\<lambda>b. before b a) bs))"

definition inserted :: "replacement list \<Rightarrow> replacement \<Rightarrow> nat" where
  "inserted bs a = sum_list (map (\<lambda>b. length (rp_text b)) (filter (\<lambda>b. before b a) bs))"

definition total_inserted :: "replacement list \<Rightarrow> nat" where
  "total_inserted bs = sum_list (map (\<lambda>b. length (rp_text b)) bs)"

definition move :: "usize \<Rightarrow> usize \<Rightarrow> replacement list \<Rightarrow> replacement \<Rightarrow> replacement" where
  "move q p bs a = mk_replacement
     (q + (rp_start a - p) + inserted bs a - removed bs a)
     (q + (rp_end a - p) + inserted bs a - removed bs a) (rp_text a)"

lemma sum_filter_simps [simp]:
  "removed [] a = 0" "inserted [] a = 0" "total_inserted [] = 0"
  "removed (b # bs) a = (if before b a then range_len (rp_range b) + removed bs a else removed bs a)"
  "inserted (b # bs) a = (if before b a then length (rp_text b) + inserted bs a else inserted bs a)"
  "total_inserted (b # bs) = length (rp_text b) + total_inserted bs"
  by (auto simp: removed_def inserted_def total_inserted_def)

lemma inserted_le_total: "inserted bs a \<le> total_inserted bs"
  by (induction bs) auto

lemma removed_le: "sorted_from p bs \<Longrightarrow> p \<le> rp_start a \<Longrightarrow> removed bs a \<le> rp_start a - p"
proof (induction bs arbitrary: p)
  case (Cons b bs)
  then have b: "p \<le> rp_start b" "rp_start b \<le> rp_end b" "sorted_from (rp_end b) bs" by auto
  show ?case
  proof (cases "before b a")
    case True
    with Cons.IH [OF b(3)] b show ?thesis by (auto simp: before_def range_len_def)
  next
    case False
    have "\<not> before c a" if "c \<in> set bs" for c
      using that False sorted_from_start [OF b(3) that] by (auto simp: before_def)
    then have "removed bs a = 0" by (simp add: removed_def filter_empty_conv)
    with False show ?thesis by simp
  qed
qed simp

text \<open>The loop of \<open>shift\<close>, for either end of a replacement that no concurrent one conflicts with.\<close>

lemma shift_loop_sum:
  assumes "\<And>b. b \<in> set bs \<Longrightarrow>
      (rp_end b < x \<or> (rp_end b = x \<and> (start \<or> \<not> range_is_empty (rp_range b)))) = before b a"
    and "ins + total_inserted bs \<le> usize_max"
  shows "shift_loop bs x start rem ins = Inr (rem + removed bs a, ins + inserted bs a)"
  using assms
proof (induction bs arbitrary: rem ins)
  case (Cons b bs)
  have b: "(rp_end b < x \<or> (rp_end b = x \<and> (start \<or> \<not> range_is_empty (rp_range b)))) = before b a"
    using Cons.prems(1) by simp
  have "ins + length (rp_text b) \<le> usize_max" using Cons.prems(2) by simp
  moreover have "shift_loop bs x start rem' ins' = Inr (rem' + removed bs a, ins' + inserted bs a)"
    if "ins' \<le> ins + length (rp_text b)" for rem' ins'
    using Cons.IH Cons.prems that by (auto simp: add.assoc)
  ultimately show ?case using b by (simp add: add.assoc checked_add_def)
qed simp

lemma shift_loop_le: "shift_loop bs x start rem ins = Inr (rem', ins') \<Longrightarrow> ins \<le> ins'"
proof (induction bs arbitrary: rem ins)
  case (Cons b bs)
  then show ?case by (fastforce split: if_splits option.splits)
qed simp

lemma shift_loop_value:
  assumes "\<And>b. b \<in> set bs \<Longrightarrow>
      (rp_end b < x \<or> (rp_end b = x \<and> (start \<or> \<not> range_is_empty (rp_range b)))) = before b a"
    and "shift_loop bs x start rem ins = Inr (rem', ins')"
  shows "rem' = rem + removed bs a \<and> ins' = ins + inserted bs a"
  using assms
proof (induction bs arbitrary: rem ins)
  case (Cons b bs)
  have b: "(rp_end b < x \<or> (rp_end b = x \<and> (start \<or> \<not> range_is_empty (rp_range b)))) = before b a"
    using Cons.prems(1) by simp
  have IH: "shift_loop bs x start r i = Inr (rem', ins') \<Longrightarrow> rem' = r + removed bs a \<and> ins' = i + inserted bs a" for r i
    using Cons.IH [of r i] Cons.prems(1) by simp
  show ?case
    using Cons.prems(2) IH unfolding shift_loop.simps b
    by (fastforce split: if_splits option.splits)
qed simp

text \<open>Which concurrent replacements each end of a replacement is shifted by.\<close>

lemma end_side:
  assumes "rp_start a \<le> rp_end a" "rp_start b \<le> rp_end b" "\<not> replacements_conflict a b"
  shows "(rp_end b < rp_end a \<or> (rp_end b = rp_end a \<and> (False \<or> \<not> range_is_empty (rp_range b)))) = before b a"
  using assms(3) unfolding no_conflict_iff [OF assms(1,2)] using assms(1,2)
  by (auto simp: before_def range_is_empty_def)

lemma start_side: "(rp_end b < rp_start a \<or> (rp_end b = rp_start a \<and> (True \<or> \<not> range_is_empty (rp_range b)))) = before b a"
  by (auto simp: before_def)

lemma shift_start:
  assumes "total_inserted (dl_replacements d) + rp_start a \<le> usize_max" "sorted_from 0 (dl_replacements d)"
  shows "shift d (rp_start a) True = Inr (rp_start a + inserted (dl_replacements d) a - removed (dl_replacements d) a)"
proof -
  let ?bs = "dl_replacements d"
  have "shift_loop ?bs (rp_start a) True 0 0 = Inr (0 + removed ?bs a, 0 + inserted ?bs a)"
    by (rule shift_loop_sum) (use assms(1) in \<open>auto simp: before_def\<close>)
  then have "shift_loop ?bs (rp_start a) True 0 0 = Inr (removed ?bs a, inserted ?bs a)" by simp
  moreover have "removed ?bs a \<le> rp_start a" using removed_le [OF assms(2), of a] by simp
  ultimately show ?thesis
    using assms(1) inserted_le_total [of ?bs a] by (simp add: shift_def checked_sub_def checked_add_def)
qed

lemma shift_end:
  assumes "total_inserted (dl_replacements d) + rp_end a \<le> usize_max" "sorted_from 0 (dl_replacements d)"
    and "rp_start a \<le> rp_end a" "\<forall>b \<in> set (dl_replacements d). \<not> replacements_conflict a b"
  shows "shift d (rp_end a) False = Inr (rp_end a + inserted (dl_replacements d) a - removed (dl_replacements d) a)"
proof -
  let ?bs = "dl_replacements d"
  have "(rp_end b < rp_end a \<or> (rp_end b = rp_end a \<and> (False \<or> \<not> range_is_empty (rp_range b)))) = before b a"
    if "b \<in> set ?bs" for b
    using end_side [OF assms(3)] sorted_from_start [OF assms(2) that] assms(4) that by simp
  then have "shift_loop ?bs (rp_end a) False 0 0 = Inr (removed ?bs a, inserted ?bs a)"
    using shift_loop_sum [of ?bs "rp_end a" False a 0 0] assms(1) by auto
  moreover have "removed ?bs a \<le> rp_end a"
    using removed_le [OF assms(2), of a] assms(3) by simp
  ultimately show ?thesis
    using assms(1) inserted_le_total [of ?bs a] by (simp add: shift_def checked_sub_def checked_add_def)
qed

text \<open>A shift that does not overflow has the same value.\<close>

lemma shift_value:
  assumes "shift d x start = Inr y" "sorted_from 0 (dl_replacements d)" "rp_start a \<le> x"
    and "\<And>b. b \<in> set (dl_replacements d) \<Longrightarrow>
      (rp_end b < x \<or> (rp_end b = x \<and> (start \<or> \<not> range_is_empty (rp_range b)))) = before b a"
  shows "y = x + inserted (dl_replacements d) a - removed (dl_replacements d) a"
proof -
  let ?bs = "dl_replacements d"
  obtain rem ins where l: "shift_loop ?bs x start 0 0 = Inr (rem, ins)"
    and y: "do { q \<leftarrow> checked_sub x rem; checked_add q ins } = Some y"
    using assms(1) by (auto simp: shift_def split: sum.splits option.splits)
  have "rem = removed ?bs a \<and> ins = inserted ?bs a"
    using shift_loop_value [OF assms(4) l] by simp
  then show ?thesis using y by (auto simp: bind_eq_Some_conv)
qed

lemma shift_all_value:
  assumes "shift_all as d = Inr rs" "sorted_from 0 (dl_replacements d)" "sorted_from p as"
    and "\<forall>a \<in> set as. \<forall>b \<in> set (dl_replacements d). \<not> replacements_conflict a b"
  shows "rs = map (move 0 0 (dl_replacements d)) as"
  using assms(1,3,4)
proof (induction as arbitrary: p rs)
  case (Cons a as)
  then have a: "rp_start a \<le> rp_end a" "sorted_from (rp_end a) as" by auto
  obtain x y rest where s: "shift d (rp_start a) True = Inr x" "shift d (rp_end a) False = Inr y"
    "shift_all as d = Inr rest" "rs = mk_replacement x y (rp_text a) # rest"
    using Cons.prems(1) by (auto split: sum.splits)
  have "x = rp_start a + inserted (dl_replacements d) a - removed (dl_replacements d) a"
    by (rule shift_value [OF s(1) assms(2) order_refl]) (rule start_side)
  moreover have "y = rp_end a + inserted (dl_replacements d) a - removed (dl_replacements d) a"
    by (rule shift_value [OF s(2) assms(2) a(1)], rule end_side [OF a(1)])
      (use sorted_from_start [OF assms(2)] Cons.prems(3) in auto)
  ultimately show ?case using Cons.IH [OF s(3) a(2)] Cons.prems(3) s(4) by (simp add: move_def)
qed simp

lemma shift_all_move:
  assumes "sorted_from 0 (dl_replacements d)" "within n as" "sorted_from p as"
    and "total_inserted (dl_replacements d) + n \<le> usize_max"
    and "\<forall>a \<in> set as. \<forall>b \<in> set (dl_replacements d). \<not> replacements_conflict a b"
  shows "shift_all as d = Inr (map (move 0 0 (dl_replacements d)) as)"
  using assms(2,3,5)
proof (induction as arbitrary: p)
  case (Cons a as)
  then have a: "rp_start a \<le> rp_end a" "rp_end a \<le> n" by auto
  have "shift d (rp_start a) True = Inr (rp_start a + inserted (dl_replacements d) a - removed (dl_replacements d) a)"
    using a assms(4) by (intro shift_start assms(1)) simp
  moreover have "shift d (rp_end a) False = Inr (rp_end a + inserted (dl_replacements d) a - removed (dl_replacements d) a)"
    using a assms(4) Cons.prems(3) by (intro shift_end assms(1)) auto
  ultimately show ?case using Cons by (auto simp: move_def)
qed simp

section \<open>Convergence\<close>

text \<open>
  The joint meaning of two non-conflicting sorted lists: take the replacements of both in the order
  in which they stand in the text.
\<close>

function merged :: "usize \<Rightarrow> replacement list \<Rightarrow> replacement list \<Rightarrow> rstr \<Rightarrow> rstr" where
  "merged p [] bs xs = app_from p bs xs"
| "merged p (a # as) bs xs =
     (if bs \<noteq> [] \<and> before (hd bs) a
      then take (rp_start (hd bs) - p) xs @ rp_text (hd bs) @
             merged (rp_end (hd bs)) (a # as) (tl bs) (drop (rp_end (hd bs) - p) xs)
      else take (rp_start a - p) xs @ rp_text a @ merged (rp_end a) as bs (drop (rp_end a - p) xs))"
  by pat_completeness auto
termination
  by (relation "measure (\<lambda>(p, as, bs, xs). length as + length bs)") auto

definition compatible :: "replacement list \<Rightarrow> replacement list \<Rightarrow> bool" where
  "compatible as bs \<longleftrightarrow> (\<forall>a \<in> set as. \<forall>b \<in> set bs. \<not> replacements_conflict a b)"

lemma compatible_simps [simp]:
  "compatible [] bs" "compatible as []"
  "compatible (a # as) bs \<longleftrightarrow> (\<forall>b \<in> set bs. \<not> replacements_conflict a b) \<and> compatible as bs"
  "compatible as (b # bs) \<longleftrightarrow> (\<forall>a \<in> set as. \<not> replacements_conflict a b) \<and> compatible as bs"
  by (auto simp: compatible_def)

lemma compatible_sym: "compatible as bs = compatible bs as"
  using replacements_conflict_sym by (auto simp: compatible_def)

lemma merged_nil [simp]: "merged p as [] xs = app_from p as xs"
  by (induction as arbitrary: p xs) simp_all

lemma order_total:
  assumes "rp_start a \<le> rp_end a" "rp_start b \<le> rp_end b" "\<not> replacements_conflict a b"
  shows "before a b \<longleftrightarrow> \<not> before b a"
  using no_conflict_iff [OF assms(1,2)] assms(3) by (auto simp: before_def)

lemma merged_sym:
  assumes "sorted_from p as" "sorted_from p bs" "compatible as bs"
  shows "merged p as bs xs = merged p bs as xs"
  using assms
proof (induction p as bs xs rule: merged.induct)
  case (2 p a as bs xs)
  show ?case
  proof (cases bs)
    case (Cons b bs')
    have a: "rp_start a \<le> rp_end a" and b: "rp_start b \<le> rp_end b" and nc: "\<not> replacements_conflict a b"
      using "2.prems" Cons by auto
    show ?thesis
    proof (cases "before b a")
      case True
      then have "\<not> before a b" using order_total [OF a b nc] by simp
      moreover have "sorted_from (rp_end b) (a # as)" using True "2.prems"(1) by (auto simp: before_def)
      ultimately show ?thesis using True "2.IH"(1) "2.prems" Cons by auto
    next
      case False
      then have "before a b" using order_total [OF a b nc] by simp
      moreover from this have "sorted_from (rp_end a) bs" using "2.prems"(2) Cons by (auto simp: before_def)
      ultimately show ?thesis using False "2.IH"(2) "2.prems" Cons by auto
    qed
  qed simp
qed simp

text \<open>How the moved replacement depends on the position up to which both lists have been consumed.\<close>

lemma move_cons:
  assumes "before b a" "p \<le> rp_start b" "rp_start b \<le> rp_end b" "rp_start a \<le> rp_end a" "sorted_from (rp_end b) bs"
  shows "move q p (b # bs) a = move (q + (rp_start b - p) + length (rp_text b)) (rp_end b) bs a"
proof -
  have "removed bs a \<le> rp_start a - rp_end b"
    using removed_le [OF assms(5)] assms(1) by (simp add: before_def)
  then have "q + (x - p) + (length (rp_text b) + inserted bs a) - (range_len (rp_range b) + removed bs a) =
      q + (rp_start b - p) + length (rp_text b) + (x - rp_end b) + inserted bs a - removed bs a"
    if "rp_start a \<le> x" for x
    using that assms by (simp add: before_def range_len_def)
  from this [of "rp_start a"] this [of "rp_end a"] assms(1,4) show ?thesis by (simp add: move_def)
qed

lemma move_skip:
  assumes "p \<le> e" "e \<le> rp_start a" "rp_start a \<le> rp_end a"
  shows "move q p bs a = move (q + (e - p)) e bs a"
  using assms by (simp add: move_def)

lemma none_before:
  assumes "bs = [] \<or> \<not> before (hd bs) a" "sorted_from p bs"
  shows "removed bs a = 0" "inserted bs a = 0"
proof -
  have "\<not> before b a" if "b \<in> set bs" for b
  proof (cases bs)
    case (Cons c cs)
    with assms have c: "\<not> before c a" "sorted_from (rp_end c) cs" by auto
    show ?thesis using that c sorted_from_start [OF c(2), of b] Cons by (auto simp: before_def)
  qed (use that in simp)
  then have "filter (\<lambda>b. before b a) bs = []" by (simp add: filter_empty_conv)
  then show "removed bs a = 0" "inserted bs a = 0" by (simp_all add: removed_def inserted_def)
qed

lemma map_move_cons:
  assumes "sorted_from (rp_end b) as" "p \<le> rp_start b" "rp_start b \<le> rp_end b" "sorted_from (rp_end b) bs"
  shows "map (move q p (b # bs)) as = map (move (q + (rp_start b - p) + length (rp_text b)) (rp_end b) bs) as"
  using sorted_from_start [OF assms(1)] assms(2-4) by (intro list.map_cong0 move_cons) (auto simp: before_def)

lemma map_move_skip:
  assumes "sorted_from e as" "p \<le> e"
  shows "map (move q p bs) as = map (move (q + (e - p)) e bs) as"
  using sorted_from_start [OF assms(1)] assms(2) by (intro list.map_cong0 move_skip) auto

lemma move_first:
  assumes "bs = [] \<or> \<not> before (hd bs) a" "sorted_from p bs"
  shows "move q p bs a = mk_replacement (q + (rp_start a - p)) (q + (rp_end a - p)) (rp_text a)"
  using none_before [OF assms] by (simp add: move_def)

text \<open>The side conditions of the two inductions below.\<close>

lemma first_sorted:
  assumes "bs = [] \<or> \<not> before (hd bs) a" "sorted_from p (a # as)" "sorted_from p bs" "compatible (a # as) bs"
  shows "sorted_from (rp_end a) bs"
proof (cases bs)
  case (Cons b bs')
  then have "before a b" using assms order_total [of a b] by auto
  with Cons assms show ?thesis by (auto simp: before_def)
qed simp

lemma move_sorted:
  assumes "sorted_from p as" "sorted_from p bs" "compatible as bs"
  shows "sorted_from q (map (move q p bs) as)"
  using assms
proof (induction p as bs "[] :: rstr" arbitrary: q rule: merged.induct)
  case (2 p a as bs)
  show ?case
  proof (cases "bs \<noteq> [] \<and> before (hd bs) a")
    case True
    then obtain b bs' where bs: "bs = b # bs'" "before b a" by (cases bs) auto
    let ?q = "q + (rp_start b - p) + length (rp_text b)"
    have s: "sorted_from (rp_end b) (a # as)" using "2.prems"(1) bs by (auto simp: before_def)
    have "sorted_from ?q (map (move ?q (rp_end b) bs') (a # as))"
      using "2.hyps"(1) [OF True, of ?q] s "2.prems" bs by simp
    moreover have "map (move q p bs) (a # as) = map (move ?q (rp_end b) bs') (a # as)"
      unfolding bs(1) by (rule map_move_cons [OF s]) (use "2.prems"(2) bs in auto)
    ultimately show ?thesis by (simp only:) (rule sorted_from_mono, auto)
  next
    case False
    let ?q = "q + (rp_end a - p)"
    have s: "sorted_from (rp_end a) bs" by (rule first_sorted) (use False "2.prems" in auto)
    have "sorted_from ?q (map (move ?q (rp_end a) bs) as)"
      using "2.hyps"(2) [OF False, of ?q] s "2.prems" by simp
    moreover have "map (move q p bs) as = map (move ?q (rp_end a) bs) as"
      by (rule map_move_skip) (use "2.prems"(1) in auto)
    moreover have "move q p bs a = mk_replacement (q + (rp_start a - p)) ?q (rp_text a)"
      by (rule move_first) (use False "2.prems"(2) in auto)
    ultimately show ?thesis using "2.prems"(1) by (auto simp del: map_eq_conv)
  qed
qed simp

lemma app_moved:
  assumes "sorted_from p as" "sorted_from p bs" "compatible as bs"
    and "within (p + length xs) as" "within (p + length xs) bs"
  shows "app_from q (map (move q p bs) as) (app_from p bs xs) = merged p as bs xs"
  using assms
proof (induction p as bs xs arbitrary: q rule: merged.induct)
  case (2 p a as bs xs)
  show ?case
  proof (cases "bs \<noteq> [] \<and> before (hd bs) a")
    case True
    then obtain b bs' where bs: "bs = b # bs'" "before b a" by (cases bs) auto
    have b: "p \<le> rp_start b" "rp_start b \<le> rp_end b" "sorted_from (rp_end b) bs'" "rp_end b \<le> p + length xs"
      using "2.prems" bs by auto
    let ?pre = "take (rp_start b - p) xs @ rp_text b"
    let ?q = "q + length ?pre" and ?ys = "drop (rp_end b - p) xs"
    have len: "length ?pre = rp_start b - p + length (rp_text b)" "rp_end b + length ?ys = p + length xs"
      using b by auto
    have s: "sorted_from (rp_end b) (a # as)" using "2.prems"(1) bs by (auto simp: before_def)
    have moved: "map (move q p bs) (a # as) = map (move ?q (rp_end b) bs') (a # as)"
      unfolding len(1) bs(1) using map_move_cons [OF s b(1-3), of q] by (simp only: add.assoc)
    have sorted: "sorted_from ?q (map (move ?q (rp_end b) bs') (a # as))"
      by (rule move_sorted [OF s b(3)]) (use "2.prems"(3) bs in auto)
    have IH: "app_from ?q (map (move ?q (rp_end b) bs') (a # as)) (app_from (rp_end b) bs' ?ys) =
        merged (rp_end b) (a # as) bs' ?ys"
      using "2.IH"(1) [OF True, of ?q] "2.prems"(3-5) s b(3) unfolding bs(1) list.sel len(2) by simp
    have "app_from p bs xs = ?pre @ app_from (rp_end b) bs' ?ys" using bs by simp
    then have "app_from q (map (move q p bs) (a # as)) (app_from p bs xs) =
        ?pre @ merged (rp_end b) (a # as) bs' ?ys"
      unfolding moved by (simp only: app_from_append_prefix [OF sorted] IH)
    moreover have "merged p (a # as) bs xs = ?pre @ merged (rp_end b) (a # as) bs' ?ys" using bs by simp
    ultimately show ?thesis by (simp only:)
  next
    case False
    have a: "p \<le> rp_start a" "rp_start a \<le> rp_end a" "sorted_from (rp_end a) as" "rp_end a \<le> p + length xs"
      using "2.prems" by auto
    let ?q = "q + (rp_end a - p)" and ?ys = "drop (rp_end a - p) xs"
    have len: "rp_end a + length ?ys = p + length xs" using a by simp
    have s: "sorted_from (rp_end a) bs" by (rule first_sorted) (use False "2.prems" in auto)
    have IH: "app_from ?q (map (move ?q (rp_end a) bs) as) (app_from (rp_end a) bs ?ys) = merged (rp_end a) as bs ?ys"
      using "2.IH"(2) [OF False, of ?q] "2.prems"(3-5) a(3) s unfolding len by simp
    have view: "app_from p bs xs = take (rp_end a - p) xs @ app_from (rp_end a) bs ?ys"
      using app_from_length_prefix [OF s, of p xs] a by simp
    have rest: "map (move q p bs) as = map (move ?q (rp_end a) bs) as"
      by (rule map_move_skip [OF a(3)]) (use a in simp)
    have first: "move q p bs a = mk_replacement (q + (rp_start a - p)) ?q (rp_text a)"
      by (rule move_first) (use False "2.prems"(2) in auto)
    have "app_from q (map (move q p bs) (a # as)) (app_from p bs xs) =
        app_from q (mk_replacement (q + (rp_start a - p)) ?q (rp_text a) # map (move ?q (rp_end a) bs) as)
          (take (rp_end a - p) xs @ app_from (rp_end a) bs ?ys)"
      by (rule arg_cong2 [where f = "app_from q", OF _ view]) (simp only: list.map(2) first, rule arg_cong [OF rest])
    also have "\<dots> = take (rp_start a - p) xs @ rp_text a @ merged (rp_end a) as bs ?ys"
      using a by (simp add: min_def IH [symmetric])
    also have "\<dots> = merged p (a # as) bs xs" 
      by (subst merged.simps(2), subst if_not_P [OF False], rule refl)
    finally show ?thesis .
  qed
qed simp

lemma move_within:
  assumes "sorted_from p as" "sorted_from p bs" "compatible as bs"
    and "within (p + length xs) as" "within (p + length xs) bs"
  shows "within (q + length (app_from p bs xs)) (map (move q p bs) as)"
  using assms
proof (induction p as bs xs arbitrary: q rule: merged.induct)
  case (2 p a as bs xs)
  show ?case
  proof (cases "bs \<noteq> [] \<and> before (hd bs) a")
    case True
    then obtain b bs' where bs: "bs = b # bs'" "before b a" by (cases bs) auto
    have b: "p \<le> rp_start b" "rp_start b \<le> rp_end b" "sorted_from (rp_end b) bs'" "rp_end b \<le> p + length xs"
      using "2.prems" bs by auto
    let ?q = "q + (rp_start b - p) + length (rp_text b)" and ?ys = "drop (rp_end b - p) xs"
    have len: "rp_end b + length ?ys = p + length xs" using b by auto
    have s: "sorted_from (rp_end b) (a # as)" using "2.prems"(1) bs by (auto simp: before_def)
    have "within (?q + length (app_from (rp_end b) bs' ?ys)) (map (move ?q (rp_end b) bs') (a # as))"
      using "2.IH"(1) [OF True, of ?q] "2.prems"(3-5) s b(3) unfolding bs(1) list.sel len by simp
    moreover have "?q + length (app_from (rp_end b) bs' ?ys) = q + length (app_from p bs xs)" using bs b by simp
    ultimately show ?thesis unfolding bs(1) map_move_cons [OF s b(1-3)] by (simp only:)
  next
    case False
    have a: "p \<le> rp_start a" "rp_start a \<le> rp_end a" "sorted_from (rp_end a) as" "rp_end a \<le> p + length xs"
      using "2.prems" by auto
    let ?q = "q + (rp_end a - p)" and ?ys = "drop (rp_end a - p) xs"
    have len: "rp_end a + length ?ys = p + length xs" using a by simp
    have s: "sorted_from (rp_end a) bs" by (rule first_sorted) (use False "2.prems" in auto)
    have w: "within (?q + length (app_from (rp_end a) bs ?ys)) (map (move ?q (rp_end a) bs) as)"
      using "2.IH"(2) [OF False, of ?q] "2.prems"(3-5) a(3) s unfolding len by simp
    have view: "?q + length (app_from (rp_end a) bs ?ys) = q + length (app_from p bs xs)"
    proof -
      have "length (app_from p bs xs) = length (take (rp_end a - p) xs) + length (app_from (rp_end a) bs ?ys)"
        by (subst app_from_length_prefix [OF s, of p xs]) (use a in simp_all)
      then show ?thesis using a by simp
    qed
    have rest: "map (move q p bs) as = map (move ?q (rp_end a) bs) as"
      by (rule map_move_skip [OF a(3)]) (use a in simp)
    have first: "move q p bs a = mk_replacement (q + (rp_start a - p)) ?q (rp_text a)"
      by (rule move_first) (use False "2.prems"(2) in auto)
    have "within (q + length (app_from p bs xs)) (map (move q p bs) as)"
      by (subst rest) (use w in \<open>simp only: view\<close>)
    moreover have "rp_end (move q p bs a) \<le> q + length (app_from p bs xs)"
      by (simp only: first view [symmetric]) simp
    ultimately show ?thesis by simp
  qed
qed simp

text \<open>
  Two non-conflicting deltas over the same revision: each can be rebased over the other, the rebased
  deltas are in normal form and apply to the other delta's result, and both orders give the same text.
\<close>

lemma map_move_effective: "normal as \<Longrightarrow> sorted_from 0 bs \<Longrightarrow> filter effective (map (move 0 0 bs) as) = map (move 0 0 bs) as"
proof (induction as)
  case (Cons a as)
  then have a: "effective a" "rp_start a \<le> rp_end a" by (auto simp: effective_def)
  have "removed bs a \<le> rp_start a" using removed_le [OF Cons.prems(2), of a] by simp
  with a have "effective (move 0 0 bs a)" by (auto simp: effective_def move_def)
  with Cons show ?case by auto
qed simp

lemma transform_after_sound:
  assumes "wf_delta n a" "wf_delta n b" "transform_after a b = Inr ta" "length s = n"
  shows "wf_delta (length (delta_str b s)) ta"
    "delta_str ta (delta_str b s) = merged 0 (dl_replacements a) (dl_replacements b) s"
    "\<not> conflicts a b"
proof -
  let ?as = "dl_replacements a" and ?bs = "dl_replacements b"
  show nc: "\<not> conflicts a b" using assms(3) by (auto simp: transform_after_def)
  have n: "normal ?as" "sorted_from 0 ?as" "within n ?as" "sorted_from 0 ?bs" "within n ?bs"
    using assms(1,2) normal_sorted_0 by (auto simp: wf_delta_def)
  have c: "compatible ?as ?bs" using nc conflicts_iff [OF assms(1,2)] by (auto simp: compatible_def)
  obtain rs where rs: "shift_all ?as b = Inr rs" "delta_new rs = Inr ta"
    using assms(3) nc by (auto simp: transform_after_def split: sum.splits)
  have "rs = map (move 0 0 ?bs) ?as"
    by (rule shift_all_value [OF rs(1) n(4,2)]) (use c in \<open>auto simp: compatible_def\<close>)
  with rs(2) have ta: "delta_new (map (move 0 0 ?bs) ?as) = Inr ta" by simp
  have "within (0 + length (app_from 0 ?bs s)) (map (move 0 0 ?bs) ?as)"
    by (rule move_within [OF n(2,4) c]) (use n assms(4) in simp_all)
  then show "wf_delta (length (delta_str b s)) ta"
    using delta_new_ok(1,3) [OF ta] by (simp add: wf_delta_def delta_str_def)
  have "delta_str ta (delta_str b s) = app_from 0 (map (move 0 0 ?bs) ?as) (app_from 0 ?bs s)"
    using delta_new_ok(2) [OF ta] map_move_effective [OF n(1,4)] by (simp add: delta_str_def)
  also have "\<dots> = merged 0 ?as ?bs s"
    by (rule app_moved [OF n(2,4) c]) (use n assms(4) in simp_all)
  finally show "delta_str ta (delta_str b s) = merged 0 ?as ?bs s" .
qed

lemma transform_after_total:
  assumes "wf_delta n a" "wf_delta n b" "\<not> conflicts a b"
    and "n + total_inserted (dl_replacements b) \<le> usize_max"
  obtains ta where "transform_after a b = Inr ta"
proof -
  let ?as = "dl_replacements a" and ?bs = "dl_replacements b"
  have n: "sorted_from 0 ?as" "within n ?as" "sorted_from 0 ?bs"
    using assms(1,2) normal_sorted_0 by (auto simp: wf_delta_def)
  have c: "compatible ?as ?bs" using assms(3) conflicts_iff [OF assms(1,2)] by (auto simp: compatible_def)
  have "shift_all ?as b = Inr (map (move 0 0 ?bs) ?as)"
    by (rule shift_all_move [OF n(3,2,1)]) (use assms(4) c in \<open>auto simp: compatible_def\<close>)
  then show thesis
    using delta_new_succeeds [OF move_sorted [OF n(1,3) c, of 0]] assms(3) that
    by (auto simp: transform_after_def)
qed

lemma conflicts_sym:
  assumes "wf_delta m a" "wf_delta n b"
  shows "conflicts a b = conflicts b a"
  unfolding conflicts_iff [OF assms] conflicts_iff [OF assms(2,1)]
  using replacements_conflict_sym by blast

end
