(* ===== verification/BufferProvenance.thy ===== *)
theory BufferProvenance
  imports BufferRebase "HOL-Library.Sublist"
begin

text \<open>
  Reconstruction of a delta from provenance (\<open>Delta::between\<close>). The chunks of a base and of a view
  derived from it are shared, so the pieces of the view that lie in chunks of the base name the base
  text they retain. The lemmas show that the reconstructed delta is in normal form and turns the base
  into the view, and that for a view obtained from the base by edits reconstruction can only fail by
  exhausting the budget.
\<close>

section \<open>The span table\<close>

text \<open>The spans of one chunk among the pieces of the base, with their offsets in the base text.\<close>

fun spans_of :: "nat \<Rightarrow> piece list \<Rightarrow> usize \<Rightarrow> base_span list" where
  "spans_of a [] offset = []"
| "spans_of a (p # ps) offset =
     (if ch_addr (pc_chunk p) = a then [\<lparr>sp_range = pc_range p, sp_offset = offset\<rparr>] else []) @
     spans_of a ps (offset + piece_len p)"

abbreviation span_start :: "base_span \<Rightarrow> usize" where "span_start sp \<equiv> range_start (sp_range sp)"
abbreviation span_end :: "base_span \<Rightarrow> usize" where "span_end sp \<equiv> range_end (sp_range sp)"
abbreviation pieces_cells :: "piece list \<Rightarrow> cell list" where "pieces_cells ps \<equiv> concat (map piece_cells ps)"

lemma base_origins_eq: "base_origins ps offset origins a = origins a @ spans_of a ps offset"
  by (induction ps arbitrary: offset origins) (auto simp: piece_origin_def)

lemma spans_of_split:
  assumes "sp \<in> set (spans_of a ps offset)"
  shows "\<exists>pre p post. ps = pre @ p # post \<and> ch_addr (pc_chunk p) = a \<and> sp_range sp = pc_range p \<and>
    sp_offset sp = offset + length (pieces_cells pre)"
  using assms
proof (induction ps arbitrary: offset)
  case (Cons q ps)
  show ?case
  proof (cases "sp \<in> set (spans_of a ps (offset + piece_len q))")
    case True
    from Cons.IH [OF this] obtain pre p post where "ps = pre @ p # post" "ch_addr (pc_chunk p) = a"
      "sp_range sp = pc_range p" "sp_offset sp = offset + piece_len q + length (pieces_cells pre)"
      by blast
    then show ?thesis by (intro exI [of _ "q # pre"] exI [of _ p] exI [of _ post]) simp
  next
    case False
    with Cons.prems have "ch_addr (pc_chunk q) = a" "sp = \<lparr>sp_range = pc_range q, sp_offset = offset\<rparr>"
      by (auto split: if_splits)
    then show ?thesis by (intro exI [of _ "[]"] exI [of _ q] exI [of _ ps]) simp
  qed
qed simp

lemma spans_of_sorted:
  assumes "ordered (pieces_cells ps)" "\<forall>p \<in> set ps. wf_piece p"
  shows "sorted_wrt (\<lambda>s t. span_end s \<le> span_start t) (spans_of a ps offset)"
  using assms
proof (induction ps arbitrary: offset)
  case (Cons q ps)
  have "range_end (pc_range q) \<le> span_start t"
    if t: "t \<in> set (spans_of a ps (offset + piece_len q))" and q: "ch_addr (pc_chunk q) = a" for t
  proof -
    obtain p where p: "p \<in> set ps" "ch_addr (pc_chunk p) = a" "sp_range t = pc_range p"
      using spans_of_split [OF t] by (metis in_set_conv_decomp)
    have "wf_piece q" "wf_piece p" using Cons.prems(2) p(1) by auto
    then have "(a, range_end (pc_range q) - 1, ch_text (pc_chunk q) ! (range_end (pc_range q) - 1)) \<in> set (piece_cells q)"
      "(a, span_start t, ch_text (pc_chunk p) ! span_start t) \<in> set (piece_cells p)"
      using p q by (auto simp: piece_cells_def wf_piece_def)
    moreover have "piece_cells p \<in> set (map piece_cells ps)" using p(1) by simp
    ultimately have "range_end (pc_range q) - 1 < span_start t"
      using Cons.prems(1) p(1) by (fastforce simp: ordered_append)
    then show ?thesis by simp
  qed
  moreover have "sorted_wrt (\<lambda>s t. span_end s \<le> span_start t) (spans_of a ps (offset + piece_len q))"
    using Cons by (auto simp: ordered_append)
  ultimately show ?case by (auto simp: sorted_wrt_append)
qed simp

text \<open>
  What the loop relies on of a span table for the base cells \<open>cs\<close>: every span is a non-empty run of
  cells of the chunk, and spans ascend.
\<close>

definition span_cells :: "cell list \<Rightarrow> nat \<Rightarrow> base_span \<Rightarrow> bool" where
  "span_cells cs a sp \<longleftrightarrow> span_start sp < span_end sp \<and>
     sp_offset sp + (span_end sp - span_start sp) \<le> length cs \<and>
     (\<forall>i. span_start sp \<le> i \<longrightarrow> i < span_end sp \<longrightarrow>
        (\<exists>x. cs ! (sp_offset sp + i - span_start sp) = (a, i, x)))"

definition spans_ok :: "cell list \<Rightarrow> nat \<Rightarrow> base_span list \<Rightarrow> bool" where
  "spans_ok cs a spans \<longleftrightarrow> list_all (span_cells cs a) spans \<and>
     sorted_wrt (\<lambda>s t. span_end s \<le> span_start t) spans"

lemma spans_of_cells:
  assumes "sp \<in> set (spans_of a ps 0)" "\<forall>p \<in> set ps. wf_piece p"
  shows "span_cells (pieces_cells ps) a sp"
proof -
  obtain pre p post where ps: "ps = pre @ p # post" "ch_addr (pc_chunk p) = a" "sp_range sp = pc_range p"
    "sp_offset sp = length (pieces_cells pre)"
    using spans_of_split [OF assms(1)] by auto
  have "wf_piece p" using assms(2) ps(1) by simp
  then have r: "span_start sp < span_end sp" using ps(3) by (simp add: wf_piece_def)
  have "pieces_cells ps ! (sp_offset sp + i - span_start sp) = (a, i, ch_text (pc_chunk p) ! i)"
    if "span_start sp \<le> i" "i < span_end sp" for i
  proof -
    have "pieces_cells ps ! (sp_offset sp + (i - span_start sp)) = (piece_cells p @ pieces_cells post) ! (i - span_start sp)"
      unfolding ps(1,4) by (simp only: map_append concat_append list.map concat.simps nth_append_length_plus)
    then show ?thesis using that r ps(2,3) by (auto simp: nth_append piece_cells_def piece_len_def range_len_def)
  qed
  moreover have "sp_offset sp + (span_end sp - span_start sp) \<le> length (pieces_cells ps)"
    using ps(3,4) by (simp add: ps(1) piece_len_def range_len_def)
  ultimately show ?thesis using r by (auto simp: span_cells_def)
qed

lemma spans_of_ok:
  assumes "ordered (pieces_cells ps)" "\<forall>p \<in> set ps. wf_piece p"
  shows "spans_ok (pieces_cells ps) a (spans_of a ps 0)"
  using assms spans_of_cells spans_of_sorted by (simp add: spans_ok_def list_all_iff)

lemma spans_of_covers:
  assumes "(a, i, x) \<in> set (pieces_cells ps)"
  shows "\<exists>sp \<in> set (spans_of a ps offset). span_start sp \<le> i \<and> i < span_end sp"
  using assms
proof (induction ps arbitrary: offset)
  case (Cons q ps)
  then show ?case
    using Cons.IH [of "offset + piece_len q"] by (auto simp: piece_cells_def)
qed simp

section \<open>Soundness\<close>

text \<open>
  The state of the loop after the view prefix \<open>out\<close>: the replacements collected so far end before the
  cursor and, with the pending insertion, turn the base up to the cursor into \<open>out\<close>.
\<close>

definition between_inv :: "rstr \<Rightarrow> between_state \<Rightarrow> rstr \<Rightarrow> bool" where
  "between_inv B s out \<longleftrightarrow> normal (bs_replacements s) \<and>
     (\<forall>r \<in> set (bs_replacements s). rp_end r < bs_cursor s) \<and> bs_cursor s \<le> length B \<and>
     app_from 0 (bs_replacements s) (take (bs_cursor s) B) @ bs_inserted s = out"

lemma app_from_extend:
  assumes "sorted_from p rs" "within (p + length xs) rs"
  shows "app_from p rs (xs @ ys) = app_from p rs xs @ ys"
  using assms
proof (induction rs arbitrary: p xs)
  case (Cons r rs)
  then have r: "p \<le> rp_start r" "rp_start r \<le> rp_end r" "rp_end r \<le> p + length xs" by auto
  then have "rp_end r + length (drop (rp_end r - p) xs) = p + length xs" by simp
  with Cons have "app_from (rp_end r) rs (drop (rp_end r - p) xs @ ys) = app_from (rp_end r) rs (drop (rp_end r - p) xs) @ ys"
    by auto
  with r show ?case by simp
qed simp

lemma between_inv_sorted:
  assumes "between_inv B s out"
  shows "sorted_from 0 (bs_replacements s)" "within (bs_cursor s) (bs_replacements s)"
  using assms normal_sorted_0 by (auto simp: between_inv_def within_def list_all_iff less_imp_le)

text \<open>Flushing at \<open>retained\<close> and advancing the cursor over \<open>k > 0\<close> retained scalars of the base.\<close>

lemma flush_inv:
  assumes inv: "between_inv B s out" and le: "bs_cursor s \<le> retained"
    and fl: "flush retained s b = Some (Inr s', b')" and k: "0 < k" "retained + k \<le> length B"
  shows "between_inv B (s'\<lparr>bs_cursor := retained + k\<rparr>) (out @ take k (drop retained B))"
proof -
  let ?rs = "bs_replacements s" and ?c = "bs_cursor s"
  note srt = between_inv_sorted [OF inv]
  have split: "take (retained + k) B = take ?c B @ take (retained - ?c) (drop ?c B) @ take k (drop retained B)"
  proof -
    have "take (retained + k) B = take retained B @ take k (drop retained B)" by (rule take_add)
    moreover have "take retained B = take ?c B @ take (retained - ?c) (drop ?c B)"
      using take_add [of ?c "retained - ?c" B] le by simp
    ultimately show ?thesis by simp
  qed
  have len: "length (take ?c B) = ?c" using inv by (simp add: between_inv_def)
  have ext: "app_from 0 ?rs (take ?c B @ ys) = app_from 0 ?rs (take ?c B) @ ys" for ys
    by (rule app_from_extend [OF srt(1)]) (use srt(2) len in simp)
  show ?thesis
  proof (cases "?c = retained \<and> bs_inserted s = []")
    case True
    with fl have "s' = s" by (simp add: flush_def range_is_empty_def)
    then show ?thesis
      using inv True k split ext by (auto simp: between_inv_def)
  next
    case False
    let ?r = "mk_replacement ?c retained (bs_inserted s)"
    have s': "bs_replacements s' = ?rs @ [?r]" "bs_inserted s' = []"
      using fl False le by (auto simp: flush_def range_is_empty_def split: option.splits if_splits)
    have eff: "effective ?r" using False le by (auto simp: effective_def)
    have n: "normal (?rs @ [?r])"
      using inv eff by (auto simp: normal_append between_inv_def)
    have bound: "\<forall>r \<in> set (?rs @ [?r]). rp_end r < retained + k"
      using inv le k by (fastforce simp: between_inv_def)
    have sorted: "sorted_from 0 (?rs @ [?r])" by (rule normal_sorted_0 [OF n])
    have w: "within (0 + length (take (retained + k) B)) (?rs @ [?r])"
      using bound k by (auto simp: within_def list_all_iff less_imp_le min_def)
    have "drop retained (take (retained + k) B) = take k (drop retained B)"
      by (simp add: drop_take)
    then have "app_from 0 (?rs @ [?r]) (take (retained + k) B) =
        app_from 0 ?rs (take ?c B @ bs_inserted s @ take k (drop retained B))"
      using app_from_snoc [OF sorted w] le k by (simp add: min_def)
    also have "\<dots> = out @ take k (drop retained B)"
      using inv ext by (simp add: between_inv_def)
    finally show ?thesis using n bound k s' by (auto simp: between_inv_def)
  qed
qed

lemma bthen_Inr:
  "bthen m f b = Some (Inr y, b') \<longleftrightarrow> (\<exists>x b1. m b = Some (Inr x, b1) \<and> f x b1 = Some (Inr y, b'))"
  by (auto simp: bthen_def split: option.splits sum.splits prod.splits)

lemma span_segment_cells:
  assumes "span_cells cs a sp" "span_start sp \<le> i" "e \<le> span_end sp" "i \<le> e"
    and "\<And>j y. i \<le> j \<Longrightarrow> j < e \<Longrightarrow> (a, j, y) \<in> set cs \<Longrightarrow> y = f j"
  shows "take (e - i) (drop (sp_offset sp + i - span_start sp) cs) = map (\<lambda>j. (a, j, f j)) [i..<e]"
proof (rule nth_equalityI)
  have len: "sp_offset sp + (span_end sp - span_start sp) \<le> length cs" using assms(1) by (auto simp: span_cells_def)
  then show "length (take (e - i) (drop (sp_offset sp + i - span_start sp) cs)) = length (map (\<lambda>j. (a, j, f j)) [i..<e])"
    using assms(2-4) by auto
  fix j assume "j < length (take (e - i) (drop (sp_offset sp + i - span_start sp) cs))"
  then have j: "j < e - i" by simp
  then obtain x where x: "cs ! (sp_offset sp + (i + j) - span_start sp) = (a, i + j, x)"
    using assms(1-4) by (fastforce simp: span_cells_def)
  have pos: "sp_offset sp + (i + j) - span_start sp = sp_offset sp + i - span_start sp + j" using assms(2) by simp
  have lt: "sp_offset sp + (i + j) - span_start sp < length cs" using len j assms(2-4) by simp
  then have "(a, i + j, x) \<in> set cs" using x nth_mem by metis
  then have "x = f (i + j)" using assms(5) j by simp
  then show "take (e - i) (drop (sp_offset sp + i - span_start sp) cs) ! j = map (\<lambda>j. (a, j, f j)) [i..<e] ! j"
    using j x lt pos by simp
qed

lemma span_segment:
  assumes "span_cells cs a sp" "span_start sp \<le> i" "e \<le> span_end sp" "i \<le> e"
    and "\<And>j y. i \<le> j \<Longrightarrow> j < e \<Longrightarrow> (a, j, y) \<in> set cs \<Longrightarrow> y = f j"
  shows "take (e - i) (drop (sp_offset sp + i - span_start sp) (scalars_of cs)) = map f [i..<e]"
  using arg_cong [where f = scalars_of, OF span_segment_cells [OF assms]]
  by (simp add: take_map drop_map comp_def)

lemma between_spans_sound:
  assumes "spans_ok cs a spans" "\<forall>sp \<in> set spans. start < span_end sp" "start \<le> stop"
    and "between_inv (scalars_of cs) s out"
    and "\<And>j y. start \<le> j \<Longrightarrow> j < stop \<Longrightarrow> (a, j, y) \<in> set cs \<Longrightarrow> y = f j"
    and "between_spans spans start stop s b = Some (Inr (start', s'), b')"
  shows "start \<le> start' \<and> start' \<le> stop \<and> between_inv (scalars_of cs) s' (out @ map f [start..<start'])"
  using assms
proof (induction spans start stop s arbitrary: out b rule: between_spans.induct)
  case (2 sp spans start stop s)
  show ?case
  proof (cases "start = stop")
    case False
    let ?e = "min stop (span_end sp)" and ?ret = "sp_offset sp + start - span_start sp"
    from "2.prems"(6) False obtain b1 s1 b2 where
      g: "span_start sp \<le> start" "bs_cursor s \<le> ?ret"
      and fl: "flush ?ret s b1 = Some (Inr s1, b2)"
      and rest: "between_spans spans ?e stop (s1\<lparr>bs_cursor := ?ret + ?e - start\<rparr>) b2 = Some (Inr (start', s'), b')"
      by (auto simp: bthen_Inr Let_def bfail_def split: if_splits)
    have sp: "span_cells cs a sp" "spans_ok cs a spans" "\<forall>t \<in> set spans. span_end sp \<le> span_start t"
      "\<forall>t \<in> set spans. span_start t < span_end t"
      using "2.prems"(1) by (auto simp: spans_ok_def list_all_iff span_cells_def)
    have e: "start < ?e" "?e \<le> span_end sp" "?e \<le> stop" using "2.prems"(2,3) False by auto
    have seg: "take (?e - start) (drop ?ret (scalars_of cs)) = map f [start..<?e]"
      by (rule span_segment [OF sp(1) g(1) e(2)]) (use e "2.prems"(5) in auto)
    have "sp_offset sp + (span_end sp - span_start sp) \<le> length cs" using sp(1) by (auto simp: span_cells_def)
    then have "?ret + (?e - start) \<le> length (scalars_of cs)"
      using g(1) e unfolding length_map by linarith
    from flush_inv [OF "2.prems"(4) g(2) fl _ this] seg e
    have inv: "between_inv (scalars_of cs) (s1\<lparr>bs_cursor := ?ret + ?e - start\<rparr>) (out @ map f [start..<?e])"
      by simp
    have "start \<le> ?e \<and> ?e \<le> start' \<and> start' \<le> stop \<and>
        between_inv (scalars_of cs) s' ((out @ map f [start..<?e]) @ map f [?e..<start'])"
      using "2.IH" [OF False _ refl refl _ sp(2) _ e(3) inv _ rest] g e sp(3,4) "2.prems"(5) by fastforce
    moreover from this have "[start..<start'] = [start..<?e] @ [?e..<start']"
      using upt_add_eq_append [of start ?e "start' - ?e"] by simp
    ultimately show ?thesis by auto
  qed (use "2.prems" in \<open>auto simp: bret_def\<close>)
qed (auto simp: bret_def)

lemma takeWhile_spans:
  fixes i :: usize
  assumes "spans_ok cs a spans"
  defines "first \<equiv> partition_point (\<lambda>sp. span_end sp \<le> i) spans"
  shows "spans_ok cs a (drop first spans)" "\<forall>sp \<in> set (drop first spans). i < span_end sp"
    "\<forall>sp \<in> set spans. sp \<in> set (drop first spans) \<or> span_end sp \<le> i"
proof -
  have d: "drop first spans = dropWhile (\<lambda>sp. span_end sp \<le> i) spans"
    by (simp add: first_def partition_point_def dropWhile_eq_drop)
  have ok: "spans_ok cs a (takeWhile (\<lambda>sp. span_end sp \<le> i) spans @ drop first spans)"
    using assms(1) d by simp
  then show r: "spans_ok cs a (drop first spans)" by (simp add: spans_ok_def sorted_wrt_append)
  show "\<forall>sp \<in> set (drop first spans). i < span_end sp"
  proof (cases "drop first spans")
    case (Cons sp rest)
    then have "i < span_end sp" using d hd_dropWhile [of "\<lambda>sp. span_end sp \<le> i" spans] by simp
    with r Cons show ?thesis by (fastforce simp: spans_ok_def list_all_iff span_cells_def)
  qed simp
  show "\<forall>sp \<in> set spans. sp \<in> set (drop first spans) \<or> span_end sp \<le> i"
    unfolding d by (metis (no_types, lifting) Un_iff set_append set_takeWhileD takeWhile_dropWhile_id)
qed

lemma between_pieces_sound:
  assumes "\<And>a. spans_ok cs a (origins a)" "\<forall>p \<in> set ps. wf_piece p"
    and "between_inv (scalars_of cs) s out"
    and "\<And>a i x y. (a, i, x) \<in> set (pieces_cells ps) \<Longrightarrow> (a, i, y) \<in> set cs \<Longrightarrow> x = y"
    and "between_pieces origins ps s b = Some (Inr s', b')"
  shows "between_inv (scalars_of cs) s' (out @ scalars_of (pieces_cells ps))"
  using assms(2-5)
proof (induction ps arbitrary: s out b)
  case (Cons p ps)
  let ?a = "ch_addr (pc_chunk p)" and ?r = "pc_range p"
  have wfp: "wf_piece p" and wfs: "\<forall>p \<in> set ps. wf_piece p" using Cons.prems(1) by auto
  have coh: "x = y" if "(a, i, x) \<in> set (pieces_cells ps)" "(a, i, y) \<in> set cs" for a i x y
    by (rule Cons.prems(3) [of a i]) (use that in auto)
  show ?case
  proof (cases "origins ?a = []")
    case True
    then obtain b1 where "between_pieces origins ps (s\<lparr>bs_inserted := bs_inserted s @ scalars_of (piece_cells p)\<rparr>) b1 = Some (Inr s', b')"
      using Cons.prems(4) piece_text_wf [OF wfp] by (auto simp: piece_origin_def Let_def bthen_Inr)
    moreover have "between_inv (scalars_of cs) (s\<lparr>bs_inserted := bs_inserted s @ scalars_of (piece_cells p)\<rparr>)
        (out @ scalars_of (piece_cells p))"
      using Cons.prems(2) by (auto simp: between_inv_def)
    ultimately show ?thesis using Cons.IH [OF wfs _ coh] by fastforce
  next
    case False
    define first where "first = partition_point (\<lambda>sp. span_end sp \<le> range_start ?r) (origins ?a)"
    obtain s1 b1 where
      sp: "between_spans (drop first (origins ?a)) (range_start ?r) (range_end ?r) s b = Some (Inr (range_end ?r, s1), b1)"
      and rest: "between_pieces origins ps s1 b1 = Some (Inr s', b')"
      using Cons.prems(4) False
      by (auto simp: piece_origin_def Let_def bthen_Inr first_def bfail_def split: if_splits)
    note d = takeWhile_spans [OF assms(1) [of ?a], where i = "range_start ?r", folded first_def]
    have "(?a, j, ch_text (pc_chunk p) ! j) \<in> set (piece_cells p)" if "range_start ?r \<le> j" "j < range_end ?r" for j
      using that by (auto simp: piece_cells_def)
    then have "y = ch_text (pc_chunk p) ! j" if "range_start ?r \<le> j" "j < range_end ?r" "(?a, j, y) \<in> set cs" for j y
      using that Cons.prems(3) by fastforce
    from between_spans_sound [OF d(1,2) _ Cons.prems(2) this sp]
    have "between_inv (scalars_of cs) s1 (out @ scalars_of (piece_cells p))"
      using wfp by (simp add: wf_piece_def piece_cells_def comp_def)
    from Cons.IH [OF wfs this coh rest] show ?thesis by simp
  qed
qed (auto simp: bret_def)

lemma collect_pieces_eq:
  "length acc \<le> limit \<Longrightarrow> collect_pieces n acc limit =
     (if length acc + length (leaves n) \<le> limit then Some (acc @ leaves n) else None)"
  by (induction n arbitrary: acc) auto

lemma leaves_wf: "wf_node n \<Longrightarrow> p \<in> set (leaves n) \<Longrightarrow> wf_piece p"
  by (induction n) auto

text \<open>The pieces a bounded traversal returns are all the leaves, in order.\<close>

lemma pieces_wf:
  assumes "wf_text t" "pieces t limit = Some ps"
  shows "pieces_cells ps = text_cells t" "\<forall>p \<in> set ps. wf_piece p" "length ps \<le> limit"
  using assms leaves_wf
  by (auto simp: pieces_def collect_pieces_eq cells_def split: option.splits if_splits)

lemma between_limited_Inr:
  "between_limited t b = Some (Inr ps, b') \<Longrightarrow> pieces t (bg_pieces b) = Some ps"
  by (auto simp: between_limited_def bthen_Inr bret_def split: option.splits)

definition coherent :: "btext \<Rightarrow> btext \<Rightarrow> bool" where
  "coherent t u \<longleftrightarrow> (\<forall>a i x y. (a, i, x) \<in> set (text_cells t) \<longrightarrow> (a, i, y) \<in> set (text_cells u) \<longrightarrow> x = y)"

lemma live_coherent: "live_text H h t \<Longrightarrow> live_text H h u \<Longrightarrow> coherent t u"
  using live_cells_coherent unfolding coherent_def by metis

lemma flush_last:
  assumes inv: "between_inv B s out" and fl: "flush (length B) s b = Some (Inr s', b')"
  shows "normal (bs_replacements s')" "within (length B) (bs_replacements s')" "app_from 0 (bs_replacements s') B = out"
proof -
  let ?rs = "bs_replacements s" and ?c = "bs_cursor s"
  have c: "?c \<le> length B" using inv by (simp add: between_inv_def)
  note srt = between_inv_sorted [OF inv]
  have "normal (bs_replacements s') \<and> within (length B) (bs_replacements s') \<and> app_from 0 (bs_replacements s') B = out"
  proof (cases "?c = length B \<and> bs_inserted s = []")
    case True
    with fl have "s' = s" by (simp add: flush_def range_is_empty_def)
    with True inv srt show ?thesis by (auto simp: between_inv_def)
  next
    case False
    let ?r = "mk_replacement ?c (length B) (bs_inserted s)"
    have s': "bs_replacements s' = ?rs @ [?r]"
      using fl False c by (auto simp: flush_def range_is_empty_def split: option.splits if_splits)
    have "effective ?r" using False c by (auto simp: effective_def)
    then have n: "normal (?rs @ [?r])" using inv by (auto simp: normal_append between_inv_def)
    have w: "within (length B) (?rs @ [?r])" using srt(2) c by (auto simp: within_def list_all_iff)
    have len: "length (take ?c B) = ?c" using c by simp
    have "app_from 0 (?rs @ [?r]) B = app_from 0 ?rs (take ?c B @ bs_inserted s)"
      using app_from_snoc [of 0 ?rs ?r B] normal_sorted_0 [OF n] w by simp
    also have "\<dots> = app_from 0 ?rs (take ?c B) @ bs_inserted s"
      by (rule app_from_extend [OF srt(1)]) (use srt(2) len in simp)
    finally show ?thesis using n w s' inv by (simp add: between_inv_def)
  qed
  then show "normal (bs_replacements s')" "within (length B) (bs_replacements s')" "app_from 0 (bs_replacements s') B = out"
    by auto
qed

lemma between_sound:
  assumes "wf_text base" "wf_text view" "ordered (text_cells base)"
    and "live_text H h base" "live_text H h view"
    and "between base view b = Some (Inr d, b')"
  shows "wf_delta (length (text_str base)) d" "delta_str d (text_str base) = text_str view"
proof -
  have "wf_delta (length (text_str base)) d \<and> delta_str d (text_str base) = text_str view"
  proof (cases "shares_root base view")
    case True
    then have "text_cells base = text_cells view" using shares_root_eq [OF assms(4,5)] by simp
    with True assms(6) show ?thesis
      by (auto simp: between_def bret_def delta_default_def wf_delta_def delta_str_def text_str_def)
  next
    case False
    let ?B = "scalars_of (text_cells base)" and ?init = "\<lparr>bs_replacements = [], bs_cursor = 0, bs_inserted = []\<rparr>"
    from assms(6) False obtain bps b1 vps b2 s b3 s' where
      p: "between_limited base b = Some (Inr bps, b1)" "between_limited view b1 = Some (Inr vps, b2)"
      and run: "between_pieces (base_origins bps 0 (\<lambda>_. [])) vps ?init b2 = Some (Inr s, b3)"
      and fl: "flush (text_len base) s b3 = Some (Inr s', b')" and d: "d = \<lparr>dl_replacements = bs_replacements s'\<rparr>"
      by (auto simp: between_def bthen_Inr bret_def)
    note bw = pieces_wf [OF assms(1) between_limited_Inr [OF p(1)]]
    note vw = pieces_wf [OF assms(2) between_limited_Inr [OF p(2)]]
    have "spans_ok (text_cells base) a (base_origins bps 0 (\<lambda>_. []) a)" for a
      using spans_of_ok [of bps a] bw assms(3) by (simp add: base_origins_eq)
    moreover have "coherent view base" by (rule live_coherent [OF assms(5,4)])
    ultimately have "between_inv ?B s ([] @ scalars_of (pieces_cells vps))"
      using between_pieces_sound [OF _ vw(2) _ _ run, of "text_cells base" "[]"] vw(1)
      by (fastforce simp: between_inv_def coherent_def)
    then have inv: "between_inv ?B s (text_str view)" using vw(1) by (simp add: text_str_def)
    have "flush (length ?B) s b3 = Some (Inr s', b')" using fl wf_text_counts(1) [OF assms(1)] by (simp add: text_str_def)
    from flush_last [OF inv this] show ?thesis
      by (simp add: wf_delta_def delta_str_def d text_str_def)
  qed
  then show "wf_delta (length (text_str base)) d" "delta_str d (text_str base) = text_str view" by auto
qed

section \<open>Completeness\<close>

text \<open>
  A view derived from a base when the allocation counter stood at \<open>h\<close>: its older cells are cells of
  the base, in the order of the base. Every edit keeps that, since an edit removes cells and inserts
  cells of new chunks only.
\<close>

definition derived :: "nat \<Rightarrow> btext \<Rightarrow> btext \<Rightarrow> bool" where
  "derived h base view \<longleftrightarrow> (\<forall>(a, i, x) \<in> set (text_cells base). a < h) \<and> ordered (text_cells base) \<and>
     subseq (filter (\<lambda>c. fst c < h) (text_cells view)) (text_cells base)"

lemma derived_refl:
  "\<forall>(a, i, x) \<in> set (text_cells t). a < h \<Longrightarrow> ordered (text_cells t) \<Longrightarrow> derived h t t"
  by (auto simp: derived_def)

lemma derived_splice:
  assumes "derived h base view" "i \<le> j" "\<And>a k x. (a, k, x) \<in> set cs \<Longrightarrow> h \<le> a"
    and "text_cells view' = take i (text_cells view) @ cs @ drop j (text_cells view)"
  shows "derived h base view'"
proof -
  let ?old = "\<lambda>c. fst c < h" and ?v = "text_cells view"
  have "filter ?old cs = []" using assms(3) by (force simp: filter_empty_conv)
  then have "filter ?old (text_cells view') = filter ?old (take i ?v) @ filter ?old (drop j ?v)"
    using assms(4) by simp
  moreover have "subseq (take i ?v @ drop j ?v) ?v"
  proof -
    have "subseq (drop j ?v) (drop i ?v)"
      using assms(2) suffix_imp_subseq [OF suffix_drop, of "j - i" "drop i ?v"] by simp
    then have "subseq (take i ?v @ drop j ?v) (take i ?v @ drop i ?v)" by (simp only: subseq_append')
    then show ?thesis by simp
  qed
  ultimately have "subseq (filter ?old (text_cells view')) (filter ?old ?v)"
    using subseq_filter by (metis filter_append)
  then show ?thesis using assms(1) subseq_order.order_trans by (auto simp: derived_def)
qed

lemma ordered_unique:
  assumes "ordered cs" "p < length cs" "q < length cs" "cs ! p = (a, i, x)" "cs ! q = (a, i, y)"
  shows "p = q"
proof (rule ccontr)
  assume "p \<noteq> q"
  then consider "p < q" | "q < p" by linarith
  then show False
    using assms sorted_wrt_nth_less [OF assms(1) [unfolded ordered_def], of p q]
      sorted_wrt_nth_less [OF assms(1) [unfolded ordered_def], of q p] by cases auto
qed

lemma ordered_same: "ordered cs \<Longrightarrow> (a, i, x) \<in> set cs \<Longrightarrow> (a, i, y) \<in> set cs \<Longrightarrow> x = y"
  using ordered_unique by (metis Pair_inject in_set_conv_nth)

lemma ordered_distinct: "ordered cs \<Longrightarrow> distinct cs"
  using ordered_unique by (metis distinct_conv_nth prod_cases3)

lemma subseq_segment:
  assumes "distinct (pre @ u @ post)" "subseq (u @ v) (pre @ u @ post)" "u \<noteq> []"
  shows "subseq v post"
proof -
  obtain x w where u: "u = x # w" using assms(3) by (cases u) auto
  have "x \<notin> set pre" using assms(1) u by auto
  then have "subseq (x # xs) (pre @ ys) = subseq (x # xs) ys" for xs ys
    by (induction pre) auto
  then have "subseq (w @ v) (w @ post)" using assms(2) u by simp
  then show ?thesis by (simp only: subseq_append')
qed

text \<open>A budgeted computation that returns a value with \<open>P\<close> or has run out of budget.\<close>

definition spent :: "'a budgeted \<Rightarrow> ('a \<Rightarrow> bool) \<Rightarrow> delta_budget \<Rightarrow> bool" where
  "spent m P b \<longleftrightarrow>
     (case m b of None \<Rightarrow> False | Some (Inl e, _) \<Rightarrow> e = DeltaBudgetExceeded | Some (Inr x, _) \<Rightarrow> P x)"

lemma spent_bthen:
  assumes "spent m Q b" "\<And>x b1. Q x \<Longrightarrow> spent (f x) P b1"
  shows "spent (bthen m f) P b"
  using assms by (fastforce simp: spent_def bthen_def split: option.splits sum.splits prod.splits)

lemma spent_simps [simp]:
  "spent (bret x) P b \<longleftrightarrow> P x" "spent (budget_pieces n) (\<lambda>_. True) b" "spent (budget_text n) (\<lambda>_. True) b"
  by (auto simp: spent_def bret_def budget_pieces_def budget_text_def split: option.splits)

lemma spent_flush: "spent (flush r s) (\<lambda>s'. bs_cursor s' = bs_cursor s) b"
  by (auto simp: spent_def flush_def split: option.splits)

text \<open>The span that covers the next retained cell of the view is the next span, at or after the cursor.\<close>

lemma covering_span:
  assumes "spans_ok cs a (sp # spans)" "ordered cs" "start < span_end sp"
    and "(a, start, x) \<in> set (drop c cs)"
    and "\<exists>t \<in> set (sp # spans). span_start t \<le> start \<and> start < span_end t"
  shows "span_start sp \<le> start" "c \<le> sp_offset sp + start - span_start sp"
proof -
  show s: "span_start sp \<le> start"
    using assms(1,3,5) by (fastforce simp: spans_ok_def)
  have sp: "span_cells cs a sp" using assms(1) by (simp add: spans_ok_def)
  let ?p = "sp_offset sp + start - span_start sp"
  obtain y where y: "cs ! ?p = (a, start, y)" using sp s assms(3) unfolding span_cells_def by blast
  have len: "sp_offset sp + (span_end sp - span_start sp) \<le> length cs" using sp by (auto simp: span_cells_def)
  then have p: "?p < length cs" using s assms(3) by linarith
  obtain k where k: "k < length (drop c cs)" "drop c cs ! k = (a, start, x)"
    using assms(4) by (meson in_set_conv_nth)
  then have "c + k = ?p" using ordered_unique [OF assms(2) _ p _ y, of "c + k" x] by simp
  then show "c \<le> ?p" by simp
qed

lemma between_spans_complete:
  assumes "spans_ok cs a spans" "ordered cs" "start \<le> stop"
    and "\<forall>sp \<in> set spans. start < span_end sp"
    and "\<forall>i x. start \<le> i \<longrightarrow> i < stop \<longrightarrow> (a, i, x) \<in> set cs \<longrightarrow> (\<exists>sp \<in> set spans. span_start sp \<le> i \<and> i < span_end sp)"
    and "subseq (map (\<lambda>i. (a, i, f i)) [start..<stop] @ rest) (drop (bs_cursor s) cs)"
  shows "spent (between_spans spans start stop s)
    (\<lambda>(start', s'). start' = stop \<and> subseq rest (drop (bs_cursor s') cs)) b"
  using assms
proof (induction spans start stop s arbitrary: b rule: between_spans.induct)
  case (1 start stop s)
  have "start = stop"
  proof (rule ccontr)
    assume "start \<noteq> stop"
    then have "(a, start, f start) \<in> set (map (\<lambda>i. (a, i, f i)) [start..<stop] @ rest)" using "1.prems"(3) by auto
    then have "(a, start, f start) \<in> set cs"
      using list_emb_set [OF "1.prems"(6)] by (metis in_set_dropD)
    moreover have "start < stop" using \<open>start \<noteq> stop\<close> "1.prems"(3) by simp
    ultimately show False using "1.prems"(5) by force
  qed
  with "1.prems" show ?case by simp
next
  case (2 sp spans start stop s)
  show ?case
  proof (cases "start = stop")
    case False
    let ?e = "min stop (span_end sp)" and ?ret = "sp_offset sp + start - span_start sp" and ?c = "bs_cursor s"
    let ?view = "\<lambda>i j. map (\<lambda>i. (a, i, f i)) [i..<j]"
    have lt: "start < stop" using False "2.prems"(3) by simp
    have mem: "(a, i, f i) \<in> set (drop ?c cs)" if "start \<le> i" "i < stop" for i
      using list_emb_set [OF "2.prems"(6), of "(a, i, f i)"] that by auto
    have sp: "span_cells cs a sp" "spans_ok cs a spans" "\<forall>t \<in> set spans. span_end sp \<le> span_start t"
      "\<forall>t \<in> set spans. span_start t < span_end t" "start < span_end sp"
      using "2.prems"(1,4) by (auto simp: spans_ok_def list_all_iff span_cells_def)
    have here: "(a, start, f start) \<in> set (drop ?c cs)" by (rule mem) (use lt in auto)
    then have "\<exists>t \<in> set (sp # spans). span_start t \<le> start \<and> start < span_end t"
      using "2.prems"(5) [rule_format, of start "f start"] lt in_set_dropD [OF here] by simp
    note cv = covering_span [OF "2.prems"(1,2) sp(5) here this]
    have e: "start < ?e" "?e \<le> span_end sp" "?e \<le> stop" using sp(5) lt by auto
    have uniq: "y = f j" if "start \<le> j" "j < ?e" "(a, j, y) \<in> set cs" for j y
    proof (rule ordered_same [OF "2.prems"(2) that(3)])
      show "(a, j, f j) \<in> set cs" by (rule in_set_dropD, rule mem) (use that e in auto)
    qed
    have seg: "take (?e - start) (drop ?ret cs) = ?view start ?e"
      by (rule span_segment_cells [OF sp(1) cv(1) e(2)]) (use e uniq in auto)
    have cs: "drop ?c cs = take (?ret - ?c) (drop ?c cs) @ ?view start ?e @ drop (?ret + ?e - start) cs"
    proof -
      have "drop ?c cs = take (?ret - ?c) (drop ?c cs) @ drop ?ret cs"
        using append_take_drop_id [of "?ret - ?c" "drop ?c cs", unfolded drop_drop le_add_diff_inverse2 [OF cv(2)]]
        by (rule sym)
      also have "drop ?ret cs = ?view start ?e @ drop (?e - start) (drop ?ret cs)"
        using append_take_drop_id [of "?e - start" "drop ?ret cs"] seg by simp
      finally show ?thesis using e by (simp add: add.commute)
    qed
    have "[start..<stop] = [start..<?e] @ [?e..<stop]"
      using upt_add_eq_append [of start ?e "stop - ?e"] e by simp
    then have "subseq (?view start ?e @ (?view ?e stop @ rest)) (drop ?c cs)" using "2.prems"(6) by simp
    then have sub: "subseq (?view start ?e @ (?view ?e stop @ rest))
        (take (?ret - ?c) (drop ?c cs) @ ?view start ?e @ drop (?ret + ?e - start) cs)"
      by (simp only: cs [symmetric])
    have dis: "distinct (take (?ret - ?c) (drop ?c cs) @ ?view start ?e @ drop (?ret + ?e - start) cs)"
      using ordered_distinct [OF "2.prems"(2)] by (simp only: cs [symmetric] distinct_drop)
    have rest: "subseq (?view ?e stop @ rest) (drop (?ret + ?e - start) cs)"
      by (rule subseq_segment [OF dis sub]) (use e in auto)
    have cover: "\<forall>i x. ?e \<le> i \<longrightarrow> i < stop \<longrightarrow> (a, i, x) \<in> set cs \<longrightarrow> (\<exists>t \<in> set spans. span_start t \<le> i \<and> i < span_end t)"
    proof (intro allI impI)
      fix i x assume i: "?e \<le> i" "i < stop" "(a, i, x) \<in> set cs"
      then have "\<not> i < span_end sp" by auto
      moreover have "start \<le> i" using e i by linarith
      ultimately show "\<exists>t \<in> set spans. span_start t \<le> i \<and> i < span_end t"
        using "2.prems"(5) [rule_format, OF _ i(2,3)] by auto
    qed
    have ends: "\<forall>t \<in> set spans. ?e < span_end t" using sp(3,4) by fastforce
    have loop: "spent (between_spans spans ?e stop (s'\<lparr>bs_cursor := ?ret + ?e - start\<rparr>))
        (\<lambda>(start', s'). start' = stop \<and> subseq rest (drop (bs_cursor s') cs)) b1" for s' b1
      by (rule "2.IH" [OF False _ refl refl _ sp(2) "2.prems"(2) e(3) ends cover])
         (use cv rest in auto)
    show ?thesis
      unfolding between_spans.simps if_not_P [OF False]
      by (rule spent_bthen [OF spent_simps(2)])
         (use cv loop in \<open>auto simp: Let_def intro!: spent_bthen [OF spent_flush]\<close>)
  qed (use "2.prems" in \<open>auto simp: spent_def bret_def\<close>)
qed

lemma between_pieces_complete:
  assumes origins: "\<And>a. spans_ok cs a (origins a)"
      "\<And>a i x. (a, i, x) \<in> set cs \<Longrightarrow> \<exists>sp \<in> set (origins a). span_start sp \<le> i \<and> i < span_end sp"
    and cs: "ordered cs" "\<forall>(a, i, x) \<in> set cs. a < h"
    and ps: "\<forall>p \<in> set ps. wf_piece p"
      "subseq (filter (\<lambda>c. fst c < h) (pieces_cells ps)) (drop (bs_cursor s) cs)"
  shows "spent (between_pieces origins ps s) (\<lambda>_. True) b"
  using ps
proof (induction ps arbitrary: s b)
  case (Cons p ps s b)
  let ?a = "ch_addr (pc_chunk p)" and ?r = "pc_range p" and ?old = "\<lambda>c. fst c < h"
  have wfp: "wf_piece p" and wfs: "\<forall>p \<in> set ps. wf_piece p" using Cons.prems(1) by auto
  have r: "range_start ?r < range_end ?r" using wfp by (simp add: wf_piece_def)
  have rest: "subseq (filter ?old (pieces_cells ps)) (drop (bs_cursor s) cs)"
    by (rule subseq_order.order_trans [OF list_emb_append2 [OF subseq_order.order_refl, of _ "filter ?old (piece_cells p)"]])
       (use Cons.prems(2) in \<open>simp only: list.map concat.simps filter_append\<close>)
  show ?case
  proof (cases "origins ?a = []")
    case True
    have "spent (between_pieces origins ps (s\<lparr>bs_inserted := bs_inserted s @ t\<rparr>)) (\<lambda>_. True) b1" for t b1
      by (rule Cons.IH [OF wfs]) (use rest in simp)
    then have "spent (bthen (budget_text n) (\<lambda>_. between_pieces origins ps (s\<lparr>bs_inserted := bs_inserted s @ t\<rparr>))) (\<lambda>_. True) b1" for n t b1
      by (rule spent_bthen [OF spent_simps(3)])
    then show ?thesis
      using True piece_text_wf [OF wfp] by (simp add: piece_origin_def Let_def spent_def)
  next
    case False
    then obtain sp where "sp \<in> set (origins ?a)" by (cases "origins ?a") auto
    then have sc: "span_cells cs ?a sp" using origins(1) by (auto simp: spans_ok_def list_all_iff)
    have "?a < h"
    proof -
      obtain x where "cs ! sp_offset sp = (?a, span_start sp, x)" "sp_offset sp < length cs"
        using sc by (fastforce simp: span_cells_def)
      then show ?thesis using cs(2) nth_mem by fastforce
    qed
    then have all: "filter ?old (piece_cells p) = piece_cells p" by (auto simp: piece_cells_def filter_id_conv)
    let ?f = "\<lambda>i. ch_text (pc_chunk p) ! i"
    have view: "subseq (map (\<lambda>i. (?a, i, ?f i)) [range_start ?r..<range_end ?r] @ filter ?old (pieces_cells ps))
        (drop (bs_cursor s) cs)"
      using Cons.prems(2) all by (simp add: piece_cells_def [of p])
    define first where "first = partition_point (\<lambda>sp. span_end sp \<le> range_start ?r) (origins ?a)"
    note d = takeWhile_spans [OF origins(1) [of ?a], where i = "range_start ?r", folded first_def]
    have cover: "\<forall>i x. range_start ?r \<le> i \<longrightarrow> i < range_end ?r \<longrightarrow> (?a, i, x) \<in> set cs \<longrightarrow>
        (\<exists>sp \<in> set (drop first (origins ?a)). span_start sp \<le> i \<and> i < span_end sp)"
      using origins(2) d(3) by (meson leD le_trans less_le_trans)
    note loop = between_spans_complete [OF d(1) cs(1) less_imp_le [OF r] d(2) cover view]
    have "spent (bthen (between_spans (drop first (origins ?a)) (range_start ?r) (range_end ?r) s)
        (\<lambda>(start, s'). if start \<noteq> range_end ?r then bfail DeltaForeignProvenance else between_pieces origins ps s')) (\<lambda>_. True) b"
      by (rule spent_bthen [OF loop]) (use Cons.IH [OF wfs] in auto)
    then show ?thesis using False by (simp add: piece_origin_def Let_def first_def)
  qed
qed simp

lemma spent_limited:
  "wf_text t \<Longrightarrow> spent (between_limited t) (\<lambda>ps. pieces_cells ps = text_cells t \<and> (\<forall>p \<in> set ps. wf_piece p)) b"
  using pieces_wf [of t "bg_pieces b"]
  by (auto simp: spent_def between_limited_def bthen_def bret_def budget_pieces_def split: option.splits)

lemma between_complete:
  assumes "wf_text base" "wf_text view" "derived h base view"
  shows "spent (between base view) (\<lambda>_. True) b"
proof (cases "shares_root base view")
  case False
  let ?init = "\<lparr>bs_replacements = [], bs_cursor = 0, bs_inserted = []\<rparr>"
  have "spent (between_pieces (base_origins bps 0 (\<lambda>_. [])) vps ?init) (\<lambda>_. True) b1"
    if "pieces_cells bps = text_cells base \<and> (\<forall>p \<in> set bps. wf_piece p)"
      and "pieces_cells vps = text_cells view \<and> (\<forall>p \<in> set vps. wf_piece p)" for bps vps b1
    by (rule between_pieces_complete [where cs = "text_cells base" and h = h])
       (use that assms(3) spans_of_ok [of bps] spans_of_covers [of _ _ _ bps 0] in \<open>auto simp: base_origins_eq derived_def\<close>)
  then show ?thesis
    unfolding between_def if_not_P [OF False]
    by (intro spent_bthen [OF spent_limited [OF assms(1)]] spent_bthen [OF spent_limited [OF assms(2)]]
        spent_bthen [where Q = "\<lambda>_. True"] spent_bthen [OF spent_flush]) auto
qed (simp add: between_def)

end
