(* ===== verification/BufferMarker.thy ===== *)
theory BufferMarker
  imports BufferProvenance
begin

text \<open>
  Marker rebasing (\<open>Delta::rebase_marker\<close>): where a position of the base lies in the edited text. The
  lemmas give the position in closed form, bound it by the edited text, and show that markers keep
  their order, that a marker whose scalar is retained stays at that scalar (in front of it with affinity \<open>After\<close>,
  behind it with \<open>Before\<close>), and where a marker at or inside a replacement goes.
\<close>

section \<open>The position in closed form\<close>

text \<open>The offset of the rebased marker from the image of \<open>p\<close>, the end of the last replacement passed.\<close>

fun marker :: "usize \<Rightarrow> replacement list \<Rightarrow> usize \<Rightarrow> insertion_affinity \<Rightarrow> usize" where
  "marker p [] pos affinity = pos - p"
| "marker p (r # rs) pos affinity =
     (if pos < rp_start r \<or> (pos = rp_start r \<and> (affinity = Before \<or> rp_start r < rp_end r)) then pos - p
      else if pos < rp_end r then rp_start r - p
      else rp_start r - p + length (rp_text r) + marker (rp_end r) rs pos affinity)"

lemma marker_skip:
  assumes "normal rs" "\<forall>r \<in> set rs. pos < rp_start r" "rem \<le> pos" "pos + ins \<le> usize_max"
  shows "rebase_loop rs pos affinity rem ins = Some (Inr (pos - rem + ins))"
  using assms by (induction rs) (auto simp: checked_sub_def checked_add_def)

lemma rebase_loop_marker:
  assumes "normal rs" "\<forall>r \<in> set rs. p \<le> rp_start r" "rem \<le> p" "p \<le> pos"
    and "pos + ins + total_inserted rs \<le> usize_max"
  shows "rebase_loop rs pos affinity rem ins = Some (Inr (p - rem + ins + marker p rs pos affinity))"
  using assms
proof (induction rs arbitrary: p rem ins)
  case Nil
  then show ?case by (auto simp: checked_sub_def checked_add_def)
next
  case (Cons r rs)
  then have r: "effective r" "p \<le> rp_start r" "rp_start r \<le> rp_end r" "normal rs" "\<forall>q \<in> set rs. rp_end r < rp_start q"
    by (auto simp: effective_def)
  have IH: "rebase_loop rs pos affinity (rem + (rp_end r - rp_start r)) (ins + length (rp_text r)) =
      Some (Inr (rp_end r - (rem + (rp_end r - rp_start r)) + (ins + length (rp_text r)) + marker (rp_end r) rs pos affinity))"
    if "rp_end r \<le> pos"
    by (rule Cons.IH) (use that r Cons.prems in auto)
  have sum: "pos + ins \<le> usize_max" "ins + length (rp_text r) \<le> usize_max" using Cons.prems(5) by auto
  consider (early) "pos < rp_start r \<or> (pos = rp_start r \<and> (affinity = Before \<or> rp_start r < rp_end r))"
    | (inside) "rp_start r < pos" "pos < rp_end r"
    | (passed) "rp_end r \<le> pos" "rp_start r < pos \<or> (rp_start r = pos \<and> affinity = After)"
    using r(3) by (cases affinity) fastforce+
  then show ?case
  proof cases
    case early
    show ?thesis
    proof (cases "range_is_empty (rp_range r)")
      case True
      have "\<forall>q \<in> set rs. pos < rp_start q" using r(3,5) early by fastforce
      from marker_skip [OF r(4) this, of rem ins] True early sum Cons.prems(3,4)
      show ?thesis by (auto simp: range_is_empty_def)
    next
      case False
      with early sum Cons.prems(3,4) show ?thesis by (auto simp: checked_sub_def checked_add_def)
    qed
  next
    case inside
    then have "\<not> range_is_empty (rp_range r)" by (simp add: range_is_empty_def)
    with inside sum r(2) Cons.prems(3) show ?thesis by (auto simp: checked_sub_def checked_add_def)
  next
    case passed
    show ?thesis
    proof (cases "range_is_empty (rp_range r)")
      case True
      then have "rp_end r = rp_start r" using r(3) by (simp add: range_is_empty_def)
      with True passed IH sum r(2) Cons.prems(3) show ?thesis by (auto simp: checked_add_def)
    next
      case False
      with passed IH sum r(2,3) Cons.prems(3) show ?thesis
        by (auto simp: checked_add_def range_is_empty_def range_len_def)
    qed
  qed
qed

lemma rebase_marker_eq:
  assumes "normal (dl_replacements d)" "pos + total_inserted (dl_replacements d) \<le> usize_max"
  shows "rebase_marker d pos affinity = Some (Inr (marker 0 (dl_replacements d) pos affinity))"
  using rebase_loop_marker [of "dl_replacements d" 0 0 pos 0 affinity] assms by (simp add: rebase_marker_def)

section \<open>Bounds, order and retained scalars\<close>

lemma marker_bound:
  assumes "sorted_from p rs" "within (p + length xs) rs" "p \<le> pos" "pos \<le> p + length xs"
  shows "marker p rs pos affinity \<le> length (app_from p rs xs)"
  using assms
proof (induction rs arbitrary: p xs)
  case (Cons r rs)
  then have r: "p \<le> rp_start r" "rp_start r \<le> rp_end r" "rp_end r \<le> p + length xs" by auto
  then have len: "rp_end r + length (drop (rp_end r - p) xs) = p + length xs" by simp
  have IH: "marker (rp_end r) rs pos affinity \<le> length (app_from (rp_end r) rs (drop (rp_end r - p) xs))"
    if "rp_end r \<le> pos"
    by (rule Cons.IH) (use that Cons.prems in \<open>simp_all only: len, simp_all\<close>)
  from r IH Cons.prems(3) show ?case by auto
qed simp

lemma marker_mono:
  assumes "sorted_from p rs" "p \<le> pos" "pos \<le> pos'"
  shows "marker p rs pos affinity \<le> marker p rs pos' affinity"
  using assms
proof (induction rs arbitrary: p)
  case (Cons r rs)
  then have r: "p \<le> rp_start r" "rp_start r \<le> rp_end r" "sorted_from (rp_end r) rs" by auto
  have "marker (rp_end r) rs pos affinity \<le> marker (rp_end r) rs pos' affinity" if "rp_end r \<le> pos"
    by (rule Cons.IH [OF r(3) that Cons.prems(3)])
  with r Cons.prems(2,3) show ?case by auto
qed simp

lemma marker_retained:
  assumes "sorted_from p rs" "within (p + length xs) rs" "p \<le> pos" "pos < p + length xs"
    and "\<forall>r \<in> set rs. \<not> (rp_start r \<le> pos \<and> pos < rp_end r)"
  shows "marker p rs pos After < length (app_from p rs xs) \<and> app_from p rs xs ! marker p rs pos After = xs ! (pos - p)"
  using assms
proof (induction rs arbitrary: p xs)
  case (Cons r rs)
  then have r: "p \<le> rp_start r" "rp_start r \<le> rp_end r" "rp_end r \<le> p + length xs" "sorted_from (rp_end r) rs"
    and out: "pos < rp_start r \<or> rp_end r \<le> pos" by auto
  let ?ys = "drop (rp_end r - p) xs"
  have len: "rp_end r + length ?ys = p + length xs" using r by simp
  show ?case
  proof (cases "pos < rp_start r")
    case True
    with Cons.prems(3) r show ?thesis by (auto simp: nth_append)
  next
    case False
    then have e: "rp_end r \<le> pos" using out by simp
    have "marker (rp_end r) rs pos After < length (app_from (rp_end r) rs ?ys) \<and>
        app_from (rp_end r) rs ?ys ! marker (rp_end r) rs pos After = ?ys ! (pos - rp_end r)"
      by (rule Cons.IH) (use r(4) e Cons.prems(2,4,5) in \<open>simp_all only: len, simp_all\<close>)
    moreover have "?ys ! (pos - rp_end r) = xs ! (pos - p)" using r e Cons.prems(4) by simp
    moreover have "marker p (r # rs) pos After = rp_start r - p + length (rp_text r) + marker (rp_end r) rs pos After"
      using False e r by auto
    moreover have "length (take (rp_start r - p) xs @ rp_text r) = rp_start r - p + length (rp_text r)" using r by simp
    ultimately show ?thesis
      using nth_append_length_plus [of "take (rp_start r - p) xs @ rp_text r"] by simp
  qed
qed simp

lemma marker_before:
  assumes "sorted_from p rs" "within (p + length xs) rs" "p < pos" "pos \<le> p + length xs"
    and "\<forall>r \<in> set rs. \<not> (rp_start r < pos \<and> pos \<le> rp_end r)"
  shows "0 < marker p rs pos Before \<and> marker p rs pos Before \<le> length (app_from p rs xs) \<and>
    app_from p rs xs ! (marker p rs pos Before - 1) = xs ! (pos - 1 - p)"
  using assms
proof (induction rs arbitrary: p xs)
  case (Cons r rs)
  then have r: "p \<le> rp_start r" "rp_start r \<le> rp_end r" "rp_end r \<le> p + length xs" "sorted_from (rp_end r) rs"
    and out: "pos \<le> rp_start r \<or> rp_end r < pos" by auto
  let ?ys = "drop (rp_end r - p) xs"
  have len: "rp_end r + length ?ys = p + length xs" using r by simp
  show ?case
  proof (cases "pos \<le> rp_start r")
    case True
    then have "marker p (r # rs) pos Before = pos - p" by auto
    with True Cons.prems(3) r show ?thesis by (auto simp: nth_append)
  next
    case False
    then have e: "rp_end r < pos" using out by simp
    let ?m = "marker (rp_end r) rs pos Before"
    have IH: "0 < ?m \<and> ?m \<le> length (app_from (rp_end r) rs ?ys) \<and> app_from (rp_end r) rs ?ys ! (?m - 1) = ?ys ! (pos - 1 - rp_end r)"
      by (rule Cons.IH) (use r(4) e Cons.prems(2,4,5) in \<open>simp_all only: len, simp_all\<close>)
    have ys: "?ys ! (pos - 1 - rp_end r) = xs ! (pos - 1 - p)" using r e Cons.prems(4) by simp
    let ?pre = "take (rp_start r - p) xs @ rp_text r"
    have m: "marker p (r # rs) pos Before = length ?pre + ?m" using False e r by auto
    have "app_from p (r # rs) xs ! (length ?pre + (?m - 1)) = ?ys ! (pos - 1 - rp_end r)"
      using nth_append_length_plus [of ?pre "app_from (rp_end r) rs ?ys" "?m - 1"] IH by simp
    moreover have "length ?pre + ?m - 1 = length ?pre + (?m - 1)" using IH by simp
    moreover have "length (app_from p (r # rs) xs) = length ?pre + length (app_from (rp_end r) rs ?ys)" by simp
    ultimately show ?thesis unfolding m using IH ys by (metis add_gr_0 add_le_cancel_left)
  qed
qed auto

text \<open>
  At a replacement: a removed position collapses to the start of the inserted text, the end of a removed range
  lies behind it, and at a pure insertion the affinity chooses the side.
\<close>

lemma marker_at:
  assumes "normal (us @ r # vs)" "sorted_from p (us @ r # vs)" "within (p + length xs) (us @ r # vs)"
    and "rp_start r \<le> pos" "pos \<le> rp_end r"
  shows "\<exists>B. app_from p (us @ r # vs) xs = app_from p us (take (rp_start r - p) xs) @ rp_text r @ B \<and>
    marker p (us @ r # vs) pos affinity = length (app_from p us (take (rp_start r - p) xs)) +
      (if pos < rp_end r \<or> (rp_start r = rp_end r \<and> affinity = Before) then 0 else length (rp_text r))"
  using assms
proof (induction us arbitrary: p xs)
  case Nil
  have "marker (rp_end r) vs (rp_end r) affinity = 0" using Nil.prems(1) by (cases vs) auto
  then show ?case using Nil.prems by auto
next
  case (Cons u us)
  let ?ys = "drop (rp_end u - p) xs"
  have u: "p \<le> rp_start u" "rp_start u \<le> rp_end u" "rp_end u < rp_start r" "rp_end u \<le> p + length xs" using Cons.prems(1-3) by auto
  have len: "rp_end u + length ?ys = p + length xs" using u by simp
  have tk: "take (rp_start r - rp_end u) ?ys = drop (rp_end u - p) (take (rp_start r - p) xs)"
    using u by (simp add: drop_take)
  obtain B where B: "app_from (rp_end u) (us @ r # vs) ?ys = app_from (rp_end u) us (take (rp_start r - rp_end u) ?ys) @ rp_text r @ B"
    "marker (rp_end u) (us @ r # vs) pos affinity = length (app_from (rp_end u) us (take (rp_start r - rp_end u) ?ys)) +
      (if pos < rp_end r \<or> (rp_start r = rp_end r \<and> affinity = Before) then 0 else length (rp_text r))"
    using Cons.IH [of "rp_end u" ?ys, unfolded len] Cons.prems by auto
  have m: "marker p ((u # us) @ r # vs) pos affinity = rp_start u - p + length (rp_text u) + marker (rp_end u) (us @ r # vs) pos affinity"
    using u Cons.prems(4) by auto
  have t: "min (rp_start u - p) (rp_start r - p) = rp_start u - p" using u by simp
  show ?case
  proof (intro exI conjI)
    show "app_from p ((u # us) @ r # vs) xs = app_from p (u # us) (take (rp_start r - p) xs) @ rp_text r @ B"
      using B(1) by (simp add: tk t)
    show "marker p ((u # us) @ r # vs) pos affinity = length (app_from p (u # us) (take (rp_start r - p) xs)) +
      (if pos < rp_end r \<or> (rp_start r = rp_end r \<and> affinity = Before) then 0 else length (rp_text r))"
      unfolding m B(2) using u Cons.prems(3) by (simp add: tk t)
  qed
qed

end
