(* ===== verification/OrderedMap.thy ===== *)
theory OrderedMap
  imports Mica_Prelude
begin

text \<open>
  Ordered maps. The persistent radix trees and B-tree maps the kernel keeps its state in are
  represented by their contents in key order, which is also their iteration order. The locales state
  what the kernel relies on of such a map, and what a catalogue that adds a name index to one
  promises; they are interpreted on the list representation here and on the catalogues of buffers
  and relations in their own theories.
\<close>

section \<open>Operations\<close>

type_synonym ('k, 'v) omap = "('k \<times> 'v) list"

definition om_get :: "('k, 'v) omap \<Rightarrow> 'k \<Rightarrow> 'v option" where
  "om_get m k = map_of m k"

fun om_insert :: "'k::linorder \<Rightarrow> 'v \<Rightarrow> ('k, 'v) omap \<Rightarrow> ('k, 'v) omap" where
  "om_insert k v [] = [(k, v)]"
| "om_insert k v ((l, w) # m) =
     (if k < l then (k, v) # (l, w) # m
      else if k = l then (k, v) # m
      else (l, w) # om_insert k v m)"

definition om_remove :: "'k \<Rightarrow> ('k, 'v) omap \<Rightarrow> ('k, 'v) omap" where
  "om_remove k m = filter (\<lambda>e. fst e \<noteq> k) m"

definition om_contains :: "('k, 'v) omap \<Rightarrow> 'k \<Rightarrow> bool" where
  "om_contains m k = (om_get m k \<noteq> None)"

definition om_values :: "('k, 'v) omap \<Rightarrow> 'v list" where
  "om_values m = map snd m"

definition om_ok :: "('k::linorder, 'v) omap \<Rightarrow> bool" where
  "om_ok m \<longleftrightarrow> sorted_wrt (<) (map fst m)"

section \<open>Laws\<close>

lemma om_ok_Nil [simp]: "om_ok []"
  by (simp add: om_ok_def)

lemma om_ok_Cons [simp]: "om_ok ((k, v) # m) \<longleftrightarrow> (\<forall>l \<in> fst ` set m. k < l) \<and> om_ok m"
  by (auto simp: om_ok_def)

lemma om_get_Nil [simp]: "om_get [] k = None"
  by (simp add: om_get_def)

lemma om_get_Cons [simp]: "om_get ((l, v) # m) k = (if k = l then Some v else om_get m k)"
  by (simp add: om_get_def)

lemma om_get_None: "om_get m k = None \<longleftrightarrow> k \<notin> fst ` set m"
  by (simp add: om_get_def map_of_eq_None_iff)

lemma om_keys_insert: "fst ` set (om_insert k v m) = insert k (fst ` set m)"
  by (induction k v m rule: om_insert.induct) auto

lemma om_ok_insert [simp]: "om_ok m \<Longrightarrow> om_ok (om_insert k v m)"
  by (induction k v m rule: om_insert.induct) (auto simp: om_keys_insert)

lemma om_get_insert [simp]: "om_ok m \<Longrightarrow> om_get (om_insert k v m) = (om_get m)(k \<mapsto> v)"
  by (induction k v m rule: om_insert.induct) (auto simp: fun_eq_iff om_get_None)

lemma om_ok_remove [simp]: "om_ok m \<Longrightarrow> om_ok (om_remove k m)"
  by (induction m) (auto simp: om_remove_def)

lemma om_get_remove [simp]: "om_get (om_remove k m) = (om_get m)(k := None)"
  by (induction m) (auto simp: om_remove_def fun_eq_iff)

lemma om_length_insert:
  "om_ok m \<Longrightarrow> length (om_insert k v m) = (if om_get m k = None then Suc (length m) else length m)"
  by (induction k v m rule: om_insert.induct) (auto simp: om_get_None)

lemma om_get_mem: "om_ok m \<Longrightarrow> om_get m k = Some v \<longleftrightarrow> (k, v) \<in> set m"
proof (induction m)
  case (Cons e m)
  obtain l w where e: "e = (l, w)" by (cases e)
  with Cons show ?case by force
qed simp

lemma om_insert_same: "om_ok m \<Longrightarrow> om_get m k = Some v \<Longrightarrow> om_insert k v m = m"
proof (induction k v m rule: om_insert.induct)
  case (2 k v l w m)
  then show ?case by (force simp: om_get_mem)
qed simp

text \<open>Contents in key order are determined by the lookup function.\<close>

lemma om_ext:
  assumes "om_ok m" "om_ok n" "om_get m = om_get n"
  shows "m = n"
proof -
  have "set m = set n" using om_get_mem [OF assms(1)] om_get_mem [OF assms(2)] assms(3) by auto
  have d: "distinct (map fst m)" "distinct (map fst n)" "sorted (map fst m)" "sorted (map fst n)"
    using assms(1,2) by (auto simp: om_ok_def strict_sorted_iff)
  then have "inj_on fst (set m \<union> set n)" by (simp add: \<open>set m = set n\<close> distinct_map)
  then show ?thesis using d \<open>set m = set n\<close> map_sorted_distinct_set_unique by blast
qed

text \<open>A lookup structure: what any client of an ordered map may use of it.\<close>

locale lookup_store =
  fixes get :: "'m \<Rightarrow> 'k \<Rightarrow> 'v option"
    and put :: "'k \<Rightarrow> 'v \<Rightarrow> 'm \<Rightarrow> 'm"
    and ok :: "'m \<Rightarrow> bool"
  assumes ok_put: "ok m \<Longrightarrow> ok (put k v m)"
    and get_put: "ok m \<Longrightarrow> get (put k v m) = (get m)(k \<mapsto> v)"
begin

lemma get_put_other: "ok m \<Longrightarrow> k \<noteq> l \<Longrightarrow> get (put k v m) l = get m l"
  by (simp add: get_put)

lemma put_fold_ok: "ok m \<Longrightarrow> ok (fold (\<lambda>(k, v). put k v) kvs m)"
  by (induction kvs arbitrary: m) (auto simp: ok_put)

lemma get_put_fold:
  assumes "ok m" "distinct (map fst kvs)"
  shows "get (fold (\<lambda>(k, v). put k v) kvs m) = get m ++ map_of kvs"
  using assms
proof (induction kvs arbitrary: m)
  case (Cons e kvs)
  obtain k v where e: "e = (k, v)" by (cases e)
  have "get (fold (\<lambda>(k, v). put k v) kvs (put k v m)) = get (put k v m) ++ map_of kvs"
    using Cons e by (auto simp: ok_put)
  moreover have "map_of kvs k = None" using Cons.prems(2) e by (auto simp: map_of_eq_None_iff)
  ultimately show ?case
    using Cons.prems(1) e by (auto simp: get_put fun_eq_iff map_add_def split: option.splits)
qed simp

end

interpretation om: lookup_store "om_get :: ('k::linorder, 'v) omap \<Rightarrow> _" om_insert om_ok
  by unfold_locales simp_all

end
