(* ===== verification/KernelData.thy ===== *)
theory KernelData
  imports BufferMarker OrderedMap
begin

text \<open>
  Shared data of the relation kernel: identities and symbols, relation metadata
  (\<open>crates/relation-kernel/src/metadata.rs\<close>), the error types (\<open>error.rs\<close>, \<open>buffer/store.rs\<close>), and the
  catalogue of relations (\<open>relation_states.rs\<close>) with its name index.

  Identities, symbols and versions are the numbers their words hold. A relation state is a record
  that later theories extend with the rows; the catalogue only uses its metadata.
\<close>

section \<open>Identities, metadata and errors\<close>

type_synonym version = nat
type_synonym revision = nat

datatype durability = Durable | Volatile

datatype conflict_policy =
    SetPolicy | Functional (key_positions: "nat list") | EventAppend

record relation_metadata =
  rm_id :: identity
  rm_name :: symbol
  rm_arity :: nat
  rm_argument_names :: "symbol option list"
  rm_indexes :: "nat list list"
  rm_conflict_policy :: conflict_policy
  rm_durability :: durability

definition metadata_new :: "identity \<Rightarrow> symbol \<Rightarrow> nat \<Rightarrow> relation_metadata" where
  "metadata_new i name n =
     \<lparr>rm_id = i, rm_name = name, rm_arity = n, rm_argument_names = replicate n None,
      rm_indexes = [[0..<n]], rm_conflict_policy = SetPolicy, rm_durability = Durable\<rparr>"

definition with_index :: "relation_metadata \<Rightarrow> nat list \<Rightarrow> relation_metadata" where
  "with_index m positions = m\<lparr>rm_indexes := rm_indexes m @ [positions]\<rparr>"

definition with_argument_name :: "relation_metadata \<Rightarrow> nat \<Rightarrow> symbol \<Rightarrow> relation_metadata" where
  "with_argument_name m position name =
     (if position < length (rm_argument_names m)
      then m\<lparr>rm_argument_names := (rm_argument_names m)[position := Some name]\<rparr> else m)"

definition argument_name :: "relation_metadata \<Rightarrow> nat \<Rightarrow> symbol option" where
  "argument_name m position =
     (if position < length (rm_argument_names m) then rm_argument_names m ! position else None)"

text \<open>\<open>None\<close>: a position of the index is out of range for the bindings.\<close>

fun leading_bound_count :: "nat list \<Rightarrow> 'v option list \<Rightarrow> nat option" where
  "leading_bound_count [] bindings = Some 0"
| "leading_bound_count (p # ps) bindings =
     (if length bindings \<le> p then None
      else if bindings ! p = None then Some 0
      else map_option Suc (leading_bound_count ps bindings))"

datatype buffer_error =
    BufUnknown | BufDeleted | BufAlreadyExists | BufMetadataMismatch
  | BufConflict revision revision
  | BufStructureConflict nat nat
  | BufRevisionExhausted
  | BufText text_error
  | BufDelta delta_error
  | BufInvalidRecovery | BufAlreadyApplied | BufTokenInUse | BufResultsFull

datatype conflict_kind = AssertRetract | FunctionalKeyChanged

record 'v conflict =
  cf_relation :: identity
  cf_tuple :: "'v list"
  cf_kind :: conflict_kind

datatype rule_error =
    UnstratifiedNegation | UnsafeNegation identity | UnsafeGuard | UnboundHeadVariable symbol

datatype 'v kernel_error =
    ReadPermissionDenied identity
  | KBuffer identity buffer_error
  | UnknownRelation identity
  | UnknownRule identity
  | RelationAlreadyExists identity
  | ReadOnlyRelation identity
  | MissingRequiredBindings identity "nat list"
  | ArityMismatch identity nat nat
  | InvalidComputedRelation identity string
  | NonPersistentValue identity "'v list"
  | FunctionalKeyViolation identity "'v list" "'v list"
  | InvalidIndex identity nat nat
  | StaleStagedSnapshot version version
  | Persistence string
  | DifferentialWeightOverflow identity string version int int
  | NegativeDifferentialSupport identity "'v list" version int
  | KRule rule_error
  | KConflict "'v conflict"

section \<open>The catalogue of relations\<close>

record relation_base =
  rs_metadata :: relation_metadata

record 'r relation_states =
  rl_entries :: "(identity, 'r) omap"
  rl_names :: "symbol \<Rightarrow> identity option"
  rl_len :: nat

definition rl_new :: "'r relation_states" where
  "rl_new = \<lparr>rl_entries = [], rl_names = Map.empty, rl_len = 0\<rparr>"

definition rl_get :: "'r relation_states \<Rightarrow> identity \<Rightarrow> 'r option" where
  "rl_get c relation = om_get (rl_entries c) relation"

definition rl_contains_key :: "'r relation_states \<Rightarrow> identity \<Rightarrow> bool" where
  "rl_contains_key c relation = (rl_get c relation \<noteq> None)"

definition name_entry :: "symbol \<Rightarrow> identity \<Rightarrow> (symbol \<Rightarrow> identity option) \<Rightarrow> (symbol \<Rightarrow> identity option)" where
  "name_entry name relation names =
     (case names name of
        Some current \<Rightarrow> names(name \<mapsto> min current relation)
      | None \<Rightarrow> names(name \<mapsto> relation))"

abbreviation state_name :: "'a relation_base_scheme \<Rightarrow> symbol" where
  "state_name s \<equiv> rm_name (rs_metadata s)"

definition rebuild_names :: "(identity, 'a relation_base_scheme) omap \<Rightarrow> symbol \<Rightarrow> identity option" where
  "rebuild_names entries = fold (\<lambda>(relation, state). name_entry (state_name state) relation) entries Map.empty"

definition rl_insert ::
  "identity \<Rightarrow> 'a relation_base_scheme \<Rightarrow> 'a relation_base_scheme relation_states \<Rightarrow> 'a relation_base_scheme relation_states" where
  "rl_insert relation state c =
     (let entries = om_insert relation state (rl_entries c) in
      if rl_contains_key c relation
      then c\<lparr>rl_entries := entries, rl_names := rebuild_names entries\<rparr>
      else c\<lparr>rl_entries := entries, rl_len := rl_len c + 1,
             rl_names := name_entry (state_name state) relation (rl_names c)\<rparr>)"

definition rl_get_named :: "'r relation_states \<Rightarrow> symbol \<Rightarrow> 'r option" where
  "rl_get_named c name = do { relation \<leftarrow> rl_names c name; rl_get c relation }"

text \<open>
  The invariant: the name index maps a name to the lowest identity that carries it, and the length is
  the number of entries.
\<close>

definition lowest_named :: "(identity, 'a relation_base_scheme) omap \<Rightarrow> symbol \<Rightarrow> identity option" where
  "lowest_named entries name =
     map_option fst (find (\<lambda>(_, s). state_name s = name) entries)"

definition rl_ok :: "'a relation_base_scheme relation_states \<Rightarrow> bool" where
  "rl_ok c \<longleftrightarrow> om_ok (rl_entries c) \<and> rl_names c = lowest_named (rl_entries c) \<and>
     rl_len c = length (rl_entries c)"

lemma name_entry_app:
  "name_entry name relation names =
     names(name \<mapsto> (case names name of None \<Rightarrow> relation | Some current \<Rightarrow> min current relation))"
  by (simp add: name_entry_def split: option.split)

lemma rebuild_names_fold:
  assumes "om_ok m" "\<forall>name current. names name = Some current \<longrightarrow> (\<forall>k \<in> fst ` set m. current \<le> k)"
  shows "fold (\<lambda>(relation, state). name_entry (state_name state) relation) m names name =
    (case names name of None \<Rightarrow> lowest_named m name | Some current \<Rightarrow> Some current)"
  using assms
proof (induction m arbitrary: names)
  case Nil
  then show ?case by (simp add: lowest_named_def split: option.split)
next
  case (Cons e m)
  obtain k s where e: "e = (k, s)" by (cases e)
  let ?names = "name_entry (state_name s) k names"
  have le: "\<forall>l \<in> fst ` set m. k < l" "om_ok m" using Cons.prems(1) e by auto
  have "\<forall>name current. ?names name = Some current \<longrightarrow> (\<forall>l \<in> fst ` set m. current \<le> l)"
    using Cons.prems(2) le(1) e by (fastforce simp: name_entry_app min_def split: option.splits if_splits)
  from Cons.IH [OF le(2) this] e show ?case
    using Cons.prems(2) e
    by (auto simp: name_entry_app lowest_named_def min_def split: option.splits)
qed

lemma rebuild_names_lowest: "om_ok m \<Longrightarrow> rebuild_names m = lowest_named m"
  unfolding rebuild_names_def by (rule ext) (simp add: rebuild_names_fold)

lemma lowest_named_key:
  assumes "lowest_named m n = Some i"
  shows "\<exists>s. (i, s) \<in> set m \<and> state_name s = n"
proof -
  obtain s where "find (\<lambda>(_, s). state_name s = n) m = Some (i, s)"
    using assms by (auto simp: lowest_named_def)
  then show ?thesis by (auto simp: find_Some_iff) (metis nth_mem)
qed

lemma lowest_named_None: "lowest_named m n = None \<longleftrightarrow> (\<forall>(i, s) \<in> set m. state_name s \<noteq> n)"
  by (auto simp: lowest_named_def find_None_iff)

lemma lowest_named_Cons [simp]: "lowest_named ((l, w) # m) = (lowest_named m)(state_name w \<mapsto> l)"
  by (auto simp: lowest_named_def fun_eq_iff)

lemma lowest_named_insert:
  assumes "om_ok m" "om_get m k = None"
  shows "lowest_named (om_insert k s m) = name_entry (state_name s) k (lowest_named m)"
  using assms
proof (induction k s m rule: om_insert.induct)
  case (2 k s l w m)
  show ?case
  proof (cases "k < l")
    case True
    have "min i k = k" if "lowest_named ((l, w) # m) n = Some i" for n i
      using lowest_named_key [OF that] "2.prems"(1) True by force
    then have "(case lowest_named ((l, w) # m) (state_name s) of None \<Rightarrow> k | Some i \<Rightarrow> min i k) = k"
      by (cases "lowest_named ((l, w) # m) (state_name s)") (simp_all only: option.case)
    with True show ?thesis by (simp add: name_entry_app fun_eq_iff)
  next
    case False
    then have "l < k" "om_get m k = None" "om_ok m" using "2.prems" by (auto split: if_splits)
    with "2.IH" False have "lowest_named (om_insert k s m) = name_entry (state_name s) k (lowest_named m)" by auto
    with \<open>l < k\<close> False show ?thesis by (auto simp: name_entry_app fun_eq_iff)
  qed
qed (simp add: lowest_named_def name_entry_app fun_eq_iff)

lemma rl_insert_ok:
  assumes "rl_ok c"
  shows "rl_ok (rl_insert relation state c)"
  using assms
  by (auto simp: rl_insert_def rl_ok_def Let_def rebuild_names_lowest lowest_named_insert
      rl_contains_key_def rl_get_def om_length_insert)

section \<open>Catalogues\<close>

text \<open>
  What the transaction code relies on of a catalogue: entries are found by identity and, through the
  name index, by name; adding an entry under a free identity and name, or in place of an entry of the
  same name, keeps the catalogue consistent.
\<close>

locale catalogue =
  fixes get :: "'c \<Rightarrow> identity \<Rightarrow> 's option"
    and named :: "'c \<Rightarrow> symbol \<Rightarrow> 's option"
    and add :: "'s \<Rightarrow> 'c \<Rightarrow> 'c"
    and ok :: "'c \<Rightarrow> bool"
    and key :: "'s \<Rightarrow> identity"
    and name_of :: "'s \<Rightarrow> symbol"
  assumes get_add: "ok c \<Longrightarrow> get (add s c) = (get c)(key s \<mapsto> s)"
    and get_key: "ok c \<Longrightarrow> get c i = Some s \<Longrightarrow> key s = i"
    and named_sound: "ok c \<Longrightarrow> named c n = Some s \<Longrightarrow> get c (key s) = Some s \<and> name_of s = n"
    and named_complete: "ok c \<Longrightarrow> get c i = Some s \<Longrightarrow> named c (name_of s) \<noteq> None"
    and ok_add: "ok c \<Longrightarrow>
      (get c (key s) = None \<and> named c (name_of s) = None) \<or> (\<exists>t. get c (key s) = Some t \<and> name_of t = name_of s) \<Longrightarrow>
      ok (add s c)"
begin

lemma named_None: "ok c \<Longrightarrow> named c n = None \<longleftrightarrow> (\<forall>i s. get c i = Some s \<longrightarrow> name_of s \<noteq> n)"
  using named_sound named_complete by (metis not_None_eq)

text \<open>Adding an entry does not change which other names are taken.\<close>

lemma named_add_other:
  assumes "ok c" "ok (add s c)" "get c (key s) = None \<or> (\<exists>t. get c (key s) = Some t \<and> name_of t = name_of s)"
    and "n \<noteq> name_of s"
  shows "named (add s c) n = None \<longleftrightarrow> named c n = None"
  unfolding named_None [OF assms(1)] named_None [OF assms(2)] get_add [OF assms(1)]
  using assms(3,4) by (metis fun_upd_apply option.distinct(1) option.inject)

text \<open>With names unique, the entry found by name is the one carrying it.\<close>

definition unique_names :: "'c \<Rightarrow> bool" where
  "unique_names c \<longleftrightarrow> (\<forall>i j s t. get c i = Some s \<longrightarrow> get c j = Some t \<longrightarrow> name_of s = name_of t \<longrightarrow> i = j)"

lemma unique_add:
  assumes "ok c" "unique_names c"
    and "(get c (key s) = None \<and> named c (name_of s) = None) \<or> (\<exists>t. get c (key s) = Some t \<and> name_of t = name_of s)"
  shows "unique_names (add s c)"
proof -
  have "name_of t \<noteq> name_of s" if "get c i = Some t" "i \<noteq> key s" for i t
    using that assms named_None [OF assms(1)] unfolding unique_names_def by metis
  then show ?thesis
    using assms(2) unfolding unique_names_def get_add [OF assms(1)] by (metis fun_upd_apply option.inject)
qed

lemma named_unique:
  assumes "ok c" "unique_names c" "get c i = Some s"
  shows "named c (name_of s) = Some s"
  using named_complete [OF assms(1,3)] named_sound [OF assms(1)] get_key [OF assms(1)] assms(2,3)
  unfolding unique_names_def by (metis not_None_eq option.inject)

end

text \<open>The relation catalogue, whose entries are filed under the identity of their metadata.\<close>

definition rl_add :: "'a relation_base_scheme \<Rightarrow> 'a relation_base_scheme relation_states \<Rightarrow> 'a relation_base_scheme relation_states" where
  "rl_add state c = rl_insert (rm_id (rs_metadata state)) state c"

definition rl_filed :: "'a relation_base_scheme relation_states \<Rightarrow> bool" where
  "rl_filed c \<longleftrightarrow> rl_ok c \<and> (\<forall>i s. rl_get c i = Some s \<longrightarrow> rm_id (rs_metadata s) = i)"

lemma rl_get_insert: "rl_ok c \<Longrightarrow> rl_get (rl_insert relation state c) = (rl_get c)(relation \<mapsto> state)"
  by (auto simp: rl_get_def rl_insert_def rl_ok_def Let_def fun_eq_iff)

interpretation relations: catalogue rl_get rl_get_named rl_add rl_filed "\<lambda>s. rm_id (rs_metadata s)" "\<lambda>s. state_name s"
proof unfold_locales
  fix c :: "'a relation_base_scheme relation_states" and n s
  assume c: "rl_filed c" and s: "rl_get_named c n = Some s"
  then obtain i where i: "lowest_named (rl_entries c) n = Some i" "rl_get c i = Some s"
    by (auto simp: rl_get_named_def rl_filed_def rl_ok_def bind_eq_Some_conv)
  then show "rl_get c (rm_id (rs_metadata s)) = Some s \<and> state_name s = n"
    using c lowest_named_key [OF i(1)]
    by (auto simp: rl_filed_def rl_ok_def rl_get_def om_get_mem [symmetric])
next
  fix c :: "'a relation_base_scheme relation_states" and i s
  assume c: "rl_filed c" and s: "rl_get c i = Some s"
  then have "(i, s) \<in> set (rl_entries c)" by (simp add: rl_filed_def rl_ok_def rl_get_def om_get_mem)
  then obtain j where j: "lowest_named (rl_entries c) (state_name s) = Some j"
    using lowest_named_None [of "rl_entries c" "state_name s"] by fastforce
  then show "rl_get_named c (state_name s) \<noteq> None"
    using c lowest_named_key [OF j]
    by (auto simp: rl_get_named_def rl_filed_def rl_ok_def rl_get_def om_get_mem [symmetric])
qed (auto simp: rl_filed_def rl_add_def rl_get_insert rl_insert_ok split: if_splits)

end
