(* ===== verification/BufferStore.thy ===== *)
theory BufferStore
  imports KernelData
begin

text \<open>
  The buffer store of \<open>crates/relation-kernel/src/buffer/store.rs\<close>: published buffer states with their
  name index, recovery from a checkpoint and from logged changes, the pending writes of a
  transaction, and their materialisation onto the current snapshot under the buffer's conflict
  policy.

  Operations that build text thread the allocation counter of \<open>BufferText\<close>; an \<open>Arc<BufferState>\<close> is
  a state with its address. \<open>None\<close> is a panic and \<open>Inl\<close> a \<open>KernelError\<close>. The derived and dispatch
  caches that \<open>invalidate_computed_views\<close> clears are represented by whether any of them is filled.
\<close>

section \<open>Data\<close>

datatype buffer_conflict_policy = Reject | Span | Whole

record buffer_metadata =
  bm_id :: identity
  bm_name :: symbol
  bm_durability :: durability
  bm_conflict :: buffer_conflict_policy

record buffer_state =
  st_metadata :: buffer_metadata
  st_revision :: revision
  st_text :: btext
  st_deleted :: bool
  st_structure_epoch :: nat
  st_addr :: nat

record persisted_buffer =
  ps_metadata :: buffer_metadata
  ps_revision :: revision
  ps_text :: rstr
  ps_deleted :: bool

record buffer_change =
  bc_metadata :: buffer_metadata
  bc_base_revision :: revision
  bc_revision :: revision
  bc_delta :: delta
  bc_deleted :: bool

record buffer_states =
  bf_entries :: "(identity, buffer_state) omap"
  bf_names :: "symbol \<Rightarrow> identity option"

record pending_buffer =
  pb_metadata :: buffer_metadata
  pb_base :: "buffer_state option"
  pb_text :: btext
  pb_deleted :: bool
  pb_touched :: bool
  pb_sealed :: bool
  pb_token :: "nat option"
  pb_compact :: bool
  pb_reverted :: bool
  pb_projected_revision :: "revision option"

type_synonym buffer_writes = "(identity, pending_buffer) omap"

record 'r snapshot =
  sn_version :: version
  sn_buffers :: buffer_states
  sn_relations :: "'r relation_states"

datatype read_authority = ReadAll | ReadRelations "identity set"

record 'r txn =
  tx_base :: "'r snapshot"
  tx_read_authority :: read_authority
  tx_buffer_writes :: buffer_writes
  tx_views_cached :: bool

text \<open>The result of a fallible operation that may also panic, and the \<open>?\<close> operator on it.\<close>

type_synonym ('v, 'a) kresult = "('v kernel_error + 'a) option"

definition kbind :: "('v, 'a) kresult \<Rightarrow> ('a \<Rightarrow> ('v, 'b) kresult) \<Rightarrow> ('v, 'b) kresult" where
  "kbind m f = (case m of None \<Rightarrow> None | Some (Inl e) \<Rightarrow> Some (Inl e) | Some (Inr x) \<Rightarrow> f x)"

definition kok :: "'a \<Rightarrow> ('v, 'a) kresult" where
  "kok x = Some (Inr x)"

definition kfail :: "identity \<Rightarrow> buffer_error \<Rightarrow> ('v, 'a) kresult" where
  "kfail i e = Some (Inl (KBuffer i e))"

text \<open>\<open>map_err\<close> of a text or delta failure into a buffer error.\<close>

definition lift_text :: "identity \<Rightarrow> (text_error + 'a) option \<Rightarrow> ('v, 'a) kresult" where
  "lift_text i m = map_option (map_sum (\<lambda>e. KBuffer i (BufText e)) id) m"

definition lift_delta :: "identity \<Rightarrow> (delta_error + 'a) option \<Rightarrow> ('v, 'a) kresult" where
  "lift_delta i m = map_option (map_sum (\<lambda>e. KBuffer i (BufDelta e)) id) m"

definition lift_option :: "identity \<Rightarrow> buffer_error \<Rightarrow> 'a option \<Rightarrow> ('v, 'a) kresult" where
  "lift_option i e m = (case m of None \<Rightarrow> kfail i e | Some x \<Rightarrow> kok x)"

section \<open>Published states\<close>

definition bf_default :: buffer_states where
  "bf_default = \<lparr>bf_entries = [], bf_names = Map.empty\<rparr>"

definition bf_get :: "buffer_states \<Rightarrow> identity \<Rightarrow> buffer_state option" where
  "bf_get c i = om_get (bf_entries c) i"

definition bf_named :: "buffer_states \<Rightarrow> symbol \<Rightarrow> buffer_state option" where
  "bf_named c name = do { i \<leftarrow> bf_names c name; bf_get c i }"

definition bf_values :: "buffer_states \<Rightarrow> buffer_state list" where
  "bf_values c = om_values (bf_entries c)"

definition bf_insert :: "buffer_state \<Rightarrow> buffer_states \<Rightarrow> buffer_states" where
  "bf_insert state c =
     (let i = bm_id (st_metadata state); name = bm_name (st_metadata state);
          c' = (if bf_names c name \<noteq> Some i then c\<lparr>bf_names := (bf_names c)(name \<mapsto> i)\<rparr> else c)
      in c'\<lparr>bf_entries := om_insert i state (bf_entries c')\<rparr>)"

fun restore_loop ::
  "persisted_buffer list \<Rightarrow> buffer_states \<Rightarrow> nat \<Rightarrow> ('v, buffer_states \<times> nat) kresult" where
  "restore_loop [] states h = kok (states, h)"
| "restore_loop (record # records) states h =
     (let i = bm_id (ps_metadata record) in
      if (ps_revision record = 0 \<and> (ps_text record \<noteq> [] \<or> ps_deleted record)) \<or>
         (ps_deleted record \<and> ps_text record \<noteq> []) \<or>
         bf_get states i \<noteq> None \<or> bf_named states (bm_name (ps_metadata record)) \<noteq> None
      then kfail i BufInvalidRecovery
      else
        kbind
          (if bm_durability (ps_metadata record) = Volatile \<and> \<not> ps_deleted record \<and> ps_revision record \<noteq> 0
           then kbind (lift_option i BufRevisionExhausted (checked_add (ps_revision record) 1))
                  (\<lambda>revision. kok ((text_default, h), revision))
           else (case from_text (ps_text record) h of
                   None \<Rightarrow> None
                 | Some (t, h') \<Rightarrow> kok ((t, h'), ps_revision record)))
          (\<lambda>((t, h'), revision).
             restore_loop records
               (bf_insert \<lparr>st_metadata = ps_metadata record, st_revision = revision, st_text = t,
                           st_deleted = ps_deleted record, st_structure_epoch = 0, st_addr = h'\<rparr> states)
               (Suc h')))"

definition restore :: "persisted_buffer list \<Rightarrow> nat \<Rightarrow> ('v, buffer_states \<times> nat) kresult" where
  "restore records h = restore_loop records bf_default h"

definition empty_creation :: "buffer_state option \<Rightarrow> buffer_change \<Rightarrow> bool" where
  "empty_creation previous change \<longleftrightarrow>
     previous = None \<and> bc_base_revision change = 0 \<and> bc_revision change = 0 \<and>
     delta_is_empty (bc_delta change) \<and> \<not> bc_deleted change"

definition replay :: "buffer_change \<Rightarrow> buffer_states \<Rightarrow> nat \<Rightarrow> ('v, buffer_states \<times> nat) kresult" where
  "replay change states h =
     (let i = bm_id (bc_metadata change);
          previous = bf_get states i;
          previous_revision = (case previous of None \<Rightarrow> 0 | Some s \<Rightarrow> st_revision s)
      in
      if (\<not> empty_creation previous change \<and>
          (bc_revision change \<le> previous_revision \<or> bc_base_revision change \<ge> bc_revision change)) \<or>
         (previous = None \<and> bc_base_revision change \<noteq> 0) \<or>
         bc_base_revision change < previous_revision \<or>
         (case previous of None \<Rightarrow> False | Some s \<Rightarrow> st_metadata s \<noteq> bc_metadata change \<or> st_deleted s) \<or>
         (bm_durability (bc_metadata change) = Durable \<and> bc_base_revision change \<noteq> previous_revision) \<or>
         (previous = None \<and> bf_named states (bm_name (bc_metadata change)) \<noteq> None)
      then kfail i BufInvalidRecovery
      else
        kbind
          (if bc_deleted change \<or> bm_durability (bc_metadata change) = Volatile
           then kok (text_default, h)
           else lift_delta i (delta_apply (bc_delta change)
                  (case previous of None \<Rightarrow> text_default | Some s \<Rightarrow> st_text s) h))
          (\<lambda>(t, h').
             kok (bf_insert \<lparr>st_metadata = bc_metadata change, st_revision = bc_revision change, st_text = t,
                              st_deleted = bc_deleted change, st_structure_epoch = 0, st_addr = h'\<rparr> states,
                  Suc h')))"

fun validate_catalog :: "buffer_state list \<Rightarrow> 'r relation_states \<Rightarrow> ('v, unit) kresult" where
  "validate_catalog [] relations = kok ()"
| "validate_catalog (state # states) relations =
     (if rl_contains_key relations (bm_id (st_metadata state)) \<or>
         rl_get_named relations (bm_name (st_metadata state)) \<noteq> None
      then kfail (bm_id (st_metadata state)) BufMetadataMismatch
      else validate_catalog states relations)"

text \<open>\<open>None\<close> only if a text cannot be read back.\<close>

fun persist_all :: "buffer_state list \<Rightarrow> persisted_buffer list option" where
  "persist_all [] = Some []"
| "persist_all (state # states) = do {
     t \<leftarrow> to_text (st_text state);
     rest \<leftarrow> persist_all states;
     Some (\<lparr>ps_metadata = st_metadata state, ps_revision = st_revision state, ps_text = t,
            ps_deleted = st_deleted state\<rparr> # rest) }"

definition persisted :: "buffer_states \<Rightarrow> persisted_buffer list option" where
  "persisted c = persist_all (bf_values c)"

definition snapshot_buffer :: "'r snapshot \<Rightarrow> identity \<Rightarrow> ('v, buffer_state) kresult" where
  "snapshot_buffer s i =
     kbind (lift_option i BufUnknown (bf_get (sn_buffers s) i))
       (\<lambda>state. if st_deleted state then kfail i BufDeleted else kok state)"

section \<open>Pending writes of a transaction\<close>

definition invalidate_computed_views :: "'r txn \<Rightarrow> 'r txn" where
  "invalidate_computed_views tx = tx\<lparr>tx_views_cached := False\<rparr>"

definition allows :: "read_authority \<Rightarrow> identity \<Rightarrow> bool" where
  "allows auth i = (case auth of ReadAll \<Rightarrow> True | ReadRelations rs \<Rightarrow> i \<in> rs)"

definition require_read :: "'r txn \<Rightarrow> identity \<Rightarrow> ('v, unit) kresult" where
  "require_read tx i =
     (if allows (tx_read_authority tx) i then kok () else Some (Inl (ReadPermissionDenied i)))"

definition buffer_identity_reserved :: "'r txn \<Rightarrow> identity \<Rightarrow> bool" where
  "buffer_identity_reserved tx i \<longleftrightarrow>
     om_contains (tx_buffer_writes tx) i \<or> bf_get (sn_buffers (tx_base tx)) i \<noteq> None"

definition buffer_named :: "'r txn \<Rightarrow> symbol \<Rightarrow> identity option" where
  "buffer_named tx name =
     (case find (\<lambda>(_, pending). bm_name (pb_metadata pending) = name) (tx_buffer_writes tx) of
        Some (i, _) \<Rightarrow> Some i
      | None \<Rightarrow> map_option (\<lambda>state. bm_id (st_metadata state)) (bf_named (sn_buffers (tx_base tx)) name))"

definition create_buffer :: "buffer_metadata \<Rightarrow> 'r txn \<Rightarrow> ('v, 'r txn) kresult" where
  "create_buffer metadata tx =
     (let i = bm_id metadata in
      if bf_get (sn_buffers (tx_base tx)) i \<noteq> None \<or> om_contains (tx_buffer_writes tx) i \<or>
         rl_contains_key (sn_relations (tx_base tx)) i \<or>
         rl_get_named (sn_relations (tx_base tx)) (bm_name metadata) \<noteq> None \<or>
         buffer_named tx (bm_name metadata) \<noteq> None
      then kfail i BufAlreadyExists
      else kok (invalidate_computed_views
        (tx\<lparr>tx_buffer_writes := om_insert i
              \<lparr>pb_metadata = metadata, pb_base = None, pb_text = text_default, pb_deleted = False,
               pb_touched = False, pb_sealed = False, pb_token = None, pb_compact = False,
               pb_reverted = False, pb_projected_revision = None\<rparr> (tx_buffer_writes tx)\<rparr>)))"

definition buffer_metadata_of :: "'r txn \<Rightarrow> identity \<Rightarrow> ('v, buffer_metadata) kresult" where
  "buffer_metadata_of tx i =
     (case om_get (tx_buffer_writes tx) i of
        Some pending \<Rightarrow> if pb_deleted pending then kfail i BufDeleted else kok (pb_metadata pending)
      | None \<Rightarrow> kbind (snapshot_buffer (tx_base tx) i) (\<lambda>state. kok (st_metadata state)))"

definition buffer_text_of :: "'r txn \<Rightarrow> identity \<Rightarrow> ('v, btext) kresult" where
  "buffer_text_of tx i =
     (case om_get (tx_buffer_writes tx) i of
        Some pending \<Rightarrow> if pb_deleted pending then kfail i BufDeleted else kok (pb_text pending)
      | None \<Rightarrow> kbind (snapshot_buffer (tx_base tx) i) (\<lambda>state. kok (st_text state)))"

definition published_revision :: "'r snapshot \<Rightarrow> identity \<Rightarrow> revision" where
  "published_revision s i = (case bf_get (sn_buffers s) i of None \<Rightarrow> 0 | Some state \<Rightarrow> st_revision state)"

definition buffer_revision_of :: "'r txn \<Rightarrow> identity \<Rightarrow> ('v, revision) kresult" where
  "buffer_revision_of tx i =
     kbind (buffer_metadata_of tx i) (\<lambda>_. kok (published_revision (tx_base tx) i))"

definition complete_delta :: "btext \<Rightarrow> btext \<Rightarrow> (delta_error + delta) option" where
  "complete_delta base view =
     map_option fst (between base view
       \<lparr>bg_pieces = usize_max, bg_text_bytes = usize_max, bg_replacements = usize_max\<rparr>)"

definition pending_changed :: "identity \<Rightarrow> pending_buffer \<Rightarrow> btext \<Rightarrow> ('v, bool) kresult" where
  "pending_changed i pending t =
     (case pb_base pending of
        None \<Rightarrow> kok (\<not> text_is_empty t)
      | Some base \<Rightarrow>
          if \<not> pb_compact pending
          then kbind (lift_delta i (complete_delta (st_text base) t)) (\<lambda>d. kok (\<not> delta_is_empty d))
          else kok False)"

definition project_revision :: "identity \<Rightarrow> btext \<Rightarrow> revision \<Rightarrow> 'r txn \<Rightarrow> ('v, revision \<times> 'r txn) kresult" where
  "project_revision i t revision tx =
     (case om_get (tx_buffer_writes tx) i of
        None \<Rightarrow> kok (revision, tx)
      | Some pending \<Rightarrow>
          (case pb_projected_revision pending of
             Some projected \<Rightarrow> kok (projected, tx)
           | None \<Rightarrow>
               kbind (pending_changed i pending t) (\<lambda>changed.
               kbind (if changed then lift_option i BufRevisionExhausted (checked_add revision 1) else kok revision) (\<lambda>r.
               kok (r, tx\<lparr>tx_buffer_writes :=
                          om_insert i (pending\<lparr>pb_projected_revision := Some r\<rparr>) (tx_buffer_writes tx)\<rparr>)))))"

definition computed_buffer_view ::
  "symbol \<Rightarrow> 'r txn \<Rightarrow> ('v, (identity \<times> btext \<times> revision) option \<times> 'r txn) kresult" where
  "computed_buffer_view name tx =
     (case buffer_named tx name of
        None \<Rightarrow> kok (None, tx)
      | Some i \<Rightarrow>
          if (case (buffer_metadata_of tx i :: ('v, buffer_metadata) kresult) of
                Some (Inl (KBuffer _ BufDeleted)) \<Rightarrow> True | _ \<Rightarrow> False)
          then kok (None, tx)
          else
            kbind (require_read tx i) (\<lambda>_.
            kbind (buffer_text_of tx i) (\<lambda>t.
            kbind (buffer_revision_of tx i) (\<lambda>revision.
            kbind (project_revision i t revision tx) (\<lambda>(r, tx').
            kok (Some (i, t, r), tx'))))))"

definition ensure_buffer_mutable :: "'r txn \<Rightarrow> identity \<Rightarrow> ('v, unit) kresult" where
  "ensure_buffer_mutable tx i =
     (case om_get (tx_buffer_writes tx) i of
        Some pending \<Rightarrow> if pb_sealed pending then kfail i BufAlreadyApplied else kok ()
      | None \<Rightarrow> kok ())"

text \<open>
  The mutable reference to the pending write is the pending write itself; the caller stores its
  update with \<open>put_pending\<close>.
\<close>

definition put_pending :: "identity \<Rightarrow> pending_buffer \<Rightarrow> 'r txn \<Rightarrow> 'r txn" where
  "put_pending i pending tx = tx\<lparr>tx_buffer_writes := om_insert i pending (tx_buffer_writes tx)\<rparr>"

definition buffer_write :: "identity \<Rightarrow> 'r txn \<Rightarrow> ('v, pending_buffer) kresult" where
  "buffer_write i tx =
     kbind (ensure_buffer_mutable tx i) (\<lambda>_.
     kbind (buffer_metadata_of tx i) (\<lambda>_.
       case om_get (tx_buffer_writes tx) i of
         Some pending \<Rightarrow> kok (pending\<lparr>pb_projected_revision := None\<rparr>)
       | None \<Rightarrow>
           (case bf_get (sn_buffers (tx_base tx)) i of
              None \<Rightarrow> None
            | Some base \<Rightarrow>
                kok \<lparr>pb_metadata = st_metadata base, pb_base = Some base, pb_text = st_text base,
                     pb_deleted = False, pb_touched = False, pb_sealed = False, pb_token = None,
                     pb_compact = False, pb_reverted = False, pb_projected_revision = None\<rparr>)))"

definition replace_buffer ::
  "identity \<Rightarrow> range \<Rightarrow> rstr \<Rightarrow> 'r txn \<Rightarrow> nat \<Rightarrow> ('v, 'r txn \<times> nat) kresult" where
  "replace_buffer i r s tx h =
     kbind (ensure_buffer_mutable tx i) (\<lambda>_.
     kbind (buffer_text_of tx i) (\<lambda>previous.
     kbind (lift_text i (replace previous r s h)) (\<lambda>(t, h').
     if shares_root previous t then kok (tx, h')
     else
       kbind (buffer_write i tx) (\<lambda>pending.
       kok (invalidate_computed_views
              (put_pending i (pending\<lparr>pb_text := t, pb_touched := True\<rparr>) tx), h')))))"

definition delete_buffer :: "identity \<Rightarrow> 'r txn \<Rightarrow> ('v, 'r txn) kresult" where
  "delete_buffer i tx =
     kbind (buffer_write i tx) (\<lambda>pending.
     kok (invalidate_computed_views
       (put_pending i (pending\<lparr>pb_deleted := True, pb_touched := True, pb_text := text_default\<rparr>) tx)))"

section \<open>Materialisation at commit\<close>

definition lift_budgeted ::
  "identity \<Rightarrow> ((delta_error + 'a) \<times> delta_budget) option \<Rightarrow> ('v, 'a \<times> delta_budget) kresult" where
  "lift_budgeted i m =
     (case m of
        None \<Rightarrow> None
      | Some (Inl e, _) \<Rightarrow> kfail i (BufDelta e)
      | Some (Inr x, b) \<Rightarrow> kok (x, b))"

text \<open>The text, base revision and delta a pending write publishes: the \<open>match &pending.base\<close> of the loop.\<close>

definition merge_created ::
  "identity \<Rightarrow> pending_buffer \<Rightarrow> 'r relation_states \<Rightarrow> buffer_states \<Rightarrow> ('v, btext \<times> revision \<times> delta) kresult" where
  "merge_created i pending relations states =
     (if bf_get states i \<noteq> None \<or> bf_named states (bm_name (pb_metadata pending)) \<noteq> None \<or>
         rl_contains_key relations i \<or> rl_get_named relations (bm_name (pb_metadata pending)) \<noteq> None
      then kfail i (BufConflict 0
        (case bf_get states i of
           Some state \<Rightarrow> st_revision state
         | None \<Rightarrow> (case bf_named states (bm_name (pb_metadata pending)) of
                     Some state \<Rightarrow> st_revision state | None \<Rightarrow> 0)))
      else kbind (lift_delta i (complete_delta text_default (pb_text pending)))
             (\<lambda>d. kok (pb_text pending, 0, d)))"

definition lift_transform :: "identity \<Rightarrow> revision \<Rightarrow> revision \<Rightarrow> delta_error + delta \<Rightarrow> ('v, delta) kresult" where
  "lift_transform i expected actual x =
     (case x of
        Inl e \<Rightarrow> if e = DeltaConflict then kfail i (BufConflict expected actual) else kfail i (BufDelta e)
      | Inr d \<Rightarrow> kok d)"

definition merge_span ::
  "identity \<Rightarrow> pending_buffer \<Rightarrow> buffer_state \<Rightarrow> buffer_state \<Rightarrow> delta_budget \<Rightarrow> nat \<Rightarrow>
   ('v, (btext \<times> revision \<times> delta) \<times> delta_budget \<times> nat) kresult" where
  "merge_span i pending base latest budget h =
     kbind (lift_budgeted i (between (st_text base) (pb_text pending) budget)) (\<lambda>(own, budget1).
     kbind (lift_budgeted i (between (st_text base) (st_text latest) budget1)) (\<lambda>(concurrent, budget2).
     kbind (lift_transform i (st_revision base) (st_revision latest) (transform_after own concurrent)) (\<lambda>d.
     kbind (lift_delta i (delta_apply d (st_text latest) h)) (\<lambda>(t, h').
     kok ((t, st_revision latest, d), budget2, h')))))"

definition merge_updated ::
  "identity \<Rightarrow> pending_buffer \<Rightarrow> buffer_state \<Rightarrow> buffer_states \<Rightarrow> delta_budget \<Rightarrow> nat \<Rightarrow>
   ('v, (btext \<times> revision \<times> delta) \<times> delta_budget \<times> nat) kresult" where
  "merge_updated i pending base states budget h =
     kbind (lift_option i BufUnknown (bf_get states i)) (\<lambda>latest.
     if st_structure_epoch latest \<noteq> st_structure_epoch base
     then kfail i (BufStructureConflict (st_structure_epoch base) (st_structure_epoch latest))
     else if st_deleted latest \<or>
             (st_revision latest \<noteq> st_revision base \<and>
              (pb_deleted pending \<or> pb_compact pending \<or> pb_reverted pending \<or>
               bm_conflict (pb_metadata pending) = Reject))
     then kfail i (BufConflict (st_revision base) (st_revision latest))
     else if pb_compact pending then kok ((pb_text pending, st_revision latest, delta_default), budget, h)
     else if st_revision latest = st_revision base
     then kbind (lift_delta i (complete_delta (st_text base) (pb_text pending)))
            (\<lambda>d. kok ((pb_text pending, st_revision latest, d), budget, h))
     else if bm_conflict (pb_metadata pending) = Whole
     then (case to_text (pb_text pending) of
             None \<Rightarrow> None
           | Some t \<Rightarrow>
               kbind (lift_delta i (Some (delta_new [mk_replacement 0 (text_len (st_text latest)) t])))
                 (\<lambda>d. kok ((pb_text pending, st_revision latest, d), budget, h)))
     else merge_span i pending base latest budget h)"

definition merge_pending ::
  "identity \<Rightarrow> pending_buffer \<Rightarrow> 'r relation_states \<Rightarrow> buffer_states \<Rightarrow> delta_budget \<Rightarrow> nat \<Rightarrow>
   ('v, (btext \<times> revision \<times> delta) \<times> delta_budget \<times> nat) kresult" where
  "merge_pending i pending relations states budget h =
     (case pb_base pending of
        None \<Rightarrow> kbind (merge_created i pending relations states) (\<lambda>out. kok (out, budget, h))
      | Some base \<Rightarrow> merge_updated i pending base states budget h)"

text \<open>The rest of the loop body: publish the merged text unless nothing was written.\<close>

definition publish_pending ::
  "identity \<Rightarrow> pending_buffer \<Rightarrow> btext \<Rightarrow> revision \<Rightarrow> delta \<Rightarrow> buffer_states \<Rightarrow> buffer_change list \<Rightarrow> nat \<Rightarrow>
   ('v, buffer_states \<times> buffer_change list \<times> nat) kresult" where
  "publish_pending i pending t base_revision d states changes h =
     (if pb_base pending \<noteq> None \<and> delta_is_empty d \<and> \<not> pb_deleted pending \<and> \<not> pb_compact pending
      then kok (states, changes, h)
      else
        let created_empty = (pb_base pending = None \<and> delta_is_empty d \<and> \<not> pb_deleted pending) in
        kbind (if pb_compact pending \<or> created_empty then kok base_revision
               else lift_option i BufRevisionExhausted (checked_add base_revision 1)) (\<lambda>revision.
        kbind (lift_option i BufRevisionExhausted
                 (checked_add (case bf_get states i of None \<Rightarrow> 0 | Some s \<Rightarrow> st_structure_epoch s)
                    (if pb_compact pending \<or> pb_reverted pending then 1 else 0))) (\<lambda>structure_epoch.
        let states' = bf_insert \<lparr>st_metadata = pb_metadata pending, st_revision = revision, st_text = t,
                        st_deleted = pb_deleted pending, st_structure_epoch = structure_epoch, st_addr = h\<rparr> states in
        if pb_compact pending then kok (states', changes, Suc h)
        else kok (states', changes @ [\<lparr>bc_metadata = pb_metadata pending, bc_base_revision = base_revision,
               bc_revision = revision, bc_delta = d, bc_deleted = pb_deleted pending\<rparr>], Suc h))))"

fun materialize_loop ::
  "buffer_writes \<Rightarrow> 'r relation_states \<Rightarrow> buffer_states \<Rightarrow> buffer_change list \<Rightarrow> delta_budget \<Rightarrow> nat \<Rightarrow>
   ('v, buffer_states \<times> buffer_change list \<times> nat) kresult" where
  "materialize_loop [] relations states changes budget h = kok (states, changes, h)"
| "materialize_loop ((i, pending) # writes) relations states changes budget h =
     kbind (merge_pending i pending relations states budget h) (\<lambda>((t, base_revision, d), budget', h').
     kbind (publish_pending i pending t base_revision d states changes h') (\<lambda>(states', changes', h'').
     materialize_loop writes relations states' changes' budget' h''))"

definition materialize_buffers ::
  "'r txn \<Rightarrow> 'r snapshot \<Rightarrow> nat \<Rightarrow> ('v, buffer_states \<times> buffer_change list \<times> nat) kresult" where
  "materialize_buffers tx current h =
     materialize_loop (tx_buffer_writes tx) (sn_relations current) (sn_buffers current) [] budget_default h"

section \<open>Changes of a staged snapshot\<close>

fun staged_missing :: "buffer_state list \<Rightarrow> buffer_states \<Rightarrow> ('v, unit) kresult" where
  "staged_missing [] staged = kok ()"
| "staged_missing (state # states) staged =
     (if bf_get staged (bm_id (st_metadata state)) = None
      then kfail (bm_id (st_metadata state)) BufMetadataMismatch
      else staged_missing states staged)"

fun staged_loop ::
  "buffer_state list \<Rightarrow> buffer_states \<Rightarrow> 'r relation_states \<Rightarrow> buffer_change list \<Rightarrow> ('v, buffer_change list) kresult" where
  "staged_loop [] current relations changes = kok changes"
| "staged_loop (state # states) current relations changes =
     (let i = bm_id (st_metadata state); previous = bf_get current i in
      if (case previous of None \<Rightarrow> False
          | Some p \<Rightarrow> st_metadata p \<noteq> st_metadata state \<or> st_revision p > st_revision state) \<or>
         rl_contains_key relations i \<or> rl_get_named relations (bm_name (st_metadata state)) \<noteq> None
      then kfail i BufMetadataMismatch
      else if (case previous of None \<Rightarrow> False | Some p \<Rightarrow> st_revision p = st_revision state)
      then staged_loop states current relations changes
      else
        kbind (lift_delta i (complete_delta
                 (case previous of None \<Rightarrow> text_default | Some p \<Rightarrow> st_text p) (st_text state))) (\<lambda>d.
        staged_loop states current relations
          (changes @ [\<lparr>bc_metadata = st_metadata state,
             bc_base_revision = (case previous of None \<Rightarrow> 0 | Some p \<Rightarrow> st_revision p),
             bc_revision = st_revision state, bc_delta = d, bc_deleted = st_deleted state\<rparr>])))"

definition staged_changes :: "'r snapshot \<Rightarrow> 'r snapshot \<Rightarrow> ('v, buffer_change list) kresult" where
  "staged_changes current staged =
     kbind (staged_missing (bf_values (sn_buffers current)) (sn_buffers staged)) (\<lambda>_.
     staged_loop (bf_values (sn_buffers staged)) (sn_buffers current) (sn_relations staged) [])"

end
