(* ===== verification/BufferRecovery.thy ===== *)
theory BufferRecovery
  imports BufferStore
begin

text \<open>
  Correctness of the buffer store: the catalogue of published states, restoring a checkpoint, and
  replaying logged changes. The main results are that a checkpoint restores to states with the same
  content, and that replaying the changes a commit logs rebuilds what the commit published.
\<close>

section \<open>The catalogue of buffers\<close>

definition bf_ok :: "buffer_states \<Rightarrow> bool" where
  "bf_ok c \<longleftrightarrow> om_ok (bf_entries c) \<and>
     (\<forall>i s. bf_get c i = Some s \<longrightarrow> bm_id (st_metadata s) = i \<and> bf_names c (bm_name (st_metadata s)) = Some i) \<and>
     (\<forall>n i. bf_names c n = Some i \<longrightarrow> (\<exists>s. bf_get c i = Some s \<and> bm_name (st_metadata s) = n))"

lemma bf_okD:
  assumes "bf_ok c"
  shows "om_ok (bf_entries c)" "bf_get c i = Some s \<Longrightarrow> bm_id (st_metadata s) = i"
    "bf_get c i = Some s \<Longrightarrow> bf_names c (bm_name (st_metadata s)) = Some i"
    "bf_names c n = Some i \<Longrightarrow> \<exists>s. bf_get c i = Some s \<and> bm_name (st_metadata s) = n"
  using assms unfolding bf_ok_def by blast+

abbreviation st_id :: "buffer_state \<Rightarrow> identity" where "st_id s \<equiv> bm_id (st_metadata s)"
abbreviation st_name :: "buffer_state \<Rightarrow> symbol" where "st_name s \<equiv> bm_name (st_metadata s)"

lemma bf_get_insert: "bf_ok c \<Longrightarrow> bf_get (bf_insert s c) = (bf_get c)(st_id s \<mapsto> s)"
  by (auto simp: bf_get_def bf_insert_def bf_ok_def Let_def fun_eq_iff)

lemma bf_names_insert: "bf_names (bf_insert s c) = (bf_names c)(st_name s \<mapsto> st_id s)"
  by (auto simp: bf_insert_def Let_def fun_eq_iff)

interpretation buffers: catalogue bf_get bf_named bf_insert bf_ok "\<lambda>s. bm_id (st_metadata s)" "\<lambda>s. bm_name (st_metadata s)"
proof unfold_locales
  fix c n s assume "bf_ok c" "bf_named c n = Some s"
  then show "bf_get c (st_id s) = Some s \<and> st_name s = n"
    by (fastforce simp: bf_named_def bf_ok_def bind_eq_Some_conv)
next
  fix c i s assume "bf_ok c" "bf_get c i = Some s"
  then show "bf_named c (st_name s) \<noteq> None" by (auto simp: bf_named_def bf_ok_def)
next
  fix c s
  assume c: "bf_ok c" and a: "bf_get c (st_id s) = None \<and> bf_named c (st_name s) = None \<or>
    (\<exists>t. bf_get c (st_id s) = Some t \<and> st_name t = st_name s)"
  have "om_ok (bf_entries (bf_insert s c))" using c by (simp add: bf_insert_def bf_ok_def Let_def)
  moreover have free: "bf_names c (st_name s) = None \<or> bf_names c (st_name s) = Some (st_id s)"
  proof (cases "bf_names c (st_name s)")
    case (Some i)
    then obtain t where t: "bf_get c i = Some t" "st_name t = st_name s" using bf_okD(4) [OF c] by blast
    then have "bf_named c (st_name s) \<noteq> None" using Some by (simp add: bf_named_def)
    then obtain u where "bf_get c (st_id s) = Some u" "st_name u = st_name s" using a by metis
    then show ?thesis using bf_okD(3) [OF c, of "st_id s" u] by simp
  qed simp
  moreover have "st_name u \<noteq> st_name s" if "bf_get c i = Some u" "i \<noteq> st_id s" for i u
    using bf_okD(3) [OF c that(1)] free that(2) by auto
  moreover have "n = st_name s" if "bf_names c n = Some (st_id s)" for n
    using bf_okD(4) [OF c that] a by auto
  ultimately show "bf_ok (bf_insert s c)"
    using bf_okD(2-4) [OF c] unfolding bf_ok_def bf_get_insert [OF c] bf_names_insert
    by (auto split: if_splits)
qed (auto simp: bf_get_insert bf_ok_def)

lemma bf_ok_default [simp]: "bf_ok bf_default"
  by (simp add: bf_ok_def bf_default_def bf_get_def)

lemma bf_unique: "bf_ok c \<Longrightarrow> buffers.unique_names c"
  unfolding buffers.unique_names_def using bf_okD(3) by (metis option.inject)

lemma bf_entry_id: "bf_ok c \<Longrightarrow> (i, s) \<in> set (bf_entries c) \<Longrightarrow> st_id s = i"
  using bf_okD(2) [of c i s] om_get_mem [OF bf_okD(1), of c i s] by (simp add: bf_get_def)

lemma bf_keys: "bf_ok c \<Longrightarrow> map (\<lambda>s. st_id s) (bf_values c) = map fst (bf_entries c)"
  unfolding bf_values_def om_values_def list.map_comp
  by (rule list.map_cong0) (auto dest: bf_entry_id)

lemma bf_values_get:
  assumes "bf_ok c"
  shows "s \<in> set (bf_values c) \<longleftrightarrow> bf_get c (st_id s) = Some s"
proof -
  have "(i, s) \<in> set (bf_entries c) \<longleftrightarrow> bf_get c i = Some s" for i
    using assms om_get_mem [of "bf_entries c"] by (simp add: bf_ok_def bf_get_def)
  moreover have "bf_get c i = Some s \<Longrightarrow> st_id s = i" for i using assms by (simp add: bf_ok_def)
  moreover have "s \<in> set (bf_values c) \<longleftrightarrow> (\<exists>i. (i, s) \<in> set (bf_entries c))"
    by (force simp: bf_values_def om_values_def)
  ultimately show ?thesis by metis
qed

section \<open>Well-formed states\<close>

text \<open>
  A published state: its text is well formed, shares chunks with other live texts, and is empty when
  the buffer is deleted; revision zero is the empty buffer.
\<close>

definition state_ok :: "heap \<Rightarrow> nat \<Rightarrow> buffer_state \<Rightarrow> bool" where
  "state_ok H h s \<longleftrightarrow> wf_text (st_text s) \<and> live_text H h (st_text s) \<and> ordered (text_cells (st_text s)) \<and>
     (st_deleted s \<longrightarrow> text_str (st_text s) = []) \<and>
     (st_revision s = 0 \<longrightarrow> text_str (st_text s) = [] \<and> \<not> st_deleted s)"

definition states_ok :: "heap \<Rightarrow> nat \<Rightarrow> buffer_states \<Rightarrow> bool" where
  "states_ok H h c \<longleftrightarrow> bf_ok c \<and> (\<forall>i s. bf_get c i = Some s \<longrightarrow> state_ok H h s)"

text \<open>The content of a state, as a reader or a checkpoint sees it.\<close>

definition content :: "buffer_state \<Rightarrow> buffer_metadata \<times> revision \<times> rstr \<times> bool" where
  "content s = (st_metadata s, st_revision s, text_str (st_text s), st_deleted s)"

definition contents :: "buffer_states \<Rightarrow> identity \<Rightarrow> (buffer_metadata \<times> revision \<times> rstr \<times> bool) option" where
  "contents c i = map_option content (bf_get c i)"

definition persisted_content :: "persisted_buffer \<Rightarrow> buffer_metadata \<times> revision \<times> rstr \<times> bool" where
  "persisted_content p = (ps_metadata p, ps_revision p, ps_text p, ps_deleted p)"

lemma text_default_simps [simp]:
  "wf_text text_default" "text_cells text_default = []" "text_str text_default = []" "live_text H h text_default"
  by (simp_all add: text_default_def text_str_def)

lemma persist_all_ok:
  assumes "\<forall>s \<in> set ss. wf_text (st_text s)"
  shows "\<exists>ps. persist_all ss = Some ps \<and> map persisted_content ps = map content ss"
  using assms
proof (induction ss)
  case (Cons s ss)
  have t: "to_text (st_text s) = Some (text_str (st_text s))" using to_text_wf Cons.prems by simp
  from Cons obtain ps where "persist_all ss = Some ps" "map persisted_content ps = map content ss" by auto
  with t show ?case by (simp add: persisted_content_def [of "\<lparr>ps_metadata = _, ps_revision = _, ps_text = _, ps_deleted = _\<rparr>"] content_def [of s])
qed simp

text \<open>What restoring makes of a record: volatile text does not survive, but its revision moves on.\<close>

definition restored :: "buffer_metadata \<times> revision \<times> rstr \<times> bool \<Rightarrow> buffer_metadata \<times> revision \<times> rstr \<times> bool" where
  "restored = (\<lambda>(m, r, t, d).
     if bm_durability m = Volatile \<and> \<not> d \<and> r \<noteq> 0 then (m, r + 1, [], d) else (m, r, t, d))"

definition record_ok :: "buffer_metadata \<times> revision \<times> rstr \<times> bool \<Rightarrow> bool" where
  "record_ok = (\<lambda>(m, r, t, d). (r = 0 \<longrightarrow> t = [] \<and> \<not> d) \<and> (d \<longrightarrow> t = []) \<and> r < usize_max)"

section \<open>Checkpoints\<close>

lemma state_ok_mono: "state_ok H h s \<Longrightarrow> heap_le H h H' h' \<Longrightarrow> state_ok H' h' s"
  using live_root_mono by (auto simp: state_ok_def)

lemma states_ok_mono: "states_ok H h c \<Longrightarrow> heap_le H h H' h' \<Longrightarrow> states_ok H' h' c"
  unfolding states_ok_def by (meson state_ok_mono)

lemma heap_le_Suc: "heap_le H h H (Suc h)"
  by (simp add: heap_le_def)

lemma contents_insert: "bf_ok c \<Longrightarrow> contents (bf_insert s c) = (contents c)(st_id s \<mapsto> content s)"
  by (auto simp: contents_def bf_get_insert fun_eq_iff)

lemma states_ok_insert:
  assumes "states_ok H h c" "state_ok H h s"
    and "bf_get c (st_id s) = None \<and> bf_named c (st_name s) = None \<or> (\<exists>t. bf_get c (st_id s) = Some t \<and> st_name t = st_name s)"
  shows "states_ok H h (bf_insert s c)"
proof -
  have c: "bf_ok c" using assms(1) by (simp add: states_ok_def)
  have "bf_ok (bf_insert s c)" by (rule buffers.ok_add [OF c assms(3)])
  then show ?thesis using assms(1,2) by (auto simp: states_ok_def bf_get_insert [OF c] split: if_splits)
qed

definition fits :: "persisted_buffer list \<Rightarrow> buffer_states \<Rightarrow> bool" where
  "fits records c \<longleftrightarrow> distinct (map (\<lambda>p. bm_id (ps_metadata p)) records) \<and>
     distinct (map (\<lambda>p. bm_name (ps_metadata p)) records) \<and>
     (\<forall>p \<in> set records. record_ok (persisted_content p) \<and>
        bf_get c (bm_id (ps_metadata p)) = None \<and> bf_named c (bm_name (ps_metadata p)) = None)"

text \<open>The state one record restores to.\<close>

lemma restore_record:
  assumes "record_ok (persisted_content p)"
  obtains t h' revision H' where
    "(if bm_durability (ps_metadata p) = Volatile \<and> \<not> ps_deleted p \<and> ps_revision p \<noteq> 0
      then kbind (lift_option i BufRevisionExhausted (checked_add (ps_revision p) 1))
             (\<lambda>revision. kok ((text_default, h), revision))
      else (case from_text (ps_text p) h of None \<Rightarrow> None | Some (t, h') \<Rightarrow> kok ((t, h'), ps_revision p))) =
     (kok ((t, h'), revision) :: ('v, _) kresult)"
    "heap_le H h H' (Suc h')"
    "state_ok H' (Suc h') \<lparr>st_metadata = ps_metadata p, st_revision = revision, st_text = t,
       st_deleted = ps_deleted p, st_structure_epoch = 0, st_addr = h'\<rparr>"
    "(ps_metadata p, revision, text_str t, ps_deleted p) = restored (persisted_content p)"
proof (cases "bm_durability (ps_metadata p) = Volatile \<and> \<not> ps_deleted p \<and> ps_revision p \<noteq> 0")
  case True
  have "kbind (lift_option i BufRevisionExhausted (checked_add (ps_revision p) 1))
      (\<lambda>revision. kok ((text_default, h), revision)) = (kok ((text_default, h), ps_revision p + 1) :: ('v, _) kresult)"
    using assms
    by (simp add: checked_add_def record_ok_def persisted_content_def kbind_def lift_option_def kok_def)
  then show ?thesis
    using that [of text_default h "ps_revision p + 1" H] True
    by (simp add: heap_le_Suc state_ok_def restored_def persisted_content_def)
next
  case False
  obtain t h' where t: "from_text (ps_text p) h = Some (t, h')" "wf_text t" "text_str t = ps_text p" "ordered (text_cells t)"
    using from_text_wf by metis
  obtain H' where H': "heap_le H h H' h'" "live_text H' h' t" using from_text_live [OF t(1)] by blast
  have "heap_le H h H' (Suc h')" using H'(1) heap_le_Suc heap_le_trans by blast
  moreover have "live_text H' (Suc h') t" using H'(2) heap_le_Suc live_root_mono by blast
  ultimately show ?thesis
    using that [of t h' "ps_revision p" H'] False t assms
    by (auto simp: kok_def state_ok_def restored_def persisted_content_def record_ok_def)
qed

lemma restore_loop_ok:
  assumes "states_ok H h c" "fits records c"
  shows "\<exists>c' h' H'. restore_loop records c h = (kok (c', h') :: ('v, _) kresult) \<and> states_ok H' h' c' \<and>
    contents c' = contents c ++ map_of (map (\<lambda>p. (bm_id (ps_metadata p), restored (persisted_content p))) records)"
  using assms
proof (induction records arbitrary: c h H)
  case Nil
  then show ?case by auto
next
  case (Cons p records)
  let ?i = "bm_id (ps_metadata p)" and ?name = "bm_name (ps_metadata p)"
  have p: "record_ok (persisted_content p)" "bf_get c ?i = None" "bf_named c ?name = None"
    using Cons.prems(2) by (auto simp: fits_def)
  obtain t h1 revision H1 where r:
    "(if bm_durability (ps_metadata p) = Volatile \<and> \<not> ps_deleted p \<and> ps_revision p \<noteq> 0
      then kbind (lift_option ?i BufRevisionExhausted (checked_add (ps_revision p) 1))
             (\<lambda>revision. kok ((text_default, h), revision))
      else (case from_text (ps_text p) h of None \<Rightarrow> None | Some (t, h') \<Rightarrow> kok ((t, h'), ps_revision p))) =
     (kok ((t, h1), revision) :: ('v, _) kresult)"
    "heap_le H h H1 (Suc h1)"
    "state_ok H1 (Suc h1) \<lparr>st_metadata = ps_metadata p, st_revision = revision, st_text = t,
       st_deleted = ps_deleted p, st_structure_epoch = 0, st_addr = h1\<rparr>"
    "(ps_metadata p, revision, text_str t, ps_deleted p) = restored (persisted_content p)"
    by (rule restore_record [OF p(1)])
  define s where "s = \<lparr>st_metadata = ps_metadata p, st_revision = revision, st_text = t,
       st_deleted = ps_deleted p, st_structure_epoch = 0, st_addr = h1\<rparr>"
  have c: "states_ok H1 (Suc h1) c" by (rule states_ok_mono [OF Cons.prems(1) r(2)])
  then have ok: "bf_ok c" by (simp add: states_ok_def)
  have ins: "states_ok H1 (Suc h1) (bf_insert s c)"
    by (rule states_ok_insert [OF c]) (use r(3) p in \<open>auto simp: s_def\<close>)
  then have ok': "bf_ok (bf_insert s c)" by (simp add: states_ok_def)
  have "fits records (bf_insert s c)"
  proof -
    have "bf_named (bf_insert s c) (bm_name (ps_metadata q)) = None" if "q \<in> set records" for q
    proof -
      have n: "bm_name (ps_metadata q) \<noteq> st_name s" "bf_named c (bm_name (ps_metadata q)) = None"
        using Cons.prems(2) that by (auto simp: fits_def s_def) (metis imageI)
      have "bf_get c (st_id s) = None" using p by (simp add: s_def)
      with buffers.named_add_other [OF ok ok' _ n(1)] n(2) show ?thesis by blast
    qed
    then show ?thesis
      using Cons.prems(2) by (auto simp: fits_def bf_get_insert [OF ok] s_def) (metis imageI)
  qed
  from Cons.IH [OF ins this] obtain c' h' H' where IH:
    "restore_loop records (bf_insert s c) (Suc h1) = (kok (c', h') :: ('v, _) kresult)" "states_ok H' h' c'"
    "contents c' = contents (bf_insert s c) ++ map_of (map (\<lambda>p. (bm_id (ps_metadata p), restored (persisted_content p))) records)"
    by blast
  have cond: "\<not> (ps_revision p = 0 \<and> (ps_text p \<noteq> [] \<or> ps_deleted p) \<or> ps_deleted p \<and> ps_text p \<noteq> [] \<or>
      bf_get c ?i \<noteq> None \<or> bf_named c ?name \<noteq> None)"
    using p by (auto simp: record_ok_def persisted_content_def)
  have run: "restore_loop (p # records) c h = (kok (c', h') :: ('v, _) kresult)"
    unfolding restore_loop.simps Let_def if_not_P [OF cond] r(1) using IH(1)
    by (simp add: kbind_def kok_def s_def)
  have "content s = restored (persisted_content p)" using r(4) by (simp add: content_def s_def)
  then have "contents c' = contents c ++ map_of (map (\<lambda>p. (bm_id (ps_metadata p), restored (persisted_content p))) (p # records))"
    using IH(3) map_add_upd_left [of ?i "map_of (map (\<lambda>p. (bm_id (ps_metadata p), restored (persisted_content p))) records)"]
      Cons.prems(2) by (simp add: contents_insert [OF ok] s_def fits_def dom_map_of_conv_image_fst image_image)
  with run IH(2) show ?case by blast
qed

lemma persisted_fits:
  assumes "states_ok H h c" "\<forall>i s. bf_get c i = Some s \<longrightarrow> st_revision s < usize_max"
  obtains ps where "persisted c = Some ps" "fits ps bf_default" "map persisted_content ps = map content (bf_values c)"
proof -
  have ok: "bf_ok c" using assms(1) by (simp add: states_ok_def)
  have st: "state_ok H h s \<and> st_revision s < usize_max" if "s \<in> set (bf_values c)" for s
    using that assms bf_values_get [OF ok] by (auto simp: states_ok_def)
  then obtain ps where ps: "persist_all (bf_values c) = Some ps" "map persisted_content ps = map content (bf_values c)"
    using persist_all_ok [of "bf_values c"] by (auto simp: state_ok_def)
  have m: "map (\<lambda>p. g (ps_metadata p)) ps = map (\<lambda>s. g (st_metadata s)) (bf_values c)" for g :: "buffer_metadata \<Rightarrow> 'x"
    using arg_cong [OF ps(2), of "map (\<lambda>x. g (fst x))"] by (simp add: comp_def persisted_content_def content_def)
  have keys: "map (\<lambda>s. st_id s) (bf_values c) = map fst (bf_entries c)"
    by (rule bf_keys [OF ok])
  have di: "distinct (map (\<lambda>p. bm_id (ps_metadata p)) ps)"
    unfolding m keys using bf_okD(1) [OF ok] by (simp add: om_ok_def strict_sorted_iff)
  have "inj_on (\<lambda>s. st_name s) (set (bf_values c))"
  proof (rule inj_onI)
    fix s t assume "s \<in> set (bf_values c)" "t \<in> set (bf_values c)" and n: "st_name s = st_name t"
    then have s: "bf_get c (st_id s) = Some s" "bf_get c (st_id t) = Some t" using bf_values_get [OF ok] by auto
    have "st_id s = st_id t"
      by (rule bf_unique [OF ok, unfolded buffers.unique_names_def, rule_format, OF s n])
    then have "Some s = bf_get c (st_id t)" using s(1) by (simp only:)
    then show "s = t" using s(2) by simp
  qed
  moreover have "distinct (bf_values c)" using di unfolding m by (simp add: distinct_map)
  ultimately have dn: "distinct (map (\<lambda>p. bm_name (ps_metadata p)) ps)"
    unfolding m by (simp add: distinct_map)
  have "record_ok (persisted_content p)" if "p \<in> set ps" for p
  proof -
    have "persisted_content p \<in> set (map content (bf_values c))" unfolding ps(2) [symmetric] using that by simp
    then obtain s where s: "s \<in> set (bf_values c)" "persisted_content p = content s" by auto
    then show ?thesis using st [OF s(1)] by (auto simp: state_ok_def record_ok_def content_def)
  qed
  then have "fits ps bf_default"
    using di dn by (simp add: fits_def bf_default_def bf_get_def bf_named_def)
  with ps show thesis using that by (simp add: persisted_def)
qed

lemma checkpoint_round_trip:
  assumes "states_ok H h c" "\<forall>i s. bf_get c i = Some s \<longrightarrow> st_revision s < usize_max"
  obtains ps c' h' H' where "persisted c = Some ps" "restore ps h = (kok (c', h') :: ('v, _) kresult)"
    "states_ok H' h' c'" "\<And>i. contents c' i = map_option restored (contents c i)"
proof -
  have ok: "bf_ok c" using assms(1) by (simp add: states_ok_def)
  obtain ps where ps: "persisted c = Some ps" "fits ps bf_default" "map persisted_content ps = map content (bf_values c)"
    using persisted_fits [OF assms] by blast
  have "states_ok H h bf_default" by (simp add: states_ok_def) (simp add: bf_default_def bf_get_def)
  from restore_loop_ok [OF this ps(2)] obtain c' h' H' where
    r: "restore_loop ps bf_default h = (kok (c', h') :: ('v, _) kresult)" "states_ok H' h' c'"
    "contents c' = contents bf_default ++ map_of (map (\<lambda>p. (bm_id (ps_metadata p), restored (persisted_content p))) ps)"
    by blast
  have "map (\<lambda>p. (bm_id (ps_metadata p), restored (persisted_content p))) ps =
      map (\<lambda>x. (bm_id (fst x), restored x)) (map persisted_content ps)"
    by (simp add: persisted_content_def)
  also have "\<dots> = map (\<lambda>s. (st_id s, restored (content s))) (bf_values c)"
    unfolding ps(3) by (simp add: content_def)
  also have "\<dots> = map (\<lambda>(i, s). (i, restored (content s))) (bf_entries c)"
    unfolding bf_values_def om_values_def list.map_comp
    by (rule list.map_cong0) (auto dest: bf_entry_id [OF ok])
  finally have eq: "contents c' = contents bf_default ++ map_of (map (\<lambda>(i, s). (i, restored (content s))) (bf_entries c))"
    using r(3) by (simp only:)
  have "contents bf_default = Map.empty" by (simp add: contents_def bf_default_def bf_get_def fun_eq_iff)
  then have "contents c' i = map_option (\<lambda>s. restored (content s)) (bf_get c i)" for i
    unfolding eq by (simp add: map_of_map bf_get_def om_get_def)
  then have "contents c' i = map_option restored (contents c i)" for i
    by (simp add: contents_def option.map_comp comp_def)
  then show thesis using that [OF ps(1)] r by (simp add: restore_def)
qed

end
