(* ===== verification/BufferCommit.thy ===== *)
theory BufferCommit
  imports BufferRecovery
begin

text \<open>
  What a commit publishes for buffers: for every pending write the merged text, the delta that turns
  the current text into it, and the next revision; and that replaying the logged changes rebuilds the
  published contents.
\<close>

section \<open>Texts after edits\<close>

text \<open>A text that can be shared: well formed, live, and with ordered provenance.\<close>

definition text_ok :: "heap \<Rightarrow> nat \<Rightarrow> btext \<Rightarrow> bool" where
  "text_ok H h t \<longleftrightarrow> wf_text t \<and> live_text H h t \<and> ordered (text_cells t)"

lemma text_ok_mono: "text_ok H h t \<Longrightarrow> heap_le H h H' h' \<Longrightarrow> text_ok H' h' t"
  using live_root_mono by (auto simp: text_ok_def)

lemma text_ok_default [simp]: "text_ok H h text_default"
  by (simp add: text_ok_def)

lemma state_ok_text: "state_ok H h s \<Longrightarrow> text_ok H h (st_text s)"
  by (simp add: state_ok_def text_ok_def)

lemma live_addr: "live_text H h t \<Longrightarrow> (a, i, x) \<in> set (text_cells t) \<Longrightarrow> a < h"
  using live_cell by metis

lemma ordered_append_pair:
  "ordered (cs @ ds) \<longleftrightarrow> ordered cs \<and> ordered ds \<and>
     (\<forall>a i x j y. (a, i, x) \<in> set cs \<longrightarrow> (a, j, y) \<in> set ds \<longrightarrow> i < j)"
  unfolding ordered_append by fastforce

lemma ordered_splice:
  assumes "ordered xs" "ordered cs" "i \<le> j" "\<And>a k x. (a, k, x) \<in> set xs \<Longrightarrow> a < h"
    and "\<And>a k x. (a, k, x) \<in> set cs \<Longrightarrow> h \<le> a"
  shows "ordered (take i xs @ cs @ drop j xs)"
proof -
  have "ordered (take i xs @ take (j - i) (drop i xs) @ drop j xs)"
    using assms(1,3) by (metis append_take_drop_id drop_drop le_add_diff_inverse2)
  then have o: "ordered (take i xs)" "ordered (drop j xs)"
    "\<And>a k x l y. (a, k, x) \<in> set (take i xs) \<Longrightarrow> (a, l, y) \<in> set (drop j xs) \<Longrightarrow> k < l"
    unfolding ordered_append_pair set_append by blast+
  have new: "(a, k, x) \<in> set xs \<Longrightarrow> (a, l, y) \<in> set cs \<Longrightarrow> False" for a k x l y
    using assms(4,5) by (meson leD)
  show ?thesis
    unfolding ordered_append_pair set_append
    using o assms(2) new set_take_subset [of i xs] set_drop_subset [of j xs] by blast
qed

lemma replace_ok:
  assumes "text_ok H h t" "replace t r s h = Some (Inr (t', h'))"
  shows "\<exists>H'. heap_le H h H' h' \<and> text_ok H' h' t'"
proof -
  have t: "wf_text t" "live_text H h t" "ordered (text_cells t)" using assms(1) by (auto simp: text_ok_def)
  have r: "range_start r \<le> range_end r" "range_end r \<le> length (text_str t)"
    using assms(2) replace_invalid [OF t(1), of r s h] by fastforce+
  obtain t2 h2 cs where rep: "replace t r s h = Some (Inr (t2, h2))" "wf_text t2"
    "text_cells t2 = take (range_start r) (text_cells t) @ cs @ drop (range_end r) (text_cells t)"
    "scalars_of cs = s" "\<And>a i x. (a, i, x) \<in> set cs \<Longrightarrow> h \<le> a" "ordered cs"
    by (rule replace_wf [OF t(1) r, of s h]) (rule that)
  then have cs: "wf_text t'" "text_cells t' = take (range_start r) (text_cells t) @ cs @ drop (range_end r) (text_cells t)"
    "\<And>a i x. (a, i, x) \<in> set cs \<Longrightarrow> h \<le> a" "ordered cs"
    using assms(2) by auto
  have "ordered (text_cells t')"
    unfolding cs(2) by (rule ordered_splice [OF t(3) cs(4) r(1)]) (use live_addr [OF t(2)] cs(3) in auto)
  then show ?thesis using replace_live [OF assms(2) t(2)] cs(1) by (auto simp: text_ok_def)
qed

lemma splice_each_ok:
  assumes "splice_each replace rs t h = Some (Inr (t', h'))" "text_ok H h t"
  shows "\<exists>H'. heap_le H h H' h' \<and> text_ok H' h' t'"
  using assms
proof (induction rs arbitrary: t h H)
  case Nil
  then show ?case by (auto intro: exI [of _ H])
next
  case (Cons r rs)
  then obtain t1 h1 where r: "replace t (rp_range r) (rp_text r) h = Some (Inr (t1, h1))"
    "splice_each replace rs t1 h1 = Some (Inr (t', h'))"
    by (auto split: option.splits sum.splits)
  obtain H1 where H1: "heap_le H h H1 h1" "text_ok H1 h1 t1" using replace_ok [OF Cons.prems(2) r(1)] by blast
  from Cons.IH [OF r(2) H1(2)] H1(1) show ?case using heap_le_trans by blast
qed

lemma delta_apply_ok:
  assumes "delta_apply d t h = Some (Inr (t', h'))" "text_ok H h t" "wf_delta (length (text_str t)) d"
  shows "\<exists>H'. heap_le H h H' h' \<and> text_ok H' h' t'" "text_str t' = delta_str d (text_str t)"
proof -
  show "\<exists>H'. heap_le H h H' h' \<and> text_ok H' h' t'"
    using splice_each_ok [OF _ assms(2)] assms(1) by (simp add: delta_apply_def)
  show "text_str t' = delta_str d (text_str t)"
    using delta_apply_wf_delta [of t d h] assms by (metis Inr_inject option.inject prod.inject text_ok_def)
qed

section \<open>Complete deltas\<close>

lemma complete_delta_ok:
  assumes "complete_delta base view = Some (Inr d)" "text_ok H h base" "text_ok H h view"
  shows "wf_delta (length (text_str base)) d" "delta_str d (text_str base) = text_str view"
proof -
  obtain b' where b: "between base view
      \<lparr>bg_pieces = usize_max, bg_text_bytes = usize_max, bg_replacements = usize_max\<rparr> = Some (Inr d, b')"
    using assms(1) by (auto simp: complete_delta_def)
  show "wf_delta (length (text_str base)) d" "delta_str d (text_str base) = text_str view"
    using between_sound [OF _ _ _ _ _ b] assms(2,3) by (auto simp: text_ok_def)
qed

lemma delta_is_empty_str: "delta_is_empty d \<Longrightarrow> delta_str d s = s"
  by (simp add: delta_is_empty_def delta_str_def)

lemma wf_delta_default [simp]: "wf_delta n delta_default"
  by (simp add: wf_delta_def delta_default_def)

section \<open>Pending writes\<close>

definition pending_ok :: "heap \<Rightarrow> nat \<Rightarrow> identity \<Rightarrow> pending_buffer \<Rightarrow> bool" where
  "pending_ok H h i p \<longleftrightarrow> bm_id (pb_metadata p) = i \<and> text_ok H h (pb_text p) \<and>
     (pb_deleted p \<longrightarrow> text_str (pb_text p) = []) \<and>
     (case pb_base p of
        None \<Rightarrow> \<not> pb_compact p \<and> \<not> pb_reverted p
      | Some b \<Rightarrow> state_ok H h b \<and> st_metadata b = pb_metadata p \<and>
          (pb_compact p \<longrightarrow> text_str (pb_text p) = text_str (st_text b) \<and> \<not> pb_deleted p))"

text \<open>
  The current state of a buffer against the state a transaction started from: the catalogue entry
  does not change, and the same revision is the same text.
\<close>

definition continues :: "buffer_state \<Rightarrow> buffer_state \<Rightarrow> bool" where
  "continues b l \<longleftrightarrow> st_metadata l = st_metadata b \<and>
     (st_revision l = st_revision b \<longrightarrow> text_str (st_text l) = text_str (st_text b))"

definition writes_ok :: "heap \<Rightarrow> nat \<Rightarrow> buffer_writes \<Rightarrow> buffer_states \<Rightarrow> bool" where
  "writes_ok H h ws states \<longleftrightarrow> distinct (map fst ws) \<and>
     (\<forall>(i, p) \<in> set ws. pending_ok H h i p \<and>
        (\<forall>b l. pb_base p = Some b \<longrightarrow> bf_get states i = Some l \<longrightarrow> continues b l))"

definition current_str :: "buffer_states \<Rightarrow> identity \<Rightarrow> rstr" where
  "current_str c i = (case bf_get c i of None \<Rightarrow> [] | Some s \<Rightarrow> text_str (st_text s))"

definition current_revision :: "buffer_states \<Rightarrow> identity \<Rightarrow> revision" where
  "current_revision c i = (case bf_get c i of None \<Rightarrow> 0 | Some s \<Rightarrow> st_revision s)"

lemma kbind_Inr: "kbind m f = Some (Inr y) \<longleftrightarrow> (\<exists>x. m = Some (Inr x) \<and> f x = Some (Inr y))"
  by (auto simp: kbind_def split: option.splits sum.splits)

lemma lift_Inr:
  "lift_delta i m = Some (Inr x) \<longleftrightarrow> m = Some (Inr x)"
  "lift_text i m' = Some (Inr y) \<longleftrightarrow> m' = Some (Inr y)"
  "lift_option i e o' = Some (Inr z) \<longleftrightarrow> o' = Some z"
  "lift_budgeted i b = Some (Inr w) \<longleftrightarrow> b = Some (Inr (fst w), snd w)"
  "lift_transform i x1 x2 tr = Some (Inr d) \<longleftrightarrow> tr = Inr d"
proof -
  show "lift_delta i m = Some (Inr x) \<longleftrightarrow> m = Some (Inr x)"
    by (cases m; cases "the m") (auto simp: lift_delta_def)
  show "lift_text i m' = Some (Inr y) \<longleftrightarrow> m' = Some (Inr y)"
    by (cases m'; cases "the m'") (auto simp: lift_text_def)
qed (auto simp: lift_option_def lift_transform_def lift_budgeted_def kfail_def kok_def split: option.splits sum.splits)

text \<open>
  The contract of a merge: the delta turns the current text into the published text, in normal form
  and within bounds.
\<close>

definition merged_ok :: "buffer_states \<Rightarrow> identity \<Rightarrow> pending_buffer \<Rightarrow> btext \<Rightarrow> revision \<Rightarrow> delta \<Rightarrow> bool" where
  "merged_ok states i p t r d \<longleftrightarrow> r = current_revision states i \<and>
     (pb_base p = None \<longleftrightarrow> bf_get states i = None) \<and>
     wf_delta (length (current_str states i)) d \<and> delta_str d (current_str states i) = text_str t \<and>
     (pb_deleted p \<longrightarrow> text_str t = [])"

lemma merge_created_ok:
  assumes "merge_created i p relations states = (Some (Inr (t, r, d)) :: ('v, _) kresult)"
    and "pending_ok H h i p" "pb_base p = None"
  shows "merged_ok states i p t r d" "text_ok H h t" "bf_named states (bm_name (pb_metadata p)) = None"
proof -
  have free: "bf_get states i = None" "bf_named states (bm_name (pb_metadata p)) = None"
    using assms(1) by (auto simp: merge_created_def kfail_def split: if_splits)
  have d: "complete_delta text_default (pb_text p) = Some (Inr d)" "t = pb_text p" "r = 0"
    using assms(1) by (auto simp: merge_created_def kfail_def kbind_Inr lift_Inr kok_def split: if_splits)
  have t: "text_ok H h (pb_text p)" using assms(2) by (simp add: pending_ok_def)
  then show "text_ok H h t" using d by simp
  from complete_delta_ok [OF d(1) text_ok_default t] show "merged_ok states i p t r d"
    using free d assms(2,3) by (simp add: merged_ok_def current_revision_def current_str_def pending_ok_def)
  show "bf_named states (bm_name (pb_metadata p)) = None" by (rule free)
qed

lemma merge_span_ok:
  assumes "merge_span i p b l budget h = (Some (Inr ((t, r, d), budget', h')) :: ('v, _) kresult)"
    and "text_ok H h (st_text b)" "text_ok H h (st_text l)" "text_ok H h (pb_text p)"
  shows "\<exists>H'. heap_le H h H' h' \<and> text_ok H' h' t" "r = st_revision l"
    "wf_delta (length (text_str (st_text l))) d" "delta_str d (text_str (st_text l)) = text_str t"
    "\<exists>own concurrent n. n = length (text_str (st_text b)) \<and> wf_delta n own \<and> wf_delta n concurrent \<and>
       \<not> conflicts own concurrent \<and> delta_str own (text_str (st_text b)) = text_str (pb_text p) \<and>
       delta_str concurrent (text_str (st_text b)) = text_str (st_text l) \<and>
       text_str t = merged 0 (dl_replacements own) (dl_replacements concurrent) (text_str (st_text b))"
proof -
  from assms(1) obtain own b1 con b2 where
    own: "between (st_text b) (pb_text p) budget = Some (Inr own, b1)"
    and con: "between (st_text b) (st_text l) b1 = Some (Inr con, b2)"
    and d: "transform_after own con = Inr d" and ap: "delta_apply d (st_text l) h = Some (Inr (t, h'))"
    and r: "r = st_revision l"
    by (auto simp: merge_span_def kbind_Inr lift_Inr kok_def)
  let ?B = "text_str (st_text b)"
  have o: "wf_delta (length ?B) own" "delta_str own ?B = text_str (pb_text p)"
    using between_sound [OF _ _ _ _ _ own, of H h] assms(2,4) by (auto simp: text_ok_def)
  have c: "wf_delta (length ?B) con" "delta_str con ?B = text_str (st_text l)"
    using between_sound [OF _ _ _ _ _ con, of H h] assms(2,3) by (auto simp: text_ok_def)
  note tr = transform_after_sound [OF o(1) c(1) d refl]
  show wf: "wf_delta (length (text_str (st_text l))) d" using tr(1) c(2) by simp
  show "\<exists>H'. heap_le H h H' h' \<and> text_ok H' h' t" by (rule delta_apply_ok(1) [OF ap assms(3) wf])
  show str: "delta_str d (text_str (st_text l)) = text_str t" using delta_apply_ok(2) [OF ap assms(3) wf] by simp
  show "r = st_revision l" by (rule r)
  show "\<exists>own concurrent n. n = length ?B \<and> wf_delta n own \<and> wf_delta n concurrent \<and>
       \<not> conflicts own concurrent \<and> delta_str own ?B = text_str (pb_text p) \<and>
       delta_str concurrent ?B = text_str (st_text l) \<and>
       text_str t = merged 0 (dl_replacements own) (dl_replacements concurrent) ?B"
    using o c tr str by (intro exI [of _ own] exI [of _ con] exI [of _ "length ?B"]) simp
qed

lemma whole_delta:
  assumes "delta_new [mk_replacement 0 n s] = Inr d" "length xs = n"
  shows "wf_delta n d" "delta_str d xs = s"
proof -
  have "within n [mk_replacement 0 n s]" by simp
  then show "wf_delta n d" using delta_new_ok(1,3) [OF assms(1)] by (simp add: wf_delta_def)
  show "delta_str d xs = s"
    using delta_new_ok(2) [OF assms(1), of xs] assms(2) by (auto simp: effective_def)
qed

lemma merge_updated_ok:
  assumes "merge_updated i p b states budget h = (Some (Inr ((t, r, d), budget', h')) :: ('v, _) kresult)"
    and "pending_ok H h i p" "pb_base p = Some b" "states_ok H h states"
    and "\<And>l. bf_get states i = Some l \<Longrightarrow> continues b l"
  shows "\<exists>H'. heap_le H h H' h' \<and> text_ok H' h' t" "merged_ok states i p t r d"
    "\<exists>l. bf_get states i = Some l \<and> \<not> st_deleted l \<and> st_metadata l = pb_metadata p"
proof -
  obtain l where l: "bf_get states i = Some l"
    using assms(1) by (auto simp: merge_updated_def kbind_Inr lift_Inr)
  have cont: "continues b l" by (rule assms(5) [OF l])
  have ok: "text_ok H h (pb_text p)" "state_ok H h b" "state_ok H h l" "st_metadata b = pb_metadata p"
    using assms(2-4) l by (auto simp: pending_ok_def states_ok_def)
  note tb = state_ok_text [OF ok(2)] and tl = state_ok_text [OF ok(3)]
  have run: "st_structure_epoch l = st_structure_epoch b" "\<not> st_deleted l"
    "st_revision l \<noteq> st_revision b \<Longrightarrow>
       \<not> pb_deleted p \<and> \<not> pb_compact p \<and> \<not> pb_reverted p \<and> bm_conflict (pb_metadata p) \<noteq> Reject"
    using assms(1) l by (auto simp: merge_updated_def kbind_def lift_option_def kok_def kfail_def split: if_splits)
  show "\<exists>l. bf_get states i = Some l \<and> \<not> st_deleted l \<and> st_metadata l = pb_metadata p"
    using l run cont ok(4) by (auto simp: continues_def)
  have cur: "current_revision states i = st_revision l" "current_str states i = text_str (st_text l)"
    using l by (simp_all add: current_revision_def current_str_def)
  note body = assms(1) [unfolded merge_updated_def l lift_option_def option.case kok_def]
  consider (compact) "pb_compact p" "t = pb_text p" "r = st_revision l" "d = delta_default" "h' = h"
    | (same) "st_revision l = st_revision b" "t = pb_text p" "r = st_revision l" "h' = h"
        "complete_delta (st_text b) (pb_text p) = Some (Inr d)"
    | (whole) s where "st_revision l \<noteq> st_revision b" "t = pb_text p" "r = st_revision l" "h' = h"
        "to_text (pb_text p) = Some s" "delta_new [mk_replacement 0 (text_len (st_text l)) s] = Inr d"
    | (span) "st_revision l \<noteq> st_revision b"
        "merge_span i p b l budget h = (Some (Inr ((t, r, d), budget', h')) :: ('v, _) kresult)"
  proof (cases "pb_compact p")
    case True
    then have "st_revision l = st_revision b" using run(3) by blast
    then show thesis using body run(1,2) True that(1) by (simp add: kbind_def)
  next
    case nc: False
    show thesis
    proof (cases "st_revision l = st_revision b")
      case True
      from body run(1,2) nc True
      have "kbind (lift_delta i (complete_delta (st_text b) (pb_text p)))
          (\<lambda>d. Some (Inr ((pb_text p, st_revision l, d), budget, h))) = (Some (Inr ((t, r, d), budget', h')) :: ('v, _) kresult)"
        by (simp add: kbind_def [of "Some (Inr l)"])
      then have "complete_delta (st_text b) (pb_text p) = Some (Inr d) \<and> t = pb_text p \<and> r = st_revision l \<and> h' = h"
        by (auto simp: kbind_Inr lift_Inr)
      with True show thesis by (intro that(2)) simp_all
    next
      case ne: False
      show thesis
      proof (cases "bm_conflict (pb_metadata p) = Whole")
        case True
        from body run(1,2) run(3) [OF ne] nc ne True
        have "(case to_text (pb_text p) of None \<Rightarrow> None
            | Some s \<Rightarrow> kbind (lift_delta i (Some (delta_new [mk_replacement 0 (text_len (st_text l)) s])))
                (\<lambda>d. Some (Inr ((pb_text p, st_revision l, d), budget, h)))) = (Some (Inr ((t, r, d), budget', h')) :: ('v, _) kresult)"
          by (simp add: kbind_def [of "Some (Inr l)"])
        then obtain s where "to_text (pb_text p) = Some s" "delta_new [mk_replacement 0 (text_len (st_text l)) s] = Inr d"
          "t = pb_text p" "r = st_revision l" "h' = h"
          by (auto simp: kbind_Inr lift_Inr split: option.splits)
        with ne show thesis by (intro that(3)) simp_all
      next
        case False
        from body run(1,2) run(3) [OF ne] nc ne False
        have "merge_span i p b l budget h = (Some (Inr ((t, r, d), budget', h')) :: ('v, _) kresult)"
          by (simp add: kbind_def [of "Some (Inr l)"])
        with ne show thesis by (rule that(4))
      qed
    qed
  qed
  then have "(\<exists>H'. heap_le H h H' h' \<and> text_ok H' h' t) \<and> merged_ok states i p t r d"
  proof cases
    case compact
    with run have "st_revision l = st_revision b" by auto
    with compact cont assms(2,3) have "text_str (pb_text p) = text_str (st_text l)" "\<not> pb_deleted p"
      by (auto simp: pending_ok_def continues_def)
    with compact ok cur l assms(3) show ?thesis
      by (auto simp: merged_ok_def delta_str_def delta_default_def wf_delta_def intro: exI [of _ H])
  next
    case same
    note cd = complete_delta_ok [OF same(5) tb ok(1)]
    have "text_str (st_text l) = text_str (st_text b)" using cont same by (simp add: continues_def)
    with same ok cur l cd assms(2,3) show ?thesis
      by (auto simp: merged_ok_def pending_ok_def intro: exI [of _ H])
  next
    case whole
    have s: "s = text_str (pb_text p)" using whole(5) ok(1) to_text_wf by (simp add: text_ok_def)
    have len: "text_len (st_text l) = length (text_str (st_text l))"
      using tl wf_text_counts(1) by (simp add: text_ok_def)
    with whole s ok cur l run assms(3) whole_delta [OF whole(6)] show ?thesis
      by (auto simp: merged_ok_def intro: exI [of _ H])
  next
    case span
    note sp = merge_span_ok [OF span(2) tb tl ok(1)]
    with span cur l run assms(3) show ?thesis by (auto simp: merged_ok_def)
  qed
  then show "\<exists>H'. heap_le H h H' h' \<and> text_ok H' h' t" "merged_ok states i p t r d" by auto
qed

section \<open>Publishing and replaying\<close>

type_synonym buffer_contents = "identity \<Rightarrow> (buffer_metadata \<times> revision \<times> rstr \<times> bool) option"

definition content_str :: "buffer_contents \<Rightarrow> identity \<Rightarrow> rstr" where
  "content_str K i = (case K i of None \<Rightarrow> [] | Some (m, r, s, d) \<Rightarrow> s)"

text \<open>What a logged change says of the contents it applies to, and what it makes of them.\<close>

definition replayable :: "buffer_change \<Rightarrow> buffer_contents \<Rightarrow> bool" where
  "replayable ch K \<longleftrightarrow> wf_delta (length (content_str K (bm_id (bc_metadata ch)))) (bc_delta ch) \<and>
     (case K (bm_id (bc_metadata ch)) of
        None \<Rightarrow> bc_base_revision ch = 0 \<and>
          (\<forall>j x. K j = Some x \<longrightarrow> bm_name (fst x) \<noteq> bm_name (bc_metadata ch)) \<and>
          (bc_revision ch = 1 \<or> bc_revision ch = 0 \<and> delta_is_empty (bc_delta ch) \<and> \<not> bc_deleted ch)
      | Some (m, r, s, d) \<Rightarrow> m = bc_metadata ch \<and> \<not> d \<and> bc_base_revision ch = r \<and> bc_revision ch = r + 1)"

definition change_effect :: "buffer_change \<Rightarrow> buffer_contents \<Rightarrow> buffer_contents" where
  "change_effect ch K =
     K(bm_id (bc_metadata ch) \<mapsto>
       (bc_metadata ch, bc_revision ch,
        if bc_deleted ch then [] else delta_str (bc_delta ch) (content_str K (bm_id (bc_metadata ch))),
        bc_deleted ch))"

lemma contents_current:
  "content_str (contents c) i = current_str c i"
  "current_revision c i = (case contents c i of None \<Rightarrow> 0 | Some (m, r, s, d) \<Rightarrow> r)"
  by (auto simp: content_str_def contents_def content_def current_str_def current_revision_def split: option.split)

lemma contents_named:
  assumes "bf_ok c"
  shows "bf_named c n = None \<longleftrightarrow> (\<forall>j x. contents c j = Some x \<longrightarrow> bm_name (fst x) \<noteq> n)"
  unfolding buffers.named_None [OF assms] by (auto simp: contents_def content_def)

text \<open>The part of \<open>persist_commit\<close> that strips the text of volatile buffers from the log.\<close>

definition persistent_buffer_change :: "buffer_change \<Rightarrow> buffer_change" where
  "persistent_buffer_change ch = (if bm_durability (bc_metadata ch) = Volatile then ch\<lparr>bc_delta := delta_default\<rparr> else ch)"

text \<open>
  What recovery keeps of a buffer: everything of a durable one, all but the text of a volatile one. A log
  recovers published contents when it agrees on that; the revision of a volatile buffer that the log has
  not mentioned since a restart may lag behind, because restoring moves it on without a record.
\<close>

definition surviving :: "buffer_metadata \<times> revision \<times> rstr \<times> bool \<Rightarrow> buffer_metadata \<times> revision \<times> rstr \<times> bool" where
  "surviving = (\<lambda>(m, r, t, d). (m, r, if bm_durability m = Volatile then [] else t, d))"

fun kept_in_log :: "(buffer_metadata \<times> revision \<times> rstr \<times> bool) option \<Rightarrow> (buffer_metadata \<times> revision \<times> rstr \<times> bool) option \<Rightarrow> bool" where
  "kept_in_log None None = True"
| "kept_in_log (Some (m', r', t', d')) (Some (m, r, t, d)) \<longleftrightarrow>
     m' = m \<and> d' = d \<and> (if bm_durability m = Volatile then r' \<le> r \<and> t' = [] else r' = r \<and> t' = t)"
| "kept_in_log _ _ = False"

definition recovered :: "buffer_contents \<Rightarrow> buffer_contents \<Rightarrow> bool" where
  "recovered R K \<longleftrightarrow> (\<forall>i. kept_in_log (R i) (K i))"

lemma recoveredD:
  assumes "recovered R K"
  shows "K i = None \<Longrightarrow> R i = None"
    "K i = Some (m, r, t, d) \<Longrightarrow>
       \<exists>r' t'. R i = Some (m, r', t', d) \<and> r' \<le> r \<and> (bm_durability m \<noteq> Volatile \<longrightarrow> r' = r \<and> t' = t)"
proof -
  have k: "kept_in_log (R i) (K i)" using assms by (simp add: recovered_def)
  show "R i = None" if "K i = None" using k that by (cases "R i") auto
  show "\<exists>r' t'. R i = Some (m, r', t', d) \<and> r' \<le> r \<and> (bm_durability m \<noteq> Volatile \<longrightarrow> r' = r \<and> t' = t)" if "K i = Some (m, r, t, d)"
    using k that by (cases "R i") (auto split: if_splits)
qed

lemma recovered_metadata: "recovered R K \<Longrightarrow> R i = Some x \<Longrightarrow> \<exists>y. K i = Some y \<and> fst y = fst x"
  using recoveredD [of R K i] by (cases "K i") auto

lemma kept_surviving: "kept_in_log (map_option surviving x) x"
  by (cases x) (auto simp: surviving_def)

lemma recovered_update: "recovered R K \<Longrightarrow> recovered (R(i \<mapsto> surviving x)) (K(i \<mapsto> x))"
  using kept_surviving [of "Some x"] by (simp add: recovered_def)

text \<open>What a restart publishes is again recovered by the log it was read from.\<close>

lemma restored_recovered: "recovered R K \<Longrightarrow> recovered R (\<lambda>i. map_option restored (R i))"
proof -
  assume k: "recovered R K"
  have "kept_in_log x (map_option restored x)" if "kept_in_log x y" for x y
    using that by (cases x; cases y) (auto simp: restored_def split: if_splits)
  then show ?thesis using k unfolding recovered_def by blast
qed

lemma persistent_change_simps [simp]:
  "bc_metadata (persistent_buffer_change ch) = bc_metadata ch" "bc_revision (persistent_buffer_change ch) = bc_revision ch"
  "bc_base_revision (persistent_buffer_change ch) = bc_base_revision ch" "bc_deleted (persistent_buffer_change ch) = bc_deleted ch"
  "bm_durability (bc_metadata ch) \<noteq> Volatile \<Longrightarrow> bc_delta (persistent_buffer_change ch) = bc_delta ch"
  "delta_is_empty (bc_delta ch) \<Longrightarrow> delta_is_empty (bc_delta (persistent_buffer_change ch))"
  by (simp_all add: persistent_buffer_change_def delta_is_empty_def delta_default_def)

lemma replay_ok:
  assumes "states_ok H h c" "recovered (contents c) K" "replayable ch K"
  shows "\<exists>c' h' H'. replay (persistent_buffer_change ch) c h = (kok (c', h') :: ('v, _) kresult) \<and> states_ok H' h' c' \<and>
    contents c' = (contents c)(bm_id (bc_metadata ch) \<mapsto> surviving (the (change_effect ch K (bm_id (bc_metadata ch)))))"
proof -
  let ?i = "bm_id (bc_metadata ch)" and ?prev = "bf_get c (bm_id (bc_metadata ch))" and ?ch = "persistent_buffer_change ch"
  define base where "base = (case ?prev of None \<Rightarrow> text_default | Some s \<Rightarrow> st_text s)"
  have ok: "bf_ok c" using assms(1) by (simp add: states_ok_def)
  have base: "text_ok H h base" "text_str base = content_str (contents c) ?i"
    using assms(1) state_ok_text
    by (auto simp: base_def states_ok_def contents_current current_str_def split: option.split)
  have at: "contents c ?i = map_option content ?prev" by (simp add: contents_def)
  have free: "bf_named c (bm_name (bc_metadata ch)) = None" if "K ?i = None"
  proof -
    have "bm_name (fst x) \<noteq> bm_name (bc_metadata ch)" if "contents c j = Some x" for j x
      using recovered_metadata [OF assms(2) that] assms(3) \<open>K ?i = None\<close> by (auto simp: replayable_def)
    then show ?thesis unfolding contents_named [OF ok] by blast
  qed
  have prev: "?prev = None \<and> bc_base_revision ch = 0 \<and> bf_named c (bm_name (bc_metadata ch)) = None \<and>
        (bc_revision ch = 1 \<or> bc_revision ch = 0 \<and> delta_is_empty (bc_delta ch) \<and> \<not> bc_deleted ch) \<or>
      (\<exists>s. ?prev = Some s \<and> st_metadata s = bc_metadata ch \<and> \<not> st_deleted s \<and> st_revision s \<le> bc_base_revision ch \<and>
        bc_revision ch = bc_base_revision ch + 1 \<and> (bm_durability (bc_metadata ch) \<noteq> Volatile \<longrightarrow> st_revision s = bc_base_revision ch))"
  proof (cases "K ?i")
    case None
    then have "?prev = None" using recoveredD(1) [OF assms(2) None] at by simp
    then show ?thesis using None assms(3) free by (simp add: replayable_def)
  next
    case (Some x)
    obtain m r t d where x: "x = (m, r, t, d)" by (cases x)
    then have r: "m = bc_metadata ch" "\<not> d" "bc_base_revision ch = r" "bc_revision ch = r + 1"
      using assms(3) Some by (simp_all add: replayable_def)
    then show ?thesis using recoveredD(2) [OF assms(2) Some [unfolded x]] at by (auto simp: content_def)
  qed
  have str: "content_str (contents c) ?i = content_str K ?i" if "bm_durability (bc_metadata ch) \<noteq> Volatile"
  proof (cases "K ?i")
    case None
    then show ?thesis using recoveredD(1) [OF assms(2) None] by (simp add: content_str_def)
  next
    case (Some x)
    obtain m r t d where x: "x = (m, r, t, d)" by (cases x)
    then have "m = bc_metadata ch" using assms(3) Some by (simp add: replayable_def)
    then show ?thesis using recoveredD(2) [OF assms(2) Some [unfolded x]] that Some x by (auto simp: content_str_def)
  qed
  have cond: "\<not> ((\<not> empty_creation ?prev ?ch \<and>
          (bc_revision ?ch \<le> (case ?prev of None \<Rightarrow> 0 | Some s \<Rightarrow> st_revision s) \<or> bc_base_revision ?ch \<ge> bc_revision ?ch)) \<or>
         (?prev = None \<and> bc_base_revision ?ch \<noteq> 0) \<or>
         bc_base_revision ?ch < (case ?prev of None \<Rightarrow> 0 | Some s \<Rightarrow> st_revision s) \<or>
         (case ?prev of None \<Rightarrow> False | Some s \<Rightarrow> st_metadata s \<noteq> bc_metadata ?ch \<or> st_deleted s) \<or>
         (bm_durability (bc_metadata ?ch) = Durable \<and> bc_base_revision ?ch \<noteq> (case ?prev of None \<Rightarrow> 0 | Some s \<Rightarrow> st_revision s)) \<or>
         (?prev = None \<and> bf_named c (bm_name (bc_metadata ?ch)) \<noteq> None))"
    using prev by (auto simp: empty_creation_def)
  let ?text = "if bc_deleted ch then [] else delta_str (bc_delta ch) (content_str K ?i)"
  obtain t h1 H1 where t: "heap_le H h H1 h1" "text_ok H1 h1 t"
    "text_str t = (if bm_durability (bc_metadata ch) = Volatile then [] else ?text)"
    "(if bc_deleted ?ch \<or> bm_durability (bc_metadata ?ch) = Volatile then kok (text_default, h)
      else lift_delta ?i (delta_apply (bc_delta ?ch) base h)) = (kok (t, h1) :: ('v, _) kresult)"
  proof (cases "bc_deleted ch \<or> bm_durability (bc_metadata ch) = Volatile")
    case True
    then show thesis using that [of H h text_default] by auto
  next
    case False
    then have wf: "wf_delta (length (text_str base)) (bc_delta ch)" using assms(3) base(2) str by (simp add: replayable_def)
    obtain t h1 where ap: "delta_apply (bc_delta ch) base h = Some (Inr (t, h1))"
      using delta_apply_wf_delta [OF _ wf, of h] base(1) unfolding text_ok_def by blast
    then show thesis
      using delta_apply_ok [OF ap base(1) wf] False base(2) str that [of _ h1 t]
      by (auto simp: lift_delta_def kok_def)
  qed
  define s where "s = \<lparr>st_metadata = bc_metadata ch, st_revision = bc_revision ch, st_text = t,
      st_deleted = bc_deleted ch, st_structure_epoch = 0, st_addr = h1\<rparr>"
  have run: "replay ?ch c h = (kok (bf_insert s c, Suc h1) :: ('v, _) kresult)"
    unfolding replay_def Let_def persistent_change_simps(1)
    unfolding if_not_P [OF cond [unfolded persistent_change_simps(1)]] base_def [symmetric] t(4) [unfolded persistent_change_simps(1)]
    by (simp add: kbind_def kok_def s_def)
  have le: "heap_le H h H1 (Suc h1)" using t(1) heap_le_Suc heap_le_trans by blast
  have zero: "?text = [] \<and> \<not> bc_deleted ch" if "bc_revision ch = 0"
    using that assms(3) delta_is_empty_str by (auto simp: replayable_def content_str_def split: option.splits)
  then have "state_ok H1 (Suc h1) s"
    using text_ok_mono [OF t(2) heap_le_Suc] t(3) by (auto simp: state_ok_def s_def text_ok_def)
  moreover have "bf_get c (st_id s) = None \<and> bf_named c (st_name s) = None \<or> (\<exists>t. bf_get c (st_id s) = Some t \<and> st_name t = st_name s)"
    using prev by (auto simp: s_def)
  ultimately have "states_ok H1 (Suc h1) (bf_insert s c)"
    by (intro states_ok_insert [OF states_ok_mono [OF assms(1) le]])
  moreover have "contents (bf_insert s c) = (contents c)(?i \<mapsto> surviving (the (change_effect ch K ?i)))"
    unfolding contents_insert [OF ok] change_effect_def surviving_def using t(3) by (simp add: content_def s_def)
  ultimately show ?thesis using run by blast
qed

text \<open>Publishing one merged write: nothing is logged and the contents stay, or one change is.\<close>

lemma publish_ok:
  assumes pub: "publish_pending i p t r d states changes h = (Some (Inr (states', changes', h')) :: ('v, _) kresult)"
    and m: "merged_ok states i p t r d" and t: "text_ok H h t" and p: "pending_ok H h i p" and st: "states_ok H h states"
    and created: "pb_base p = None \<Longrightarrow> bf_named states (bm_name (pb_metadata p)) = None"
    and updated: "pb_base p \<noteq> None \<Longrightarrow> \<exists>l. bf_get states i = Some l \<and> \<not> st_deleted l \<and> st_metadata l = pb_metadata p"
    and compact: "pb_compact p \<Longrightarrow> text_str t = current_str states i"
  shows "states_ok H h' states' \<and> h \<le> h' \<and> (\<forall>j. j \<noteq> i \<longrightarrow> bf_get states' j = bf_get states j) \<and>
    (changes' = changes \<and> contents states' = contents states \<or>
     (\<exists>ch. changes' = changes @ [ch] \<and> bc_metadata ch = pb_metadata p \<and> replayable ch (contents states) \<and>
        contents states' = change_effect ch (contents states)))"
proof (cases "pb_base p \<noteq> None \<and> delta_is_empty d \<and> \<not> pb_deleted p \<and> \<not> pb_compact p")
  case True
  then show ?thesis using pub st by (simp add: publish_pending_def kok_def)
next
  case False
  let ?empty = "pb_base p = None \<and> delta_is_empty d \<and> \<not> pb_deleted p"
  have ok: "bf_ok states" and i: "bm_id (pb_metadata p) = i" using st p by (auto simp: states_ok_def pending_ok_def)
  from pub [unfolded publish_pending_def if_not_P [OF False] Let_def kbind_Inr lift_Inr]
  obtain revision epoch where raw: "(if pb_compact p \<or> ?empty then kok r
        else lift_option i BufRevisionExhausted (checked_add r 1)) = (Some (Inr revision) :: ('v, _) kresult)"
    and fin: "(if pb_compact p then kok (bf_insert \<lparr>st_metadata = pb_metadata p, st_revision = revision, st_text = t,
        st_deleted = pb_deleted p, st_structure_epoch = epoch, st_addr = h\<rparr> states, changes, Suc h)
      else kok (bf_insert \<lparr>st_metadata = pb_metadata p, st_revision = revision, st_text = t,
        st_deleted = pb_deleted p, st_structure_epoch = epoch, st_addr = h\<rparr> states,
        changes @ [\<lparr>bc_metadata = pb_metadata p, bc_base_revision = r, bc_revision = revision, bc_delta = d,
          bc_deleted = pb_deleted p\<rparr>], Suc h)) = (Some (Inr (states', changes', h')) :: ('v, _) kresult)"
    by blast
  have rev: "revision = (if pb_compact p \<or> ?empty then r else r + 1)"
    using raw by (auto simp: kok_def lift_Inr split: if_splits)
  have out: "states' = bf_insert \<lparr>st_metadata = pb_metadata p, st_revision = revision, st_text = t,
        st_deleted = pb_deleted p, st_structure_epoch = epoch, st_addr = h\<rparr> states" "h' = Suc h"
      "changes' = changes @ (if pb_compact p then [] else [\<lparr>bc_metadata = pb_metadata p, bc_base_revision = r,
               bc_revision = revision, bc_delta = d, bc_deleted = pb_deleted p\<rparr>])"
    using fin by (auto simp: kok_def split: if_splits)
  define s where "s = \<lparr>st_metadata = pb_metadata p, st_revision = revision, st_text = t,
      st_deleted = pb_deleted p, st_structure_epoch = epoch, st_addr = h\<rparr>"
  have s: "states' = bf_insert s states" using out by (simp add: s_def)
  have cur: "content_str (contents states) i = current_str states i" by (rule contents_current)
  have "text_str t = [] \<and> \<not> pb_deleted p" if "revision = 0"
  proof -
    from that rev have "pb_compact p \<or> ?empty" "r = 0" by (auto split: if_splits)
    then show ?thesis
    proof (elim disjE)
      assume c: "pb_compact p"
      then obtain l where l: "bf_get states i = Some l" using updated p by (auto simp: pending_ok_def split: option.splits)
      then have "st_revision l = 0" using m \<open>r = 0\<close> by (simp add: merged_ok_def current_revision_def)
      then have "text_str (st_text l) = []" using st l by (auto simp: states_ok_def state_ok_def)
      then show ?thesis using compact [OF c] l p c by (auto simp: current_str_def pending_ok_def split: option.splits)
    next
      assume e: ?empty
      then have "current_str states i = []" using m by (simp add: merged_ok_def current_str_def)
      then show ?thesis using e m delta_is_empty_str by (simp add: merged_ok_def)
    qed
  qed
  then have sok: "state_ok H (Suc h) s"
    using text_ok_mono [OF t heap_le_Suc] m by (auto simp: state_ok_def text_ok_def s_def merged_ok_def)
  have place: "bf_get states (st_id s) = None \<and> bf_named states (st_name s) = None \<or>
      (\<exists>t. bf_get states (st_id s) = Some t \<and> st_name t = st_name s)"
    using created updated m i by (auto simp: s_def merged_ok_def)
  have "states_ok H (Suc h) states'"
    unfolding s by (rule states_ok_insert [OF states_ok_mono [OF st heap_le_Suc] sok place])
  moreover have con: "contents states' = (contents states)(i \<mapsto> (pb_metadata p, revision, text_str t, pb_deleted p))"
    unfolding s contents_insert [OF ok] by (simp add: content_def s_def i)
  moreover have "\<forall>j. j \<noteq> i \<longrightarrow> bf_get states' j = bf_get states j"
    unfolding s bf_get_insert [OF ok] by (simp add: s_def i)
  moreover have "changes' = changes \<and> contents states' = contents states" if cp: "pb_compact p"
  proof -
    obtain l where l: "bf_get states i = Some l" "\<not> st_deleted l" "st_metadata l = pb_metadata p"
      using updated cp p by (auto simp: pending_ok_def split: option.splits)
    then have "content l = (pb_metadata p, revision, text_str t, pb_deleted p)"
      using cp rev m p compact by (auto simp: content_def merged_ok_def current_revision_def current_str_def
          pending_ok_def split: option.splits)
    then have "contents states i = Some (pb_metadata p, revision, text_str t, pb_deleted p)"
      using l by (simp add: contents_def)
    then show ?thesis using con out(3) cp by (simp add: fun_upd_idem)
  qed
  moreover have "\<exists>ch. changes' = changes @ [ch] \<and> bc_metadata ch = pb_metadata p \<and> replayable ch (contents states) \<and>
      contents states' = change_effect ch (contents states)" if "\<not> pb_compact p"
  proof (intro exI conjI)
    let ?ch = "\<lparr>bc_metadata = pb_metadata p, bc_base_revision = r, bc_revision = revision, bc_delta = d,
        bc_deleted = pb_deleted p\<rparr>"
    show "changes' = changes @ [?ch]" using out(3) that by simp
    show "bc_metadata ?ch = pb_metadata p" by simp
    show "contents states' = change_effect ?ch (contents states)"
      using con m cur i by (auto simp: change_effect_def merged_ok_def)
    show "replayable ?ch (contents states)"
    proof (cases "bf_get states i")
      case None
      then have "pb_base p = None" "r = 0" using m by (auto simp: merged_ok_def current_revision_def)
      with None created contents_named [OF ok] rev that m cur i show ?thesis
        by (auto simp: replayable_def merged_ok_def contents_def)
    next
      case (Some l)
      then have b: "pb_base p \<noteq> None" "r = st_revision l" using m by (auto simp: merged_ok_def current_revision_def)
      with updated Some have "\<not> st_deleted l" "st_metadata l = pb_metadata p" by auto
      with Some b rev that m cur i show ?thesis
        by (auto simp: replayable_def merged_ok_def contents_def content_def)
    qed
  qed
  ultimately show ?thesis using out(2) by (cases "pb_compact p") auto
qed

section \<open>The commit loop\<close>

fun replay_all :: "buffer_change list \<Rightarrow> buffer_states \<Rightarrow> nat \<Rightarrow> ('v, buffer_states \<times> nat) kresult" where
  "replay_all [] c h = kok (c, h)"
| "replay_all (ch # chs) c h = kbind (replay ch c h) (\<lambda>(c', h'). replay_all chs c' h')"

fun effects :: "buffer_change list \<Rightarrow> buffer_contents \<Rightarrow> buffer_contents" where
  "effects [] K = K"
| "effects (ch # chs) K = effects chs (change_effect ch K)"

fun replayable_all :: "buffer_change list \<Rightarrow> buffer_contents \<Rightarrow> bool" where
  "replayable_all [] K = True"
| "replayable_all (ch # chs) K \<longleftrightarrow> replayable ch K \<and> replayable_all chs (change_effect ch K)"

lemma replay_all_ok:
  assumes "states_ok H h c" "recovered (contents c) K" "replayable_all chs K"
  shows "\<exists>c' h' H'. replay_all (map persistent_buffer_change chs) c h = (kok (c', h') :: ('v, _) kresult) \<and> states_ok H' h' c' \<and>
    recovered (contents c') (effects chs K) \<and>
    (\<forall>i. contents c' i = (if i \<in> (\<lambda>ch. bm_id (bc_metadata ch)) ` set chs then map_option surviving (effects chs K i) else contents c i))"
  using assms
proof (induction chs arbitrary: c h H K)
  case (Cons ch chs)
  let ?i = "bm_id (bc_metadata ch)"
  obtain c1 h1 H1 where r: "replay (persistent_buffer_change ch) c h = (kok (c1, h1) :: ('v, _) kresult)" "states_ok H1 h1 c1"
    "contents c1 = (contents c)(?i \<mapsto> surviving (the (change_effect ch K ?i)))"
    using replay_ok [OF Cons.prems(1,2), of ch] Cons.prems(3) by (metis replayable_all.simps(2))
  have e: "change_effect ch K = K(?i \<mapsto> the (change_effect ch K ?i))" by (simp add: change_effect_def)
  have rec: "recovered (contents c1) (change_effect ch K)"
    unfolding r(3) by (subst (2) e) (rule recovered_update [OF Cons.prems(2)])
  have "replayable_all chs (change_effect ch K)" using Cons.prems(3) by simp
  from Cons.IH [OF r(2) rec this] obtain c' h' H' where IH:
    "replay_all (map persistent_buffer_change chs) c1 h1 = (kok (c', h') :: ('v, _) kresult)" "states_ok H' h' c'"
    "recovered (contents c') (effects chs (change_effect ch K))"
    "\<And>i. contents c' i = (if i \<in> (\<lambda>ch. bm_id (bc_metadata ch)) ` set chs then map_option surviving (effects chs (change_effect ch K) i) else contents c1 i)"
    by blast
  have other: "effects chs L i = L i" if "i \<notin> (\<lambda>ch. bm_id (bc_metadata ch)) ` set chs" for L i
    using that by (induction chs arbitrary: L) (auto simp: change_effect_def)
  have "contents c' i = (if i \<in> (\<lambda>ch. bm_id (bc_metadata ch)) ` set (ch # chs) then map_option surviving (effects (ch # chs) K i) else contents c i)" for i
    using IH(4) [of i] other [of i "change_effect ch K"] r(3) by (auto simp: change_effect_def)
  moreover have "replay_all (map persistent_buffer_change (ch # chs)) c h = (kok (c', h') :: ('v, _) kresult)"
    using r(1) IH(1) by (simp add: kbind_def kok_def)
  moreover have "recovered (contents c') (effects (ch # chs) K)" using IH(3) by simp
  ultimately show ?case using IH(2) by blast
qed auto

lemma merge_pending_ok:
  assumes "merge_pending i p relations states budget h = (Some (Inr ((t, r, d), budget', h')) :: ('v, _) kresult)"
    and "pending_ok H h i p" "states_ok H h states"
    and "\<And>b l. pb_base p = Some b \<Longrightarrow> bf_get states i = Some l \<Longrightarrow> continues b l"
  shows "\<exists>H'. heap_le H h H' h' \<and> text_ok H' h' t" "merged_ok states i p t r d"
    "pb_base p = None \<Longrightarrow> bf_named states (bm_name (pb_metadata p)) = None"
    "pb_base p \<noteq> None \<Longrightarrow> \<exists>l. bf_get states i = Some l \<and> \<not> st_deleted l \<and> st_metadata l = pb_metadata p"
    "pb_compact p \<Longrightarrow> text_str t = current_str states i"
proof -
  have "(\<exists>H'. heap_le H h H' h' \<and> text_ok H' h' t) \<and> merged_ok states i p t r d \<and>
    (pb_base p = None \<longrightarrow> bf_named states (bm_name (pb_metadata p)) = None) \<and>
    (pb_base p \<noteq> None \<longrightarrow> (\<exists>l. bf_get states i = Some l \<and> \<not> st_deleted l \<and> st_metadata l = pb_metadata p)) \<and>
    (pb_compact p \<longrightarrow> text_str t = current_str states i)"
  proof (cases "pb_base p")
    case None
    then have c: "merge_created i p relations states = (Some (Inr (t, r, d)) :: ('v, _) kresult)" "h' = h"
      using assms(1) by (auto simp: merge_pending_def kbind_Inr kok_def)
    show ?thesis using merge_created_ok [OF c(1) assms(2) None] c(2) None assms(2)
      by (auto simp: pending_ok_def intro: exI [of _ H])
  next
    case (Some b)
    then have u: "merge_updated i p b states budget h = (Some (Inr ((t, r, d), budget', h')) :: ('v, _) kresult)"
      using assms(1) by (simp add: merge_pending_def)
    note mu = merge_updated_ok [OF u assms(2) Some assms(3) assms(4) [OF Some]]
    have "text_str t = current_str states i" if "pb_compact p"
    proof -
      obtain l where l: "bf_get states i = Some l" using mu(3) by blast
      have "st_revision l = st_revision b" "t = pb_text p"
        using u l that by (auto simp: merge_updated_def kbind_def lift_option_def kok_def kfail_def split: if_splits)
      then show ?thesis using l assms(2) Some that assms(4) [OF Some l]
        by (auto simp: current_str_def pending_ok_def continues_def)
    qed
    with mu Some show ?thesis by auto
  qed
  then show "\<exists>H'. heap_le H h H' h' \<and> text_ok H' h' t" "merged_ok states i p t r d"
    "pb_base p = None \<Longrightarrow> bf_named states (bm_name (pb_metadata p)) = None"
    "pb_base p \<noteq> None \<Longrightarrow> \<exists>l. bf_get states i = Some l \<and> \<not> st_deleted l \<and> st_metadata l = pb_metadata p"
    "pb_compact p \<Longrightarrow> text_str t = current_str states i"
    by auto
qed

lemma pending_ok_mono: "pending_ok H h i p \<Longrightarrow> heap_le H h H' h' \<Longrightarrow> pending_ok H' h' i p"
  using text_ok_mono state_ok_mono by (auto simp: pending_ok_def split: option.splits)

text \<open>One iteration: the merge meets its contract, the publication logs it, and the rest stays valid.\<close>

lemma materialize_step:
  assumes m: "merge_pending i p relations states budget h = (Some (Inr ((t, r, d), budget1, h1)) :: ('v, _) kresult)"
    and pub: "publish_pending i p t r d states changes h1 = (Some (Inr (states1, changes1, h2)) :: ('v, _) kresult)"
    and st: "states_ok H h states" and ws: "writes_ok H h ((i, p) # ws) states"
  obtains H1 where "heap_le H h H1 h2" "states_ok H1 h2 states1" "writes_ok H1 h2 ws states1" "h \<le> h1"
    "r = current_revision states i" "bm_id (pb_metadata p) = i"
    "\<And>l. bf_get states i = Some l \<Longrightarrow> \<not> st_deleted l \<and> st_metadata l = pb_metadata p"
    "changes1 = changes \<and> contents states1 = contents states \<or>
     (\<exists>ch. changes1 = changes @ [ch] \<and> bc_metadata ch = pb_metadata p \<and> replayable ch (contents states) \<and>
        contents states1 = change_effect ch (contents states))"
proof -
  have p: "pending_ok H h i p" and cont: "\<And>b l. pb_base p = Some b \<Longrightarrow> bf_get states i = Some l \<Longrightarrow> continues b l"
    and i: "i \<notin> fst ` set ws"
    using ws by (auto simp: writes_ok_def)
  note mp = merge_pending_ok [OF m p st cont]
  obtain H1 where H1: "heap_le H h H1 h1" "text_ok H1 h1 t" using mp(1) by blast
  have st1: "states_ok H1 h1 states" by (rule states_ok_mono [OF st H1(1)])
  have pub_ok: "states_ok H1 h2 states1 \<and> h1 \<le> h2 \<and> (\<forall>j. j \<noteq> i \<longrightarrow> bf_get states1 j = bf_get states j) \<and>
    (changes1 = changes \<and> contents states1 = contents states \<or>
     (\<exists>ch. changes1 = changes @ [ch] \<and> bc_metadata ch = pb_metadata p \<and> replayable ch (contents states) \<and>
        contents states1 = change_effect ch (contents states)))"
    by (rule publish_ok [OF pub mp(2) H1(2) pending_ok_mono [OF p H1(1)] st1 mp(3,4,5)])
  note new = pub_ok [THEN conjunct1] and h2 = pub_ok [THEN conjunct2, THEN conjunct1]
    and other = pub_ok [THEN conjunct2, THEN conjunct2, THEN conjunct1, rule_format]
    and logged = pub_ok [THEN conjunct2, THEN conjunct2, THEN conjunct2]
  have le: "heap_le H h H1 h2" and h1: "h \<le> h1" using H1(1) h2 by (auto simp: heap_le_def)
  have "pending_ok H1 h2 j q \<and> (\<forall>b l. pb_base q = Some b \<longrightarrow> bf_get states1 j = Some l \<longrightarrow> continues b l)"
    if q: "(j, q) \<in> set ws" for j q
  proof -
    have "j \<noteq> i" using q i by force
    moreover have "pending_ok H h j q" "\<forall>b l. pb_base q = Some b \<longrightarrow> bf_get states j = Some l \<longrightarrow> continues b l"
      using ws q by (auto simp: writes_ok_def)
    ultimately show ?thesis using other [of j] pending_ok_mono [OF _ le] by simp
  qed
  then have rest: "writes_ok H1 h2 ws states1" using ws by (auto simp: writes_ok_def)
  have r: "r = current_revision states i" "pb_base p = None \<longleftrightarrow> bf_get states i = None"
    using mp(2) by (simp_all add: merged_ok_def)
  have live: "\<not> st_deleted l \<and> st_metadata l = pb_metadata p" if "bf_get states i = Some l" for l
    using that mp(4) r(2) by auto
  show thesis
    by (rule that [OF le new rest h1 r(1) _ live logged]) (use p in \<open>simp_all add: pending_ok_def\<close>)
qed

lemma materialize_loop_ok:
  assumes "materialize_loop ws relations states changes budget h = (Some (Inr (states', changes', h')) :: ('v, _) kresult)"
    and "states_ok H h states" "writes_ok H h ws states"
  shows "\<exists>H' new. states_ok H' h' states' \<and> heap_le H h H' h' \<and> changes' = changes @ new \<and>
    replayable_all new (contents states) \<and> contents states' = effects new (contents states) \<and>
    set (map bc_metadata new) \<subseteq> set (map (\<lambda>(i, p). pb_metadata p) ws)"
  using assms
proof (induction ws arbitrary: states changes budget h H)
  case Nil
  then show ?case by (auto simp: kok_def intro: exI [of _ H])
next
  case (Cons w ws)
  obtain i p where w: "w = (i, p)" by (cases w)
  from Cons.prems(1) w obtain t r d budget1 h1 states1 changes1 h2 where
    m: "merge_pending i p relations states budget h = (Some (Inr ((t, r, d), budget1, h1)) :: ('v, _) kresult)"
    and pub: "publish_pending i p t r d states changes h1 = (Some (Inr (states1, changes1, h2)) :: ('v, _) kresult)"
    and rest: "materialize_loop ws relations states1 changes1 budget1 h2 = (Some (Inr (states', changes', h')) :: ('v, _) kresult)"
    by (auto simp: kbind_Inr)
  obtain H1 where le: "heap_le H h H1 h2" and st1: "states_ok H1 h2 states1" "writes_ok H1 h2 ws states1"
    and pub_ok: "changes1 = changes \<and> contents states1 = contents states \<or>
     (\<exists>ch. changes1 = changes @ [ch] \<and> bc_metadata ch = pb_metadata p \<and> replayable ch (contents states) \<and>
        contents states1 = change_effect ch (contents states))"
    by (rule materialize_step [OF m pub Cons.prems(2) Cons.prems(3) [unfolded w]]) (rule that)
  from Cons.IH [OF rest st1] obtain H' new where IH: "states_ok H' h' states'" "heap_le H1 h2 H' h'"
    "changes' = changes1 @ new" "replayable_all new (contents states1)" "contents states' = effects new (contents states1)"
    "set (map bc_metadata new) \<subseteq> set (map (\<lambda>(i, p). pb_metadata p) ws)"
    by blast
  have le': "heap_le H h H' h'" using le IH(2) heap_le_trans by blast
  from pub_ok consider "changes1 = changes" "contents states1 = contents states"
    | ch where "changes1 = changes @ [ch]" "bc_metadata ch = pb_metadata p" "replayable ch (contents states)"
      "contents states1 = change_effect ch (contents states)"
    by blast
  then show ?case
  proof cases
    case 1
    with IH le' w show ?thesis by (intro exI [of _ H'] exI [of _ new]) auto
  next
    case 2
    with IH le' w show ?thesis by (intro exI [of _ H'] exI [of _ "ch # new"]) auto
  qed
qed

end
