(* ===== verification/BufferProperties.thy ===== *)
theory BufferProperties
  imports BufferCommit
begin

text \<open>
  The properties of the buffer subsystem, stated over the definitions of the component theories,
  each with a witness at a concrete text, delta or store.
\<close>

section \<open>Concrete inputs\<close>

text \<open>The text \<open>hi\<close>, newline, \<open>o\<close>, as \<open>Text::from_text\<close> builds it.\<close>

definition demo_text :: btext where
  "demo_text = fst (the (from_text [104, 105, 10, 111] 0))"

definition demo_h :: nat where
  "demo_h = snd (the (from_text [104, 105, 10, 111] 0))"

lemma demo_facts:
  shows "wf_text demo_text" "text_str demo_text = [104, 105, 10, 111]" "ordered (text_cells demo_text)"
    and "\<exists>H. live_text H demo_h demo_text"
proof -
  obtain t h' where t: "from_text [104, 105, 10, 111] 0 = Some (t, h')" "wf_text t"
    "text_str t = [104, 105, 10, 111]" "ordered (text_cells t)"
    using from_text_wf [of "[104, 105, 10, 111]" 0] by metis
  moreover obtain H where "live_text H h' t" using from_text_live [OF t(1)] by blast
  ultimately show "wf_text demo_text" "text_str demo_text = [104, 105, 10, 111]" "ordered (text_cells demo_text)"
    "\<exists>H. live_text H demo_h demo_text"
    by (auto simp: demo_text_def demo_h_def)
qed

lemma demo_ok: "\<exists>H. text_ok H demo_h demo_text"
  using demo_facts by (auto simp: text_ok_def)

section \<open>Text\<close>

text \<open>
  C6. \<open>Text::replace\<close> never panics on a well-formed text: a valid range is replaced by the string, with
  the rest of the text unchanged and the tree well formed again, and an invalid range is refused.
\<close>

theorem replace_correct:
  assumes "wf_text t"
  shows "if range_start r \<le> range_end r \<and> range_end r \<le> text_len t
    then \<exists>t' h'. replace t r s h = Some (Inr (t', h')) \<and> wf_text t' \<and>
      text_str t' = take (range_start r) (text_str t) @ s @ drop (range_end r) (text_str t)
    else replace t r s h = Some (Inl TextInvalidRange)"
proof (cases "range_start r \<le> range_end r \<and> range_end r \<le> text_len t")
  case True
  with assms tree_text.edit_valid [of t r s h] show ?thesis by (simp add: wf_text_counts(1))
next
  case False
  with assms replace_invalid [of t r s h] show ?thesis by (simp add: wf_text_counts(1))
qed

theorem replace_correct_witness:
  "\<exists>t' h'. replace demo_text (mk_range 1 3) [8364] demo_h = Some (Inr (t', h')) \<and> wf_text t' \<and>
     text_str t' = [104, 8364, 111]"
  using replace_correct [OF demo_facts(1), of "mk_range 1 3" "[8364]" demo_h]
  by (simp add: wf_text_counts(1) [OF demo_facts(1)] demo_facts(2))

text \<open>
  \<open>Text::from_text\<close> and \<open>Text::to_text\<close> are inverse, and the cached counts of the tree are the
  number of scalars, bytes and lines of the string.
\<close>

theorem from_text_round_trip:
  "\<exists>t h'. from_text s h = Some (t, h') \<and> to_text t = Some s \<and> wf_text t \<and>
     text_len t = length s \<and> byte_len t = str_len s \<and> line_count t = length (split_lines s)"
proof -
  obtain t h' where "from_text s h = Some (t, h')" "wf_text t" "text_str t = s"
    using from_text_wf [of s h] by metis
  then show ?thesis by (auto simp: to_text_wf wf_text_counts length_split_lines)
qed

text \<open>
  C40. \<open>Text::line_span\<close> finds each line: slicing the span of line \<open>k\<close> gives the \<open>k\<close>-th line of the
  text split at newlines, and a line number past the last line is refused.
\<close>

theorem line_span_correct:
  assumes "wf_text t"
  shows "if k < length (split_lines (text_str t))
    then \<exists>r. line_span t k = Some (Inr r) \<and> slice t r = Some (Inr (split_lines (text_str t) ! k))
    else line_span t k = Some (Inl TextInvalidLine)"
  using assms split_lines_nth [of k "text_str t"]
  by (simp add: line_span_wf slice_wf length_split_lines range_len_def less_Suc_eq_le)

theorem line_span_correct_witness:
  "\<exists>r. line_span demo_text 1 = Some (Inr r) \<and> slice demo_text r = Some (Inr [111])"
  using line_span_correct [OF demo_facts(1), of 1] by (simp add: demo_facts(2) NEWLINE_def)

lemma count_nl_zero: "count_nl xs = 0 \<Longrightarrow> NEWLINE \<notin> set xs"
  by (auto simp: count_nl_def filter_empty_conv)

text \<open>
  \<open>Text::line_column\<close> splits a position into a line and a column: the line starts \<open>column\<close> scalars
  before the position and there is no newline in between.
\<close>

theorem line_column_correct:
  assumes "wf_text t" "q \<le> text_len t"
  shows "\<exists>k c. line_column t q = Some (Inr (k, c)) \<and> c \<le> q \<and> line_start t k = Some (Inr (q - c)) \<and>
    NEWLINE \<notin> set (take c (drop (q - c) (text_str t)))"
proof -
  let ?s = "text_str t" and ?k = "count_nl (take q (text_str t))"
  have q: "q \<le> length ?s" using assms wf_text_counts(1) by simp
  note b = line_begin_count [OF q]
  have "?k \<le> count_nl ?s" using count_nl_simps(3) [of "take q ?s" "drop q ?s"] by simp
  then have "line_start t ?k = Some (Inr (line_begin ?s ?k))" by (simp add: line_start_wf [OF assms(1)])
  moreover have "line_column t q = Some (Inr (?k, q - line_begin ?s ?k))"
    using q by (simp add: line_column_wf [OF assms(1)] Let_def)
  moreover have "NEWLINE \<notin> set (take (q - line_begin ?s ?k) (drop (line_begin ?s ?k) ?s))"
    by (rule count_nl_zero [OF b(2)])
  ultimately show ?thesis using b(1) by (intro exI [of _ ?k] exI [of _ "q - line_begin ?s ?k"]) simp
qed

theorem line_column_correct_witness:
  "\<exists>k c. line_column demo_text 4 = Some (Inr (k, c)) \<and> c \<le> 4 \<and> line_start demo_text k = Some (Inr (4 - c)) \<and>
     NEWLINE \<notin> set (take c (drop (4 - c) (text_str demo_text)))"
  by (rule line_column_correct [OF demo_facts(1)])
    (simp add: demo_facts(2) wf_text_counts(1) [OF demo_facts(1)])

text \<open>A height-balanced tree of height \<open>h\<close> has at least \<open>2 ^ (h div 2) / 2\<close> leaves.\<close>

lemma leaves_height: "wf_node n \<Longrightarrow> 2 ^ (height n div 2) \<le> 2 * length (leaves n)"
proof (induction n)
  case (Branch i l r)
  then have wf: "wf_node l" "wf_node r" "nd_height i = max (height l) (height r) + 1"
    "height l \<le> height r + 1" "height r \<le> height l + 1" by auto
  define m where "m = max (height l) (height r)"
  have m: "1 \<le> m" using wf_node_height_pos [OF wf(1)] by (simp add: m_def)
  have "2 ^ ((m - 1) div 2) \<le> (2::nat) ^ (height l div 2)" "2 ^ ((m - 1) div 2) \<le> (2::nat) ^ (height r div 2)"
    by (rule power_increasing; use wf in \<open>auto simp: m_def intro: div_le_mono\<close>)+
  with Branch.IH wf(1,2) have "2 ^ ((m - 1) div 2) \<le> 2 * length (leaves l)" "2 ^ ((m - 1) div 2) \<le> 2 * length (leaves r)"
    using le_trans by blast+
  moreover have "(m + 1) div 2 = Suc ((m - 1) div 2)" using m by simp
  ultimately show ?case using wf(3) by (simp add: m_def [symmetric])
qed simp

text \<open>
  The height a tree node stores in eight bits is a natural number in the model, which loses nothing: a
  well-formed tree with at most \<open>usize::MAX\<close> leaves has a height below 130.
\<close>

lemma height_fits_u8:
  assumes "wf_text t" "bt_root t = Some n" "length (leaves n) \<le> usize_max"
  shows "height n < 130"
proof (rule ccontr)
  assume "\<not> height n < 130"
  then have "65 \<le> height n div 2" by simp
  then have "(2::nat) ^ 65 \<le> 2 ^ (height n div 2)" by (intro power_increasing) simp_all
  also have "\<dots> \<le> 2 * length (leaves n)" by (rule leaves_height) (use assms in simp)
  also have "\<dots> \<le> 2 * usize_max" using assms(3) by simp
  finally show False by (simp add: usize_max_def)
qed

section \<open>Deltas\<close>

text \<open>
  \<open>Delta::new\<close> on replacements in ascending order: it succeeds, merges touching replacements and
  drops empty ones (normal form: valid ranges with gaps between them), and applying the result is
  applying the given replacements.
\<close>

theorem delta_new_correct:
  assumes "sorted_from 0 rs"
  shows "\<exists>d. delta_new rs = Inr d \<and> normal (dl_replacements d) \<and>
    (\<forall>s. delta_str d s = app_from 0 (filter effective rs) s)"
  using delta_new_succeeds [OF assms] delta_new_ok by metis

theorem delta_new_correct_witness:
  "\<exists>d. delta_new [mk_replacement 0 1 [65], mk_replacement 1 2 [66], mk_replacement 3 3 []] = Inr d \<and>
     normal (dl_replacements d) \<and> delta_str d [1, 2, 3, 4] = [65, 66, 3, 4]"
  using delta_new_correct [of "[mk_replacement 0 1 [65], mk_replacement 1 2 [66], mk_replacement 3 3 []]"]
  by (auto simp: effective_def)

text \<open>
  \<open>Delta::apply\<close> of a normal-form delta within bounds never fails and gives the text with every
  replacement made at its place in the base.
\<close>

theorem delta_apply_correct:
  assumes "wf_text t" "wf_delta (text_len t) d"
  shows "\<exists>t' h'. delta_apply d t h = Some (Inr (t', h')) \<and> wf_text t' \<and> text_str t' = delta_str d (text_str t)"
  using delta_apply_wf_delta [OF assms(1), of d h] assms wf_text_counts(1) by metis

theorem delta_apply_correct_witness:
  "\<exists>t' h'. delta_apply \<lparr>dl_replacements = [mk_replacement 0 1 [65], mk_replacement 2 4 []]\<rparr> demo_text demo_h =
     Some (Inr (t', h')) \<and> wf_text t' \<and> text_str t' = [65, 105]"
  using delta_apply_correct [OF demo_facts(1), of "\<lparr>dl_replacements = [mk_replacement 0 1 [65], mk_replacement 2 4 []]\<rparr>" demo_h]
  by (simp add: wf_delta_def effective_def wf_text_counts(1) [OF demo_facts(1)] demo_facts(2) delta_str_def)

text \<open>
  The two-pointer scan \<open>Delta::conflicts\<close> decides whether any replacement of one delta conflicts
  with any replacement of the other, and does not depend on the order of the two deltas.
\<close>

theorem conflicts_correct:
  assumes "wf_delta n a" "wf_delta n b"
  shows "(conflicts a b \<longleftrightarrow>
      (\<exists>l \<in> set (dl_replacements a). \<exists>r \<in> set (dl_replacements b). replacements_conflict l r)) \<and>
    (conflicts a b = conflicts b a)"
  by (rule conjI [OF conflicts_iff [OF assms] conflicts_sym [OF assms]])

theorem conflicts_correct_witness:
  "conflicts \<lparr>dl_replacements = [mk_replacement 0 2 [1]]\<rparr> \<lparr>dl_replacements = [mk_replacement 1 1 [2]]\<rparr>"
  using conflicts_correct [of 4 "\<lparr>dl_replacements = [mk_replacement 0 2 [1]]\<rparr>" "\<lparr>dl_replacements = [mk_replacement 1 1 [2]]\<rparr>"]
  by (simp add: wf_delta_def effective_def replacements_conflict_def range_is_empty_def)

text \<open>
  C7. Convergence of concurrent edits: two non-conflicting deltas over one base can each be rebased
  over the other, the rebased deltas are in normal form and fit the other's result, and both orders
  of applying them give the same text. The bound excludes overflow of positions only.
\<close>

theorem transform_convergence:
  assumes "wf_delta (length s) a" "wf_delta (length s) b" "\<not> conflicts a b"
    and "length s + total_inserted (dl_replacements a) \<le> usize_max"
    and "length s + total_inserted (dl_replacements b) \<le> usize_max"
  shows "\<exists>a' b'. transform_after a b = Inr a' \<and> transform_after b a = Inr b' \<and>
    wf_delta (length (delta_str b s)) a' \<and> wf_delta (length (delta_str a s)) b' \<and>
    delta_str a' (delta_str b s) = delta_str b' (delta_str a s)"
proof -
  have c: "\<not> conflicts b a" using assms(3) conflicts_sym [OF assms(1,2)] by simp
  obtain a' where a': "transform_after a b = Inr a'" using transform_after_total [OF assms(1-3,5)] by blast
  obtain b' where b': "transform_after b a = Inr b'" using transform_after_total [OF assms(2,1) c assms(4)] by blast
  note sa = transform_after_sound [OF assms(1,2) a' refl] and sb = transform_after_sound [OF assms(2,1) b' refl]
  have "compatible (dl_replacements a) (dl_replacements b)"
    using assms(3) conflicts_iff [OF assms(1,2)] by (auto simp: compatible_def)
  then have "merged 0 (dl_replacements a) (dl_replacements b) s = merged 0 (dl_replacements b) (dl_replacements a) s"
    by (intro merged_sym normal_sorted_0) (use assms(1,2) in \<open>auto simp: wf_delta_def\<close>)
  then show ?thesis using a' b' sa sb by auto
qed

theorem transform_convergence_witness:
  "\<exists>a' b'. transform_after \<lparr>dl_replacements = [mk_replacement 0 1 [65, 66]]\<rparr> \<lparr>dl_replacements = [mk_replacement 3 3 [67]]\<rparr> = Inr a' \<and>
     transform_after \<lparr>dl_replacements = [mk_replacement 3 3 [67]]\<rparr> \<lparr>dl_replacements = [mk_replacement 0 1 [65, 66]]\<rparr> = Inr b' \<and>
     delta_str a' [1, 2, 3, 67, 4] = delta_str b' [65, 66, 2, 3, 4]"
  using transform_convergence [of "[1, 2, 3, 4]" "\<lparr>dl_replacements = [mk_replacement 0 1 [65, 66]]\<rparr>"
      "\<lparr>dl_replacements = [mk_replacement 3 3 [67]]\<rparr>"]
  by (auto simp: wf_delta_def effective_def delta_str_def conflicts_def usize_max_def Let_def)

section \<open>Reconstructing deltas\<close>

lemma splice_each_derived:
  assumes "splice_each replace rs t h = Some (Inr (t', h'))" "text_ok H h t" "derived h0 base t" "h0 \<le> h"
  shows "derived h0 base t'"
  using assms
proof (induction rs arbitrary: t h H)
  case (Cons r rs)
  then obtain t1 h1 where r: "replace t (rp_range r) (rp_text r) h = Some (Inr (t1, h1))"
    "splice_each replace rs t1 h1 = Some (Inr (t', h'))"
    by (auto split: option.splits sum.splits)
  have t: "wf_text t" using Cons.prems(2) by (simp add: text_ok_def)
  have valid: "rp_start r \<le> rp_end r" "rp_end r \<le> length (text_str t)"
    using r(1) replace_invalid [OF t, of "rp_range r" "rp_text r" h] by fastforce+
  obtain t2 h2 cs where rep: "replace t (rp_range r) (rp_text r) h = Some (Inr (t2, h2))" "wf_text t2"
    "text_cells t2 = take (rp_start r) (text_cells t) @ cs @ drop (rp_end r) (text_cells t)"
    "scalars_of cs = rp_text r" "\<And>a i x. (a, i, x) \<in> set cs \<Longrightarrow> h \<le> a" "ordered cs"
    by (rule replace_wf [OF t valid, of "rp_text r" h]) (rule that)
  have t2: "t2 = t1" "h2 = h1" using r(1) rep(1) by auto
  have "derived h0 base t1"
    by (rule derived_splice [OF Cons.prems(3) valid(1) _ rep(3) [unfolded t2]])
      (use rep(5) Cons.prems(4) le_trans in blast)
  moreover obtain H1 where H1: "heap_le H h H1 h1" "text_ok H1 h1 t1" using replace_ok [OF Cons.prems(2) r(1)] by blast
  moreover have "h0 \<le> h1" using H1(1) Cons.prems(4) by (simp add: heap_le_def)
  ultimately show ?case using Cons.IH [OF r(2)] by blast
qed simp

text \<open>
  C23. \<open>Delta::between\<close> recovers edits from provenance: for a view that any sequence of replacements
  made of the base, it either exceeds its work budget or returns a normal-form delta within the base
  that turns the base into the view. It never reports foreign provenance and never panics.
\<close>

theorem between_recovers_edits:
  assumes "text_ok H h base" "splice_each replace edits base h = Some (Inr (view, h'))"
  shows "\<exists>r b'. between base view b = Some (r, b') \<and>
    (case r of Inl e \<Rightarrow> e = DeltaBudgetExceeded
     | Inr d \<Rightarrow> wf_delta (text_len base) d \<and> delta_str d (text_str base) = text_str view)"
proof -
  have b: "wf_text base" "live_text H h base" "ordered (text_cells base)" using assms(1) by (auto simp: text_ok_def)
  have "derived h base base" by (rule derived_refl) (use b live_addr [OF b(2)] in auto)
  then have der: "derived h base view" by (rule splice_each_derived [OF assms(2,1) _ order_refl])
  obtain H' where H': "heap_le H h H' h'" "text_ok H' h' view" using splice_each_ok [OF assms(2,1)] by blast
  have live: "live_text H' h' base" using b(2) H'(1) live_root_mono by blast
  have view: "wf_text view" "live_text H' h' view" using H'(2) by (auto simp: text_ok_def)
  have "spent (between base view) (\<lambda>_. True) b" by (rule between_complete [OF b(1) view(1) der])
  then obtain r b' where r: "between base view b = Some (r, b')" "\<And>e. r = Inl e \<Longrightarrow> e = DeltaBudgetExceeded"
    by (auto simp: spent_def split: option.splits sum.splits)
  show ?thesis
  proof (cases r)
    case (Inl e)
    with r show ?thesis by auto
  next
    case (Inr d)
    with r(1) have "between base view b = Some (Inr d, b')" by simp
    from between_sound [OF b(1) view(1) b(3) live view(2) this] Inr r(1) show ?thesis
      by (auto simp: wf_text_counts(1) [OF b(1)])
  qed
qed

theorem between_recovers_edits_witness:
  "\<exists>view h' r b'. splice_each replace [mk_replacement 1 2 [120]] demo_text demo_h = Some (Inr (view, h')) \<and>
     between demo_text view budget_default = Some (r, b') \<and>
     (case r of Inl e \<Rightarrow> e = DeltaBudgetExceeded
      | Inr d \<Rightarrow> wf_delta (text_len demo_text) d \<and> delta_str d (text_str demo_text) = text_str view)"
proof -
  obtain H where H: "text_ok H demo_h demo_text" using demo_ok by blast
  obtain view h' where v: "splice_each replace [mk_replacement 1 2 [120]] demo_text demo_h = Some (Inr (view, h'))"
    using tree_text.splice_each_rev [OF demo_facts(1), of "[mk_replacement 1 2 [120]]" demo_h]
    by (auto simp: demo_facts(2))
  show ?thesis using between_recovers_edits [OF H v, of budget_default] v by blast
qed



section \<open>The store\<close>

text \<open>The delta of a created buffer is the insertion of its text.\<close>

lemma created_pieces:
  assumes "\<forall>p \<in> set ps. wf_piece p" "str_len (scalars_of (pieces_cells ps)) \<le> bg_text_bytes b"
  shows "between_pieces (\<lambda>_. []) ps s b =
    Some (Inr (s\<lparr>bs_inserted := bs_inserted s @ scalars_of (pieces_cells ps)\<rparr>),
      b\<lparr>bg_text_bytes := bg_text_bytes b - str_len (scalars_of (pieces_cells ps))\<rparr>)"
  using assms
proof (induction ps arbitrary: s b)
  case (Cons p ps)
  let ?t = "scalars_of (piece_cells p)"
  have len: "str_len ?t \<le> bg_text_bytes b" using Cons.prems(2) by simp
  have "between_pieces (\<lambda>_. []) ps (s\<lparr>bs_inserted := bs_inserted s @ ?t\<rparr>) (b\<lparr>bg_text_bytes := bg_text_bytes b - str_len ?t\<rparr>) =
    Some (Inr (s\<lparr>bs_inserted := (bs_inserted s @ ?t) @ scalars_of (pieces_cells ps)\<rparr>),
      b\<lparr>bg_text_bytes := bg_text_bytes b - str_len ?t - str_len (scalars_of (pieces_cells ps))\<rparr>)"
    using Cons.IH [of "b\<lparr>bg_text_bytes := bg_text_bytes b - str_len ?t\<rparr>" "s\<lparr>bs_inserted := bs_inserted s @ ?t\<rparr>"]
      Cons.prems by simp
  then show ?case
    using len piece_text_wf [of p] Cons.prems(1)
    by (simp add: piece_origin_def Let_def bthen_def budget_text_def checked_sub_def)
qed (simp add: bret_def)

lemma created_delta:
  assumes "wf_text t" "bt_root t = Some n" "length (leaves n) \<le> usize_max" "byte_len t \<le> usize_max"
  shows "complete_delta text_default t = Some (Inr \<lparr>dl_replacements = [mk_replacement 0 0 (text_str t)]\<rparr>)"
proof -
  have n: "wf_node n" "pieces_cells (leaves n) = text_cells t" using assms(1,2) by (simp_all add: cells_def)
  have ps: "pieces t usize_max = Some (leaves n)" using assms(2,3) by (simp add: pieces_def collect_pieces_eq)
  have bytes: "str_len (scalars_of (pieces_cells (leaves n))) \<le> usize_max"
    using assms(4) wf_text_counts(2) [OF assms(1)] n(2) by (simp add: text_str_def)
  have ne: "text_str t \<noteq> []" using wf_node_nonempty [OF n(1)] assms(2) by (simp add: text_str_def)
  define full where "full = \<lparr>bg_pieces = usize_max, bg_text_bytes = usize_max, bg_replacements = usize_max\<rparr>"
  define left where "left = full\<lparr>bg_pieces := usize_max - length (leaves n)\<rparr>"
  define rest where "rest = left\<lparr>bg_text_bytes := usize_max - str_len (text_str t)\<rparr>"
  have run: "between_pieces (\<lambda>_. []) (leaves n) \<lparr>bs_replacements = [], bs_cursor = 0, bs_inserted = []\<rparr> left =
    Some (Inr \<lparr>bs_replacements = [], bs_cursor = 0, bs_inserted = text_str t\<rparr>, rest)"
    using created_pieces [of "leaves n" left] bytes leaves_wf [OF n(1)] n(2)
    by (simp add: text_str_def rest_def left_def full_def)
  have base: "between_limited text_default full = Some (Inr [], full)"
    by (simp add: between_limited_def text_default_def pieces_def bthen_def budget_pieces_def checked_sub_def bret_def)
  have view: "between_limited t full = Some (Inr (leaves n), left)"
    using ps assms(3) by (simp add: between_limited_def bthen_def budget_pieces_def checked_sub_def bret_def left_def full_def)
  have fl: "flush 0 \<lparr>bs_replacements = [], bs_cursor = 0, bs_inserted = text_str t\<rparr> rest =
      Some (Inr \<lparr>bs_replacements = [mk_replacement 0 0 (text_str t)], bs_cursor = 0, bs_inserted = []\<rparr>,
        rest\<lparr>bg_replacements := usize_max - 1\<rparr>)"
    using ne by (simp add: flush_def checked_sub_def rest_def left_def full_def usize_max_def)
  have "\<not> shares_root text_default t" "text_len text_default = 0" using assms(2) by (simp_all add: shares_root_def text_default_def text_len_def)
  then have "between text_default t full = Some (Inr \<lparr>dl_replacements = [mk_replacement 0 0 (text_str t)]\<rparr>, rest\<lparr>bg_replacements := usize_max - 1\<rparr>)"
    by (simp add: between_def bthen_def base view run fl bret_def)
  then show ?thesis by (simp add: complete_delta_def full_def [symmetric])
qed

text \<open>
  C25. A checkpoint restores: persisting published buffers and restoring the records succeeds and
  gives back every buffer with its metadata, revision, text and tombstone; only the text of a volatile
  buffer is dropped, and its revision then moves on.
\<close>

theorem checkpoint_restores:
  assumes "states_ok H h c" "\<forall>i s. bf_get c i = Some s \<longrightarrow> st_revision s < usize_max"
  shows "\<exists>ps c' h'. persisted c = Some ps \<and> restore ps h = (kok (c', h') :: ('v, _) kresult) \<and>
    (\<forall>i. contents c' i = map_option restored (contents c i))"
  using checkpoint_round_trip [OF assms] by metis

text \<open>One durable and one volatile buffer, both at revision three.\<close>

definition demo_metadata :: "identity \<Rightarrow> durability \<Rightarrow> buffer_conflict_policy \<Rightarrow> buffer_metadata" where
  "demo_metadata i dur policy = \<lparr>bm_id = i, bm_name = i, bm_durability = dur, bm_conflict = policy\<rparr>"

definition demo_state :: "identity \<Rightarrow> durability \<Rightarrow> buffer_state" where
  "demo_state i dur = \<lparr>st_metadata = demo_metadata i dur Span, st_revision = 3, st_text = demo_text,
     st_deleted = False, st_structure_epoch = 0, st_addr = 0\<rparr>"

definition demo_states :: buffer_states where
  "demo_states = bf_insert (demo_state 2 Volatile) (bf_insert (demo_state 1 Durable) bf_default)"

lemma demo_states_get: "bf_get demo_states = [1 \<mapsto> demo_state 1 Durable, 2 \<mapsto> demo_state 2 Volatile]"
  by (auto simp: demo_states_def bf_insert_def bf_default_def bf_get_def demo_state_def demo_metadata_def Let_def fun_eq_iff)

lemma demo_states_ok: "\<exists>H. states_ok H demo_h demo_states"
proof -
  obtain H where H: "text_ok H demo_h demo_text" using demo_ok by blast
  have "bf_ok demo_states"
    by (auto simp: bf_ok_def demo_states_get) (auto simp: demo_states_def bf_insert_def bf_default_def
        demo_state_def demo_metadata_def Let_def split: if_splits)
  moreover have "state_ok H demo_h (demo_state i dur)" for i dur
    using H by (simp add: state_ok_def demo_state_def text_ok_def)
  ultimately show ?thesis by (auto simp: states_ok_def demo_states_get split: if_splits)
qed

theorem checkpoint_restores_witness:
  "\<exists>ps c' h'. persisted demo_states = Some ps \<and> restore ps demo_h = (kok (c', h') :: (nat, _) kresult) \<and>
     contents c' 1 = Some (demo_metadata 1 Durable Span, 3, [104, 105, 10, 111], False) \<and>
     contents c' 2 = Some (demo_metadata 2 Volatile Span, 4, [], False)"
proof -
  obtain H where "states_ok H demo_h demo_states" using demo_states_ok by blast
  moreover have "\<forall>i s. bf_get demo_states i = Some s \<longrightarrow> st_revision s < usize_max"
    by (auto simp: demo_states_get demo_state_def usize_max_def)
  ultimately obtain ps c' h' where r: "persisted demo_states = Some ps" "restore ps demo_h = (kok (c', h') :: (nat, _) kresult)"
    "\<forall>i. contents c' i = map_option restored (contents demo_states i)"
    using checkpoint_restores [where 'v = nat] by metis
  moreover have "contents demo_states 1 = Some (demo_metadata 1 Durable Span, 3, [104, 105, 10, 111], False)"
    "contents demo_states 2 = Some (demo_metadata 2 Volatile Span, 3, [104, 105, 10, 111], False)"
    by (simp_all add: contents_def demo_states_get content_def demo_state_def demo_facts(2))
  ultimately have "contents c' 1 = Some (demo_metadata 1 Durable Span, 3, [104, 105, 10, 111], False)"
    "contents c' 2 = Some (demo_metadata 2 Volatile Span, 4, [], False)"
    by (simp_all add: restored_def demo_metadata_def)
  with r(1,2) show ?thesis by blast
qed

text \<open>
  C8. Recovery agrees with publication, for durable and volatile buffers alike. If a commit materialises its
  pending writes, then replaying the buffer changes it hands to the provider, on states that recover the
  contents it committed onto, succeeds and recovers the published contents: every buffer the commit
  logged has its published metadata, revision and deletion mark, its text too when it is durable and no
  text when it is volatile, and every other buffer is as it was.
\<close>

theorem replay_rebuilds_commit:
  assumes "materialize_buffers tx current h = (Some (Inr (states', changes, h')) :: ('v, _) kresult)"
    and "states_ok H h (sn_buffers current)" "writes_ok H h (tx_buffer_writes tx) (sn_buffers current)"
    and "states_ok Hc hc c" "recovered (contents c) (contents (sn_buffers current))"
  shows "\<exists>c' h2. replay_all (map persistent_buffer_change changes) c hc = (kok (c', h2) :: ('v, _) kresult) \<and>
    recovered (contents c') (contents states') \<and>
    (\<forall>i. contents c' i =
       (if i \<in> (\<lambda>ch. bm_id (bc_metadata ch)) ` set changes
        then map_option (\<lambda>(m, r, t, d). (m, r, if bm_durability m = Volatile then [] else t, d)) (contents states' i)
        else contents c i))"
proof -
  have m: "replayable_all changes (contents (sn_buffers current))" "contents states' = effects changes (contents (sn_buffers current))"
    using materialize_loop_ok [OF assms(1) [unfolded materialize_buffers_def] assms(2,3)] by auto
  show ?thesis unfolding m(2) using replay_all_ok [OF assms(4,5) m(1), where 'v = 'v] unfolding surviving_def by blast
qed

text \<open>A transaction that creates a durable and a volatile buffer, both holding the demonstration text.\<close>

definition demo_created :: pending_buffer where
  "demo_created = \<lparr>pb_metadata = demo_metadata 1 Durable Span, pb_base = None, pb_text = demo_text, pb_deleted = False,
     pb_touched = True, pb_sealed = False, pb_token = None, pb_compact = False, pb_reverted = False,
     pb_projected_revision = None\<rparr>"

definition demo_scratch :: pending_buffer where
  "demo_scratch = demo_created\<lparr>pb_metadata := demo_metadata 2 Volatile Span\<rparr>"

definition demo_snapshot :: "buffer_states \<Rightarrow> relation_base snapshot" where
  "demo_snapshot c = \<lparr>sn_version = 0, sn_buffers = c, sn_relations = rl_new\<rparr>"

definition demo_txn :: "buffer_writes \<Rightarrow> relation_base txn" where
  "demo_txn ws = \<lparr>tx_base = demo_snapshot bf_default, tx_read_authority = ReadAll, tx_buffer_writes = ws,
     tx_views_cached = False\<rparr>"

lemma demo_leaves: "\<exists>n. bt_root demo_text = Some n \<and> length (leaves n) \<le> usize_max"
proof (cases "bt_root demo_text")
  case None
  then show ?thesis using demo_facts(2) by (simp add: text_str_def)
next
  case (Some n)
  have "length (leaves n) \<le> length (cells n)" if "wf_node n" for n
    using that
  proof (induction n)
    case (Leaf i p)
    then show ?case by (auto simp: wf_piece_def piece_len_def range_len_def)
  qed auto
  then have "length (leaves n) \<le> length (text_str demo_text)" using Some demo_facts(1) by (simp add: text_str_def)
  then show ?thesis using Some by (simp add: demo_facts(2) usize_max_def)
qed

lemma demo_created_delta:
  "complete_delta text_default demo_text = Some (Inr \<lparr>dl_replacements = [mk_replacement 0 0 [104, 105, 10, 111]]\<rparr>)"
proof -
  have "byte_len demo_text \<le> usize_max"
    by (simp add: wf_text_counts(2) [OF demo_facts(1)] demo_facts(2) str_len_def len_utf8_def usize_max_def)
  then show ?thesis using created_delta [OF demo_facts(1)] demo_leaves demo_facts(2) by auto
qed

lemma demo_materialize:
  "\<exists>states' changes h'. materialize_buffers (demo_txn [(1, demo_created)]) (demo_snapshot bf_default) demo_h =
     (Some (Inr (states', changes, h')) :: (nat, _) kresult)"
  by (simp add: materialize_buffers_def demo_txn_def demo_snapshot_def demo_created_def merge_pending_def
      merge_created_def bf_default_def bf_get_def bf_named_def rl_contains_key_def rl_get_def rl_get_named_def rl_new_def
      demo_created_delta lift_delta_def kbind_def kok_def publish_pending_def delta_is_empty_def lift_option_def
      checked_add_def usize_max_def Let_def)

lemma demo_materialize_both:
  "\<exists>states' changes h'. materialize_buffers (demo_txn [(1, demo_created), (2, demo_scratch)]) (demo_snapshot bf_default) demo_h =
     (Some (Inr (states', changes, h')) :: (nat, _) kresult) \<and> map (\<lambda>ch. bm_id (bc_metadata ch)) changes = [1, 2] \<and>
     contents states' 1 = Some (demo_metadata 1 Durable Span, 1, [104, 105, 10, 111], False) \<and>
     contents states' 2 = Some (demo_metadata 2 Volatile Span, 1, [104, 105, 10, 111], False)"
proof -
  let ?s = "\<lambda>i d k. \<lparr>st_metadata = demo_metadata i d Span, st_revision = 1, st_text = demo_text,
      st_deleted = False, st_structure_epoch = 0, st_addr = k\<rparr>"
  let ?c = "bf_insert (?s 2 Volatile (Suc demo_h)) (bf_insert (?s 1 Durable demo_h) bf_default)"
  obtain changes where ch: "materialize_buffers (demo_txn [(1, demo_created), (2, demo_scratch)]) (demo_snapshot bf_default) demo_h =
     (Some (Inr (?c, changes, Suc (Suc demo_h))) :: (nat, _) kresult)" "map (\<lambda>ch. bm_id (bc_metadata ch)) changes = [1, 2]"
    by (simp add: materialize_buffers_def demo_txn_def demo_snapshot_def demo_created_def demo_scratch_def merge_pending_def
        merge_created_def bf_default_def bf_get_def bf_named_def rl_contains_key_def rl_get_def rl_get_named_def rl_new_def
        demo_created_delta lift_delta_def kbind_def kok_def publish_pending_def delta_is_empty_def lift_option_def
        checked_add_def usize_max_def Let_def bf_insert_def demo_metadata_def)
  have one: "bf_ok (bf_insert (?s 1 Durable demo_h) bf_default)"
    by (rule buffers.ok_add [OF bf_ok_default]) (simp add: bf_default_def bf_get_def bf_named_def)
  have c: "contents ?c 1 = Some (demo_metadata 1 Durable Span, 1, [104, 105, 10, 111], False)"
    "contents ?c 2 = Some (demo_metadata 2 Volatile Span, 1, [104, 105, 10, 111], False)"
    unfolding contents_insert [OF one] contents_insert [OF bf_ok_default] by (simp_all add: demo_metadata_def content_def demo_facts(2))
  show ?thesis by (intro exI conjI) (rule ch c)+
qed

theorem replay_rebuilds_commit_witness:
  "\<exists>states' changes h' c' h2.
     materialize_buffers (demo_txn [(1, demo_created), (2, demo_scratch)]) (demo_snapshot bf_default) demo_h =
       (Some (Inr (states', changes, h')) :: (nat, _) kresult) \<and>
     replay_all (map persistent_buffer_change changes) bf_default demo_h = (kok (c', h2) :: (nat, _) kresult) \<and>
     contents states' 2 = Some (demo_metadata 2 Volatile Span, 1, [104, 105, 10, 111], False) \<and>
     contents c' 1 = Some (demo_metadata 1 Durable Span, 1, [104, 105, 10, 111], False) \<and>
     contents c' 2 = Some (demo_metadata 2 Volatile Span, 1, [], False)"
proof -
  obtain states' changes h' where m: "materialize_buffers (demo_txn [(1, demo_created), (2, demo_scratch)]) (demo_snapshot bf_default) demo_h =
      (Some (Inr (states', changes, h')) :: (nat, _) kresult)" "map (\<lambda>ch. bm_id (bc_metadata ch)) changes = [1, 2]"
    "contents states' 1 = Some (demo_metadata 1 Durable Span, 1, [104, 105, 10, 111], False)"
    "contents states' 2 = Some (demo_metadata 2 Volatile Span, 1, [104, 105, 10, 111], False)"
    using demo_materialize_both by (elim exE conjE) (rule that)
  have ids: "(\<lambda>ch. bm_id (bc_metadata ch)) ` set changes = {1, 2}" using arg_cong [OF m(2), of set] by simp
  obtain H where H: "text_ok H demo_h demo_text" using demo_ok by blast
  have empty: "states_ok H demo_h bf_default" by (simp add: states_ok_def) (simp add: bf_default_def bf_get_def)
  have "recovered (contents bf_default) (contents bf_default)"
    by (simp add: recovered_def contents_def bf_default_def bf_get_def)
  then have r: "\<exists>c' h2. replay_all (map persistent_buffer_change changes) bf_default demo_h = (kok (c', h2) :: (nat, _) kresult) \<and>
      recovered (contents c') (contents states') \<and>
      (\<forall>i. contents c' i = (if i \<in> (\<lambda>ch. bm_id (bc_metadata ch)) ` set changes
        then map_option (\<lambda>(m, r, t, d). (m, r, if bm_durability m = Volatile then [] else t, d)) (contents states' i)
        else contents bf_default i))"
    by (intro replay_rebuilds_commit [OF m(1), where H = H and Hc = H])
      (use H empty in \<open>auto simp: demo_snapshot_def demo_txn_def writes_ok_def pending_ok_def demo_created_def demo_scratch_def demo_metadata_def\<close>)
  then obtain c' h2 where c': "replay_all (map persistent_buffer_change changes) bf_default demo_h = (kok (c', h2) :: (nat, _) kresult)"
    "\<And>i. i \<in> {1, 2} \<Longrightarrow> contents c' i = map_option (\<lambda>(m, r, t, d). (m, r, if bm_durability m = Volatile then [] else t, d)) (contents states' i)"
    unfolding ids by auto
  have "contents c' 1 = Some (demo_metadata 1 Durable Span, 1, [104, 105, 10, 111], False)"
    "contents c' 2 = Some (demo_metadata 2 Volatile Span, 1, [], False)"
    using c'(2) [of 1] c'(2) [of 2] m(3,4) by (simp_all add: demo_metadata_def)
  with m(1,4) c'(1) show ?thesis by blast
qed











text \<open>
  The other policies: a write of a \<open>Reject\<close> buffer onto a newer revision fails with the two
  revisions, and a write of a \<open>Whole\<close> buffer publishes the transaction's own text.
\<close>

theorem newer_revision_policies:
  assumes "bf_get states i = Some latest" "st_revision latest \<noteq> st_revision base"
    and "st_structure_epoch latest = st_structure_epoch base"
  shows "(bm_conflict (pb_metadata p) = Reject \<longrightarrow>
      merge_updated i p base states budget h = (kfail i (BufConflict (st_revision base) (st_revision latest)) :: ('v, _) kresult)) \<and>
    (bm_conflict (pb_metadata p) = Whole \<and> \<not> st_deleted latest \<and> \<not> pb_deleted p \<and> \<not> pb_compact p \<and> \<not> pb_reverted p \<and>
       text_ok H h (pb_text p) \<and> text_ok H h (st_text latest) \<longrightarrow>
      (\<exists>d. merge_updated i p base states budget h = (kok ((pb_text p, st_revision latest, d), budget, h) :: ('v, _) kresult) \<and>
         delta_str d (text_str (st_text latest)) = text_str (pb_text p)))"
proof (intro conjI impI)
  assume "bm_conflict (pb_metadata p) = Reject"
  then show "merge_updated i p base states budget h = (kfail i (BufConflict (st_revision base) (st_revision latest)) :: ('v, _) kresult)"
    using assms by (simp add: merge_updated_def lift_option_def kbind_def kok_def)
next
  assume w: "bm_conflict (pb_metadata p) = Whole \<and> \<not> st_deleted latest \<and> \<not> pb_deleted p \<and> \<not> pb_compact p \<and> \<not> pb_reverted p \<and>
       text_ok H h (pb_text p) \<and> text_ok H h (st_text latest)"
  have t: "to_text (pb_text p) = Some (text_str (pb_text p))" using w to_text_wf by (simp add: text_ok_def)
  have len: "text_len (st_text latest) = length (text_str (st_text latest))" using w wf_text_counts(1) by (simp add: text_ok_def)
  obtain d where d: "delta_new [mk_replacement 0 (text_len (st_text latest)) (text_str (pb_text p))] = Inr d"
    using delta_new_succeeds [of "[mk_replacement 0 (text_len (st_text latest)) (text_str (pb_text p))]"] by auto
  then have "merge_updated i p base states budget h = (kok ((pb_text p, st_revision latest, d), budget, h) :: ('v, _) kresult)"
    using assms w t by (simp add: merge_updated_def lift_option_def kbind_def kok_def lift_delta_def)
  with whole_delta(2) [OF d, of "text_str (st_text latest)"] len
  show "\<exists>d. merge_updated i p base states budget h = (kok ((pb_text p, st_revision latest, d), budget, h) :: ('v, _) kresult) \<and>
         delta_str d (text_str (st_text latest)) = text_str (pb_text p)"
    by auto
qed

theorem newer_revision_policies_witness:
  "merge_updated 1 (demo_created\<lparr>pb_metadata := demo_metadata 1 Durable Reject\<rparr>) ((demo_state 1 Durable)\<lparr>st_revision := 2\<rparr>)
     demo_states budget_default demo_h = (kfail 1 (BufConflict 2 3) :: (nat, _) kresult)"
  using newer_revision_policies [of demo_states 1 "demo_state 1 Durable" "(demo_state 1 Durable)\<lparr>st_revision := 2\<rparr>"
      "demo_created\<lparr>pb_metadata := demo_metadata 1 Durable Reject\<rparr>" budget_default demo_h, where 'v = nat]
  by (simp add: demo_states_get demo_state_def demo_metadata_def)

end
