(* ===== verification/BufferClient.thy ===== *)
theory BufferClient
  imports BufferCommit
begin

text \<open>
  Client edits and retained history: \<open>crates/relation-kernel/src/buffer/client.rs\<close> (tagged applies and
  their bounded result table) and \<open>history.rs\<close> (bounded rings of published versions, compaction and
  revert).

  The result table and the history are kernel state behind a lock; operations take and return them,
  also when they fail, because a failed reservation may already have evicted results. The size the
  allocator retains for a delta (\<open>Delta::retained_bytes\<close>, a sum of capacities) is the parameter \<open>sz\<close>.
\<close>

section \<open>The result table\<close>

definition MAX_RESULTS :: nat where "MAX_RESULTS = 1024"
definition MAX_RESULT_BYTES :: nat where "MAX_RESULT_BYTES = 8 * 1024 * 1024"

datatype apply_status = ApplyStaged | ApplyStale

datatype apply_outcome = OutPending | OutOk delta | OutResync | OutConflict | OutAborted

record apply_result =
  ar_token :: nat
  ar_buffer :: identity
  ar_revision :: revision
  ar_outcome :: apply_outcome

record client_results =
  cr_entries :: "(nat, apply_result) omap"
  cr_completed :: "nat list"
  cr_bytes :: nat

definition results_default :: client_results where
  "results_default = \<lparr>cr_entries = [], cr_completed = [], cr_bytes = 0\<rparr>"

definition retained_bytes :: "(delta \<Rightarrow> nat) \<Rightarrow> apply_result \<Rightarrow> nat" where
  "retained_bytes sz result = (case ar_outcome result of OutOk applied \<Rightarrow> sz applied | _ \<Rightarrow> 0)"

text \<open>\<open>None\<close>: the byte count would underflow.\<close>

definition evict_completed :: "(delta \<Rightarrow> nat) \<Rightarrow> client_results \<Rightarrow> (bool \<times> client_results) option" where
  "evict_completed sz c =
     (case cr_completed c of
        [] \<Rightarrow> Some (False, c)
      | token # rest \<Rightarrow>
          let c1 = c\<lparr>cr_completed := rest\<rparr> in
          (case om_get (cr_entries c1) token of
             None \<Rightarrow> Some (True, c1)
           | Some result \<Rightarrow> do {
               bytes \<leftarrow> checked_sub (cr_bytes c1) (retained_bytes sz result);
               Some (True, c1\<lparr>cr_entries := om_remove token (cr_entries c1), cr_bytes := bytes\<rparr>) }))"

lemma evict_shrinks:
  "evict_completed sz c = Some (True, c') \<Longrightarrow> length (cr_completed c') < length (cr_completed c)"
  by (auto simp: evict_completed_def Let_def bind_eq_Some_conv split: list.splits option.splits)

text \<open>The loop of \<open>reserve\<close>: \<open>False\<close> when the table is full of pending results.\<close>

function make_room :: "(delta \<Rightarrow> nat) \<Rightarrow> client_results \<Rightarrow> (bool \<times> client_results) option" where
  "make_room sz c =
     (if length (cr_entries c) \<ge> MAX_RESULTS then
        (case evict_completed sz c of
           None \<Rightarrow> None
         | Some (evicted, c') \<Rightarrow> if \<not> evicted then Some (False, c') else make_room sz c')
      else Some (True, c))"
  by pat_completeness auto
termination
  by (relation "measure (\<lambda>(sz, c). length (cr_completed c))") (auto dest: evict_shrinks)

definition reserve ::
  "(delta \<Rightarrow> nat) \<Rightarrow> nat \<Rightarrow> identity \<Rightarrow> revision \<Rightarrow> client_results \<Rightarrow> (('v kernel_error + unit) \<times> client_results) option" where
  "reserve sz token buffer revision c =
     (if om_contains (cr_entries c) token then Some (Inl (KBuffer buffer BufTokenInUse), c)
      else
        (case make_room sz c of
           None \<Rightarrow> None
         | Some (room, c') \<Rightarrow>
             if \<not> room then Some (Inl (KBuffer buffer BufResultsFull), c')
             else Some (Inr (), c'\<lparr>cr_entries := om_insert token
                    \<lparr>ar_token = token, ar_buffer = buffer, ar_revision = revision, ar_outcome = OutPending\<rparr> (cr_entries c')\<rparr>)))"

function make_bytes :: "(delta \<Rightarrow> nat) \<Rightarrow> nat \<Rightarrow> client_results \<Rightarrow> client_results option" where
  "make_bytes sz bytes c =
     (if cr_bytes c + bytes > MAX_RESULT_BYTES then
        (case evict_completed sz c of
           None \<Rightarrow> None
         | Some (evicted, c') \<Rightarrow> if evicted then make_bytes sz bytes c' else Some c')
      else Some c)"
  by pat_completeness auto
termination
  by (relation "measure (\<lambda>(sz, bytes, c). length (cr_completed c))") (auto dest: evict_shrinks)

declare make_room.simps [simp del] make_bytes.simps [simp del]

definition finish :: "(delta \<Rightarrow> nat) \<Rightarrow> apply_result \<Rightarrow> client_results \<Rightarrow> client_results option" where
  "finish sz result c =
     (let result1 = (if retained_bytes sz result > MAX_RESULT_BYTES then result\<lparr>ar_outcome := OutResync\<rparr> else result);
          bytes = retained_bytes sz result1
      in case make_bytes sz bytes c of
           None \<Rightarrow> None
         | Some c' \<Rightarrow> Some (c'\<lparr>cr_bytes := cr_bytes c' + bytes, cr_completed := cr_completed c' @ [ar_token result1],
                              cr_entries := om_insert (ar_token result1) result1 (cr_entries c')\<rparr>))"

definition buffer_apply_result :: "client_results \<Rightarrow> nat \<Rightarrow> apply_result option" where
  "buffer_apply_result c token = om_get (cr_entries c) token"

section \<open>Tagged applies\<close>

fun apply_edits :: "identity \<Rightarrow> replacement list \<Rightarrow> btext \<Rightarrow> nat \<Rightarrow> ('v, btext \<times> nat) kresult" where
  "apply_edits i [] t h = kok (t, h)"
| "apply_edits i (e # es) t h =
     kbind (lift_text i (replace t (rp_range e) (rp_text e) h)) (\<lambda>(t', h'). apply_edits i es t' h')"

definition already_applied :: "'r txn \<Rightarrow> identity \<Rightarrow> bool" where
  "already_applied tx i \<longleftrightarrow>
     (case om_get (tx_buffer_writes tx) i of None \<Rightarrow> False | Some p \<Rightarrow> pb_touched p \<or> pb_sealed p)"

text \<open>The part before the reservation, and the part after it.\<close>

definition prepare_apply ::
  "identity \<Rightarrow> revision \<Rightarrow> replacement list \<Rightarrow> 'r txn \<Rightarrow> nat \<Rightarrow> ('v, (btext \<times> nat) option) kresult" where
  "prepare_apply i expected edits tx h =
     kbind (buffer_revision_of tx i) (\<lambda>revision.
     if revision \<noteq> expected then kok None
     else if already_applied tx i then kfail i BufAlreadyApplied
     else kbind (buffer_text_of tx i) (\<lambda>t. kbind (apply_edits i edits t h) (\<lambda>out. kok (Some out))))"

definition stage_apply :: "identity \<Rightarrow> btext \<Rightarrow> nat option \<Rightarrow> 'r txn \<Rightarrow> ('v, 'r txn) kresult" where
  "stage_apply i t token tx =
     kbind (buffer_write i tx) (\<lambda>pending.
     kok (invalidate_computed_views (put_pending i (pending\<lparr>pb_text := t, pb_sealed := True, pb_token := token\<rparr>) tx)))"

definition apply_buffer ::
  "(delta \<Rightarrow> nat) \<Rightarrow> identity \<Rightarrow> revision \<Rightarrow> replacement list \<Rightarrow> nat option \<Rightarrow> 'r txn \<Rightarrow> client_results \<Rightarrow> nat \<Rightarrow>
   (('v kernel_error + apply_status \<times> 'r txn \<times> nat) \<times> client_results) option" where
  "apply_buffer sz i expected edits token tx c h =
     (case (prepare_apply i expected edits tx h :: ('v, (btext \<times> nat) option) kresult) of
        None \<Rightarrow> None
      | Some (Inl e) \<Rightarrow> Some (Inl e, c)
      | Some (Inr None) \<Rightarrow> Some (Inr (ApplyStale, tx, h), c)
      | Some (Inr (Some (t, h'))) \<Rightarrow>
          (case (case token of None \<Rightarrow> Some (Inr (), c) | Some n \<Rightarrow> reserve sz n i expected c) of
             None \<Rightarrow> None
           | Some (Inl e, c') \<Rightarrow> Some (Inl e, c')
           | Some (Inr _, c') \<Rightarrow>
               (case stage_apply i t token tx of
                  None \<Rightarrow> None
                | Some (Inl e) \<Rightarrow> Some (Inl e, c')
                | Some (Inr tx') \<Rightarrow> Some (Inr (ApplyStaged, tx', h'), c'))))"

definition has_tagged_buffer_apply :: "'r txn \<Rightarrow> bool" where
  "has_tagged_buffer_apply tx = list_ex (\<lambda>(_, p). pb_token p \<noteq> None) (tx_buffer_writes tx)"

text \<open>The loop of \<open>complete_buffer_applies\<close>; \<open>None\<close> when a sealed buffer has no live published state.\<close>

fun complete_loop ::
  "(delta \<Rightarrow> nat) \<Rightarrow> buffer_writes \<Rightarrow> 'r snapshot \<Rightarrow> delta_budget \<Rightarrow> client_results \<Rightarrow> (buffer_writes \<times> client_results) option" where
  "complete_loop sz [] snapshot budget c = Some ([], c)"
| "complete_loop sz ((i, p) # ws) snapshot budget c =
     (case pb_token p of
        None \<Rightarrow> map_option (\<lambda>(ws', c'). ((i, p) # ws', c')) (complete_loop sz ws snapshot budget c)
      | Some token \<Rightarrow>
          (case (snapshot_buffer snapshot i :: (nat, buffer_state) kresult) of
             Some (Inr state) \<Rightarrow>
               (case between (case pb_base p of None \<Rightarrow> text_default | Some b \<Rightarrow> st_text b) (st_text state) budget of
                  None \<Rightarrow> None
                | Some (r, budget') \<Rightarrow>
                    (case finish sz \<lparr>ar_token = token, ar_buffer = i, ar_revision = st_revision state,
                            ar_outcome = (case r of Inr applied \<Rightarrow> OutOk applied | Inl _ \<Rightarrow> OutResync)\<rparr> c of
                       None \<Rightarrow> None
                     | Some c' \<Rightarrow> map_option (\<lambda>(ws', c''). ((i, p\<lparr>pb_token := None\<rparr>) # ws', c''))
                                  (complete_loop sz ws snapshot budget' c')))
           | _ \<Rightarrow> None))"

definition complete_buffer_applies ::
  "(delta \<Rightarrow> nat) \<Rightarrow> 'r snapshot \<Rightarrow> 'r txn \<Rightarrow> client_results \<Rightarrow> ('r txn \<times> client_results) option" where
  "complete_buffer_applies sz snapshot tx c =
     (if \<not> has_tagged_buffer_apply tx then Some (tx, c)
      else map_option (\<lambda>(ws, c'). (tx\<lparr>tx_buffer_writes := ws\<rparr>, c'))
             (complete_loop sz (tx_buffer_writes tx) snapshot budget_default c))"

text \<open>Finishing every tagged write with one outcome: the loops of \<open>fail_buffer_applies\<close> and \<open>drop\<close>.\<close>

fun finish_all ::
  "(delta \<Rightarrow> nat) \<Rightarrow> apply_outcome \<Rightarrow> (identity \<Rightarrow> pending_buffer \<Rightarrow> revision) \<Rightarrow> buffer_writes \<Rightarrow> client_results \<Rightarrow>
   (buffer_writes \<times> client_results) option" where
  "finish_all sz outcome revision_of [] c = Some ([], c)"
| "finish_all sz outcome revision_of ((i, p) # ws) c =
     (case pb_token p of
        None \<Rightarrow> map_option (\<lambda>(ws', c'). ((i, p) # ws', c')) (finish_all sz outcome revision_of ws c)
      | Some token \<Rightarrow>
          (case finish sz \<lparr>ar_token = token, ar_buffer = i, ar_revision = revision_of i p, ar_outcome = outcome\<rparr> c of
             None \<Rightarrow> None
           | Some c' \<Rightarrow> map_option (\<lambda>(ws', c''). ((i, p\<lparr>pb_token := None\<rparr>) # ws', c''))
                        (finish_all sz outcome revision_of ws c')))"

definition failure_outcome :: "'v kernel_error \<Rightarrow> apply_outcome" where
  "failure_outcome failure =
     (case failure of
        KConflict _ \<Rightarrow> OutConflict
      | KBuffer _ (BufConflict _ _) \<Rightarrow> OutConflict
      | KBuffer _ (BufDelta e) \<Rightarrow>
          if e = DeltaBudgetExceeded \<or> e = DeltaForeignProvenance then OutResync else OutAborted
      | KBuffer _ (BufStructureConflict _ _) \<Rightarrow> OutResync
      | _ \<Rightarrow> OutAborted)"

definition fail_buffer_applies ::
  "(delta \<Rightarrow> nat) \<Rightarrow> 'v kernel_error \<Rightarrow> 'r snapshot \<Rightarrow> 'r txn \<Rightarrow> client_results \<Rightarrow> ('r txn \<times> client_results) option" where
  "fail_buffer_applies sz failure current tx c =
     map_option (\<lambda>(ws, c'). (tx\<lparr>tx_buffer_writes := ws\<rparr>, c'))
       (finish_all sz (failure_outcome failure) (\<lambda>i _. published_revision current i) (tx_buffer_writes tx) c)"

definition drop_transaction :: "(delta \<Rightarrow> nat) \<Rightarrow> 'r txn \<Rightarrow> client_results \<Rightarrow> client_results option" where
  "drop_transaction sz tx c =
     (if \<not> has_tagged_buffer_apply tx then Some c
      else map_option snd (finish_all sz OutAborted
             (\<lambda>_ p. case pb_base p of None \<Rightarrow> 0 | Some b \<Rightarrow> st_revision b) (tx_buffer_writes tx) c))"

end
