(* ===== verification/BufferClientProofs.thy ===== *)
theory BufferClientProofs
  imports BufferClient
begin

text \<open>
  The result table stays bounded and consistent: completed tokens are exactly the entries with a final
  outcome, the byte count is the size they retain, and neither the number of entries nor the bytes
  exceed their limits. Pending entries are never evicted.
\<close>

section \<open>The invariant of the result table\<close>

definition held :: "(delta \<Rightarrow> nat) \<Rightarrow> client_results \<Rightarrow> nat \<Rightarrow> nat" where
  "held sz c t = (case om_get (cr_entries c) t of None \<Rightarrow> 0 | Some r \<Rightarrow> retained_bytes sz r)"

definition results_inv :: "(delta \<Rightarrow> nat) \<Rightarrow> client_results \<Rightarrow> bool" where
  "results_inv sz c \<longleftrightarrow> om_ok (cr_entries c) \<and> distinct (cr_completed c) \<and>
     (\<forall>t \<in> set (cr_completed c). \<exists>r. om_get (cr_entries c) t = Some r \<and> ar_outcome r \<noteq> OutPending) \<and>
     (\<forall>t r. om_get (cr_entries c) t = Some r \<longrightarrow> t \<notin> set (cr_completed c) \<longrightarrow> ar_outcome r = OutPending) \<and>
     cr_bytes c = sum_list (map (held sz c) (cr_completed c))"

definition results_ok :: "(delta \<Rightarrow> nat) \<Rightarrow> client_results \<Rightarrow> bool" where
  "results_ok sz c \<longleftrightarrow> results_inv sz c \<and> length (cr_entries c) \<le> MAX_RESULTS \<and> cr_bytes c \<le> MAX_RESULT_BYTES"

text \<open>Eviction only removes completed results, and never grows anything.\<close>

definition evicts :: "client_results \<Rightarrow> client_results \<Rightarrow> bool" where
  "evicts c c' \<longleftrightarrow> length (cr_entries c') \<le> length (cr_entries c) \<and> cr_bytes c' \<le> cr_bytes c \<and>
     set (cr_completed c') \<subseteq> set (cr_completed c) \<and>
     (\<forall>t. t \<notin> set (cr_completed c) \<longrightarrow> om_get (cr_entries c') t = om_get (cr_entries c) t) \<and>
     (\<forall>t r. om_get (cr_entries c') t = Some r \<longrightarrow> om_get (cr_entries c) t = Some r)"

lemma evicts_refl [simp]: "evicts c c"
  by (simp add: evicts_def)

lemma evictsD:
  assumes "evicts c c'"
  shows "length (cr_entries c') \<le> length (cr_entries c)" "cr_bytes c' \<le> cr_bytes c"
    "t \<in> set (cr_completed c') \<Longrightarrow> t \<in> set (cr_completed c)"
    "t \<notin> set (cr_completed c) \<Longrightarrow> om_get (cr_entries c') t = om_get (cr_entries c) t"
    "om_get (cr_entries c') t = Some r \<Longrightarrow> om_get (cr_entries c) t = Some r"
  using assms unfolding evicts_def by blast+

lemma evicts_trans:
  assumes "evicts c c'" "evicts c' c''"
  shows "evicts c c''"
  unfolding evicts_def
proof (intro conjI allI impI subsetI)
  show "om_get (cr_entries c'') t = om_get (cr_entries c) t" if "t \<notin> set (cr_completed c)" for t
    using evictsD(4) [OF assms(1) that] evictsD(3) [OF assms(1)] that evictsD(4) [OF assms(2), of t] by metis
  show "om_get (cr_entries c) t = Some r" if "om_get (cr_entries c'') t = Some r" for t r
    by (rule evictsD(5) [OF assms(1) evictsD(5) [OF assms(2) that]])
  show "t \<in> set (cr_completed c)" if "t \<in> set (cr_completed c'')" for t
    by (rule evictsD(3) [OF assms(1) evictsD(3) [OF assms(2) that]])
qed (use evictsD(1,2) [OF assms(1)] evictsD(1,2) [OF assms(2)] in linarith)+

text \<open>The invariant for a table whose entries changed at one token only.\<close>

lemma results_invI:
  assumes "om_ok (cr_entries c)" "distinct (cr_completed c)"
    and "\<And>t. t \<in> set (cr_completed c) \<Longrightarrow> \<exists>r. om_get (cr_entries c) t = Some r \<and> ar_outcome r \<noteq> OutPending"
    and "\<And>t r. om_get (cr_entries c) t = Some r \<Longrightarrow> t \<notin> set (cr_completed c) \<Longrightarrow> ar_outcome r = OutPending"
    and "cr_bytes c = sum_list (map (held sz c) (cr_completed c))"
  shows "results_inv sz c"
  using assms unfolding results_inv_def by simp

lemma results_invD:
  assumes "results_inv sz c"
  shows "om_ok (cr_entries c)" "distinct (cr_completed c)"
    "t \<in> set (cr_completed c) \<Longrightarrow> \<exists>r. om_get (cr_entries c) t = Some r \<and> ar_outcome r \<noteq> OutPending"
    "om_get (cr_entries c) t = Some r \<Longrightarrow> t \<notin> set (cr_completed c) \<Longrightarrow> ar_outcome r = OutPending"
    "cr_bytes c = sum_list (map (held sz c) (cr_completed c))"
  using assms unfolding results_inv_def by simp_all

lemma om_remove_length: "om_ok m \<Longrightarrow> om_get m k = Some v \<Longrightarrow> Suc (length (om_remove k m)) = length m"
proof (induction m)
  case (Cons e m)
  obtain l w where e: "e = (l, w)" by (cases e)
  have "om_remove k m = m" if "\<forall>l \<in> fst ` set m. k < l" for k
    using that by (auto simp: om_remove_def filter_id_conv)
  with Cons e show ?case by (cases "k = l") (auto simp: om_remove_def)
qed simp

lemma evict_ok:
  assumes "results_inv sz c" "cr_completed c = t # ts"
  obtains c' where "evict_completed sz c = Some (True, c')" "results_inv sz c'" "evicts c c'"
    "length (cr_entries c') < length (cr_entries c)" "cr_completed c' = ts"
proof -
  have inv: "om_ok (cr_entries c)" "t \<notin> set ts" "distinct ts"
    "\<And>x r. om_get (cr_entries c) x = Some r \<Longrightarrow> x \<noteq> t \<Longrightarrow> x \<notin> set ts \<Longrightarrow> ar_outcome r = OutPending"
    "cr_bytes c = held sz c t + sum_list (map (held sz c) ts)"
    using assms by (auto simp: results_inv_def)
  obtain r where r: "om_get (cr_entries c) t = Some r" using assms by (auto simp: results_inv_def)
  have final: "\<exists>q. om_get (cr_entries c) x = Some q \<and> ar_outcome q \<noteq> OutPending" if "x \<in> set ts" for x
    using assms that by (auto simp: results_inv_def)
  let ?c = "c\<lparr>cr_completed := ts, cr_entries := om_remove t (cr_entries c), cr_bytes := cr_bytes c - retained_bytes sz r\<rparr>"
  have "retained_bytes sz r \<le> cr_bytes c" using inv(5) r by (simp add: held_def)
  then have run: "evict_completed sz c = Some (True, ?c)"
    using assms(2) r by (simp add: evict_completed_def Let_def checked_sub_def)
  have "held sz ?c x = held sz c x" if "x \<in> set ts" for x
    using that inv(2) by (auto simp: held_def)
  then have same: "map (held sz ?c) ts = map (held sz c) ts" by (intro map_cong) simp_all
  have "held sz c t = retained_bytes sz r" using r by (simp add: held_def)
  then have "cr_bytes ?c = sum_list (map (held sz c) ts)" using inv(5) by simp
  then have "cr_bytes ?c = sum_list (map (held sz ?c) ts)" by (simp only: same)
  then have "results_inv sz ?c"
    using inv final by (auto simp: results_inv_def)
  moreover have "evicts c ?c"
    using om_remove_length [OF inv(1) r] assms(2) by (auto simp: evicts_def split: if_splits)
  moreover have "length (cr_entries ?c) < length (cr_entries c)" using om_remove_length [OF inv(1) r] by simp
  ultimately show thesis using that [OF run] by simp
qed

lemma make_room_ok:
  assumes "results_inv sz c"
  shows "\<exists>room c'. make_room sz c = Some (room, c') \<and> results_inv sz c' \<and> evicts c c' \<and>
    (if room then length (cr_entries c') < MAX_RESULTS else cr_completed c' = [] \<and> MAX_RESULTS \<le> length (cr_entries c'))"
  using assms
proof (induction "length (cr_completed c)" arbitrary: c rule: less_induct)
  case less
  show ?case
  proof (cases "MAX_RESULTS \<le> length (cr_entries c)")
    case True
    show ?thesis
    proof (cases "cr_completed c")
      case Nil
      then have "make_room sz c = Some (False, c)"
        using True by (subst make_room.simps) (simp add: evict_completed_def)
      then show ?thesis using less.prems True Nil by auto
    next
      case (Cons t ts)
      obtain c1 where e: "evict_completed sz c = Some (True, c1)" "results_inv sz c1" "evicts c c1" "cr_completed c1 = ts"
        by (rule evict_ok [OF less.prems Cons]) (rule that)
      have "make_room sz c = make_room sz c1" using True e(1) by (subst make_room.simps) simp
      moreover have "length (cr_completed c1) < length (cr_completed c)" using e(4) Cons by simp
      from less.hyps [OF this e(2)] obtain room c' where "make_room sz c1 = Some (room, c')" "results_inv sz c'" "evicts c1 c'"
        "if room then length (cr_entries c') < MAX_RESULTS else cr_completed c' = [] \<and> MAX_RESULTS \<le> length (cr_entries c')"
        by blast
      ultimately show ?thesis using evicts_trans [OF e(3)] by auto
    qed
  next
    case False
    then show ?thesis using less.prems by (subst make_room.simps) auto
  qed
qed

lemma make_bytes_ok:
  assumes "results_inv sz c" "n \<le> MAX_RESULT_BYTES"
  shows "\<exists>c'. make_bytes sz n c = Some c' \<and> results_inv sz c' \<and> evicts c c' \<and> cr_bytes c' + n \<le> MAX_RESULT_BYTES"
  using assms
proof (induction "length (cr_completed c)" arbitrary: c rule: less_induct)
  case less
  show ?case
  proof (cases "cr_bytes c + n > MAX_RESULT_BYTES")
    case True
    show ?thesis
    proof (cases "cr_completed c")
      case Nil
      then have "cr_bytes c = 0" using less.prems(1) by (simp add: results_inv_def)
      with True less.prems(2) show ?thesis by simp
    next
      case (Cons t ts)
      obtain c1 where e: "evict_completed sz c = Some (True, c1)" "results_inv sz c1" "evicts c c1" "cr_completed c1 = ts"
        by (rule evict_ok [OF less.prems(1) Cons]) (rule that)
      have "make_bytes sz n c = make_bytes sz n c1" using True e(1) by (subst make_bytes.simps) simp
      moreover have "length (cr_completed c1) < length (cr_completed c)" using e(4) Cons by simp
      from less.hyps [OF this e(2) less.prems(2)] obtain c' where "make_bytes sz n c1 = Some c'" "results_inv sz c'" "evicts c1 c'"
        "cr_bytes c' + n \<le> MAX_RESULT_BYTES" by blast
      ultimately show ?thesis using evicts_trans [OF e(3)] by auto
    qed
  next
    case False
    then show ?thesis using less.prems by (subst make_bytes.simps) auto
  qed
qed

text \<open>Away from one token, entries were only evicted, and only completed ones.\<close>

definition elsewhere :: "nat \<Rightarrow> client_results \<Rightarrow> client_results \<Rightarrow> bool" where
  "elsewhere token c c' \<longleftrightarrow>
     (\<forall>t. t \<noteq> token \<longrightarrow> t \<notin> set (cr_completed c) \<longrightarrow> om_get (cr_entries c') t = om_get (cr_entries c) t) \<and>
     (\<forall>t r. t \<noteq> token \<longrightarrow> om_get (cr_entries c') t = Some r \<longrightarrow> om_get (cr_entries c) t = Some r)"

lemma elsewhere_refl [simp]: "elsewhere token c c"
  by (simp add: elsewhere_def)

lemma elsewhere_evicts:
  assumes "evicts c c1" "\<And>t. t \<noteq> token \<Longrightarrow> om_get (cr_entries c2) t = om_get (cr_entries c1) t"
  shows "elsewhere token c c2"
  using evictsD(4,5) [OF assms(1)] assms(2) unfolding elsewhere_def by metis

lemma reserve_ok:
  assumes "results_ok sz c"
  shows "\<exists>(r :: 'v kernel_error + unit) c'. reserve sz token buffer revision c = Some (r, c') \<and> results_ok sz c' \<and>
    (case r of
       Inl e \<Rightarrow> e = KBuffer buffer (if om_contains (cr_entries c) token then BufTokenInUse else BufResultsFull) \<and>
         om_get (cr_entries c') token = om_get (cr_entries c) token
     | Inr _ \<Rightarrow> \<not> om_contains (cr_entries c) token \<and>
         om_get (cr_entries c') token = Some \<lparr>ar_token = token, ar_buffer = buffer, ar_revision = revision, ar_outcome = OutPending\<rparr>) \<and>
    elsewhere token c c'"
proof (cases "om_contains (cr_entries c) token")
  case True
  then show ?thesis using assms by (simp add: reserve_def)
next
  case False
  have inv: "results_inv sz c" using assms by (simp add: results_ok_def)
  obtain room c1 where m: "make_room sz c = Some (room, c1)" "results_inv sz c1" "evicts c c1"
    "if room then length (cr_entries c1) < MAX_RESULTS else cr_completed c1 = [] \<and> MAX_RESULTS \<le> length (cr_entries c1)"
    using make_room_ok [OF inv] by blast
  have tok: "token \<notin> set (cr_completed c)" using False inv by (auto simp: results_inv_def om_contains_def)
  have ok1: "results_ok sz c1" using m(2) evictsD(1,2) [OF m(3)] assms by (simp add: results_ok_def)
  have none: "om_get (cr_entries c1) token = None" using evictsD(4) [OF m(3) tok] False by (simp add: om_contains_def)
  have notin: "token \<notin> set (cr_completed c1)" using evictsD(3) [OF m(3)] tok by blast
  show ?thesis
  proof (cases room)
    case True
    let ?r = "\<lparr>ar_token = token, ar_buffer = buffer, ar_revision = revision, ar_outcome = OutPending\<rparr>"
    let ?c = "c1\<lparr>cr_entries := om_insert token ?r (cr_entries c1)\<rparr>"
    have om: "om_ok (cr_entries c1)" using m(2) by (simp add: results_inv_def)
    have same: "sum_list (map (held sz ?c) (cr_completed c1)) = sum_list (map (held sz c1) (cr_completed c1))"
      using notin om by (intro arg_cong [of _ _ sum_list] map_cong refl) (auto simp: held_def)
    have "results_inv sz ?c"
    proof (rule results_invI)
      show "\<exists>q. om_get (cr_entries ?c) t = Some q \<and> ar_outcome q \<noteq> OutPending" if "t \<in> set (cr_completed ?c)" for t
        using results_invD(3) [OF m(2), of t] that notin om by (cases "t = token") auto
      show "ar_outcome q = OutPending" if "om_get (cr_entries ?c) t = Some q" "t \<notin> set (cr_completed ?c)" for t q
        using results_invD(4) [OF m(2), of t q] that om by (cases "t = token") auto
    qed (use om results_invD(2,5) [OF m(2)] same in simp_all)
    then have "results_ok sz ?c" using ok1 True m(4) none om by (simp add: results_ok_def om_length_insert)
    moreover have "reserve sz token buffer revision c = Some (Inr () :: 'v kernel_error + unit, ?c)" using False m(1) True by (simp add: reserve_def)
    moreover have "elsewhere token c ?c" by (rule elsewhere_evicts [OF m(3)]) (use om in simp)
    ultimately show ?thesis using False om by auto
  next
    case room: False
    then have "reserve sz token buffer revision c = Some (Inl (KBuffer buffer BufResultsFull) :: 'v kernel_error + unit, c1)"
      using False m(1) by (simp add: reserve_def)
    then show ?thesis using ok1 False none elsewhere_evicts [OF m(3), of token c1] by (simp add: om_contains_def)
  qed
qed

lemma finish_ok:
  assumes "results_ok sz c" "om_get (cr_entries c) (ar_token result) = Some p" "ar_outcome p = OutPending"
    and "ar_outcome result \<noteq> OutPending"
  shows "\<exists>c'. finish sz result c = Some c' \<and> results_ok sz c' \<and>
    om_get (cr_entries c') (ar_token result) =
      Some (if retained_bytes sz result > MAX_RESULT_BYTES then result\<lparr>ar_outcome := OutResync\<rparr> else result) \<and>
    elsewhere (ar_token result) c c'"
proof -
  let ?t = "ar_token result"
  define r1 where "r1 = (if retained_bytes sz result > MAX_RESULT_BYTES then result\<lparr>ar_outcome := OutResync\<rparr> else result)"
  have r1: "ar_token r1 = ?t" "ar_outcome r1 \<noteq> OutPending" "retained_bytes sz r1 \<le> MAX_RESULT_BYTES"
    using assms(4) by (auto simp: r1_def retained_bytes_def)
  have inv: "results_inv sz c" using assms(1) by (simp add: results_ok_def)
  have tok: "?t \<notin> set (cr_completed c)" using inv assms(2,3) by (auto simp: results_inv_def)
  obtain c1 where m: "make_bytes sz (retained_bytes sz r1) c = Some c1" "results_inv sz c1" "evicts c c1"
    "cr_bytes c1 + retained_bytes sz r1 \<le> MAX_RESULT_BYTES"
    using make_bytes_ok [OF inv r1(3)] by blast
  have some: "om_get (cr_entries c1) ?t = Some p" using evictsD(4) [OF m(3) tok] assms(2) by simp
  have notin: "?t \<notin> set (cr_completed c1)" using evictsD(3) [OF m(3)] tok by blast
  have om: "om_ok (cr_entries c1)" using m(2) by (simp add: results_inv_def)
  let ?c = "c1\<lparr>cr_bytes := cr_bytes c1 + retained_bytes sz r1, cr_completed := cr_completed c1 @ [?t],
      cr_entries := om_insert ?t r1 (cr_entries c1)\<rparr>"
  have run: "finish sz result c = Some ?c"
    using m(1) r1(1) by (simp add: finish_def Let_def r1_def [symmetric])
  have same: "sum_list (map (held sz ?c) (cr_completed c1)) = sum_list (map (held sz c1) (cr_completed c1))"
    using notin om by (intro arg_cong [of _ _ sum_list] map_cong refl) (auto simp: held_def)
  have this_held: "held sz ?c ?t = retained_bytes sz r1" using om by (simp add: held_def)
  have "cr_bytes ?c = sum_list (map (held sz ?c) (cr_completed ?c))"
    using results_invD(5) [OF m(2)] this_held same by simp
  then have "results_inv sz ?c"
  proof (rule results_invI [rotated 4])
    show "\<exists>q. om_get (cr_entries ?c) t = Some q \<and> ar_outcome q \<noteq> OutPending" if "t \<in> set (cr_completed ?c)" for t
      using results_invD(3) [OF m(2), of t] that notin om r1(2) by (cases "t = ?t") auto
    show "ar_outcome q = OutPending" if "om_get (cr_entries ?c) t = Some q" "t \<notin> set (cr_completed ?c)" for t q
      using results_invD(4) [OF m(2), of t q] that om by (cases "t = ?t") auto
  qed (use om results_invD(2) [OF m(2)] notin in simp_all)
  moreover have "length (cr_entries ?c) \<le> MAX_RESULTS"
    using om some evictsD(1) [OF m(3)] assms(1) by (simp add: om_length_insert results_ok_def)
  ultimately have "results_ok sz ?c" using m(4) by (simp add: results_ok_def)
  moreover have "elsewhere ?t c ?c" by (rule elsewhere_evicts [OF m(3)]) (use om in simp)
  ultimately show ?thesis using run om by (auto simp: r1_def [symmetric])
qed

end
