(* ===== verification/BufferHistory.thy ===== *)
theory BufferHistory
  imports BufferClient
begin

text \<open>
  The bounded history of published buffer versions, compaction and revert:
  \<open>crates/relation-kernel/src/buffer/history.rs\<close>. The rings are kept in a hash map; the only iteration
  over it takes a least recently touched ring, and the touch counters of different rings are
  different until the counter saturates, so the order of iteration does not matter. Comparing two
  \<open>Arc<BufferState>\<close> pointers compares their addresses.
\<close>

section \<open>Rings of versions\<close>

definition HISTORY_DEPTH :: nat where "HISTORY_DEPTH = 32"
definition HISTORY_BUFFERS :: nat where "HISTORY_BUFFERS = 256"

record ring =
  rg_versions :: "buffer_state list"
  rg_touched :: nat

record buffer_history =
  bh_rings :: "(identity, ring) omap"
  bh_clock :: nat

definition history_default :: buffer_history where
  "history_default = \<lparr>bh_rings = [], bh_clock = 0\<rparr>"

text \<open>\<open>Iterator::min_by_key\<close>: the first entry with the least key.\<close>

fun oldest_ring :: "(identity, ring) omap \<Rightarrow> (identity \<times> nat) option" where
  "oldest_ring [] = None"
| "oldest_ring ((i, r) # rs) =
     (case oldest_ring rs of
        Some (j, n) \<Rightarrow> if rg_touched r \<le> n then Some (i, rg_touched r) else Some (j, n)
      | None \<Rightarrow> Some (i, rg_touched r))"

definition superseded :: "buffer_state \<Rightarrow> buffer_state list \<Rightarrow> buffer_state list" where
  "superseded state versions =
     (if versions \<noteq> [] \<and> st_revision (last versions) = st_revision state then butlast versions else versions)"

definition push_version :: "buffer_state \<Rightarrow> buffer_state list \<Rightarrow> buffer_state list" where
  "push_version state versions =
     (let pushed = superseded state versions @ [state]
      in if length pushed > HISTORY_DEPTH then tl pushed else pushed)"

text \<open>\<open>None\<close>: the map is full and has no oldest ring, which cannot happen.\<close>

definition make_ring_room :: "identity \<Rightarrow> (identity, ring) omap \<Rightarrow> (identity, ring) omap option" where
  "make_ring_room i rings =
     (if \<not> om_contains rings i \<and> length rings \<ge> HISTORY_BUFFERS
      then map_option (\<lambda>(oldest, _). om_remove oldest rings) (oldest_ring rings)
      else Some rings)"

definition record_version :: "buffer_state \<Rightarrow> buffer_history \<Rightarrow> buffer_history option" where
  "record_version state hist =
     (let i = bm_id (st_metadata state) in
      if st_deleted state then Some (hist\<lparr>bh_rings := om_remove i (bh_rings hist)\<rparr>)
      else do {
        rings \<leftarrow> make_ring_room i (bh_rings hist);
        let clock = saturating_add (bh_clock hist) 1;
        let versions = (case om_get rings i of None \<Rightarrow> [] | Some r \<Rightarrow> rg_versions r);
        Some (hist\<lparr>bh_clock := clock,
          bh_rings := om_insert i \<lparr>rg_versions = push_version state versions, rg_touched = clock\<rparr> rings\<rparr>) })"

definition lookup_version :: "buffer_history \<Rightarrow> identity \<Rightarrow> revision \<Rightarrow> buffer_state option" where
  "lookup_version hist i revision = do {
     r \<leftarrow> om_get (bh_rings hist) i;
     find (\<lambda>state. st_revision state = revision) (rg_versions r) }"

section \<open>Publication\<close>

text \<open>
  The published snapshot is one atomic cell: \<open>try_publish\<close> replaces it when its version is the
  expected one.
\<close>

definition try_publish :: "version \<Rightarrow> 'r snapshot \<Rightarrow> 'r snapshot \<Rightarrow> bool \<times> 'r snapshot" where
  "try_publish expected newer root =
     (if sn_version root \<noteq> expected then (False, root) else (True, newer))"

fun record_changed :: "'r snapshot \<Rightarrow> 'r snapshot \<Rightarrow> identity list \<Rightarrow> buffer_history \<Rightarrow> buffer_history option" where
  "record_changed prior newer [] hist = Some hist"
| "record_changed prior newer (i # is) hist =
     (let b = bf_get (sn_buffers prior) i; a = bf_get (sn_buffers newer) i in
      if (case (b, a) of (Some x, Some y) \<Rightarrow> st_addr x = st_addr y | _ \<Rightarrow> False)
      then record_changed prior newer is hist
      else do {
        hist1 \<leftarrow> (case b of None \<Rightarrow> Some hist | Some previous \<Rightarrow> record_version previous hist);
        hist2 \<leftarrow> (case a of None \<Rightarrow> Some hist1 | Some current \<Rightarrow> record_version current hist1);
        record_changed prior newer is hist2 })"

definition try_publish_with_buffer_history ::
  "'r snapshot \<Rightarrow> 'r snapshot \<Rightarrow> identity list \<Rightarrow> 'r snapshot \<Rightarrow> buffer_history \<Rightarrow> (bool \<times> 'r snapshot \<times> buffer_history) option" where
  "try_publish_with_buffer_history prior newer is root hist =
     (let (published, root') = try_publish (sn_version prior) newer root in
      if is = [] \<or> \<not> published then Some (published, root', hist)
      else map_option (\<lambda>hist'. (True, root', hist')) (record_changed prior newer is hist))"

section \<open>Compaction and revert\<close>

datatype buffer_revert_status = RevertStaged | RevertStale | RevertUnknown

definition compact_buffer :: "identity \<Rightarrow> 'r txn \<Rightarrow> nat \<Rightarrow> ('v, 'r txn \<times> nat) kresult" where
  "compact_buffer i tx h =
     kbind (buffer_metadata_of tx i) (\<lambda>_.
     if bf_get (sn_buffers (tx_base tx)) i = None then kok (tx, h)
     else if already_applied tx i then kfail i BufAlreadyApplied
     else
       kbind (buffer_text_of tx i) (\<lambda>view.
       case Option.bind (to_text view) (\<lambda>s. from_text s h) of
         None \<Rightarrow> None
       | Some (t, h') \<Rightarrow>
           kbind (buffer_write i tx) (\<lambda>pending.
           kok (invalidate_computed_views
             (put_pending i (pending\<lparr>pb_text := t, pb_compact := True, pb_sealed := True\<rparr>) tx), h'))))"

definition revert_buffer ::
  "identity \<Rightarrow> revision \<Rightarrow> revision \<Rightarrow> buffer_history \<Rightarrow> 'r txn \<Rightarrow> nat \<Rightarrow>
   ('v, buffer_revert_status \<times> 'r txn \<times> nat) kresult" where
  "revert_buffer i revision expected hist tx h =
     kbind (buffer_revision_of tx i) (\<lambda>current.
     if expected \<noteq> current then kok (RevertStale, tx, h)
     else if revision > current then kok (RevertUnknown, tx, h)
     else if revision = current then kok (RevertStaged, tx, h)
     else if already_applied tx i then kfail i BufAlreadyApplied
     else case lookup_version hist i revision of
       None \<Rightarrow> kok (RevertUnknown, tx, h)
     | Some historical \<Rightarrow>
         (case Option.bind (to_text (st_text historical)) (\<lambda>s. from_text s h) of
            None \<Rightarrow> None
          | Some (t, h') \<Rightarrow>
              kbind (buffer_write i tx) (\<lambda>pending.
              kok (RevertStaged, invalidate_computed_views
                (put_pending i (pending\<lparr>pb_text := t, pb_reverted := True, pb_sealed := True\<rparr>) tx), h'))))"

section \<open>The invariant of the history\<close>

definition ascending :: "buffer_state list \<Rightarrow> bool" where
  "ascending vs \<longleftrightarrow> sorted_wrt (\<lambda>a b. st_revision a < st_revision b) vs"

definition ring_ok :: "identity \<Rightarrow> ring \<Rightarrow> bool" where
  "ring_ok i r \<longleftrightarrow> rg_versions r \<noteq> [] \<and> length (rg_versions r) \<le> HISTORY_DEPTH \<and> ascending (rg_versions r) \<and>
     (\<forall>s \<in> set (rg_versions r). bm_id (st_metadata s) = i \<and> \<not> st_deleted s)"

definition history_ok :: "buffer_history \<Rightarrow> bool" where
  "history_ok hist \<longleftrightarrow> om_ok (bh_rings hist) \<and> length (bh_rings hist) \<le> HISTORY_BUFFERS \<and>
     (\<forall>(i, r) \<in> set (bh_rings hist). ring_ok i r)"

text \<open>The newest retained version of every ring is the published one.\<close>

definition tracks :: "buffer_history \<Rightarrow> (identity \<Rightarrow> buffer_state option) \<Rightarrow> bool" where
  "tracks hist published \<longleftrightarrow>
     (\<forall>i r. om_get (bh_rings hist) i = Some r \<longrightarrow>
        (\<exists>s. published i = Some s \<and> st_revision (last (rg_versions r)) = st_revision s \<and> \<not> st_deleted s))"

text \<open>
  One catalogue after another: buffers stay, revisions do not decrease, a deletion is final, and a
  state that is not the old one has a newly allocated address.
\<close>

definition advances :: "nat \<Rightarrow> buffer_states \<Rightarrow> buffer_states \<Rightarrow> bool" where
  "advances h old new \<longleftrightarrow>
     (\<forall>i s. bf_get old i = Some s \<longrightarrow>
        (\<exists>s'. bf_get new i = Some s' \<and> st_metadata s' = st_metadata s \<and> st_revision s \<le> st_revision s' \<and>
           (st_deleted s \<longrightarrow> st_deleted s') \<and> (s' = s \<or> h \<le> st_addr s')))"

definition addressed :: "nat \<Rightarrow> buffer_states \<Rightarrow> bool" where
  "addressed h c \<longleftrightarrow> (\<forall>i s. bf_get c i = Some s \<longrightarrow> st_addr s < h)"

lemma oldest_ring_Some: "rings \<noteq> [] \<Longrightarrow> \<exists>i n r. oldest_ring rings = Some (i, n) \<and> (i, r) \<in> set rings \<and> rg_touched r = n"
  by (induction rings rule: oldest_ring.induct) (fastforce split: option.splits)+

lemma oldest_ring_least:
  "oldest_ring rings = Some (i, n) \<Longrightarrow> (j, r) \<in> set rings \<Longrightarrow> n \<le> rg_touched r"
proof (induction rings arbitrary: i n rule: oldest_ring.induct)
  case (2 k q rs)
  show ?case
  proof (cases "rs = []")
    case False
    then obtain l m where "oldest_ring rs = Some (l, m)" using oldest_ring_Some by blast
    with "2.IH" [OF this] "2.prems" show ?thesis by (auto split: if_splits)
  qed (use "2.prems" in simp)
qed simp

lemma om_remove_sub: "set (om_remove k m) \<subseteq> set m"
  by (auto simp: om_remove_def)

lemma om_remove_shorter:
  assumes "om_get m k = Some v"
  shows "length (om_remove k m) < length m"
  using assms by (auto simp: om_remove_def om_get_def intro!: length_filter_less dest: map_of_SomeD)

lemma om_insert_set: "set (om_insert k v m) \<subseteq> insert (k, v) (set m)"
  by (induction k v m rule: om_insert.induct) auto

lemma make_ring_room_ok:
  assumes "om_ok rings" "length rings \<le> HISTORY_BUFFERS"
  obtains rings' where "make_ring_room i rings = Some rings'" "om_ok rings'" "set rings' \<subseteq> set rings"
    "om_get rings' i = om_get rings i" "om_contains rings' i \<or> length rings' < HISTORY_BUFFERS"
    "length rings' \<le> HISTORY_BUFFERS"
proof (cases "\<not> om_contains rings i \<and> length rings \<ge> HISTORY_BUFFERS")
  case True
  then have "rings \<noteq> []" by (auto simp: HISTORY_BUFFERS_def)
  then obtain o' n r where old: "oldest_ring rings = Some (o', n)" "(o', r) \<in> set rings"
    using oldest_ring_Some by blast
  then have got: "om_get rings o' = Some r" using assms(1) by (simp add: om_get_mem)
  then have "o' \<noteq> i" using True by (auto simp: om_contains_def)
  moreover have "length (om_remove o' rings) < length rings" by (rule om_remove_shorter [OF got])
  ultimately show thesis
    using that [of "om_remove o' rings"] True old(1) assms om_remove_sub [of o' rings]
    by (simp add: make_ring_room_def)
next
  case False
  then show thesis using that [of rings] assms by (auto simp: make_ring_room_def)
qed

lemma superseded_set: "set (superseded s vs) \<subseteq> set vs"
  by (auto simp: superseded_def dest: in_set_butlastD)

lemma superseded_ascending:
  assumes "ascending vs" "\<forall>v \<in> set vs. st_revision v \<le> st_revision s"
  shows "ascending (superseded s vs @ [s])"
proof (cases vs rule: rev_cases)
  case (snoc us u)
  then show ?thesis using assms by (fastforce simp: superseded_def ascending_def sorted_wrt_append)
qed (simp add: superseded_def ascending_def)

lemma push_version_cases:
  obtains (kept) "push_version s vs = superseded s vs @ [s]"
  | (dropped) u us where "superseded s vs = u # us" "push_version s vs = us @ [s]"
proof (cases "length (superseded s vs @ [s]) > HISTORY_DEPTH")
  case True
  then obtain u us where "superseded s vs = u # us" by (cases "superseded s vs") (auto simp: HISTORY_DEPTH_def)
  with True show thesis using dropped by (simp add: push_version_def Let_def)
next
  case False
  then show thesis using kept by (simp add: push_version_def Let_def)
qed

lemma ascending_push:
  assumes "ascending vs" "\<forall>v \<in> set vs. st_revision v \<le> st_revision s"
  shows "ascending (push_version s vs)"
  by (rule push_version_cases [of s vs]) (use superseded_ascending [OF assms] in \<open>auto simp: ascending_def\<close>)

lemma push_version_last: "push_version s vs \<noteq> [] \<and> last (push_version s vs) = s"
  by (rule push_version_cases [of s vs]) simp_all

lemma push_version_set: "set (push_version s vs) \<subseteq> insert s (set vs)"
  by (rule push_version_cases [of s vs]) (use superseded_set [of s vs] in auto)

lemma push_version_length: "length vs \<le> HISTORY_DEPTH \<Longrightarrow> length (push_version s vs) \<le> HISTORY_DEPTH"
  by (auto simp: push_version_def superseded_def Let_def)

text \<open>While there is room, only a version with the same revision is replaced.\<close>

lemma push_version_keeps:
  assumes "v \<in> set vs" "st_revision v \<noteq> st_revision s" "length vs < HISTORY_DEPTH"
  shows "v \<in> set (push_version s vs)"
proof -
  have "v \<in> set (superseded s vs)"
    using assms(1,2) by (cases vs rule: rev_cases) (auto simp: superseded_def)
  then show ?thesis using assms(3) by (auto simp: push_version_def superseded_def Let_def split: if_splits)
qed

lemma record_version_ok:
  assumes "history_ok hist"
    and "\<And>r v. om_get (bh_rings hist) (bm_id (st_metadata s)) = Some r \<Longrightarrow> v \<in> set (rg_versions r) \<Longrightarrow>
      st_revision v \<le> st_revision s"
  obtains hist' where "record_version s hist = Some hist'" "history_ok hist'"
    "st_deleted s \<Longrightarrow> om_get (bh_rings hist') (bm_id (st_metadata s)) = None"
    "\<not> st_deleted s \<Longrightarrow> \<exists>r. om_get (bh_rings hist') (bm_id (st_metadata s)) = Some r \<and>
       rg_versions r = push_version s (case om_get (bh_rings hist) (bm_id (st_metadata s)) of None \<Rightarrow> [] | Some q \<Rightarrow> rg_versions q)"
    "\<And>j r. j \<noteq> bm_id (st_metadata s) \<Longrightarrow> om_get (bh_rings hist') j = Some r \<Longrightarrow> om_get (bh_rings hist) j = Some r"
proof (cases "st_deleted s")
  case True
  let ?i = "bm_id (st_metadata s)"
  have "length (om_remove ?i (bh_rings hist)) \<le> length (bh_rings hist)" by (simp add: om_remove_def)
  then have "history_ok (hist\<lparr>bh_rings := om_remove ?i (bh_rings hist)\<rparr>)"
    using assms(1) om_remove_sub [of ?i "bh_rings hist"] by (auto simp: history_ok_def)
  then show thesis using that [of "hist\<lparr>bh_rings := om_remove ?i (bh_rings hist)\<rparr>"] True
    by (simp add: record_version_def Let_def)
next
  case False
  let ?i = "bm_id (st_metadata s)"
  have h: "om_ok (bh_rings hist)" "length (bh_rings hist) \<le> HISTORY_BUFFERS"
    "\<And>i r. (i, r) \<in> set (bh_rings hist) \<Longrightarrow> ring_ok i r"
    using assms(1) by (auto simp: history_ok_def)
  obtain rings where m: "make_ring_room ?i (bh_rings hist) = Some rings" "om_ok rings" "set rings \<subseteq> set (bh_rings hist)"
    "om_get rings ?i = om_get (bh_rings hist) ?i" "om_contains rings ?i \<or> length rings < HISTORY_BUFFERS"
    "length rings \<le> HISTORY_BUFFERS"
    by (rule make_ring_room_ok [OF h(1,2)]) (rule that)
  let ?clock = "saturating_add (bh_clock hist) 1"
  let ?vs = "case om_get rings ?i of None \<Rightarrow> [] | Some r \<Rightarrow> rg_versions r"
  let ?r = "\<lparr>rg_versions = push_version s ?vs, rg_touched = ?clock\<rparr>"
  let ?hist = "hist\<lparr>bh_clock := ?clock, bh_rings := om_insert ?i ?r rings\<rparr>"
  have run: "record_version s hist = Some ?hist" using False m(1) by (simp add: record_version_def Let_def)
  have old: "ascending ?vs \<and> length ?vs \<le> HISTORY_DEPTH \<and> (\<forall>v \<in> set ?vs. bm_id (st_metadata v) = ?i \<and> \<not> st_deleted v \<and> st_revision v \<le> st_revision s)"
  proof (cases "om_get rings ?i")
    case (Some r)
    then have "ring_ok ?i r" using m(2,3) h(3) by (auto simp: om_get_mem)
    then show ?thesis using Some assms(2) [of r] m(4) by (auto simp: ring_ok_def)
  qed (simp add: ascending_def)
  have "ring_ok ?i ?r"
    using old ascending_push [of ?vs s] push_version_last [of s ?vs] push_version_set [of s ?vs] push_version_length [of ?vs s] False
    by (auto simp: ring_ok_def)
  then have rings: "\<forall>(j, q) \<in> set (om_insert ?i ?r rings). ring_ok j q"
    using om_insert_set [of ?i ?r rings] m(3) h(3) by blast
  have "length (om_insert ?i ?r rings) \<le> HISTORY_BUFFERS"
    using m(2,5,6) by (auto simp: om_length_insert om_contains_def)
  then have ok: "history_ok ?hist" using rings m(2) by (simp add: history_ok_def)
  have sub: "om_get (bh_rings hist) j = Some r" if "om_get rings j = Some r" for j r
    using that m(2,3) h(1) by (auto simp: om_get_mem)
  have mine: "\<exists>r. om_get (bh_rings ?hist) ?i = Some r \<and> rg_versions r = push_version s
      (case om_get (bh_rings hist) ?i of None \<Rightarrow> [] | Some q \<Rightarrow> rg_versions q)"
    by (simp add: m(2) m(4))
  have other: "om_get (bh_rings hist) j = Some r" if "j \<noteq> ?i" "om_get (bh_rings ?hist) j = Some r" for j r
    using that m(2) by (intro sub) simp
  show thesis using that [OF run ok _ mine other] False by blast
qed

text \<open>Recording a version newer than the retained ones makes it the newest.\<close>

lemma record_newest:
  assumes "history_ok hist" "bm_id (st_metadata s) = i"
    and "\<And>r. om_get (bh_rings hist) i = Some r \<Longrightarrow> st_revision (last (rg_versions r)) \<le> st_revision s"
  obtains hist' where "record_version s hist = Some hist'" "history_ok hist'"
    "\<And>r. om_get (bh_rings hist') i = Some r \<Longrightarrow> \<not> st_deleted s \<and> last (rg_versions r) = s"
    "\<And>j r. j \<noteq> i \<Longrightarrow> om_get (bh_rings hist') j = Some r \<Longrightarrow> om_get (bh_rings hist) j = Some r"
proof -
  have "st_revision v \<le> st_revision s" if r: "om_get (bh_rings hist) (bm_id (st_metadata s)) = Some r" and v: "v \<in> set (rg_versions r)" for r v
  proof -
    have "(i, r) \<in> set (bh_rings hist)" using r assms(1,2) by (simp add: om_get_mem history_ok_def)
    then have "ascending (rg_versions r)" using assms(1) by (auto simp: history_ok_def ring_ok_def)
    then have "st_revision v \<le> st_revision (last (rg_versions r))"
      using v by (cases "rg_versions r" rule: rev_cases) (auto simp: ascending_def sorted_wrt_append)
    then show ?thesis using assms(3) [of r] r assms(2) by simp
  qed
  then obtain hist' where hist': "record_version s hist = Some hist'" "history_ok hist'"
    "st_deleted s \<Longrightarrow> om_get (bh_rings hist') (bm_id (st_metadata s)) = None"
    "\<not> st_deleted s \<Longrightarrow> \<exists>r. om_get (bh_rings hist') (bm_id (st_metadata s)) = Some r \<and>
       rg_versions r = push_version s (case om_get (bh_rings hist) (bm_id (st_metadata s)) of None \<Rightarrow> [] | Some q \<Rightarrow> rg_versions q)"
    "\<And>j r. j \<noteq> bm_id (st_metadata s) \<Longrightarrow> om_get (bh_rings hist') j = Some r \<Longrightarrow> om_get (bh_rings hist) j = Some r"
    using record_version_ok [OF assms(1)] by blast
  show thesis
  proof (rule that [OF hist'(1,2)])
    show "\<not> st_deleted s \<and> last (rg_versions r) = s" if "om_get (bh_rings hist') i = Some r" for r
      using that hist'(3,4) assms(2) push_version_last [of s] by (cases "st_deleted s") auto
  qed (use hist'(5) assms(2) in blast)
qed

lemma tracksD:
  assumes "tracks hist published" "om_get (bh_rings hist) i = Some r"
  obtains s where "published i = Some s" "st_revision (last (rg_versions r)) = st_revision s" "\<not> st_deleted s"
  using assms unfolding tracks_def by blast

lemma tracks_step:
  assumes "tracks hist published" "\<And>j. j \<noteq> i \<Longrightarrow> published' j = published j"
    and "\<And>j r. j \<noteq> i \<Longrightarrow> om_get (bh_rings hist') j = Some r \<Longrightarrow> om_get (bh_rings hist) j = Some r"
    and "\<And>r. om_get (bh_rings hist') i = Some r \<Longrightarrow>
      \<exists>s. published' i = Some s \<and> st_revision (last (rg_versions r)) = st_revision s \<and> \<not> st_deleted s"
  shows "tracks hist' published'"
  unfolding tracks_def
proof (intro allI impI)
  fix j r assume r: "om_get (bh_rings hist') j = Some r"
  show "\<exists>s. published' j = Some s \<and> st_revision (last (rg_versions r)) = st_revision s \<and> \<not> st_deleted s"
  proof (cases "j = i")
    case False
    then show ?thesis using assms(1) assms(2) [OF False] assms(3) [OF False r] unfolding tracks_def by metis
  qed (use assms(4) r in blast)
qed

lemma record_changed_ok:
  assumes "history_ok hist" "distinct is" "bf_ok old" "bf_ok new" "advances h old new" "addressed h old"
    and "sn_buffers prior = old" "sn_buffers newer = new"
    and "tracks hist (\<lambda>i. if i \<in> D then bf_get new i else bf_get old i)" "set is \<inter> D = {}"
  shows "\<exists>hist'. record_changed prior newer is hist = Some hist' \<and> history_ok hist' \<and>
    tracks hist' (\<lambda>i. if i \<in> D \<union> set is then bf_get new i else bf_get old i)"
  using assms
proof (induction "is" arbitrary: hist D)
  case (Cons i "is")
  let ?pub = "\<lambda>D j. if j \<in> D then bf_get new j else bf_get old j"
  have goal: "\<exists>hist'. record_changed prior newer is hist2 = Some hist' \<and> history_ok hist' \<and>
      tracks hist' (?pub (D \<union> set (i # is)))"
    if "history_ok hist2" "tracks hist2 (?pub (insert i D))" for hist2
    using Cons.IH [OF that(1) _ Cons.prems(3-8) that(2)] Cons.prems(2,10) by auto
  have iD: "i \<notin> D" using Cons.prems(10) by auto
  show ?case
  proof (cases "bf_get old i")
    case None
    have no_ring: "om_get (bh_rings hist) i = None"
    proof (rule ccontr)
      assume "om_get (bh_rings hist) i \<noteq> None"
      then obtain r where "om_get (bh_rings hist) i = Some r" by blast
      from tracksD [OF Cons.prems(9) this] show False using None iD by simp
    qed
    show ?thesis
    proof (cases "bf_get new i")
      case new: None
      have "tracks hist (?pub (insert i D))" by (rule tracks_step [OF Cons.prems(9)]) (use no_ring in auto)
      from goal [OF Cons.prems(1) this] show ?thesis using None new Cons.prems(7,8) by simp
    next
      case (Some s)
      obtain hist2 where h2: "record_version s hist = Some hist2" "history_ok hist2"
        "\<And>r. om_get (bh_rings hist2) i = Some r \<Longrightarrow> \<not> st_deleted s \<and> last (rg_versions r) = s"
        "\<And>j r. j \<noteq> i \<Longrightarrow> om_get (bh_rings hist2) j = Some r \<Longrightarrow> om_get (bh_rings hist) j = Some r"
        by (rule record_newest [OF Cons.prems(1) bf_okD(2) [OF Cons.prems(4) Some]]) (use no_ring that in auto)
      have "tracks hist2 (?pub (insert i D))"
        by (rule tracks_step [OF Cons.prems(9) _ h2(4)]) (use h2(3) Some in auto)
      from goal [OF h2(2) this] show ?thesis using None Some Cons.prems(7,8) h2(1) by simp
    qed
  next
    case (Some p)
    obtain s where s: "bf_get new i = Some s" "st_revision p \<le> st_revision s" "st_deleted p \<Longrightarrow> st_deleted s"
      "st_addr p = st_addr s \<Longrightarrow> s = p"
      using Cons.prems(5,6) Some unfolding advances_def addressed_def by (metis linorder_not_less)
    have ring_p: "\<not> st_deleted p \<and> st_revision (last (rg_versions r)) = st_revision p" if "om_get (bh_rings hist) i = Some r" for r
      by (rule tracksD [OF Cons.prems(9) that]) (use Some iD in simp)
    show ?thesis
    proof (cases "st_addr p = st_addr s")
      case True
      then have "?pub (insert i D) = ?pub D" using s(1,4) Some by (auto simp: fun_eq_iff)
      with Cons.prems(9) have "tracks hist (?pub (insert i D))" by simp
      from goal [OF Cons.prems(1) this] show ?thesis using True Some s(1) Cons.prems(7,8) by simp
    next
      case False
      obtain hist1 where h1: "record_version p hist = Some hist1" "history_ok hist1"
        "\<And>r. om_get (bh_rings hist1) i = Some r \<Longrightarrow> \<not> st_deleted p \<and> last (rg_versions r) = p"
        "\<And>j r. j \<noteq> i \<Longrightarrow> om_get (bh_rings hist1) j = Some r \<Longrightarrow> om_get (bh_rings hist) j = Some r"
        by (rule record_newest [OF Cons.prems(1) bf_okD(2) [OF Cons.prems(3) Some]]) (use ring_p that in auto)
      obtain hist2 where h2: "record_version s hist1 = Some hist2" "history_ok hist2"
        "\<And>r. om_get (bh_rings hist2) i = Some r \<Longrightarrow> \<not> st_deleted s \<and> last (rg_versions r) = s"
        "\<And>j r. j \<noteq> i \<Longrightarrow> om_get (bh_rings hist2) j = Some r \<Longrightarrow> om_get (bh_rings hist1) j = Some r"
        by (rule record_newest [OF h1(2) bf_okD(2) [OF Cons.prems(4) s(1)]]) (use h1(3) s(2) that in auto)
      have "tracks hist2 (?pub (insert i D))"
        by (rule tracks_step [OF Cons.prems(9) _ h1(4) [OF _ h2(4)]]) (use h2(3) s(1) in auto)
      from goal [OF h2(2) this] show ?thesis using False Some s(1) Cons.prems(7,8) h1(1) h2(1) by simp
    qed
  qed
qed simp

section \<open>A commit advances the catalogue\<close>

lemma advances_refl [simp]: "advances h c c"
  by (simp add: advances_def)

lemma advances_trans:
  assumes "advances h c c'" "advances h' c' c''" "h \<le> h'"
  shows "advances h c c''"
  unfolding advances_def
proof (intro allI impI)
  fix i s assume "bf_get c i = Some s"
  then obtain s' where s': "bf_get c' i = Some s'" "st_metadata s' = st_metadata s" "st_revision s \<le> st_revision s'"
    "st_deleted s \<longrightarrow> st_deleted s'" "s' = s \<or> h \<le> st_addr s'"
    using assms(1) unfolding advances_def by blast
  then obtain s'' where "bf_get c'' i = Some s''" "st_metadata s'' = st_metadata s'" "st_revision s' \<le> st_revision s''"
    "st_deleted s' \<longrightarrow> st_deleted s''" "s'' = s' \<or> h' \<le> st_addr s''"
    using assms(2) unfolding advances_def by blast
  with s' assms(3) show "\<exists>s''. bf_get c'' i = Some s'' \<and> st_metadata s'' = st_metadata s \<and> st_revision s \<le> st_revision s'' \<and>
      (st_deleted s \<longrightarrow> st_deleted s'') \<and> (s'' = s \<or> h \<le> st_addr s'')"
    by (intro exI [of _ s'']) auto
qed

lemma publish_cases:
  assumes pub: "publish_pending i p t r d states changes h = (Some (Inr (states', changes', h')) :: ('v, _) kresult)"
  obtains (unchanged) "states' = states" "h' = h"
  | (inserted) s where "states' = bf_insert s states" "h' = Suc h" "st_addr s = h" "st_metadata s = pb_metadata p"
      "r \<le> st_revision s"
proof (cases "pb_base p \<noteq> None \<and> delta_is_empty d \<and> \<not> pb_deleted p \<and> \<not> pb_compact p")
  case True
  then show thesis using pub unchanged by (simp add: publish_pending_def kok_def)
next
  case False
  let ?empty = "pb_base p = None \<and> delta_is_empty d \<and> \<not> pb_deleted p"
  from pub [unfolded publish_pending_def if_not_P [OF False] Let_def kbind_Inr lift_Inr]
  obtain revision epoch where raw: "(if pb_compact p \<or> ?empty then kok r
        else lift_option i BufRevisionExhausted (checked_add r 1)) = (Some (Inr revision) :: ('v, _) kresult)"
    and fin: "(if pb_compact p then kok (bf_insert \<lparr>st_metadata = pb_metadata p, st_revision = revision, st_text = t,
        st_deleted = pb_deleted p, st_structure_epoch = epoch, st_addr = h\<rparr> states, changes, Suc h)
      else kok (bf_insert \<lparr>st_metadata = pb_metadata p, st_revision = revision, st_text = t,
        st_deleted = pb_deleted p, st_structure_epoch = epoch, st_addr = h\<rparr> states,
        changes @ [\<lparr>bc_metadata = pb_metadata p, bc_base_revision = r, bc_revision = revision, bc_delta = d,
          bc_deleted = pb_deleted p\<rparr>], Suc h)) = (Some (Inr (states', changes', h')) :: ('v, _) kresult)"
    by blast
  have "r \<le> revision" using raw by (auto simp: kok_def lift_Inr split: if_splits)
  moreover have "states' = bf_insert \<lparr>st_metadata = pb_metadata p, st_revision = revision, st_text = t,
        st_deleted = pb_deleted p, st_structure_epoch = epoch, st_addr = h\<rparr> states" "h' = Suc h"
    using fin by (auto simp: kok_def split: if_splits)
  ultimately show thesis using inserted by simp
qed

lemma publish_advances:
  assumes pub: "publish_pending i p t (current_revision states i) d states changes h =
      (Some (Inr (states', changes', h')) :: ('v, _) kresult)"
    and "bf_ok states" "addressed h states" "bm_id (pb_metadata p) = i"
    and live: "\<And>l. bf_get states i = Some l \<Longrightarrow> \<not> st_deleted l \<and> st_metadata l = pb_metadata p"
  shows "advances h states states'" "addressed h' states'"
proof -
  have "states' = states \<and> h' = h \<or> (\<exists>s. states' = bf_insert s states \<and> h' = Suc h \<and> st_addr s = h \<and>
      st_metadata s = pb_metadata p \<and> current_revision states i \<le> st_revision s)"
    by (rule publish_cases [OF pub]) auto
  then have "advances h states states' \<and> addressed h' states'"
  proof (elim disjE exE conjE)
    fix s assume s: "states' = bf_insert s states" "h' = Suc h" "st_addr s = h" "st_metadata s = pb_metadata p"
      "current_revision states i \<le> st_revision s"
    then have get: "bf_get states' = (bf_get states)(i \<mapsto> s)" using bf_get_insert [OF assms(2)] assms(4) by simp
    have "advances h states states'"
      unfolding advances_def
    proof (intro allI impI)
      fix j x assume x: "bf_get states j = Some x"
      show "\<exists>x'. bf_get states' j = Some x' \<and> st_metadata x' = st_metadata x \<and> st_revision x \<le> st_revision x' \<and>
          (st_deleted x \<longrightarrow> st_deleted x') \<and> (x' = x \<or> h \<le> st_addr x')"
      proof (cases "j = i")
        case True
        then have "st_revision x \<le> st_revision s" using s(5) x by (simp add: current_revision_def)
        then show ?thesis using True live [of x] x s(3,4) get by (intro exI [of _ s]) simp
      next
        case False
        then show ?thesis using x get by simp
      qed
    qed
    moreover have "addressed h' states'"
      using assms(3) s(2,3) unfolding addressed_def get by (auto simp: less_Suc_eq)
    ultimately show ?thesis ..
  qed (use assms(3) in simp)
  then show "advances h states states'" "addressed h' states'" by simp_all
qed

lemma materialize_advances:
  assumes "materialize_loop ws relations states changes budget h = (Some (Inr (states', changes', h')) :: ('v, _) kresult)"
    and "states_ok H h states" "writes_ok H h ws states" "addressed h states"
  shows "advances h states states' \<and> addressed h' states' \<and> h \<le> h'"
  using assms
proof (induction ws arbitrary: states changes budget h H)
  case Nil
  then show ?case by (simp add: kok_def)
next
  case (Cons w ws)
  obtain i p where w: "w = (i, p)" by (cases w)
  from Cons.prems(1) w obtain t r d budget1 h1 states1 changes1 h2 where
    m: "merge_pending i p relations states budget h = (Some (Inr ((t, r, d), budget1, h1)) :: ('v, _) kresult)"
    and pub: "publish_pending i p t r d states changes h1 = (Some (Inr (states1, changes1, h2)) :: ('v, _) kresult)"
    and rest: "materialize_loop ws relations states1 changes1 budget1 h2 = (Some (Inr (states', changes', h')) :: ('v, _) kresult)"
    by (auto simp: kbind_Inr)
  obtain H1 where step: "heap_le H h H1 h2" "states_ok H1 h2 states1" "writes_ok H1 h2 ws states1" "h \<le> h1"
      "r = current_revision states i" "bm_id (pb_metadata p) = i"
      "\<And>l. bf_get states i = Some l \<Longrightarrow> \<not> st_deleted l \<and> st_metadata l = pb_metadata p"
    by (rule materialize_step [OF m pub Cons.prems(2) Cons.prems(3) [unfolded w]]) (rule that)
  have a1: "addressed h1 states" using Cons.prems(4) step(4) by (fastforce simp: addressed_def)
  have ok: "bf_ok states" using Cons.prems(2) by (simp add: states_ok_def)
  note adv = publish_advances [OF pub [unfolded step(5)] ok a1 step(6,7)]
  have "h1 \<le> h2" by (rule publish_cases [OF pub]) simp_all
  moreover have "advances h2 states1 states' \<and> addressed h' states' \<and> h2 \<le> h'"
    by (rule Cons.IH [OF rest step(2,3) adv(2)])
  moreover have "advances h states states1"
    using adv(1) step(4) by (fastforce simp: advances_def)
  ultimately show ?case using advances_trans [of h states states1 h2 states'] step(4) by simp
qed

end
