(* ===== verification/BufferTokens.thy ===== *)
theory BufferTokens
  imports BufferClientProofs BufferHistory "HOL-Library.Multiset"
begin

text \<open>
  Who owns a pending result. Tagged applies reserve a token in the kernel's result table and carry it in
  the pending write; committing, failing and dropping the transaction settle it. The step relation
  \<open>client_step\<close> interleaves any number of open transactions over one table, and its invariant says that
  the pending entries of the table are exactly the tokens the open transactions carry.
\<close>

section \<open>Tokens of a set of writes\<close>

fun tokens :: "buffer_writes \<Rightarrow> nat list" where
  "tokens [] = []"
| "tokens ((i, p) # ws) = (case pb_token p of None \<Rightarrow> tokens ws | Some t \<Rightarrow> t # tokens ws)"

definition open_token :: "client_results \<Rightarrow> nat \<Rightarrow> bool" where
  "open_token c t \<longleftrightarrow> (\<exists>r. om_get (cr_entries c) t = Some r \<and> ar_outcome r = OutPending)"

text \<open>Only a sealed write carries a token.\<close>

definition sealed_tokens :: "buffer_writes \<Rightarrow> bool" where
  "sealed_tokens ws \<longleftrightarrow> om_ok ws \<and> (\<forall>i p. om_get ws i = Some p \<longrightarrow> pb_token p \<noteq> None \<longrightarrow> pb_sealed p)"

definition token_mset :: "pending_buffer \<Rightarrow> nat multiset" where
  "token_mset p = (case pb_token p of None \<Rightarrow> {#} | Some t \<Rightarrow> {#t#})"

lemma tokens_mset: "mset (tokens ws) = (\<Sum>w \<in># mset ws. token_mset (snd w))"
  by (induction ws rule: tokens.induct) (auto simp: token_mset_def split: option.splits)

lemma tokens_insert:
  assumes "om_ok ws" "\<And>q. om_get ws i = Some q \<Longrightarrow> pb_token q = None"
  shows "mset (tokens (om_insert i p ws)) = mset (tokens ws) + token_mset p"
  using assms
proof (induction i p ws rule: om_insert.induct)
  case (2 k v l w m)
  have "om_get m k = None" if "k < l"
    using 2(2) that by (auto simp: om_get_None)
  with 2 show ?case by (auto simp: token_mset_def split: option.splits)
qed (simp add: token_mset_def split: option.splits)

lemma no_token_iff: "\<not> has_tagged_buffer_apply tx \<longleftrightarrow> tokens (tx_buffer_writes tx) = []"
proof -
  have "\<not> list_ex (\<lambda>(_, p). pb_token p \<noteq> None) ws \<longleftrightarrow> tokens ws = []" for ws
    by (induction ws rule: tokens.induct) (auto split: option.splits)
  then show ?thesis by (simp add: has_tagged_buffer_apply_def)
qed

section \<open>Settling tokens\<close>

text \<open>An open entry is not completed, so eviction leaves it alone.\<close>

lemma open_elsewhere:
  assumes "results_ok sz c" "elsewhere token c c'" "t \<noteq> token"
  shows "open_token c' t \<longleftrightarrow> open_token c t"
proof
  assume "open_token c' t"
  then show "open_token c t" using assms(2,3) unfolding open_token_def elsewhere_def by blast
next
  assume o: "open_token c t"
  then have "t \<notin> set (cr_completed c)"
    using assms(1) results_invD(3) [of sz c t] unfolding open_token_def results_ok_def by fastforce
  with assms(2,3) have "om_get (cr_entries c') t = om_get (cr_entries c) t" unfolding elsewhere_def by blast
  then show "open_token c' t" using o by (simp add: open_token_def)
qed

lemma finish_settles:
  assumes "results_ok sz c" "open_token c (ar_token result)" "ar_outcome result \<noteq> OutPending"
  obtains c' where "finish sz result c = Some c'" "results_ok sz c'"
    "\<And>t. open_token c' t \<longleftrightarrow> open_token c t \<and> t \<noteq> ar_token result"
proof -
  obtain p where p: "om_get (cr_entries c) (ar_token result) = Some p" "ar_outcome p = OutPending"
    using assms(2) by (auto simp: open_token_def)
  obtain c' where c': "finish sz result c = Some c'" "results_ok sz c'"
    "om_get (cr_entries c') (ar_token result) =
       Some (if retained_bytes sz result > MAX_RESULT_BYTES then result\<lparr>ar_outcome := OutResync\<rparr> else result)"
    "elsewhere (ar_token result) c c'"
    using finish_ok [OF assms(1) p assms(3)] by blast
  have "\<not> open_token c' (ar_token result)" using c'(3) assms(3) by (auto simp: open_token_def)
  then have "open_token c' t \<longleftrightarrow> open_token c t \<and> t \<noteq> ar_token result" for t
    using open_elsewhere [OF assms(1) c'(4)] by (cases "t = ar_token result") simp_all
  then show thesis by (rule that [OF c'(1,2)])
qed

lemma finish_all_settles:
  assumes "results_ok sz c" "distinct (tokens ws)" "\<And>t. t \<in> set (tokens ws) \<Longrightarrow> open_token c t" "outcome \<noteq> OutPending"
  obtains ws' c' where "finish_all sz outcome revision_of ws c = Some (ws', c')" "results_ok sz c'" "tokens ws' = []"
    "\<And>t. open_token c' t \<longleftrightarrow> open_token c t \<and> t \<notin> set (tokens ws)"
proof -
  have "\<exists>ws' c'. finish_all sz outcome revision_of ws c = Some (ws', c') \<and> results_ok sz c' \<and> tokens ws' = [] \<and>
    (\<forall>t. open_token c' t \<longleftrightarrow> open_token c t \<and> t \<notin> set (tokens ws))"
    using assms(1-3)
  proof (induction ws arbitrary: c)
    case (Cons w ws)
    obtain i p where w: "w = (i, p)" by (cases w)
    show ?case
    proof (cases "pb_token p")
      case None
      with Cons.IH [OF Cons.prems(1)] Cons.prems(2,3) w obtain ws' c' where
        "finish_all sz outcome revision_of ws c = Some (ws', c')" "results_ok sz c'" "tokens ws' = []"
        "\<forall>t. open_token c' t \<longleftrightarrow> open_token c t \<and> t \<notin> set (tokens ws)" by auto
      then show ?thesis using w None by simp
    next
      case (Some t0)
      let ?r = "\<lparr>ar_token = t0, ar_buffer = i, ar_revision = revision_of i p, ar_outcome = outcome\<rparr>"
      have o: "open_token c (ar_token ?r)" using Cons.prems(3) [of t0] w Some by simp
      have n: "ar_outcome ?r \<noteq> OutPending" using assms(4) by simp
      obtain c1 where c1: "finish sz ?r c = Some c1" "results_ok sz c1"
        "\<And>t. open_token c1 t \<longleftrightarrow> open_token c t \<and> t \<noteq> t0"
        using finish_settles [OF Cons.prems(1) o n] by auto
      have "t0 \<notin> set (tokens ws)" "distinct (tokens ws)" using Cons.prems(2) w Some by simp_all
      moreover have "open_token c1 t" if "t \<in> set (tokens ws)" for t
        using that Cons.prems(3) [of t] c1(3) [of t] calculation(1) w Some by auto
      ultimately obtain ws' c' where r: "finish_all sz outcome revision_of ws c1 = Some (ws', c')" "results_ok sz c'" "tokens ws' = []"
        "\<forall>t. open_token c' t \<longleftrightarrow> open_token c1 t \<and> t \<notin> set (tokens ws)"
        using Cons.IH [OF c1(2)] by blast
      then show ?thesis using w Some c1 by auto
    qed
  qed simp
  then show thesis using that by blast
qed

text \<open>
  Completion after a commit: every tagged write finds its live published state, and the comparison of
  the two texts always returns.
\<close>

definition completable :: "'r snapshot \<Rightarrow> buffer_writes \<Rightarrow> bool" where
  "completable snapshot ws \<longleftrightarrow>
     (\<forall>(i, p) \<in> set ws. pb_token p \<noteq> None \<longrightarrow>
        (\<exists>st. (snapshot_buffer snapshot i :: (nat, buffer_state) kresult) = Some (Inr st) \<and>
           (\<forall>b. between (case pb_base p of None \<Rightarrow> text_default | Some s \<Rightarrow> st_text s) (st_text st) b \<noteq> None)))"

lemma complete_settles:
  assumes "results_ok sz c" "distinct (tokens ws)" "\<And>t. t \<in> set (tokens ws) \<Longrightarrow> open_token c t" "completable snapshot ws"
  obtains ws' c' where "complete_loop sz ws snapshot budget c = Some (ws', c')" "results_ok sz c'" "tokens ws' = []"
    "\<And>t. open_token c' t \<longleftrightarrow> open_token c t \<and> t \<notin> set (tokens ws)"
proof -
  have "\<exists>ws' c'. complete_loop sz ws snapshot budget c = Some (ws', c') \<and> results_ok sz c' \<and> tokens ws' = [] \<and>
    (\<forall>t. open_token c' t \<longleftrightarrow> open_token c t \<and> t \<notin> set (tokens ws))"
    using assms
  proof (induction ws arbitrary: c budget)
    case (Cons w ws)
    obtain i p where w: "w = (i, p)" by (cases w)
    have rest: "completable snapshot ws" using Cons.prems(4) by (simp add: completable_def)
    show ?case
    proof (cases "pb_token p")
      case None
      with Cons.IH [OF Cons.prems(1) _ _ rest, of budget] Cons.prems(2,3) w obtain ws' c' where
        "complete_loop sz ws snapshot budget c = Some (ws', c')" "results_ok sz c'" "tokens ws' = []"
        "\<forall>t. open_token c' t \<longleftrightarrow> open_token c t \<and> t \<notin> set (tokens ws)" by auto
      then show ?thesis using w None by simp
    next
      case (Some t0)
      then obtain st where st: "(snapshot_buffer snapshot i :: (nat, buffer_state) kresult) = Some (Inr st)"
        "between (case pb_base p of None \<Rightarrow> text_default | Some s \<Rightarrow> st_text s) (st_text st) budget \<noteq> None"
        using Cons.prems(4) w by (auto simp: completable_def)
      then obtain d budget1 where b:
        "between (case pb_base p of None \<Rightarrow> text_default | Some s \<Rightarrow> st_text s) (st_text st) budget = Some (d, budget1)"
        by auto
      let ?r = "\<lparr>ar_token = t0, ar_buffer = i, ar_revision = st_revision st,
          ar_outcome = (case d of Inr applied \<Rightarrow> OutOk applied | Inl _ \<Rightarrow> OutResync)\<rparr>"
      have o: "open_token c (ar_token ?r)" using Cons.prems(3) [of t0] w Some by simp
      have n: "ar_outcome ?r \<noteq> OutPending" by (simp split: sum.splits)
      obtain c1 where c1: "finish sz ?r c = Some c1" "results_ok sz c1"
        "\<And>t. open_token c1 t \<longleftrightarrow> open_token c t \<and> t \<noteq> t0"
        using finish_settles [OF Cons.prems(1) o n] by auto
      have "t0 \<notin> set (tokens ws)" "distinct (tokens ws)" using Cons.prems(2) w Some by simp_all
      moreover have "open_token c1 t" if "t \<in> set (tokens ws)" for t
        using that Cons.prems(3) [of t] c1(3) [of t] calculation(1) w Some by auto
      ultimately obtain ws' c' where r: "complete_loop sz ws snapshot budget1 c1 = Some (ws', c')" "results_ok sz c'" "tokens ws' = []"
        "\<forall>t. open_token c' t \<longleftrightarrow> open_token c1 t \<and> t \<notin> set (tokens ws)"
        using Cons.IH [OF c1(2) _ _ rest] by blast
      then show ?thesis using w Some c1 st(1) b by auto
    qed
  qed simp
  then show thesis using that by blast
qed

section \<open>Operations of a transaction and the tokens it carries\<close>

lemma buffer_write_open:
  assumes "buffer_write i tx = (Some (Inr p) :: ('v, _) kresult)" "sealed_tokens (tx_buffer_writes tx)"
  shows "pb_token p = None" "om_get (tx_buffer_writes tx) i = Some q \<Longrightarrow> pb_token q = None"
proof -
  have "pb_token p = None \<and> (\<forall>q. om_get (tx_buffer_writes tx) i = Some q \<longrightarrow> pb_token q = None)"
  proof (cases "om_get (tx_buffer_writes tx) i")
    case None
    with assms(1) show ?thesis
      by (auto simp: buffer_write_def kbind_Inr ensure_buffer_mutable_def kok_def split: option.splits)
  next
    case (Some q)
    with assms(1) have "\<not> pb_sealed q" "p = q\<lparr>pb_projected_revision := None\<rparr>"
      by (auto simp: buffer_write_def kbind_Inr ensure_buffer_mutable_def kok_def kfail_def split: if_splits)
    moreover from this(1) have "pb_token q = None" using assms(2) Some unfolding sealed_tokens_def by blast
    ultimately show ?thesis using Some by simp
  qed
  then show "pb_token p = None" "om_get (tx_buffer_writes tx) i = Some q \<Longrightarrow> pb_token q = None" by auto
qed

definition carries :: "'r txn \<Rightarrow> nat multiset \<Rightarrow> bool" where
  "carries tx M \<longleftrightarrow> sealed_tokens (tx_buffer_writes tx) \<and> mset (tokens (tx_buffer_writes tx)) = M"

lemma carries_invalidate [simp]: "carries (invalidate_computed_views tx) M = carries tx M"
  by (simp add: carries_def invalidate_computed_views_def)

lemma carries_put:
  assumes "carries tx M" "\<And>q. om_get (tx_buffer_writes tx) i = Some q \<Longrightarrow> pb_token q = None"
    and "pb_token p \<noteq> None \<Longrightarrow> pb_sealed p"
  shows "carries (put_pending i p tx) (M + token_mset p)"
proof -
  let ?ws = "tx_buffer_writes tx"
  have ok: "om_ok ?ws" "\<And>j q. om_get ?ws j = Some q \<Longrightarrow> pb_token q \<noteq> None \<Longrightarrow> pb_sealed q"
    using assms(1) unfolding carries_def sealed_tokens_def by blast+
  have "pb_sealed q" if "om_get (om_insert i p ?ws) j = Some q" "pb_token q \<noteq> None" for j q
    using that assms(3) ok by (cases "j = i") auto
  then have "sealed_tokens (om_insert i p ?ws)" using ok(1) by (auto simp: sealed_tokens_def)
  then show ?thesis using tokens_insert [OF ok(1) assms(2)] assms(1) by (simp add: carries_def put_pending_def)
qed

lemma carries_write:
  assumes "buffer_write i tx = (Some (Inr p) :: ('v, _) kresult)" "carries tx M"
    and "pb_token p' = None"
  shows "carries (invalidate_computed_views (put_pending i p' tx)) M"
  using carries_put [OF assms(2), of i p'] buffer_write_open(2) [OF assms(1)] assms(2,3)
  by (simp add: carries_def token_mset_def invalidate_computed_views_def)

text \<open>The operations of a transaction on its buffers that are not tagged applies.\<close>

inductive txn_step :: "'r txn \<Rightarrow> 'r txn \<Rightarrow> bool" where
  created: "create_buffer m tx = (Some (Inr tx') :: (nat, _) kresult) \<Longrightarrow> txn_step tx tx'"
| replaced: "replace_buffer i r s tx h = (Some (Inr (tx', h')) :: (nat, _) kresult) \<Longrightarrow> txn_step tx tx'"
| deleted: "delete_buffer i tx = (Some (Inr tx') :: (nat, _) kresult) \<Longrightarrow> txn_step tx tx'"
| compacted: "compact_buffer i tx h = (Some (Inr (tx', h')) :: (nat, _) kresult) \<Longrightarrow> txn_step tx tx'"
| reverted: "revert_buffer i r e hist tx h = (Some (Inr (status, tx', h')) :: (nat, _) kresult) \<Longrightarrow> txn_step tx tx'"
| viewed: "computed_buffer_view name tx = (Some (Inr (view, tx')) :: (nat, _) kresult) \<Longrightarrow> txn_step tx tx'"

lemma create_carries:
  assumes "create_buffer m tx = (Some (Inr tx') :: ('v, _) kresult)" "carries tx M"
  shows "carries tx' M"
proof -
  let ?p = "\<lparr>pb_metadata = m, pb_base = None, pb_text = text_default, pb_deleted = False,
      pb_touched = False, pb_sealed = False, pb_token = None, pb_compact = False,
      pb_reverted = False, pb_projected_revision = None\<rparr>"
  have "\<not> om_contains (tx_buffer_writes tx) (bm_id m)"
    and tx': "tx' = invalidate_computed_views (put_pending (bm_id m) ?p tx)"
    using assms(1) by (auto simp: create_buffer_def Let_def kok_def kfail_def put_pending_def split: if_splits)
  then show ?thesis using carries_put [OF assms(2), of "bm_id m" ?p] by (simp add: om_contains_def token_mset_def)
qed

lemma replace_carries:
  assumes "replace_buffer i r s tx h = (Some (Inr (tx', h')) :: ('v, _) kresult)" "carries tx M"
  shows "carries tx' M"
proof -
  consider "tx' = tx" | p t where "buffer_write i tx = (Some (Inr p) :: ('v, _) kresult)"
    "tx' = invalidate_computed_views (put_pending i (p\<lparr>pb_text := t, pb_touched := True\<rparr>) tx)"
    using assms(1) by (fastforce simp: replace_buffer_def kbind_Inr kok_def split: if_splits)
  then show ?thesis
  proof cases
    case 2
    then show ?thesis using carries_write [OF 2(1) assms(2)] buffer_write_open(1) [OF 2(1)] assms(2)
      by (simp add: carries_def)
  qed (use assms(2) in simp)
qed

lemma delete_carries:
  assumes "delete_buffer i tx = (Some (Inr tx') :: ('v, _) kresult)" "carries tx M"
  shows "carries tx' M"
proof -
  obtain p where p: "buffer_write i tx = (Some (Inr p) :: ('v, _) kresult)"
    "tx' = invalidate_computed_views
      (put_pending i (p\<lparr>pb_deleted := True, pb_touched := True, pb_text := text_default\<rparr>) tx)"
    using assms(1) by (auto simp: delete_buffer_def kbind_Inr kok_def)
  then show ?thesis using carries_write [OF p(1) assms(2)] buffer_write_open(1) [OF p(1)] assms(2)
    by (simp add: carries_def)
qed

lemma compact_carries:
  assumes "compact_buffer i tx h = (Some (Inr (tx', h')) :: ('v, _) kresult)" "carries tx M"
  shows "carries tx' M"
proof -
  consider "tx' = tx" | p t where "buffer_write i tx = (Some (Inr p) :: ('v, _) kresult)"
    "tx' = invalidate_computed_views (put_pending i (p\<lparr>pb_text := t, pb_compact := True, pb_sealed := True\<rparr>) tx)"
    using assms(1) by (fastforce simp: compact_buffer_def kbind_Inr kok_def kfail_def split: if_splits option.splits)
  then show ?thesis
  proof cases
    case 2
    then show ?thesis using carries_write [OF 2(1) assms(2)] buffer_write_open(1) [OF 2(1)] assms(2)
      by (simp add: carries_def)
  qed (use assms(2) in simp)
qed

lemma revert_carries:
  assumes "revert_buffer i r e hist tx h = (Some (Inr (status, tx', h')) :: ('v, _) kresult)" "carries tx M"
  shows "carries tx' M"
proof -
  consider "tx' = tx" | p t where "buffer_write i tx = (Some (Inr p) :: ('v, _) kresult)"
    "tx' = invalidate_computed_views (put_pending i (p\<lparr>pb_text := t, pb_reverted := True, pb_sealed := True\<rparr>) tx)"
    using assms(1) by (fastforce simp: revert_buffer_def kbind_Inr kok_def kfail_def split: if_splits option.splits)
  then show ?thesis
  proof cases
    case 2
    then show ?thesis using carries_write [OF 2(1) assms(2)] buffer_write_open(1) [OF 2(1)] assms(2)
      by (simp add: carries_def)
  qed (use assms(2) in simp)
qed

lemma tokens_update:
  assumes "om_ok ws" "om_get ws i = Some p" "pb_token p' = pb_token p"
  shows "tokens (om_insert i p' ws) = tokens ws"
  using assms
proof (induction i p' ws rule: om_insert.induct)
  case (2 k v l w m)
  have "k \<notin> fst ` set m" if "k < l" using 2(2) that by auto
  then have "om_get m k = None" if "k < l" using that by (simp add: om_get_None)
  then have "\<not> k < l" using 2(3) by auto
  with 2 show ?case by (auto split: option.splits)
qed simp

lemma view_carries:
  assumes "computed_buffer_view name tx = (Some (Inr (view, tx')) :: ('v, _) kresult)" "carries tx M"
  shows "carries tx' M"
proof -
  consider "tx' = tx" | i p r where "om_get (tx_buffer_writes tx) i = Some p"
    "tx' = tx\<lparr>tx_buffer_writes := om_insert i (p\<lparr>pb_projected_revision := Some r\<rparr>) (tx_buffer_writes tx)\<rparr>"
    using assms(1) by (fastforce simp: computed_buffer_view_def project_revision_def kbind_Inr kok_def split: if_splits option.splits)
  then show ?thesis
  proof cases
    case 2
    have ok: "om_ok (tx_buffer_writes tx)" "sealed_tokens (tx_buffer_writes tx)"
      using assms(2) by (auto simp: carries_def sealed_tokens_def)
    let ?p = "p\<lparr>pb_projected_revision := Some r\<rparr>"
    have "pb_sealed q" if "om_get (om_insert i ?p (tx_buffer_writes tx)) j = Some q" "pb_token q \<noteq> None" for j q
      using that ok(1) ok(2) [unfolded sealed_tokens_def] 2(1) by (cases "j = i") auto
    then have "sealed_tokens (om_insert i ?p (tx_buffer_writes tx))" using ok(1) unfolding sealed_tokens_def by simp
    then show ?thesis using 2 tokens_update [OF ok(1) 2(1), of ?p] assms(2) by (simp add: carries_def)
  qed (use assms(2) in simp)
qed

lemma txn_step_carries: "txn_step tx tx' \<Longrightarrow> carries tx M \<Longrightarrow> carries tx' M"
  by (induction rule: txn_step.induct)
     (blast intro: create_carries replace_carries delete_carries compact_carries revert_carries view_carries)+

text \<open>A tagged apply: an error or a stale revision leaves the open tokens, staging adds the token to both sides.\<close>

lemma prepare_apply_writable:
  assumes "prepare_apply i e edits tx h = (Some (Inr (Some out)) :: ('v, _) kresult)"
  shows "\<exists>p. buffer_write i tx = (Some (Inr p) :: ('v, _) kresult)"
proof -
  obtain m where m: "buffer_metadata_of tx i = (Some (Inr m) :: ('v, _) kresult)" and a: "\<not> already_applied tx i"
    using assms by (auto simp: prepare_apply_def buffer_revision_of_def kbind_Inr kok_def kfail_def split: if_splits)
  show ?thesis
  proof (cases "om_get (tx_buffer_writes tx) i")
    case None
    with m obtain st where "bf_get (sn_buffers (tx_base tx)) i = Some st"
      by (auto simp: buffer_metadata_of_def snapshot_buffer_def kbind_Inr lift_Inr)
    with None m show ?thesis by (simp add: buffer_write_def ensure_buffer_mutable_def kbind_def kok_def)
  next
    case (Some p)
    with a m show ?thesis by (simp add: buffer_write_def ensure_buffer_mutable_def already_applied_def kbind_def kok_def)
  qed
qed

lemma stage_apply_ok:
  assumes "prepare_apply i e edits tx h = (Some (Inr (Some out)) :: ('v, _) kresult)" "carries tx M"
  obtains tx' where "stage_apply i t token tx = (Some (Inr tx') :: ('v, _) kresult)"
    "carries tx' (M + (case token of None \<Rightarrow> {#} | Some n \<Rightarrow> {#n#}))"
proof -
  obtain p where p: "buffer_write i tx = (Some (Inr p) :: ('v, _) kresult)"
    using prepare_apply_writable [OF assms(1)] by blast
  let ?p = "p\<lparr>pb_text := t, pb_sealed := True, pb_token := token\<rparr>"
  have "sealed_tokens (tx_buffer_writes tx)" using assms(2) by (simp add: carries_def)
  from carries_put [OF assms(2) buffer_write_open(2) [OF p this], where p = ?p]
  have "carries (put_pending i ?p tx) (M + token_mset ?p)" by simp
  then show thesis using that [of "invalidate_computed_views (put_pending i ?p tx)"] p
    by (simp add: stage_apply_def kbind_def kok_def token_mset_def)
qed

lemma apply_buffer_ok:
  assumes ok: "results_ok sz c" and tx: "carries tx M" and owned: "\<And>t. t \<in># M \<Longrightarrow> open_token c t"
    and run: "apply_buffer sz i e edits token tx c h = Some (r, c')"
  shows "results_ok sz c' \<and>
    (case r of
       Inr (ApplyStaged, tx', h') \<Rightarrow>
         (case token of
            None \<Rightarrow> carries tx' M \<and> open_token c' = open_token c
          | Some n \<Rightarrow> carries tx' (M + {#n#}) \<and> \<not> open_token c n \<and> (\<forall>t. open_token c' t \<longleftrightarrow> open_token c t \<or> t = n))
     | Inr (ApplyStale, tx', h') \<Rightarrow> tx' = tx \<and> open_token c' = open_token c
     | Inl (_ :: 'v kernel_error) \<Rightarrow> open_token c' = open_token c)"
proof (cases "prepare_apply i e edits tx h :: ('v, (btext \<times> nat) option) kresult")
  case None
  then show ?thesis using run by (simp add: apply_buffer_def)
next
  case (Some prep)
  show ?thesis
  proof (cases prep)
    case (Inl err)
    then show ?thesis using Some run ok by (auto simp: apply_buffer_def)
  next
    case (Inr o')
    show ?thesis
    proof (cases o')
      case None
      then show ?thesis using Some Inr run ok by (auto simp: apply_buffer_def)
    next
      case (Some out)
      obtain t h1 where out: "out = (t, h1)" by (cases out)
      have prep': "prepare_apply i e edits tx h = (Some (Inr (Some out)) :: ('v, _) kresult)"
        using \<open>prepare_apply i e edits tx h = Some prep\<close> Inr Some by simp
      obtain tx' where st: "stage_apply i t token tx = (Some (Inr tx') :: ('v, _) kresult)"
        "carries tx' (M + (case token of None \<Rightarrow> {#} | Some n \<Rightarrow> {#n#}))"
        by (rule stage_apply_ok [OF prep' tx]) (rule that)
      show ?thesis
      proof (cases token)
        case None
        then have "r = Inr (ApplyStaged, tx', h1) \<and> c' = c"
          using run prep' out st(1) by (simp add: apply_buffer_def)
        then show ?thesis using None st(2) ok by simp
      next
        case token: (Some n)
        obtain res c1 where rs: "reserve sz n i e c = Some (res :: 'v kernel_error + unit, c1)" "results_ok sz c1"
          and outcome: "case res of
             Inl err \<Rightarrow> err = KBuffer i (if om_contains (cr_entries c) n then BufTokenInUse else BufResultsFull) \<and>
               om_get (cr_entries c1) n = om_get (cr_entries c) n
           | Inr _ \<Rightarrow> \<not> om_contains (cr_entries c) n \<and>
               om_get (cr_entries c1) n = Some \<lparr>ar_token = n, ar_buffer = i, ar_revision = e, ar_outcome = OutPending\<rparr>"
          and els: "elsewhere n c c1"
          using reserve_ok [OF ok, where 'v = 'v, of n i e] by (elim exE conjE) (rule that)
        have fail: "om_get (cr_entries c1) n = om_get (cr_entries c) n" if "res = Inl err" for err
          using outcome that by simp
        have okay: "\<not> om_contains (cr_entries c) n \<and>
             om_get (cr_entries c1) n = Some \<lparr>ar_token = n, ar_buffer = i, ar_revision = e, ar_outcome = OutPending\<rparr>"
          if "res = Inr u" for u
          using outcome that by simp
        have other: "open_token c1 t \<longleftrightarrow> open_token c t" if "t \<noteq> n" for t
          by (rule open_elsewhere [OF ok els that])
        show ?thesis
        proof (cases res)
          case (Inl err)
          have "open_token c1 t \<longleftrightarrow> open_token c t" for t
            using other [of t] fail [OF Inl] by (cases "t = n") (auto simp: open_token_def)
          then have "open_token c1 = open_token c" by blast
          moreover have "r = Inl err \<and> c' = c1"
            using run prep' out rs(1) token Inl by (simp add: apply_buffer_def)
          ultimately show ?thesis using rs(2) by simp
        next
          case (Inr u)
          have "\<not> open_token c n" "open_token c1 n" using okay [OF Inr] by (auto simp: open_token_def om_contains_def)
          then have "\<forall>t. open_token c1 t \<longleftrightarrow> open_token c t \<or> t = n" using other by metis
          moreover have "r = Inr (ApplyStaged, tx', h1) \<and> c' = c1"
            using run prep' out st(1) rs(1) token Inr by (simp add: apply_buffer_def)
          ultimately show ?thesis using token st(2) rs(2) \<open>\<not> open_token c n\<close> by simp
        qed
      qed
    qed
  qed
qed

section \<open>Any interleaving of open transactions\<close>

text \<open>
  The table and the open transactions. A transaction leaves the system when it commits (its tokens are
  completed against the published snapshot), when its commit fails, or when it is dropped.
\<close>

inductive client_step ::
  "(delta \<Rightarrow> nat) \<Rightarrow> client_results \<times> 'r txn list \<Rightarrow> client_results \<times> 'r txn list \<Rightarrow> bool" for sz where
  begun: "tx_buffer_writes tx = [] \<Longrightarrow> client_step sz (c, txs) (c, tx # txs)"
| staged: "txn_step tx tx' \<Longrightarrow> client_step sz (c, pre @ tx # post) (c, pre @ tx' # post)"
| applied: "apply_buffer sz i e edits token tx c h = Some (Inr (status, tx', h') :: nat kernel_error + _, c') \<Longrightarrow>
    client_step sz (c, pre @ tx # post) (c', pre @ tx' # post)"
| refused: "apply_buffer sz i e edits token tx c h = Some (Inl err :: nat kernel_error + _, c') \<Longrightarrow>
    client_step sz (c, pre @ tx # post) (c', pre @ tx # post)"
| committed: "completable snapshot (tx_buffer_writes tx) \<Longrightarrow> complete_buffer_applies sz snapshot tx c = Some (tx', c') \<Longrightarrow>
    client_step sz (c, pre @ tx # post) (c', pre @ post)"
| failed: "fail_buffer_applies sz (failure :: nat kernel_error) current tx c = Some (tx', c') \<Longrightarrow>
    client_step sz (c, pre @ tx # post) (c', pre @ post)"
| dropped: "drop_transaction sz tx c = Some c' \<Longrightarrow> client_step sz (c, pre @ tx # post) (c', pre @ post)"

definition owned :: "'r txn list \<Rightarrow> nat multiset" where
  "owned txs = (\<Sum>tx \<in># mset txs. mset (tokens (tx_buffer_writes tx)))"

definition client_inv :: "(delta \<Rightarrow> nat) \<Rightarrow> client_results \<times> 'r txn list \<Rightarrow> bool" where
  "client_inv sz s \<longleftrightarrow> results_ok sz (fst s) \<and> (\<forall>tx \<in> set (snd s). sealed_tokens (tx_buffer_writes tx)) \<and>
     (\<forall>t. count (owned (snd s)) t = (if open_token (fst s) t then 1 else 0))"

lemma owned_simps [simp]:
  "owned [] = {#}" "owned (tx # txs) = mset (tokens (tx_buffer_writes tx)) + owned txs"
  "owned (xs @ ys) = owned xs + owned ys"
  by (simp_all add: owned_def)

lemma failure_outcome_final: "failure_outcome failure \<noteq> OutPending"
  by (auto simp: failure_outcome_def split: kernel_error.splits buffer_error.splits)

lemma client_inv_focus:
  assumes "client_inv sz (c, pre @ tx # post)"
  obtains M where "carries tx M" "results_ok sz c" "distinct (tokens (tx_buffer_writes tx))"
    "M = mset (tokens (tx_buffer_writes tx))"
    "\<And>t. t \<in> set (tokens (tx_buffer_writes tx)) \<Longrightarrow> open_token c t"
    "\<And>t. count M t + count (owned pre + owned post) t = (if open_token c t then 1 else 0)"
proof -
  let ?M = "mset (tokens (tx_buffer_writes tx))"
  have cnt: "count ?M t + count (owned pre + owned post) t = (if open_token c t then 1 else 0)" for t
    using assms by (simp add: client_inv_def ac_simps)
  have le: "count ?M t \<le> (if open_token c t then 1 else 0)" for t using cnt [of t] by linarith
  have "distinct (tokens (tx_buffer_writes tx))"
    unfolding distinct_count_atmost_1
  proof (intro allI)
    fix t
    show "count ?M t = (if t \<in> set (tokens (tx_buffer_writes tx)) then 1 else 0)"
      using le [of t] by (auto simp: count_eq_zero_iff not_in_iff split: if_splits)
        (metis One_nat_def Suc_leI count_greater_zero_iff le_antisym set_mset_mset)
  qed
  moreover have "open_token c t" if "t \<in> set (tokens (tx_buffer_writes tx))" for t
  proof -
    have "0 < count ?M t" using that by simp
    then show ?thesis using le [of t] by (auto split: if_splits)
  qed
  ultimately show thesis using that [of ?M] assms cnt by (auto simp: client_inv_def carries_def)
qed

lemma client_inv_settle:
  assumes "client_inv sz (c, pre @ tx # post)" "results_ok sz c'"
    and "\<And>t. open_token c' t \<longleftrightarrow> open_token c t \<and> t \<notin> set (tokens (tx_buffer_writes tx))"
  shows "client_inv sz (c', pre @ post)"
proof -
  obtain M where M: "M = mset (tokens (tx_buffer_writes tx))"
    "\<And>t. count M t + count (owned pre + owned post) t = (if open_token c t then 1 else 0)"
    by (rule client_inv_focus [OF assms(1)]) (rule that)
  have "count (owned pre + owned post) t = (if open_token c' t then 1 else 0)" for t
  proof (cases "t \<in># M")
    case True
    then have "0 < count M t" by (simp only: count_greater_zero_iff)
    moreover have "count M t + count (owned pre + owned post) t \<le> 1" using M(2) [of t] by (simp split: if_splits)
    ultimately have "count (owned pre + owned post) t = 0" by linarith
    then show ?thesis using True M(1) assms(3) by simp
  next
    case False
    then have "count M t = 0" by (simp add: not_in_iff)
    then have "count (owned pre + owned post) t = (if open_token c t then 1 else 0)" using M(2) [of t] by simp
    then show ?thesis using False M(1) assms(3) by simp
  qed
  then show ?thesis using assms(1,2) by (simp add: client_inv_def)
qed

lemma client_inv_restage:
  assumes "client_inv sz (c, pre @ tx # post)" "results_ok sz c'" "carries tx' M'"
    and "\<And>t. count M' t + (if open_token c t then 1 else 0) =
      count (mset (tokens (tx_buffer_writes tx))) t + (if open_token c' t then 1 else 0)"
  shows "client_inv sz (c', pre @ tx' # post)"
proof -
  obtain M where M: "M = mset (tokens (tx_buffer_writes tx))"
    "\<And>t. count M t + count (owned pre + owned post) t = (if open_token c t then 1 else 0)"
    by (rule client_inv_focus [OF assms(1)]) (rule that)
  have "count M' t + count (owned pre + owned post) t = (if open_token c' t then 1 else 0)" for t
    using M(2) [of t] assms(4) [of t] unfolding M(1) by linarith
  then show ?thesis using assms(1-3) by (simp add: client_inv_def carries_def ac_simps)
qed

lemma client_inv_step:
  assumes "client_step sz s s'" "client_inv sz s"
  shows "client_inv sz s'"
  using assms
proof (induction rule: client_step.induct)
  case (begun tx c txs)
  then show ?case by (simp add: client_inv_def sealed_tokens_def)
next
  case (staged tx tx' c pre post)
  obtain M where M: "carries tx M" "results_ok sz c" "M = mset (tokens (tx_buffer_writes tx))"
    by (rule client_inv_focus [OF staged.prems]) (rule that)
  show ?case by (rule client_inv_restage [OF staged.prems M(2) txn_step_carries [OF staged.hyps M(1)]]) (simp add: M(3))
next
  case (applied i e edits token tx c h status tx' h' c' pre post)
  obtain M where M: "carries tx M" "results_ok sz c" "M = mset (tokens (tx_buffer_writes tx))"
    "\<And>t. t \<in> set (tokens (tx_buffer_writes tx)) \<Longrightarrow> open_token c t"
    by (rule client_inv_focus [OF applied.prems]) (rule that)
  have own: "\<And>t. t \<in># M \<Longrightarrow> open_token c t" using M(3,4) by simp
  note out = apply_buffer_ok [OF M(2,1) own applied.hyps]
  show ?case
  proof (cases status)
    case ApplyStaged
    show ?thesis
    proof (cases token)
      case None
      then show ?thesis using out ApplyStaged M(3)
        by (intro client_inv_restage [OF applied.prems, of c' tx' M]) simp_all
    next
      case (Some n)
      then have "results_ok sz c'" "carries tx' (M + {#n#})" "\<not> open_token c n"
        "\<And>t. open_token c' t \<longleftrightarrow> open_token c t \<or> t = n"
        using out ApplyStaged by simp_all
      then show ?thesis using M(3) by (intro client_inv_restage [OF applied.prems, of c' tx' "M + {#n#}"]) auto
    qed
  next
    case ApplyStale
    then show ?thesis using out M(1,3)
      by (intro client_inv_restage [OF applied.prems, of c' tx' M]) simp_all
  qed
next
  case (refused i e edits token tx c h err c' pre post)
  obtain M where M: "carries tx M" "results_ok sz c" "M = mset (tokens (tx_buffer_writes tx))"
    "\<And>t. t \<in> set (tokens (tx_buffer_writes tx)) \<Longrightarrow> open_token c t"
    by (rule client_inv_focus [OF refused.prems]) (rule that)
  have own: "\<And>t. t \<in># M \<Longrightarrow> open_token c t" using M(3,4) by simp
  show ?case using apply_buffer_ok [OF M(2,1) own refused.hyps] M(1,3)
    by (intro client_inv_restage [OF refused.prems, of c' tx M]) simp_all
next
  case (committed snapshot tx c tx' c' pre post)
  obtain M where M: "results_ok sz c" "distinct (tokens (tx_buffer_writes tx))"
    "\<And>t. t \<in> set (tokens (tx_buffer_writes tx)) \<Longrightarrow> open_token c t"
    by (rule client_inv_focus [OF committed.prems]) (rule that)
  show ?case
  proof (cases "has_tagged_buffer_apply tx")
    case True
    obtain ws c1 where "complete_loop sz (tx_buffer_writes tx) snapshot budget_default c = Some (ws, c1)" "results_ok sz c1"
      "\<And>t. open_token c1 t \<longleftrightarrow> open_token c t \<and> t \<notin> set (tokens (tx_buffer_writes tx))"
      by (rule complete_settles [OF M committed.hyps(1), where budget = budget_default]) (assumption | rule that)+
    then show ?thesis using committed.hyps(2) True client_inv_settle [OF committed.prems]
      by (simp add: complete_buffer_applies_def)
  next
    case False
    then show ?thesis using committed.hyps(2) client_inv_settle [OF committed.prems M(1)] no_token_iff [of tx]
      by (simp add: complete_buffer_applies_def)
  qed
next
  case (failed failure current tx c tx' c' pre post)
  obtain M where M: "results_ok sz c" "distinct (tokens (tx_buffer_writes tx))"
    "\<And>t. t \<in> set (tokens (tx_buffer_writes tx)) \<Longrightarrow> open_token c t"
    by (rule client_inv_focus [OF failed.prems]) (rule that)
  obtain ws c1 where "finish_all sz (failure_outcome failure) (\<lambda>i _. published_revision current i) (tx_buffer_writes tx) c = Some (ws, c1)"
    "results_ok sz c1" "\<And>t. open_token c1 t \<longleftrightarrow> open_token c t \<and> t \<notin> set (tokens (tx_buffer_writes tx))"
    by (rule finish_all_settles [OF M failure_outcome_final]) (assumption | rule that)+
  then show ?case using failed.hyps client_inv_settle [OF failed.prems] by (simp add: fail_buffer_applies_def)
next
  case (dropped tx c c' pre post)
  obtain M where M: "results_ok sz c" "distinct (tokens (tx_buffer_writes tx))"
    "\<And>t. t \<in> set (tokens (tx_buffer_writes tx)) \<Longrightarrow> open_token c t"
    by (rule client_inv_focus [OF dropped.prems]) (rule that)
  show ?case
  proof (cases "has_tagged_buffer_apply tx")
    case True
    obtain ws c1 where "finish_all sz OutAborted (\<lambda>_ p. case pb_base p of None \<Rightarrow> 0 | Some b \<Rightarrow> st_revision b) (tx_buffer_writes tx) c = Some (ws, c1)"
      "results_ok sz c1" "\<And>t. open_token c1 t \<longleftrightarrow> open_token c t \<and> t \<notin> set (tokens (tx_buffer_writes tx))"
      by (rule finish_all_settles [OF M, of OutAborted]) (assumption | simp | rule that)+
    then show ?thesis using dropped.hyps True client_inv_settle [OF dropped.prems] by (simp add: drop_transaction_def)
  next
    case False
    then show ?thesis using dropped.hyps client_inv_settle [OF dropped.prems M(1)] no_token_iff [of tx]
      by (simp add: drop_transaction_def)
  qed
qed

lemma client_inv_start: "client_inv sz (results_default, [])"
  by (simp add: client_inv_def results_ok_def results_inv_def results_default_def open_token_def
      MAX_RESULTS_def MAX_RESULT_BYTES_def)

lemma client_inv_reachable: "(client_step sz)\<^sup>*\<^sup>* (results_default, []) s \<Longrightarrow> client_inv sz s"
  by (induction rule: rtranclp_induct) (blast intro: client_inv_start client_inv_step)+

end
