(* ===== verification/ClientProperties.thy ===== *)
theory ClientProperties
  imports BufferProperties BufferTokens
begin

text \<open>
  The properties of client edits and of retained history, each with a witness.
\<close>

section \<open>The result table\<close>

text \<open>
  C14. However the open transactions interleave, the result table holds at most \<open>MAX_RESULTS\<close> entries and
  \<open>MAX_RESULT_BYTES\<close> bytes, and its pending entries are exactly the tokens carried by the open
  transactions, each by one of them only: no pending result is ever evicted, leaked or shared.
\<close>

theorem result_table_invariant:
  assumes "(client_step sz)\<^sup>*\<^sup>* (results_default, []) (c, txs)"
  shows "length (cr_entries c) \<le> MAX_RESULTS \<and> cr_bytes c \<le> MAX_RESULT_BYTES \<and>
    (\<forall>t. count (owned txs) t = (if open_token c t then 1 else 0))"
  using client_inv_reachable [OF assms] by (simp add: client_inv_def results_ok_def)

definition demo_fresh :: pending_buffer where
  "demo_fresh = \<lparr>pb_metadata = demo_metadata 1 Durable Span, pb_base = None, pb_text = text_default, pb_deleted = False,
     pb_touched = False, pb_sealed = False, pb_token = None, pb_compact = False, pb_reverted = False,
     pb_projected_revision = None\<rparr>"

definition demo_reserved :: client_results where
  "demo_reserved = results_default\<lparr>cr_entries :=
     [(7, \<lparr>ar_token = 7, ar_buffer = 1, ar_revision = 0, ar_outcome = OutPending\<rparr>)]\<rparr>"

definition demo_tagged :: pending_buffer where
  "demo_tagged = demo_fresh\<lparr>pb_sealed := True, pb_token := Some 7\<rparr>"

lemma demo_apply:
  "apply_buffer sz 1 0 [] (Some 7) (demo_txn [(1, demo_fresh)]) results_default 0 =
     Some (Inr (ApplyStaged, demo_txn [(1, demo_tagged)], 0) :: nat kernel_error + _, demo_reserved)"
proof -
  have "make_room sz results_default = Some (True, results_default)"
    by (subst make_room.simps) (simp add: results_default_def MAX_RESULTS_def)
  moreover have "bf_get bf_default 1 = None" by (simp add: bf_get_def bf_default_def)
  ultimately show ?thesis
    by (simp add: apply_buffer_def prepare_apply_def buffer_revision_of_def buffer_metadata_of_def buffer_text_of_def
        demo_txn_def demo_fresh_def demo_tagged_def demo_reserved_def published_revision_def already_applied_def
        demo_snapshot_def kbind_def kok_def reserve_def results_default_def om_contains_def stage_apply_def buffer_write_def
        ensure_buffer_mutable_def put_pending_def invalidate_computed_views_def)
qed

lemma demo_create:
  "create_buffer (demo_metadata 1 Durable Span) (demo_txn []) = (Some (Inr (demo_txn [(1, demo_fresh)])) :: (nat, _) kresult)"
  by (simp add: create_buffer_def demo_txn_def demo_snapshot_def demo_fresh_def demo_metadata_def Let_def bf_get_def bf_default_def
      om_contains_def rl_contains_key_def rl_get_def rl_get_named_def rl_new_def buffer_named_def bf_named_def kok_def
      invalidate_computed_views_def)

lemma demo_reaches:
  "(client_step sz)\<^sup>*\<^sup>* (results_default, []) (demo_reserved, [demo_txn [(1, demo_tagged)]])"
proof -
  have "client_step sz (results_default, []) (results_default, [demo_txn []])"
    by (rule client_step.begun) (simp add: demo_txn_def)
  moreover have "client_step sz (results_default, [] @ demo_txn [] # []) (results_default, [] @ demo_txn [(1, demo_fresh)] # [])"
    by (rule client_step.staged [OF txn_step.created [OF demo_create]])
  moreover have "client_step sz (results_default, [] @ demo_txn [(1, demo_fresh)] # []) (demo_reserved, [] @ demo_txn [(1, demo_tagged)] # [])"
    by (rule client_step.applied [OF demo_apply])
  ultimately show ?thesis by (simp add: converse_rtranclp_into_rtranclp)
qed

theorem result_table_invariant_witness:
  "open_token demo_reserved 7 \<and> count (owned [demo_txn [(1, demo_tagged)]]) 7 = 1"
  using result_table_invariant [OF demo_reaches]
  by (simp add: open_token_def demo_reserved_def)

text \<open>
  C28. Settling is total: in every reachable state, failing the commit of an open transaction and
  dropping it both return, and afterwards none of the tokens it carried is pending while every other
  pending token still is.
\<close>

theorem tokens_settle:
  assumes "(client_step sz)\<^sup>*\<^sup>* (results_default, []) (c, pre @ tx # post)"
  shows "(\<exists>tx' c'. fail_buffer_applies sz failure current tx c = Some (tx', c') \<and> \<not> has_tagged_buffer_apply tx' \<and>
      (\<forall>t. open_token c' t \<longleftrightarrow> open_token c t \<and> t \<notin> set (tokens (tx_buffer_writes tx)))) \<and>
    (\<exists>c'. drop_transaction sz tx c = Some c' \<and>
      (\<forall>t. open_token c' t \<longleftrightarrow> open_token c t \<and> t \<notin> set (tokens (tx_buffer_writes tx))))"
proof -
  obtain M where M: "results_ok sz c" "distinct (tokens (tx_buffer_writes tx))"
    "\<And>t. t \<in> set (tokens (tx_buffer_writes tx)) \<Longrightarrow> open_token c t"
    by (rule client_inv_focus [OF client_inv_reachable [OF assms]]) (rule that)
  obtain ws c1 where f: "finish_all sz (failure_outcome failure) (\<lambda>i _. published_revision current i) (tx_buffer_writes tx) c = Some (ws, c1)"
    "tokens ws = []" "\<And>t. open_token c1 t \<longleftrightarrow> open_token c t \<and> t \<notin> set (tokens (tx_buffer_writes tx))"
    by (rule finish_all_settles [OF M failure_outcome_final]) (assumption | rule that)+
  obtain ws2 c2 where d: "finish_all sz OutAborted (\<lambda>_ p. case pb_base p of None \<Rightarrow> 0 | Some b \<Rightarrow> st_revision b) (tx_buffer_writes tx) c = Some (ws2, c2)"
    "\<And>t. open_token c2 t \<longleftrightarrow> open_token c t \<and> t \<notin> set (tokens (tx_buffer_writes tx))"
    by (rule finish_all_settles [OF M, of OutAborted]) (assumption | simp | rule that)+
  have "fail_buffer_applies sz failure current tx c = Some (tx\<lparr>tx_buffer_writes := ws\<rparr>, c1)"
    using f(1) by (simp add: fail_buffer_applies_def)
  moreover have "\<not> has_tagged_buffer_apply (tx\<lparr>tx_buffer_writes := ws\<rparr>)" using f(2) by (simp add: no_token_iff)
  moreover have "\<exists>c'. drop_transaction sz tx c = Some c' \<and>
      (\<forall>t. open_token c' t \<longleftrightarrow> open_token c t \<and> t \<notin> set (tokens (tx_buffer_writes tx)))"
    using d no_token_iff [of tx] by (cases "has_tagged_buffer_apply tx") (simp_all add: drop_transaction_def)
  ultimately show ?thesis using f(3) by blast
qed

theorem tokens_settle_witness:
  "\<exists>c'. drop_transaction (\<lambda>_. 0) (demo_txn [(1, demo_tagged)]) demo_reserved = Some c' \<and> \<not> open_token c' 7"
proof -
  have "(client_step (\<lambda>_. 0))\<^sup>*\<^sup>* (results_default, []) (demo_reserved, [] @ demo_txn [(1, demo_tagged)] # [])"
    using demo_reaches by simp
  from tokens_settle [OF this, of "KBuffer 1 BufUnknown" "demo_snapshot bf_default"]
  show ?thesis by (auto simp: demo_txn_def demo_tagged_def)
qed

section \<open>Retained history\<close>

text \<open>
  C27. A commit only moves buffers forward: no published buffer disappears, its metadata stays, its
  revision does not decrease, a deletion is final, and a buffer whose state changed has a newly
  allocated state.
\<close>

theorem commit_advances:
  assumes "materialize_buffers tx current h = (Some (Inr (states', changes, h')) :: ('v, _) kresult)"
    and "states_ok H h (sn_buffers current)" "writes_ok H h (tx_buffer_writes tx) (sn_buffers current)"
    and "addressed h (sn_buffers current)"
  shows "advances h (sn_buffers current) states' \<and> addressed h' states'"
  using materialize_advances [OF assms(1) [unfolded materialize_buffers_def] assms(2-4)] by simp

theorem commit_advances_witness:
  "\<exists>states' changes h'. materialize_buffers (demo_txn [(1, demo_created)]) (demo_snapshot bf_default) demo_h =
     (Some (Inr (states', changes, h')) :: (nat, _) kresult) \<and> addressed h' states'"
proof -
  obtain states' changes h' where m: "materialize_buffers (demo_txn [(1, demo_created)]) (demo_snapshot bf_default) demo_h =
      (Some (Inr (states', changes, h')) :: (nat, _) kresult)"
    using demo_materialize by blast
  obtain H where H: "text_ok H demo_h demo_text" using demo_ok by blast
  have empty: "states_ok H demo_h bf_default" by (simp add: states_ok_def) (simp add: bf_default_def bf_get_def)
  have "advances demo_h (sn_buffers (demo_snapshot bf_default)) states' \<and> addressed h' states'"
    by (rule commit_advances [OF m, of H])
      (use H empty in \<open>auto simp: demo_snapshot_def demo_txn_def writes_ok_def pending_ok_def demo_created_def demo_metadata_def
         addressed_def bf_default_def bf_get_def\<close>)
  with m show ?thesis by blast
qed

text \<open>
  C26. Publishing with history: the compare-and-set publishes exactly when the version is the expected
  one; recording the changed buffers then always succeeds, keeps at most \<open>HISTORY_BUFFERS\<close> rings of at
  most \<open>HISTORY_DEPTH\<close> versions with strictly increasing revisions, and the newest version of every
  ring has the revision that is published.
\<close>

theorem publish_records_history:
  assumes "history_ok hist" "tracks hist (bf_get (sn_buffers prior))" "distinct is"
    and "bf_ok (sn_buffers prior)" "bf_ok (sn_buffers newer)"
    and "advances h (sn_buffers prior) (sn_buffers newer)" "addressed h (sn_buffers prior)"
    and "\<forall>i. i \<notin> set is \<longrightarrow> bf_get (sn_buffers newer) i = bf_get (sn_buffers prior) i"
  shows "\<exists>hist'. try_publish_with_buffer_history prior newer is root hist =
      Some (sn_version root = sn_version prior, if sn_version root = sn_version prior then newer else root, hist') \<and>
    history_ok hist' \<and>
    tracks hist' (bf_get (sn_buffers (if sn_version root = sn_version prior then newer else prior)))"
proof -
  obtain hist' where r: "record_changed prior newer is hist = Some hist'" "history_ok hist'"
    "tracks hist' (\<lambda>i. if i \<in> {} \<union> set is then bf_get (sn_buffers newer) i else bf_get (sn_buffers prior) i)"
    using record_changed_ok [OF assms(1,3-7) refl refl, of "{}"] assms(2) by auto
  have "(\<lambda>i. if i \<in> {} \<union> set is then bf_get (sn_buffers newer) i else bf_get (sn_buffers prior) i) = bf_get (sn_buffers newer)"
    using assms(8) by (auto simp: fun_eq_iff)
  with r(3) have t: "tracks hist' (bf_get (sn_buffers newer))" by simp
  have nil: "hist' = hist" if "is = []" using r(1) that by simp
  show ?thesis
    using r(1,2) t nil assms(1,2)
    by (cases "sn_version root = sn_version prior"; cases "is = []")
       (simp_all add: try_publish_with_buffer_history_def try_publish_def)
qed

theorem publish_records_history_witness:
  "\<exists>hist'. try_publish_with_buffer_history (demo_snapshot bf_default) (demo_snapshot demo_states) [1, 2]
      (demo_snapshot bf_default) history_default = Some (True, demo_snapshot demo_states, hist') \<and>
    history_ok hist' \<and> tracks hist' (bf_get demo_states)"
proof -
  have "bf_ok bf_default" "bf_ok demo_states"
    using demo_states_ok by (auto simp: states_ok_def)
  then show ?thesis
    using publish_records_history [of history_default "demo_snapshot bf_default" "[1, 2]" "demo_snapshot demo_states" 0
        "demo_snapshot bf_default"]
    by (simp add: demo_snapshot_def history_ok_def history_default_def tracks_def advances_def addressed_def demo_states_get
        bf_get_def bf_default_def HISTORY_BUFFERS_def)
qed

end
