(* ===== verification/Bytes.thy ===== *)
theory Bytes
  imports Mica_Prelude
begin

text \<open>
  Byte strings: fixed-width little- and big-endian words, UTF-8 as the standard library encodes and
  validates it, and the strict divergence order of two byte strings, from which the order-preserving
  key encodings and the prefix-free record encodings are derived. A byte is a natural number below 256.
\<close>

type_synonym byte = nat
type_synonym bytes = "byte list"

definition bytes_ok :: "bytes \<Rightarrow> bool" where
  "bytes_ok bs \<longleftrightarrow> (\<forall>b \<in> set bs. b < 256)"

lemma bytes_ok_simps [simp]:
  "bytes_ok []" "bytes_ok (b # bs) \<longleftrightarrow> b < 256 \<and> bytes_ok bs" "bytes_ok (xs @ ys) \<longleftrightarrow> bytes_ok xs \<and> bytes_ok ys"
  by (auto simp: bytes_ok_def)

section \<open>Fixed-width words\<close>

primrec le_bytes :: "nat \<Rightarrow> nat \<Rightarrow> bytes" where
  "le_bytes 0 n = []"
| "le_bytes (Suc k) n = n mod 256 # le_bytes k (n div 256)"

primrec le_value :: "bytes \<Rightarrow> nat" where
  "le_value [] = 0"
| "le_value (b # bs) = b + 256 * le_value bs"

definition be_bytes :: "nat \<Rightarrow> nat \<Rightarrow> bytes" where
  "be_bytes k n = rev (le_bytes k n)"

definition be_value :: "bytes \<Rightarrow> nat" where
  "be_value bs = le_value (rev bs)"

lemma length_le_bytes [simp]: "length (le_bytes k n) = k"
  by (induction k arbitrary: n) auto

lemma length_be_bytes [simp]: "length (be_bytes k n) = k"
  by (simp add: be_bytes_def)

lemma le_bytes_ok [simp]: "bytes_ok (le_bytes k n)"
  by (induction k arbitrary: n) auto

lemma be_bytes_ok [simp]: "bytes_ok (be_bytes k n)"
  using le_bytes_ok [of k n] by (simp add: be_bytes_def bytes_ok_def)

lemma le_value_bytes [simp]: "n < 256 ^ k \<Longrightarrow> le_value (le_bytes k n) = n"
proof (induction k arbitrary: n)
  case (Suc k)
  then have "n div 256 < 256 ^ k" by (simp add: less_mult_imp_div_less mult.commute)
  with Suc.IH [of "n div 256"] show ?case by simp
qed simp

lemma be_value_bytes [simp]: "n < 256 ^ k \<Longrightarrow> be_value (be_bytes k n) = n"
  by (simp add: be_value_def be_bytes_def)

lemma le_value_bound: "bytes_ok bs \<Longrightarrow> le_value bs < 256 ^ length bs"
proof (induction bs)
  case (Cons b bs)
  then have "b < 256" "le_value bs < 256 ^ length bs" by simp_all
  then have "b + 256 * le_value bs < 256 + 256 * (256 ^ length bs - 1)" by linarith
  also have "\<dots> = 256 ^ length (b # bs)" by (simp add: algebra_simps)
  finally show ?case by simp
qed simp

lemma le_bytes_value: "bytes_ok bs \<Longrightarrow> le_bytes (length bs) (le_value bs) = bs"
  by (induction bs) auto

lemma be_bytes_Suc: "be_bytes (Suc k) n = be_bytes k (n div 256) @ [n mod 256]"
  by (simp add: be_bytes_def)

section \<open>Strict divergence\<close>

text \<open>The first difference of the two strings decides, and neither is a prefix of the other.\<close>

definition below :: "bytes \<Rightarrow> bytes \<Rightarrow> bool" where
  "below xs ys \<longleftrightarrow> (\<exists>p a b s t. xs = p @ a # s \<and> ys = p @ b # t \<and> a < b)"

lemma below_prefix [simp]: "below (p @ xs) (p @ ys) \<longleftrightarrow> below xs ys"
proof
  assume "below (p @ xs) (p @ ys)"
  then obtain q a b s t where e: "p @ xs = q @ a # s" "p @ ys = q @ b # t" "a < b" by (auto simp: below_def)
  have "length p \<le> length q"
  proof (rule ccontr)
    assume n: "\<not> length p \<le> length q"
    then have "(p @ xs) ! length q = (p @ ys) ! length q" by (simp add: nth_append)
    then show False using e by (simp add: nth_append)
  qed
  then have "\<exists>r. q = p @ r" using e(1) by (metis append_eq_append_conv_if append_take_drop_id)
  then obtain r where "q = p @ r" by blast
  then have "xs = r @ a # s" "ys = r @ b # t" using e by simp_all
  then show "below xs ys" using e(3) unfolding below_def by blast
next
  assume "below xs ys"
  then show "below (p @ xs) (p @ ys)" unfolding below_def by (metis append.assoc)
qed

lemma below_Cons [simp]: "below (x # xs) (y # ys) \<longleftrightarrow> x < y \<or> (x = y \<and> below xs ys)"
proof
  assume "below (x # xs) (y # ys)"
  then obtain p a b s t where e: "x # xs = p @ a # s" "y # ys = p @ b # t" "a < b" by (auto simp: below_def)
  then show "x < y \<or> (x = y \<and> below xs ys)" by (cases p) (auto simp: below_def)
next
  assume "x < y \<or> (x = y \<and> below xs ys)"
  then show "below (x # xs) (y # ys)"
  proof
    assume "x < y"
    then show ?thesis unfolding below_def by (metis append_Nil)
  next
    assume "x = y \<and> below xs ys"
    then show ?thesis using below_prefix [of "[x]" xs ys] by simp
  qed
qed

lemma below_Nil [simp]: "\<not> below [] ys" "\<not> below xs []"
  by (auto simp: below_def)

lemma below_append: "below xs ys \<Longrightarrow> below (xs @ s) (ys @ t)"
  by (fastforce simp: below_def)

lemma below_irrefl [simp]: "\<not> below xs xs"
  by (induction xs) auto

lemma below_asym: "below xs ys \<Longrightarrow> \<not> below ys xs"
proof (induction xs arbitrary: ys)
  case (Cons x xs)
  then show ?case by (cases ys) auto
qed simp

lemma below_trans: "below xs ys \<Longrightarrow> below ys zs \<Longrightarrow> below xs zs"
proof (induction xs arbitrary: ys zs)
  case (Cons x xs)
  then show ?case by (cases ys; cases zs) auto
qed simp

text \<open>Strict divergence is lexicographic order with the longer string not an extension.\<close>

lemma below_lex: "below xs ys \<Longrightarrow> (xs, ys) \<in> lexord {(a, b). a < b}"
  unfolding below_def lexord_def by blast

lemma below_not_prefix: "below xs ys \<Longrightarrow> ys \<noteq> xs @ zs \<and> xs \<noteq> ys @ zs"
proof (induction xs arbitrary: ys)
  case (Cons x xs)
  then show ?case by (cases ys) auto
qed simp

lemma be_bytes_below: "n < m \<Longrightarrow> m < 256 ^ k \<Longrightarrow> below (be_bytes k n) (be_bytes k m)"
proof (induction k arbitrary: n m)
  case (Suc k)
  have m: "m div 256 < 256 ^ k" using Suc.prems(2) by (simp add: less_mult_imp_div_less mult.commute)
  show ?case
  proof (cases "n div 256 = m div 256")
    case True
    then have "n mod 256 < m mod 256"
      using Suc.prems(1) by (metis add_less_cancel_left div_mult_mod_eq)
    then show ?thesis using True by (simp add: be_bytes_Suc)
  next
    case False
    then have "n div 256 < m div 256" using Suc.prems(1) by (simp add: div_le_mono le_neq_implies_less)
    then show ?thesis using Suc.IH [OF _ m] by (simp add: be_bytes_Suc below_append)
  qed
qed simp

section \<open>UTF-8\<close>

text \<open>Rust's \<open>char\<close> is a scalar value: no surrogates, at most \<open>0x10FFFF\<close>.\<close>

definition is_scalar :: "scalar \<Rightarrow> bool" where
  "is_scalar c \<longleftrightarrow> c < 0xD800 \<or> (0xE000 \<le> c \<and> c < 0x110000)"

definition scalars_ok :: "rstr \<Rightarrow> bool" where
  "scalars_ok s \<longleftrightarrow> (\<forall>c \<in> set s. is_scalar c)"

definition utf8_encode :: "scalar \<Rightarrow> bytes" where
  "utf8_encode c =
     (if c < 0x80 then [c]
      else if c < 0x800 then [0xC0 + c div 64, 0x80 + c mod 64]
      else if c < 0x10000 then [0xE0 + c div 4096, 0x80 + c div 64 mod 64, 0x80 + c mod 64]
      else [0xF0 + c div 262144, 0x80 + c div 4096 mod 64, 0x80 + c div 64 mod 64, 0x80 + c mod 64])"

text \<open>\<open>str::as_bytes\<close>.\<close>

definition as_bytes :: "rstr \<Rightarrow> bytes" where
  "as_bytes s = concat (map utf8_encode s)"

definition cont :: "byte \<Rightarrow> bool" where
  "cont b \<longleftrightarrow> 0x80 \<le> b \<and> b < 0xC0"

text \<open>\<open>String::from_utf8\<close>: overlong forms, surrogates and values past \<open>0x10FFFF\<close> are rejected.\<close>

fun from_utf8 :: "bytes \<Rightarrow> rstr option" where
  "from_utf8 [] = Some []"
| "from_utf8 (a # r) =
     (if a < 0x80 then map_option ((#) a) (from_utf8 r)
      else if 0xC2 \<le> a \<and> a < 0xE0 then
        (case r of b # r1 \<Rightarrow>
           if cont b then map_option ((#) ((a - 0xC0) * 64 + (b - 0x80))) (from_utf8 r1) else None
         | _ \<Rightarrow> None)
      else if 0xE0 \<le> a \<and> a < 0xF0 then
        (case r of b # c # r1 \<Rightarrow>
           if cont b \<and> cont c \<and> (a = 0xE0 \<longrightarrow> 0xA0 \<le> b) \<and> (a = 0xED \<longrightarrow> b < 0xA0)
           then map_option ((#) ((a - 0xE0) * 4096 + (b - 0x80) * 64 + (c - 0x80))) (from_utf8 r1) else None
         | _ \<Rightarrow> None)
      else if 0xF0 \<le> a \<and> a < 0xF5 then
        (case r of b # c # d # r1 \<Rightarrow>
           if cont b \<and> cont c \<and> cont d \<and> (a = 0xF0 \<longrightarrow> 0x90 \<le> b) \<and> (a = 0xF4 \<longrightarrow> b < 0x90)
           then map_option ((#) ((a - 0xF0) * 262144 + (b - 0x80) * 4096 + (c - 0x80) * 64 + (d - 0x80))) (from_utf8 r1)
           else None
         | _ \<Rightarrow> None)
      else None)"

lemma as_bytes_simps [simp]: "as_bytes [] = []" "as_bytes (c # s) = utf8_encode c @ as_bytes s"
  by (simp_all add: as_bytes_def)

lemma length_utf8_encode: "length (utf8_encode c) = len_utf8 c"
  by (simp add: utf8_encode_def len_utf8_def)

lemma length_as_bytes [simp]: "length (as_bytes s) = str_len s"
  by (induction s) (simp_all add: length_utf8_encode)

lemma utf8_encode_ok: "is_scalar c \<Longrightarrow> bytes_ok (utf8_encode c)"
  by (auto simp: utf8_encode_def is_scalar_def)

lemma as_bytes_ok: "scalars_ok s \<Longrightarrow> bytes_ok (as_bytes s)"
  by (induction s) (auto simp: scalars_ok_def utf8_encode_ok)

lemma split_base64:
  fixes c :: nat
  shows "c div 4096 * 4096 + (c div 64 mod 64) * 64 + c mod 64 = c"
    and "c div 262144 * 262144 + (c div 4096 mod 64) * 4096 + (c div 64 mod 64) * 64 + c mod 64 = c"
proof -
  have d: "c div 4096 = c div 64 div 64" "c div 262144 = c div 64 div 64 div 64"
    by (simp_all add: div_mult2_eq [symmetric])
  have e: "c div 64 * 64 + c mod 64 = c" "c div 64 div 64 * 64 + c div 64 mod 64 = c div 64"
    "c div 64 div 64 div 64 * 64 + c div 64 div 64 mod 64 = c div 64 div 64"
    by (rule div_mult_mod_eq)+
  show "c div 4096 * 4096 + (c div 64 mod 64) * 64 + c mod 64 = c" unfolding d using e by linarith
  show "c div 262144 * 262144 + (c div 4096 mod 64) * 4096 + (c div 64 mod 64) * 64 + c mod 64 = c"
    unfolding d using e by linarith
qed

lemma from_utf8_3:
  assumes "a < 16" "b < 64" "d < 64" "a = 0 \<Longrightarrow> 32 \<le> b" "a = 13 \<Longrightarrow> b < 32"
  shows "from_utf8 ((0xE0 + a) # (0x80 + b) # (0x80 + d) # r) = map_option ((#) (a * 4096 + b * 64 + d)) (from_utf8 r)"
  using assms by (simp add: cont_def)

lemma from_utf8_4:
  assumes "a < 5" "b < 64" "d < 64" "e < 64" "a = 0 \<Longrightarrow> 16 \<le> b" "a = 4 \<Longrightarrow> b < 16"
  shows "from_utf8 ((0xF0 + a) # (0x80 + b) # (0x80 + d) # (0x80 + e) # r) =
    map_option ((#) (a * 262144 + b * 4096 + d * 64 + e)) (from_utf8 r)"
  using assms by (simp add: cont_def)

lemma from_utf8_encode:
  assumes "is_scalar c"
  shows "from_utf8 (utf8_encode c @ r) = map_option ((#) c) (from_utf8 r)"
proof -
  consider (1) "c < 0x80" | (2) "0x80 \<le> c" "c < 0x800" | (3) "0x800 \<le> c" "c < 0x10000" | (4) "0x10000 \<le> c" "c < 0x110000"
    using assms unfolding is_scalar_def by linarith
  then show ?thesis
  proof cases
    case 2
    define a where "a = c div 64"
    have "2 \<le> a" "a < 32" "a * 64 + c mod 64 = c" using 2 by (auto simp: a_def less_mult_imp_div_less)
    with 2 show ?thesis by (simp add: utf8_encode_def cont_def a_def [symmetric])
  next
    case 3
    have q: "c div 4096 < 16" "c div 64 mod 64 < 64" "c mod 64 < 64" using 3 by (auto simp: less_mult_imp_div_less)
    have v: "c div 4096 * 4096 + (c div 64 mod 64) * 64 + c mod 64 = c" by (rule split_base64(1))
    have low: "32 \<le> c div 64 mod 64" if "c div 4096 = 0" using that 3 v by linarith
    have sur: "c div 64 mod 64 < 32" if "c div 4096 = 13" using that 3 v assms q by (auto simp: is_scalar_def)
    show ?thesis using from_utf8_3 [OF q low sur, of r] 3 unfolding v by (simp add: utf8_encode_def del: from_utf8.simps)
  next
    case 4
    have q: "c div 262144 < 5" "c div 4096 mod 64 < 64" "c div 64 mod 64 < 64" "c mod 64 < 64"
      using 4 by (auto simp: less_mult_imp_div_less)
    have v: "c div 262144 * 262144 + (c div 4096 mod 64) * 4096 + (c div 64 mod 64) * 64 + c mod 64 = c"
      by (rule split_base64(2))
    have low: "16 \<le> c div 4096 mod 64" if "c div 262144 = 0" using that 4 v q by linarith
    have high: "c div 4096 mod 64 < 16" if "c div 262144 = 4" using that 4 v q by linarith
    show ?thesis using from_utf8_4 [OF q low high, of r] 4 unfolding v by (simp add: utf8_encode_def del: from_utf8.simps)
  qed (simp add: utf8_encode_def)
qed

lemma from_utf8_as_bytes [simp]: "scalars_ok s \<Longrightarrow> from_utf8 (as_bytes s) = Some s"
  by (induction s) (auto simp: scalars_ok_def from_utf8_encode)

end
