(* ===== verification/SymbolTable.thy ===== *)
theory SymbolTable
  imports Bytes
begin

text \<open>
  Symbol interning: \<open>crates/var/src/symbol.rs\<close>. The table is process-wide, append-only and behind a lock;
  each thread keeps a small cache in front of it. The read and the write section of \<open>intern\<close> each see
  the table at the moment they hold the lock, so the second may see a larger table than the first:
  \<open>intern\<close> takes both.
\<close>

section \<open>The cache and the table\<close>

definition SYMBOL_CACHE_SIZE :: nat where "SYMBOL_CACHE_SIZE = 16"

record symbol_metadata =
  sm_byte_len :: usize
  sm_char_len :: usize
  sm_is_ascii :: bool

record symbol_cache =
  sc_entries :: "(rstr \<times> symbol) option list"
  sc_next_slot :: usize

definition cache_new :: symbol_cache where
  "cache_new = \<lparr>sc_entries = replicate SYMBOL_CACHE_SIZE None, sc_next_slot = 0\<rparr>"

definition cache_get :: "symbol_cache \<Rightarrow> rstr \<Rightarrow> symbol option" where
  "cache_get cache name =
     map_option snd (find (\<lambda>(n, _). n = name) (List.map_filter id (sc_entries cache)))"

text \<open>The first entry with the name is overwritten; otherwise the next slot is.\<close>

fun update_first :: "rstr \<Rightarrow> symbol \<Rightarrow> (rstr \<times> symbol) option list \<Rightarrow> (rstr \<times> symbol) option list option" where
  "update_first name s [] = None"
| "update_first name s (e # es) =
     (if (case e of Some (n, _) \<Rightarrow> n = name | None \<Rightarrow> False) then Some (Some (name, s) # es)
      else map_option ((#) e) (update_first name s es))"

definition cache_insert :: "rstr \<Rightarrow> symbol \<Rightarrow> symbol_cache \<Rightarrow> symbol_cache" where
  "cache_insert name s cache =
     (case update_first name s (sc_entries cache) of
        Some entries \<Rightarrow> cache\<lparr>sc_entries := entries\<rparr>
      | None \<Rightarrow> cache\<lparr>sc_entries := (sc_entries cache)[sc_next_slot cache := Some (name, s)],
                      sc_next_slot := (sc_next_slot cache + 1) mod SYMBOL_CACHE_SIZE\<rparr>)"

record symbol_data =
  sd_name :: rstr
  sd_metadata :: symbol_metadata

record symbol_table =
  tb_by_name :: "rstr \<Rightarrow> nat option"
  tb_by_id :: "symbol_data list"

definition table_default :: symbol_table where
  "table_default = \<lparr>tb_by_name = Map.empty, tb_by_id = []\<rparr>"

definition is_ascii :: "rstr \<Rightarrow> bool" where
  "is_ascii s \<longleftrightarrow> (\<forall>c \<in> set s. c < 128)"

definition metadata_for :: "rstr \<Rightarrow> symbol_metadata" where
  "metadata_for name = \<lparr>sm_byte_len = str_len name,
     sm_char_len = (if is_ascii name then str_len name else length name), sm_is_ascii = is_ascii name\<rparr>"

definition symbol_name :: "symbol_table \<Rightarrow> symbol \<Rightarrow> rstr option" where
  "symbol_name tab s = (if s < length (tb_by_id tab) then Some (sd_name (tb_by_id tab ! s)) else None)"

definition symbol_metadata_of :: "symbol_table \<Rightarrow> symbol \<Rightarrow> symbol_metadata option" where
  "symbol_metadata_of tab s = (if s < length (tb_by_id tab) then Some (sd_metadata (tb_by_id tab ! s)) else None)"

section \<open>Interning\<close>

text \<open>Looking a name up under a lock: the id and the interned name; \<open>None\<close> outside is the index panic.\<close>

definition lookup_name :: "symbol_table \<Rightarrow> rstr \<Rightarrow> (nat \<times> rstr) option option" where
  "lookup_name tab name =
     (case tb_by_name tab name of
        None \<Rightarrow> Some None
      | Some i \<Rightarrow> if i < length (tb_by_id tab) then Some (Some (i, sd_name (tb_by_id tab ! i))) else None)"

definition push_symbol :: "rstr \<Rightarrow> symbol_table \<Rightarrow> symbol \<times> symbol_table" where
  "push_symbol name tab =
     (let i = length (tb_by_id tab) mod 4294967296 in
      (i, tab\<lparr>tb_by_name := (tb_by_name tab)(name \<mapsto> i),
              tb_by_id := tb_by_id tab @ [\<lparr>sd_name = name, sd_metadata = metadata_for name\<rparr>]\<rparr>))"

definition intern ::
  "rstr \<Rightarrow> symbol_table \<Rightarrow> symbol_table \<Rightarrow> symbol_cache \<Rightarrow> (symbol \<times> symbol_table \<times> symbol_cache) option" where
  "intern name tab tab2 cache =
     (case cache_get cache name of
        Some s \<Rightarrow> Some (s, tab2, cache)
      | None \<Rightarrow>
          (case lookup_name tab name of
             None \<Rightarrow> None
           | Some (Some (i, n)) \<Rightarrow> Some (i, tab2, cache_insert n i cache)
           | Some None \<Rightarrow>
               (case lookup_name tab2 name of
                  None \<Rightarrow> None
                | Some (Some (i, n)) \<Rightarrow> Some (i, tab2, cache_insert n i cache)
                | Some None \<Rightarrow>
                    let (s, tab3) = push_symbol name tab2 in Some (s, tab3, cache_insert name s cache))))"

section \<open>Correctness\<close>

definition table_ok :: "symbol_table \<Rightarrow> bool" where
  "table_ok tab \<longleftrightarrow> length (tb_by_id tab) \<le> 4294967296 \<and>
     (\<forall>name i. tb_by_name tab name = Some i \<longleftrightarrow> symbol_name tab i = Some name)"

definition extends :: "symbol_table \<Rightarrow> symbol_table \<Rightarrow> bool" where
  "extends tab tab' \<longleftrightarrow> (\<exists>more. tb_by_id tab' = tb_by_id tab @ more)"

definition cache_ok :: "symbol_cache \<Rightarrow> symbol_table \<Rightarrow> bool" where
  "cache_ok cache tab \<longleftrightarrow> length (sc_entries cache) = SYMBOL_CACHE_SIZE \<and> sc_next_slot cache < SYMBOL_CACHE_SIZE \<and>
     (\<forall>n s. Some (n, s) \<in> set (sc_entries cache) \<longrightarrow> symbol_name tab s = Some n)"

lemma extends_refl [simp]: "extends tab tab"
  by (simp add: extends_def)

lemma extends_trans: "extends a b \<Longrightarrow> extends b c \<Longrightarrow> extends a c"
  by (auto simp: extends_def)

lemma symbol_name_extends: "extends tab tab' \<Longrightarrow> symbol_name tab s = Some n \<Longrightarrow> symbol_name tab' s = Some n"
  by (auto simp: extends_def symbol_name_def nth_append split: if_splits)

lemma cache_ok_extends: "cache_ok cache tab \<Longrightarrow> extends tab tab' \<Longrightarrow> cache_ok cache tab'"
  unfolding cache_ok_def using symbol_name_extends by blast

lemma table_ok_default: "table_ok table_default"
  by (simp add: table_ok_def table_default_def symbol_name_def)

lemma cache_ok_new: "cache_ok cache_new tab"
  by (simp add: cache_ok_def cache_new_def SYMBOL_CACHE_SIZE_def)

lemma cache_get_ok:
  assumes "cache_ok cache tab" "cache_get cache name = Some s"
  shows "symbol_name tab s = Some name"
proof -
  obtain e where "find (\<lambda>(n, _). n = name) (List.map_filter id (sc_entries cache)) = Some e" "snd e = s"
    using assms(2) by (auto simp: cache_get_def)
  then have "(name, s) \<in> set (List.map_filter id (sc_entries cache))"
    by (auto simp: find_Some_iff) (metis (no_types, lifting) nth_mem prod.collapse split_def)
  then have "Some (name, s) \<in> set (sc_entries cache)" by (auto simp: List.map_filter_def)
  then show ?thesis using assms(1) by (simp add: cache_ok_def)
qed

lemma update_first_set:
  "update_first name s es = Some es' \<Longrightarrow> length es' = length es \<and> set es' \<subseteq> insert (Some (name, s)) (set es)"
  by (induction name s es arbitrary: es' rule: update_first.induct) (auto split: if_splits)

lemma cache_insert_ok:
  assumes "cache_ok cache tab" "symbol_name tab s = Some name"
  shows "cache_ok (cache_insert name s cache) tab"
proof (cases "update_first name s (sc_entries cache)")
  case None
  have "Some (n, q) \<in> insert (Some (name, s)) (set (sc_entries cache))"
    if "Some (n, q) \<in> set ((sc_entries cache)[sc_next_slot cache := Some (name, s)])" for n q
    using that set_update_subset_insert by fast
  then show ?thesis using None assms by (auto simp: cache_insert_def cache_ok_def SYMBOL_CACHE_SIZE_def)
next
  case (Some es)
  then show ?thesis using update_first_set [OF Some] assms by (auto simp: cache_insert_def cache_ok_def)
qed

lemma lookup_name_ok:
  assumes "table_ok tab"
  shows "lookup_name tab name = Some (map_option (\<lambda>i. (i, name)) (tb_by_name tab name))"
proof (cases "tb_by_name tab name")
  case (Some i)
  then have "symbol_name tab i = Some name" using assms by (simp add: table_ok_def)
  with Some show ?thesis by (auto simp: lookup_name_def symbol_name_def split: if_splits)
qed (simp add: lookup_name_def)

lemma push_symbol_ok:
  assumes "table_ok tab" "tb_by_name tab name = None" "length (tb_by_id tab) < 4294967296"
    and "push_symbol name tab = (s, tab')"
  shows "table_ok tab'" "extends tab tab'" "symbol_name tab' s = Some name"
proof -
  have s: "s = length (tb_by_id tab)" and t: "tb_by_name tab' = (tb_by_name tab)(name \<mapsto> s)"
    "tb_by_id tab' = tb_by_id tab @ [\<lparr>sd_name = name, sd_metadata = metadata_for name\<rparr>]"
    using assms(3,4) by (auto simp: push_symbol_def Let_def)
  have nm: "symbol_name tab' i = (if i = s then Some name else symbol_name tab i)" for i
    by (auto simp: symbol_name_def t s nth_append)
  show "extends tab tab'" by (simp add: extends_def t)
  show "symbol_name tab' s = Some name" by (simp add: nm)
  have fresh: "symbol_name tab i \<noteq> Some name" for i using assms(1,2) by (metis option.distinct(1) table_ok_def)
  have old: "tb_by_name tab n = Some i \<longleftrightarrow> symbol_name tab i = Some n" for n i
    using assms(1) by (simp add: table_ok_def)
  have "tb_by_name tab' n = Some i \<longleftrightarrow> symbol_name tab' i = Some n" for n i
  proof (cases "i = s")
    case True
    have "tb_by_name tab n \<noteq> Some s" using old [of n s] by (simp add: symbol_name_def s)
    then show ?thesis using True by (auto simp: t(1) nm)
  next
    case False
    then show ?thesis using old [of n i] fresh [of i] by (auto simp: t(1) nm)
  qed
  then show "table_ok tab'" using assms(3) t(2) by (simp add: table_ok_def)
qed

text \<open>
  Interning returns the symbol of the name, whatever other threads interned in between, and keeps the
  table and the cache consistent.
\<close>

lemma intern_ok:
  assumes "table_ok tab" "table_ok tab2" "extends tab tab2" "cache_ok cache tab" "length (tb_by_id tab2) < 4294967296"
  obtains s tab' cache' where "intern name tab tab2 cache = Some (s, tab', cache')"
    "symbol_name tab' s = Some name" "table_ok tab'" "extends tab2 tab'" "cache_ok cache' tab'"
    "(\<exists>i. symbol_name tab2 i = Some name) \<Longrightarrow> tab' = tab2"
proof -
  note c2 = cache_ok_extends [OF assms(4,3)]
  show thesis
  proof (cases "cache_get cache name")
    case (Some s)
    then show thesis using that [of s tab2 cache] assms(2) c2 cache_get_ok [OF c2 Some] by (simp add: intern_def)
  next
    case cached: None
    show thesis
    proof (cases "tb_by_name tab name")
      case (Some i)
      then have "symbol_name tab2 i = Some name"
        using assms(1) symbol_name_extends [OF assms(3)] by (simp add: table_ok_def)
      then show thesis using that [of i tab2 "cache_insert name i cache"] Some cached assms(2) cache_insert_ok [OF c2]
          lookup_name_ok [OF assms(1), of name] by (simp add: intern_def)
    next
      case None1: None
      show thesis
      proof (cases "tb_by_name tab2 name")
        case (Some i)
        then have "symbol_name tab2 i = Some name" using assms(2) by (simp add: table_ok_def)
        then show thesis using that [of i tab2 "cache_insert name i cache"] Some cached None1 assms(2) cache_insert_ok [OF c2]
            lookup_name_ok [OF assms(1), of name] lookup_name_ok [OF assms(2), of name] by (simp add: intern_def)
      next
        case None
        obtain s tab3 where p: "push_symbol name tab2 = (s, tab3)" by (cases "push_symbol name tab2")
        note ok = push_symbol_ok [OF assms(2) None assms(5) p]
        have no: "\<nexists>i. symbol_name tab2 i = Some name" using assms(2) None by (metis option.distinct(1) table_ok_def)
        show thesis using that [of s tab3 "cache_insert name s cache"] ok no cached None1 None p
            cache_insert_ok [OF cache_ok_extends [OF c2 ok(2)] ok(3)]
            lookup_name_ok [OF assms(1), of name] lookup_name_ok [OF assms(2), of name] by (simp add: intern_def)
      qed
    qed
  qed
qed

end
