(* ===== verification/Values.thy ===== *)
theory Values
  imports SymbolTable
begin

text \<open>
  Mica values: \<open>crates/var/src/value.rs\<close>, \<open>traits.rs\<close> (the canonical order) and \<open>tuple.rs\<close> (tuples and
  relation values). A value is modelled by what its accessors return: immediates by their payload, heap
  values by the object their pointer designates; the words the codec writes for immediates are
  \<open>raw_bits\<close>. The word whose tag and payload are zero is the empty relation of arity zero.

  Words are natural numbers below \<open>2^64\<close>; a shift or a mask is the division or remainder by a power of
  two it computes, and a disjunction of disjoint fields their sum.
\<close>

section \<open>Words and tags\<close>

definition PAYLOAD_LIMIT :: nat where "PAYLOAD_LIMIT = 72057594037927936"
definition U32_LIMIT :: nat where "U32_LIMIT = 4294967296"
definition U64_LIMIT :: nat where "U64_LIMIT = 18446744073709551616"

definition INT_MIN :: int where "INT_MIN = - 36028797018963968"
definition INT_MAX :: int where "INT_MAX = 36028797018963967"

definition TAG_EMPTY_RELATION :: nat where "TAG_EMPTY_RELATION = 0"
definition TAG_BOOL :: nat where "TAG_BOOL = 1"
definition TAG_INT :: nat where "TAG_INT = 2"
definition TAG_FLOAT :: nat where "TAG_FLOAT = 3"
definition TAG_IDENTITY :: nat where "TAG_IDENTITY = 4"
definition TAG_SYMBOL :: nat where "TAG_SYMBOL = 5"
definition TAG_ERROR_CODE :: nat where "TAG_ERROR_CODE = 6"
definition TAG_STRING :: nat where "TAG_STRING = 7"
definition TAG_BYTES :: nat where "TAG_BYTES = 8"
definition TAG_LIST :: nat where "TAG_LIST = 9"
definition TAG_MAP :: nat where "TAG_MAP = 10"
definition TAG_RANGE :: nat where "TAG_RANGE = 11"
definition TAG_ERROR :: nat where "TAG_ERROR = 12"
definition TAG_CAPABILITY :: nat where "TAG_CAPABILITY = 13"
definition TAG_FROB :: nat where "TAG_FROB = 14"
definition TAG_FUNCTION :: nat where "TAG_FUNCTION = 15"
definition TAG_RELATION :: nat where "TAG_RELATION = 16"

lemmas tag_defs = TAG_EMPTY_RELATION_def TAG_BOOL_def TAG_INT_def TAG_FLOAT_def TAG_IDENTITY_def TAG_SYMBOL_def
  TAG_ERROR_CODE_def TAG_STRING_def TAG_BYTES_def TAG_LIST_def TAG_MAP_def TAG_RANGE_def TAG_ERROR_def
  TAG_CAPABILITY_def TAG_FROB_def TAG_FUNCTION_def TAG_RELATION_def

lemmas limit_defs = PAYLOAD_LIMIT_def U32_LIMIT_def U64_LIMIT_def INT_MIN_def INT_MAX_def

definition pack :: "nat \<Rightarrow> nat \<Rightarrow> nat" where
  "pack tag payload = tag * PAYLOAD_LIMIT + payload mod PAYLOAD_LIMIT"

definition word_tag :: "nat \<Rightarrow> nat" where
  "word_tag w = w div PAYLOAD_LIMIT mod 256"

definition word_payload :: "nat \<Rightarrow> nat" where
  "word_payload w = w mod PAYLOAD_LIMIT"

section \<open>Values\<close>

datatype val =
    VBool bool
  | VInt int
  | VFloat nat
  | VIdentity identity
  | VSymbol symbol
  | VErrorCode symbol
  | VString rstr
  | VBytes bytes
  | VList "val list"
  | VMap "(val \<times> val) list"
  | VRelation "symbol list" "val list list"
  | VRange val "val option"
  | VError symbol "rstr option" "val option"
  | VCapability nat
  | VFrob identity val
  | VFunction nat

fun kind :: "val \<Rightarrow> nat" where
  "kind (VBool _) = TAG_BOOL"
| "kind (VInt _) = TAG_INT"
| "kind (VFloat _) = TAG_FLOAT"
| "kind (VIdentity _) = TAG_IDENTITY"
| "kind (VSymbol _) = TAG_SYMBOL"
| "kind (VErrorCode _) = TAG_ERROR_CODE"
| "kind (VString _) = TAG_STRING"
| "kind (VBytes _) = TAG_BYTES"
| "kind (VList _) = TAG_LIST"
| "kind (VMap _) = TAG_MAP"
| "kind (VRange _ _) = TAG_RANGE"
| "kind (VError _ _ _) = TAG_ERROR"
| "kind (VCapability _) = TAG_CAPABILITY"
| "kind (VFrob _ _) = TAG_FROB"
| "kind (VFunction _) = TAG_FUNCTION"
| "kind (VRelation _ _) = TAG_RELATION"

definition empty_relation :: val where "empty_relation = VRelation [] []"

definition is_empty_relation :: "val \<Rightarrow> bool" where
  "is_empty_relation v \<longleftrightarrow> v = VRelation [] []"

definition value_unit :: val where "value_unit = VRelation [] [[]]"

text \<open>The words of immediate values; a heap value has no word of its own here.\<close>

fun raw_bits :: "val \<Rightarrow> nat option" where
  "raw_bits (VBool b) = Some (pack TAG_BOOL (if b then 1 else 0))"
| "raw_bits (VInt i) = Some (pack TAG_INT (nat (i mod int PAYLOAD_LIMIT)))"
| "raw_bits (VFloat b) = Some (pack TAG_FLOAT b)"
| "raw_bits (VIdentity i) = Some (pack TAG_IDENTITY i)"
| "raw_bits (VSymbol s) = Some (pack TAG_SYMBOL s)"
| "raw_bits (VErrorCode s) = Some (pack TAG_ERROR_CODE s)"
| "raw_bits (VCapability c) = Some (pack TAG_CAPABILITY c)"
| "raw_bits (VFunction f) = Some (pack TAG_FUNCTION f)"
| "raw_bits (VRelation [] []) = Some (pack TAG_EMPTY_RELATION 0)"
| "raw_bits _ = None"

text \<open>Sign extension of a 56-bit payload: \<open>((payload << 8) as i64) >> 8\<close>.\<close>

definition payload_int :: "nat \<Rightarrow> int" where
  "payload_int p = (if int p \<le> INT_MAX then int p else int p - int PAYLOAD_LIMIT)"

datatype value_error =
    IntegerOutOfRange int | IdentityOutOfRange nat | CapabilityOutOfRange nat | FunctionOutOfRange nat | FloatNotFinite nat

definition value_int :: "int \<Rightarrow> value_error + val" where
  "value_int i = (if i < INT_MIN \<or> i > INT_MAX then Inl (IntegerOutOfRange i) else Inr (VInt i))"

text \<open>Binary32 bits: exponent all ones is not finite, and negative zero becomes positive zero.\<close>

definition f32_finite :: "nat \<Rightarrow> bool" where
  "f32_finite bits \<longleftrightarrow> bits div 8388608 mod 256 \<noteq> 255"

definition f32_is_zero :: "nat \<Rightarrow> bool" where
  "f32_is_zero bits \<longleftrightarrow> bits = 0 \<or> bits = 2147483648"

definition float_from_bits :: "nat \<Rightarrow> value_error + val" where
  "float_from_bits bits =
     (if \<not> f32_finite bits then Inl (FloatNotFinite bits)
      else Inr (VFloat (if f32_is_zero bits then 0 else bits)))"

definition identity_new :: "nat \<Rightarrow> identity option" where
  "identity_new raw = (if raw < PAYLOAD_LIMIT then Some raw else None)"

definition identity_raw :: "nat \<Rightarrow> value_error + val" where
  "identity_raw raw = (case identity_new raw of Some i \<Rightarrow> Inr (VIdentity i) | None \<Rightarrow> Inl (IdentityOutOfRange raw))"

definition capability_new :: "nat \<Rightarrow> nat option" where
  "capability_new raw = (if raw < PAYLOAD_LIMIT \<and> raw \<noteq> 0 then Some raw else None)"

definition capability_raw :: "nat \<Rightarrow> value_error + val" where
  "capability_raw raw = (case capability_new raw of Some c \<Rightarrow> Inr (VCapability c) | None \<Rightarrow> Inl (CapabilityOutOfRange raw))"

definition function_new :: "nat \<Rightarrow> nat option" where
  "function_new raw = (if raw < PAYLOAD_LIMIT then Some raw else None)"

definition function_raw :: "nat \<Rightarrow> value_error + val" where
  "function_raw raw = (case function_new raw of Some f \<Rightarrow> Inr (VFunction f) | None \<Rightarrow> Inl (FunctionOutOfRange raw))"

section \<open>The canonical order\<close>

datatype ordering = OLess | OEqual | OGreater

definition cmp_lin :: "'a::linorder \<Rightarrow> 'a \<Rightarrow> ordering" where
  "cmp_lin a b = (if a < b then OLess else if a = b then OEqual else OGreater)"

fun then_cmp :: "ordering \<Rightarrow> ordering \<Rightarrow> ordering" where
  "then_cmp OEqual o' = o'"
| "then_cmp c _ = c"

fun flip :: "ordering \<Rightarrow> ordering" where
  "flip OLess = OGreater"
| "flip OEqual = OEqual"
| "flip OGreater = OLess"

text \<open>\<open>Ord\<close> of slices and of options.\<close>

fun slice_cmp :: "('a \<Rightarrow> 'a \<Rightarrow> ordering) \<Rightarrow> 'a list \<Rightarrow> 'a list \<Rightarrow> ordering" where
  "slice_cmp f [] [] = OEqual"
| "slice_cmp f [] (y # ys) = OLess"
| "slice_cmp f (x # xs) [] = OGreater"
| "slice_cmp f (x # xs) (y # ys) = then_cmp (f x y) (slice_cmp f xs ys)"

fun option_cmp :: "('a \<Rightarrow> 'a \<Rightarrow> ordering) \<Rightarrow> 'a option \<Rightarrow> 'a option \<Rightarrow> ordering" where
  "option_cmp f None None = OEqual"
| "option_cmp f None (Some y) = OLess"
| "option_cmp f (Some x) None = OGreater"
| "option_cmp f (Some x) (Some y) = f x y"

lemma slice_cmp_cong [fundef_cong]:
  "xs = xs' \<Longrightarrow> ys = ys' \<Longrightarrow> (\<And>x y. x \<in> set xs' \<Longrightarrow> y \<in> set ys' \<Longrightarrow> f x y = g x y) \<Longrightarrow>
   slice_cmp f xs ys = slice_cmp g xs' ys'"
proof (induction f xs ys arbitrary: xs' ys' rule: slice_cmp.induct)
  case (4 f x xs y ys)
  have "f x y = g x y" "slice_cmp f xs ys = slice_cmp g xs ys" using 4 by auto
  with 4(2,3) show ?case by auto
qed auto

lemma option_cmp_cong [fundef_cong]:
  "a = a' \<Longrightarrow> b = b' \<Longrightarrow> (\<And>x y. a' = Some x \<Longrightarrow> b' = Some y \<Longrightarrow> f x y = g x y) \<Longrightarrow>
   option_cmp f a b = option_cmp g a' b'"
  by (cases a'; cases b') auto

text \<open>\<open>f32::total_cmp\<close>: the bits as a signed integer, with the magnitude of negatives reversed.\<close>

definition total_key :: "nat \<Rightarrow> int" where
  "total_key bits = (if bits < 2147483648 then int bits else - int (bits - 2147483648) - 1)"

definition str_cmp :: "rstr \<Rightarrow> rstr \<Rightarrow> ordering" where
  "str_cmp a b = slice_cmp cmp_lin (as_bytes a) (as_bytes b)"

text \<open>Different kinds compare by kind; the shortcut for identical words is subsumed by reflexivity.\<close>

fun val_cmp :: "val \<Rightarrow> val \<Rightarrow> ordering" where
  "val_cmp (VBool a) w = (case w of VBool b \<Rightarrow> cmp_lin a b | _ \<Rightarrow> cmp_lin TAG_BOOL (kind w))"
| "val_cmp (VInt a) w = (case w of VInt b \<Rightarrow> cmp_lin a b | _ \<Rightarrow> cmp_lin TAG_INT (kind w))"
| "val_cmp (VFloat a) w = (case w of VFloat b \<Rightarrow> cmp_lin (total_key a) (total_key b) | _ \<Rightarrow> cmp_lin TAG_FLOAT (kind w))"
| "val_cmp (VIdentity a) w = (case w of VIdentity b \<Rightarrow> cmp_lin a b | _ \<Rightarrow> cmp_lin TAG_IDENTITY (kind w))"
| "val_cmp (VSymbol a) w = (case w of VSymbol b \<Rightarrow> cmp_lin a b | _ \<Rightarrow> cmp_lin TAG_SYMBOL (kind w))"
| "val_cmp (VErrorCode a) w = (case w of VErrorCode b \<Rightarrow> cmp_lin a b | _ \<Rightarrow> cmp_lin TAG_ERROR_CODE (kind w))"
| "val_cmp (VString a) w = (case w of VString b \<Rightarrow> str_cmp a b | _ \<Rightarrow> cmp_lin TAG_STRING (kind w))"
| "val_cmp (VBytes a) w = (case w of VBytes b \<Rightarrow> slice_cmp cmp_lin a b | _ \<Rightarrow> cmp_lin TAG_BYTES (kind w))"
| "val_cmp (VList xs) w = (case w of VList ys \<Rightarrow> slice_cmp val_cmp xs ys | _ \<Rightarrow> cmp_lin TAG_LIST (kind w))"
| "val_cmp (VMap xs) w = (case w of VMap ys \<Rightarrow> slice_cmp (\<lambda>p q. then_cmp (val_cmp (fst p) (fst q)) (val_cmp (snd p) (snd q))) xs ys | _ \<Rightarrow> cmp_lin TAG_MAP (kind w))"
| "val_cmp (VRange a b) w = (case w of VRange a' b' \<Rightarrow> then_cmp (val_cmp a a') (option_cmp val_cmp b b') | _ \<Rightarrow> cmp_lin TAG_RANGE (kind w))"
| "val_cmp (VError c m v) w = (case w of VError c' m' v' \<Rightarrow> then_cmp (cmp_lin c c') (then_cmp (option_cmp str_cmp m m') (option_cmp val_cmp v v')) | _ \<Rightarrow> cmp_lin TAG_ERROR (kind w))"
| "val_cmp (VCapability a) w = (case w of VCapability b \<Rightarrow> cmp_lin a b | _ \<Rightarrow> cmp_lin TAG_CAPABILITY (kind w))"
| "val_cmp (VFrob d v) w = (case w of VFrob d' v' \<Rightarrow> then_cmp (cmp_lin d d') (val_cmp v v') | _ \<Rightarrow> cmp_lin TAG_FROB (kind w))"
| "val_cmp (VFunction a) w = (case w of VFunction b \<Rightarrow> cmp_lin a b | _ \<Rightarrow> cmp_lin TAG_FUNCTION (kind w))"
| "val_cmp (VRelation hs rs) w = (case w of VRelation hs' rs' \<Rightarrow> then_cmp (slice_cmp cmp_lin hs hs') (slice_cmp (slice_cmp val_cmp) rs rs') | _ \<Rightarrow> cmp_lin TAG_RELATION (kind w))"

text \<open>A stable sort by a comparison, as \<open>slice::sort_by\<close>.\<close>

fun insort_by :: "('a \<Rightarrow> 'a \<Rightarrow> ordering) \<Rightarrow> 'a \<Rightarrow> 'a list \<Rightarrow> 'a list" where
  "insort_by f x [] = [x]"
| "insort_by f x (y # ys) = (if f x y = OGreater then y # insort_by f x ys else x # y # ys)"

definition sort_by :: "('a \<Rightarrow> 'a \<Rightarrow> ordering) \<Rightarrow> 'a list \<Rightarrow> 'a list" where
  "sort_by f xs = foldr (insort_by f) xs []"

definition strictly :: "('a \<Rightarrow> 'a \<Rightarrow> ordering) \<Rightarrow> 'a list \<Rightarrow> bool" where
  "strictly f xs = sorted_wrt (\<lambda>a b. f a b = OLess) xs"

section \<open>Maps\<close>

text \<open>Sorted by key; of several entries with a key the last one counts.\<close>

fun canonical_entries :: "(val \<times> val) list \<Rightarrow> (val \<times> val) list \<Rightarrow> (val \<times> val) list" where
  "canonical_entries acc [] = acc"
| "canonical_entries acc ((k, v) # es) =
     (if acc \<noteq> [] \<and> fst (last acc) = k then canonical_entries (butlast acc @ [(fst (last acc), v)]) es
      else canonical_entries (acc @ [(k, v)]) es)"

definition value_map :: "(val \<times> val) list \<Rightarrow> val" where
  "value_map entries = VMap (canonical_entries [] (sort_by (\<lambda>a b. val_cmp (fst a) (fst b)) entries))"

text \<open>\<open>binary_search_by\<close> on the strictly sorted entries finds the entry with the key, if there is one.\<close>

definition map_get :: "val \<Rightarrow> val \<Rightarrow> val option" where
  "map_get m key = (case m of VMap es \<Rightarrow> map_of es key | _ \<Rightarrow> None)"

definition map_len :: "val \<Rightarrow> usize option" where
  "map_len m = (case m of VMap es \<Rightarrow> Some (length es) | _ \<Rightarrow> None)"

definition map_set :: "val \<Rightarrow> val \<Rightarrow> val \<Rightarrow> val option" where
  "map_set m key v = (case m of VMap es \<Rightarrow> Some (value_map (es @ [(key, v)])) | _ \<Rightarrow> None)"

section \<open>Lists\<close>

definition list_len :: "val \<Rightarrow> usize option" where
  "list_len l = (case l of VList xs \<Rightarrow> Some (length xs) | _ \<Rightarrow> None)"

definition list_get :: "val \<Rightarrow> usize \<Rightarrow> val option" where
  "list_get l i = (case l of VList xs \<Rightarrow> if i < length xs then Some (xs ! i) else None | _ \<Rightarrow> None)"

definition list_slice :: "val \<Rightarrow> usize \<Rightarrow> usize \<Rightarrow> val option" where
  "list_slice l a b = (case l of
      VList xs \<Rightarrow> if a > b \<or> b > length xs then None else Some (VList (take (b - a) (drop a xs)))
    | _ \<Rightarrow> None)"

definition list_append :: "val \<Rightarrow> val \<Rightarrow> val option" where
  "list_append l v = (case l of VList xs \<Rightarrow> Some (VList (xs @ [v])) | _ \<Rightarrow> None)"

definition list_set :: "val \<Rightarrow> usize \<Rightarrow> val \<Rightarrow> val option" where
  "list_set l i v = (case l of VList xs \<Rightarrow> if i < length xs then Some (VList (xs[i := v])) else None | _ \<Rightarrow> None)"

definition as_int :: "val \<Rightarrow> int option" where
  "as_int v = (case v of VInt i \<Rightarrow> Some i | _ \<Rightarrow> None)"

definition index_set :: "val \<Rightarrow> val \<Rightarrow> val \<Rightarrow> val option" where
  "index_set c i v =
     (if list_len c \<noteq> None
      then (case as_int i of None \<Rightarrow> None | Some n \<Rightarrow> if n < 0 then None else list_set c (nat n) v)
      else map_set c i v)"

section \<open>Relation values\<close>

datatype relation_value_error =
    HeadingTooWide usize | DuplicateColumn symbol | ArityMismatch usize usize

fun adjacent_duplicate :: "symbol list \<Rightarrow> nat list \<Rightarrow> symbol option" where
  "adjacent_duplicate h (p # q # ps) = (if h ! p = h ! q then Some (h ! p) else adjacent_duplicate h (q # ps))"
| "adjacent_duplicate h _ = None"

definition select :: "'a list \<Rightarrow> nat list \<Rightarrow> 'a list" where
  "select row positions = map (\<lambda>p. row ! p) positions"

text \<open>The row loop: arity check, reordering, and whether the rows so far ascend strictly.\<close>

fun canonical_rows ::
  "nat \<Rightarrow> nat list \<Rightarrow> bool \<Rightarrow> val list list \<Rightarrow> bool \<Rightarrow> val list list \<Rightarrow> relation_value_error + val list list \<times> bool" where
  "canonical_rows n order ordered acc strict [] = Inr (acc, strict)"
| "canonical_rows n order ordered acc strict (row # rows) =
     (if length row \<noteq> n then Inl (ArityMismatch n (length row))
      else let row' = (if ordered then row else select row order);
               strict' = (strict \<and> \<not> (acc \<noteq> [] \<and> slice_cmp val_cmp (last acc) row' \<noteq> OLess))
           in canonical_rows n order ordered (acc @ [row']) strict' rows)"

definition relation_new :: "symbol list \<Rightarrow> val list list \<Rightarrow> relation_value_error + symbol list \<times> val list list" where
  "relation_new heading rows =
     (if length heading > 65535 then Inl (HeadingTooWide (length heading))
      else
        let order = sort_key (\<lambda>p. heading ! p) [0..<length heading] in
        (case adjacent_duplicate heading order of
           Some c \<Rightarrow> Inl (DuplicateColumn c)
         | None \<Rightarrow>
             (case canonical_rows (length heading) order (order = [0..<length heading]) [] True rows of
                Inl e \<Rightarrow> Inl e
              | Inr (rs, strict) \<Rightarrow>
                  Inr (map (\<lambda>p. heading ! p) order,
                       if strict then rs else remdups_adj (sort_by (slice_cmp val_cmp) rs)))))"

definition relation_new_small :: "symbol list \<Rightarrow> val list option \<Rightarrow> relation_value_error + symbol list \<times> val list list" where
  "relation_new_small heading row =
     (if length heading > 65535 then Inl (HeadingTooWide (length heading))
      else if \<not> sorted_wrt (<) heading then relation_new heading (case row of None \<Rightarrow> [] | Some r \<Rightarrow> [r])
      else case row of
        None \<Rightarrow> Inr (heading, [])
      | Some r \<Rightarrow> if length r \<noteq> length heading then Inl (ArityMismatch (length heading) (length r)) else Inr (heading, [r]))"

definition column_position :: "symbol list \<times> val list list \<Rightarrow> symbol \<Rightarrow> usize option" where
  "column_position r c = (let i = length (takeWhile (\<lambda>h. h \<noteq> c) (fst r)) in if i < length (fst r) then Some i else None)"

definition value_relation :: "symbol list \<Rightarrow> val list list \<Rightarrow> relation_value_error + val" where
  "value_relation heading rows = map_sum id (\<lambda>(h, rs). VRelation h rs) (relation_new heading rows)"

text \<open>The standard option and result relations, given the symbols of their columns and cases.\<close>

definition option_none :: "symbol \<Rightarrow> relation_value_error + val" where
  "option_none value_column = map_sum id (\<lambda>(h, rs). VRelation h rs) (relation_new_small [value_column] None)"

definition option_some :: "symbol \<Rightarrow> val \<Rightarrow> relation_value_error + val" where
  "option_some value_column v = map_sum id (\<lambda>(h, rs). VRelation h rs) (relation_new_small [value_column] (Some [v]))"

definition option_payload :: "symbol \<Rightarrow> val \<Rightarrow> val option option" where
  "option_payload value_column v = (case v of
      VRelation h rs \<Rightarrow>
        if h \<noteq> [value_column] \<or> length rs > 1 then None
        else Some (case rs of [] \<Rightarrow> None | row # _ \<Rightarrow> Some (row ! 0))
    | _ \<Rightarrow> None)"

fun is_persistable :: "val \<Rightarrow> bool" where
  "is_persistable (VCapability _) = False"
| "is_persistable (VFunction _) = False"
| "is_persistable (VList xs) = (\<forall>x \<in> set xs. is_persistable x)"
| "is_persistable (VMap es) = (\<forall>e \<in> set es. is_persistable (fst e) \<and> is_persistable (snd e))"
| "is_persistable (VRange a b) = (is_persistable a \<and> (\<forall>x \<in> set_option b. is_persistable x))"
| "is_persistable (VError _ _ v) = (\<forall>x \<in> set_option v. is_persistable x)"
| "is_persistable (VFrob _ v) = is_persistable v"
| "is_persistable (VRelation _ rows) = (\<forall>row \<in> set rows. \<forall>x \<in> set row. is_persistable x)"
| "is_persistable _ = True"

section \<open>Values the constructors build\<close>

fun valid :: "val \<Rightarrow> bool" where
  "valid (VBool _) = True"
| "valid (VInt i) = (INT_MIN \<le> i \<and> i \<le> INT_MAX)"
| "valid (VFloat b) = (b < U32_LIMIT \<and> f32_finite b \<and> b \<noteq> 2147483648)"
| "valid (VIdentity i) = (i < PAYLOAD_LIMIT)"
| "valid (VSymbol s) = (s < U32_LIMIT)"
| "valid (VErrorCode s) = (s < U32_LIMIT)"
| "valid (VString s) = scalars_ok s"
| "valid (VBytes b) = bytes_ok b"
| "valid (VList xs) = (\<forall>x \<in> set xs. valid x)"
| "valid (VMap es) = ((\<forall>e \<in> set es. valid (fst e) \<and> valid (snd e)) \<and> strictly (\<lambda>a b. val_cmp (fst a) (fst b)) es)"
| "valid (VRange a b) = (valid a \<and> (\<forall>x \<in> set_option b. valid x))"
| "valid (VError c m v) = (c < U32_LIMIT \<and> (\<forall>s \<in> set_option m. scalars_ok s) \<and> (\<forall>x \<in> set_option v. valid x))"
| "valid (VCapability c) = (c < PAYLOAD_LIMIT \<and> c \<noteq> 0)"
| "valid (VFrob d v) = (d < PAYLOAD_LIMIT \<and> valid v)"
| "valid (VFunction f) = (f < PAYLOAD_LIMIT)"
| "valid (VRelation h rows) =
     (length h \<le> 65535 \<and> sorted_wrt (<) h \<and> (\<forall>s \<in> set h. s < U32_LIMIT) \<and>
      (\<forall>row \<in> set rows. length row = length h \<and> (\<forall>x \<in> set row. valid x)) \<and> strictly (slice_cmp val_cmp) rows)"

end
