(* ===== verification/OrderedKey.thy ===== *)
theory OrderedKey
  imports Values
begin

text \<open>
  The order-preserving key bytes of values: \<open>encode_ordered_into\<close> of \<open>crates/var/src/traits.rs\<close>. The
  bytes of two valid values diverge strictly, in the direction of the canonical order; so the
  canonical order is the byte order of the keys, and no key is a prefix of another, which is what the
  radix trees of the relation kernel and composite tuple keys rely on.
\<close>

section \<open>The encoding\<close>

text \<open>Inverting the bits of a negative number, and the sign bit of others.\<close>

definition ordered_f32_bits :: "nat \<Rightarrow> nat" where
  "ordered_f32_bits bits = (if 2147483648 \<le> bits then 4294967295 - bits else bits + 2147483648)"

fun escaped :: "bytes \<Rightarrow> bytes" where
  "escaped [] = []"
| "escaped (b # bs) = (if b = 0 then 0 # 255 # escaped bs else b # escaped bs)"

definition encode_bytes_terminated :: "bytes \<Rightarrow> bytes" where
  "encode_bytes_terminated bs = escaped bs @ [0, 0]"

fun encode_ordered :: "val \<Rightarrow> bytes" where
  "encode_ordered (VBool b) = [TAG_BOOL, if b then 1 else 0]"
| "encode_ordered (VInt i) = TAG_INT # be_bytes 8 (nat (i + 9223372036854775808))"
| "encode_ordered (VFloat b) = TAG_FLOAT # be_bytes 4 (ordered_f32_bits b)"
| "encode_ordered (VIdentity i) = TAG_IDENTITY # be_bytes 8 i"
| "encode_ordered (VSymbol s) = TAG_SYMBOL # be_bytes 8 s"
| "encode_ordered (VErrorCode s) = TAG_ERROR_CODE # be_bytes 8 s"
| "encode_ordered (VCapability c) = TAG_CAPABILITY # be_bytes 8 c"
| "encode_ordered (VFunction f) = TAG_FUNCTION # be_bytes 8 f"
| "encode_ordered (VString s) = TAG_STRING # encode_bytes_terminated (as_bytes s)"
| "encode_ordered (VBytes b) = TAG_BYTES # encode_bytes_terminated b"
| "encode_ordered (VList xs) = TAG_LIST # concat (map (\<lambda>x. 1 # encode_ordered x) xs) @ [0]"
| "encode_ordered (VMap es) =
     TAG_MAP # concat (map (\<lambda>e. 1 # encode_ordered (fst e) @ encode_ordered (snd e)) es) @ [0]"
| "encode_ordered (VRelation h rows) =
     TAG_RELATION # (concat (map (\<lambda>c. 1 # be_bytes 8 c) h) @ [0]) @
       concat (map (\<lambda>row. 1 # concat (map encode_ordered row)) rows) @ [0]"
| "encode_ordered (VRange a b) =
     TAG_RANGE # encode_ordered a @ (case b of None \<Rightarrow> [0] | Some x \<Rightarrow> 1 # encode_ordered x)"
| "encode_ordered (VError c m v) =
     TAG_ERROR # be_bytes 8 c @
       (case m of None \<Rightarrow> [0] | Some s \<Rightarrow> 1 # encode_bytes_terminated (as_bytes s)) @
       (case v of None \<Rightarrow> [0] | Some x \<Rightarrow> 1 # encode_ordered x)"
| "encode_ordered (VFrob d v) = TAG_FROB # be_bytes 8 d @ encode_ordered v"

section \<open>Embedding an order in strict divergence\<close>

text \<open>A comparison result against two encodings; \<open>same\<close> is the equality of what is compared.\<close>

definition emb :: "ordering \<Rightarrow> bool \<Rightarrow> bytes \<Rightarrow> bytes \<Rightarrow> bool" where
  "emb c same a b = (case c of OLess \<Rightarrow> below a b | OEqual \<Rightarrow> same \<and> a = b | OGreater \<Rightarrow> below b a)"

lemma emb_simps [simp]:
  "emb OLess same a b = below a b" "emb OEqual same a b = (same \<and> a = b)" "emb OGreater same a b = below b a"
  by (simp_all add: emb_def)

lemma emb_prefix [simp]: "emb c same (p @ a) (p @ b) = emb c same a b"
  by (cases c) auto

lemma emb_Cons [simp]: "emb c same (x # a) (x # b) = emb c same a b"
  by (cases c) auto

lemma emb_then:
  assumes "emb c same a b" "emb c' same' a' b'"
  shows "emb (then_cmp c c') (same \<and> same') (a @ a') (b @ b')"
  using assms by (cases c; cases c') (auto simp: below_append)

lemma emb_decided: "emb c same a b \<Longrightarrow> c \<noteq> OEqual \<Longrightarrow> emb c same' (a @ x) (b @ y)"
  by (cases c) (auto simp: below_append)

lemma emb_lin:
  assumes "\<And>x y. x < y \<Longrightarrow> x \<in> S \<Longrightarrow> y \<in> S \<Longrightarrow> below (e x) (e y)" "x \<in> S" "y \<in> S"
  shows "emb (cmp_lin x y) (x = y) (e x) (e y)"
  using assms by (auto simp: cmp_lin_def)

lemma emb_slice:
  assumes "\<And>x y. x \<in> set xs \<Longrightarrow> y \<in> set ys \<Longrightarrow> emb (f x y) (x = y) (e x) (e y)"
  shows "emb (slice_cmp f xs ys) (xs = ys)
    (concat (map (\<lambda>x. 1 # e x) xs) @ [0]) (concat (map (\<lambda>x. 1 # e x) ys) @ [0])"
  using assms
proof (induction f xs ys rule: slice_cmp.induct)
  case (4 f x xs y ys)
  have "emb (then_cmp (f x y) (slice_cmp f xs ys)) (x = y \<and> xs = ys)
    (e x @ (concat (map (\<lambda>x. 1 # e x) xs) @ [0])) (e y @ (concat (map (\<lambda>x. 1 # e x) ys) @ [0]))"
    by (rule emb_then) (use 4 in auto)
  then show ?case by simp
qed auto

lemma emb_row:
  assumes "\<And>x y. x \<in> set xs \<Longrightarrow> y \<in> set ys \<Longrightarrow> emb (f x y) (x = y) (e x) (e y)" "length xs = length ys"
  shows "emb (slice_cmp f xs ys) (xs = ys) (concat (map e xs)) (concat (map e ys))"
  using assms
proof (induction f xs ys rule: slice_cmp.induct)
  case (4 f x xs y ys)
  have "emb (then_cmp (f x y) (slice_cmp f xs ys)) (x = y \<and> xs = ys)
    (e x @ concat (map e xs)) (e y @ concat (map e ys))"
    by (rule emb_then) (use 4 in auto)
  then show ?case by simp
qed auto

lemma emb_option:
  assumes "\<And>x y. a = Some x \<Longrightarrow> b = Some y \<Longrightarrow> emb (f x y) (x = y) (e x) (e y)"
  shows "emb (option_cmp f a b) (a = b)
    (case a of None \<Rightarrow> [0] | Some x \<Rightarrow> 1 # e x) (case b of None \<Rightarrow> [0] | Some y \<Rightarrow> 1 # e y)"
  using assms by (cases a; cases b) auto

section \<open>The leaves\<close>

lemma emb_word:
  assumes "a < 256 ^ k" "b < 256 ^ k"
  shows "emb (cmp_lin a b) (a = b) (be_bytes k a) (be_bytes k b)"
  by (rule emb_lin [where S = "{..< 256 ^ k}"]) (use assms be_bytes_below in auto)

lemma emb_escaped:
  assumes "bytes_ok a" "bytes_ok b"
  shows "emb (slice_cmp cmp_lin a b) (a = b) (encode_bytes_terminated a) (encode_bytes_terminated b)"
  using assms
proof (induction "cmp_lin :: nat \<Rightarrow> nat \<Rightarrow> ordering" a b rule: slice_cmp.induct)
  case (4 x xs y ys)
  then have IH: "emb (slice_cmp cmp_lin xs ys) (xs = ys) (encode_bytes_terminated xs) (encode_bytes_terminated ys)" by simp
  consider "x < y" | "x = y" | "y < x" by linarith
  then show ?case
    using IH by cases (auto simp: cmp_lin_def encode_bytes_terminated_def)
qed (auto simp: encode_bytes_terminated_def)

lemma emb_int:
  assumes "INT_MIN \<le> a" "a \<le> INT_MAX" "INT_MIN \<le> b" "b \<le> INT_MAX"
  shows "emb (cmp_lin a b) (a = b) (be_bytes 8 (nat (a + 9223372036854775808))) (be_bytes 8 (nat (b + 9223372036854775808)))"
proof -
  have "cmp_lin a b = cmp_lin (nat (a + 9223372036854775808)) (nat (b + 9223372036854775808))"
    using assms by (auto simp: cmp_lin_def limit_defs)
  moreover have "a = b \<longleftrightarrow> nat (a + 9223372036854775808) = nat (b + 9223372036854775808)"
    using assms by (auto simp: limit_defs)
  ultimately show ?thesis using assms by (simp only:) (rule emb_word, auto simp: limit_defs)
qed

lemma emb_float:
  assumes "a < U32_LIMIT" "b < U32_LIMIT"
  shows "emb (cmp_lin (total_key a) (total_key b)) (a = b) (be_bytes 4 (ordered_f32_bits a)) (be_bytes 4 (ordered_f32_bits b))"
proof -
  have "cmp_lin (total_key a) (total_key b) = cmp_lin (ordered_f32_bits a) (ordered_f32_bits b)"
    using assms by (auto simp: cmp_lin_def total_key_def ordered_f32_bits_def limit_defs)
  moreover have "a = b \<longleftrightarrow> ordered_f32_bits a = ordered_f32_bits b"
    using assms by (auto simp: ordered_f32_bits_def limit_defs)
  ultimately show ?thesis using assms by (simp only:) (rule emb_word, auto simp: ordered_f32_bits_def limit_defs)
qed

lemma as_bytes_inject: "scalars_ok a \<Longrightarrow> scalars_ok b \<Longrightarrow> as_bytes a = as_bytes b \<longleftrightarrow> a = b"
  by (metis from_utf8_as_bytes option.inject)

lemma emb_str:
  assumes "scalars_ok a" "scalars_ok b"
  shows "emb (str_cmp a b) (a = b) (encode_bytes_terminated (as_bytes a)) (encode_bytes_terminated (as_bytes b))"
  using emb_escaped [OF as_bytes_ok [OF assms(1)] as_bytes_ok [OF assms(2)]] as_bytes_inject [OF assms]
  by (simp add: str_cmp_def)

section \<open>The whole encoding\<close>

lemma encode_ordered_kind: "\<exists>r. encode_ordered v = kind v # r"
  by (cases v) auto

lemma emb_kinds:
  assumes "kind v \<noteq> kind w"
  shows "emb (cmp_lin (kind v) (kind w)) (v = w) (encode_ordered v) (encode_ordered w)"
proof -
  obtain r s where "encode_ordered v = kind v # r" "encode_ordered w = kind w # s"
    using encode_ordered_kind by meson
  then show ?thesis using assms by (auto simp: cmp_lin_def)
qed

lemma word_bounds: "n < PAYLOAD_LIMIT \<Longrightarrow> n < 256 ^ 8" "n < U32_LIMIT \<Longrightarrow> n < 256 ^ 8"
  by (simp_all add: limit_defs)

lemma val_cmp_kind: "kind v \<noteq> kind w \<Longrightarrow> val_cmp v w = cmp_lin (kind v) (kind w)"
  by (cases v; cases w) (auto simp: tag_defs)

lemma emb_diff: "kind v \<noteq> kind w \<Longrightarrow> emb (val_cmp v w) (v = w) (encode_ordered v) (encode_ordered w)"
  by (simp add: val_cmp_kind emb_kinds)

lemma kind_inv:
  "kind w = TAG_BOOL \<Longrightarrow> \<exists>b. w = VBool b" "kind w = TAG_INT \<Longrightarrow> \<exists>i. w = VInt i" "kind w = TAG_FLOAT \<Longrightarrow> \<exists>b. w = VFloat b"
  "kind w = TAG_IDENTITY \<Longrightarrow> \<exists>i. w = VIdentity i" "kind w = TAG_SYMBOL \<Longrightarrow> \<exists>s. w = VSymbol s"
  "kind w = TAG_ERROR_CODE \<Longrightarrow> \<exists>s. w = VErrorCode s" "kind w = TAG_STRING \<Longrightarrow> \<exists>s. w = VString s"
  "kind w = TAG_BYTES \<Longrightarrow> \<exists>b. w = VBytes b" "kind w = TAG_LIST \<Longrightarrow> \<exists>xs. w = VList xs" "kind w = TAG_MAP \<Longrightarrow> \<exists>es. w = VMap es"
  "kind w = TAG_RANGE \<Longrightarrow> \<exists>a b. w = VRange a b" "kind w = TAG_ERROR \<Longrightarrow> \<exists>c m v. w = VError c m v"
  "kind w = TAG_CAPABILITY \<Longrightarrow> \<exists>c. w = VCapability c" "kind w = TAG_FROB \<Longrightarrow> \<exists>d v. w = VFrob d v"
  "kind w = TAG_FUNCTION \<Longrightarrow> \<exists>f. w = VFunction f" "kind w = TAG_RELATION \<Longrightarrow> \<exists>h rs. w = VRelation h rs"
  by (cases w; simp add: tag_defs)+

lemma emb_same:
  assumes "kind w = kind v \<Longrightarrow> emb (val_cmp v w) (v = w) (encode_ordered v) (encode_ordered w)"
  shows "emb (val_cmp v w) (v = w) (encode_ordered v) (encode_ordered w)"
  using assms emb_diff by metis

lemma encode_ordered_embeds: "valid v \<Longrightarrow> valid w \<Longrightarrow> emb (val_cmp v w) (v = w) (encode_ordered v) (encode_ordered w)"
proof (induction v arbitrary: w)
  case (VBool x)
  show ?case
  proof (rule emb_same)
    assume "kind w = kind (VBool x)"
    then obtain y where "w = VBool y" using kind_inv(1) [of w] by auto
    then show ?thesis by (cases x; cases y) (simp_all add: cmp_lin_def)
  qed
next
  case (VInt x)
  show ?case
  proof (rule emb_same)
    assume "kind w = kind (VInt x)"
    then obtain y where "w = VInt y" using kind_inv(2) [of w] by auto
    then show ?thesis using emb_int [of x y] VInt by simp
  qed
next
  case (VFloat x)
  show ?case
  proof (rule emb_same)
    assume "kind w = kind (VFloat x)"
    then obtain y where "w = VFloat y" using kind_inv(3) [of w] by auto
    then show ?thesis using emb_float [of x y] VFloat by simp
  qed
next
  case (VIdentity x)
  show ?case
  proof (rule emb_same)
    assume "kind w = kind (VIdentity x)"
    then obtain y where "w = VIdentity y" using kind_inv(4) [of w] by auto
    then show ?thesis using emb_word [of x 8 y] word_bounds VIdentity by simp
  qed
next
  case (VSymbol x)
  show ?case
  proof (rule emb_same)
    assume "kind w = kind (VSymbol x)"
    then obtain y where "w = VSymbol y" using kind_inv(5) [of w] by auto
    then show ?thesis using emb_word [of x 8 y] word_bounds VSymbol by simp
  qed
next
  case (VErrorCode x)
  show ?case
  proof (rule emb_same)
    assume "kind w = kind (VErrorCode x)"
    then obtain y where "w = VErrorCode y" using kind_inv(6) [of w] by auto
    then show ?thesis using emb_word [of x 8 y] word_bounds VErrorCode by simp
  qed
next
  case (VCapability x)
  show ?case
  proof (rule emb_same)
    assume "kind w = kind (VCapability x)"
    then obtain y where "w = VCapability y" using kind_inv(13) [of w] by auto
    then show ?thesis using emb_word [of x 8 y] word_bounds VCapability by simp
  qed
next
  case (VFunction x)
  show ?case
  proof (rule emb_same)
    assume "kind w = kind (VFunction x)"
    then obtain y where "w = VFunction y" using kind_inv(15) [of w] by auto
    then show ?thesis using emb_word [of x 8 y] word_bounds VFunction by simp
  qed
next
  case (VString x)
  show ?case
  proof (rule emb_same)
    assume "kind w = kind (VString x)"
    then obtain y where "w = VString y" using kind_inv(7) [of w] by auto
    then show ?thesis using emb_str [of x y] VString by simp
  qed
next
  case (VBytes x)
  show ?case
  proof (rule emb_same)
    assume "kind w = kind (VBytes x)"
    then obtain y where "w = VBytes y" using kind_inv(8) [of w] by auto
    then show ?thesis using emb_escaped [of x y] VBytes by simp
  qed
next
  case (VList xs)
  show ?case
  proof (rule emb_same)
    assume "kind w = kind (VList xs)"
    then obtain ys where "w = VList ys" using kind_inv(9) [of w] by auto
    then show ?thesis using emb_slice [of xs ys val_cmp encode_ordered] VList by simp
  qed
next
  case (VMap es)
  show ?case
  proof (rule emb_same)
    assume "kind w = kind (VMap es)"
    then obtain fs where w: "w = VMap fs" using kind_inv(10) [of w] by auto
    have "emb (then_cmp (val_cmp (fst p) (fst q)) (val_cmp (snd p) (snd q))) (p = q)
        (encode_ordered (fst p) @ encode_ordered (snd p)) (encode_ordered (fst q) @ encode_ordered (snd q))"
      if "p \<in> set es" "q \<in> set fs" for p q
    proof -
      have "emb (then_cmp (val_cmp (fst p) (fst q)) (val_cmp (snd p) (snd q))) (fst p = fst q \<and> snd p = snd q)
        (encode_ordered (fst p) @ encode_ordered (snd p)) (encode_ordered (fst q) @ encode_ordered (snd q))"
        by (intro emb_then VMap.IH [of p]) (use that VMap.prems w in \<open>auto simp: fsts.simps snds.simps\<close>)
      then show ?thesis by (simp add: prod_eq_iff)
    qed
    from emb_slice [OF this] show ?thesis using w by simp
  qed
next
  case (VRelation h rs)
  show ?case
  proof (rule emb_same)
    assume "kind w = kind (VRelation h rs)"
    then obtain h' rs' where w: "w = VRelation h' rs'" using kind_inv(16) [of w] by auto
    have heads: "emb (slice_cmp cmp_lin h h') (h = h') (concat (map (\<lambda>c. 1 # be_bytes 8 c) h) @ [0]) (concat (map (\<lambda>c. 1 # be_bytes 8 c) h') @ [0])"
      by (rule emb_slice) (use VRelation.prems w word_bounds in \<open>auto intro: emb_word\<close>)
    show ?thesis
    proof (cases "slice_cmp cmp_lin h h' = OEqual")
      case True
      then have "h = h'" using heads by simp
      then have "emb (slice_cmp val_cmp row row') (row = row') (concat (map encode_ordered row)) (concat (map encode_ordered row'))"
        if "row \<in> set rs" "row' \<in> set rs'" for row row'
        using that VRelation w by (intro emb_row) auto
      from emb_slice [OF this] show ?thesis using w True heads emb_then [OF heads] by simp
    next
      case False
      then have "then_cmp (slice_cmp cmp_lin h h') o' = slice_cmp cmp_lin h h'" for o'
        by (cases "slice_cmp cmp_lin h h'") auto
      with emb_decided [OF heads False] show ?thesis using w by simp
    qed
  qed
next
  case (VRange a b)
  show ?case
  proof (rule emb_same)
    assume "kind w = kind (VRange a b)"
    then obtain a' b' where w: "w = VRange a' b'" using kind_inv(11) [of w] by auto
    have "emb (option_cmp val_cmp b b') (b = b')
      (case b of None \<Rightarrow> [0] | Some x \<Rightarrow> 1 # encode_ordered x) (case b' of None \<Rightarrow> [0] | Some x \<Rightarrow> 1 # encode_ordered x)"
      by (rule emb_option) (use VRange w in auto)
    moreover have "emb (val_cmp a a') (a = a') (encode_ordered a) (encode_ordered a')" using VRange w by simp
    ultimately show ?thesis using emb_then w by simp
  qed
next
  case (VError c m v)
  show ?case
  proof (rule emb_same)
    assume "kind w = kind (VError c m v)"
    then obtain c' m' v' where w: "w = VError c' m' v'" using kind_inv(12) [of w] by auto
    have "emb (option_cmp val_cmp v v') (v = v')
      (case v of None \<Rightarrow> [0] | Some x \<Rightarrow> 1 # encode_ordered x) (case v' of None \<Rightarrow> [0] | Some x \<Rightarrow> 1 # encode_ordered x)"
      by (rule emb_option) (use VError w in auto)
    moreover have "emb (option_cmp str_cmp m m') (m = m')
      (case m of None \<Rightarrow> [0] | Some s \<Rightarrow> 1 # encode_bytes_terminated (as_bytes s))
      (case m' of None \<Rightarrow> [0] | Some s \<Rightarrow> 1 # encode_bytes_terminated (as_bytes s))"
      by (rule emb_option) (use VError.prems w emb_str in auto)
    moreover have "emb (cmp_lin c c') (c = c') (be_bytes 8 c) (be_bytes 8 c')"
      by (rule emb_word) (use VError.prems w word_bounds in auto)
    ultimately show ?thesis using emb_then w by simp
  qed
next
  case (VFrob d v)
  show ?case
  proof (rule emb_same)
    assume "kind w = kind (VFrob d v)"
    then obtain d' v' where w: "w = VFrob d' v'" using kind_inv(14) [of w] by auto
    have "emb (cmp_lin d d') (d = d') (be_bytes 8 d) (be_bytes 8 d')"
      by (rule emb_word) (use VFrob.prems w word_bounds in auto)
    moreover have "emb (val_cmp v v') (v = v') (encode_ordered v) (encode_ordered v')" using VFrob w by simp
    ultimately show ?thesis using emb_then w by simp
  qed
qed

section \<open>The canonical order is a total order\<close>

lemma val_cmp_eq: "valid v \<Longrightarrow> valid w \<Longrightarrow> val_cmp v w = OEqual \<longleftrightarrow> v = w"
  using encode_ordered_embeds [of v w] by (cases "val_cmp v w") auto

lemma val_cmp_less: "valid v \<Longrightarrow> valid w \<Longrightarrow> val_cmp v w = OLess \<longleftrightarrow> below (encode_ordered v) (encode_ordered w)"
  using encode_ordered_embeds [of v w] below_asym by (cases "val_cmp v w") auto

lemma val_cmp_flip: "valid v \<Longrightarrow> valid w \<Longrightarrow> val_cmp w v = flip (val_cmp v w)"
  using encode_ordered_embeds [of v w] encode_ordered_embeds [of w v] below_asym
  by (cases "val_cmp v w"; cases "val_cmp w v") auto

lemma val_cmp_trans:
  "valid u \<Longrightarrow> valid v \<Longrightarrow> valid w \<Longrightarrow> val_cmp u v = OLess \<Longrightarrow> val_cmp v w = OLess \<Longrightarrow> val_cmp u w = OLess"
  using below_trans by (auto simp: val_cmp_less)

end
