(* ===== verification/ValueCanon.thy ===== *)
theory ValueCanon
  imports OrderedKey "HOL-Library.Multiset"
begin

text \<open>
  Canonical forms: \<open>Value::map\<close> and \<open>RelationValue::new\<close> build the one representation of a finite map and
  of a set of rows, and leave a canonical representation as it is. The comparison sorts are developed
  once, for any comparison that is a total order on the elements at hand.
\<close>

section \<open>Comparison sorts\<close>

lemma insort_strict: "strictly f (x # xs) \<Longrightarrow> insort_by f x xs = x # xs"
  by (cases xs) (auto simp: strictly_def)

lemma sort_strict: "strictly f xs \<Longrightarrow> sort_by f xs = xs"
proof (induction xs)
  case (Cons x xs)
  then have "foldr (insort_by f) xs [] = xs" by (simp add: sort_by_def strictly_def)
  then show ?case using insort_strict [OF Cons.prems] by (simp add: sort_by_def)
qed (simp add: sort_by_def)

locale total_cmp =
  fixes f :: "'a \<Rightarrow> 'a \<Rightarrow> ordering" and S :: "'a \<Rightarrow> bool"
  assumes cmp_eq: "S x \<Longrightarrow> S y \<Longrightarrow> f x y = OEqual \<longleftrightarrow> x = y"
    and cmp_flip: "S x \<Longrightarrow> S y \<Longrightarrow> f y x = flip (f x y)"
    and cmp_trans: "S x \<Longrightarrow> S y \<Longrightarrow> S z \<Longrightarrow> f x y = OLess \<Longrightarrow> f y z = OLess \<Longrightarrow> f x z = OLess"
begin

definition weakly :: "'a list \<Rightarrow> bool" where
  "weakly xs \<longleftrightarrow> sorted_wrt (\<lambda>a b. f a b \<noteq> OGreater) xs"

lemma cmp_greater: "S x \<Longrightarrow> S y \<Longrightarrow> f x y = OGreater \<longleftrightarrow> f y x = OLess"
  using cmp_flip [of x y] by (cases "f x y") auto

lemma le_trans: "S x \<Longrightarrow> S y \<Longrightarrow> S z \<Longrightarrow> f x y \<noteq> OGreater \<Longrightarrow> f y z \<noteq> OGreater \<Longrightarrow> f x z \<noteq> OGreater"
  using cmp_trans [of x y z] cmp_eq [of x y] cmp_eq [of y z] cmp_greater
  by (metis ordering.distinct(3) ordering.exhaust)

lemma set_insort_by [simp]: "set (insort_by f x xs) = insert x (set xs)"
  by (induction xs) auto

lemma set_sort_by [simp]: "set (sort_by f xs) = set xs"
  by (induction xs) (auto simp: sort_by_def)

lemma weakly_insort:
  assumes "weakly xs" "S x" "\<forall>y \<in> set xs. S y"
  shows "weakly (insort_by f x xs)"
  using assms
proof (induction xs)
  case (Cons y ys)
  show ?case
  proof (cases "f x y = OGreater")
    case True
    then have "f y x \<noteq> OGreater" using Cons.prems cmp_greater by auto
    with True Cons show ?thesis by (auto simp: weakly_def)
  next
    case False
    then have "f x z \<noteq> OGreater" if "z \<in> set ys" for z
      using Cons.prems that le_trans [of x y z] by (auto simp: weakly_def)
    with False Cons.prems show ?thesis by (auto simp: weakly_def)
  qed
qed (simp add: weakly_def)

lemma weakly_sort: "\<forall>y \<in> set xs. S y \<Longrightarrow> weakly (sort_by f xs)"
proof (induction xs)
  case (Cons x xs)
  have "set (foldr (insort_by f) xs []) = set xs" using set_sort_by [of xs] by (simp add: sort_by_def)
  with Cons show ?case by (simp add: sort_by_def weakly_insort)
qed (simp add: sort_by_def weakly_def)

lemma strictly_dedup:
  assumes "weakly xs" "\<forall>y \<in> set xs. S y"
  shows "strictly f (remdups_adj xs)"
  using assms
proof (induction xs rule: remdups_adj.induct)
  case (3 x y xs)
  show ?case
  proof (cases "x = y")
    case False
    have tail: "strictly f (remdups_adj (y # xs))" using 3 False by (simp add: weakly_def)
    have "f x z = OLess" if "z \<in> set (y # xs)" for z
    proof (cases "z = y")
      case True
      then show ?thesis using "3.prems" False cmp_eq [of x y] by (cases "f x y") (auto simp: weakly_def)
    next
      case nz: False
      have xy: "f x y = OLess" using "3.prems" False cmp_eq [of x y] by (cases "f x y") (auto simp: weakly_def)
      have "f y z = OLess"
        using "3.prems" that nz cmp_eq [of y z] by (cases "f y z") (auto simp: weakly_def)
      then show ?thesis using cmp_trans [of x y z] xy "3.prems"(2) that by auto
    qed
    then show ?thesis using tail False by (auto simp: strictly_def)
  qed (use 3 in \<open>auto simp: weakly_def\<close>)
qed (simp_all add: strictly_def)

text \<open>A strictly sorted list is determined by its elements.\<close>

lemma strictly_unique:
  assumes "strictly f xs" "strictly f ys" "set xs = set ys" "\<forall>x \<in> set xs. S x"
  shows "xs = ys"
  using assms
proof (induction xs arbitrary: ys)
  case (Cons x xs)
  then obtain y zs where ys: "ys = y # zs" by (cases ys) auto
  have x: "\<forall>z \<in> set xs. f x z = OLess" and y: "\<forall>z \<in> set zs. f y z = OLess"
    using Cons.prems(1,2) ys by (auto simp: strictly_def)
  have Sy: "S y" and Sx: "S x" using Cons.prems(3,4) ys by auto
  have "x = y"
  proof (rule ccontr)
    assume n: "x \<noteq> y"
    then have "f x y = OLess" "f y x = OLess" using Cons.prems(3) x y ys by auto
    then show False using cmp_flip [OF Sx Sy] by simp
  qed
  moreover have "x \<notin> set xs" "y \<notin> set zs" using x y cmp_eq Sx Sy by force+
  ultimately have "set xs = set zs" using Cons.prems(3) ys by auto
  then show ?case using Cons ys \<open>x = y\<close> by (auto simp: strictly_def)
qed simp

end

interpretation val_order: total_cmp val_cmp valid
  by unfold_locales (use val_cmp_eq val_cmp_flip val_cmp_trans in blast)+

section \<open>Rows of values\<close>

lemma flip_then: "flip (then_cmp a b) = then_cmp (flip a) (flip b)"
  by (cases a; cases b) simp_all

context total_cmp begin

lemma slice_eq: "\<forall>x \<in> set xs. S x \<Longrightarrow> \<forall>y \<in> set ys. S y \<Longrightarrow> slice_cmp f xs ys = OEqual \<longleftrightarrow> xs = ys"
proof (induction xs ys rule: list_induct2')
  case (4 x xs y ys)
  then show ?case using cmp_eq [of x y] by (cases "f x y") auto
qed auto

lemma slice_flip: "\<forall>x \<in> set xs. S x \<Longrightarrow> \<forall>y \<in> set ys. S y \<Longrightarrow> slice_cmp f ys xs = flip (slice_cmp f xs ys)"
proof (induction xs ys rule: list_induct2')
  case (4 x xs y ys)
  then show ?case using cmp_flip [of x y] by (simp add: flip_then)
qed auto

lemma slice_trans:
  "\<forall>x \<in> set xs. S x \<Longrightarrow> \<forall>y \<in> set ys. S y \<Longrightarrow> \<forall>z \<in> set zs. S z \<Longrightarrow>
   slice_cmp f xs ys = OLess \<Longrightarrow> slice_cmp f ys zs = OLess \<Longrightarrow> slice_cmp f xs zs = OLess"
proof (induction xs arbitrary: ys zs)
  case Nil
  then show ?case by (cases ys; cases zs) auto
next
  case (Cons x xs)
  then obtain y ys' where ys: "ys = y # ys'" by (cases ys) auto
  with Cons.prems obtain z zs' where zs: "zs = z # zs'" by (cases zs) auto
  have S: "S x" "S y" "S z" using Cons.prems ys zs by auto
  consider "f x y = OLess" | "x = y" "slice_cmp f xs ys' = OLess"
    using Cons.prems(4) ys cmp_eq [OF S(1,2)] by (cases "f x y") auto
  then show ?case
  proof cases
    case 1
    then have "f x z = OLess"
      using Cons.prems(5) ys zs cmp_eq [OF S(2,3)] cmp_trans [OF S] by (cases "f y z") auto
    then show ?thesis using zs by simp
  next
    case 2
    then show ?thesis using Cons.prems Cons.IH [of ys' zs'] ys zs cmp_eq [OF S(2,3)] by (cases "f y z") auto
  qed
qed

end

interpretation row_order: total_cmp "slice_cmp val_cmp" "\<lambda>row. \<forall>x \<in> set row. valid x"
  by unfold_locales (use val_order.slice_eq val_order.slice_flip val_order.slice_trans in blast)+

section \<open>Canonical maps\<close>

lemma insort_fst:
  "map fst (insort_by (\<lambda>a b. val_cmp (fst a) (fst b)) x xs) = insort_by val_cmp (fst x) (map fst xs)"
  by (induction xs) auto

lemma sort_fst: "map fst (sort_by (\<lambda>a b. val_cmp (fst a) (fst b)) es) = sort_by val_cmp (map fst es)"
  by (induction es) (simp_all add: sort_by_def insort_fst)

lemma set_insort_pairs: "set (insort_by g x xs) = insert x (set xs)"
  by (induction xs) auto

lemma set_sort_pairs: "set (sort_by g xs) = set xs"
  by (induction xs) (auto simp: sort_by_def set_insort_pairs)

text \<open>The sort is stable: the last entry of a key stays the last of that key.\<close>

lemma map_of_append_other: "map_of (xs @ [(k, v)]) = (map_of [(k, v)]) ++ map_of xs"
  by (simp add: fun_eq_iff map_add_def split: option.splits)

lemma insort_last:
  assumes "\<forall>e \<in> set (x # xs). valid (fst e)"
  shows "map_of (rev (insort_by (\<lambda>a b. val_cmp (fst a) (fst b)) x xs)) = map_of (rev (x # xs))"
  using assms
proof (induction xs)
  case (Cons y ys)
  show ?case
  proof (cases "val_cmp (fst x) (fst y) = OGreater")
    case True
    then have "fst x \<noteq> fst y" using Cons.prems val_cmp_eq [of "fst x" "fst y"] by auto
    moreover have "map_of (rev (insort_by (\<lambda>a b. val_cmp (fst a) (fst b)) x ys)) = map_of (rev (x # ys))" using Cons by simp
    ultimately show ?thesis using True by (cases x; cases y) (auto simp: fun_eq_iff map_add_def split: option.splits)
  qed simp
qed simp

lemma sort_last:
  assumes "\<forall>e \<in> set es. valid (fst e)"
  shows "map_of (rev (sort_by (\<lambda>a b. val_cmp (fst a) (fst b)) es)) = map_of (rev es)"
  using assms
proof (induction es)
  case (Cons x es)
  let ?t = "sort_by (\<lambda>a b. val_cmp (fst a) (fst b)) es"
  have "map_of (rev (sort_by (\<lambda>a b. val_cmp (fst a) (fst b)) (x # es))) = map_of (rev (x # ?t))"
    using insort_last [of x ?t] Cons.prems by (simp add: sort_by_def set_sort_pairs [unfolded sort_by_def])
  then show ?case using Cons by simp
qed (simp add: sort_by_def)

lemma map_of_push:
  assumes "k \<notin> fst ` set bs"
  shows "map_of (bs @ [(k, v)]) ++ map_of (rev es) = map_of bs ++ map_of (rev ((k, v) # es))"
proof (rule ext)
  fix x
  have "map_of bs k = None" using assms by (simp add: map_of_eq_None_iff)
  then show "(map_of (bs @ [(k, v)]) ++ map_of (rev es)) x = (map_of bs ++ map_of (rev ((k, v) # es))) x"
    by (cases "map_of (rev es) x"; cases "x = k"; cases "map_of bs x") (simp_all add: map_add_def)
qed

lemma map_of_replace_last:
  assumes "k \<notin> fst ` set bs"
  shows "map_of (bs @ [(k, v)]) ++ map_of (rev es) = map_of (bs @ [(k, w)]) ++ map_of (rev ((k, v) # es))"
proof (rule ext)
  fix x
  have "map_of bs k = None" using assms by (simp add: map_of_eq_None_iff)
  then show "(map_of (bs @ [(k, v)]) ++ map_of (rev es)) x = (map_of (bs @ [(k, w)]) ++ map_of (rev ((k, v) # es))) x"
    by (cases "map_of (rev es) x"; cases "x = k"; cases "map_of bs x") (simp_all add: map_add_def)
qed

lemma canonical_entries_ok:
  assumes "strictly val_cmp (map fst acc)" "val_order.weakly (map fst es)"
    and "\<forall>a \<in> set acc. \<forall>e \<in> set es. val_cmp (fst a) (fst e) \<noteq> OGreater"
    and "\<forall>e \<in> set (acc @ es). valid (fst e)"
  shows "strictly val_cmp (map fst (canonical_entries acc es)) \<and>
    map_of (canonical_entries acc es) = map_of acc ++ map_of (rev es) \<and>
    set (canonical_entries acc es) \<subseteq> fst ` set (acc @ es) \<times> snd ` set (acc @ es)"
  using assms
proof (induction acc es rule: canonical_entries.induct)
  case (1 acc)
  then show ?case by force
next
  case (2 acc k v es)
  have rest: "val_order.weakly (map fst es)" "\<forall>e \<in> set es. val_cmp k (fst e) \<noteq> OGreater"
    using "2.prems"(2) by (auto simp: val_order.weakly_def)
  show ?case
  proof (cases "acc \<noteq> [] \<and> fst (last acc) = k")
    case True
    then obtain bs w where acc: "acc = bs @ [(k, w)]" by (metis append_butlast_last_id prod.collapse)
    have nk: "k \<notin> fst ` set bs"
    proof
      assume "k \<in> fst ` set bs"
      then have "val_cmp k k = OLess" using "2.prems"(1) acc by (auto simp: strictly_def sorted_wrt_append)
      then show False using val_cmp_eq [of k k] "2.prems"(4) by auto
    qed
    have "strictly val_cmp (map fst (bs @ [(k, v)]))" using "2.prems"(1) acc by (simp add: strictly_def)
    moreover have "\<forall>a \<in> set (bs @ [(k, v)]). \<forall>e \<in> set es. val_cmp (fst a) (fst e) \<noteq> OGreater"
      using "2.prems"(3) acc rest(2) by auto
    moreover have "map_of (bs @ [(k, v)]) ++ map_of (rev es) = map_of acc ++ map_of (rev ((k, v) # es))"
      unfolding acc by (rule map_of_replace_last [OF nk])
    moreover have "\<forall>e \<in> set ((bs @ [(k, v)]) @ es). valid (fst e)" using "2.prems"(4) acc by auto
    ultimately have IH: "strictly val_cmp (map fst (canonical_entries (bs @ [(k, v)]) es)) \<and>
        map_of (canonical_entries (bs @ [(k, v)]) es) = map_of acc ++ map_of (rev ((k, v) # es)) \<and>
        set (canonical_entries (bs @ [(k, v)]) es) \<subseteq> fst ` set ((bs @ [(k, v)]) @ es) \<times> snd ` set ((bs @ [(k, v)]) @ es)"
      using "2.IH"(1) [OF True] rest(1) acc by simp
    have run: "canonical_entries acc ((k, v) # es) = canonical_entries (bs @ [(k, v)]) es" using True acc by simp
    have "set ((bs @ [(k, v)]) @ es) \<subseteq> set (acc @ (k, v) # es)" using acc by auto
    then have "fst ` set ((bs @ [(k, v)]) @ es) \<times> snd ` set ((bs @ [(k, v)]) @ es) \<subseteq>
        fst ` set (acc @ (k, v) # es) \<times> snd ` set (acc @ (k, v) # es)"
      by (intro Sigma_mono image_mono)
    then show ?thesis unfolding run using IH by (intro conjI) (simp_all only: order_trans, blast)
  next
    case False
    have "val_cmp (fst a) k = OLess" if a: "a \<in> set acc" for a
    proof -
      obtain bs l where acc: "acc = bs @ [l]" using a by (cases acc rule: rev_cases) auto
      have S: "valid (fst a)" "valid (fst l)" "valid k" using "2.prems"(4) a acc by auto
      have l: "val_cmp (fst l) k = OLess"
        using "2.prems"(3) acc False val_cmp_eq [OF S(2,3)] by (cases "val_cmp (fst l) k") auto
      have "fst a = fst l \<or> val_cmp (fst a) (fst l) = OLess"
        using "2.prems"(1) acc a by (auto simp: strictly_def sorted_wrt_append)
      then show ?thesis using l val_cmp_trans [OF S] by auto
    qed
    then have "strictly val_cmp (map fst (acc @ [(k, v)]))" using "2.prems"(1) by (auto simp: strictly_def sorted_wrt_append)
    moreover have "\<forall>a \<in> set (acc @ [(k, v)]). \<forall>e \<in> set es. val_cmp (fst a) (fst e) \<noteq> OGreater"
      using "2.prems"(3) rest(2) by auto
    moreover have "k \<notin> fst ` set acc"
    proof
      assume "k \<in> fst ` set acc"
      then have "val_cmp k k = OLess" using \<open>\<And>a. a \<in> set acc \<Longrightarrow> val_cmp (fst a) k = OLess\<close> by auto
      then show False using val_cmp_eq [of k k] "2.prems"(4) by auto
    qed
    then have "map_of (acc @ [(k, v)]) ++ map_of (rev es) = map_of acc ++ map_of (rev ((k, v) # es))"
      by (rule map_of_push)
    moreover have "\<forall>e \<in> set ((acc @ [(k, v)]) @ es). valid (fst e)" using "2.prems"(4) by auto
    ultimately have IH: "strictly val_cmp (map fst (canonical_entries (acc @ [(k, v)]) es)) \<and>
        map_of (canonical_entries (acc @ [(k, v)]) es) = map_of acc ++ map_of (rev ((k, v) # es)) \<and>
        set (canonical_entries (acc @ [(k, v)]) es) \<subseteq> fst ` set ((acc @ [(k, v)]) @ es) \<times> snd ` set ((acc @ [(k, v)]) @ es)"
      using "2.IH"(2) [OF False] rest(1) by simp
    have "canonical_entries acc ((k, v) # es) = canonical_entries (acc @ [(k, v)]) es"
      by (subst canonical_entries.simps, subst if_not_P [OF False]) simp
    then show ?thesis using IH by simp
  qed
qed

lemma strictly_fst: "strictly (\<lambda>a b. val_cmp (fst a) (fst b)) es \<longleftrightarrow> strictly val_cmp (map fst es)"
  by (simp add: strictly_def sorted_wrt_map)

text \<open>\<open>Value::map\<close> builds a canonical map in which the last entry of every key is found.\<close>

lemma value_map_ok:
  assumes "\<forall>e \<in> set es. valid (fst e) \<and> valid (snd e)"
  shows "valid (value_map es)" "map_get (value_map es) k = map_of (rev es) k"
proof -
  let ?s = "sort_by (\<lambda>a b. val_cmp (fst a) (fst b)) es"
  have keys: "\<forall>k \<in> set (map fst es). valid k" using assms by auto
  have "val_order.weakly (map fst ?s)" unfolding sort_fst by (rule val_order.weakly_sort [OF keys])
  then have c: "strictly val_cmp (map fst (canonical_entries [] ?s))" "map_of (canonical_entries [] ?s) = map_of (rev ?s)"
    "set (canonical_entries [] ?s) \<subseteq> fst ` set ?s \<times> snd ` set ?s"
    using canonical_entries_ok [of "[]" ?s] assms by (simp_all add: strictly_def set_sort_pairs)
  have "valid (fst e) \<and> valid (snd e)" if "e \<in> set (canonical_entries [] ?s)" for e
    using c(3) that assms by (auto simp: set_sort_pairs dest!: subsetD)
  then show "valid (value_map es)" using c(1) by (simp add: value_map_def strictly_fst)
  show "map_get (value_map es) k = map_of (rev es) k" using c(2) sort_last [of es] assms by (simp add: value_map_def map_get_def)
qed

lemma canonical_entries_strict:
  "strictly val_cmp (map fst (acc @ es)) \<Longrightarrow> \<forall>e \<in> set (acc @ es). valid (fst e) \<Longrightarrow> canonical_entries acc es = acc @ es"
proof (induction acc es rule: canonical_entries.induct)
  case (2 acc k v es)
  have n: "\<not> (acc \<noteq> [] \<and> fst (last acc) = k)"
  proof
    assume a: "acc \<noteq> [] \<and> fst (last acc) = k"
    then have "val_cmp k k = OLess" using 2(3) by (auto simp: strictly_def sorted_wrt_append)
    then show False using val_cmp_eq [of k k] 2(4) by auto
  qed
  show ?case by (subst canonical_entries.simps, subst if_not_P [OF n]) (use 2(2) [OF n] 2(3,4) in simp)
qed simp

lemma value_map_canonical: "valid (VMap es) \<Longrightarrow> value_map es = VMap es"
  using canonical_entries_strict [of "[]" es] sort_strict [of "\<lambda>a b. val_cmp (fst a) (fst b)" es]
  by (simp add: value_map_def strictly_fst)

section \<open>Canonical relations\<close>

lemma adjacent_duplicate_None:
  "adjacent_duplicate h ps = None \<longleftrightarrow> sorted_wrt (<) (map (\<lambda>p. h ! p) ps)" if "sorted (map (\<lambda>p. h ! p) ps)"
  using that
proof (induction h ps rule: adjacent_duplicate.induct)
  case (1 h p q ps)
  then show ?case by (auto simp: order.strict_iff_order)
qed auto

lemma canonical_rows_ok:
  assumes "\<forall>row \<in> set rows. length row = n"
  shows "\<exists>strict'. canonical_rows n order ordered acc strict rows =
    Inr (acc @ map (\<lambda>row. if ordered then row else select row order) rows, strict')"
  using assms
proof (induction rows arbitrary: acc strict)
  case (Cons row rows)
  let ?sel = "\<lambda>row. if ordered then row else select row order"
  have "\<exists>strict'. canonical_rows n order ordered (acc @ [?sel row]) st rows = Inr ((acc @ [?sel row]) @ map ?sel rows, strict')" for st
    by (rule Cons.IH) (use Cons.prems in simp)
  then show ?case using Cons.prems by (simp add: Let_def)
qed simp

lemma canonical_rows_arity:
  assumes "canonical_rows n order ordered acc strict rows = Inr out"
  shows "\<forall>row \<in> set rows. length row = n"
  using assms by (induction n order ordered acc strict rows rule: canonical_rows.induct) (auto simp: Let_def split: if_splits)

text \<open>The flag: the rows were strictly ascending as they came.\<close>

lemma canonical_rows_flag:
  assumes "canonical_rows n order ordered acc strict rows = Inr (rs, strict')"
    and "strict \<Longrightarrow> strictly (slice_cmp val_cmp) acc" "\<forall>row \<in> set acc. \<forall>x \<in> set row. valid x"
    and "\<forall>row \<in> set rows. \<forall>x \<in> set (if ordered then row else select row order). valid x"
  shows "strict' \<Longrightarrow> strictly (slice_cmp val_cmp) rs"
  using assms
proof (induction n order ordered acc strict rows rule: canonical_rows.induct)
  case (2 n order ordered acc strict row rows)
  let ?row = "if ordered then row else select row order"
  let ?strict = "strict \<and> \<not> (acc \<noteq> [] \<and> slice_cmp val_cmp (last acc) ?row \<noteq> OLess)"
  have n: "\<not> length row \<noteq> n" and run: "canonical_rows n order ordered (acc @ [?row]) ?strict rows = Inr (rs, strict')"
    using "2.prems"(2) by (auto simp: Let_def split: if_splits)
  have "strictly (slice_cmp val_cmp) (acc @ [?row])" if s: ?strict
  proof (cases acc rule: rev_cases)
    case (snoc bs b)
    have b: "slice_cmp val_cmp b ?row = OLess" using s snoc by auto
    have "slice_cmp val_cmp a ?row = OLess" if a: "a \<in> set bs" for a
    proof -
      have ab: "slice_cmp val_cmp a b = OLess" using "2.prems"(3) s snoc a by (auto simp: strictly_def sorted_wrt_append)
      show ?thesis by (rule row_order.cmp_trans [OF _ _ _ ab b]) (use "2.prems"(4,5) snoc a in auto)
    qed
    with b snoc "2.prems"(3) s show ?thesis by (auto simp: strictly_def sorted_wrt_append)
  qed (simp add: strictly_def)
  moreover have "\<forall>r \<in> set (acc @ [?row]). \<forall>x \<in> set r. valid x" using "2.prems"(4,5) by auto
  ultimately show ?case using "2.IH" [OF n refl refl] run "2.prems"(1,5) by auto
qed auto

lemma canonical_rows_strict:
  assumes "strictly (slice_cmp val_cmp) (acc @ rows)" "\<forall>row \<in> set rows. length row = n"
  shows "canonical_rows n order True acc True rows = Inr (acc @ rows, True)"
  using assms
proof (induction rows arbitrary: acc)
  case (Cons row rows)
  have s: "\<not> (acc \<noteq> [] \<and> slice_cmp val_cmp (last acc) row \<noteq> OLess)"
    using Cons.prems(1) by (cases acc rule: rev_cases) (auto simp: strictly_def sorted_wrt_append)
  have "canonical_rows n order True (acc @ [row]) True rows = Inr ((acc @ [row]) @ rows, True)"
    by (rule Cons.IH) (use Cons.prems in auto)
  then show ?case using Cons.prems(2) s by (simp add: Let_def)
qed simp

lemma order_perm: "set (sort_key (\<lambda>p. h ! p) [0..<length h]) = {..< length h}"
  by auto

lemma heading_sorted: "sorted (map (\<lambda>p. h ! p) (sort_key (\<lambda>p. h ! p) [0..<length h]))"
  by simp

lemma heading_set: "mset (map (\<lambda>p. h ! p) (sort_key (\<lambda>p. h ! p) [0..<length h])) = mset h"
proof -
  have "mset (map (\<lambda>p. h ! p) (sort_key (\<lambda>p. h ! p) [0..<length h])) = mset (map (\<lambda>p. h ! p) [0..<length h])" by simp
  then show ?thesis by (simp add: map_nth)
qed

lemma canonical_order:
  assumes "sorted_wrt (<) h"
  shows "sort_key (\<lambda>p. h ! p) [0..<length h] = [0..<length h]"
proof -
  have "sorted (map (\<lambda>p. h ! p) [0..<length h])" using assms by (simp add: map_nth strict_sorted_iff)
  then show ?thesis by (rule sort_key_id_if_sorted)
qed

text \<open>A canonical relation is a fixed point.\<close>

lemma relation_new_canonical:
  assumes "valid (VRelation h rows)"
  shows "relation_new h rows = Inr (h, rows)"
proof -
  have v: "length h \<le> 65535" "sorted_wrt (<) h" "\<forall>row \<in> set rows. length row = length h" "strictly (slice_cmp val_cmp) rows"
    using assms by auto
  have "adjacent_duplicate h [0..<length h] = None"
    using adjacent_duplicate_None [of h "[0..<length h]"] v(2) by (simp add: map_nth strict_sorted_iff)
  moreover have "canonical_rows (length h) [0..<length h] True [] True rows = Inr (rows, True)"
    using canonical_rows_strict [of "[]" rows] v(3,4) by simp
  ultimately show ?thesis using v(1) by (simp add: relation_new_def canonical_order [OF v(2)] map_nth)
qed

text \<open>What is built: a canonical relation of the same columns, whose rows are the given rows by column.\<close>

lemma select_lookup:
  assumes "distinct h" "length row = length h"
  shows "map_of (zip (map (\<lambda>p. h ! p) (sort_key (\<lambda>p. h ! p) [0..<length h])) (select row (sort_key (\<lambda>p. h ! p) [0..<length h]))) =
    map_of (zip h row)"
proof -
  let ?o = "sort_key (\<lambda>p. h ! p) [0..<length h]"
  have z: "zip (map (\<lambda>p. h ! p) ?o) (select row ?o) = map (\<lambda>p. (h ! p, row ! p)) ?o"
    by (simp add: select_def zip_map_map zip_same_conv_map)
  have "distinct (map (\<lambda>p. h ! p) ?o)" using heading_set [of h] assms(1) by (metis mset_eq_imp_distinct_iff)
  then have d: "distinct (map fst (map (\<lambda>p. (h ! p, row ! p)) ?o))" by (simp add: comp_def)
  have "set (map (\<lambda>p. (h ! p, row ! p)) ?o) = set (zip h row)"
    using assms(2) by (auto simp: set_zip)
  then show ?thesis using d assms unfolding z by (subst map_of_inject_set) auto
qed

lemma relation_new_ok:
  assumes new: "relation_new h rows = Inr (h', rs)"
    and cells: "\<forall>row \<in> set rows. \<forall>x \<in> set row. valid x" and syms: "\<forall>s \<in> set h. s < U32_LIMIT"
  shows "valid (VRelation h' rs)" "set h' = set h" "distinct h" "\<forall>row \<in> set rows. length row = length h"
    "(\<lambda>row. map_of (zip h' row)) ` set rs = (\<lambda>row. map_of (zip h row)) ` set rows"
proof -
  let ?o = "sort_key (\<lambda>p. h ! p) [0..<length h]"
  let ?id = "?o = [0..<length h]"
  let ?sel = "\<lambda>row. if ?id then row else select row ?o"
  have len: "length h \<le> 65535" using new by (auto simp: relation_new_def split: if_splits)
  then have dup: "adjacent_duplicate h ?o = None"
    using new by (auto simp: relation_new_def Let_def split: option.splits)
  obtain rs0 strict where rows: "canonical_rows (length h) ?o ?id [] True rows = Inr (rs0, strict)"
    and out: "h' = map (\<lambda>p. h ! p) ?o" "rs = (if strict then rs0 else remdups_adj (sort_by (slice_cmp val_cmp) rs0))"
    using new len dup by (auto simp: relation_new_def Let_def split: sum.splits)
  have arity: "\<forall>row \<in> set rows. length row = length h" by (rule canonical_rows_arity [OF rows])
  then show "\<forall>row \<in> set rows. length row = length h" .
  have rs0: "rs0 = map ?sel rows" using canonical_rows_ok [OF arity, of ?o ?id "[]" True] rows by auto
  have sel: "length (?sel row) = length h \<and> set (?sel row) \<subseteq> set row" if "row \<in> set rows" for row
    using arity that by (auto simp: select_def)
  have sel_valid: "valid x" if "row \<in> set rows" "x \<in> set (?sel row)" for row x
    using sel [OF that(1)] that cells by blast
  then have valid0: "\<forall>row \<in> set rs0. \<forall>x \<in> set row. valid x" unfolding rs0 set_map by blast
  have strict: "strictly (slice_cmp val_cmp) rs"
  proof (cases strict)
    case True
    have "strictly (slice_cmp val_cmp) rs0"
      by (rule canonical_rows_flag [OF rows _ _ _ True]) (use sel_valid in \<open>simp_all add: strictly_def\<close>)
    then show ?thesis using True out by simp
  next
    case False
    then show ?thesis using out row_order.strictly_dedup [OF row_order.weakly_sort] valid0 by simp
  qed
  have set_rs: "set rs = ?sel ` set rows" using out(2) rs0 by (auto simp: set_sort_pairs)
  have sorted: "sorted_wrt (<) h'" using adjacent_duplicate_None [OF heading_sorted, of h] dup out(1) by simp
  have ms: "mset h' = mset h" using heading_set out(1) by simp
  then show "set h' = set h" by (metis set_mset_mset)
  show d: "distinct h" using sorted ms by (metis mset_eq_imp_distinct_iff strict_sorted_iff)
  have lh: "length h' = length h" using ms by (metis size_mset)
  have "length row = length h \<and> (\<forall>x \<in> set row. valid x)" if "row \<in> set rs" for row
    using that sel sel_valid unfolding set_rs by blast
  then show "valid (VRelation h' rs)" using len lh sorted \<open>set h' = set h\<close> syms strict by auto
  have "map_of (zip h' (?sel row)) = map_of (zip h row)" if "row \<in> set rows" for row
  proof (cases ?id)
    case True
    then show ?thesis using out(1) by (simp add: map_nth)
  next
    case False
    then show ?thesis using select_lookup [OF d, of row] arity that unfolding out(1) by simp
  qed
  then show "(\<lambda>row. map_of (zip h' row)) ` set rs = (\<lambda>row. map_of (zip h row)) ` set rows"
    unfolding set_rs image_image by (rule image_cong [OF refl])
qed

end
