(* ===== verification/ValueCodec.thy ===== *)
theory ValueCodec
  imports ValueCanon
begin

text \<open>
  The owned value codec: \<open>crates/var/src/codec.rs\<close>. Encoding returns the bytes appended to the sink, or
  the error; the segmented encoding shares the payload bytes of strings and byte strings with the value.
  Decoding is a reader over the input with the process-wide symbol table behind it; the recursive
  descent carries fuel, and \<open>None\<close> is fuel that ran out, which the bytes of the input bound.
\<close>

section \<open>Options, errors, headers\<close>

datatype symbol_encoding = SymName | SymId

record codec_options =
  co_symbol_encoding :: symbol_encoding
  co_allow_capabilities :: bool

definition options_default :: codec_options where
  "options_default = \<lparr>co_symbol_encoding = SymName, co_allow_capabilities = False\<rparr>"

text \<open>The message of an \<open>InvalidValue\<close>; the text of a UTF-8 error is not kept.\<close>

datatype invalid_reason =
    ErrorCodeExpected | DelegateExpected | ColumnExpected | ZeroArityRows | BadRelation relation_value_error
  | EmptyRelationPayload | InlineSymbolDisabled | InlineErrorCodeDisabled

datatype codec_error =
    LengthTooLarge usize | InlineHeapValue nat | UnnamedSymbol symbol | CapabilityNotEncodable | CapabilityNotDecodable
  | FunctionNotEncodable | FunctionNotDecodable | UnexpectedEnd usize usize usize | TrailingBytes usize
  | InvalidBoolPayload nat | InvalidFloatPayload nat | InvalidCapabilityPayload nat | InvalidSymbolPayload nat
  | InvalidUtf8 | InvalidIdentity nat | InvalidValue invalid_reason | InvalidExtendedAux nat nat
  | UnknownValueTag nat | OffsetOverflow

definition EXTENDED_TAG :: nat where "EXTENDED_TAG = 255"
definition EXT_AUX_LIMIT :: nat where "EXT_AUX_LIMIT = 281474976710656"

definition sbind :: "'e + 'a \<Rightarrow> ('a \<Rightarrow> 'e + 'b) \<Rightarrow> 'e + 'b" where
  "sbind m f = (case m of Inl e \<Rightarrow> Inl e | Inr x \<Rightarrow> f x)"

lemma sbind_simps [simp]: "sbind (Inl e) f = Inl e" "sbind (Inr x) f = f x"
  by (simp_all add: sbind_def)

lemma sbind_Inr: "sbind m f = Inr y \<longleftrightarrow> (\<exists>x. m = Inr x \<and> f x = Inr y)"
  by (cases m) auto

lemma sbind_cong [fundef_cong]: "m = m' \<Longrightarrow> (\<And>x. m' = Inr x \<Longrightarrow> f x = g x) \<Longrightarrow> sbind m f = sbind m' g"
  by (cases m') auto

definition extended_header_word :: "nat \<Rightarrow> nat \<Rightarrow> nat" where
  "extended_header_word k aux = EXTENDED_TAG * PAYLOAD_LIMIT + k * EXT_AUX_LIMIT + aux"

definition len_aux :: "usize \<Rightarrow> codec_error + nat" where
  "len_aux n = (if n < EXT_AUX_LIMIT then Inr n else Inl (LengthTooLarge usize_max))"

definition word_bytes :: "nat \<Rightarrow> bytes" where
  "word_bytes w = le_bytes 8 w"

section \<open>Encoding\<close>

fun enc_all :: "('a \<Rightarrow> 'e + bytes) \<Rightarrow> 'a list \<Rightarrow> 'e + bytes" where
  "enc_all f [] = Inr []"
| "enc_all f (x # xs) = sbind (f x) (\<lambda>b. sbind (enc_all f xs) (\<lambda>bs. Inr (b @ bs)))"

lemma enc_all_cong [fundef_cong]:
  "xs = ys \<Longrightarrow> (\<And>x. x \<in> set ys \<Longrightarrow> f x = g x) \<Longrightarrow> enc_all f xs = enc_all g ys"
  by (induction xs arbitrary: ys) auto

definition write_blob :: "bytes \<Rightarrow> bytes" where
  "write_blob bs = word_bytes (length bs) @ bs"

definition encode_symbol_value :: "codec_options \<Rightarrow> symbol_table \<Rightarrow> nat \<Rightarrow> symbol \<Rightarrow> codec_error + bytes" where
  "encode_symbol_value opts tab tag s =
     (case co_symbol_encoding opts of
        SymId \<Rightarrow> Inr (word_bytes (pack tag s))
      | SymName \<Rightarrow>
          (case symbol_name tab s of
             None \<Rightarrow> Inl (UnnamedSymbol s)
           | Some name \<Rightarrow>
               sbind (len_aux (str_len name)) (\<lambda>aux. Inr (word_bytes (extended_header_word tag aux) @ as_bytes name))))"

fun encode_value :: "codec_options \<Rightarrow> symbol_table \<Rightarrow> val \<Rightarrow> codec_error + bytes" where
  "encode_value opts tab (VBool b) = Inr (word_bytes (the (raw_bits (VBool b))))"
| "encode_value opts tab (VInt i) = Inr (word_bytes (the (raw_bits (VInt i))))"
| "encode_value opts tab (VFloat b) = Inr (word_bytes (the (raw_bits (VFloat b))))"
| "encode_value opts tab (VIdentity i) = Inr (word_bytes (the (raw_bits (VIdentity i))))"
| "encode_value opts tab (VSymbol s) = encode_symbol_value opts tab TAG_SYMBOL s"
| "encode_value opts tab (VErrorCode s) = encode_symbol_value opts tab TAG_ERROR_CODE s"
| "encode_value opts tab (VString s) =
     sbind (len_aux (str_len s)) (\<lambda>aux. Inr (word_bytes (extended_header_word TAG_STRING aux) @ as_bytes s))"
| "encode_value opts tab (VBytes b) =
     sbind (len_aux (length b)) (\<lambda>aux. Inr (word_bytes (extended_header_word TAG_BYTES aux) @ b))"
| "encode_value opts tab (VList xs) =
     sbind (len_aux (length xs)) (\<lambda>aux.
     sbind (enc_all (encode_value opts tab) xs) (\<lambda>bs. Inr (word_bytes (extended_header_word TAG_LIST aux) @ bs)))"
| "encode_value opts tab (VMap es) =
     sbind (len_aux (length es)) (\<lambda>aux.
     sbind (enc_all (\<lambda>e. sbind (encode_value opts tab (fst e)) (\<lambda>k.
                         sbind (encode_value opts tab (snd e)) (\<lambda>v. Inr (k @ v)))) es) (\<lambda>bs.
     Inr (word_bytes (extended_header_word TAG_MAP aux) @ bs)))"
| "encode_value opts tab (VRelation h rows) =
     (if is_empty_relation (VRelation h rows) then Inr (word_bytes (pack TAG_EMPTY_RELATION 0))
      else
        sbind (len_aux (length h)) (\<lambda>aux.
        sbind (enc_all (encode_symbol_value opts tab TAG_SYMBOL) h) (\<lambda>cols.
        sbind (enc_all (enc_all (encode_value opts tab)) rows) (\<lambda>cells.
        Inr (word_bytes (extended_header_word TAG_RELATION aux) @ cols @ word_bytes (length rows) @ cells)))))"
| "encode_value opts tab (VRange a b) =
     sbind (encode_value opts tab a) (\<lambda>start.
     case b of
       None \<Rightarrow> Inr (word_bytes (extended_header_word TAG_RANGE 0) @ start)
     | Some x \<Rightarrow> sbind (encode_value opts tab x) (\<lambda>bs. Inr (word_bytes (extended_header_word TAG_RANGE 1) @ start @ bs)))"
| "encode_value opts tab (VError c m v) =
     (let flags = (if m = None then 0 else 1) + (if v = None then 0 else 2) in
      sbind (encode_symbol_value opts tab TAG_ERROR_CODE c) (\<lambda>code.
      let msg = (case m of None \<Rightarrow> [] | Some s \<Rightarrow> write_blob (as_bytes s)) in
      case v of
        None \<Rightarrow> Inr (word_bytes (extended_header_word TAG_ERROR flags) @ code @ msg)
      | Some x \<Rightarrow> sbind (encode_value opts tab x) (\<lambda>bs.
          Inr (word_bytes (extended_header_word TAG_ERROR flags) @ code @ msg @ bs))))"
| "encode_value opts tab (VFrob d v) =
     sbind (encode_value opts tab v) (\<lambda>bs.
     Inr (word_bytes (extended_header_word TAG_FROB 0) @ word_bytes (pack TAG_IDENTITY d) @ bs))"
| "encode_value opts tab (VCapability c) =
     (if co_allow_capabilities opts then Inr (word_bytes (the (raw_bits (VCapability c)))) else Inl CapabilityNotEncodable)"
| "encode_value opts tab (VFunction f) = Inl FunctionNotEncodable"

section \<open>Segmented encoding\<close>

datatype value_segment = Borrowed bytes | Scratch usize

record value_segments =
  vs_scratch :: "bytes list"
  vs_segments :: "value_segment list"

definition segments_default :: value_segments where
  "segments_default = \<lparr>vs_scratch = [], vs_segments = []\<rparr>"

definition push_scratch_word :: "nat \<Rightarrow> value_segments \<Rightarrow> value_segments" where
  "push_scratch_word w s = s\<lparr>vs_scratch := vs_scratch s @ [word_bytes w],
     vs_segments := vs_segments s @ [Scratch (length (vs_scratch s))]\<rparr>"

definition push_borrowed :: "bytes \<Rightarrow> value_segments \<Rightarrow> value_segments" where
  "push_borrowed bs s = (if bs \<noteq> [] then s\<lparr>vs_segments := vs_segments s @ [Borrowed bs]\<rparr> else s)"

definition segments_len :: "value_segments \<Rightarrow> usize" where
  "segments_len s = sum_list (map (\<lambda>g. case g of Borrowed bs \<Rightarrow> length bs | Scratch _ \<Rightarrow> 8) (vs_segments s))"

text \<open>\<open>None\<close>: a scratch index out of range.\<close>

fun seg_bytes :: "bytes list \<Rightarrow> value_segment list \<Rightarrow> bytes option" where
  "seg_bytes scratch [] = Some []"
| "seg_bytes scratch (Borrowed bs # gs) = map_option ((@) bs) (seg_bytes scratch gs)"
| "seg_bytes scratch (Scratch i # gs) =
     (if i < length scratch then map_option ((@) (scratch ! i)) (seg_bytes scratch gs) else None)"

definition to_vec :: "value_segments \<Rightarrow> bytes option" where
  "to_vec s = seg_bytes (vs_scratch s) (vs_segments s)"

fun seg_all :: "('a \<Rightarrow> value_segments \<Rightarrow> 'e + value_segments) \<Rightarrow> 'a list \<Rightarrow> value_segments \<Rightarrow> 'e + value_segments" where
  "seg_all f [] s = Inr s"
| "seg_all f (x # xs) s = sbind (f x s) (seg_all f xs)"

lemma seg_all_cong [fundef_cong]:
  "xs = ys \<Longrightarrow> s = t \<Longrightarrow> (\<And>x s. x \<in> set ys \<Longrightarrow> f x s = g x s) \<Longrightarrow> seg_all f xs s = seg_all g ys t"
proof (induction xs arbitrary: ys s t)
  case (Cons x xs)
  then have "f x t = g x t" "\<And>u. seg_all f xs u = seg_all g xs u" by auto
  then show ?case using Cons.prems(1,2) by (auto simp: sbind_def split: sum.splits)
qed auto

definition encode_symbol_to_segments ::
  "codec_options \<Rightarrow> symbol_table \<Rightarrow> nat \<Rightarrow> symbol \<Rightarrow> value_segments \<Rightarrow> codec_error + value_segments" where
  "encode_symbol_to_segments opts tab tag y s =
     (case co_symbol_encoding opts of
        SymId \<Rightarrow> Inr (push_scratch_word (pack tag y) s)
      | SymName \<Rightarrow>
          (case symbol_name tab y of
             None \<Rightarrow> Inl (UnnamedSymbol y)
           | Some name \<Rightarrow>
               sbind (len_aux (str_len name)) (\<lambda>aux.
               Inr (push_borrowed (as_bytes name) (push_scratch_word (extended_header_word tag aux) s)))))"

fun encode_value_to_segments ::
  "codec_options \<Rightarrow> symbol_table \<Rightarrow> val \<Rightarrow> value_segments \<Rightarrow> codec_error + value_segments" where
  "encode_value_to_segments opts tab (VBool b) s = Inr (push_scratch_word (the (raw_bits (VBool b))) s)"
| "encode_value_to_segments opts tab (VInt i) s = Inr (push_scratch_word (the (raw_bits (VInt i))) s)"
| "encode_value_to_segments opts tab (VFloat b) s = Inr (push_scratch_word (the (raw_bits (VFloat b))) s)"
| "encode_value_to_segments opts tab (VIdentity i) s = Inr (push_scratch_word (the (raw_bits (VIdentity i))) s)"
| "encode_value_to_segments opts tab (VSymbol y) s = encode_symbol_to_segments opts tab TAG_SYMBOL y s"
| "encode_value_to_segments opts tab (VErrorCode y) s = encode_symbol_to_segments opts tab TAG_ERROR_CODE y s"
| "encode_value_to_segments opts tab (VString t) s =
     sbind (len_aux (str_len t)) (\<lambda>aux.
     Inr (push_borrowed (as_bytes t) (push_scratch_word (extended_header_word TAG_STRING aux) s)))"
| "encode_value_to_segments opts tab (VBytes b) s =
     sbind (len_aux (length b)) (\<lambda>aux. Inr (push_borrowed b (push_scratch_word (extended_header_word TAG_BYTES aux) s)))"
| "encode_value_to_segments opts tab (VList xs) s =
     sbind (len_aux (length xs)) (\<lambda>aux.
     seg_all (encode_value_to_segments opts tab) xs (push_scratch_word (extended_header_word TAG_LIST aux) s))"
| "encode_value_to_segments opts tab (VMap es) s =
     sbind (len_aux (length es)) (\<lambda>aux.
     seg_all (\<lambda>e s. sbind (encode_value_to_segments opts tab (fst e) s) (encode_value_to_segments opts tab (snd e))) es
       (push_scratch_word (extended_header_word TAG_MAP aux) s))"
| "encode_value_to_segments opts tab (VRelation h rows) s =
     (if is_empty_relation (VRelation h rows) then Inr (push_scratch_word (pack TAG_EMPTY_RELATION 0) s)
      else
        sbind (len_aux (length h)) (\<lambda>aux.
        sbind (seg_all (encode_symbol_to_segments opts tab TAG_SYMBOL) h
                 (push_scratch_word (extended_header_word TAG_RELATION aux) s)) (\<lambda>s1.
        seg_all (seg_all (encode_value_to_segments opts tab)) rows (push_scratch_word (length rows) s1))))"
| "encode_value_to_segments opts tab (VRange a b) s =
     sbind (encode_value_to_segments opts tab a
              (push_scratch_word (extended_header_word TAG_RANGE (if b = None then 0 else 1)) s)) (\<lambda>s1.
     case b of None \<Rightarrow> Inr s1 | Some x \<Rightarrow> encode_value_to_segments opts tab x s1)"
| "encode_value_to_segments opts tab (VError c m v) s =
     (let flags = (if m = None then 0 else 1) + (if v = None then 0 else 2) in
      sbind (encode_symbol_to_segments opts tab TAG_ERROR_CODE c
               (push_scratch_word (extended_header_word TAG_ERROR flags) s)) (\<lambda>s1.
      let s2 = (case m of None \<Rightarrow> s1 | Some t \<Rightarrow> push_borrowed (as_bytes t) (push_scratch_word (str_len t) s1)) in
      case v of None \<Rightarrow> Inr s2 | Some x \<Rightarrow> encode_value_to_segments opts tab x s2))"
| "encode_value_to_segments opts tab (VFrob d v) s =
     encode_value_to_segments opts tab v
       (push_scratch_word (pack TAG_IDENTITY d) (push_scratch_word (extended_header_word TAG_FROB 0) s))"
| "encode_value_to_segments opts tab (VCapability c) s =
     (if co_allow_capabilities opts then Inr (push_scratch_word (the (raw_bits (VCapability c))) s) else Inl CapabilityNotEncodable)"
| "encode_value_to_segments opts tab (VFunction f) s = Inl FunctionNotEncodable"

definition encode_value_segments :: "codec_options \<Rightarrow> symbol_table \<Rightarrow> val \<Rightarrow> codec_error + value_segments" where
  "encode_value_segments opts tab v = encode_value_to_segments opts tab v segments_default"

section \<open>Decoding\<close>

text \<open>The reader, with the symbol table and cache that \<open>Symbol::intern\<close> updates.\<close>

record reader =
  rd_bytes :: bytes
  rd_offset :: usize
  rd_table :: symbol_table
  rd_cache :: symbol_cache

type_synonym 'a read = "reader \<Rightarrow> (codec_error + 'a \<times> reader) option"

definition rbind :: "'a read \<Rightarrow> ('a \<Rightarrow> 'b read) \<Rightarrow> 'b read" where
  "rbind m f rd = (case m rd of None \<Rightarrow> None | Some (Inl e) \<Rightarrow> Some (Inl e) | Some (Inr (x, rd')) \<Rightarrow> f x rd')"

definition rret :: "'a \<Rightarrow> 'a read" where
  "rret x rd = Some (Inr (x, rd))"

definition rfail :: "codec_error \<Rightarrow> 'a read" where
  "rfail e rd = Some (Inl e)"

definition rlift :: "codec_error + 'a \<Rightarrow> 'a read" where
  "rlift m rd = Some (case m of Inl e \<Rightarrow> Inl e | Inr x \<Rightarrow> Inr (x, rd))"

definition reader_new :: "bytes \<Rightarrow> symbol_table \<Rightarrow> symbol_cache \<Rightarrow> reader" where
  "reader_new bs tab cache = \<lparr>rd_bytes = bs, rd_offset = 0, rd_table = tab, rd_cache = cache\<rparr>"

definition expect_end :: "unit read" where
  "expect_end rd =
     (if rd_offset rd = length (rd_bytes rd) then Some (Inr ((), rd))
      else Some (Inl (TrailingBytes (length (rd_bytes rd) - rd_offset rd))))"

definition read_exact :: "usize \<Rightarrow> bytes read" where
  "read_exact n rd =
     (case checked_add (rd_offset rd) n of
        None \<Rightarrow> Some (Inl OffsetOverflow)
      | Some stop \<Rightarrow>
          if stop > length (rd_bytes rd) then Some (Inl (UnexpectedEnd n (rd_offset rd) (length (rd_bytes rd))))
          else Some (Inr (take n (drop (rd_offset rd) (rd_bytes rd)), rd\<lparr>rd_offset := stop\<rparr>)))"

definition read_word :: "nat read" where
  "read_word = rbind (read_exact 8) (\<lambda>bs. rret (le_value bs))"

text \<open>The guard before a count is used: at least eight bytes remain for every element.\<close>

definition require_words :: "usize \<Rightarrow> unit read" where
  "require_words n rd =
     (if n * 8 > usize_max then Some (Inl OffsetOverflow)
      else if length (rd_bytes rd) - rd_offset rd < n * 8
      then Some (Inl (UnexpectedEnd (n * 8) (rd_offset rd) (length (rd_bytes rd))))
      else Some (Inr ((), rd)))"

definition read_count :: "nat \<Rightarrow> usize read" where
  "read_count n = rbind (require_words n) (\<lambda>_. rret n)"

definition read_blob_payload :: "nat \<Rightarrow> bytes read" where
  "read_blob_payload n = read_exact n"

definition read_string_payload :: "nat \<Rightarrow> rstr read" where
  "read_string_payload n =
     rbind (read_blob_payload n) (\<lambda>bs. case from_utf8 bs of None \<Rightarrow> rfail InvalidUtf8 | Some s \<Rightarrow> rret s)"

definition read_len_prefixed_string :: "rstr read" where
  "read_len_prefixed_string = rbind read_word read_string_payload"

definition intern_symbol :: "rstr \<Rightarrow> symbol read" where
  "intern_symbol name rd =
     (case intern name (rd_table rd) (rd_table rd) (rd_cache rd) of
        None \<Rightarrow> None
      | Some (s, tab, cache) \<Rightarrow> Some (Inr (s, rd\<lparr>rd_table := tab, rd_cache := cache\<rparr>)))"

definition read_named_symbol :: "codec_options \<Rightarrow> nat \<Rightarrow> nat \<Rightarrow> (symbol \<Rightarrow> val) \<Rightarrow> val read" where
  "read_named_symbol opts k n constructor =
     (if co_symbol_encoding opts \<noteq> SymName then rfail (InvalidExtendedAux k n)
      else rbind (read_string_payload n) (\<lambda>name. rbind (intern_symbol name) (\<lambda>s. rret (constructor s))))"

definition decode_inline_word :: "codec_options \<Rightarrow> nat \<Rightarrow> codec_error + val" where
  "decode_inline_word opts w =
     (let tag = word_tag w; payload = word_payload w in
      if tag = TAG_EMPTY_RELATION then
        if payload = 0 then Inr empty_relation else Inl (InvalidValue EmptyRelationPayload)
      else if tag = TAG_BOOL then
        if payload = 0 then Inr (VBool False) else if payload = 1 then Inr (VBool True) else Inl (InvalidBoolPayload payload)
      else if tag = TAG_INT then Inr (VInt (payload_int payload))
      else if tag = TAG_FLOAT then
        if payload < U32_LIMIT then
          (case float_from_bits payload of Inl _ \<Rightarrow> Inl (InvalidFloatPayload payload) | Inr v \<Rightarrow> Inr v)
        else Inl (InvalidFloatPayload payload)
      else if tag = TAG_IDENTITY then
        (case identity_new payload of Some i \<Rightarrow> Inr (VIdentity i) | None \<Rightarrow> Inl (InvalidIdentity payload))
      else if tag = TAG_SYMBOL then
        if co_symbol_encoding opts \<noteq> SymId then Inl (InvalidValue InlineSymbolDisabled)
        else if payload < U32_LIMIT then Inr (VSymbol payload) else Inl (InvalidSymbolPayload payload)
      else if tag = TAG_ERROR_CODE then
        if co_symbol_encoding opts \<noteq> SymId then Inl (InvalidValue InlineErrorCodeDisabled)
        else if payload < U32_LIMIT then Inr (VErrorCode payload) else Inl (InvalidSymbolPayload payload)
      else if tag \<in> {TAG_STRING, TAG_BYTES, TAG_LIST, TAG_MAP, TAG_RANGE, TAG_ERROR, TAG_FROB, TAG_RELATION} then
        Inl (InlineHeapValue tag)
      else if tag = TAG_CAPABILITY then
        if \<not> co_allow_capabilities opts then Inl CapabilityNotDecodable
        else (case capability_new payload of Some c \<Rightarrow> Inr (VCapability c) | None \<Rightarrow> Inl (InvalidCapabilityPayload payload))
      else if tag = TAG_FUNCTION then Inl FunctionNotDecodable
      else Inl (UnknownValueTag tag))"

text \<open>A \<open>for _ in 0..count\<close> loop of reads.\<close>

primrec read_n :: "'a read \<Rightarrow> nat \<Rightarrow> 'a list read" where
  "read_n m 0 = rret []"
| "read_n m (Suc k) = rbind m (\<lambda>x. rbind (read_n m k) (\<lambda>xs. rret (x # xs)))"

definition as_error_code :: "val \<Rightarrow> symbol option" where
  "as_error_code v = (case v of VErrorCode s \<Rightarrow> Some s | _ \<Rightarrow> None)"

definition as_identity :: "val \<Rightarrow> identity option" where
  "as_identity v = (case v of VIdentity i \<Rightarrow> Some i | _ \<Rightarrow> None)"

definition as_symbol :: "val \<Rightarrow> symbol option" where
  "as_symbol v = (case v of VSymbol s \<Rightarrow> Some s | _ \<Rightarrow> None)"

definition expect :: "'a option \<Rightarrow> invalid_reason \<Rightarrow> 'a read" where
  "expect m r = (case m of None \<Rightarrow> rfail (InvalidValue r) | Some x \<Rightarrow> rret x)"

definition read_relation :: "val read \<Rightarrow> nat \<Rightarrow> val read" where
  "read_relation rv arity =
     rbind (read_count arity) (\<lambda>arity.
     rbind (read_n (rbind rv (\<lambda>v. expect (as_symbol v) ColumnExpected)) arity) (\<lambda>heading.
     rbind read_word (\<lambda>row_count.
     if arity = 0 \<and> row_count > 1 then rfail (InvalidValue ZeroArityRows)
     else if row_count * arity > usize_max then rfail OffsetOverflow
     else rbind (require_words (row_count * arity)) (\<lambda>_.
          rbind (read_n (read_n rv arity) row_count) (\<lambda>rows.
          case value_relation heading rows of
            Inl e \<Rightarrow> rfail (InvalidValue (BadRelation e))
          | Inr v \<Rightarrow> rret v)))))"

definition read_extended :: "codec_options \<Rightarrow> val read \<Rightarrow> nat \<Rightarrow> nat \<Rightarrow> val read" where
  "read_extended opts rv k aux =
     (if k = TAG_SYMBOL then read_named_symbol opts TAG_SYMBOL aux VSymbol
      else if k = TAG_ERROR_CODE then read_named_symbol opts TAG_ERROR_CODE aux VErrorCode
      else if k = TAG_STRING then rbind (read_string_payload aux) (\<lambda>s. rret (VString s))
      else if k = TAG_BYTES then rbind (read_blob_payload aux) (\<lambda>b. rret (VBytes b))
      else if k = TAG_LIST then rbind (read_count aux) (\<lambda>n. rbind (read_n rv n) (\<lambda>xs. rret (VList xs)))
      else if k = TAG_MAP then
        rbind (read_count aux) (\<lambda>n.
        rbind (read_n (rbind rv (\<lambda>key. rbind rv (\<lambda>v. rret (key, v)))) n) (\<lambda>es. rret (value_map es)))
      else if k = TAG_RANGE then
        (if aux div 2 \<noteq> 0 then rfail (InvalidExtendedAux k aux)
         else rbind rv (\<lambda>start.
              if aux mod 2 = 1 then rbind rv (\<lambda>stop. rret (VRange start (Some stop))) else rret (VRange start None)))
      else if k = TAG_ERROR then
        (if aux div 4 \<noteq> 0 then rfail (InvalidExtendedAux k aux)
         else rbind rv (\<lambda>c.
              rbind (expect (as_error_code c) ErrorCodeExpected) (\<lambda>code.
              rbind (if aux mod 2 = 1 then rbind read_len_prefixed_string (\<lambda>s. rret (Some s)) else rret None) (\<lambda>msg.
              rbind (if aux div 2 mod 2 = 1 then rbind rv (\<lambda>x. rret (Some x)) else rret None) (\<lambda>v.
              rret (VError code msg v))))))
      else if k = TAG_FROB then
        (if aux \<noteq> 0 then rfail (InvalidExtendedAux k aux)
         else rbind rv (\<lambda>d. rbind (expect (as_identity d) DelegateExpected) (\<lambda>delegate.
              rbind rv (\<lambda>v. rret (VFrob delegate v)))))
      else if k = TAG_RELATION then read_relation rv aux
      else if k = TAG_CAPABILITY then rfail CapabilityNotDecodable
      else if k = TAG_FUNCTION then rfail FunctionNotDecodable
      else if k \<in> {TAG_EMPTY_RELATION, TAG_BOOL, TAG_INT, TAG_FLOAT, TAG_IDENTITY} then rfail (InvalidExtendedAux k aux)
      else rfail (UnknownValueTag k))"

primrec read_value :: "codec_options \<Rightarrow> nat \<Rightarrow> val read" where
  "read_value opts 0 = (\<lambda>_. None)"
| "read_value opts (Suc fuel) =
     rbind read_word (\<lambda>w.
     if word_tag w \<noteq> EXTENDED_TAG then rlift (decode_inline_word opts w)
     else read_extended opts (read_value opts fuel) (w div EXT_AUX_LIMIT mod 256) (w mod EXT_AUX_LIMIT))"

text \<open>The recursion consumes eight bytes at every level, so the length of the input is enough fuel.\<close>

definition decode_value ::
  "codec_options \<Rightarrow> bytes \<Rightarrow> symbol_table \<Rightarrow> symbol_cache \<Rightarrow> (codec_error + (val \<times> usize) \<times> reader) option" where
  "decode_value opts bs tab cache =
     rbind (read_value opts (Suc (length bs))) (\<lambda>v rd. Some (Inr ((v, rd_offset rd), rd))) (reader_new bs tab cache)"

definition decode_value_exact ::
  "codec_options \<Rightarrow> bytes \<Rightarrow> symbol_table \<Rightarrow> symbol_cache \<Rightarrow> (codec_error + val \<times> reader) option" where
  "decode_value_exact opts bs tab cache =
     rbind (read_value opts (Suc (length bs))) (\<lambda>v. rbind expect_end (\<lambda>_. rret v)) (reader_new bs tab cache)"

end
