(* ===== verification/ValueSegments.thy ===== *)
theory ValueSegments
  imports ValueCodec
begin

text \<open>
  The segmented encoding writes exactly the bytes of the plain one, with the same errors; and what the
  default options encode is persistable.
\<close>

section \<open>Segments\<close>

lemma seg_bytes_append:
  "seg_bytes scratch (gs @ hs) =
     (case seg_bytes scratch gs of None \<Rightarrow> None | Some a \<Rightarrow> map_option ((@) a) (seg_bytes scratch hs))"
proof (cases "seg_bytes scratch hs")
  case None
  then show ?thesis by (induction scratch gs rule: seg_bytes.induct) (auto split: option.splits)
next
  case (Some a)
  then show ?thesis by (induction scratch gs rule: seg_bytes.induct) (auto split: option.splits)
qed

lemma seg_bytes_mono: "seg_bytes scratch gs = Some bs \<Longrightarrow> seg_bytes (scratch @ extra) gs = Some bs"
  by (induction scratch gs arbitrary: bs rule: seg_bytes.induct) (auto simp: nth_append split: if_splits)

lemma push_scratch_vec: "to_vec s = Some pre \<Longrightarrow> to_vec (push_scratch_word w s) = Some (pre @ word_bytes w)"
  by (simp add: to_vec_def push_scratch_word_def seg_bytes_append seg_bytes_mono)

lemma push_borrowed_vec: "to_vec s = Some pre \<Longrightarrow> to_vec (push_borrowed bs s) = Some (pre @ bs)"
  by (simp add: to_vec_def push_borrowed_def seg_bytes_append)

text \<open>A segment writer against the bytes it should write.\<close>

definition writes :: "(value_segments \<Rightarrow> 'e + value_segments) \<Rightarrow> 'e + bytes \<Rightarrow> bool" where
  "writes f g \<longleftrightarrow> (\<forall>s pre. to_vec s = Some pre \<longrightarrow>
     (case g of Inl e \<Rightarrow> f s = Inl e | Inr bs \<Rightarrow> \<exists>s'. f s = Inr s' \<and> to_vec s' = Some (pre @ bs)))"

lemma writesI:
  assumes "\<And>s pre. to_vec s = Some pre \<Longrightarrow>
    case g of Inl e \<Rightarrow> f s = Inl e | Inr bs \<Rightarrow> \<exists>s'. f s = Inr s' \<and> to_vec s' = Some (pre @ bs)"
  shows "writes f g"
  using assms by (simp add: writes_def)

lemma writesD:
  assumes "writes f g" "to_vec s = Some pre"
  shows "g = Inl e \<Longrightarrow> f s = Inl e" "g = Inr bs \<Longrightarrow> \<exists>s'. f s = Inr s' \<and> to_vec s' = Some (pre @ bs)"
  using assms by (auto simp: writes_def)

lemma writes_word: "writes (\<lambda>s. Inr (push_scratch_word w s)) (Inr (word_bytes w))"
  by (auto simp: writes_def push_scratch_vec)

lemma writes_ret: "writes (\<lambda>s. Inr s) (Inr [])"
  by (simp add: writes_def)

lemma writes_fail: "writes (\<lambda>s. Inl e) (Inl e)"
  by (simp add: writes_def)

lemma writes_bind:
  assumes "writes f g" "writes f' g'"
  shows "writes (\<lambda>s. sbind (f s) f') (sbind g (\<lambda>a. sbind g' (\<lambda>b. Inr (a @ b))))"
proof (rule writesI)
  fix s pre assume s: "to_vec s = Some pre"
  show "case sbind g (\<lambda>a. sbind g' (\<lambda>b. Inr (a @ b))) of Inl e \<Rightarrow> sbind (f s) f' = Inl e
        | Inr bs \<Rightarrow> \<exists>s'. sbind (f s) f' = Inr s' \<and> to_vec s' = Some (pre @ bs)"
  proof (cases g)
    case (Inl e)
    then show ?thesis using writesD(1) [OF assms(1) s] by simp
  next
    case (Inr a)
    then obtain s1 where "f s = Inr s1" and s1: "to_vec s1 = Some (pre @ a)" using writesD(2) [OF assms(1) s] by blast
    then show ?thesis using Inr writesD [OF assms(2) s1] by (cases g') auto
  qed
qed

lemma writes_header: "writes f g \<Longrightarrow> writes (\<lambda>s. f (push_scratch_word w s)) (sbind g (\<lambda>b. Inr (word_bytes w @ b)))"
  using writes_bind [OF writes_word [of w], of f g] by simp

lemma writes_payload: "writes (\<lambda>s. Inr (push_borrowed bs (push_scratch_word w s))) (Inr (word_bytes w @ bs))"
  using push_scratch_vec push_borrowed_vec by (fastforce simp: writes_def)

lemma writes_len: "(\<And>aux. writes (f aux) (g aux)) \<Longrightarrow> writes (\<lambda>s. sbind (len_aux n) (\<lambda>aux. f aux s)) (sbind (len_aux n) g)"
  by (cases "len_aux n") (simp_all add: writes_fail)

lemma writes_eq: "writes f g \<Longrightarrow> (\<And>s. f' s = f s) \<Longrightarrow> g' = g \<Longrightarrow> writes f' g'"
  by (metis ext)

lemma writes_all: "(\<And>x. x \<in> set xs \<Longrightarrow> writes (f x) (g x)) \<Longrightarrow> writes (seg_all f xs) (enc_all g xs)"
proof (induction xs)
  case (Cons x xs)
  have "writes (\<lambda>s. sbind (f x s) (seg_all f xs)) (sbind (g x) (\<lambda>a. sbind (enc_all g xs) (\<lambda>b. Inr (a @ b))))"
    by (rule writes_bind) (use Cons in auto)
  then show ?case by (rule writes_eq) simp_all
qed (simp add: writes_def)

lemma writes_symbol: "writes (encode_symbol_to_segments opts tab tag y) (encode_symbol_value opts tab tag y)"
proof (cases "co_symbol_encoding opts")
  case SymName
  show ?thesis
  proof (cases "symbol_name tab y")
    case None
    then show ?thesis using SymName
      by (intro writes_eq [OF writes_fail]) (simp_all add: encode_symbol_to_segments_def encode_symbol_value_def)
  next
    case (Some n)
    then show ?thesis using SymName
      by (intro writes_eq [OF writes_len [OF writes_payload]])
         (simp_all add: encode_symbol_to_segments_def encode_symbol_value_def)
  qed
next
  case SymId
  then show ?thesis
    by (intro writes_eq [OF writes_word]) (simp_all add: encode_symbol_to_segments_def encode_symbol_value_def)
qed

lemma sbind_assoc: "sbind (sbind m f) g = sbind m (\<lambda>x. sbind (f x) g)"
  by (cases m) auto

lemma sbind_ret [simp]: "sbind m Inr = m"
  by (cases m) auto

lemma segments_write: "writes (encode_value_to_segments opts tab v) (encode_value opts tab v)"
proof (induction v)
  case (VString t)
  show ?case by (rule writes_eq [OF writes_len [OF writes_payload]]) simp_all
next
  case (VBytes b)
  show ?case by (rule writes_eq [OF writes_len [OF writes_payload]]) simp_all
next
  case (VList xs)
  show ?case
    by (rule writes_eq [OF writes_len [OF writes_header [OF writes_all [OF VList]]]]) simp_all
next
  case (VMap es)
  have "writes (\<lambda>s. sbind (encode_value_to_segments opts tab (fst e) s) (encode_value_to_segments opts tab (snd e)))
      (sbind (encode_value opts tab (fst e)) (\<lambda>k. sbind (encode_value opts tab (snd e)) (\<lambda>v. Inr (k @ v))))" if "e \<in> set es" for e
    by (rule writes_bind) (use VMap that in \<open>auto simp: fsts.simps snds.simps\<close>)
  from writes_len [OF writes_header [OF writes_all [OF this]]]
  show ?case by (rule writes_eq) simp_all
next
  case (VRelation h rows)
  show ?case
  proof (cases "is_empty_relation (VRelation h rows)")
    case True
    then show ?thesis by (intro writes_eq [OF writes_word]) simp_all
  next
    case False
    have heads: "writes (seg_all (encode_symbol_to_segments opts tab TAG_SYMBOL) h) (enc_all (encode_symbol_value opts tab TAG_SYMBOL) h)"
      by (rule writes_all) (rule writes_symbol)
    have cells: "writes (seg_all (seg_all (encode_value_to_segments opts tab)) rows) (enc_all (enc_all (encode_value opts tab)) rows)"
      by (rule writes_all, rule writes_all) (use VRelation in auto)
    from writes_len [OF writes_header [OF writes_bind [OF heads writes_header [OF cells]]]]
    show ?thesis by (rule writes_eq) (use False in \<open>simp_all add: sbind_assoc\<close>)
  qed
next
  case (VRange a b)
  have a: "writes (encode_value_to_segments opts tab a) (encode_value opts tab a)" by (rule VRange.IH(1))
  show ?case
  proof (cases b)
    case None
    from writes_header [OF a] show ?thesis by (rule writes_eq) (use None in simp_all)
  next
    case (Some x)
    have "writes (encode_value_to_segments opts tab x) (encode_value opts tab x)" using VRange.IH(2) Some by simp
    from writes_header [OF writes_bind [OF a this]] show ?thesis by (rule writes_eq) (use Some in \<open>simp_all add: sbind_assoc\<close>)
  qed
next
  case (VError c m v)
  define blob where "blob = (case m of None \<Rightarrow> [] | Some t \<Rightarrow> write_blob (as_bytes t))"
  have msg: "writes (\<lambda>s. Inr (case m of None \<Rightarrow> s | Some t \<Rightarrow> push_borrowed (as_bytes t) (push_scratch_word (str_len t) s))) (Inr blob)"
  proof (cases m)
    case (Some t)
    then show ?thesis by (intro writes_eq [OF writes_payload]) (simp_all add: blob_def write_blob_def)
  qed (simp add: writes_def blob_def)
  show ?case
  proof (cases v)
    case None
    from writes_header [OF writes_bind [OF writes_symbol msg]] show ?thesis
      by (rule writes_eq) (use None in \<open>simp_all add: sbind_assoc Let_def blob_def\<close>)
  next
    case (Some x)
    have "writes (encode_value_to_segments opts tab x) (encode_value opts tab x)" using VError.IH Some by simp
    from writes_header [OF writes_bind [OF writes_symbol writes_bind [OF msg this]]] show ?thesis
      by (rule writes_eq) (use Some in \<open>simp_all add: sbind_assoc Let_def blob_def\<close>)
  qed
next
  case (VFrob d v)
  from writes_header [OF writes_header [OF VFrob]] show ?case by (rule writes_eq) (simp_all add: sbind_assoc)
next
  case (VCapability c)
  show ?case
  proof (cases "co_allow_capabilities opts")
    case True
    then show ?thesis by (intro writes_eq [OF writes_word]) simp_all
  qed (intro writes_eq [OF writes_fail], simp_all)
next
  case (VFunction f)
  show ?case by (rule writes_eq [OF writes_fail]) simp_all
qed ((rule writes_eq [OF writes_word], simp, simp) | (rule writes_eq [OF writes_symbol], simp, simp))+

section \<open>What is encoded is persistable\<close>

lemma enc_all_Inr: "enc_all f xs = Inr bs \<Longrightarrow> x \<in> set xs \<Longrightarrow> \<exists>b. f x = Inr b"
  by (induction xs arbitrary: bs) (auto simp: sbind_Inr)

lemma encoded_persistable: "encode_value opts tab v = Inr bs \<Longrightarrow> \<not> co_allow_capabilities opts \<Longrightarrow> is_persistable v"
proof (induction v arbitrary: bs)
  case (VList xs)
  then show ?case by (auto simp: sbind_Inr dest: enc_all_Inr)
next
  case (VMap es)
  have "is_persistable (fst e) \<and> is_persistable (snd e)" if "e \<in> set es" for e
  proof -
    obtain ks where "enc_all (\<lambda>e. sbind (encode_value opts tab (fst e)) (\<lambda>k. sbind (encode_value opts tab (snd e)) (\<lambda>v. Inr (k @ v)))) es = Inr ks"
      using VMap.prems(1) by (auto simp: sbind_Inr)
    from enc_all_Inr [OF this that] obtain k v where "encode_value opts tab (fst e) = Inr k" "encode_value opts tab (snd e) = Inr v"
      by (auto simp: sbind_Inr)
    then show ?thesis using VMap.IH that VMap.prems(2) by (auto simp: fsts.simps snds.simps)
  qed
  then show ?case by simp
next
  case (VRelation h rows)
  have "is_persistable x" if "row \<in> set rows" "x \<in> set row" for row x
  proof -
    have "\<not> is_empty_relation (VRelation h rows)" using that by (auto simp: is_empty_relation_def)
    then obtain ks where "enc_all (enc_all (encode_value opts tab)) rows = Inr ks"
      using VRelation.prems(1) by (auto simp: sbind_Inr)
    from enc_all_Inr [OF this that(1)] obtain rs where "enc_all (encode_value opts tab) row = Inr rs" by blast
    from enc_all_Inr [OF this that(2)] show ?thesis using VRelation that by auto
  qed
  then show ?case by simp
qed (auto simp: sbind_Inr Let_def split: option.splits if_splits)

end
