(* ===== verification/ValueRoundtrip.thy ===== *)
theory ValueRoundtrip
  imports ValueSegments
begin

text \<open>
  Decoding what was encoded. \<open>parses tab m bs x\<close>: wherever a reader stands in front of \<open>bs\<close>, the reader
  action \<open>m\<close> returns \<open>x\<close>, consumes exactly \<open>bs\<close> and interns no new symbol. The actions the decoder is
  built from compose, so each case of the round trip follows the shape of the value.
\<close>

section \<open>Words and headers\<close>

lemma word_bytes_value: "w < U64_LIMIT \<Longrightarrow> le_value (word_bytes w) = w"
  by (simp add: word_bytes_def U64_LIMIT_def)

lemma length_word_bytes [simp]: "length (word_bytes w) = 8"
  by (simp add: word_bytes_def)

lemma pack_word:
  assumes "tag < 255" "payload < PAYLOAD_LIMIT"
  shows "pack tag payload < U64_LIMIT" "word_tag (pack tag payload) = tag" "word_payload (pack tag payload) = payload"
  using assms by (simp_all add: pack_def word_tag_def word_payload_def PAYLOAD_LIMIT_def U64_LIMIT_def)

lemma header_word:
  assumes "k < 256" "aux < EXT_AUX_LIMIT"
  shows "extended_header_word k aux < U64_LIMIT" "word_tag (extended_header_word k aux) = EXTENDED_TAG"
    "extended_header_word k aux div EXT_AUX_LIMIT mod 256 = k" "extended_header_word k aux mod EXT_AUX_LIMIT = aux"
proof -
  have e: "extended_header_word k aux = aux + (EXTENDED_TAG * 256 + k) * EXT_AUX_LIMIT"
    by (simp add: extended_header_word_def EXTENDED_TAG_def PAYLOAD_LIMIT_def EXT_AUX_LIMIT_def)
  show "extended_header_word k aux < U64_LIMIT"
    using assms by (simp add: extended_header_word_def EXTENDED_TAG_def U64_LIMIT_def PAYLOAD_LIMIT_def EXT_AUX_LIMIT_def)
  show "extended_header_word k aux mod EXT_AUX_LIMIT = aux" using assms(2) unfolding e by simp
  have d: "extended_header_word k aux div EXT_AUX_LIMIT = EXTENDED_TAG * 256 + k"
    using assms(2) unfolding e by (simp add: EXT_AUX_LIMIT_def)
  then show "extended_header_word k aux div EXT_AUX_LIMIT mod 256 = k" using assms(1) by simp
  have "extended_header_word k aux div PAYLOAD_LIMIT = extended_header_word k aux div EXT_AUX_LIMIT div 256"
    by (simp add: div_mult2_eq [symmetric] EXT_AUX_LIMIT_def PAYLOAD_LIMIT_def)
  then show "word_tag (extended_header_word k aux) = EXTENDED_TAG"
    using assms(1) unfolding word_tag_def d by (simp add: EXTENDED_TAG_def)
qed

lemma len_aux_Inr: "len_aux n = Inr a \<longleftrightarrow> a = n \<and> n < EXT_AUX_LIMIT"
  by (auto simp: len_aux_def)

section \<open>Readers that parse\<close>

definition names_ok :: "symbol_table \<Rightarrow> bool" where
  "names_ok tab \<longleftrightarrow> table_ok tab \<and> length (tb_by_id tab) < U32_LIMIT \<and> (\<forall>s n. symbol_name tab s = Some n \<longrightarrow> scalars_ok n)"

definition ready :: "symbol_table \<Rightarrow> bytes \<Rightarrow> reader \<Rightarrow> bool" where
  "ready tab bs rd \<longleftrightarrow> rd_table rd = tab \<and> cache_ok (rd_cache rd) tab \<and> length (rd_bytes rd) \<le> usize_max \<and>
     (\<exists>pre post. rd_bytes rd = pre @ bs @ post \<and> rd_offset rd = length pre)"

definition parses :: "symbol_table \<Rightarrow> 'a read \<Rightarrow> bytes \<Rightarrow> 'a \<Rightarrow> bool" where
  "parses tab m bs x \<longleftrightarrow> (\<forall>rd. ready tab bs rd \<longrightarrow>
     (\<exists>cache. cache_ok cache tab \<and> m rd = Some (Inr (x, rd\<lparr>rd_offset := rd_offset rd + length bs, rd_cache := cache\<rparr>))))"

lemma parsesD:
  assumes "parses tab m bs x" "ready tab bs rd"
  obtains cache where "cache_ok cache tab" "m rd = Some (Inr (x, rd\<lparr>rd_offset := rd_offset rd + length bs, rd_cache := cache\<rparr>))"
  using assms unfolding parses_def by blast

lemma ready_length: "ready tab bs rd \<Longrightarrow> rd_offset rd + length bs \<le> length (rd_bytes rd) \<and> length (rd_bytes rd) \<le> usize_max"
  by (auto simp: ready_def)

lemma ready_split:
  assumes "ready tab (a @ b) rd" "cache_ok cache tab"
  shows "ready tab a rd" "ready tab b (rd\<lparr>rd_offset := rd_offset rd + length a, rd_cache := cache\<rparr>)"
proof -
  from assms(1) obtain pre post where "rd_bytes rd = pre @ a @ b @ post" "rd_offset rd = length pre" by (auto simp: ready_def)
  then have "rd_bytes rd = (pre @ a) @ b @ post" "rd_offset rd + length a = length (pre @ a)"
    and "rd_bytes rd = pre @ a @ (b @ post)" by simp_all
  then have "\<exists>pre post. rd_bytes rd = pre @ a @ post \<and> rd_offset rd = length pre"
    "\<exists>pre post. rd_bytes rd = pre @ b @ post \<and> rd_offset rd + length a = length pre" using \<open>rd_offset rd = length pre\<close> by blast+
  then show "ready tab a rd" "ready tab b (rd\<lparr>rd_offset := rd_offset rd + length a, rd_cache := cache\<rparr>)"
    using assms unfolding ready_def by simp_all
qed

lemma parses_small: "(length bs \<le> usize_max \<Longrightarrow> parses tab m bs x) \<Longrightarrow> parses tab m bs x"
  unfolding parses_def using ready_length by (metis add_leD2 le_trans)

lemma parses_ret [simp]: "parses tab (rret x) [] x"
  unfolding parses_def rret_def ready_def by (auto intro!: exI)

lemma parses_bind:
  assumes "parses tab m a x" "parses tab (f x) b y"
  shows "parses tab (rbind m f) (a @ b) y"
  unfolding parses_def
proof (intro allI impI)
  fix rd assume rd: "ready tab (a @ b) rd"
  then have "ready tab a rd" using ready_split(1) rd by (auto simp: ready_def)
  then obtain c where c: "cache_ok c tab" "m rd = Some (Inr (x, rd\<lparr>rd_offset := rd_offset rd + length a, rd_cache := c\<rparr>))"
    by (rule parsesD [OF assms(1)])
  obtain d where "cache_ok d tab"
    "f x (rd\<lparr>rd_offset := rd_offset rd + length a, rd_cache := c\<rparr>) =
       Some (Inr (y, rd\<lparr>rd_offset := rd_offset rd + length a + length b, rd_cache := d\<rparr>))"
    using parsesD [OF assms(2) ready_split(2) [OF rd c(1)]] by auto
  then show "\<exists>cache. cache_ok cache tab \<and>
      rbind m f rd = Some (Inr (y, rd\<lparr>rd_offset := rd_offset rd + length (a @ b), rd_cache := cache\<rparr>))"
    using c(2) by (auto simp: rbind_def add.assoc)
qed

lemma parses_then: "parses tab m a x \<Longrightarrow> f x = rret y \<Longrightarrow> parses tab (rbind m f) a y"
  using parses_bind [of tab m a x f "[]" y] by simp

lemma parses_first: "parses tab m [] x \<Longrightarrow> parses tab (f x) b y \<Longrightarrow> parses tab (rbind m f) b y"
  using parses_bind [of tab m "[]" x f b y] by simp

lemma parses_exact: "parses tab (read_exact (length bs)) bs bs"
  unfolding parses_def
proof (intro allI impI)
  fix rd assume "ready tab bs rd"
  then show "\<exists>cache. cache_ok cache tab \<and>
      read_exact (length bs) rd = Some (Inr (bs, rd\<lparr>rd_offset := rd_offset rd + length bs, rd_cache := cache\<rparr>))"
    by (intro exI [of _ "rd_cache rd"]) (auto simp: ready_def read_exact_def checked_add_def)
qed

lemma parses_word: "w < U64_LIMIT \<Longrightarrow> parses tab read_word (word_bytes w) w"
  unfolding read_word_def
  by (rule parses_then [OF parses_exact [of tab "word_bytes w", simplified]]) (simp add: word_bytes_value)

lemma parses_require:
  assumes "8 * n \<le> length bs" "parses tab (f ()) bs x"
  shows "parses tab (rbind (require_words n) f) bs x"
  unfolding parses_def
proof (intro allI impI)
  fix rd assume rd: "ready tab bs rd"
  then have "require_words n rd = Some (Inr ((), rd))" using ready_length [OF rd] assms(1) by (auto simp: require_words_def)
  then show "\<exists>cache. cache_ok cache tab \<and>
      rbind (require_words n) f rd = Some (Inr (x, rd\<lparr>rd_offset := rd_offset rd + length bs, rd_cache := cache\<rparr>))"
    using assms(2) rd by (simp add: rbind_def parses_def)
qed

lemma rbind_assoc: "rbind (rbind m f) g = rbind m (\<lambda>x. rbind (f x) g)"
  by (auto simp: rbind_def fun_eq_iff split: option.splits sum.splits)

lemma rbind_rret [simp]: "rbind (rret x) f = f x"
  by (simp add: rbind_def rret_def fun_eq_iff)

lemma parses_count:
  assumes "8 * n \<le> length bs" "parses tab (f n) bs x"
  shows "parses tab (rbind (read_count n) f) bs x"
  unfolding read_count_def rbind_assoc by (rule parses_require) (use assms in simp_all)

lemma parses_string: "scalars_ok s \<Longrightarrow> parses tab (read_string_payload (str_len s)) (as_bytes s) s"
  unfolding read_string_payload_def read_blob_payload_def
  by (rule parses_then [OF parses_exact [of tab "as_bytes s", simplified]]) simp

lemma parses_blob: "scalars_ok s \<Longrightarrow> str_len s \<le> usize_max \<Longrightarrow> parses tab read_len_prefixed_string (write_blob (as_bytes s)) s"
  unfolding read_len_prefixed_string_def write_blob_def length_as_bytes
  by (rule parses_bind, rule parses_word, simp add: U64_LIMIT_def usize_max_def, erule parses_string)

lemma parses_intern:
  assumes "names_ok tab" "symbol_name tab s = Some n"
  shows "parses tab (intern_symbol n) [] s"
  unfolding parses_def
proof (intro allI impI)
  fix rd assume rd: "ready tab [] rd"
  have t: "table_ok tab" "length (tb_by_id tab) < 4294967296" "cache_ok (rd_cache rd) tab" "rd_table rd = tab"
    using assms(1) rd by (auto simp: names_ok_def ready_def U32_LIMIT_def)
  obtain s' tab' c where i: "intern n tab tab (rd_cache rd) = Some (s', tab', c)" "symbol_name tab' s' = Some n"
    "cache_ok c tab'" "(\<exists>i. symbol_name tab i = Some n) \<Longrightarrow> tab' = tab"
    by (rule intern_ok [OF t(1) t(1) extends_refl t(3) t(2)]) (rule that)
  have "tab' = tab" using i(4) assms(2) by blast
  moreover have "s' = s" using i(2) assms(2) t(1) \<open>tab' = tab\<close> unfolding table_ok_def by (metis option.inject)
  ultimately show "\<exists>cache. cache_ok cache tab \<and>
      intern_symbol n rd = Some (Inr (s, rd\<lparr>rd_offset := rd_offset rd + length [], rd_cache := cache\<rparr>))"
    using i(1,3) t(4) by (intro exI [of _ c]) (simp add: intern_symbol_def)
qed

lemma parses_n:
  assumes "enc_all f xs = Inr bs" "\<And>x b. x \<in> set xs \<Longrightarrow> f x = Inr b \<Longrightarrow> length b \<le> length bs \<Longrightarrow> parses tab m b (g x)"
  shows "parses tab (read_n m (length xs)) bs (map g xs)"
  using assms
proof (induction xs arbitrary: bs)
  case (Cons x xs)
  then obtain b c where b: "f x = Inr b" "enc_all f xs = Inr c" "bs = b @ c" by (auto simp: sbind_Inr)
  have x: "parses tab m b (g x)" using Cons.prems(2) b by simp
  have xs: "parses tab (read_n m (length xs)) c (map g xs)"
    using Cons.IH [OF b(2)] Cons.prems(2) b(3) by (simp add: trans_le_add2)
  show ?case unfolding b(3) by (simp, rule parses_bind [OF x parses_then [OF xs]]) simp
qed simp

lemma enc_all_length:
  assumes "enc_all f xs = Inr bs" "\<And>x b. x \<in> set xs \<Longrightarrow> f x = Inr b \<Longrightarrow> k \<le> length b"
  shows "k * length xs \<le> length bs"
  using assms
proof (induction xs arbitrary: bs)
  case (Cons x xs)
  then obtain b c where b: "f x = Inr b" "enc_all f xs = Inr c" "bs = b @ c" by (auto simp: sbind_Inr)
  have "k \<le> length b" "k * length xs \<le> length c" using Cons.IH [OF b(2)] Cons.prems(2) b(1) by auto
  then show ?case by (simp add: b(3))
qed simp

section \<open>The round trip\<close>

lemma parses_lift: "m = Inr x \<Longrightarrow> parses tab (rlift m) [] x"
  unfolding parses_def rlift_def ready_def by (auto intro!: exI)

lemma parses_inline:
  assumes "w < U64_LIMIT" "word_tag w \<noteq> EXTENDED_TAG" "decode_inline_word opts w = Inr v" "0 < fuel"
  shows "parses tab (read_value opts fuel) (word_bytes w) v"
proof -
  obtain f where f: "fuel = Suc f" using assms(4) by (cases fuel) auto
  show ?thesis unfolding f read_value.simps
    using parses_bind [OF parses_word [OF assms(1)], of tab _ "[]" v] parses_lift assms(2,3) by force
qed

lemma parses_header:
  assumes "k < 256" "aux < EXT_AUX_LIMIT" "parses tab (read_extended opts (read_value opts fuel) k aux) bs v"
  shows "parses tab (read_value opts (Suc fuel)) (word_bytes (extended_header_word k aux) @ bs) v"
  unfolding read_value.simps
  by (rule parses_bind [OF parses_word [OF header_word(1) [OF assms(1,2)]]])
     (use assms in \<open>simp add: header_word\<close>)

lemma read_extended_tags:
  "read_extended opts rv TAG_SYMBOL aux = read_named_symbol opts TAG_SYMBOL aux VSymbol"
  "read_extended opts rv TAG_ERROR_CODE aux = read_named_symbol opts TAG_ERROR_CODE aux VErrorCode"
  "read_extended opts rv TAG_STRING aux = rbind (read_string_payload aux) (\<lambda>s. rret (VString s))"
  "read_extended opts rv TAG_BYTES aux = rbind (read_blob_payload aux) (\<lambda>b. rret (VBytes b))"
  "read_extended opts rv TAG_LIST aux = rbind (read_count aux) (\<lambda>n. rbind (read_n rv n) (\<lambda>xs. rret (VList xs)))"
  "read_extended opts rv TAG_MAP aux =
     rbind (read_count aux) (\<lambda>n.
     rbind (read_n (rbind rv (\<lambda>key. rbind rv (\<lambda>v. rret (key, v)))) n) (\<lambda>es. rret (value_map es)))"
  "read_extended opts rv TAG_RANGE 0 = rbind rv (\<lambda>start. rret (VRange start None))"
  "read_extended opts rv TAG_RANGE 1 = rbind rv (\<lambda>start. rbind rv (\<lambda>stop. rret (VRange start (Some stop))))"
  "read_extended opts rv TAG_FROB 0 =
     rbind rv (\<lambda>d. rbind (expect (as_identity d) DelegateExpected) (\<lambda>delegate. rbind rv (\<lambda>v. rret (VFrob delegate v))))"
  "read_extended opts rv TAG_RELATION aux = read_relation rv aux"
  by (simp_all add: read_extended_def tag_defs)

lemma read_extended_error:
  "read_extended opts rv TAG_ERROR ((if a then 1 else 0) + (if b then 2 else 0)) =
     rbind rv (\<lambda>c. rbind (expect (as_error_code c) ErrorCodeExpected) (\<lambda>code.
       rbind (if a then rbind read_len_prefixed_string (\<lambda>s. rret (Some s)) else rret None) (\<lambda>msg.
       rbind (if b then rbind rv (\<lambda>x. rret (Some x)) else rret None) (\<lambda>v. rret (VError code msg v)))))"
  by (simp add: read_extended_def tag_defs)

lemma encode_symbol_length: "encode_symbol_value opts tab tag s = Inr bs \<Longrightarrow> 8 \<le> length bs"
  by (auto simp: encode_symbol_value_def sbind_Inr split: symbol_encoding.splits option.splits)

lemma encode_length: "encode_value opts tab v = Inr bs \<Longrightarrow> 8 \<le> length bs"
  by (cases v) (auto simp: sbind_Inr Let_def encode_symbol_length split: if_splits option.splits)

text \<open>Inline words.\<close>

lemma int_payload:
  assumes "INT_MIN \<le> i" "i \<le> INT_MAX"
  shows "nat (i mod int PAYLOAD_LIMIT) < PAYLOAD_LIMIT" "payload_int (nat (i mod int PAYLOAD_LIMIT)) = i"
proof -
  have p: "i mod int PAYLOAD_LIMIT = (if 0 \<le> i then i else i + int PAYLOAD_LIMIT)"
  proof (cases "0 \<le> i")
    case False
    have "(i + int PAYLOAD_LIMIT) mod int PAYLOAD_LIMIT = i + int PAYLOAD_LIMIT"
      by (rule mod_pos_pos_trivial) (use assms False in \<open>simp_all add: limit_defs\<close>)
    then show ?thesis using False by simp
  qed (use assms in \<open>simp add: limit_defs\<close>)
  show "nat (i mod int PAYLOAD_LIMIT) < PAYLOAD_LIMIT" "payload_int (nat (i mod int PAYLOAD_LIMIT)) = i"
    using assms unfolding p payload_int_def by (auto simp: limit_defs)
qed

lemma u32_payload: "s < U32_LIMIT \<Longrightarrow> s < PAYLOAD_LIMIT"
  by (simp add: limit_defs)

lemma parses_packed:
  assumes "tag < 255" "payload < PAYLOAD_LIMIT" "0 < fuel" "decode_inline_word opts (pack tag payload) = Inr v"
  shows "parses tab (read_value opts fuel) (word_bytes (pack tag payload)) v"
  by (rule parses_inline) (use assms pack_word [OF assms(1,2)] in \<open>simp_all add: EXTENDED_TAG_def\<close>)

lemma float_bits: "valid (VFloat b) \<Longrightarrow> float_from_bits b = Inr (VFloat b)"
  by (auto simp: float_from_bits_def f32_is_zero_def)

lemma decode_inline:
  "decode_inline_word opts (pack TAG_BOOL (if b then 1 else 0)) = Inr (VBool b)"
  "valid (VInt i) \<Longrightarrow> decode_inline_word opts (pack TAG_INT (nat (i mod int PAYLOAD_LIMIT))) = Inr (VInt i)"
  "valid (VFloat f) \<Longrightarrow> decode_inline_word opts (pack TAG_FLOAT f) = Inr (VFloat f)"
  "i' < PAYLOAD_LIMIT \<Longrightarrow> decode_inline_word opts (pack TAG_IDENTITY i') = Inr (VIdentity i')"
  "s < U32_LIMIT \<Longrightarrow> co_symbol_encoding opts = SymId \<Longrightarrow> decode_inline_word opts (pack TAG_SYMBOL s) = Inr (VSymbol s)"
  "s < U32_LIMIT \<Longrightarrow> co_symbol_encoding opts = SymId \<Longrightarrow> decode_inline_word opts (pack TAG_ERROR_CODE s) = Inr (VErrorCode s)"
  "valid (VCapability c) \<Longrightarrow> co_allow_capabilities opts \<Longrightarrow> decode_inline_word opts (pack TAG_CAPABILITY c) = Inr (VCapability c)"
  "decode_inline_word opts (pack TAG_EMPTY_RELATION 0) = Inr (VRelation [] [])"
proof -
  have w: "word_tag (pack tag p) = tag \<and> word_payload (pack tag p) = p" if "tag < 255" "p < PAYLOAD_LIMIT" for tag p
    using pack_word [OF that] by simp
  show "decode_inline_word opts (pack TAG_BOOL (if b then 1 else 0)) = Inr (VBool b)"
    using w [of TAG_BOOL "if b then 1 else 0"] by (simp add: decode_inline_word_def tag_defs PAYLOAD_LIMIT_def)
  show "decode_inline_word opts (pack TAG_INT (nat (i mod int PAYLOAD_LIMIT))) = Inr (VInt i)" if "valid (VInt i)"
    using w [of TAG_INT "nat (i mod int PAYLOAD_LIMIT)"] int_payload [of i] that by (simp add: decode_inline_word_def tag_defs)
  show "decode_inline_word opts (pack TAG_FLOAT f) = Inr (VFloat f)" if "valid (VFloat f)"
    using w [of TAG_FLOAT f] u32_payload [of f] float_bits [OF that] that by (simp add: decode_inline_word_def tag_defs)
  show "decode_inline_word opts (pack TAG_IDENTITY i') = Inr (VIdentity i')" if "i' < PAYLOAD_LIMIT"
    using w [of TAG_IDENTITY i'] that by (simp add: decode_inline_word_def tag_defs identity_new_def)
  show "decode_inline_word opts (pack TAG_SYMBOL s) = Inr (VSymbol s)" if "s < U32_LIMIT" "co_symbol_encoding opts = SymId"
    using w [of TAG_SYMBOL s] u32_payload [of s] that by (simp add: decode_inline_word_def tag_defs)
  show "decode_inline_word opts (pack TAG_ERROR_CODE s) = Inr (VErrorCode s)" if "s < U32_LIMIT" "co_symbol_encoding opts = SymId"
    using w [of TAG_ERROR_CODE s] u32_payload [of s] that by (simp add: decode_inline_word_def tag_defs)
  show "decode_inline_word opts (pack TAG_CAPABILITY c) = Inr (VCapability c)" if "valid (VCapability c)" "co_allow_capabilities opts"
    using w [of TAG_CAPABILITY c] that by (simp add: decode_inline_word_def tag_defs capability_new_def)
  show "decode_inline_word opts (pack TAG_EMPTY_RELATION 0) = Inr (VRelation [] [])"
    using w [of TAG_EMPTY_RELATION 0] by (simp add: decode_inline_word_def tag_defs PAYLOAD_LIMIT_def empty_relation_def)
qed

text \<open>Symbols, by name or by id.\<close>

lemma parses_symbol:
  assumes "names_ok tab" "s < U32_LIMIT" "encode_symbol_value opts tab tag s = Inr bs" "0 < fuel"
    and "tag = TAG_SYMBOL \<and> mk = VSymbol \<or> tag = TAG_ERROR_CODE \<and> mk = VErrorCode"
  shows "parses tab (read_value opts fuel) bs (mk s)"
proof (cases "co_symbol_encoding opts")
  case SymName
  then obtain n where n: "symbol_name tab s = Some n" "str_len n < EXT_AUX_LIMIT"
    "bs = word_bytes (extended_header_word tag (str_len n)) @ as_bytes n"
    using assms(3) by (auto simp: encode_symbol_value_def sbind_Inr len_aux_Inr split: option.splits)
  obtain f where f: "fuel = Suc f" using assms(4) by (cases fuel) auto
  have "scalars_ok n" using assms(1) n(1) by (simp add: names_ok_def)
  have i: "parses tab (rbind (intern_symbol n) (\<lambda>s. rret (mk s))) [] (mk s)"
    by (rule parses_then [OF parses_intern [OF assms(1) n(1)]]) simp
  have "parses tab (rbind (read_string_payload (str_len n)) (\<lambda>n. rbind (intern_symbol n) (\<lambda>s. rret (mk s)))) (as_bytes n @ []) (mk s)"
    by (rule parses_bind, rule parses_string, rule \<open>scalars_ok n\<close>, rule i)
  then have "parses tab (read_named_symbol opts tag (str_len n) mk) (as_bytes n) (mk s)" using SymName
    by (simp add: read_named_symbol_def)
  moreover have "read_extended opts (read_value opts f) tag (str_len n) = read_named_symbol opts tag (str_len n) mk"
    using assms(5) by (auto simp: read_extended_tags)
  moreover have "tag < 256" using assms(5) by (auto simp: tag_defs)
  ultimately show ?thesis unfolding f n(3) by (intro parses_header) (use n(2) in simp_all)
next
  case SymId
  have "decode_inline_word opts (pack tag s) = Inr (mk s)" using assms(5) SymId decode_inline(5,6) [OF assms(2)] by auto
  moreover have "tag < 255" using assms(5) by (auto simp: tag_defs)
  moreover have "bs = word_bytes (pack tag s)" using assms(3) SymId by (simp add: encode_symbol_value_def)
  ultimately show ?thesis using parses_packed u32_payload [OF assms(2)] assms(4) by blast
qed

lemma parses_expect: "m = Some x \<Longrightarrow> parses tab (expect m r) [] x"
  by (simp add: expect_def)

lemma tags_small: "TAG_STRING < 256" "TAG_BYTES < 256" "TAG_LIST < 256" "TAG_MAP < 256" "TAG_RANGE < 256" "TAG_ERROR < 256"
  "TAG_FROB < 256" "TAG_RELATION < 256"
  by (simp_all add: tag_defs)

lemma aux_small: "0 < EXT_AUX_LIMIT" "1 < EXT_AUX_LIMIT" "(if a then 1 else 0) + (if b then 2 else 0) < EXT_AUX_LIMIT"
  by (simp_all add: EXT_AUX_LIMIT_def)

lemma strict_units: "strictly (slice_cmp f) rows \<Longrightarrow> \<forall>row \<in> set rows. row = [] \<Longrightarrow> length rows \<le> 1"
  by (cases rows; cases "tl rows") (auto simp: strictly_def)

text \<open>A sub-value is at least eight bytes shorter than the fuel's bound on the whole.\<close>

definition within :: "nat \<Rightarrow> bytes \<Rightarrow> bool" where
  "within fuel bs \<longleftrightarrow> length bs \<le> 8 * fuel"

lemma within_Suc: "within fuel bs \<Longrightarrow> bs = word_bytes w @ b \<Longrightarrow> \<exists>f. fuel = Suc f \<and> within f b"
  by (cases fuel) (auto simp: within_def)

lemma within_part: "within fuel bs \<Longrightarrow> length b \<le> length bs \<Longrightarrow> within fuel b"
  by (simp add: within_def)

lemma within_append: "within fuel (a @ b) \<Longrightarrow> within fuel a" "within fuel (a @ b) \<Longrightarrow> within fuel b"
  by (simp_all add: within_def)

lemma within_pos: "within fuel b \<Longrightarrow> 8 \<le> length b \<Longrightarrow> 0 < fuel"
  by (cases fuel) (auto simp: within_def)

lemma parses_relation:
  assumes "names_ok tab" "valid (VRelation h rows)" "within fuel cols" "within fuel cells"
    and cols: "enc_all (encode_symbol_value opts tab TAG_SYMBOL) h = Inr cols"
    and cells: "enc_all (enc_all (encode_value opts tab)) rows = Inr cells"
    and cell: "\<And>row x b. row \<in> set rows \<Longrightarrow> x \<in> set row \<Longrightarrow> encode_value opts tab x = Inr b \<Longrightarrow> within fuel b \<Longrightarrow>
      parses tab (read_value opts fuel) b x"
  shows "parses tab (read_relation (read_value opts fuel) (length h)) (cols @ word_bytes (length rows) @ cells) (VRelation h rows)"
proof (rule parses_small)
  assume small: "length (cols @ word_bytes (length rows) @ cells) \<le> usize_max"
  have v: "sorted_wrt (<) h" "\<forall>s \<in> set h. s < U32_LIMIT" "\<forall>row \<in> set rows. length row = length h" "strictly (slice_cmp val_cmp) rows"
    using assms(2) by auto
  have lc: "8 * length h \<le> length cols" by (rule enc_all_length [OF cols]) (rule encode_symbol_length)
  have lr: "8 * length h \<le> length b" if "row \<in> set rows" "enc_all (encode_value opts tab) row = Inr b" for row b
    using enc_all_length [OF that(2)] encode_length v(3) that(1) by metis
  have lb: "8 * length h * length rows \<le> length cells" by (rule enc_all_length [OF cells]) (rule lr)
  have heading: "parses tab (read_n (rbind (read_value opts fuel) (\<lambda>v. expect (as_symbol v) ColumnExpected)) (length h)) cols (map id h)"
  proof (rule parses_n [OF cols])
    fix s b assume s: "s \<in> set h" "encode_symbol_value opts tab TAG_SYMBOL s = Inr b" "length b \<le> length cols"
    have "0 < fuel" using within_pos [OF within_part [OF assms(3) s(3)] encode_symbol_length [OF s(2)]] .
    then have "parses tab (read_value opts fuel) b (VSymbol s)" using parses_symbol [OF assms(1) _ s(2), of fuel VSymbol] v(2) s(1) by blast
    then show "parses tab (rbind (read_value opts fuel) (\<lambda>v. expect (as_symbol v) ColumnExpected)) b (id s)"
      by (rule parses_then) (simp add: expect_def as_symbol_def)
  qed
  have row: "parses tab (read_n (read_value opts fuel) (length h)) b (id row)"
    if "row \<in> set rows" "enc_all (encode_value opts tab) row = Inr b" "length b \<le> length cells" for row b
  proof -
    have "parses tab (read_n (read_value opts fuel) (length row)) b (map id row)"
    proof (rule parses_n [OF that(2)])
      fix x c assume x: "x \<in> set row" "encode_value opts tab x = Inr c" "length c \<le> length b"
      show "parses tab (read_value opts fuel) c (id x)"
        unfolding id_apply by (rule cell [OF that(1) x(1,2) within_part [OF within_part [OF assms(4) that(3)] x(3)]])
    qed
    then show ?thesis using v(3) that(1) by simp
  qed
  have body: "parses tab (read_n (read_n (read_value opts fuel) (length h)) (length rows)) cells (map id rows)"
    by (rule parses_n [OF cells]) (rule row)
  have zero: "length rows \<le> 1" if "length h = 0" using strict_units [OF v(4)] v(3) that by simp
  have count: "length rows < U64_LIMIT"
  proof (cases "length h = 0")
    case True
    then show ?thesis using zero by (simp add: U64_LIMIT_def)
  next
    case False
    then have "8 * length rows \<le> 8 * length h * length rows" by (cases h) simp_all
    then have "length rows \<le> usize_max" using lb small unfolding length_append by linarith
    then show ?thesis by (simp add: U64_LIMIT_def usize_max_def)
  qed
  have fits: "\<not> length rows * length h > usize_max"
  proof -
    have "8 * (length rows * length h) \<le> length cells" using lb by (simp add: ac_simps)
    then show ?thesis using small unfolding length_append by linarith
  qed
  have new: "value_relation h rows = Inr (VRelation h rows)"
    using relation_new_canonical [OF assms(2)] by (simp add: value_relation_def)
  have rest: "parses tab (rbind (require_words (length rows * length h)) (\<lambda>_.
        rbind (read_n (read_n (read_value opts fuel) (length h)) (length rows)) (\<lambda>rows.
        case value_relation h rows of Inl e \<Rightarrow> rfail (InvalidValue (BadRelation e)) | Inr v \<Rightarrow> rret v))) cells (VRelation h rows)"
  proof (rule parses_require)
    show "8 * (length rows * length h) \<le> length cells" using lb by (simp add: ac_simps)
  qed (rule parses_then [OF body], simp add: new)
  have tail: "parses tab (rbind read_word (\<lambda>row_count.
       if length h = 0 \<and> row_count > 1 then rfail (InvalidValue ZeroArityRows)
       else if row_count * length h > usize_max then rfail OffsetOverflow
       else rbind (require_words (row_count * length h)) (\<lambda>_.
            rbind (read_n (read_n (read_value opts fuel) (length h)) row_count) (\<lambda>rows.
            case value_relation h rows of Inl e \<Rightarrow> rfail (InvalidValue (BadRelation e)) | Inr v \<Rightarrow> rret v))))
       (word_bytes (length rows) @ cells) (VRelation h rows)"
  proof (rule parses_bind [OF parses_word [OF count]])
    have g: "\<not> (length h = 0 \<and> length rows > 1)" using zero by linarith
    show "parses tab (if length h = 0 \<and> length rows > 1 then rfail (InvalidValue ZeroArityRows)
       else if length rows * length h > usize_max then rfail OffsetOverflow
       else rbind (require_words (length rows * length h)) (\<lambda>_.
            rbind (read_n (read_n (read_value opts fuel) (length h)) (length rows)) (\<lambda>rows.
            case value_relation h rows of Inl e \<Rightarrow> rfail (InvalidValue (BadRelation e)) | Inr v \<Rightarrow> rret v))) cells (VRelation h rows)"
      unfolding if_not_P [OF g] if_not_P [OF fits] by (rule rest)
  qed
  show "parses tab (read_relation (read_value opts fuel) (length h)) (cols @ word_bytes (length rows) @ cells) (VRelation h rows)"
    unfolding read_relation_def
    by (rule parses_count, use lc in simp, rule parses_bind [OF heading [unfolded list.map_id]], rule tail)
qed

lemma encode_parses:
  assumes "names_ok tab"
  shows "encode_value opts tab v = Inr bs \<Longrightarrow> valid v \<Longrightarrow> within fuel bs \<Longrightarrow> parses tab (read_value opts fuel) bs v"
proof (induction v arbitrary: bs fuel)
  case (VBool b)
  have f: "0 < fuel" by (rule within_pos [OF VBool(3) encode_length [OF VBool(1)]])
  have e: "bs = word_bytes (the (raw_bits (VBool b)))" using VBool(1) by simp
  show ?case unfolding e raw_bits.simps option.sel
    by (rule parses_packed [OF _ _ f decode_inline(1)]) (use VBool(2) in \<open>simp_all add: tag_defs PAYLOAD_LIMIT_def\<close>)
next
  case (VInt i)
  have f: "0 < fuel" by (rule within_pos [OF VInt(3) encode_length [OF VInt(1)]])
  have e: "bs = word_bytes (the (raw_bits (VInt i)))" using VInt(1) by simp
  show ?case unfolding e raw_bits.simps option.sel
    by (rule parses_packed [OF _ _ f decode_inline(2) [OF VInt(2)]]) (use VInt(2) in \<open>simp_all add: tag_defs int_payload\<close>)
next
  case (VFloat f)
  have f: "0 < fuel" by (rule within_pos [OF VFloat(3) encode_length [OF VFloat(1)]])
  have e: "bs = word_bytes (the (raw_bits (VFloat f)))" using VFloat(1) by simp
  show ?case unfolding e raw_bits.simps option.sel
    by (rule parses_packed [OF _ _ f decode_inline(3) [OF VFloat(2)]]) (use VFloat(2) in \<open>simp_all add: tag_defs u32_payload\<close>)
next
  case (VIdentity i)
  have f: "0 < fuel" by (rule within_pos [OF VIdentity(3) encode_length [OF VIdentity(1)]])
  have e: "bs = word_bytes (the (raw_bits (VIdentity i)))" using VIdentity(1) by simp
  show ?case unfolding e raw_bits.simps option.sel
    by (rule parses_packed [OF _ _ f decode_inline(4)]) (use VIdentity(2) in \<open>simp_all add: tag_defs\<close>)
next
  case (VSymbol s)
  have f: "0 < fuel" by (rule within_pos [OF VSymbol(3) encode_length [OF VSymbol(1)]])
  show ?case
    by (rule parses_symbol [OF assms _ _ f, where tag = TAG_SYMBOL and mk = VSymbol]) (use VSymbol(1,2) in simp_all)
next
  case (VErrorCode s)
  have f: "0 < fuel" by (rule within_pos [OF VErrorCode(3) encode_length [OF VErrorCode(1)]])
  show ?case
    by (rule parses_symbol [OF assms _ _ f, where tag = TAG_ERROR_CODE and mk = VErrorCode]) (use VErrorCode(1,2) in simp_all)
next
  case (VString t)
  have e: "str_len t < EXT_AUX_LIMIT" "bs = word_bytes (extended_header_word TAG_STRING (str_len t)) @ as_bytes t"
    using VString(1) by (auto simp: sbind_Inr len_aux_Inr)
  obtain f where f: "fuel = Suc f" using within_Suc [OF VString(3) e(2)] by blast
  have "parses tab (rbind (read_string_payload (str_len t)) (\<lambda>s. rret (VString s))) (as_bytes t) (VString t)"
    by (rule parses_then, rule parses_string) (use VString in simp_all)
  then show ?case unfolding f e(2) by (intro parses_header tags_small e(1)) (simp add: read_extended_tags)
next
  case (VBytes b)
  have e: "length b < EXT_AUX_LIMIT" "bs = word_bytes (extended_header_word TAG_BYTES (length b)) @ b"
    using VBytes(1) by (auto simp: sbind_Inr len_aux_Inr)
  obtain f where f: "fuel = Suc f" using within_Suc [OF VBytes(3) e(2)] by blast
  have "parses tab (rbind (read_blob_payload (length b)) (\<lambda>b. rret (VBytes b))) b (VBytes b)"
    unfolding read_blob_payload_def by (rule parses_then, rule parses_exact) simp
  then show ?case unfolding f e(2) by (intro parses_header tags_small e(1)) (simp add: read_extended_tags)
next
  case (VList xs)
  obtain cs where e: "length xs < EXT_AUX_LIMIT" "enc_all (encode_value opts tab) xs = Inr cs"
    "bs = word_bytes (extended_header_word TAG_LIST (length xs)) @ cs" using VList.prems(1) by (auto simp: sbind_Inr len_aux_Inr)
  obtain f where f: "fuel = Suc f" "within f cs" using within_Suc [OF VList.prems(3) e(3)] by blast
  have "parses tab (read_n (read_value opts f) (length xs)) cs (map id xs)"
    by (rule parses_n [OF e(2)]) (use VList.IH VList.prems(2) within_part [OF f(2)] in simp)
  then have "parses tab (rbind (read_count (length xs)) (\<lambda>n. rbind (read_n (read_value opts f) n) (\<lambda>xs. rret (VList xs)))) cs (VList xs)"
    by (intro parses_count enc_all_length [OF e(2)] encode_length parses_then) simp_all
  then show ?case unfolding f(1) e(3) by (intro parses_header tags_small e(1)) (simp add: read_extended_tags)
next
  case (VMap es)
  obtain cs where e: "length es < EXT_AUX_LIMIT" "bs = word_bytes (extended_header_word TAG_MAP (length es)) @ cs"
    "enc_all (\<lambda>e. sbind (encode_value opts tab (fst e)) (\<lambda>k. sbind (encode_value opts tab (snd e)) (\<lambda>v. Inr (k @ v)))) es = Inr cs"
    using VMap.prems(1) by (auto simp: sbind_Inr len_aux_Inr)
  obtain f where f: "fuel = Suc f" "within f cs" using within_Suc [OF VMap.prems(3) e(2)] by blast
  let ?entry = "rbind (read_value opts f) (\<lambda>key. rbind (read_value opts f) (\<lambda>v. rret (key, v)))"
  have "parses tab (read_n ?entry (length es)) cs (map id es)"
  proof (rule parses_n [OF e(3)])
    fix x b assume x: "x \<in> set es" "length b \<le> length cs"
      and b: "sbind (encode_value opts tab (fst x)) (\<lambda>k. sbind (encode_value opts tab (snd x)) (\<lambda>v. Inr (k @ v))) = Inr b"
    then obtain k v where kv: "encode_value opts tab (fst x) = Inr k" "encode_value opts tab (snd x) = Inr v" "b = k @ v"
      by (auto simp: sbind_Inr)
    have w: "within f k" "within f v" using within_part [OF f(2) x(2)] kv(3) by (simp_all add: within_def)
    have k: "parses tab (read_value opts f) k (fst x)" "parses tab (read_value opts f) v (snd x)"
      using VMap.IH x(1) kv w VMap.prems(2) by (auto simp: fsts.simps snds.simps)
    show "parses tab ?entry b (id x)" unfolding kv(3) by (rule parses_bind [OF k(1)], rule parses_then [OF k(2)]) simp
  qed
  then have "parses tab (rbind (read_count (length es)) (\<lambda>n. rbind (read_n ?entry n) (\<lambda>es. rret (value_map es)))) cs (VMap es)"
    by (intro parses_count enc_all_length [OF e(3)] parses_then)
       (auto simp: value_map_canonical [OF VMap.prems(2)] sbind_Inr dest: encode_length)
  then show ?case unfolding f(1) e(2) by (intro parses_header tags_small e(1)) (simp add: read_extended_tags)
next
  case (VRelation h rows)
  show ?case
  proof (cases "is_empty_relation (VRelation h rows)")
    case True
    have "0 < fuel" by (rule within_pos [OF VRelation.prems(3) encode_length [OF VRelation.prems(1)]])
    then show ?thesis using True VRelation.prems(1) parses_packed [OF _ _ _ decode_inline(8), where fuel = fuel and tab = tab]
      by (simp add: is_empty_relation_def tag_defs PAYLOAD_LIMIT_def)
  next
    case False
    then obtain cols cells where e: "length h < EXT_AUX_LIMIT" "enc_all (encode_symbol_value opts tab TAG_SYMBOL) h = Inr cols"
      "enc_all (enc_all (encode_value opts tab)) rows = Inr cells"
      "bs = word_bytes (extended_header_word TAG_RELATION (length h)) @ cols @ word_bytes (length rows) @ cells"
      using VRelation.prems(1) by (auto simp: sbind_Inr len_aux_Inr)
    obtain f where f: "fuel = Suc f" "within f (cols @ word_bytes (length rows) @ cells)" using within_Suc [OF VRelation.prems(3) e(4)] by blast
    have "parses tab (read_relation (read_value opts f) (length h)) (cols @ word_bytes (length rows) @ cells) (VRelation h rows)"
      by (rule parses_relation [OF assms VRelation.prems(2) _ _ e(2,3)])
         (use f(2) VRelation.IH VRelation.prems(2) in \<open>auto simp: within_def\<close>)
    then show ?thesis unfolding f(1) e(4) by (intro parses_header tags_small e(1)) (simp add: read_extended_tags)
  qed
next
  case (VRange a b)
  obtain ea where a: "encode_value opts tab a = Inr ea" using VRange.prems(1) by (auto simp: sbind_Inr)
  show ?case
  proof (cases b)
    case None
    then have e: "bs = word_bytes (extended_header_word TAG_RANGE 0) @ ea" using VRange.prems(1) a by simp
    obtain f where f: "fuel = Suc f" "within f ea" using within_Suc [OF VRange.prems(3) e] by blast
    have "parses tab (rbind (read_value opts f) (\<lambda>start. rret (VRange start None))) ea (VRange a b)"
      by (rule parses_then [OF VRange.IH(1) [OF a _ f(2)]]) (use None VRange.prems(2) in simp_all)
    then show ?thesis unfolding f(1) e by (intro parses_header tags_small aux_small) (simp add: read_extended_tags)
  next
    case (Some x)
    then obtain ex where x: "encode_value opts tab x = Inr ex" and e: "bs = word_bytes (extended_header_word TAG_RANGE 1) @ ea @ ex"
      using VRange.prems(1) a by (auto simp: sbind_Inr)
    obtain f where f: "fuel = Suc f" "within f (ea @ ex)" using within_Suc [OF VRange.prems(3) e] by blast
    have pa: "parses tab (read_value opts f) ea a" using VRange.IH(1) [OF a, of f] within_append [OF f(2)] VRange.prems(2) by simp
    have px: "parses tab (read_value opts f) ex x" using VRange.IH(2) [of x ex f] x within_append [OF f(2)] VRange.prems(2) Some by simp
    have "parses tab (rbind (read_value opts f) (\<lambda>start. rbind (read_value opts f) (\<lambda>stop. rret (VRange start (Some stop))))) (ea @ ex) (VRange a b)"
      by (rule parses_bind [OF pa], rule parses_then [OF px]) (simp add: Some)
    then show ?thesis unfolding f(1) e by (intro parses_header tags_small aux_small) (simp only: read_extended_tags)
  qed
next
  case (VFrob d v)
  obtain ev where v: "encode_value opts tab v = Inr ev"
    and e: "bs = word_bytes (extended_header_word TAG_FROB 0) @ word_bytes (pack TAG_IDENTITY d) @ ev" using VFrob.prems(1) by (auto simp: sbind_Inr)
  obtain f where f: "fuel = Suc f" "within f (word_bytes (pack TAG_IDENTITY d) @ ev)" using within_Suc [OF VFrob.prems(3) e] by blast
  have "0 < f" by (rule within_pos [OF f(2)]) simp
  then have pd: "parses tab (read_value opts f) (word_bytes (pack TAG_IDENTITY d)) (VIdentity d)"
    using parses_packed [OF _ _ _ decode_inline(4), where fuel = f and tab = tab] VFrob.prems(2) by (simp add: tag_defs)
  have pv: "parses tab (read_value opts f) ev v" using VFrob.IH [OF v, of f] within_append [OF f(2)] VFrob.prems(2) by simp
  have "parses tab (read_extended opts (read_value opts f) TAG_FROB 0) (word_bytes (pack TAG_IDENTITY d) @ ev) (VFrob d v)"
    unfolding read_extended_tags
    by (rule parses_bind [OF pd], rule parses_first [OF parses_expect], simp add: as_identity_def, rule parses_then [OF pv]) simp
  then show ?case unfolding f(1) e by (intro parses_header tags_small aux_small)
next
  case (VCapability c)
  then have "0 < fuel" "co_allow_capabilities opts" using within_pos encode_length by (auto split: if_splits)
  then show ?case using parses_packed [OF _ _ _ decode_inline(7) [OF VCapability(2)], where fuel = fuel and tab = tab] VCapability
    by (simp add: tag_defs)
next
  case (VError c m v)
  let ?flags = "(if m \<noteq> None then 1 else 0) + (if v \<noteq> None then 2 else 0) :: nat"
  let ?msg = "case m of None \<Rightarrow> [] | Some s \<Rightarrow> write_blob (as_bytes s)"
  obtain code ev where c: "encode_symbol_value opts tab TAG_ERROR_CODE c = Inr code"
    and v: "case v of None \<Rightarrow> ev = [] | Some x \<Rightarrow> encode_value opts tab x = Inr ev"
    and e: "bs = word_bytes (extended_header_word TAG_ERROR ?flags) @ code @ ?msg @ ev"
    using VError.prems(1) by (auto simp: sbind_Inr Let_def split: option.splits)
  obtain f where f: "fuel = Suc f" "within f (code @ ?msg @ ev)" using within_Suc [OF VError.prems(3) e] by blast
  have "0 < f" using within_pos [OF within_append(1) [OF f(2)] encode_symbol_length [OF c]] .
  then have pc: "parses tab (read_value opts f) code (VErrorCode c)" using parses_symbol [OF assms _ c] VError.prems(2) by simp
  have pm: "length ?msg \<le> usize_max \<Longrightarrow> parses tab (if m \<noteq> None then rbind read_len_prefixed_string (\<lambda>s. rret (Some s)) else rret None) ?msg m"
  proof (cases m)
    case (Some t)
    assume "length ?msg \<le> usize_max"
    then have "parses tab read_len_prefixed_string (write_blob (as_bytes t)) t"
      using parses_blob [of t tab] Some VError.prems(2) by (simp add: write_blob_def)
    then show ?thesis using Some by (simp add: parses_then)
  qed simp
  have pv: "parses tab (if v \<noteq> None then rbind (read_value opts f) (\<lambda>x. rret (Some x)) else rret None) ev v"
  proof (cases v)
    case (Some x)
    have "parses tab (read_value opts f) ev x" using VError.IH [of x ev f] v Some within_append(2) [OF within_append(2) [OF f(2)]] VError.prems(2) by simp
    then show ?thesis using Some by (simp add: parses_then)
  qed (use v in simp)
  have "parses tab (read_extended opts (read_value opts f) TAG_ERROR ?flags) (code @ ?msg @ ev) (VError c m v)"
  proof (rule parses_small)
    assume "length (code @ ?msg @ ev) \<le> usize_max"
    then have "length ?msg \<le> usize_max" by simp
    show "parses tab (read_extended opts (read_value opts f) TAG_ERROR ?flags) (code @ ?msg @ ev) (VError c m v)"
      unfolding read_extended_error
      by (rule parses_bind [OF pc], rule parses_first [OF parses_expect], simp add: as_error_code_def,
          rule parses_bind [OF pm [OF \<open>length ?msg \<le> usize_max\<close>]], rule parses_then [OF pv]) simp
  qed
  then show ?case unfolding f(1) e by (intro parses_header tags_small aux_small)
qed simp

end
