(* ===== verification/ValueTotal.thy ===== *)
theory ValueTotal
  imports ValueRoundtrip
begin

text \<open>
  Decoding arbitrary bytes. \<open>safe c R N Q m\<close>: from a consistent reader with at most \<open>R\<close> bytes left, and at
  most \<open>N\<close> bytes left and symbols interned together, the action \<open>m\<close> returns (an error or a result
  satisfying \<open>Q\<close>), never moves backwards, and interns at most \<open>c\<close> symbols more than it reads bytes.
\<close>

definition consistent :: "reader \<Rightarrow> bool" where
  "consistent rd \<longleftrightarrow> table_ok (rd_table rd) \<and> cache_ok (rd_cache rd) (rd_table rd) \<and>
     (\<forall>s n. symbol_name (rd_table rd) s = Some n \<longrightarrow> scalars_ok n) \<and>
     bytes_ok (rd_bytes rd) \<and> rd_offset rd \<le> length (rd_bytes rd) \<and> length (rd_bytes rd) \<le> usize_max"

definition remaining :: "reader \<Rightarrow> nat" where
  "remaining rd = length (rd_bytes rd) - rd_offset rd"

definition budget :: "reader \<Rightarrow> nat" where
  "budget rd = length (tb_by_id (rd_table rd)) + remaining rd"

definition follows :: "nat \<Rightarrow> reader \<Rightarrow> reader \<Rightarrow> bool" where
  "follows c rd rd' \<longleftrightarrow> consistent rd' \<and> rd_bytes rd' = rd_bytes rd \<and> rd_offset rd \<le> rd_offset rd' \<and>
     budget rd' \<le> budget rd + c \<and> extends (rd_table rd) (rd_table rd')"

definition safe :: "nat \<Rightarrow> nat \<Rightarrow> nat \<Rightarrow> ('a \<Rightarrow> bool) \<Rightarrow> 'a read \<Rightarrow> bool" where
  "safe c R N Q m \<longleftrightarrow> (\<forall>rd. consistent rd \<and> remaining rd \<le> R \<and> budget rd \<le> N \<longrightarrow>
     (case m rd of None \<Rightarrow> False | Some (Inl e) \<Rightarrow> True | Some (Inr (x, rd')) \<Rightarrow> follows c rd rd' \<and> Q x))"

lemma follows_refl: "consistent rd \<Longrightarrow> follows c rd rd"
  by (simp add: follows_def)

lemma follows_trans: "follows a rd rd1 \<Longrightarrow> follows b rd1 rd2 \<Longrightarrow> follows (a + b) rd rd2"
  unfolding follows_def using extends_trans by fastforce

lemma follows_remaining: "follows c rd rd' \<Longrightarrow> remaining rd' \<le> remaining rd"
  by (simp add: follows_def remaining_def diff_le_mono2)

lemma safeI:
  assumes "\<And>rd. consistent rd \<Longrightarrow> remaining rd \<le> R \<Longrightarrow> budget rd \<le> N \<Longrightarrow>
    (\<exists>e. m rd = Some (Inl e)) \<or> (\<exists>x rd'. m rd = Some (Inr (x, rd')) \<and> follows c rd rd' \<and> Q x)"
  shows "safe c R N Q m"
  unfolding safe_def
proof (intro allI impI, elim conjE)
  fix rd assume "consistent rd" "remaining rd \<le> R" "budget rd \<le> N"
  from assms [OF this] show "case m rd of None \<Rightarrow> False | Some (Inl e) \<Rightarrow> True | Some (Inr (x, rd')) \<Rightarrow> follows c rd rd' \<and> Q x"
    by auto
qed

lemma safeD:
  assumes "safe c R N Q m" "consistent rd" "remaining rd \<le> R" "budget rd \<le> N"
  obtains (fail) e where "m rd = Some (Inl e)" | (ret) x rd' where "m rd = Some (Inr (x, rd'))" "follows c rd rd'" "Q x"
proof -
  have r: "case m rd of None \<Rightarrow> False | Some (Inl e) \<Rightarrow> True | Some (Inr (x, rd')) \<Rightarrow> follows c rd rd' \<and> Q x"
    using assms unfolding safe_def by blast
  show thesis
  proof (cases "m rd")
    case (Some s)
    show thesis
    proof (cases s)
      case (Inr p)
      then show thesis using r Some ret by (cases p) simp
    qed (use Some fail in simp)
  qed (use r in simp)
qed

lemma safe_ret [intro]: "Q x \<Longrightarrow> safe c R N Q (rret x)"
  by (rule safeI) (simp add: rret_def follows_refl)

lemma safe_fail [intro]: "safe c R N Q (rfail e)"
  by (rule safeI) (simp add: rfail_def)

lemma safe_lift: "(\<And>x. m = Inr x \<Longrightarrow> Q x) \<Longrightarrow> safe c R N Q (rlift m)"
  by (rule safeI) (cases m, simp_all add: rlift_def follows_refl)

lemma safe_bind:
  assumes "safe a R N Q m" "\<And>x. Q x \<Longrightarrow> safe b R (N + a) Q' (f x)"
  shows "safe (a + b) R N Q' (rbind m f)"
proof (rule safeI)
  fix rd assume rd: "consistent rd" "remaining rd \<le> R" "budget rd \<le> N"
  from assms(1) rd show "(\<exists>e. rbind m f rd = Some (Inl e)) \<or> (\<exists>x rd'. rbind m f rd = Some (Inr (x, rd')) \<and> follows (a + b) rd rd' \<and> Q' x)"
  proof (cases rule: safeD)
    case (ret x rd1)
    have "consistent rd1" "remaining rd1 \<le> R" "budget rd1 \<le> N + a"
      using ret(2) follows_remaining [OF ret(2)] rd by (auto simp: follows_def)
    from assms(2) [OF ret(3)] this show ?thesis
      by (cases rule: safeD) (use ret follows_trans [OF ret(2)] in \<open>auto simp: rbind_def\<close>)
  qed (simp add: rbind_def)
qed

lemma safe_bind0:
  assumes "safe 0 R N Q m" "\<And>x. Q x \<Longrightarrow> safe c R N Q' (f x)"
  shows "safe c R N Q' (rbind m f)"
  using safe_bind [of 0 R N Q m c Q' f] assms by simp

lemma safe_weaken: "safe c R N Q m \<Longrightarrow> c \<le> d \<Longrightarrow> (\<And>x. Q x \<Longrightarrow> Q' x) \<Longrightarrow> safe d R N Q' m"
  by (rule safeI) (erule safeD, auto simp: follows_def)

lemma safe_exact: "safe 0 R N (\<lambda>bs. bytes_ok bs \<and> length bs = n) (read_exact n)"
proof (rule safeI)
  fix rd assume rd: "consistent rd"
  have "bytes_ok (take n (drop (rd_offset rd) (rd_bytes rd)))"
    using rd by (auto simp: consistent_def bytes_ok_def dest!: in_set_takeD in_set_dropD)
  then show "(\<exists>e. read_exact n rd = Some (Inl e)) \<or>
      (\<exists>x rd'. read_exact n rd = Some (Inr (x, rd')) \<and> follows 0 rd rd' \<and> bytes_ok x \<and> length x = n)"
    using rd by (auto simp: read_exact_def checked_add_def follows_def consistent_def budget_def remaining_def)
qed

lemma word_bound: "bytes_ok bs \<Longrightarrow> length bs = 8 \<Longrightarrow> le_value bs < U64_LIMIT"
  using le_value_bound [of bs] by (simp add: U64_LIMIT_def)

lemma safe_word: "safe 0 R N (\<lambda>w. w < U64_LIMIT) read_word"
  unfolding read_word_def by (rule safe_bind0 [OF safe_exact]) (auto intro: word_bound)

text \<open>A word read pays for the symbol the value behind it may intern.\<close>

lemma safe_after_word:
  assumes "\<And>w R' N'. w < U64_LIMIT \<Longrightarrow> R' + 8 = R \<Longrightarrow> N' + 8 = N \<Longrightarrow> safe 8 R' N' Q (f w)"
  shows "safe 0 R N Q (rbind read_word f)"
proof (rule safeI)
  fix rd assume rd: "consistent rd" "remaining rd \<le> R" "budget rd \<le> N"
  show "(\<exists>e. rbind read_word f rd = Some (Inl e)) \<or> (\<exists>x rd'. rbind read_word f rd = Some (Inr (x, rd')) \<and> follows 0 rd rd' \<and> Q x)"
  proof (cases "read_exact 8 rd")
    case None
    then show ?thesis using rd safe_exact [of "remaining rd" "budget rd" 8] by (auto simp: safe_def)
  next
    case (Some r)
    show ?thesis
    proof (cases r)
      case (Inr p)
      obtain bs rd1 where p: "p = (bs, rd1)" by (cases p)
      have r1: "rd1 = rd\<lparr>rd_offset := rd_offset rd + 8\<rparr>" "rd_offset rd + 8 \<le> length (rd_bytes rd)"
        using Some Inr p by (auto simp: read_exact_def checked_add_def split: if_splits)
      have f0: "follows 0 rd rd1 \<and> bytes_ok bs \<and> length bs = 8"
        using Some Inr p rd(1) safe_exact [of "remaining rd" "budget rd" 8] unfolding safe_def by fastforce
      have d: "remaining rd1 + 8 = remaining rd" "budget rd1 + 8 = budget rd"
        using r1 by (simp_all add: remaining_def budget_def)
      have ex: "\<exists>R' N'. R' + 8 = R \<and> N' + 8 = N \<and> remaining rd1 \<le> R' \<and> budget rd1 \<le> N'"
        by (rule exI [of _ "R - 8"], rule exI [of _ "N - 8"]) (use rd(2,3) d in linarith)
      then obtain R' N' where n: "R' + 8 = R" "N' + 8 = N" "remaining rd1 \<le> R'" "budget rd1 \<le> N'" by blast
      have "consistent rd1" using f0 by (simp add: follows_def)
      have "safe 8 R' N' Q (f (le_value bs))" using assms [OF word_bound n(1,2)] f0 by blast
      from this \<open>consistent rd1\<close> n(3,4) show ?thesis
        by (cases rule: safeD) (use f0 d Some Inr p in \<open>auto simp: rbind_def read_word_def rret_def follows_def intro: extends_trans\<close>)
    qed (use Some in \<open>simp add: rbind_def read_word_def\<close>)
  qed
qed

section \<open>The pieces of the decoder\<close>

lemma from_utf8_scalars: "from_utf8 bs = Some s \<Longrightarrow> scalars_ok s"
proof (induction bs arbitrary: s rule: from_utf8.induct)
  case (2 a r)
  consider (1) "a < 0x80" | (2) "0xC2 \<le> a" "a < 0xE0" | (3) "0xE0 \<le> a" "a < 0xF0" | (4) "0xF0 \<le> a" "a < 0xF5"
    using "2.prems" by (cases "a < 0x80"; cases "0xC2 \<le> a \<and> a < 0xE0"; cases "0xE0 \<le> a \<and> a < 0xF0"; cases "0xF0 \<le> a \<and> a < 0xF5") auto
  then show ?case
  proof cases
    case 1
    then show ?thesis using 2 by (auto simp: scalars_ok_def is_scalar_def)
  next
    case 2
    then obtain b r1 t where r: "r = b # r1" "cont b" "from_utf8 r1 = Some t" "s = ((a - 0xC0) * 64 + (b - 0x80)) # t"
      using "2.prems" by (auto split: list.splits if_splits)
    have "scalars_ok t" using "2.IH"(2) [OF _ _ r(1,2,3)] 2 by simp
    moreover have "is_scalar ((a - 0xC0) * 64 + (b - 0x80))" using r(2) 2 unfolding is_scalar_def cont_def by linarith
    ultimately show ?thesis using r by (simp add: scalars_ok_def)
  next
    case 3
    then obtain b c r1 t where r: "r = b # c # r1" "cont b \<and> cont c \<and> (a = 0xE0 \<longrightarrow> 0xA0 \<le> b) \<and> (a = 0xED \<longrightarrow> b < 0xA0)"
      "from_utf8 r1 = Some t" "s = ((a - 0xE0) * 4096 + (b - 0x80) * 64 + (c - 0x80)) # t"
      using "2.prems" by (auto split: list.splits if_splits)
    have "scalars_ok t" using "2.IH"(3) [OF _ _ _ r(1) refl r(2,3)] 3 by simp
    moreover have "is_scalar ((a - 0xE0) * 4096 + (b - 0x80) * 64 + (c - 0x80))"
    proof -
      have bc: "128 \<le> b" "b < 192" "128 \<le> c" "c < 192" "a = 0xED \<longrightarrow> b < 0xA0" using r(2) by (auto simp: cont_def)
      consider "a < 0xED" | "a = 0xED" | "0xEE \<le> a" by linarith
      then show ?thesis by cases (use bc 3 in \<open>simp_all add: is_scalar_def\<close>, linarith+)
    qed
    ultimately show ?thesis using r by (simp add: scalars_ok_def)
  next
    case 4
    then obtain b c d r1 t where r: "r = b # c # d # r1"
      "cont b \<and> cont c \<and> cont d \<and> (a = 0xF0 \<longrightarrow> 0x90 \<le> b) \<and> (a = 0xF4 \<longrightarrow> b < 0x90)"
      "from_utf8 r1 = Some t" "s = ((a - 0xF0) * 262144 + (b - 0x80) * 4096 + (c - 0x80) * 64 + (d - 0x80)) # t"
      using "2.prems" by (auto split: list.splits if_splits)
    have "scalars_ok t" using "2.IH"(4) [OF _ _ _ _ r(1) refl refl r(2,3)] 4 by simp
    moreover have "is_scalar ((a - 0xF0) * 262144 + (b - 0x80) * 4096 + (c - 0x80) * 64 + (d - 0x80))"
      using r(2) 4 unfolding is_scalar_def cont_def by linarith
    ultimately show ?thesis using r by (simp add: scalars_ok_def)
  qed
qed (simp add: scalars_ok_def)

lemma safe_string: "safe 0 R N scalars_ok (read_string_payload n)"
  unfolding read_string_payload_def read_blob_payload_def
  by (rule safe_bind0 [OF safe_exact]) (auto split: option.splits intro: from_utf8_scalars)

lemma safe_blob: "safe 0 R N scalars_ok read_len_prefixed_string"
  unfolding read_len_prefixed_string_def by (rule safe_bind0 [OF safe_word]) (rule safe_string)

lemma safe_require: "safe 0 R N (\<lambda>_. True) (require_words n)"
  by (rule safeI) (auto simp: require_words_def follows_refl)

lemma safe_count: "safe 0 R N (\<lambda>k. k = n) (read_count n)"
  unfolding read_count_def by (rule safe_bind0 [OF safe_require]) auto

lemma safe_n: "safe 0 R N Q m \<Longrightarrow> safe 0 R N (\<lambda>xs. length xs = n \<and> (\<forall>x \<in> set xs. Q x)) (read_n m n)"
proof (induction n)
  case (Suc n)
  show ?case unfolding read_n.simps
    by (rule safe_bind0 [OF Suc.prems], rule safe_bind0 [OF Suc.IH [OF Suc.prems]]) (simp add: safe_ret)
qed auto

lemma safe_expect: "(\<And>x. m = Some x \<Longrightarrow> Q x) \<Longrightarrow> safe 0 R N Q (expect m r)"
  by (auto simp: expect_def split: option.splits)

lemma safe_intern:
  assumes "N < U32_LIMIT" "scalars_ok name"
  shows "safe 1 R N (\<lambda>s. s < U32_LIMIT) (intern_symbol name)"
proof (rule safeI)
  fix rd assume rd: "consistent rd" "budget rd \<le> N"
  have t: "table_ok (rd_table rd)" "cache_ok (rd_cache rd) (rd_table rd)" "length (tb_by_id (rd_table rd)) < 4294967296"
    using rd assms(1) by (simp_all add: consistent_def budget_def U32_LIMIT_def)
  obtain s tab c where i: "intern name (rd_table rd) (rd_table rd) (rd_cache rd) = Some (s, tab, c)"
    "symbol_name tab s = Some name" "table_ok tab" "extends (rd_table rd) tab" "cache_ok c tab"
    by (rule intern_ok [OF t(1) t(1) extends_refl t(2,3)]) (rule that)
  have len: "length (tb_by_id tab) \<le> Suc (length (tb_by_id (rd_table rd)))"
    using i(1) by (auto simp: intern_def push_symbol_def Let_def split: option.splits)
  have "scalars_ok n" if "symbol_name tab k = Some n" for k n
  proof (cases "k < length (tb_by_id (rd_table rd))")
    case True
    then obtain n' where "symbol_name (rd_table rd) k = Some n'" by (simp add: symbol_name_def)
    then show ?thesis using symbol_name_extends [OF i(4)] that rd(1) by (force simp: consistent_def)
  next
    case False
    then have "k = length (tb_by_id (rd_table rd))" using that len by (auto simp: symbol_name_def split: if_splits)
    moreover have "s = k" if "tab \<noteq> rd_table rd"
      using i(1) that t(3) calculation by (auto simp: intern_def push_symbol_def Let_def split: option.splits)
    moreover have "tab \<noteq> rd_table rd" using that False by (auto simp: symbol_name_def split: if_splits)
    ultimately show ?thesis using i(2) that assms(2) by simp
  qed
  moreover have "s < U32_LIMIT" using i(2,3) by (auto simp: table_ok_def symbol_name_def U32_LIMIT_def split: if_splits)
  ultimately show "(\<exists>e. intern_symbol name rd = Some (Inl e)) \<or>
      (\<exists>x rd'. intern_symbol name rd = Some (Inr (x, rd')) \<and> follows 1 rd rd' \<and> x < U32_LIMIT)"
    using i rd(1) len by (auto simp: intern_symbol_def follows_def consistent_def budget_def remaining_def)
qed

lemma safe_named_symbol:
  assumes "N < U32_LIMIT" "\<And>s. s < U32_LIMIT \<Longrightarrow> valid (mk s)"
  shows "safe 1 R N valid (read_named_symbol opts k n mk)"
proof -
  have "safe (1 + 0) R N valid (rbind (intern_symbol name) (\<lambda>s. rret (mk s)))" if "scalars_ok name" for name
    by (rule safe_bind [OF safe_intern [OF assms(1) that]]) (use assms(2) in auto)
  then have "safe 1 R N valid (rbind (read_string_payload n) (\<lambda>name. rbind (intern_symbol name) (\<lambda>s. rret (mk s))))"
    by (intro safe_bind0 [OF safe_string]) simp
  then show ?thesis by (auto simp: read_named_symbol_def)
qed

lemma payload_bound: "word_payload w < PAYLOAD_LIMIT"
  by (simp add: word_payload_def PAYLOAD_LIMIT_def)

lemma payload_int_bounds: "p < PAYLOAD_LIMIT \<Longrightarrow> INT_MIN \<le> payload_int p \<and> payload_int p \<le> INT_MAX"
  by (auto simp: payload_int_def limit_defs)

lemma float_valid: "p < U32_LIMIT \<Longrightarrow> float_from_bits p = Inr v \<Longrightarrow> valid v"
  by (auto simp: float_from_bits_def f32_is_zero_def f32_finite_def U32_LIMIT_def split: if_splits)

lemma inline_valid: "decode_inline_word opts w = Inr v \<Longrightarrow> valid v"
  using payload_bound [of w] payload_int_bounds [OF payload_bound [of w]]
  by (auto simp: decode_inline_word_def Let_def identity_new_def capability_new_def empty_relation_def strictly_def
      split: if_splits option.splits sum.splits intro: float_valid)

section \<open>The decoder\<close>

lemma safe_relation:
  assumes "safe 0 R N valid rv"
  shows "safe 0 R N valid (read_relation rv arity)"
proof -
  have col: "safe 0 R N (\<lambda>s. s < U32_LIMIT) (rbind rv (\<lambda>v. expect (as_symbol v) ColumnExpected))"
    by (rule safe_bind0 [OF assms], rule safe_expect) (auto simp: as_symbol_def split: val.splits)
  have new: "safe 0 R N valid (case value_relation h rows of Inl e \<Rightarrow> rfail (InvalidValue (BadRelation e)) | Inr v \<Rightarrow> rret v)"
    if "\<forall>s \<in> set h. s < U32_LIMIT" "\<forall>row \<in> set rows. \<forall>x \<in> set row. valid x" for h rows
  proof (cases "relation_new h rows")
    case (Inr p)
    then show ?thesis using relation_new_ok(1) [of h rows "fst p" "snd p"] that by (auto simp: value_relation_def split_def)
  qed (auto simp: value_relation_def)
  show ?thesis unfolding read_relation_def
    by (rule safe_bind0 [OF safe_count], rule safe_bind0 [OF safe_n [OF col]], rule safe_bind0 [OF safe_word])
       (auto intro!: safe_bind0 [OF safe_require] safe_bind0 [OF safe_n [OF safe_n [OF assms]]] new)
qed

lemma safe_extended:
  assumes rv: "safe 0 R N valid rv" and N: "N < U32_LIMIT"
  shows "safe 1 R N valid (read_extended opts rv k aux)"
proof -
  have sym: "safe 1 R N valid (read_named_symbol opts k n VSymbol)" "safe 1 R N valid (read_named_symbol opts k n VErrorCode)" for k n
    by (rule safe_named_symbol [OF N], simp)+
  have str: "safe 1 R N valid (rbind (read_string_payload aux) (\<lambda>s. rret (VString s)))"
    by (rule safe_bind0 [OF safe_string]) auto
  have byt: "safe 1 R N valid (rbind (read_blob_payload aux) (\<lambda>b. rret (VBytes b)))"
    unfolding read_blob_payload_def by (rule safe_bind0 [OF safe_exact]) auto
  have lst: "safe 1 R N valid (rbind (read_count aux) (\<lambda>n. rbind (read_n rv n) (\<lambda>xs. rret (VList xs))))"
    by (rule safe_bind0 [OF safe_count], rule safe_bind0 [OF safe_n [OF rv]]) auto
  have entry: "safe 0 R N (\<lambda>e. valid (fst e) \<and> valid (snd e)) (rbind rv (\<lambda>key. rbind rv (\<lambda>v. rret (key, v))))"
    by (rule safe_bind0 [OF rv], rule safe_bind0 [OF rv]) auto
  have map: "safe 1 R N valid (rbind (read_count aux) (\<lambda>n.
      rbind (read_n (rbind rv (\<lambda>key. rbind rv (\<lambda>v. rret (key, v)))) n) (\<lambda>es. rret (value_map es))))"
    by (rule safe_bind0 [OF safe_count], rule safe_bind0 [OF safe_n [OF entry]]) (auto intro: value_map_ok(1))
  have rng: "safe 1 R N valid (rbind rv (\<lambda>start.
      if aux mod 2 = 1 then rbind rv (\<lambda>stop. rret (VRange start (Some stop))) else rret (VRange start None)))"
    by (rule safe_bind0 [OF rv]) (auto intro!: safe_bind0 [OF rv])
  have code: "safe 0 R N (\<lambda>s. s < U32_LIMIT) (expect (as_error_code c) ErrorCodeExpected)" if "valid c" for c
    by (rule safe_expect) (use that in \<open>auto simp: as_error_code_def split: val.splits\<close>)
  have msg: "safe 0 R N (\<lambda>m. \<forall>s \<in> set_option m. scalars_ok s)
      (if b then rbind read_len_prefixed_string (\<lambda>s. rret (Some s)) else rret None)" for b
    by (auto intro!: safe_bind0 [OF safe_blob])
  have pay: "safe 0 R N (\<lambda>m. \<forall>x \<in> set_option m. valid x) (if b then rbind rv (\<lambda>x. rret (Some x)) else rret None)" for b
    by (auto intro!: safe_bind0 [OF rv])
  have err: "safe 1 R N valid (rbind rv (\<lambda>c.
      rbind (expect (as_error_code c) ErrorCodeExpected) (\<lambda>code.
      rbind (if aux mod 2 = 1 then rbind read_len_prefixed_string (\<lambda>s. rret (Some s)) else rret None) (\<lambda>msg.
      rbind (if aux div 2 mod 2 = 1 then rbind rv (\<lambda>x. rret (Some x)) else rret None) (\<lambda>v.
      rret (VError code msg v))))))"
    by (rule safe_bind0 [OF rv], rule safe_bind0 [OF code], assumption, rule safe_bind0 [OF msg], rule safe_bind0 [OF pay]) auto
  have del: "safe 0 R N (\<lambda>i. i < PAYLOAD_LIMIT) (expect (as_identity d) DelegateExpected)" if "valid d" for d
    by (rule safe_expect) (use that in \<open>auto simp: as_identity_def split: val.splits\<close>)
  have frob: "safe 1 R N valid (rbind rv (\<lambda>d. rbind (expect (as_identity d) DelegateExpected) (\<lambda>delegate.
      rbind rv (\<lambda>v. rret (VFrob delegate v)))))"
    by (rule safe_bind0 [OF rv], rule safe_bind0 [OF del], assumption, rule safe_bind0 [OF rv]) auto
  have rel: "safe 1 R N valid (read_relation rv aux)" by (rule safe_weaken [OF safe_relation [OF rv]]) auto
  show ?thesis unfolding read_extended_def
    by (simp only: sym str byt lst map rng err frob rel safe_fail if_split split: if_split) simp
qed

lemma safe_value:
  assumes "R < 8 * fuel" "N \<le> U32_LIMIT"
  shows "safe 0 R N valid (read_value opts fuel)"
  using assms
proof (induction fuel arbitrary: R N)
  case (Suc fuel)
  show ?case unfolding read_value.simps
  proof (rule safe_after_word)
    fix w R' N' assume n: "R' + 8 = R" "N' + 8 = N"
    have "safe 1 R' N' valid (read_extended opts (read_value opts fuel) k aux)" for k aux
      by (rule safe_extended [OF Suc.IH]) (use n Suc.prems in auto)
    then have "safe 8 R' N' valid (read_extended opts (read_value opts fuel) k aux)" for k aux
      by (rule safe_weaken) simp_all
    then show "safe 8 R' N' valid (if word_tag w \<noteq> EXTENDED_TAG then rlift (decode_inline_word opts w)
        else read_extended opts (read_value opts fuel) (w div EXT_AUX_LIMIT mod 256) (w mod EXT_AUX_LIMIT))"
      using safe_lift [of "decode_inline_word opts w" valid 8 R' N', OF inline_valid] by simp
  qed
qed simp

end
