(* ===== verification/ValueProperties.thy ===== *)
theory ValueProperties
  imports ValueTotal
begin

text \<open>
  The properties of the value layer: the canonical order and its key encoding, symbol interning, the
  canonical forms of maps and relation values, and the codec.
\<close>

section \<open>The canonical order and its keys\<close>

lemma key_lexord:
  assumes "valid v" "valid w"
  shows "(encode_ordered v, encode_ordered w) \<in> lexord {(a, b). a < b} \<longleftrightarrow> below (encode_ordered v) (encode_ordered w)"
proof -
  have a: "asym {(a, b). a < (b :: nat)}" by (auto intro: asymI)
  show ?thesis
  proof (cases "val_cmp v w")
    case OLess
    then show ?thesis using assms val_cmp_less below_lex by blast
  next
    case OEqual
    then show ?thesis using val_cmp_eq [OF assms] lexord_irreflexive [of "{(a, b). a < (b :: nat)}"] by auto
  next
    case OGreater
    then have "below (encode_ordered w) (encode_ordered v)" using encode_ordered_embeds [OF assms] by simp
    then show ?thesis using below_lex below_asym lexord_asymmetric [OF a] by blast
  qed
qed

text \<open>
  C9. The key bytes of values order them: for values built by the constructors, the canonical
  comparison is the lexicographic comparison of the encoded keys, equal keys come from equal values,
  and no key is a proper prefix of another.
\<close>

theorem ordered_keys:
  assumes "valid v" "valid w"
  shows "(val_cmp v w = OLess \<longleftrightarrow> (encode_ordered v, encode_ordered w) \<in> lexord {(a, b). a < b}) \<and>
    (val_cmp v w = OEqual \<longleftrightarrow> v = w) \<and> (encode_ordered v = encode_ordered w \<longleftrightarrow> v = w) \<and>
    (v \<noteq> w \<longrightarrow> (\<forall>zs. encode_ordered w \<noteq> encode_ordered v @ zs))"
proof -
  have "below (encode_ordered v) (encode_ordered w) \<or> below (encode_ordered w) (encode_ordered v)" if "v \<noteq> w"
    using encode_ordered_embeds [OF assms] that by (cases "val_cmp v w") auto
  then have "\<forall>zs. encode_ordered w \<noteq> encode_ordered v @ zs" if "v \<noteq> w" using that below_not_prefix by blast
  moreover have "encode_ordered v = encode_ordered w \<longleftrightarrow> v = w"
    using encode_ordered_embeds [OF assms] by (cases "val_cmp v w") auto
  ultimately show ?thesis using val_cmp_less [OF assms] val_cmp_eq [OF assms] key_lexord [OF assms] by blast
qed

theorem ordered_keys_witness:
  "val_cmp (VString [97]) (VString [97, 0]) = OLess \<and>
   (encode_ordered (VString [97]), encode_ordered (VString [97, 0])) \<in> lexord {(a, b). a < b}"
proof -
  have v: "valid (VString [97])" "valid (VString [97, 0])" by (simp_all add: scalars_ok_def is_scalar_def)
  have "val_cmp (VString [97]) (VString [97, 0]) = OLess" by (simp add: str_cmp_def utf8_encode_def cmp_lin_def)
  then show ?thesis using ordered_keys [OF v] by blast
qed

text \<open>
  The canonical order of values is a strict total order on the values the constructors build: swapping the
  operands reverses the result, it is transitive, and it decides between any two distinct values.
\<close>

theorem canonical_order_total:
  assumes "valid u" "valid v" "valid w"
  shows "val_cmp v u = flip (val_cmp u v) \<and> (val_cmp u v = OLess \<and> val_cmp v w = OLess \<longrightarrow> val_cmp u w = OLess) \<and>
    (u = v \<or> val_cmp u v = OLess \<or> val_cmp v u = OLess)"
proof -
  have "val_cmp v u = flip (val_cmp u v)" by (rule val_cmp_flip [OF assms(1,2)])
  moreover have "u = v \<or> val_cmp u v = OLess \<or> val_cmp v u = OLess"
    using calculation val_cmp_eq [OF assms(1,2)] by (cases "val_cmp u v") auto
  ultimately show ?thesis using val_cmp_trans [OF assms] by blast
qed

theorem canonical_order_total_witness:
  "val_cmp (VInt 3) (VBool True) = flip (val_cmp (VBool True) (VInt 3)) \<and> val_cmp (VBool True) (VInt 7) = OLess"
proof -
  have v: "valid (VBool True)" "valid (VInt 3)" "valid (VInt 7)" by (simp_all add: limit_defs)
  have "val_cmp (VBool True) (VInt 3) = OLess" "val_cmp (VInt 3) (VInt 7) = OLess" by (simp_all add: cmp_lin_def tag_defs)
  then show ?thesis using canonical_order_total [OF v] by blast
qed

section \<open>Symbols\<close>

text \<open>
  C32. Interning a name while other threads intern theirs: whatever larger table the write section
  finds, the result is a symbol whose name is the given one, the name keeps a single symbol, every
  symbol handed out before keeps its name, and table and cache stay consistent.
\<close>

theorem intern_concurrent:
  assumes "table_ok tab" "table_ok tab2" "extends tab tab2" "cache_ok cache tab" "length (tb_by_id tab2) < 4294967296"
  shows "\<exists>s tab' cache'. intern name tab tab2 cache = Some (s, tab', cache') \<and> table_ok tab' \<and> cache_ok cache' tab' \<and>
    (\<forall>s'. symbol_name tab' s' = Some name \<longleftrightarrow> s' = s) \<and>
    (\<forall>s' n. symbol_name tab2 s' = Some n \<longrightarrow> symbol_name tab' s' = Some n)"
proof -
  obtain s tab' cache' where i: "intern name tab tab2 cache = Some (s, tab', cache')" "symbol_name tab' s = Some name"
    "table_ok tab'" "extends tab2 tab'" "cache_ok cache' tab'"
    by (rule intern_ok [OF assms]) (rule that)
  have "symbol_name tab' s' = Some name \<longleftrightarrow> s' = s" for s'
    using i(2,3) unfolding table_ok_def by (metis option.inject)
  then show ?thesis using i symbol_name_extends [OF i(4)] by blast
qed

theorem intern_concurrent_witness:
  "\<exists>s tab' cache'. intern [98] table_default (snd (push_symbol [97] table_default)) cache_new = Some (s, tab', cache') \<and>
     symbol_name tab' s = Some [98] \<and> symbol_name tab' 0 = Some [97]"
proof -
  obtain s tab where p: "push_symbol [97] table_default = (s, tab)" by (cases "push_symbol [97] table_default")
  have e: "tb_by_name table_default [97] = None" "length (tb_by_id table_default) < 4294967296" by (simp_all add: table_default_def)
  note ok = push_symbol_ok [OF table_ok_default e p]
  have t: "length (tb_by_id tab) < 4294967296" "symbol_name tab 0 = Some [97]"
    using p by (auto simp: push_symbol_def table_default_def Let_def symbol_name_def)
  show ?thesis using intern_concurrent [OF table_ok_default ok(1,2) cache_ok_new t(1), of "[98]"] t(2) p by auto
qed

section \<open>Canonical maps and relations\<close>

lemma keys_distinct: "strictly val_cmp ks \<Longrightarrow> \<forall>k \<in> set ks. valid k \<Longrightarrow> distinct ks"
proof (induction ks)
  case (Cons k ks)
  have "k \<notin> set ks"
  proof
    assume "k \<in> set ks"
    then have "val_cmp k k = OLess" using Cons.prems(1) by (simp add: strictly_def)
    then show False using val_cmp_eq [of k k] Cons.prems(2) by simp
  qed
  then show ?case using Cons by (simp add: strictly_def)
qed simp

lemma sorted_keys_unique:
  assumes "valid (VMap es)" "valid (VMap fs)" "map_of es = map_of fs"
  shows "es = fs"
proof -
  have s: "strictly val_cmp (map fst es)" "strictly val_cmp (map fst fs)" using assms(1,2) by (simp_all add: strictly_fst)
  have v: "\<forall>k \<in> set (map fst es). valid k" using assms(1) by auto
  have "set (map fst es) = set (map fst fs)" using assms(3) by (metis dom_map_of_conv_image_fst list.set_map)
  then have keys: "map fst es = map fst fs" using val_order.strictly_unique [OF s] v by blast
  have d: "distinct (map fst es)" "distinct (map fst fs)" using keys_distinct [OF s(1) v] keys by simp_all
  show ?thesis
  proof (rule nth_equalityI)
    show len: "length es = length fs" using keys by (metis length_map)
    fix i assume i: "i < length es"
    have f: "fst (es ! i) = fst (fs ! i)" using keys i len by (metis nth_map)
    have "map_of es (fst (es ! i)) = Some (snd (es ! i))" "map_of fs (fst (fs ! i)) = Some (snd (fs ! i))"
      using d i len by (auto intro!: map_of_is_SomeI simp: in_set_conv_nth)
    then show "es ! i = fs ! i" using f assms(3) by (simp add: prod_eq_iff)
  qed
qed

text \<open>
  \<open>Value::map\<close>: the result is a canonical map that finds, for every key, the value of the last
  entry with the key; two entry lists that agree as mappings give the same value.
\<close>

theorem value_map_canonical_form:
  assumes "\<forall>e \<in> set es. valid (fst e) \<and> valid (snd e)" "\<forall>e \<in> set fs. valid (fst e) \<and> valid (snd e)"
  shows "valid (value_map es) \<and> (\<forall>k. map_get (value_map es) k = map_of (rev es) k) \<and>
    (value_map es = value_map fs \<longleftrightarrow> map_of (rev es) = map_of (rev fs))"
proof -
  note e = value_map_ok [OF assms(1)] and f = value_map_ok [OF assms(2)]
  obtain xs ys where m: "value_map es = VMap xs" "value_map fs = VMap ys" by (simp add: value_map_def)
  have g: "map_of xs = map_of (rev es)" "map_of ys = map_of (rev fs)" using e(2) f(2) m by (auto simp: map_get_def)
  have "xs = ys \<longleftrightarrow> map_of (rev es) = map_of (rev fs)"
    using sorted_keys_unique [of xs ys] e(1) f(1) m g by metis
  then show ?thesis using e m by simp
qed

theorem value_map_canonical_form_witness:
  "map_get (value_map [(VInt 2, VBool True), (VInt 1, VBool True), (VInt 2, VBool False)]) (VInt 2) = Some (VBool False) \<and>
   value_map [(VInt 2, VBool True), (VInt 1, VBool True), (VInt 2, VBool False)] =
   value_map [(VInt 1, VBool True), (VInt 2, VBool False)]"
proof -
  let ?es = "[(VInt 2, VBool True), (VInt 1, VBool True), (VInt 2, VBool False)]"
  let ?fs = "[(VInt 1, VBool True), (VInt 2, VBool False)]"
  have "map_of (rev ?es) = map_of (rev ?fs)" by auto
  moreover have "\<forall>e \<in> set ?es. valid (fst e) \<and> valid (snd e)" "\<forall>e \<in> set ?fs. valid (fst e) \<and> valid (snd e)"
    by (simp_all add: limit_defs)
  ultimately have "value_map ?es = value_map ?fs" "map_get (value_map ?es) (VInt 2) = map_of (rev ?es) (VInt 2)"
    using value_map_canonical_form [of ?es ?fs] by blast+
  then show ?thesis by simp
qed

text \<open>
  \<open>RelationValue::new\<close>: when it accepts a heading and rows, the heading had no duplicate and at most 65535
  columns and every row its arity; the result is canonical (sorted heading, strictly ascending rows)
  and holds the same rows read as column assignments. Given the canonical form it returns it unchanged.
\<close>

theorem relation_canonical_form:
  assumes "relation_new h rows = Inr (h', rs)"
    and "\<forall>row \<in> set rows. \<forall>x \<in> set row. valid x" "\<forall>s \<in> set h. s < U32_LIMIT"
  shows "valid (VRelation h' rs) \<and> set h' = set h \<and> distinct h \<and> (\<forall>row \<in> set rows. length row = length h) \<and>
    (\<lambda>row. map_of (zip h' row)) ` set rs = (\<lambda>row. map_of (zip h row)) ` set rows \<and>
    relation_new h' rs = Inr (h', rs)"
  using relation_new_ok [OF assms] relation_new_canonical by blast

theorem relation_canonical_form_witness:
  "\<exists>rs. relation_new [9, 4] [[VInt 1, VBool True], [VInt 0, VBool True], [VInt 1, VBool True]] = Inr ([4, 9], rs) \<and>
     valid (VRelation [4, 9] rs) \<and> relation_new [4, 9] rs = Inr ([4, 9], rs)"
proof -
  let ?rows = "[[VInt 1, VBool True], [VInt 0, VBool True], [VInt 1, VBool True]]"
  have "\<exists>rs. relation_new [9, 4] ?rows = Inr ([4, 9], rs)"
    by (simp add: relation_new_def upt_rec Let_def select_def)
  then obtain rs where r: "relation_new [9, 4] ?rows = Inr ([4, 9], rs)" by blast
  then show ?thesis using relation_canonical_form [OF r] by (simp add: limit_defs)
qed

section \<open>The codec\<close>

text \<open>
  C31. The segmented encoding is the plain one: it fails with the same error, and otherwise its
  segments concatenate to exactly the bytes the plain encoder writes.
\<close>

theorem segmented_encoding:
  "(case encode_value opts tab v of
      Inl e \<Rightarrow> encode_value_segments opts tab v = Inl e
    | Inr bs \<Rightarrow> \<exists>s. encode_value_segments opts tab v = Inr s \<and> to_vec s = Some bs)"
proof -
  have "to_vec segments_default = Some []" by (simp add: to_vec_def segments_default_def)
  then show ?thesis using writesD [OF segments_write, of segments_default "[]" opts tab v] unfolding encode_value_segments_def
    by (cases "encode_value opts tab v") auto
qed

lemma names_ok_default: "names_ok table_default" "tb_by_id table_default = []"
  using table_ok_default by (simp_all add: names_ok_def table_default_def symbol_name_def U32_LIMIT_def)

lemma start_consistent:
  assumes "names_ok tab" "cache_ok cache tab" "bytes_ok bs" "length bs \<le> usize_max"
  shows "consistent (reader_new bs tab cache)"
  using assms by (simp add: consistent_def reader_new_def names_ok_def)

lemma read_start:
  assumes "names_ok tab" "cache_ok cache tab" "bytes_ok bs" "length bs \<le> usize_max" "length (tb_by_id tab) + length bs \<le> U32_LIMIT"
  obtains (fail) e where "read_value opts (Suc (length bs)) (reader_new bs tab cache) = Some (Inl e)"
  | (ret) v rd where "read_value opts (Suc (length bs)) (reader_new bs tab cache) = Some (Inr (v, rd))"
      "follows 0 (reader_new bs tab cache) rd" "valid v"
proof -
  have s: "safe 0 (length bs) U32_LIMIT valid (read_value opts (Suc (length bs)))" by (rule safe_value) simp_all
  have r: "remaining (reader_new bs tab cache) \<le> length bs" "budget (reader_new bs tab cache) \<le> U32_LIMIT"
    using assms(5) by (simp_all add: remaining_def budget_def reader_new_def)
  from s start_consistent [OF assms(1-4)] r show thesis by (cases rule: safeD) (use fail ret in blast)+
qed

text \<open>
  C29. Decoding terminates on every input: on any byte string, whatever it holds, the recursive
  descent returns a value or an error; it never exhausts the recursion bound taken from the input
  length, and what it interns fits the table.
\<close>

theorem decode_terminates:
  assumes "names_ok tab" "cache_ok cache tab" "bytes_ok bs" "length bs \<le> usize_max" "length (tb_by_id tab) + length bs \<le> U32_LIMIT"
  shows "\<exists>r. decode_value opts bs tab cache = Some r"
  using assms by (cases rule: read_start [where opts = opts]) (auto simp: decode_value_def rbind_def)

theorem decode_terminates_witness:
  "\<exists>r. decode_value options_default [255, 255, 255, 255, 255, 255, 9, 255, 1] table_default cache_new = Some r"
  by (rule decode_terminates) (simp_all add: names_ok_default cache_ok_new limit_defs usize_max_def)

text \<open>
  C30. Only values come out: whatever bytes are decoded, a decoded value satisfies every representation
  invariant the constructors establish (integers in range, finite floats without negative zero, valid
  strings, canonical maps and relations), the offset stays in the input, and symbols that existed keep
  their names.
\<close>

theorem decode_well_typed:
  assumes "names_ok tab" "cache_ok cache tab" "bytes_ok bs" "length bs \<le> usize_max" "length (tb_by_id tab) + length bs \<le> U32_LIMIT"
    and "decode_value opts bs tab cache = Some (Inr ((v, n), rd))"
  shows "valid v \<and> n \<le> length bs \<and> table_ok (rd_table rd) \<and> extends tab (rd_table rd)"
  using assms(1-5)
proof (cases rule: read_start [where opts = opts])
  case (ret v' rd')
  then have "v' = v" "rd' = rd" "n = rd_offset rd" using assms(6) unfolding decode_value_def rbind_def [of "read_value _ _"] by auto
  then show ?thesis using ret(2,3) by (auto simp: follows_def consistent_def reader_new_def)
qed (use assms(6) in \<open>simp add: decode_value_def rbind_def\<close>)

lemma demo_decode:
  "decode_value options_default [1, 0, 0, 0, 0, 0, 0, 1] table_default cache_new =
     Some (Inr ((VBool True, 8), (reader_new [1, 0, 0, 0, 0, 0, 0, 1] table_default cache_new)\<lparr>rd_offset := 8\<rparr>))"
  by (simp add: decode_value_def rbind_def read_word_def read_exact_def checked_add_def reader_new_def usize_max_def rret_def
      word_tag_def word_payload_def decode_inline_word_def PAYLOAD_LIMIT_def EXTENDED_TAG_def rlift_def tag_defs)

theorem decode_well_typed_witness:
  "valid (VBool True) \<and> 8 \<le> length [1, 0, 0, 0, 0, 0, 0, 1 :: nat] \<and>
   extends table_default (rd_table ((reader_new [1, 0, 0, 0, 0, 0, 0, 1] table_default cache_new)\<lparr>rd_offset := 8\<rparr>))"
proof -
  have n: "names_ok table_default" "cache_ok cache_new table_default" "bytes_ok [1, 0, 0, 0, 0, 0, 0, 1]"
    "length [1, 0, 0, 0, 0, 0, 0, 1 :: nat] \<le> usize_max"
    "length (tb_by_id table_default) + length [1, 0, 0, 0, 0, 0, 0, 1 :: nat] \<le> U32_LIMIT"
    by (simp_all add: names_ok_default cache_ok_new limit_defs usize_max_def)
  show ?thesis using decode_well_typed [OF n demo_decode] by simp
qed

text \<open>
  C10. Round trip: whatever the encoder writes for a valid value, followed by anything, decodes to that value
  and stops exactly at its end, interning nothing new; the exact decoder accepts it alone and reports
  the bytes that trail it otherwise.
\<close>

theorem codec_roundtrip:
  assumes "names_ok tab" "cache_ok cache tab" "valid v" "encode_value opts tab v = Inr bs" "length (bs @ rest) \<le> usize_max"
  shows "\<exists>rd. decode_value opts (bs @ rest) tab cache = Some (Inr ((v, length bs), rd)) \<and> rd_table rd = tab \<and>
    decode_value_exact opts (bs @ rest) tab cache =
      Some (if rest = [] then Inr (v, rd) else Inl (TrailingBytes (length rest)))"
proof -
  have p: "parses tab (read_value opts (Suc (length (bs @ rest)))) bs v"
    by (rule encode_parses [OF assms(1,4,3)]) (simp add: within_def)
  have r: "ready tab bs (reader_new (bs @ rest) tab cache)" using assms(2,5) by (simp add: ready_def reader_new_def)
  obtain c where "read_value opts (Suc (length (bs @ rest))) (reader_new (bs @ rest) tab cache) =
      Some (Inr (v, (reader_new (bs @ rest) tab cache)\<lparr>rd_offset := length bs, rd_cache := c\<rparr>))"
    using parsesD [OF p r] by (auto simp: reader_new_def)
  then show ?thesis
    by (simp add: decode_value_def decode_value_exact_def rbind_def expect_end_def rret_def reader_new_def)
qed

theorem codec_roundtrip_witness:
  "\<exists>rd. decode_value options_default ((word_bytes (extended_header_word TAG_LIST 1) @ word_bytes (pack TAG_INT 5)) @ [7])
      table_default cache_new = Some (Inr ((VList [VInt 5], 16), rd)) \<and> rd_table rd = table_default"
proof -
  have e: "encode_value options_default table_default (VList [VInt 5]) =
      Inr (word_bytes (extended_header_word TAG_LIST 1) @ word_bytes (pack TAG_INT 5))"
    by (simp add: len_aux_def EXT_AUX_LIMIT_def PAYLOAD_LIMIT_def)
  show ?thesis using codec_roundtrip [OF names_ok_default(1) cache_ok_new _ e, of "[7]"] by (auto simp: limit_defs usize_max_def)
qed

text \<open>
  The default options never persist authority: a value they encode holds no capability and no
  function at any depth.
\<close>

theorem encode_persistable:
  assumes "encode_value options_default tab v = Inr bs"
  shows "is_persistable v"
  by (rule encoded_persistable [OF assms]) (simp add: options_default_def)

theorem encode_persistable_witness: "is_persistable (VList [VInt 5])"
  by (rule encode_persistable [where tab = table_default and
        bs = "word_bytes (extended_header_word TAG_LIST 1) @ word_bytes (pack TAG_INT 5)"])
     (simp add: len_aux_def EXT_AUX_LIMIT_def PAYLOAD_LIMIT_def)

end
