(* ===== verification/RadixTree.thy ===== *)
theory RadixTree
  imports OrderedKey
begin

text \<open>
  The adaptive radix trees the kernel keys its tuples in come from a separate crate. They enter the
  model as a record of operations over a tree type that is left open, and \<open>radix_laws\<close> states what the
  kernel relies on: a finite map from byte strings to values, iterated in lexicographic key order,
  searched by key prefix. Insertion is only relied on when no key is a proper prefix of another, which
  the fixed-arity tuple keys guarantee.
\<close>

section \<open>The operations and their laws\<close>

record ('m, 'v) radix_ops =
  rx_ok :: "'m \<Rightarrow> bool"
  rx_new :: 'm
  rx_get :: "'m \<Rightarrow> bytes \<Rightarrow> 'v option"
  rx_insert :: "bytes \<Rightarrow> 'v \<Rightarrow> 'm \<Rightarrow> bool \<times> 'm"
  rx_delete :: "bytes \<Rightarrow> 'm \<Rightarrow> bool \<times> 'm"
  rx_update :: "bytes \<Rightarrow> ('v option \<Rightarrow> 'v option) \<Rightarrow> 'm \<Rightarrow> 'm"
  rx_values :: "'m \<Rightarrow> 'v list"
  rx_prefix_values :: "bytes \<Rightarrow> 'm \<Rightarrow> 'v list"
  rx_intersect :: "'m \<Rightarrow> 'm \<Rightarrow> ('v \<times> 'v) list"

definition bytes_less :: "bytes \<Rightarrow> bytes \<Rightarrow> bool" where
  "bytes_less a b \<longleftrightarrow> (a, b) \<in> lexord {(x, y). x < y}"

definition starts :: "bytes \<Rightarrow> bytes \<Rightarrow> bool" where
  "starts p k \<longleftrightarrow> take (length p) k = p"

definition apart :: "bytes \<Rightarrow> bytes \<Rightarrow> bool" where
  "apart a b \<longleftrightarrow> a = b \<or> (\<not> starts a b \<and> \<not> starts b a)"

text \<open>The keys of a map, ascending.\<close>

definition key_list :: "(bytes \<Rightarrow> 'v option) \<Rightarrow> bytes list \<Rightarrow> bool" where
  "key_list f ks \<longleftrightarrow> sorted_wrt bytes_less ks \<and> set ks = dom f"

definition law_insert :: "('m, 'v) radix_ops \<Rightarrow> bool" where
  "law_insert R \<longleftrightarrow> (\<forall>m k v. rx_ok R m \<longrightarrow> (\<forall>j \<in> dom (rx_get R m). apart j k) \<longrightarrow>
     fst (rx_insert R k v m) = (rx_get R m k \<noteq> None) \<and> rx_ok R (snd (rx_insert R k v m)) \<and>
     rx_get R (snd (rx_insert R k v m)) = (rx_get R m)(k \<mapsto> v))"

definition law_delete :: "('m, 'v) radix_ops \<Rightarrow> bool" where
  "law_delete R \<longleftrightarrow> (\<forall>m k. rx_ok R m \<longrightarrow>
     fst (rx_delete R k m) = (rx_get R m k \<noteq> None) \<and> rx_ok R (snd (rx_delete R k m)) \<and>
     rx_get R (snd (rx_delete R k m)) = (rx_get R m)(k := None))"

definition law_update :: "('m, 'v) radix_ops \<Rightarrow> bool" where
  "law_update R \<longleftrightarrow> (\<forall>m k f. rx_ok R m \<longrightarrow> (\<forall>j \<in> dom (rx_get R m). apart j k) \<longrightarrow>
     rx_ok R (rx_update R k f m) \<and> rx_get R (rx_update R k f m) = (rx_get R m)(k := f (rx_get R m k)))"

definition law_iterate :: "('m, 'v) radix_ops \<Rightarrow> bool" where
  "law_iterate R \<longleftrightarrow> (\<forall>m. rx_ok R m \<longrightarrow>
     (\<exists>ks. key_list (rx_get R m) ks \<and> rx_values R m = map (\<lambda>k. the (rx_get R m k)) ks \<and>
        (\<forall>p. rx_prefix_values R p m = map (\<lambda>k. the (rx_get R m k)) (filter (starts p) ks)) \<and>
        (\<forall>n. rx_ok R n \<longrightarrow> rx_intersect R m n =
           map (\<lambda>k. (the (rx_get R m k), the (rx_get R n k))) (filter (\<lambda>k. rx_get R n k \<noteq> None) ks))))"

definition radix_laws :: "('m, 'v) radix_ops \<Rightarrow> bool" where
  "radix_laws R \<longleftrightarrow> rx_ok R (rx_new R) \<and> rx_get R (rx_new R) = Map.empty \<and>
     law_insert R \<and> law_delete R \<and> law_update R \<and> law_iterate R"

lemma radix_new:
  assumes "radix_laws R"
  shows "rx_ok R (rx_new R)" "rx_get R (rx_new R) = Map.empty"
  using assms by (simp_all add: radix_laws_def)

lemma radix_insert:
  assumes "radix_laws R" "rx_ok R m" "\<forall>j \<in> dom (rx_get R m). apart j k"
  shows "fst (rx_insert R k v m) = (rx_get R m k \<noteq> None)" "rx_ok R (snd (rx_insert R k v m))"
    "rx_get R (snd (rx_insert R k v m)) = (rx_get R m)(k \<mapsto> v)"
  using assms unfolding radix_laws_def law_insert_def by blast+

lemma radix_delete:
  assumes "radix_laws R" "rx_ok R m"
  shows "fst (rx_delete R k m) = (rx_get R m k \<noteq> None)" "rx_ok R (snd (rx_delete R k m))"
    "rx_get R (snd (rx_delete R k m)) = (rx_get R m)(k := None)"
  using assms unfolding radix_laws_def law_delete_def by blast+

lemma radix_update:
  assumes "radix_laws R" "rx_ok R m" "\<forall>j \<in> dom (rx_get R m). apart j k"
  shows "rx_ok R (rx_update R k f m)" "rx_get R (rx_update R k f m) = (rx_get R m)(k := f (rx_get R m k))"
  using assms unfolding radix_laws_def law_update_def by blast+

lemma radix_iter:
  assumes "radix_laws R" "rx_ok R m"
  obtains ks where "key_list (rx_get R m) ks" "rx_values R m = map (\<lambda>k. the (rx_get R m k)) ks"
    "\<And>p. rx_prefix_values R p m = map (\<lambda>k. the (rx_get R m k)) (filter (starts p) ks)"
    "\<And>n. rx_ok R n \<Longrightarrow> rx_intersect R m n =
       map (\<lambda>k. (the (rx_get R m k), the (rx_get R n k))) (filter (\<lambda>k. rx_get R n k \<noteq> None) ks)"
proof -
  have "law_iterate R" using assms(1) by (simp add: radix_laws_def)
  then show thesis using assms(2) that unfolding law_iterate_def by blast
qed

section \<open>An instance\<close>

text \<open>Ascending association lists satisfy the laws; the witnesses use them.\<close>

type_synonym 'v key_assoc = "(bytes \<times> 'v) list"

fun bytes_lt :: "bytes \<Rightarrow> bytes \<Rightarrow> bool" where
  "bytes_lt [] [] = False"
| "bytes_lt [] (y # ys) = True"
| "bytes_lt (x # xs) [] = False"
| "bytes_lt (x # xs) (y # ys) = (x < y \<or> (x = y \<and> bytes_lt xs ys))"

lemma bytes_lt_less: "bytes_lt a b = bytes_less a b"
  by (induction a b rule: bytes_lt.induct) (auto simp: bytes_less_def)

fun ka_update :: "bytes \<Rightarrow> ('v option \<Rightarrow> 'v option) \<Rightarrow> 'v key_assoc \<Rightarrow> 'v key_assoc" where
  "ka_update k f [] = (case f None of None \<Rightarrow> [] | Some v \<Rightarrow> [(k, v)])"
| "ka_update k f ((l, w) # m) =
     (if k = l then (case f (Some w) of None \<Rightarrow> m | Some v \<Rightarrow> (k, v) # m)
      else if bytes_lt k l then (case f None of None \<Rightarrow> (l, w) # m | Some v \<Rightarrow> (k, v) # (l, w) # m)
      else (l, w) # ka_update k f m)"

definition ka_ops :: "('v key_assoc, 'v) radix_ops" where
  "ka_ops = \<lparr>rx_ok = (\<lambda>m. sorted_wrt bytes_less (map fst m)), rx_new = [], rx_get = map_of,
     rx_insert = (\<lambda>k v m. (map_of m k \<noteq> None, ka_update k (\<lambda>_. Some v) m)),
     rx_delete = (\<lambda>k m. (map_of m k \<noteq> None, ka_update k (\<lambda>_. None) m)),
     rx_update = ka_update, rx_values = map snd,
     rx_prefix_values = (\<lambda>p m. map snd (filter (\<lambda>e. starts p (fst e)) m)),
     rx_intersect = (\<lambda>m n. map (\<lambda>e. (snd e, the (map_of n (fst e)))) (filter (\<lambda>e. map_of n (fst e) \<noteq> None) m))\<rparr>"

lemma bytes_less_irrefl [simp]: "\<not> bytes_less a a"
  by (simp add: bytes_less_def lexord_irreflexive)

lemma bytes_less_trans: "bytes_less a b \<Longrightarrow> bytes_less b c \<Longrightarrow> bytes_less a c"
  unfolding bytes_less_def by (rule lexord_trans) (auto simp: trans_def)

lemma bytes_less_total: "a \<noteq> b \<Longrightarrow> bytes_less a b \<or> bytes_less b a"
  unfolding bytes_lt_less [symmetric] by (induction a b rule: bytes_lt.induct) auto

lemma below_bytes_less: "below a b \<Longrightarrow> bytes_less a b"
  by (simp add: bytes_less_def below_lex)

lemma ka_update_keys: "fst ` set (ka_update k f m) \<subseteq> insert k (fst ` set m)"
  by (induction k f m rule: ka_update.induct) (auto split: option.splits)

lemma ka_update_ok: "sorted_wrt bytes_less (map fst m) \<Longrightarrow> sorted_wrt bytes_less (map fst (ka_update k f m))"
proof (induction k f m rule: ka_update.induct)
  case (2 k f l w m)
  consider "k = l" | "bytes_less k l" | "k \<noteq> l" "bytes_less l k" using bytes_less_total by blast
  then show ?case
  proof cases
    case 2
    then show ?thesis using 2(1) "2.prems" by (auto simp: bytes_lt_less split: option.splits dest: bytes_less_trans)
  next
    case 3
    then have n: "\<not> bytes_less k l" using bytes_less_trans bytes_less_irrefl by blast
    have "bytes_less l j" if "j \<in> fst ` set (ka_update k f m)" for j
      using subsetD [OF ka_update_keys that] 3 "2.prems" by auto
    then show ?thesis using 3 n "2.IH" "2.prems" by (auto simp: bytes_lt_less)
  qed (use "2.prems" in \<open>auto split: option.splits\<close>)
qed (auto split: option.splits)

lemma ka_update_get:
  "sorted_wrt bytes_less (map fst m) \<Longrightarrow> map_of (ka_update k f m) = (map_of m)(k := f (map_of m k))"
proof (induction k f m rule: ka_update.induct)
  case (2 k f l w m)
  have fresh: "map_of m l = None" using "2.prems" by (auto simp: map_of_eq_None_iff)
  have gone: "map_of m k = None" if "bytes_less k l"
    using "2.prems" that bytes_less_trans bytes_less_irrefl by (fastforce simp: map_of_eq_None_iff)
  show ?case
  proof (cases "k = l")
    case True
    then show ?thesis using fresh by (auto simp: fun_eq_iff split: option.splits)
  next
    case False
    then show ?thesis using gone "2.IH" "2.prems" by (auto simp: bytes_lt_less fun_eq_iff split: option.splits)
  qed
qed (auto split: option.splits)

lemma ka_values: "sorted_wrt bytes_less (map fst m) \<Longrightarrow> e \<in> set m \<Longrightarrow> map_of m (fst e) = Some (snd e)"
proof (induction m)
  case (Cons a m)
  then show ?case by (cases a) force
qed simp

lemma ka_laws: "radix_laws ka_ops"
proof -
  have iter: "key_list (map_of m) (map fst m)" "map snd m = map (\<lambda>k. the (map_of m k)) (map fst m)"
    "map snd (filter (\<lambda>e. starts p (fst e)) m) = map (\<lambda>k. the (map_of m k)) (filter (starts p) (map fst m))"
    "map (\<lambda>e. (snd e, the (map_of n (fst e)))) (filter (\<lambda>e. map_of n (fst e) \<noteq> None) m) =
      map (\<lambda>k. (the (map_of m k), the (map_of n k))) (filter (\<lambda>k. map_of n k \<noteq> None) (map fst m))"
    if "sorted_wrt bytes_less (map fst m)" for m n :: "'a key_assoc" and p
    using that ka_values [OF that] by (simp_all add: key_list_def dom_map_of_conv_image_fst filter_map comp_def)
  have "law_iterate (ka_ops :: ('a key_assoc, 'a) radix_ops)"
    unfolding law_iterate_def
  proof (intro allI impI)
    fix m :: "'a key_assoc" assume "rx_ok ka_ops m"
    then have "sorted_wrt bytes_less (map fst m)" by (simp add: ka_ops_def)
    from iter [OF this] show "\<exists>ks. key_list (rx_get ka_ops m) ks \<and> rx_values ka_ops m = map (\<lambda>k. the (rx_get ka_ops m k)) ks \<and>
        (\<forall>p. rx_prefix_values ka_ops p m = map (\<lambda>k. the (rx_get ka_ops m k)) (filter (starts p) ks)) \<and>
        (\<forall>n. rx_ok ka_ops n \<longrightarrow> rx_intersect ka_ops m n =
           map (\<lambda>k. (the (rx_get ka_ops m k), the (rx_get ka_ops n k))) (filter (\<lambda>k. rx_get ka_ops n k \<noteq> None) ks))"
      by (intro exI [of _ "map fst m"]) (simp add: ka_ops_def)
  qed
  moreover have "law_insert (ka_ops :: ('a key_assoc, 'a) radix_ops)" "law_delete (ka_ops :: ('a key_assoc, 'a) radix_ops)"
    "law_update (ka_ops :: ('a key_assoc, 'a) radix_ops)"
    by (simp_all add: law_insert_def law_delete_def law_update_def ka_ops_def ka_update_ok ka_update_get)
  ultimately show ?thesis by (simp add: radix_laws_def) (simp add: ka_ops_def)
qed

end
