(* ===== verification/TupleRows.thy ===== *)
theory TupleRows
  imports RadixTree ValueCanon
begin

text \<open>
  Ordered rows of values: the radix keys of tuples (\<open>radix_key.rs\<close>, \<open>tuple.rs\<close> of the relation kernel),
  matching against bindings (\<open>Tuple::matches_bindings\<close>), searching a sorted vector, and the ordered row
  operations of \<open>relation_algebra.rs\<close>.
\<close>

type_synonym tuple = "val list"

abbreviation row_less :: "tuple \<Rightarrow> tuple \<Rightarrow> bool" where
  "row_less a b \<equiv> slice_cmp val_cmp a b = OLess"

abbreviation ascending :: "tuple list \<Rightarrow> bool" where
  "ascending rows \<equiv> strictly (slice_cmp val_cmp) rows"

definition row_ok :: "tuple \<Rightarrow> bool" where
  "row_ok t \<longleftrightarrow> (\<forall>x \<in> set t. valid x)"

section \<open>Keys\<close>

definition key_from_values :: "val list \<Rightarrow> bytes" where
  "key_from_values vs = concat (map encode_ordered vs)"

text \<open>\<open>None\<close>: a binding beyond the arity of the tuple.\<close>

definition matches_bindings :: "tuple \<Rightarrow> val option list \<Rightarrow> bool" where
  "matches_bindings t bindings \<longleftrightarrow> (\<forall>i < length bindings. case bindings ! i of None \<Rightarrow> True | Some v \<Rightarrow> t ! i = v)"

definition tuple_concat :: "tuple \<Rightarrow> tuple \<Rightarrow> tuple" where
  "tuple_concat a b = a @ b"

lemma key_append [simp]: "key_from_values (a @ b) = key_from_values a @ key_from_values b"
  by (simp add: key_from_values_def)

lemma key_embeds:
  assumes "row_ok a" "row_ok b" "length a = length b"
  shows "emb (slice_cmp val_cmp a b) (a = b) (key_from_values a) (key_from_values b)"
  unfolding key_from_values_def
  by (rule emb_row) (use assms encode_ordered_embeds in \<open>auto simp: row_ok_def\<close>)

lemma key_less:
  assumes "row_ok a" "row_ok b" "length a = length b"
  shows "row_less a b \<longleftrightarrow> bytes_less (key_from_values a) (key_from_values b)"
proof (cases "slice_cmp val_cmp a b")
  case OGreater
  then have "bytes_less (key_from_values b) (key_from_values a)" using key_embeds [OF assms] below_bytes_less by simp
  then show ?thesis using OGreater bytes_less_trans bytes_less_irrefl by (metis ordering.distinct(3))
qed (use key_embeds [OF assms] below_bytes_less in auto)

lemma key_inject:
  assumes "row_ok a" "row_ok b" "length a = length b"
  shows "key_from_values a = key_from_values b \<longleftrightarrow> a = b"
  using key_embeds [OF assms] by (cases "slice_cmp val_cmp a b") auto

lemma starts_append [simp]: "starts p (p @ r)"
  by (simp add: starts_def)

lemma startsD: "starts p k \<Longrightarrow> \<exists>r. k = p @ r"
  unfolding starts_def by (metis append_take_drop_id)

lemma key_prefix:
  assumes "row_ok p" "row_ok t" "length p \<le> length t"
  shows "starts (key_from_values p) (key_from_values t) \<longleftrightarrow> take (length p) t = p"
proof
  let ?u = "take (length p) t"
  have u: "row_ok ?u" "length p = length ?u" using assms(2,3) by (auto simp: row_ok_def dest: in_set_takeD)
  have k: "key_from_values t = key_from_values ?u @ key_from_values (drop (length p) t)"
    by (simp flip: key_append)
  assume "starts (key_from_values p) (key_from_values t)"
  then obtain r where r: "key_from_values t = key_from_values p @ r" using startsD by blast
  show "?u = p"
  proof (rule ccontr)
    assume "?u \<noteq> p"
    then have "below (key_from_values p) (key_from_values ?u) \<or> below (key_from_values ?u) (key_from_values p)"
      using key_embeds [OF assms(1) u] by (cases "slice_cmp val_cmp p ?u") auto
    then have "below (key_from_values p) (key_from_values t) \<or> below (key_from_values t) (key_from_values p)"
      using below_append [of _ _ "[]"] below_append [of _ _ _ "[]"] unfolding k by auto
    then show False using below_not_prefix r by blast
  qed
next
  assume "take (length p) t = p"
  then have "t = p @ drop (length p) t" by (metis append_take_drop_id)
  then show "starts (key_from_values p) (key_from_values t)" by (metis key_append starts_append)
qed

lemma key_apart:
  assumes "row_ok a" "row_ok b" "length a = length b"
  shows "apart (key_from_values a) (key_from_values b)"
  using key_prefix [of a b] key_prefix [of b a] assms by (auto simp: apart_def)

section \<open>Searching and updating a sorted vector\<close>

text \<open>\<open>slice::binary_search_by\<close> on a strictly sorted vector: \<open>Inr\<close> the index of the element, or \<open>Inl\<close> the index where it belongs.\<close>

definition binary_search :: "('a \<Rightarrow> 'b \<Rightarrow> ordering) \<Rightarrow> 'b \<Rightarrow> 'a list \<Rightarrow> nat + nat" where
  "binary_search f x xs =
     (let i = length (takeWhile (\<lambda>y. f y x = OLess) xs) in
      if i < length xs \<and> f (xs ! i) x = OEqual then Inr i else Inl i)"

definition insert_at :: "nat \<Rightarrow> 'a \<Rightarrow> 'a list \<Rightarrow> 'a list" where
  "insert_at i x xs = take i xs @ x # drop i xs"

definition remove_at :: "nat \<Rightarrow> 'a list \<Rightarrow> 'a list" where
  "remove_at i xs = take i xs @ drop (Suc i) xs"

lemma member_Cons: "y \<in> set xs \<Longrightarrow> \<exists>z zs. xs = z # zs"
  by (cases xs) auto

lemma set_remove_at:
  assumes "distinct xs" "i < length xs"
  shows "set (remove_at i xs) = set xs - {xs ! i}"
proof -
  have "xs = take i xs @ xs ! i # drop (Suc i) xs" using assms(2) by (rule id_take_nth_drop)
  then have "distinct (take i xs @ xs ! i # drop (Suc i) xs)" "set xs = set (take i xs @ xs ! i # drop (Suc i) xs)"
    using assms(1) by simp_all
  then show ?thesis by (auto simp: remove_at_def)
qed

lemma sorted_remove_at: "sorted_wrt P xs \<Longrightarrow> sorted_wrt P (remove_at i xs)"
  by (simp add: remove_at_def sorted_wrt_append sorted_wrt_take sorted_wrt_drop)
     (metis Suc_leD append_take_drop_id drop_Suc in_set_dropD nle_le sorted_wrt_append set_drop_subset_set_drop subsetD Suc_n_not_le_n)

context total_cmp begin

lemma strictly_distinct: "strictly f xs \<Longrightarrow> \<forall>x \<in> set xs. S x \<Longrightarrow> distinct xs"
proof (induction xs)
  case (Cons x xs)
  then have "x \<notin> set xs" using cmp_eq [of x x] by (auto simp: strictly_def)
  with Cons show ?case by (simp add: strictly_def)
qed simp

lemma search_split:
  assumes "strictly f xs" "\<forall>y \<in> set xs. S y" "S x" "i = length (takeWhile (\<lambda>y. f y x = OLess) xs)"
  shows "\<forall>y \<in> set (take i xs). f y x = OLess" "\<forall>y \<in> set (drop i xs). f y x \<noteq> OLess" "i \<le> length xs"
proof -
  have t: "take i xs = takeWhile (\<lambda>y. f y x = OLess) xs" "drop i xs = dropWhile (\<lambda>y. f y x = OLess) xs"
    unfolding assms(4) by (rule takeWhile_eq_take [symmetric], rule dropWhile_eq_drop [symmetric])
  show "\<forall>y \<in> set (take i xs). f y x = OLess" unfolding t using set_takeWhileD by metis
  show "i \<le> length xs" unfolding assms(4) by (rule length_takeWhile_le)
  show "\<forall>y \<in> set (drop i xs). f y x \<noteq> OLess"
  proof
    fix y assume y: "y \<in> set (drop i xs)"
    obtain z zs where z: "drop i xs = z # zs" using member_Cons [OF y] by blast
    have "f z x \<noteq> OLess" using z [unfolded t dropWhile_eq_Cons_conv] by blast
    moreover have "y = z \<or> f z y = OLess"
    proof -
      have "strictly f (drop i xs)" using assms(1) by (simp add: strictly_def sorted_wrt_drop)
      then show ?thesis using y z by (auto simp: strictly_def)
    qed
    moreover have "S y" "S z" using y z assms(2) by (metis in_set_dropD) (metis assms(2) in_set_dropD list.set_intros(1) z)
    ultimately show "f y x \<noteq> OLess" using cmp_trans [of z y x] assms(3) by blast
  qed
qed

lemma search_found:
  assumes "strictly f xs" "\<forall>y \<in> set xs. S y" "S x" "binary_search f x xs = Inr i"
  shows "i < length xs" "xs ! i = x"
  using assms cmp_eq by (auto simp: binary_search_def Let_def split: if_splits)

lemma search_missing:
  assumes "strictly f xs" "\<forall>y \<in> set xs. S y" "S x" "binary_search f x xs = Inl i"
  shows "x \<notin> set xs" "strictly f (insert_at i x xs)" "set (insert_at i x xs) = insert x (set xs)"
proof -
  have i: "i = length (takeWhile (\<lambda>y. f y x = OLess) xs)" "\<not> (i < length xs \<and> f (xs ! i) x = OEqual)"
    using assms(4) by (auto simp: binary_search_def Let_def split: if_splits)
  note s = search_split [OF assms(1-3) i(1)]
  have gt: "f x y = OLess" if yd: "y \<in> set (drop i xs)" for y
  proof -
    obtain z zs where z: "drop i xs = z # zs" using member_Cons [OF yd] by blast
    then have iz: "i < length xs" "xs ! i = z" by (metis drop_eq_Nil linorder_not_less list.distinct(1), metis nth_via_drop)
    have Sz: "S z" using iz assms(2) by (metis nth_mem)
    have "f z x = OGreater" using s(2) z i(2) iz by (cases "f z x") auto
    then have xz: "f x z = OLess" using cmp_greater [OF Sz assms(3)] by simp
    have "strictly f (drop i xs)" using assms(1) by (simp add: strictly_def sorted_wrt_drop)
    then have "y = z \<or> f z y = OLess" using that z by (auto simp: strictly_def)
    moreover have "S y" using that assms(2) by (metis in_set_dropD)
    ultimately show ?thesis using xz cmp_trans [OF assms(3) Sz] by blast
  qed
  have tl: "strictly f (take i xs)" "strictly f (drop i xs)" using assms(1) by (simp_all add: strictly_def sorted_wrt_take sorted_wrt_drop)
  have cross: "f y z = OLess" if "y \<in> set (take i xs)" "z \<in> set (drop i xs)" for y z
    using that assms(1) sorted_wrt_append [of "\<lambda>a b. f a b = OLess" "take i xs" "drop i xs"]
    unfolding strictly_def append_take_drop_id by blast
  show "strictly f (insert_at i x xs)"
    using s(1) gt tl cross by (auto simp: insert_at_def strictly_def sorted_wrt_append)
  show set: "set (insert_at i x xs) = insert x (set xs)"
    using set_append [of "take i xs" "drop i xs"] by (auto simp: insert_at_def)
  show "x \<notin> set xs"
  proof
    assume "x \<in> set xs"
    then have "x \<in> set (take i xs) \<or> x \<in> set (drop i xs)" by (metis Un_iff append_take_drop_id set_append)
    then have "f x x = OLess" using s(1) gt by blast
    then show False using cmp_eq [of x x] assms(3) by simp
  qed
qed

end

section \<open>Ordered rows\<close>

definition finish_tuple_rows :: "tuple list \<Rightarrow> tuple list" where
  "finish_tuple_rows rows = remdups_adj (sort_by (slice_cmp val_cmp) rows)"

definition project_tuple_rows :: "tuple list \<Rightarrow> nat list \<Rightarrow> tuple list" where
  "project_tuple_rows rows positions = finish_tuple_rows (map (\<lambda>row. select row positions) rows)"

fun union_ordered_tuple_rows :: "tuple list \<Rightarrow> tuple list \<Rightarrow> tuple list" where
  "union_ordered_tuple_rows (l # ls) (r # rs) =
     (case slice_cmp val_cmp l r of
        OLess \<Rightarrow> l # union_ordered_tuple_rows ls (r # rs)
      | OGreater \<Rightarrow> r # union_ordered_tuple_rows (l # ls) rs
      | OEqual \<Rightarrow> l # union_ordered_tuple_rows ls rs)"
| "union_ordered_tuple_rows ls [] = ls"
| "union_ordered_tuple_rows [] rs = rs"

fun difference_ordered_tuple_rows :: "tuple list \<Rightarrow> tuple list \<Rightarrow> tuple list" where
  "difference_ordered_tuple_rows [] right = []"
| "difference_ordered_tuple_rows (row # left) right =
     (let rest = dropWhile (\<lambda>r. row_less r row) right in
      if rest = [] \<or> hd rest \<noteq> row then row # difference_ordered_tuple_rows left rest
      else difference_ordered_tuple_rows left rest)"

definition union_tuple_rows :: "tuple list \<Rightarrow> tuple list \<Rightarrow> tuple list" where
  "union_tuple_rows left right = union_ordered_tuple_rows (finish_tuple_rows left) (finish_tuple_rows right)"

definition difference_tuple_rows :: "tuple list \<Rightarrow> tuple list \<Rightarrow> tuple list" where
  "difference_tuple_rows left right = difference_ordered_tuple_rows (finish_tuple_rows left) (finish_tuple_rows right)"

abbreviation rows_ok :: "tuple list \<Rightarrow> bool" where
  "rows_ok rows \<equiv> \<forall>row \<in> set rows. row_ok row"

lemma row_valid: "row_ok t \<Longrightarrow> \<forall>x \<in> set t. valid x"
  by (simp add: row_ok_def)

lemma rows_valid: "rows_ok rows \<Longrightarrow> \<forall>row \<in> set rows. \<forall>x \<in> set row. valid x"
  by (simp add: row_ok_def)

lemma finish_rows_ok:
  assumes "rows_ok rows"
  shows "ascending (finish_tuple_rows rows)" "set (finish_tuple_rows rows) = set rows"
  using row_order.strictly_dedup [OF row_order.weakly_sort] rows_valid [OF assms]
  by (simp_all add: finish_tuple_rows_def)

lemma union_rows_ok:
  assumes "ascending ls" "ascending rs" "rows_ok ls" "rows_ok rs"
  shows "ascending (union_ordered_tuple_rows ls rs) \<and> set (union_ordered_tuple_rows ls rs) = set ls \<union> set rs"
  using assms
proof (induction ls rs rule: union_ordered_tuple_rows.induct)
  case (1 l ls r rs)
  have v: "\<forall>x \<in> set l. valid x" "\<forall>x \<in> set r. valid x" "\<forall>t \<in> set ls \<union> set rs. \<forall>x \<in> set t. valid x"
    using "1.prems" by (auto simp: row_ok_def)
  have tails: "ascending ls" "ascending rs" "\<forall>t \<in> set ls. row_less l t" "\<forall>t \<in> set rs. row_less r t"
    using "1.prems"(1,2) by (auto simp: strictly_def)
  have tr: "row_less a t" if "row_less a b" "row_less b t" "row_ok a" "row_ok b" "row_ok t" for a b t
    using row_order.cmp_trans [of a b t] that row_valid by blast
  show ?case
  proof (cases "slice_cmp val_cmp l r")
    case OLess
    have "row_less l t" if "t \<in> set ls \<union> set (r # rs)" for t
      using that tails OLess tr [OF OLess] "1.prems"(3,4) by auto
    then show ?thesis using "1.IH"(1) [OF OLess tails(1) "1.prems"(2)] "1.prems"(3,4) OLess by (auto simp: strictly_def)
  next
    case OGreater
    then have g: "row_less r l" using row_order.cmp_greater [OF v(1,2)] by simp
    have "row_less r t" if "t \<in> set (l # ls) \<union> set rs" for t
      using that tails g tr [OF g] "1.prems"(3,4) by auto
    then show ?thesis using "1.IH"(3) [OF OGreater "1.prems"(1) tails(2)] "1.prems"(3,4) OGreater by (auto simp: strictly_def)
  next
    case OEqual
    then have "l = r" using row_order.cmp_eq [OF v(1,2)] by simp
    then show ?thesis using "1.IH"(2) [OF OEqual tails(1,2)] tails(3,4) "1.prems"(3,4) OEqual by (auto simp: strictly_def)
  qed
qed (auto simp: strictly_def)

lemma difference_rows_ok:
  assumes "ascending ls" "ascending rs" "rows_ok ls" "rows_ok rs"
  shows "difference_ordered_tuple_rows ls rs = filter (\<lambda>t. t \<notin> set rs) ls"
  using assms
proof (induction ls arbitrary: rs)
  case (Cons row ls)
  define rest where "rest = dropWhile (\<lambda>r. row_less r row) rs"
  have sub: "set rest \<subseteq> set rs" unfolding rest_def using set_dropWhileD by fast
  have asc: "ascending rest" using Cons.prems(2) unfolding rest_def strictly_def by (rule sorted_wrt_dropWhile)
  have ok: "row_ok row" "rows_ok rest" "\<forall>t \<in> set ls. row_less row t" "ascending ls"
    using Cons.prems sub by (auto simp: strictly_def)
  have cut: "t \<in> set rest" if "t \<in> set rs" "\<not> row_less t row" for t
    using that unfolding rest_def by (induction rs) auto
  have member: "row \<in> set rs \<longleftrightarrow> rest \<noteq> [] \<and> hd rest = row"
  proof
    assume r: "row \<in> set rs"
    have nl: "\<not> row_less row row" using row_order.cmp_eq [of row row] row_valid [OF ok(1)] by simp
    then have m: "row \<in> set rest" using cut r by blast
    obtain z zs where z: "rest = z # zs" using member_Cons [OF m] by blast
    have "\<not> row_less z row" using z [unfolded rest_def dropWhile_eq_Cons_conv] by blast
    then have "z = row" using m z asc by (auto simp: strictly_def)
    then show "rest \<noteq> [] \<and> hd rest = row" using z by simp
  qed (use sub in \<open>metis hd_in_set subsetD\<close>)
  have later: "t \<in> set rest \<longleftrightarrow> t \<in> set rs" if "t \<in> set ls" for t
  proof -
    have "\<not> row_less t row"
      using row_order.cmp_flip [of row t] row_valid ok(1,3) that Cons.prems(3) by fastforce
    then show ?thesis using cut sub by blast
  qed
  have "filter (\<lambda>t. t \<notin> set rest) ls = filter (\<lambda>t. t \<notin> set rs) ls" using later by (metis (no_types, lifting) filter_cong)
  then show ?case using Cons.IH [OF ok(4) asc _ ok(2)] Cons.prems(3) member by (auto simp: Let_def rest_def [symmetric])
qed simp

end
