(* ===== verification/TupleStore.thy ===== *)
theory TupleStore
  imports TupleRows
begin

text \<open>
  Tuple storage: \<open>index/tuple_bucket.rs\<close> and \<open>index/tuple_store.rs\<close>. A store is a B-tree set of tuples
  that becomes a radix tree over tuple keys when it outgrows a threshold; a bucket is the small sorted
  set of tuples that share an index key. Both implement finite sets of tuples of one arity, iterated
  in tuple order. A visitor that stops early sees a prefix of the list a visit stands for.
\<close>

section \<open>Trees keyed by tuples\<close>

definition rows_of :: "nat \<Rightarrow> tuple set" where
  "rows_of n = {t. row_ok t \<and> length t = n}"

text \<open>The tree \<open>m\<close> holds the map \<open>g\<close> from tuples of arity \<open>n\<close>.\<close>

definition keyed :: "('m, 'v) radix_ops \<Rightarrow> nat \<Rightarrow> 'm \<Rightarrow> (tuple \<Rightarrow> 'v option) \<Rightarrow> bool" where
  "keyed R n m g \<longleftrightarrow> rx_ok R m \<and> dom g \<subseteq> rows_of n \<and> (\<forall>t \<in> rows_of n. rx_get R m (key_from_values t) = g t) \<and>
     dom (rx_get R m) \<subseteq> key_from_values ` rows_of n"

lemma keyed_get: "keyed R n m g \<Longrightarrow> t \<in> rows_of n \<Longrightarrow> rx_get R m (key_from_values t) = g t"
  by (simp add: keyed_def)

lemma rows_of_apart: "s \<in> rows_of n \<Longrightarrow> t \<in> rows_of n \<Longrightarrow> apart (key_from_values s) (key_from_values t)"
  by (simp add: rows_of_def key_apart)

lemma rows_of_key: "s \<in> rows_of n \<Longrightarrow> t \<in> rows_of n \<Longrightarrow> key_from_values s = key_from_values t \<longleftrightarrow> s = t"
  by (simp add: rows_of_def key_inject)

lemma keyed_apart: "keyed R n m g \<Longrightarrow> t \<in> rows_of n \<Longrightarrow> \<forall>j \<in> dom (rx_get R m). apart j (key_from_values t)"
  unfolding keyed_def using rows_of_apart by blast

lemma keyed_new: "radix_laws R \<Longrightarrow> keyed R n (rx_new R) Map.empty"
  by (simp add: keyed_def radix_new)

lemma keyed_change:
  assumes "keyed R n m g" "t \<in> rows_of n" "rx_ok R m'" "rx_get R m' = (rx_get R m)(key_from_values t := v)"
  shows "keyed R n m' (g(t := v))"
proof -
  have "rx_get R m' (key_from_values s) = (g(t := v)) s" if "s \<in> rows_of n" for s
    using assms that rows_of_key [OF that assms(2)] by (auto simp: keyed_def)
  then show ?thesis using assms by (auto simp: keyed_def dom_def split: if_splits)
qed

lemma keyed_insert:
  assumes "radix_laws R" "keyed R n m g" "t \<in> rows_of n"
  shows "fst (rx_insert R (key_from_values t) v m) = (g t \<noteq> None)" "keyed R n (snd (rx_insert R (key_from_values t) v m)) (g(t \<mapsto> v))"
proof -
  have ok: "rx_ok R m" using assms(2) by (simp add: keyed_def)
  note i = radix_insert [OF assms(1) ok keyed_apart [OF assms(2,3)], of v]
  show "fst (rx_insert R (key_from_values t) v m) = (g t \<noteq> None)" using i(1) keyed_get [OF assms(2,3)] by simp
  show "keyed R n (snd (rx_insert R (key_from_values t) v m)) (g(t \<mapsto> v))" by (rule keyed_change [OF assms(2,3) i(2,3)])
qed

lemma keyed_delete:
  assumes "radix_laws R" "keyed R n m g" "t \<in> rows_of n"
  shows "fst (rx_delete R (key_from_values t) m) = (g t \<noteq> None)" "keyed R n (snd (rx_delete R (key_from_values t) m)) (g(t := None))"
proof -
  have ok: "rx_ok R m" using assms(2) by (simp add: keyed_def)
  note i = radix_delete [OF assms(1) ok, of "key_from_values t"]
  show "fst (rx_delete R (key_from_values t) m) = (g t \<noteq> None)" using i(1) keyed_get [OF assms(2,3)] by simp
  show "keyed R n (snd (rx_delete R (key_from_values t) m)) (g(t := None))" by (rule keyed_change [OF assms(2,3) i(2,3)])
qed

lemma keyed_update:
  assumes "radix_laws R" "keyed R n m g" "t \<in> rows_of n"
  shows "keyed R n (rx_update R (key_from_values t) f m) (g(t := f (g t)))"
proof -
  have ok: "rx_ok R m" using assms(2) by (simp add: keyed_def)
  note i = radix_update [OF assms(1) ok keyed_apart [OF assms(2,3)], of f]
  show ?thesis using keyed_change [OF assms(2,3) i] keyed_get [OF assms(2,3)] by simp
qed

lemma sorted_unique:
  assumes "sorted_wrt P xs" "sorted_wrt P ys" "set xs = set ys" "\<And>a b. P a b \<Longrightarrow> \<not> P b a"
  shows "xs = ys"
  using assms(1-3)
proof (induction xs arbitrary: ys)
  case (Cons x xs)
  then obtain y zs where ys: "ys = y # zs" by (cases ys) auto
  have "x = y" using Cons.prems ys assms(4) by (metis insert_iff list.simps(15) sorted_wrt.simps(2))
  moreover have "x \<notin> set xs" "y \<notin> set zs" using Cons.prems(1,2) ys assms(4) by force+
  ultimately have "set xs = set zs" using Cons.prems(3) ys by auto
  then show ?case using Cons ys \<open>x = y\<close> by auto
qed simp

lemma keyed_iter:
  assumes "radix_laws R" "keyed R n m g"
  obtains rows where "ascending rows" "set rows = dom g" "rx_values R m = map (\<lambda>t. the (g t)) rows"
    "\<And>p. row_ok p \<Longrightarrow> length p \<le> n \<Longrightarrow>
       rx_prefix_values R (key_from_values p) m = map (\<lambda>t. the (g t)) (filter (\<lambda>t. take (length p) t = p) rows)"
    "\<And>m' g'. keyed R n m' g' \<Longrightarrow>
       rx_intersect R m m' = map (\<lambda>t. (the (g t), the (g' t))) (filter (\<lambda>t. g' t \<noteq> None) rows)"
proof -
  have ok: "rx_ok R m" using assms(2) by (simp add: keyed_def)
  obtain ks where ks: "key_list (rx_get R m) ks" "rx_values R m = map (\<lambda>k. the (rx_get R m k)) ks"
    "\<And>p. rx_prefix_values R p m = map (\<lambda>k. the (rx_get R m k)) (filter (starts p) ks)"
    "\<And>n. rx_ok R n \<Longrightarrow> rx_intersect R m n =
       map (\<lambda>k. (the (rx_get R m k), the (rx_get R n k))) (filter (\<lambda>k. rx_get R n k \<noteq> None) ks)"
    by (rule radix_iter [OF assms(1) ok]) (rule that)
  define unkey where "unkey = (\<lambda>k. THE t. t \<in> rows_of n \<and> key_from_values t = k)"
  have unkey: "unkey (key_from_values t) = t" if "t \<in> rows_of n" for t
    unfolding unkey_def by (rule the_equality) (use that rows_of_key in auto)
  define rows where "rows = map unkey ks"
  have in_dom: "k \<in> dom (rx_get R m)" if "k \<in> set ks" for k using ks(1) that by (simp add: key_list_def)
  have kt: "unkey k \<in> rows_of n \<and> key_from_values (unkey k) = k" if "k \<in> set ks" for k
    using in_dom [OF that] assms(2) unkey by (auto simp: keyed_def)
  have keys: "ks = map key_from_values rows" unfolding rows_def using kt by (simp add: map_idI)
  have rs: "\<forall>t \<in> set rows. t \<in> rows_of n" using kt by (auto simp: rows_def)
  have "sorted_wrt (\<lambda>a b. bytes_less (key_from_values a) (key_from_values b)) rows"
    using ks(1) unfolding key_list_def keys by (simp add: sorted_wrt_map)
  then have asc: "ascending rows" unfolding strictly_def
    by (rule sorted_wrt_mono_rel [rotated]) (use rs key_less in \<open>auto simp: rows_of_def\<close>)
  have dom: "set rows = dom g"
  proof -
    have "t \<in> dom g \<longleftrightarrow> t \<in> set rows" if t: "t \<in> rows_of n" for t
    proof -
      have "t \<in> dom g \<longleftrightarrow> key_from_values t \<in> set ks"
        using ks(1) keyed_get [OF assms(2) t] by (auto simp: key_list_def dom_def)
      also have "\<dots> \<longleftrightarrow> t \<in> set rows" unfolding keys set_map using rows_of_key t rs by blast
      finally show ?thesis .
    qed
    moreover have "dom g \<subseteq> rows_of n" using assms(2) by (simp add: keyed_def)
    ultimately show ?thesis using rs by blast
  qed
  have get: "rx_get R m (key_from_values t) = g t" if "t \<in> set rows" for t using keyed_get [OF assms(2)] rs that by blast
  show thesis
  proof (rule that [OF asc dom])
    show "rx_values R m = map (\<lambda>t. the (g t)) rows" using ks(2) get by (simp add: keys)
    fix p assume p: "row_ok p" "length p \<le> n"
    have "starts (key_from_values p) (key_from_values t) \<longleftrightarrow> take (length p) t = p" if "t \<in> set rows" for t
      using key_prefix [OF p(1), of t] rs that p(2) by (auto simp: rows_of_def)
    then have "filter (starts (key_from_values p)) ks = map key_from_values (filter (\<lambda>t. take (length p) t = p) rows)"
      unfolding keys filter_map comp_def by (intro arg_cong [of _ _ "map key_from_values"] filter_cong) simp_all
    then show "rx_prefix_values R (key_from_values p) m = map (\<lambda>t. the (g t)) (filter (\<lambda>t. take (length p) t = p) rows)"
      using ks(3) get by simp
  next
    fix m' g' assume k': "keyed R n m' g'"
    then have ok': "rx_ok R m'" by (simp add: keyed_def)
    have get': "rx_get R m' (key_from_values t) = g' t" if "t \<in> set rows" for t using keyed_get [OF k'] rs that by blast
    have "filter (\<lambda>k. rx_get R m' k \<noteq> None) ks = map key_from_values (filter (\<lambda>t. g' t \<noteq> None) rows)"
      unfolding keys filter_map comp_def by (intro arg_cong [of _ _ "map key_from_values"] filter_cong) (simp_all add: get')
    then show "rx_intersect R m m' = map (\<lambda>t. (the (g t), the (g' t))) (filter (\<lambda>t. g' t \<noteq> None) rows)"
      using ks(4) [OF ok'] get get' by simp
  qed
qed

section \<open>Buckets\<close>

datatype tuple_bucket = BEmpty | BOne tuple | BMany "tuple list"

definition bucket_one :: "tuple \<Rightarrow> tuple_bucket" where
  "bucket_one t = BOne t"

fun bucket_from_sorted_unique :: "tuple list \<Rightarrow> tuple_bucket" where
  "bucket_from_sorted_unique [] = BEmpty"
| "bucket_from_sorted_unique [t] = BOne t"
| "bucket_from_sorted_unique (s # t # ts) = BMany (s # t # ts)"

fun bucket_len :: "tuple_bucket \<Rightarrow> usize" where
  "bucket_len BEmpty = 0"
| "bucket_len (BOne _) = 1"
| "bucket_len (BMany ts) = length ts"

definition bucket_is_empty :: "tuple_bucket \<Rightarrow> bool" where
  "bucket_is_empty b \<longleftrightarrow> b = BEmpty"

fun bucket_rows :: "tuple_bucket \<Rightarrow> tuple list" where
  "bucket_rows BEmpty = []"
| "bucket_rows (BOne t) = [t]"
| "bucket_rows (BMany ts) = ts"

definition bucket_first :: "tuple_bucket \<Rightarrow> tuple option" where
  "bucket_first b = (case bucket_rows b of [] \<Rightarrow> None | t # _ \<Rightarrow> Some t)"

fun bucket_insert :: "tuple \<Rightarrow> tuple_bucket \<Rightarrow> bool \<times> tuple_bucket" where
  "bucket_insert t BEmpty = (True, BOne t)"
| "bucket_insert t (BOne e) =
     (if e = t then (False, BOne e) else if row_less t e then (True, BMany [t, e]) else (True, BMany [e, t]))"
| "bucket_insert t (BMany ts) =
     (if ts \<noteq> [] \<and> last ts = t then (False, BMany ts)
      else if ts \<noteq> [] \<and> row_less (last ts) t then (True, BMany (ts @ [t]))
      else case binary_search (slice_cmp val_cmp) t ts of
          Inr _ \<Rightarrow> (False, BMany ts)
        | Inl i \<Rightarrow> (True, BMany (insert_at i t ts)))"

fun bucket_remove :: "tuple \<Rightarrow> tuple_bucket \<Rightarrow> bool \<times> tuple_bucket" where
  "bucket_remove t BEmpty = (False, BEmpty)"
| "bucket_remove t (BOne e) = (if e = t then (True, BEmpty) else (False, BOne e))"
| "bucket_remove t (BMany ts) =
     (case binary_search (slice_cmp val_cmp) t ts of
        Inl _ \<Rightarrow> (False, BMany ts)
      | Inr i \<Rightarrow>
          let ts' = remove_at i ts in
          (True, if ts' = [] then BEmpty else if length ts' = 1 then BOne (last ts') else BMany ts'))"

text \<open>The bucket holds the set \<open>B\<close>, in the constructor its size calls for.\<close>

definition bucket_ok :: "tuple_bucket \<Rightarrow> tuple set \<Rightarrow> bool" where
  "bucket_ok b B \<longleftrightarrow> ascending (bucket_rows b) \<and> set (bucket_rows b) = B \<and> (\<forall>t \<in> B. row_ok t) \<and>
     (case b of BMany ts \<Rightarrow> 2 \<le> length ts | _ \<Rightarrow> True)"

lemma bucket_ok_empty [simp]: "bucket_ok b {} \<longleftrightarrow> b = BEmpty"
  by (cases b) (auto simp: bucket_ok_def strictly_def)

lemma bucket_ok_BEmpty [simp]: "bucket_ok BEmpty B \<longleftrightarrow> B = {}"
  by (auto simp: bucket_ok_def strictly_def)

lemma bucket_len_card: "bucket_ok b B \<Longrightarrow> bucket_len b = card B"
proof -
  assume ok: "bucket_ok b B"
  then have "distinct (bucket_rows b)"
    using row_order.strictly_distinct [of "bucket_rows b"] by (auto simp: bucket_ok_def row_ok_def)
  then have "card (set (bucket_rows b)) = length (bucket_rows b)" by (rule distinct_card)
  then show ?thesis using ok by (cases b) (auto simp: bucket_ok_def)
qed

lemma bucket_from_sorted: "ascending ts \<Longrightarrow> rows_ok ts \<Longrightarrow> bucket_ok (bucket_from_sorted_unique ts) (set ts)"
  by (cases ts rule: bucket_from_sorted_unique.cases) (auto simp: bucket_ok_def)

lemma sorted_last: "sorted_wrt P xs \<Longrightarrow> s \<in> set xs \<Longrightarrow> s = last xs \<or> P s (last xs)"
  by (induction xs rule: rev_induct) (auto simp: sorted_wrt_append)

lemma bucket_insert_ok:
  assumes "bucket_ok b B" "row_ok t"
  shows "fst (bucket_insert t b) = (t \<notin> B)" "bucket_ok (snd (bucket_insert t b)) (insert t B)"
proof -
  have v: "\<forall>x \<in> set t. valid x" using assms(2) by (simp add: row_ok_def)
  have "fst (bucket_insert t b) = (t \<notin> B) \<and> bucket_ok (snd (bucket_insert t b)) (insert t B)"
  proof (cases b)
    case BEmpty
    then show ?thesis using assms by (auto simp: bucket_ok_def strictly_def)
  next
    case (BOne e)
    then have e: "B = {e}" "\<forall>x \<in> set e. valid x" using assms(1) by (auto simp: bucket_ok_def row_ok_def)
    have "row_less e t" if "e \<noteq> t" "\<not> row_less t e"
      using that row_order.cmp_eq [OF v e(2)] row_order.cmp_flip [OF v e(2)] by (cases "slice_cmp val_cmp t e") auto
    then show ?thesis using BOne e assms by (auto simp: bucket_ok_def strictly_def)
  next
    case (BMany ts)
    have ts: "ascending ts" "set ts = B" "\<forall>s \<in> set ts. \<forall>x \<in> set s. valid x" "2 \<le> length ts" "rows_ok ts"
      using assms(1) BMany by (auto simp: bucket_ok_def row_ok_def)
    show ?thesis
    proof (cases "row_less (last ts) t")
      case True
      have below: "row_less s t" if s: "s \<in> set ts" for s
      proof -
        have "s = last ts \<or> row_less s (last ts)"
          using sorted_last [OF _ s] ts(1) by (simp add: strictly_def)
        moreover have "\<forall>x \<in> set (last ts). valid x" "\<forall>x \<in> set s. valid x" using ts(3,4) s last_in_set [of ts] by fastforce+
        ultimately show ?thesis using True row_order.cmp_trans [of s "last ts" t] v by blast
      qed
      have n: "t \<notin> set ts" using below row_order.cmp_eq [OF v v] by force
      then have "last ts \<noteq> t" using ts(4) last_in_set [of ts] by fastforce
      then show ?thesis using BMany True n ts assms(2) below by (auto simp: bucket_ok_def strictly_def sorted_wrt_append)
    next
      case False
      show ?thesis
      proof (cases "last ts = t")
        case True
        then have "t \<in> B" using ts(2,4) last_in_set [of ts] by fastforce
        then show ?thesis using True BMany assms(1) ts(4) by (auto simp: insert_absorb)
      next
        case last: False
        show ?thesis
        proof (cases "binary_search (slice_cmp val_cmp) t ts")
          case (Inl i)
          note m = row_order.search_missing [OF ts(1,3) v Inl]
          have "length (insert_at i t ts) = Suc (length ts)" by (simp add: insert_at_def)
          then show ?thesis using BMany Inl m ts False last assms(2) by (auto simp: bucket_ok_def)
        next
          case (Inr i)
          have "t \<in> B" using row_order.search_found [OF ts(1,3) v Inr] ts(2) by (metis nth_mem)
          then show ?thesis using BMany Inr False last assms(1) by (auto simp: insert_absorb)
        qed
      qed
    qed
  qed
  then show "fst (bucket_insert t b) = (t \<notin> B)" "bucket_ok (snd (bucket_insert t b)) (insert t B)" by simp_all
qed

lemma bucket_remove_ok:
  assumes "bucket_ok b B" "row_ok t"
  shows "fst (bucket_remove t b) = (t \<in> B)" "bucket_ok (snd (bucket_remove t b)) (B - {t})"
proof -
  have v: "\<forall>x \<in> set t. valid x" using assms(2) by (simp add: row_ok_def)
  have "fst (bucket_remove t b) = (t \<in> B) \<and> bucket_ok (snd (bucket_remove t b)) (B - {t})"
  proof (cases b)
    case (BMany ts)
    have ts: "ascending ts" "set ts = B" "\<forall>s \<in> set ts. \<forall>x \<in> set s. valid x" "2 \<le> length ts" "rows_ok ts"
      using assms(1) BMany by (auto simp: bucket_ok_def row_ok_def)
    show ?thesis
    proof (cases "binary_search (slice_cmp val_cmp) t ts")
      case (Inl i)
      then show ?thesis using BMany row_order.search_missing(1) [OF ts(1,3) v Inl] ts assms(1) by auto
    next
      case (Inr i)
      note f = row_order.search_found [OF ts(1,3) v Inr]
      have d: "distinct ts" by (rule row_order.strictly_distinct [OF ts(1,3)])
      have r: "set (remove_at i ts) = B - {t}" "ascending (remove_at i ts)"
        using set_remove_at [OF d f(1)] f(2) ts(1,2) by (simp_all add: strictly_def sorted_remove_at)
      have "t \<in> B" using f ts(2) by (metis nth_mem)
      have len: "length (remove_at i ts) = length ts - 1" using f(1) by (simp add: remove_at_def)
      let ?ts = "remove_at i ts"
      have ok: "\<forall>t \<in> B - {t}. row_ok t" using ts(2,5) by auto
      consider "length ?ts = 1" | "2 \<le> length ?ts" using len ts(4) by linarith
      then have "bucket_ok (if ?ts = [] then BEmpty else if length ?ts = 1 then BOne (last ?ts) else BMany ?ts) (B - {t})"
      proof cases
        case 1
        then obtain u where "?ts = [u]" by (auto simp: length_Suc_conv)
        then show ?thesis using r ok by (auto simp: bucket_ok_def strictly_def)
      next
        case 2
        then have "?ts \<noteq> []" "length ?ts \<noteq> 1" by auto
        then show ?thesis using r ok 2 by (simp add: bucket_ok_def)
      qed
      then show ?thesis using BMany Inr \<open>t \<in> B\<close> by (simp add: Let_def)
    qed
  qed (use assms in \<open>auto simp: bucket_ok_def strictly_def\<close>)
  then show "fst (bucket_remove t b) = (t \<in> B)" "bucket_ok (snd (bucket_remove t b)) (B - {t})" by simp_all
qed

section \<open>Stores\<close>

definition TUPLE_STORE_RADIX_THRESHOLD :: nat where "TUPLE_STORE_RADIX_THRESHOLD = 4096"

text \<open>The B-tree set of a small store is its elements in order.\<close>

datatype 'm tuple_store = SmallStore "tuple list" | RadixStore 'm usize

definition btree_contains :: "tuple \<Rightarrow> tuple list \<Rightarrow> bool" where
  "btree_contains t ts \<longleftrightarrow> (case binary_search (slice_cmp val_cmp) t ts of Inr _ \<Rightarrow> True | Inl _ \<Rightarrow> False)"

definition btree_insert :: "tuple \<Rightarrow> tuple list \<Rightarrow> bool \<times> tuple list" where
  "btree_insert t ts =
     (case binary_search (slice_cmp val_cmp) t ts of Inr _ \<Rightarrow> (False, ts) | Inl i \<Rightarrow> (True, insert_at i t ts))"

definition btree_remove :: "tuple \<Rightarrow> tuple list \<Rightarrow> bool \<times> tuple list" where
  "btree_remove t ts =
     (case binary_search (slice_cmp val_cmp) t ts of Inl _ \<Rightarrow> (False, ts) | Inr i \<Rightarrow> (True, remove_at i ts))"

definition store_empty :: "'m tuple_store" where
  "store_empty = SmallStore []"

fun fill_tree :: "('m, tuple) radix_ops \<Rightarrow> tuple list \<Rightarrow> 'm \<Rightarrow> 'm" where
  "fill_tree R [] m = m"
| "fill_tree R (t # ts) m = fill_tree R ts (snd (rx_insert R (key_from_values t) t m))"

definition store_from_sorted_unique :: "('m, tuple) radix_ops \<Rightarrow> tuple list \<Rightarrow> 'm tuple_store" where
  "store_from_sorted_unique R ts =
     (if length ts \<le> TUPLE_STORE_RADIX_THRESHOLD then SmallStore (fold (\<lambda>t acc. snd (btree_insert t acc)) ts [])
      else RadixStore (fill_tree R ts (rx_new R)) (length ts))"

fun store_len :: "'m tuple_store \<Rightarrow> usize" where
  "store_len (SmallStore ts) = length ts"
| "store_len (RadixStore m n) = n"

definition store_is_empty :: "'m tuple_store \<Rightarrow> bool" where
  "store_is_empty s \<longleftrightarrow> store_len s = 0"

fun store_contains :: "('m, tuple) radix_ops \<Rightarrow> 'm tuple_store \<Rightarrow> tuple \<Rightarrow> bool" where
  "store_contains R (SmallStore ts) t = btree_contains t ts"
| "store_contains R (RadixStore m n) t = (rx_get R m (key_from_values t) \<noteq> None)"

fun tuple_for_values :: "('m, tuple) radix_ops \<Rightarrow> 'm tuple_store \<Rightarrow> val list \<Rightarrow> tuple option" where
  "tuple_for_values R (SmallStore ts) vs =
     (case binary_search (slice_cmp val_cmp) vs ts of Inr i \<Rightarrow> Some (ts ! i) | Inl _ \<Rightarrow> None)"
| "tuple_for_values R (RadixStore m n) vs = rx_get R m (key_from_values vs)"

definition promote_to_radix :: "('m, tuple) radix_ops \<Rightarrow> tuple list \<Rightarrow> 'm tuple_store" where
  "promote_to_radix R ts = RadixStore (fill_tree R ts (rx_new R)) (length ts)"

fun store_insert :: "('m, tuple) radix_ops \<Rightarrow> tuple \<Rightarrow> 'm tuple_store \<Rightarrow> bool \<times> 'm tuple_store" where
  "store_insert R t (SmallStore ts) =
     (let (inserted, ts') = btree_insert t ts in
      (inserted, if inserted \<and> length ts' > TUPLE_STORE_RADIX_THRESHOLD then promote_to_radix R ts' else SmallStore ts'))"
| "store_insert R t (RadixStore m n) =
     (let (replaced, m') = rx_insert R (key_from_values t) t m in
      if replaced then (False, RadixStore m' n) else (True, RadixStore m' (n + 1)))"

fun store_remove :: "('m, tuple) radix_ops \<Rightarrow> tuple \<Rightarrow> 'm tuple_store \<Rightarrow> bool \<times> 'm tuple_store" where
  "store_remove R t (SmallStore ts) = (let (removed, ts') = btree_remove t ts in (removed, SmallStore ts'))"
| "store_remove R t (RadixStore m n) =
     (let (removed, m') = rx_delete R (key_from_values t) m in
      if removed then (True, RadixStore m' (n - 1)) else (False, RadixStore m' n))"

fun all_tuples :: "('m, tuple) radix_ops \<Rightarrow> 'm tuple_store \<Rightarrow> tuple list" where
  "all_tuples R (SmallStore ts) = ts"
| "all_tuples R (RadixStore m n) = rx_values R m"

definition store_matching :: "('m, tuple) radix_ops \<Rightarrow> 'm tuple_store \<Rightarrow> val option list \<Rightarrow> tuple list" where
  "store_matching R s bindings =
     (if \<forall>b \<in> set bindings. b = None then all_tuples R s
      else filter (\<lambda>t. matches_bindings t bindings) (all_tuples R s))"

definition natural_prefix_covers_all_bindings :: "val option list \<Rightarrow> nat \<Rightarrow> bool" where
  "natural_prefix_covers_all_bindings bindings bound_count \<longleftrightarrow> (\<forall>b \<in> set (drop bound_count bindings). b = None)"

text \<open>The tuples a prefix visit sees; \<open>None\<close>: an unbound position in the prefix.\<close>

fun store_visit_prefix ::
  "('m, tuple) radix_ops \<Rightarrow> 'm tuple_store \<Rightarrow> val option list \<Rightarrow> nat \<Rightarrow> tuple list option" where
  "store_visit_prefix R (SmallStore ts) bindings bound_count = Some (store_matching R (SmallStore ts) bindings)"
| "store_visit_prefix R (RadixStore m n) bindings bound_count =
     (if None \<in> set (take bound_count bindings) then None
      else
        let rows = rx_prefix_values R (key_from_values (map the (take bound_count bindings))) m in
        Some (if natural_prefix_covers_all_bindings bindings bound_count then rows
              else filter (\<lambda>t. matches_bindings t bindings) rows))"

text \<open>The pairs of equal tuples of two stores.\<close>

fun store_row_pairs :: "('m, tuple) radix_ops \<Rightarrow> 'm tuple_store \<Rightarrow> 'm tuple_store \<Rightarrow> (tuple \<times> tuple) list" where
  "store_row_pairs R (SmallStore ls) (SmallStore rs) = map (\<lambda>t. (t, t)) (filter (\<lambda>t. btree_contains t rs) ls)"
| "store_row_pairs R (SmallStore ls) (RadixStore m n) =
     List.map_filter (\<lambda>l. map_option (\<lambda>r. (l, r)) (rx_get R m (key_from_values l))) ls"
| "store_row_pairs R (RadixStore m n) (SmallStore rs) =
     List.map_filter (\<lambda>r. map_option (\<lambda>l. (l, r)) (rx_get R m (key_from_values r))) rs"
| "store_row_pairs R (RadixStore m n) (RadixStore m' n') = rx_intersect R m m'"

section \<open>A store is a set of tuples\<close>

definition same :: "tuple set \<Rightarrow> tuple \<Rightarrow> tuple option" where
  "same A = (\<lambda>t. if t \<in> A then Some t else None)"

definition store_ok :: "('m, tuple) radix_ops \<Rightarrow> nat \<Rightarrow> 'm tuple_store \<Rightarrow> tuple set \<Rightarrow> bool" where
  "store_ok R n s A \<longleftrightarrow> A \<subseteq> rows_of n \<and>
     (case s of SmallStore ts \<Rightarrow> ascending ts \<and> set ts = A
      | RadixStore m len \<Rightarrow> keyed R n m (same A) \<and> finite A \<and> len = card A)"

lemma same_dom [simp]: "dom (same A) = A"
  by (auto simp: same_def split: if_splits)

lemma same_insert: "(same A)(t \<mapsto> t) = same (insert t A)"
  by (auto simp: same_def fun_eq_iff)

lemma same_remove: "(same A)(t := None) = same (A - {t})"
  by (auto simp: same_def fun_eq_iff)

lemma rows_of_valid: "A \<subseteq> rows_of n \<Longrightarrow> \<forall>s \<in> A. \<forall>x \<in> set s. valid x"
  by (auto simp: rows_of_def row_ok_def)

lemma btree_ok:
  assumes "ascending ts" "set ts \<subseteq> rows_of n" "t \<in> rows_of n"
  shows "btree_contains t ts = (t \<in> set ts)"
    "fst (btree_insert t ts) = (t \<notin> set ts)" "ascending (snd (btree_insert t ts))" "set (snd (btree_insert t ts)) = insert t (set ts)"
    "fst (btree_remove t ts) = (t \<in> set ts)" "ascending (snd (btree_remove t ts))" "set (snd (btree_remove t ts)) = set ts - {t}"
    "tuple_for_values R (SmallStore ts) t = same (set ts) t"
proof -
  have v: "\<forall>s \<in> set ts. \<forall>x \<in> set s. valid x" "\<forall>x \<in> set t. valid x"
    using rows_of_valid [OF assms(2)] assms(3) by (auto simp: rows_of_def row_ok_def)
  have d: "distinct ts" by (rule row_order.strictly_distinct [OF assms(1) v(1)])
  have all: "btree_contains t ts = (t \<in> set ts) \<and> fst (btree_insert t ts) = (t \<notin> set ts) \<and> ascending (snd (btree_insert t ts)) \<and>
    set (snd (btree_insert t ts)) = insert t (set ts) \<and> fst (btree_remove t ts) = (t \<in> set ts) \<and> ascending (snd (btree_remove t ts)) \<and>
    set (snd (btree_remove t ts)) = set ts - {t} \<and> tuple_for_values R (SmallStore ts) t = same (set ts) t"
  proof (cases "binary_search (slice_cmp val_cmp) t ts")
    case (Inl i)
    then show ?thesis using row_order.search_missing [OF assms(1) v Inl] assms(1)
      by (simp add: btree_contains_def btree_insert_def btree_remove_def same_def)
  next
    case (Inr i)
    note f = row_order.search_found [OF assms(1) v Inr]
    have "t \<in> set ts" using f by (metis nth_mem)
    then show ?thesis using Inr f set_remove_at [OF d f(1)] sorted_remove_at [of _ ts i] assms(1)
      by (auto simp: btree_contains_def btree_insert_def btree_remove_def same_def strictly_def insert_absorb)
  qed
  then show "btree_contains t ts = (t \<in> set ts)" "fst (btree_insert t ts) = (t \<notin> set ts)" "ascending (snd (btree_insert t ts))"
    "set (snd (btree_insert t ts)) = insert t (set ts)" "fst (btree_remove t ts) = (t \<in> set ts)" "ascending (snd (btree_remove t ts))"
    "set (snd (btree_remove t ts)) = set ts - {t}" "tuple_for_values R (SmallStore ts) t = same (set ts) t" by blast+
qed

lemma fill_tree_ok:
  assumes "radix_laws R"
  shows "keyed R n m (same A) \<Longrightarrow> set ts \<subseteq> rows_of n \<Longrightarrow> keyed R n (fill_tree R ts m) (same (A \<union> set ts))"
proof (induction ts arbitrary: m A)
  case (Cons t ts)
  have "keyed R n (snd (rx_insert R (key_from_values t) t m)) (same (insert t A))"
    using keyed_insert(2) [OF assms Cons.prems(1), of t t] Cons.prems(2) by (simp add: same_insert)
  from Cons.IH [OF this] show ?case using Cons.prems(2) by simp
qed simp

lemma ascending_card: "ascending ts \<Longrightarrow> set ts \<subseteq> rows_of n \<Longrightarrow> length ts = card (set ts)"
  using row_order.strictly_distinct [of ts] rows_of_valid [of "set ts" n] by (simp add: distinct_card)

lemma promote_ok:
  assumes "radix_laws R" "ascending ts" "set ts \<subseteq> rows_of n"
  shows "store_ok R n (promote_to_radix R ts) (set ts)"
proof -
  have "keyed R n (rx_new R) (same {})" using keyed_new [OF assms(1)] by (simp add: same_def)
  from fill_tree_ok [OF assms(1) this assms(3)] show ?thesis
    using assms ascending_card [OF assms(2,3)] by (simp add: store_ok_def promote_to_radix_def)
qed

lemma store_empty_ok [simp]: "store_ok R n store_empty {}"
  by (simp add: store_ok_def store_empty_def strictly_def)

lemma collect_sorted:
  assumes "ascending (acc @ ts)" "set (acc @ ts) \<subseteq> rows_of n"
  shows "fold (\<lambda>t acc. snd (btree_insert t acc)) ts acc = acc @ ts"
  using assms
proof (induction ts arbitrary: acc)
  case (Cons t ts)
  have a: "ascending acc" "set acc \<subseteq> rows_of n" "t \<in> rows_of n" "ascending (acc @ [t])"
    using Cons.prems by (auto simp: strictly_def sorted_wrt_append)
  note b = btree_ok [OF a(1-3)]
  have "snd (btree_insert t acc) = acc @ [t]"
    by (rule row_order.strictly_unique [OF b(3) a(4)]) (use b(4) a rows_of_valid [of "insert t (set acc)" n] in auto)
  then show ?case using Cons.IH [of "acc @ [t]"] Cons.prems by simp
qed simp

lemma store_from_sorted_ok:
  assumes "radix_laws R" "ascending ts" "set ts \<subseteq> rows_of n"
  shows "store_ok R n (store_from_sorted_unique R ts) (set ts)"
  using promote_ok [OF assms] collect_sorted [of "[]" ts n] assms
  by (auto simp: store_from_sorted_unique_def promote_to_radix_def store_ok_def)

lemma store_len_ok: "store_ok R n s A \<Longrightarrow> store_len s = card A" "store_ok R n s A \<Longrightarrow> finite A"
  using ascending_card by (auto simp: store_ok_def split: tuple_store.splits)

lemma store_contains_ok:
  assumes "store_ok R n s A" "t \<in> rows_of n"
  shows "store_contains R s t = (t \<in> A)" "tuple_for_values R s t = same A t"
proof -
  have "store_contains R s t = (t \<in> A) \<and> tuple_for_values R s t = same A t"
  proof (cases s)
    case (SmallStore ts)
    have "ascending ts" "set ts \<subseteq> rows_of n" "set ts = A" using assms(1) SmallStore by (auto simp: store_ok_def)
    then show ?thesis using SmallStore btree_ok(1,8) [of ts n t] assms(2) by simp
  next
    case (RadixStore m len)
    then have "rx_get R m (key_from_values t) = same A t" using assms keyed_get [of R n m "same A" t] by (simp add: store_ok_def)
    then show ?thesis using RadixStore by (simp add: same_def)
  qed
  then show "store_contains R s t = (t \<in> A)" "tuple_for_values R s t = same A t" by simp_all
qed

lemma store_insert_ok:
  assumes "radix_laws R" "store_ok R n s A" "t \<in> rows_of n"
  shows "fst (store_insert R t s) = (t \<notin> A)" "store_ok R n (snd (store_insert R t s)) (insert t A)"
proof -
  have A: "insert t A \<subseteq> rows_of n" using assms(2,3) by (simp add: store_ok_def)
  have "fst (store_insert R t s) = (t \<notin> A) \<and> store_ok R n (snd (store_insert R t s)) (insert t A)"
  proof (cases s)
    case (SmallStore ts)
    have ts: "ascending ts" "set ts \<subseteq> rows_of n" "set ts = A" using assms(2) SmallStore by (auto simp: store_ok_def)
    note b = btree_ok [OF ts(1,2) assms(3)]
    obtain i ts' where i: "btree_insert t ts = (i, ts')" by (cases "btree_insert t ts")
    have ts': "ascending ts'" "set ts' = insert t A" "i = (t \<notin> A)" using b(2-4) i ts(3) by simp_all
    then have "store_ok R n (promote_to_radix R ts') (insert t A)" using promote_ok [OF assms(1) ts'(1)] A by metis
    then show ?thesis using SmallStore i ts' A by (auto simp: store_ok_def)
  next
    case (RadixStore m len)
    have m: "keyed R n m (same A)" "finite A" "len = card A" using assms(2) RadixStore by (auto simp: store_ok_def)
    obtain r m' where i: "rx_insert R (key_from_values t) t m = (r, m')" by (cases "rx_insert R (key_from_values t) t m")
    have "r = (t \<in> A)" "keyed R n m' (same (insert t A))"
      using keyed_insert [OF assms(1) m(1) assms(3), of t] i by (simp_all add: same_insert) (simp add: same_def)
    then show ?thesis using RadixStore i m A by (auto simp: store_ok_def insert_absorb)
  qed
  then show "fst (store_insert R t s) = (t \<notin> A)" "store_ok R n (snd (store_insert R t s)) (insert t A)" by simp_all
qed

lemma store_remove_ok:
  assumes "radix_laws R" "store_ok R n s A" "t \<in> rows_of n"
  shows "fst (store_remove R t s) = (t \<in> A)" "store_ok R n (snd (store_remove R t s)) (A - {t})"
proof -
  have A: "A - {t} \<subseteq> rows_of n" using assms(2) by (auto simp: store_ok_def)
  have "fst (store_remove R t s) = (t \<in> A) \<and> store_ok R n (snd (store_remove R t s)) (A - {t})"
  proof (cases s)
    case (SmallStore ts)
    have ts: "ascending ts" "set ts \<subseteq> rows_of n" "set ts = A" using assms(2) SmallStore by (auto simp: store_ok_def)
    note b = btree_ok [OF ts(1,2) assms(3)]
    show ?thesis using SmallStore b(5-7) ts(3) A by (cases "btree_remove t ts") (auto simp: store_ok_def)
  next
    case (RadixStore m len)
    have m: "keyed R n m (same A)" "finite A" "len = card A" using assms(2) RadixStore by (auto simp: store_ok_def)
    obtain r m' where i: "rx_delete R (key_from_values t) m = (r, m')" by (cases "rx_delete R (key_from_values t) m")
    have "r = (t \<in> A)" "keyed R n m' (same (A - {t}))"
      using keyed_delete [OF assms(1) m(1) assms(3)] i by (simp_all add: same_remove) (simp add: same_def)
    then show ?thesis using RadixStore i m A by (auto simp: store_ok_def)
  qed
  then show "fst (store_remove R t s) = (t \<in> A)" "store_ok R n (snd (store_remove R t s)) (A - {t})" by simp_all
qed

text \<open>Iteration and scans, in tuple order.\<close>

lemma all_tuples_ok:
  assumes "radix_laws R" "store_ok R n s A"
  shows "ascending (all_tuples R s)" "set (all_tuples R s) = A"
proof -
  have "ascending (all_tuples R s) \<and> set (all_tuples R s) = A"
  proof (cases s)
    case (RadixStore m len)
    then have k: "keyed R n m (same A)" using assms(2) by (simp add: store_ok_def)
    obtain rows where r: "ascending rows" "set rows = dom (same A)" "rx_values R m = map (\<lambda>t. the (same A t)) rows"
      by (rule keyed_iter [OF assms(1) k]) (rule that)
    have "map (\<lambda>t. the (same A t)) rows = rows" using r(2) by (intro map_idI) (auto simp: same_def)
    then show ?thesis using RadixStore r by simp
  qed (use assms(2) in \<open>auto simp: store_ok_def\<close>)
  then show "ascending (all_tuples R s)" "set (all_tuples R s) = A" by simp_all
qed

lemma matches_none: "\<forall>b \<in> set bindings. b = None \<Longrightarrow> matches_bindings t bindings"
  unfolding matches_bindings_def by (metis nth_mem option.simps(4))

lemma store_matching_eq: "store_matching R s bindings = filter (\<lambda>t. matches_bindings t bindings) (all_tuples R s)"
  by (simp add: store_matching_def matches_none)

lemma matches_prefix:
  assumes "None \<notin> set (take k bindings)" "length bindings = length t" "matches_bindings t bindings"
  shows "take k t = map the (take k bindings)"
proof (rule nth_equalityI)
  fix i assume "i < length (take k t)"
  then have i: "i < length bindings" "i < k" using assms(2) by simp_all
  then have "bindings ! i \<in> set (take k bindings)" by (metis length_take min_less_iff_conj nth_mem nth_take)
  then have "bindings ! i \<noteq> None" using assms(1) by metis
  then obtain v where "bindings ! i = Some v" by blast
  then show "take k t ! i = map the (take k bindings) ! i" using assms(2,3) i by (force simp: matches_bindings_def)
qed (use assms(2) in simp)

lemma prefix_matches:
  assumes "None \<notin> set (take k bindings)" "length bindings = length t" "take k t = map the (take k bindings)"
    and "natural_prefix_covers_all_bindings bindings k"
  shows "matches_bindings t bindings"
  unfolding matches_bindings_def
proof (intro allI impI)
  fix i assume i: "i < length bindings"
  show "case bindings ! i of None \<Rightarrow> True | Some v \<Rightarrow> t ! i = v"
  proof (cases "i < k")
    case True
    then have "t ! i = the (bindings ! i)" using assms(2,3) i by (metis length_take min_less_iff_conj nth_map nth_take)
    then show ?thesis by (cases "bindings ! i") auto
  next
    case False
    then have "drop k bindings ! (i - k) = bindings ! i" "i - k < length (drop k bindings)" using i by simp_all
    then have "bindings ! i \<in> set (drop k bindings)" by (metis nth_mem)
    then show ?thesis using assms(4) by (auto simp: natural_prefix_covers_all_bindings_def)
  qed
qed

lemma store_visit_prefix_ok:
  assumes "radix_laws R" "store_ok R n s A" "length bindings = n" "None \<notin> set (take k bindings)"
    and "\<forall>v. Some v \<in> set bindings \<longrightarrow> valid v"
  shows "store_visit_prefix R s bindings k = Some (filter (\<lambda>t. matches_bindings t bindings) (all_tuples R s))"
proof (cases s)
  case (SmallStore ts)
  then show ?thesis by (simp add: store_matching_eq)
next
  case (RadixStore m len)
  let ?p = "map the (take k bindings)"
  have k: "keyed R n m (same A)" and A: "A \<subseteq> rows_of n" using assms(2) RadixStore by (simp_all add: store_ok_def)
  obtain rows where r: "ascending rows" "set rows = dom (same A)" "rx_values R m = map (\<lambda>t. the (same A t)) rows"
    "\<And>p. row_ok p \<Longrightarrow> length p \<le> n \<Longrightarrow>
       rx_prefix_values R (key_from_values p) m = map (\<lambda>t. the (same A t)) (filter (\<lambda>t. take (length p) t = p) rows)"
    by (rule keyed_iter [OF assms(1) k]) (rule that)
  have id: "map (\<lambda>t. the (same A t)) xs = xs" if "set xs \<subseteq> A" for xs using that by (intro map_idI) (auto simp: same_def)
  have all: "all_tuples R s = rows" using RadixStore r(2,3) id by simp
  have "valid (the b)" if b: "b \<in> set (take k bindings)" for b
  proof (cases b)
    case (Some v)
    then show ?thesis using assms(5) b by (metis in_set_takeD option.sel)
  qed (use assms(4) b in simp)
  then have p: "row_ok ?p" "length ?p \<le> n" using assms(3) by (auto simp: row_ok_def)
  have len: "length t = n" if "t \<in> set rows" for t using that r(2) A by (auto simp: rows_of_def)
  have pv: "rx_prefix_values R (key_from_values ?p) m = filter (\<lambda>t. take k t = ?p) rows"
  proof -
    have "take (length ?p) t = take k t" if "t \<in> set rows" for t using len [OF that] assms(3) by (simp add: min_def)
    then have "filter (\<lambda>t. take (length ?p) t = ?p) rows = filter (\<lambda>t. take k t = ?p) rows" by (intro filter_cong) auto
    then show ?thesis using r(4) [OF p] id r(2) by simp
  qed
  have cut: "filter (\<lambda>t. matches_bindings t bindings) (filter (\<lambda>t. take k t = ?p) rows) = filter (\<lambda>t. matches_bindings t bindings) rows"
    unfolding filter_filter by (intro filter_cong) (use matches_prefix [OF assms(4)] len assms(3) in auto)
  have whole: "filter (\<lambda>t. take k t = ?p) rows = filter (\<lambda>t. matches_bindings t bindings) rows"
    if "natural_prefix_covers_all_bindings bindings k"
    by (intro filter_cong) (use matches_prefix [OF assms(4)] prefix_matches [OF assms(4) _ _ that] len assms(3) in auto)
  show ?thesis using assms(4) pv cut whole all RadixStore by (simp add: Let_def)
qed

end
