(* ===== verification/TupleIndex.thy ===== *)
theory TupleIndex
  imports TupleStore
begin

text \<open>
  Secondary indexes: \<open>index/tuple_index.rs\<close>. An index maps the projection of a tuple on the index positions
  to the bucket of the tuples with that projection. The estimates of the query planner are floating
  point and are not modelled; the counters they use are.
\<close>

section \<open>The index\<close>

record 'n tuple_index =
  ix_positions :: "nat list"
  ix_unique_keys :: bool
  ix_entries :: 'n
  ix_tuple_count :: usize
  ix_distinct_key_count :: usize
  ix_max_bucket_size :: usize

definition index_empty :: "('n, tuple_bucket) radix_ops \<Rightarrow> nat list \<Rightarrow> nat \<Rightarrow> 'n tuple_index" where
  "index_empty R positions arity =
     \<lparr>ix_positions = positions, ix_unique_keys = (length positions = arity), ix_entries = rx_new R,
      ix_tuple_count = 0, ix_distinct_key_count = 0, ix_max_bucket_size = 0\<rparr>"

definition tuple_key :: "'n tuple_index \<Rightarrow> tuple \<Rightarrow> bytes" where
  "tuple_key ix t = key_from_values (select t (ix_positions ix))"

text \<open>Runs of equal keys in a sorted list of keyed rows.\<close>

function key_runs :: "(bytes \<times> tuple) list \<Rightarrow> (bytes \<times> tuple list) list" where
  "key_runs [] = []"
| "key_runs ((k, t) # rows) =
     (k, t # map snd (takeWhile (\<lambda>e. fst e = k) rows)) # key_runs (dropWhile (\<lambda>e. fst e = k) rows)"
  by pat_completeness auto
termination by (relation "measure length") (simp_all add: length_dropWhile_le le_imp_less_Suc)

definition keyed_cmp :: "bytes \<times> tuple \<Rightarrow> bytes \<times> tuple \<Rightarrow> ordering" where
  "keyed_cmp a b = then_cmp (slice_cmp cmp_lin (fst a) (fst b)) (slice_cmp val_cmp (snd a) (snd b))"

fun in_order :: "bytes list \<Rightarrow> bool" where
  "in_order (a # b # ks) = (slice_cmp cmp_lin a b \<noteq> OGreater \<and> in_order (b # ks))"
| "in_order _ = True"

definition add_run :: "('n, tuple_bucket) radix_ops \<Rightarrow> bytes \<times> tuple list \<Rightarrow> 'n tuple_index \<Rightarrow> 'n tuple_index" where
  "add_run R run ix = ix\<lparr>ix_entries := snd (rx_insert R (fst run) (bucket_from_sorted_unique (snd run)) (ix_entries ix)),
     ix_distinct_key_count := ix_distinct_key_count ix + 1,
     ix_max_bucket_size := max (ix_max_bucket_size ix) (length (snd run))\<rparr>"

definition from_sorted_unique_rows :: "('n, tuple_bucket) radix_ops \<Rightarrow> nat list \<Rightarrow> nat \<Rightarrow> tuple list \<Rightarrow> 'n tuple_index" where
  "from_sorted_unique_rows R positions arity rows =
     (let ix = index_empty R positions arity in
      if rows = [] then ix
      else if ix_unique_keys ix then
        ix\<lparr>ix_entries := fold (\<lambda>t m. snd (rx_insert R (tuple_key ix t) (bucket_one t) m)) rows (ix_entries ix),
           ix_tuple_count := length rows, ix_distinct_key_count := length rows, ix_max_bucket_size := 1\<rparr>
      else
        let keyed_rows = map (\<lambda>t. (tuple_key ix t, t)) rows;
            ordered = (if in_order (map fst keyed_rows) then keyed_rows else sort_by keyed_cmp keyed_rows)
        in (fold (add_run R) (key_runs ordered) ix)\<lparr>ix_tuple_count := length rows\<rparr>)"

definition record_insert :: "usize \<Rightarrow> 'n tuple_index \<Rightarrow> 'n tuple_index" where
  "record_insert previous ix = ix\<lparr>ix_tuple_count := ix_tuple_count ix + 1,
     ix_distinct_key_count := (if previous = 0 then ix_distinct_key_count ix + 1 else ix_distinct_key_count ix),
     ix_max_bucket_size := max (ix_max_bucket_size ix) (previous + 1)\<rparr>"

definition record_remove :: "usize \<Rightarrow> 'n tuple_index \<Rightarrow> 'n tuple_index" where
  "record_remove previous ix = ix\<lparr>ix_tuple_count := ix_tuple_count ix - 1,
     ix_distinct_key_count := (if previous = 1 then ix_distinct_key_count ix - 1 else ix_distinct_key_count ix),
     ix_max_bucket_size := (if ix_tuple_count ix - 1 = 0 then 0 else ix_max_bucket_size ix)\<rparr>"

definition bucket_size :: "('n, tuple_bucket) radix_ops \<Rightarrow> 'n tuple_index \<Rightarrow> bytes \<Rightarrow> usize" where
  "bucket_size R ix k = (case rx_get R (ix_entries ix) k of None \<Rightarrow> 0 | Some b \<Rightarrow> bucket_len b)"

definition insert_slot :: "tuple \<Rightarrow> tuple_bucket option \<Rightarrow> tuple_bucket option" where
  "insert_slot t slot = Some (case slot of None \<Rightarrow> bucket_one t | Some b \<Rightarrow> snd (bucket_insert t b))"

definition remove_slot :: "tuple \<Rightarrow> tuple_bucket option \<Rightarrow> tuple_bucket option" where
  "remove_slot t slot = (case slot of
      None \<Rightarrow> None
    | Some b \<Rightarrow> let b' = snd (bucket_remove t b) in if bucket_is_empty b' then None else Some b')"

definition index_insert :: "('n, tuple_bucket) radix_ops \<Rightarrow> tuple \<Rightarrow> 'n tuple_index \<Rightarrow> 'n tuple_index" where
  "index_insert R t ix =
     (let k = tuple_key ix t; previous = bucket_size R ix k in
      if ix_unique_keys ix
      then record_insert previous (ix\<lparr>ix_entries := snd (rx_insert R k (bucket_one t) (ix_entries ix))\<rparr>)
      else record_insert previous (ix\<lparr>ix_entries := rx_update R k (insert_slot t) (ix_entries ix)\<rparr>))"

definition index_remove :: "('n, tuple_bucket) radix_ops \<Rightarrow> tuple \<Rightarrow> 'n tuple_index \<Rightarrow> 'n tuple_index" where
  "index_remove R t ix =
     (let k = tuple_key ix t; previous = bucket_size R ix k in
      if ix_unique_keys ix
      then record_remove previous (ix\<lparr>ix_entries := snd (rx_delete R k (ix_entries ix))\<rparr>)
      else record_remove previous (ix\<lparr>ix_entries := rx_update R k (remove_slot t) (ix_entries ix)\<rparr>))"

definition prefix_covers_all_bindings :: "'n tuple_index \<Rightarrow> val option list \<Rightarrow> nat \<Rightarrow> bool" where
  "prefix_covers_all_bindings ix bindings bound_count \<longleftrightarrow>
     (\<forall>p < length bindings. bindings ! p = None \<or> p \<in> set (take bound_count (ix_positions ix)))"

definition binding_prefix_key :: "'n tuple_index \<Rightarrow> val option list \<Rightarrow> nat \<Rightarrow> bytes" where
  "binding_prefix_key ix bindings bound_count =
     key_from_values (List.map_filter (\<lambda>p. bindings ! p) (take bound_count (ix_positions ix)))"

definition index_visit_prefix ::
  "('n, tuple_bucket) radix_ops \<Rightarrow> 'n tuple_index \<Rightarrow> val option list \<Rightarrow> nat \<Rightarrow> tuple list" where
  "index_visit_prefix R ix bindings bound_count =
     (let rows = concat (map bucket_rows (rx_prefix_values R (binding_prefix_key ix bindings bound_count) (ix_entries ix))) in
      if prefix_covers_all_bindings ix bindings bound_count then rows
      else filter (\<lambda>t. matches_bindings t bindings) rows)"

definition tuple_for_key_values :: "('n, tuple_bucket) radix_ops \<Rightarrow> 'n tuple_index \<Rightarrow> val list \<Rightarrow> tuple option" where
  "tuple_for_key_values R ix vs =
     (case rx_get R (ix_entries ix) (key_from_values vs) of None \<Rightarrow> None | Some b \<Rightarrow> bucket_first b)"

definition tuple_for_key_tuple :: "('n, tuple_bucket) radix_ops \<Rightarrow> 'n tuple_index \<Rightarrow> tuple \<Rightarrow> tuple option" where
  "tuple_for_key_tuple R ix t =
     (case rx_get R (ix_entries ix) (tuple_key ix t) of None \<Rightarrow> None | Some b \<Rightarrow> bucket_first b)"

definition index_row_pairs ::
  "('n, tuple_bucket) radix_ops \<Rightarrow> 'n tuple_index \<Rightarrow> 'n tuple_index \<Rightarrow> val option list \<Rightarrow> val option list \<Rightarrow> (tuple \<times> tuple) list" where
  "index_row_pairs R left right left_bindings right_bindings =
     concat (map (\<lambda>(lb, rb).
       concat (map (\<lambda>l. map (\<lambda>r. (l, r)) (filter (\<lambda>r. matches_bindings r right_bindings) (bucket_rows rb)))
         (filter (\<lambda>l. matches_bindings l left_bindings) (bucket_rows lb))))
       (rx_intersect R (ix_entries left) (ix_entries right)))"

section \<open>What an index holds\<close>

definition sharing :: "tuple set \<Rightarrow> nat list \<Rightarrow> val list \<Rightarrow> tuple set" where
  "sharing A ps q = {t \<in> A. select t ps = q}"

definition bucket_for :: "tuple set \<Rightarrow> nat list \<Rightarrow> val list \<Rightarrow> tuple_bucket option \<Rightarrow> bool" where
  "bucket_for A ps q slot = (case slot of None \<Rightarrow> sharing A ps q = {} | Some b \<Rightarrow> sharing A ps q \<noteq> {} \<and> bucket_ok b (sharing A ps q))"

definition buckets :: "tuple set \<Rightarrow> nat list \<Rightarrow> (val list \<Rightarrow> tuple_bucket option) \<Rightarrow> bool" where
  "buckets A ps g \<longleftrightarrow> (\<forall>q. bucket_for A ps q (g q))"

definition positions_ok :: "nat \<Rightarrow> nat list \<Rightarrow> bool" where
  "positions_ok n ps \<longleftrightarrow> (\<forall>p \<in> set ps. p < n) \<and> (length ps = n \<longrightarrow> distinct ps)"

definition index_ok :: "('n, tuple_bucket) radix_ops \<Rightarrow> nat \<Rightarrow> 'n tuple_index \<Rightarrow> tuple set \<Rightarrow> bool" where
  "index_ok R n ix A \<longleftrightarrow> positions_ok n (ix_positions ix) \<and> ix_unique_keys ix = (length (ix_positions ix) = n) \<and>
     A \<subseteq> rows_of n \<and> finite A \<and>
     (\<exists>g. keyed R (length (ix_positions ix)) (ix_entries ix) g \<and> buckets A (ix_positions ix) g) \<and>
     ix_tuple_count ix = card A \<and> ix_distinct_key_count ix = card ((\<lambda>t. select t (ix_positions ix)) ` A) \<and>
     (\<forall>q. card (sharing A (ix_positions ix) q) \<le> ix_max_bucket_size ix)"

lemma length_select [simp]: "length (select t ps) = length ps"
  by (simp add: select_def)

lemma select_rows: "positions_ok n ps \<Longrightarrow> t \<in> rows_of n \<Longrightarrow> select t ps \<in> rows_of (length ps)"
  by (auto simp: positions_ok_def rows_of_def row_ok_def select_def)

text \<open>A full-width index projects injectively: its positions are a permutation.\<close>

lemma select_inject:
  assumes "positions_ok n ps" "length ps = n" "s \<in> rows_of n" "t \<in> rows_of n" "select s ps = select t ps"
  shows "s = t"
proof (rule nth_equalityI)
  show "length s = length t" using assms(3,4) by (simp add: rows_of_def)
  fix i assume i: "i < length s"
  have "set ps \<subseteq> {..< n}" "distinct ps" using assms(1,2) by (auto simp: positions_ok_def)
  then have "set ps = {..< n}" using assms(2) by (metis card_lessThan card_subset_eq distinct_card finite_lessThan)
  then have "i \<in> set ps" using i assms(3) by (simp add: rows_of_def)
  then show "s ! i = t ! i" using assms(5) by (auto simp: select_def)
qed

lemma sharing_unique:
  assumes "positions_ok n ps" "length ps = n" "A \<subseteq> rows_of n" "t \<in> rows_of n"
  shows "sharing A ps (select t ps) = A \<inter> {t}"
  using select_inject [OF assms(1,2)] assms(3,4) by (auto simp: sharing_def)

lemma bucketsD:
  assumes "buckets A ps g"
  shows "g q = None \<Longrightarrow> sharing A ps q = {}" "g q = Some b \<Longrightarrow> sharing A ps q \<noteq> {} \<and> bucket_ok b (sharing A ps q)"
proof -
  have "bucket_for A ps q (g q)" using assms by (simp add: buckets_def)
  then show "g q = None \<Longrightarrow> sharing A ps q = {}" "g q = Some b \<Longrightarrow> sharing A ps q \<noteq> {} \<and> bucket_ok b (sharing A ps q)"
    by (simp_all add: bucket_for_def)
qed

lemma buckets_update:
  assumes "buckets A ps g" "\<And>q. q \<noteq> q0 \<Longrightarrow> sharing A' ps q = sharing A ps q" "bucket_for A' ps q0 v"
  shows "buckets A' ps (g(q0 := v))"
proof -
  have "bucket_for A' ps q ((g(q0 := v)) q)" for q
  proof (cases "q = q0")
    case False
    have "bucket_for A ps q (g q)" using assms(1) by (simp add: buckets_def)
    then show ?thesis using False assms(2) [OF False] by (cases "g q") (simp_all add: bucket_for_def)
  qed (use assms(3) in simp)
  then show ?thesis by (simp add: buckets_def)
qed

lemma sharing_insert: "sharing (insert t A) ps q = (if q = select t ps then insert t (sharing A ps q) else sharing A ps q)"
  by (auto simp: sharing_def)

lemma sharing_remove: "sharing (A - {t}) ps q = (if q = select t ps then sharing A ps q - {t} else sharing A ps q)"
  by (auto simp: sharing_def)

lemma index_empty_ok:
  assumes "radix_laws R" "positions_ok n ps"
  shows "index_ok R n (index_empty R ps n) {}"
  using assms keyed_new [OF assms(1)]
  by (auto simp: index_ok_def index_empty_def buckets_def bucket_for_def sharing_def intro!: exI [of _ Map.empty])

text \<open>Every operation keeps what the index holds in step with the set of tuples.\<close>

lemma bucket_size_ok:
  assumes "keyed R (length (ix_positions ix)) (ix_entries ix) g" "buckets A (ix_positions ix) g" "select t (ix_positions ix) \<in> rows_of (length (ix_positions ix))"
  shows "bucket_size R ix (tuple_key ix t) = card (sharing A (ix_positions ix) (select t (ix_positions ix)))"
  using keyed_get [OF assms(1,3)] bucketsD [OF assms(2), of "select t (ix_positions ix)"] bucket_len_card
  by (auto simp: bucket_size_def tuple_key_def split: option.splits)

lemma card_keys_insert:
  assumes "finite A"
  shows "card ((\<lambda>t. select t ps) ` insert t A) =
    (if sharing A ps (select t ps) = {} then card ((\<lambda>t. select t ps) ` A) + 1 else card ((\<lambda>t. select t ps) ` A))"
proof -
  have "sharing A ps (select t ps) = {} \<longleftrightarrow> select t ps \<notin> (\<lambda>t. select t ps) ` A"
    by (force simp: sharing_def image_iff)
  then show ?thesis using assms by (simp add: card_insert_if)
qed

lemma card_keys_remove:
  assumes "finite A" "t \<in> A"
  shows "card ((\<lambda>t. select t ps) ` (A - {t})) =
    (if card (sharing A ps (select t ps)) = 1 then card ((\<lambda>t. select t ps) ` A) - 1 else card ((\<lambda>t. select t ps) ` A))"
proof (cases "card (sharing A ps (select t ps)) = 1")
  case True
  have "t \<in> sharing A ps (select t ps)" using assms(2) by (simp add: sharing_def)
  moreover obtain u where "sharing A ps (select t ps) = {u}" using True by (rule card_1_singletonE)
  ultimately have one: "sharing A ps (select t ps) = {t}" by (metis singletonD)
  then have "\<forall>s \<in> A. select s ps = select t ps \<longrightarrow> s = t" unfolding sharing_def by blast
  then have "q \<in> (\<lambda>t. select t ps) ` (A - {t}) \<longleftrightarrow> q \<in> (\<lambda>t. select t ps) ` A - {select t ps}" for q
    using assms(2) by (auto simp: image_iff)
  then have "(\<lambda>t. select t ps) ` (A - {t}) = (\<lambda>t. select t ps) ` A - {select t ps}" by (rule set_eqI)
  then show ?thesis using True assms by simp
next
  case False
  have fin: "finite (sharing A ps (select t ps))" "t \<in> sharing A ps (select t ps)" using assms by (auto simp: sharing_def)
  have "sharing A ps (select t ps) \<noteq> {t}" using False by (metis is_singletonI is_singleton_altdef)
  then obtain s where "s \<in> sharing A ps (select t ps)" "s \<noteq> t" using fin(2) by blast
  then have "s \<in> A - {t}" "select t ps = select s ps" by (auto simp: sharing_def)
  then have "(\<lambda>t. select t ps) ` (A - {t}) = (\<lambda>t. select t ps) ` A" by blast
  then show ?thesis using False by simp
qed

lemma index_insert_ok:
  assumes "radix_laws R" "index_ok R n ix A" "t \<in> rows_of n" "t \<notin> A"
  shows "index_ok R n (index_insert R t ix) (insert t A)" "ix_positions (index_insert R t ix) = ix_positions ix"
proof -
  let ?ps = "ix_positions ix"
  let ?q = "select t ?ps"
  obtain g where ix: "positions_ok n ?ps" "ix_unique_keys ix = (length ?ps = n)" "A \<subseteq> rows_of n" "finite A"
    "keyed R (length ?ps) (ix_entries ix) g" "buckets A ?ps g"
    and counts: "ix_tuple_count ix = card A" "ix_distinct_key_count ix = card ((\<lambda>t. select t ?ps) ` A)"
      "\<And>q. card (sharing A ?ps q) \<le> ix_max_bucket_size ix"
    using assms(2) by (auto simp: index_ok_def)
  have q: "?q \<in> rows_of (length ?ps)" by (rule select_rows [OF ix(1) assms(3)])
  have ok: "row_ok t" using assms(3) by (simp add: rows_of_def)
  have other: "\<And>q. q \<noteq> ?q \<Longrightarrow> sharing (insert t A) ?ps q = sharing A ?ps q" by (simp add: sharing_insert)
  define m where "m = (if ix_unique_keys ix then snd (rx_insert R (key_from_values ?q) (bucket_one t) (ix_entries ix))
      else rx_update R (key_from_values ?q) (insert_slot t) (ix_entries ix))"
  have m: "\<exists>g'. keyed R (length ?ps) m g' \<and> buckets (insert t A) ?ps g'"
  proof (cases "ix_unique_keys ix")
    case True
    then have none: "sharing A ?ps ?q = {}" using sharing_unique [OF ix(1) _ ix(3) assms(3)] ix(2) assms(4) by simp
    have "bucket_for (insert t A) ?ps ?q (Some (bucket_one t))"
      using none ok by (simp add: bucket_for_def sharing_insert bucket_ok_def bucket_one_def strictly_def)
    then show ?thesis using True keyed_insert(2) [OF assms(1) ix(5) q] buckets_update [OF ix(6) other] unfolding m_def by auto
  next
    case False
    have "bucket_for (insert t A) ?ps ?q (insert_slot t (g ?q))"
      using bucketsD [OF ix(6), of ?q] bucket_insert_ok(2) [OF _ ok] ok
      by (cases "g ?q") (auto simp: bucket_for_def sharing_insert insert_slot_def bucket_ok_def bucket_one_def strictly_def)
    then show ?thesis using False keyed_update [OF assms(1) ix(5) q] buckets_update [OF ix(6) other] unfolding m_def by auto
  qed
  have eq: "index_insert R t ix = record_insert (card (sharing A ?ps ?q)) (ix\<lparr>ix_entries := m\<rparr>)"
    using bucket_size_ok [OF ix(5,6) q] by (simp add: index_insert_def Let_def m_def tuple_key_def)
  have fin: "finite (sharing A ?ps q)" for q using ix(4) by (simp add: sharing_def)
  have "card (sharing (insert t A) ?ps q) \<le> max (ix_max_bucket_size ix) (card (sharing A ?ps ?q) + 1)" for q
  proof (cases "q = ?q")
    case True
    then show ?thesis using card_insert_le_m1 fin [of ?q] by (simp add: sharing_insert card_insert_if le_max_iff_disj)
  next
    case False
    then show ?thesis using counts(3) [of q] by (simp add: sharing_insert le_max_iff_disj)
  qed
  then show "index_ok R n (index_insert R t ix) (insert t A)"
    using ix(1-4) m assms(3,4) counts(1,2) card_keys_insert [OF ix(4), of ?ps t] fin [of ?q]
    unfolding eq by (simp add: index_ok_def record_insert_def card_eq_0_iff)
  show "ix_positions (index_insert R t ix) = ?ps" by (simp add: eq record_insert_def)
qed

lemma index_remove_ok:
  assumes "radix_laws R" "index_ok R n ix A" "t \<in> A"
  shows "index_ok R n (index_remove R t ix) (A - {t})" "ix_positions (index_remove R t ix) = ix_positions ix"
proof -
  let ?ps = "ix_positions ix"
  let ?q = "select t ?ps"
  obtain g where ix: "positions_ok n ?ps" "ix_unique_keys ix = (length ?ps = n)" "A \<subseteq> rows_of n" "finite A"
    "keyed R (length ?ps) (ix_entries ix) g" "buckets A ?ps g"
    and counts: "ix_tuple_count ix = card A" "ix_distinct_key_count ix = card ((\<lambda>t. select t ?ps) ` A)"
      "\<And>q. card (sharing A ?ps q) \<le> ix_max_bucket_size ix"
    using assms(2) by (auto simp: index_ok_def)
  have t: "t \<in> rows_of n" using ix(3) assms(3) by blast
  have q: "?q \<in> rows_of (length ?ps)" by (rule select_rows [OF ix(1) t])
  have ok: "row_ok t" using t by (simp add: rows_of_def)
  have other: "\<And>q. q \<noteq> ?q \<Longrightarrow> sharing (A - {t}) ?ps q = sharing A ?ps q" by (simp add: sharing_remove)
  define m where "m = (if ix_unique_keys ix then snd (rx_delete R (key_from_values ?q) (ix_entries ix))
      else rx_update R (key_from_values ?q) (remove_slot t) (ix_entries ix))"
  have m: "\<exists>g'. keyed R (length ?ps) m g' \<and> buckets (A - {t}) ?ps g'"
  proof (cases "ix_unique_keys ix")
    case True
    then have "sharing (A - {t}) ?ps ?q = {}" using sharing_unique [OF ix(1) _ ix(3) t] ix(2) by (simp add: sharing_remove)
    then have "bucket_for (A - {t}) ?ps ?q None" by (simp add: bucket_for_def)
    then show ?thesis using True keyed_delete(2) [OF assms(1) ix(5) q] buckets_update [OF ix(6) other] unfolding m_def by auto
  next
    case False
    have "bucket_for (A - {t}) ?ps ?q (remove_slot t (g ?q))"
    proof (cases "g ?q")
      case None
      then show ?thesis using bucketsD(1) [OF ix(6) None] by (simp add: bucket_for_def sharing_remove remove_slot_def)
    next
      case (Some b)
      note b = bucketsD(2) [OF ix(6) Some]
      have "bucket_ok (snd (bucket_remove t b)) (sharing (A - {t}) ?ps ?q)"
        using bucket_remove_ok(2) [OF _ ok] b by (simp add: sharing_remove)
      then show ?thesis using Some by (auto simp: bucket_for_def remove_slot_def bucket_is_empty_def Let_def)
    qed
    then show ?thesis using False keyed_update [OF assms(1) ix(5) q] buckets_update [OF ix(6) other] unfolding m_def by auto
  qed
  have eq: "index_remove R t ix = record_remove (card (sharing A ?ps ?q)) (ix\<lparr>ix_entries := m\<rparr>)"
    using bucket_size_ok [OF ix(5,6) q] by (simp add: index_remove_def Let_def m_def tuple_key_def)
  have fin: "finite (sharing A ?ps q)" for q using ix(4) by (simp add: sharing_def)
  have "card (sharing (A - {t}) ?ps q) \<le> ix_max_bucket_size ix" for q
    using counts(3) [of q] card_mono [OF fin [of q], of "sharing (A - {t}) ?ps q"] by (force simp: sharing_def)
  moreover have "card (sharing (A - {t}) ?ps q) = 0" if "card A - 1 = 0" for q
  proof -
    have "A = {t}" using that ix(4) assms(3) by (metis One_nat_def Suc_diff_1 card_1_singletonE card_gt_0_iff empty_iff singletonD)
    then show ?thesis by (simp add: sharing_def)
  qed
  moreover have "card (A - {t}) = card A - 1" using assms(3) by simp
  ultimately show "index_ok R n (index_remove R t ix) (A - {t})"
    using ix(1-4) m counts(1,2) card_keys_remove [OF ix(4) assms(3), of ?ps]
    unfolding eq by (auto simp: index_ok_def record_remove_def)
  show "ix_positions (index_remove R t ix) = ?ps" by (simp add: eq record_remove_def)
qed

section \<open>Index scans\<close>

text \<open>The order in which an index visits tuples: by projection, then by tuple.\<close>

definition index_less :: "nat list \<Rightarrow> tuple \<Rightarrow> tuple \<Rightarrow> bool" where
  "index_less ps a b \<longleftrightarrow> row_less (select a ps) (select b ps) \<or> (select a ps = select b ps \<and> row_less a b)"

definition bound_prefix :: "nat list \<Rightarrow> val option list \<Rightarrow> nat \<Rightarrow> bool" where
  "bound_prefix ps bindings k \<longleftrightarrow> k \<le> length ps \<and> (\<forall>p \<in> set (take k ps). p < length bindings \<and> bindings ! p \<noteq> None)"

lemma map_filter_bound:
  "\<forall>p \<in> set ps. f p \<noteq> None \<Longrightarrow> List.map_filter f ps = map (\<lambda>p. the (f p)) ps"
  by (induction ps) (auto simp: List.map_filter_def)

lemma matches_projection:
  assumes "bound_prefix ps bindings k" "matches_bindings t bindings"
  shows "take k (select t ps) = map (\<lambda>p. the (bindings ! p)) (take k ps)"
proof -
  have "t ! p = the (bindings ! p)" if "p \<in> set (take k ps)" for p
  proof -
    obtain v where "bindings ! p = Some v" "p < length bindings" using assms(1) \<open>p \<in> set (take k ps)\<close> by (auto simp: bound_prefix_def)
    then show ?thesis using assms(2) by (force simp: matches_bindings_def)
  qed
  then show ?thesis by (simp add: select_def take_map)
qed

lemma projection_matches:
  assumes "take k (select t ps) = map (\<lambda>p. the (bindings ! p)) (take k ps)"
    and "\<forall>p < length bindings. bindings ! p = None \<or> p \<in> set (take k ps)"
  shows "matches_bindings t bindings"
proof -
  have "t ! p = the (bindings ! p)" if "p \<in> set (take k ps)" for p
    using assms(1) that by (simp add: select_def take_map)
  then show ?thesis using assms(2) by (auto simp: matches_bindings_def split: option.splits)
qed

lemma concat_sorted:
  assumes "sorted_wrt P qs" "\<And>q. q \<in> set qs \<Longrightarrow> sorted_wrt L (h q)" "\<And>q r x y. q \<in> set qs \<Longrightarrow> r \<in> set qs \<Longrightarrow> P q r \<Longrightarrow> x \<in> set (h q) \<Longrightarrow> y \<in> set (h r) \<Longrightarrow> L x y"
  shows "sorted_wrt L (concat (map h qs))"
  using assms
proof (induction qs)
  case (Cons q qs)
  have "sorted_wrt L (concat (map h qs))"
  proof (rule Cons.IH)
    show "L x y" if "p \<in> set qs" "r \<in> set qs" "P p r" "x \<in> set (h p)" "y \<in> set (h r)" for p r x y
      using Cons.prems(3) [of p r x y] that by simp
  qed (use Cons.prems(1,2) in auto)
  moreover have "L x y" if "x \<in> set (h q)" "r \<in> set qs" "y \<in> set (h r)" for x y r
    by (rule Cons.prems(3) [of q r]) (use Cons.prems(1) that in auto)
  ultimately show ?case using Cons.prems(2) by (auto simp: sorted_wrt_append)
qed simp

lemma index_visit_ok:
  assumes "radix_laws R" "index_ok R n ix A" "length bindings = n" "bound_prefix (ix_positions ix) bindings k"
    and "\<forall>v. Some v \<in> set bindings \<longrightarrow> valid v"
  shows "set (index_visit_prefix R ix bindings k) = {t \<in> A. matches_bindings t bindings}"
    "sorted_wrt (index_less (ix_positions ix)) (index_visit_prefix R ix bindings k)"
    "k = length (ix_positions ix) \<Longrightarrow> ascending (index_visit_prefix R ix bindings k)"
proof -
  let ?ps = "ix_positions ix"
  let ?p = "map (\<lambda>p. the (bindings ! p)) (take k ?ps)"
  obtain g where ix: "positions_ok n ?ps" "A \<subseteq> rows_of n" "keyed R (length ?ps) (ix_entries ix) g" "buckets A ?ps g"
    using assms(2) by (auto simp: index_ok_def)
  have bp: "\<forall>p \<in> set (take k ?ps). p < length bindings \<and> bindings ! p \<noteq> None" "k \<le> length ?ps" using assms(4) by (auto simp: bound_prefix_def)
  have "valid (the (bindings ! p))" if "p \<in> set (take k ?ps)" for p
    using bp(1) that assms(5) by (metis nth_mem option.collapse)
  then have p: "row_ok ?p" "length ?p \<le> length ?ps" using bp(2) by (auto simp: row_ok_def)
  obtain qs where q0: "ascending qs" "set qs = dom g"
    "\<And>p. row_ok p \<Longrightarrow> length p \<le> length ?ps \<Longrightarrow>
       rx_prefix_values R (key_from_values p) (ix_entries ix) = map (\<lambda>q. the (g q)) (filter (\<lambda>q. take (length p) q = p) qs)"
    by (rule keyed_iter [OF assms(1) ix(3)]) (rule that)
  note q = q0(1,2) q0(3) [OF p]
  define fs where "fs = filter (\<lambda>q. take k q = ?p) qs"
  define rows where "rows = concat (map (\<lambda>q. bucket_rows (the (g q))) fs)"
  have "length ?p = k" using bp(2) by simp
  then have pv: "concat (map bucket_rows (rx_prefix_values R (binding_prefix_key ix bindings k) (ix_entries ix))) = rows"
    using q(3) map_filter_bound [of "take k ?ps" "\<lambda>p. bindings ! p"] bp(1)
    unfolding binding_prefix_key_def rows_def fs_def by (simp add: comp_def)
  have b: "set (bucket_rows (the (g q))) = sharing A ?ps q \<and> ascending (bucket_rows (the (g q)))" if qf: "q \<in> set fs" for q
  proof -
    obtain b where "g q = Some b" using qf q(2) by (auto simp: fs_def)
    then show ?thesis using bucketsD(2) [OF ix(4)] by (simp add: bucket_ok_def)
  qed
  have rows: "set rows = {t \<in> A. take k (select t ?ps) = ?p}"
  proof -
    have "sharing A ?ps q = {} \<or> q \<in> set qs" for q using bucketsD(1) [OF ix(4), of q] q(2) by (cases "g q") auto
    then have "t \<in> A \<Longrightarrow> select t ?ps \<in> set qs" for t by (force simp: sharing_def)
    moreover have "set rows = (\<Union>q \<in> set fs. sharing A ?ps q)" unfolding rows_def using b by auto
    ultimately show ?thesis by (auto simp: sharing_def fs_def)
  qed
  have sorted: "sorted_wrt (index_less ?ps) rows" unfolding rows_def
  proof (rule concat_sorted)
    show "sorted_wrt row_less fs" using q(1) by (simp add: fs_def strictly_def sorted_wrt_filter)
    show "sorted_wrt (index_less ?ps) (bucket_rows (the (g q)))" if "q \<in> set fs" for q
      by (rule sorted_wrt_mono_rel [of _ row_less]) (use b [OF that] in \<open>auto simp: index_less_def sharing_def strictly_def\<close>)
    show "index_less ?ps x y" if "q \<in> set fs" "r \<in> set fs" "row_less q r" "x \<in> set (bucket_rows (the (g q)))"
      "y \<in> set (bucket_rows (the (g r)))" for q r x y
      using that b by (auto simp: index_less_def sharing_def)
  qed
  have visit: "index_visit_prefix R ix bindings k =
      (if prefix_covers_all_bindings ix bindings k then rows else filter (\<lambda>t. matches_bindings t bindings) rows)"
    using pv by (simp add: index_visit_prefix_def Let_def)
  have cover: "matches_bindings t bindings \<longleftrightarrow> take k (select t ?ps) = ?p" if "prefix_covers_all_bindings ix bindings k" for t
    using matches_projection [OF assms(4)] projection_matches [of k t ?ps bindings] that unfolding prefix_covers_all_bindings_def by blast
  show "set (index_visit_prefix R ix bindings k) = {t \<in> A. matches_bindings t bindings}"
    unfolding visit using rows cover matches_projection [OF assms(4)] by (auto split: if_splits)
  show ordered: "sorted_wrt (index_less (ix_positions ix)) (index_visit_prefix R ix bindings k)"
    unfolding visit using sorted by (simp add: sorted_wrt_filter)
  show "ascending (index_visit_prefix R ix bindings k)" if full: "k = length (ix_positions ix)"
  proof -
    have "select t ?ps = ?p" if "t \<in> set (index_visit_prefix R ix bindings k)" for t
      using that rows full unfolding visit by (auto split: if_splits)
    then show ?thesis using ordered row_order.cmp_eq [of ?p ?p] p(1) unfolding strictly_def
      by (intro sorted_wrt_mono_rel [OF _ ordered]) (auto simp: index_less_def row_ok_def)
  qed
qed

section \<open>Lookups by key\<close>

definition finds :: "tuple set \<Rightarrow> nat list \<Rightarrow> val list \<Rightarrow> tuple option \<Rightarrow> bool" where
  "finds A ps q r = (case r of None \<Rightarrow> sharing A ps q = {} | Some u \<Rightarrow> u \<in> sharing A ps q)"

lemma bucket_first_ok: "bucket_ok b B \<Longrightarrow> B \<noteq> {} \<Longrightarrow> \<exists>u \<in> B. bucket_first b = Some u"
  by (cases b) (auto simp: bucket_ok_def bucket_first_def split: list.splits)

lemma tuple_for_key_ok:
  assumes "index_ok R n ix A"
  shows "q \<in> rows_of (length (ix_positions ix)) \<Longrightarrow> finds A (ix_positions ix) q (tuple_for_key_values R ix q)"
    "t \<in> rows_of n \<Longrightarrow> finds A (ix_positions ix) (select t (ix_positions ix)) (tuple_for_key_tuple R ix t)"
proof -
  obtain g where g: "keyed R (length (ix_positions ix)) (ix_entries ix) g" "buckets A (ix_positions ix) g"
    and ps: "positions_ok n (ix_positions ix)" using assms by (auto simp: index_ok_def)
  have *: "finds A (ix_positions ix) q (case g q of None \<Rightarrow> None | Some b \<Rightarrow> bucket_first b)" for q
    using bucketsD [OF g(2), of q] bucket_first_ok by (cases "g q") (force simp: finds_def)+
  show "q \<in> rows_of (length (ix_positions ix)) \<Longrightarrow> finds A (ix_positions ix) q (tuple_for_key_values R ix q)"
    using * [of q] keyed_get [OF g(1)] by (simp add: tuple_for_key_values_def)
  show "t \<in> rows_of n \<Longrightarrow> finds A (ix_positions ix) (select t (ix_positions ix)) (tuple_for_key_tuple R ix t)"
    using * [of "select t (ix_positions ix)"] keyed_get [OF g(1) select_rows [OF ps]] by (simp add: tuple_for_key_tuple_def tuple_key_def)
qed

section \<open>Bulk construction\<close>

interpretation byte_order: total_cmp "cmp_lin :: nat \<Rightarrow> nat \<Rightarrow> ordering" "\<lambda>_. True"
  by unfold_locales (auto simp: cmp_lin_def split: if_splits)

interpretation bytes_order: total_cmp "slice_cmp cmp_lin :: bytes \<Rightarrow> bytes \<Rightarrow> ordering" "\<lambda>_. True"
  by unfold_locales (use byte_order.slice_eq byte_order.slice_flip byte_order.slice_trans in blast)+

lemma keyed_less:
  "keyed_cmp a b = OLess \<longleftrightarrow> slice_cmp cmp_lin (fst a) (fst b) = OLess \<or> (fst a = fst b \<and> row_less (snd a) (snd b))"
  using bytes_order.cmp_eq [OF TrueI TrueI, of "fst a" "fst b"]
  by (cases "slice_cmp cmp_lin (fst a) (fst b)") (auto simp: keyed_cmp_def)

interpretation keyed_order: total_cmp keyed_cmp "\<lambda>e. row_ok (snd e)"
proof
  fix x y z :: "bytes \<times> tuple"
  assume ok: "row_ok (snd x)" "row_ok (snd y)"
  note v = row_valid [OF ok(1)] row_valid [OF ok(2)]
  show "(keyed_cmp x y = OEqual) = (x = y)"
    using bytes_order.cmp_eq [of "fst x" "fst y"] row_order.cmp_eq [OF v]
    by (cases "slice_cmp cmp_lin (fst x) (fst y)") (auto simp: keyed_cmp_def prod_eq_iff)
  show "keyed_cmp y x = flip (keyed_cmp x y)"
    unfolding keyed_cmp_def flip_then bytes_order.cmp_flip [OF TrueI TrueI, of "fst y" "fst x"] row_order.cmp_flip [OF v] ..
  assume z: "row_ok (snd z)" and lt: "keyed_cmp x y = OLess" "keyed_cmp y z = OLess"
  show "keyed_cmp x z = OLess"
    using lt bytes_order.cmp_trans [OF TrueI TrueI TrueI, of "fst x" "fst y" "fst z"] row_order.cmp_trans [OF v row_valid [OF z]]
    unfolding keyed_less by metis
qed

text \<open>Keyed rows in order: strictly ascending by key and tuple.\<close>

definition keyed_rows :: "nat list \<Rightarrow> tuple list \<Rightarrow> (bytes \<times> tuple) list" where
  "keyed_rows ps rows = map (\<lambda>t. (key_from_values (select t ps), t)) rows"

lemma in_order_sorted: "in_order ks \<Longrightarrow> sorted_wrt (\<lambda>a b. slice_cmp cmp_lin a b \<noteq> OGreater) ks"
proof (induction ks rule: in_order.induct)
  case (1 a b ks)
  then show ?case using bytes_order.le_trans [of a b] by auto
qed auto

lemma keyed_ordered:
  assumes "ascending rows" "rows_ok rows" "in_order (map fst (keyed_rows ps rows))"
  shows "strictly keyed_cmp (keyed_rows ps rows)"
proof -
  have "sorted_wrt (\<lambda>s t. slice_cmp cmp_lin (key_from_values (select s ps)) (key_from_values (select t ps)) \<noteq> OGreater) rows"
    using in_order_sorted [OF assms(3)] by (simp add: keyed_rows_def sorted_wrt_map)
  with assms(1) have "sorted_wrt (\<lambda>s t. row_less s t \<and> slice_cmp cmp_lin (key_from_values (select s ps)) (key_from_values (select t ps)) \<noteq> OGreater) rows"
    unfolding strictly_def by (induction rows) auto
  moreover have "keyed_cmp (key_from_values (select s ps), s) (key_from_values (select t ps), t) = OLess"
    if "row_less s t \<and> slice_cmp cmp_lin (key_from_values (select s ps)) (key_from_values (select t ps)) \<noteq> OGreater" for s t
    using that by (cases "slice_cmp cmp_lin (key_from_values (select s ps)) (key_from_values (select t ps))") (auto simp: keyed_cmp_def)
  ultimately show ?thesis unfolding strictly_def keyed_rows_def sorted_wrt_map
    by (rule sorted_wrt_mono_rel [rotated])
qed

lemma sort_keyed:
  assumes "\<forall>e \<in> set es. row_ok (snd e)" "distinct es"
  shows "strictly keyed_cmp (sort_by keyed_cmp es)"
proof -
  have "distinct (insort_by keyed_cmp x xs)" if "distinct xs" "x \<notin> set xs" for x and xs :: "(bytes \<times> tuple) list"
    using that by (induction xs) auto
  then have d: "distinct (sort_by keyed_cmp es)" using assms(2) keyed_order.set_sort_by
    by (induction es) (auto simp: sort_by_def)
  have "strictly keyed_cmp (remdups_adj (sort_by keyed_cmp es))"
    by (rule keyed_order.strictly_dedup [OF keyed_order.weakly_sort]) (use assms(1) in auto)
  then show ?thesis using d by (simp add: remdups_adj_distinct)
qed

text \<open>Adding the runs of ordered keyed rows to an index that shares no key with them.\<close>

definition holds :: "('n, tuple_bucket) radix_ops \<Rightarrow> nat list \<Rightarrow> 'n tuple_index \<Rightarrow> tuple set \<Rightarrow> bool" where
  "holds R ps ix A \<longleftrightarrow> ix_positions ix = ps \<and> (\<exists>g. keyed R (length ps) (ix_entries ix) g \<and> buckets A ps g) \<and>
     ix_distinct_key_count ix = card ((\<lambda>t. select t ps) ` A) \<and> (\<forall>q. card (sharing A ps q) \<le> ix_max_bucket_size ix)"

lemma add_run_ok:
  assumes "radix_laws R" "positions_ok n ps" "holds R ps ix A" "finite A"
    and run: "ascending ts" "set ts \<subseteq> rows_of n" "ts \<noteq> []" "\<forall>t \<in> set ts. select t ps = q" "sharing A ps q = {}"
  shows "holds R ps (add_run R (key_from_values q, ts) ix) (A \<union> set ts)"
    "ix_unique_keys (add_run R (key_from_values q, ts) ix) = ix_unique_keys ix"
proof -
  obtain g where h: "ix_positions ix = ps" "keyed R (length ps) (ix_entries ix) g" "buckets A ps g"
    "ix_distinct_key_count ix = card ((\<lambda>t. select t ps) ` A)" "\<And>q. card (sharing A ps q) \<le> ix_max_bucket_size ix"
    using assms(3) by (auto simp: holds_def)
  obtain t where t: "t \<in> set ts" using run(3) by (cases ts) auto
  then have q: "q \<in> rows_of (length ps)" using select_rows [OF assms(2), of t] run(2,4) by auto
  have sh: "sharing (A \<union> set ts) ps r = (if r = q then set ts else sharing A ps r)" for r
    using run(4,5) by (auto simp: sharing_def)
  have ok: "rows_ok ts" using run(2) by (auto simp: rows_of_def)
  have "bucket_for (A \<union> set ts) ps q (Some (bucket_from_sorted_unique ts))"
    using bucket_from_sorted [OF run(1) ok] t by (auto simp: bucket_for_def sh)
  then have "buckets (A \<union> set ts) ps (g(q \<mapsto> bucket_from_sorted_unique ts))" by (intro buckets_update [OF h(3)]) (simp_all add: sh)
  moreover have "keyed R (length ps) (snd (rx_insert R (key_from_values q) (bucket_from_sorted_unique ts) (ix_entries ix)))
      (g(q \<mapsto> bucket_from_sorted_unique ts))" by (rule keyed_insert(2) [OF assms(1) h(2) q])
  moreover have "card ((\<lambda>t. select t ps) ` (A \<union> set ts)) = card ((\<lambda>t. select t ps) ` A) + 1"
  proof -
    have "(\<lambda>t. select t ps) ` set ts = {q}" using run(4) t by auto
    then have "(\<lambda>t. select t ps) ` (A \<union> set ts) = insert q ((\<lambda>t. select t ps) ` A)" by (simp add: image_Un)
    moreover have "q \<notin> (\<lambda>t. select t ps) ` A" using run(5) by (auto simp: sharing_def)
    ultimately show ?thesis using assms(4) by simp
  qed
  moreover have "card (sharing (A \<union> set ts) ps r) \<le> max (ix_max_bucket_size ix) (length ts)" for r
    using h(5) [of r] card_length [of ts] by (auto simp: sh le_max_iff_disj)
  ultimately show "holds R ps (add_run R (key_from_values q, ts) ix) (A \<union> set ts)"
    using h(1,4) by (auto simp: holds_def add_run_def)
qed (simp add: add_run_def)

lemma add_runs_ok:
  assumes "radix_laws R" "positions_ok n ps"
  shows "strictly keyed_cmp es \<Longrightarrow> \<forall>e \<in> set es. snd e \<in> rows_of n \<and> fst e = key_from_values (select (snd e) ps) \<Longrightarrow>
    holds R ps ix A \<Longrightarrow> finite A \<Longrightarrow> \<forall>e \<in> set es. sharing A ps (select (snd e) ps) = {} \<Longrightarrow>
    holds R ps (fold (add_run R) (key_runs es) ix) (A \<union> snd ` set es) \<and>
    ix_unique_keys (fold (add_run R) (key_runs es) ix) = ix_unique_keys ix"
proof (induction es arbitrary: ix A rule: key_runs.induct)
  case (2 k t es)
  let ?q = "select t ps"
  let ?same = "takeWhile (\<lambda>e. fst e = k) es"
  let ?rest = "dropWhile (\<lambda>e. fst e = k) es"
  let ?run = "t # map snd ?same"
  have k: "k = key_from_values ?q" "t \<in> rows_of n" using "2.prems"(2) by auto
  have q: "?q \<in> rows_of (length ps)" by (rule select_rows [OF assms(2) k(2)])
  have proj: "select (snd e) ps = ?q \<longleftrightarrow> fst e = k" if "e \<in> set es" for e
  proof -
    have "snd e \<in> rows_of n" "fst e = key_from_values (select (snd e) ps)" using "2.prems"(2) that by auto
    then show ?thesis using rows_of_key [OF select_rows [OF assms(2)] q] k(1) by metis
  qed
  have same: "e \<in> set es \<and> fst e = k" if "e \<in> set ?same" for e using set_takeWhileD [OF that] by simp
  have sorted: "strictly keyed_cmp es" "\<forall>e \<in> set es. keyed_cmp (k, t) e = OLess" using "2.prems"(1) by (auto simp: strictly_def)
  have asc: "ascending ?run"
  proof -
    have "sorted_wrt (\<lambda>a b. keyed_cmp a b = OLess) ((k, t) # ?same)"
      using sorted same by (auto simp: strictly_def sorted_wrt_takeWhile)
    moreover have "row_less (snd a) (snd b)" if "a \<in> set ((k, t) # ?same)" "b \<in> set ((k, t) # ?same)" "keyed_cmp a b = OLess" for a b
    proof -
      have "fst x = k" if "x \<in> set ((k, t) # ?same)" for x using that same by (cases x) auto
      then have "fst a = fst b" using that by metis
      then show ?thesis using that(3) bytes_order.cmp_eq [OF TrueI TrueI, of "fst b" "fst b"] by (cases a; cases b) (auto simp: keyed_less)
    qed
    ultimately have "sorted_wrt (\<lambda>a b. row_less (snd a) (snd b)) ((k, t) # ?same)"
      by (rule sorted_wrt_mono_rel [rotated])
    then have "sorted_wrt row_less (map snd ((k, t) # ?same))" unfolding sorted_wrt_map .
    then show ?thesis by (simp add: strictly_def)
  qed
  have run: "u \<in> rows_of n \<and> select u ps = ?q" if u: "u \<in> set ?run" for u
  proof -
    have "u = t \<or> u \<in> snd ` set ?same" using u by simp
    then consider "u = t" | e where "e \<in> set ?same" "u = snd e" by blast
    then show ?thesis
    proof cases
      case (2 e)
      then have "e \<in> set es" "fst e = k" using same [of e] by simp_all
      moreover have "snd e \<in> rows_of n" using "2.prems"(2) \<open>e \<in> set es\<close> by simp
      ultimately show ?thesis using proj [of e] 2(2) by blast
    qed (use k(2) in simp)
  qed
  have sub: "set ?run \<subseteq> rows_of n" and sel: "\<forall>u \<in> set ?run. select u ps = ?q" using run by blast+
  note one = add_run_ok [OF assms "2.prems"(3,4) asc sub _ sel]
  have rest: "e \<in> set es \<and> fst e \<noteq> k" if e: "e \<in> set ?rest" for e
  proof -
    obtain z zs where z: "?rest = z # zs" using member_Cons [OF e] by blast
    have zk: "fst z \<noteq> k" using z [unfolded dropWhile_eq_Cons_conv] by blast
    have zin: "z \<in> set es" "e \<in> set es" using z e set_dropWhileD by (metis list.set_intros(1), metis)
    have "strictly keyed_cmp ?rest" using sorted(1) unfolding strictly_def by (rule sorted_wrt_dropWhile)
    then have ze: "e = z \<or> keyed_cmp z e = OLess" using e z by (auto simp: strictly_def)
    have "slice_cmp cmp_lin k (fst z) = OLess" using sorted(2) zin(1) zk by (auto simp: keyed_less)
    then have "slice_cmp cmp_lin k (fst e) = OLess"
      using ze bytes_order.cmp_trans [OF TrueI TrueI TrueI, of k "fst z" "fst e"] by (auto simp: keyed_less)
    then show ?thesis using zin(2) bytes_order.cmp_eq [OF TrueI TrueI, of k k] by auto
  qed
  have split: "set es = set ?same \<union> set ?rest" by (metis set_append takeWhile_dropWhile_id)
  have cover: "A \<union> set ?run \<union> snd ` set ?rest = A \<union> snd ` set ((k, t) # es)" using split by auto
  have IH: "holds R ps (fold (add_run R) (key_runs ?rest) (add_run R (k, ?run) ix)) (A \<union> set ?run \<union> snd ` set ?rest) \<and>
      ix_unique_keys (fold (add_run R) (key_runs ?rest) (add_run R (k, ?run) ix)) = ix_unique_keys (add_run R (k, ?run) ix)"
  proof (rule "2.IH")
    show "strictly keyed_cmp ?rest" using sorted(1) unfolding strictly_def by (rule sorted_wrt_dropWhile)
    show "\<forall>e \<in> set ?rest. snd e \<in> rows_of n \<and> fst e = key_from_values (select (snd e) ps)"
    proof
      fix e assume "e \<in> set ?rest"
      then have "e \<in> set ((k, t) # es)" using rest [of e] by simp
      then show "snd e \<in> rows_of n \<and> fst e = key_from_values (select (snd e) ps)" by (rule bspec [OF "2.prems"(2)])
    qed
    show "holds R ps (add_run R (k, ?run) ix) (A \<union> set ?run)" using one(1) "2.prems"(5) k(1) by simp
    show "finite (A \<union> set ?run)" using "2.prems"(4) by simp
    show "\<forall>e \<in> set ?rest. sharing (A \<union> set ?run) ps (select (snd e) ps) = {}"
    proof
      fix e assume e: "e \<in> set ?rest"
      then have "select (snd e) ps \<noteq> ?q" using rest proj by blast
      then have "sharing (set ?run) ps (select (snd e) ps) = {}" using sel unfolding sharing_def by fastforce
      moreover have "sharing A ps (select (snd e) ps) = {}" by (rule bspec [OF "2.prems"(5)]) (use rest [OF e] in simp)
      ultimately show "sharing (A \<union> set ?run) ps (select (snd e) ps) = {}" by (auto simp: sharing_def)
    qed
  qed
  have "ix_unique_keys (add_run R (k, ?run) ix) = ix_unique_keys ix" by (simp add: add_run_def)
  then show ?case using IH unfolding cover by simp
qed simp

lemma from_sorted_ok:
  assumes "radix_laws R" "positions_ok n ps" "ascending rows" "set rows \<subseteq> rows_of n"
  shows "index_ok R n (from_sorted_unique_rows R ps n rows) (set rows)"
    "ix_positions (from_sorted_unique_rows R ps n rows) = ps"
proof -
  have ok: "rows_ok rows" "distinct rows" using assms(3,4) row_order.strictly_distinct [of rows] by (auto simp: rows_of_def row_ok_def)
  let ?ix = "index_empty R ps n"
  note e = index_empty_ok [OF assms(1,2)]
  have "index_ok R n (from_sorted_unique_rows R ps n rows) (set rows) \<and> ix_positions (from_sorted_unique_rows R ps n rows) = ps"
  proof (cases "rows = []")
    case True
    then show ?thesis using e by (simp add: from_sorted_unique_rows_def index_empty_def)
  next
    case nonempty: False
    show ?thesis
    proof (cases "length ps = n")
      case True
      have fill: "\<exists>g. keyed R (length ps) (fold (\<lambda>t m. snd (rx_insert R (tuple_key ?ix t) (bucket_one t) m)) rs m) g \<and> buckets (A \<union> set rs) ps g"
        if "set rs \<subseteq> rows_of n" "A \<subseteq> rows_of n" "keyed R (length ps) m g" "buckets A ps g" for rs A m g
        using that
      proof (induction rs arbitrary: A m g)
        case (Cons t rs)
        have t: "t \<in> rows_of n" using Cons.prems(1) by simp
        have q: "select t ps \<in> rows_of (length ps)" by (rule select_rows [OF assms(2) t])
        have "bucket_for (insert t A) ps (select t ps) (Some (bucket_one t))"
          using sharing_unique [OF assms(2) True, of "insert t A" t] t Cons.prems(2)
          by (auto simp: bucket_for_def bucket_ok_def bucket_one_def strictly_def rows_of_def)
        then have "buckets (insert t A) ps (g(select t ps \<mapsto> bucket_one t))"
          by (intro buckets_update [OF Cons.prems(4)]) (simp_all add: sharing_insert)
        moreover have "tuple_key ?ix t = key_from_values (select t ps)" by (simp add: tuple_key_def index_empty_def)
        ultimately show ?case using Cons.IH [OF _ _ keyed_insert(2) [OF assms(1) Cons.prems(3) q], of "insert t A" "bucket_one t"] Cons.prems(1,2) t by (simp add: fun_upd_def)
      qed auto
      obtain g0 where g0: "keyed R (length ps) (ix_entries ?ix) g0" "buckets {} ps g0" using e by (auto simp: index_ok_def index_empty_def)
      have inj: "inj_on (\<lambda>t. select t ps) (set rows)" by (rule inj_onI) (use select_inject [OF assms(2) True] assms(4) in blast)
      have one: "card (sharing (set rows) ps q) \<le> 1" for q
      proof (cases "sharing (set rows) ps q = {}")
        case False
        then obtain t where t: "t \<in> set rows" "select t ps = q" by (auto simp: sharing_def)
        then have "sharing (set rows) ps q = set rows \<inter> {t}" using sharing_unique [OF assms(2) True assms(4), of t] assms(4) by blast
        then have "sharing (set rows) ps q \<subseteq> {t}" by blast
        then show ?thesis using card_mono [of "{t}"] by simp
      qed simp
      show ?thesis using nonempty True fill [OF assms(4) _ g0] assms(2,4) ok(2) one inj
        by (simp add: from_sorted_unique_rows_def Let_def index_ok_def index_empty_def card_image distinct_card)
    next
      case False
      let ?es = "keyed_rows ps rows"
      define es where "es = (if in_order (map fst ?es) then ?es else sort_by keyed_cmp ?es)"
      have set_es: "set es = set ?es" by (simp add: es_def)
      have "distinct ?es" using ok(2) by (simp add: keyed_rows_def distinct_map inj_on_def)
      then have s: "strictly keyed_cmp es"
        using keyed_ordered [OF assms(3) ok(1)] sort_keyed [of ?es] ok(1) unfolding es_def by (auto simp: keyed_rows_def)
      have h0: "holds R ps ?ix {}" using e by (auto simp: holds_def index_ok_def index_empty_def)
      have entry: "\<forall>e \<in> set es. snd e \<in> rows_of n \<and> fst e = key_from_values (select (snd e) ps)"
        unfolding set_es keyed_rows_def using assms(4) by auto
      have cover: "snd ` set es = set rows" unfolding set_es by (force simp: keyed_rows_def)
      have r: "holds R ps (fold (add_run R) (key_runs es) ?ix) (set rows) \<and> ix_unique_keys (fold (add_run R) (key_runs es) ?ix) = ix_unique_keys ?ix"
        using add_runs_ok [OF assms(1,2) s entry h0] cover by (simp add: sharing_def)
      have "from_sorted_unique_rows R ps n rows = (fold (add_run R) (key_runs es) ?ix)\<lparr>ix_tuple_count := length rows\<rparr>"
        using nonempty False by (simp add: from_sorted_unique_rows_def Let_def es_def keyed_rows_def tuple_key_def index_empty_def)
      then show ?thesis using r False assms(2,4) ok(2) by (simp add: index_ok_def holds_def distinct_card) (simp add: index_empty_def)
    qed
  qed
  then show "index_ok R n (from_sorted_unique_rows R ps n rows) (set rows)"
    "ix_positions (from_sorted_unique_rows R ps n rows) = ps" by simp_all
qed

end
