(* ===== verification/RelationState.thy ===== *)
theory RelationState
  imports TupleIndex BufferStore
begin

text \<open>
  The state of one relation, \<open>crates/relation-kernel/src/index.rs\<close>: a store of tuples, one index per
  declared position list that is not the natural one, and per column the number of values that live
  on the heap. Scans pick the access path with the longest bound prefix.

  \<open>None\<close> is a panic and \<open>Inl\<close> a \<open>KernelError\<close>. Tuples handed to the mutators have passed
  \<open>validate_tuple\<close>, so their length is the arity and every position of an index is within it.
\<close>

section \<open>Data and operations\<close>

record ('m, 'n) relation_state = relation_base +
  rs_tuples :: "'m tuple_store"
  rs_indexes :: "'n tuple_index list"
  rs_non_immediate_counts :: "usize list"

datatype mutation_kind = Assert | Retract
datatype scan_control = Continue | Stop
datatype value_domain = Immediate | Heap | Mixed | UnknownDomain
datatype 'n scan_access = StoreAccess nat | IndexAccess "'n tuple_index" nat

definition is_natural_full_tuple_positions :: "nat list \<Rightarrow> nat \<Rightarrow> bool" where
  "is_natural_full_tuple_positions ps n \<longleftrightarrow> ps = [0..<n]"

definition is_natural_full_tuple_index :: "nat list \<Rightarrow> nat \<Rightarrow> bool" where
  "is_natural_full_tuple_index ps n \<longleftrightarrow> length ps = n \<and> is_natural_full_tuple_positions ps n"

definition natural_leading_bound_count :: "val option list \<Rightarrow> nat" where
  "natural_leading_bound_count bindings = length (takeWhile (\<lambda>b. b \<noteq> None) bindings)"

definition full_tuple_binding_values :: "val option list \<Rightarrow> val list option" where
  "full_tuple_binding_values bindings = (if None \<in> set bindings then None else Some (map the bindings))"

definition validate_metadata :: "relation_metadata \<Rightarrow> val kernel_error + unit" where
  "validate_metadata md =
     (case find (\<lambda>p. rm_arity md \<le> p)
        (concat (rm_indexes md) @ (case rm_conflict_policy md of Functional ps \<Rightarrow> ps | _ \<Rightarrow> [])) of
        Some p \<Rightarrow> Inl (InvalidIndex (rm_id md) p (rm_arity md))
      | None \<Rightarrow> Inr ())"

definition state_empty :: "('n, tuple_bucket) radix_ops \<Rightarrow> relation_metadata \<Rightarrow> val kernel_error + ('m, 'n) relation_state" where
  "state_empty Q md =
     (case validate_metadata md of
        Inl e \<Rightarrow> Inl e
      | Inr _ \<Rightarrow> Inr \<lparr>rs_metadata = md, rs_tuples = store_empty,
          rs_indexes = map (\<lambda>ps. index_empty Q ps (rm_arity md))
            (filter (\<lambda>ps. \<not> is_natural_full_tuple_index ps (rm_arity md)) (rm_indexes md)),
          rs_non_immediate_counts = replicate (rm_arity md) 0\<rparr>)"

abbreviation state_arity :: "('m, 'n) relation_state \<Rightarrow> nat" where
  "state_arity st \<equiv> rm_arity (rs_metadata st)"

definition cardinality :: "('m, 'n) relation_state \<Rightarrow> usize" where
  "cardinality st = store_len (rs_tuples st)"

definition state_is_empty :: "('m, 'n) relation_state \<Rightarrow> bool" where
  "state_is_empty st = store_is_empty (rs_tuples st)"

fun is_immediate :: "val \<Rightarrow> bool" where
  "is_immediate (VString _) = False"
| "is_immediate (VBytes _) = False"
| "is_immediate (VList _) = False"
| "is_immediate (VMap _) = False"
| "is_immediate (VRange _ _) = False"
| "is_immediate (VError _ _ _) = False"
| "is_immediate (VFrob _ _) = False"
| "is_immediate (VRelation _ _) = False"
| "is_immediate _ = True"

definition value_domains :: "('m, 'n) relation_state \<Rightarrow> value_domain list" where
  "value_domains st =
     map (\<lambda>c. if c = 0 then Immediate else if c = cardinality st then Heap else Mixed) (rs_non_immediate_counts st)"

definition contains_tuple :: "('m, tuple) radix_ops \<Rightarrow> ('m, 'n) relation_state \<Rightarrow> tuple \<Rightarrow> bool" where
  "contains_tuple R st t = store_contains R (rs_tuples st) t"

definition validate_tuple :: "('m, 'n) relation_state \<Rightarrow> tuple \<Rightarrow> val kernel_error + unit" where
  "validate_tuple st t =
     (if state_arity st \<noteq> length t then Inl (ArityMismatch (rm_id (rs_metadata st)) (state_arity st) (length t))
      else if \<exists>v \<in> set t. \<not> is_persistable v then Inl (NonPersistentValue (rm_id (rs_metadata st)) t)
      else Inr ())"

definition validate_bindings :: "('m, 'n) relation_state \<Rightarrow> val option list \<Rightarrow> (val, unit) kresult" where
  "validate_bindings st bindings =
     Some (if length bindings \<noteq> state_arity st
           then Inl (ArityMismatch (rm_id (rs_metadata st)) (state_arity st) (length bindings)) else Inr ())"

subsection \<open>Access paths\<close>

text \<open>\<open>max_by_key\<close>: the last of the largest.\<close>

definition max_by_key :: "('a \<times> nat) list \<Rightarrow> ('a \<times> nat) option" where
  "max_by_key es = fold (\<lambda>e best. case best of None \<Rightarrow> Some e | Some b \<Rightarrow> if snd b \<le> snd e then Some e else best) es None"

definition bound_counts :: "('a \<Rightarrow> nat list) \<Rightarrow> 'a list \<Rightarrow> val option list \<Rightarrow> ('a \<times> nat) list option" where
  "bound_counts positions xs bindings =
     (if \<exists>x \<in> set xs. leading_bound_count (positions x) bindings = None then None
      else Some (map (\<lambda>x. (x, the (leading_bound_count (positions x) bindings))) xs))"

definition best_access :: "('m, 'n) relation_state \<Rightarrow> val option list \<Rightarrow> 'n scan_access option option" where
  "best_access st bindings =
     (case bound_counts ix_positions (rs_indexes st) bindings of
        None \<Rightarrow> None
      | Some counts \<Rightarrow>
          Some (case max_by_key (filter (\<lambda>(_, k). k > 0) counts) of
             None \<Rightarrow>
               if natural_leading_bound_count bindings = 0 then None
               else Some (StoreAccess (natural_leading_bound_count bindings))
           | Some (ix, k) \<Rightarrow>
               if natural_leading_bound_count bindings > k then Some (StoreAccess (natural_leading_bound_count bindings))
               else Some (IndexAccess ix k)))"

definition access_rows ::
  "('m, tuple) radix_ops \<Rightarrow> ('n, tuple_bucket) radix_ops \<Rightarrow> ('m, 'n) relation_state \<Rightarrow> 'n scan_access option \<Rightarrow>
     val option list \<Rightarrow> tuple list option" where
  "access_rows R Q st access bindings =
     (case access of
        None \<Rightarrow> Some (store_matching R (rs_tuples st) bindings)
      | Some (StoreAccess k) \<Rightarrow> store_visit_prefix R (rs_tuples st) bindings k
      | Some (IndexAccess ix k) \<Rightarrow> Some (index_visit_prefix Q ix bindings k))"

definition lift_panic :: "'a option \<Rightarrow> (val, 'a) kresult" where
  "lift_panic m = map_option Inr m"

definition state_scan ::
  "('m, tuple) radix_ops \<Rightarrow> ('n, tuple_bucket) radix_ops \<Rightarrow> ('m, 'n) relation_state \<Rightarrow> val option list \<Rightarrow> (val, tuple list) kresult" where
  "state_scan R Q st bindings =
     kbind (validate_bindings st bindings) (\<lambda>_.
       case full_tuple_binding_values bindings of
         Some vs \<Rightarrow> kok (case tuple_for_values R (rs_tuples st) vs of None \<Rightarrow> [] | Some t \<Rightarrow> [t])
       | None \<Rightarrow> kbind (lift_panic (best_access st bindings)) (\<lambda>access. lift_panic (access_rows R Q st access bindings)))"

text \<open>A visitor threads its own state and may stop the visit or fail.\<close>

fun visit_rows :: "(tuple \<Rightarrow> 's \<Rightarrow> (val, scan_control \<times> 's) kresult) \<Rightarrow> tuple list \<Rightarrow> 's \<Rightarrow> (val, 's) kresult" where
  "visit_rows f [] s = kok s"
| "visit_rows f (t # ts) s =
     kbind (f t s) (\<lambda>(control, s'). case control of Stop \<Rightarrow> kok s' | Continue \<Rightarrow> visit_rows f ts s')"

definition state_visit ::
  "('m, tuple) radix_ops \<Rightarrow> ('n, tuple_bucket) radix_ops \<Rightarrow> ('m, 'n) relation_state \<Rightarrow> val option list \<Rightarrow>
     (tuple \<Rightarrow> 's \<Rightarrow> (val, scan_control \<times> 's) kresult) \<Rightarrow> 's \<Rightarrow> (val, 's) kresult" where
  "state_visit R Q st bindings f s =
     kbind (validate_bindings st bindings) (\<lambda>_.
       case full_tuple_binding_values bindings of
         Some vs \<Rightarrow>
           (case tuple_for_values R (rs_tuples st) vs of None \<Rightarrow> kok s | Some t \<Rightarrow> kbind (f t s) (\<lambda>(_, s'). kok s'))
       | None \<Rightarrow> kbind (lift_panic (best_access st bindings)) (\<lambda>access.
           kbind (lift_panic (access_rows R Q st access bindings)) (\<lambda>rows. visit_rows f rows s)))"

subsection \<open>Lookups by key\<close>

definition index_for_positions :: "('m, 'n) relation_state \<Rightarrow> nat list \<Rightarrow> 'n tuple_index option" where
  "index_for_positions st ps = find (\<lambda>ix. ix_positions ix = ps) (rs_indexes st)"

definition has_exact_index :: "('m, 'n) relation_state \<Rightarrow> nat list \<Rightarrow> bool" where
  "has_exact_index st ps \<longleftrightarrow> is_natural_full_tuple_positions ps (state_arity st) \<or> index_for_positions st ps \<noteq> None"

definition first_visited ::
  "('m, tuple) radix_ops \<Rightarrow> ('n, tuple_bucket) radix_ops \<Rightarrow> ('m, 'n) relation_state \<Rightarrow> val option list \<Rightarrow> tuple option option" where
  "first_visited R Q st bindings =
     map_option (case_sum (\<lambda>_. None) id) (state_visit R Q st bindings (\<lambda>t _. kok (Stop, Some t)) None)"

definition bind_positions :: "nat \<Rightarrow> nat list \<Rightarrow> val list \<Rightarrow> val option list" where
  "bind_positions n ps vs = fold (\<lambda>(p, v) bindings. bindings[p := Some v]) (zip ps vs) (replicate n None)"

definition tuple_for_key ::
  "('m, tuple) radix_ops \<Rightarrow> ('n, tuple_bucket) radix_ops \<Rightarrow> ('m, 'n) relation_state \<Rightarrow> nat list \<Rightarrow> tuple \<Rightarrow> tuple option option" where
  "tuple_for_key R Q st ps t =
     (if is_natural_full_tuple_positions ps (state_arity st) then Some (tuple_for_values R (rs_tuples st) t)
      else case index_for_positions st ps of
        Some ix \<Rightarrow> Some (tuple_for_key_tuple Q ix t)
      | None \<Rightarrow> first_visited R Q st (bind_positions (state_arity st) ps (select t ps)))"

definition tuple_for_projected_values ::
  "('m, tuple) radix_ops \<Rightarrow> ('n, tuple_bucket) radix_ops \<Rightarrow> ('m, 'n) relation_state \<Rightarrow> nat list \<Rightarrow> val list \<Rightarrow> tuple option option" where
  "tuple_for_projected_values R Q st ps vs =
     (if is_natural_full_tuple_positions ps (state_arity st) then Some (tuple_for_values R (rs_tuples st) vs)
      else case index_for_positions st ps of
        Some ix \<Rightarrow> Some (tuple_for_key_values Q ix vs)
      | None \<Rightarrow> first_visited R Q st (bind_positions (state_arity st) ps vs))"

subsection \<open>Mutation\<close>

definition record_value_domains :: "tuple \<Rightarrow> bool \<Rightarrow> ('m, 'n) relation_state \<Rightarrow> ('m, 'n) relation_state" where
  "record_value_domains t added st =
     st\<lparr>rs_non_immediate_counts :=
        map (\<lambda>(i, c). if length t \<le> i \<or> is_immediate (t ! i) then c else if added then c + 1 else c - 1)
          (enumerate 0 (rs_non_immediate_counts st))\<rparr>"

definition insert_indexed ::
  "('m, tuple) radix_ops \<Rightarrow> ('n, tuple_bucket) radix_ops \<Rightarrow> tuple \<Rightarrow> ('m, 'n) relation_state \<Rightarrow> bool \<times> ('m, 'n) relation_state" where
  "insert_indexed R Q t st =
     (let (added, tuples) = store_insert R t (rs_tuples st) in
      if \<not> added then (False, st\<lparr>rs_tuples := tuples\<rparr>)
      else (True, record_value_domains t True (st\<lparr>rs_tuples := tuples, rs_indexes := map (index_insert Q t) (rs_indexes st)\<rparr>)))"

definition remove_indexed ::
  "('m, tuple) radix_ops \<Rightarrow> ('n, tuple_bucket) radix_ops \<Rightarrow> tuple \<Rightarrow> ('m, 'n) relation_state \<Rightarrow> bool \<times> ('m, 'n) relation_state" where
  "remove_indexed R Q t st =
     (let (removed, tuples) = store_remove R t (rs_tuples st) in
      if \<not> removed then (False, st\<lparr>rs_tuples := tuples\<rparr>)
      else (True, record_value_domains t False (st\<lparr>rs_tuples := tuples, rs_indexes := map (index_remove Q t) (rs_indexes st)\<rparr>)))"

text \<open>The changes that took effect, in order, with the resulting state.\<close>

fun apply_ordered_changes ::
  "('m, tuple) radix_ops \<Rightarrow> ('n, tuple_bucket) radix_ops \<Rightarrow> (tuple \<times> mutation_kind) list \<Rightarrow> (tuple \<Rightarrow> bool) \<Rightarrow>
     ('m, 'n) relation_state \<Rightarrow> (tuple \<times> mutation_kind) list \<times> ('m, 'n) relation_state" where
  "apply_ordered_changes R Q [] base_contains st = ([], st)"
| "apply_ordered_changes R Q ((t, Assert) # changes) base_contains st =
     (let (added, st') = insert_indexed R Q t st; (applied, st'') = apply_ordered_changes R Q changes base_contains st' in
      (if added then (t, Assert) # applied else applied, st''))"
| "apply_ordered_changes R Q ((t, Retract) # changes) base_contains st =
     (if \<not> base_contains t then apply_ordered_changes R Q changes base_contains st
      else let (removed, st') = remove_indexed R Q t st; (applied, st'') = apply_ordered_changes R Q changes base_contains st' in
        (if removed then (t, Retract) # applied else applied, st''))"

definition apply_ordered_asserts_to_empty ::
  "('m, tuple) radix_ops \<Rightarrow> ('n, tuple_bucket) radix_ops \<Rightarrow> tuple list \<Rightarrow>
     ('m, 'n) relation_state \<Rightarrow> (tuple \<times> mutation_kind) list \<times> ('m, 'n) relation_state" where
  "apply_ordered_asserts_to_empty R Q tuples st =
     (let rows = remdups_adj tuples in
      if rows = [] then ([], st)
      else
        let st1 = st\<lparr>rs_tuples := store_from_sorted_unique R rows,
              rs_non_immediate_counts := map (\<lambda>_. 0) (rs_non_immediate_counts st)\<rparr>;
            st2 = fold (\<lambda>t. record_value_domains t True) rows st1 in
        (map (\<lambda>t. (t, Assert)) rows,
         st2\<lparr>rs_indexes := map (\<lambda>ix. from_sorted_unique_rows Q (ix_positions ix) (state_arity st) rows) (rs_indexes st)\<rparr>))"

subsection \<open>Joins\<close>

definition natural_full_tuple_join ::
  "('m, tuple) radix_ops \<Rightarrow> ('m, 'n) relation_state \<Rightarrow> val option list \<Rightarrow> ('m, 'n) relation_state \<Rightarrow> val option list \<Rightarrow> tuple list" where
  "natural_full_tuple_join R left left_bindings right right_bindings =
     finish_tuple_rows (map (\<lambda>(l, r). tuple_concat l r)
       (filter (\<lambda>(l, r). matches_bindings l left_bindings \<and> matches_bindings r right_bindings)
         (store_row_pairs R (rs_tuples left) (rs_tuples right))))"

definition join_eq ::
  "('m, tuple) radix_ops \<Rightarrow> ('n, tuple_bucket) radix_ops \<Rightarrow> ('m, 'n) relation_state \<Rightarrow> val option list \<Rightarrow> nat list \<Rightarrow>
     ('m, 'n) relation_state \<Rightarrow> val option list \<Rightarrow> nat list \<Rightarrow> val kernel_error + tuple list option" where
  "join_eq R Q left left_bindings left_positions right right_bindings right_positions =
     (if length left_bindings \<noteq> state_arity left
      then Inl (ArityMismatch (rm_id (rs_metadata left)) (state_arity left) (length left_bindings))
      else if length right_bindings \<noteq> state_arity right
      then Inl (ArityMismatch (rm_id (rs_metadata right)) (state_arity right) (length right_bindings))
      else if is_natural_full_tuple_positions left_positions (state_arity left) \<and>
              is_natural_full_tuple_positions right_positions (state_arity right)
      then Inr (Some (natural_full_tuple_join R left left_bindings right right_bindings))
      else case (index_for_positions left left_positions, index_for_positions right right_positions) of
        (Some li, Some ri) \<Rightarrow>
          Inr (Some (finish_tuple_rows (map (\<lambda>(l, r). tuple_concat l r) (index_row_pairs Q li ri left_bindings right_bindings))))
      | _ \<Rightarrow> Inr None)"

section \<open>A relation state is a set of tuples\<close>

definition key_columns :: "relation_metadata \<Rightarrow> nat list" where
  "key_columns md = (case rm_conflict_policy md of Functional ps \<Rightarrow> ps | _ \<Rightarrow> [])"

definition heap_counts :: "nat \<Rightarrow> tuple set \<Rightarrow> usize list" where
  "heap_counts n A = map (\<lambda>i. card {t \<in> A. \<not> is_immediate (t ! i)}) [0..<n]"

definition rstate_ok ::
  "('m, tuple) radix_ops \<Rightarrow> ('n, tuple_bucket) radix_ops \<Rightarrow> ('m, 'n) relation_state \<Rightarrow> tuple set \<Rightarrow> bool" where
  "rstate_ok R Q st A \<longleftrightarrow> (\<forall>ps \<in> set (rm_indexes (rs_metadata st)). positions_ok (state_arity st) ps) \<and>
     (\<forall>p \<in> set (key_columns (rs_metadata st)). p < state_arity st) \<and>
     map ix_positions (rs_indexes st) = filter (\<lambda>ps. ps \<noteq> [0..<state_arity st]) (rm_indexes (rs_metadata st)) \<and>
     store_ok R (state_arity st) (rs_tuples st) A \<and> (\<forall>ix \<in> set (rs_indexes st). index_ok Q (state_arity st) ix A) \<and>
     rs_non_immediate_counts st = heap_counts (state_arity st) A"

lemma rstate_okD:
  assumes "rstate_ok R Q st A"
  shows "A \<subseteq> rows_of (state_arity st)" "finite A" "store_ok R (state_arity st) (rs_tuples st) A"
    "\<And>ix. ix \<in> set (rs_indexes st) \<Longrightarrow> index_ok Q (state_arity st) ix A"
  using assms store_len_ok(2) by (auto simp: rstate_ok_def store_ok_def)

lemma validate_metadata_ok:
  "validate_metadata md = Inr () \<longleftrightarrow> (\<forall>ps \<in> set (rm_indexes md). \<forall>p \<in> set ps. p < rm_arity md) \<and> (\<forall>p \<in> set (key_columns md). p < rm_arity md)"
proof -
  have "validate_metadata md = Inr () \<longleftrightarrow> find (\<lambda>p. rm_arity md \<le> p) (concat (rm_indexes md) @ key_columns md) = None"
    by (auto simp: validate_metadata_def key_columns_def split: option.splits)
  also have "\<dots> \<longleftrightarrow> (\<forall>p \<in> set (concat (rm_indexes md) @ key_columns md). p < rm_arity md)"
    unfolding find_None_iff by (auto simp: not_le)
  also have "\<dots> \<longleftrightarrow> (\<forall>ps \<in> set (rm_indexes md). \<forall>p \<in> set ps. p < rm_arity md) \<and> (\<forall>p \<in> set (key_columns md). p < rm_arity md)"
    by auto
  finally show ?thesis .
qed

lemma state_empty_ok:
  assumes "radix_laws Q" "state_empty Q md = Inr st" "\<forall>ps \<in> set (rm_indexes md). length ps = rm_arity md \<longrightarrow> distinct ps"
  shows "rstate_ok R Q st {}" "rs_metadata st = md"
proof -
  have v: "validate_metadata md = Inr ()" using assms(2) by (cases "validate_metadata md") (simp_all add: state_empty_def)
  let ?n = "rm_arity md"
  have st: "st = \<lparr>rs_metadata = md, rs_tuples = store_empty,
      rs_indexes = map (\<lambda>ps. index_empty Q ps ?n) (filter (\<lambda>ps. \<not> is_natural_full_tuple_index ps ?n) (rm_indexes md)),
      rs_non_immediate_counts = replicate ?n 0\<rparr>" using assms(2) v by (simp add: state_empty_def)
  have pos: "\<forall>ps \<in> set (rm_indexes md). positions_ok ?n ps"
    using v assms(3) by (simp add: validate_metadata_ok positions_ok_def)
  have nat: "is_natural_full_tuple_index ps ?n \<longleftrightarrow> ps = [0..<?n]" for ps
    by (auto simp: is_natural_full_tuple_index_def is_natural_full_tuple_positions_def)
  have "index_ok Q ?n (index_empty Q ps ?n) {}" if "ps \<in> set (rm_indexes md)" for ps
    by (rule index_empty_ok [OF assms(1)]) (use pos that in blast)
  then show "rstate_ok R Q st {}" using pos v nat
    by (simp add: st rstate_ok_def validate_metadata_ok heap_counts_def index_empty_def comp_def map_replicate_const)
  show "rs_metadata st = md" by (simp add: st)
qed

subsection \<open>Mutation\<close>

lemma heap_counts_insert:
  assumes "finite A" "t \<notin> A" "length t = n"
  shows "map (\<lambda>(i, c). if length t \<le> i \<or> is_immediate (t ! i) then c else c + 1) (enumerate 0 (heap_counts n A)) = heap_counts n (insert t A)"
proof -
  have "{u \<in> insert t A. \<not> is_immediate (u ! i)} = (if is_immediate (t ! i) then {u \<in> A. \<not> is_immediate (u ! i)} else insert t {u \<in> A. \<not> is_immediate (u ! i)})" for i
    by auto
  then show ?thesis using assms by (intro nth_equalityI) (auto simp: heap_counts_def nth_enumerate_eq)
qed

lemma heap_counts_remove:
  assumes "finite A" "t \<in> A" "length t = n"
  shows "map (\<lambda>(i, c). if length t \<le> i \<or> is_immediate (t ! i) then c else c - 1) (enumerate 0 (heap_counts n A)) = heap_counts n (A - {t})"
proof -
  have "{u \<in> A - {t}. \<not> is_immediate (u ! i)} = {u \<in> A. \<not> is_immediate (u ! i)} - (if is_immediate (t ! i) then {} else {t})" for i
    by auto
  then show ?thesis using assms by (intro nth_equalityI) (auto simp: heap_counts_def nth_enumerate_eq)
qed

lemma record_value_domains_simps [simp]:
  "rs_metadata (record_value_domains t b st) = rs_metadata st" "rs_tuples (record_value_domains t b st) = rs_tuples st"
  "rs_indexes (record_value_domains t b st) = rs_indexes st"
  "rs_non_immediate_counts (record_value_domains t True st) =
     map (\<lambda>(i, c). if length t \<le> i \<or> is_immediate (t ! i) then c else c + 1) (enumerate 0 (rs_non_immediate_counts st))"
  "rs_non_immediate_counts (record_value_domains t False st) =
     map (\<lambda>(i, c). if length t \<le> i \<or> is_immediate (t ! i) then c else c - 1) (enumerate 0 (rs_non_immediate_counts st))"
  by (auto simp: record_value_domains_def)

lemma insert_indexed_ok:
  assumes "radix_laws R" "radix_laws Q" "rstate_ok R Q st A" "t \<in> rows_of (state_arity st)"
  shows "fst (insert_indexed R Q t st) = (t \<notin> A)" "rstate_ok R Q (snd (insert_indexed R Q t st)) (insert t A)"
    "rs_metadata (snd (insert_indexed R Q t st)) = rs_metadata st"
proof -
  obtain b s where i: "store_insert R t (rs_tuples st) = (b, s)" by (cases "store_insert R t (rs_tuples st)")
  have s: "b = (t \<notin> A)" "store_ok R (state_arity st) s (insert t A)"
    using store_insert_ok [OF assms(1) rstate_okD(3) [OF assms(3)] assms(4)] i by simp_all
  have len: "length t = state_arity st" using assms(4) by (simp add: rows_of_def)
  show "fst (insert_indexed R Q t st) = (t \<notin> A)" "rs_metadata (snd (insert_indexed R Q t st)) = rs_metadata st"
    using i s(1) by (simp_all add: insert_indexed_def)
  show "rstate_ok R Q (snd (insert_indexed R Q t st)) (insert t A)"
  proof (cases "t \<in> A")
    case True
    then show ?thesis using i s assms(3) by (simp add: insert_indexed_def rstate_ok_def insert_absorb)
  next
    case False
    have ix: "index_ok Q (state_arity st) (index_insert Q t ix) (insert t A) \<and> ix_positions (index_insert Q t ix) = ix_positions ix"
      if "ix \<in> set (rs_indexes st)" for ix
      using index_insert_ok [OF assms(2) rstate_okD(4) [OF assms(3) that] assms(4) False] by simp
    have "map (ix_positions \<circ> index_insert Q t) (rs_indexes st) = map ix_positions (rs_indexes st)" using ix by simp
    also have "\<dots> = filter (\<lambda>ps. ps \<noteq> [0..<state_arity st]) (rm_indexes (rs_metadata st))" using assms(3) by (simp add: rstate_ok_def)
    finally have "map (ix_positions \<circ> index_insert Q t) (rs_indexes st) = filter (\<lambda>ps. ps \<noteq> [0..<state_arity st]) (rm_indexes (rs_metadata st))" .
    then show ?thesis using i s False ix assms(3) heap_counts_insert [OF rstate_okD(2) [OF assms(3)] False len]
      by (simp add: insert_indexed_def rstate_ok_def)
  qed
qed

lemma remove_indexed_ok:
  assumes "radix_laws R" "radix_laws Q" "rstate_ok R Q st A" "t \<in> rows_of (state_arity st)"
  shows "fst (remove_indexed R Q t st) = (t \<in> A)" "rstate_ok R Q (snd (remove_indexed R Q t st)) (A - {t})"
    "rs_metadata (snd (remove_indexed R Q t st)) = rs_metadata st"
proof -
  obtain b s where i: "store_remove R t (rs_tuples st) = (b, s)" by (cases "store_remove R t (rs_tuples st)")
  have s: "b = (t \<in> A)" "store_ok R (state_arity st) s (A - {t})"
    using store_remove_ok [OF assms(1) rstate_okD(3) [OF assms(3)] assms(4)] i by simp_all
  have len: "length t = state_arity st" using assms(4) by (simp add: rows_of_def)
  show "fst (remove_indexed R Q t st) = (t \<in> A)" "rs_metadata (snd (remove_indexed R Q t st)) = rs_metadata st"
    using i s(1) by (simp_all add: remove_indexed_def)
  show "rstate_ok R Q (snd (remove_indexed R Q t st)) (A - {t})"
  proof (cases "t \<in> A")
    case False
    then show ?thesis using i s assms(3) by (simp add: remove_indexed_def rstate_ok_def)
  next
    case True
    have ix: "index_ok Q (state_arity st) (index_remove Q t ix) (A - {t}) \<and> ix_positions (index_remove Q t ix) = ix_positions ix"
      if "ix \<in> set (rs_indexes st)" for ix
      using index_remove_ok [OF assms(2) rstate_okD(4) [OF assms(3) that] True] by simp
    have "map (ix_positions \<circ> index_remove Q t) (rs_indexes st) = map ix_positions (rs_indexes st)" using ix by simp
    also have "\<dots> = filter (\<lambda>ps. ps \<noteq> [0..<state_arity st]) (rm_indexes (rs_metadata st))" using assms(3) by (simp add: rstate_ok_def)
    finally have "map (ix_positions \<circ> index_remove Q t) (rs_indexes st) = filter (\<lambda>ps. ps \<noteq> [0..<state_arity st]) (rm_indexes (rs_metadata st))" .
    then show ?thesis using i s True ix assms(3) heap_counts_remove [OF rstate_okD(2) [OF assms(3)] True len]
      by (simp add: remove_indexed_def rstate_ok_def)
  qed
qed

text \<open>The set after a list of changes; a retraction only takes effect on a tuple the base held.\<close>

fun changed :: "(tuple \<Rightarrow> bool) \<Rightarrow> (tuple \<times> mutation_kind) list \<Rightarrow> tuple set \<Rightarrow> tuple set" where
  "changed B [] A = A"
| "changed B ((t, Assert) # cs) A = changed B cs (insert t A)"
| "changed B ((t, Retract) # cs) A = changed B cs (if B t then A - {t} else A)"

lemma apply_ordered_changes_ok:
  assumes "radix_laws R" "radix_laws Q"
  shows "rstate_ok R Q st A \<Longrightarrow> fst ` set cs \<subseteq> rows_of (state_arity st) \<Longrightarrow> apply_ordered_changes R Q cs B st = (applied, st') \<Longrightarrow>
    rstate_ok R Q st' (changed B cs A) \<and> rs_metadata st' = rs_metadata st \<and> changed (\<lambda>_. True) applied A = changed B cs A"
proof (induction cs arbitrary: st A applied st')
  case (Cons c cs)
  obtain t k where c: "c = (t, k)" by (cases c)
  have t: "t \<in> rows_of (state_arity st)" using Cons.prems(2) c by simp
  note ins = insert_indexed_ok [OF assms Cons.prems(1) t]
  note rem = remove_indexed_ok [OF assms Cons.prems(1) t]
  show ?case
  proof (cases k)
    case Assert
    obtain b s where i: "insert_indexed R Q t st = (b, s)" by (cases "insert_indexed R Q t st")
    obtain ap s' where a: "apply_ordered_changes R Q cs B s = (ap, s')" by (cases "apply_ordered_changes R Q cs B s")
    have "rstate_ok R Q s (insert t A)" "rs_metadata s = rs_metadata st" "b = (t \<notin> A)" using ins i by simp_all
    then show ?thesis using Cons.IH [of s "insert t A" ap s'] Cons.prems(2,3) Assert c i a
      by (auto simp: insert_absorb)
  next
    case Retract
    show ?thesis
    proof (cases "B t")
      case True
      obtain b s where i: "remove_indexed R Q t st = (b, s)" by (cases "remove_indexed R Q t st")
      obtain ap s' where a: "apply_ordered_changes R Q cs B s = (ap, s')" by (cases "apply_ordered_changes R Q cs B s")
      have "rstate_ok R Q s (A - {t})" "rs_metadata s = rs_metadata st" "b = (t \<in> A)" using rem i by simp_all
      then show ?thesis using Cons.IH [of s "A - {t}" ap s'] Cons.prems(2,3) Retract c i a True
        by (auto split: if_splits)
    next
      case False
      then show ?thesis using Cons.IH [of st A applied st'] Cons.prems Retract c by simp
    qed
  qed
qed simp

text \<open>When no tuple occurs twice, the changes reported are exactly those that took effect.\<close>

definition difference_of :: "tuple set \<Rightarrow> tuple set \<Rightarrow> (tuple \<times> mutation_kind) set" where
  "difference_of A D = (\<lambda>t. (t, Assert)) ` (D - A) \<union> (\<lambda>t. (t, Retract)) ` (A - D)"

lemma changed_other: "t \<notin> fst ` set cs \<Longrightarrow> t \<in> changed B cs A \<longleftrightarrow> t \<in> A"
  by (induction B cs A rule: changed.induct) auto

lemma difference_of_insert: "t \<in> D \<Longrightarrow> t \<notin> A \<Longrightarrow> difference_of A D = insert (t, Assert) (difference_of (insert t A) D)"
  by (auto simp: difference_of_def)

lemma difference_of_remove: "t \<notin> D \<Longrightarrow> t \<in> A \<Longrightarrow> difference_of A D = insert (t, Retract) (difference_of (A - {t}) D)"
  by (auto simp: difference_of_def)

lemma apply_ordered_changes_exact:
  assumes "radix_laws R" "radix_laws Q"
  shows "rstate_ok R Q st A \<Longrightarrow> fst ` set cs \<subseteq> rows_of (state_arity st) \<Longrightarrow> distinct (map fst cs) \<Longrightarrow>
    apply_ordered_changes R Q cs B st = (applied, st') \<Longrightarrow> set applied = difference_of A (changed B cs A)"
proof (induction cs arbitrary: st A applied st')
  case (Cons c cs)
  obtain t k where c: "c = (t, k)" by (cases c)
  have t: "t \<in> rows_of (state_arity st)" "t \<notin> fst ` set cs" using Cons.prems(2,3) c by auto
  note ins = insert_indexed_ok [OF assms Cons.prems(1) t(1)] and rem = remove_indexed_ok [OF assms Cons.prems(1) t(1)]
  show ?case
  proof (cases k)
    case Assert
    obtain b s where i: "insert_indexed R Q t st = (b, s)" by (cases "insert_indexed R Q t st")
    obtain ap s' where a: "apply_ordered_changes R Q cs B s = (ap, s')" by (cases "apply_ordered_changes R Q cs B s")
    have s: "rstate_ok R Q s (insert t A)" "state_arity s = state_arity st" "b = (t \<notin> A)" using ins i by simp_all
    have "set ap = difference_of (insert t A) (changed B cs (insert t A))" using Cons.IH [OF s(1) _ _ a] Cons.prems(2,3) s(2) by simp
    then show ?thesis using Cons.prems(4) Assert c i a s(3) difference_of_insert [of t _ A] changed_other [OF t(2), of B "insert t A"]
      by (auto simp: insert_absorb)
  next
    case Retract
    show ?thesis
    proof (cases "B t")
      case True
      obtain b s where i: "remove_indexed R Q t st = (b, s)" by (cases "remove_indexed R Q t st")
      obtain ap s' where a: "apply_ordered_changes R Q cs B s = (ap, s')" by (cases "apply_ordered_changes R Q cs B s")
      have s: "rstate_ok R Q s (A - {t})" "state_arity s = state_arity st" "b = (t \<in> A)" using rem i by simp_all
      have "set ap = difference_of (A - {t}) (changed B cs (A - {t}))" using Cons.IH [OF s(1) _ _ a] Cons.prems(2,3) s(2) by simp
      then show ?thesis using Cons.prems(4) Retract True c i a s(3) difference_of_remove [of t _ A] changed_other [OF t(2), of B "A - {t}"]
        by (auto split: if_splits)
    next
      case False
      then show ?thesis using Cons.IH [of st A applied st'] Cons.prems Retract c by simp
    qed
  qed
qed (simp add: difference_of_def)

lemma record_rows_counts:
  assumes "distinct rows" "set rows \<subseteq> rows_of n" "finite A" "A \<inter> set rows = {}" "rs_non_immediate_counts st = heap_counts n A"
  shows "rs_non_immediate_counts (fold (\<lambda>t. record_value_domains t True) rows st) = heap_counts n (A \<union> set rows)"
  using assms
proof (induction rows arbitrary: st A)
  case (Cons t rows)
  have len: "length t = n" "t \<notin> A" using Cons.prems by (auto simp: rows_of_def)
  have "rs_non_immediate_counts (record_value_domains t True st) = heap_counts n (insert t A)"
    using heap_counts_insert [OF Cons.prems(3) len(2,1)] Cons.prems(5) by simp
  then show ?case using Cons.IH [of "insert t A" "record_value_domains t True st"] Cons.prems by auto
qed simp

lemma fold_record_simps [simp]:
  "rs_metadata (fold (\<lambda>t. record_value_domains t True) rows st) = rs_metadata st"
  "rs_tuples (fold (\<lambda>t. record_value_domains t True) rows st) = rs_tuples st"
  by (induction rows arbitrary: st) simp_all

lemma apply_asserts_ok:
  assumes "radix_laws R" "radix_laws Q" "rstate_ok R Q st {}" "ascending ts" "set ts \<subseteq> rows_of (state_arity st)"
    and "apply_ordered_asserts_to_empty R Q ts st = (applied, st')"
  shows "rstate_ok R Q st' (set ts)" "rs_metadata st' = rs_metadata st" "applied = map (\<lambda>t. (t, Assert)) ts"
proof -
  have ok: "rows_ok ts" "distinct ts" using assms(4,5) row_order.strictly_distinct [of ts] by (auto simp: rows_of_def row_ok_def)
  have rows: "remdups_adj ts = ts" using ok(2) by (rule remdups_adj_distinct)
  have "rstate_ok R Q st' (set ts) \<and> rs_metadata st' = rs_metadata st \<and> applied = map (\<lambda>t. (t, Assert)) ts"
  proof (cases "ts = []")
    case False
    let ?st = "st\<lparr>rs_tuples := store_from_sorted_unique R ts, rs_non_immediate_counts := map (\<lambda>_. 0) (rs_non_immediate_counts st)\<rparr>"
    have c0: "map (\<lambda>_. 0) (rs_non_immediate_counts st) = heap_counts (state_arity st) {}"
      using assms(3) by (simp add: rstate_ok_def heap_counts_def)
    have ix: "index_ok Q (state_arity st) (from_sorted_unique_rows Q (ix_positions ix) (state_arity st) ts) (set ts) \<and>
        ix_positions (from_sorted_unique_rows Q (ix_positions ix) (state_arity st) ts) = ix_positions ix"
      if i: "ix \<in> set (rs_indexes st)" for ix
    proof -
      have "positions_ok (state_arity st) (ix_positions ix)" using rstate_okD(4) [OF assms(3) i] by (simp add: index_ok_def)
      then show ?thesis using from_sorted_ok [OF assms(2) _ assms(4,5)] by simp
    qed
    have "store_ok R (state_arity st) (store_from_sorted_unique R ts) (set ts)"
      by (rule store_from_sorted_ok [OF assms(1,4,5)])
    moreover have "rs_non_immediate_counts (fold (\<lambda>t. record_value_domains t True) ts ?st) = heap_counts (state_arity st) ({} \<union> set ts)"
      by (rule record_rows_counts) (use ok(2) assms(5) c0 in simp_all)
    moreover have "map (ix_positions \<circ> (\<lambda>ix. from_sorted_unique_rows Q (ix_positions ix) (state_arity st) ts)) (rs_indexes st) =
        filter (\<lambda>ps. ps \<noteq> [0..<state_arity st]) (rm_indexes (rs_metadata st))"
    proof -
      have "map (ix_positions \<circ> (\<lambda>ix. from_sorted_unique_rows Q (ix_positions ix) (state_arity st) ts)) (rs_indexes st) =
          map ix_positions (rs_indexes st)" using ix by simp
      then show ?thesis using assms(3) by (metis rstate_ok_def)
    qed
    ultimately show ?thesis using assms(3,6) ix False
      by (auto simp: apply_ordered_asserts_to_empty_def rows Let_def rstate_ok_def)
  qed (use assms(3,6) in \<open>simp add: apply_ordered_asserts_to_empty_def\<close>)
  then show "rstate_ok R Q st' (set ts)" "rs_metadata st' = rs_metadata st" "applied = map (\<lambda>t. (t, Assert)) ts" by simp_all
qed

section \<open>Scans\<close>

definition bindings_ok :: "nat \<Rightarrow> val option list \<Rightarrow> bool" where
  "bindings_ok n bindings \<longleftrightarrow> length bindings = n \<and> (\<forall>v. Some v \<in> set bindings \<longrightarrow> valid v)"

definition matching :: "tuple set \<Rightarrow> val option list \<Rightarrow> tuple set" where
  "matching A bindings = {t \<in> A. matches_bindings t bindings}"

text \<open>The scan visits tuples in tuple order unless it follows an index whose bound prefix is partial.\<close>

definition in_tuple_order :: "('m, 'n) relation_state \<Rightarrow> val option list \<Rightarrow> bool" where
  "in_tuple_order st bindings \<longleftrightarrow> None \<notin> set bindings \<or>
     (case best_access st bindings of Some (Some (IndexAccess ix k)) \<Rightarrow> k = length (ix_positions ix) | _ \<Rightarrow> True)"

lemma leading_bound:
  "\<forall>p \<in> set ps. p < length bindings \<Longrightarrow> \<exists>k. leading_bound_count ps bindings = Some k \<and> bound_prefix ps bindings k"
proof (induction ps)
  case (Cons p ps)
  then obtain k where "leading_bound_count ps bindings = Some k" "bound_prefix ps bindings k" by auto
  then show ?case using Cons.prems by (cases "bindings ! p") (auto simp: bound_prefix_def)
qed (simp add: bound_prefix_def)

lemma max_by_key_member: "max_by_key es = Some e \<Longrightarrow> e \<in> set es"
proof -
  have "fold (\<lambda>e best. case best of None \<Rightarrow> Some e | Some b \<Rightarrow> if snd b \<le> snd e then Some e else best) es best = Some e \<Longrightarrow>
      best = Some e \<or> e \<in> set es" for best
    by (induction es arbitrary: best) (auto split: option.splits if_splits)
  then show "max_by_key es = Some e \<Longrightarrow> e \<in> set es" unfolding max_by_key_def by blast
qed

lemma bound_counts_ok:
  assumes "\<forall>x \<in> set xs. \<forall>p \<in> set (positions x). p < length bindings"
  obtains counts where "bound_counts positions xs bindings = Some counts"
    "\<forall>(x, k) \<in> set counts. x \<in> set xs \<and> bound_prefix (positions x) bindings k"
proof
  have *: "leading_bound_count (positions x) bindings \<noteq> None \<and> bound_prefix (positions x) bindings (the (leading_bound_count (positions x) bindings))"
    if "x \<in> set xs" for x using leading_bound [of "positions x" bindings] assms that by auto
  then show "bound_counts positions xs bindings = Some (map (\<lambda>x. (x, the (leading_bound_count (positions x) bindings))) xs)"
    by (auto simp: bound_counts_def)
  show "\<forall>(x, k) \<in> set (map (\<lambda>x. (x, the (leading_bound_count (positions x) bindings))) xs). x \<in> set xs \<and> bound_prefix (positions x) bindings k"
    using * by auto
qed

fun access_ok :: "('m, 'n) relation_state \<Rightarrow> val option list \<Rightarrow> 'n scan_access option \<Rightarrow> bool" where
  "access_ok st bindings None = True"
| "access_ok st bindings (Some (StoreAccess k)) = (None \<notin> set (take k bindings))"
| "access_ok st bindings (Some (IndexAccess ix k)) = (ix \<in> set (rs_indexes st) \<and> bound_prefix (ix_positions ix) bindings k)"

lemma natural_bound: "None \<notin> set (take (natural_leading_bound_count bindings) bindings)"
  unfolding natural_leading_bound_count_def takeWhile_eq_take [symmetric] by (auto dest: set_takeWhileD)

lemma best_access_ok:
  assumes "rstate_ok R Q st A" "bindings_ok (state_arity st) bindings"
  obtains access where "best_access st bindings = Some access" "access_ok st bindings access"
proof -
  have "\<forall>ix \<in> set (rs_indexes st). \<forall>p \<in> set (ix_positions ix). p < length bindings"
    using rstate_okD(4) [OF assms(1)] assms(2) by (auto simp: index_ok_def positions_ok_def bindings_ok_def)
  then obtain counts where c: "bound_counts ix_positions (rs_indexes st) bindings = Some counts"
    "\<forall>(ix, k) \<in> set counts. ix \<in> set (rs_indexes st) \<and> bound_prefix (ix_positions ix) bindings k" by (rule bound_counts_ok)
  let ?best = "max_by_key (filter (\<lambda>(_, k). k > 0) counts)"
  have m: "ix \<in> set (rs_indexes st) \<and> bound_prefix (ix_positions ix) bindings k" if "?best = Some (ix, k)" for ix k
    using max_by_key_member [OF that] c(2) by auto
  obtain access where "best_access st bindings = Some access" using c(1) by (simp add: best_access_def)
  moreover have "access_ok st bindings access"
    using calculation c(1) m natural_bound [of bindings] by (auto simp: best_access_def split: option.splits if_splits)
  ultimately show thesis by (rule that)
qed

lemma ascending_filter: "ascending rows \<Longrightarrow> ascending (filter P rows)"
  by (simp add: strictly_def sorted_wrt_filter)

lemma index_less_irrefl: "row_ok t \<Longrightarrow> \<forall>p \<in> set ps. p < length t \<Longrightarrow> \<not> index_less ps t t"
proof -
  assume t: "row_ok t" "\<forall>p \<in> set ps. p < length t"
  have "\<forall>x \<in> set (select t ps). valid x" using t by (auto simp: select_def row_ok_def)
  then show "\<not> index_less ps t t"
    using row_order.cmp_eq [of t t] row_order.cmp_eq [of "select t ps" "select t ps"] row_valid [OF t(1)] by (simp add: index_less_def)
qed

lemma sorted_distinct: "sorted_wrt P xs \<Longrightarrow> (\<And>x. x \<in> set xs \<Longrightarrow> \<not> P x x) \<Longrightarrow> distinct xs"
  by (induction xs) auto

lemma access_rows_ok:
  assumes "radix_laws R" "radix_laws Q" "rstate_ok R Q st A" "bindings_ok (state_arity st) bindings" "access_ok st bindings access"
  obtains rows where "access_rows R Q st access bindings = Some rows" "set rows = matching A bindings" "distinct rows"
    "(case access of Some (IndexAccess ix k) \<Rightarrow> k = length (ix_positions ix) | _ \<Rightarrow> True) \<Longrightarrow> ascending rows"
proof -
  let ?n = "state_arity st"
  have b: "length bindings = ?n" "\<forall>v. Some v \<in> set bindings \<longrightarrow> valid v" using assms(4) by (auto simp: bindings_ok_def)
  have A: "\<forall>t \<in> A. row_ok t \<and> length t = ?n" using rstate_okD(1) [OF assms(3)] by (auto simp: rows_of_def)
  have dist: "distinct rows" if "ascending rows" "set rows \<subseteq> A" for rows
    by (rule row_order.strictly_distinct [OF that(1)]) (use that(2) A in \<open>auto simp: row_ok_def\<close>)
  note all = all_tuples_ok [OF assms(1) rstate_okD(3) [OF assms(3)]]
  define rows where "rows = filter (\<lambda>t. matches_bindings t bindings) (all_tuples R (rs_tuples st))"
  have rows: "set rows = matching A bindings" "ascending rows"
    using all by (auto simp: rows_def matching_def intro: ascending_filter)
  show thesis
  proof (cases access)
    case None
    then show ?thesis using rows dist [OF rows(2)] by (intro that [of rows]) (auto simp: access_rows_def store_matching_eq rows_def matching_def)
  next
    case (Some a)
    show ?thesis
    proof (cases a)
      case (StoreAccess k)
      then have "access_rows R Q st access bindings = Some rows"
        using store_visit_prefix_ok [OF assms(1) rstate_okD(3) [OF assms(3)] b(1) _ b(2), of k] assms(5) Some
        by (simp add: access_rows_def rows_def)
      then show ?thesis using rows dist [OF rows(2)] StoreAccess Some by (intro that [of rows]) (auto simp: matching_def)
    next
      case (IndexAccess ix k)
      have ix: "index_ok Q ?n ix A" "bound_prefix (ix_positions ix) bindings k"
        using assms(5) rstate_okD(4) [OF assms(3)] Some IndexAccess by auto
      note v = index_visit_ok [OF assms(2) ix(1) b(1) ix(2) b(2)]
      have ps: "\<forall>p \<in> set (ix_positions ix). p < ?n" using ix(1) by (simp add: index_ok_def positions_ok_def)
      have "distinct (index_visit_prefix Q ix bindings k)"
      proof (rule sorted_distinct)
        show "sorted_wrt (index_less (ix_positions ix)) (index_visit_prefix Q ix bindings k)" by (rule v(2))
        show "\<not> index_less (ix_positions ix) t t" if "t \<in> set (index_visit_prefix Q ix bindings k)" for t
          using that v(1) A ps by (intro index_less_irrefl) auto
      qed
      then show ?thesis using v(1,3) Some IndexAccess
        by (intro that [of "index_visit_prefix Q ix bindings k"]) (auto simp: access_rows_def matching_def)
    qed
  qed
qed

lemma full_bindings_matching:
  assumes "bindings_ok n bindings" "None \<notin> set bindings" "A \<subseteq> rows_of n"
  shows "map the bindings \<in> rows_of n" "matching A bindings = A \<inter> {map the bindings}"
proof -
  have len: "length bindings = n" using assms(1) by (simp add: bindings_ok_def)
  have v: "valid (the b)" if b: "b \<in> set bindings" for b
  proof (cases b)
    case (Some v)
    then have "Some v \<in> set bindings" using b by simp
    then show ?thesis using assms(1) Some by (simp add: bindings_ok_def)
  qed (use assms(2) b in simp)
  have "\<forall>x \<in> set (map the bindings). valid x" unfolding set_map by (rule ballI, erule imageE) (simp only: v)
  then show "map the bindings \<in> rows_of n" using len by (simp only: rows_of_def row_ok_def mem_Collect_eq length_map)
  have "matches_bindings t bindings \<longleftrightarrow> t = map the bindings" if "t \<in> rows_of n" for t
  proof -
    have t: "take n t = t" "take n bindings = bindings" "length bindings = length t" using that len by (simp_all add: rows_of_def)
    have c: "natural_prefix_covers_all_bindings bindings n" using len by (simp add: natural_prefix_covers_all_bindings_def)
    show ?thesis
      using matches_prefix [of n bindings t, unfolded t(1,2), OF assms(2) t(3)] prefix_matches [of n bindings t, unfolded t(1,2), OF assms(2) t(3) _ c] by blast
  qed
  then show "matching A bindings = A \<inter> {map the bindings}" using assms(3) by (auto simp: matching_def)
qed

lemma state_scan_ok:
  assumes "radix_laws R" "radix_laws Q" "rstate_ok R Q st A" "bindings_ok (state_arity st) bindings"
  obtains rows where "state_scan R Q st bindings = kok rows" "set rows = matching A bindings" "distinct rows"
    "in_tuple_order st bindings \<Longrightarrow> ascending rows"
    "None \<notin> set bindings \<Longrightarrow> length rows \<le> 1"
proof -
  have v: "validate_bindings st bindings = kok ()" using assms(4) by (simp add: validate_bindings_def bindings_ok_def kok_def)
  obtain access where a: "best_access st bindings = Some access" "access_ok st bindings access"
    by (rule best_access_ok [OF assms(3,4)])
  obtain rows where r: "access_rows R Q st access bindings = Some rows" "set rows = matching A bindings" "distinct rows"
    "(case access of Some (IndexAccess ix k) \<Rightarrow> k = length (ix_positions ix) | _ \<Rightarrow> True) \<Longrightarrow> ascending rows"
    by (rule access_rows_ok [OF assms a(2)]) (rule that)
  show thesis
  proof (cases "None \<in> set bindings")
    case True
    then have "state_scan R Q st bindings = kok rows"
      using v a(1) r(1) by (simp add: state_scan_def full_tuple_binding_values_def kbind_def kok_def lift_panic_def)
    then show ?thesis using r(2-4) a(1) True by (intro that [of rows]) (auto simp: in_tuple_order_def)
  next
    case False
    note f = full_bindings_matching [OF assms(4) False rstate_okD(1) [OF assms(3)]]
    have "tuple_for_values R (rs_tuples st) (map the bindings) = same A (map the bindings)"
      by (rule store_contains_ok(2) [OF rstate_okD(3) [OF assms(3)] f(1)])
    then have "state_scan R Q st bindings = kok (if map the bindings \<in> A then [map the bindings] else [])"
      using v False by (simp add: state_scan_def full_tuple_binding_values_def kbind_def kok_def same_def)
    then show ?thesis using f(2) by (intro that [of "if map the bindings \<in> A then [map the bindings] else []"]) (auto simp: strictly_def)
  qed
qed

lemma state_scan_arity:
  "length bindings \<noteq> state_arity st \<Longrightarrow>
    state_scan R Q st bindings = Some (Inl (ArityMismatch (rm_id (rs_metadata st)) (state_arity st) (length bindings)))"
  by (simp add: state_scan_def validate_bindings_def kbind_def)

text \<open>A visit that does not stop early sees the rows of the scan; one that stops at once sees the first.\<close>

lemma visit_fold:
  "visit_rows (\<lambda>t s. kok (Continue, f t s)) rows s = kok (fold f rows s)"
  by (induction rows arbitrary: s) (simp_all add: kbind_def kok_def)

lemma state_visit_scan:
  assumes "state_scan R Q st bindings = kok rows"
  shows "state_visit R Q st bindings (\<lambda>t s. kok (Continue, f t s)) s = kok (fold f rows s)"
    "first_visited R Q st bindings = Some (case rows of [] \<Rightarrow> None | t # _ \<Rightarrow> Some t)"
proof -
  have v: "validate_bindings st bindings = Some (Inr ())"
    using assms by (auto simp: state_scan_def validate_bindings_def kbind_def kok_def split: if_splits)
  show "state_visit R Q st bindings (\<lambda>t s. kok (Continue, f t s)) s = kok (fold f rows s)"
  proof (cases "full_tuple_binding_values bindings")
    case None
    then show ?thesis using assms v visit_fold [of f]
      by (auto simp: state_visit_def state_scan_def kbind_def lift_panic_def kok_def split: option.splits sum.splits)
  next
    case (Some vs)
    then show ?thesis using assms v
      by (auto simp: state_visit_def state_scan_def kbind_def kok_def split: option.splits)
  qed
  show "first_visited R Q st bindings = Some (case rows of [] \<Rightarrow> None | t # _ \<Rightarrow> Some t)"
  proof (cases "full_tuple_binding_values bindings")
    case None
    have "visit_rows (\<lambda>t _. kok (Stop, Some t)) rows None = kok (case rows of [] \<Rightarrow> None | t # _ \<Rightarrow> Some t)"
      by (cases rows) (simp_all add: kbind_def kok_def)
    then show ?thesis using assms v None
      by (auto simp: first_visited_def state_visit_def state_scan_def kbind_def lift_panic_def kok_def split: option.splits sum.splits)
  next
    case (Some vs)
    then show ?thesis using assms v
      by (auto simp: first_visited_def state_visit_def state_scan_def kbind_def kok_def split: option.splits)
  qed
qed

section \<open>Lookups by key\<close>

lemma bind_fold:
  assumes "\<forall>p \<in> set ps. p < length bs"
  shows "length (fold (\<lambda>(p, v) b. b[p := Some v]) (zip ps (select t ps)) bs) = length bs"
    "i < length bs \<Longrightarrow> fold (\<lambda>(p, v) b. b[p := Some v]) (zip ps (select t ps)) bs ! i = (if i \<in> set ps then Some (t ! i) else bs ! i)"
  using assms
proof (induction ps arbitrary: bs)
  case (Cons p ps)
  {
    case 1
    then show ?case using Cons.IH(1) [of "bs[p := Some (t ! p)]"] by (simp add: select_def)
  next
    case 2
    then show ?case using Cons.IH(2) [of "bs[p := Some (t ! p)]"] by (auto simp: select_def nth_list_update)
  }
qed (simp_all add: select_def)

lemma bind_positions_matching:
  assumes "\<forall>p \<in> set ps. p < n" "t \<in> rows_of n" "A \<subseteq> rows_of n"
  shows "bindings_ok n (bind_positions n ps (select t ps))" "matching A (bind_positions n ps (select t ps)) = sharing A ps (select t ps)"
proof -
  let ?b = "bind_positions n ps (select t ps)"
  have b: "length ?b = n" "\<And>i. i < n \<Longrightarrow> ?b ! i = (if i \<in> set ps then Some (t ! i) else None)"
    using bind_fold [of ps "replicate n None", where t = t] assms(1) by (simp_all add: bind_positions_def)
  have "valid v" if v: "Some v \<in> set ?b" for v
  proof -
    obtain i where "i < n" "?b ! i = Some v" using v b(1) by (metis in_set_conv_nth)
    then show ?thesis using b(2) [of i] assms(2) by (auto simp: rows_of_def row_ok_def split: if_splits)
  qed
  then show "bindings_ok n ?b" using b(1) by (simp add: bindings_ok_def)
  have "matches_bindings u ?b \<longleftrightarrow> select u ps = select t ps" for u
  proof -
    have "matches_bindings u ?b \<longleftrightarrow> (\<forall>i < n. i \<in> set ps \<longrightarrow> u ! i = t ! i)"
      unfolding matches_bindings_def b(1) by (rule all_cong) (simp add: b(2))
    also have "\<dots> \<longleftrightarrow> select u ps = select t ps" using assms(1) by (auto simp: select_def)
    finally show ?thesis .
  qed
  then show "matching A ?b = sharing A ps (select t ps)" by (auto simp: matching_def sharing_def)
qed

lemma state_key_lookup:
  assumes "radix_laws R" "radix_laws Q" "rstate_ok R Q st A" "\<forall>p \<in> set ps. p < state_arity st" "t \<in> rows_of (state_arity st)"
  obtains r where "tuple_for_key R Q st ps t = Some r" "tuple_for_projected_values R Q st ps (select t ps) = Some r"
    "finds A ps (select t ps) r"
proof -
  let ?n = "state_arity st"
  consider (natural) "is_natural_full_tuple_positions ps ?n"
    | (index) ix where "\<not> is_natural_full_tuple_positions ps ?n" "index_for_positions st ps = Some ix"
    | (visit) "\<not> is_natural_full_tuple_positions ps ?n" "index_for_positions st ps = None" by blast
  then show thesis
  proof cases
    case natural
    then have ps: "ps = [0..<?n]" by (simp add: is_natural_full_tuple_positions_def)
    have self: "select u ps = u" if "u \<in> rows_of ?n" for u
      using that unfolding ps select_def rows_of_def by (metis (mono_tags, lifting) map_nth mem_Collect_eq)
    have "sharing A ps t = A \<inter> {t}" using rstate_okD(1) [OF assms(3)] self by (auto simp: sharing_def)
    then have "finds A ps (select t ps) (same A t)" using self [OF assms(5)] by (simp add: finds_def same_def)
    then show ?thesis using natural store_contains_ok(2) [OF rstate_okD(3) [OF assms(3)] assms(5)] self [OF assms(5)]
      by (intro that [of "same A t"]) (simp_all add: tuple_for_key_def tuple_for_projected_values_def)
  next
    case index
    then have ix: "ix \<in> set (rs_indexes st)" "ix_positions ix = ps"
      by (auto simp: index_for_positions_def find_Some_iff)
    note k = tuple_for_key_ok [OF rstate_okD(4) [OF assms(3) ix(1)]]
    have "tuple_for_key_values Q ix (select t ps) = tuple_for_key_tuple Q ix t"
      using ix(2) by (simp add: tuple_for_key_values_def tuple_for_key_tuple_def tuple_key_def)
    then show ?thesis using index k(2) [OF assms(5)] ix(2)
      by (intro that [of "tuple_for_key_tuple Q ix t"]) (simp_all add: tuple_for_key_def tuple_for_projected_values_def)
  next
    case visit
    let ?b = "bind_positions ?n ps (select t ps)"
    note b = bind_positions_matching [OF assms(4,5) rstate_okD(1) [OF assms(3)]]
    obtain rows where r: "state_scan R Q st ?b = kok rows" "set rows = matching A ?b"
      by (rule state_scan_ok [OF assms(1-3) b(1)]) (rule that)
    have "finds A ps (select t ps) (case rows of [] \<Rightarrow> None | t # _ \<Rightarrow> Some t)"
      using r(2) b(2) by (cases rows) (auto simp: finds_def)
    then show ?thesis using visit state_visit_scan(2) [OF r(1)]
      by (intro that [of "case rows of [] \<Rightarrow> None | t # _ \<Rightarrow> Some t"]) (simp_all add: tuple_for_key_def tuple_for_projected_values_def)
  qed
qed

section \<open>Column domains\<close>

lemma value_domains_ok:
  assumes "rstate_ok R Q st A" "i < state_arity st"
  shows "value_domains st ! i =
    (if \<forall>t \<in> A. is_immediate (t ! i) then Immediate else if \<forall>t \<in> A. \<not> is_immediate (t ! i) then Heap else Mixed)"
proof -
  let ?H = "{t \<in> A. \<not> is_immediate (t ! i)}"
  have fin: "finite A" by (rule rstate_okD(2) [OF assms(1)])
  have card: "cardinality st = card A" using store_len_ok(1) [OF rstate_okD(3) [OF assms(1)]] by (simp add: cardinality_def)
  have "rs_non_immediate_counts st = heap_counts (state_arity st) A" using assms(1) by (simp add: rstate_ok_def)
  then have "value_domains st ! i = (if card ?H = 0 then Immediate else if card ?H = card A then Heap else Mixed)"
    using assms(2) by (simp add: value_domains_def heap_counts_def card)
  moreover have "card ?H = 0 \<longleftrightarrow> (\<forall>t \<in> A. is_immediate (t ! i))" using fin by auto
  moreover have "card ?H = card A \<longleftrightarrow> (\<forall>t \<in> A. \<not> is_immediate (t ! i))"
  proof
    assume "card ?H = card A"
    then have "?H = A" using fin by (intro card_subset_eq) auto
    then show "\<forall>t \<in> A. \<not> is_immediate (t ! i)" by blast
  next
    assume "\<forall>t \<in> A. \<not> is_immediate (t ! i)"
    then have "?H = A" by blast
    then show "card ?H = card A" by simp
  qed
  ultimately show ?thesis by simp
qed

end
