(* ===== verification/Overlay.thy ===== *)
theory Overlay
  imports RelationState
begin

text \<open>
  The uncommitted writes of one relation, \<open>crates/relation-kernel/src/transaction/overlay.rs\<close>: the last
  change per tuple, in a sorted vector that becomes a radix tree beyond 64 entries, the scan indexes
  built over it on the second request for the same bound positions, and the map from functional keys
  to the tuple the transaction sees under them.

  A \<open>LocalChange\<close> is a \<open>RelationMutationKind\<close> of the same name. The hash maps of a write overlay are
  maps; a visit returns the entries it visits with the overlay it leaves behind, because the scan
  index cache sits in a \<open>RefCell\<close>.
\<close>

section \<open>Data and operations\<close>

type_synonym local_change = mutation_kind
type_synonym overlay_entry = "tuple \<times> local_change"

definition LOCAL_RADIX_OVERLAY_THRESHOLD :: nat where "LOCAL_RADIX_OVERLAY_THRESHOLD = 64"

datatype 'e overlay_changes = SmallChanges "overlay_entry list" | RadixChanges 'e

text \<open>The search by tuple, and the replacement or insertion it leads to.\<close>

definition put_entry :: "tuple \<Rightarrow> local_change \<Rightarrow> overlay_entry list \<Rightarrow> bool \<times> overlay_entry list" where
  "put_entry t c es =
     (case binary_search (\<lambda>e x. slice_cmp val_cmp (fst e) x) t es of
        Inr i \<Rightarrow> (False, es[i := (fst (es ! i), c)])
      | Inl i \<Rightarrow> (True, insert_at i (t, c) es))"

fun changes_entries :: "('e, overlay_entry) radix_ops \<Rightarrow> 'e overlay_changes \<Rightarrow> overlay_entry list" where
  "changes_entries E (SmallChanges es) = es"
| "changes_entries E (RadixChanges m) = rx_values E m"

definition all_are_asserts :: "('e, overlay_entry) radix_ops \<Rightarrow> 'e overlay_changes \<Rightarrow> bool" where
  "all_are_asserts E ch \<longleftrightarrow> (\<forall>e \<in> set (changes_entries E ch). snd e = Assert)"

fun fill_entries :: "('e, overlay_entry) radix_ops \<Rightarrow> overlay_entry list \<Rightarrow> 'e \<Rightarrow> 'e" where
  "fill_entries E [] m = m"
| "fill_entries E (e # es) m = fill_entries E es (snd (rx_insert E (key_from_values (fst e)) e m))"

fun changes_insert :: "('e, overlay_entry) radix_ops \<Rightarrow> tuple \<Rightarrow> local_change \<Rightarrow> 'e overlay_changes \<Rightarrow> bool \<times> 'e overlay_changes" where
  "changes_insert E t c (SmallChanges es) =
     (let (added, es') = put_entry t c es in
      (added, if length es' > LOCAL_RADIX_OVERLAY_THRESHOLD then RadixChanges (fill_entries E es' (rx_new E)) else SmallChanges es'))"
| "changes_insert E t c (RadixChanges m) =
     (rx_get E m (key_from_values t) = None, RadixChanges (snd (rx_insert E (key_from_values t) (t, c) m)))"

record ('e, 'x) overlay =
  ov_changes :: "'e overlay_changes"
  ov_change_count :: usize
  ov_scan_indexes :: "nat list \<Rightarrow> 'x option"
  ov_scan_requests :: "nat list \<Rightarrow> usize option"

definition overlay_default :: "('e, 'x) overlay" where
  "overlay_default = \<lparr>ov_changes = SmallChanges [], ov_change_count = 0, ov_scan_indexes = Map.empty, ov_scan_requests = Map.empty\<rparr>"

definition projected_key :: "tuple \<Rightarrow> nat list \<Rightarrow> bytes" where
  "projected_key t ps = key_from_values (select t ps)"

definition scan_record_change :: "('x, overlay_entry list) radix_ops \<Rightarrow> nat list \<Rightarrow> tuple \<Rightarrow> local_change \<Rightarrow> 'x \<Rightarrow> 'x" where
  "scan_record_change X ps t c m =
     rx_update X (projected_key t ps)
       (\<lambda>slot. case slot of None \<Rightarrow> Some [(t, c)] | Some rows \<Rightarrow> Some (snd (put_entry t c rows))) m"

definition overlay_insert ::
  "('e, overlay_entry) radix_ops \<Rightarrow> ('x, overlay_entry list) radix_ops \<Rightarrow> tuple \<Rightarrow> local_change \<Rightarrow> ('e, 'x) overlay \<Rightarrow> ('e, 'x) overlay" where
  "overlay_insert E X t c ov =
     (let (added, changes) = changes_insert E t c (ov_changes ov) in
      ov\<lparr>ov_scan_indexes := (\<lambda>ps. map_option (scan_record_change X ps t c) (ov_scan_indexes ov ps)),
         ov_changes := changes, ov_change_count := ov_change_count ov + (if added then 1 else 0)\<rparr>)"

definition overlay_entries :: "('e, overlay_entry) radix_ops \<Rightarrow> ('e, 'x) overlay \<Rightarrow> overlay_entry list" where
  "overlay_entries E ov = changes_entries E (ov_changes ov)"

definition best_local_prefix_positions :: "relation_metadata \<Rightarrow> val option list \<Rightarrow> nat list option option" where
  "best_local_prefix_positions md bindings =
     (case bound_counts id (rm_indexes md) bindings of
        None \<Rightarrow> None
      | Some counts \<Rightarrow> Some (map_option (\<lambda>(ps, k). take k ps) (max_by_key (filter (\<lambda>(_, k). k > 0) counts))))"

definition build_scan_index :: "('x, overlay_entry list) radix_ops \<Rightarrow> nat list \<Rightarrow> overlay_entry list \<Rightarrow> 'x" where
  "build_scan_index X ps es =
     fold (\<lambda>e. rx_update X (projected_key (fst e) ps)
       (\<lambda>slot. case slot of None \<Rightarrow> Some [e] | Some rows \<Rightarrow> Some (rows @ [e]))) es (rx_new X)"

definition ensure_scan_index ::
  "('e, overlay_entry) radix_ops \<Rightarrow> ('x, overlay_entry list) radix_ops \<Rightarrow> nat list \<Rightarrow> ('e, 'x) overlay \<Rightarrow> ('e, 'x) overlay" where
  "ensure_scan_index E X ps ov =
     (if ov_scan_indexes ov ps \<noteq> None then ov
      else ov\<lparr>ov_scan_indexes := (ov_scan_indexes ov)(ps \<mapsto> build_scan_index X ps (overlay_entries E ov))\<rparr>)"

text \<open>\<open>None\<close>: a binding out of range, or an index that is missing after it was built.\<close>

definition visit_matches ::
  "('e, overlay_entry) radix_ops \<Rightarrow> ('x, overlay_entry list) radix_ops \<Rightarrow> relation_metadata \<Rightarrow> val option list \<Rightarrow>
     ('e, 'x) overlay \<Rightarrow> (overlay_entry list \<times> ('e, 'x) overlay) option" where
  "visit_matches E X md bindings ov =
     (case best_local_prefix_positions md bindings of
        None \<Rightarrow> None
      | Some None \<Rightarrow> Some (overlay_entries E ov, ov)
      | Some (Some ps) \<Rightarrow>
          let requests = (case ov_scan_requests ov ps of None \<Rightarrow> 0 | Some k \<Rightarrow> k) + 1;
              ov' = (if ov_scan_indexes ov ps = None then ov\<lparr>ov_scan_requests := (ov_scan_requests ov)(ps \<mapsto> requests)\<rparr> else ov) in
          if ov_scan_indexes ov ps = None \<and> requests = 1 then Some (overlay_entries E ov, ov')
          else
            let ov'' = ensure_scan_index E X ps ov' in
            if \<exists>p \<in> set ps. length bindings \<le> p \<or> bindings ! p = None then None
            else case ov_scan_indexes ov'' ps of
              None \<Rightarrow> None
            | Some m \<Rightarrow> Some (case rx_get X m (key_from_values (map (\<lambda>p. the (bindings ! p)) ps)) of None \<Rightarrow> [] | Some rows \<Rightarrow> rows, ov''))"

text \<open>The last tuple written under each key, in key order.\<close>

definition touched_projected_keys :: "('e, overlay_entry) radix_ops \<Rightarrow> nat list \<Rightarrow> ('e, 'x) overlay \<Rightarrow> (val list \<times> tuple) list" where
  "touched_projected_keys E ps ov =
     (let es = overlay_entries E ov; keys = finish_tuple_rows (map (\<lambda>e. select (fst e) ps) es) in
      map (\<lambda>q. (q, fst (last (filter (\<lambda>e. select (fst e) ps = q) es)))) keys)"

definition overlay_apply ::
  "('m, tuple) radix_ops \<Rightarrow> ('n, tuple_bucket) radix_ops \<Rightarrow> ('e, overlay_entry) radix_ops \<Rightarrow> ('e, 'x) overlay \<Rightarrow>
     ('m, 'n) relation_state \<Rightarrow> ('m, 'n) relation_state \<Rightarrow> (tuple \<times> mutation_kind) list \<times> ('m, 'n) relation_state" where
  "overlay_apply R Q E ov base st =
     (if state_is_empty base \<and> cardinality st = 0 \<and> all_are_asserts E (ov_changes ov)
      then apply_ordered_asserts_to_empty R Q (map fst (overlay_entries E ov)) st
      else apply_ordered_changes R Q (overlay_entries E ov) (contains_tuple R base) st)"

subsection \<open>The tuple visible under a functional key\<close>

record visible_entry =
  ve_representative :: tuple
  ve_tuple :: "tuple option"

record 'f visible_map =
  vm_positions :: "nat list"
  vm_tuples :: 'f

definition visible_after_change :: "tuple option \<Rightarrow> tuple \<Rightarrow> local_change \<Rightarrow> tuple option" where
  "visible_after_change current t c =
     (case c of Assert \<Rightarrow> Some t | Retract \<Rightarrow> if current = Some t then None else current)"

definition visible_new :: "('f, visible_entry) radix_ops \<Rightarrow> nat list \<Rightarrow> 'f visible_map" where
  "visible_new F ps = \<lparr>vm_positions = ps, vm_tuples = rx_new F\<rparr>"

definition visible_record :: "('f, visible_entry) radix_ops \<Rightarrow> tuple \<Rightarrow> local_change \<Rightarrow> tuple option \<Rightarrow> 'f visible_map \<Rightarrow> 'f visible_map" where
  "visible_record F t c base_current vm =
     vm\<lparr>vm_tuples := rx_update F (projected_key t (vm_positions vm))
       (\<lambda>slot. Some (case slot of
          None \<Rightarrow> \<lparr>ve_representative = t, ve_tuple = visible_after_change base_current t c\<rparr>
        | Some e \<Rightarrow> e\<lparr>ve_tuple := visible_after_change (ve_tuple e) t c\<rparr>)) (vm_tuples vm)\<rparr>"

fun visible_from_entries ::
  "('f, visible_entry) radix_ops \<Rightarrow> (tuple \<Rightarrow> tuple option option) \<Rightarrow> overlay_entry list \<Rightarrow> 'f visible_map \<Rightarrow> 'f visible_map option" where
  "visible_from_entries F lookup [] vm = Some vm"
| "visible_from_entries F lookup ((t, c) # es) vm =
     (case lookup t of None \<Rightarrow> None | Some current \<Rightarrow> visible_from_entries F lookup es (visible_record F t c current vm))"

definition from_writes ::
  "('f, visible_entry) radix_ops \<Rightarrow> ('e, overlay_entry) radix_ops \<Rightarrow> nat list \<Rightarrow> ('e, 'x) overlay option \<Rightarrow>
     (tuple \<Rightarrow> tuple option option) \<Rightarrow> 'f visible_map option" where
  "from_writes F E ps writes lookup =
     visible_from_entries F lookup (case writes of None \<Rightarrow> [] | Some ov \<Rightarrow> overlay_entries E ov) (visible_new F ps)"

definition tracked_tuple :: "('f, visible_entry) radix_ops \<Rightarrow> 'f visible_map \<Rightarrow> tuple \<Rightarrow> tuple option option" where
  "tracked_tuple F vm t = map_option ve_tuple (rx_get F (vm_tuples vm) (projected_key t (vm_positions vm)))"

definition has_entry_for :: "('f, visible_entry) radix_ops \<Rightarrow> 'f visible_map \<Rightarrow> tuple \<Rightarrow> bool" where
  "has_entry_for F vm t \<longleftrightarrow> rx_get F (vm_tuples vm) (projected_key t (vm_positions vm)) \<noteq> None"

definition record_change_with_base_lookup ::
  "('f, visible_entry) radix_ops \<Rightarrow> tuple \<Rightarrow> local_change \<Rightarrow> (nat list \<Rightarrow> tuple option option) \<Rightarrow> 'f visible_map \<Rightarrow> 'f visible_map option" where
  "record_change_with_base_lookup F t c lookup vm =
     (case c of
        Assert \<Rightarrow> Some (visible_record F t c None vm)
      | Retract \<Rightarrow>
          if has_entry_for F vm t then Some (visible_record F t c None vm)
          else map_option (\<lambda>current. visible_record F t c current vm) (lookup (vm_positions vm)))"

definition conflict_entries :: "('f, visible_entry) radix_ops \<Rightarrow> 'f visible_map \<Rightarrow> visible_entry list" where
  "conflict_entries F vm = rx_values F (vm_tuples vm)"

section \<open>An overlay is a map from tuples to their last change\<close>

definition entries_ok :: "nat \<Rightarrow> overlay_entry list \<Rightarrow> (tuple \<Rightarrow> local_change option) \<Rightarrow> bool" where
  "entries_ok n es W \<longleftrightarrow> ascending (map fst es) \<and> fst ` set es \<subseteq> rows_of n \<and> map_of es = W"

lemma entries_okD:
  assumes "entries_ok n es W"
  shows "distinct (map fst es)" "dom W = fst ` set es" "dom W \<subseteq> rows_of n" "finite (dom W)" "card (dom W) = length es"
    "(t, c) \<in> set es \<longleftrightarrow> W t = Some c"
proof -
  show d: "distinct (map fst es)"
    by (rule row_order.strictly_distinct) (use assms in \<open>auto simp: entries_ok_def rows_of_def row_ok_def\<close>)
  show dom: "dom W = fst ` set es" "dom W \<subseteq> rows_of n"
    using assms dom_map_of_conv_image_fst [of es] unfolding entries_ok_def by simp_all
  then show "finite (dom W)" by simp
  show "card (dom W) = length es" using d dom(1) by (metis distinct_card length_map set_map)
  show "(t, c) \<in> set es \<longleftrightarrow> W t = Some c" using d assms map_of_eq_Some_iff by (auto simp: entries_ok_def)
qed

lemma entries_canonical:
  assumes "entries_ok n es W"
  shows "es = map (\<lambda>t. (t, the (W t))) (map fst es)"
proof -
  have "(fst e, the (W (fst e))) = e" if "e \<in> set es" for e using entries_okD(6) [OF assms, of "fst e" "snd e"] that by simp
  then show ?thesis by (simp add: map_idI)
qed

lemma entries_unique:
  assumes "entries_ok n es W" "entries_ok n es' W"
  shows "es = es'"
proof -
  have "map fst es = map fst es'"
    by (rule row_order.strictly_unique) (use assms entries_okD(2) [OF assms(1)] entries_okD(2) [OF assms(2)] in \<open>auto simp: entries_ok_def rows_of_def row_ok_def\<close>)
  then show ?thesis using entries_canonical [OF assms(1)] entries_canonical [OF assms(2)] by simp
qed

lemma entries_filter:
  assumes "entries_ok n es W"
  shows "entries_ok n (filter (\<lambda>e. P (fst e)) es) (\<lambda>t. if P t then W t else None)"
proof -
  have "map_of (filter (\<lambda>e. P (fst e)) es) = (\<lambda>t. if P t then map_of es t else None)" by (induction es) (auto simp: fun_eq_iff)
  moreover have "ascending (map fst (filter (\<lambda>e. P (fst e)) es))"
    using assms by (simp add: entries_ok_def strictly_def sorted_wrt_map sorted_wrt_filter)
  ultimately show ?thesis using assms by (auto simp: entries_ok_def)
qed

lemma search_fst: "binary_search (\<lambda>e x. f (fst e) x) t es = binary_search f t (map fst es)"
  by (simp add: binary_search_def takeWhile_map comp_def Let_def cong: conj_cong)

lemma map_of_put: "t \<notin> fst ` set xs \<Longrightarrow> map_of (xs @ (t, c) # ys) = (map_of (xs @ ys))(t \<mapsto> c)"
  by (induction xs) (auto simp: fun_eq_iff)

lemma put_entry_ok:
  assumes "entries_ok n es W" "t \<in> rows_of n"
  shows "fst (put_entry t c es) = (W t = None)" "entries_ok n (snd (put_entry t c es)) (W(t \<mapsto> c))"
proof -
  have v: "\<forall>y \<in> set (map fst es). \<forall>x \<in> set y. valid x" "\<forall>x \<in> set t. valid x"
    using assms by (auto simp: entries_ok_def rows_of_def row_ok_def)
  have asc: "ascending (map fst es)" "map_of es = W" "fst ` set es \<subseteq> rows_of n" using assms(1) by (auto simp: entries_ok_def)
  have "fst (put_entry t c es) = (W t = None) \<and> entries_ok n (snd (put_entry t c es)) (W(t \<mapsto> c))"
  proof (cases "binary_search (slice_cmp val_cmp) t (map fst es)")
    case (Inl i)
    note m = row_order.search_missing [OF asc(1) v Inl]
    have i: "map fst (insert_at i (t, c) es) = insert_at i t (map fst es)" by (simp add: insert_at_def take_map drop_map)
    have none: "W t = None" using m(1) entries_okD(2) [OF assms(1)] by auto
    have "t \<notin> fst ` set (take i es)" using m(1) in_set_takeD [of _ i es] by auto
    then have "map_of (insert_at i (t, c) es) = (map_of es)(t \<mapsto> c)"
      unfolding insert_at_def using map_of_put [of t "take i es" c "drop i es"] unfolding append_take_drop_id by blast
    moreover have "fst ` set (insert_at i (t, c) es) \<subseteq> rows_of n" using m(3) i asc(3) assms(2) by (metis insert_subset set_map)
    ultimately have "entries_ok n (insert_at i (t, c) es) (W(t \<mapsto> c))" using m(2) i asc(2) by (simp add: entries_ok_def)
    then show ?thesis using Inl none by (simp add: put_entry_def search_fst)
  next
    case (Inr i)
    note f = row_order.search_found [OF asc(1) v Inr]
    have i: "i < length es" "fst (es ! i) = t" using f by auto
    then have some: "W t \<noteq> None" using entries_okD(2) [OF assms(1)] by (metis domIff image_eqI nth_mem)
    have keys: "map fst (es[i := (t, c)]) = map fst es" using i by (simp add: map_update list_update_same_conv)
    have "map_of (es[i := (t, c)]) = (map_of es)(t \<mapsto> c)"
    proof -
      have e: "es = take i es @ (t, snd (es ! i)) # drop (Suc i) es" using id_take_nth_drop [OF i(1)] i(2) by (metis prod.collapse)
      have "distinct (map fst (take i es @ (t, snd (es ! i)) # drop (Suc i) es))" using entries_okD(1) [OF assms(1)] e by metis
      then have t: "t \<notin> fst ` set (take i es)" by auto
      have "map_of es = (map_of (take i es @ drop (Suc i) es))(t \<mapsto> snd (es ! i))" using map_of_put [OF t] e by metis
      then show ?thesis unfolding upd_conv_take_nth_drop [OF i(1)] map_of_put [OF t] by simp
    qed
    then have "entries_ok n (es[i := (t, c)]) (W(t \<mapsto> c))" using keys asc by (simp add: entries_ok_def) (metis asc(3) keys set_map)
    then show ?thesis using Inr some i(2) by (simp add: put_entry_def search_fst)
  qed
  then show "fst (put_entry t c es) = (W t = None)" "entries_ok n (snd (put_entry t c es)) (W(t \<mapsto> c))" by simp_all
qed

definition changes_ok :: "('e, overlay_entry) radix_ops \<Rightarrow> nat \<Rightarrow> 'e overlay_changes \<Rightarrow> (tuple \<Rightarrow> local_change option) \<Rightarrow> bool" where
  "changes_ok E n ch W \<longleftrightarrow>
     (case ch of SmallChanges es \<Rightarrow> entries_ok n es W | RadixChanges m \<Rightarrow> keyed E n m (\<lambda>t. map_option (Pair t) (W t)))"

lemma changes_entries_ok:
  assumes "radix_laws E" "changes_ok E n ch W"
  shows "entries_ok n (changes_entries E ch) W"
proof (cases ch)
  case (RadixChanges m)
  then have k: "keyed E n m (\<lambda>t. map_option (Pair t) (W t))" using assms(2) by (simp add: changes_ok_def)
  obtain rows where r: "ascending rows" "set rows = dom (\<lambda>t. map_option (Pair t) (W t))"
    "rx_values E m = map (\<lambda>t. the (map_option (Pair t) (W t))) rows"
    by (rule keyed_iter [OF assms(1) k]) (rule that)
  have dom: "set rows = dom W" using r(2) by (auto simp: dom_def)
  have vals: "changes_entries E ch = map (\<lambda>t. (t, the (W t))) rows" using RadixChanges r(3) dom by (auto simp: dom_def)
  have "map_of (map (\<lambda>t. (t, the (W t))) rows) = W"
    by (rule ext) (use dom in \<open>auto simp: map_of_map_restrict restrict_map_def comp_def dom_def\<close>)
  moreover have "dom W \<subseteq> rows_of n" using k dom r(2) by (auto simp: keyed_def)
  ultimately show ?thesis using r(1) dom by (auto simp: entries_ok_def vals comp_def)
qed (use assms(2) in \<open>simp add: changes_ok_def\<close>)

lemma fill_entries_ok:
  assumes "radix_laws E"
  shows "keyed E n m (\<lambda>t. map_option (Pair t) (W t)) \<Longrightarrow> fst ` set es \<subseteq> rows_of n \<Longrightarrow> distinct (map fst es) \<Longrightarrow>
    keyed E n (fill_entries E es m) (\<lambda>t. map_option (Pair t) ((W ++ map_of es) t))"
proof (induction es arbitrary: m W)
  case (Cons e es)
  obtain t c where e: "e = (t, c)" by (cases e)
  have t: "t \<in> rows_of n" using Cons.prems(2) e by simp
  have "(\<lambda>t. map_option (Pair t) (W t))(t \<mapsto> e) = (\<lambda>u. map_option (Pair u) ((W(t \<mapsto> c)) u))" by (auto simp: e fun_eq_iff)
  then have k: "keyed E n (snd (rx_insert E (key_from_values t) e m)) (\<lambda>u. map_option (Pair u) ((W(t \<mapsto> c)) u))"
    using keyed_insert(2) [OF assms Cons.prems(1) t, of e] by simp
  have m: "(W(t \<mapsto> c)) ++ map_of es = W ++ map_of (e # es)"
    using Cons.prems(3) e map_of_eq_None_iff [of es t] by (auto simp: fun_eq_iff map_add_def split: option.splits)
  have "keyed E n (fill_entries E es (snd (rx_insert E (key_from_values t) e m))) (\<lambda>u. map_option (Pair u) (((W(t \<mapsto> c)) ++ map_of es) u))"
    by (rule Cons.IH [OF k]) (use Cons.prems(2,3) in auto)
  then show ?case unfolding m by (simp only: fill_entries.simps) (simp only: e fst_conv)
qed simp

lemma changes_insert_ok:
  assumes "radix_laws E" "changes_ok E n ch W" "t \<in> rows_of n"
  shows "fst (changes_insert E t c ch) = (W t = None)" "changes_ok E n (snd (changes_insert E t c ch)) (W(t \<mapsto> c))"
proof -
  have "fst (changes_insert E t c ch) = (W t = None) \<and> changes_ok E n (snd (changes_insert E t c ch)) (W(t \<mapsto> c))"
  proof (cases ch)
    case (SmallChanges es)
    obtain a es' where p: "put_entry t c es = (a, es')" by (cases "put_entry t c es")
    have es': "a = (W t = None)" "entries_ok n es' (W(t \<mapsto> c))"
      using put_entry_ok [of n es W t c] assms(2,3) SmallChanges p by (simp_all add: changes_ok_def)
    have "keyed E n (fill_entries E es' (rx_new E)) (\<lambda>u. map_option (Pair u) ((Map.empty ++ map_of es') u))"
      by (rule fill_entries_ok [OF assms(1)]) (use keyed_new [OF assms(1)] es'(2) entries_okD(1) [OF es'(2)] in \<open>auto simp: entries_ok_def\<close>)
    then have "keyed E n (fill_entries E es' (rx_new E)) (\<lambda>u. map_option (Pair u) ((W(t \<mapsto> c)) u))" using es'(2) by (simp add: entries_ok_def)
    then show ?thesis using SmallChanges p es' by (simp add: changes_ok_def)
  next
    case (RadixChanges m)
    then have k: "keyed E n m (\<lambda>t. map_option (Pair t) (W t))" using assms(2) by (simp add: changes_ok_def)
    have "(\<lambda>t. map_option (Pair t) (W t))(t \<mapsto> (t, c)) = (\<lambda>u. map_option (Pair u) ((W(t \<mapsto> c)) u))" by (auto simp: fun_eq_iff)
    then show ?thesis using RadixChanges keyed_insert(2) [OF assms(1) k assms(3), of "(t, c)"] keyed_get [OF k assms(3)]
      by (simp add: changes_ok_def)
  qed
  then show "fst (changes_insert E t c ch) = (W t = None)" "changes_ok E n (snd (changes_insert E t c ch)) (W(t \<mapsto> c))" by simp_all
qed

section \<open>Scan indexes of an overlay\<close>

definition collected :: "nat list \<Rightarrow> overlay_entry list \<Rightarrow> val list \<Rightarrow> overlay_entry list option" where
  "collected ps es q = (let rows = filter (\<lambda>e. select (fst e) ps = q) es in if rows = [] then None else Some rows)"

definition overlay_ok ::
  "('e, overlay_entry) radix_ops \<Rightarrow> ('x, overlay_entry list) radix_ops \<Rightarrow> nat \<Rightarrow> ('e, 'x) overlay \<Rightarrow> (tuple \<Rightarrow> local_change option) \<Rightarrow> bool" where
  "overlay_ok E X n ov W \<longleftrightarrow> changes_ok E n (ov_changes ov) W \<and> ov_change_count ov = card (dom W) \<and>
     (\<forall>ps m. ov_scan_indexes ov ps = Some m \<longrightarrow> (\<forall>p \<in> set ps. p < n) \<and> keyed X (length ps) m (collected ps (overlay_entries E ov)))"

lemma overlay_entries_ok: "radix_laws E \<Longrightarrow> overlay_ok E X n ov W \<Longrightarrow> entries_ok n (overlay_entries E ov) W"
  unfolding overlay_entries_def overlay_ok_def by (rule changes_entries_ok) simp_all

lemma overlay_default_ok: "overlay_ok E X n overlay_default Map.empty"
  by (simp add: overlay_ok_def overlay_default_def changes_ok_def entries_ok_def strictly_def)

lemma select_in: "\<forall>p \<in> set ps. p < n \<Longrightarrow> t \<in> rows_of n \<Longrightarrow> select t ps \<in> rows_of (length ps)"
  by (auto simp: rows_of_def row_ok_def select_def)

lemma build_scan_index_ok:
  assumes "radix_laws X" "\<forall>p \<in> set ps. p < n" "fst ` set es \<subseteq> rows_of n"
  shows "keyed X (length ps) (build_scan_index X ps es) (collected ps es)"
proof -
  let ?step = "\<lambda>e. rx_update X (projected_key (fst e) ps) (\<lambda>slot. case slot of None \<Rightarrow> Some [e] | Some rows \<Rightarrow> Some (rows @ [e]))"
  have "keyed X (length ps) m (collected ps seen) \<Longrightarrow> fst ` set es \<subseteq> rows_of n \<Longrightarrow>
      keyed X (length ps) (fold ?step es m) (collected ps (seen @ es))" for m seen
  proof (induction es arbitrary: m seen)
    case (Cons e es)
    have q: "select (fst e) ps \<in> rows_of (length ps)" using select_in [OF assms(2)] Cons.prems(2) by simp
    have "(collected ps seen)(select (fst e) ps := (case collected ps seen (select (fst e) ps) of None \<Rightarrow> Some [e] | Some rows \<Rightarrow> Some (rows @ [e])))
        = collected ps (seen @ [e])" by (auto simp: collected_def fun_eq_iff Let_def)
    then have "keyed X (length ps) (?step e m) (collected ps (seen @ [e]))"
      using keyed_update [OF assms(1) Cons.prems(1) q, of "\<lambda>slot. case slot of None \<Rightarrow> Some [e] | Some rows \<Rightarrow> Some (rows @ [e])"]
      by (simp add: projected_key_def)
    then show ?case using Cons.IH [of "?step e m" "seen @ [e]"] Cons.prems(2) by simp
  qed simp
  from this [of "rx_new X" "[]"] show ?thesis
    using keyed_new [OF assms(1)] assms(3) by (simp add: build_scan_index_def collected_def [abs_def])
qed

lemma scan_record_change_ok:
  assumes "radix_laws X" "\<forall>p \<in> set ps. p < n" "entries_ok n es W" "t \<in> rows_of n" "keyed X (length ps) m (collected ps es)"
  shows "keyed X (length ps) (scan_record_change X ps t c m) (collected ps (snd (put_entry t c es)))"
proof -
  let ?q = "select t ps"
  let ?es = "snd (put_entry t c es)"
  have q: "?q \<in> rows_of (length ps)" by (rule select_in [OF assms(2,4)])
  note put = put_entry_ok(2) [OF assms(3,4), of c]
  have other: "filter (\<lambda>e. select (fst e) ps = r) ?es = filter (\<lambda>e. select (fst e) ps = r) es" if "r \<noteq> ?q" for r
  proof (rule entries_unique)
    show "entries_ok n (filter (\<lambda>e. select (fst e) ps = r) ?es) (\<lambda>u. if select u ps = r then (W(t \<mapsto> c)) u else None)"
      by (rule entries_filter [OF put])
    have "(\<lambda>u. if select u ps = r then (W(t \<mapsto> c)) u else None) = (\<lambda>u. if select u ps = r then W u else None)" using that by auto
    then show "entries_ok n (filter (\<lambda>e. select (fst e) ps = r) es) (\<lambda>u. if select u ps = r then (W(t \<mapsto> c)) u else None)"
      using entries_filter [OF assms(3)] by simp
  qed
  have own: "filter (\<lambda>e. select (fst e) ps = ?q) ?es = snd (put_entry t c (filter (\<lambda>e. select (fst e) ps = ?q) es))"
  proof (rule entries_unique)
    show "entries_ok n (filter (\<lambda>e. select (fst e) ps = ?q) ?es) (\<lambda>u. if select u ps = ?q then (W(t \<mapsto> c)) u else None)"
      by (rule entries_filter [OF put])
    have "(\<lambda>u. if select u ps = ?q then (W(t \<mapsto> c)) u else None) = (\<lambda>u. if select u ps = ?q then W u else None)(t \<mapsto> c)" by auto
    then show "entries_ok n (snd (put_entry t c (filter (\<lambda>e. select (fst e) ps = ?q) es))) (\<lambda>u. if select u ps = ?q then (W(t \<mapsto> c)) u else None)"
      using put_entry_ok(2) [OF entries_filter [OF assms(3)] assms(4)] by simp
  qed
  have one: "snd (put_entry t c []) = [(t, c)]" by (simp add: put_entry_def binary_search_def insert_at_def)
  have "(t, c) \<in> set ?es" using entries_okD(6) [OF put, of t c] by simp
  then have ne: "filter (\<lambda>e. select (fst e) ps = ?q) ?es \<noteq> []" by (force simp: filter_empty_conv)
  let ?slot = "case collected ps es ?q of None \<Rightarrow> Some [(t, c)] | Some rows \<Rightarrow> Some (snd (put_entry t c rows))"
  have "?slot = Some (snd (put_entry t c (filter (\<lambda>e. select (fst e) ps = ?q) es)))" using one by (simp add: collected_def Let_def)
  then have "?slot = collected ps ?es ?q" using own ne by (simp add: collected_def)
  then have "(collected ps es)(?q := ?slot) = collected ps ?es"
    using other by (auto simp: fun_eq_iff) (simp add: collected_def)
  then show ?thesis using keyed_update [OF assms(1,5) q] unfolding scan_record_change_def projected_key_def by metis
qed

lemma put_entries_agree:
  assumes "radix_laws E" "changes_ok E n ch W" "t \<in> rows_of n"
  shows "changes_entries E (snd (changes_insert E t c ch)) = snd (put_entry t c (changes_entries E ch))"
  by (rule entries_unique [OF changes_entries_ok [OF assms(1) changes_insert_ok(2) [OF assms]]])
     (rule put_entry_ok(2) [OF changes_entries_ok [OF assms(1,2)] assms(3)])

lemma overlay_insert_ok:
  assumes "radix_laws E" "radix_laws X" "overlay_ok E X n ov W" "t \<in> rows_of n"
  shows "overlay_ok E X n (overlay_insert E X t c ov) (W(t \<mapsto> c))"
proof -
  have ch: "changes_ok E n (ov_changes ov) W" using assms(3) by (simp add: overlay_ok_def)
  obtain a changes where i: "changes_insert E t c (ov_changes ov) = (a, changes)" by (cases "changes_insert E t c (ov_changes ov)")
  have new: "a = (W t = None)" "changes_ok E n changes (W(t \<mapsto> c))"
    "changes_entries E changes = snd (put_entry t c (changes_entries E (ov_changes ov)))"
    using changes_insert_ok [OF assms(1) ch assms(4), of c] put_entries_agree [OF assms(1) ch assms(4), of c] i by simp_all
  note es = overlay_entries_ok [OF assms(1,3)]
  have "card (dom (W(t \<mapsto> c))) = card (dom W) + (if W t = None then 1 else 0)"
    using entries_okD(4) [OF es] by (auto simp: domIff insert_absorb)
  moreover have "keyed X (length ps) (scan_record_change X ps t c m) (collected ps (changes_entries E changes)) \<and> (\<forall>p \<in> set ps. p < n)"
    if "ov_scan_indexes ov ps = Some m" for ps m
    unfolding new(3) using scan_record_change_ok [OF assms(2) _ es assms(4), of ps m c] assms(3) that by (auto simp: overlay_ok_def overlay_entries_def)
  ultimately show ?thesis using assms(3) new(1,2) i by (auto simp: overlay_ok_def overlay_insert_def overlay_entries_def)
qed

text \<open>A visit sees every matching change, in tuple order, whichever path it takes.\<close>

lemma best_local_prefix_ok:
  assumes "\<forall>ps \<in> set (rm_indexes md). \<forall>p \<in> set ps. p < length bindings"
  obtains r where "best_local_prefix_positions md bindings = Some r"
    "\<And>ps. r = Some ps \<Longrightarrow> bound_prefix ps bindings (length ps)"
proof -
  obtain counts where c: "bound_counts id (rm_indexes md) bindings = Some counts"
    "\<forall>(ps, k) \<in> set counts. ps \<in> set (rm_indexes md) \<and> bound_prefix (id ps) bindings k"
    by (rule bound_counts_ok [of "rm_indexes md" id bindings]) (use assms in auto)
  let ?best = "max_by_key (filter (\<lambda>(_, k). k > 0) counts)"
  have "bound_prefix (take k ps) bindings (length (take k ps))" if "?best = Some (ps, k)" for ps k
    using max_by_key_member [OF that] c(2) by (auto simp: bound_prefix_def)
  then show thesis using c(1) by (intro that [of "map_option (\<lambda>(ps, k). take k ps) ?best"]) (auto simp: best_local_prefix_positions_def)
qed

definition entry_matches :: "val option list \<Rightarrow> overlay_entry \<Rightarrow> bool" where
  "entry_matches bindings e = matches_bindings (fst e) bindings"

lemma visit_matches_ok:
  assumes "radix_laws E" "radix_laws X" "overlay_ok E X n ov W" "\<forall>ps \<in> set (rm_indexes md). \<forall>p \<in> set ps. p < n" "bindings_ok n bindings"
  obtains es ov' where "visit_matches E X md bindings ov = Some (es, ov')"
    "filter (entry_matches bindings) es = filter (entry_matches bindings) (overlay_entries E ov)"
    "overlay_ok E X n ov' W" "ov_changes ov' = ov_changes ov"
proof -
  have len: "length bindings = n" and val: "\<forall>v. Some v \<in> set bindings \<longrightarrow> valid v" using assms(5) by (auto simp: bindings_ok_def)
  obtain r where r: "best_local_prefix_positions md bindings = Some r" "\<And>ps. r = Some ps \<Longrightarrow> bound_prefix ps bindings (length ps)"
    by (rule best_local_prefix_ok [of md bindings]) (use assms(4) len in auto)
  note es = overlay_entries_ok [OF assms(1,3)]
  show thesis
  proof (cases r)
    case None
    then show ?thesis using r(1) assms(3) by (intro that [of "overlay_entries E ov" ov]) (simp_all add: visit_matches_def)
  next
    case (Some ps)
    have bp: "bound_prefix ps bindings (length ps)" by (rule r(2) [OF Some])
    then have bound: "p < n \<and> bindings ! p \<noteq> None" if "p \<in> set ps" for p using that len by (simp add: bound_prefix_def)
    define k where "k = (case ov_scan_requests ov ps of None \<Rightarrow> 0 | Some k \<Rightarrow> k) + 1"
    define ov1 where "ov1 = (if ov_scan_indexes ov ps = None then ov\<lparr>ov_scan_requests := (ov_scan_requests ov)(ps \<mapsto> k)\<rparr> else ov)"
    define ov2 where "ov2 = ensure_scan_index E X ps ov1"
    have ov1: "overlay_ok E X n ov1 W" "ov_changes ov1 = ov_changes ov" "overlay_entries E ov1 = overlay_entries E ov" "ov_scan_indexes ov1 = ov_scan_indexes ov"
      using assms(3) by (auto simp: ov1_def overlay_ok_def overlay_entries_def)
    have "keyed X (length ps) (build_scan_index X ps (overlay_entries E ov)) (collected ps (overlay_entries E ov))"
      by (rule build_scan_index_ok [OF assms(2)]) (use bound es in \<open>auto simp: entries_ok_def\<close>)
    then have ov2: "overlay_ok E X n ov2 W" "ov_changes ov2 = ov_changes ov" "overlay_entries E ov2 = overlay_entries E ov" "ov_scan_indexes ov2 ps \<noteq> None"
      using ov1 bound by (auto simp: ov2_def ensure_scan_index_def overlay_ok_def overlay_entries_def)
    have visit: "visit_matches E X md bindings ov =
        (if ov_scan_indexes ov ps = None \<and> k = 1 then Some (overlay_entries E ov, ov1)
         else if \<exists>p \<in> set ps. length bindings \<le> p \<or> bindings ! p = None then None
         else case ov_scan_indexes ov2 ps of
            None \<Rightarrow> None
          | Some m \<Rightarrow> Some (case rx_get X m (key_from_values (map (\<lambda>p. the (bindings ! p)) ps)) of None \<Rightarrow> [] | Some rows \<Rightarrow> rows, ov2))"
      unfolding visit_matches_def r(1) Some option.case Let_def k_def ov1_def ov2_def ..
    show ?thesis
    proof (cases "ov_scan_indexes ov ps = None \<and> k = 1")
      case True
      then have "visit_matches E X md bindings ov = Some (overlay_entries E ov, ov1)" unfolding visit by (rule if_P)
      then show ?thesis by (rule that) (use ov1 in simp_all)
    next
      case False
      obtain m where m: "ov_scan_indexes ov2 ps = Some m" using ov2(4) by blast
      let ?q = "map (\<lambda>p. the (bindings ! p)) ps"
      have key: "keyed X (length ps) m (collected ps (overlay_entries E ov))" using ov2(1,3) m by (auto simp: overlay_ok_def)
      have "valid (the (bindings ! p))" if "p \<in> set ps" for p
        using bound [OF that] val len by (metis nth_mem option.collapse)
      then have q: "?q \<in> rows_of (length ps)" by (auto simp: rows_of_def row_ok_def)
      let ?rows = "filter (\<lambda>e. select (fst e) ps = ?q) (overlay_entries E ov)"
      have rows: "(case rx_get X m (key_from_values ?q) of None \<Rightarrow> [] | Some rows \<Rightarrow> rows) = ?rows"
        using keyed_get [OF key q] by (simp add: collected_def Let_def)
      have nb: "\<not> (\<exists>p \<in> set ps. length bindings \<le> p \<or> bindings ! p = None)" using bound len by (metis not_less)
      have "visit_matches E X md bindings ov = Some (?rows, ov2)"
        unfolding visit rows [symmetric] using False nb m by (simp only: if_False option.case)
      moreover have "filter (entry_matches bindings) ?rows = filter (entry_matches bindings) (overlay_entries E ov)"
        unfolding filter_filter entry_matches_def
        by (rule filter_cong) (use matches_projection [OF bp] in auto)
      ultimately show ?thesis using that ov2(1,2) by blast
    qed
  qed
qed

section \<open>Applying an overlay\<close>

text \<open>
  What a transaction sees of a base set, and what its commit makes of the current set: a retraction
  only removes tuples the base held.
\<close>

definition view :: "tuple set \<Rightarrow> (tuple \<Rightarrow> local_change option) \<Rightarrow> tuple set" where
  "view B W = {t. W t = Some Assert \<or> (t \<in> B \<and> W t \<noteq> Some Retract)}"

definition applied_to :: "tuple set \<Rightarrow> (tuple \<Rightarrow> local_change option) \<Rightarrow> tuple set \<Rightarrow> tuple set" where
  "applied_to B W C = {t. W t = Some Assert \<or> (t \<in> C \<and> \<not> (W t = Some Retract \<and> t \<in> B))}"

lemma applied_to_base: "applied_to B W B = view B W"
  by (auto simp: applied_to_def view_def)

lemma changed_entries:
  "distinct (map fst es) \<Longrightarrow> changed P es C = {t. map_of es t = Some Assert \<or> (t \<in> C \<and> \<not> (map_of es t = Some Retract \<and> P t))}"
proof (induction es arbitrary: C)
  case (Cons e es)
  obtain t c where e: "e = (t, c)" by (cases e)
  have none: "map_of es t = None" using Cons.prems e by (simp add: map_of_eq_None_iff)
  show ?case using Cons none e by (cases c) auto
qed simp

lemma overlay_apply_ok:
  assumes "radix_laws R" "radix_laws Q" "radix_laws E" "rstate_ok R Q st C" "rstate_ok R Q base B" "state_arity base = state_arity st"
    and "overlay_ok E X (state_arity st) ov W" "overlay_apply R Q E ov base st = (applied, st')"
  shows "rstate_ok R Q st' (applied_to B W C)" "rs_metadata st' = rs_metadata st" "changed (\<lambda>_. True) applied C = applied_to B W C"
    "set applied = difference_of C (applied_to B W C)"
proof -
  let ?es = "overlay_entries E ov"
  note es = overlay_entries_ok [OF assms(3,7)]
  have W: "map_of ?es = W" "fst ` set ?es \<subseteq> rows_of (state_arity st)" "ascending (map fst ?es)" using es by (auto simp: entries_ok_def)
  have all: "rstate_ok R Q st' (applied_to B W C) \<and> rs_metadata st' = rs_metadata st \<and> changed (\<lambda>_. True) applied C = applied_to B W C \<and>
    set applied = difference_of C (applied_to B W C)"
  proof (cases "state_is_empty base \<and> cardinality st = 0 \<and> all_are_asserts E (ov_changes ov)")
    case True
    have C: "C = {}" "cardinality st = card C" using True store_len_ok [OF rstate_okD(3) [OF assms(4)]] by (auto simp: cardinality_def)
    have asserts: "\<forall>e \<in> set ?es. snd e = Assert" using True by (auto simp: all_are_asserts_def overlay_entries_def)
    then have "W t = Some Assert \<longleftrightarrow> t \<in> fst ` set ?es" for t using entries_okD(6) [OF es] by force
    then have N: "applied_to B W C = set (map fst ?es)" using C(1) by (auto simp: applied_to_def)
    have st: "rstate_ok R Q st {}" using assms(4) C(1) by simp
    have sub: "set (map fst ?es) \<subseteq> rows_of (state_arity st)" using W(2) by simp
    have "apply_ordered_asserts_to_empty R Q (map fst ?es) st = (applied, st')" using True assms(8) by (simp add: overlay_apply_def)
    note a = apply_asserts_ok [OF assms(1,2) st W(3) sub this]
    have "changed (\<lambda>_. True) (map (\<lambda>t. (t, Assert)) ts) D = D \<union> set ts" for ts D by (induction ts arbitrary: D) auto
    from this [of "map fst ?es" "{}"] have "changed (\<lambda>_. True) applied C = applied_to B W C" unfolding a(3) using N C(1) by (simp only: sup_bot_left)
    moreover have "set applied = difference_of C (applied_to B W C)" unfolding a(3) N using C(1) by (auto simp: difference_of_def)
    ultimately show ?thesis using a(1,2) N by simp
  next
    case False
    have "apply_ordered_changes R Q ?es (contains_tuple R base) st = (applied, st')"
      using False assms(8) by (simp only: overlay_apply_def if_False)
    note a = apply_ordered_changes_ok [OF assms(1,2,4) W(2) this] apply_ordered_changes_exact [OF assms(1,2,4) W(2) entries_okD(1) [OF es] this]
    have "contains_tuple R base t = (t \<in> B)" if "t \<in> rows_of (state_arity st)" for t
      using store_contains_ok(1) [OF rstate_okD(3) [OF assms(5)]] that assms(6) by (simp add: contains_tuple_def)
    then have "W t = Some Retract \<Longrightarrow> contains_tuple R base t = (t \<in> B)" for t
      using entries_okD(3) [OF es] by (auto simp: dom_def)
    then have "changed (contains_tuple R base) ?es C = applied_to B W C"
      unfolding changed_entries [OF entries_okD(1) [OF es]] W(1) applied_to_def by blast
    then show ?thesis using a by simp
  qed
  then show "rstate_ok R Q st' (applied_to B W C)" "rs_metadata st' = rs_metadata st" "changed (\<lambda>_. True) applied C = applied_to B W C"
    "set applied = difference_of C (applied_to B W C)" by simp_all
qed

section \<open>Functional keys\<close>

definition functional_on :: "nat list \<Rightarrow> tuple set \<Rightarrow> bool" where
  "functional_on ps A \<longleftrightarrow> (\<forall>s \<in> A. \<forall>t \<in> A. select s ps = select t ps \<longrightarrow> s = t)"

definition at_key :: "tuple set \<Rightarrow> nat list \<Rightarrow> val list \<Rightarrow> tuple option" where
  "at_key A ps q = (if sharing A ps q = {} then None else Some (THE t. t \<in> sharing A ps q))"

lemma finds_functional:
  assumes "functional_on ps A"
  shows "finds A ps q r \<longleftrightarrow> r = at_key A ps q"
proof -
  have u: "(THE t. t \<in> sharing A ps q) = t" if "t \<in> sharing A ps q" for t
    by (rule the_equality) (use that assms in \<open>auto simp: sharing_def functional_on_def\<close>)
  show ?thesis
  proof (cases r)
    case None
    then show ?thesis by (simp add: finds_def at_key_def)
  next
    case (Some t)
    show ?thesis
    proof
      assume "finds A ps q r"
      then have "t \<in> sharing A ps q" using Some by (simp add: finds_def)
      then show "r = at_key A ps q" using u Some by (auto simp: at_key_def)
    next
      assume "r = at_key A ps q"
      then obtain t' where t': "t' \<in> sharing A ps q" "t = (THE t. t \<in> sharing A ps q)" using Some by (auto simp: at_key_def split: if_splits)
      then have "t = t'" using u by simp
      then show "finds A ps q r" using t'(1) Some by (simp add: finds_def)
    qed
  qed
qed

lemma at_key_Some: "functional_on ps A \<Longrightarrow> at_key A ps q = Some t \<longleftrightarrow> t \<in> A \<and> select t ps = q"
  using finds_functional [of ps A q "Some t"] by (auto simp: finds_def sharing_def)

lemma at_key_None: "at_key A ps q = None \<longleftrightarrow> sharing A ps q = {}"
  by (simp add: at_key_def)

lemma at_key_cong: "sharing A ps q = sharing B ps q \<Longrightarrow> at_key A ps q = at_key B ps q"
  by (simp add: at_key_def)

lemma view_update:
  "view B (W(t \<mapsto> Assert)) = insert t (view B W)" "view B (W(t \<mapsto> Retract)) = view B W - {t}"
  by (auto simp: view_def)

lemma view_untouched: "\<forall>t. select t ps = q \<longrightarrow> W t = None \<Longrightarrow> sharing (view B W) ps q = sharing B ps q"
  by (auto simp: sharing_def view_def)

text \<open>The map knows exactly the keys the transaction has written under, and what it sees there.\<close>

definition tracks :: "nat \<Rightarrow> nat list \<Rightarrow> tuple set \<Rightarrow> (tuple \<Rightarrow> local_change option) \<Rightarrow> val list \<Rightarrow> visible_entry option \<Rightarrow> bool" where
  "tracks n ps B W q slot =
     (case slot of
        None \<Rightarrow> \<forall>t. select t ps = q \<longrightarrow> W t = None
      | Some e \<Rightarrow> ve_representative e \<in> rows_of n \<and> select (ve_representative e) ps = q \<and>
          (\<exists>t. W t \<noteq> None \<and> select t ps = q) \<and> ve_tuple e = at_key (view B W) ps q)"

definition visible_ok ::
  "('f, visible_entry) radix_ops \<Rightarrow> nat \<Rightarrow> nat list \<Rightarrow> tuple set \<Rightarrow> (tuple \<Rightarrow> local_change option) \<Rightarrow> 'f visible_map \<Rightarrow> bool" where
  "visible_ok F n ps B W vm \<longleftrightarrow> vm_positions vm = ps \<and>
     (\<exists>g. keyed F (length ps) (vm_tuples vm) g \<and> (\<forall>q. tracks n ps B W q (g q)))"

lemma visible_new_ok: "radix_laws F \<Longrightarrow> visible_ok F n ps B Map.empty (visible_new F ps)"
  using keyed_new [of F "length ps"] by (auto simp: visible_ok_def visible_new_def tracks_def intro!: exI [of _ Map.empty])

lemma at_key_change:
  assumes "functional_on ps (view B W)" "c = Assert \<longrightarrow> at_key (view B W) ps (select t ps) \<in> {None, Some t}"
  shows "functional_on ps (view B (W(t \<mapsto> c)))"
    "at_key (view B (W(t \<mapsto> c))) ps (select t ps) = visible_after_change (at_key (view B W) ps (select t ps)) t c"
    "r \<noteq> select t ps \<Longrightarrow> at_key (view B (W(t \<mapsto> c))) ps r = at_key (view B W) ps r"
proof -
  have only: "s = t" if "c = Assert" "s \<in> view B W" "select s ps = select t ps" for s
    using assms(2) that(1) at_key_Some [OF assms(1), of "select t ps" s] that(2,3) by auto
  show f: "functional_on ps (view B (W(t \<mapsto> c)))"
    using assms(1) only by (cases c) (auto simp: view_update functional_on_def)
  show "r \<noteq> select t ps \<Longrightarrow> at_key (view B (W(t \<mapsto> c))) ps r = at_key (view B W) ps r"
    by (rule at_key_cong) (cases c; auto simp: view_update sharing_def)
  show "at_key (view B (W(t \<mapsto> c))) ps (select t ps) = visible_after_change (at_key (view B W) ps (select t ps)) t c"
  proof (cases c)
    case Assert
    then show ?thesis using at_key_Some [OF f, of "select t ps" t] by (simp add: view_update visible_after_change_def)
  next
    case Retract
    let ?u = "at_key (view B W) ps (select t ps)"
    have "u \<in> view B W \<and> select u ps = select t ps \<longleftrightarrow> ?u = Some u" for u using at_key_Some [OF assms(1)] by blast
    then have "at_key (view B (W(t \<mapsto> c))) ps (select t ps) = Some u \<longleftrightarrow> ?u = Some u \<and> u \<noteq> t" for u
      using at_key_Some [OF f, of "select t ps" u] Retract by (auto simp: view_update)
    then show ?thesis using Retract unfolding visible_after_change_def
      by (cases ?u; cases "at_key (view B (W(t \<mapsto> c))) ps (select t ps)") auto
  qed
qed

lemma visible_record_ok:
  assumes "radix_laws F" "visible_ok F n ps B W vm" "\<forall>p \<in> set ps. p < n" "t \<in> rows_of n"
    and "functional_on ps (view B W)" "c = Assert \<longrightarrow> at_key (view B W) ps (select t ps) \<in> {None, Some t}"
    and current: "c = Retract \<longrightarrow> \<not> has_entry_for F vm t \<longrightarrow> current = at_key B ps (select t ps)"
  shows "visible_ok F n ps B (W(t \<mapsto> c)) (visible_record F t c current vm)"
proof -
  let ?q = "select t ps"
  obtain g where ps: "vm_positions vm = ps" and g: "keyed F (length ps) (vm_tuples vm) g" "\<And>q. tracks n ps B W q (g q)"
    using assms(2) by (auto simp: visible_ok_def)
  have q: "?q \<in> rows_of (length ps)" by (rule select_in [OF assms(3,4)])
  note u = at_key_change [OF assms(5,6)]
  define e where "e = (case g ?q of
      None \<Rightarrow> \<lparr>ve_representative = t, ve_tuple = visible_after_change current t c\<rparr>
    | Some e \<Rightarrow> e\<lparr>ve_tuple := visible_after_change (ve_tuple e) t c\<rparr>)"
  have "keyed F (length ps) (vm_tuples (visible_record F t c current vm)) (g(?q \<mapsto> e))"
    using keyed_update [OF assms(1) g(1) q] by (simp add: visible_record_def projected_key_def ps e_def)
  moreover have "tracks n ps B (W(t \<mapsto> c)) r ((g(?q \<mapsto> e)) r)" for r
  proof (cases "r = ?q")
    case False
    have same: "(\<forall>s. select s ps = r \<longrightarrow> (W(t \<mapsto> c)) s = None) \<longleftrightarrow> (\<forall>s. select s ps = r \<longrightarrow> W s = None)"
      "(\<exists>s. (W(t \<mapsto> c)) s \<noteq> None \<and> select s ps = r) \<longleftrightarrow> (\<exists>s. W s \<noteq> None \<and> select s ps = r)"
      using False by auto
    show ?thesis using g(2) [of r] False u(3) [OF False] unfolding tracks_def same
      by (cases "g r") (simp_all only: fun_upd_apply if_False option.case)
  next
    case True
    show ?thesis
    proof (cases "g ?q")
      case None
      then have un: "\<forall>s. select s ps = ?q \<longrightarrow> W s = None" using g(2) [of ?q] by (simp add: tracks_def)
      have "\<not> has_entry_for F vm t" using keyed_get [OF g(1) q] None by (simp add: has_entry_for_def projected_key_def ps)
      then have "c = Retract \<Longrightarrow> current = at_key (view B W) ps ?q" using current at_key_cong [OF view_untouched [OF un], of B] by simp
      then have "visible_after_change current t c = visible_after_change (at_key (view B W) ps ?q) t c"
        by (cases c) (simp_all add: visible_after_change_def)
      then show ?thesis using True None u(2) assms(4) by (auto simp: tracks_def e_def)
    next
      case (Some e0)
      then show ?thesis using True g(2) [of ?q] u(2) by (auto simp: tracks_def e_def)
    qed
  qed
  ultimately show ?thesis using ps by (auto simp: visible_ok_def visible_record_def)
qed

lemma visible_lookup:
  assumes "visible_ok F n ps B W vm" "\<forall>p \<in> set ps. p < n" "t \<in> rows_of n"
  shows "tracked_tuple F vm t = Some r \<Longrightarrow> r = at_key (view B W) ps (select t ps)"
    "tracked_tuple F vm t = None \<Longrightarrow> at_key B ps (select t ps) = at_key (view B W) ps (select t ps)"
    "has_entry_for F vm t \<longleftrightarrow> (\<exists>s. W s \<noteq> None \<and> select s ps = select t ps)"
proof -
  let ?q = "select t ps"
  obtain g where ps: "vm_positions vm = ps" and g: "keyed F (length ps) (vm_tuples vm) g" "\<And>q. tracks n ps B W q (g q)"
    using assms(1) by (auto simp: visible_ok_def)
  have get: "rx_get F (vm_tuples vm) (projected_key t (vm_positions vm)) = g ?q"
    using keyed_get [OF g(1) select_in [OF assms(2,3)]] by (simp add: projected_key_def ps)
  show "tracked_tuple F vm t = Some r \<Longrightarrow> r = at_key (view B W) ps ?q"
    using g(2) [of ?q] get by (cases "g ?q") (auto simp: tracked_tuple_def tracks_def)
  show "tracked_tuple F vm t = None \<Longrightarrow> at_key B ps ?q = at_key (view B W) ps ?q"
    using g(2) [of ?q] get at_key_cong [OF view_untouched, of ps ?q W B] by (cases "g ?q") (auto simp: tracked_tuple_def tracks_def)
  show "has_entry_for F vm t \<longleftrightarrow> (\<exists>s. W s \<noteq> None \<and> select s ps = ?q)"
    using g(2) [of ?q] get by (cases "g ?q") (auto simp: has_entry_for_def tracks_def)
qed

lemma record_with_base_ok:
  assumes "radix_laws F" "visible_ok F n ps B W vm" "\<forall>p \<in> set ps. p < n" "t \<in> rows_of n"
    and "functional_on ps (view B W)" "c = Assert \<longrightarrow> at_key (view B W) ps (select t ps) \<in> {None, Some t}"
    and "lookup ps = Some (at_key B ps (select t ps))"
  obtains vm' where "record_change_with_base_lookup F t c lookup vm = Some vm'" "visible_ok F n ps B (W(t \<mapsto> c)) vm'"
proof -
  have ps: "vm_positions vm = ps" using assms(2) by (simp add: visible_ok_def)
  note r = visible_record_ok [OF assms(1-6)]
  show thesis
  proof (cases "c = Retract \<and> \<not> has_entry_for F vm t")
    case True
    then show ?thesis using r [where current = "at_key B ps (select t ps)"] assms(7) ps
      by (intro that [of "visible_record F t c (at_key B ps (select t ps)) vm"]) (simp_all add: record_change_with_base_lookup_def)
  next
    case False
    then show ?thesis using r [where current = None]
      by (intro that [of "visible_record F t c None vm"]) (cases c; auto simp: record_change_with_base_lookup_def)+
  qed
qed

lemma from_entries_ok:
  assumes "radix_laws F" "\<forall>p \<in> set ps. p < n" "functional_on ps B"
    and lookup: "\<And>t. t \<in> rows_of n \<Longrightarrow> lookup t = Some (at_key B ps (select t ps))"
  shows "visible_ok F n ps B W vm \<Longrightarrow> \<forall>e \<in> set es. fst e \<in> rows_of n \<and> snd e = Retract \<Longrightarrow> \<forall>t c. W t = Some c \<longrightarrow> c = Retract \<Longrightarrow>
    distinct (map fst es) \<Longrightarrow> \<exists>vm'. visible_from_entries F lookup es vm = Some vm' \<and> visible_ok F n ps B (W ++ map_of es) vm'"
proof (induction es arbitrary: W vm)
  case (Cons e es)
  obtain t where e: "e = (t, Retract)" "t \<in> rows_of n" using Cons.prems(2) by (cases e) auto
  have "view B W \<subseteq> B" using Cons.prems(3) by (auto simp: view_def)
  then have f: "functional_on ps (view B W)" using assms(3) by (auto simp: functional_on_def)
  have ok: "visible_ok F n ps B (W(t \<mapsto> Retract)) (visible_record F t Retract (at_key B ps (select t ps)) vm)"
    by (rule visible_record_ok [OF assms(1) Cons.prems(1) assms(2) e(2) f]) simp_all
  have m: "(W(t \<mapsto> Retract)) ++ map_of es = W ++ map_of (e # es)"
    using Cons.prems(4) e(1) map_of_eq_None_iff [of es t] by (auto simp: fun_eq_iff map_add_def split: option.splits)
  have "\<exists>vm'. visible_from_entries F lookup es (visible_record F t Retract (at_key B ps (select t ps)) vm) = Some vm' \<and>
      visible_ok F n ps B ((W(t \<mapsto> Retract)) ++ map_of es) vm'"
    by (rule Cons.IH [OF ok]) (use Cons.prems(2-4) e(1) in auto)
  then show ?case unfolding m using lookup [OF e(2)] by (simp only: e(1) visible_from_entries.simps option.case)
qed auto

end
