(* ===== verification/RelationTxn.thy ===== *)
theory RelationTxn
  imports BufferHistory Overlay
begin

text \<open>
  The relation side of a transaction and of the kernel, \<open>crates/relation-kernel/src/transaction.rs\<close>,
  \<open>snapshot.rs\<close> and \<open>kernel.rs\<close>: local writes with their functional key check, the extensional read
  that merges them over the base snapshot, conflict detection against a newer snapshot, the snapshot
  a commit builds, the part of the commit that is persisted, and replay of a commit log.

  Parameters stand for code that is registered at run time: \<open>computed\<close> says which relations a
  computed handler serves, \<open>computed_scan\<close> is what that handler returns, and \<open>persist\<close> is the commit
  provider. Rules and the caches derived from them are outside this theory.
\<close>

section \<open>Trees, transactions and commits\<close>

record ('m, 'n, 'e, 'x, 'f) trees =
  tr_rows :: "('m, tuple) radix_ops"
  tr_index :: "('n, tuple_bucket) radix_ops"
  tr_entries :: "('e, overlay_entry) radix_ops"
  tr_scan :: "('x, overlay_entry list) radix_ops"
  tr_visible :: "('f, visible_entry) radix_ops"

definition trees_ok :: "('m, 'n, 'e, 'x, 'f) trees \<Rightarrow> bool" where
  "trees_ok L \<longleftrightarrow> radix_laws (tr_rows L) \<and> radix_laws (tr_index L) \<and> radix_laws (tr_entries L) \<and>
     radix_laws (tr_scan L) \<and> radix_laws (tr_visible L)"

record ('m, 'n, 'e, 'x, 'f) rtxn = "('m, 'n) relation_state txn" +
  tx_writes :: "identity \<Rightarrow> ('e, 'x) overlay option"
  tx_functional_visible :: "identity \<Rightarrow> 'f visible_map option"

record fact_change =
  fc_relation :: identity
  fc_tuple :: tuple
  fc_kind :: mutation_kind

text \<open>Of the catalogue changes only the creation of relations is modelled.\<close>

record commit =
  cm_version :: version
  cm_buffer_changes :: "buffer_change list"
  cm_catalog_changes :: "relation_metadata list"
  cm_changes :: "fact_change list"

text \<open>The outcome of a write with the transaction it leaves, which keeps its state on an error.\<close>

type_synonym 't outcome = "((val kernel_error + unit) \<times> 't) option"

definition snapshot_relation :: "('m, 'n) relation_state snapshot \<Rightarrow> identity \<Rightarrow> val kernel_error + ('m, 'n) relation_state" where
  "snapshot_relation s i = (case rl_get (sn_relations s) i of None \<Rightarrow> Inl (UnknownRelation i) | Some st \<Rightarrow> Inr st)"

definition txn_new :: "('m, 'n) relation_state snapshot \<Rightarrow> ('m, 'n, 'e, 'x, 'f) rtxn" where
  "txn_new base =
     \<lparr>tx_base = base, tx_read_authority = ReadAll, tx_buffer_writes = [], tx_views_cached = False,
      tx_writes = Map.empty, tx_functional_visible = Map.empty\<rparr>"

section \<open>Local writes\<close>

definition require_writable_relation ::
  "(relation_metadata \<Rightarrow> bool) \<Rightarrow> ('m, 'n, 'e, 'x, 'f) rtxn \<Rightarrow> identity \<Rightarrow> val kernel_error + ('m, 'n) relation_state" where
  "require_writable_relation computed tx i =
     (case snapshot_relation (tx_base tx) i of
        Inl e \<Rightarrow> Inl e
      | Inr st \<Rightarrow> if computed (rs_metadata st) then Inl (ReadOnlyRelation i) else Inr st)"

text \<open>\<open>None\<close>: the relation is not functional, which the callers exclude.\<close>

definition visible_tuple_for_key ::
  "('m, 'n, 'e, 'x, 'f) trees \<Rightarrow> identity \<Rightarrow> tuple \<Rightarrow> ('m, 'n) relation_state \<Rightarrow> ('m, 'n, 'e, 'x, 'f) rtxn \<Rightarrow>
     (tuple option \<times> ('m, 'n, 'e, 'x, 'f) rtxn) option" where
  "visible_tuple_for_key L i t st tx =
     (case rm_conflict_policy (rs_metadata st) of
        Functional ps \<Rightarrow>
          (let lookup = tuple_for_key (tr_rows L) (tr_index L) st ps in
           case (case tx_functional_visible tx i of
                   Some vm \<Rightarrow> Some vm
                 | None \<Rightarrow> from_writes (tr_visible L) (tr_entries L) ps (tx_writes tx i) lookup) of
             None \<Rightarrow> None
           | Some vm \<Rightarrow>
               let tx' = tx\<lparr>tx_functional_visible := (tx_functional_visible tx)(i \<mapsto> vm)\<rparr> in
               (case tracked_tuple (tr_visible L) vm t of
                  Some r \<Rightarrow> Some (r, tx')
                | None \<Rightarrow> map_option (\<lambda>r. (r, tx')) (lookup t)))
      | _ \<Rightarrow> None)"

definition is_functional :: "relation_metadata \<Rightarrow> bool" where
  "is_functional md = (case rm_conflict_policy md of Functional _ \<Rightarrow> True | _ \<Rightarrow> False)"

definition record_functional_change ::
  "('m, 'n, 'e, 'x, 'f) trees \<Rightarrow> identity \<Rightarrow> tuple \<Rightarrow> local_change \<Rightarrow> ('m, 'n) relation_state \<Rightarrow>
     ('m, 'n, 'e, 'x, 'f) rtxn \<Rightarrow> ('m, 'n, 'e, 'x, 'f) rtxn option" where
  "record_functional_change L i t c st tx =
     (case tx_functional_visible tx i of
        None \<Rightarrow> Some tx
      | Some vm \<Rightarrow>
          map_option (\<lambda>vm'. tx\<lparr>tx_functional_visible := (tx_functional_visible tx)(i \<mapsto> vm')\<rparr>)
            (record_change_with_base_lookup (tr_visible L) t c (\<lambda>ps. tuple_for_key (tr_rows L) (tr_index L) st ps t) vm))"

definition write_change ::
  "('m, 'n, 'e, 'x, 'f) trees \<Rightarrow> identity \<Rightarrow> tuple \<Rightarrow> local_change \<Rightarrow> ('m, 'n, 'e, 'x, 'f) rtxn \<Rightarrow> ('m, 'n, 'e, 'x, 'f) rtxn" where
  "write_change L i t c tx =
     tx\<lparr>tx_writes := (tx_writes tx)(i \<mapsto>
          overlay_insert (tr_entries L) (tr_scan L) t c (case tx_writes tx i of None \<Rightarrow> overlay_default | Some ov \<Rightarrow> ov)),
        tx_views_cached := False\<rparr>"

definition apply_local_change ::
  "('m, 'n, 'e, 'x, 'f) trees \<Rightarrow> (relation_metadata \<Rightarrow> bool) \<Rightarrow> identity \<Rightarrow> tuple \<Rightarrow> local_change \<Rightarrow>
     ('m, 'n, 'e, 'x, 'f) rtxn \<Rightarrow> ('m, 'n, 'e, 'x, 'f) rtxn outcome" where
  "apply_local_change L computed i t c tx =
     (case require_writable_relation computed tx i of
        Inl e \<Rightarrow> Some (Inl e, tx)
      | Inr st \<Rightarrow>
          (case validate_tuple st t of
             Inl e \<Rightarrow> Some (Inl e, tx)
           | Inr _ \<Rightarrow>
               (case (if c = Assert \<and> is_functional (rs_metadata st) then visible_tuple_for_key L i t st tx else Some (None, tx)) of
                  None \<Rightarrow> None
                | Some (existing, tx') \<Rightarrow>
                    if existing \<noteq> None \<and> existing \<noteq> Some t then Some (Inl (FunctionalKeyViolation i (the existing) t), tx')
                    else map_option (\<lambda>tx''. (Inr (), tx'')) (record_functional_change L i t c st (write_change L i t c tx')))))"

definition txn_assert ::
  "('m, 'n, 'e, 'x, 'f) trees \<Rightarrow> (relation_metadata \<Rightarrow> bool) \<Rightarrow> identity \<Rightarrow> tuple \<Rightarrow> ('m, 'n, 'e, 'x, 'f) rtxn \<Rightarrow>
     ('m, 'n, 'e, 'x, 'f) rtxn outcome" where
  "txn_assert L computed i t tx = apply_local_change L computed i t Assert tx"

definition txn_retract ::
  "('m, 'n, 'e, 'x, 'f) trees \<Rightarrow> (relation_metadata \<Rightarrow> bool) \<Rightarrow> identity \<Rightarrow> tuple \<Rightarrow> ('m, 'n, 'e, 'x, 'f) rtxn \<Rightarrow>
     ('m, 'n, 'e, 'x, 'f) rtxn outcome" where
  "txn_retract L computed i t tx = apply_local_change L computed i t Retract tx"

definition replace_functional ::
  "('m, 'n, 'e, 'x, 'f) trees \<Rightarrow> (relation_metadata \<Rightarrow> bool) \<Rightarrow> identity \<Rightarrow> tuple \<Rightarrow> ('m, 'n, 'e, 'x, 'f) rtxn \<Rightarrow>
     ('m, 'n, 'e, 'x, 'f) rtxn outcome" where
  "replace_functional L computed i t tx =
     (case require_writable_relation computed tx i of
        Inl e \<Rightarrow> Some (Inl e, tx)
      | Inr st \<Rightarrow>
          (case validate_tuple st t of
             Inl e \<Rightarrow> Some (Inl e, tx)
           | Inr _ \<Rightarrow>
               if \<not> is_functional (rs_metadata st) then txn_assert L computed i t tx
               else case visible_tuple_for_key L i t st tx of
                 None \<Rightarrow> None
               | Some (None, tx') \<Rightarrow> txn_assert L computed i t tx'
               | Some (Some old, tx') \<Rightarrow>
                   (case txn_retract L computed i old tx' of
                      None \<Rightarrow> None
                    | Some (Inl e, tx'') \<Rightarrow> Some (Inl e, tx'')
                    | Some (Inr _, tx'') \<Rightarrow> txn_assert L computed i t tx'')))"

section \<open>Extensional reads\<close>

definition merge_local :: "tuple list \<Rightarrow> tuple list \<Rightarrow> tuple list \<Rightarrow> tuple list" where
  "merge_local visible local_asserts local_retracts =
     (if visible = [] \<and> local_retracts = [] then local_asserts
      else
        let merged = (if local_asserts \<noteq> [] then union_ordered_tuple_rows visible local_asserts else visible) in
        if local_retracts \<noteq> [] then difference_ordered_tuple_rows merged local_retracts else merged)"

definition local_rows :: "val option list \<Rightarrow> local_change \<Rightarrow> overlay_entry list \<Rightarrow> tuple list" where
  "local_rows bindings c es = map fst (filter (\<lambda>e. matches_bindings (fst e) bindings \<and> snd e = c) es)"

definition scan_extensional_rows ::
  "('m, 'n, 'e, 'x, 'f) trees \<Rightarrow> (relation_metadata \<Rightarrow> bool) \<Rightarrow>
     (('m, 'n, 'e, 'x, 'f) rtxn \<Rightarrow> relation_metadata \<Rightarrow> val option list \<Rightarrow> (val, tuple list) kresult) \<Rightarrow>
     identity \<Rightarrow> val option list \<Rightarrow> ('m, 'n, 'e, 'x, 'f) rtxn \<Rightarrow> (val, tuple list \<times> ('m, 'n, 'e, 'x, 'f) rtxn) kresult" where
  "scan_extensional_rows L computed computed_scan i bindings tx =
     kbind (Some (snapshot_relation (tx_base tx) i)) (\<lambda>st.
       if computed (rs_metadata st) then kbind (computed_scan tx (rs_metadata st) bindings) (\<lambda>rows. kok (rows, tx))
       else kbind (state_scan (tr_rows L) (tr_index L) st bindings) (\<lambda>visible.
         case tx_writes tx i of
           None \<Rightarrow> kok (visible, tx)
         | Some ov \<Rightarrow>
             kbind (lift_panic (visit_matches (tr_entries L) (tr_scan L) (rs_metadata st) bindings ov)) (\<lambda>(es, ov').
               kok (merge_local visible (local_rows bindings Assert es) (local_rows bindings Retract es),
                 tx\<lparr>tx_writes := (tx_writes tx)(i \<mapsto> ov')\<rparr>))))"

section \<open>Conflicts\<close>

definition validate_set_conflicts ::
  "('m, 'n, 'e, 'x, 'f) trees \<Rightarrow> identity \<Rightarrow> ('e, 'x) overlay \<Rightarrow> ('m, 'n) relation_state \<Rightarrow> ('m, 'n) relation_state \<Rightarrow>
     val kernel_error + unit" where
  "validate_set_conflicts L i ov base current =
     (case find (\<lambda>(t, c). c = Assert \<and> contains_tuple (tr_rows L) base t \<and> \<not> contains_tuple (tr_rows L) current t)
             (overlay_entries (tr_entries L) ov) of
        Some (t, _) \<Rightarrow> Inl (KConflict \<lparr>cf_relation = i, cf_tuple = t, cf_kind = AssertRetract\<rparr>)
      | None \<Rightarrow> Inr ())"

fun check_visible ::
  "('m, 'n, 'e, 'x, 'f) trees \<Rightarrow> identity \<Rightarrow> nat list \<Rightarrow> ('m, 'n) relation_state \<Rightarrow> ('m, 'n) relation_state \<Rightarrow>
     visible_entry list \<Rightarrow> (val, unit) kresult" where
  "check_visible L i ps base current [] = kok ()"
| "check_visible L i ps base current (e # es) =
     (case (tuple_for_key (tr_rows L) (tr_index L) base ps (ve_representative e),
            tuple_for_key (tr_rows L) (tr_index L) current ps (ve_representative e)) of
        (Some b, Some c) \<Rightarrow>
          if b \<noteq> c
          then Some (Inl (KConflict \<lparr>cf_relation = i,
                 cf_tuple = (case ve_tuple e of Some t \<Rightarrow> t | None \<Rightarrow>
                   (case b of Some t \<Rightarrow> t | None \<Rightarrow> select (ve_representative e) ps)),
                 cf_kind = FunctionalKeyChanged\<rparr>))
          else check_visible L i ps base current es
      | _ \<Rightarrow> None)"

fun check_touched ::
  "('m, 'n, 'e, 'x, 'f) trees \<Rightarrow> identity \<Rightarrow> nat list \<Rightarrow> ('m, 'n) relation_state \<Rightarrow> ('m, 'n) relation_state \<Rightarrow>
     (val list \<times> tuple) list \<Rightarrow> (val, unit) kresult" where
  "check_touched L i ps base current [] = kok ()"
| "check_touched L i ps base current ((q, t) # ks) =
     (case (tuple_for_projected_values (tr_rows L) (tr_index L) base ps q,
            tuple_for_projected_values (tr_rows L) (tr_index L) current ps q) of
        (Some b, Some c) \<Rightarrow>
          if b \<noteq> c then Some (Inl (KConflict \<lparr>cf_relation = i, cf_tuple = t, cf_kind = FunctionalKeyChanged\<rparr>))
          else check_touched L i ps base current ks
      | _ \<Rightarrow> None)"

definition validate_functional_conflicts ::
  "('m, 'n, 'e, 'x, 'f) trees \<Rightarrow> identity \<Rightarrow> nat list \<Rightarrow> 'f visible_map option \<Rightarrow> ('e, 'x) overlay \<Rightarrow>
     ('m, 'n) relation_state \<Rightarrow> ('m, 'n) relation_state \<Rightarrow> (val, unit) kresult" where
  "validate_functional_conflicts L i ps visible ov base current =
     (case visible of
        Some vm \<Rightarrow> check_visible L i ps base current (conflict_entries (tr_visible L) vm)
      | None \<Rightarrow> check_touched L i ps base current (touched_projected_keys (tr_entries L) ps ov))"

text \<open>\<open>order\<close> is the order in which the hash map of writes is iterated; it decides which conflict is reported.\<close>

fun validate_conflicts ::
  "('m, 'n, 'e, 'x, 'f) trees \<Rightarrow> ('m, 'n) relation_state snapshot \<Rightarrow> ('m, 'n, 'e, 'x, 'f) rtxn \<Rightarrow> identity list \<Rightarrow> (val, unit) kresult" where
  "validate_conflicts L current tx [] = kok ()"
| "validate_conflicts L current tx (i # order) =
     kbind (Some (snapshot_relation (tx_base tx) i)) (\<lambda>base.
     kbind (Some (snapshot_relation current i)) (\<lambda>now.
     kbind (case (tx_writes tx i, rm_conflict_policy (rs_metadata base)) of
              (None, _) \<Rightarrow> kok ()
            | (Some ov, SetPolicy) \<Rightarrow> Some (validate_set_conflicts L i ov base now)
            | (Some ov, Functional ps) \<Rightarrow> validate_functional_conflicts L i ps (tx_functional_visible tx i) ov base now
            | (Some ov, EventAppend) \<Rightarrow> kok ())
       (\<lambda>_. validate_conflicts L current tx order)))"

section \<open>Commit\<close>

definition rl_replace :: "identity \<Rightarrow> 'a relation_base_scheme \<Rightarrow> 'a relation_base_scheme relation_states \<Rightarrow> 'a relation_base_scheme relation_states" where
  "rl_replace i st c = c\<lparr>rl_entries := om_insert i st (rl_entries c)\<rparr>"

fun apply_writes ::
  "('m, 'n, 'e, 'x, 'f) trees \<Rightarrow> ('m, 'n, 'e, 'x, 'f) rtxn \<Rightarrow> identity list \<Rightarrow> ('m, 'n) relation_state relation_states \<Rightarrow>
     val kernel_error + fact_change list \<times> ('m, 'n) relation_state relation_states" where
  "apply_writes L tx [] relations = Inr ([], relations)"
| "apply_writes L tx (i # is) relations =
     (case (tx_writes tx i, rl_get relations i) of
        (Some ov, Some st) \<Rightarrow>
          (case snapshot_relation (tx_base tx) i of
             Inl e \<Rightarrow> Inl e
           | Inr base \<Rightarrow>
               (let (applied, st') = overlay_apply (tr_rows L) (tr_index L) (tr_entries L) ov base st in
                case apply_writes L tx is (rl_replace i st' relations) of
                  Inl e \<Rightarrow> Inl e
                | Inr (changes, relations') \<Rightarrow>
                    Inr (map (\<lambda>(t, k). \<lparr>fc_relation = i, fc_tuple = t, fc_kind = k\<rparr>) applied @ changes, relations')))
      | _ \<Rightarrow> Inl (UnknownRelation i))"

text \<open>The identities with writes, in ascending order, come from the iteration order of the hash map.\<close>

definition build_next_snapshot ::
  "('m, 'n, 'e, 'x, 'f) trees \<Rightarrow> ('m, 'n, 'e, 'x, 'f) rtxn \<Rightarrow> identity list \<Rightarrow> ('m, 'n) relation_state snapshot \<Rightarrow> nat \<Rightarrow>
     (val, ('m, 'n) relation_state snapshot \<times> commit \<times> nat) kresult" where
  "build_next_snapshot L tx order current h =
     kbind (materialize_buffers (txn.truncate tx) current h) (\<lambda>(buffers, buffer_changes, h').
     kbind (Some (apply_writes L tx (sort order) (sn_relations current))) (\<lambda>(changes, relations).
     kok (\<lparr>sn_version = sn_version current + 1, sn_buffers = buffers, sn_relations = relations\<rparr>,
          \<lparr>cm_version = sn_version current + 1, cm_buffer_changes = buffer_changes, cm_catalog_changes = [], cm_changes = changes\<rparr>, h')))"

text \<open>What reaches the provider: \<open>None\<close> when nothing of the commit is durable.\<close>

fun durable_changes :: "('m, 'n) relation_state snapshot \<Rightarrow> fact_change list \<Rightarrow> val kernel_error + fact_change list" where
  "durable_changes s [] = Inr []"
| "durable_changes s (ch # chs) =
     (case snapshot_relation s (fc_relation ch) of
        Inl e \<Rightarrow> Inl e
      | Inr st \<Rightarrow>
          (case durable_changes s chs of
             Inl e \<Rightarrow> Inl e
           | Inr rest \<Rightarrow> Inr (if rm_durability (rs_metadata st) = Durable then ch # rest else rest)))"

definition persistent_commit :: "('m, 'n) relation_state snapshot \<Rightarrow> commit \<Rightarrow> val kernel_error + commit option" where
  "persistent_commit s cm =
     (case durable_changes s (cm_changes cm) of
        Inl e \<Rightarrow> Inl e
      | Inr changes \<Rightarrow>
          Inr (if cm_catalog_changes cm = [] \<and> changes = [] \<and> cm_buffer_changes cm = [] then None
               else Some (cm\<lparr>cm_changes := changes, cm_buffer_changes := map persistent_buffer_change (cm_buffer_changes cm)\<rparr>)))"

definition persist_commit ::
  "('p \<Rightarrow> commit \<Rightarrow> (string + unit) \<times> 'p) \<Rightarrow> ('m, 'n) relation_state snapshot \<Rightarrow> commit \<Rightarrow> 'p \<Rightarrow> (val kernel_error + unit) \<times> 'p" where
  "persist_commit persist s cm log =
     (case persistent_commit s cm of
        Inl e \<Rightarrow> (Inl e, log)
      | Inr None \<Rightarrow> (Inr (), log)
      | Inr (Some pc) \<Rightarrow> (case persist log pc of (r, log') \<Rightarrow> (map_sum Persistence id r, log')))"

text \<open>
  What the kernel keeps between transactions: the published root, the state of the commit provider, the
  results of client edits and the retained versions of buffers. A commit and the creation of a relation
  hold the commit lock, so the current snapshot is the published one throughout.
\<close>

record ('m, 'n, 'p) kernel =
  kn_root :: "('m, 'n) relation_state snapshot"
  kn_log :: 'p
  kn_results :: client_results
  kn_history :: buffer_history

text \<open>The part of \<open>commit_inner\<close> that may fail: validation, the next snapshot, persistence, publication.\<close>

definition commit_attempt ::
  "('m, 'n, 'e, 'x, 'f) trees \<Rightarrow> ('p \<Rightarrow> commit \<Rightarrow> (string + unit) \<times> 'p) \<Rightarrow> ('m, 'n, 'e, 'x, 'f) rtxn \<Rightarrow> identity list \<Rightarrow>
     nat \<Rightarrow> ('m, 'n, 'p) kernel \<Rightarrow> ((val kernel_error + commit) \<times> ('m, 'n, 'p) kernel) option" where
  "commit_attempt L persist tx order h kn =
     (case kbind (if sn_version (kn_root kn) \<noteq> sn_version (tx_base tx) then validate_conflicts L (kn_root kn) tx order else kok ())
             (\<lambda>_. build_next_snapshot L tx order (kn_root kn) h) of
        None \<Rightarrow> None
      | Some (Inl e) \<Rightarrow> Some (Inl e, kn)
      | Some (Inr (newer, cm, h')) \<Rightarrow>
          (case persist_commit persist (kn_root kn) cm (kn_log kn) of
             (Inl e, log') \<Rightarrow> Some (Inl e, kn\<lparr>kn_log := log'\<rparr>)
           | (Inr _, log') \<Rightarrow>
               (case try_publish_with_buffer_history (kn_root kn) newer (map fst (tx_buffer_writes tx)) (kn_root kn) (kn_history kn) of
                  None \<Rightarrow> None
                | Some (published, root', hist') \<Rightarrow>
                    Some (if published then Inr cm else Inl (Persistence ''commit publish failed after serialized persistence''),
                      kn\<lparr>kn_root := root', kn_log := log', kn_history := hist'\<rparr>))))"

text \<open>The client edits of the transaction are settled by the outcome; the transaction is dropped at the end.\<close>

definition settle_applies ::
  "(delta \<Rightarrow> nat) \<Rightarrow> val kernel_error + commit \<Rightarrow> ('m, 'n) relation_state snapshot \<Rightarrow> ('m, 'n) relation_state snapshot \<Rightarrow>
     ('m, 'n) relation_state txn \<Rightarrow> client_results \<Rightarrow> client_results option" where
  "settle_applies sz r current published tx c =
     Option.bind
       (case r of
          Inr cm \<Rightarrow> complete_buffer_applies sz published tx c
        | Inl e \<Rightarrow> fail_buffer_applies sz e current tx c)
       (\<lambda>(tx', c'). drop_transaction sz tx' c')"

definition commit_inner ::
  "(delta \<Rightarrow> nat) \<Rightarrow> ('m, 'n, 'e, 'x, 'f) trees \<Rightarrow> ('p \<Rightarrow> commit \<Rightarrow> (string + unit) \<times> 'p) \<Rightarrow> ('m, 'n, 'e, 'x, 'f) rtxn \<Rightarrow> identity list \<Rightarrow>
     nat \<Rightarrow> ('m, 'n, 'p) kernel \<Rightarrow> ((val kernel_error + commit) \<times> ('m, 'n, 'p) kernel) option" where
  "commit_inner sz L persist tx order h kn =
     Option.bind (commit_attempt L persist tx order h kn)
       (\<lambda>(r, kn'). map_option (\<lambda>c. (r, kn'\<lparr>kn_results := c\<rparr>))
          (settle_applies sz r (kn_root kn) (kn_root kn') (txn.truncate tx) (kn_results kn')))"

text \<open>A relation is added under the same lock; its name may already be taken by another relation.\<close>

definition create_relation ::
  "('m, 'n, 'e, 'x, 'f) trees \<Rightarrow> ('p \<Rightarrow> commit \<Rightarrow> (string + unit) \<times> 'p) \<Rightarrow> relation_metadata \<Rightarrow>
     ('m, 'n, 'p) kernel \<Rightarrow> (val kernel_error + unit) \<times> ('m, 'n, 'p) kernel" where
  "create_relation L persist md kn =
     (let root = kn_root kn in
      case state_empty (tr_index L) md of
        Inl e \<Rightarrow> (Inl e, kn)
      | Inr st \<Rightarrow>
          if rl_contains_key (sn_relations root) (rm_id md) \<or> bf_get (sn_buffers root) (rm_id md) \<noteq> None \<or>
             bf_named (sn_buffers root) (rm_name md) \<noteq> None
          then (Inl (RelationAlreadyExists (rm_id md)), kn)
          else
            let newer = root\<lparr>sn_relations := rl_insert (rm_id md) st (sn_relations root), sn_version := sn_version root + 1\<rparr>;
                cm = \<lparr>cm_version = sn_version root + 1, cm_buffer_changes = [], cm_catalog_changes = [md], cm_changes = []\<rparr> in
            (case persist_commit persist root cm (kn_log kn) of
               (Inl e, log') \<Rightarrow> (Inl e, kn\<lparr>kn_log := log'\<rparr>)
             | (Inr _, log') \<Rightarrow>
                 (case try_publish (sn_version root) newer root of
                    (published, root') \<Rightarrow>
                      (if published then Inr () else Inl (Persistence ''commit publish failed after serialized persistence''),
                        kn\<lparr>kn_root := root', kn_log := log'\<rparr>))))"

section \<open>Replay\<close>

fun replay_facts ::
  "('m, 'n, 'e, 'x, 'f) trees \<Rightarrow> fact_change list \<Rightarrow> ('m, 'n) relation_state relation_states \<Rightarrow>
     val kernel_error + ('m, 'n) relation_state relation_states" where
  "replay_facts L [] states = Inr states"
| "replay_facts L (ch # chs) states =
     (case rl_get states (fc_relation ch) of
        None \<Rightarrow> Inl (UnknownRelation (fc_relation ch))
      | Some st \<Rightarrow>
          if rm_durability (rs_metadata st) = Volatile then replay_facts L chs states
          else if state_arity st \<noteq> length (fc_tuple ch)
          then Inl (kernel_error.ArityMismatch (fc_relation ch) (state_arity st) (length (fc_tuple ch)))
          else
            replay_facts L chs (rl_replace (fc_relation ch)
              (snd (case fc_kind ch of
                 Assert \<Rightarrow> insert_indexed (tr_rows L) (tr_index L) (fc_tuple ch) st
               | Retract \<Rightarrow> remove_indexed (tr_rows L) (tr_index L) (fc_tuple ch) st)) states))"

fun empty_states ::
  "('m, 'n, 'e, 'x, 'f) trees \<Rightarrow> relation_metadata list \<Rightarrow> ('m, 'n) relation_state relation_states \<Rightarrow>
     val kernel_error + ('m, 'n) relation_state relation_states" where
  "empty_states L [] states = Inr states"
| "empty_states L (md # mds) states =
     (case state_empty (tr_index L) md of
        Inl e \<Rightarrow> Inl e
      | Inr st \<Rightarrow> empty_states L mds (rl_insert (rm_id md) st states))"

end
