(* ===== verification/RelationCommit.thy ===== *)
theory RelationCommit
  imports RelationTxn
begin

text \<open>
  What the writes, reads and commits of \<open>RelationTxn\<close> do to the set of tuples each relation holds:
  a transaction sees its base with its own changes on top, functional keys stay unique through local
  writes and through commits, and a commit publishes the current set with the changes applied.
\<close>

section \<open>Snapshots and transactions over sets of tuples\<close>

type_synonym contents = "identity \<Rightarrow> tuple set"
type_synonym changes = "identity \<Rightarrow> tuple \<Rightarrow> local_change option"

definition keys_ok :: "relation_metadata \<Rightarrow> tuple set \<Rightarrow> bool" where
  "keys_ok md A \<longleftrightarrow> (\<forall>ps. rm_conflict_policy md = Functional ps \<longrightarrow> functional_on ps A)"

definition relations_ok :: "('m, 'n, 'e, 'x, 'f) trees \<Rightarrow> ('m, 'n) relation_state relation_states \<Rightarrow> contents \<Rightarrow> bool" where
  "relations_ok L c D \<longleftrightarrow> om_ok (rl_entries c) \<and>
     (\<forall>i st. rl_get c i = Some st \<longrightarrow> rstate_ok (tr_rows L) (tr_index L) st (D i) \<and> keys_ok (rs_metadata st) (D i))"

definition writes_tracked ::
  "('m, 'n, 'e, 'x, 'f) trees \<Rightarrow> ('m, 'n) relation_state \<Rightarrow> tuple set \<Rightarrow> ('e, 'x) overlay option \<Rightarrow> 'f visible_map option \<Rightarrow>
     (tuple \<Rightarrow> local_change option) \<Rightarrow> bool" where
  "writes_tracked L st B ov vm W \<longleftrightarrow>
     overlay_ok (tr_entries L) (tr_scan L) (state_arity st) (case ov of None \<Rightarrow> overlay_default | Some ov \<Rightarrow> ov) W \<and>
     (case rm_conflict_policy (rs_metadata st) of
        Functional ps \<Rightarrow> functional_on ps (view B W) \<and>
          (case vm of Some vm \<Rightarrow> visible_ok (tr_visible L) (state_arity st) ps B W vm | None \<Rightarrow> \<forall>t. W t \<noteq> Some Assert)
      | _ \<Rightarrow> vm = None)"

definition txn_ok :: "('m, 'n, 'e, 'x, 'f) trees \<Rightarrow> ('m, 'n, 'e, 'x, 'f) rtxn \<Rightarrow> contents \<Rightarrow> changes \<Rightarrow> bool" where
  "txn_ok L tx D W \<longleftrightarrow> relations_ok L (sn_relations (tx_base tx)) D \<and>
     (\<forall>i. case rl_get (sn_relations (tx_base tx)) i of
        None \<Rightarrow> tx_writes tx i = None \<and> W i = Map.empty
      | Some st \<Rightarrow> writes_tracked L st (D i) (tx_writes tx i) (tx_functional_visible tx i) (W i))"

lemma txn_okD:
  assumes "txn_ok L tx D W" "snapshot_relation (tx_base tx) i = Inr st"
  shows "rstate_ok (tr_rows L) (tr_index L) st (D i)" "keys_ok (rs_metadata st) (D i)"
    "writes_tracked L st (D i) (tx_writes tx i) (tx_functional_visible tx i) (W i)"
    "rl_get (sn_relations (tx_base tx)) i = Some st"
proof -
  show g: "rl_get (sn_relations (tx_base tx)) i = Some st"
    using assms(2) by (simp add: snapshot_relation_def split: option.splits)
  show "rstate_ok (tr_rows L) (tr_index L) st (D i)" "keys_ok (rs_metadata st) (D i)"
    using assms(1) g by (auto simp: txn_ok_def relations_ok_def)
  have "case rl_get (sn_relations (tx_base tx)) i of None \<Rightarrow> tx_writes tx i = None \<and> W i = Map.empty
      | Some st \<Rightarrow> writes_tracked L st (D i) (tx_writes tx i) (tx_functional_visible tx i) (W i)"
    using assms(1) by (simp add: txn_ok_def)
  then show "writes_tracked L st (D i) (tx_writes tx i) (tx_functional_visible tx i) (W i)" using g by simp
qed

lemma txn_ok_known:
  assumes "txn_ok L tx D W" "tx_writes tx i = Some ov"
  shows "\<exists>st. rl_get (sn_relations (tx_base tx)) i = Some st"
proof -
  have "case rl_get (sn_relations (tx_base tx)) i of None \<Rightarrow> tx_writes tx i = None \<and> W i = Map.empty
      | Some st \<Rightarrow> writes_tracked L st (D i) (tx_writes tx i) (tx_functional_visible tx i) (W i)"
    using assms(1) by (simp add: txn_ok_def)
  then show ?thesis using assms(2) by (cases "rl_get (sn_relations (tx_base tx)) i") simp_all
qed

lemma writes_trackedD:
  assumes "writes_tracked L st B ov vm W" "rm_conflict_policy (rs_metadata st) = Functional ps"
  shows "functional_on ps (view B W)"
    "vm = None \<Longrightarrow> W t \<noteq> Some Assert" "vm = Some v \<Longrightarrow> visible_ok (tr_visible L) (state_arity st) ps B W v"
  using assms by (simp_all add: writes_tracked_def)

text \<open>A change of one relation leaves the others as they are.\<close>

lemma txn_ok_update:
  assumes "txn_ok L tx D W" "snapshot_relation (tx_base tx) i = Inr st" "tx_base tx' = tx_base tx"
    and "\<And>j. j \<noteq> i \<Longrightarrow> tx_writes tx' j = tx_writes tx j \<and> tx_functional_visible tx' j = tx_functional_visible tx j"
    and "writes_tracked L st (D i) (tx_writes tx' i) (tx_functional_visible tx' i) W'"
  shows "txn_ok L tx' D (W(i := W'))"
proof -
  note g = txn_okD(4) [OF assms(1,2)]
  have "case rl_get (sn_relations (tx_base tx')) j of None \<Rightarrow> tx_writes tx' j = None \<and> (W(i := W')) j = Map.empty
      | Some st \<Rightarrow> writes_tracked L st (D j) (tx_writes tx' j) (tx_functional_visible tx' j) ((W(i := W')) j)" for j
  proof (cases "j = i")
    case True
    then show ?thesis using g assms(3,5) by simp
  next
    case False
    have "case rl_get (sn_relations (tx_base tx)) j of None \<Rightarrow> tx_writes tx j = None \<and> W j = Map.empty
      | Some st \<Rightarrow> writes_tracked L st (D j) (tx_writes tx j) (tx_functional_visible tx j) (W j)"
      using assms(1) by (simp add: txn_ok_def)
    then show ?thesis using False assms(3) assms(4) [OF False] by (cases "rl_get (sn_relations (tx_base tx)) j") simp_all
  qed
  then show ?thesis using assms(1,3) by (simp add: txn_ok_def)
qed

section \<open>Local writes\<close>

lemma trees_okD:
  "trees_ok L \<Longrightarrow> radix_laws (tr_rows L)" "trees_ok L \<Longrightarrow> radix_laws (tr_index L)" "trees_ok L \<Longrightarrow> radix_laws (tr_entries L)"
  "trees_ok L \<Longrightarrow> radix_laws (tr_scan L)" "trees_ok L \<Longrightarrow> radix_laws (tr_visible L)"
  by (simp_all add: trees_ok_def)

lemma key_columns_bound:
  "rstate_ok R Q st A \<Longrightarrow> rm_conflict_policy (rs_metadata st) = Functional ps \<Longrightarrow> \<forall>p \<in> set ps. p < state_arity st"
  by (simp add: rstate_ok_def key_columns_def)

lemma base_lookup:
  assumes "trees_ok L" "rstate_ok (tr_rows L) (tr_index L) st A" "rm_conflict_policy (rs_metadata st) = Functional ps"
    and "functional_on ps A" "t \<in> rows_of (state_arity st)"
  shows "tuple_for_key (tr_rows L) (tr_index L) st ps t = Some (at_key A ps (select t ps))"
    "tuple_for_projected_values (tr_rows L) (tr_index L) st ps (select t ps) = Some (at_key A ps (select t ps))"
proof -
  obtain r where r: "tuple_for_key (tr_rows L) (tr_index L) st ps t = Some r"
    "tuple_for_projected_values (tr_rows L) (tr_index L) st ps (select t ps) = Some r" "finds A ps (select t ps) r"
    by (rule state_key_lookup [OF trees_okD(1,2) [OF assms(1)] assms(2) key_columns_bound [OF assms(2,3)] assms(5)])
  then have "r = at_key A ps (select t ps)" using finds_functional [OF assms(4)] by blast
  then show "tuple_for_key (tr_rows L) (tr_index L) st ps t = Some (at_key A ps (select t ps))"
    "tuple_for_projected_values (tr_rows L) (tr_index L) st ps (select t ps) = Some (at_key A ps (select t ps))"
    using r(1,2) by simp_all
qed

lemma overlay_default_entries [simp]: "overlay_entries E overlay_default = []"
  by (simp add: overlay_entries_def overlay_default_def)

lemma visible_tuple_ok:
  assumes "trees_ok L" "txn_ok L tx D W" "snapshot_relation (tx_base tx) i = Inr st"
    and fn: "rm_conflict_policy (rs_metadata st) = Functional ps" "t \<in> rows_of (state_arity st)"
  obtains vm where
    "visible_tuple_for_key L i t st tx =
       Some (at_key (view (D i) (W i)) ps (select t ps), tx\<lparr>tx_functional_visible := (tx_functional_visible tx)(i \<mapsto> vm)\<rparr>)"
    "visible_ok (tr_visible L) (state_arity st) ps (D i) (W i) vm"
proof -
  let ?R = "tr_rows L" and ?Q = "tr_index L"
  note st = txn_okD(1-3) [OF assms(2,3)]
  have base: "functional_on ps (D i)" using st(2) fn(1) by (simp add: keys_ok_def)
  have ps: "\<forall>p \<in> set ps. p < state_arity st" by (rule key_columns_bound [OF st(1) fn(1)])
  have look: "\<And>u. u \<in> rows_of (state_arity st) \<Longrightarrow> tuple_for_key ?R ?Q st ps u = Some (at_key (D i) ps (select u ps))"
    by (rule base_lookup(1) [OF assms(1) st(1) fn(1) base])
  have ov: "overlay_ok (tr_entries L) (tr_scan L) (state_arity st) (case tx_writes tx i of None \<Rightarrow> overlay_default | Some ov \<Rightarrow> ov) (W i)"
    using st(3) by (simp add: writes_tracked_def)
  obtain vm where vm: "(case tx_functional_visible tx i of Some vm \<Rightarrow> Some vm
      | None \<Rightarrow> from_writes (tr_visible L) (tr_entries L) ps (tx_writes tx i) (tuple_for_key ?R ?Q st ps)) = Some vm"
    "visible_ok (tr_visible L) (state_arity st) ps (D i) (W i) vm"
  proof (cases "tx_functional_visible tx i")
    case (Some v)
    then show ?thesis using that [of v] writes_trackedD(3) [OF st(3) fn(1)] by simp
  next
    case None
    let ?es = "overlay_entries (tr_entries L) (case tx_writes tx i of None \<Rightarrow> overlay_default | Some ov \<Rightarrow> ov)"
    note es = overlay_entries_ok [OF trees_okD(3) [OF assms(1)] ov]
    have retract: "c = Retract" if "W i u = Some c" for u c
      using writes_trackedD(2) [OF st(3) fn(1) None] that by (cases c) auto
    have "\<exists>vm. visible_from_entries (tr_visible L) (tuple_for_key ?R ?Q st ps) ?es (visible_new (tr_visible L) ps) = Some vm \<and>
        visible_ok (tr_visible L) (state_arity st) ps (D i) (Map.empty ++ map_of ?es) vm"
    proof (rule from_entries_ok [OF trees_okD(5) [OF assms(1)] ps base look visible_new_ok [OF trees_okD(5) [OF assms(1)]]])
      show "\<forall>e \<in> set ?es. fst e \<in> rows_of (state_arity st) \<and> snd e = Retract"
      proof
        fix e assume e: "e \<in> set ?es"
        then have "W i (fst e) = Some (snd e)" using entries_okD(6) [OF es, of "fst e" "snd e"] by simp
        then show "fst e \<in> rows_of (state_arity st) \<and> snd e = Retract" using retract e es by (auto simp: entries_ok_def)
      qed
    qed (use entries_okD(1) [OF es] in simp_all)
    then obtain vm where v: "visible_from_entries (tr_visible L) (tuple_for_key ?R ?Q st ps) ?es (visible_new (tr_visible L) ps) = Some vm"
      "visible_ok (tr_visible L) (state_arity st) ps (D i) (W i) vm" using es by (auto simp: entries_ok_def)
    have "from_writes (tr_visible L) (tr_entries L) ps (tx_writes tx i) (tuple_for_key ?R ?Q st ps) = Some vm"
      using v(1) by (cases "tx_writes tx i") (simp_all add: from_writes_def)
    then show ?thesis using that [of vm] None v(2) by simp
  qed
  note l = visible_lookup [OF vm(2) ps fn(2)]
  have "visible_tuple_for_key L i t st tx =
       Some (at_key (view (D i) (W i)) ps (select t ps), tx\<lparr>tx_functional_visible := (tx_functional_visible tx)(i \<mapsto> vm)\<rparr>)"
    using vm(1) fn(1) l(1,2) look [OF fn(2)]
    by (cases "tracked_tuple (tr_visible L) vm t") (simp_all add: visible_tuple_for_key_def Let_def)
  then show thesis using that vm(2) by blast
qed

lemma validate_tuple_ok:
  "validate_tuple st t = Inr () \<longleftrightarrow> length t = state_arity st \<and> (\<forall>v \<in> set t. is_persistable v)"
  by (auto simp: validate_tuple_def)

definition write_allowed ::
  "(relation_metadata \<Rightarrow> bool) \<Rightarrow> ('m, 'n, 'e, 'x, 'f) rtxn \<Rightarrow> identity \<Rightarrow> tuple \<Rightarrow> local_change \<Rightarrow> tuple set \<Rightarrow> bool" where
  "write_allowed computed tx i t c V \<longleftrightarrow>
     (case rl_get (sn_relations (tx_base tx)) i of
        None \<Rightarrow> False
      | Some st \<Rightarrow> \<not> computed (rs_metadata st) \<and> length t = state_arity st \<and> (\<forall>v \<in> set t. is_persistable v) \<and>
          (c = Assert \<longrightarrow> keys_ok (rs_metadata st) (insert t V)))"

lemma insert_key:
  assumes "functional_on ps V"
  shows "functional_on ps (insert t V) \<longleftrightarrow> at_key V ps (select t ps) \<in> {None, Some t}"
proof -
  define r where "r = at_key V ps (select t ps)"
  have r: "r = Some u \<longleftrightarrow> u \<in> V \<and> select u ps = select t ps" for u unfolding r_def using at_key_Some [OF assms] by blast
  have "r \<in> {None, Some t} \<longleftrightarrow> (\<forall>u. r = Some u \<longrightarrow> u = t)" by (cases r) auto
  also have "\<dots> \<longleftrightarrow> (\<forall>u \<in> V. select u ps = select t ps \<longrightarrow> u = t)" unfolding r by blast
  also have "\<dots> \<longleftrightarrow> functional_on ps (insert t V)"
  proof
    assume only: "\<forall>u \<in> V. select u ps = select t ps \<longrightarrow> u = t"
    show "functional_on ps (insert t V)" unfolding functional_on_def
    proof (intro ballI impI)
      fix a b assume "a \<in> insert t V" "b \<in> insert t V" "select a ps = select b ps"
      then show "a = b" using assms only unfolding functional_on_def by (metis insertE)
    qed
  qed (auto simp: functional_on_def)
  finally show ?thesis unfolding r_def ..
qed

lemma record_functional_ok:
  assumes "trees_ok L" "txn_ok L tx D W" "snapshot_relation (tx_base tx) i = Inr st" "t \<in> rows_of (state_arity st)"
    and allowed: "c = Assert \<longrightarrow> keys_ok (rs_metadata st) (insert t (view (D i) (W i)))"
    and known: "c = Assert \<longrightarrow> is_functional (rs_metadata st) \<longrightarrow> tx_functional_visible tx i \<noteq> None"
  obtains tx' where "record_functional_change L i t c st (write_change L i t c tx) = Some tx'" "tx_base tx' = tx_base tx"
    "txn_ok L tx' D (W(i := (W i)(t \<mapsto> c)))"
proof -
  note st = txn_okD(1-3) [OF assms(2,3)]
  let ?tx = "write_change L i t c tx"
  let ?ov = "case tx_writes tx i of None \<Rightarrow> overlay_default | Some ov \<Rightarrow> ov"
  have "overlay_ok (tr_entries L) (tr_scan L) (state_arity st) ?ov (W i)" using st(3) by (simp add: writes_tracked_def)
  then have ov: "overlay_ok (tr_entries L) (tr_scan L) (state_arity st) (overlay_insert (tr_entries L) (tr_scan L) t c ?ov) ((W i)(t \<mapsto> c))"
    by (rule overlay_insert_ok [OF trees_okD(3,4) [OF assms(1)] _ assms(4)])
  have w: "tx_writes ?tx i = Some (overlay_insert (tr_entries L) (tr_scan L) t c ?ov)" "tx_base ?tx = tx_base tx"
    "tx_functional_visible ?tx = tx_functional_visible tx" "\<And>j. j \<noteq> i \<Longrightarrow> tx_writes ?tx j = tx_writes tx j"
    by (simp_all add: write_change_def)
  show thesis
  proof (cases "rm_conflict_policy (rs_metadata st)")
    case (Functional ps)
    note f = writes_trackedD [OF st(3) Functional]
    have at: "c = Assert \<longrightarrow> at_key (view (D i) (W i)) ps (select t ps) \<in> {None, Some t}"
      using allowed Functional insert_key [OF f(1), of t] by (simp add: keys_ok_def)
    note u = at_key_change [OF f(1) at]
    have base: "functional_on ps (D i)" using st(2) Functional by (simp add: keys_ok_def)
    note look = base_lookup(1) [OF assms(1) st(1) Functional base assms(4)]
    show ?thesis
    proof (cases "tx_functional_visible tx i")
      case None
      then have c: "c = Retract" using known Functional by (cases c) (auto simp: is_functional_def)
      then have "((W i)(t \<mapsto> c)) s \<noteq> Some Assert" for s using f(2) [OF None] by simp
      then have "writes_tracked L st (D i) (tx_writes ?tx i) (tx_functional_visible ?tx i) ((W i)(t \<mapsto> c))"
        using ov u(1) Functional None w by (simp add: writes_tracked_def)
      then have "txn_ok L ?tx D (W(i := (W i)(t \<mapsto> c)))" by (intro txn_ok_update [OF assms(2,3) w(2)]) (use w in simp_all)
      then show ?thesis using None w by (intro that [of ?tx]) (simp_all add: record_functional_change_def)
    next
      case (Some vm)
      obtain vm' where vm': "record_change_with_base_lookup (tr_visible L) t c (\<lambda>ps. tuple_for_key (tr_rows L) (tr_index L) st ps t) vm = Some vm'"
        "visible_ok (tr_visible L) (state_arity st) ps (D i) ((W i)(t \<mapsto> c)) vm'"
        by (rule record_with_base_ok [OF trees_okD(5) [OF assms(1)] f(3) [OF Some] key_columns_bound [OF st(1) Functional] assms(4) f(1) at, of "\<lambda>ps. tuple_for_key (tr_rows L) (tr_index L) st ps t"])
           (use look in simp_all)
      let ?tx' = "?tx\<lparr>tx_functional_visible := (tx_functional_visible ?tx)(i \<mapsto> vm')\<rparr>"
      have "writes_tracked L st (D i) (tx_writes ?tx' i) (tx_functional_visible ?tx' i) ((W i)(t \<mapsto> c))"
        using ov u(1) Functional vm'(2) w by (simp add: writes_tracked_def)
      then have "txn_ok L ?tx' D (W(i := (W i)(t \<mapsto> c)))" by (intro txn_ok_update [OF assms(2,3)]) (use w in simp_all)
      then show ?thesis using Some vm'(1) w by (intro that [of ?tx']) (simp_all add: record_functional_change_def)
    qed
  next
    case SetPolicy
    then have none: "tx_functional_visible tx i = None" using st(3) by (simp add: writes_tracked_def)
    then have "writes_tracked L st (D i) (tx_writes ?tx i) (tx_functional_visible ?tx i) ((W i)(t \<mapsto> c))"
      using ov SetPolicy w by (simp add: writes_tracked_def)
    then have "txn_ok L ?tx D (W(i := (W i)(t \<mapsto> c)))" by (intro txn_ok_update [OF assms(2,3) w(2)]) (use w in simp_all)
    then show ?thesis using none w by (intro that [of ?tx]) (simp_all add: record_functional_change_def)
  next
    case EventAppend
    then have none: "tx_functional_visible tx i = None" using st(3) by (simp add: writes_tracked_def)
    then have "writes_tracked L st (D i) (tx_writes ?tx i) (tx_functional_visible ?tx i) ((W i)(t \<mapsto> c))"
      using ov EventAppend w by (simp add: writes_tracked_def)
    then have "txn_ok L ?tx D (W(i := (W i)(t \<mapsto> c)))" by (intro txn_ok_update [OF assms(2,3) w(2)]) (use w in simp_all)
    then show ?thesis using none w by (intro that [of ?tx]) (simp_all add: record_functional_change_def)
  qed
qed

lemma with_visible_ok:
  assumes "txn_ok L tx D W" "snapshot_relation (tx_base tx) i = Inr st" "rm_conflict_policy (rs_metadata st) = Functional ps"
    and "visible_ok (tr_visible L) (state_arity st) ps (D i) (W i) vm"
  shows "txn_ok L (tx\<lparr>tx_functional_visible := (tx_functional_visible tx)(i \<mapsto> vm)\<rparr>) D W"
proof -
  let ?tx = "tx\<lparr>tx_functional_visible := (tx_functional_visible tx)(i \<mapsto> vm)\<rparr>"
  have "txn_ok L ?tx D (W(i := W i))"
    by (rule txn_ok_update [OF assms(1,2)]) (use txn_okD(3) [OF assms(1,2)] assms(3,4) in \<open>simp_all add: writes_tracked_def\<close>)
  then show ?thesis by simp
qed

text \<open>
  A write succeeds exactly when it is allowed, and then it is what the transaction sees; a refused
  write leaves the transaction seeing what it saw and reports the first of its reasons in this order.
\<close>

definition refused_with ::
  "(relation_metadata \<Rightarrow> bool) \<Rightarrow> ('m, 'n, 'e, 'x, 'f) rtxn \<Rightarrow> identity \<Rightarrow> tuple \<Rightarrow> local_change \<Rightarrow> tuple set \<Rightarrow> val kernel_error \<Rightarrow> bool" where
  "refused_with computed tx i t c V e \<longleftrightarrow>
     (case rl_get (sn_relations (tx_base tx)) i of
        None \<Rightarrow> e = UnknownRelation i
      | Some st \<Rightarrow>
          if computed (rs_metadata st) then e = ReadOnlyRelation i
          else if length t \<noteq> state_arity st then e = kernel_error.ArityMismatch (rm_id (rs_metadata st)) (state_arity st) (length t)
          else if \<not> (\<forall>v \<in> set t. is_persistable v) then e = NonPersistentValue (rm_id (rs_metadata st)) t
          else c = Assert \<and> (\<exists>ps u. rm_conflict_policy (rs_metadata st) = Functional ps \<and> u \<in> V \<and> u \<noteq> t \<and>
                 select u ps = select t ps \<and> e = FunctionalKeyViolation i u t))"

lemma apply_local_change_ok:
  assumes "trees_ok L" "txn_ok L tx D W" "row_ok t"
  obtains r tx' where "apply_local_change L computed i t c tx = Some (r, tx')" "tx_base tx' = tx_base tx"
    "write_allowed computed tx i t c (view (D i) (W i)) \<Longrightarrow> r = Inr () \<and> txn_ok L tx' D (W(i := (W i)(t \<mapsto> c)))"
    "\<not> write_allowed computed tx i t c (view (D i) (W i)) \<Longrightarrow>
       (\<exists>e. r = Inl e \<and> refused_with computed tx i t c (view (D i) (W i)) e) \<and> txn_ok L tx' D W"
proof (cases "require_writable_relation computed tx i")
  case (Inl e)
  then have "\<not> write_allowed computed tx i t c (view (D i) (W i))" "refused_with computed tx i t c (view (D i) (W i)) e"
    by (auto simp: require_writable_relation_def snapshot_relation_def write_allowed_def refused_with_def split: option.splits if_splits)
  then show ?thesis using Inl assms(2) by (intro that [of "Inl e" tx]) (simp_all add: apply_local_change_def)
next
  case (Inr st)
  then have st: "snapshot_relation (tx_base tx) i = Inr st" "\<not> computed (rs_metadata st)"
    by (auto simp: require_writable_relation_def split: sum.splits if_splits)
  note g = txn_okD [OF assms(2) st(1)]
  have wa: "write_allowed computed tx i t c V \<longleftrightarrow> validate_tuple st t = Inr () \<and> (c = Assert \<longrightarrow> keys_ok (rs_metadata st) (insert t V))" for V
    using g(4) st(2) by (simp add: write_allowed_def validate_tuple_ok)
  show ?thesis
  proof (cases "validate_tuple st t")
    case (Inl e)
    then have "refused_with computed tx i t c (view (D i) (W i)) e"
      using g(4) st(2) by (auto simp: refused_with_def validate_tuple_def split: if_splits)
    then show ?thesis using Inl Inr assms(2) wa by (intro that [of "Inl e" tx]) (simp_all add: apply_local_change_def)
  next
    case valid: (Inr u)
    then have t: "t \<in> rows_of (state_arity st)" "validate_tuple st t = Inr ()" using assms(3) validate_tuple_ok [of st t] by (auto simp: rows_of_def)
    show ?thesis
    proof (cases "c = Assert \<and> is_functional (rs_metadata st)")
      case False
      then have ok: "c = Assert \<longrightarrow> keys_ok (rs_metadata st) (insert t (view (D i) (W i)))"
        by (auto simp: is_functional_def keys_ok_def split: conflict_policy.splits)
      obtain tx' where "record_functional_change L i t c st (write_change L i t c tx) = Some tx'" "tx_base tx' = tx_base tx"
        "txn_ok L tx' D (W(i := (W i)(t \<mapsto> c)))"
        by (rule record_functional_ok [OF assms(1,2) st(1) t(1) ok]) (use False in auto)
      then show ?thesis using Inr t(2) False ok wa by (intro that [of "Inr ()" tx']) (auto simp: apply_local_change_def)
    next
      case True
      then obtain ps where ps: "rm_conflict_policy (rs_metadata st) = Functional ps" by (auto simp: is_functional_def split: conflict_policy.splits)
      obtain vm where vm: "visible_tuple_for_key L i t st tx =
          Some (at_key (view (D i) (W i)) ps (select t ps), tx\<lparr>tx_functional_visible := (tx_functional_visible tx)(i \<mapsto> vm)\<rparr>)"
        "visible_ok (tr_visible L) (state_arity st) ps (D i) (W i) vm"
        by (rule visible_tuple_ok [OF assms(1,2) st(1) ps t(1)])
      let ?tx = "tx\<lparr>tx_functional_visible := (tx_functional_visible tx)(i \<mapsto> vm)\<rparr>"
      let ?at = "at_key (view (D i) (W i)) ps (select t ps)"
      note tx = with_visible_ok [OF assms(2) st(1) ps vm(2)]
      have keys: "keys_ok (rs_metadata st) (insert t (view (D i) (W i))) \<longleftrightarrow> ?at \<in> {None, Some t}"
        using insert_key [OF writes_trackedD(1) [OF g(3) ps]] ps by (simp add: keys_ok_def)
      show ?thesis
      proof (cases "?at \<in> {None, Some t}")
        case ok: True
        have st': "snapshot_relation (tx_base ?tx) i = Inr st" using st(1) by simp
        obtain tx' where "record_functional_change L i t c st (write_change L i t c ?tx) = Some tx'" "tx_base tx' = tx_base ?tx"
          "txn_ok L tx' D (W(i := (W i)(t \<mapsto> c)))"
          by (rule record_functional_ok [OF assms(1) tx st' t(1)]) (use keys ok in auto)
        then show ?thesis using Inr t(2) True ok wa keys vm(1) by (intro that [of "Inr ()" tx']) (auto simp: apply_local_change_def)
      next
        case bad: False
        then obtain u where u: "?at = Some u" "u \<noteq> t" by (cases ?at) auto
        then have "u \<in> view (D i) (W i) \<and> select u ps = select t ps" using at_key_Some [OF writes_trackedD(1) [OF g(3) ps]] by blast
        then have "refused_with computed tx i t c (view (D i) (W i)) (FunctionalKeyViolation i u t)"
          using g(4) st(2) t(2) True ps u(2) unfolding validate_tuple_ok by (auto simp: refused_with_def)
        then show ?thesis using u Inr t(2) True bad wa keys vm(1) tx
          by (intro that [of "Inl (FunctionalKeyViolation i u t)" ?tx]) (simp_all add: apply_local_change_def)
      qed
    qed
  qed
qed

section \<open>Extensional reads\<close>

lemma local_rows_ok:
  assumes "entries_ok n es W"
  shows "ascending (local_rows bindings c es)" "set (local_rows bindings c es) = {t. W t = Some c \<and> matches_bindings t bindings}"
proof -
  have "ascending (map fst es)" using assms by (simp add: entries_ok_def)
  then show "ascending (local_rows bindings c es)"
    by (simp add: local_rows_def strictly_def sorted_wrt_map sorted_wrt_filter)
  show "set (local_rows bindings c es) = {t. W t = Some c \<and> matches_bindings t bindings}"
    using entries_okD(6) [OF assms] by (force simp: local_rows_def)
qed

lemma local_rows_filter:
  "filter (entry_matches bindings) es = filter (entry_matches bindings) es' \<Longrightarrow> local_rows bindings c es = local_rows bindings c es'"
proof -
  assume *: "filter (entry_matches bindings) es = filter (entry_matches bindings) es'"
  have split: "local_rows bindings c es = map fst (filter (\<lambda>e. snd e = c) (filter (entry_matches bindings) es))" for es
    by (simp add: local_rows_def entry_matches_def conj_commute)
  show ?thesis unfolding split [of es] split [of es'] * ..
qed

lemma merge_local_ok:
  assumes "ascending visible" "ascending asserts" "ascending retracts" "rows_ok visible" "rows_ok asserts" "rows_ok retracts"
    and "set asserts \<inter> set retracts = {}"
  shows "ascending (merge_local visible asserts retracts)"
    "set (merge_local visible asserts retracts) = set visible \<union> set asserts - set retracts"
proof -
  define merged where "merged = (if asserts \<noteq> [] then union_ordered_tuple_rows visible asserts else visible)"
  have m: "ascending merged" "set merged = set visible \<union> set asserts"
    using union_rows_ok [OF assms(1,2,4,5)] assms(1) by (auto simp: merged_def)
  then have "rows_ok merged" using assms(4,5) by auto
  then have d: "difference_ordered_tuple_rows merged retracts = filter (\<lambda>t. t \<notin> set retracts) merged"
    by (intro difference_rows_ok [OF m(1) assms(3) _ assms(6)])
  have "merge_local visible asserts retracts =
      (if visible = [] \<and> retracts = [] then asserts else if retracts \<noteq> [] then difference_ordered_tuple_rows merged retracts else merged)"
    by (simp add: merge_local_def merged_def Let_def)
  then show "ascending (merge_local visible asserts retracts)"
    "set (merge_local visible asserts retracts) = set visible \<union> set asserts - set retracts"
    using m d assms(2,7) by (auto simp: ascending_filter)
qed

lemma scan_extensional_ok:
  assumes "trees_ok L" "txn_ok L tx D W" "snapshot_relation (tx_base tx) i = Inr st" "\<not> computed (rs_metadata st)"
    and "bindings_ok (state_arity st) bindings" "in_tuple_order st bindings"
  obtains rows tx' where "scan_extensional_rows L computed computed_scan i bindings tx = kok (rows, tx')"
    "ascending rows" "set rows = matching (view (D i) (W i)) bindings" "tx_base tx' = tx_base tx" "txn_ok L tx' D W"
proof -
  note g = txn_okD [OF assms(2,3)]
  let ?n = "state_arity st"
  obtain visible where v: "state_scan (tr_rows L) (tr_index L) st bindings = kok visible" "set visible = matching (D i) bindings" "ascending visible"
    by (rule state_scan_ok [OF trees_okD(1,2) [OF assms(1)] g(1) assms(5)]) (use assms(6) in blast)
  have ov0: "overlay_ok (tr_entries L) (tr_scan L) ?n (case tx_writes tx i of None \<Rightarrow> overlay_default | Some ov \<Rightarrow> ov) (W i)"
    using g(3) by (simp add: writes_tracked_def)
  show thesis
  proof (cases "tx_writes tx i")
    case None
    then have W: "W i = Map.empty" using overlay_entries_ok [OF trees_okD(3) [OF assms(1)] ov0] by (simp add: entries_ok_def)
    have "scan_extensional_rows L computed computed_scan i bindings tx = kok (visible, tx)"
      using v(1) assms(3,4) None by (simp add: scan_extensional_rows_def kbind_def kok_def)
    then show ?thesis using v(2,3) W assms(2) by (intro that [of visible tx]) (simp_all add: view_def)
  next
    case (Some ov)
    then have ov: "overlay_ok (tr_entries L) (tr_scan L) ?n ov (W i)" using ov0 by simp
    have ixs: "\<forall>ps \<in> set (rm_indexes (rs_metadata st)). \<forall>p \<in> set ps. p < ?n" using g(1) by (auto simp: rstate_ok_def positions_ok_def)
    obtain es ov' where m: "visit_matches (tr_entries L) (tr_scan L) (rs_metadata st) bindings ov = Some (es, ov')"
      "filter (entry_matches bindings) es = filter (entry_matches bindings) (overlay_entries (tr_entries L) ov)"
      "overlay_ok (tr_entries L) (tr_scan L) ?n ov' (W i)"
      by (rule visit_matches_ok [OF trees_okD(3,4) [OF assms(1)] ov ixs assms(5)]) (rule that)
    note en = overlay_entries_ok [OF trees_okD(3) [OF assms(1)] ov]
    let ?a = "local_rows bindings Assert es" and ?r = "local_rows bindings Retract es"
    have l: "ascending (local_rows bindings c es)" "set (local_rows bindings c es) = {t. W i t = Some c \<and> matches_bindings t bindings}" for c
      unfolding local_rows_filter [OF m(2)] by (rule local_rows_ok [OF en])+
    have rows: "\<And>t. W i t \<noteq> None \<Longrightarrow> row_ok t" using entries_okD(3) [OF en] by (auto simp: rows_of_def dom_def)
    have vok: "rows_ok visible" using v(2) rstate_okD(1) [OF g(1)] by (auto simp: matching_def rows_of_def)
    have lok: "rows_ok (local_rows bindings c es)" for c unfolding l(2) using rows by simp
    have "set ?a \<inter> set ?r = {}" unfolding l(2) by auto
    note ml = merge_local_ok [OF v(3) l(1) l(1) vok lok lok this]
    let ?tx = "tx\<lparr>tx_writes := (tx_writes tx)(i \<mapsto> ov')\<rparr>"
    have "txn_ok L ?tx D (W(i := W i))"
      by (rule txn_ok_update [OF assms(2,3)]) (use g(3) m(3) in \<open>simp_all add: writes_tracked_def\<close>)
    then have tx: "txn_ok L ?tx D W" by simp
    have "scan_extensional_rows L computed computed_scan i bindings tx = kok (merge_local visible ?a ?r, ?tx)"
      using v(1) assms(3,4) Some m(1) by (simp add: scan_extensional_rows_def kbind_def kok_def lift_panic_def)
    moreover have "set (merge_local visible ?a ?r) = matching (view (D i) (W i)) bindings"
      unfolding ml(2) v(2) l(2) by (auto simp: matching_def view_def)
    ultimately show ?thesis using ml(1) tx by (intro that [of "merge_local visible ?a ?r" ?tx]) simp_all
  qed
qed

section \<open>Conflicts\<close>

text \<open>When the changes of one relation may be applied to a newer version of it.\<close>

definition conflict_free :: "relation_metadata \<Rightarrow> tuple set \<Rightarrow> tuple set \<Rightarrow> (tuple \<Rightarrow> local_change option) \<Rightarrow> bool" where
  "conflict_free md B C W =
     (case rm_conflict_policy md of
        SetPolicy \<Rightarrow> \<forall>t. W t = Some Assert \<and> t \<in> B \<longrightarrow> t \<in> C
      | Functional ps \<Rightarrow> \<forall>t. W t \<noteq> None \<longrightarrow> at_key B ps (select t ps) = at_key C ps (select t ps)
      | EventAppend \<Rightarrow> True)"

lemma set_conflicts_ok:
  assumes "trees_ok L" "entries_ok (state_arity base) (overlay_entries (tr_entries L) ov) W"
    and "rstate_ok (tr_rows L) (tr_index L) base B" "rstate_ok (tr_rows L) (tr_index L) now C" "state_arity now = state_arity base"
  shows "validate_set_conflicts L i ov base now = Inr () \<longleftrightarrow> (\<forall>t. W t = Some Assert \<and> t \<in> B \<longrightarrow> t \<in> C)"
proof -
  let ?es = "overlay_entries (tr_entries L) ov"
  have c: "contains_tuple (tr_rows L) base t = (t \<in> B)" "contains_tuple (tr_rows L) now t = (t \<in> C)" if "W t \<noteq> None" for t
  proof -
    have "t \<in> rows_of (state_arity base)" using entries_okD(3) [OF assms(2)] that by (auto simp: dom_def)
    then show "contains_tuple (tr_rows L) base t = (t \<in> B)" "contains_tuple (tr_rows L) now t = (t \<in> C)"
      using store_contains_ok(1) [OF rstate_okD(3) [OF assms(3)]] store_contains_ok(1) [OF rstate_okD(3) [OF assms(4)]] assms(5)
      by (simp_all add: contains_tuple_def)
  qed
  have "validate_set_conflicts L i ov base now = Inr () \<longleftrightarrow>
      (\<forall>e \<in> set ?es. \<not> (snd e = Assert \<and> contains_tuple (tr_rows L) base (fst e) \<and> \<not> contains_tuple (tr_rows L) now (fst e)))"
  proof -
    let ?P = "\<lambda>(t, c). c = Assert \<and> contains_tuple (tr_rows L) base t \<and> \<not> contains_tuple (tr_rows L) now t"
    have "validate_set_conflicts L i ov base now = Inr () \<longleftrightarrow> find ?P ?es = None"
      by (auto simp: validate_set_conflicts_def split: option.splits)
    then show ?thesis unfolding find_None_iff by auto
  qed
  also have "\<dots> \<longleftrightarrow> (\<forall>t. W t = Some Assert \<and> t \<in> B \<longrightarrow> t \<in> C)"
    using entries_okD(6) [OF assms(2)] c by (metis fst_conv option.distinct(1) prod.collapse snd_conv)
  finally show ?thesis .
qed

lemma check_visible_ok:
  assumes look: "\<And>t. t \<in> rows_of n \<Longrightarrow> tuple_for_key (tr_rows L) (tr_index L) base ps t = Some (at_key B ps (select t ps)) \<and>
      tuple_for_key (tr_rows L) (tr_index L) now ps t = Some (at_key C ps (select t ps))"
    and "\<forall>e \<in> set es. ve_representative e \<in> rows_of n"
  obtains r where "check_visible L i ps base now es = Some r"
    "r = Inr () \<longleftrightarrow> (\<forall>e \<in> set es. at_key B ps (select (ve_representative e) ps) = at_key C ps (select (ve_representative e) ps))"
proof -
  have "\<exists>r. check_visible L i ps base now es = Some r \<and>
    (r = Inr () \<longleftrightarrow> (\<forall>e \<in> set es. at_key B ps (select (ve_representative e) ps) = at_key C ps (select (ve_representative e) ps)))"
    using assms(2)
  proof (induction es)
    case (Cons e es)
    then show ?case using look [of "ve_representative e"] by (auto simp: kok_def)
  qed (simp add: kok_def)
  then show thesis using that by blast
qed

lemma check_touched_ok:
  assumes look: "\<And>t. t \<in> rows_of n \<Longrightarrow> tuple_for_projected_values (tr_rows L) (tr_index L) base ps (select t ps) = Some (at_key B ps (select t ps)) \<and>
      tuple_for_projected_values (tr_rows L) (tr_index L) now ps (select t ps) = Some (at_key C ps (select t ps))"
    and "\<forall>q \<in> fst ` set ks. \<exists>t \<in> rows_of n. select t ps = q"
  obtains r where "check_touched L i ps base now ks = Some r"
    "r = Inr () \<longleftrightarrow> (\<forall>q \<in> fst ` set ks. at_key B ps q = at_key C ps q)"
proof -
  have "\<exists>r. check_touched L i ps base now ks = Some r \<and> (r = Inr () \<longleftrightarrow> (\<forall>q \<in> fst ` set ks. at_key B ps q = at_key C ps q))"
    using assms(2)
  proof (induction ks)
    case (Cons k ks)
    obtain q t where k: "k = (q, t)" by (cases k)
    obtain u where "u \<in> rows_of n" "select u ps = q" using Cons.prems k by auto
    then show ?case using look [of u] Cons k by (auto simp: kok_def)
  qed (simp add: kok_def)
  then show thesis using that by blast
qed

lemma visible_entries:
  assumes "radix_laws F" "visible_ok F n ps B W vm"
  shows "\<forall>e \<in> set (conflict_entries F vm). ve_representative e \<in> rows_of n"
    "(\<lambda>e. select (ve_representative e) ps) ` set (conflict_entries F vm) = (\<lambda>t. select t ps) ` dom W"
proof -
  obtain g where g: "keyed F (length ps) (vm_tuples vm) g" "\<And>q. tracks n ps B W q (g q)" using assms(2) by (auto simp: visible_ok_def)
  obtain rows where r: "set rows = dom g" "rx_values F (vm_tuples vm) = map (\<lambda>t. the (g t)) rows"
    by (rule keyed_iter [OF assms(1) g(1)]) (rule that)
  have e: "ve_representative (the (g q)) \<in> rows_of n \<and> select (ve_representative (the (g q))) ps = q" if "q \<in> dom g" for q
    using g(2) [of q] that by (auto simp: tracks_def)
  have set: "set (conflict_entries F vm) = (\<lambda>q. the (g q)) ` dom g" by (simp add: conflict_entries_def r)
  show "\<forall>e \<in> set (conflict_entries F vm). ve_representative e \<in> rows_of n" unfolding set using e by auto
  have dom: "q \<in> dom g \<longleftrightarrow> q \<in> (\<lambda>t. select t ps) ` dom W" for q
    using g(2) [of q] by (cases "g q") (auto simp: tracks_def dom_def image_iff)
  have "(\<lambda>e. select (ve_representative e) ps) ` set (conflict_entries F vm) = (\<lambda>q. q) ` dom g"
    unfolding set image_image by (rule image_cong) (use e in auto)
  also have "\<dots> = (\<lambda>t. select t ps) ` dom W" unfolding image_ident by (rule set_eqI) (rule dom)
  finally show "(\<lambda>e. select (ve_representative e) ps) ` set (conflict_entries F vm) = (\<lambda>t. select t ps) ` dom W" .
qed

lemma touched_keys:
  assumes "entries_ok n (overlay_entries E ov) W" "\<forall>p \<in> set ps. p < n"
  shows "fst ` set (touched_projected_keys E ps ov) = (\<lambda>t. select t ps) ` dom W"
proof -
  let ?rows = "map (\<lambda>e. select (fst e) ps) (overlay_entries E ov)"
  have "rows_ok ?rows" using assms select_in [OF assms(2)] by (auto simp: entries_ok_def rows_of_def)
  then have "set (finish_tuple_rows ?rows) = set ?rows" using finish_rows_ok by blast
  moreover have "set ?rows = (\<lambda>t. select t ps) ` dom W" using entries_okD(2) [OF assms(1)] by (simp add: image_image)
  ultimately show ?thesis by (simp add: touched_projected_keys_def Let_def image_image)
qed

lemma validate_functional_ok:
  assumes "trees_ok L" "rstate_ok (tr_rows L) (tr_index L) base B" "rstate_ok (tr_rows L) (tr_index L) now C"
    and "rs_metadata now = rs_metadata base" "rm_conflict_policy (rs_metadata base) = Functional ps" "functional_on ps B" "functional_on ps C"
    and "writes_tracked L base B (Some ov) vm W"
  obtains r where "validate_functional_conflicts L i ps vm ov base now = Some r" "r = Inr () \<longleftrightarrow> conflict_free (rs_metadata base) B C W"
proof -
  have pol: "rm_conflict_policy (rs_metadata now) = Functional ps" using assms(4,5) by simp
  have look: "tuple_for_key (tr_rows L) (tr_index L) base ps t = Some (at_key B ps (select t ps)) \<and>
      tuple_for_key (tr_rows L) (tr_index L) now ps t = Some (at_key C ps (select t ps))"
    "tuple_for_projected_values (tr_rows L) (tr_index L) base ps (select t ps) = Some (at_key B ps (select t ps)) \<and>
      tuple_for_projected_values (tr_rows L) (tr_index L) now ps (select t ps) = Some (at_key C ps (select t ps))"
    if "t \<in> rows_of (state_arity base)" for t
    using base_lookup [OF assms(1,2,5,6) that] base_lookup [OF assms(1,3) pol assms(7), of t] that assms(4) by simp_all
  have cf: "conflict_free (rs_metadata base) B C W \<longleftrightarrow> (\<forall>q \<in> (\<lambda>t. select t ps) ` dom W. at_key B ps q = at_key C ps q)"
    using assms(5) by (auto simp: conflict_free_def)
  have ov: "entries_ok (state_arity base) (overlay_entries (tr_entries L) ov) W"
    by (rule overlay_entries_ok [where X = "tr_scan L", OF trees_okD(3) [OF assms(1)]]) (use assms(8) in \<open>simp add: writes_tracked_def\<close>)
  show thesis
  proof (cases vm)
    case (Some v)
    note e = visible_entries [OF trees_okD(5) [OF assms(1)] writes_trackedD(3) [OF assms(8,5) Some]]
    obtain r where "check_visible L i ps base now (conflict_entries (tr_visible L) v) = Some r"
      "r = Inr () \<longleftrightarrow> (\<forall>e \<in> set (conflict_entries (tr_visible L) v). at_key B ps (select (ve_representative e) ps) = at_key C ps (select (ve_representative e) ps))"
      by (rule check_visible_ok [OF look(1) e(1)])
    then show ?thesis using Some cf unfolding e(2) [symmetric] by (intro that [of r]) (simp_all add: validate_functional_conflicts_def)
  next
    case None
    note k = touched_keys [OF ov key_columns_bound [OF assms(2,5)]]
    have ex: "\<forall>q \<in> fst ` set (touched_projected_keys (tr_entries L) ps ov). \<exists>t \<in> rows_of (state_arity base). select t ps = q"
      unfolding k using entries_okD(3) [OF ov] by blast
    obtain r where "check_touched L i ps base now (touched_projected_keys (tr_entries L) ps ov) = Some r"
      "r = Inr () \<longleftrightarrow> (\<forall>q \<in> fst ` set (touched_projected_keys (tr_entries L) ps ov). at_key B ps q = at_key C ps q)"
      by (rule check_touched_ok [OF look(2) ex])
    then show ?thesis using None cf unfolding k by (intro that [of r]) (simp_all add: validate_functional_conflicts_def)
  qed
qed

text \<open>The catalogue only grows: a relation keeps its metadata in later snapshots.\<close>

definition keeps_relations :: "('m, 'n) relation_state relation_states \<Rightarrow> ('m, 'n) relation_state relation_states \<Rightarrow> bool" where
  "keeps_relations c c' \<longleftrightarrow> (\<forall>i st. rl_get c i = Some st \<longrightarrow> (\<exists>st'. rl_get c' i = Some st' \<and> rs_metadata st' = rs_metadata st))"

lemma validate_conflicts_ok:
  assumes "trees_ok L" "txn_ok L tx B W" "relations_ok L (sn_relations root) C" "keeps_relations (sn_relations (tx_base tx)) (sn_relations root)"
    and "\<forall>i \<in> set order. tx_writes tx i \<noteq> None"
  obtains r where "validate_conflicts L root tx order = Some r"
    "r = Inr () \<longleftrightarrow> (\<forall>i \<in> set order. \<forall>st. rl_get (sn_relations (tx_base tx)) i = Some st \<longrightarrow> conflict_free (rs_metadata st) (B i) (C i) (W i))"
proof -
  have "\<exists>r. validate_conflicts L root tx order = Some r \<and>
    (r = Inr () \<longleftrightarrow> (\<forall>i \<in> set order. \<forall>st. rl_get (sn_relations (tx_base tx)) i = Some st \<longrightarrow> conflict_free (rs_metadata st) (B i) (C i) (W i)))"
    using assms(5)
  proof (induction order)
    case (Cons i order)
    obtain ov where ov: "tx_writes tx i = Some ov" using Cons.prems by auto
    obtain st where st: "rl_get (sn_relations (tx_base tx)) i = Some st" using txn_ok_known [OF assms(2)] ov by blast
    then have sr: "snapshot_relation (tx_base tx) i = Inr st" by (simp add: snapshot_relation_def)
    note g = txn_okD(1-3) [OF assms(2) sr]
    obtain now where now: "rl_get (sn_relations root) i = Some now" "rs_metadata now = rs_metadata st"
      using assms(4) st by (auto simp: keeps_relations_def)
    then have sn: "snapshot_relation root i = Inr now" by (simp add: snapshot_relation_def)
    have C: "rstate_ok (tr_rows L) (tr_index L) now (C i)" "keys_ok (rs_metadata st) (C i)"
      using assms(3) now(1) unfolding relations_ok_def now(2) [symmetric] by blast+
    let ?one = "case rm_conflict_policy (rs_metadata st) of SetPolicy \<Rightarrow> Some (validate_set_conflicts L i ov st now)
        | Functional ps \<Rightarrow> validate_functional_conflicts L i ps (tx_functional_visible tx i) ov st now | EventAppend \<Rightarrow> kok ()"
    have es: "entries_ok (state_arity st) (overlay_entries (tr_entries L) ov) (W i)"
      by (rule overlay_entries_ok [where X = "tr_scan L", OF trees_okD(3) [OF assms(1)]]) (use g(3) ov in \<open>simp add: writes_tracked_def\<close>)
    obtain r1 where r1: "?one = Some r1" "r1 = Inr () \<longleftrightarrow> conflict_free (rs_metadata st) (B i) (C i) (W i)"
    proof (cases "rm_conflict_policy (rs_metadata st)")
      case SetPolicy
      then show ?thesis using set_conflicts_ok [OF assms(1) es g(1) C(1)] now(2)
        by (intro that [of "validate_set_conflicts L i ov st now"]) (simp_all add: conflict_free_def)
    next
      case (Functional ps)
      then have f: "functional_on ps (B i)" "functional_on ps (C i)" using g(2) C(2) by (auto simp: keys_ok_def)
      have w: "writes_tracked L st (B i) (Some ov) (tx_functional_visible tx i) (W i)" using g(3) ov by simp
      obtain r where "validate_functional_conflicts L i ps (tx_functional_visible tx i) ov st now = Some r"
        "r = Inr () \<longleftrightarrow> conflict_free (rs_metadata st) (B i) (C i) (W i)"
        by (rule validate_functional_ok [OF assms(1) g(1) C(1) now(2) Functional f w])
      then show ?thesis using that [of r] Functional by simp
    next
      case EventAppend
      then show ?thesis by (intro that [of "Inr ()"]) (simp_all add: kok_def conflict_free_def)
    qed
    have step: "validate_conflicts L root tx (i # order) = kbind ?one (\<lambda>_. validate_conflicts L root tx order)"
      using sr sn ov by (cases "rm_conflict_policy (rs_metadata st)") (simp_all add: kbind_def)
    have "\<exists>r. validate_conflicts L root tx order = Some r \<and>
      (r = Inr () \<longleftrightarrow> (\<forall>i \<in> set order. \<forall>st. rl_get (sn_relations (tx_base tx)) i = Some st \<longrightarrow> conflict_free (rs_metadata st) (B i) (C i) (W i)))"
      by (rule Cons.IH) (use Cons.prems in simp)
    then show ?case unfolding step using r1 st by (cases r1) (auto simp: kbind_def)
  qed (simp add: kok_def)
  then show thesis using that by blast
qed

section \<open>Commit\<close>

lemma applied_functional:
  assumes "functional_on ps B" "functional_on ps C" "functional_on ps (view B W)"
    and free: "\<forall>t. W t \<noteq> None \<longrightarrow> at_key B ps (select t ps) = at_key C ps (select t ps)"
  shows "functional_on ps (applied_to B W C)"
  unfolding functional_on_def
proof (intro ballI impI)
  fix s u assume s: "s \<in> applied_to B W C" and u: "u \<in> applied_to B W C" and k: "select s ps = select u ps"
  show "s = u"
  proof (cases "\<exists>t. W t \<noteq> None \<and> select t ps = select s ps")
    case True
    then have same: "at_key B ps (select s ps) = at_key C ps (select s ps)" using free by metis
    have "x \<in> B \<longleftrightarrow> x \<in> C" if "select x ps = select s ps" for x
      using at_key_Some [OF assms(1), of "select s ps" x] at_key_Some [OF assms(2), of "select s ps" x] same that by simp
    then have "x \<in> view B W" if "x \<in> applied_to B W C" "select x ps = select s ps" for x
      using that by (auto simp: applied_to_def view_def)
    then show ?thesis using assms(3) s u k unfolding functional_on_def by metis
  next
    case False
    then have "W s = None" "W u = None" using k by metis+
    then have "s \<in> C" "u \<in> C" using s u by (simp_all add: applied_to_def)
    then show ?thesis using assms(2) k unfolding functional_on_def by blast
  qed
qed

lemma applied_keys_ok:
  assumes "keys_ok md B" "keys_ok md C" "keys_ok md (view B W)" "conflict_free md B C W \<or> C = B"
  shows "keys_ok md (applied_to B W C)"
  unfolding keys_ok_def
proof (intro allI impI)
  fix ps assume f: "rm_conflict_policy md = Functional ps"
  have fs: "functional_on ps B" "functional_on ps C" "functional_on ps (view B W)" using assms(1-3) f by (auto simp: keys_ok_def)
  show "functional_on ps (applied_to B W C)"
  proof (cases "C = B")
    case True
    then show ?thesis using fs(3) by (simp add: applied_to_base)
  next
    case False
    then show ?thesis using applied_functional [OF fs] assms(4) f by (simp add: conflict_free_def)
  qed
qed

text \<open>The contents after the reported changes.\<close>

fun apply_facts :: "fact_change list \<Rightarrow> contents \<Rightarrow> contents" where
  "apply_facts [] D = D"
| "apply_facts (ch # chs) D =
     apply_facts chs (D(fc_relation ch :=
       (case fc_kind ch of Assert \<Rightarrow> insert (fc_tuple ch) (D (fc_relation ch)) | Retract \<Rightarrow> D (fc_relation ch) - {fc_tuple ch})))"

lemma apply_facts_append: "apply_facts (xs @ ys) D = apply_facts ys (apply_facts xs D)"
  by (induction xs arbitrary: D) simp_all

lemma apply_facts_one:
  "apply_facts (map (\<lambda>(t, k). \<lparr>fc_relation = i, fc_tuple = t, fc_kind = k\<rparr>) cs) D = D(i := changed (\<lambda>_. True) cs (D i))"
proof (induction cs arbitrary: D)
  case (Cons c cs)
  obtain t k where "c = (t, k)" by (cases c)
  then show ?case using Cons by (cases k) (simp_all add: fun_eq_iff)
qed simp

definition rows_held :: "('m, 'n, 'e, 'x, 'f) trees \<Rightarrow> ('m, 'n) relation_state relation_states \<Rightarrow> contents \<Rightarrow> bool" where
  "rows_held L c D \<longleftrightarrow> om_ok (rl_entries c) \<and> (\<forall>i st. rl_get c i = Some st \<longrightarrow> rstate_ok (tr_rows L) (tr_index L) st (D i))"

lemma relations_ok_alt:
  "relations_ok L c D \<longleftrightarrow> rows_held L c D \<and> (\<forall>i st. rl_get c i = Some st \<longrightarrow> keys_ok (rs_metadata st) (D i))"
  by (auto simp: relations_ok_def rows_held_def)

lemma rl_get_replace: "om_ok (rl_entries c) \<Longrightarrow> rl_get (rl_replace i st c) = (rl_get c)(i \<mapsto> st)"
  by (rule ext) (simp add: rl_get_def rl_replace_def)

lemma rows_held_replace:
  assumes "rows_held L c D" "rstate_ok (tr_rows L) (tr_index L) st A"
  shows "rows_held L (rl_replace i st c) (D(i := A))"
proof -
  have "om_ok (rl_entries c)" using assms(1) by (simp add: rows_held_def)
  note g = rl_get_replace [OF this]
  show ?thesis using assms by (auto simp: rows_held_def g) (simp add: rl_replace_def)
qed

lemma keeps_replace:
  assumes "om_ok (rl_entries c)" "rl_get c i = Some st" "rs_metadata st' = rs_metadata st"
  shows "keeps_relations c (rl_replace i st' c)" "keeps_relations (rl_replace i st' c) c"
  using assms(2,3) unfolding keeps_relations_def rl_get_replace [OF assms(1)] by auto

lemma keeps_trans: "keeps_relations a b \<Longrightarrow> keeps_relations b c \<Longrightarrow> keeps_relations a c"
  unfolding keeps_relations_def by metis

lemma keeps_refl: "keeps_relations c c"
  by (simp add: keeps_relations_def)

lemma apply_writes_ok:
  assumes "trees_ok L" "txn_ok L tx B W"
  shows "rows_held L c C \<Longrightarrow> keeps_relations (sn_relations (tx_base tx)) c \<Longrightarrow> distinct is \<Longrightarrow> \<forall>i \<in> set is. tx_writes tx i \<noteq> None \<Longrightarrow>
    \<exists>chs c'. apply_writes L tx is c = Inr (chs, c') \<and>
      rows_held L c' (\<lambda>i. if i \<in> set is then applied_to (B i) (W i) (C i) else C i) \<and> keeps_relations c c' \<and> keeps_relations c' c \<and>
      apply_facts chs C = (\<lambda>i. if i \<in> set is then applied_to (B i) (W i) (C i) else C i)"
proof (induction "is" arbitrary: c C)
  case Nil
  then show ?case by (simp add: keeps_refl)
next
  case (Cons i "is")
  obtain ov where ov: "tx_writes tx i = Some ov" using Cons.prems(4) by auto
  obtain base where base: "rl_get (sn_relations (tx_base tx)) i = Some base" using txn_ok_known [OF assms(2) ov] by blast
  then have sr: "snapshot_relation (tx_base tx) i = Inr base" by (simp add: snapshot_relation_def)
  note g = txn_okD(1-3) [OF assms(2) sr]
  obtain st where st: "rl_get c i = Some st" "rs_metadata st = rs_metadata base" using Cons.prems(2) base by (auto simp: keeps_relations_def)
  have ok: "om_ok (rl_entries c)" "rstate_ok (tr_rows L) (tr_index L) st (C i)" using Cons.prems(1) st(1) by (auto simp: rows_held_def)
  have ovok: "overlay_ok (tr_entries L) (tr_scan L) (state_arity st) ov (W i)" using g(3) ov st(2) by (simp add: writes_tracked_def)
  obtain applied st' where a: "overlay_apply (tr_rows L) (tr_index L) (tr_entries L) ov base st = (applied, st')"
    by (cases "overlay_apply (tr_rows L) (tr_index L) (tr_entries L) ov base st")
  have ar: "state_arity base = state_arity st" using st(2) by simp
  note o = overlay_apply_ok [OF trees_okD(1-3) [OF assms(1)] ok(2) g(1) ar ovok a]
  let ?N = "applied_to (B i) (W i) (C i)"
  note k = keeps_replace [OF ok(1) st(1) o(2)]
  have "\<exists>chs c'. apply_writes L tx is (rl_replace i st' c) = Inr (chs, c') \<and>
      rows_held L c' (\<lambda>j. if j \<in> set is then applied_to (B j) (W j) ((C(i := ?N)) j) else (C(i := ?N)) j) \<and>
      keeps_relations (rl_replace i st' c) c' \<and> keeps_relations c' (rl_replace i st' c) \<and>
      apply_facts chs (C(i := ?N)) = (\<lambda>j. if j \<in> set is then applied_to (B j) (W j) ((C(i := ?N)) j) else (C(i := ?N)) j)"
    by (rule Cons.IH [OF rows_held_replace [OF Cons.prems(1) o(1)] keeps_trans [OF Cons.prems(2) k(1)]]) (use Cons.prems(3,4) in simp_all)
  then obtain chs c' where c': "apply_writes L tx is (rl_replace i st' c) = Inr (chs, c')"
    "rows_held L c' (\<lambda>j. if j \<in> set is then applied_to (B j) (W j) ((C(i := ?N)) j) else (C(i := ?N)) j)"
    "keeps_relations (rl_replace i st' c) c'" "keeps_relations c' (rl_replace i st' c)"
    "apply_facts chs (C(i := ?N)) = (\<lambda>j. if j \<in> set is then applied_to (B j) (W j) ((C(i := ?N)) j) else (C(i := ?N)) j)" by blast
  have eq: "(\<lambda>j. if j \<in> set is then applied_to (B j) (W j) ((C(i := ?N)) j) else (C(i := ?N)) j) =
      (\<lambda>j. if j \<in> set (i # is) then applied_to (B j) (W j) (C j) else C j)" using Cons.prems(3) by (auto simp: fun_eq_iff)
  let ?chs = "map (\<lambda>(t, k). \<lparr>fc_relation = i, fc_tuple = t, fc_kind = k\<rparr>) applied @ chs"
  have "apply_writes L tx (i # is) c = Inr (?chs, c')" using ov st(1) sr a c'(1) by simp
  moreover have "apply_facts ?chs C = (\<lambda>j. if j \<in> set (i # is) then applied_to (B j) (W j) (C j) else C j)"
    unfolding apply_facts_append apply_facts_one o(3) c'(5) eq ..
  ultimately show ?case using c'(2) keeps_trans [OF k(1) c'(3)] keeps_trans [OF c'(4) k(2)] unfolding eq by blast
qed

text \<open>A relation state holds one set.\<close>

lemma rstate_unique: "radix_laws R \<Longrightarrow> rstate_ok R Q st A \<Longrightarrow> rstate_ok R Q st A' \<Longrightarrow> A = A'"
  using all_tuples_ok(2) [of R "state_arity st" "rs_tuples st"] rstate_okD(3) by metis

lemma writes_keys_ok:
  assumes "writes_tracked L st B ov vm W"
  shows "keys_ok (rs_metadata st) (view B W)"
  unfolding keys_ok_def using writes_trackedD(1) [OF assms] by blast

lemma no_writes:
  assumes "trees_ok L" "txn_ok L tx B W" "tx_writes tx i = None"
  shows "W i = Map.empty"
proof (cases "rl_get (sn_relations (tx_base tx)) i")
  case None
  have "case rl_get (sn_relations (tx_base tx)) i of None \<Rightarrow> tx_writes tx i = None \<and> W i = Map.empty
      | Some st \<Rightarrow> writes_tracked L st (B i) (tx_writes tx i) (tx_functional_visible tx i) (W i)"
    using assms(2) by (simp add: txn_ok_def)
  then show ?thesis using None by simp
next
  case (Some st)
  then have "snapshot_relation (tx_base tx) i = Inr st" by (simp add: snapshot_relation_def)
  note w = txn_okD(3) [OF assms(2) this]
  have "overlay_ok (tr_entries L) (tr_scan L) (state_arity st) overlay_default (W i)" using w assms(3) by (simp add: writes_tracked_def)
  from overlay_entries_ok [OF trees_okD(3) [OF assms(1)] this] show ?thesis by (simp add: entries_ok_def)
qed

definition committed :: "contents \<Rightarrow> changes \<Rightarrow> contents \<Rightarrow> contents" where
  "committed B W C = (\<lambda>i. applied_to (B i) (W i) (C i))"

lemma build_next_ok:
  assumes "trees_ok L" "txn_ok L tx B W" "relations_ok L (sn_relations root) C"
    and "keeps_relations (sn_relations (tx_base tx)) (sn_relations root)" "distinct order" "set order = {i. tx_writes tx i \<noteq> None}"
    and free: "\<forall>i st. rl_get (sn_relations (tx_base tx)) i = Some st \<longrightarrow> conflict_free (rs_metadata st) (B i) (C i) (W i) \<or> C i = B i"
    and built: "build_next_snapshot L tx order root h = Some (Inr (newer, cm, h'))"
  shows "relations_ok L (sn_relations newer) (committed B W C)" "keeps_relations (sn_relations root) (sn_relations newer)"
    "sn_version newer = sn_version root + 1" "cm_version cm = sn_version newer" "apply_facts (cm_changes cm) C = committed B W C"
proof -
  have held: "rows_held L (sn_relations root) C" using assms(3) by (simp add: relations_ok_alt)
  have w: "\<forall>i \<in> set (sort order). tx_writes tx i \<noteq> None" "distinct (sort order)" using assms(5,6) by auto
  have "\<exists>chs c'. apply_writes L tx (sort order) (sn_relations root) = Inr (chs, c') \<and>
      rows_held L c' (\<lambda>i. if i \<in> set (sort order) then applied_to (B i) (W i) (C i) else C i) \<and>
      keeps_relations (sn_relations root) c' \<and> keeps_relations c' (sn_relations root) \<and>
      apply_facts chs C = (\<lambda>i. if i \<in> set (sort order) then applied_to (B i) (W i) (C i) else C i)"
    by (rule apply_writes_ok [OF assms(1,2) held assms(4) w(2,1)])
  then obtain chs c' where c': "apply_writes L tx (sort order) (sn_relations root) = Inr (chs, c')"
    "rows_held L c' (\<lambda>i. if i \<in> set (sort order) then applied_to (B i) (W i) (C i) else C i)"
    "keeps_relations (sn_relations root) c'" "keeps_relations c' (sn_relations root)"
    "apply_facts chs C = (\<lambda>i. if i \<in> set (sort order) then applied_to (B i) (W i) (C i) else C i)" by blast
  have empty: "applied_to (B i) (W i) (C i) = C i" if "tx_writes tx i = None" for i
    unfolding applied_to_def no_writes [OF assms(1,2) that] by simp
  have D: "(\<lambda>i. if i \<in> set (sort order) then applied_to (B i) (W i) (C i) else C i) = committed B W C"
    by (rule ext) (use empty assms(6) in \<open>auto simp: committed_def\<close>)
  have n: "sn_relations newer = c'" "sn_version newer = sn_version root + 1" "cm_version cm = sn_version root + 1" "cm_changes cm = chs"
    using built c'(1) by (auto simp: build_next_snapshot_def kbind_def kok_def split: option.splits sum.splits prod.splits)
  show "keeps_relations (sn_relations root) (sn_relations newer)" "sn_version newer = sn_version root + 1" "cm_version cm = sn_version newer"
    "apply_facts (cm_changes cm) C = committed B W C" using c'(3,5) n D by simp_all
  have "keys_ok (rs_metadata st) (committed B W C i)" if st: "rl_get c' i = Some st" for i st
  proof -
    obtain now where now: "rl_get (sn_relations root) i = Some now" "rs_metadata now = rs_metadata st" using c'(4) st by (auto simp: keeps_relations_def)
    then have C: "keys_ok (rs_metadata st) (C i)" using assms(3) unfolding relations_ok_def by metis
    show ?thesis
    proof (cases "tx_writes tx i")
      case None
      then show ?thesis using C empty by (simp add: committed_def)
    next
      case (Some ov)
      then obtain base where base: "rl_get (sn_relations (tx_base tx)) i = Some base" using txn_ok_known [OF assms(2)] by blast
      then have sr: "snapshot_relation (tx_base tx) i = Inr base" by (simp add: snapshot_relation_def)
      have md: "rs_metadata base = rs_metadata st" using assms(4) base now unfolding keeps_relations_def by (metis option.inject)
      have "conflict_free (rs_metadata st) (B i) (C i) (W i) \<or> C i = B i" using free base unfolding md [symmetric] by blast
      then show ?thesis unfolding committed_def
        by (intro applied_keys_ok) (use txn_okD(2) [OF assms(2) sr] writes_keys_ok [OF txn_okD(3) [OF assms(2) sr]] C md in simp_all)
    qed
  qed
  then show "relations_ok L (sn_relations newer) (committed B W C)" using c'(2) n(1) unfolding relations_ok_alt D by simp
qed

lemma same_root_contents:
  assumes "trees_ok L" "txn_ok L tx B W" "relations_ok L (sn_relations (tx_base tx)) C" "rl_get (sn_relations (tx_base tx)) i = Some st"
  shows "C i = B i"
proof -
  have "snapshot_relation (tx_base tx) i = Inr st" using assms(4) by (simp add: snapshot_relation_def)
  from txn_okD(1) [OF assms(2) this] have "rstate_ok (tr_rows L) (tr_index L) st (B i)" .
  moreover have "rstate_ok (tr_rows L) (tr_index L) st (C i)" using assms(3,4) by (simp add: relations_ok_def)
  ultimately show ?thesis using rstate_unique [OF trees_okD(1) [OF assms(1)]] by blast
qed

lemma commit_attempt_cases:
  assumes "commit_attempt L persist tx order h kn = Some (r, kn')"
  shows "(\<exists>e. r = Inl e) \<and> kn_root kn' = kn_root kn \<or>
    (\<exists>cm h'. r = Inr cm \<and> (if sn_version (kn_root kn) \<noteq> sn_version (tx_base tx) then validate_conflicts L (kn_root kn) tx order else kok ()) = Some (Inr ()) \<and>
      build_next_snapshot L tx order (kn_root kn) h = Some (Inr (kn_root kn', cm, h')))"
proof -
  let ?v = "if sn_version (kn_root kn) \<noteq> sn_version (tx_base tx) then validate_conflicts L (kn_root kn) tx order else kok ()"
  show ?thesis
  proof (cases "kbind ?v (\<lambda>_. build_next_snapshot L tx order (kn_root kn) h)")
    case (Some z)
    show ?thesis
    proof (cases z)
      case (Inr y)
      obtain newer cm h' where y: "y = (newer, cm, h')" by (cases y) auto
      have v: "?v = Some (Inr ())" "build_next_snapshot L tx order (kn_root kn) h = Some (Inr (newer, cm, h'))"
        using Some Inr y unfolding kbind_def by (auto split: option.splits sum.splits)
      show ?thesis using assms Some Inr y v
        by (auto simp: commit_attempt_def try_publish_with_buffer_history_def try_publish_def split: prod.splits sum.splits option.splits if_splits)
    next
      case (Inl e)
      then have "r = Inl e \<and> kn' = kn" using assms Some by (simp add: commit_attempt_def)
      then show ?thesis by blast
    qed
  qed (use assms in \<open>simp add: commit_attempt_def\<close>)
qed

text \<open>Settling the client edits changes their results only.\<close>

lemma commit_inner_attempt:
  assumes "commit_inner sz L persist tx order h kn = Some (r, kn')"
  obtains c where "commit_attempt L persist tx order h kn = Some (r, kn'\<lparr>kn_results := c\<rparr>)"
proof -
  obtain kn'' c where k: "commit_attempt L persist tx order h kn = Some (r, kn'')" "kn' = kn''\<lparr>kn_results := c\<rparr>"
    using assms by (auto simp: commit_inner_def bind_eq_Some_conv)
  then have "kn'' = kn'\<lparr>kn_results := kn_results kn''\<rparr>" by simp
  then show thesis using k that by metis
qed

lemma commit_inner_ok:
  assumes "trees_ok L" "txn_ok L tx B W" "relations_ok L (sn_relations (kn_root kn)) C"
    and "keeps_relations (sn_relations (tx_base tx)) (sn_relations (kn_root kn))" "distinct order" "set order = {i. tx_writes tx i \<noteq> None}"
    and versions: "sn_version (tx_base tx) = sn_version (kn_root kn) \<longrightarrow> tx_base tx = kn_root kn"
    and run: "commit_inner sz L persist tx order h kn = Some (r, kn')"
  shows "r = Inl e \<Longrightarrow> kn_root kn' = kn_root kn"
    "r = Inr cm \<Longrightarrow> relations_ok L (sn_relations (kn_root kn')) (committed B W C) \<and>
       keeps_relations (sn_relations (kn_root kn)) (sn_relations (kn_root kn')) \<and>
       sn_version (kn_root kn') = sn_version (kn_root kn) + 1 \<and> cm_version cm = sn_version (kn_root kn') \<and> apply_facts (cm_changes cm) C = committed B W C"
    "r = Inr cm \<Longrightarrow> \<forall>i st. rl_get (sn_relations (tx_base tx)) i = Some st \<longrightarrow> conflict_free (rs_metadata st) (B i) (C i) (W i) \<or> C i = B i"
proof -
  let ?root = "kn_root kn" and ?root' = "kn_root kn'"
  let ?v = "if sn_version ?root \<noteq> sn_version (tx_base tx) then validate_conflicts L ?root tx order else kok ()"
  obtain c where "commit_attempt L persist tx order h kn = Some (r, kn'\<lparr>kn_results := c\<rparr>)" by (rule commit_inner_attempt [OF run])
  from commit_attempt_cases [OF this] have all: "(\<exists>e. r = Inl e) \<and> ?root' = ?root \<or>
    (\<exists>cm. r = Inr cm \<and> ?v = Some (Inr ()) \<and> (\<exists>h'. build_next_snapshot L tx order ?root h = Some (Inr (?root', cm, h'))))" by auto
  show "r = Inl e \<Longrightarrow> kn_root kn' = kn_root kn" using all by auto
  have free: "\<forall>i st. rl_get (sn_relations (tx_base tx)) i = Some st \<longrightarrow> conflict_free (rs_metadata st) (B i) (C i) (W i) \<or> C i = B i"
    if ok: "?v = Some (Inr ())"
  proof (cases "sn_version ?root = sn_version (tx_base tx)")
    case True
    then have root: "tx_base tx = ?root" using versions by simp
    then have "relations_ok L (sn_relations (tx_base tx)) C" using assms(3) by simp
    then show ?thesis using same_root_contents [OF assms(1,2)] by blast
  next
    case False
    obtain r where "validate_conflicts L ?root tx order = Some r"
      "r = Inr () \<longleftrightarrow> (\<forall>i \<in> set order. \<forall>st. rl_get (sn_relations (tx_base tx)) i = Some st \<longrightarrow> conflict_free (rs_metadata st) (B i) (C i) (W i))"
      by (rule validate_conflicts_ok [OF assms(1-4), of order]) (use assms(6) in auto)
    then have "\<forall>i \<in> set order. \<forall>st. rl_get (sn_relations (tx_base tx)) i = Some st \<longrightarrow> conflict_free (rs_metadata st) (B i) (C i) (W i)"
      using ok False by simp
    moreover have "conflict_free (rs_metadata st) (B i) (C i) (W i)" if "tx_writes tx i = None" for i st
      unfolding no_writes [OF assms(1,2) that] by (simp add: conflict_free_def split: conflict_policy.splits)
    ultimately show ?thesis using assms(6) by blast
  qed
  show "\<forall>i st. rl_get (sn_relations (tx_base tx)) i = Some st \<longrightarrow> conflict_free (rs_metadata st) (B i) (C i) (W i) \<or> C i = B i" if "r = Inr cm"
    using all that free by blast
  show "relations_ok L (sn_relations ?root') (committed B W C) \<and> keeps_relations (sn_relations ?root) (sn_relations ?root') \<and>
       sn_version ?root' = sn_version ?root + 1 \<and> cm_version cm = sn_version ?root' \<and> apply_facts (cm_changes cm) C = committed B W C"
    if rr: "r = Inr cm"
  proof -
    obtain h' where b: "?v = Some (Inr ())" "build_next_snapshot L tx order ?root h = Some (Inr (?root', cm, h'))" using all rr by auto
    show ?thesis using build_next_ok [OF assms(1-6) free [OF b(1)] b(2)] by blast
  qed
qed

end
