(* ===== verification/KernelSteps.thy ===== *)
theory KernelSteps
  imports RelationCommit
begin

text \<open>
  Concurrent use of the kernel: transactions begin on the published snapshot, write and read in any
  interleaving, and commit one at a time under the commit lock. Every published snapshot keeps its
  functional keys unique, and its storage and indexes hold the same set of tuples.
\<close>

section \<open>Functional replacement\<close>

lemma apply_local_keeps:
  assumes "trees_ok L" "txn_ok L tx D W" "row_ok t" "apply_local_change L computed i t c tx = Some (r, tx')"
  shows "tx_base tx' = tx_base tx" "\<exists>W'. txn_ok L tx' D W'"
proof -
  obtain r0 tx0 where a: "apply_local_change L computed i t c tx = Some (r0, tx0)" "tx_base tx0 = tx_base tx"
    "write_allowed computed tx i t c (view (D i) (W i)) \<Longrightarrow> r0 = Inr () \<and> txn_ok L tx0 D (W(i := (W i)(t \<mapsto> c)))"
    "\<not> write_allowed computed tx i t c (view (D i) (W i)) \<Longrightarrow>
       (\<exists>e. r0 = Inl e \<and> refused_with computed tx i t c (view (D i) (W i)) e) \<and> txn_ok L tx0 D W"
    by (rule apply_local_change_ok [OF assms(1-3)]) (rule that)
  then have "tx0 = tx'" using assms(4) by simp
  then show "tx_base tx' = tx_base tx" "\<exists>W'. txn_ok L tx' D W'" using a(2-4) by blast+
qed

lemma view_rows:
  assumes "trees_ok L" "txn_ok L tx D W" "snapshot_relation (tx_base tx) i = Inr st"
  shows "view (D i) (W i) \<subseteq> rows_of (state_arity st)"
proof -
  note g = txn_okD [OF assms(2,3)]
  have "overlay_ok (tr_entries L) (tr_scan L) (state_arity st) (case tx_writes tx i of None \<Rightarrow> overlay_default | Some ov \<Rightarrow> ov) (W i)"
    using g(3) by (simp add: writes_tracked_def)
  from entries_okD(3) [OF overlay_entries_ok [OF trees_okD(3) [OF assms(1)] this]]
  show ?thesis using rstate_okD(1) [OF g(1)] by (auto simp: view_def dom_def)
qed

text \<open>Replacing removes the tuple seen under the key of the new one, and only that.\<close>

lemma replace_functional_ok:
  assumes "trees_ok L" "txn_ok L tx D W" "snapshot_relation (tx_base tx) i = Inr st" "\<not> computed (rs_metadata st)"
    and fn: "rm_conflict_policy (rs_metadata st) = Functional ps"
    and t: "t \<in> rows_of (state_arity st)" "\<forall>v \<in> set t. is_persistable v"
    and stored: "\<forall>u \<in> view (D i) (W i). \<forall>v \<in> set u. is_persistable v"
  obtains tx' W' where "replace_functional L computed i t tx = Some (Inr (), tx')" "tx_base tx' = tx_base tx" "txn_ok L tx' D W'"
    "view (D i) (W' i) = insert t {u \<in> view (D i) (W i). select u ps \<noteq> select t ps}" "\<And>j. j \<noteq> i \<Longrightarrow> W' j = W j"
proof -
  let ?V = "view (D i) (W i)"
  note result = that
  note g = txn_okD [OF assms(2,3)]
  have f: "functional_on ps ?V" by (rule writes_trackedD(1) [OF g(3) fn])
  have row: "row_ok t" "length t = state_arity st" using t(1) by (simp_all add: rows_of_def)
  have pre: "require_writable_relation computed tx i = Inr st" "validate_tuple st t = Inr ()" "is_functional (rs_metadata st)"
    using assms(3,4) row t(2) fn by (simp_all add: require_writable_relation_def validate_tuple_ok is_functional_def)
  obtain vm where vm: "visible_tuple_for_key L i t st tx =
      Some (at_key ?V ps (select t ps), tx\<lparr>tx_functional_visible := (tx_functional_visible tx)(i \<mapsto> vm)\<rparr>)"
    "visible_ok (tr_visible L) (state_arity st) ps (D i) (W i) vm" by (rule visible_tuple_ok [OF assms(1-3) fn t(1)])
  define tx1 where "tx1 = tx\<lparr>tx_functional_visible := (tx_functional_visible tx)(i \<mapsto> vm)\<rparr>"
  have tx1: "txn_ok L tx1 D W" "tx_base tx1 = tx_base tx" unfolding tx1_def using with_visible_ok [OF assms(2,3) fn vm(2)] by simp_all
  have rest: "?thesis" if a: "txn_ok L txa D Wa" "tx_base txa = tx_base tx" "view (D i) (Wa i) = {u \<in> ?V. select u ps \<noteq> select t ps}"
    "\<And>j. j \<noteq> i \<Longrightarrow> Wa j = W j" "replace_functional L computed i t tx = txn_assert L computed i t txa" for txa Wa
  proof -
    have "write_allowed computed txa i t Assert (view (D i) (Wa i))"
    proof -
      have "functional_on ps (insert t {u \<in> ?V. select u ps \<noteq> select t ps})" using f by (auto simp: functional_on_def)
      then show ?thesis using a(2,3) g(4) assms(4) row(2) t(2) fn by (simp add: write_allowed_def keys_ok_def)
    qed
    then obtain tx' where "apply_local_change L computed i t Assert txa = Some (Inr (), tx')" "tx_base tx' = tx_base txa"
      "txn_ok L tx' D (Wa(i := (Wa i)(t \<mapsto> Assert)))"
      by (rule_tac apply_local_change_ok [OF assms(1) a(1) row(1), of computed i Assert]) blast
    then show ?thesis using a by (intro result [of tx' "Wa(i := (Wa i)(t \<mapsto> Assert))"]) (simp_all add: txn_assert_def view_update)
  qed
  show thesis
  proof (cases "at_key ?V ps (select t ps)")
    case None
    then have "{u \<in> ?V. select u ps \<noteq> select t ps} = ?V" by (auto simp: at_key_None sharing_def)
    then show ?thesis using rest [OF tx1] pre vm(1) None by (simp add: replace_functional_def tx1_def)
  next
    case (Some old)
    have old: "old \<in> ?V" "select old ps = select t ps" using at_key_Some [OF f] Some by blast+
    then have oldrow: "row_ok old" "length old = state_arity st" using view_rows [OF assms(1-3)] by (auto simp: rows_of_def)
    have "write_allowed computed tx1 i old Retract ?V"
      using tx1(2) g(4) assms(4) oldrow(2) stored old(1) by (simp add: write_allowed_def)
    then obtain tx2 where tx2: "apply_local_change L computed i old Retract tx1 = Some (Inr (), tx2)" "tx_base tx2 = tx_base tx1"
      "txn_ok L tx2 D (W(i := (W i)(old \<mapsto> Retract)))"
      by (rule_tac apply_local_change_ok [OF assms(1) tx1(1) oldrow(1), of computed i Retract]) blast
    have "u = old" if "u \<in> ?V" "select u ps = select t ps" for u using f old that unfolding functional_on_def by metis
    then have "?V - {old} = {u \<in> ?V. select u ps \<noteq> select t ps}" using old(2) by blast
    then have "view (D i) ((W(i := (W i)(old \<mapsto> Retract))) i) = {u \<in> ?V. select u ps \<noteq> select t ps}" by (simp add: view_update)
    moreover have "replace_functional L computed i t tx = txn_assert L computed i t tx2"
      using pre vm(1) Some tx2(1) by (simp add: replace_functional_def txn_retract_def tx1_def)
    ultimately show ?thesis using rest [OF tx2(3)] tx1(2) tx2(2) by simp
  qed
qed

lemma replace_functional_keeps:
  assumes "trees_ok L" "txn_ok L tx D W" "row_ok t" "replace_functional L computed i t tx = Some (r, tx')"
  shows "tx_base tx' = tx_base tx" "\<exists>W'. txn_ok L tx' D W'"
proof -
  have as: "tx_base txb = tx_base txa \<and> (\<exists>W'. txn_ok L txb D W')"
    if "txn_ok L txa D Wa" "txn_assert L computed i t txa = Some (q, txb)" for txa txb q Wa
    using apply_local_keeps [OF assms(1) that(1) assms(3)] that(2) by (simp add: txn_assert_def)
  have "tx_base tx' = tx_base tx \<and> (\<exists>W'. txn_ok L tx' D W')"
  proof (cases "require_writable_relation computed tx i")
    case (Inl e)
    then show ?thesis using assms(2,4) by (auto simp: replace_functional_def)
  next
    case (Inr st)
    then have st: "snapshot_relation (tx_base tx) i = Inr st" by (auto simp: require_writable_relation_def split: sum.splits if_splits)
    show ?thesis
    proof (cases "validate_tuple st t = Inr () \<and> is_functional (rs_metadata st)")
      case False
      then show ?thesis using Inr assms(2,4) as [OF assms(2)] by (auto simp: replace_functional_def split: sum.splits if_splits)
    next
      case True
      then obtain ps where ps: "rm_conflict_policy (rs_metadata st) = Functional ps" by (auto simp: is_functional_def split: conflict_policy.splits)
      have t: "t \<in> rows_of (state_arity st)" using True assms(3) by (simp add: validate_tuple_ok rows_of_def)
      obtain vm where vm: "visible_tuple_for_key L i t st tx =
          Some (at_key (view (D i) (W i)) ps (select t ps), tx\<lparr>tx_functional_visible := (tx_functional_visible tx)(i \<mapsto> vm)\<rparr>)"
        "visible_ok (tr_visible L) (state_arity st) ps (D i) (W i) vm" by (rule visible_tuple_ok [OF assms(1,2) st ps t])
      define tx1 where "tx1 = tx\<lparr>tx_functional_visible := (tx_functional_visible tx)(i \<mapsto> vm)\<rparr>"
      have tx1: "txn_ok L tx1 D W" "tx_base tx1 = tx_base tx" unfolding tx1_def using with_visible_ok [OF assms(2) st ps vm(2)] by simp_all
      show ?thesis
      proof (cases "at_key (view (D i) (W i)) ps (select t ps)")
        case None
        then show ?thesis using assms(4) Inr True vm(1) as [OF tx1(1)] tx1(2) by (simp add: replace_functional_def tx1_def)
      next
        case (Some old)
        have "old \<in> view (D i) (W i)" using at_key_Some [OF writes_trackedD(1) [OF txn_okD(3) [OF assms(2) st] ps]] Some by blast
        then have row: "row_ok old" using view_rows [OF assms(1,2) st] by (auto simp: rows_of_def)
        have run: "(case txn_retract L computed i old tx1 of None \<Rightarrow> None | Some (Inl e, tx'') \<Rightarrow> Some (Inl e, tx'')
            | Some (Inr _, tx'') \<Rightarrow> txn_assert L computed i t tx'') = Some (r, tx')"
          using assms(4) Inr True vm(1) Some by (simp add: replace_functional_def tx1_def)
        then obtain q tx2 where q: "txn_retract L computed i old tx1 = Some (q, tx2)" by (auto split: option.splits)
        have k: "tx_base tx2 = tx_base tx1 \<and> (\<exists>W'. txn_ok L tx2 D W')"
          using apply_local_keeps [OF assms(1) tx1(1) row] q by (simp add: txn_retract_def)
        then obtain W2 where w2: "txn_ok L tx2 D W2" "tx_base tx2 = tx_base tx" using tx1(2) by auto
        show ?thesis
        proof (cases q)
          case (Inl e)
          then have "tx' = tx2" using run q by simp
          then show ?thesis using w2 by blast
        next
          case (Inr u)
          then have "txn_assert L computed i t tx2 = Some (r, tx')" using run q by simp
          from as [OF w2(1) this] show ?thesis using w2(2) by simp
        qed
      qed
    qed
  qed
  then show "tx_base tx' = tx_base tx" "\<exists>W'. txn_ok L tx' D W'" by simp_all
qed

section \<open>Interleavings\<close>

record ('m, 'n, 'e, 'x, 'f, 'p) system =
  sy_kernel :: "('m, 'n, 'p) kernel"
  sy_txns :: "nat \<Rightarrow> ('m, 'n, 'e, 'x, 'f) rtxn option"

abbreviation sy_root :: "('m, 'n, 'e, 'x, 'f, 'p) system \<Rightarrow> ('m, 'n) relation_state snapshot" where
  "sy_root s \<equiv> kn_root (sy_kernel s)"

text \<open>
  One step of the system. A buffer operation of \<open>BufferStore\<close> or \<open>BufferClient\<close> changes neither the base
  nor the relation writes of its transaction, nor the kernel apart from the results of client edits. Values that reach the kernel are well formed (\<open>row_ok\<close>). The declared
  indexes of a new relation do not repeat a column in a full-width index.
\<close>

inductive kernel_step ::
  "('m, 'n, 'e, 'x, 'f) trees \<Rightarrow> (relation_metadata \<Rightarrow> bool) \<Rightarrow> ('p \<Rightarrow> commit \<Rightarrow> (string + unit) \<times> 'p) \<Rightarrow>
     (delta \<Rightarrow> nat) \<Rightarrow> ('m, 'n, 'e, 'x, 'f, 'p) system \<Rightarrow> ('m, 'n, 'e, 'x, 'f, 'p) system \<Rightarrow> bool"
  for L computed persist sz where
  Begin: "sy_txns s k = None \<Longrightarrow> kernel_step L computed persist sz s (s\<lparr>sy_txns := (sy_txns s)(k \<mapsto> txn_new (sy_root s))\<rparr>)"
| Write: "sy_txns s k = Some tx \<Longrightarrow> row_ok t \<Longrightarrow> apply_local_change L computed i t c tx = Some (r, tx') \<Longrightarrow>
    kernel_step L computed persist sz s (s\<lparr>sy_txns := (sy_txns s)(k \<mapsto> tx')\<rparr>)"
| Replace: "sy_txns s k = Some tx \<Longrightarrow> row_ok t \<Longrightarrow> replace_functional L computed i t tx = Some (r, tx') \<Longrightarrow>
    kernel_step L computed persist sz s (s\<lparr>sy_txns := (sy_txns s)(k \<mapsto> tx')\<rparr>)"
| Edit: "sy_txns s k = Some tx \<Longrightarrow> tx_base tx' = tx_base tx \<Longrightarrow> tx_writes tx' = tx_writes tx \<Longrightarrow>
    tx_functional_visible tx' = tx_functional_visible tx \<Longrightarrow>
    kernel_step L computed persist sz s (s\<lparr>sy_kernel := (sy_kernel s)\<lparr>kn_results := c\<rparr>, sy_txns := (sy_txns s)(k \<mapsto> tx')\<rparr>)"
| Commit: "sy_txns s k = Some tx \<Longrightarrow> distinct order \<Longrightarrow> set order = {i. tx_writes tx i \<noteq> None} \<Longrightarrow>
    commit_inner sz L persist tx order h (sy_kernel s) = Some (r, kn') \<Longrightarrow>
    kernel_step L computed persist sz s (s\<lparr>sy_kernel := kn', sy_txns := (sy_txns s)(k := None)\<rparr>)"
| Abort: "sy_txns s k = Some tx \<Longrightarrow> drop_transaction sz (txn.truncate tx) (kn_results (sy_kernel s)) = Some c \<Longrightarrow>
    kernel_step L computed persist sz s (s\<lparr>sy_kernel := (sy_kernel s)\<lparr>kn_results := c\<rparr>, sy_txns := (sy_txns s)(k := None)\<rparr>)"
| Create: "create_relation L persist md (sy_kernel s) = (r, kn') \<Longrightarrow>
    \<forall>ps \<in> set (rm_indexes md). length ps = rm_arity md \<longrightarrow> distinct ps \<Longrightarrow>
    kernel_step L computed persist sz s (s\<lparr>sy_kernel := kn'\<rparr>)"

inductive_cases kernel_stepE: "kernel_step L computed persist sz s s'"

definition based_on :: "('m, 'n, 'e, 'x, 'f) trees \<Rightarrow> ('m, 'n) relation_state snapshot \<Rightarrow> ('m, 'n, 'e, 'x, 'f) rtxn \<Rightarrow> bool" where
  "based_on L root tx \<longleftrightarrow> (\<exists>B W. txn_ok L tx B W) \<and> keeps_relations (sn_relations (tx_base tx)) (sn_relations root) \<and>
     sn_version (tx_base tx) \<le> sn_version root \<and> (sn_version (tx_base tx) = sn_version root \<longrightarrow> tx_base tx = root)"

definition system_ok :: "('m, 'n, 'e, 'x, 'f) trees \<Rightarrow> ('m, 'n, 'e, 'x, 'f, 'p) system \<Rightarrow> bool" where
  "system_ok L s \<longleftrightarrow> (\<exists>C. relations_ok L (sn_relations (sy_root s)) C) \<and> (\<forall>k tx. sy_txns s k = Some tx \<longrightarrow> based_on L (sy_root s) tx)"

lemma system_ok_put:
  "system_ok L s \<Longrightarrow> based_on L (sy_root s) tx \<Longrightarrow> system_ok L (s\<lparr>sy_txns := (sy_txns s)(k \<mapsto> tx)\<rparr>)"
  by (auto simp: system_ok_def)

lemma system_ok_results: "system_ok L (s\<lparr>sy_kernel := (sy_kernel s)\<lparr>kn_results := c\<rparr>, sy_txns := T\<rparr>) = system_ok L (s\<lparr>sy_txns := T\<rparr>)"
  by (simp add: system_ok_def)

lemma based_on_keep:
  "based_on L root tx \<Longrightarrow> tx_base tx' = tx_base tx \<Longrightarrow> \<exists>B W. txn_ok L tx' B W \<Longrightarrow> based_on L root tx'"
  by (simp add: based_on_def)

text \<open>A transaction survives the publication of a later snapshot.\<close>

lemma based_on_later:
  assumes "based_on L root tx" "keeps_relations (sn_relations root) (sn_relations root')" "sn_version root < sn_version root'"
  shows "based_on L root' tx"
  using assms keeps_trans unfolding based_on_def by auto

lemma new_txn_ok:
  assumes "trees_ok L" "relations_ok L (sn_relations root) C"
  shows "txn_ok L (txn_new root) C (\<lambda>_. Map.empty)"
proof -
  have "writes_tracked L st (C i) None None Map.empty" if "rl_get (sn_relations root) i = Some st" for i st
  proof -
    have "keys_ok (rs_metadata st) (C i)" using assms(2) that by (simp add: relations_ok_def)
    moreover have "view (C i) Map.empty = C i" by (simp add: view_def)
    ultimately show ?thesis
      by (auto simp: writes_tracked_def overlay_default_ok keys_ok_def split: conflict_policy.splits)
  qed
  then show ?thesis using assms(2) by (auto simp: txn_ok_def txn_new_def split: option.splits)
qed

lemma create_relation_root:
  fixes kn :: "('m, 'n, 'p) kernel"
  assumes "create_relation L persist md kn = (r, kn')" "kn_root kn' \<noteq> kn_root kn"
  shows "\<exists>st. state_empty (tr_index L) md = Inr st \<and> \<not> rl_contains_key (sn_relations (kn_root kn)) (rm_id md) \<and>
    kn_root kn' = (kn_root kn)\<lparr>sn_relations := rl_insert (rm_id md) st (sn_relations (kn_root kn)), sn_version := sn_version (kn_root kn) + 1\<rparr>"
proof (cases "state_empty (tr_index L) md :: val kernel_error + ('m, 'n) relation_state")
  case (Inr st)
  let ?cm = "\<lparr>cm_version = sn_version (kn_root kn) + 1, cm_buffer_changes = [], cm_catalog_changes = [md], cm_changes = []\<rparr>"
  have free: "\<not> rl_contains_key (sn_relations (kn_root kn)) (rm_id md)"
  proof
    assume "rl_contains_key (sn_relations (kn_root kn)) (rm_id md)"
    then show False using assms Inr by (simp add: create_relation_def Let_def)
  qed
  obtain p log' where p: "persist_commit persist (kn_root kn) ?cm (kn_log kn) = (p, log')"
    by (cases "persist_commit persist (kn_root kn) ?cm (kn_log kn)")
  show ?thesis using assms Inr free p unfolding create_relation_def Let_def try_publish_def by (cases p) (auto split: if_splits)
qed (use assms in \<open>simp add: create_relation_def Let_def\<close>)

lemma create_relation_ok:
  assumes "trees_ok L" "relations_ok L (sn_relations (kn_root kn)) C" "create_relation L persist md kn = (r, kn')"
    and "\<forall>ps \<in> set (rm_indexes md). length ps = rm_arity md \<longrightarrow> distinct ps"
  shows "kn_root kn' = kn_root kn \<or> (\<exists>C'. relations_ok L (sn_relations (kn_root kn')) C') \<and>
    keeps_relations (sn_relations (kn_root kn)) (sn_relations (kn_root kn')) \<and> sn_version (kn_root kn) < sn_version (kn_root kn')"
proof (cases "kn_root kn' = kn_root kn")
  case False
  let ?root = "kn_root kn" and ?root' = "kn_root kn'"
  obtain st where st: "state_empty (tr_index L) md = Inr st" "\<not> rl_contains_key (sn_relations ?root) (rm_id md)"
    and root': "?root' = ?root\<lparr>sn_relations := rl_insert (rm_id md) st (sn_relations ?root), sn_version := sn_version ?root + 1\<rparr>"
    using create_relation_root [OF assms(3) False] by blast
  let ?i = "rm_id md"
  have none: "rl_get (sn_relations ?root) ?i = None" using st(2) by (simp add: rl_contains_key_def)
  have om: "om_ok (rl_entries (sn_relations ?root))" using assms(2) by (simp add: relations_ok_def)
  have entries: "rl_entries (rl_insert ?i st (sn_relations ?root)) = om_insert ?i st (rl_entries (sn_relations ?root))"
    using st(2) by (simp add: rl_insert_def Let_def)
  then have get: "rl_get (rl_insert ?i st (sn_relations ?root)) = (rl_get (sn_relations ?root))(?i \<mapsto> st)"
    using om by (simp add: fun_eq_iff rl_get_def)
  have e: "rstate_ok (tr_rows L) (tr_index L) st {}" by (rule state_empty_ok(1) [OF trees_okD(2) [OF assms(1)] st(1) assms(4)])
  have "relations_ok L (sn_relations ?root') (C(?i := {}))"
    unfolding relations_ok_def root' using assms(2) om e entries
    by (auto simp: get relations_ok_def keys_ok_def functional_on_def)
  moreover have "keeps_relations (sn_relations ?root) (sn_relations ?root')"
    unfolding keeps_relations_def root' using none by (auto simp: get)
  ultimately show ?thesis unfolding root' by auto
qed simp

lemma step_ok:
  assumes "trees_ok L" "kernel_step L computed persist sz s s'" "system_ok L s"
  shows "system_ok L s'"
  using assms(2)
proof (cases rule: kernel_step.cases)
  case (Begin k)
  obtain C where C: "relations_ok L (sn_relations (sy_root s)) C" using assms(3) by (auto simp: system_ok_def)
  have "based_on L (sy_root s) (txn_new (sy_root s))"
    using new_txn_ok [OF assms(1) C] keeps_refl by (auto simp: based_on_def txn_new_def)
  then show ?thesis unfolding Begin(1) by (rule system_ok_put [OF assms(3)])
next
  case (Write k tx t i c r tx')
  then have b: "based_on L (sy_root s) tx" using assms(3) by (simp add: system_ok_def)
  then obtain B W where w: "txn_ok L tx B W" by (auto simp: based_on_def)
  note k = apply_local_keeps [OF assms(1) w Write(3,4)]
  show ?thesis unfolding Write(1) by (rule system_ok_put [OF assms(3) based_on_keep [OF b k(1)]]) (use k(2) in blast)
next
  case (Replace k tx t i r tx')
  then have b: "based_on L (sy_root s) tx" using assms(3) by (simp add: system_ok_def)
  then obtain B W where w: "txn_ok L tx B W" by (auto simp: based_on_def)
  note k = replace_functional_keeps [OF assms(1) w Replace(3,4)]
  show ?thesis unfolding Replace(1) by (rule system_ok_put [OF assms(3) based_on_keep [OF b k(1)]]) (use k(2) in blast)
next
  case (Edit k tx tx' c)
  then have b: "based_on L (sy_root s) tx" using assms(3) by (simp add: system_ok_def)
  then obtain B W where "txn_ok L tx B W" by (auto simp: based_on_def)
  then have "txn_ok L tx' B W" unfolding txn_ok_def Edit(3-5) .
  then show ?thesis unfolding Edit(1) system_ok_results using system_ok_put [OF assms(3) based_on_keep [OF b Edit(3)]] by blast
next
  case (Commit k tx order h r kn')
  let ?root' = "kn_root kn'"
  from Commit have b: "based_on L (sy_root s) tx" using assms(3) by (simp add: system_ok_def)
  then obtain B W where w: "txn_ok L tx B W" by (auto simp: based_on_def)
  obtain C where C: "relations_ok L (sn_relations (sy_root s)) C" using assms(3) by (auto simp: system_ok_def)
  have bb: "keeps_relations (sn_relations (tx_base tx)) (sn_relations (sy_root s))"
    "sn_version (tx_base tx) = sn_version (sy_root s) \<longrightarrow> tx_base tx = sy_root s" using b by (auto simp: based_on_def)
  note c = commit_inner_ok(1,2) [OF assms(1) w C bb(1) Commit(3,4) bb(2) Commit(5)]
  have "(\<exists>C'. relations_ok L (sn_relations ?root') C') \<and> (\<forall>k tx. sy_txns s k = Some tx \<longrightarrow> based_on L ?root' tx)"
  proof (cases r)
    case (Inl e)
    then show ?thesis using c(1) C assms(3) by (auto simp: system_ok_def)
  next
    case (Inr cm)
    then have n: "relations_ok L (sn_relations ?root') (committed B W C)" "keeps_relations (sn_relations (sy_root s)) (sn_relations ?root')"
      "sn_version (sy_root s) < sn_version ?root'" using c(2) by auto
    then show ?thesis using based_on_later [OF _ n(2,3)] assms(3) by (auto simp: system_ok_def)
  qed
  then show ?thesis unfolding Commit(1) by (simp add: system_ok_def)
next
  case (Abort k tx c)
  show ?thesis unfolding Abort(1) system_ok_results using assms(3) by (simp add: system_ok_def)
next
  case (Create md r kn')
  let ?root' = "kn_root kn'"
  obtain C where C: "relations_ok L (sn_relations (sy_root s)) C" using assms(3) by (auto simp: system_ok_def)
  note n = create_relation_ok [OF assms(1) C Create(2,3)]
  show ?thesis
  proof (cases "?root' = sy_root s")
    case True
    then show ?thesis unfolding Create(1) using assms(3) by (simp add: system_ok_def)
  next
    case False
    then have n': "\<exists>C'. relations_ok L (sn_relations ?root') C'" "keeps_relations (sn_relations (sy_root s)) (sn_relations ?root')"
      "sn_version (sy_root s) < sn_version ?root'" using n by auto
    then show ?thesis unfolding Create(1) using based_on_later [OF _ n'(2,3)] assms(3) by (auto simp: system_ok_def)
  qed
qed

lemma reachable_ok:
  assumes "trees_ok L" "(kernel_step L computed persist sz)\<^sup>*\<^sup>* s s'" "system_ok L s"
  shows "system_ok L s'"
  using assms(2,3)
proof (induction rule: rtranclp_induct)
  case (step y z)
  then show ?case using step_ok [OF assms(1)] by blast
qed simp

section \<open>Replay of a commit\<close>

lemma applied_sub: "apply_ordered_changes R Q cs P st = (applied, st') \<Longrightarrow> set applied \<subseteq> set cs"
proof (induction R Q cs P st arbitrary: applied st' rule: apply_ordered_changes.induct)
  case (2 R Q t cs P st)
  obtain b s where i: "insert_indexed R Q t st = (b, s)" by (cases "insert_indexed R Q t st")
  obtain ap s' where a: "apply_ordered_changes R Q cs P s = (ap, s')" by (cases "apply_ordered_changes R Q cs P s")
  show ?case using "2.IH" [OF i [symmetric] refl a] "2.prems" i a by (auto split: if_splits)
next
  case (3 R Q t cs P st)
  obtain b s where i: "remove_indexed R Q t st = (b, s)" by (cases "remove_indexed R Q t st")
  obtain ap s' where a: "apply_ordered_changes R Q cs P s = (ap, s')" by (cases "apply_ordered_changes R Q cs P s")
  show ?case
  proof (cases "P t")
    case True
    then show ?thesis using "3.IH"(2) [OF _ i [symmetric] refl a] "3.prems" i a by (auto split: if_splits)
  next
    case False
    then show ?thesis using "3.IH"(1) [of applied st'] "3.prems" by auto
  qed
qed simp

lemma overlay_applied_sub:
  assumes "overlay_apply R Q E ov base st = (applied, st')"
  shows "fst ` set applied \<subseteq> fst ` set (overlay_entries E ov)"
proof (cases "state_is_empty base \<and> cardinality st = 0 \<and> all_are_asserts E (ov_changes ov)")
  case True
  have "applied = map (\<lambda>t. (t, Assert)) (remdups_adj (map fst (overlay_entries E ov)))"
    using assms True by (auto simp: overlay_apply_def apply_ordered_asserts_to_empty_def Let_def split: if_splits)
  then show ?thesis by force
next
  case False
  then have "apply_ordered_changes R Q (overlay_entries E ov) (contains_tuple R base) st = (applied, st')"
    using assms by (simp only: overlay_apply_def if_False)
  from applied_sub [OF this] show ?thesis by auto
qed

definition fact_ok :: "('m, 'n) relation_state relation_states \<Rightarrow> fact_change \<Rightarrow> bool" where
  "fact_ok c ch \<longleftrightarrow> (\<exists>st. rl_get c (fc_relation ch) = Some st \<and> fc_tuple ch \<in> rows_of (state_arity st))"

lemma apply_writes_facts:
  assumes "trees_ok L" "txn_ok L tx B W"
  shows "apply_writes L tx is c = Inr (chs, c') \<Longrightarrow> \<forall>ch \<in> set chs. fact_ok (sn_relations (tx_base tx)) ch"
proof (induction "is" arbitrary: c chs c')
  case (Cons i "is")
  obtain ov st base where o: "tx_writes tx i = Some ov" "rl_get c i = Some st" "snapshot_relation (tx_base tx) i = Inr base"
    using Cons.prems by (auto split: option.splits sum.splits)
  obtain applied st' where a: "overlay_apply (tr_rows L) (tr_index L) (tr_entries L) ov base st = (applied, st')"
    by (cases "overlay_apply (tr_rows L) (tr_index L) (tr_entries L) ov base st")
  obtain rest where r: "apply_writes L tx is (rl_replace i st' c) = Inr (rest, c')"
    "chs = map (\<lambda>(t, k). \<lparr>fc_relation = i, fc_tuple = t, fc_kind = k\<rparr>) applied @ rest"
    using Cons.prems o a by (auto split: sum.splits)
  note g = txn_okD [OF assms(2) o(3)]
  have "overlay_ok (tr_entries L) (tr_scan L) (state_arity base) ov (W i)" using g(3) o(1) by (simp add: writes_tracked_def)
  from overlay_entries_ok [OF trees_okD(3) [OF assms(1)] this]
  have "fst ` set applied \<subseteq> rows_of (state_arity base)" using overlay_applied_sub [OF a] by (auto simp: entries_ok_def)
  then have "fact_ok (sn_relations (tx_base tx)) ch" if "ch \<in> set (map (\<lambda>(t, k). \<lparr>fc_relation = i, fc_tuple = t, fc_kind = k\<rparr>) applied)" for ch
    using that g(4) by (auto simp: fact_ok_def)
  then show ?case using Cons.IH [OF r(1)] unfolding r(2) by auto
qed simp

definition durable_in :: "('m, 'n) relation_state relation_states \<Rightarrow> identity \<Rightarrow> bool" where
  "durable_in c i \<longleftrightarrow> (case rl_get c i of None \<Rightarrow> False | Some st \<Rightarrow> rm_durability (rs_metadata st) = Durable)"

lemma durable_changes_ok:
  "\<forall>ch \<in> set chs. rl_get (sn_relations s) (fc_relation ch) \<noteq> None \<Longrightarrow>
    durable_changes s chs = Inr (filter (\<lambda>ch. durable_in (sn_relations s) (fc_relation ch)) chs)"
proof (induction chs)
  case (Cons ch chs)
  then show ?case by (cases "rl_get (sn_relations s) (fc_relation ch)") (auto simp: snapshot_relation_def durable_in_def)
qed simp

lemma durable_in_cong: "keeps_relations c c' \<Longrightarrow> keeps_relations c' c \<Longrightarrow> durable_in c i = durable_in c' i"
  unfolding keeps_relations_def durable_in_def by (cases "rl_get c i"; cases "rl_get c' i") fastforce+

lemma replay_facts_ok:
  assumes "trees_ok L"
  shows "rows_held L c D \<Longrightarrow> \<forall>ch \<in> set chs. fact_ok c ch \<Longrightarrow>
    \<exists>c'. replay_facts L chs c = Inr c' \<and> keeps_relations c c' \<and> keeps_relations c' c \<and>
      rows_held L c' (apply_facts (filter (\<lambda>ch. durable_in c (fc_relation ch)) chs) D)"
proof (induction chs arbitrary: c D)
  case (Cons ch chs)
  let ?i = "fc_relation ch" and ?t = "fc_tuple ch"
  obtain st where st: "rl_get c ?i = Some st" "?t \<in> rows_of (state_arity st)" using Cons.prems(2) by (auto simp: fact_ok_def)
  have ok: "om_ok (rl_entries c)" "rstate_ok (tr_rows L) (tr_index L) st (D ?i)" using Cons.prems(1) st(1) by (auto simp: rows_held_def)
  have len: "state_arity st = length ?t" using st(2) by (simp add: rows_of_def)
  show ?case
  proof (cases "rm_durability (rs_metadata st)")
    case Volatile
    then show ?thesis using Cons.IH [OF Cons.prems(1)] Cons.prems(2) st(1) by (simp add: durable_in_def)
  next
    case Durable
    define st' where "st' = snd (case fc_kind ch of Assert \<Rightarrow> insert_indexed (tr_rows L) (tr_index L) ?t st
        | Retract \<Rightarrow> remove_indexed (tr_rows L) (tr_index L) ?t st)"
    define A where "A = (case fc_kind ch of Assert \<Rightarrow> insert ?t (D ?i) | Retract \<Rightarrow> D ?i - {?t})"
    have st': "rstate_ok (tr_rows L) (tr_index L) st' A" "rs_metadata st' = rs_metadata st"
      using insert_indexed_ok(2,3) [OF trees_okD(1,2) [OF assms] ok(2) st(2)] remove_indexed_ok(2,3) [OF trees_okD(1,2) [OF assms] ok(2) st(2)]
      by (cases "fc_kind ch"; simp add: st'_def A_def)+
    note k = keeps_replace [OF ok(1) st(1) st'(2)]
    have facts: "\<forall>ch \<in> set chs. fact_ok (rl_replace ?i st' c) ch"
      using Cons.prems(2) st(1) st'(2) by (auto simp: fact_ok_def rl_get_replace [OF ok(1)])
    obtain c' where c': "replay_facts L chs (rl_replace ?i st' c) = Inr c'" "keeps_relations (rl_replace ?i st' c) c'"
      "keeps_relations c' (rl_replace ?i st' c)"
      "rows_held L c' (apply_facts (filter (\<lambda>ch. durable_in (rl_replace ?i st' c) (fc_relation ch)) chs) (D(?i := A)))"
      using Cons.IH [OF rows_held_replace [OF Cons.prems(1) st'(1)] facts] by blast
    have "durable_in (rl_replace ?i st' c) = durable_in c" using durable_in_cong [OF k] by auto
    then have "rows_held L c' (apply_facts (filter (\<lambda>ch. durable_in c (fc_relation ch)) (ch # chs)) D)"
      using c'(4) st(1) Durable by (simp add: durable_in_def A_def)
    moreover have "replay_facts L (ch # chs) c = Inr c'" using c'(1) st(1) Durable len by (simp add: st'_def)
    ultimately show ?thesis using keeps_trans [OF k(1) c'(2)] keeps_trans [OF c'(3) k(2)] by blast
  qed
qed (simp add: keeps_refl)

lemma apply_facts_filter:
  "P i \<Longrightarrow> D i = D' i \<Longrightarrow> apply_facts (filter (\<lambda>ch. P (fc_relation ch)) chs) D i = apply_facts chs D' i"
proof (induction chs arbitrary: D D')
  case (Cons ch chs)
  show ?case
  proof (cases "fc_relation ch = i")
    case True
    let ?up = "\<lambda>E :: contents. E(i := (case fc_kind ch of Assert \<Rightarrow> insert (fc_tuple ch) (E i) | Retract \<Rightarrow> E i - {fc_tuple ch}))"
    have "apply_facts (filter (\<lambda>ch. P (fc_relation ch)) chs) (?up D) i = apply_facts chs (?up D') i"
      by (rule Cons.IH [OF Cons.prems(1)]) (simp only: fun_upd_same Cons.prems(2))
    then show ?thesis using Cons.prems(1) by (simp only: apply_facts.simps filter.simps True if_True)
  next
    case False
    have "apply_facts (filter (\<lambda>ch. P (fc_relation ch)) chs) E i = apply_facts chs (D'(fc_relation ch := X)) i" if "E i = D i" for E X
      by (rule Cons.IH [OF Cons.prems(1)]) (use that False Cons.prems(2) in simp)
    note both = this
    show ?thesis
    proof (cases "P (fc_relation ch)")
      case True
      then show ?thesis by (simp only: filter.simps if_True apply_facts.simps) (rule both, use False in simp)
    next
      case no: False
      then show ?thesis by (simp only: filter.simps if_False apply_facts.simps) (rule both, rule refl)
    qed
  qed
qed simp

end
