(* ===== verification/RelationProperties.thy ===== *)
theory RelationProperties
  imports KernelSteps
begin

text \<open>
  The properties of the relation store and of its transactions, with an example relation on which they
  are witnessed: a binary relation, functional in its first column, with an index on the second.
\<close>

section \<open>An example relation\<close>

definition demo_metadata :: relation_metadata where
  "demo_metadata = \<lparr>rm_id = 1, rm_name = 7, rm_arity = 2, rm_argument_names = [None, None], rm_indexes = [[0, 1], [1]],
     rm_conflict_policy = Functional [0], rm_durability = Durable\<rparr>"

type_synonym 'v tree = "'v key_assoc"
type_synonym demo_state = "(tuple tree, tuple_bucket tree) relation_state"
type_synonym demo_txn = "(tuple tree, tuple_bucket tree, overlay_entry tree, overlay_entry list tree, visible_entry tree) rtxn"

definition demo_trees :: "(tuple tree, tuple_bucket tree, overlay_entry tree, overlay_entry list tree, visible_entry tree) trees" where
  "demo_trees = \<lparr>tr_rows = ka_ops, tr_index = ka_ops, tr_entries = ka_ops, tr_scan = ka_ops, tr_visible = ka_ops\<rparr>"

definition demo_empty :: demo_state where
  "demo_empty = \<lparr>rs_metadata = demo_metadata, rs_tuples = store_empty, rs_indexes = [index_empty ka_ops [1] 2],
     rs_non_immediate_counts = [0, 0]\<rparr>"

definition demo_root :: "demo_state snapshot" where
  "demo_root = \<lparr>sn_version = 1, sn_buffers = bf_default, sn_relations = rl_insert 1 demo_empty rl_new\<rparr>"

definition demo_row :: "int \<Rightarrow> int \<Rightarrow> tuple" where
  "demo_row a b = [VInt a, VInt b]"

lemma demo_trees_ok: "trees_ok demo_trees"
  by (simp add: trees_ok_def demo_trees_def ka_laws)

lemma demo_empty_state: "state_empty ka_ops demo_metadata = Inr demo_empty"
  by (simp add: state_empty_def validate_metadata_def demo_metadata_def demo_empty_def is_natural_full_tuple_index_def
      is_natural_full_tuple_positions_def upt_rec numeral_2_eq_2)

lemma demo_empty_ok: "rstate_ok ka_ops ka_ops demo_empty {}"
  by (rule state_empty_ok(1) [OF ka_laws demo_empty_state]) (simp add: demo_metadata_def)

lemma demo_get [simp]: "rl_get (sn_relations demo_root) i = (if i = 1 then Some demo_empty else None)"
  by (simp add: demo_root_def rl_insert_def rl_new_def rl_contains_key_def rl_get_def Let_def)

lemma demo_relations_ok: "relations_ok demo_trees (sn_relations demo_root) (\<lambda>_. {})"
proof -
  have "om_ok (rl_entries (sn_relations demo_root))"
    by (simp add: demo_root_def rl_insert_def rl_new_def rl_contains_key_def rl_get_def Let_def)
  then show ?thesis using demo_empty_ok by (simp add: relations_ok_def demo_trees_def keys_ok_def functional_on_def)
qed

lemma demo_known: "rl_get (sn_relations demo_root) 1 = Some demo_empty"
  by simp

lemma demo_row_ok: "row_ok (demo_row 1 5)" "demo_row 1 5 \<in> rows_of 2" "demo_row 1 6 \<in> rows_of 2" "demo_row 1 5 \<noteq> demo_row 1 6"
  by (simp_all add: demo_row_def row_ok_def rows_of_def INT_MIN_def INT_MAX_def)

lemma demo_arity [simp]: "state_arity demo_empty = 2" "rm_conflict_policy (rs_metadata demo_empty) = Functional [0]"
  by (simp_all add: demo_empty_def demo_metadata_def)

definition demo_kernel :: "(tuple tree, tuple_bucket tree, commit list) kernel" where
  "demo_kernel = \<lparr>kn_root = demo_root, kn_log = [], kn_results = results_default, kn_history = history_default\<rparr>"

lemma demo_kernel_root [simp]: "kn_root demo_kernel = demo_root"
  by (simp add: demo_kernel_def)

lemma demo_kernel_relations: "relations_ok demo_trees (sn_relations (kn_root demo_kernel)) (\<lambda>_. {})"
  using demo_relations_ok by simp

definition demo_txn :: demo_txn where
  "demo_txn = txn_new demo_root"

lemma demo_txn_ok: "txn_ok demo_trees demo_txn (\<lambda>_. {}) (\<lambda>_. Map.empty)"
  unfolding demo_txn_def by (rule new_txn_ok [OF demo_trees_ok demo_relations_ok])

lemma demo_relation: "snapshot_relation (tx_base demo_txn) 1 = Inr demo_empty"
  by (simp add: snapshot_relation_def demo_txn_def txn_new_def)

text \<open>The example transaction with one assertion in it.\<close>

lemma demo_written:
  obtains tx where "apply_local_change demo_trees (\<lambda>_. False) 1 (demo_row 1 5) Assert demo_txn = Some (Inr (), tx)"
    "txn_ok demo_trees tx (\<lambda>_. {}) ((\<lambda>_. Map.empty)(1 := Map.empty(demo_row 1 5 \<mapsto> Assert)))" "tx_base tx = demo_root"
    "tx_buffer_writes tx = []" "{i. tx_writes tx i \<noteq> None} = {1}"
proof -
  have "write_allowed (\<lambda>_. False) demo_txn 1 (demo_row 1 5) Assert (view {} Map.empty)"
    using demo_row_ok(2) by (simp add: write_allowed_def demo_txn_def txn_new_def rows_of_def view_def keys_ok_def functional_on_def)
       (simp add: demo_row_def)
  then obtain tx where tx: "apply_local_change demo_trees (\<lambda>_. False) 1 (demo_row 1 5) Assert demo_txn = Some (Inr (), tx)"
    "txn_ok demo_trees tx (\<lambda>_. {}) ((\<lambda>_. Map.empty)(1 := Map.empty(demo_row 1 5 \<mapsto> Assert)))" "tx_base tx = tx_base demo_txn"
    by (rule_tac apply_local_change_ok [OF demo_trees_ok demo_txn_ok demo_row_ok(1), of "\<lambda>_. False" 1 Assert]) auto
  have "tx_buffer_writes tx = tx_buffer_writes demo_txn \<and> (\<forall>i. i \<noteq> 1 \<longrightarrow> tx_writes tx i = tx_writes demo_txn i) \<and> tx_writes tx 1 \<noteq> None"
    using tx(1) by (auto simp: apply_local_change_def visible_tuple_for_key_def record_functional_change_def write_change_def Let_def
        split: sum.splits option.splits conflict_policy.splits if_splits)
  then have "tx_buffer_writes tx = []" "{i. tx_writes tx i \<noteq> None} = {1}" by (auto simp: demo_txn_def txn_new_def)
  then show thesis using tx that by (simp add: demo_txn_def txn_new_def)
qed

text \<open>The example root after another transaction committed a tuple under the same key.\<close>

definition demo_newer :: "demo_state snapshot" where
  "demo_newer = demo_root\<lparr>sn_version := 2,
     sn_relations := rl_replace 1 (snd (insert_indexed ka_ops ka_ops (demo_row 1 6) demo_empty)) (sn_relations demo_root)\<rparr>"

lemma demo_newer_ok:
  "relations_ok demo_trees (sn_relations demo_newer) (\<lambda>i. if i = 1 then {demo_row 1 6} else {})"
  "keeps_relations (sn_relations demo_root) (sn_relations demo_newer)"
proof -
  let ?st = "snd (insert_indexed ka_ops ka_ops (demo_row 1 6) demo_empty)"
  have om: "om_ok (rl_entries (sn_relations demo_root))" using demo_relations_ok by (simp add: relations_ok_def)
  note i = insert_indexed_ok [OF ka_laws ka_laws demo_empty_ok, of "demo_row 1 6"]
  have st: "rstate_ok ka_ops ka_ops ?st {demo_row 1 6}" "rs_metadata ?st = rs_metadata demo_empty" using i(2,3) demo_row_ok(3) by simp_all
  have om': "om_ok (rl_entries (sn_relations demo_newer))" using om by (simp add: demo_newer_def rl_replace_def)
  have "keys_ok (rs_metadata ?st) {demo_row 1 6}" unfolding st(2) by (simp add: keys_ok_def functional_on_def)
  then show "relations_ok demo_trees (sn_relations demo_newer) (\<lambda>i. if i = 1 then {demo_row 1 6} else {})"
    using st(1) om' by (simp add: relations_ok_def demo_newer_def rl_get_replace [OF om]) (simp add: demo_trees_def)
  show "keeps_relations (sn_relations demo_root) (sn_relations demo_newer)"
    using keeps_replace(1) [OF om demo_known st(2)] by (simp add: demo_newer_def)
qed

section \<open>Scans\<close>

text \<open>
  C18. A scan of a relation returns exactly the tuples that match the bindings, each once, whichever
  access path it takes, and in tuple order unless it follows an index whose bound prefix is partial.
  Bindings of the wrong length are refused.
\<close>

theorem relation_scan:
  assumes "radix_laws R" "radix_laws Q" "rstate_ok R Q st A"
  shows "(length bindings \<noteq> state_arity st \<longrightarrow>
      state_scan R Q st bindings = Some (Inl (kernel_error.ArityMismatch (rm_id (rs_metadata st)) (state_arity st) (length bindings)))) \<and>
    (bindings_ok (state_arity st) bindings \<longrightarrow>
      (\<exists>rows. state_scan R Q st bindings = kok rows \<and> set rows = {t \<in> A. matches_bindings t bindings} \<and> distinct rows \<and>
        (in_tuple_order st bindings \<longrightarrow> ascending rows)))"
proof (intro conjI impI)
  show "state_scan R Q st bindings = Some (Inl (kernel_error.ArityMismatch (rm_id (rs_metadata st)) (state_arity st) (length bindings)))"
    if "length bindings \<noteq> state_arity st" using that by (rule state_scan_arity)
  assume b: "bindings_ok (state_arity st) bindings"
  obtain rows where "state_scan R Q st bindings = kok rows" "set rows = matching A bindings" "distinct rows"
    "in_tuple_order st bindings \<Longrightarrow> ascending rows" by (rule state_scan_ok [OF assms b]) (rule that)
  then show "\<exists>rows. state_scan R Q st bindings = kok rows \<and> set rows = {t \<in> A. matches_bindings t bindings} \<and> distinct rows \<and>
        (in_tuple_order st bindings \<longrightarrow> ascending rows)" unfolding matching_def by blast
qed

theorem relation_scan_witness:
  "\<exists>rows. state_scan ka_ops ka_ops (snd (insert_indexed ka_ops ka_ops (demo_row 1 5) demo_empty)) [None, Some (VInt 5)] = kok rows \<and>
     set rows = {demo_row 1 5}"
proof -
  let ?st = "snd (insert_indexed ka_ops ka_ops (demo_row 1 5) demo_empty)"
  note i = insert_indexed_ok [OF ka_laws ka_laws demo_empty_ok, of "demo_row 1 5"]
  have ok: "rstate_ok ka_ops ka_ops ?st {demo_row 1 5}" using i(2) demo_row_ok(2) by simp
  have b: "bindings_ok (state_arity ?st) [None, Some (VInt 5)]"
    using i(3) demo_row_ok(2) by (simp add: bindings_ok_def INT_MIN_def INT_MAX_def)
  have m: "{t \<in> {demo_row 1 5}. matches_bindings t [None, Some (VInt 5)]} = {demo_row 1 5}"
    by (auto simp: matches_bindings_def demo_row_def less_Suc_eq)
  show ?thesis using relation_scan [OF ka_laws ka_laws ok, of "[None, Some (VInt 5)]"] b unfolding m by blast
qed

section \<open>Application of writes\<close>

text \<open>
  C17. Applying the writes of a transaction to the current state of a relation, whether through the
  bulk path of an empty relation or change by change, leaves storage, indexes, counters and column
  domains describing one set: the current tuples without those retracted from the base, and with
  those asserted. The changes reported as applied turn the old set into the new one, and are exactly
  the assertions of tuples that were not there and the retractions of tuples that were.
\<close>

theorem apply_writes_state:
  assumes "radix_laws R" "radix_laws Q" "radix_laws E" "rstate_ok R Q st C" "rstate_ok R Q base B" "state_arity base = state_arity st"
    and "overlay_ok E X (state_arity st) ov W"
  shows "\<exists>applied st'. overlay_apply R Q E ov base st = (applied, st') \<and> rs_metadata st' = rs_metadata st \<and>
    rstate_ok R Q st' (applied_to B W C) \<and> changed (\<lambda>_. True) applied C = applied_to B W C \<and>
    set applied = (\<lambda>t. (t, Assert)) ` (applied_to B W C - C) \<union> (\<lambda>t. (t, Retract)) ` (C - applied_to B W C) \<and> cardinality st' = card (applied_to B W C) \<and>
    (\<forall>i < state_arity st. value_domains st' ! i =
       (if \<forall>t \<in> applied_to B W C. is_immediate (t ! i) then Immediate
        else if \<forall>t \<in> applied_to B W C. \<not> is_immediate (t ! i) then Heap else Mixed))"
proof -
  obtain applied st' where a: "overlay_apply R Q E ov base st = (applied, st')" by (cases "overlay_apply R Q E ov base st")
  note o = overlay_apply_ok [OF assms a]
  have "cardinality st' = card (applied_to B W C)" using store_len_ok(1) [OF rstate_okD(3) [OF o(1)]] by (simp add: cardinality_def)
  then show ?thesis using a o(1-3) o(4) [unfolded difference_of_def] value_domains_ok [OF o(1)] by auto
qed

theorem apply_writes_state_witness:
  "\<exists>applied st'. overlay_apply ka_ops ka_ops ka_ops (overlay_insert ka_ops ka_ops (demo_row 1 5) Assert overlay_default) demo_empty demo_empty = (applied, st') \<and>
     rstate_ok ka_ops ka_ops st' {demo_row 1 5}"
proof -
  let ?ov = "overlay_insert ka_ops ka_ops (demo_row 1 5) Assert overlay_default"
  have ov: "overlay_ok ka_ops ka_ops (state_arity demo_empty) ?ov (Map.empty(demo_row 1 5 \<mapsto> Assert))"
    using overlay_insert_ok [OF ka_laws ka_laws overlay_default_ok, of "demo_row 1 5" 2 Assert] demo_row_ok(2) by simp
  have e: "applied_to {} (Map.empty(demo_row 1 5 \<mapsto> Assert)) {} = {demo_row 1 5}" by (auto simp: applied_to_def)
  show ?thesis using apply_writes_state [OF ka_laws ka_laws ka_laws demo_empty_ok demo_empty_ok refl ov] unfolding e by blast
qed

text \<open>
  A lookup by key finds a tuple with the projected key of the given tuple exactly when the
  relation holds one, whether through the tuple store, an index or a scan; the lookup by projected
  values agrees with it.
\<close>

theorem key_lookup:
  assumes "radix_laws R" "radix_laws Q" "rstate_ok R Q st A" "\<forall>p \<in> set ps. p < state_arity st" "t \<in> rows_of (state_arity st)"
  shows "\<exists>r. tuple_for_key R Q st ps t = Some r \<and> tuple_for_projected_values R Q st ps (select t ps) = Some r \<and>
    (case r of None \<Rightarrow> \<forall>u \<in> A. select u ps \<noteq> select t ps | Some u \<Rightarrow> u \<in> A \<and> select u ps = select t ps)"
proof -
  obtain r where "tuple_for_key R Q st ps t = Some r" "tuple_for_projected_values R Q st ps (select t ps) = Some r" "finds A ps (select t ps) r"
    by (rule state_key_lookup [OF assms])
  then show ?thesis by (intro exI [of _ r]) (auto simp: finds_def sharing_def split: option.splits)
qed

theorem key_lookup_witness:
  "tuple_for_key ka_ops ka_ops (snd (insert_indexed ka_ops ka_ops (demo_row 1 5) demo_empty)) [0] (demo_row 1 6) = Some (Some (demo_row 1 5))"
proof -
  let ?st = "snd (insert_indexed ka_ops ka_ops (demo_row 1 5) demo_empty)"
  note i = insert_indexed_ok [OF ka_laws ka_laws demo_empty_ok, of "demo_row 1 5"]
  have ok: "rstate_ok ka_ops ka_ops ?st {demo_row 1 5}" "state_arity ?st = 2" using i(2,3) demo_row_ok(2) by simp_all
  have sel: "select (demo_row 1 5) [0] = select (demo_row 1 6) [0]" by (simp add: select_def demo_row_def)
  obtain r where r: "tuple_for_key ka_ops ka_ops ?st [0] (demo_row 1 6) = Some r"
    "case r of None \<Rightarrow> \<forall>u \<in> {demo_row 1 5}. select u [0] \<noteq> select (demo_row 1 6) [0] | Some u \<Rightarrow> u \<in> {demo_row 1 5} \<and> select u [0] = select (demo_row 1 6) [0]"
    using key_lookup [OF ka_laws ka_laws ok(1), of "[0]" "demo_row 1 6"] ok(2) demo_row_ok(3) by auto
  then show ?thesis using sel by (cases r) auto
qed

section \<open>Local writes\<close>

text \<open>
  C33. Reading the local changes of a transaction is the same with and without its scan indexes: a
  visit sees every change that matches the bindings, in tuple order, with the last kind written for
  the tuple, and the cached indexes it leaves behind stay in step with the changes.
\<close>

theorem overlay_visit:
  assumes "radix_laws E" "radix_laws X" "overlay_ok E X n ov W" "\<forall>ps \<in> set (rm_indexes md). \<forall>p \<in> set ps. p < n" "bindings_ok n bindings"
  shows "\<exists>es ov'. visit_matches E X md bindings ov = Some (es, ov') \<and> overlay_ok E X n ov' W \<and>
    filter (\<lambda>e. matches_bindings (fst e) bindings) es = filter (\<lambda>e. matches_bindings (fst e) bindings) (overlay_entries E ov) \<and>
    ascending (map fst (overlay_entries E ov)) \<and> map_of (overlay_entries E ov) = W"
proof -
  obtain es ov' where v: "visit_matches E X md bindings ov = Some (es, ov')"
    "filter (entry_matches bindings) es = filter (entry_matches bindings) (overlay_entries E ov)" "overlay_ok E X n ov' W"
    by (rule visit_matches_ok [OF assms]) (rule that)
  then show ?thesis using overlay_entries_ok [OF assms(1,3)] unfolding entries_ok_def entry_matches_def [abs_def] by blast
qed

theorem overlay_visit_witness:
  "\<exists>es ov'. visit_matches ka_ops ka_ops demo_metadata [None, Some (VInt 5)]
       (overlay_insert ka_ops ka_ops (demo_row 1 5) Assert (overlay_default :: (overlay_entry tree, overlay_entry list tree) overlay)) = Some (es, ov')"
proof -
  let ?ov = "overlay_insert ka_ops ka_ops (demo_row 1 5) Assert (overlay_default :: (overlay_entry tree, overlay_entry list tree) overlay)"
  have ov: "overlay_ok ka_ops ka_ops 2 ?ov (Map.empty(demo_row 1 5 \<mapsto> Assert))"
    using overlay_insert_ok [OF ka_laws ka_laws overlay_default_ok, of "demo_row 1 5" 2 Assert] demo_row_ok(2) by simp
  have b: "bindings_ok 2 [None, Some (VInt 5)]" by (simp add: bindings_ok_def INT_MIN_def INT_MAX_def)
  have i: "\<forall>ps \<in> set (rm_indexes demo_metadata). \<forall>p \<in> set ps. p < 2" by (simp add: demo_metadata_def)
  show ?thesis using overlay_visit [OF ka_laws ka_laws ov i b] by blast
qed



text \<open>
  C34. Replacing a tuple of a functional relation succeeds and leaves the transaction seeing the new
  tuple and everything it saw under other keys.
\<close>

theorem functional_replacement:
  assumes "trees_ok L" "txn_ok L tx D W" "snapshot_relation (tx_base tx) i = Inr st" "\<not> computed (rs_metadata st)"
    and "rm_conflict_policy (rs_metadata st) = Functional ps" "t \<in> rows_of (state_arity st)" "\<forall>v \<in> set t. is_persistable v"
    and "\<forall>u \<in> view (D i) (W i). \<forall>v \<in> set u. is_persistable v"
  shows "\<exists>tx' W'. replace_functional L computed i t tx = Some (Inr (), tx') \<and> txn_ok L tx' D W' \<and>
    view (D i) (W' i) = insert t {u \<in> view (D i) (W i). select u ps \<noteq> select t ps} \<and> (\<forall>j. j \<noteq> i \<longrightarrow> W' j = W j)"
proof -
  obtain tx' W' where "replace_functional L computed i t tx = Some (Inr (), tx')" "tx_base tx' = tx_base tx" "txn_ok L tx' D W'"
    "view (D i) (W' i) = insert t {u \<in> view (D i) (W i). select u ps \<noteq> select t ps}" "\<And>j. j \<noteq> i \<Longrightarrow> W' j = W j"
    by (rule replace_functional_ok [where computed = computed, OF assms]) (rule that)
  then show ?thesis by blast
qed

theorem functional_replacement_witness:
  "\<exists>tx' W'. replace_functional demo_trees (\<lambda>_. False) 1 (demo_row 1 6) demo_txn = Some (Inr (), tx') \<and>
     txn_ok demo_trees tx' (\<lambda>_. {}) W' \<and> view {} (W' 1) = {demo_row 1 6}"
proof -
  have p: "\<forall>v \<in> set (demo_row 1 6). is_persistable v" by (simp add: demo_row_def)
  have v: "view {} Map.empty = {}" by (simp add: view_def)
  show ?thesis
    using functional_replacement [OF demo_trees_ok demo_txn_ok demo_relation _ demo_arity(2), of "\<lambda>_. False" "demo_row 1 6"] demo_row_ok(3) p
    by (simp add: v) blast
qed

section \<open>Reads\<close>

text \<open>
  C4. An extensional read of a transaction returns, in tuple order and without duplicates, exactly
  the matching tuples of its base snapshot with its own writes applied, as long as the base scan
  itself runs in tuple order.
\<close>

theorem transaction_read:
  assumes "trees_ok L" "txn_ok L tx D W" "snapshot_relation (tx_base tx) i = Inr st" "\<not> computed (rs_metadata st)"
    and "bindings_ok (state_arity st) bindings" "in_tuple_order st bindings"
  shows "\<exists>rows tx'. scan_extensional_rows L computed computed_scan i bindings tx = kok (rows, tx') \<and> ascending rows \<and>
    set rows = {t \<in> view (D i) (W i). matches_bindings t bindings} \<and> txn_ok L tx' D W"
proof -
  obtain rows tx' where "scan_extensional_rows L computed computed_scan i bindings tx = kok (rows, tx')"
    "ascending rows" "set rows = matching (view (D i) (W i)) bindings" "tx_base tx' = tx_base tx" "txn_ok L tx' D W"
    by (rule scan_extensional_ok [where computed = computed, OF assms]) (rule that)
  then show ?thesis unfolding matching_def by blast
qed

theorem transaction_read_witness:
  "\<exists>rows tx'. scan_extensional_rows demo_trees (\<lambda>_. False) (\<lambda>_ _ _. None) 1 [Some (VInt 1), None]
     (write_change demo_trees 1 (demo_row 1 5) Retract demo_txn) = kok (rows, tx') \<and> set rows = {}"
proof -
  let ?tx = "write_change demo_trees 1 (demo_row 1 5) Retract demo_txn"
  have a: "record_functional_change demo_trees 1 (demo_row 1 5) Retract demo_empty ?tx = Some ?tx"
    by (simp add: record_functional_change_def write_change_def demo_txn_def txn_new_def)
  have row: "demo_row 1 5 \<in> rows_of (state_arity demo_empty)" using demo_row_ok(2) by simp
  obtain tx' where "record_functional_change demo_trees 1 (demo_row 1 5) Retract demo_empty ?tx = Some tx'"
    "txn_ok demo_trees tx' (\<lambda>_. {}) ((\<lambda>_. Map.empty)(1 := Map.empty(demo_row 1 5 \<mapsto> Retract)))"
    by (rule record_functional_ok [OF demo_trees_ok demo_txn_ok demo_relation row, of Retract]) simp_all
  then have ok: "txn_ok demo_trees ?tx (\<lambda>_. {}) ((\<lambda>_. Map.empty)(1 := Map.empty(demo_row 1 5 \<mapsto> Retract)))" using a by simp
  have rel: "snapshot_relation (tx_base ?tx) 1 = Inr demo_empty" using demo_relation by (simp add: write_change_def)
  have b: "bindings_ok (state_arity demo_empty) [Some (VInt 1), None]" by (simp add: bindings_ok_def INT_MIN_def INT_MAX_def)
  have o: "in_tuple_order demo_empty [Some (VInt 1), None]"
    by (simp add: in_tuple_order_def best_access_def demo_empty_def bound_counts_def index_empty_def max_by_key_def natural_leading_bound_count_def)
  have v: "view {} (Map.empty(demo_row 1 5 \<mapsto> Retract)) = {}" by (auto simp: view_def)
  show ?thesis
    using transaction_read [where computed = "\<lambda>_. False" and computed_scan = "\<lambda>_ _ _. None", OF demo_trees_ok ok rel _ b o] by (simp add: v) blast
qed

section \<open>Commits\<close>

text \<open>
  C5. Conflict detection never panics and passes exactly when, for every relation written, the
  policy of the relation allows the writes on the newer snapshot: under the set policy no tuple that
  the transaction asserted and its base held has been retracted since, and under the functional
  policy the tuple of every key it wrote under is the same in both snapshots.
\<close>

theorem conflict_detection:
  assumes "trees_ok L" "txn_ok L tx B W" "relations_ok L (sn_relations root) C" "keeps_relations (sn_relations (tx_base tx)) (sn_relations root)"
    and "set order = {i. tx_writes tx i \<noteq> None}"
  shows "\<exists>r. validate_conflicts L root tx order = Some r \<and>
    (r = Inr () \<longleftrightarrow> (\<forall>i \<in> set order. \<forall>st. rl_get (sn_relations (tx_base tx)) i = Some st \<longrightarrow>
       (case rm_conflict_policy (rs_metadata st) of
          SetPolicy \<Rightarrow> \<forall>t. W i t = Some Assert \<and> t \<in> B i \<longrightarrow> t \<in> C i
        | Functional ps \<Rightarrow> \<forall>t. W i t \<noteq> None \<longrightarrow> at_key (B i) ps (select t ps) = at_key (C i) ps (select t ps)
        | EventAppend \<Rightarrow> True)))"
proof -
  obtain r where "validate_conflicts L root tx order = Some r"
    "r = Inr () \<longleftrightarrow> (\<forall>i \<in> set order. \<forall>st. rl_get (sn_relations (tx_base tx)) i = Some st \<longrightarrow> conflict_free (rs_metadata st) (B i) (C i) (W i))"
    by (rule validate_conflicts_ok [OF assms(1-4), of order]) (use assms(5) in auto)
  then show ?thesis unfolding conflict_free_def by blast
qed

theorem conflict_detection_witness:
  "\<exists>tx e. apply_local_change demo_trees (\<lambda>_. False) 1 (demo_row 1 5) Assert demo_txn = Some (Inr (), tx) \<and>
     validate_conflicts demo_trees demo_root tx [1] = Some (Inr ()) \<and> validate_conflicts demo_trees demo_newer tx [1] = Some (Inl e)"
proof -
  obtain tx where tx: "apply_local_change demo_trees (\<lambda>_. False) 1 (demo_row 1 5) Assert demo_txn = Some (Inr (), tx)"
    "txn_ok demo_trees tx (\<lambda>_. {}) ((\<lambda>_. Map.empty)(1 := Map.empty(demo_row 1 5 \<mapsto> Assert)))" "tx_base tx = demo_root"
    "{i. tx_writes tx i \<noteq> None} = {1}"
    by (rule demo_written)
  have order: "set [1] = {i. tx_writes tx i \<noteq> None}" using tx(4) by simp
  have keep: "keeps_relations (sn_relations (tx_base tx)) (sn_relations demo_root)" "keeps_relations (sn_relations (tx_base tx)) (sn_relations demo_newer)"
    unfolding tx(3) by (rule keeps_refl, rule demo_newer_ok(2))
  have key: "at_key {demo_row 1 6} [0] (select (demo_row 1 5) [0]) = Some (demo_row 1 6)" "at_key {} [0] k = None" for k
  proof -
    have "functional_on [0] {demo_row 1 6}" by (simp add: functional_on_def)
    from at_key_Some [OF this] show "at_key {demo_row 1 6} [0] (select (demo_row 1 5) [0]) = Some (demo_row 1 6)"
      by (simp add: demo_row_def select_def)
    have "functional_on [0] ({} :: tuple set)" by (simp add: functional_on_def)
    from at_key_Some [OF this] show "at_key {} [0] k = None" by (cases "at_key {} [0] k") auto
  qed
  have pass: "validate_conflicts demo_trees demo_root tx [1] = Some (Inr ())"
    using conflict_detection [OF demo_trees_ok tx(2) demo_relations_ok keep(1) order] by (auto simp: tx(3))
  have "\<exists>r. validate_conflicts demo_trees demo_newer tx [1] = Some r \<and> r \<noteq> Inr ()"
    using conflict_detection [OF demo_trees_ok tx(2) demo_newer_ok(1) keep(2) order] key by (auto simp: tx(3))
  then obtain e where "validate_conflicts demo_trees demo_newer tx [1] = Some (Inl e)" by (metis old.unit.exhaust sum.exhaust_sel)
  with tx(1) pass show ?thesis by blast
qed

text \<open>
  C1. A commit that fails leaves the published snapshot as it was. A commit that succeeds publishes
  the next version, in which every relation holds the current tuples without those the transaction
  retracted from its base and with those it asserted; the commit record lists changes that turn the
  old contents into the new, and the writes did not conflict with what was committed in between.
\<close>

theorem commit_publishes:
  assumes "trees_ok L" "txn_ok L tx B W" "relations_ok L (sn_relations (kn_root kn)) C" "keeps_relations (sn_relations (tx_base tx)) (sn_relations (kn_root kn))"
    and "distinct order" "set order = {i. tx_writes tx i \<noteq> None}" "sn_version (tx_base tx) = sn_version (kn_root kn) \<longrightarrow> tx_base tx = (kn_root kn)"
    and "commit_inner sz L persist tx order h kn = Some (r, kn')"
  shows "case r of
      Inl e \<Rightarrow> (kn_root kn') = (kn_root kn)
    | Inr cm \<Rightarrow> sn_version (kn_root kn') = sn_version (kn_root kn) + 1 \<and> cm_version cm = sn_version (kn_root kn') \<and>
        relations_ok L (sn_relations (kn_root kn')) (\<lambda>i. applied_to (B i) (W i) (C i)) \<and>
        apply_facts (cm_changes cm) C = (\<lambda>i. applied_to (B i) (W i) (C i)) \<and>
        (\<forall>i st. rl_get (sn_relations (tx_base tx)) i = Some st \<longrightarrow> conflict_free (rs_metadata st) (B i) (C i) (W i) \<or> C i = B i)"
proof (cases r)
  case (Inl e)
  then show ?thesis using commit_inner_ok(1) [OF assms] by (simp only: sum.case)
next
  case (Inr cm)
  from commit_inner_ok(2,3) [OF assms Inr] show ?thesis unfolding committed_def Inr sum.case by blast
qed

lemma commit_changes:
  assumes "commit_inner sz L persist tx order h kn = Some (Inr cm, kn')"
  shows "\<exists>d. apply_writes L tx (sort order) (sn_relations (kn_root kn)) = Inr (cm_changes cm, d)"
proof -
  obtain newer h' where "build_next_snapshot L tx order (kn_root kn) h = Some (Inr (newer, cm, h'))"
    using commit_inner_attempt [OF assms] commit_attempt_cases by (metis Inl_Inr_False sum.inject(2))
  then show ?thesis by (auto simp: build_next_snapshot_def kbind_def kok_def split: option.splits sum.splits prod.splits)
qed

text \<open>A transaction without buffer writes commits on an unchanged root when the provider accepts.\<close>

lemma commit_runs:
  assumes "trees_ok L" "txn_ok L tx B W" "relations_ok L (sn_relations (tx_base tx)) C" "distinct order" "set order = {i. tx_writes tx i \<noteq> None}"
    and "tx_buffer_writes tx = []" and accepts: "\<And>log cm. fst (persist log cm) = Inr ()"
    and kn: "kn_root kn = tx_base tx"
  shows "\<exists>cm kn'. commit_inner sz L persist tx order h kn = Some (Inr cm, kn')"
proof -
  have held: "rows_held L (sn_relations (tx_base tx)) C" using assms(3) by (simp add: relations_ok_alt)
  have w: "\<forall>i \<in> set (sort order). tx_writes tx i \<noteq> None" "distinct (sort order)" using assms(4,5) by auto
  obtain chs c' where c': "apply_writes L tx (sort order) (sn_relations (tx_base tx)) = Inr (chs, c')"
    using apply_writes_ok [OF assms(1,2) held keeps_refl w(2,1)] by blast
  let ?newer = "\<lparr>sn_version = sn_version (tx_base tx) + 1, sn_buffers = sn_buffers (tx_base tx), sn_relations = c'\<rparr>"
  let ?cm = "\<lparr>cm_version = sn_version (tx_base tx) + 1, cm_buffer_changes = [], cm_catalog_changes = [], cm_changes = chs\<rparr>"
  have b: "build_next_snapshot L tx order (tx_base tx) h = Some (Inr (?newer, ?cm, h))"
    using c' assms(6) by (simp add: build_next_snapshot_def materialize_buffers_def txn.truncate_def kbind_def kok_def)
  have "\<forall>ch \<in> set chs. rl_get (sn_relations (tx_base tx)) (fc_relation ch) \<noteq> None"
    using apply_writes_facts [OF assms(1,2) c'] by (auto simp: fact_ok_def)
  note d = durable_changes_ok [OF this]
  obtain r log' where p: "persist_commit persist (tx_base tx) ?cm (kn_log kn) = (r, log')" by (cases "persist_commit persist (tx_base tx) ?cm (kn_log kn)")
  have "r = Inr ()"
    using p d accepts by (auto simp: persist_commit_def persistent_commit_def split: if_splits prod.splits) (metis fst_conv map_sum.simps(2) id_apply)+
  then have "commit_attempt L persist tx order h kn = Some (Inr ?cm, kn\<lparr>kn_root := ?newer, kn_log := log'\<rparr>)"
    using b p assms(6) kn by (simp add: commit_attempt_def kbind_def kok_def try_publish_def try_publish_with_buffer_history_def)
  moreover have "settle_applies sz (Inr ?cm) a b (txn.truncate tx) c = Some c" for a b c
    using assms(6) by (simp add: settle_applies_def complete_buffer_applies_def has_tagged_buffer_apply_def drop_transaction_def txn.truncate_def)
  ultimately show ?thesis by (simp add: commit_inner_def)
qed

theorem commit_publishes_witness:
  "\<exists>(tx :: demo_txn) cm kn'. commit_inner (\<lambda>_. 0) demo_trees (\<lambda>log cm. (Inr (), cm # log)) tx [1] 0 demo_kernel = Some (Inr cm, kn') \<and>
     sn_version (kn_root kn') = 2 \<and> relations_ok demo_trees (sn_relations (kn_root kn')) (\<lambda>i. if i = 1 then {demo_row 1 5} else {})"
proof -
  obtain tx where tx: "txn_ok demo_trees tx (\<lambda>_. {}) ((\<lambda>_. Map.empty)(1 := Map.empty(demo_row 1 5 \<mapsto> Assert)))" "tx_base tx = demo_root"
    "tx_buffer_writes tx = []" "{i. tx_writes tx i \<noteq> None} = {1}" by (rule demo_written)
  have rel: "relations_ok demo_trees (sn_relations (tx_base tx)) (\<lambda>_. {})" using demo_relations_ok tx(2) by simp
  have order: "set [1] = {i. tx_writes tx i \<noteq> None}" "distinct [1 :: nat]" using tx(4) by auto
  let ?p = "\<lambda>(log :: commit list) cm. (Inr () :: string + unit, cm # log)"
  obtain cm kn' where run: "commit_inner (\<lambda>_. 0) demo_trees ?p tx [1] 0 demo_kernel = Some (Inr cm, kn')"
    using commit_runs [where persist = ?p and kn = demo_kernel and sz = "\<lambda>_. 0" and h = 0, OF demo_trees_ok tx(1) rel order(2,1) tx(3)] tx(2) by auto
  have keeps: "keeps_relations (sn_relations (tx_base tx)) (sn_relations (kn_root demo_kernel))" using tx(2) keeps_refl by simp
  have v: "sn_version (tx_base tx) = sn_version (kn_root demo_kernel) \<longrightarrow> tx_base tx = kn_root demo_kernel" using tx(2) by simp
  have D: "(\<lambda>i. applied_to {} (((\<lambda>_. Map.empty)(1 := Map.empty(demo_row 1 5 \<mapsto> Assert))) i) {}) = (\<lambda>i. if i = 1 then {demo_row 1 5} else {})"
    by (auto simp: applied_to_def fun_eq_iff)
  have n: "sn_version (kn_root kn') = 2" "relations_ok demo_trees (sn_relations (kn_root kn')) (\<lambda>i. if i = 1 then {demo_row 1 5} else {})"
    using commit_publishes [OF demo_trees_ok tx(1) demo_kernel_relations keeps order(2,1) v run] unfolding D by (simp_all add: demo_root_def)
  then show ?thesis using run by blast
qed



text \<open>
  C15. Recovery: the changes a commit hands to the provider, replayed on a catalogue that holds the
  durable relations as they were before the commit, give them the contents the commit published.
\<close>

theorem commit_replay:
  assumes "trees_ok L" "txn_ok L tx B W" "relations_ok L (sn_relations (kn_root kn)) C" "keeps_relations (sn_relations (tx_base tx)) (sn_relations (kn_root kn))"
    and "distinct order" "set order = {i. tx_writes tx i \<noteq> None}" "sn_version (tx_base tx) = sn_version (kn_root kn) \<longrightarrow> tx_base tx = (kn_root kn)"
    and run: "commit_inner sz L persist tx order h kn = Some (Inr cm, kn')"
    and c: "rows_held L c D" "keeps_relations (sn_relations (kn_root kn)) c" "keeps_relations c (sn_relations (kn_root kn))"
    and same: "\<forall>i. durable_in (sn_relations (kn_root kn)) i \<longrightarrow> D i = C i"
  shows "\<exists>pc c' D'. persistent_commit (kn_root kn) cm = Inr pc \<and>
    replay_facts L (case pc of None \<Rightarrow> [] | Some pc \<Rightarrow> cm_changes pc) c = Inr c' \<and> rows_held L c' D' \<and>
    (\<forall>i. durable_in (sn_relations (kn_root kn)) i \<longrightarrow> D' i = applied_to (B i) (W i) (C i))"
proof -
  note after = commit_inner_ok(2) [OF assms(1-8) refl]
  obtain d where d: "apply_writes L tx (sort order) (sn_relations (kn_root kn)) = Inr (cm_changes cm, d)"
    using commit_changes [OF run] by blast
  have facts: "\<forall>ch \<in> set (cm_changes cm). fact_ok c ch"
  proof
    fix ch assume "ch \<in> set (cm_changes cm)"
    then have "fact_ok (sn_relations (tx_base tx)) ch" using apply_writes_facts [OF assms(1,2) d] by blast
    then show "fact_ok c ch" using keeps_trans [OF assms(4) c(2)] unfolding fact_ok_def keeps_relations_def by metis
  qed
  have known: "\<forall>ch \<in> set (cm_changes cm). rl_get (sn_relations (kn_root kn)) (fc_relation ch) \<noteq> None"
    using facts c(3) unfolding fact_ok_def keeps_relations_def by (metis option.distinct(1))
  let ?chs = "filter (\<lambda>ch. durable_in (sn_relations (kn_root kn)) (fc_relation ch)) (cm_changes cm)"
  note dur = durable_changes_ok [OF known]
  have same_dur: "durable_in c = durable_in (sn_relations (kn_root kn))" using durable_in_cong [OF c(3,2)] by auto
  have sub: "\<forall>ch \<in> set ?chs. fact_ok c ch" using facts by simp
  obtain c' where c': "replay_facts L ?chs c = Inr c'"
    "rows_held L c' (apply_facts (filter (\<lambda>ch. durable_in c (fc_relation ch)) ?chs) D)"
    using replay_facts_ok [OF assms(1) c(1) sub] by blast
  have "filter (\<lambda>ch. durable_in c (fc_relation ch)) ?chs = ?chs" unfolding same_dur by simp
  then have held: "rows_held L c' (apply_facts ?chs D)" using c'(2) by simp
  have eq: "apply_facts ?chs D i = applied_to (B i) (W i) (C i)" if "durable_in (sn_relations (kn_root kn)) i" for i
    using apply_facts_filter [of "durable_in (sn_relations (kn_root kn))" i D C "cm_changes cm"] that same after by (simp add: committed_def)
  define pc where "pc = (if cm_catalog_changes cm = [] \<and> ?chs = [] \<and> cm_buffer_changes cm = [] then None
      else Some (cm\<lparr>cm_changes := ?chs, cm_buffer_changes := map persistent_buffer_change (cm_buffer_changes cm)\<rparr>))"
  have pc: "persistent_commit (kn_root kn) cm = Inr pc" "(case pc of None \<Rightarrow> [] | Some pc \<Rightarrow> cm_changes pc) = ?chs"
    using dur by (simp_all add: persistent_commit_def pc_def)
  show ?thesis using pc(1) c'(1) held eq unfolding pc(2) [symmetric] by blast
qed

theorem commit_replay_witness:
  "\<exists>(tx :: demo_txn) cm kn' pc c' D'. commit_inner (\<lambda>_. 0) demo_trees (\<lambda>(log :: commit list) cm. (Inr (), cm # log)) tx [1] 0 demo_kernel = Some (Inr cm, kn') \<and>
     persistent_commit demo_root cm = Inr pc \<and>
     replay_facts demo_trees (case pc of None \<Rightarrow> [] | Some pc \<Rightarrow> cm_changes pc) (sn_relations demo_root) = Inr c' \<and>
     rows_held demo_trees c' D' \<and> D' 1 = {demo_row 1 5}"
proof -
  obtain tx where tx: "txn_ok demo_trees tx (\<lambda>_. {}) ((\<lambda>_. Map.empty)(1 := Map.empty(demo_row 1 5 \<mapsto> Assert)))" "tx_base tx = demo_root"
    "tx_buffer_writes tx = []" "{i. tx_writes tx i \<noteq> None} = {1}" by (rule demo_written)
  have rel: "relations_ok demo_trees (sn_relations (tx_base tx)) (\<lambda>_. {})" using demo_relations_ok tx(2) by simp
  have order: "set [1] = {i. tx_writes tx i \<noteq> None}" "distinct [1 :: nat]" using tx(4) by auto
  let ?p = "\<lambda>(log :: commit list) cm. (Inr () :: string + unit, cm # log)"
  obtain cm kn' where run: "commit_inner (\<lambda>_. 0) demo_trees ?p tx [1] 0 demo_kernel = Some (Inr cm, kn')"
    using commit_runs [where persist = ?p and kn = demo_kernel and sz = "\<lambda>_. 0" and h = 0, OF demo_trees_ok tx(1) rel order(2,1) tx(3)] tx(2) by auto
  have keeps: "keeps_relations (sn_relations (tx_base tx)) (sn_relations (kn_root demo_kernel))" using tx(2) keeps_refl by simp
  have v: "sn_version (tx_base tx) = sn_version (kn_root demo_kernel) \<longrightarrow> tx_base tx = kn_root demo_kernel" using tx(2) by simp
  have held: "rows_held demo_trees (sn_relations (kn_root demo_kernel)) (\<lambda>_. {})" using demo_kernel_relations by (simp add: relations_ok_alt)
  have dur: "durable_in (sn_relations demo_root) 1" by (simp add: durable_in_def demo_empty_def demo_metadata_def)
  have D: "applied_to {} (((\<lambda>_. Map.empty)(1 := Map.empty(demo_row 1 5 \<mapsto> Assert))) 1) {} = {demo_row 1 5}" by (auto simp: applied_to_def)
  show ?thesis
    using commit_replay [OF demo_trees_ok tx(1) demo_kernel_relations keeps order(2,1) v run held keeps_refl keeps_refl] run dur D
    unfolding demo_kernel_root by blast
qed

section \<open>A read that misses a retraction\<close>

text \<open>
  The merge of local writes into a base scan needs the scan in tuple order. With a secondary index on
  columns 0, 2, 1 and only column 0 bound, the access path is the index and its order is not tuple
  order: a transaction that has retracted a tuple still reads it.
\<close>

definition edge :: "int \<Rightarrow> int \<Rightarrow> int \<Rightarrow> tuple" where
  "edge a b c = [VInt a, VInt b, VInt c]"

definition edge_metadata :: relation_metadata where
  "edge_metadata = \<lparr>rm_id = 1, rm_name = 7, rm_arity = 3, rm_argument_names = [None, None, None], rm_indexes = [[0, 1, 2], [0, 2, 1]],
     rm_conflict_policy = SetPolicy, rm_durability = Durable\<rparr>"

definition edge_root :: "demo_state \<Rightarrow> demo_state snapshot" where
  "edge_root st = \<lparr>sn_version = 1, sn_buffers = bf_default, sn_relations = rl_insert 1 st rl_new\<rparr>"

definition edge_bindings :: "val option list" where
  "edge_bindings = [Some (VInt 1), None, None]"

lemma edge_rows: "edge 1 1 2 \<in> rows_of 3" "edge 1 2 1 \<in> rows_of 3" "edge 1 1 2 \<noteq> edge 1 2 1"
  "row_less (edge 1 1 2) (edge 1 2 1)" "\<not> row_less (edge 1 2 1) (edge 1 1 2)"
  "index_less [0, 2, 1] (edge 1 2 1) (edge 1 1 2)" "\<not> index_less [0, 2, 1] (edge 1 1 2) (edge 1 2 1)"
  "\<not> index_less [0, 2, 1] (edge 1 1 2) (edge 1 1 2)" "\<not> index_less [0, 2, 1] (edge 1 2 1) (edge 1 2 1)"
  by (simp_all add: edge_def rows_of_def row_ok_def INT_MIN_def INT_MAX_def index_less_def select_def cmp_lin_def)

lemma two_sorted:
  assumes "sorted_wrt L xs" "set xs = {b, a}" "a \<noteq> b" "\<not> L a b" "\<not> L a a" "\<not> L b b"
  shows "xs = [b, a]"
proof (cases xs)
  case (Cons x ys)
  then obtain y zs where ys: "ys = y # zs" using assms(2,3) by (cases ys) auto
  have xy: "x \<in> {b, a}" "y \<in> {b, a}" "set zs \<subseteq> {b, a}" "L x y" "\<forall>z \<in> set zs. L y z"
    using assms(1,2) Cons ys by auto
  then have "x = b" "y = a" using assms(4-6) by auto
  moreover then have "zs = []" using xy(3,5) assms(4,5) by (cases zs) auto
  ultimately show ?thesis using Cons ys by simp
qed (use assms in simp)

lemma edge_state:
  obtains st where "rstate_ok ka_ops ka_ops st {edge 1 1 2, edge 1 2 1}" "rs_metadata st = edge_metadata"
proof -
  have "\<exists>st. state_empty ka_ops edge_metadata = Inr (st :: demo_state)"
    by (simp add: state_empty_def validate_metadata_def edge_metadata_def)
  then obtain st0 where st0: "state_empty ka_ops edge_metadata = Inr (st0 :: demo_state)" by blast
  have d: "\<forall>ps \<in> set (rm_indexes edge_metadata). length ps = rm_arity edge_metadata \<longrightarrow> distinct ps" by (simp add: edge_metadata_def)
  have e: "rstate_ok ka_ops ka_ops st0 {}" "rs_metadata st0 = edge_metadata"
    by (rule state_empty_ok(1) [OF ka_laws st0 d], rule state_empty_ok(2) [OF ka_laws st0 d])
  have ar: "state_arity st0 = 3" using e(2) by (simp add: edge_metadata_def)
  note i1 = insert_indexed_ok(2,3) [OF ka_laws ka_laws e(1), of "edge 1 2 1"]
  let ?st1 = "snd (insert_indexed ka_ops ka_ops (edge 1 2 1) st0)"
  have s1: "rstate_ok ka_ops ka_ops ?st1 {edge 1 2 1}" "rs_metadata ?st1 = edge_metadata" using i1 edge_rows(2) ar e(2) by simp_all
  note i2 = insert_indexed_ok(2,3) [OF ka_laws ka_laws s1(1), of "edge 1 1 2"]
  have "state_arity ?st1 = 3" using s1(2) by (simp add: edge_metadata_def)
  then show thesis using i2 edge_rows(1) s1(2) that by simp
qed

lemma edge_scan:
  assumes "rstate_ok ka_ops ka_ops st {edge 1 1 2, edge 1 2 1}" "rs_metadata st = edge_metadata"
  shows "state_scan ka_ops ka_ops st edge_bindings = kok [edge 1 2 1, edge 1 1 2]"
proof -
  have n: "state_arity st = 3" using assms(2) by (simp add: edge_metadata_def)
  have "map ix_positions (rs_indexes st) = [[0, 2, 1]]"
    using assms unfolding rstate_ok_def by (simp add: edge_metadata_def upt_rec)
  then obtain ix where ix: "rs_indexes st = [ix]" "ix_positions ix = [0, 2, 1]" by auto
  have ok: "index_ok ka_ops 3 ix {edge 1 1 2, edge 1 2 1}" using rstate_okD(4) [OF assms(1)] ix(1) n by simp
  have len: "length edge_bindings = 3" and val: "\<forall>v. Some v \<in> set edge_bindings \<longrightarrow> valid v"
    by (simp_all add: edge_bindings_def INT_MIN_def INT_MAX_def)
  have bp: "bound_prefix (ix_positions ix) edge_bindings 1" using ix(2) by (simp add: bound_prefix_def edge_bindings_def)
  let ?rows = "index_visit_prefix ka_ops ix edge_bindings 1"
  note v = index_visit_ok(1,2) [OF ka_laws ok len bp val]
  have m: "{t \<in> {edge 1 1 2, edge 1 2 1}. matches_bindings t edge_bindings} = {edge 1 1 2, edge 1 2 1}"
    by (auto simp: matches_bindings_def edge_bindings_def edge_def less_Suc_eq numeral_3_eq_3)
  have "set ?rows = {edge 1 2 1, edge 1 1 2}" using v(1) unfolding m by auto
  moreover have "sorted_wrt (index_less [0, 2, 1]) ?rows" using v(2) ix(2) by simp
  ultimately have rows: "?rows = [edge 1 2 1, edge 1 1 2]" using two_sorted edge_rows(3,7,8,9) by metis
  have "best_access st edge_bindings = Some (Some (IndexAccess ix 1))"
    by (simp add: best_access_def bound_counts_def ix edge_bindings_def max_by_key_def natural_leading_bound_count_def)
  then show ?thesis using rows n len
    by (simp add: state_scan_def validate_bindings_def kbind_def full_tuple_binding_values_def lift_panic_def access_rows_def kok_def)
       (simp add: edge_bindings_def)
qed

definition edge_overlay :: "(overlay_entry tree, overlay_entry list tree) overlay" where
  "edge_overlay = overlay_insert ka_ops ka_ops (edge 1 1 2) Retract overlay_default"

lemma edge_visit: "\<exists>es ov. visit_matches ka_ops ka_ops edge_metadata edge_bindings edge_overlay = Some (es, ov) \<and>
  local_rows edge_bindings Assert es = [] \<and> local_rows edge_bindings Retract es = [edge 1 1 2]"
proof -
  have ov: "overlay_ok ka_ops ka_ops 3 edge_overlay (Map.empty(edge 1 1 2 \<mapsto> Retract))"
    unfolding edge_overlay_def using overlay_insert_ok [OF ka_laws ka_laws overlay_default_ok edge_rows(1), of Retract] by simp
  have es: "overlay_entries ka_ops edge_overlay = [(edge 1 1 2, Retract)]"
    by (simp add: edge_overlay_def overlay_insert_def overlay_default_def overlay_entries_def Let_def put_entry_def binary_search_def
        insert_at_def LOCAL_RADIX_OVERLAY_THRESHOLD_def)
  have b: "bindings_ok 3 edge_bindings" by (simp add: bindings_ok_def edge_bindings_def INT_MIN_def INT_MAX_def)
  have i: "\<forall>ps \<in> set (rm_indexes edge_metadata). \<forall>p \<in> set ps. p < 3" by (simp add: edge_metadata_def)
  obtain es' ov' where v: "visit_matches ka_ops ka_ops edge_metadata edge_bindings edge_overlay = Some (es', ov')"
    "filter (entry_matches edge_bindings) es' = filter (entry_matches edge_bindings) (overlay_entries ka_ops edge_overlay)"
    by (rule visit_matches_ok [OF ka_laws ka_laws ov i b]) (rule that)
  have "entry_matches edge_bindings (edge 1 1 2, Retract)"
    by (auto simp: entry_matches_def matches_bindings_def edge_bindings_def edge_def less_Suc_eq numeral_3_eq_3)
  then have "filter (entry_matches edge_bindings) es' = [(edge 1 1 2, Retract)]" using v(2) es by simp
  moreover have "local_rows edge_bindings c es' = map fst (filter (\<lambda>e. snd e = c) (filter (entry_matches edge_bindings) es'))" for c
    by (simp add: local_rows_def entry_matches_def conj_commute)
  ultimately show ?thesis using v(1) by simp
qed

theorem retraction_missed:
  "\<exists>(st :: demo_state) rows tx tx'. rstate_ok ka_ops ka_ops st {edge 1 1 2, edge 1 2 1} \<and>
    txn_retract demo_trees (\<lambda>_. False) 1 (edge 1 1 2) (txn_new (edge_root st)) = Some (Inr (), tx) \<and>
    scan_extensional_rows demo_trees (\<lambda>_. False) (\<lambda>_ _ _. None) 1 edge_bindings tx = kok (rows, tx') \<and> edge 1 1 2 \<in> set rows"
proof -
  obtain st :: demo_state where st: "rstate_ok ka_ops ka_ops st {edge 1 1 2, edge 1 2 1}" "rs_metadata st = edge_metadata"
    by (rule edge_state)
  have get: "rl_get (sn_relations (edge_root st)) 1 = Some st"
    by (simp add: edge_root_def rl_insert_def rl_new_def rl_contains_key_def rl_get_def Let_def)
  let ?tx = "write_change demo_trees 1 (edge 1 1 2) Retract (txn_new (edge_root st))"
  have ok: "validate_tuple st (edge 1 1 2) = Inr ()" using st(2) by (simp add: validate_tuple_def edge_metadata_def edge_def)
  have w: "txn_retract demo_trees (\<lambda>_. False) 1 (edge 1 1 2) (txn_new (edge_root st)) = Some (Inr (), ?tx)"
    using get ok st(2)
    by (simp add: txn_retract_def apply_local_change_def require_writable_relation_def snapshot_relation_def txn_new_def
        record_functional_change_def write_change_def)
  have ov: "tx_writes ?tx 1 = Some edge_overlay" "tx_base ?tx = edge_root st"
    by (simp_all add: write_change_def txn_new_def edge_overlay_def demo_trees_def)
  obtain es ov' where v: "visit_matches ka_ops ka_ops edge_metadata edge_bindings edge_overlay = Some (es, ov')"
    "local_rows edge_bindings Assert es = []" "local_rows edge_bindings Retract es = [edge 1 1 2]"
    using edge_visit by blast
  have "merge_local [edge 1 2 1, edge 1 1 2] [] [edge 1 1 2] = [edge 1 2 1, edge 1 1 2]"
    using edge_rows(3,4) by (simp add: merge_local_def)
  then have "scan_extensional_rows demo_trees (\<lambda>_. False) (\<lambda>_ _ _. None) 1 edge_bindings ?tx =
      kok ([edge 1 2 1, edge 1 1 2], ?tx\<lparr>tx_writes := (tx_writes ?tx)(1 \<mapsto> ov')\<rparr>)"
    using get edge_scan [OF st] ov v st(2)
    by (simp add: scan_extensional_rows_def snapshot_relation_def kbind_def kok_def demo_trees_def lift_panic_def)
  then show ?thesis using st w by (metis list.set_intros(1,2))
qed

end
