(* ===== verification/LanguageCmp.thy ===== *)
theory LanguageCmp
  imports Complex_Main Values
begin

text \<open>
  The comparison of values in the language (module language_cmp of value.rs): integers and floats
  compare by numeric value, everything else in the canonical order. A finite binary32 float is given
  by its bits; its value is a rational number, and truncation and fractional part are exact.
\<close>

definition f32_magnitude :: "nat \<Rightarrow> rat" where
  "f32_magnitude n =
     (if n < 2 ^ 23 then of_nat n / 2 ^ 149
      else of_nat (2 ^ 23 + n mod 2 ^ 23) * 2 ^ (n div 2 ^ 23) / 2 ^ 150)"

definition f32_value :: "nat \<Rightarrow> rat" where
  "f32_value bits = (if bits < 2 ^ 31 then f32_magnitude bits else - f32_magnitude (bits - 2 ^ 31))"

definition f32_trunc :: "nat \<Rightarrow> int" where
  "f32_trunc bits = (if f32_value bits \<ge> 0 then \<lfloor>f32_value bits\<rfloor> else \<lceil>f32_value bits\<rceil>)"

definition f32_fract :: "nat \<Rightarrow> rat" where
  "f32_fract bits = f32_value bits - of_int (f32_trunc bits)"

definition INT_LOWER :: nat where "INT_LOWER = 0xdb000000"
definition INT_UPPER_EXCLUSIVE :: nat where "INT_UPPER_EXCLUSIVE = 0x5b000000"

definition compare_int_float :: "int \<Rightarrow> nat \<Rightarrow> ordering" where
  "compare_int_float i b =
     (if f32_value b < f32_value INT_LOWER then OGreater
      else if f32_value b \<ge> f32_value INT_UPPER_EXCLUSIVE then OLess
      else case cmp_lin i (f32_trunc b) of
        OEqual \<Rightarrow> if f32_fract b > 0 then OLess else if f32_fract b < 0 then OGreater else OEqual
      | non_equal \<Rightarrow> non_equal)"

fun reverse_ordering :: "ordering \<Rightarrow> ordering" where
  "reverse_ordering OLess = OGreater"
| "reverse_ordering OEqual = OEqual"
| "reverse_ordering OGreater = OLess"

definition numeric_cmp :: "val \<Rightarrow> val \<Rightarrow> ordering" where
  "numeric_cmp l r =
     (case (l, r) of
        (VInt a, VInt b) \<Rightarrow> cmp_lin a b
      | (VFloat a, VFloat b) \<Rightarrow> cmp_lin (total_key a) (total_key b)
      | (VInt a, VFloat b) \<Rightarrow> compare_int_float a b
      | (VFloat a, VInt b) \<Rightarrow> reverse_ordering (compare_int_float b a)
      | _ \<Rightarrow> val_cmp l r)"

definition numeric_eq :: "val \<Rightarrow> val \<Rightarrow> bool" where
  "numeric_eq l r =
     (case (l, r) of
        (VInt a, VInt b) \<Rightarrow> a = b
      | (VFloat a, VFloat b) \<Rightarrow> a = b
      | (VInt a, VFloat b) \<Rightarrow> compare_int_float a b = OEqual
      | (VFloat a, VInt b) \<Rightarrow> compare_int_float b a = OEqual
      | _ \<Rightarrow> l = r)"

section \<open>The comparison is exact\<close>

lemma magnitude_step: "f32_magnitude n < f32_magnitude (Suc n)"
proof (cases "Suc n < 2 ^ 23")
  case True
  then show ?thesis by (simp add: f32_magnitude_def divide_strict_right_mono)
next
  case False
  show ?thesis
  proof (cases "Suc n = 2 ^ 23")
    case True
    then have "n = 2 ^ 23 - 1" by simp
    then show ?thesis by (simp add: f32_magnitude_def)
  next
    case False
    then have n: "\<not> n < 2 ^ 23" using \<open>\<not> Suc n < 2 ^ 23\<close> by simp
    show ?thesis
    proof (cases "Suc (n mod 2 ^ 23) = 2 ^ 23")
      case True
      then have s: "Suc n mod 2 ^ 23 = 0" "Suc n div 2 ^ 23 = Suc (n div 2 ^ 23)" by (simp_all add: mod_Suc div_Suc)
      have "n mod 2 ^ 23 = 2 ^ 23 - 1" using True by simp
      then show ?thesis using n \<open>\<not> Suc n < 2 ^ 23\<close> unfolding f32_magnitude_def s by (simp add: divide_strict_right_mono)
    next
      case False
      then have s: "Suc n mod 2 ^ 23 = Suc (n mod 2 ^ 23)" "Suc n div 2 ^ 23 = n div 2 ^ 23" by (simp_all add: mod_Suc div_Suc)
      show ?thesis using n \<open>\<not> Suc n < 2 ^ 23\<close> unfolding f32_magnitude_def s by (simp add: divide_strict_right_mono)
    qed
  qed
qed

lemma magnitude_mono: "m < n \<Longrightarrow> f32_magnitude m < f32_magnitude n"
  by (rule lift_Suc_mono_less [where f = f32_magnitude, OF magnitude_step])

lemma magnitude_less_iff: "f32_magnitude m < f32_magnitude n \<longleftrightarrow> m < n"
  by (metis linorder_neqE_nat magnitude_mono not_less_iff_gr_or_eq)

lemma magnitude_eq_iff: "f32_magnitude m = f32_magnitude n \<longleftrightarrow> m = n"
  by (metis linorder_neqE_nat magnitude_mono less_irrefl)

lemma magnitude_zero: "f32_magnitude 0 = 0"
  by (simp add: f32_magnitude_def)

lemma magnitude_nonneg: "f32_magnitude n \<ge> 0"
  using magnitude_less_iff [of n 0] by (simp add: magnitude_zero)

text \<open>The bounds are the powers of two that enclose the integers.\<close>

lemma int_bounds: "f32_value INT_LOWER = - (2 ^ 55)" "f32_value INT_UPPER_EXCLUSIVE = 2 ^ 55"
  by (simp_all add: f32_value_def INT_LOWER_def INT_UPPER_EXCLUSIVE_def f32_magnitude_def)

text \<open>Every float but the negative zero, which no value holds, is ordered by its value.\<close>

lemma total_key_value:
  assumes "a \<noteq> 2147483648" "b \<noteq> 2147483648"
  shows "total_key a < total_key b \<longleftrightarrow> f32_value a < f32_value b" "f32_value a = f32_value b \<longleftrightarrow> a = b"
proof -
  have pos: "f32_magnitude (n - 2 ^ 31) > 0" if "n \<noteq> 2147483648" "\<not> n < 2 ^ 31" for n
    using magnitude_less_iff [of 0 "n - 2 ^ 31"] that by (simp add: magnitude_zero)
  show "total_key a < total_key b \<longleftrightarrow> f32_value a < f32_value b"
    using assms pos [of a] pos [of b] magnitude_nonneg [of a] magnitude_nonneg [of b]
    by (auto simp: total_key_def f32_value_def magnitude_less_iff)
  show "f32_value a = f32_value b \<longleftrightarrow> a = b"
    using assms pos [of a] pos [of b] magnitude_nonneg [of a] magnitude_nonneg [of b]
    by (auto simp: f32_value_def magnitude_eq_iff)
qed

lemma compare_int_float_exact:
  assumes "INT_MIN \<le> i" "i \<le> INT_MAX"
  shows "compare_int_float i b = cmp_lin (rat_of_int i) (f32_value b)"
proof -
  have i: "- (2 ^ 55) \<le> rat_of_int i" "rat_of_int i < 2 ^ 55"
    using assms of_int_le_iff [of "- (2 ^ 55)" i, where 'a = rat] of_int_less_iff [of i "2 ^ 55", where 'a = rat]
    by (simp_all add: INT_MIN_def INT_MAX_def)
  show ?thesis
  proof (cases "f32_value b < - (2 ^ 55) \<or> f32_value b \<ge> 2 ^ 55")
    case True
    then show ?thesis using i by (auto simp: compare_int_float_def int_bounds cmp_lin_def)
  next
    case False
    have t: "f32_fract b = f32_value b - of_int (f32_trunc b)" by (simp add: f32_fract_def)
    have near: "of_int (f32_trunc b) - 1 < f32_value b" "f32_value b < of_int (f32_trunc b) + 1"
      using floor_correct [of "f32_value b"] ceiling_correct [of "f32_value b"] of_int_floor_le [of "f32_value b"]
        le_of_int_ceiling [of "f32_value b"] by (auto simp: f32_trunc_def simp del: of_int_floor_le le_of_int_ceiling)
    consider "i < f32_trunc b" | "i = f32_trunc b" | "i > f32_trunc b" by linarith
    then show ?thesis
    proof cases
      case 1
      then have "rat_of_int i \<le> of_int (f32_trunc b) - 1" by (metis of_int_1 of_int_diff of_int_le_iff zle_diff1_eq)
      then show ?thesis using near(1) False 1 by (simp add: compare_int_float_def int_bounds cmp_lin_def)
    next
      case 2
      then show ?thesis using t False by (simp add: compare_int_float_def int_bounds cmp_lin_def)
    next
      case 3
      then have "rat_of_int i \<ge> of_int (f32_trunc b) + 1" by (metis of_int_1 of_int_add of_int_le_iff zless_imp_add1_zle)
      then show ?thesis using near(2) False 3 by (simp add: compare_int_float_def int_bounds cmp_lin_def)
    qed
  qed
qed

text \<open>The number a numeric value stands for.\<close>

fun number :: "val \<Rightarrow> rat option" where
  "number (VInt i) = Some (of_int i)"
| "number (VFloat b) = Some (f32_value b)"
| "number _ = None"

lemma reverse_cmp: "reverse_ordering (cmp_lin a b) = cmp_lin b a"
  by (auto simp: cmp_lin_def)

lemma cmp_lin_eq: "cmp_lin a b = OEqual \<longleftrightarrow> a = b"
  by (auto simp: cmp_lin_def)

lemma number_cases:
  assumes "number v = Some x"
  obtains (Int) i where "v = VInt i" "x = of_int i" | (Float) b where "v = VFloat b" "x = f32_value b"
  using assms by (cases v) auto

lemma numeric_exact:
  assumes "valid l" "valid r" "number l = Some x" "number r = Some y"
  shows "numeric_cmp l r = cmp_lin x y" "numeric_eq l r \<longleftrightarrow> x = y"
proof -
  have eqs: "total_key a = total_key b \<longleftrightarrow> a = b" if "a \<noteq> 2147483648" "b \<noteq> 2147483648" for a b
    using total_key_value [OF that] total_key_value(1) [OF that(2,1)] by (metis less_irrefl linorder_neqE)
  show "numeric_cmp l r = cmp_lin x y"
    using assms(1,2) compare_int_float_exact total_key_value eqs
    by (rule_tac number_cases [OF assms(3)]; rule_tac number_cases [OF assms(4)]) (auto simp: numeric_cmp_def cmp_lin_def)
  show "numeric_eq l r \<longleftrightarrow> x = y"
    using assms(1,2) compare_int_float_exact total_key_value(2)
    by (rule_tac number_cases [OF assms(3)]; rule_tac number_cases [OF assms(4)]) (auto simp: numeric_eq_def cmp_lin_eq)
qed

text \<open>Values that are not both numbers compare as they are stored.\<close>

lemma numeric_other:
  assumes "number l = None \<or> number r = None"
  shows "numeric_cmp l r = val_cmp l r" "numeric_eq l r \<longleftrightarrow> l = r"
  using assms by (cases l; cases r; simp add: numeric_cmp_def numeric_eq_def)+

end
