(* ===== verification/RuleData.thy ===== *)
theory RuleData
  imports TupleRows KernelData
begin

text \<open>
  Rules, their compilation to slots and their stratification (the first half of rules.rs). A rule
  derives tuples of its head relation from a body of positive and negated atoms and guards. Compiling
  a rule numbers its variables; a rule set is divided into strata so that negation looks only at
  lower strata, and a stratum into components, the sets of mutually recursive relations, in an order
  in which dependencies come first.
\<close>

section \<open>Rules\<close>

datatype rterm = RVar symbol | RValue val

record atom =
  at_relation :: identity
  at_terms :: "rterm list"
  at_negated :: bool

definition atom_positive :: "identity \<Rightarrow> rterm list \<Rightarrow> atom" where
  "atom_positive r ts = \<lparr>at_relation = r, at_terms = ts, at_negated = False\<rparr>"

definition atom_negated :: "identity \<Rightarrow> rterm list \<Rightarrow> atom" where
  "atom_negated r ts = \<lparr>at_relation = r, at_terms = ts, at_negated = True\<rparr>"

datatype comparison_op = CmpEq | CmpNe | CmpLt | CmpLe | CmpGt | CmpGe

record rule_guard =
  gd_op :: comparison_op
  gd_left :: rterm
  gd_right :: rterm

datatype rule_body_item = ItemAtom atom | ItemGuard rule_guard

record rule =
  ru_head_relation :: identity
  ru_head_terms :: "rterm list"
  ru_body :: "rule_body_item list"

definition rule_new :: "identity \<Rightarrow> rterm list \<Rightarrow> rule_body_item list \<Rightarrow> rule" where
  "rule_new r ts body = \<lparr>ru_head_relation = r, ru_head_terms = ts, ru_body = body\<rparr>"

definition body_atoms :: "rule \<Rightarrow> atom list" where
  "body_atoms r = List.map_filter (\<lambda>item. case item of ItemAtom a \<Rightarrow> Some a | ItemGuard _ \<Rightarrow> None) (ru_body r)"

section \<open>Strata\<close>

text \<open>
  The relations the rules derive, in order of identity. The strata are a map with exactly these keys,
  here a function of which only the values at these relations are used.
\<close>

definition derived_relations :: "rule list \<Rightarrow> identity list" where
  "derived_relations rules = sorted_list_of_set (set (map ru_head_relation rules))"

definition head_stratum :: "identity list \<Rightarrow> (identity \<Rightarrow> nat) \<Rightarrow> rule \<Rightarrow> nat" where
  "head_stratum heads strata r =
     fold (\<lambda>a h.
         if at_relation a \<notin> set heads then h
         else let required = strata (at_relation a) + (if at_negated a then 1 else 0) in if h < required then required else h)
       (body_atoms r) (strata (ru_head_relation r))"

fun strata_pass :: "identity list \<Rightarrow> rule list \<Rightarrow> (identity \<Rightarrow> nat) \<Rightarrow> bool \<times> (identity \<Rightarrow> nat)" where
  "strata_pass heads [] strata = (False, strata)"
| "strata_pass heads (r # rs) strata =
     (let h = head_stratum heads strata r in
      if strata (ru_head_relation r) \<noteq> h
      then (True, snd (strata_pass heads rs (strata(ru_head_relation r := h))))
      else strata_pass heads rs strata)"

fun strata_loop :: "nat \<Rightarrow> identity list \<Rightarrow> rule list \<Rightarrow> (identity \<Rightarrow> nat) \<Rightarrow> rule_error + (identity \<Rightarrow> nat)" where
  "strata_loop 0 heads rules strata = Inl UnstratifiedNegation"
| "strata_loop (Suc n) heads rules strata =
     (let (changed, strata') = strata_pass heads rules strata in
      if \<not> changed then Inr strata' else strata_loop n heads rules strata')"

definition relation_strata :: "rule list \<Rightarrow> rule_error + (identity \<Rightarrow> nat)" where
  "relation_strata rules =
     (let heads = derived_relations rules in strata_loop (length heads + 1) heads rules (\<lambda>_. 0))"

definition stratified_rules :: "rule list \<Rightarrow> rule_error + rule list list" where
  "stratified_rules rules =
     map_sum id (\<lambda>strata.
         map (\<lambda>k. filter (\<lambda>r. strata (ru_head_relation r) = k) rules)
           (sorted_list_of_set (set (map (\<lambda>r. strata (ru_head_relation r)) rules))))
       (relation_strata rules)"

definition validate_stratified :: "rule list \<Rightarrow> rule_error + unit" where
  "validate_stratified rules = map_sum id (\<lambda>_. ()) (stratified_rules rules)"

section \<open>Compiled rules\<close>

datatype cterm = CVar symbol nat | CValue val

record catom =
  ca_relation :: identity
  ca_terms :: "cterm list"
  ca_negated :: bool

record cguard =
  cg_op :: comparison_op
  cg_left :: cterm
  cg_right :: cterm

datatype citem = CAtom catom | CGuard cguard

text \<open>The plan of a rule with two atoms that the packed join may evaluate: an equality join of two full scans.\<close>

record batch_plan =
  bp_left :: "identity \<times> val option list"
  bp_right :: "identity \<times> val option list"
  bp_left_positions :: "nat list"
  bp_right_positions :: "nat list"

record crule =
  cr_head_relation :: identity
  cr_head_terms :: "cterm list"
  cr_body :: "citem list"
  cr_slot_count :: nat
  cr_head_slots :: "nat set"
  cr_body_slots :: "nat set list"
  cr_batch_plan :: "batch_plan option"

text \<open>The variables seen so far, in the order of their slots.\<close>

fun slot_of :: "symbol \<Rightarrow> symbol list \<Rightarrow> nat option" where
  "slot_of s [] = None"
| "slot_of s (v # vs) = (if s = v then Some 0 else map_option Suc (slot_of s vs))"

fun compile_term :: "rterm \<Rightarrow> symbol list \<Rightarrow> cterm \<times> symbol list" where
  "compile_term (RValue v) vs = (CValue v, vs)"
| "compile_term (RVar s) vs =
     (case slot_of s vs of Some i \<Rightarrow> (CVar s i, vs) | None \<Rightarrow> (CVar s (length vs), vs @ [s]))"

fun compile_terms :: "rterm list \<Rightarrow> symbol list \<Rightarrow> cterm list \<times> symbol list" where
  "compile_terms [] vs = ([], vs)"
| "compile_terms (t # ts) vs =
     (let (c, vs') = compile_term t vs; (cs, vs'') = compile_terms ts vs' in (c # cs, vs''))"

fun compile_item :: "rule_body_item \<Rightarrow> symbol list \<Rightarrow> citem \<times> symbol list" where
  "compile_item (ItemAtom a) vs =
     (let (ts, vs') = compile_terms (at_terms a) vs in
      (CAtom \<lparr>ca_relation = at_relation a, ca_terms = ts, ca_negated = at_negated a\<rparr>, vs'))"
| "compile_item (ItemGuard g) vs =
     (let (l, vs') = compile_term (gd_left g) vs; (r, vs'') = compile_term (gd_right g) vs' in
      (CGuard \<lparr>cg_op = gd_op g, cg_left = l, cg_right = r\<rparr>, vs''))"

fun compile_items :: "rule_body_item list \<Rightarrow> symbol list \<Rightarrow> citem list \<times> symbol list" where
  "compile_items [] vs = ([], vs)"
| "compile_items (i # is) vs =
     (let (c, vs') = compile_item i vs; (cs, vs'') = compile_items is vs' in (c # cs, vs''))"

fun compiled_term_slot :: "cterm \<Rightarrow> nat option" where
  "compiled_term_slot (CVar _ i) = Some i"
| "compiled_term_slot (CValue _) = None"

definition term_slots :: "cterm list \<Rightarrow> nat set" where
  "term_slots ts = set (List.map_filter compiled_term_slot ts)"

fun compiled_body_slots :: "citem \<Rightarrow> nat set" where
  "compiled_body_slots (CAtom a) = term_slots (ca_terms a)"
| "compiled_body_slots (CGuard g) = term_slots [cg_left g, cg_right g]"

definition atoms_have_unique_variables :: "catom \<Rightarrow> catom \<Rightarrow> bool" where
  "atoms_have_unique_variables l r \<longleftrightarrow>
     card (term_slots (ca_terms l)) = length (ca_terms l) \<and> card (term_slots (ca_terms r)) = length (ca_terms r)"

text \<open>The pairs of positions that hold the same variable, in the order of the two nested loops.\<close>

definition shared_positions :: "cterm list \<Rightarrow> cterm list \<Rightarrow> (nat \<times> nat) list" where
  "shared_positions ls rs =
     [(i, j). i \<leftarrow> [0..<length ls], j \<leftarrow> [0..<length rs],
        compiled_term_slot (ls ! i) \<noteq> None \<and> compiled_term_slot (ls ! i) = compiled_term_slot (rs ! j)]"

definition compile_two_atom_batch_plan :: "citem list \<Rightarrow> batch_plan option" where
  "compile_two_atom_batch_plan body =
     (case body of
        [CAtom l, CAtom r] \<Rightarrow>
          if ca_negated l \<or> ca_negated r \<or> \<not> atoms_have_unique_variables l r then None
          else if \<exists>t \<in> set (ca_terms l). compiled_term_slot t = None then None
          else
            (let pairs = shared_positions (ca_terms l) (ca_terms r) in
             if length pairs \<noteq> 1 \<and> length pairs \<noteq> 2 then None
             else Some \<lparr>bp_left = (ca_relation l, replicate (length (ca_terms l)) None),
                        bp_right = (ca_relation r, replicate (length (ca_terms r)) None),
                        bp_left_positions = map fst pairs, bp_right_positions = map snd pairs\<rparr>)
      | _ \<Rightarrow> None)"

definition compile_rule :: "rule \<Rightarrow> crule" where
  "compile_rule r =
     (let (head, vs) = compile_terms (ru_head_terms r) [];
          (body, vs') = compile_items (ru_body r) vs in
      \<lparr>cr_head_relation = ru_head_relation r, cr_head_terms = head, cr_body = body, cr_slot_count = length vs',
       cr_head_slots = term_slots head, cr_body_slots = map compiled_body_slots body,
       cr_batch_plan = compile_two_atom_batch_plan body\<rparr>)"

section \<open>Components\<close>

definition positive_dependencies :: "rule list \<Rightarrow> identity list \<Rightarrow> identity \<Rightarrow> identity list" where
  "positive_dependencies rules targets r =
     sorted_list_of_set (set [at_relation a. q \<leftarrow> rules, ru_head_relation q = r, a \<leftarrow> body_atoms q,
       \<not> at_negated a \<and> at_relation a \<in> set targets])"

text \<open>
  A search that visits a new element leaves fewer to visit. The search from a relation, with the stack of relations to visit, its top first. \<open>None\<close>: a relation
  with no entry in the dependency map.
\<close>

lemma card_unvisited: "r \<in> set ts \<Longrightarrow> r \<notin> A \<Longrightarrow> card (set ts - insert r A) < card (set ts - A)"
  by (rule psubset_card_mono) auto

function reach_loop ::
  "identity list \<Rightarrow> (identity \<Rightarrow> identity list) \<Rightarrow> identity list \<Rightarrow> identity list \<Rightarrow> identity list option" where
  "reach_loop targets deps [] reachable = Some reachable"
| "reach_loop targets deps (r # pending) reachable =
     (if r \<in> set reachable then reach_loop targets deps pending reachable
      else if r \<notin> set targets then None
      else reach_loop targets deps (rev (deps r) @ pending) (r # reachable))"
  by pat_completeness auto
termination
  by (relation "measures [\<lambda>(targets, deps, pending, reachable). card (set targets - set reachable), \<lambda>(targets, deps, pending, reachable). length pending]")
     (auto simp del: card_Diff_insert intro!: card_unvisited)

definition reachable_relations :: "identity list \<Rightarrow> (identity \<Rightarrow> identity list) \<Rightarrow> identity \<Rightarrow> identity list option" where
  "reachable_relations targets deps start = reach_loop targets deps [start] []"

text \<open>
  The components, by lowest relation. The fuel is the number of relations, as each round removes one
  at least. \<open>None\<close>: a missing entry of the dependency map.
\<close>

fun split_components ::
  "nat \<Rightarrow> (identity \<Rightarrow> identity list) \<Rightarrow> identity list \<Rightarrow> identity list list option" where
  "split_components n reach [] = Some []"
| "split_components 0 reach (root # remaining) = None"
| "split_components (Suc n) reach (root # remaining) =
     (let c = filter (\<lambda>r. r \<in> set (reach root) \<and> root \<in> set (reach r)) (root # remaining) in
      map_option ((#) c) (split_components n reach (filter (\<lambda>r. r \<notin> set c) (root # remaining))))"

definition strongly_connected_relations ::
  "identity list \<Rightarrow> (identity \<Rightarrow> identity list) \<Rightarrow> identity list list option" where
  "strongly_connected_relations relations deps =
     (let reach = reachable_relations relations deps in
      if \<exists>r \<in> set relations. reach r = None then None
      else split_components (length relations) (\<lambda>r. the (reach r)) relations)"

definition component_of :: "identity list list \<Rightarrow> identity \<Rightarrow> nat" where
  "component_of components r = length (takeWhile (\<lambda>c. r \<notin> set c) components)"

definition component_dependencies ::
  "identity list list \<Rightarrow> (identity \<Rightarrow> identity list) \<Rightarrow> nat \<Rightarrow> nat list" where
  "component_dependencies components deps i =
     sorted_list_of_set (set [component_of components d. r \<leftarrow> components ! i, d \<leftarrow> deps r, component_of components d \<noteq> i])"

text \<open>
  The depth-first visit that puts a component after its dependencies: the components visited and
  their order. The fuel bounds the depth of the recursion, which visits new components only.
\<close>

fun visit_component :: "nat \<Rightarrow> (nat \<Rightarrow> nat list) \<Rightarrow> nat \<Rightarrow> nat set \<times> nat list \<Rightarrow> (nat set \<times> nat list) option"
and visit_components :: "nat \<Rightarrow> (nat \<Rightarrow> nat list) \<Rightarrow> nat list \<Rightarrow> nat set \<times> nat list \<Rightarrow> (nat set \<times> nat list) option" where
  "visit_component 0 deps i s = None"
| "visit_component (Suc n) deps i (visited, order) =
     (if i \<in> visited then Some (visited, order)
      else map_option (\<lambda>(visited', order'). (visited', order' @ [i])) (visit_components n deps (deps i) (insert i visited, order)))"
| "visit_components n deps [] s = Some s"
| "visit_components n deps (i # is) s = Option.bind (visit_component n deps i s) (visit_components n deps is)"

definition order_relation_components ::
  "identity list list \<Rightarrow> (identity \<Rightarrow> identity list) \<Rightarrow> identity list list option" where
  "order_relation_components components deps =
     map_option (\<lambda>(_, order). map (\<lambda>i. components ! i) order)
       (visit_components (length components + 1) (component_dependencies components deps) [0..<length components] ({}, []))"

record rule_variant =
  rv_rule_index :: nat
  rv_delta_body_index :: nat

record compiled_scc =
  cs_target_relations :: "identity list"
  cs_rule_indices :: "nat list"
  cs_seed_rule_indices :: "nat list"
  cs_recursive_variants :: "rule_variant list"

fun recursive_item :: "identity list \<Rightarrow> citem \<Rightarrow> bool" where
  "recursive_item targets (CAtom a) \<longleftrightarrow> \<not> ca_negated a \<and> ca_relation a \<in> set targets"
| "recursive_item targets (CGuard _) \<longleftrightarrow> False"

definition recursive_body_indices :: "identity list \<Rightarrow> crule \<Rightarrow> nat list" where
  "recursive_body_indices targets r = filter (\<lambda>j. recursive_item targets (cr_body r ! j)) [0..<length (cr_body r)]"

definition compile_component :: "crule list \<Rightarrow> identity list \<Rightarrow> compiled_scc" where
  "compile_component rules targets =
     (let indices = filter (\<lambda>k. cr_head_relation (rules ! k) \<in> set targets) [0..<length rules] in
      \<lparr>cs_target_relations = targets, cs_rule_indices = indices,
       cs_seed_rule_indices = filter (\<lambda>k. recursive_body_indices targets (rules ! k) = []) indices,
       cs_recursive_variants =
         concat (map (\<lambda>k. map (\<lambda>j. \<lparr>rv_rule_index = k, rv_delta_body_index = j\<rparr>) (recursive_body_indices targets (rules ! k))) indices)\<rparr>)"

record compiled_stratum =
  st_rules :: "crule list"
  st_components :: "compiled_scc list"

definition compile_stratum :: "rule list \<Rightarrow> compiled_stratum option" where
  "compile_stratum rules =
     (let compiled = map compile_rule rules;
          targets = derived_relations rules;
          deps = positive_dependencies rules targets in
      map_option (\<lambda>ordered. \<lparr>st_rules = compiled, st_components = map (compile_component compiled) ordered\<rparr>)
        (Option.bind (strongly_connected_relations targets deps) (\<lambda>components. order_relation_components components deps)))"

text \<open>\<open>None\<close>: a lookup that has no entry, or fuel that does not suffice; neither happens.\<close>

fun all_some :: "'a option list \<Rightarrow> 'a list option" where
  "all_some [] = Some []"
| "all_some (x # xs) = Option.bind x (\<lambda>y. map_option ((#) y) (all_some xs))"

definition compile_rules :: "rule list \<Rightarrow> (rule_error + compiled_stratum list) option" where
  "compile_rules rules =
     (case stratified_rules rules of
        Inl e \<Rightarrow> Some (Inl e)
      | Inr strata \<Rightarrow> map_option Inr (all_some (map compile_stratum strata)))"

end
