(* ===== verification/RuleEval.thy ===== *)
theory RuleEval
  imports LanguageCmp RuleData
begin

text \<open>
  The evaluation of rules (the second half of rules.rs): readers, the evaluation of a body in the
  order the planner chooses, and the evaluation of components, by one pass where there is no recursion
  and semi-naively where there is. B-tree sets of tuples are their elements in order, B-tree maps are
  ordered maps. The counters of \<open>RuleEvaluationStats\<close> are left out.

  The packed join of batch.rs is a parameter (\<open>pj\<close>): given two readers and a join plan it declines or
  returns the joined rows. Slots index the binding of the rule they were compiled for; they are in
  range by \<open>compile_rule\<close>.
\<close>

section \<open>Readers\<close>

datatype eval_error = EvalRule rule_error | EvalKernel "val kernel_error"

type_synonym binding = "val option list"
type_synonym tuple_map = "(identity, tuple list) omap"

text \<open>
  A view of the relations: the tuples of a scan, the tuples a visitor sees when it does not stop, the
  inputs a computed relation requires, the batched scan of a computed relation, and an estimate.
\<close>

record reader =
  rd_scan :: "identity \<Rightarrow> val option list \<Rightarrow> val kernel_error + tuple list"
  rd_visit :: "identity \<Rightarrow> val option list \<Rightarrow> val kernel_error + tuple list"
  rd_required :: "identity \<Rightarrow> val kernel_error + nat list option"
  rd_batch :: "identity \<Rightarrow> val option list list \<Rightarrow> val kernel_error + (nat \<times> tuple) list option"
  rd_estimate :: "identity \<Rightarrow> val option list \<Rightarrow> val kernel_error + usize option"

definition ebind :: "'e + 'a \<Rightarrow> ('a \<Rightarrow> 'e + 'b) \<Rightarrow> 'e + 'b" where
  "ebind m f = (case m of Inl e \<Rightarrow> Inl e | Inr x \<Rightarrow> f x)"

definition of_kernel :: "val kernel_error + 'a \<Rightarrow> eval_error + 'a" where
  "of_kernel = map_sum EvalKernel id"

definition hide_unknown :: "identity \<Rightarrow> 'a \<Rightarrow> val kernel_error + 'a \<Rightarrow> val kernel_error + 'a" where
  "hide_unknown r d res = (if res = Inl (UnknownRelation r) then Inr d else res)"

definition tm_get :: "tuple_map \<Rightarrow> identity \<Rightarrow> tuple list" where
  "tm_get m r = (case om_get m r of None \<Rightarrow> [] | Some ts \<Rightarrow> ts)"

definition tm_extend :: "identity \<Rightarrow> tuple list \<Rightarrow> tuple_map \<Rightarrow> tuple_map" where
  "tm_extend r ts m = om_insert r (finish_tuple_rows (tm_get m r @ ts)) m"

definition extend_matching :: "tuple list \<Rightarrow> tuple list \<Rightarrow> val option list \<Rightarrow> tuple list" where
  "extend_matching rows ts bs = finish_tuple_rows (rows @ filter (\<lambda>t. matches_bindings t bs) ts)"

definition derived_reader :: "reader \<Rightarrow> tuple_map \<Rightarrow> reader" where
  "derived_reader base dm =
     (let scan = (\<lambda>r bs. map_sum id (\<lambda>rows. extend_matching rows (tm_get dm r) bs) (hide_unknown r [] (rd_scan base r bs))) in
      \<lparr>rd_scan = scan,
       rd_visit = (\<lambda>r bs. if om_contains dm r then scan r bs else hide_unknown r [] (rd_visit base r bs)),
       rd_required = (\<lambda>r. hide_unknown r None (rd_required base r)),
       rd_batch = (\<lambda>r keys. if om_contains dm r then Inr None else rd_batch base r keys),
       rd_estimate = (\<lambda>r bs. map_sum id (map_option (\<lambda>n. n + length (tm_get dm r))) (hide_unknown r (Some 0) (rd_estimate base r bs)))\<rparr>)"

definition scc_reader :: "reader \<Rightarrow> tuple_map \<Rightarrow> tuple_map \<Rightarrow> reader" where
  "scc_reader base completed full =
     (let scan = (\<lambda>r bs. map_sum id (\<lambda>rows. extend_matching (extend_matching rows (tm_get completed r) bs) (tm_get full r) bs)
                     (hide_unknown r [] (rd_scan base r bs))) in
      \<lparr>rd_scan = scan, rd_visit = scan,
       rd_required = (\<lambda>r. hide_unknown r None (rd_required base r)),
       rd_batch = (\<lambda>r keys. if om_contains completed r \<or> om_contains full r then Inr None else rd_batch base r keys),
       rd_estimate = (\<lambda>r bs. map_sum id (map_option (\<lambda>n. saturating_add (saturating_add n (length (tm_get completed r))) (length (tm_get full r))))
                        (hide_unknown r (Some 0) (rd_estimate base r bs)))\<rparr>)"

definition tuple_map_reader :: "tuple_map \<Rightarrow> reader" where
  "tuple_map_reader ts =
     (let scan = (\<lambda>r bs. Inr (filter (\<lambda>t. matches_bindings t bs) (tm_get ts r))) in
      \<lparr>rd_scan = scan, rd_visit = scan, rd_required = (\<lambda>_. Inr None), rd_batch = (\<lambda>_ _. Inr None),
       rd_estimate = (\<lambda>r _. Inr (Some (length (tm_get ts r))))\<rparr>)"

section \<open>Atoms and guards\<close>

fun unify_values :: "cterm list \<Rightarrow> val list \<Rightarrow> binding \<Rightarrow> binding option" where
  "unify_values (CValue v # ts) (x # xs) b = (if v \<noteq> x then None else unify_values ts xs b)"
| "unify_values (CVar s i # ts) (x # xs) b =
     (case b ! i of
        Some y \<Rightarrow> if y \<noteq> x then None else unify_values ts xs b
      | None \<Rightarrow> unify_values ts xs (b[i := Some x]))"
| "unify_values _ _ b = Some b"

definition unify_tuple :: "catom \<Rightarrow> binding \<Rightarrow> tuple \<Rightarrow> binding option" where
  "unify_tuple a b t = unify_values (ca_terms a) t b"

definition unify_packed_row :: "catom \<Rightarrow> binding \<Rightarrow> val list \<Rightarrow> nat \<Rightarrow> binding option" where
  "unify_packed_row a b row offset = unify_values (ca_terms a) (drop offset row) b"

fun term_binding :: "binding \<Rightarrow> cterm \<Rightarrow> val option" where
  "term_binding b (CValue v) = Some v"
| "term_binding b (CVar _ i) = b ! i"

definition scan_bindings :: "catom \<Rightarrow> binding \<Rightarrow> val option list" where
  "scan_bindings a b = map (term_binding b) (ca_terms a)"

definition term_is_bound :: "cterm \<Rightarrow> binding \<Rightarrow> bool" where
  "term_is_bound t b \<longleftrightarrow> term_binding b t \<noteq> None"

definition negated_atom_is_safe :: "catom \<Rightarrow> binding \<Rightarrow> bool" where
  "negated_atom_is_safe a b \<longleftrightarrow> (\<forall>t \<in> set (ca_terms a). term_is_bound t b)"

definition guard_is_safe :: "cguard \<Rightarrow> binding \<Rightarrow> bool" where
  "guard_is_safe g b \<longleftrightarrow> term_is_bound (cg_left g) b \<and> term_is_bound (cg_right g) b"

definition compare_values :: "comparison_op \<Rightarrow> val \<Rightarrow> val \<Rightarrow> bool" where
  "compare_values op l r =
     (case op of
        CmpEq \<Rightarrow> numeric_eq l r
      | CmpNe \<Rightarrow> \<not> numeric_eq l r
      | CmpLt \<Rightarrow> numeric_cmp l r = OLess
      | CmpLe \<Rightarrow> numeric_cmp l r = OLess \<or> numeric_cmp l r = OEqual
      | CmpGt \<Rightarrow> numeric_cmp l r = OGreater
      | CmpGe \<Rightarrow> numeric_cmp l r = OGreater \<or> numeric_cmp l r = OEqual)"

fun visit_bindings :: "reader \<Rightarrow> catom \<Rightarrow> binding list \<Rightarrow> eval_error + binding list" where
  "visit_bindings rd a [] = Inr []"
| "visit_bindings rd a (b # bs) =
     ebind (of_kernel (rd_visit rd (ca_relation a) (scan_bindings a b))) (\<lambda>ts.
     ebind (visit_bindings rd a bs) (\<lambda>rest.
     Inr (List.map_filter (unify_tuple a b) ts @ rest)))"

definition apply_positive_atom :: "reader \<Rightarrow> catom \<Rightarrow> binding list \<Rightarrow> eval_error + binding list" where
  "apply_positive_atom rd a bs =
     (if length bs > 1 then
        ebind (of_kernel (rd_required rd (ca_relation a))) (\<lambda>required.
        if required = None then visit_bindings rd a bs
        else ebind (of_kernel (rd_batch rd (ca_relation a) (map (scan_bindings a) bs))) (\<lambda>batch.
          case batch of
            Some rows \<Rightarrow> Inr (List.map_filter (\<lambda>(k, t). unify_tuple a (bs ! k) t) rows)
          | None \<Rightarrow> visit_bindings rd a bs))
      else visit_bindings rd a bs)"

fun apply_negated_atom :: "reader \<Rightarrow> catom \<Rightarrow> binding list \<Rightarrow> eval_error + binding list" where
  "apply_negated_atom rd a [] = Inr []"
| "apply_negated_atom rd a (b # bs) =
     (if \<not> negated_atom_is_safe a b then Inl (EvalRule (UnsafeNegation (ca_relation a)))
      else
        ebind (of_kernel (rd_visit rd (ca_relation a) (scan_bindings a b))) (\<lambda>ts.
        ebind (apply_negated_atom rd a bs) (\<lambda>rest. Inr (if ts = [] then b # rest else rest))))"

fun guard_value :: "cterm \<Rightarrow> binding \<Rightarrow> eval_error + val" where
  "guard_value (CValue v) b = Inr v"
| "guard_value (CVar s i) b = (case b ! i of Some v \<Rightarrow> Inr v | None \<Rightarrow> Inl (EvalRule (UnboundHeadVariable s)))"

fun apply_guard :: "cguard \<Rightarrow> binding list \<Rightarrow> eval_error + binding list" where
  "apply_guard g [] = Inr []"
| "apply_guard g (b # bs) =
     (if \<not> guard_is_safe g b then Inl (EvalRule UnsafeGuard)
      else
        ebind (guard_value (cg_left g) b) (\<lambda>l.
        ebind (guard_value (cg_right g) b) (\<lambda>r.
        ebind (apply_guard g bs) (\<lambda>rest. Inr (if compare_values (cg_op g) l r then b # rest else rest)))))"

section \<open>The order of evaluation of a body\<close>

definition reader_for_body_item :: "reader \<Rightarrow> (reader \<times> nat) option \<Rightarrow> nat \<Rightarrow> reader" where
  "reader_for_body_item full delta j = (case delta of Some (d, k) \<Rightarrow> if k = j then d else full | None \<Rightarrow> full)"

fun atom_estimate :: "reader \<Rightarrow> catom \<Rightarrow> binding list \<Rightarrow> usize \<Rightarrow> eval_error + usize" where
  "atom_estimate rd a [] acc = Inr acc"
| "atom_estimate rd a (b # bs) acc =
     ebind (of_kernel (rd_estimate rd (ca_relation a) (scan_bindings a b))) (\<lambda>e.
     atom_estimate rd a bs (saturating_add acc (case e of Some n \<Rightarrow> n | None \<Rightarrow> usize_max div 4)))"

definition bound_term_count :: "catom \<Rightarrow> nat set \<Rightarrow> binding \<Rightarrow> nat" where
  "bound_term_count a slots b = length (ca_terms a) - card slots + card (Set.filter (\<lambda>i. b ! i \<noteq> None) slots)"

type_synonym rank = "nat \<times> nat \<times> nat \<times> nat"

fun rank_less :: "rank \<Rightarrow> rank \<Rightarrow> bool" where
  "rank_less (a, b, c, d) (a', b', c', d') \<longleftrightarrow> a < a' \<or> a = a' \<and> (b < b' \<or> b = b' \<and> (c < c' \<or> c = c' \<and> d < d'))"

text \<open>The rank of an item; \<open>Inl\<close> when it cannot be evaluated yet, with the inputs it misses if that is the reason.\<close>

definition missing_positions :: "catom \<Rightarrow> binding list \<Rightarrow> nat list \<Rightarrow> nat list" where
  "missing_positions a bs required =
     filter (\<lambda>p. \<exists>b \<in> set bs. if p < length (ca_terms a) then \<not> term_is_bound (ca_terms a ! p) b else True) required"

definition item_rank ::
  "reader \<Rightarrow> crule \<Rightarrow> binding list \<Rightarrow> nat \<Rightarrow> nat \<Rightarrow> citem \<Rightarrow> eval_error + (val kernel_error option + rank)" where
  "item_rank rd r bs index j item =
     (case item of
        CAtom a \<Rightarrow>
          if ca_negated a \<and> \<not> (\<forall>b \<in> set bs. negated_atom_is_safe a b) then Inr (Inl None)
          else ebind (of_kernel (rd_required rd (ca_relation a))) (\<lambda>required.
            let missing = (case required of None \<Rightarrow> [] | Some ps \<Rightarrow> missing_positions a bs ps) in
            if missing \<noteq> [] then Inr (Inl (Some (MissingRequiredBindings (ca_relation a) missing)))
            else ebind (atom_estimate rd a bs 0) (\<lambda>estimate.
              let bound = (if bs = [] then 0 else Max (set (map (bound_term_count a (cr_body_slots r ! j)) bs))) in
              Inr (Inr (estimate, if ca_negated a then 1 else 0, usize_max - bound, index))))
      | CGuard g \<Rightarrow> Inr (if \<forall>b \<in> set bs. guard_is_safe g b then Inr (0, 0, 0, index) else Inl None))"

fun rank_items ::
  "reader \<Rightarrow> (reader \<times> nat) option \<Rightarrow> crule \<Rightarrow> binding list \<Rightarrow> nat \<Rightarrow> (nat \<times> citem) list \<Rightarrow>
     (nat \<times> rank) option \<Rightarrow> val kernel_error option \<Rightarrow> eval_error + ((nat \<times> rank) option \<times> val kernel_error option)" where
  "rank_items full delta r bs index [] best missing = Inr (best, missing)"
| "rank_items full delta r bs index ((j, item) # items) best missing =
     ebind (item_rank (reader_for_body_item full delta j) r bs index j item) (\<lambda>res.
       case res of
         Inl None \<Rightarrow> rank_items full delta r bs (Suc index) items best missing
       | Inl (Some e) \<Rightarrow> rank_items full delta r bs (Suc index) items best (Some e)
       | Inr rank \<Rightarrow>
           rank_items full delta r bs (Suc index) items
             (case best of Some (k, rank') \<Rightarrow> if rank_less rank rank' then Some (index, rank) else best | None \<Rightarrow> Some (index, rank)) missing)"

definition first_unsafe_error :: "(nat \<times> citem) list \<Rightarrow> eval_error" where
  "first_unsafe_error items =
     (case find (\<lambda>(_, item). case item of CAtom a \<Rightarrow> ca_negated a | CGuard _ \<Rightarrow> False) items of
        Some (_, CAtom a) \<Rightarrow> EvalRule (UnsafeNegation (ca_relation a))
      | _ \<Rightarrow> EvalRule UnsafeGuard)"

definition select_next_item ::
  "reader \<Rightarrow> (reader \<times> nat) option \<Rightarrow> crule \<Rightarrow> binding list \<Rightarrow> (nat \<times> citem) list \<Rightarrow> eval_error + nat" where
  "select_next_item full delta r bs items =
     ebind (rank_items full delta r bs 0 items None None) (\<lambda>(best, missing).
       case best of
         Some (index, _) \<Rightarrow> Inr index
       | None \<Rightarrow> Inl (case missing of Some e \<Rightarrow> EvalKernel e | None \<Rightarrow> first_unsafe_error items))"

lemma rank_items_index:
  assumes "rank_items full delta r bs index items best missing = Inr (Some (k, rank), missing')"
    and "\<And>k' rank'. best = Some (k', rank') \<Longrightarrow> k' < index"
  shows "k < index + length items"
  using assms
proof (induction full delta r bs index items best missing arbitrary: k rank missing' rule: rank_items.induct)
  case (2 full delta r bs index j item items best missing)
  obtain res where res: "item_rank (reader_for_body_item full delta j) r bs index j item = Inr res"
    using "2.prems"(1) by (auto simp: ebind_def split: sum.splits)
  have old: "k' < Suc index" if "best = Some (k', rank')" for k' rank' using "2.prems"(2) [OF that] by simp
  show ?case
  proof (cases res)
    case (Inr rank1)
    let ?best = "case best of Some (k, rank') \<Rightarrow> if rank_less rank1 rank' then Some (index, rank1) else best | None \<Rightarrow> Some (index, rank1)"
    have "k' < Suc index" if "?best = Some (k', rank')" for k' rank' using that old by (auto split: option.splits if_splits)
    moreover have "rank_items full delta r bs (Suc index) items ?best missing = Inr (Some (k, rank), missing')"
      using "2.prems"(1) res Inr by (simp add: ebind_def)
    ultimately show ?thesis using "2.IH"(3) [of rank1 k rank missing'] by simp
  next
    case (Inl m)
    then show ?thesis using "2.prems"(1) "2.IH"(1) [of k rank missing'] "2.IH"(2) [of _ k rank missing'] res old
      by (cases m) (simp_all add: ebind_def)
  qed
qed simp

lemma select_next_index: "select_next_item full delta r bs items = Inr k \<Longrightarrow> k < length items"
  using rank_items_index [of full delta r bs 0 items None None k]
  by (auto simp: select_next_item_def ebind_def split: sum.splits option.splits)

definition apply_item :: "reader \<Rightarrow> citem \<Rightarrow> binding list \<Rightarrow> eval_error + binding list" where
  "apply_item rd item bs =
     (case item of
        CAtom a \<Rightarrow> if ca_negated a then apply_negated_atom rd a bs else apply_positive_atom rd a bs
      | CGuard g \<Rightarrow> apply_guard g bs)"

function body_loop ::
  "reader \<Rightarrow> (reader \<times> nat) option \<Rightarrow> crule \<Rightarrow> binding list \<Rightarrow> (nat \<times> citem) list \<Rightarrow> eval_error + binding list" where
  "body_loop full delta r bs items =
     (if items = [] then Inr bs
      else case select_next_item full delta r bs items of
        Inl e \<Rightarrow> Inl e
      | Inr k \<Rightarrow>
          (case apply_item (reader_for_body_item full delta (fst (items ! k))) (snd (items ! k)) bs of
             Inl e \<Rightarrow> Inl e
           | Inr bs' \<Rightarrow> body_loop full delta r bs' (remove_at k items)))"
  by pat_completeness auto
termination
  by (relation "measure (\<lambda>(full, delta, r, bs, items). length items)")
     (auto dest!: select_next_index simp: remove_at_def)

declare body_loop.simps [simp del]

type_synonym packed_join =
  "reader \<Rightarrow> identity \<times> val option list \<Rightarrow> reader \<Rightarrow> identity \<times> val option list \<Rightarrow> nat list \<Rightarrow> nat list \<Rightarrow>
     val kernel_error + val list list option"

definition evaluate_two_atom_batch ::
  "packed_join \<Rightarrow> reader \<Rightarrow> (reader \<times> nat) option \<Rightarrow> crule \<Rightarrow> eval_error + binding list option" where
  "evaluate_two_atom_batch pj full delta r =
     (case (cr_body r, cr_batch_plan r) of
        ([CAtom left, CAtom right], Some plan) \<Rightarrow>
          ebind (of_kernel (pj (reader_for_body_item full delta 0) (bp_left plan) (reader_for_body_item full delta 1) (bp_right plan)
                   (bp_left_positions plan) (bp_right_positions plan))) (\<lambda>rows.
          Inr (map_option (List.map_filter (\<lambda>row.
                Option.bind (unify_packed_row left (replicate (cr_slot_count r) None) row 0) (\<lambda>b.
                unify_packed_row right b row (length (ca_terms left))))) rows))
      | _ \<Rightarrow> Inr None)"

definition evaluate_body_with_readers ::
  "packed_join \<Rightarrow> reader \<Rightarrow> (reader \<times> nat) option \<Rightarrow> crule \<Rightarrow> eval_error + binding list" where
  "evaluate_body_with_readers pj full delta r =
     ebind (evaluate_two_atom_batch pj full delta r) (\<lambda>res.
       case res of
         Some bs \<Rightarrow> Inr bs
       | None \<Rightarrow> body_loop full delta r [replicate (cr_slot_count r) None] (enumerate 0 (cr_body r)))"

fun head_values :: "cterm list \<Rightarrow> binding \<Rightarrow> eval_error + tuple" where
  "head_values [] b = Inr []"
| "head_values (CValue v # ts) b = ebind (head_values ts b) (\<lambda>vs. Inr (v # vs))"
| "head_values (CVar s i # ts) b =
     (case b ! i of
        None \<Rightarrow> Inl (EvalRule (UnboundHeadVariable s))
      | Some v \<Rightarrow> ebind (head_values ts b) (\<lambda>vs. Inr (v # vs)))"

definition instantiate_head :: "crule \<Rightarrow> binding \<Rightarrow> eval_error + tuple" where
  "instantiate_head r b = head_values (cr_head_terms r) b"

section \<open>Components\<close>

fun insert_heads :: "crule \<Rightarrow> binding list \<Rightarrow> tuple_map \<Rightarrow> eval_error + tuple_map" where
  "insert_heads r [] out = Inr out"
| "insert_heads r (b # bs) out =
     ebind (instantiate_head r b) (\<lambda>t. insert_heads r bs (tm_extend (cr_head_relation r) [t] out))"

fun evaluate_rules_once :: "packed_join \<Rightarrow> reader \<Rightarrow> crule list \<Rightarrow> tuple_map \<Rightarrow> eval_error + tuple_map" where
  "evaluate_rules_once pj rd [] out = Inr out"
| "evaluate_rules_once pj rd (r # rs) out =
     ebind (evaluate_body_with_readers pj rd None r) (\<lambda>bs.
     ebind (insert_heads r bs out) (evaluate_rules_once pj rd rs))"

definition evaluate_selected_rules ::
  "packed_join \<Rightarrow> reader \<Rightarrow> crule list \<Rightarrow> nat list \<Rightarrow> tuple_map \<Rightarrow> eval_error + tuple_map" where
  "evaluate_selected_rules pj rd rules indices out = evaluate_rules_once pj rd (map (\<lambda>k. rules ! k) indices) out"

fun evaluate_recursive_variants ::
  "packed_join \<Rightarrow> reader \<Rightarrow> reader \<Rightarrow> crule list \<Rightarrow> rule_variant list \<Rightarrow> tuple_map \<Rightarrow> eval_error + tuple_map" where
  "evaluate_recursive_variants pj full delta rules [] out = Inr out"
| "evaluate_recursive_variants pj full delta rules (v # vs) out =
     ebind (evaluate_body_with_readers pj full (Some (delta, rv_delta_body_index v)) (rules ! rv_rule_index v)) (\<lambda>bs.
     ebind (insert_heads (rules ! rv_rule_index v) bs out) (evaluate_recursive_variants pj full delta rules vs))"

definition merge_derived :: "tuple_map \<Rightarrow> tuple_map \<Rightarrow> tuple_map" where
  "merge_derived dm additional = fold (\<lambda>(r, ts). tm_extend r ts) additional dm"

definition novel_candidates :: "tuple_map \<Rightarrow> tuple_map \<Rightarrow> tuple_map" where
  "novel_candidates candidates full = map (\<lambda>(r, ts). (r, filter (\<lambda>t. t \<notin> set (tm_get full r)) ts)) candidates"

text \<open>Every target relation is the head of a rule of its component.\<close>

fun read_extensional_targets :: "reader \<Rightarrow> crule list \<Rightarrow> identity list \<Rightarrow> eval_error + tuple_map" where
  "read_extensional_targets rd rules [] = Inr []"
| "read_extensional_targets rd rules (r # rs) =
     ebind (of_kernel (hide_unknown r []
         (rd_scan rd r (case find (\<lambda>q. cr_head_relation q = r) rules of
            Some q \<Rightarrow> replicate (length (cr_head_terms q)) None | None \<Rightarrow> [])))) (\<lambda>ts.
     ebind (read_extensional_targets rd rules rs) (\<lambda>rest. Inr (om_insert r (finish_tuple_rows ts) rest)))"

definition all_empty :: "tuple_map \<Rightarrow> bool" where
  "all_empty m \<longleftrightarrow> (\<forall>e \<in> set m. snd e = [])"

text \<open>\<open>None\<close>: the loop does not end.\<close>

partial_function (option) semi_naive ::
  "packed_join \<Rightarrow> reader \<Rightarrow> crule list \<Rightarrow> rule_variant list \<Rightarrow> tuple_map \<Rightarrow> tuple_map \<Rightarrow> tuple_map \<Rightarrow> tuple_map \<Rightarrow>
     (eval_error + tuple_map) option" where
  [code]: "semi_naive pj rd rules variants dm full delta accepted =
     (if all_empty delta then Some (Inr accepted)
      else case evaluate_recursive_variants pj (scc_reader rd dm full) (tuple_map_reader delta) rules variants [] of
        Inl e \<Rightarrow> Some (Inl e)
      | Inr candidates \<Rightarrow>
          if all_empty (novel_candidates candidates full) then Some (Inr (merge_derived accepted candidates))
          else semi_naive pj rd rules variants dm (merge_derived full (novel_candidates candidates full))
                 (novel_candidates candidates full) (merge_derived accepted candidates))"

text \<open>A tuple enters the frontier when it is new to the relation.\<close>

definition seed_delta :: "tuple_map \<Rightarrow> tuple_map \<Rightarrow> tuple_map \<Rightarrow> tuple_map" where
  "seed_delta seeds full delta = merge_derived delta (novel_candidates seeds full)"

definition evaluate_recursive_component ::
  "packed_join \<Rightarrow> reader \<Rightarrow> crule list \<Rightarrow> compiled_scc \<Rightarrow> tuple_map \<Rightarrow> (eval_error + tuple_map) option" where
  "evaluate_recursive_component pj rd rules c dm =
     (case read_extensional_targets rd (map (\<lambda>k. rules ! k) (cs_rule_indices c)) (cs_target_relations c) of
        Inl e \<Rightarrow> Some (Inl e)
      | Inr full \<Rightarrow>
          (case evaluate_selected_rules pj (scc_reader rd dm full) rules (cs_seed_rule_indices c) [] of
             Inl e \<Rightarrow> Some (Inl e)
           | Inr seeds \<Rightarrow>
               map_option (map_sum id (merge_derived dm))
                 (semi_naive pj rd rules (cs_recursive_variants c) dm (merge_derived full seeds) (seed_delta seeds full full) seeds)))"

definition evaluate_component ::
  "packed_join \<Rightarrow> reader \<Rightarrow> crule list \<Rightarrow> compiled_scc \<Rightarrow> tuple_map \<Rightarrow> (eval_error + tuple_map) option" where
  "evaluate_component pj rd rules c dm =
     (if cs_recursive_variants c = []
      then Some (map_sum id (merge_derived dm)
             (evaluate_selected_rules pj (derived_reader rd dm) rules (cs_seed_rule_indices c) []))
      else evaluate_recursive_component pj rd rules c dm)"

fun evaluate_components ::
  "packed_join \<Rightarrow> reader \<Rightarrow> crule list \<Rightarrow> compiled_scc list \<Rightarrow> tuple_map \<Rightarrow> (eval_error + tuple_map) option" where
  "evaluate_components pj rd rules [] dm = Some (Inr dm)"
| "evaluate_components pj rd rules (c # cs) dm =
     (case evaluate_component pj rd rules c dm of
        Some (Inr dm') \<Rightarrow> evaluate_components pj rd rules cs dm'
      | res \<Rightarrow> res)"

fun evaluate_strata ::
  "packed_join \<Rightarrow> reader \<Rightarrow> compiled_stratum list \<Rightarrow> tuple_map \<Rightarrow> (eval_error + tuple_map) option" where
  "evaluate_strata pj rd [] dm = Some (Inr dm)"
| "evaluate_strata pj rd (s # ss) dm =
     (case evaluate_components pj rd (st_rules s) (st_components s) dm of
        Some (Inr dm') \<Rightarrow> evaluate_strata pj rd ss dm'
      | res \<Rightarrow> res)"

definition evaluate_fixpoint :: "packed_join \<Rightarrow> reader \<Rightarrow> rule list \<Rightarrow> (eval_error + tuple_map) option" where
  "evaluate_fixpoint pj rd rules =
     (case compile_rules rules of
        None \<Rightarrow> None
      | Some (Inl e) \<Rightarrow> Some (Inl (EvalRule e))
      | Some (Inr strata) \<Rightarrow> evaluate_strata pj rd strata [])"

fun evaluate_each_once :: "packed_join \<Rightarrow> reader \<Rightarrow> compiled_stratum list \<Rightarrow> tuple_map \<Rightarrow> eval_error + tuple_map" where
  "evaluate_each_once pj rd [] dm = Inr dm"
| "evaluate_each_once pj rd (s # ss) dm =
     ebind (evaluate_rules_once pj (derived_reader rd dm) (st_rules s) []) (\<lambda>out.
     evaluate_each_once pj rd ss (merge_derived dm out))"

definition evaluate_rules :: "packed_join \<Rightarrow> reader \<Rightarrow> rule list \<Rightarrow> (eval_error + tuple_map) option" where
  "evaluate_rules pj rd rules =
     (case compile_rules rules of
        None \<Rightarrow> None
      | Some (Inl e) \<Rightarrow> Some (Inl (EvalRule e))
      | Some (Inr strata) \<Rightarrow> Some (evaluate_each_once pj rd strata []))"

end
