(* ===== verification/RuleBody.thy ===== *)
theory RuleBody
  imports RuleEval
begin

text \<open>
  The evaluation of a body computes its solutions: in whatever order the planner takes the items, and
  through the packed join or not, the bindings returned are exactly those that satisfy every item,
  each read through the reader of its position.
\<close>

section \<open>Results\<close>

lemma ebind_Inr [simp]: "ebind m f = Inr y \<longleftrightarrow> (\<exists>x. m = Inr x \<and> f x = Inr y)"
  by (simp add: ebind_def split: sum.split)

lemma ebind_simps [simp]: "ebind (Inr x) f = f x" "ebind (Inl e) f = Inl e"
  by (simp_all add: ebind_def)

lemma of_kernel_Inr [simp]: "of_kernel m = Inr x \<longleftrightarrow> m = Inr x" "of_kernel (Inr x) = Inr x"
  by (cases m) (simp_all add: of_kernel_def)

section \<open>Bindings\<close>

definition env :: "binding \<Rightarrow> nat \<Rightarrow> val option" where
  "env b i = (if i < length b then b ! i else None)"

lemma env_eq: "length b = length c \<Longrightarrow> env b = env c \<Longrightarrow> b = c"
  by (rule nth_equalityI, assumption) (metis env_def)

lemma map_leD: "m \<subseteq>\<^sub>m n \<Longrightarrow> m k = Some v \<Longrightarrow> n k = Some v"
  by (metis domI map_le_def)

lemma env_update: "i < length b \<Longrightarrow> env (b[i := v]) = (env b)(i := v)"
  by (auto simp: env_def fun_eq_iff nth_list_update)

lemma env_replicate [simp]: "env (replicate n None) = Map.empty"
  by (auto simp: env_def fun_eq_iff)

definition in_range :: "nat \<Rightarrow> cterm list \<Rightarrow> bool" where
  "in_range n ts \<longleftrightarrow> (\<forall>i \<in> term_slots ts. i < n)"

lemma term_slots_simps [simp]:
  "term_slots [] = {}" "term_slots (CValue v # ts) = term_slots ts" "term_slots (CVar s i # ts) = insert i (term_slots ts)"
  by (simp_all add: term_slots_def List.map_filter_simps)

lemma term_slots_Cons: "term_slots (x # ts) = term_slots [x] \<union> term_slots ts"
  by (cases x) auto

lemma term_slots_mem: "x \<in> set ts \<Longrightarrow> term_slots [x] \<subseteq> term_slots ts"
proof (induction ts)
  case (Cons y ts)
  then show ?case using term_slots_Cons [of y ts] by auto
qed simp

lemma in_range_nth: "in_range n ts \<Longrightarrow> k < length ts \<Longrightarrow> in_range n [ts ! k]"
  using term_slots_mem [OF nth_mem [of k ts]] by (auto simp: in_range_def)

lemma in_range_simps [simp]:
  "in_range n []" "in_range n (CValue v # ts) = in_range n ts" "in_range n (CVar s i # ts) \<longleftrightarrow> i < n \<and> in_range n ts"
  by (auto simp: in_range_def)

definition inst :: "binding \<Rightarrow> cterm list \<Rightarrow> val option list" where
  "inst b ts = map (term_binding b) ts"

lemma inst_simps [simp]: "inst b [] = []" "inst b (t # ts) = term_binding b t # inst b ts"
  by (simp_all add: inst_def)

lemma term_binding_mono:
  assumes "env b \<subseteq>\<^sub>m env c" "length b = length c" "in_range (length b) [t]" "term_binding b t = Some v"
  shows "term_binding c t = Some v"
proof (cases t)
  case (CVar s i)
  then have "env b i = Some v" "i < length c" using assms(2-4) by (auto simp: env_def)
  moreover from this(1) have "env c i = Some v" by (rule map_leD [OF assms(1)])
  ultimately show ?thesis using CVar by (simp add: env_def)
qed (use assms(4) in simp)

lemma inst_mono:
  assumes "env b \<subseteq>\<^sub>m env c" "length b = length c" "in_range (length b) ts" "inst b ts = map Some t"
  shows "inst c ts = map Some t"
  using assms(3,4)
proof (induction ts arbitrary: t)
  case (Cons x ts)
  obtain v u where t: "t = v # u" using Cons.prems(2) by (cases t) auto
  have x: "in_range (length b) [x]" "in_range (length b) ts" using Cons.prems(1) by (cases x; simp)+
  show ?case using Cons.IH [OF x(2), of u] Cons.prems(2) term_binding_mono [OF assms(1,2) x(1), of v] t by simp
qed simp

lemma inst_bound:
  assumes "in_range (length b) ts"
  shows "(\<exists>t. inst b ts = map Some t) \<longleftrightarrow> term_slots ts \<subseteq> dom (env b)"
  using assms
proof (induction ts)
  case (Cons x ts)
  show ?case
  proof (cases x)
    case (CVar s i)
    then have "(\<exists>t. inst b (x # ts) = map Some t) \<longleftrightarrow> (\<exists>v. b ! i = Some v) \<and> (\<exists>t. inst b ts = map Some t)"
      by (auto simp: Cons_eq_map_conv)
    then show ?thesis using Cons CVar by (auto simp: env_def dom_def)
  next
    case (CValue v)
    then have "(\<exists>t. inst b (x # ts) = map Some t) \<longleftrightarrow> (\<exists>t. inst b ts = map Some t)"
      by (auto simp: Cons_eq_map_conv)
    then show ?thesis using Cons CValue by simp
  qed
qed simp

section \<open>Unification\<close>

lemma unify_sound:
  assumes "unify_values ts t b = Some b'" "length t = length ts" "in_range (length b) ts"
  shows "length b' = length b" "env b \<subseteq>\<^sub>m env b'" "dom (env b') = dom (env b) \<union> term_slots ts" "inst b' ts = map Some t"
proof -
  have "length b' = length b \<and> env b \<subseteq>\<^sub>m env b' \<and> dom (env b') = dom (env b) \<union> term_slots ts \<and> inst b' ts = map Some t"
    using assms
  proof (induction ts t b rule: unify_values.induct)
    case (1 v ts x xs b)
    then show ?case by (auto split: if_splits)
  next
    case (2 s i ts x xs b)
    have i: "i < length b" "in_range (length b) ts" using "2.prems"(3) by simp_all
    show ?case
    proof (cases "b ! i")
      case None
      have u: "unify_values ts xs (b[i := Some x]) = Some b'" using "2.prems"(1) None by simp
      have IH: "length b' = length b" "(env b)(i \<mapsto> x) \<subseteq>\<^sub>m env b'" "dom (env b') = insert i (dom (env b)) \<union> term_slots ts" "inst b' ts = map Some xs"
        using "2.IH"(1) [OF None u] "2.prems"(2) i unfolding env_update [OF i(1)] by (simp_all del: fun_upd_apply)
      have "env b' i = Some x" using IH(2) by (metis fun_upd_same map_leD)
      moreover have "env b i = None" using None by (simp add: env_def)
      then have "env b \<subseteq>\<^sub>m env b'" using IH(2) by (auto simp: map_le_def dom_def)
      moreover have "b' ! i = Some x" using \<open>env b' i = Some x\<close> IH(1) i(1) by (simp add: env_def)
      ultimately show ?thesis using IH by auto
    next
      case (Some y)
      then have u: "y = x" "unify_values ts xs b = Some b'" using "2.prems"(1) by (auto split: if_splits)
      have IH: "length b' = length b" "env b \<subseteq>\<^sub>m env b'" "dom (env b') = dom (env b) \<union> term_slots ts" "inst b' ts = map Some xs"
        using "2.IH"(2) [OF Some _ u(2)] u(1) "2.prems"(2) i(2) by auto
      have e: "env b i = Some x" using Some u(1) i(1) by (simp add: env_def)
      then have "env b' i = Some x" using IH(2) map_leD by metis
      then have "b' ! i = Some x" using IH(1) i(1) by (simp add: env_def)
      then show ?thesis using IH e by auto
    qed
  qed auto
  then show "length b' = length b" "env b \<subseteq>\<^sub>m env b'" "dom (env b') = dom (env b) \<union> term_slots ts" "inst b' ts = map Some t" by blast+
qed

lemma unify_complete:
  assumes "env b \<subseteq>\<^sub>m env c" "length b = length c" "in_range (length b) ts" "inst c ts = map Some t"
  shows "\<exists>b'. unify_values ts t b = Some b' \<and> env b' \<subseteq>\<^sub>m env c"
  using assms
proof (induction ts t b rule: unify_values.induct)
  case (2 s i ts x xs b)
  have i: "i < length b" "in_range (length b) ts" "env c i = Some x" "inst c ts = map Some xs"
    using "2.prems" by (auto simp: env_def)
  show ?case
  proof (cases "b ! i")
    case None
    have "(env b)(i \<mapsto> x) \<subseteq>\<^sub>m env c" using "2.prems"(1) i by (auto simp: map_le_def)
    then show ?thesis using "2.IH"(1) [OF None, unfolded env_update [OF i(1)]] "2.prems"(2) i None by (simp del: fun_upd_apply)
  next
    case (Some y)
    then have "env b i = Some y" using i(1) by (simp add: env_def)
    then have "y = x" using "2.prems"(1) i(3) by (metis map_leD option.inject)
    then show ?thesis using "2.IH"(2) [OF Some] "2.prems"(1,2) i Some by simp
  qed
qed auto

lemma unify_matches:
  assumes "env b \<subseteq>\<^sub>m env c" "length b = length c" "in_range (length b) ts" "inst c ts = map Some t"
  shows "matches_bindings t (inst b ts)"
proof -
  have len: "length t = length ts" using assms(4) by (metis inst_def length_map)
  have "t ! k = v" if k: "k < length ts" "term_binding b (ts ! k) = Some v" for k v
  proof -
    have "in_range (length b) [ts ! k]" using assms(3) k(1) by (rule in_range_nth)
    then have "term_binding c (ts ! k) = Some v" by (rule term_binding_mono [OF assms(1,2) _ k(2)])
    then show ?thesis using arg_cong [OF assms(4), of "\<lambda>l. l ! k"] k(1) len by (simp add: inst_def)
  qed
  then show ?thesis by (auto simp: matches_bindings_def inst_def split: option.splits)
qed

section \<open>Readers\<close>

text \<open>
  A reader reads an interpretation: where it answers, it answers with the matching tuples of the
  relation, and a relation it does not know is empty. \<open>ar\<close> gives the arities.
\<close>

definition matching_rows :: "(identity \<Rightarrow> tuple set) \<Rightarrow> identity \<Rightarrow> val option list \<Rightarrow> tuple set" where
  "matching_rows M r bs = {t \<in> M r. matches_bindings t bs}"

definition answer_ok :: "tuple set \<Rightarrow> identity \<Rightarrow> val kernel_error + tuple list \<Rightarrow> bool" where
  "answer_ok A r res \<longleftrightarrow> (case res of Inr ts \<Rightarrow> set ts = A | Inl e \<Rightarrow> e = UnknownRelation r \<longrightarrow> A = {})"

definition batch_ok :: "(identity \<Rightarrow> tuple set) \<Rightarrow> identity \<Rightarrow> val option list list \<Rightarrow> (nat \<times> tuple) list \<Rightarrow> bool" where
  "batch_ok M r keys rows \<longleftrightarrow> set rows = {(k, t). k < length keys \<and> t \<in> matching_rows M r (keys ! k)}"

definition reads :: "(identity \<Rightarrow> nat) \<Rightarrow> reader \<Rightarrow> (identity \<Rightarrow> tuple set) \<Rightarrow> bool" where
  "reads ar rd M \<longleftrightarrow> (\<forall>r. \<forall>t \<in> M r. length t = ar r) \<and>
     (\<forall>r bs. length bs = ar r \<longrightarrow> answer_ok (matching_rows M r bs) r (rd_scan rd r bs) \<and> answer_ok (matching_rows M r bs) r (rd_visit rd r bs)) \<and>
     (\<forall>r keys rows. (\<forall>bs \<in> set keys. length bs = ar r) \<longrightarrow> rd_batch rd r keys = Inr (Some rows) \<longrightarrow> batch_ok M r keys rows)"

text \<open>A reader that always answers, and has no computed relation.\<close>

definition answers :: "(identity \<Rightarrow> nat) \<Rightarrow> reader \<Rightarrow> bool" where
  "answers ar rd \<longleftrightarrow> (\<forall>r bs. length bs = ar r \<longrightarrow>
     (\<exists>ts. rd_scan rd r bs = Inr ts) \<and> (\<exists>ts. rd_visit rd r bs = Inr ts) \<and> (\<exists>n. rd_estimate rd r bs = Inr n)) \<and>
     (\<forall>r. rd_required rd r = Inr None)"

lemma readsD:
  assumes "reads ar rd M"
  shows "t \<in> M r \<Longrightarrow> length t = ar r" "length bs = ar r \<Longrightarrow> rd_visit rd r bs = Inr ts \<Longrightarrow> set ts = matching_rows M r bs"
    "length bs = ar r \<Longrightarrow> rd_scan rd r bs = Inr ts \<Longrightarrow> set ts = matching_rows M r bs"
    "\<forall>bs \<in> set keys. length bs = ar r \<Longrightarrow> rd_batch rd r keys = Inr (Some rows) \<Longrightarrow> batch_ok M r keys rows"
proof -
  have v: "answer_ok (matching_rows M r bs) r (rd_scan rd r bs) \<and> answer_ok (matching_rows M r bs) r (rd_visit rd r bs)" if "length bs = ar r"
    using assms that unfolding reads_def by blast
  show "t \<in> M r \<Longrightarrow> length t = ar r" using assms unfolding reads_def by blast
  show "length bs = ar r \<Longrightarrow> rd_visit rd r bs = Inr ts \<Longrightarrow> set ts = matching_rows M r bs"
    "length bs = ar r \<Longrightarrow> rd_scan rd r bs = Inr ts \<Longrightarrow> set ts = matching_rows M r bs" using v by (simp_all add: answer_ok_def)
  show "\<forall>bs \<in> set keys. length bs = ar r \<Longrightarrow> rd_batch rd r keys = Inr (Some rows) \<Longrightarrow> batch_ok M r keys rows"
    using assms unfolding reads_def by blast
qed

section \<open>Satisfaction\<close>

fun sat_item :: "(identity \<Rightarrow> tuple set) \<Rightarrow> binding \<Rightarrow> citem \<Rightarrow> bool" where
  "sat_item M b (CAtom a) \<longleftrightarrow> (\<exists>t. inst b (ca_terms a) = map Some t \<and> (t \<in> M (ca_relation a)) = (\<not> ca_negated a))"
| "sat_item M b (CGuard g) \<longleftrightarrow> (\<exists>l r. inst b [cg_left g, cg_right g] = [Some l, Some r] \<and> compare_values (cg_op g) l r)"

definition item_slots_ok :: "(identity \<Rightarrow> nat) \<Rightarrow> nat \<Rightarrow> citem \<Rightarrow> bool" where
  "item_slots_ok ar n item \<longleftrightarrow> (case item of CAtom a \<Rightarrow> in_range n (ca_terms a) \<and> length (ca_terms a) = ar (ca_relation a)
     | CGuard g \<Rightarrow> in_range n [cg_left g, cg_right g])"

fun binds_slots :: "citem \<Rightarrow> nat set" where
  "binds_slots (CAtom a) = (if ca_negated a then {} else term_slots (ca_terms a))"
| "binds_slots (CGuard _) = {}"

text \<open>An item means the same in an extension of a binding that binds its variables.\<close>

lemma inst_two: "inst b [l, r] = [Some x, Some y] \<longleftrightarrow> inst b [l, r] = map Some [x, y]"
  by simp

lemma inst_same:
  assumes "env b \<subseteq>\<^sub>m env c" "length b = length c" "in_range (length b) ts" "term_slots ts \<subseteq> dom (env b)"
  shows "inst c ts = inst b ts"
proof -
  obtain t where "inst b ts = map Some t" using inst_bound [OF assms(3)] assms(4) by blast
  then show ?thesis using inst_mono [OF assms(1-3)] by simp
qed

lemma sat_item_same:
  assumes "env b \<subseteq>\<^sub>m env c" "length b = length c" "item_slots_ok ar (length b) item" "compiled_body_slots item \<subseteq> dom (env b)"
  shows "sat_item M c item = sat_item M b item"
proof (cases item)
  case (CAtom a)
  then have "inst c (ca_terms a) = inst b (ca_terms a)" using inst_same [OF assms(1,2)] assms(3,4) by (simp add: item_slots_ok_def)
  then show ?thesis using CAtom by simp
next
  case (CGuard g)
  then have "inst c [cg_left g, cg_right g] = inst b [cg_left g, cg_right g]"
    using inst_same [OF assms(1,2), of "[cg_left g, cg_right g]"] assms(3,4) by (simp add: item_slots_ok_def)
  then show ?thesis using CGuard by simp
qed

lemma sat_item_bound: "sat_item M b item \<Longrightarrow> item_slots_ok ar (length b) item \<Longrightarrow> compiled_body_slots item \<subseteq> dom (env b)"
proof (cases item)
  case (CGuard g)
  assume "sat_item M b item" "item_slots_ok ar (length b) item"
  then show ?thesis using CGuard inst_bound [of b "[cg_left g, cg_right g]", THEN iffD1] unfolding CGuard sat_item.simps inst_two item_slots_ok_def
    by (metis citem.simps(6) compiled_body_slots.simps(2))
qed (use inst_bound [THEN iffD1] in \<open>auto simp: item_slots_ok_def\<close>)

lemma sat_item_mono:
  assumes "env b \<subseteq>\<^sub>m env c" "length b = length c" "item_slots_ok ar (length b) item" "sat_item M b item"
  shows "sat_item M c item"
  using sat_item_same [OF assms(1-3) sat_item_bound [OF assms(4,3)]] assms(4) by simp

section \<open>One item\<close>

lemma set_map_filter: "set (List.map_filter f xs) = {y. \<exists>x \<in> set xs. f x = Some y}"
  by (force simp: List.map_filter_def)

text \<open>The extensions of a binding by the tuples of an atom.\<close>

definition extensions :: "(identity \<Rightarrow> tuple set) \<Rightarrow> catom \<Rightarrow> binding \<Rightarrow> binding set" where
  "extensions M a b = {b'. \<exists>t \<in> matching_rows M (ca_relation a) (scan_bindings a b). unify_tuple a b t = Some b'}"

lemma visit_bindings_ok:
  assumes "reads ar rd M" "length (ca_terms a) = ar (ca_relation a)"
  shows "visit_bindings rd a bs = Inr bs' \<Longrightarrow> set bs' = (\<Union>b \<in> set bs. extensions M a b)"
proof (induction bs arbitrary: bs')
  case (Cons b bs)
  obtain ts rest where r: "rd_visit rd (ca_relation a) (scan_bindings a b) = Inr ts" "visit_bindings rd a bs = Inr rest"
    "bs' = List.map_filter (unify_tuple a b) ts @ rest"
    using Cons.prems by auto
  have "set ts = matching_rows M (ca_relation a) (scan_bindings a b)" by (rule readsD(2) [OF assms(1) _ r(1)]) (simp add: scan_bindings_def assms(2))
  then show ?case using Cons.IH [OF r(2)] r(3) by (auto simp: set_map_filter extensions_def)
qed simp

lemma apply_positive_ok:
  assumes "reads ar rd M" "length (ca_terms a) = ar (ca_relation a)" "apply_positive_atom rd a bs = Inr bs'"
  shows "set bs' = (\<Union>b \<in> set bs. extensions M a b)"
proof -
  consider "visit_bindings rd a bs = Inr bs'" |
    rows where "rd_batch rd (ca_relation a) (map (scan_bindings a) bs) = Inr (Some rows)" "bs' = List.map_filter (\<lambda>(k, t). unify_tuple a (bs ! k) t) rows"
    using assms(3) by (auto simp: apply_positive_atom_def split: if_splits option.splits)
  then show ?thesis
  proof cases
    case 1
    then show ?thesis by (rule visit_bindings_ok [OF assms(1,2)])
  next
    case (2 rows)
    have "batch_ok M (ca_relation a) (map (scan_bindings a) bs) rows"
      by (rule readsD(4) [OF assms(1) _ 2(1)]) (simp add: scan_bindings_def assms(2))
    then have "set rows = {(k, t). k < length bs \<and> t \<in> matching_rows M (ca_relation a) (scan_bindings a (bs ! k))}"
      by (auto simp: batch_ok_def)
    then show ?thesis unfolding 2(2) set_map_filter extensions_def by (force simp: in_set_conv_nth)
  qed
qed

lemma extensions_ok:
  assumes "length b = n" "in_range n (ca_terms a)" "\<And>t. t \<in> M (ca_relation a) \<Longrightarrow> length t = length (ca_terms a)"
  shows "b' \<in> extensions M a b \<Longrightarrow> length b' = n \<and> env b \<subseteq>\<^sub>m env b' \<and> dom (env b') = dom (env b) \<union> term_slots (ca_terms a) \<and>
      (\<exists>t \<in> M (ca_relation a). inst b' (ca_terms a) = map Some t)"
    "length c = n \<Longrightarrow> env b \<subseteq>\<^sub>m env c \<Longrightarrow> inst c (ca_terms a) = map Some t \<Longrightarrow> t \<in> M (ca_relation a) \<Longrightarrow> \<exists>b' \<in> extensions M a b. env b' \<subseteq>\<^sub>m env c"
proof -
  assume "b' \<in> extensions M a b"
  then obtain t where t: "t \<in> M (ca_relation a)" "unify_values (ca_terms a) t b = Some b'"
    by (auto simp: extensions_def matching_rows_def unify_tuple_def)
  show "length b' = n \<and> env b \<subseteq>\<^sub>m env b' \<and> dom (env b') = dom (env b) \<union> term_slots (ca_terms a) \<and>
      (\<exists>t \<in> M (ca_relation a). inst b' (ca_terms a) = map Some t)"
    using unify_sound [OF t(2) assms(3) [OF t(1)]] assms(1,2) t(1) by auto
next
  assume c: "length c = n" "env b \<subseteq>\<^sub>m env c" "inst c (ca_terms a) = map Some t" "t \<in> M (ca_relation a)"
  have len: "length b = length c" "in_range (length b) (ca_terms a)" using assms(1,2) c(1) by simp_all
  obtain b' where "unify_values (ca_terms a) t b = Some b'" "env b' \<subseteq>\<^sub>m env c" using unify_complete [OF c(2) len c(3)] by blast
  moreover have "matches_bindings t (scan_bindings a b)" using unify_matches [OF c(2) len c(3)] by (simp add: scan_bindings_def inst_def)
  ultimately show "\<exists>b' \<in> extensions M a b. env b' \<subseteq>\<^sub>m env c" using c(4) by (auto simp: extensions_def matching_rows_def unify_tuple_def)
qed

lemma safe_inst: "negated_atom_is_safe a b \<longleftrightarrow> (\<exists>t. inst b (ca_terms a) = map Some t)"
proof -
  have "(\<forall>x \<in> set ts. term_binding b x \<noteq> None) \<longleftrightarrow> (\<exists>t. inst b ts = map Some t)" for ts
    by (induction ts) (auto simp: Cons_eq_map_conv)
  then show ?thesis by (simp add: negated_atom_is_safe_def term_is_bound_def)
qed

lemma apply_negated_ok:
  assumes "reads ar rd M" "length (ca_terms a) = ar (ca_relation a)" "ca_negated a"
  shows "apply_negated_atom rd a bs = Inr bs' \<Longrightarrow> set bs' = {b \<in> set bs. sat_item M b (CAtom a)} \<and> (\<forall>b \<in> set bs. negated_atom_is_safe a b)"
proof (induction bs arbitrary: bs')
  case (Cons b bs)
  obtain ts rest where r: "negated_atom_is_safe a b" "rd_visit rd (ca_relation a) (scan_bindings a b) = Inr ts" "apply_negated_atom rd a bs = Inr rest"
    "bs' = (if ts = [] then b # rest else rest)"
    using Cons.prems by (auto split: if_splits)
  obtain t where t: "inst b (ca_terms a) = map Some t" using r(1) safe_inst by blast
  have len: "length (scan_bindings a b) = ar (ca_relation a)" by (simp add: scan_bindings_def assms(2))
  have "matches_bindings u (scan_bindings a b) \<longleftrightarrow> u = t" if "u \<in> M (ca_relation a)" for u
  proof -
    have "length u = length t" using readsD(1) [OF assms(1) that] t assms(2) by (metis inst_def length_map)
    moreover have "scan_bindings a b = map Some t" using t by (simp add: scan_bindings_def inst_def)
    ultimately show ?thesis by (auto simp: matches_bindings_def intro: nth_equalityI)
  qed
  then have "matching_rows M (ca_relation a) (scan_bindings a b) = (if t \<in> M (ca_relation a) then {t} else {})"
    by (auto simp: matching_rows_def)
  then have "ts = [] \<longleftrightarrow> t \<notin> M (ca_relation a)" using readsD(2) [OF assms(1) len r(2)] by (auto split: if_splits)
  moreover have "sat_item M b (CAtom a) \<longleftrightarrow> t \<notin> M (ca_relation a)"
    using t assms(3) by auto
  ultimately show ?case using Cons.IH [OF r(3)] r(1,4) by auto
qed simp

lemma guard_value_bound: "guard_value t b = Inr v \<longleftrightarrow> term_binding b t = Some v"
  by (cases t) (auto split: option.splits)

lemma apply_guard_ok: "apply_guard g bs = Inr bs' \<Longrightarrow> set bs' = {b \<in> set bs. sat_item M b (CGuard g)} \<and> (\<forall>b \<in> set bs. guard_is_safe g b)"
proof (induction bs arbitrary: bs')
  case (Cons b bs)
  obtain l r rest where x: "guard_is_safe g b" "term_binding b (cg_left g) = Some l" "term_binding b (cg_right g) = Some r" "apply_guard g bs = Inr rest"
    "bs' = (if compare_values (cg_op g) l r then b # rest else rest)"
    using Cons.prems by (auto simp: guard_value_bound split: if_splits)
  then have "sat_item M b (CGuard g) \<longleftrightarrow> compare_values (cg_op g) l r" by auto
  then show ?case using Cons.IH [OF x(4)] x(1,5) by auto
qed simp

definition partial_bindings :: "nat \<Rightarrow> nat set \<Rightarrow> binding list \<Rightarrow> bool" where
  "partial_bindings n D bs \<longleftrightarrow> (\<forall>b \<in> set bs. length b = n \<and> dom (env b) = D)"

definition below :: "binding list \<Rightarrow> binding \<Rightarrow> bool" where
  "below bs c \<longleftrightarrow> (\<exists>b \<in> set bs. env b \<subseteq>\<^sub>m env c)"

lemma below_self: "b \<in> set bs \<Longrightarrow> below bs b"
  by (auto simp: below_def intro: map_le_refl)

lemma keep_item_ok:
  assumes "partial_bindings n D bs" "set bs' = {b \<in> set bs. sat_item M b item}" "item_slots_ok ar n item"
    and "\<forall>b \<in> set bs. compiled_body_slots item \<subseteq> dom (env b)"
  shows "partial_bindings n D bs'" "b' \<in> set bs' \<Longrightarrow> below bs b' \<and> sat_item M b' item \<and> compiled_body_slots item \<subseteq> dom (env b')"
    "length c = n \<Longrightarrow> below bs c \<Longrightarrow> sat_item M c item \<Longrightarrow> below bs' c"
proof -
  show "partial_bindings n D bs'" "b' \<in> set bs' \<Longrightarrow> below bs b' \<and> sat_item M b' item \<and> compiled_body_slots item \<subseteq> dom (env b')"
    using assms by (auto simp: partial_bindings_def below_self)
  assume c: "length c = n" "below bs c" "sat_item M c item"
  then obtain b where b: "b \<in> set bs" "env b \<subseteq>\<^sub>m env c" by (auto simp: below_def)
  have "sat_item M b item" using sat_item_same [OF b(2), of ar item M] assms(1,3,4) b(1) c(1,3) by (auto simp: partial_bindings_def)
  then show "below bs' c" using b assms(2) by (auto simp: below_def)
qed

lemma apply_item_ok:
  assumes "reads ar rd M" "item_slots_ok ar n item" "partial_bindings n D bs" "apply_item rd item bs = Inr bs'"
  shows "partial_bindings n (D \<union> binds_slots item) bs'"
    "b' \<in> set bs' \<Longrightarrow> below bs b' \<and> sat_item M b' item \<and> compiled_body_slots item \<subseteq> dom (env b')"
    "length c = n \<Longrightarrow> below bs c \<Longrightarrow> sat_item M c item \<Longrightarrow> below bs' c"
proof -
  have "partial_bindings n (D \<union> binds_slots item) bs' \<and>
    (\<forall>b' \<in> set bs'. below bs b' \<and> sat_item M b' item \<and> compiled_body_slots item \<subseteq> dom (env b')) \<and>
    (\<forall>c. length c = n \<longrightarrow> below bs c \<longrightarrow> sat_item M c item \<longrightarrow> below bs' c)"
  proof (cases item)
    case (CGuard g)
    have g: "set bs' = {b \<in> set bs. sat_item M b item}" "\<forall>b \<in> set bs. guard_is_safe g b"
      using apply_guard_ok [of g bs bs' M] assms(4) CGuard by (simp_all add: apply_item_def)
    have "compiled_body_slots item \<subseteq> dom (env b)" if "b \<in> set bs" for b
    proof -
      have "in_range (length b) [cg_left g, cg_right g]" using assms(2,3) that CGuard by (simp add: item_slots_ok_def partial_bindings_def)
      moreover have "\<exists>t. inst b [cg_left g, cg_right g] = map Some t" using g(2) that by (auto simp: guard_is_safe_def term_is_bound_def Cons_eq_map_conv)
      ultimately show ?thesis using inst_bound [THEN iffD1] CGuard by (metis compiled_body_slots.simps(2))
    qed
    then show ?thesis using keep_item_ok [OF assms(3) g(1) assms(2)] CGuard by simp
  next
    case (CAtom a)
    have a: "in_range n (ca_terms a)" "length (ca_terms a) = ar (ca_relation a)" using assms(2) CAtom by (simp_all add: item_slots_ok_def)
    show ?thesis
    proof (cases "ca_negated a")
      case True
      have g: "set bs' = {b \<in> set bs. sat_item M b item}" "\<forall>b \<in> set bs. negated_atom_is_safe a b"
        using apply_negated_ok [OF assms(1) a(2) True, of bs bs'] assms(4) CAtom True by (simp_all add: apply_item_def)
      have "compiled_body_slots item \<subseteq> dom (env b)" if "b \<in> set bs" for b
        using inst_bound [of b "ca_terms a"] safe_inst g(2) a(1) assms(3) that CAtom by (auto simp: partial_bindings_def)
      then show ?thesis using keep_item_ok [OF assms(3) g(1) assms(2)] CAtom True by simp
    next
      case False
      have s: "set bs' = (\<Union>b \<in> set bs. extensions M a b)"
        by (rule apply_positive_ok [OF assms(1) a(2)]) (use assms(4) CAtom False in \<open>simp add: apply_item_def\<close>)
      have len: "\<And>t. t \<in> M (ca_relation a) \<Longrightarrow> length t = length (ca_terms a)" using readsD(1) [OF assms(1)] a(2) by simp
      have new: "length b' = n \<and> env b \<subseteq>\<^sub>m env b' \<and> dom (env b') = D \<union> term_slots (ca_terms a) \<and> sat_item M b' item"
        if "b \<in> set bs" "b' \<in> extensions M a b" for b b'
        using extensions_ok(1) [OF _ a(1) len that(2)] assms(3) that(1) CAtom False by (auto simp: partial_bindings_def)
      have "below bs' c" if c: "length c = n" "below bs c" "sat_item M c item" for c
      proof -
        obtain b where b: "b \<in> set bs" "env b \<subseteq>\<^sub>m env c" using c(2) by (auto simp: below_def)
        have "length b = n" using assms(3) b(1) by (simp add: partial_bindings_def)
        moreover obtain t where "inst c (ca_terms a) = map Some t" "t \<in> M (ca_relation a)" using c(3) CAtom False by auto
        ultimately obtain b' where "b' \<in> extensions M a b" "env b' \<subseteq>\<^sub>m env c"
          using extensions_ok(2) [where M = M, OF _ a(1) len c(1) b(2)] by blast
        then show ?thesis using s b(1) by (auto simp: below_def)
      qed
      moreover have "below bs b'" if "b' \<in> set bs'" for b'
        using that s new unfolding below_def by blast
      ultimately show ?thesis using s new CAtom False by (auto simp: partial_bindings_def)
    qed
  qed
  then show "partial_bindings n (D \<union> binds_slots item) bs'"
    "b' \<in> set bs' \<Longrightarrow> below bs b' \<and> sat_item M b' item \<and> compiled_body_slots item \<subseteq> dom (env b')"
    "length c = n \<Longrightarrow> below bs c \<Longrightarrow> sat_item M c item \<Longrightarrow> below bs' c" by blast+
qed

section \<open>A body\<close>

definition items_ok :: "(identity \<Rightarrow> nat) \<Rightarrow> nat \<Rightarrow> reader \<Rightarrow> (reader \<times> nat) option \<Rightarrow> (nat \<Rightarrow> identity \<Rightarrow> tuple set) \<Rightarrow> (nat \<times> citem) list \<Rightarrow> bool" where
  "items_ok ar n full delta M items \<longleftrightarrow>
     (\<forall>(j, item) \<in> set items. reads ar (reader_for_body_item full delta j) (M j) \<and> item_slots_ok ar n item)"

definition sat_items :: "(nat \<Rightarrow> identity \<Rightarrow> tuple set) \<Rightarrow> binding \<Rightarrow> (nat \<times> citem) list \<Rightarrow> bool" where
  "sat_items M b items \<longleftrightarrow> (\<forall>(j, item) \<in> set items. sat_item (M j) b item)"

definition bound_slots :: "(nat \<times> citem) list \<Rightarrow> nat set" where
  "bound_slots items = (\<Union>(j, item) \<in> set items. binds_slots item)"

lemma set_removed: "k < length xs \<Longrightarrow> set xs = insert (xs ! k) (set (remove_at k xs))"
  by (metis remove_at_def id_take_nth_drop insert_is_Un set_append list.simps(15) Un_insert_right)

lemma body_loop_ok:
  assumes "items_ok ar n full delta M items" "partial_bindings n D bs" "body_loop full delta r bs items = Inr res"
  shows "partial_bindings n (D \<union> bound_slots items) res \<and> (\<forall>b' \<in> set res. below bs b' \<and> sat_items M b' items) \<and>
    (\<forall>c. length c = n \<longrightarrow> below bs c \<longrightarrow> sat_items M c items \<longrightarrow> below res c)"
  using assms
proof (induction full delta r bs items arbitrary: D rule: body_loop.induct)
  case (1 full delta r bs items)
  show ?case
  proof (cases "items = []")
    case True
    then show ?thesis using "1.prems" by (auto simp: body_loop.simps [of full delta r bs] sat_items_def bound_slots_def below_self)
  next
    case False
    obtain k bs' where k: "select_next_item full delta r bs items = Inr k"
      "apply_item (reader_for_body_item full delta (fst (items ! k))) (snd (items ! k)) bs = Inr bs'"
      "body_loop full delta r bs' (remove_at k items) = Inr res"
      using "1.prems"(3) False by (subst (asm) body_loop.simps) (auto split: sum.splits)
    obtain j item where ji: "items ! k = (j, item)" by (cases "items ! k")
    have kl: "k < length items" by (rule select_next_index [OF k(1)])
    have set: "set items = insert (j, item) (set (remove_at k items))" using set_removed [OF kl] ji by simp
    have ok: "reads ar (reader_for_body_item full delta j) (M j)" "item_slots_ok ar n item" "items_ok ar n full delta M (remove_at k items)"
      using "1.prems"(1) by (auto simp: items_ok_def set)
    have ap: "apply_item (reader_for_body_item full delta j) item bs = Inr bs'" using k(2) ji by simp
    note step = apply_item_ok [OF ok(1,2) "1.prems"(2) ap]
    have IH: "partial_bindings n (D \<union> binds_slots item \<union> bound_slots (remove_at k items)) res"
      "\<forall>b' \<in> set res. below bs' b' \<and> sat_items M b' (remove_at k items)"
      "\<forall>c. length c = n \<longrightarrow> below bs' c \<longrightarrow> sat_items M c (remove_at k items) \<longrightarrow> below res c"
      using "1.IH" [OF False k(1,2) ok(3) step(1) k(3)] by blast+
    have D: "D \<union> binds_slots item \<union> bound_slots (remove_at k items) = D \<union> bound_slots items" by (auto simp: bound_slots_def set)
    have sound: "below bs b' \<and> sat_items M b' items" if b': "b' \<in> set res" for b'
    proof -
      obtain b where b: "b \<in> set bs'" "env b \<subseteq>\<^sub>m env b'" using IH(2) b' by (auto simp: below_def)
      have len: "length b = n" "length b' = n" using b(1) b' step(1) IH(1) by (auto simp: partial_bindings_def)
      have "sat_item (M j) b' item" using sat_item_same [OF b(2), of ar item "M j"] len ok(2) step(2) [OF b(1)] by simp
      moreover have "below bs b'" using step(2) [OF b(1)] b(2) unfolding below_def by (meson map_le_trans)
      ultimately show ?thesis using IH(2) b' by (auto simp: sat_items_def set)
    qed
    have "below res c" if "length c = n" "below bs c" "sat_items M c items" for c
      using IH(3) step(3) [OF that(1,2)] that by (auto simp: sat_items_def set)
    then show ?thesis using IH(1) sound D by simp
  qed
qed

end
