(* ===== verification/RuleHeads.thy ===== *)
theory RuleHeads
  imports RuleBody
begin

text \<open>
  The meaning of a rule over valuations of its variables, and that evaluating the compiled rule derives
  the heads the rule has: compilation to slots, the evaluation of the body by either path, and the
  instantiation of the heads.
\<close>

section \<open>The meaning of a rule\<close>

fun term_value :: "(symbol \<Rightarrow> val) \<Rightarrow> rterm \<Rightarrow> val" where
  "term_value s (RValue v) = v"
| "term_value s (RVar x) = s x"

definition term_values :: "(symbol \<Rightarrow> val) \<Rightarrow> rterm list \<Rightarrow> tuple" where
  "term_values s ts = map (term_value s) ts"

fun holds_item :: "(identity \<Rightarrow> tuple set) \<Rightarrow> (symbol \<Rightarrow> val) \<Rightarrow> rule_body_item \<Rightarrow> bool" where
  "holds_item M s (ItemAtom a) \<longleftrightarrow> (term_values s (at_terms a) \<in> M (at_relation a)) = (\<not> at_negated a)"
| "holds_item M s (ItemGuard g) \<longleftrightarrow> compare_values (gd_op g) (term_value s (gd_left g)) (term_value s (gd_right g))"

definition rule_heads :: "(nat \<Rightarrow> identity \<Rightarrow> tuple set) \<Rightarrow> rule \<Rightarrow> tuple set" where
  "rule_heads M r = {term_values s (ru_head_terms r) |s. \<forall>j < length (ru_body r). holds_item (M j) s (ru_body r ! j)}"

section \<open>Compilation\<close>

fun compiles_term :: "symbol list \<Rightarrow> rterm \<Rightarrow> cterm \<Rightarrow> bool" where
  "compiles_term vs (RValue v) c \<longleftrightarrow> c = CValue v"
| "compiles_term vs (RVar s) c \<longleftrightarrow> (\<exists>k < length vs. c = CVar s k \<and> vs ! k = s)"

fun compiles_item :: "symbol list \<Rightarrow> rule_body_item \<Rightarrow> citem \<Rightarrow> bool" where
  "compiles_item vs (ItemAtom a) c \<longleftrightarrow>
     (\<exists>ts. c = CAtom \<lparr>ca_relation = at_relation a, ca_terms = ts, ca_negated = at_negated a\<rparr> \<and> list_all2 (compiles_term vs) (at_terms a) ts)"
| "compiles_item vs (ItemGuard g) c \<longleftrightarrow>
     (\<exists>l r. c = CGuard \<lparr>cg_op = gd_op g, cg_left = l, cg_right = r\<rparr> \<and> compiles_term vs (gd_left g) l \<and> compiles_term vs (gd_right g) r)"

lemma slot_of_Some: "slot_of s vs = Some k \<Longrightarrow> k < length vs \<and> vs ! k = s"
  by (induction vs arbitrary: k) (auto split: if_splits)

lemma slot_of_None: "slot_of s vs = None \<longleftrightarrow> s \<notin> set vs"
  by (induction vs) auto

lemma compiles_term_append: "compiles_term vs t c \<Longrightarrow> compiles_term (vs @ ws) t c"
  by (cases t) (auto simp: nth_append)

lemma compiles_terms_append: "list_all2 (compiles_term vs) ts cs \<Longrightarrow> list_all2 (compiles_term (vs @ ws)) ts cs"
  by (auto elim: list_all2_mono intro: compiles_term_append)

lemma compiles_item_append: "compiles_item vs i c \<Longrightarrow> compiles_item (vs @ ws) i c"
  by (cases i) (auto intro: compiles_term_append compiles_terms_append)

lemma compile_term_ok:
  assumes "compile_term t vs = (c, vs')" "distinct vs"
  shows "\<exists>ws. vs' = vs @ ws \<and> distinct vs' \<and> compiles_term vs' t c"
  using assms by (cases t) (auto split: option.splits simp: slot_of_None dest: slot_of_Some)

lemma compile_terms_ok:
  assumes "compile_terms ts vs = (cs, vs')" "distinct vs"
  shows "\<exists>ws. vs' = vs @ ws \<and> distinct vs' \<and> list_all2 (compiles_term vs') ts cs"
  using assms
proof (induction ts arbitrary: vs cs)
  case (Cons t ts)
  obtain c vs1 cs1 where c: "compile_term t vs = (c, vs1)" "compile_terms ts vs1 = (cs1, vs')" "cs = c # cs1"
    using Cons.prems(1) by (auto split: prod.splits)
  obtain ws where 1: "vs1 = vs @ ws" "distinct vs1" "compiles_term vs1 t c" using compile_term_ok [OF c(1) Cons.prems(2)] by blast
  obtain ws' where 2: "vs' = vs1 @ ws'" "distinct vs'" "list_all2 (compiles_term vs') ts cs1" using Cons.IH [OF c(2) 1(2)] by blast
  show ?case using 1 2 c(3) compiles_term_append [OF 1(3), of ws'] by auto
qed simp

lemma compile_item_ok:
  assumes "compile_item i vs = (c, vs')" "distinct vs"
  shows "\<exists>ws. vs' = vs @ ws \<and> distinct vs' \<and> compiles_item vs' i c"
proof (cases i)
  case (ItemAtom a)
  then obtain ts where ts: "compile_terms (at_terms a) vs = (ts, vs')" "c = CAtom \<lparr>ca_relation = at_relation a, ca_terms = ts, ca_negated = at_negated a\<rparr>"
    using assms(1) by (auto split: prod.splits)
  then show ?thesis using compile_terms_ok [OF ts(1) assms(2)] ItemAtom by auto
next
  case (ItemGuard g)
  then obtain l vs1 r where c: "compile_term (gd_left g) vs = (l, vs1)" "compile_term (gd_right g) vs1 = (r, vs')"
    "c = CGuard \<lparr>cg_op = gd_op g, cg_left = l, cg_right = r\<rparr>"
    using assms(1) by (auto split: prod.splits)
  obtain ws where 1: "vs1 = vs @ ws" "distinct vs1" "compiles_term vs1 (gd_left g) l" using compile_term_ok [OF c(1) assms(2)] by blast
  obtain ws' where 2: "vs' = vs1 @ ws'" "distinct vs'" "compiles_term vs' (gd_right g) r" using compile_term_ok [OF c(2) 1(2)] by blast
  show ?thesis using 1 2 c(3) compiles_term_append [OF 1(3), of ws'] ItemGuard by auto
qed

lemma compile_items_ok:
  assumes "compile_items is vs = (cs, vs')" "distinct vs"
  shows "\<exists>ws. vs' = vs @ ws \<and> distinct vs' \<and> list_all2 (compiles_item vs') is cs"
  using assms
proof (induction "is" arbitrary: vs cs)
  case (Cons i "is")
  obtain c vs1 cs1 where c: "compile_item i vs = (c, vs1)" "compile_items is vs1 = (cs1, vs')" "cs = c # cs1"
    using Cons.prems(1) by (auto split: prod.splits)
  obtain ws where 1: "vs1 = vs @ ws" "distinct vs1" "compiles_item vs1 i c" using compile_item_ok [OF c(1) Cons.prems(2)] by blast
  obtain ws' where 2: "vs' = vs1 @ ws'" "distinct vs'" "list_all2 (compiles_item vs') is cs1" using Cons.IH [OF c(2) 1(2)] by blast
  show ?case using 1 2 c(3) compiles_item_append [OF 1(3), of ws'] by auto
qed simp

text \<open>A compiled rule and the variables of its slots.\<close>

definition compiles_rule :: "symbol list \<Rightarrow> rule \<Rightarrow> crule \<Rightarrow> bool" where
  "compiles_rule vs r c \<longleftrightarrow> distinct vs \<and> cr_slot_count c = length vs \<and> cr_head_relation c = ru_head_relation r \<and>
     list_all2 (compiles_term vs) (ru_head_terms r) (cr_head_terms c) \<and> list_all2 (compiles_item vs) (ru_body r) (cr_body c) \<and>
     cr_batch_plan c = compile_two_atom_batch_plan (cr_body c)"

lemma compile_rule_ok: "\<exists>vs. compiles_rule vs r (compile_rule r)"
proof -
  obtain head vs body vs' where c: "compile_terms (ru_head_terms r) [] = (head, vs)" "compile_items (ru_body r) vs = (body, vs')"
    by (metis surj_pair)
  obtain 1: "distinct vs" "list_all2 (compiles_term vs) (ru_head_terms r) head" using compile_terms_ok [OF c(1)] by auto
  obtain ws where 2: "vs' = vs @ ws" "distinct vs'" "list_all2 (compiles_item vs') (ru_body r) body"
    using compile_items_ok [OF c(2) 1(1)] by blast
  have "compiles_rule vs' r (compile_rule r)"
    using 2 compiles_terms_append [OF 1(2), of ws] by (simp add: compiles_rule_def compile_rule_def c)
  then show ?thesis ..
qed

section \<open>Valuations and bindings\<close>

definition full_binding :: "symbol list \<Rightarrow> (symbol \<Rightarrow> val) \<Rightarrow> binding" where
  "full_binding vs s = map (\<lambda>x. Some (s x)) vs"

lemma full_binding_length [simp]: "length (full_binding vs s) = length vs"
  by (simp add: full_binding_def)

lemma term_binding_full: "compiles_term vs t c \<Longrightarrow> term_binding (full_binding vs s) c = Some (term_value s t)"
  by (cases t) (auto simp: full_binding_def)

lemma inst_full: "list_all2 (compiles_term vs) ts cs \<Longrightarrow> inst (full_binding vs s) cs = map Some (term_values s ts)"
  by (induction ts cs rule: list_all2_induct) (simp_all add: term_values_def term_binding_full)

lemma in_range_compiled: "list_all2 (compiles_term vs) ts cs \<Longrightarrow> in_range (length vs) cs"
proof (induction ts cs rule: list_all2_induct)
  case (Cons t ts c cs)
  then show ?case by (cases t) auto
qed simp

lemma sat_full: "compiles_item vs i c \<Longrightarrow> sat_item M (full_binding vs s) c = holds_item M s i"
  by (cases i) (auto simp: inst_full term_binding_full inj_map_eq_map simp del: map_eq_conv)

definition item_arity_ok :: "(identity \<Rightarrow> nat) \<Rightarrow> rule_body_item \<Rightarrow> bool" where
  "item_arity_ok ar i \<longleftrightarrow> (case i of ItemAtom a \<Rightarrow> length (at_terms a) = ar (at_relation a) | ItemGuard _ \<Rightarrow> True)"

lemma slots_ok_compiled:
  assumes "compiles_item vs i c" "item_arity_ok ar i"
  shows "item_slots_ok ar (length vs) c"
proof (cases i)
  case (ItemGuard g)
  then show ?thesis using assms(1) in_range_compiled [of vs "[gd_left g, gd_right g]"] by (auto simp: item_slots_ok_def)
qed (use assms in_range_compiled [of vs] in \<open>auto simp: item_slots_ok_def item_arity_ok_def list_all2_lengthD\<close>)

text \<open>A binding is the part of a valuation.\<close>

lemma extend_binding:
  assumes "distinct vs" "length b = length vs"
  shows "\<exists>s. env b \<subseteq>\<^sub>m env (full_binding vs s)"
proof -
  define s where "s x = (case map_of (zip vs b) x of Some (Some v) \<Rightarrow> v | _ \<Rightarrow> undefined)" for x
  have "s (vs ! k) = v" if "k < length vs" "b ! k = Some v" for k v
    using that assms map_of_zip_nth [of vs b k] by (simp add: s_def)
  then have "env b \<subseteq>\<^sub>m env (full_binding vs s)" using assms(2) by (auto simp: map_le_def env_def full_binding_def split: if_splits)
  then show ?thesis by blast
qed

section \<open>The solutions of a body\<close>

definition solves :: "(nat \<Rightarrow> identity \<Rightarrow> tuple set) \<Rightarrow> crule \<Rightarrow> binding \<Rightarrow> bool" where
  "solves M r b \<longleftrightarrow> length b = cr_slot_count r \<and> (\<forall>j < length (cr_body r). sat_item (M j) b (cr_body r ! j))"

definition positive_slots :: "crule \<Rightarrow> nat set" where
  "positive_slots r = (\<Union>item \<in> set (cr_body r). binds_slots item)"

definition solutions :: "(nat \<Rightarrow> identity \<Rightarrow> tuple set) \<Rightarrow> crule \<Rightarrow> binding list \<Rightarrow> bool" where
  "solutions M r bs \<longleftrightarrow> (\<forall>b \<in> set bs. solves M r b \<and> dom (env b) = positive_slots r) \<and> (\<forall>c. solves M r c \<longrightarrow> below bs c)"

lemma sat_items_enumerate: "sat_items M b (enumerate 0 items) \<longleftrightarrow> (\<forall>j < length items. sat_item (M j) b (items ! j))"
  by (auto simp: sat_items_def in_set_enumerate_eq)

lemma bound_enumerate: "bound_slots (enumerate n items) = (\<Union>item \<in> set items. binds_slots item)"
  by (induction items arbitrary: n) (simp_all add: bound_slots_def)

lemma body_loop_solutions:
  assumes "items_ok ar (cr_slot_count r) full delta M (enumerate 0 (cr_body r))"
    and "body_loop full delta r [replicate (cr_slot_count r) None] (enumerate 0 (cr_body r)) = Inr bs"
  shows "solutions M r bs"
proof -
  have "partial_bindings (cr_slot_count r) {} [replicate (cr_slot_count r) None]" by (simp add: partial_bindings_def)
  note res = body_loop_ok [OF assms(1) this assms(2)]
  have "below [replicate (cr_slot_count r) None] c" for c by (simp add: below_def)
  moreover have "{} \<union> bound_slots (enumerate 0 (cr_body r)) = positive_slots r"
    using bound_enumerate by (simp add: positive_slots_def)
  ultimately show ?thesis using res unfolding solutions_def solves_def sat_items_enumerate partial_bindings_def by simp
qed

text \<open>
  The contract of the packed join: where it does not decline, its rows are the pairs of tuples of the
  two relations that agree on the join positions.
\<close>

definition join_rows :: "tuple set \<Rightarrow> tuple set \<Rightarrow> nat list \<Rightarrow> nat list \<Rightarrow> val list set" where
  "join_rows A B ps qs = {t @ u |t u. t \<in> A \<and> u \<in> B \<and> map (\<lambda>p. t ! p) ps = map (\<lambda>q. u ! q) qs}"

definition join_ok :: "(identity \<Rightarrow> nat) \<Rightarrow> packed_join \<Rightarrow> bool" where
  "join_ok ar pj \<longleftrightarrow> (\<forall>rd M rd' M' r r' ps qs rows. reads ar rd M \<longrightarrow> reads ar rd' M' \<longrightarrow>
     pj rd (r, replicate (ar r) None) rd' (r', replicate (ar r') None) ps qs = Inr (Some rows) \<longrightarrow>
     set rows = join_rows (M r) (M' r') ps qs)"

lemma unify_values_append: "length t = length ts \<Longrightarrow> unify_values ts (t @ u) b = unify_values ts t b"
proof (induction ts t b rule: unify_values.induct)
  case (2 s i ts x xs b)
  then show ?case by (auto split: option.splits)
qed auto

lemma shared_positions_ok:
  assumes "in_range (length c) ls" "in_range (length c) rs" "inst c ls = map Some t" "inst c rs = map Some u"
  shows "map (\<lambda>p. t ! p) (map fst (shared_positions ls rs)) = map (\<lambda>q. u ! q) (map snd (shared_positions ls rs))"
proof -
  have len: "length t = length ls" "length u = length rs" using assms(3,4) by (metis inst_def length_map)+
  have "t ! i = u ! j" if "(i, j) \<in> set (shared_positions ls rs)" for i j
  proof -
    have ij: "i < length ls" "j < length rs" and "compiled_term_slot (ls ! i) \<noteq> None \<and> compiled_term_slot (ls ! i) = compiled_term_slot (rs ! j)"
      using that by (simp_all add: shared_positions_def) (auto, metis)
    then obtain s s' k where "ls ! i = CVar s k" "rs ! j = CVar s' k"
      by (metis compiled_term_slot.elims option.inject)
    moreover have "term_binding c (ls ! i) = Some (t ! i)" "term_binding c (rs ! j) = Some (u ! j)"
      using arg_cong [OF assms(3), of "\<lambda>l. l ! i"] arg_cong [OF assms(4), of "\<lambda>l. l ! j"] ij(1,2) len by (simp_all add: inst_def)
    ultimately show ?thesis by simp
  qed
  then show ?thesis by auto
qed

lemma batch_plan_shape:
  assumes "compile_two_atom_batch_plan body = Some plan"
  obtains l r where "body = [CAtom l, CAtom r]" "\<not> ca_negated l" "\<not> ca_negated r"
    "bp_left plan = (ca_relation l, replicate (length (ca_terms l)) None)" "bp_right plan = (ca_relation r, replicate (length (ca_terms r)) None)"
    "bp_left_positions plan = map fst (shared_positions (ca_terms l) (ca_terms r))" "bp_right_positions plan = map snd (shared_positions (ca_terms l) (ca_terms r))"
  using assms by (auto simp: compile_two_atom_batch_plan_def Let_def split: list.splits citem.splits if_splits)

lemma packed_rows_solutions:
  assumes l: "\<not> ca_negated l" "in_range n (ca_terms l)" "\<And>t. t \<in> A \<Longrightarrow> length t = length (ca_terms l)"
    and r: "\<not> ca_negated r" "in_range n (ca_terms r)" "\<And>t. t \<in> B \<Longrightarrow> length t = length (ca_terms r)"
    and rows: "set rows = join_rows A B (map fst (shared_positions (ca_terms l) (ca_terms r))) (map snd (shared_positions (ca_terms l) (ca_terms r)))"
    and bs: "bs = List.map_filter (\<lambda>row. Option.bind (unify_packed_row l (replicate n None) row 0) (\<lambda>b. unify_packed_row r b row (length (ca_terms l)))) rows"
  shows "b \<in> set bs \<Longrightarrow> length b = n \<and> dom (env b) = term_slots (ca_terms l) \<union> term_slots (ca_terms r) \<and>
      (\<exists>t \<in> A. inst b (ca_terms l) = map Some t) \<and> (\<exists>u \<in> B. inst b (ca_terms r) = map Some u)"
    "length c = n \<Longrightarrow> t \<in> A \<Longrightarrow> inst c (ca_terms l) = map Some t \<Longrightarrow> u \<in> B \<Longrightarrow> inst c (ca_terms r) = map Some u \<Longrightarrow> below bs c"
proof -
  assume "b \<in> set bs"
  then obtain t u where tu: "t \<in> A" "u \<in> B"
    "Option.bind (unify_packed_row l (replicate n None) (t @ u) 0) (\<lambda>b. unify_packed_row r b (t @ u) (length (ca_terms l))) = Some b"
    by (auto simp: bs set_map_filter rows join_rows_def)
  obtain b1 where b1: "unify_values (ca_terms l) t (replicate n None) = Some b1" "unify_values (ca_terms r) u b1 = Some b"
    using tu(3) l(3) [OF tu(1)] by (auto simp: unify_packed_row_def unify_values_append Option.bind_eq_Some_conv)
  have 1: "length b1 = n" "inst b1 (ca_terms l) = map Some t" "dom (env b1) = term_slots (ca_terms l)"
    using unify_sound [OF b1(1) l(3) [OF tu(1)]] l(2) by simp_all
  have 2: "length b = n" "env b1 \<subseteq>\<^sub>m env b" "inst b (ca_terms r) = map Some u" "dom (env b) = dom (env b1) \<union> term_slots (ca_terms r)"
    using unify_sound [OF b1(2) r(3) [OF tu(2)]] r(2) 1(1) by simp_all
  have "inst b (ca_terms l) = map Some t" by (rule inst_mono [OF 2(2) _ _ 1(2)]) (use 1(1) 2(1) l(2) in simp_all)
  then show "length b = n \<and> dom (env b) = term_slots (ca_terms l) \<union> term_slots (ca_terms r) \<and>
      (\<exists>t \<in> A. inst b (ca_terms l) = map Some t) \<and> (\<exists>u \<in> B. inst b (ca_terms r) = map Some u)"
    using 1(3) 2 tu(1,2) by blast
next
  assume c: "length c = n" "t \<in> A" "inst c (ca_terms l) = map Some t" "u \<in> B" "inst c (ca_terms r) = map Some u"
  have "t @ u \<in> set rows" unfolding rows join_rows_def using shared_positions_ok [of c, OF _ _ c(3,5)] c l(2) r(2) by blast
  moreover obtain b1 where b1: "unify_values (ca_terms l) t (replicate n None) = Some b1" "env b1 \<subseteq>\<^sub>m env c"
    using unify_complete [of "replicate n None" c "ca_terms l" t] c(1,3) l(2) by auto
  have "length b1 = n" using unify_sound(1) [OF b1(1) l(3) [OF c(2)]] l(2) by simp
  then obtain b where b: "unify_values (ca_terms r) u b1 = Some b" "env b \<subseteq>\<^sub>m env c"
    using unify_complete [OF b1(2) _ _ c(5)] c(1) r(2) by auto
  moreover have "Option.bind (unify_packed_row l (replicate n None) (t @ u) 0) (\<lambda>b. unify_packed_row r b (t @ u) (length (ca_terms l))) = Some b"
    using b1(1) b(1) l(3) [OF c(2)] by (simp add: unify_packed_row_def unify_values_append)
  ultimately show "below bs c" unfolding below_def bs set_map_filter by blast
qed

lemma evaluate_two_atom_solutions:
  assumes "join_ok ar pj" "items_ok ar (cr_slot_count r) full delta M (enumerate 0 (cr_body r))"
    and "cr_batch_plan r = compile_two_atom_batch_plan (cr_body r)" "evaluate_two_atom_batch pj full delta r = Inr (Some bs)"
  shows "solutions M r bs"
proof -
  obtain plan where plan: "cr_batch_plan r = Some plan" "compile_two_atom_batch_plan (cr_body r) = Some plan"
    using assms(3,4) by (auto simp: evaluate_two_atom_batch_def split: list.splits citem.splits option.splits)
  obtain a b where ab: "cr_body r = [CAtom a, CAtom b]" "\<not> ca_negated a" "\<not> ca_negated b"
    "bp_left plan = (ca_relation a, replicate (length (ca_terms a)) None)" "bp_right plan = (ca_relation b, replicate (length (ca_terms b)) None)"
    "bp_left_positions plan = map fst (shared_positions (ca_terms a) (ca_terms b))" "bp_right_positions plan = map snd (shared_positions (ca_terms a) (ca_terms b))"
    by (rule batch_plan_shape [OF plan(2)])
  have rds: "reads ar (reader_for_body_item full delta 0) (M 0)" "reads ar (reader_for_body_item full delta 1) (M 1)"
    and ok: "item_slots_ok ar (cr_slot_count r) (CAtom a)" "item_slots_ok ar (cr_slot_count r) (CAtom b)"
    using assms(2) by (auto simp: ab(1) items_ok_def)
  obtain rows where rows: "pj (reader_for_body_item full delta 0) (bp_left plan) (reader_for_body_item full delta 1) (bp_right plan)
        (bp_left_positions plan) (bp_right_positions plan) = Inr (Some rows)"
    "bs = List.map_filter (\<lambda>row. Option.bind (unify_packed_row a (replicate (cr_slot_count r) None) row 0)
        (\<lambda>b'. unify_packed_row b b' row (length (ca_terms a)))) rows"
    using assms(4) by (auto simp: evaluate_two_atom_batch_def ab(1) plan(1))
  have "set rows = join_rows (M 0 (ca_relation a)) (M 1 (ca_relation b)) (map fst (shared_positions (ca_terms a) (ca_terms b))) (map snd (shared_positions (ca_terms a) (ca_terms b)))"
    using rows(1) assms(1) rds ok unfolding join_ok_def ab(4-7) item_slots_ok_def by auto
  note res = packed_rows_solutions [OF ab(2) _ _ ab(3) _ _ this rows(2)]
  have len: "\<And>t. t \<in> M 0 (ca_relation a) \<Longrightarrow> length t = length (ca_terms a)" "\<And>t. t \<in> M 1 (ca_relation b) \<Longrightarrow> length t = length (ca_terms b)"
    using readsD(1) [OF rds(1)] readsD(1) [OF rds(2)] ok by (simp_all add: item_slots_ok_def)
  have rng: "in_range (cr_slot_count r) (ca_terms a)" "in_range (cr_slot_count r) (ca_terms b)" using ok by (simp_all add: item_slots_ok_def)
  have s: "solves M r c \<longleftrightarrow> length c = cr_slot_count r \<and> (\<exists>t \<in> M 0 (ca_relation a). inst c (ca_terms a) = map Some t) \<and>
      (\<exists>t \<in> M 1 (ca_relation b). inst c (ca_terms b) = map Some t)" for c
    using ab(2,3) by (auto simp: solves_def ab(1) less_Suc_eq)
  have "positive_slots r = term_slots (ca_terms a) \<union> term_slots (ca_terms b)" using ab(1-3) by (simp add: positive_slots_def)
  then show ?thesis unfolding solutions_def s using res [OF rng(1) len(1) rng(2) len(2)] by blast
qed

lemma evaluate_body_solutions:
  assumes "join_ok ar pj" "items_ok ar (cr_slot_count r) full delta M (enumerate 0 (cr_body r))"
    and "cr_batch_plan r = compile_two_atom_batch_plan (cr_body r)" "evaluate_body_with_readers pj full delta r = Inr bs"
  shows "solutions M r bs"
proof -
  obtain res where res: "evaluate_two_atom_batch pj full delta r = Inr res"
    "(case res of Some bs \<Rightarrow> Inr bs | None \<Rightarrow> body_loop full delta r [replicate (cr_slot_count r) None] (enumerate 0 (cr_body r))) = Inr bs"
    using assms(4) by (auto simp: evaluate_body_with_readers_def)
  show ?thesis
  proof (cases res)
    case None
    then show ?thesis using body_loop_solutions [OF assms(2)] res(2) by simp
  next
    case (Some bs')
    then show ?thesis using evaluate_two_atom_solutions [OF assms(1-3), of bs] res by simp
  qed
qed

end
