(* ===== verification/RuleMaps.thy ===== *)
theory RuleMaps
  imports RuleHeads
begin

text \<open>
  Maps from relations to sets of tuples, and the readers over them: the readers of derived tuples, of
  a component under evaluation and of a frontier each read the union of what they are built from.
\<close>

section \<open>Maps of tuples\<close>

definition tuples :: "tuple_map \<Rightarrow> identity \<Rightarrow> tuple set" where
  "tuples m r = set (tm_get m r)"

lemma set_finish [simp]: "set (finish_tuple_rows xs) = set xs"
  by (simp add: finish_tuple_rows_def)

lemma tuples_Nil [simp]: "tuples [] r = {}"
  by (simp add: tuples_def tm_get_def)

lemma tuples_absent: "\<not> om_contains m r \<Longrightarrow> tuples m r = {}"
  by (simp add: tuples_def tm_get_def om_contains_def)

lemma tuples_extend [simp]:
  assumes "om_ok m"
  shows "om_ok (tm_extend r ts m)" "tuples (tm_extend r ts m) = (tuples m)(r := tuples m r \<union> set ts)"
  using assms by (auto simp: tm_extend_def tuples_def tm_get_def fun_eq_iff)

lemma tuples_entries: "om_ok m \<Longrightarrow> tuples m r = {t. \<exists>ts. (r, ts) \<in> set m \<and> t \<in> set ts}"
  by (cases "om_get m r") (simp_all add: tuples_def tm_get_def om_get_mem [symmetric])

lemma merge_entries:
  assumes "om_ok m"
  shows "om_ok (merge_derived m es) \<and> tuples (merge_derived m es) r = tuples m r \<union> {t. \<exists>ts. (r, ts) \<in> set es \<and> t \<in> set ts}"
  using assms
proof (induction es arbitrary: m)
  case (Cons e es)
  obtain q ts where e: "e = (q, ts)" by force
  have "merge_derived m (e # es) = merge_derived (tm_extend q ts m) es" by (simp add: merge_derived_def e)
  then show ?case using Cons.IH [of "tm_extend q ts m"] Cons.prems by (auto simp: e)
qed (simp add: merge_derived_def)

lemma tuples_merge [simp]:
  assumes "om_ok m" "om_ok n"
  shows "om_ok (merge_derived m n)" "tuples (merge_derived m n) = (\<lambda>r. tuples m r \<union> tuples n r)"
  using merge_entries [OF assms(1), of n] tuples_entries [OF assms(2)] by (auto simp: fun_eq_iff)

lemma tuples_novel [simp]:
  assumes "om_ok m"
  shows "om_ok (novel_candidates m full)" "tuples (novel_candidates m full) = (\<lambda>r. tuples m r - tuples full r)"
proof -
  have k: "map fst (novel_candidates m full) = map fst m" by (simp add: novel_candidates_def case_prod_beta o_def)
  then show "om_ok (novel_candidates m full)" using assms by (simp add: om_ok_def)
  then show "tuples (novel_candidates m full) = (\<lambda>r. tuples m r - tuples full r)"
    unfolding fun_eq_iff tuples_entries [OF assms] tuples_entries [OF \<open>om_ok (novel_candidates m full)\<close>]
    by (force simp: novel_candidates_def tuples_def)
qed

lemma all_empty_tuples: "om_ok m \<Longrightarrow> all_empty m \<longleftrightarrow> (\<forall>r. tuples m r = {})"
  by (simp add: all_empty_def tuples_entries) (metis empty_iff equals0I prod.collapse set_empty2 snd_conv)

section \<open>The readers\<close>

definition arities_ok :: "(identity \<Rightarrow> nat) \<Rightarrow> tuple_map \<Rightarrow> bool" where
  "arities_ok ar m \<longleftrightarrow> (\<forall>r. \<forall>t \<in> tuples m r. length t = ar r)"

lemma set_extend_matching: "set (extend_matching rows (tm_get m r) bs) = set rows \<union> matching_rows (tuples m) r bs"
  by (auto simp: extend_matching_def matching_rows_def tuples_def)

lemma answer_extend:
  assumes "answer_ok A r res" "\<And>rows. set (f rows) = set rows \<union> B"
  shows "answer_ok (A \<union> B) r (map_sum id f (hide_unknown r [] res))"
  using assms by (cases res) (auto simp: answer_ok_def hide_unknown_def)

lemma answer_hide: "answer_ok A r res \<Longrightarrow> answer_ok A r (hide_unknown r [] res)"
  by (cases res) (auto simp: answer_ok_def hide_unknown_def)

lemma matching_union: "matching_rows (\<lambda>r. M r \<union> N r) r bs = matching_rows M r bs \<union> matching_rows N r bs"
  by (auto simp: matching_rows_def)

lemma readsD_answer:
  assumes "reads ar rd M" "length bs = ar r"
  shows "answer_ok (matching_rows M r bs) r (rd_scan rd r bs)" "answer_ok (matching_rows M r bs) r (rd_visit rd r bs)"
  using assms unfolding reads_def by blast+

lemma batch_none: "N r = {} \<Longrightarrow> batch_ok (\<lambda>q. M q \<union> N q) r keys rows = batch_ok M r keys rows"
  by (simp add: batch_ok_def matching_rows_def)

lemma derived_reader_reads:
  assumes "reads ar rd M" "arities_ok ar dm"
  shows "reads ar (derived_reader rd dm) (\<lambda>r. M r \<union> tuples dm r)"
proof -
  let ?M = "\<lambda>r. M r \<union> tuples dm r"
  have scan: "answer_ok (matching_rows ?M r bs) r (rd_scan (derived_reader rd dm) r bs)" if "length bs = ar r" for r bs
    using answer_extend [OF readsD_answer(1) [OF assms(1) that] set_extend_matching]
    by (simp add: derived_reader_def Let_def matching_union)
  have visit: "answer_ok (matching_rows ?M r bs) r (rd_visit (derived_reader rd dm) r bs)" if "length bs = ar r" for r bs
  proof (cases "om_contains dm r")
    case True
    then have "rd_visit (derived_reader rd dm) r bs = rd_scan (derived_reader rd dm) r bs" by (simp add: derived_reader_def Let_def)
    then show ?thesis using scan [OF that] by simp
  next
    case False
    then show ?thesis using answer_hide [OF readsD_answer(2) [OF assms(1) that]] tuples_absent [OF False]
      by (simp add: derived_reader_def Let_def matching_rows_def)
  qed
  have "batch_ok ?M r keys rows" if "\<forall>bs \<in> set keys. length bs = ar r" "rd_batch (derived_reader rd dm) r keys = Inr (Some rows)" for r keys rows
  proof -
    have "\<not> om_contains dm r" "rd_batch rd r keys = Inr (Some rows)" using that(2) by (auto simp: derived_reader_def Let_def split: if_splits)
    then show ?thesis using readsD(4) [OF assms(1) that(1)] batch_none [of "tuples dm" r M] tuples_absent by simp
  qed
  then show ?thesis using scan visit readsD(1) [OF assms(1)] assms(2) unfolding reads_def arities_ok_def by blast
qed

lemma scc_reader_reads:
  assumes "reads ar rd M" "arities_ok ar dm" "arities_ok ar full"
  shows "reads ar (scc_reader rd dm full) (\<lambda>r. M r \<union> (tuples dm r \<union> tuples full r))"
proof -
  let ?M = "\<lambda>r. M r \<union> (tuples dm r \<union> tuples full r)"
  have scan: "answer_ok (matching_rows ?M r bs) r (rd_scan (scc_reader rd dm full) r bs)" if "length bs = ar r" for r bs
    using answer_extend [OF readsD_answer(1) [OF assms(1) that],
        of "\<lambda>rows. extend_matching (extend_matching rows (tm_get dm r) bs) (tm_get full r) bs" "matching_rows (\<lambda>r. tuples dm r \<union> tuples full r) r bs"]
    by (simp add: scc_reader_def Let_def matching_union set_extend_matching Un_assoc)
  moreover have "rd_visit (scc_reader rd dm full) r bs = rd_scan (scc_reader rd dm full) r bs" for r bs
    by (simp add: scc_reader_def Let_def)
  moreover have "batch_ok ?M r keys rows" if "\<forall>bs \<in> set keys. length bs = ar r" "rd_batch (scc_reader rd dm full) r keys = Inr (Some rows)" for r keys rows
  proof -
    have "\<not> om_contains dm r" "\<not> om_contains full r" "rd_batch rd r keys = Inr (Some rows)"
      using that(2) by (auto simp: scc_reader_def Let_def split: if_splits)
    then show ?thesis using readsD(4) [OF assms(1) that(1)] batch_none [of "\<lambda>r. tuples dm r \<union> tuples full r" r M] tuples_absent by simp
  qed
  ultimately show ?thesis using readsD(1) [OF assms(1)] assms(2,3) unfolding reads_def arities_ok_def by auto
qed

lemma tuple_map_reader_reads: "arities_ok ar m \<Longrightarrow> reads ar (tuple_map_reader m) (tuples m)"
  by (auto simp: reads_def arities_ok_def tuple_map_reader_def Let_def answer_ok_def matching_rows_def tuples_def)

section \<open>Rules\<close>

definition rule_arity_ok :: "(identity \<Rightarrow> nat) \<Rightarrow> rule \<Rightarrow> bool" where
  "rule_arity_ok ar r \<longleftrightarrow> length (ru_head_terms r) = ar (ru_head_relation r) \<and> (\<forall>i \<in> set (ru_body r). item_arity_ok ar i)"

lemma head_values_ok: "head_values ts b = Inr t \<longleftrightarrow> inst b ts = map Some t"
proof (induction ts b arbitrary: t rule: head_values.induct)
  case (3 s i ts b)
  then show ?case by (auto split: option.splits simp: Cons_eq_map_conv)
qed (auto simp: Cons_eq_map_conv)

lemma insert_heads_ok:
  assumes "om_ok out" "insert_heads r bs out = Inr out'"
  shows "om_ok out'" "tuples out' = (tuples out)(cr_head_relation r := tuples out (cr_head_relation r) \<union> {t. \<exists>b \<in> set bs. inst b (cr_head_terms r) = map Some t})"
    "\<forall>b \<in> set bs. \<exists>t. inst b (cr_head_terms r) = map Some t"
proof -
  have "om_ok out' \<and> tuples out' = (tuples out)(cr_head_relation r := tuples out (cr_head_relation r) \<union> {t. \<exists>b \<in> set bs. inst b (cr_head_terms r) = map Some t}) \<and>
    (\<forall>b \<in> set bs. \<exists>t. inst b (cr_head_terms r) = map Some t)"
    using assms
  proof (induction bs arbitrary: out)
    case (Cons b bs)
    obtain t where t: "inst b (cr_head_terms r) = map Some t" "insert_heads r bs (tm_extend (cr_head_relation r) [t] out) = Inr out'"
      using Cons.prems(2) by (auto simp: instantiate_head_def head_values_ok)
    have "{u. inst b (cr_head_terms r) = map Some u} = {t}" using t(1) by (auto simp: inj_map_eq_map)
    then show ?case using Cons.IH [OF _ t(2)] Cons.prems(1) t(1) by (auto simp: fun_eq_iff)
  qed simp
  then show "om_ok out'" "tuples out' = (tuples out)(cr_head_relation r := tuples out (cr_head_relation r) \<union> {t. \<exists>b \<in> set bs. inst b (cr_head_terms r) = map Some t})"
    "\<forall>b \<in> set bs. \<exists>t. inst b (cr_head_terms r) = map Some t" by blast+
qed

text \<open>The values of a head are constants of the rule or values of the tuples its body reads.\<close>

definition rule_constants :: "rule \<Rightarrow> val set" where
  "rule_constants r = {v. RValue v \<in> set (ru_head_terms r)}"

lemma compiled_constant: "list_all2 (compiles_term vs) ts cs \<Longrightarrow> CValue v \<in> set cs \<Longrightarrow> RValue v \<in> set ts"
proof (induction ts cs rule: list_all2_induct)
  case (Cons t ts c cs)
  then show ?case by (cases t) auto
qed simp

lemma slot_value:
  assumes "inst b ts = map Some t" "k \<in> term_slots ts"
  shows "\<exists>v \<in> set t. b ! k = Some v"
  using assms
proof (induction ts arbitrary: t)
  case (Cons x ts)
  then show ?case by (cases x) (auto simp: Cons_eq_map_conv)
qed simp

lemma solves_values:
  assumes "solves M r b" "dom (env b) = positive_slots r" "inst b hs = map Some t" "\<And>j q t. t \<in> M j q \<Longrightarrow> set t \<subseteq> V"
    and "\<And>v. CValue v \<in> set hs \<Longrightarrow> v \<in> V" "in_range (length b) hs"
  shows "set t \<subseteq> V"
proof -
  have slot: "v \<in> V" if k: "k < length b" "b ! k = Some v" for k v
  proof -
    have "k \<in> positive_slots r" using k assms(2) by (auto simp: env_def dom_def)
    then obtain j where j: "j < length (cr_body r)" "k \<in> binds_slots (cr_body r ! j)" by (auto simp: positive_slots_def in_set_conv_nth)
    then obtain a where a: "cr_body r ! j = CAtom a" "\<not> ca_negated a" "k \<in> term_slots (ca_terms a)"
      by (cases "cr_body r ! j") (auto split: if_splits)
    have "sat_item (M j) b (CAtom a)" using assms(1) j(1) a(1) unfolding solves_def by metis
    then obtain u where u: "inst b (ca_terms a) = map Some u" "u \<in> M j (ca_relation a)" using a(2) by auto
    have "v \<in> set u" using slot_value [OF u(1) a(3)] k(2) by simp
    then show ?thesis using assms(4) [OF u(2)] by blast
  qed
  show ?thesis using assms(3,5,6)
  proof (induction hs arbitrary: t)
    case (Cons x hs)
    then show ?case using slot by (cases x) (auto simp: Cons_eq_map_conv)
  qed simp
qed

text \<open>One rule: the bindings of its body and the heads they give.\<close>

lemma evaluate_rule_ok:
  assumes "join_ok ar pj" "rule_arity_ok ar r" "\<And>j. reads ar (reader_for_body_item full delta j) (M j)" "om_ok out"
    and "evaluate_body_with_readers pj full delta (compile_rule r) = Inr bs" "insert_heads (compile_rule r) bs out = Inr out'"
  shows "om_ok out'" "tuples out' = (tuples out)(ru_head_relation r := tuples out (ru_head_relation r) \<union> rule_heads M r)"
    "rule_constants r \<subseteq> V \<Longrightarrow> (\<And>j q t. t \<in> M j q \<Longrightarrow> set t \<subseteq> V) \<Longrightarrow> t \<in> rule_heads M r \<Longrightarrow> set t \<subseteq> V"
proof -
  obtain vs where "compiles_rule vs r (compile_rule r)" using compile_rule_ok by blast
  then have c: "distinct vs" "cr_slot_count (compile_rule r) = length vs" "cr_head_relation (compile_rule r) = ru_head_relation r"
    "list_all2 (compiles_term vs) (ru_head_terms r) (cr_head_terms (compile_rule r))"
    "list_all2 (compiles_item vs) (ru_body r) (cr_body (compile_rule r))"
    "cr_batch_plan (compile_rule r) = compile_two_atom_batch_plan (cr_body (compile_rule r))"
    by (simp_all add: compiles_rule_def)
  let ?b = "cr_body (compile_rule r)" and ?h = "cr_head_terms (compile_rule r)"
  have len: "length ?b = length (ru_body r)" using c(5) by (simp add: list_all2_lengthD)
  have it: "compiles_item vs (ru_body r ! j) (?b ! j)" if "j < length (ru_body r)" for j using list_all2_nthD [OF c(5)] that by simp
  have slots: "item_slots_ok ar (length vs) (?b ! j)" if "j < length (ru_body r)" for j
    using slots_ok_compiled [OF it [OF that]] assms(2) that by (simp add: rule_arity_ok_def)
  have "items_ok ar (cr_slot_count (compile_rule r)) full delta M (enumerate 0 ?b)"
    using slots assms(3) len by (auto simp: items_ok_def in_set_enumerate_eq c(2))
  then have sol: "solutions M (compile_rule r) bs" by (rule evaluate_body_solutions [OF assms(1) _ c(6) assms(5)])
  have full: "solves M (compile_rule r) (full_binding vs s) \<longleftrightarrow> (\<forall>j < length (ru_body r). holds_item (M j) s (ru_body r ! j))" for s
    using sat_full [OF it] by (simp add: solves_def c(2) len)
  note ins = insert_heads_ok [OF assms(4,6)]
  have heads: "{t. \<exists>b \<in> set bs. inst b ?h = map Some t} = rule_heads M r"
  proof (intro set_eqI iffI)
    fix t assume "t \<in> {t. \<exists>b \<in> set bs. inst b ?h = map Some t}"
    then obtain b where b: "b \<in> set bs" "inst b ?h = map Some t" by blast
    have s: "solves M (compile_rule r) b" using sol b(1) by (simp add: solutions_def)
    then have lb: "length b = length vs" by (simp add: solves_def c(2))
    obtain s where le: "env b \<subseteq>\<^sub>m env (full_binding vs s)" using extend_binding [OF c(1) lb] by blast
    have "sat_item (M j) (full_binding vs s) (?b ! j)" if j: "j < length (ru_body r)" for j
      using sat_item_mono [OF le _ slots [OF j, folded lb]] s j len lb by (simp add: solves_def)
    then have "\<forall>j < length (ru_body r). holds_item (M j) s (ru_body r ! j)" using sat_full [OF it] by blast
    moreover have "inst (full_binding vs s) ?h = map Some t"
      by (rule inst_mono [OF le _ _ b(2)]) (use lb in_range_compiled [OF c(4)] in simp_all)
    then have "term_values s (ru_head_terms r) = t" using inst_full [OF c(4)] by (simp add: inj_map_eq_map)
    ultimately show "t \<in> rule_heads M r" by (auto simp: rule_heads_def)
  next
    fix t assume "t \<in> rule_heads M r"
    then obtain s where s: "t = term_values s (ru_head_terms r)" "solves M (compile_rule r) (full_binding vs s)"
      unfolding rule_heads_def full by blast
    then obtain b where b: "b \<in> set bs" "env b \<subseteq>\<^sub>m env (full_binding vs s)" using sol by (auto simp: solutions_def below_def)
    obtain u where u: "inst b ?h = map Some u" using ins(3) b(1) by blast
    have lb: "length b = length vs" using sol b(1) by (simp add: solutions_def solves_def c(2))
    have "inst (full_binding vs s) ?h = map Some u"
      by (rule inst_mono [OF b(2) _ _ u]) (use lb in_range_compiled [OF c(4)] in simp_all)
    then have "u = t" using inst_full [OF c(4)] s(1) by (simp add: inj_map_eq_map)
    then show "t \<in> {t. \<exists>b \<in> set bs. inst b ?h = map Some t}" using b(1) u by blast
  qed
  then show "om_ok out'" "tuples out' = (tuples out)(ru_head_relation r := tuples out (ru_head_relation r) \<union> rule_heads M r)"
    using ins(1,2) c(3) by simp_all
  show "set t \<subseteq> V" if V: "rule_constants r \<subseteq> V" "\<And>j q t. t \<in> M j q \<Longrightarrow> set t \<subseteq> V" and t: "t \<in> rule_heads M r"
  proof -
    obtain b where b: "b \<in> set bs" "inst b ?h = map Some t" using t heads by blast
    have s: "solves M (compile_rule r) b" "dom (env b) = positive_slots (compile_rule r)" using sol b(1) by (simp_all add: solutions_def)
    have "in_range (length b) ?h" using s(1) in_range_compiled [OF c(4)] by (simp add: solves_def c(2))
    moreover have "v \<in> V" if "CValue v \<in> set ?h" for v using compiled_constant [OF c(4) that] V(1) by (auto simp: rule_constants_def)
    ultimately show ?thesis using solves_values [of M "compile_rule r" b ?h t V] s b(2) V(2) by blast
  qed
qed

lemma evaluate_rules_once_ok:
  assumes "join_ok ar pj" "\<forall>r \<in> set rules. rule_arity_ok ar r" "reads ar rd M"
  shows "om_ok out \<Longrightarrow> evaluate_rules_once pj rd (map compile_rule rules) out = Inr out' \<Longrightarrow>
    om_ok out' \<and> tuples out' q = tuples out q \<union> (\<Union>r \<in> {r \<in> set rules. ru_head_relation r = q}. rule_heads (\<lambda>_. M) r)"
  using assms(2)
proof (induction rules arbitrary: out)
  case (Cons r rules)
  obtain bs mid where e: "evaluate_body_with_readers pj rd None (compile_rule r) = Inr bs" "insert_heads (compile_rule r) bs out = Inr mid"
    "evaluate_rules_once pj rd (map compile_rule rules) mid = Inr out'"
    using Cons.prems(2) by auto
  have r: "reads ar (reader_for_body_item rd None j) M" for j using assms(3) by (simp add: reader_for_body_item_def)
  have arity: "rule_arity_ok ar r" "\<forall>r \<in> set rules. rule_arity_ok ar r" using Cons.prems(3) by simp_all
  note step = evaluate_rule_ok [where M = "\<lambda>_. M", OF assms(1) arity(1) r Cons.prems(1) e(1,2)]
  show ?case using Cons.IH [OF step(1) e(3) arity(2)] step(2) by auto
qed simp

lemma evaluate_variants_ok:
  assumes "join_ok ar pj" "reads ar full M" "reads ar delta D" "\<forall>r \<in> set rules. rule_arity_ok ar r"
  shows "om_ok out \<Longrightarrow> \<forall>v \<in> set vs. rv_rule_index v < length rules \<Longrightarrow>
    evaluate_recursive_variants pj full delta (map compile_rule rules) vs out = Inr out' \<Longrightarrow>
    om_ok out' \<and> tuples out' q = tuples out q \<union> (\<Union>v \<in> {v \<in> set vs. ru_head_relation (rules ! rv_rule_index v) = q}.
      rule_heads (\<lambda>j. if j = rv_delta_body_index v then D else M) (rules ! rv_rule_index v))"
proof (induction vs arbitrary: out)
  case (Cons v vs)
  let ?r = "rules ! rv_rule_index v" and ?M = "\<lambda>j. if j = rv_delta_body_index v then D else M"
  have v: "rv_rule_index v < length rules" "\<forall>v \<in> set vs. rv_rule_index v < length rules" using Cons.prems(2) by simp_all
  obtain bs mid where e: "evaluate_body_with_readers pj full (Some (delta, rv_delta_body_index v)) (compile_rule ?r) = Inr bs"
    "insert_heads (compile_rule ?r) bs out = Inr mid" "evaluate_recursive_variants pj full delta (map compile_rule rules) vs mid = Inr out'"
    using Cons.prems(3) v by auto
  have r: "reads ar (reader_for_body_item full (Some (delta, rv_delta_body_index v)) j) (?M j)" for j
    using assms(2,3) by (simp add: reader_for_body_item_def)
  have arity: "rule_arity_ok ar ?r" using assms(4) v(1) by simp
  note step = evaluate_rule_ok [where M = ?M, OF assms(1) arity r Cons.prems(1) e(1,2)]
  show ?case using Cons.IH [OF step(1) v(2) e(3)] step(2) by auto
qed simp

end
