(* ===== verification/RuleStrata.thy ===== *)
theory RuleStrata
  imports RuleData
begin

text \<open>
  Stratification and components are correct: the strata are the least ones in which negation looks
  strictly down, they exist exactly when no relation depends on its own negation, and the components
  of a stratum are its sets of mutually dependent relations, dependencies first.
\<close>

section \<open>Strata\<close>

definition depends :: "rule list \<Rightarrow> bool \<Rightarrow> identity \<Rightarrow> identity \<Rightarrow> bool" where
  "depends rules negated h b \<longleftrightarrow> b \<in> ru_head_relation ` set rules \<and>
     (\<exists>r \<in> set rules. ru_head_relation r = h \<and> (\<exists>a \<in> set (body_atoms r). at_relation a = b \<and> at_negated a = negated))"

definition strata_ok :: "rule list \<Rightarrow> (identity \<Rightarrow> nat) \<Rightarrow> bool" where
  "strata_ok rules strata \<longleftrightarrow> (\<forall>negated h b. depends rules negated h b \<longrightarrow> strata b + (if negated then 1 else 0) \<le> strata h)"

definition weight :: "atom \<Rightarrow> nat" where
  "weight a = (if at_negated a then 1 else 0)"

lemma derived_relations_set [simp]: "set (derived_relations rules) = ru_head_relation ` set rules"
  by (simp add: derived_relations_def)

lemma derived_relations_distinct [simp]: "distinct (derived_relations rules)" "sorted (derived_relations rules)"
  by (simp_all add: derived_relations_def)

lemma strata_ok_alt:
  "strata_ok rules strata \<longleftrightarrow> (\<forall>r \<in> set rules. \<forall>a \<in> set (body_atoms r). at_relation a \<in> ru_head_relation ` set rules \<longrightarrow>
     strata (at_relation a) + weight a \<le> strata (ru_head_relation r))"
  unfolding strata_ok_def depends_def weight_def by (intro iffI ballI allI impI) (blast, metis)

text \<open>The stratum a rule requires is the least bound of what its head has and its atoms need.\<close>

lemma fold_bound:
  fixes f :: "'a \<Rightarrow> nat" and P :: "'a \<Rightarrow> bool" and as :: "'a list" and h :: nat
  defines "g \<equiv> fold (\<lambda>a h. if P a then h else let q = f a in if h < q then q else h) as h"
  shows "h \<le> g" "a \<in> set as \<Longrightarrow> \<not> P a \<Longrightarrow> f a \<le> g" "h \<le> m \<Longrightarrow> \<forall>a \<in> set as. \<not> P a \<longrightarrow> f a \<le> m \<Longrightarrow> g \<le> m"
proof -
  let ?F = "\<lambda>as h. fold (\<lambda>a h. if P a then h else let q = f a in if h < q then q else h) as h"
  have low: "h \<le> ?F as h" for as h by (induction as arbitrary: h) (auto simp: Let_def, (meson le_trans less_imp_le)+)
  show "h \<le> g" unfolding g_def by (rule low)
  show "f a \<le> g" if "a \<in> set as" "\<not> P a" using that unfolding g_def
  proof (induction as arbitrary: h)
    case (Cons x xs)
    then show ?case using low [of _ xs] by (auto simp: Let_def intro: le_trans [OF _ low])
  qed simp
  show "g \<le> m" if "h \<le> m" "\<forall>a \<in> set as. \<not> P a \<longrightarrow> f a \<le> m" using that unfolding g_def
    by (induction as arbitrary: h) (auto simp: Let_def)
qed

lemma head_stratum_bound:
  fixes heads :: "identity list" and strata :: "identity \<Rightarrow> nat" and r :: rule
  defines "h \<equiv> head_stratum heads strata r"
  shows "strata (ru_head_relation r) \<le> h"
    "a \<in> set (body_atoms r) \<Longrightarrow> at_relation a \<in> set heads \<Longrightarrow> strata (at_relation a) + weight a \<le> h"
    "strata (ru_head_relation r) \<le> m \<Longrightarrow>
       \<forall>a \<in> set (body_atoms r). at_relation a \<in> set heads \<longrightarrow> strata (at_relation a) + weight a \<le> m \<Longrightarrow> h \<le> m"
  using fold_bound [where P = "\<lambda>a. at_relation a \<notin> set heads" and f = "\<lambda>a. strata (at_relation a) + (if at_negated a then 1 else 0)" and as = "body_atoms r"]
  unfolding h_def head_stratum_def weight_def by blast+

lemma pass_ok:
  assumes "strata_pass heads rs strata = (changed, strata')"
  shows "strata i \<le> strata' i"
    "r \<in> set rs \<Longrightarrow> a \<in> set (body_atoms r) \<Longrightarrow> at_relation a \<in> set heads \<Longrightarrow> strata (at_relation a) + weight a \<le> strata' (ru_head_relation r)"
    "\<not> changed \<Longrightarrow> strata' = strata"
    "\<forall>i. strata i \<le> bound i \<Longrightarrow>
       \<forall>r \<in> set rs. \<forall>a \<in> set (body_atoms r). at_relation a \<in> set heads \<longrightarrow> bound (at_relation a) + weight a \<le> bound (ru_head_relation r) \<Longrightarrow>
       strata' i \<le> bound i"
proof -
  have mono: "strata i \<le> snd (strata_pass heads rs strata) i" for rs strata i
  proof (induction rs arbitrary: strata)
    case (Cons r rs)
    let ?s = "strata(ru_head_relation r := head_stratum heads strata r)"
    have "strata i \<le> ?s i" using head_stratum_bound(1) [of strata r heads] by simp
    from order_trans [OF this Cons.IH [of ?s]] show ?case using Cons.IH [of strata] by (simp add: Let_def del: fun_upd_apply)
  qed simp
  show "strata i \<le> strata' i" using mono [of strata i rs] assms by simp
  show "strata (at_relation a) + weight a \<le> strata' (ru_head_relation r)"
    if "r \<in> set rs" "a \<in> set (body_atoms r)" "at_relation a \<in> set heads"
    using that assms
  proof (induction rs arbitrary: strata changed strata')
    case (Cons q rs)
    let ?s = "strata(ru_head_relation q := head_stratum heads strata q)"
    have rest: "strata_pass heads rs ?s = (c, s') \<Longrightarrow> strata' = s' \<Longrightarrow> ?case" for c s'
    proof -
      assume p: "strata_pass heads rs ?s = (c, s')" "strata' = s'"
      show ?case
      proof (cases "r = q")
        case True
        have "strata (at_relation a) + weight a \<le> ?s (ru_head_relation r)" using head_stratum_bound(2) [of a q heads strata] Cons.prems True by simp
        then show ?thesis using mono [of ?s "ru_head_relation r" rs] p order_trans by fastforce
      next
        case False
        have "strata (at_relation a) \<le> ?s (at_relation a)" using head_stratum_bound(1) [of strata q heads] by simp
        then show ?thesis using Cons.IH [OF _ Cons.prems(2,3) p(1)] Cons.prems(1) False p(2) by fastforce
      qed
    qed
    show ?case
    proof (cases "strata (ru_head_relation q) = head_stratum heads strata q")
      case True
      then have "?s = strata" by (auto simp: fun_eq_iff)
      then show ?thesis using rest [of changed strata'] Cons.prems(4) True by (simp add: Let_def)
    next
      case False
      then show ?thesis using rest Cons.prems(4) by (cases "strata_pass heads rs ?s") (auto simp: Let_def)
    qed
  qed simp
  show "strata' = strata" if "\<not> changed" using that assms
    by (induction rs arbitrary: strata) (auto simp: Let_def split: if_splits)
  show "strata' i \<le> bound i" if "\<forall>i. strata i \<le> bound i"
    "\<forall>r \<in> set rs. \<forall>a \<in> set (body_atoms r). at_relation a \<in> set heads \<longrightarrow> bound (at_relation a) + weight a \<le> bound (ru_head_relation r)"
  proof -
    have "snd (strata_pass heads rs strata) i \<le> bound i" using that
    proof (induction rs arbitrary: strata)
      case (Cons q rs)
      have "head_stratum heads strata q \<le> bound (ru_head_relation q)"
      proof (rule head_stratum_bound(3))
        show "\<forall>a \<in> set (body_atoms q). at_relation a \<in> set heads \<longrightarrow> strata (at_relation a) + weight a \<le> bound (ru_head_relation q)"
          using Cons.prems by (meson add_le_mono1 le_trans list.set_intros(1))
      qed (use Cons.prems in simp)
      then have "\<forall>i. (strata(ru_head_relation q := head_stratum heads strata q)) i \<le> bound i" using Cons.prems(1) by simp
      then show ?case using Cons.IH Cons.prems by (auto simp: Let_def)
    qed simp
    then show ?thesis using assms by simp
  qed
qed

text \<open>The least strata, where there are any.\<close>

definition least_strata :: "rule list \<Rightarrow> identity \<Rightarrow> nat" where
  "least_strata rules i = (LEAST k. \<exists>strata. strata_ok rules strata \<and> strata i = k)"

lemma least_strata_le: "strata_ok rules strata \<Longrightarrow> least_strata rules i \<le> strata i"
  unfolding least_strata_def by (rule Least_le) blast

lemma least_strata_ok:
  assumes "strata_ok rules strata"
  shows "strata_ok rules (least_strata rules)"
  unfolding strata_ok_def
proof (intro allI impI)
  fix negated h b assume d: "depends rules negated h b"
  have "\<exists>k s. strata_ok rules s \<and> s h = k" using assms by blast
  from LeastI_ex [OF this] obtain s where s: "strata_ok rules s" "s h = least_strata rules h" unfolding least_strata_def by blast
  show "least_strata rules b + (if negated then 1 else 0) \<le> least_strata rules h"
    using least_strata_le [OF s(1), of b] s d unfolding strata_ok_def by (metis add_le_mono1 le_trans)
qed

definition unsettled :: "rule list \<Rightarrow> (identity \<Rightarrow> nat) \<Rightarrow> identity set" where
  "unsettled rules strata = {i \<in> ru_head_relation ` set rules. strata i < least_strata rules i}"

text \<open>Every pass settles a relation: otherwise the strata of the unsettled ones could be one lower.\<close>

lemma pass_progress:
  assumes "strata_ok rules some" "\<forall>i. strata i \<le> least_strata rules i" "unsettled rules strata \<noteq> {}"
    and "strata_pass (derived_relations rules) rules strata = (changed, strata')"
  shows "unsettled rules strata' \<subset> unsettled rules strata"
proof -
  let ?L = "least_strata rules" and ?U = "unsettled rules strata"
  have sub: "unsettled rules strata' \<subseteq> ?U" using pass_ok(1) [OF assms(4)] unfolding unsettled_def by (auto intro: le_less_trans)
  have "unsettled rules strata' \<noteq> ?U"
  proof
    assume eq: "unsettled rules strata' = ?U"
    define M where "M = (\<lambda>i. if i \<in> ?U then ?L i - 1 else ?L i)"
    have "strata_ok rules M" unfolding strata_ok_alt
    proof (intro ballI impI)
      fix r a assume r: "r \<in> set rules" "a \<in> set (body_atoms r)" "at_relation a \<in> ru_head_relation ` set rules"
      let ?h = "ru_head_relation r" and ?b = "at_relation a"
      have L: "?L ?b + weight a \<le> ?L ?h" using least_strata_ok [OF assms(1)] r unfolding strata_ok_alt by blast
      show "M ?b + weight a \<le> M ?h"
      proof (cases "?h \<in> ?U")
        case True
        then have pos: "strata' ?h < ?L ?h" using eq by (auto simp: unsettled_def)
        show ?thesis
        proof (cases "?b \<in> ?U")
          case True
          then have "?L ?b > 0" by (auto simp: unsettled_def)
          then show ?thesis using L True \<open>?h \<in> ?U\<close> by (simp add: M_def)
        next
          case False
          then have "strata ?b = ?L ?b" using r(3) assms(2) by (auto simp: unsettled_def not_less intro: antisym)
          moreover have "strata ?b + weight a \<le> strata' ?h" using pass_ok(2) [OF assms(4) r(1,2)] r(3) by simp
          ultimately show ?thesis using pos False \<open>?h \<in> ?U\<close> by (simp add: M_def)
        qed
      next
        case False
        moreover have "M ?b \<le> ?L ?b" by (simp add: M_def)
        ultimately show ?thesis using L by (simp add: M_def)
      qed
    qed
    obtain i where i: "i \<in> ?U" using assms(3) by blast
    then have "M i < ?L i" by (auto simp: M_def unsettled_def)
    then show False using least_strata_le [OF \<open>strata_ok rules M\<close>, of i] by simp
  qed
  then show ?thesis using sub by blast
qed

lemma pass_settled:
  assumes "strata_ok rules some" "\<forall>i. strata i \<le> least_strata rules i" "unsettled rules strata = {}"
  shows "fst (strata_pass (derived_relations rules) rules strata) = False"
proof -
  have eq: "strata i = least_strata rules i" if "i \<in> ru_head_relation ` set rules" for i
    using assms(2,3) that by (auto simp: unsettled_def not_less intro: antisym)
  have L: "strata_ok rules (least_strata rules)" by (rule least_strata_ok [OF assms(1)])
  have "head_stratum (derived_relations rules) strata r = strata (ru_head_relation r)" if r: "r \<in> set rules" for r
  proof (rule antisym)
    show "head_stratum (derived_relations rules) strata r \<le> strata (ru_head_relation r)"
      by (rule head_stratum_bound(3)) (use L r eq in \<open>auto simp: strata_ok_alt\<close>)
  qed (rule head_stratum_bound(1))
  then have "\<forall>r \<in> set rs. head_stratum (derived_relations rules) strata r = strata (ru_head_relation r) \<Longrightarrow>
      fst (strata_pass (derived_relations rules) rs strata) = False" for rs
    by (induction rs) (simp_all add: Let_def)
  then show ?thesis using \<open>\<And>r. r \<in> set rules \<Longrightarrow> _\<close> by blast
qed

lemma loop_returns:
  assumes "strata_ok rules some" "\<forall>i. strata i \<le> least_strata rules i" "card (unsettled rules strata) < n"
  shows "\<exists>strata'. strata_loop n (derived_relations rules) rules strata = Inr strata' \<and> (\<forall>i. strata' i \<le> least_strata rules i)"
  using assms(2,3)
proof (induction n arbitrary: strata)
  case (Suc n)
  obtain c s where p: "strata_pass (derived_relations rules) rules strata = (c, s)" by (cases "strata_pass (derived_relations rules) rules strata")
  have le: "\<forall>i. s i \<le> least_strata rules i"
    using pass_ok(4) [OF p Suc.prems(1)] least_strata_ok [OF assms(1)] unfolding strata_ok_alt by simp
  show ?case
  proof (cases "unsettled rules strata = {}")
    case True
    then show ?thesis using pass_settled [OF assms(1) Suc.prems(1) True] p le by simp
  next
    case False
    have "finite (unsettled rules strata)" by (simp add: unsettled_def)
    then have "card (unsettled rules s) < n"
      using psubset_card_mono [OF _ pass_progress [OF assms(1) Suc.prems(1) False p]] Suc.prems(2) by simp
    then show ?thesis using Suc.IH [OF le] p le by simp
  qed
qed simp

lemma loop_ok:
  "strata_loop n (derived_relations rules) rules strata = Inr strata' \<Longrightarrow> strata_ok rules strata'"
proof (induction n arbitrary: strata)
  case (Suc n)
  obtain c s where p: "strata_pass (derived_relations rules) rules strata = (c, s)" by (cases "strata_pass (derived_relations rules) rules strata")
  show ?case
  proof (cases c)
    case False
    then have "strata' = s" "s = strata" using Suc.prems p pass_ok(3) [OF p] by simp_all
    then show ?thesis unfolding strata_ok_alt using pass_ok(2) [OF p] by simp
  next
    case True
    then show ?thesis using Suc p by simp
  qed
qed simp

lemma relation_strata_ok:
  "relation_strata rules = Inr strata \<Longrightarrow> strata_ok rules strata"
  "relation_strata rules = Inl e \<longleftrightarrow> e = UnstratifiedNegation \<and> (\<nexists>strata. strata_ok rules strata)"
  "relation_strata rules = Inr strata \<Longrightarrow> strata i \<le> least_strata rules i"
proof -
  let ?n = "length (derived_relations rules) + 1"
  have run: "relation_strata rules = strata_loop ?n (derived_relations rules) rules (\<lambda>_. 0)" by (simp only: relation_strata_def Let_def)
  show ok: "strata_ok rules strata" if "relation_strata rules = Inr strata" for strata using loop_ok that unfolding run .
  have "card (unsettled rules (\<lambda>_. 0)) \<le> card (set (derived_relations rules))" by (rule card_mono) (auto simp: unsettled_def)
  then have card: "card (unsettled rules (\<lambda>_. 0)) < ?n" using distinct_card [OF derived_relations_distinct(1), of rules] by simp
  have returns: "\<exists>s. relation_strata rules = Inr s \<and> (\<forall>i. s i \<le> least_strata rules i)" if "strata_ok rules some" for some
    using loop_returns [OF that _ card] unfolding run by simp
  have err: "e' = UnstratifiedNegation" if "strata_loop n heads rs s = Inl e'" for e' n heads rs s
    using that by (induction n heads rs s rule: strata_loop.induct) (auto split: prod.splits if_splits)
  show "relation_strata rules = Inl e \<longleftrightarrow> e = UnstratifiedNegation \<and> (\<nexists>strata. strata_ok rules strata)"
  proof
    assume "relation_strata rules = Inl e"
    then show "e = UnstratifiedNegation \<and> (\<nexists>strata. strata_ok rules strata)" using returns err unfolding run by (metis Inr_not_Inl)
  next
    assume a: "e = UnstratifiedNegation \<and> (\<nexists>strata. strata_ok rules strata)"
    have "\<exists>e'. relation_strata rules = Inl e'"
    proof (cases "relation_strata rules")
      case (Inr s)
      then show ?thesis using ok [OF Inr] a by blast
    qed blast
    then show "relation_strata rules = Inl e" using err a unfolding run by blast
  qed
  show "strata i \<le> least_strata rules i" if "relation_strata rules = Inr strata"
    using returns [OF ok [OF that]] that by auto
qed

text \<open>Strata exist exactly when no relation depends on its own negation.\<close>

definition depends_on :: "rule list \<Rightarrow> identity \<Rightarrow> identity \<Rightarrow> bool" where
  "depends_on rules h b \<longleftrightarrow> depends rules False h b \<or> depends rules True h b"

definition negative_cycle :: "rule list \<Rightarrow> bool" where
  "negative_cycle rules \<longleftrightarrow> (\<exists>h b. depends rules True h b \<and> (depends_on rules)\<^sup>*\<^sup>* b h)"

definition negated_below :: "rule list \<Rightarrow> identity \<Rightarrow> identity set" where
  "negated_below rules r = {b. \<exists>x y. (depends_on rules)\<^sup>*\<^sup>* r x \<and> depends rules True x y \<and> (depends_on rules)\<^sup>*\<^sup>* y b}"

lemma strata_descend:
  assumes "strata_ok rules strata" "(depends_on rules)\<^sup>*\<^sup>* h b"
  shows "strata b \<le> strata h"
  using assms(2)
proof (induction rule: rtranclp_induct)
  case (step y z)
  have "strata z \<le> strata y" using assms(1) step.hyps(2) unfolding strata_ok_def depends_on_def by fastforce
  then show ?case using step by simp
qed simp

lemma negated_below_finite: "finite (negated_below rules r)"
proof (rule finite_subset)
  have "b \<in> ru_head_relation ` set rules" if "(depends_on rules)\<^sup>*\<^sup>* y b" "depends rules True x y" for x y b
    using that by (induction rule: rtranclp_induct) (auto simp: depends_on_def depends_def)
  then show "negated_below rules r \<subseteq> ru_head_relation ` set rules" by (auto simp: negated_below_def)
qed simp

lemma stratifiable: "(\<exists>strata. strata_ok rules strata) \<longleftrightarrow> \<not> negative_cycle rules"
proof
  assume "\<exists>strata. strata_ok rules strata"
  then obtain strata where s: "strata_ok rules strata" by blast
  show "\<not> negative_cycle rules"
  proof
    assume "negative_cycle rules"
    then obtain h b where hb: "depends rules True h b" "(depends_on rules)\<^sup>*\<^sup>* b h" by (auto simp: negative_cycle_def)
    have "strata b < strata h" using s hb(1) unfolding strata_ok_def by fastforce
    then show False using strata_descend [OF s hb(2)] by simp
  qed
next
  assume none: "\<not> negative_cycle rules"
  have "strata_ok rules (\<lambda>r. card (negated_below rules r))" unfolding strata_ok_def
  proof (intro allI impI)
    fix negated h b assume d: "depends rules negated h b"
    then have on: "depends_on rules h b" by (cases negated) (auto simp: depends_on_def)
    have sub: "negated_below rules b \<subseteq> negated_below rules h"
      using on by (auto simp: negated_below_def) (meson converse_rtranclp_into_rtranclp)
    show "card (negated_below rules b) + (if negated then 1 else 0) \<le> card (negated_below rules h)"
    proof (cases negated)
      case True
      have "b \<in> negated_below rules h" using d True by (auto simp: negated_below_def)
      moreover have "b \<notin> negated_below rules b" using none by (auto simp: negated_below_def negative_cycle_def) (meson rtranclp_trans)
      ultimately have "negated_below rules b \<subset> negated_below rules h" using sub by blast
      then show ?thesis using psubset_card_mono [OF negated_below_finite] True by (simp add: Suc_le_eq)
    next
      case False
      then show ?thesis using card_mono [OF negated_below_finite sub] by simp
    qed
  qed
  then show "\<exists>strata. strata_ok rules strata" by blast
qed

end
