(* ===== verification/RuleComponents.thy ===== *)
theory RuleComponents
  imports RuleStrata
begin

text \<open>The components of a stratum are its sets of mutually dependent relations, and come after what they depend on.\<close>

section \<open>Reachability\<close>

definition edge_of :: "('a \<Rightarrow> 'a list) \<Rightarrow> ('a \<times> 'a) set" where
  "edge_of deps = {(x, y). y \<in> set (deps x)}"

lemma reach_loop_ok:
  assumes "\<forall>x \<in> set ts. set (deps x) \<subseteq> set ts"
  shows "set pending \<union> set found \<subseteq> set ts \<Longrightarrow> \<forall>x \<in> set found. set (deps x) \<subseteq> set found \<union> set pending \<Longrightarrow>
    \<exists>res. reach_loop ts deps pending found = Some res \<and> set found \<union> set pending \<subseteq> set res \<and>
      (\<forall>x \<in> set res. set (deps x) \<subseteq> set res) \<and> set res \<subseteq> (edge_of deps)\<^sup>* `` (set found \<union> set pending)"
  using assms
proof (induction ts deps pending found rule: reach_loop.induct)
  case (2 ts deps r pending found)
  show ?case
  proof (cases "r \<in> set found")
    case True
    then show ?thesis using "2.IH"(1) [OF True] "2.prems" by (auto simp: insert_absorb)
  next
    case False
    have r: "r \<in> set ts" using "2.prems"(1) by simp
    have p: "set (rev (deps r) @ pending) \<union> set (r # found) \<subseteq> set ts" using "2.prems" r by auto
    have c: "\<forall>x \<in> set (r # found). set (deps x) \<subseteq> set (r # found) \<union> set (rev (deps r) @ pending)" using "2.prems"(2) by auto
    obtain res where res: "reach_loop ts deps (rev (deps r) @ pending) (r # found) = Some res"
      "set (r # found) \<union> set (rev (deps r) @ pending) \<subseteq> set res" "\<forall>x \<in> set res. set (deps x) \<subseteq> set res"
      "set res \<subseteq> (edge_of deps)\<^sup>* `` (set (r # found) \<union> set (rev (deps r) @ pending))"
      using "2.IH"(2) [OF False _ p c "2.prems"(3)] r by blast
    have "(r, d) \<in> (edge_of deps)\<^sup>*" if "d \<in> set (deps r)" for d using that by (auto simp: edge_of_def)
    then have "(edge_of deps)\<^sup>* `` (set (r # found) \<union> set (rev (deps r) @ pending)) \<subseteq> (edge_of deps)\<^sup>* `` (set found \<union> set (r # pending))"
      by (auto intro: rtrancl_trans)
    then show ?thesis using res False r by auto
  qed
qed auto

lemma reachable_relations_ok:
  assumes "\<forall>x \<in> set ts. set (deps x) \<subseteq> set ts" "r \<in> set ts"
  shows "\<exists>res. reachable_relations ts deps r = Some res \<and> set res = (edge_of deps)\<^sup>* `` {r}"
proof -
  obtain res where res: "reach_loop ts deps [r] [] = Some res" "{r} \<subseteq> set res" "\<forall>x \<in> set res. set (deps x) \<subseteq> set res"
    "set res \<subseteq> (edge_of deps)\<^sup>* `` {r}"
    using reach_loop_ok [OF assms(1), of "[r]" "[]"] assms(2) by auto
  have "y \<in> set res" if "(r, y) \<in> (edge_of deps)\<^sup>*" for y
    using that by (induction rule: rtrancl_induct) (use res(2,3) in \<open>auto simp: edge_of_def\<close>)
  then show ?thesis using res by (auto simp: reachable_relations_def)
qed

section \<open>Components\<close>

definition mutual :: "('a \<Rightarrow> 'a list) \<Rightarrow> 'a \<Rightarrow> 'a \<Rightarrow> bool" where
  "mutual deps x y \<longleftrightarrow> (x, y) \<in> (edge_of deps)\<^sup>* \<and> (y, x) \<in> (edge_of deps)\<^sup>*"

lemma mutual_refl [simp]: "mutual deps x x"
  by (simp add: mutual_def)

lemma mutual_sym: "mutual deps x y \<Longrightarrow> mutual deps y x"
  by (simp add: mutual_def)

lemma mutual_trans: "mutual deps x y \<Longrightarrow> mutual deps y z \<Longrightarrow> mutual deps x z"
  by (auto simp: mutual_def)

definition classes :: "('a \<Rightarrow> 'a list) \<Rightarrow> 'a set \<Rightarrow> 'a list list \<Rightarrow> bool" where
  "classes deps A cs \<longleftrightarrow> \<Union> (set ` set cs) = A \<and> (\<forall>c \<in> set cs. c \<noteq> [] \<and> (\<forall>x \<in> set c. set c = {y \<in> A. mutual deps x y})) \<and>
     sorted_wrt (\<lambda>c d. set c \<inter> set d = {}) cs"

lemma split_components_ok:
  assumes "\<And>x y. x \<in> set rs \<Longrightarrow> y \<in> set rs \<Longrightarrow> y \<in> set (reach x) \<longleftrightarrow> (x, y) \<in> (edge_of deps)\<^sup>*" "length rs \<le> n"
  shows "\<exists>cs. split_components n reach rs = Some cs \<and> classes deps (set rs) cs"
  using assms
proof (induction n reach rs rule: split_components.induct)
  case (3 n reach root rest)
  define c where "c = filter (\<lambda>r. r \<in> set (reach root) \<and> root \<in> set (reach r)) (root # rest)"
  define left where "left = filter (\<lambda>r. r \<notin> set c) (root # rest)"
  have reach: "\<And>x y. x \<in> set (root # rest) \<Longrightarrow> y \<in> set (root # rest) \<Longrightarrow> y \<in> set (reach x) \<longleftrightarrow> (x, y) \<in> (edge_of deps)\<^sup>*"
    using "3.prems"(1) .
  have c: "set c = {y \<in> set (root # rest). mutual deps root y}" using reach unfolding c_def mutual_def by auto
  then have root: "root \<in> set c" by simp
  have "length left \<le> length rest" unfolding left_def using root by (simp add: length_filter_le)
  then have "length left \<le> n" using "3.prems"(2) by simp
  moreover have left: "set left = set (root # rest) - set c" by (auto simp: left_def)
  then have sub: "x \<in> set left \<Longrightarrow> x \<in> set (root # rest)" for x by blast
  ultimately obtain cs where cs: "split_components n reach left = Some cs" "classes deps (set left) cs"
    using "3.IH" [OF c_def, folded left_def] reach [OF sub sub] by blast
  have "classes deps (set (root # rest)) (c # cs)" unfolding classes_def
  proof (intro conjI ballI)
    have U: "\<Union> (set ` set cs) = set left" using cs(2) by (auto simp: classes_def)
    have "set c \<subseteq> set (root # rest)" using c by blast
    then show "\<Union> (set ` set (c # cs)) = set (root # rest)" using U left by auto
    show "sorted_wrt (\<lambda>c d. set c \<inter> set d = {}) (c # cs)" using cs(2) U left by (auto simp: classes_def)
    fix d assume d: "d \<in> set (c # cs)"
    show "d \<noteq> []" using d root cs(2) by (auto simp: classes_def)
    fix x assume x: "x \<in> set d"
    show "set d = {y \<in> set (root # rest). mutual deps x y}"
    proof (cases "d = c")
      case True
      then have "mutual deps root x" using x c by simp
      then show ?thesis unfolding True c using mutual_trans mutual_sym by metis
    next
      case False
      then have dc: "set d = {y \<in> set left. mutual deps x y}" "x \<in> set left" using d x cs(2) U by (auto simp: classes_def)
      have "y \<notin> set c" if "mutual deps x y" "y \<in> set (root # rest)" for y
      proof
        assume "y \<in> set c"
        then have "mutual deps root x" using that(1) unfolding c by (auto intro: mutual_trans mutual_sym)
        then have "x \<in> set c" using dc(2) left unfolding c by simp
        then show False using dc(2) left by simp
      qed
      then show ?thesis unfolding dc(1) using left by blast
    qed
  qed
  then show ?case using cs(1) by (simp add: c_def left_def Let_def)
qed (simp_all add: classes_def)

lemma strongly_connected_ok:
  assumes "\<forall>x \<in> set ts. set (deps x) \<subseteq> set ts"
  shows "\<exists>cs. strongly_connected_relations ts deps = Some cs \<and> classes deps (set ts) cs"
proof -
  have some: "reachable_relations ts deps r \<noteq> None" if "r \<in> set ts" for r using reachable_relations_ok [OF assms that] by auto
  then have all: "\<not> (\<exists>r \<in> set ts. reachable_relations ts deps r = None)" by blast
  have "y \<in> set (the (reachable_relations ts deps x)) \<longleftrightarrow> (x, y) \<in> (edge_of deps)\<^sup>*" if x: "x \<in> set ts" for x y
  proof -
    obtain res where "reachable_relations ts deps x = Some res" "set res = (edge_of deps)\<^sup>* `` {x}"
      using reachable_relations_ok [OF assms x] by blast
    then show ?thesis by simp
  qed
  then obtain cs where "split_components (length ts) (\<lambda>r. the (reachable_relations ts deps r)) ts = Some cs" "classes deps (set ts) cs"
    using split_components_ok [of ts "\<lambda>r. the (reachable_relations ts deps r)" deps "length ts"] by blast
  then show ?thesis unfolding strongly_connected_relations_def Let_def if_not_P [OF all] by blast
qed

section \<open>Their order\<close>

text \<open>
  A depth-first visit of an acyclic graph: the order lists every node after its successors. The nodes
  visited but not yet ordered are the ancestors of the one being visited.
\<close>

definition after_deps :: "(nat \<Rightarrow> nat list) \<Rightarrow> nat list \<Rightarrow> bool" where
  "after_deps deps order \<longleftrightarrow> (\<forall>k < length order. set (deps (order ! k)) \<subseteq> set (take k order))"

definition visiting :: "(nat \<Rightarrow> nat list) \<Rightarrow> nat \<Rightarrow> nat set \<Rightarrow> nat list \<Rightarrow> bool" where
  "visiting deps n visited order \<longleftrightarrow> visited \<subseteq> {..<n} \<and> set order \<subseteq> visited \<and> distinct order \<and> after_deps deps order"

lemma after_deps_snoc: "after_deps deps order \<Longrightarrow> set (deps i) \<subseteq> set order \<Longrightarrow> after_deps deps (order @ [i])"
  by (auto simp: after_deps_def nth_append less_Suc_eq)

lemma visit_ok:
  assumes "\<forall>i < n. (i, i) \<notin> (edge_of deps)\<^sup>+" "\<forall>i < n. set (deps i) \<subseteq> {..<n}"
  shows "i < n \<Longrightarrow> visiting deps n visited order \<Longrightarrow> \<forall>g \<in> visited - set order. (g, i) \<in> (edge_of deps)\<^sup>+ \<Longrightarrow> card ({..<n} - visited) < fuel \<Longrightarrow>
      \<exists>visited' order'. visit_component fuel deps i (visited, order) = Some (visited', order') \<and> visiting deps n visited' order' \<and>
        visited \<subseteq> visited' \<and> visited' - set order' = visited - set order \<and> i \<in> set order' \<and> set order \<subseteq> set order'"
    and "set is \<subseteq> {..<n} \<Longrightarrow> visiting deps n visited order \<Longrightarrow> \<forall>i \<in> set is. \<forall>g \<in> visited - set order. (g, i) \<in> (edge_of deps)\<^sup>+ \<Longrightarrow>
      card ({..<n} - visited) < fuel \<Longrightarrow>
      \<exists>visited' order'. visit_components fuel deps is (visited, order) = Some (visited', order') \<and> visiting deps n visited' order' \<and>
        visited \<subseteq> visited' \<and> visited' - set order' = visited - set order \<and> set is \<subseteq> set order' \<and> set order \<subseteq> set order'"
  using assms
proof (induction fuel deps i "(visited, order)" and fuel deps "is" "(visited, order)"
    arbitrary: visited order and visited order rule: visit_component_visit_components.induct)
  case (2 fuel deps i visited order)
  show ?case
  proof (cases "i \<in> visited")
    case True
    have "(i, i) \<notin> (edge_of deps)\<^sup>+" using "2.prems"(1,5) by simp
    then have "i \<in> set order" using True "2.prems"(3) by blast
    then show ?thesis using True "2.prems"(2) by auto
  next
    case False
    have new: "visiting deps n (insert i visited) order" using "2.prems"(1,2) by (auto simp: visiting_def)
    have gray: "\<forall>d \<in> set (deps i). \<forall>g \<in> insert i visited - set order. (g, d) \<in> (edge_of deps)\<^sup>+"
    proof (intro ballI)
      fix d g assume d: "d \<in> set (deps i)" and g: "g \<in> insert i visited - set order"
      have e: "(i, d) \<in> edge_of deps" using d by (simp add: edge_of_def)
      show "(g, d) \<in> (edge_of deps)\<^sup>+" using e g "2.prems"(3) by (cases "g = i") (auto intro: trancl_into_trancl)
    qed
    have "card ({..<n} - insert i visited) < card ({..<n} - visited)" using False "2.prems"(1) by (intro psubset_card_mono) auto
    then have fuel: "card ({..<n} - insert i visited) < fuel" using "2.prems"(4) by simp
    have sub: "set (deps i) \<subseteq> {..<n}" using "2.prems"(1,6) by blast
    obtain V O' where r: "visit_components fuel deps (deps i) (insert i visited, order) = Some (V, O')" "visiting deps n V O'"
      "insert i visited \<subseteq> V" "V - set O' = insert i visited - set order" "set (deps i) \<subseteq> set O'" "set order \<subseteq> set O'"
      using "2.hyps" [OF False sub new gray fuel "2.prems"(5,6)] by blast
    have i: "i \<notin> set order" "i \<notin> set O'" using False "2.prems"(2) r(4) by (auto simp: visiting_def)
    have "visiting deps n V (O' @ [i])" using r(2,3,5) i after_deps_snoc by (auto simp: visiting_def)
    moreover have "V - set (O' @ [i]) = visited - set order" using r(4) False by auto
    ultimately show ?thesis using r(1,3,6) False by auto
  qed
next
  case (4 fuel deps i "is" visited order)
  obtain V O' where r: "visit_component fuel deps i (visited, order) = Some (V, O')" "visiting deps n V O'"
    "visited \<subseteq> V" "V - set O' = visited - set order" "i \<in> set O'" "set order \<subseteq> set O'"
    using "4.hyps"(1) "4.prems" by auto
  have "card ({..<n} - V) \<le> card ({..<n} - visited)" using r(3) by (intro card_mono) auto
  then have "card ({..<n} - V) < fuel" using "4.prems"(4) by simp
  then obtain V' O'' where "visit_components fuel deps is (V, O') = Some (V', O'')" "visiting deps n V' O''"
    "V \<subseteq> V'" "V' - set O'' = V - set O'" "set is \<subseteq> set O''" "set O' \<subseteq> set O''"
    using "4.hyps"(2) [of V O'] r(1,2,4) "4.prems" by auto
  then show ?case using r by auto
qed auto

lemma classesD:
  assumes "classes deps A cs"
  shows "\<Union> (set ` set cs) = A" "i < length cs \<Longrightarrow> cs ! i \<noteq> []" "i < length cs \<Longrightarrow> set (cs ! i) \<subseteq> A"
    "i < length cs \<Longrightarrow> x \<in> set (cs ! i) \<Longrightarrow> set (cs ! i) = {y \<in> A. mutual deps x y}"
  using assms unfolding classes_def by (auto dest: nth_mem)

lemma component_of_eq:
  assumes "classes deps A cs" "i < length cs" "r \<in> set (cs ! i)"
  shows "component_of cs r = i"
proof -
  have "r \<notin> set (cs ! j)" if "j < i" for j
    using assms that sorted_wrt_nth_less [of "\<lambda>c d. set c \<inter> set d = {}" cs j i] by (auto simp: classes_def)
  then have "takeWhile (\<lambda>c. r \<notin> set c) cs = take i cs" using assms(2,3) by (intro takeWhile_eq_take_P_nth) auto
  then show ?thesis using assms(2) by (simp add: component_of_def)
qed

lemma component_of_in:
  assumes "classes deps A cs" "r \<in> A"
  shows "component_of cs r < length cs" "r \<in> set (cs ! component_of cs r)"
proof -
  obtain c where "c \<in> set cs" "r \<in> set c" using assms(2) classesD(1) [OF assms(1)] by blast
  then obtain i where "i < length cs" "r \<in> set (cs ! i)" by (metis in_set_conv_nth)
  then show "component_of cs r < length cs" "r \<in> set (cs ! component_of cs r)" using component_of_eq [OF assms(1)] by auto
qed

lemma component_deps_set:
  assumes "classes deps A cs" "\<forall>x \<in> A. set (deps x) \<subseteq> A" "i < length cs"
  shows "set (component_dependencies cs deps i) = {j. j \<noteq> i \<and> j < length cs \<and> (\<exists>x \<in> set (cs ! i). \<exists>y \<in> set (cs ! j). (x, y) \<in> edge_of deps)}"
proof -
  have sub: "set (cs ! i) \<subseteq> A" by (rule classesD(3) [OF assms(1,3)])
  have "set (component_dependencies cs deps i) = {component_of cs d | x d. x \<in> set (cs ! i) \<and> d \<in> set (deps x) \<and> component_of cs d \<noteq> i}"
    by (auto simp: component_dependencies_def)
  also have "\<dots> = {j. j \<noteq> i \<and> j < length cs \<and> (\<exists>x \<in> set (cs ! i). \<exists>y \<in> set (cs ! j). (x, y) \<in> edge_of deps)}" (is "?L = ?R")
  proof
    have "component_of cs d < length cs \<and> d \<in> set (cs ! component_of cs d)" if "x \<in> set (cs ! i)" "d \<in> set (deps x)" for x d
      using component_of_in [OF assms(1), of d] assms(2) sub that by blast
    then show "?L \<subseteq> ?R" unfolding edge_of_def by blast
    have "component_of cs y = j" if "j < length cs" "y \<in> set (cs ! j)" for j y by (rule component_of_eq [OF assms(1) that])
    then show "?R \<subseteq> ?L" unfolding edge_of_def by blast
  qed
  finally show ?thesis .
qed

text \<open>A path between components is a path between any two of their members.\<close>

lemma component_path:
  assumes "classes deps A cs" "\<forall>x \<in> A. set (deps x) \<subseteq> A" "i < length cs" "(i, j) \<in> (edge_of (component_dependencies cs deps))\<^sup>*"
  shows "j < length cs \<and> (\<forall>x \<in> set (cs ! i). \<forall>y \<in> set (cs ! j). (x, y) \<in> (edge_of deps)\<^sup>*)"
proof -
  have same: "(x, y) \<in> (edge_of deps)\<^sup>*" if "k < length cs" "x \<in> set (cs ! k)" "y \<in> set (cs ! k)" for x y k
  proof -
    have "set (cs ! k) = {y \<in> A. mutual deps x y}" by (rule classesD(4) [OF assms(1) that(1,2)])
    then show ?thesis using that(3) by (auto simp: mutual_def)
  qed
  show ?thesis using assms(4)
  proof (induction rule: rtrancl_induct)
    case base
    then show ?case using same assms(3) by blast
  next
    case (step j k)
    then obtain u v where uv: "k < length cs" "u \<in> set (cs ! j)" "v \<in> set (cs ! k)" "(u, v) \<in> edge_of deps"
      using component_deps_set [OF assms(1,2)] by (auto simp: edge_of_def)
    have "(x, y) \<in> (edge_of deps)\<^sup>*" if x: "x \<in> set (cs ! i)" and y: "y \<in> set (cs ! k)" for x y
    proof -
      have "(x, u) \<in> (edge_of deps)\<^sup>*" using step.IH x uv(2) by blast
      then have "(x, v) \<in> (edge_of deps)\<^sup>*" using uv(4) by (rule rtrancl_into_rtrancl)
      then show ?thesis using same [OF uv(1,3) y] by (rule rtrancl_trans)
    qed
    then show ?case using uv(1) by blast
  qed
qed

lemma component_deps_acyclic:
  assumes "classes deps A cs" "\<forall>x \<in> A. set (deps x) \<subseteq> A" "i < length cs"
  shows "(i, i) \<notin> (edge_of (component_dependencies cs deps))\<^sup>+"
proof
  assume "(i, i) \<in> (edge_of (component_dependencies cs deps))\<^sup>+"
  then obtain j where j: "(i, j) \<in> edge_of (component_dependencies cs deps)" "(j, i) \<in> (edge_of (component_dependencies cs deps))\<^sup>*"
    by (meson tranclD)
  have jn: "j \<noteq> i" "j < length cs" using j(1) component_deps_set [OF assms] by (auto simp: edge_of_def)
  obtain x y where xy: "x \<in> set (cs ! i)" "y \<in> set (cs ! j)"
    using classesD(2) [OF assms(1,3)] classesD(2) [OF assms(1) jn(2)] by (metis list.set_sel(1))
  have "mutual deps x y"
    using component_path [OF assms(1,2,3)] component_path [OF assms(1,2) jn(2) j(2)] j(1) xy by (auto simp: mutual_def)
  moreover have "y \<in> A" using classesD(3) [OF assms(1) jn(2)] xy(2) by blast
  ultimately have "y \<in> set (cs ! i)" unfolding classesD(4) [OF assms(1,3) xy(1)] by simp
  then show False using component_of_eq [OF assms(1,3)] component_of_eq [OF assms(1) jn(2) xy(2)] jn(1) by simp
qed

definition dependencies_first :: "(identity \<Rightarrow> identity list) \<Rightarrow> identity list list \<Rightarrow> bool" where
  "dependencies_first deps cs \<longleftrightarrow> (\<forall>k < length cs. \<forall>x \<in> set (cs ! k). set (deps x) \<subseteq> \<Union> (set ` set (take (Suc k) cs)))"

lemma order_components_ok:
  assumes "classes deps A cs" "\<forall>x \<in> A. set (deps x) \<subseteq> A"
  shows "\<exists>ord. order_relation_components cs deps = Some ord \<and> classes deps A ord \<and> dependencies_first deps ord"
proof -
  let ?n = "length cs" and ?D = "component_dependencies cs deps"
  have D: "\<forall>i < ?n. set (?D i) \<subseteq> {..<?n}" using component_deps_set [OF assms] by auto
  have acyclic: "\<forall>i < ?n. (i, i) \<notin> (edge_of ?D)\<^sup>+" using component_deps_acyclic [OF assms] by blast
  have start: "visiting ?D ?n {} []" by (simp add: visiting_def after_deps_def)
  have all: "set [0..<?n] \<subseteq> {..<?n}" by auto
  obtain V O' where o: "visit_components (?n + 1) ?D [0..<?n] ({}, []) = Some (V, O')" "visiting ?D ?n V O'" "set [0..<?n] \<subseteq> set O'"
    using visit_ok(2) [OF acyclic D all start, of "?n + 1"] by auto
  have O: "set O' = {..<?n}" "distinct O'" "after_deps ?D O'" using o(2,3) by (auto simp: visiting_def)
  let ?ord = "map (\<lambda>i. cs ! i) O'"
  have at: "O' ! k < ?n" if "k < length O'" for k using O(1) nth_mem [OF that] by auto
  have "(\<lambda>i. cs ! i) ` {..<?n} = set cs" by (auto simp: set_conv_nth)
  then have "set ?ord = set cs" using O(1) by simp
  moreover have "sorted_wrt (\<lambda>c d. set c \<inter> set d = {}) ?ord" unfolding sorted_wrt_iff_nth_less
  proof (intro allI impI)
    fix k l assume kl: "k < l" "l < length ?ord"
    then have "O' ! k \<noteq> O' ! l" using O(2) by (simp add: nth_eq_iff_index_eq)
    then show "set (?ord ! k) \<inter> set (?ord ! l) = {}"
      using component_of_eq [OF assms(1) at [of k]] component_of_eq [OF assms(1) at [of l]] kl by fastforce
  qed
  ultimately have c: "classes deps A ?ord" using assms(1) unfolding classes_def by simp
  have "dependencies_first deps ?ord" unfolding dependencies_first_def
  proof (intro allI impI ballI subsetI)
    fix k x y assume k: "k < length ?ord" "x \<in> set (?ord ! k)" "y \<in> set (deps x)"
    let ?i = "O' ! k" and ?j = "component_of cs y"
    have i: "?i < ?n" "x \<in> set (cs ! ?i)" using k at by simp_all
    then have "x \<in> A" using classesD(3) [OF assms(1)] by blast
    then have j: "?j < ?n" "y \<in> set (cs ! ?j)" using component_of_in [OF assms(1)] assms(2) k(3) by blast+
    have "?j \<in> set (take (Suc k) O')"
    proof (cases "?j = ?i")
      case True
      then show ?thesis using k(1) by (simp add: take_Suc_conv_app_nth)
    next
      case False
      then have "?j \<in> set (?D ?i)" unfolding component_deps_set [OF assms i(1)] using i j k(3) by (auto simp: edge_of_def)
      then show ?thesis using O(3) k(1) by (auto simp: after_deps_def take_Suc_conv_app_nth)
    qed
    then show "y \<in> \<Union> (set ` set (take (Suc k) ?ord))" using j(2) by (auto simp: take_map)
  qed
  then show ?thesis using o(1) c by (simp add: order_relation_components_def)
qed

section \<open>Compiled strata\<close>

lemma positive_dependencies_set:
  "set (positive_dependencies rules ts r) = {at_relation a | q a. q \<in> set rules \<and> ru_head_relation q = r \<and> a \<in> set (body_atoms q) \<and>
     \<not> at_negated a \<and> at_relation a \<in> set ts}"
  by (auto simp: positive_dependencies_def)

definition stratum_components :: "rule list \<Rightarrow> identity list list \<Rightarrow> bool" where
  "stratum_components rules ord \<longleftrightarrow>
     classes (positive_dependencies rules (derived_relations rules)) (ru_head_relation ` set rules) ord \<and>
     dependencies_first (positive_dependencies rules (derived_relations rules)) ord"

lemma compile_stratum_ok:
  "\<exists>ord. compile_stratum rules = Some \<lparr>st_rules = map compile_rule rules, st_components = map (compile_component (map compile_rule rules)) ord\<rparr> \<and>
     stratum_components rules ord"
proof -
  let ?ts = "derived_relations rules"
  let ?deps = "positive_dependencies rules ?ts"
  have closed: "\<forall>x \<in> set ?ts. set (?deps x) \<subseteq> set ?ts" by (auto simp: positive_dependencies_set)
  obtain cs where cs: "strongly_connected_relations ?ts ?deps = Some cs" "classes ?deps (set ?ts) cs" using strongly_connected_ok [OF closed] by blast
  obtain ord where ord: "order_relation_components cs ?deps = Some ord" "classes ?deps (set ?ts) ord" "dependencies_first ?deps ord"
    using order_components_ok [OF cs(2) closed] by blast
  then show ?thesis using cs(1) by (auto simp: compile_stratum_def Let_def stratum_components_def)
qed

end
