(* ===== verification/RuleFixpoint.thy ===== *)
theory RuleFixpoint
  imports RuleMaps RuleComponents
begin

text \<open>
  The semi-naive evaluation of a component: each round derives from the frontier only, and still the
  loop ends with every consequence of the component's rules, and with the least such set.
\<close>

section \<open>Consequences\<close>

definition consequences :: "rule list \<Rightarrow> (identity \<Rightarrow> tuple set) \<Rightarrow> identity \<Rightarrow> tuple set" where
  "consequences rules M q = (\<Union>r \<in> {r \<in> set rules. ru_head_relation r = q}. rule_heads (\<lambda>_. M) r)"

text \<open>An item reads one relation: more of it where the atom is positive keeps it true.\<close>

definition item_le :: "(identity \<Rightarrow> tuple set) \<Rightarrow> (identity \<Rightarrow> tuple set) \<Rightarrow> rule_body_item \<Rightarrow> bool" where
  "item_le M N i \<longleftrightarrow> (case i of ItemGuard _ \<Rightarrow> True
     | ItemAtom a \<Rightarrow> if at_negated a then M (at_relation a) = N (at_relation a) else M (at_relation a) \<subseteq> N (at_relation a))"

lemma holds_item_le: "item_le M N i \<Longrightarrow> holds_item M s i \<Longrightarrow> holds_item N s i"
  by (cases i) (auto simp: item_le_def split: if_splits)

lemma rule_heads_le:
  assumes "\<And>j. j < length (ru_body r) \<Longrightarrow> item_le (M j) (N j) (ru_body r ! j)"
  shows "rule_heads M r \<subseteq> rule_heads N r"
  using assms holds_item_le unfolding rule_heads_def by blast

text \<open>The items of a rule that read a relation of the component.\<close>

fun recursive_in :: "identity set \<Rightarrow> rule_body_item \<Rightarrow> bool" where
  "recursive_in T (ItemAtom a) \<longleftrightarrow> \<not> at_negated a \<and> at_relation a \<in> T"
| "recursive_in T (ItemGuard _) \<longleftrightarrow> False"

definition old_reader :: "identity set \<Rightarrow> rule \<Rightarrow> (identity \<Rightarrow> tuple set) \<Rightarrow> (identity \<Rightarrow> tuple set) \<Rightarrow> nat \<Rightarrow> identity \<Rightarrow> tuple set" where
  "old_reader T r M D j = (if recursive_in T (ru_body r ! j) then (\<lambda>q. M q - D q) else M)"

definition delta_reader :: "(identity \<Rightarrow> tuple set) \<Rightarrow> (identity \<Rightarrow> tuple set) \<Rightarrow> nat \<Rightarrow> nat \<Rightarrow> identity \<Rightarrow> tuple set" where
  "delta_reader M D k j = (if j = k then D else M)"

definition recursive_indices :: "identity set \<Rightarrow> rule \<Rightarrow> nat set" where
  "recursive_indices T r = {j. j < length (ru_body r) \<and> recursive_in T (ru_body r ! j)}"

text \<open>A derivation uses a tuple of the frontier, or none.\<close>

lemma heads_split:
  "rule_heads (\<lambda>_. M) r \<subseteq> rule_heads (old_reader T r M D) r \<union> (\<Union>k \<in> recursive_indices T r. rule_heads (delta_reader M D k) r)"
proof
  fix t assume "t \<in> rule_heads (\<lambda>_. M) r"
  then obtain s where s: "t = term_values s (ru_head_terms r)" "\<And>j. j < length (ru_body r) \<Longrightarrow> holds_item M s (ru_body r ! j)"
    by (auto simp: rule_heads_def)
  show "t \<in> rule_heads (old_reader T r M D) r \<union> (\<Union>k \<in> recursive_indices T r. rule_heads (delta_reader M D k) r)"
  proof (cases "\<exists>k \<in> recursive_indices T r. holds_item D s (ru_body r ! k)")
    case True
    then obtain k where "k \<in> recursive_indices T r" "holds_item D s (ru_body r ! k)" by blast
    then have "\<forall>j < length (ru_body r). holds_item (delta_reader M D k j) s (ru_body r ! j)" using s(2) by (simp add: delta_reader_def)
    then show ?thesis using s(1) \<open>k \<in> recursive_indices T r\<close> unfolding rule_heads_def by blast
  next
    case False
    have "holds_item (old_reader T r M D j) s (ru_body r ! j)" if j: "j < length (ru_body r)" for j
    proof (cases "recursive_in T (ru_body r ! j)")
      case True
      then have "\<not> holds_item D s (ru_body r ! j)" using False j by (auto simp: recursive_indices_def)
      then show ?thesis using True s(2) [OF j] by (cases "ru_body r ! j") (auto simp: old_reader_def)
    qed (use s(2) [OF j] in \<open>simp add: old_reader_def\<close>)
    then show ?thesis using s(1) by (auto simp: rule_heads_def)
  qed
qed

section \<open>One component\<close>

text \<open>
  \<open>T\<close> is the component, \<open>R\<close> its rules, \<open>B\<close> what is known of the other relations and \<open>E\<close> the stored
  tuples of the component's own. The rules of a component do not negate its relations.
\<close>

definition component_rules :: "identity set \<Rightarrow> rule list \<Rightarrow> bool" where
  "component_rules T R \<longleftrightarrow> (\<forall>r \<in> set R. ru_head_relation r \<in> T \<and> (\<forall>a. ItemAtom a \<in> set (ru_body r) \<longrightarrow> at_negated a \<longrightarrow> at_relation a \<notin> T))"

definition override :: "identity set \<Rightarrow> (identity \<Rightarrow> tuple set) \<Rightarrow> (identity \<Rightarrow> tuple set) \<Rightarrow> identity \<Rightarrow> tuple set" where
  "override T X B q = (if q \<in> T then X q else B q)"

definition closed_under :: "identity set \<Rightarrow> rule list \<Rightarrow> (identity \<Rightarrow> tuple set) \<Rightarrow> (identity \<Rightarrow> tuple set) \<Rightarrow> (identity \<Rightarrow> tuple set) \<Rightarrow> bool" where
  "closed_under T R E B X \<longleftrightarrow> (\<forall>q \<in> T. E q \<subseteq> X q \<and> consequences R (override T X B) q \<subseteq> X q)"

definition semi_naive_inv ::
  "identity set \<Rightarrow> rule list \<Rightarrow> (identity \<Rightarrow> tuple set) \<Rightarrow> (identity \<Rightarrow> tuple set) \<Rightarrow>
     (identity \<Rightarrow> tuple set) \<Rightarrow> (identity \<Rightarrow> tuple set) \<Rightarrow> (identity \<Rightarrow> tuple set) \<Rightarrow> bool" where
  "semi_naive_inv T R E B F D A \<longleftrightarrow>
     (\<forall>q. q \<notin> T \<longrightarrow> F q = {} \<and> D q = {} \<and> A q = {}) \<and> (\<forall>q. D q \<subseteq> F q) \<and> (\<forall>q \<in> T. F q = E q \<union> A q) \<and>
     (\<forall>r \<in> set R. rule_heads (old_reader T r (override T F B) D) r \<subseteq> A (ru_head_relation r)) \<and>
     (\<forall>q. A q \<subseteq> consequences R (override T F B) q) \<and>
     (\<forall>X. closed_under T R E B X \<longrightarrow> (\<forall>q \<in> T. F q \<subseteq> X q))"

lemma semi_naive_invD:
  assumes "semi_naive_inv T R E B F D A"
  shows "q \<notin> T \<Longrightarrow> F q = {}" "q \<notin> T \<Longrightarrow> D q = {}" "q \<notin> T \<Longrightarrow> A q = {}" "D q \<subseteq> F q" "q \<in> T \<Longrightarrow> F q = E q \<union> A q"
    "r \<in> set R \<Longrightarrow> rule_heads (old_reader T r (override T F B) D) r \<subseteq> A (ru_head_relation r)"
    "A q \<subseteq> consequences R (override T F B) q" "closed_under T R E B X \<Longrightarrow> q \<in> T \<Longrightarrow> F q \<subseteq> X q"
proof -
  show "closed_under T R E B X \<Longrightarrow> q \<in> T \<Longrightarrow> F q \<subseteq> X q" using assms unfolding semi_naive_inv_def by meson
qed (use assms in \<open>simp_all add: semi_naive_inv_def\<close>)

lemma consequences_mono:
  assumes "component_rules T R" "\<And>q. q \<in> T \<Longrightarrow> X q \<subseteq> Y q"
  shows "consequences R (override T X B) q \<subseteq> consequences R (override T Y B) q"
proof -
  have "rule_heads (\<lambda>_. override T X B) r \<subseteq> rule_heads (\<lambda>_. override T Y B) r" if "r \<in> set R" for r
  proof (rule rule_heads_le)
    fix j assume "j < length (ru_body r)"
    then have i: "ru_body r ! j \<in> set (ru_body r)" by simp
    show "item_le (override T X B) (override T Y B) (ru_body r ! j)"
      using assms i that by (cases "ru_body r ! j") (auto simp: item_le_def component_rules_def override_def)
  qed
  then show ?thesis by (auto simp: consequences_def)
qed

text \<open>The candidates of a round.\<close>

definition candidates_of :: "identity set \<Rightarrow> rule list \<Rightarrow> (identity \<Rightarrow> tuple set) \<Rightarrow> (identity \<Rightarrow> tuple set) \<Rightarrow> identity \<Rightarrow> tuple set" where
  "candidates_of T R M D q = (\<Union>r \<in> {r \<in> set R. ru_head_relation r = q}. \<Union>k \<in> recursive_indices T r. rule_heads (delta_reader M D k) r)"

lemma candidates_sound:
  assumes "component_rules T R" "\<And>q. D q \<subseteq> F q" "\<And>q. q \<notin> T \<Longrightarrow> D q = {}"
  shows "candidates_of T R (override T F B) D q \<subseteq> consequences R (override T F B) q"
proof -
  have "rule_heads (delta_reader (override T F B) D k) r \<subseteq> rule_heads (\<lambda>_. override T F B) r" if "k \<in> recursive_indices T r" for r k
  proof (rule rule_heads_le)
    fix j assume "j < length (ru_body r)"
    show "item_le (delta_reader (override T F B) D k j) (override T F B) (ru_body r ! j)"
    proof (cases "j = k")
      case True
      then have "recursive_in T (ru_body r ! j)" using that by (simp add: recursive_indices_def)
      then show ?thesis using assms(2) True by (cases "ru_body r ! j") (auto simp: item_le_def delta_reader_def override_def)
    qed (cases "ru_body r ! j"; simp add: item_le_def delta_reader_def)
  qed
  then show ?thesis by (auto simp: candidates_of_def consequences_def)
qed

lemma consequences_complete:
  assumes "semi_naive_inv T R E B F D A"
  shows "consequences R (override T F B) q \<subseteq> A q \<union> candidates_of T R (override T F B) D q"
  using heads_split [of "override T F B" _ T D] semi_naive_invD(6) [OF assms]
  by (fastforce simp: consequences_def candidates_of_def)

lemma candidates_in: "component_rules T R \<Longrightarrow> q \<notin> T \<Longrightarrow> candidates_of T R M D q = {}"
  by (auto simp: candidates_of_def component_rules_def)

lemma old_reader_le:
  assumes "component_rules T R" "r \<in> set R" "\<And>q. F' q \<subseteq> F q \<union> D q" "j < length (ru_body r)"
  shows "item_le (old_reader T r (override T F' B) D j) (override T F B) (ru_body r ! j)"
proof (cases "ru_body r ! j")
  case (ItemAtom a)
  then have "ItemAtom a \<in> set (ru_body r)" using assms(4) nth_mem by metis
  then have "at_negated a \<Longrightarrow> at_relation a \<notin> T" using assms(1,2) unfolding component_rules_def by blast
  then show ?thesis using assms(3) by (cases "at_relation a \<in> T") (auto simp: ItemAtom item_le_def old_reader_def override_def)
qed (simp add: item_le_def)

lemma semi_naive_step:
  assumes comp: "component_rules T R" and inv: "semi_naive_inv T R E B F D A" and C: "\<And>q. C q = candidates_of T R (override T F B) D q"
  shows "semi_naive_inv T R E B (\<lambda>q. F q \<union> (C q - F q)) (\<lambda>q. C q - F q) (\<lambda>q. A q \<union> C q)"
proof -
  let ?F = "\<lambda>q. F q \<union> (C q - F q)" and ?D = "\<lambda>q. C q - F q"
  note I = semi_naive_invD [OF inv]
  have cand: "C q \<subseteq> consequences R (override T F B) q" for q
    unfolding C by (rule candidates_sound [OF comp I(4,2)])
  have grow: "consequences R (override T F B) q \<subseteq> consequences R (override T ?F B) q" for q by (rule consequences_mono [OF comp]) blast
  have old: "rule_heads (old_reader T r (override T ?F B) ?D) r \<subseteq> A (ru_head_relation r) \<union> C (ru_head_relation r)" if r: "r \<in> set R" for r
  proof -
    have "rule_heads (old_reader T r (override T ?F B) ?D) r \<subseteq> rule_heads (\<lambda>_. override T F B) r"
      by (rule rule_heads_le, rule old_reader_le [OF comp r]) blast+
    also have "\<dots> \<subseteq> consequences R (override T F B) (ru_head_relation r)" using r by (auto simp: consequences_def)
    also have "\<dots> \<subseteq> A (ru_head_relation r) \<union> C (ru_head_relation r)" unfolding C by (rule consequences_complete [OF inv])
    finally show ?thesis .
  qed
  have least: "F q \<union> (C q - F q) \<subseteq> X q" if X: "closed_under T R E B X" "q \<in> T" for X q
  proof -
    have "consequences R (override T F B) q \<subseteq> consequences R (override T X B) q" by (rule consequences_mono [OF comp]) (rule I(8) [OF X(1)])
    then show ?thesis using cand I(8) [OF X] X unfolding closed_under_def by blast
  qed
  have none: "C q = {}" if "q \<notin> T" for q unfolding C by (rule candidates_in [OF comp that])
  have sound: "A q \<union> C q \<subseteq> consequences R (override T ?F B) q" for q using I(7) cand grow by blast
  have eq: "F q \<union> (C q - F q) = E q \<union> (A q \<union> C q)" if "q \<in> T" for q using I(5) [OF that] by blast
  show ?thesis unfolding semi_naive_inv_def by (intro conjI allI ballI impI old least sound eq) (auto simp: I(1-3) none)
qed

text \<open>What the loop ends with: \<open>A\<close> is what the rules derive from \<open>F\<close>, and \<open>F\<close> is least.\<close>

definition component_done ::
  "identity set \<Rightarrow> rule list \<Rightarrow> (identity \<Rightarrow> tuple set) \<Rightarrow> (identity \<Rightarrow> tuple set) \<Rightarrow> (identity \<Rightarrow> tuple set) \<Rightarrow> bool" where
  "component_done T R E B A \<longleftrightarrow> (let F = (\<lambda>q. E q \<union> A q) in
     (\<forall>q. q \<notin> T \<longrightarrow> A q = {}) \<and> (\<forall>q. A q = consequences R (override T F B) q) \<and>
     (\<forall>X. closed_under T R E B X \<longrightarrow> (\<forall>q \<in> T. F q \<subseteq> X q)))"

lemma semi_naive_exit:
  assumes comp: "component_rules T R" and inv: "semi_naive_inv T R E B F D A" and C: "\<And>q. C q = candidates_of T R (override T F B) D q"
    and sat: "\<And>q. C q \<subseteq> F q"
  shows "component_done T R E B (\<lambda>q. A q \<union> C q)"
proof -
  note I = semi_naive_invD [OF inv]
  have "q \<in> T \<Longrightarrow> E q \<union> (A q \<union> C q) = F q" for q using I(5) sat by blast
  then have o: "override T (\<lambda>q. E q \<union> (A q \<union> C q)) B = override T F B" by (simp add: override_def fun_eq_iff)
  have "C q \<subseteq> consequences R (override T F B) q" for q
    unfolding C by (rule candidates_sound [OF comp I(4,2)])
  moreover have "consequences R (override T F B) q \<subseteq> A q \<union> C q" for q unfolding C by (rule consequences_complete [OF inv])
  ultimately have "A q \<union> C q = consequences R (override T F B) q" for q using I(7) by blast
  moreover have "C q = {}" if "q \<notin> T" for q unfolding C by (rule candidates_in [OF comp that])
  moreover have "E q \<union> (A q \<union> C q) \<subseteq> X q" if "closed_under T R E B X" "q \<in> T" for X q using I(8) [OF that] I(5) [OF that(2)] sat by blast
  ultimately show ?thesis unfolding component_done_def Let_def o using I(3) by simp
qed

lemma candidates_none: "(\<And>q. D q = {}) \<Longrightarrow> candidates_of T R M D q = {}"
proof -
  assume D: "\<And>q. D q = {}"
  have "rule_heads (delta_reader M D k) r = {}" if k: "k \<in> recursive_indices T r" for r k
  proof -
    have "\<not> holds_item (delta_reader M D k k) s (ru_body r ! k)" for s
      using k D by (cases "ru_body r ! k") (auto simp: delta_reader_def recursive_indices_def)
    then show ?thesis using k by (auto simp: rule_heads_def recursive_indices_def)
  qed
  then show ?thesis by (auto simp: candidates_of_def)
qed

lemma semi_naive_start:
  assumes "component_rules T R" "\<And>q. q \<notin> T \<Longrightarrow> E q = {}"
    and S: "\<And>q. S q = consequences (filter (\<lambda>r. recursive_indices T r = {}) R) (override T E B) q"
  shows "semi_naive_inv T R E B (\<lambda>q. E q \<union> S q) (\<lambda>q. E q \<union> S q) S"
proof -
  let ?F = "\<lambda>q. E q \<union> S q"
  have none: "S q = {}" if "q \<notin> T" for q using assms(1) that by (auto simp: S consequences_def component_rules_def)
  have "S q \<subseteq> consequences R (override T E B) q" for q by (auto simp: S consequences_def)
  moreover have "consequences R (override T E B) q \<subseteq> consequences R (override T ?F B) q" for q by (rule consequences_mono [OF assms(1)]) blast
  ultimately have sound: "S q \<subseteq> consequences R (override T ?F B) q" for q by blast
  have "rule_heads (old_reader T r (override T ?F B) ?F) r \<subseteq> S (ru_head_relation r)" if r: "r \<in> set R" for r
  proof (cases "recursive_indices T r = {}")
    case True
    have "rule_heads (old_reader T r (override T ?F B) ?F) r \<subseteq> rule_heads (\<lambda>_. override T E B) r"
      by (rule rule_heads_le, rule old_reader_le [OF assms(1) r]) blast+
    then show ?thesis using r True by (auto simp: S consequences_def)
  next
    case False
    then obtain k where k: "k \<in> recursive_indices T r" by blast
    have "\<not> holds_item (old_reader T r (override T ?F B) ?F k) s (ru_body r ! k)" for s
      using k by (cases "ru_body r ! k") (auto simp: old_reader_def recursive_indices_def override_def)
    then show ?thesis using k by (auto simp: rule_heads_def recursive_indices_def)
  qed
  moreover have "?F q \<subseteq> X q" if X: "closed_under T R E B X" "q \<in> T" for X q
  proof -
    have "consequences R (override T E B) q \<subseteq> consequences R (override T X B) q"
      by (rule consequences_mono [OF assms(1)]) (use X(1) in \<open>auto simp: closed_under_def\<close>)
    then show ?thesis using X \<open>\<And>q. S q \<subseteq> consequences R (override T E B) q\<close> unfolding closed_under_def by blast
  qed
  ultimately show ?thesis unfolding semi_naive_inv_def using none assms(2) sound by simp
qed

section \<open>The compiled component\<close>

lemma map_nth_filter: "map ((!) xs) (filter (\<lambda>k. P (xs ! k)) [0..<length xs]) = filter P xs"
proof -
  have "filter P (map ((!) xs) [0..<length xs]) = map ((!) xs) (filter (\<lambda>k. P (xs ! k)) [0..<length xs])" by (simp add: filter_map o_def)
  then show ?thesis by (simp add: map_nth)
qed

lemma compile_rule_shape: "list_all2 (\<lambda>i c. \<exists>vs. compiles_item vs i c) (ru_body r) (cr_body (compile_rule r))"
  "cr_head_relation (compile_rule r) = ru_head_relation r" "length (cr_head_terms (compile_rule r)) = length (ru_head_terms r)"
proof -
  obtain vs where "compiles_rule vs r (compile_rule r)" using compile_rule_ok by blast
  then show "list_all2 (\<lambda>i c. \<exists>vs. compiles_item vs i c) (ru_body r) (cr_body (compile_rule r))"
    "cr_head_relation (compile_rule r) = ru_head_relation r" "length (cr_head_terms (compile_rule r)) = length (ru_head_terms r)"
    by (auto simp: compiles_rule_def list_all2_lengthD elim: list_all2_mono)
qed

lemma recursive_item_compiled: "compiles_item vs i c \<Longrightarrow> recursive_item T c = recursive_in (set T) i"
  by (cases i) auto

lemma recursive_indices_compiled: "set (recursive_body_indices T (compile_rule r)) = recursive_indices (set T) r"
proof -
  have len: "length (cr_body (compile_rule r)) = length (ru_body r)" using compile_rule_shape(1) [of r] by (simp add: list_all2_lengthD)
  have "recursive_item T (cr_body (compile_rule r) ! j) = recursive_in (set T) (ru_body r ! j)" if "j < length (ru_body r)" for j
    using list_all2_nthD [OF compile_rule_shape(1) that] recursive_item_compiled by blast
  then show ?thesis by (auto simp: recursive_body_indices_def recursive_indices_def len)
qed

definition rules_of :: "identity list \<Rightarrow> rule list \<Rightarrow> rule list" where
  "rules_of T rules = filter (\<lambda>r. ru_head_relation r \<in> set T) rules"

lemma component_indices:
  fixes T rules
  defines "c \<equiv> compile_component (map compile_rule rules) T"
  shows "map (\<lambda>k. map compile_rule rules ! k) (cs_rule_indices c) = map compile_rule (rules_of T rules)"
    "map (\<lambda>k. map compile_rule rules ! k) (cs_seed_rule_indices c) = map compile_rule (filter (\<lambda>r. recursive_indices (set T) r = {}) (rules_of T rules))"
    "cs_target_relations c = T"
    "{(rv_rule_index v, rv_delta_body_index v) |v. v \<in> set (cs_recursive_variants c)} =
       {(k, j). k < length rules \<and> ru_head_relation (rules ! k) \<in> set T \<and> j \<in> recursive_indices (set T) (rules ! k)}"
proof -
  let ?P = "\<lambda>r. ru_head_relation r \<in> set T" and ?Q = "\<lambda>r. ru_head_relation r \<in> set T \<and> recursive_indices (set T) r = {}"
  have idx: "filter (\<lambda>k. cr_head_relation (map compile_rule rules ! k) \<in> set T) [0..<length (map compile_rule rules)] =
      filter (\<lambda>k. ?P (rules ! k)) [0..<length rules]"
    by (rule trans [OF filter_cong [OF _ refl]]) (auto simp: compile_rule_shape(2) intro!: filter_cong)
  have m: "map (\<lambda>k. map compile_rule rules ! k) (filter (\<lambda>k. Q (rules ! k)) [0..<length rules]) = map compile_rule (filter Q rules)" for Q
    unfolding map_nth_filter [of rules Q, symmetric] by simp
  show "map (\<lambda>k. map compile_rule rules ! k) (cs_rule_indices c) = map compile_rule (rules_of T rules)"
    using m [of ?P] by (simp add: c_def compile_component_def Let_def idx rules_of_def del: length_map)
  have seed: "recursive_body_indices T r = [] \<longleftrightarrow> set (recursive_body_indices T r) = {}" for r by simp
  have "filter (\<lambda>k. recursive_body_indices T (map compile_rule rules ! k) = []) (filter (\<lambda>k. ?P (rules ! k)) [0..<length rules]) =
      filter (\<lambda>k. ?Q (rules ! k)) [0..<length rules]"
    unfolding filter_filter seed by (rule filter_cong [OF refl]) (auto simp: recursive_indices_compiled)
  then show "map (\<lambda>k. map compile_rule rules ! k) (cs_seed_rule_indices c) = map compile_rule (filter (\<lambda>r. recursive_indices (set T) r = {}) (rules_of T rules))"
    using m [of ?Q] by (simp add: c_def compile_component_def Let_def idx rules_of_def filter_filter conj_commute del: length_map)
  show "cs_target_relations c = T" by (simp add: c_def compile_component_def Let_def)
  show "{(rv_rule_index v, rv_delta_body_index v) |v. v \<in> set (cs_recursive_variants c)} =
      {(k, j). k < length rules \<and> ru_head_relation (rules ! k) \<in> set T \<and> j \<in> recursive_indices (set T) (rules ! k)}"
    by (force simp: c_def compile_component_def Let_def idx recursive_indices_compiled simp del: length_map)
qed

end
