(* ===== verification/RuleTotal.thy ===== *)
theory RuleTotal
  imports RuleMaps
begin

text \<open>
  Rules whose variables all occur in a positive atom of the body are evaluated without an error when
  the reader answers: the planner always finds an item it can evaluate, and every head is bound.
\<close>

section \<open>Safe rules\<close>

definition term_variables :: "rterm list \<Rightarrow> symbol set" where
  "term_variables ts = {s. RVar s \<in> set ts}"

fun item_variables :: "rule_body_item \<Rightarrow> symbol set" where
  "item_variables (ItemAtom a) = term_variables (at_terms a)"
| "item_variables (ItemGuard g) = term_variables [gd_left g, gd_right g]"

definition positive_variables :: "rule \<Rightarrow> symbol set" where
  "positive_variables r = (\<Union>a \<in> {a. ItemAtom a \<in> set (ru_body r) \<and> \<not> at_negated a}. term_variables (at_terms a))"

definition safe_rule :: "rule \<Rightarrow> bool" where
  "safe_rule r \<longleftrightarrow> term_variables (ru_head_terms r) \<subseteq> positive_variables r \<and> (\<forall>i \<in> set (ru_body r). item_variables i \<subseteq> positive_variables r)"

text \<open>A base reader that answers, but for relations it does not know.\<close>

definition serves :: "(identity \<Rightarrow> nat) \<Rightarrow> reader \<Rightarrow> bool" where
  "serves ar rd \<longleftrightarrow> (\<forall>r bs. length bs = ar r \<longrightarrow> (\<exists>ts. hide_unknown r [] (rd_scan rd r bs) = Inr ts) \<and>
       (\<exists>ts. hide_unknown r [] (rd_visit rd r bs) = Inr ts) \<and> (\<exists>n. hide_unknown r (Some 0) (rd_estimate rd r bs) = Inr n)) \<and>
     (\<forall>r. hide_unknown r None (rd_required rd r) = Inr None)"

definition join_answers :: "(identity \<Rightarrow> nat) \<Rightarrow> packed_join \<Rightarrow> bool" where
  "join_answers ar pj \<longleftrightarrow> (\<forall>rd rd' r r' ps qs. answers ar rd \<longrightarrow> answers ar rd' \<longrightarrow>
     (\<exists>x. pj rd (r, replicate (ar r) None) rd' (r', replicate (ar r') None) ps qs = Inr x))"

lemma derived_answers: "serves ar rd \<Longrightarrow> answers ar (derived_reader rd dm)"
  unfolding serves_def answers_def derived_reader_def by (auto simp: Let_def) (metis map_sum.simps(2))+

lemma scc_answers: "serves ar rd \<Longrightarrow> answers ar (scc_reader rd dm full)"
  unfolding serves_def answers_def scc_reader_def by (auto simp: Let_def) (metis map_sum.simps(2))+

lemma tuple_map_answers: "answers ar (tuple_map_reader m)"
  by (simp add: answers_def tuple_map_reader_def Let_def)

section \<open>The planner finds an item\<close>

fun applicable :: "binding list \<Rightarrow> citem \<Rightarrow> bool" where
  "applicable bs (CAtom a) \<longleftrightarrow> (ca_negated a \<longrightarrow> (\<forall>b \<in> set bs. negated_atom_is_safe a b))"
| "applicable bs (CGuard g) \<longleftrightarrow> (\<forall>b \<in> set bs. guard_is_safe g b)"

lemma answersD:
  assumes "answers ar rd" "length (ca_terms a) = ar (ca_relation a)"
  shows "\<exists>ts. rd_visit rd (ca_relation a) (scan_bindings a b) = Inr ts" "\<exists>n. rd_estimate rd (ca_relation a) (scan_bindings a b) = Inr n"
    "rd_required rd r = Inr None"
  using assms by (simp_all add: answers_def scan_bindings_def)

lemma atom_estimate_total:
  assumes "answers ar rd" "length (ca_terms a) = ar (ca_relation a)"
  shows "\<exists>n. atom_estimate rd a bs acc = Inr n"
proof (induction bs arbitrary: acc)
  case (Cons b bs)
  then show ?case using answersD(2) [OF assms, of b] by auto
qed simp

lemma item_rank_total:
  assumes "answers ar rd" "item_slots_ok ar n item"
  shows "\<exists>res. item_rank rd r bs index j item = Inr res \<and> (applicable bs item \<longleftrightarrow> \<not> isl res)"
proof (cases item)
  case (CAtom a)
  then have len: "length (ca_terms a) = ar (ca_relation a)" using assms(2) by (simp add: item_slots_ok_def)
  obtain m where "atom_estimate rd a bs 0 = Inr m" using atom_estimate_total [OF assms(1) len] by blast
  then show ?thesis using answersD(3) [OF assms(1) len] CAtom by (simp add: item_rank_def Let_def)
qed (simp add: item_rank_def)

lemma rank_items_total:
  assumes "\<forall>(j, item) \<in> set items. answers ar (reader_for_body_item full delta j) \<and> item_slots_ok ar n item"
  shows "\<exists>best' missing'. rank_items full delta r bs index items best missing = Inr (best', missing') \<and>
    (best' = None \<longrightarrow> best = None \<and> \<not> (\<exists>(j, item) \<in> set items. applicable bs item)) \<and>
    (\<forall>k rank. best' = Some (k, rank) \<longrightarrow> best = best' \<or> (index \<le> k \<and> k - index < length items \<and> applicable bs (snd (items ! (k - index)))))"
  using assms
proof (induction items arbitrary: index best missing)
  case (Cons e items)
  obtain j item where e: "e = (j, item)" by force
  obtain res where res: "item_rank (reader_for_body_item full delta j) r bs index j item = Inr res" "applicable bs item \<longleftrightarrow> \<not> isl res"
    using item_rank_total Cons.prems e by fastforce
  define best1 where "best1 = (case res of Inl _ \<Rightarrow> best | Inr rank \<Rightarrow>
      (case best of Some (k, rank') \<Rightarrow> if rank_less rank rank' then Some (index, rank) else best | None \<Rightarrow> Some (index, rank)))"
  define missing1 where "missing1 = (case res of Inl (Some e) \<Rightarrow> Some e | _ \<Rightarrow> missing)"
  have step: "rank_items full delta r bs index (e # items) best missing = rank_items full delta r bs (Suc index) items best1 missing1"
    using res(1) by (cases res) (auto simp: e best1_def missing1_def split: option.split)
  have none: "best1 = None \<Longrightarrow> best = None \<and> \<not> applicable bs item" using res(2) by (auto simp: best1_def split: sum.splits option.splits if_splits)
  have some: "best1 = Some (k, rank) \<Longrightarrow> best = best1 \<or> (k = index \<and> applicable bs item)" for k rank
    using res(2) by (auto simp: best1_def split: sum.splits option.splits if_splits)
  obtain best' missing' where r: "rank_items full delta r bs (Suc index) items best1 missing1 = Inr (best', missing')"
    "best' = None \<longrightarrow> best1 = None \<and> \<not> (\<exists>(j, item) \<in> set items. applicable bs item)"
    "\<forall>k rank. best' = Some (k, rank) \<longrightarrow> best1 = best' \<or> (Suc index \<le> k \<and> k - Suc index < length items \<and> applicable bs (snd (items ! (k - Suc index))))"
    using Cons.IH [of "Suc index" best1 missing1] Cons.prems by auto
  have "best = best' \<or> (index \<le> k \<and> k - index < length (e # items) \<and> applicable bs (snd ((e # items) ! (k - index))))" if "best' = Some (k, rank)" for k rank
  proof (cases "best1 = best'")
    case True
    then show ?thesis using some [of k rank] that e by auto
  next
    case False
    then have k: "Suc index \<le> k" "k - Suc index < length items" "applicable bs (snd (items ! (k - Suc index)))" using r(3) that by blast+
    then have "k - index = Suc (k - Suc index)" by simp
    then show ?thesis using k by simp
  qed
  moreover have "best' = None \<longrightarrow> best = None \<and> \<not> (\<exists>(j, item) \<in> set (e # items). applicable bs item)" using r(2) none e by auto
  ultimately show ?case unfolding step using r(1) by blast
qed simp

lemma select_total:
  assumes "\<forall>(j, item) \<in> set items. answers ar (reader_for_body_item full delta j) \<and> item_slots_ok ar n item" "(j, item) \<in> set items" "applicable bs item"
  shows "\<exists>k. select_next_item full delta r bs items = Inr k \<and> k < length items \<and> applicable bs (snd (items ! k))"
proof -
  obtain best missing where r: "rank_items full delta r bs 0 items None None = Inr (best, missing)" "best \<noteq> None"
    "\<forall>k rank. best = Some (k, rank) \<longrightarrow> k < length items \<and> applicable bs (snd (items ! k))"
    using rank_items_total [OF assms(1), of r bs 0 None None] assms(2,3) by fastforce
  then show ?thesis by (auto simp: select_next_item_def)
qed

section \<open>The body\<close>

lemma visit_bindings_total:
  assumes "answers ar rd" "length (ca_terms a) = ar (ca_relation a)"
  shows "\<exists>bs'. visit_bindings rd a bs = Inr bs'"
proof (induction bs)
  case (Cons b bs)
  then show ?case using answersD(1) [OF assms, of b] by (auto simp del: ebind_Inr)
qed simp

lemma apply_negated_total:
  assumes "answers ar rd" "length (ca_terms a) = ar (ca_relation a)"
  shows "\<forall>b \<in> set bs. negated_atom_is_safe a b \<Longrightarrow> \<exists>bs'. apply_negated_atom rd a bs = Inr bs'"
proof (induction bs)
  case (Cons b bs)
  then show ?case using answersD(1) [OF assms, of b] by (auto simp del: ebind_Inr)
qed simp

lemma apply_guard_total: "\<forall>b \<in> set bs. guard_is_safe g b \<Longrightarrow> \<exists>bs'. apply_guard g bs = Inr bs'"
proof (induction bs)
  case (Cons b bs)
  then have "\<exists>l r. guard_value (cg_left g) b = Inr l \<and> guard_value (cg_right g) b = Inr r"
    by (simp add: guard_value_bound guard_is_safe_def term_is_bound_def)
  then show ?case using Cons by (auto simp del: ebind_Inr)
qed simp

lemma apply_item_total:
  assumes "answers ar rd" "item_slots_ok ar n item" "applicable bs item"
  shows "\<exists>bs'. apply_item rd item bs = Inr bs'"
proof (cases item)
  case (CAtom a)
  then have len: "length (ca_terms a) = ar (ca_relation a)" using assms(2) by (simp add: item_slots_ok_def)
  show ?thesis using apply_negated_total [OF assms(1) len, of bs] visit_bindings_total [OF assms(1) len] answersD(3) [OF assms(1) len] assms(3) CAtom
    by (simp add: apply_item_def apply_positive_atom_def)
qed (use assms(3) apply_guard_total in \<open>simp add: apply_item_def\<close>)

lemma bound_applicable:
  assumes "partial_bindings n D bs" "item_slots_ok ar n item" "compiled_body_slots item \<subseteq> D"
  shows "applicable bs item"
proof (cases item)
  case (CAtom a)
  have "negated_atom_is_safe a b" if "b \<in> set bs" for b
    using safe_inst inst_bound [of b "ca_terms a"] assms that CAtom by (auto simp: partial_bindings_def item_slots_ok_def)
  then show ?thesis using CAtom by simp
next
  case (CGuard g)
  have "guard_is_safe g b" if b: "b \<in> set bs" for b
  proof -
    have "\<exists>t. inst b [cg_left g, cg_right g] = map Some t"
      using inst_bound [of b "[cg_left g, cg_right g]", THEN iffD2] assms b unfolding CGuard partial_bindings_def item_slots_ok_def by simp
    then show ?thesis by (auto simp: guard_is_safe_def term_is_bound_def Cons_eq_map_conv)
  qed
  then show ?thesis using CGuard by simp
qed

lemma body_loop_total:
  assumes "items_ok ar n full delta M items" "\<forall>(j, item) \<in> set items. answers ar (reader_for_body_item full delta j)"
    and "partial_bindings n D bs" "\<forall>(j, item) \<in> set items. compiled_body_slots item \<subseteq> D \<union> bound_slots items"
  shows "\<exists>res. body_loop full delta r bs items = Inr res"
  using assms
proof (induction full delta r bs items arbitrary: D rule: body_loop.induct)
  case (1 full delta r bs items)
  show ?case
  proof (cases "items = []")
    case True
    then show ?thesis by (simp add: body_loop.simps)
  next
    case False
    have slots: "\<forall>(j, item) \<in> set items. answers ar (reader_for_body_item full delta j) \<and> item_slots_ok ar n item"
      using "1.prems"(1,2) by (auto simp: items_ok_def)
    have "\<exists>j item. (j, item) \<in> set items \<and> applicable bs item"
    proof (cases "\<exists>j a. (j, CAtom a) \<in> set items \<and> \<not> ca_negated a")
      case nopos: False
      have "binds_slots item = {}" if "(j, item) \<in> set items" for j item using nopos that by (cases item) auto
      then have "bound_slots items = {}" by (auto simp: bound_slots_def)
      moreover obtain j item where "(j, item) \<in> set items" using False by (cases items) auto
      ultimately show ?thesis using bound_applicable [OF "1.prems"(3)] slots "1.prems"(4) by fastforce
    qed fastforce
    then obtain j0 item0 where "(j0, item0) \<in> set items" "applicable bs item0" by blast
    then obtain k where k: "select_next_item full delta r bs items = Inr k" "k < length items" "applicable bs (snd (items ! k))"
      using select_total [OF slots] by blast
    obtain j item where ji: "items ! k = (j, item)" by (cases "items ! k")
    have set: "set items = insert (j, item) (set (remove_at k items))" using set_removed [OF k(2)] ji by simp
    have ok: "answers ar (reader_for_body_item full delta j)" "reads ar (reader_for_body_item full delta j) (M j)" "item_slots_ok ar n item"
      "items_ok ar n full delta M (remove_at k items)" "\<forall>(j, item) \<in> set (remove_at k items). answers ar (reader_for_body_item full delta j)"
      using "1.prems"(1,2) by (auto simp: items_ok_def set)
    obtain bs' where bs': "apply_item (reader_for_body_item full delta j) item bs = Inr bs'" using apply_item_total [OF ok(1,3)] k(3) ji by auto
    have "D \<union> bound_slots items = D \<union> binds_slots item \<union> bound_slots (remove_at k items)" by (auto simp: bound_slots_def set)
    then have "\<forall>(j', item') \<in> set (remove_at k items). compiled_body_slots item' \<subseteq> D \<union> binds_slots item \<union> bound_slots (remove_at k items)"
      using "1.prems"(4) unfolding set by auto
    then have "\<exists>res. body_loop full delta r bs' (remove_at k items) = Inr res"
      using "1.IH" [OF False k(1) _ ok(4,5) apply_item_ok(1) [OF ok(2,3) "1.prems"(3) bs']] bs' ji by simp
    then show ?thesis using False k(1) bs' ji by (subst body_loop.simps) simp
  qed
qed

section \<open>The rules\<close>

lemma compiled_slot:
  assumes "list_all2 (compiles_term vs) ts cs" "k \<in> term_slots cs"
  shows "k < length vs \<and> vs ! k \<in> term_variables ts"
  using assms
proof (induction ts cs rule: list_all2_induct)
  case (Cons t ts c cs)
  then show ?case by (cases t) (auto simp: term_variables_def)
qed simp

lemma variable_slot:
  assumes "list_all2 (compiles_term vs) ts cs" "s \<in> term_variables ts" "distinct vs" "k < length vs" "vs ! k = s"
  shows "k \<in> term_slots cs"
  using assms(1,2)
proof (induction ts cs rule: list_all2_induct)
  case (Cons t ts c cs)
  then show ?case using assms(3-5) by (cases t) (auto simp: term_variables_def nth_eq_iff_index_eq)
qed (simp add: term_variables_def)

lemma positive_slot:
  assumes "compiles_rule vs r c" "k < length vs" "vs ! k \<in> positive_variables r"
  shows "k \<in> positive_slots c"
proof -
  have c: "distinct vs" "list_all2 (compiles_item vs) (ru_body r) (cr_body c)" using assms(1) by (simp_all add: compiles_rule_def)
  obtain a where a: "ItemAtom a \<in> set (ru_body r)" "\<not> at_negated a" "vs ! k \<in> term_variables (at_terms a)"
    using assms(3) by (auto simp: positive_variables_def)
  then obtain j where j: "j < length (ru_body r)" "ru_body r ! j = ItemAtom a" by (auto simp: in_set_conv_nth)
  then have "compiles_item vs (ItemAtom a) (cr_body c ! j)" using list_all2_nthD [OF c(2) j(1)] by simp
  then obtain ts where ts: "cr_body c ! j = CAtom \<lparr>ca_relation = at_relation a, ca_terms = ts, ca_negated = at_negated a\<rparr>"
    "list_all2 (compiles_term vs) (at_terms a) ts" by auto
  have "k \<in> binds_slots (cr_body c ! j)" using variable_slot [OF ts(2) a(3) c(1) assms(2) refl] ts(1) a(2) by simp
  moreover have "cr_body c ! j \<in> set (cr_body c)" using j(1) c(2) by (simp add: list_all2_lengthD)
  ultimately show ?thesis by (auto simp: positive_slots_def)
qed

lemma compiled_item_slot:
  assumes "compiles_item vs i c" "k \<in> compiled_body_slots c"
  shows "k < length vs \<and> vs ! k \<in> item_variables i"
proof (cases i)
  case (ItemGuard g)
  then obtain l r where c: "c = CGuard \<lparr>cg_op = gd_op g, cg_left = l, cg_right = r\<rparr>" "list_all2 (compiles_term vs) [gd_left g, gd_right g] [l, r]"
    using assms(1) by auto
  have "k \<in> term_slots [l, r]" using assms(2) c(1) by simp
  then show ?thesis using compiled_slot [OF c(2)] ItemGuard by simp
next
  case (ItemAtom a)
  then obtain ts where c: "c = CAtom \<lparr>ca_relation = at_relation a, ca_terms = ts, ca_negated = at_negated a\<rparr>" "list_all2 (compiles_term vs) (at_terms a) ts"
    using assms(1) by auto
  then show ?thesis using compiled_slot [OF c(2)] assms(2) ItemAtom by simp
qed

lemma insert_heads_total: "(\<And>b. b \<in> set bs \<Longrightarrow> \<exists>t. inst b (cr_head_terms r) = map Some t) \<Longrightarrow> \<exists>out'. insert_heads r bs out = Inr out'"
proof (induction bs arbitrary: out)
  case (Cons b bs)
  obtain t where "instantiate_head r b = Inr t" using Cons.prems [of b] by (auto simp: instantiate_head_def head_values_ok)
  then show ?case using Cons.IH [of "tm_extend (cr_head_relation r) [t] out"] Cons.prems by simp
qed simp

lemma evaluate_two_atom_total:
  assumes "join_answers ar pj" "\<And>j. answers ar (reader_for_body_item full delta j)" "cr_batch_plan c = compile_two_atom_batch_plan (cr_body c)"
    and sok: "\<And>item. item \<in> set (cr_body c) \<Longrightarrow> item_slots_ok ar n item"
  shows "\<exists>x. evaluate_two_atom_batch pj full delta c = Inr x"
proof (cases "cr_batch_plan c")
  case (Some plan)
  then have "compile_two_atom_batch_plan (cr_body c) = Some plan" using assms(3) by simp
  then show ?thesis
  proof (rule batch_plan_shape)
    fix a b assume p: "cr_body c = [CAtom a, CAtom b]" "bp_left plan = (ca_relation a, replicate (length (ca_terms a)) None)"
      "bp_right plan = (ca_relation b, replicate (length (ca_terms b)) None)"
    have "length (ca_terms a) = ar (ca_relation a)" "length (ca_terms b) = ar (ca_relation b)"
      using sok [of "CAtom a"] sok [of "CAtom b"] p(1) by (simp_all add: item_slots_ok_def)
    then obtain x where "pj (reader_for_body_item full delta 0) (bp_left plan) (reader_for_body_item full delta 1) (bp_right plan)
        (bp_left_positions plan) (bp_right_positions plan) = Inr x"
      using assms(1,2) unfolding join_answers_def p(2,3) by metis
    then show ?thesis using Some p(1) by (simp add: evaluate_two_atom_batch_def)
  qed
qed (auto simp: evaluate_two_atom_batch_def split: list.splits citem.splits)

lemma evaluate_rule_total:
  assumes "join_answers ar pj" "rule_arity_ok ar r" "safe_rule r" "join_ok ar pj" "\<And>j. reads ar (reader_for_body_item full delta j) (M j)"
    and "\<And>j. answers ar (reader_for_body_item full delta j)"
  shows "\<exists>bs. evaluate_body_with_readers pj full delta (compile_rule r) = Inr bs \<and> (\<forall>out. \<exists>out'. insert_heads (compile_rule r) bs out = Inr out')"
proof -
  obtain vs where cr: "compiles_rule vs r (compile_rule r)" using compile_rule_ok by blast
  let ?c = "compile_rule r"
  have c: "cr_slot_count ?c = length vs" "list_all2 (compiles_term vs) (ru_head_terms r) (cr_head_terms ?c)"
    "list_all2 (compiles_item vs) (ru_body r) (cr_body ?c)" "cr_batch_plan ?c = compile_two_atom_batch_plan (cr_body ?c)"
    using cr by (simp_all add: compiles_rule_def)
  have it: "\<exists>i \<in> set (ru_body r). compiles_item vs i item" if "item \<in> set (cr_body ?c)" for item
    using c(3) that by (metis in_set_conv_nth list_all2_conv_all_nth)
  have slots: "compiled_body_slots item \<subseteq> positive_slots ?c" if "item \<in> set (cr_body ?c)" for item
    using it [OF that] compiled_item_slot positive_slot [OF cr] assms(3) unfolding safe_rule_def by blast
  have sok: "item_slots_ok ar (length vs) item" if "item \<in> set (cr_body ?c)" for item
    using it [OF that] slots_ok_compiled assms(2) unfolding rule_arity_ok_def by blast
  have mem: "item \<in> set (cr_body ?c)" if "(j, item) \<in> set (enumerate 0 (cr_body ?c))" for j item using that by (auto simp: in_set_enumerate_eq)
  have items: "items_ok ar (cr_slot_count ?c) full delta M (enumerate 0 (cr_body ?c))" using sok mem assms(5) by (auto simp: items_ok_def c(1))
  have "\<exists>res. body_loop full delta ?c [replicate (cr_slot_count ?c) None] (enumerate 0 (cr_body ?c)) = Inr res"
  proof (rule body_loop_total [OF items, of "{}"])
    show "\<forall>(j, item) \<in> set (enumerate 0 (cr_body ?c)). compiled_body_slots item \<subseteq> {} \<union> bound_slots (enumerate 0 (cr_body ?c))"
      using slots mem unfolding bound_enumerate positive_slots_def by blast
  qed (use assms(6) in \<open>auto simp: partial_bindings_def\<close>)
  moreover have "\<exists>x. evaluate_two_atom_batch pj full delta ?c = Inr x" by (rule evaluate_two_atom_total [OF assms(1,6) c(4) sok])
  ultimately obtain res x where "body_loop full delta ?c [replicate (cr_slot_count ?c) None] (enumerate 0 (cr_body ?c)) = Inr res"
    "evaluate_two_atom_batch pj full delta ?c = Inr x" by blast
  then have "\<exists>bs. evaluate_body_with_readers pj full delta ?c = Inr bs" by (cases x) (simp_all add: evaluate_body_with_readers_def)
  then obtain bs where bs: "evaluate_body_with_readers pj full delta ?c = Inr bs" ..
  have sol: "solutions M ?c bs" by (rule evaluate_body_solutions [OF assms(4) items c(4) bs])
  have "\<exists>t. inst b (cr_head_terms ?c) = map Some t" if b: "b \<in> set bs" for b
  proof -
    have "length b = length vs" "dom (env b) = positive_slots ?c" using sol b by (auto simp: solutions_def solves_def c(1))
    moreover have "term_slots (cr_head_terms ?c) \<subseteq> positive_slots ?c"
      using compiled_slot [OF c(2)] positive_slot [OF cr] assms(3) unfolding safe_rule_def by blast
    ultimately show ?thesis using inst_bound [THEN iffD2] in_range_compiled [OF c(2)] by metis
  qed
  then have "\<exists>out'. insert_heads ?c bs out = Inr out'" for out by (rule insert_heads_total)
  then show ?thesis using bs by blast
qed

definition answered :: "(identity \<Rightarrow> nat) \<Rightarrow> packed_join \<Rightarrow> reader \<Rightarrow> rule list \<Rightarrow> bool" where
  "answered ar pj rd rules \<longleftrightarrow> serves ar rd \<and> join_answers ar pj \<and> (\<forall>r \<in> set rules. safe_rule r)"

lemma evaluate_rules_once_total:
  assumes "join_ok ar pj" "join_answers ar pj" "\<forall>r \<in> set rules. rule_arity_ok ar r \<and> safe_rule r" "reads ar rd M" "answers ar rd"
  shows "\<exists>out'. evaluate_rules_once pj rd (map compile_rule rules) out = Inr out'"
  using assms(3)
proof (induction rules arbitrary: out)
  case (Cons r rules)
  have "reads ar (reader_for_body_item rd None j) M" "answers ar (reader_for_body_item rd None j)" for j
    using assms(4,5) by (simp_all add: reader_for_body_item_def)
  then obtain bs out' where "evaluate_body_with_readers pj rd None (compile_rule r) = Inr bs" "insert_heads (compile_rule r) bs out = Inr out'"
    using evaluate_rule_total [OF assms(2) _ _ assms(1), of r rd None "\<lambda>_. M"] Cons.prems by fastforce
  then show ?case using Cons.IH [of out'] Cons.prems by simp
qed simp

lemma evaluate_variants_total:
  assumes "join_ok ar pj" "join_answers ar pj" "\<forall>r \<in> set rules. rule_arity_ok ar r \<and> safe_rule r"
    and "reads ar full M" "answers ar full" "reads ar delta D" "answers ar delta"
  shows "\<forall>v \<in> set vs. rv_rule_index v < length rules \<Longrightarrow> \<exists>out'. evaluate_recursive_variants pj full delta (map compile_rule rules) vs out = Inr out'"
proof (induction vs arbitrary: out)
  case (Cons v vs)
  let ?r = "rules ! rv_rule_index v" and ?M = "\<lambda>j. if j = rv_delta_body_index v then D else M"
  have r: "rule_arity_ok ar ?r" "safe_rule ?r" "rv_rule_index v < length rules" using assms(3) Cons.prems by simp_all
  have "reads ar (reader_for_body_item full (Some (delta, rv_delta_body_index v)) j) (?M j)"
    "answers ar (reader_for_body_item full (Some (delta, rv_delta_body_index v)) j)" for j
    using assms(4-7) by (simp_all add: reader_for_body_item_def)
  then obtain bs out' where "evaluate_body_with_readers pj full (Some (delta, rv_delta_body_index v)) (compile_rule ?r) = Inr bs"
    "insert_heads (compile_rule ?r) bs out = Inr out'"
    using evaluate_rule_total [OF assms(2) r(1,2) assms(1), of full "Some (delta, rv_delta_body_index v)" ?M] by blast
  then show ?case using Cons.IH [of out'] Cons.prems r(3) by simp
qed simp

end
