(* ===== verification/RuleSemiNaive.thy ===== *)
theory RuleSemiNaive
  imports RuleFixpoint RuleTotal
begin

text \<open>
  The evaluation of a compiled component ends, and ends with the least relations closed under the
  component's rules. The values of derived tuples are values of stored tuples or constants of heads,
  so there are finitely many tuples to derive and each round but the last derives a new one.
\<close>

section \<open>Values and arities\<close>

definition values_in :: "val set \<Rightarrow> (identity \<Rightarrow> tuple set) \<Rightarrow> bool" where
  "values_in V M \<longleftrightarrow> (\<forall>q. \<forall>t \<in> M q. set t \<subseteq> V)"

lemma values_inD: "values_in V M \<Longrightarrow> t \<in> M q \<Longrightarrow> set t \<subseteq> V"
  by (simp add: values_in_def)

lemma values_extend: "values_in V M \<Longrightarrow> (\<And>t. t \<in> H \<Longrightarrow> set t \<subseteq> V) \<Longrightarrow> values_in V (M(q := M q \<union> H))"
  unfolding values_in_def by (metis Un_iff fun_upd_apply)

lemma rule_heads_arity: "rule_arity_ok ar r \<Longrightarrow> t \<in> rule_heads M r \<Longrightarrow> length t = ar (ru_head_relation r)"
  by (auto simp: rule_heads_def rule_arity_ok_def term_values_def)

lemma evaluate_rules_once_values:
  assumes "join_ok ar pj" "\<forall>r \<in> set rules. rule_arity_ok ar r \<and> rule_constants r \<subseteq> V" "reads ar rd M" "values_in V M"
  shows "om_ok out \<Longrightarrow> values_in V (tuples out) \<Longrightarrow> evaluate_rules_once pj rd (map compile_rule rules) out = Inr out' \<Longrightarrow> values_in V (tuples out')"
  using assms(2)
proof (induction rules arbitrary: out)
  case (Cons r rules)
  obtain bs mid where e: "evaluate_body_with_readers pj rd None (compile_rule r) = Inr bs" "insert_heads (compile_rule r) bs out = Inr mid"
    "evaluate_rules_once pj rd (map compile_rule rules) mid = Inr out'"
    using Cons.prems(3) by auto
  have r: "reads ar (reader_for_body_item rd None j) M" for j using assms(3) by (simp add: reader_for_body_item_def)
  have arity: "rule_arity_ok ar r" "rule_constants r \<subseteq> V" "\<forall>r \<in> set rules. rule_arity_ok ar r \<and> rule_constants r \<subseteq> V" using Cons.prems(4) by simp_all
  note step = evaluate_rule_ok [where M = "\<lambda>_. M", OF assms(1) arity(1) r Cons.prems(1) e(1,2)]
  have "set t \<subseteq> V" if "t \<in> rule_heads (\<lambda>_. M) r" for t
    by (rule step(3) [OF arity(2) _ that]) (rule values_inD [OF assms(4)])
  then have "values_in V (tuples mid)" unfolding step(2) by (rule values_extend [OF Cons.prems(2)])
  then show ?case using Cons.IH [OF step(1) _ e(3) arity(3)] by blast
qed simp

lemma evaluate_variants_values:
  assumes "join_ok ar pj" "reads ar full M" "reads ar delta D" "\<forall>r \<in> set rules. rule_arity_ok ar r \<and> rule_constants r \<subseteq> V"
    "values_in V M" "values_in V D"
  shows "om_ok out \<Longrightarrow> values_in V (tuples out) \<Longrightarrow> \<forall>v \<in> set vs. rv_rule_index v < length rules \<Longrightarrow>
    evaluate_recursive_variants pj full delta (map compile_rule rules) vs out = Inr out' \<Longrightarrow> values_in V (tuples out')"
proof (induction vs arbitrary: out)
  case (Cons v vs)
  let ?r = "rules ! rv_rule_index v" and ?M = "\<lambda>j. if j = rv_delta_body_index v then D else M"
  have v: "rv_rule_index v < length rules" "\<forall>v \<in> set vs. rv_rule_index v < length rules" using Cons.prems(3) by simp_all
  obtain bs mid where e: "evaluate_body_with_readers pj full (Some (delta, rv_delta_body_index v)) (compile_rule ?r) = Inr bs"
    "insert_heads (compile_rule ?r) bs out = Inr mid" "evaluate_recursive_variants pj full delta (map compile_rule rules) vs mid = Inr out'"
    using Cons.prems(4) v by auto
  have r: "reads ar (reader_for_body_item full (Some (delta, rv_delta_body_index v)) j) (?M j)" for j
    using assms(2,3) by (simp add: reader_for_body_item_def)
  have arity: "rule_arity_ok ar ?r" "rule_constants ?r \<subseteq> V" using assms(4) v(1) by simp_all
  note step = evaluate_rule_ok [where M = ?M, OF assms(1) arity(1) r Cons.prems(1) e(1,2)]
  have "set t \<subseteq> V" if "t \<in> ?M j q" for j q t using that values_inD assms(5,6) by (auto split: if_splits)
  then have "set t \<subseteq> V" if "t \<in> rule_heads ?M ?r" for t using step(3) [OF arity(2) _ that] by blast
  then have "values_in V (tuples mid)" unfolding step(2) by (rule values_extend [OF Cons.prems(2)])
  then show ?case using Cons.IH [OF step(1) _ v(2) e(3)] by blast
qed simp

section \<open>The loop\<close>

text \<open>A component ready to be evaluated: nothing is derived yet for its relations.\<close>

definition evaluable ::
  "(identity \<Rightarrow> nat) \<Rightarrow> packed_join \<Rightarrow> reader \<Rightarrow> (identity \<Rightarrow> tuple set) \<Rightarrow> rule list \<Rightarrow> identity list \<Rightarrow> val set \<Rightarrow> tuple_map \<Rightarrow> bool" where
  "evaluable ar pj rd M rules T V dm \<longleftrightarrow>
     join_ok ar pj \<and> reads ar rd M \<and> (\<forall>r \<in> set rules. rule_arity_ok ar r \<and> rule_constants r \<subseteq> V) \<and>
     component_rules (set T) (rules_of T rules) \<and> om_ok dm \<and> arities_ok ar dm \<and>
     (\<forall>q \<in> set T. tuples dm q = {} \<and> q \<in> ru_head_relation ` set rules) \<and>
     finite V \<and> values_in V M \<and> values_in V (tuples dm)"

lemma evaluableD:
  assumes "evaluable ar pj rd M rules T V dm"
  shows "join_ok ar pj" "reads ar rd M" "\<forall>r \<in> set rules. rule_arity_ok ar r \<and> rule_constants r \<subseteq> V" "\<forall>r \<in> set rules. rule_arity_ok ar r"
    "component_rules (set T) (rules_of T rules)" "om_ok dm" "arities_ok ar dm" "q \<in> set T \<Longrightarrow> tuples dm q = {}" "q \<in> set T \<Longrightarrow> q \<in> ru_head_relation ` set rules"
    "finite V" "values_in V M" "values_in V (tuples dm)"
  using assms by (simp_all add: evaluable_def)

definition known :: "(identity \<Rightarrow> tuple set) \<Rightarrow> tuple_map \<Rightarrow> identity \<Rightarrow> tuple set" where
  "known M dm q = M q \<union> tuples dm q"

definition stored :: "identity list \<Rightarrow> (identity \<Rightarrow> tuple set) \<Rightarrow> identity \<Rightarrow> tuple set" where
  "stored T M q = (if q \<in> set T then M q else {})"

abbreviation loop_inv :: "rule list \<Rightarrow> identity list \<Rightarrow> (identity \<Rightarrow> tuple set) \<Rightarrow> tuple_map \<Rightarrow> tuple_map \<Rightarrow> tuple_map \<Rightarrow> tuple_map \<Rightarrow> bool" where
  "loop_inv rules T M dm full delta accepted \<equiv>
     semi_naive_inv (set T) (rules_of T rules) (stored T M) (known M dm) (tuples full) (tuples delta) (tuples accepted)"

lemma loop_reader:
  assumes "evaluable ar pj rd M rules T V dm" "arities_ok ar full" "loop_inv rules T M dm full delta accepted"
  shows "reads ar (scc_reader rd dm full) (override (set T) (tuples full) (known M dm))"
proof -
  note E = evaluableD [OF assms(1)] and I = semi_naive_invD [OF assms(3)]
  have "M q \<union> (tuples dm q \<union> tuples full q) = override (set T) (tuples full) (known M dm) q" for q
    using E(8) [of q] I(1) [of q] I(5) [of q] by (auto simp: override_def known_def stored_def)
  then show ?thesis using scc_reader_reads [OF E(2,7) assms(2)] by presburger
qed

lemma round_candidates:
  fixes T rules
  defines "vs \<equiv> cs_recursive_variants (compile_component (map compile_rule rules) T)"
  assumes ev: "evaluable ar pj rd M rules T V dm" and inv: "loop_inv rules T M dm full delta accepted"
    and ok: "arities_ok ar full" "arities_ok ar delta" "values_in V (tuples full)"
    and res: "evaluate_recursive_variants pj (scc_reader rd dm full) (tuple_map_reader delta) (map compile_rule rules) vs [] = Inr cand"
  shows "om_ok cand" "tuples cand q = candidates_of (set T) (rules_of T rules) (override (set T) (tuples full) (known M dm)) (tuples delta) q"
    "arities_ok ar cand" "values_in V (tuples cand)"
proof -
  let ?M = "override (set T) (tuples full) (known M dm)" and ?D = "tuples delta"
  note E = evaluableD [OF ev] and I = semi_naive_invD [OF inv]
  have rd: "reads ar (scc_reader rd dm full) ?M" "reads ar (tuple_map_reader delta) ?D"
    using loop_reader [OF ev ok(1) inv] tuple_map_reader_reads [OF ok(2)] by simp_all
  have vs: "{(rv_rule_index v, rv_delta_body_index v) |v. v \<in> set vs} =
      {(k, j). k < length rules \<and> ru_head_relation (rules ! k) \<in> set T \<and> j \<in> recursive_indices (set T) (rules ! k)}"
    unfolding vs_def by (rule component_indices(4))
  then have idx: "\<forall>v \<in> set vs. rv_rule_index v < length rules" by blast
  note out = evaluate_variants_ok [OF E(1) rd E(4) om_ok_Nil idx res]
  show "om_ok cand" using out by blast
  have heads: "tuples cand q = (\<Union>p \<in> {p \<in> {(rv_rule_index v, rv_delta_body_index v) |v. v \<in> set vs}. ru_head_relation (rules ! fst p) = q}.
      rule_heads (delta_reader ?M ?D (snd p)) (rules ! fst p))" for q
  proof -
    have "tuples cand q = (\<Union>v \<in> {v \<in> set vs. ru_head_relation (rules ! rv_rule_index v) = q}.
        rule_heads (delta_reader ?M ?D (rv_delta_body_index v)) (rules ! rv_rule_index v))"
      using out [of q] unfolding delta_reader_def by simp
    also have "\<dots> = (\<Union>p \<in> (\<lambda>v. (rv_rule_index v, rv_delta_body_index v)) ` {v \<in> set vs. ru_head_relation (rules ! rv_rule_index v) = q}.
        rule_heads (delta_reader ?M ?D (snd p)) (rules ! fst p))" by simp
    also have "(\<lambda>v. (rv_rule_index v, rv_delta_body_index v)) ` {v \<in> set vs. ru_head_relation (rules ! rv_rule_index v) = q} =
        {p \<in> {(rv_rule_index v, rv_delta_body_index v) |v. v \<in> set vs}. ru_head_relation (rules ! fst p) = q}" by auto
    finally show ?thesis .
  qed
  show cand: "tuples cand q = candidates_of (set T) (rules_of T rules) ?M ?D q" for q
    unfolding heads vs candidates_of_def rules_of_def by (auto simp: in_set_conv_nth) blast
  show "arities_ok ar cand" using E(4) rule_heads_arity unfolding arities_ok_def cand candidates_of_def rules_of_def by fastforce
  have "values_in V ?M" using E(11,12) ok(3) unfolding values_in_def override_def known_def by (metis UnE)
  moreover have "values_in V ?D" using ok(3) I(4) by (auto simp: values_in_def)
  ultimately show "values_in V (tuples cand)"
    using evaluate_variants_values [OF E(1) rd E(3) _ _ om_ok_Nil _ idx res] by (simp add: values_in_def)
qed

lemma round_total:
  fixes T rules
  defines "vs \<equiv> cs_recursive_variants (compile_component (map compile_rule rules) T)"
  assumes ev: "evaluable ar pj rd M rules T V dm" and inv: "loop_inv rules T M dm full delta accepted"
    and ok: "arities_ok ar full" "arities_ok ar delta" and an: "answered ar pj rd rules"
  shows "\<exists>cand. evaluate_recursive_variants pj (scc_reader rd dm full) (tuple_map_reader delta) (map compile_rule rules) vs [] = Inr cand"
proof -
  note E = evaluableD [OF ev]
  have "\<forall>v \<in> set vs. rv_rule_index v < length rules" using component_indices(4) [of rules T] unfolding vs_def by blast
  then show ?thesis
    using evaluate_variants_total [OF E(1) _ _ loop_reader [OF ev ok(1) inv] scc_answers tuple_map_reader_reads [OF ok(2)] tuple_map_answers, of rules vs "[]"]
      an E(4) unfolding answered_def by blast
qed

text \<open>What a component's evaluation promises of the tuples it derives.\<close>

definition evaluated ::
  "(identity \<Rightarrow> nat) \<Rightarrow> (identity \<Rightarrow> tuple set) \<Rightarrow> rule list \<Rightarrow> identity list \<Rightarrow> val set \<Rightarrow> tuple_map \<Rightarrow> tuple_map \<Rightarrow> bool" where
  "evaluated ar M rules T V dm A \<longleftrightarrow> om_ok A \<and> arities_ok ar A \<and> values_in V (tuples A) \<and>
     component_done (set T) (rules_of T rules) (stored T M) (known M dm) (tuples A)"

definition all_tuples :: "(identity \<Rightarrow> nat) \<Rightarrow> identity list \<Rightarrow> val set \<Rightarrow> (identity \<times> tuple) set" where
  "all_tuples ar T V = (\<Union>q \<in> set T. Pair q ` {t. set t \<subseteq> V \<and> length t = ar q})"

lemma finite_all_tuples: "finite V \<Longrightarrow> finite (all_tuples ar T V)"
  by (auto simp: all_tuples_def intro: finite_lists_length_eq)

definition undiscovered :: "(identity \<Rightarrow> nat) \<Rightarrow> identity list \<Rightarrow> val set \<Rightarrow> tuple_map \<Rightarrow> nat" where
  "undiscovered ar T V full = card {p \<in> all_tuples ar T V. snd p \<notin> tuples full (fst p)}"

lemma undiscovered_less:
  assumes "finite V" "\<And>q. tuples full q \<subseteq> tuples full' q" "q \<in> set T" "t \<in> tuples full' q" "t \<notin> tuples full q" "length t = ar q" "set t \<subseteq> V"
  shows "undiscovered ar T V full' < undiscovered ar T V full"
proof -
  let ?A = "{p \<in> all_tuples ar T V. snd p \<notin> tuples full' (fst p)}" and ?B = "{p \<in> all_tuples ar T V. snd p \<notin> tuples full (fst p)}"
  have "(q, t) \<in> all_tuples ar T V" using assms(3,6,7) by (auto simp: all_tuples_def)
  then have "(q, t) \<in> ?B" "(q, t) \<notin> ?A" using assms(4,5) by simp_all
  moreover have "?A \<subseteq> ?B" using assms(2) by auto
  ultimately have "?A \<subset> ?B" by blast
  then show ?thesis unfolding undiscovered_def using finite_all_tuples [OF assms(1), of ar T] by (intro psubset_card_mono) auto
qed

lemma arities_ok_union: "arities_ok ar m \<Longrightarrow> arities_ok ar n \<Longrightarrow> om_ok m \<Longrightarrow> om_ok n \<Longrightarrow> arities_ok ar (merge_derived m n)"
  by (auto simp: arities_ok_def)

lemma values_in_union: "values_in V M \<Longrightarrow> values_in V N \<Longrightarrow> values_in V (\<lambda>q. M q \<union> N q)"
  unfolding values_in_def by (metis UnE)

lemma semi_naive_ok:
  fixes T rules
  defines "vs \<equiv> cs_recursive_variants (compile_component (map compile_rule rules) T)"
  assumes ev: "evaluable ar pj rd M rules T V dm"
  shows "loop_inv rules T M dm full delta accepted \<Longrightarrow> om_ok full \<Longrightarrow> om_ok delta \<Longrightarrow> om_ok accepted \<Longrightarrow>
    arities_ok ar full \<Longrightarrow> arities_ok ar delta \<Longrightarrow> arities_ok ar accepted \<Longrightarrow> values_in V (tuples full) \<Longrightarrow> values_in V (tuples accepted) \<Longrightarrow>
    \<exists>res. semi_naive pj rd (map compile_rule rules) vs dm full delta accepted = Some res \<and>
      (\<forall>A. res = Inr A \<longrightarrow> evaluated ar M rules T V dm A) \<and> (answered ar pj rd rules \<longrightarrow> (\<exists>A. res = Inr A))"
proof (induction "undiscovered ar T V full" arbitrary: full delta accepted rule: less_induct)
  case less
  note E = evaluableD [OF ev] and I = semi_naive_invD [OF less.prems(1)]
  let ?C = "candidates_of (set T) (rules_of T rules) (override (set T) (tuples full) (known M dm)) (tuples delta)"
  show ?case
  proof (cases "all_empty delta")
    case True
    then have D: "tuples delta q = {}" for q using all_empty_tuples [OF less.prems(3)] by blast
    then have C: "?C q = {}" for q by (rule candidates_none)
    have "component_done (set T) (rules_of T rules) (stored T M) (known M dm) (\<lambda>q. tuples accepted q \<union> ?C q)"
      by (rule semi_naive_exit [OF E(5) less.prems(1) refl]) (simp add: C)
    then have "evaluated ar M rules T V dm accepted" using less.prems unfolding evaluated_def C by simp
    then show ?thesis using True by (subst semi_naive.simps) simp
  next
    case False
    show ?thesis
    proof (cases "evaluate_recursive_variants pj (scc_reader rd dm full) (tuple_map_reader delta) (map compile_rule rules) vs []")
      case (Inl e)
      then have "\<not> answered ar pj rd rules" using round_total [OF ev less.prems(1,5,6)] unfolding vs_def by fastforce
      then show ?thesis using False Inl by (subst semi_naive.simps) simp
    next
      case (Inr cand)
      note R = round_candidates [OF ev less.prems(1,5,6,8) Inr [unfolded vs_def]]
      let ?novel = "novel_candidates cand full" and ?accepted = "merge_derived accepted cand"
      have ok: "om_ok ?accepted" "arities_ok ar ?accepted" "values_in V (tuples ?accepted)"
        using less.prems(4,7,9) R(1,3,4) by (simp_all add: arities_ok_union values_in_union)
      show ?thesis
      proof (cases "all_empty ?novel")
        case True
        then have sub: "tuples cand q \<subseteq> tuples full q" for q using all_empty_tuples R(1) by auto
        have "component_done (set T) (rules_of T rules) (stored T M) (known M dm) (tuples ?accepted)"
          using semi_naive_exit [OF E(5) less.prems(1) R(2) sub] less.prems(4) R(1) by simp
        then have "evaluated ar M rules T V dm ?accepted" using ok by (simp add: evaluated_def)
        then show ?thesis using False Inr True by (subst semi_naive.simps) simp
      next
        case more: False
        let ?full = "merge_derived full ?novel"
        have n: "om_ok ?novel" "arities_ok ar ?novel" "values_in V (tuples ?novel)" using R(1,3,4) unfolding arities_ok_def values_in_def by (simp, simp, simp) (meson DiffD1)
        have f: "om_ok ?full" "arities_ok ar ?full" "values_in V (tuples ?full)"
          using less.prems(2,5,8) n by (simp_all add: arities_ok_union values_in_union del: tuples_novel(2))
        have inv: "loop_inv rules T M dm ?full ?novel ?accepted"
          using semi_naive_step [OF E(5) less.prems(1) R(2)] less.prems(2,4) R(1) by simp
        obtain q t where t: "t \<in> tuples cand q" "t \<notin> tuples full q" using more all_empty_tuples [OF n(1)] R(1) by auto
        have "q \<in> set T" using t(1) candidates_in [OF E(5)] R(2) by blast
        then have "undiscovered ar T V ?full < undiscovered ar T V full"
          by (rule undiscovered_less [OF E(10), rotated])
             (use t R(1,3) less.prems(2) values_inD [OF R(4) t(1)] in \<open>auto simp: arities_ok_def\<close>)
        then have "\<exists>res. semi_naive pj rd (map compile_rule rules) vs dm ?full ?novel ?accepted = Some res \<and>
            (\<forall>A. res = Inr A \<longrightarrow> evaluated ar M rules T V dm A) \<and> (answered ar pj rd rules \<longrightarrow> (\<exists>A. res = Inr A))"
          by (rule less.hyps [OF _ inv f(1) n(1) ok(1) f(2) n(2) ok(2) f(3) ok(3)])
        then show ?thesis using False Inr more by (subst semi_naive.simps) simp
      qed
    qed
  qed
qed

section \<open>The component\<close>

lemma matching_all: "reads ar rd M \<Longrightarrow> n = ar r \<Longrightarrow> matching_rows M r (replicate n None) = M r"
  using readsD(1) by (fastforce simp: matching_rows_def matches_bindings_def)

text \<open>A target is the head of a rule of the component, which tells its arity.\<close>

lemma target_rule:
  assumes "r \<in> ru_head_relation ` set rules" "\<forall>r \<in> set rules. rule_arity_ok ar r"
  obtains q where "find (\<lambda>q. cr_head_relation q = r) (map compile_rule rules) = Some q" "length (cr_head_terms q) = ar r"
proof -
  obtain q where q: "find (\<lambda>q. cr_head_relation q = r) (map compile_rule rules) = Some q"
    using assms(1) by (cases "find (\<lambda>q. cr_head_relation q = r) (map compile_rule rules)") (auto simp: find_None_iff compile_rule_shape(2))
  have "q \<in> set (map compile_rule rules)" "cr_head_relation q = r"
    using find_Some_iff [THEN iffD1, OF q] by auto
  then obtain s where s: "s \<in> set rules" "q = compile_rule s" "ru_head_relation s = r"
    by (metis compile_rule_shape(2) imageE set_map)
  have "length (cr_head_terms q) = ar r" using assms(2) s by (simp add: compile_rule_shape(3) rule_arity_ok_def)
  then show ?thesis using that q by blast
qed

lemma read_extensional_ok:
  assumes "reads ar rd M" "\<forall>r \<in> set rules. rule_arity_ok ar r"
  shows "set T \<subseteq> ru_head_relation ` set rules \<Longrightarrow> read_extensional_targets rd (map compile_rule rules) T = Inr full \<Longrightarrow>
    om_ok full \<and> tuples full = stored T M"
proof (induction T arbitrary: full)
  case (Cons r T)
  obtain q where q: "find (\<lambda>q. cr_head_relation q = r) (map compile_rule rules) = Some q" and n: "length (cr_head_terms q) = ar r"
    using target_rule [of r rules ar] assms(2) Cons.prems(1) by auto
  obtain ts rest where ts: "hide_unknown r [] (rd_scan rd r (replicate (length (cr_head_terms q)) None)) = Inr ts"
    "read_extensional_targets rd (map compile_rule rules) T = Inr rest" "full = om_insert r (finish_tuple_rows ts) rest"
    using Cons.prems(2) unfolding read_extensional_targets.simps q option.case by auto
  have "answer_ok (matching_rows M r (replicate (length (cr_head_terms q)) None)) r (hide_unknown r [] (rd_scan rd r (replicate (length (cr_head_terms q)) None)))"
    by (rule answer_hide, rule readsD_answer(1) [OF assms(1)]) (simp add: n)
  then have "set ts = M r" using matching_all [OF assms(1) n] by (simp add: ts(1) answer_ok_def)
  then show ?case using Cons.IH [OF _ ts(2)] Cons.prems(1) ts(3) by (auto simp: tuples_def tm_get_def stored_def fun_eq_iff)
qed (simp add: stored_def fun_eq_iff)

lemma override_stored: "evaluable ar pj rd M rules T V dm \<Longrightarrow> override (set T) (stored T M) (known M dm) = known M dm"
  by (rule ext) (simp add: override_def stored_def known_def evaluableD(8))

lemma rules_of_arity: "\<forall>r \<in> set rules. rule_arity_ok ar r \<and> rule_constants r \<subseteq> V \<Longrightarrow> \<forall>r \<in> set (filter P (rules_of T rules)). rule_arity_ok ar r \<and> rule_constants r \<subseteq> V"
  by (simp add: rules_of_def)

text \<open>The rules that do not read the component, evaluated with any reader of what is known.\<close>

lemma seeds_ok:
  fixes T rules
  defines "seeds \<equiv> cs_seed_rule_indices (compile_component (map compile_rule rules) T)"
  assumes ev: "evaluable ar pj rd M rules T V dm" and rd: "reads ar rd' (known M dm)"
    and res: "evaluate_selected_rules pj rd' (map compile_rule rules) seeds [] = Inr S"
  shows "om_ok S" "arities_ok ar S" "values_in V (tuples S)"
    "tuples S q = consequences (filter (\<lambda>r. recursive_indices (set T) r = {}) (rules_of T rules)) (override (set T) (stored T M) (known M dm)) q"
proof -
  let ?R = "filter (\<lambda>r. recursive_indices (set T) r = {}) (rules_of T rules)"
  note E = evaluableD [OF ev]
  have R: "\<forall>r \<in> set ?R. rule_arity_ok ar r \<and> rule_constants r \<subseteq> V" by (rule rules_of_arity [OF E(3)])
  then have R': "\<forall>r \<in> set ?R. rule_arity_ok ar r" by blast
  have once: "evaluate_rules_once pj rd' (map compile_rule ?R) [] = Inr S"
    using res unfolding evaluate_selected_rules_def seeds_def component_indices(2) .
  note out = evaluate_rules_once_ok [OF E(1) R' rd om_ok_Nil once]
  show "om_ok S" using out by blast
  show S: "tuples S q = consequences ?R (override (set T) (stored T M) (known M dm)) q" for q
    using out [of q] by (simp add: consequences_def override_stored [OF ev])
  show "arities_ok ar S" using R' rule_heads_arity unfolding arities_ok_def S consequences_def by blast
  have "values_in V (known M dm)" unfolding known_def by (rule values_in_union [OF E(11,12)])
  then show "values_in V (tuples S)" by (rule evaluate_rules_once_values [OF E(1) R rd _ om_ok_Nil _ once]) (simp add: values_in_def)
qed

lemma seeds_total:
  fixes T rules
  defines "seeds \<equiv> cs_seed_rule_indices (compile_component (map compile_rule rules) T)"
  assumes ev: "evaluable ar pj rd M rules T V dm" and rd: "reads ar rd' (known M dm)" and an: "serves ar rd \<Longrightarrow> answers ar rd'" "answered ar pj rd rules"
  shows "\<exists>S. evaluate_selected_rules pj rd' (map compile_rule rules) seeds [] = Inr S"
proof -
  let ?R = "filter (\<lambda>r. recursive_indices (set T) r = {}) (rules_of T rules)"
  note E = evaluableD [OF ev]
  have "\<forall>r \<in> set ?R. rule_arity_ok ar r \<and> safe_rule r" using E(4) an(2) by (auto simp: answered_def rules_of_def)
  then show ?thesis
    using evaluate_rules_once_total [OF E(1) _ _ rd, of ?R "[]"] an unfolding evaluate_selected_rules_def seeds_def component_indices(2) answered_def by blast
qed

lemma read_extensional_total:
  assumes "serves ar rd" "\<forall>r \<in> set rules. rule_arity_ok ar r"
  shows "set T \<subseteq> ru_head_relation ` set rules \<Longrightarrow> \<exists>full. read_extensional_targets rd (map compile_rule rules) T = Inr full"
proof (induction T)
  case (Cons r T)
  obtain q where q: "find (\<lambda>q. cr_head_relation q = r) (map compile_rule rules) = Some q" "length (cr_head_terms q) = ar r"
    using target_rule [of r rules ar] assms(2) Cons.prems by auto
  have "\<exists>ts. hide_unknown r [] (rd_scan rd r (replicate (length (cr_head_terms q)) None)) = Inr ts" using assms(1) q(2) by (simp add: serves_def)
  then show ?case using Cons.IH Cons.prems unfolding read_extensional_targets.simps q(1) option.case by (auto simp del: ebind_Inr)
qed simp

lemma evaluate_component_ok:
  assumes ev: "evaluable ar pj rd M rules T V dm"
  shows "\<exists>res. evaluate_component pj rd (map compile_rule rules) (compile_component (map compile_rule rules) T) dm = Some res \<and>
    (\<forall>dm'. res = Inr dm' \<longrightarrow> (\<exists>A. evaluated ar M rules T V dm A \<and> dm' = merge_derived dm A)) \<and>
    (answered ar pj rd rules \<longrightarrow> (\<exists>dm'. res = Inr dm'))"
proof (cases "cs_recursive_variants (compile_component (map compile_rule rules) T) = []")
  case True
  let ?c = "compile_component (map compile_rule rules) T"
  note E = evaluableD [OF ev]
  have norec: "recursive_indices (set T) r = {}" if "r \<in> set (rules_of T rules)" for r
  proof -
    have "{(k, j). k < length rules \<and> ru_head_relation (rules ! k) \<in> set T \<and> j \<in> recursive_indices (set T) (rules ! k)} = {}"
      using component_indices(4) [of rules T] True by simp
    then show ?thesis using that by (auto simp: rules_of_def in_set_conv_nth)
  qed
  have rd: "reads ar (derived_reader rd dm) (known M dm)" using derived_reader_reads [OF E(2,7)] by (simp add: known_def [abs_def])
  show ?thesis
  proof (cases "evaluate_selected_rules pj (derived_reader rd dm) (map compile_rule rules) (cs_seed_rule_indices ?c) []")
    case (Inr S)
    note S = seeds_ok [OF ev rd Inr]
    have inv: "semi_naive_inv (set T) (rules_of T rules) (stored T M) (known M dm) (\<lambda>q. stored T M q \<union> tuples S q) (\<lambda>q. stored T M q \<union> tuples S q) (tuples S)"
      by (rule semi_naive_start [OF E(5) _ S(4)]) (simp add: stored_def)
    have "candidates_of (set T) (rules_of T rules) N D q = {}" for N D q using norec by (simp add: candidates_of_def)
    then have "component_done (set T) (rules_of T rules) (stored T M) (known M dm) (\<lambda>q. tuples S q \<union> {})"
      by (intro semi_naive_exit [OF E(5) inv]) simp_all
    then have "evaluated ar M rules T V dm S" using S(1-3) by (simp add: evaluated_def)
    then show ?thesis using True Inr by (auto simp: evaluate_component_def)
  next
    case (Inl e)
    then have "\<not> answered ar pj rd rules" using seeds_total [OF ev rd derived_answers] by (auto simp: answered_def)
    then show ?thesis using True Inl by (simp add: evaluate_component_def)
  qed
next
  case False
  let ?c = "compile_component (map compile_rule rules) T"
  note E = evaluableD [OF ev]
  have idx: "map (\<lambda>k. map compile_rule rules ! k) (cs_rule_indices ?c) = map compile_rule (rules_of T rules)" "cs_target_relations ?c = T"
    by (rule component_indices)+
  have heads: "set T \<subseteq> ru_head_relation ` set (rules_of T rules)" using E(9) by (auto simp: rules_of_def)
  show ?thesis
  proof (cases "read_extensional_targets rd (map compile_rule (rules_of T rules)) T")
    case (Inl e)
    then have "\<not> answered ar pj rd rules"
      using read_extensional_total [OF _ _ heads, of ar rd] E(4) by (auto simp: answered_def rules_of_def)
    then show ?thesis using False Inl by (simp add: evaluate_component_def evaluate_recursive_component_def idx)
  next
    case full: (Inr full)
    have f: "om_ok full" "tuples full = stored T M" using read_extensional_ok [OF E(2) _ heads full] E(4) by (simp_all add: rules_of_def)
    have fa: "arities_ok ar full" "values_in V (tuples full)" using readsD(1) [OF E(2)] E(11) by (auto simp: arities_ok_def values_in_def f(2) stored_def)
    have "M q \<union> (tuples dm q \<union> tuples full q) = known M dm q" for q by (auto simp: known_def f(2) stored_def)
    then have rd: "reads ar (scc_reader rd dm full) (known M dm)" using scc_reader_reads [OF E(2,7) fa(1)] by presburger
    show ?thesis
    proof (cases "evaluate_selected_rules pj (scc_reader rd dm full) (map compile_rule rules) (cs_seed_rule_indices ?c) []")
      case (Inl e)
      then have "\<not> answered ar pj rd rules" using seeds_total [OF ev rd scc_answers] by (auto simp: answered_def)
      then show ?thesis using False full Inl by (simp add: evaluate_component_def evaluate_recursive_component_def idx)
    next
      case (Inr S)
      note S = seeds_ok [OF ev rd Inr]
      let ?full = "merge_derived full S" and ?delta = "seed_delta S full full"
      have t: "tuples ?full = (\<lambda>q. stored T M q \<union> tuples S q)" "tuples ?delta = (\<lambda>q. stored T M q \<union> tuples S q)" "om_ok ?full" "om_ok ?delta"
        using f S(1) by (auto simp: seed_delta_def fun_eq_iff)
      have inv: "loop_inv rules T M dm ?full ?delta S"
        unfolding t(1,2) by (rule semi_naive_start [OF E(5) _ S(4)]) (simp add: stored_def)
      have a: "arities_ok ar ?full" "arities_ok ar ?delta" "values_in V (tuples ?full)"
        using fa S(2,3) values_in_union [of V "stored T M" "tuples S"] f(2) by (auto simp: arities_ok_def t)
      note loop = semi_naive_ok [OF ev inv t(3,4) S(1) a(1,2) S(2) a(3) S(3)]
      obtain res where "semi_naive pj rd (map compile_rule rules) (cs_recursive_variants ?c) dm ?full ?delta S = Some res"
        "\<forall>A. res = Inr A \<longrightarrow> evaluated ar M rules T V dm A" "answered ar pj rd rules \<longrightarrow> (\<exists>A. res = Inr A)" using loop by blast
      then show ?thesis using False full Inr by (cases res) (auto simp: evaluate_component_def evaluate_recursive_component_def idx)
    qed
  qed
qed

end
