(* ===== verification/RuleModel.thy ===== *)
theory RuleModel
  imports RuleSemiNaive
begin

text \<open>
  The evaluation of a rule set: stratum by stratum and component by component it computes the stable
  model of the rules over the stored tuples. What holds is what can be derived, where a negated atom is
  read from the result itself, and the derived tuples are those that some rule derives from the result.
\<close>

section \<open>Derivations\<close>

inductive derivable :: "rule list \<Rightarrow> (identity \<Rightarrow> tuple set) \<Rightarrow> (identity \<Rightarrow> tuple set) \<Rightarrow> identity \<Rightarrow> tuple \<Rightarrow> bool"
  for rules M N where
  stored: "t \<in> M q \<Longrightarrow> derivable rules M N q t"
| derive: "r \<in> set rules \<Longrightarrow>
    \<forall>a. ItemAtom a \<in> set (ru_body r) \<and> \<not> at_negated a \<longrightarrow> derivable rules M N (at_relation a) (term_values s (at_terms a)) \<Longrightarrow>
    \<forall>a. ItemAtom a \<in> set (ru_body r) \<and> at_negated a \<longrightarrow> term_values s (at_terms a) \<notin> N (at_relation a) \<Longrightarrow>
    \<forall>g. ItemGuard g \<in> set (ru_body r) \<longrightarrow> compare_values (gd_op g) (term_value s (gd_left g)) (term_value s (gd_right g)) \<Longrightarrow>
    derivable rules M N (ru_head_relation r) (term_values s (ru_head_terms r))"

abbreviation heads_of :: "rule list \<Rightarrow> identity set" where
  "heads_of rules \<equiv> ru_head_relation ` set rules"

text \<open>A set of derived relations that its rules do not read past.\<close>

definition self_contained :: "rule list \<Rightarrow> identity set \<Rightarrow> bool" where
  "self_contained rules P \<longleftrightarrow> P \<subseteq> heads_of rules \<and>
     (\<forall>r \<in> set rules. ru_head_relation r \<in> P \<longrightarrow> (\<forall>a. ItemAtom a \<in> set (ru_body r) \<longrightarrow> at_relation a \<in> P \<or> at_relation a \<notin> heads_of rules))"

lemma derivable_cong:
  assumes "self_contained rules P" "\<And>q. q \<in> P \<or> q \<notin> heads_of rules \<Longrightarrow> N q = N' q" "derivable rules M N q t"
  shows "q \<in> P \<or> q \<notin> heads_of rules \<Longrightarrow> derivable rules M N' q t"
  using assms(3)
proof (induction rule: derivable.induct)
  case (derive r s)
  have P: "ru_head_relation r \<in> P" using derive.prems derive.hyps(1) by blast
  then have rel: "at_relation a \<in> P \<or> at_relation a \<notin> heads_of rules" if "ItemAtom a \<in> set (ru_body r)" for a
    using assms(1) derive.hyps(1) that unfolding self_contained_def by blast
  show ?case
  proof (rule derivable.derive [OF derive.hyps(1)])
    show "\<forall>a. ItemAtom a \<in> set (ru_body r) \<and> at_negated a \<longrightarrow> term_values s (at_terms a) \<notin> N' (at_relation a)"
      using derive.hyps(2) rel assms(2) by metis
  qed (use derive rel in blast)+
qed (rule derivable.stored)

section \<open>Settled relations\<close>

text \<open>The relations of \<open>P\<close> are evaluated, the other derived ones are not yet.\<close>

definition settled ::
  "(identity \<Rightarrow> nat) \<Rightarrow> (identity \<Rightarrow> tuple set) \<Rightarrow> rule list \<Rightarrow> val set \<Rightarrow> identity set \<Rightarrow> tuple_map \<Rightarrow> bool" where
  "settled ar M rules V P dm \<longleftrightarrow> om_ok dm \<and> arities_ok ar dm \<and> values_in V (tuples dm) \<and> (\<forall>q. q \<notin> P \<longrightarrow> tuples dm q = {}) \<and>
     self_contained rules P \<and> (\<forall>q \<in> P. tuples dm q = consequences rules (known M dm) q) \<and>
     (\<forall>q \<in> P. \<forall>t \<in> known M dm q. derivable rules M (known M dm) q t)"

lemma settledD:
  assumes "settled ar M rules V P dm"
  shows "om_ok dm" "arities_ok ar dm" "values_in V (tuples dm)" "q \<notin> P \<Longrightarrow> tuples dm q = {}" "self_contained rules P"
    "q \<in> P \<Longrightarrow> tuples dm q = consequences rules (known M dm) q" "q \<in> P \<Longrightarrow> t \<in> known M dm q \<Longrightarrow> derivable rules M (known M dm) q t"
  using assms unfolding settled_def by simp_all

lemma settled_start: "settled ar M rules V {} []"
  by (simp add: settled_def arities_ok_def values_in_def self_contained_def)

text \<open>The next component: its rules in the stratum are all its rules, and read settled relations and the component.\<close>

definition next_component :: "rule list \<Rightarrow> identity set \<Rightarrow> rule list \<Rightarrow> identity list \<Rightarrow> bool" where
  "next_component rules P stratum T \<longleftrightarrow> set T \<subseteq> heads_of rules \<and> set T \<inter> P = {} \<and> set stratum \<subseteq> set rules \<and>
     (\<forall>r \<in> set rules. ru_head_relation r \<in> set T \<longrightarrow> r \<in> set stratum) \<and>
     (\<forall>r \<in> set rules. ru_head_relation r \<in> set T \<longrightarrow> (\<forall>a. ItemAtom a \<in> set (ru_body r) \<longrightarrow>
        at_relation a \<in> P \<or> at_relation a \<notin> heads_of rules \<or> (at_relation a \<in> set T \<and> \<not> at_negated a)))"

lemma next_componentD:
  assumes "next_component rules P stratum T"
  shows "set T \<subseteq> heads_of rules" "q \<in> set T \<Longrightarrow> q \<notin> P" "set stratum \<subseteq> set rules"
    "r \<in> set rules \<Longrightarrow> ru_head_relation r \<in> set T \<Longrightarrow> r \<in> set stratum"
    "r \<in> set rules \<Longrightarrow> ru_head_relation r \<in> set T \<Longrightarrow> ItemAtom a \<in> set (ru_body r) \<Longrightarrow>
       at_relation a \<in> P \<or> at_relation a \<notin> heads_of rules \<or> (at_relation a \<in> set T \<and> \<not> at_negated a)"
  using assms unfolding next_component_def by blast+

text \<open>What a rule set is evaluated with.\<close>

definition evaluation_ok ::
  "(identity \<Rightarrow> nat) \<Rightarrow> packed_join \<Rightarrow> reader \<Rightarrow> (identity \<Rightarrow> tuple set) \<Rightarrow> rule list \<Rightarrow> val set \<Rightarrow> bool" where
  "evaluation_ok ar pj rd M rules V \<longleftrightarrow> join_ok ar pj \<and> reads ar rd M \<and> (\<forall>r \<in> set rules. rule_arity_ok ar r \<and> rule_constants r \<subseteq> V) \<and>
     finite V \<and> values_in V M"

lemma next_evaluable:
  assumes "evaluation_ok ar pj rd M rules V" "settled ar M rules V P dm" "next_component rules P stratum T"
  shows "evaluable ar pj rd M stratum T V dm"
proof -
  note S = settledD [OF assms(2)] and N = next_componentD [OF assms(3)]
  have "component_rules (set T) (rules_of T stratum)"
    unfolding component_rules_def
  proof (intro ballI conjI allI impI)
    fix r assume "r \<in> set (rules_of T stratum)"
    then have r: "r \<in> set rules" "ru_head_relation r \<in> set T" using N(3) by (auto simp: rules_of_def)
    then show "ru_head_relation r \<in> set T" by blast
    show "at_relation a \<notin> set T" if "ItemAtom a \<in> set (ru_body r)" "at_negated a" for a using N(1,2,5) r that by blast
  qed
  moreover have "tuples dm q = {} \<and> q \<in> heads_of stratum" if q: "q \<in> set T" for q
  proof -
    obtain r where "r \<in> set rules" "q = ru_head_relation r" using N(1) q by blast
    then show ?thesis using S(4) [OF N(2) [OF q]] N(4) [of r] q by blast
  qed
  ultimately show ?thesis using assms(1) N(3) S(1-3) unfolding evaluable_def evaluation_ok_def by blast
qed

lemma rule_heads_cong:
  assumes "\<And>a. ItemAtom a \<in> set (ru_body r) \<Longrightarrow> M (at_relation a) = N (at_relation a)"
  shows "rule_heads (\<lambda>_. M) r = rule_heads (\<lambda>_. N) r"
proof -
  have "item_le M N (ru_body r ! j) \<and> item_le N M (ru_body r ! j)" if "j < length (ru_body r)" for j
    using assms nth_mem [OF that] by (cases "ru_body r ! j") (auto simp: item_le_def)
  then show ?thesis by (intro equalityI rule_heads_le) blast+
qed

lemma consequences_cong:
  assumes "\<And>r a. r \<in> set rules \<Longrightarrow> ru_head_relation r = q \<Longrightarrow> ItemAtom a \<in> set (ru_body r) \<Longrightarrow> M (at_relation a) = N (at_relation a)"
  shows "consequences rules M q = consequences rules N q"
  unfolding consequences_def using rule_heads_cong [of _ M N] assms by (intro SUP_cong) auto

lemma consequences_same_rules:
  "{r \<in> set rules. ru_head_relation r = q} = {r \<in> set rules'. ru_head_relation r = q} \<Longrightarrow> consequences rules M q = consequences rules' M q"
  by (simp add: consequences_def)

lemma consequence_rule:
  assumes "t \<in> consequences rules N q"
  obtains r s where "r \<in> set rules" "ru_head_relation r = q" "t = term_values s (ru_head_terms r)"
    "\<And>i. i \<in> set (ru_body r) \<Longrightarrow> holds_item N s i"
  using assms unfolding consequences_def rule_heads_def by (auto simp: in_set_conv_nth)

lemma consequenceI:
  assumes "r \<in> set rules" "\<And>i. i \<in> set (ru_body r) \<Longrightarrow> holds_item N s i"
  shows "term_values s (ru_head_terms r) \<in> consequences rules N (ru_head_relation r)"
proof -
  have "\<forall>j < length (ru_body r). holds_item N s (ru_body r ! j)" using assms(2) by simp
  then show ?thesis using assms(1) unfolding consequences_def rule_heads_def by blast
qed

lemma next_rules:
  assumes "next_component rules P stratum T" "q \<in> set T"
  shows "consequences (rules_of T stratum) M q = consequences rules M q"
  by (rule consequences_same_rules) (use next_componentD(3,4) [OF assms(1)] assms(2) in \<open>auto simp: rules_of_def\<close>)

text \<open>What is derivable is closed under the rules of the next component.\<close>

lemma derivable_closed:
  assumes N: "next_component rules P stratum T" and keep: "\<And>q. q \<in> P \<or> q \<notin> heads_of rules \<Longrightarrow> K q = B q"
    and before: "\<And>q t. q \<in> P \<or> q \<notin> heads_of rules \<Longrightarrow> t \<in> B q \<Longrightarrow> derivable rules M K q t"
  shows "closed_under (set T) (rules_of T stratum) (stored T M) B (\<lambda>q. {t. derivable rules M K q t})"
  unfolding closed_under_def
proof (intro ballI conjI subsetI)
  fix q t assume "q \<in> set T" "t \<in> stored T M q"
  then show "t \<in> {t. derivable rules M K q t}" by (simp add: stored_def derivable.stored)
next
  note D = next_componentD [OF N]
  let ?X = "override (set T) (\<lambda>q. {t. derivable rules M K q t}) B"
  fix q t assume q: "q \<in> set T" and "t \<in> consequences (rules_of T stratum) ?X q"
  then obtain r s where r: "r \<in> set rules" "ru_head_relation r = q" "t = term_values s (ru_head_terms r)"
    and i: "\<And>i. i \<in> set (ru_body r) \<Longrightarrow> holds_item ?X s i"
    unfolding next_rules [OF N q] by (auto elim!: consequence_rule)
  have rel: "at_relation a \<in> P \<or> at_relation a \<notin> heads_of rules \<or> (at_relation a \<in> set T \<and> \<not> at_negated a)" if "ItemAtom a \<in> set (ru_body r)" for a
    using D(5) [OF r(1)] r(2) q that by blast
  have off: "at_relation a \<notin> set T" if "at_relation a \<in> P \<or> at_relation a \<notin> heads_of rules" for a using D(1,2) that by blast
  have "derivable rules M K (ru_head_relation r) (term_values s (ru_head_terms r))"
  proof (rule derivable.derive [OF r(1)]; intro allI impI; (elim conjE)?)
    fix a assume a: "ItemAtom a \<in> set (ru_body r)" "\<not> at_negated a"
    show "derivable rules M K (at_relation a) (term_values s (at_terms a))"
      using i [OF a(1)] a(2) rel [OF a(1)] before off [of a] by (cases "at_relation a \<in> set T") (auto simp: override_def)
  next
    fix a assume a: "ItemAtom a \<in> set (ru_body r)" "at_negated a"
    then have pre: "at_relation a \<in> P \<or> at_relation a \<notin> heads_of rules" using rel by blast
    show "term_values s (at_terms a) \<notin> K (at_relation a)" using i [OF a(1)] a(2) off [OF pre] keep [OF pre] by (simp add: override_def)
  next
    fix g assume "ItemGuard g \<in> set (ru_body r)"
    then show "compare_values (gd_op g) (term_value s (gd_left g)) (term_value s (gd_right g))" using i by fastforce
  qed
  then show "t \<in> {t. derivable rules M K q t}" using r by simp
qed

lemma settled_next:
  assumes S: "settled ar M rules V P dm" and nxt: "next_component rules P stratum T" and A: "evaluated ar M stratum T V dm A"
  shows "settled ar M rules V (P \<union> set T) (merge_derived dm A)"
proof -
  note S = settledD [OF S] and N = next_componentD [OF nxt]
  let ?R = "rules_of T stratum" and ?dm = "merge_derived dm A"
  define F where "F q = stored T M q \<union> tuples A q" for q
  have Aok: "om_ok A" "arities_ok ar A" "values_in V (tuples A)" using A by (simp_all add: evaluated_def)
  have c: "\<forall>q. q \<notin> set T \<longrightarrow> tuples A q = {}" "\<forall>q. tuples A q = consequences ?R (override (set T) F (known M dm)) q"
    "\<forall>X. closed_under (set T) ?R (stored T M) (known M dm) X \<longrightarrow> (\<forall>q \<in> set T. F q \<subseteq> X q)"
    using A unfolding evaluated_def component_done_def Let_def F_def by blast+
  have t: "tuples ?dm q = tuples dm q \<union> tuples A q" for q using S(1) Aok(1) by simp
  have new: "known M ?dm q = F q" if "q \<in> set T" for q using that S(4) [OF N(2) [OF that]] by (simp add: known_def t F_def stored_def)
  have old: "known M ?dm q = known M dm q" if "q \<notin> set T" for q using that c(1) by (simp add: known_def t)
  have o: "override (set T) F (known M dm) = known M ?dm" by (rule ext) (simp add: override_def new old)
  have keep: "known M ?dm q = known M dm q" if "q \<in> P \<or> q \<notin> heads_of rules" for q using old N(1,2) that by blast
  have sc: "self_contained rules (P \<union> set T)" using S(5) N(1,5) unfolding self_contained_def by blast
  have cons: "tuples ?dm q = consequences rules (known M ?dm) q" if q: "q \<in> P \<union> set T" for q
  proof (cases "q \<in> set T")
    case True
    then have "tuples ?dm q = tuples A q" using S(4) [OF N(2) [OF True]] t by simp
    then show ?thesis using c(2) o next_rules [OF nxt True] by simp
  next
    case False
    have "consequences rules (known M dm) q = consequences rules (known M ?dm) q"
      by (rule consequences_cong) (use keep S(5) False q in \<open>auto simp: self_contained_def\<close>)
    then show ?thesis using S(6) [of q] False q c(1) t by simp
  qed
  have before: "derivable rules M (known M ?dm) q t" if "q \<in> P \<or> q \<notin> heads_of rules" "t \<in> known M dm q" for q t
  proof (cases "q \<in> P")
    case True
    show ?thesis by (rule derivable_cong [OF S(5) _ S(7) [OF True that(2)] that(1)]) (rule keep [symmetric])
  next
    case False
    then have "t \<in> M q" using that S(4) by (simp add: known_def)
    then show ?thesis by (rule derivable.stored)
  qed
  have "closed_under (set T) ?R (stored T M) (known M dm) (\<lambda>q. {t. derivable rules M (known M ?dm) q t})"
    by (rule derivable_closed [OF nxt keep before])
  then have "derivable rules M (known M ?dm) q t" if "q \<in> set T" "t \<in> known M ?dm q" for q t using c(3) new that by blast
  then have der: "derivable rules M (known M ?dm) q t" if "q \<in> P \<union> set T" "t \<in> known M ?dm q" for q t using before keep that by blast
  have "arities_ok ar ?dm" "values_in V (tuples ?dm)" "om_ok ?dm" using S(1-3) Aok by (simp_all add: arities_ok_union values_in_union)
  moreover have "tuples ?dm q = {}" if "q \<notin> P \<union> set T" for q using that S(4) c(1) t by simp
  ultimately show ?thesis using sc cons der unfolding settled_def by blast
qed

section \<open>A stratum\<close>

definition in_order :: "rule list \<Rightarrow> identity set \<Rightarrow> rule list \<Rightarrow> identity list list \<Rightarrow> bool" where
  "in_order rules P stratum ord \<longleftrightarrow> (\<forall>k < length ord. next_component rules (P \<union> \<Union> (set ` set (take k ord))) stratum (ord ! k))"

lemma in_order_Cons: "in_order rules P stratum (T # ord) \<longleftrightarrow> next_component rules P stratum T \<and> in_order rules (P \<union> set T) stratum ord"
proof
  assume l: "in_order rules P stratum (T # ord)"
  have "next_component rules (P \<union> set T \<union> \<Union> (set ` set (take k ord))) stratum (ord ! k)" if "k < length ord" for k
    using l [unfolded in_order_def, rule_format, of "Suc k"] that by (simp add: Un_assoc)
  then show "next_component rules P stratum T \<and> in_order rules (P \<union> set T) stratum ord"
    using l [unfolded in_order_def, rule_format, of 0] by (simp add: in_order_def)
next
  assume r: "next_component rules P stratum T \<and> in_order rules (P \<union> set T) stratum ord"
  show "in_order rules P stratum (T # ord)" unfolding in_order_def
  proof (intro allI impI)
    fix k assume "k < length (T # ord)"
    then show "next_component rules (P \<union> \<Union> (set ` set (take k (T # ord)))) stratum ((T # ord) ! k)"
      using r by (cases k) (auto simp: in_order_def Un_assoc)
  qed
qed

lemma evaluate_components_ok:
  assumes ok: "evaluation_ok ar pj rd M rules V"
  shows "settled ar M rules V P dm \<Longrightarrow> in_order rules P stratum ord \<Longrightarrow>
    \<exists>res. evaluate_components pj rd (map compile_rule stratum) (map (compile_component (map compile_rule stratum)) ord) dm = Some res \<and>
      (\<forall>dm'. res = Inr dm' \<longrightarrow> settled ar M rules V (P \<union> \<Union> (set ` set ord)) dm') \<and> (answered ar pj rd rules \<longrightarrow> (\<exists>dm'. res = Inr dm'))"
proof (induction ord arbitrary: P dm)
  case (Cons T ord)
  have o: "next_component rules P stratum T" "in_order rules (P \<union> set T) stratum ord" using Cons.prems(2) by (simp_all add: in_order_Cons)
  obtain res where res: "evaluate_component pj rd (map compile_rule stratum) (compile_component (map compile_rule stratum) T) dm = Some res"
    "\<forall>dm'. res = Inr dm' \<longrightarrow> (\<exists>A. evaluated ar M stratum T V dm A \<and> dm' = merge_derived dm A)" "answered ar pj rd stratum \<longrightarrow> (\<exists>dm'. res = Inr dm')"
    using evaluate_component_ok [OF next_evaluable [OF ok Cons.prems(1) o(1)]] by blast
  show ?case
  proof (cases res)
    case (Inr dm')
    then have "settled ar M rules V (P \<union> set T) dm'" using res(2) settled_next [OF Cons.prems(1) o(1)] by blast
    from Cons.IH [OF this o(2)] show ?thesis using res(1) Inr by (simp add: Un_assoc)
  next
    case (Inl e)
    have "answered ar pj rd rules \<longrightarrow> answered ar pj rd stratum" using next_componentD(3) [OF o(1)] by (auto simp: answered_def)
    then show ?thesis using res(1,3) Inl by auto
  qed
qed simp

lemma body_atoms_set: "a \<in> set (body_atoms r) \<longleftrightarrow> ItemAtom a \<in> set (ru_body r)"
proof -
  have "(case i of ItemAtom a \<Rightarrow> Some a | ItemGuard _ \<Rightarrow> None) = Some a \<longleftrightarrow> i = ItemAtom a" for i by (cases i) auto
  then show ?thesis by (simp add: body_atoms_def set_map_filter)
qed

text \<open>The relations below a stratum, and the order of its components.\<close>

definition below_stratum :: "rule list \<Rightarrow> (identity \<Rightarrow> nat) \<Rightarrow> nat \<Rightarrow> identity set" where
  "below_stratum rules strata k = {q \<in> heads_of rules. strata q < k}"

definition stratum_of :: "rule list \<Rightarrow> (identity \<Rightarrow> nat) \<Rightarrow> nat \<Rightarrow> rule list" where
  "stratum_of rules strata k = filter (\<lambda>r. strata (ru_head_relation r) = k) rules"

lemma stratum_in_order:
  assumes "strata_ok rules strata" "stratum_components (stratum_of rules strata k) ord"
  shows "in_order rules (below_stratum rules strata k) (stratum_of rules strata k) ord"
    "\<Union> (set ` set ord) = {q \<in> heads_of rules. strata q = k}"
proof -
  let ?S = "stratum_of rules strata k"
  let ?deps = "positive_dependencies ?S (derived_relations ?S)"
  have cl: "classes ?deps (heads_of ?S) ord" and df: "dependencies_first ?deps ord" using assms(2) by (simp_all add: stratum_components_def)
  have heads: "heads_of ?S = {q \<in> heads_of rules. strata q = k}" by (auto simp: stratum_of_def)
  show "\<Union> (set ` set ord) = {q \<in> heads_of rules. strata q = k}" using classesD(1) [OF cl] heads by simp
  show "in_order rules (below_stratum rules strata k) ?S ord" unfolding in_order_def
  proof (intro allI impI)
    fix j assume j: "j < length ord"
    let ?P = "below_stratum rules strata k \<union> \<Union> (set ` set (take j ord))"
    have T: "set (ord ! j) \<subseteq> {q \<in> heads_of rules. strata q = k}" using classesD(3) [OF cl j] heads by simp
    have "set (ord ! i) \<inter> set (ord ! j) = {}" if "i < j" for i using cl j that by (auto simp: classes_def sorted_wrt_iff_nth_less)
    then have "set (ord ! j) \<inter> set c = {}" if "c \<in> set (take j ord)" for c
      using that by (metis Int_commute in_set_conv_nth length_take min_less_iff_conj nth_take)
    then have disj: "set (ord ! j) \<inter> ?P = {}" using T unfolding below_stratum_def by blast
    have atom: "at_relation a \<in> ?P \<or> at_relation a \<notin> heads_of rules \<or> (at_relation a \<in> set (ord ! j) \<and> \<not> at_negated a)"
      if r: "r \<in> set rules" "ru_head_relation r \<in> set (ord ! j)" "ItemAtom a \<in> set (ru_body r)" for r a
    proof (cases "at_relation a \<in> heads_of rules")
      case True
      have k: "strata (ru_head_relation r) = k" using T r(2) by blast
      then have le: "strata (at_relation a) + weight a \<le> k"
        using assms(1) [unfolded strata_ok_alt] r(1,3) [folded body_atoms_set] True by blast
      show ?thesis
      proof (cases "strata (at_relation a) = k")
        case eq: True
        then have n: "\<not> at_negated a" using le by (auto simp: weight_def)
        have "at_relation a \<in> set (?deps (ru_head_relation r))"
          unfolding positive_dependencies_set body_atoms_set derived_relations_set heads using r eq n True k by (auto simp: stratum_of_def)
        then have "at_relation a \<in> \<Union> (set ` set (take (Suc j) ord))" using df j r(2) unfolding dependencies_first_def by blast
        then show ?thesis using n j by (auto simp: take_Suc_conv_app_nth)
      qed (use le True in \<open>auto simp: below_stratum_def\<close>)
    qed simp
    show "next_component rules ?P ?S (ord ! j)" unfolding next_component_def
    proof (intro conjI)
      show "\<forall>r \<in> set rules. ru_head_relation r \<in> set (ord ! j) \<longrightarrow> r \<in> set ?S" using T by (auto simp: stratum_of_def)
    qed (use T disj atom in \<open>auto simp: stratum_of_def\<close>)
  qed
qed

section \<open>The rule set\<close>

lemma all_some_ok: "\<forall>x \<in> set xs. x \<noteq> None \<Longrightarrow> all_some xs = Some (map the xs)"
  by (induction xs) auto

lemma sorted_below:
  assumes "sorted (ks @ k # ks')" "distinct (ks @ k # ks')" "set (ks @ k # ks') = strata ` heads_of rules"
  shows "below_stratum rules strata k = {q \<in> heads_of rules. strata q \<in> set ks}"
proof -
  have "x < k \<longleftrightarrow> x \<in> set ks" if "x \<in> set (ks @ k # ks')" for x
    using assms(1,2) that by (auto simp: sorted_append dest: order.antisym) (metis order.strict_iff_order order.asym)+
  then show ?thesis using assms(3) by (auto simp: below_stratum_def)
qed

lemma evaluate_strata_ok:
  assumes ok: "evaluation_ok ar pj rd M rules V" and st: "strata_ok rules strata"
  shows "sorted (ks @ ks') \<Longrightarrow> distinct (ks @ ks') \<Longrightarrow> set (ks @ ks') = strata ` heads_of rules \<Longrightarrow>
    settled ar M rules V {q \<in> heads_of rules. strata q \<in> set ks} dm \<Longrightarrow>
    \<exists>res. evaluate_strata pj rd (map (\<lambda>k. the (compile_stratum (stratum_of rules strata k))) ks') dm = Some res \<and>
      (\<forall>dm'. res = Inr dm' \<longrightarrow> settled ar M rules V (heads_of rules) dm') \<and> (answered ar pj rd rules \<longrightarrow> (\<exists>dm'. res = Inr dm'))"
proof (induction ks' arbitrary: ks dm)
  case Nil
  then have "{q \<in> heads_of rules. strata q \<in> set ks} = heads_of rules" by auto
  then show ?case using Nil.prems(4) by simp
next
  case (Cons k ks')
  let ?S = "stratum_of rules strata k"
  obtain ord where ord: "compile_stratum ?S = Some \<lparr>st_rules = map compile_rule ?S, st_components = map (compile_component (map compile_rule ?S)) ord\<rparr>"
    "stratum_components ?S ord" using compile_stratum_ok by blast
  note I = stratum_in_order [OF st ord(2)]
  have P: "below_stratum rules strata k = {q \<in> heads_of rules. strata q \<in> set ks}" by (rule sorted_below [OF Cons.prems(1-3)])
  obtain res where res: "evaluate_components pj rd (map compile_rule ?S) (map (compile_component (map compile_rule ?S)) ord) dm = Some res"
    "\<forall>dm'. res = Inr dm' \<longrightarrow> settled ar M rules V ({q \<in> heads_of rules. strata q \<in> set ks} \<union> \<Union> (set ` set ord)) dm'"
    "answered ar pj rd rules \<longrightarrow> (\<exists>dm'. res = Inr dm')"
    using evaluate_components_ok [OF ok Cons.prems(4) I(1) [unfolded P]] by blast
  have U: "{q \<in> heads_of rules. strata q \<in> set ks} \<union> \<Union> (set ` set ord) = {q \<in> heads_of rules. strata q \<in> set (ks @ [k])}"
    unfolding I(2) by auto
  show ?case
  proof (cases res)
    case (Inr dm')
    then have "settled ar M rules V {q \<in> heads_of rules. strata q \<in> set (ks @ [k])} dm'" using res(2) unfolding U by blast
    then show ?thesis using Cons.IH [of "ks @ [k]" dm'] Cons.prems(1-3) res(1) Inr ord(1) by simp
  qed (use res(1,3) ord(1) in auto)
qed

lemma evaluate_fixpoint_ok:
  assumes ok: "evaluation_ok ar pj rd M rules V"
  shows "\<exists>res. evaluate_fixpoint pj rd rules = Some res \<and> (\<forall>dm. res = Inr dm \<longrightarrow> settled ar M rules V (heads_of rules) dm) \<and>
    (answered ar pj rd rules \<longrightarrow> \<not> negative_cycle rules \<longrightarrow> (\<exists>dm. res = Inr dm))"
proof (cases "relation_strata rules")
  case (Inl e)
  then have "negative_cycle rules" using relation_strata_ok(2) stratifiable by metis
  then show ?thesis using Inl by (simp add: evaluate_fixpoint_def compile_rules_def stratified_rules_def)
next
  case (Inr strata)
  let ?ks = "sorted_list_of_set (set (map (\<lambda>r. strata (ru_head_relation r)) rules))"
  have st: "strata_ok rules strata" by (rule relation_strata_ok(1) [OF Inr])
  have "compile_stratum (stratum_of rules strata k) \<noteq> None" for k using compile_stratum_ok by fastforce
  then have "compile_rules rules = Some (Inr (map (\<lambda>k. the (compile_stratum (stratum_of rules strata k))) ?ks))"
    using all_some_ok [of "map compile_stratum (map (stratum_of rules strata) ?ks)"]
    by (simp add: compile_rules_def stratified_rules_def Inr stratum_of_def [abs_def] o_def)
  moreover have "set ?ks = strata ` heads_of rules" "sorted ?ks" "distinct ?ks" by (auto simp: image_image)
  ultimately show ?thesis using evaluate_strata_ok [OF ok st, of "[]" ?ks "[]"] settled_start by (simp add: evaluate_fixpoint_def) blast
qed

text \<open>The result is the stable model of the rules.\<close>

lemma settled_model:
  assumes "settled ar M rules V (heads_of rules) dm"
  shows "t \<in> known M dm q \<longleftrightarrow> derivable rules M (known M dm) q t" "tuples dm q = consequences rules (known M dm) q"
proof -
  note S = settledD [OF assms]
  show cons: "tuples dm q = consequences rules (known M dm) q" for q
  proof (cases "q \<in> heads_of rules")
    case False
    then have "consequences rules (known M dm) q = {}" by (auto simp: consequences_def)
    then show ?thesis using S(4) [OF False] by simp
  qed (rule S(6))
  show "t \<in> known M dm q \<longleftrightarrow> derivable rules M (known M dm) q t"
  proof
    assume "t \<in> known M dm q"
    then show "derivable rules M (known M dm) q t"
      using S(4,7) by (cases "q \<in> heads_of rules") (auto simp: known_def intro: derivable.stored)
  next
    assume "derivable rules M (known M dm) q t"
    then show "t \<in> known M dm q"
    proof (induction rule: derivable.induct)
      case (derive r s)
      have "holds_item (known M dm) s i" if "i \<in> set (ru_body r)" for i
        using derive.IH derive.hyps(2,3) that by (cases i) auto
      then have "term_values s (ru_head_terms r) \<in> tuples dm (ru_head_relation r)"
        unfolding cons by (rule consequenceI [OF derive.hyps(1)])
      then show ?case by (simp add: known_def)
    qed (simp add: known_def)
  qed
qed

end
