(* ===== verification/RuleProperties.thy ===== *)
theory RuleProperties
  imports RuleModel
begin

text \<open>
  The properties of the rule engine, each with a sample program: paths of a graph, and the nodes that
  are on no cycle.
\<close>

section \<open>A sample program\<close>

definition edge :: identity where "edge = 1"
definition path :: identity where "path = 2"
definition vertex :: identity where "vertex = 3"
definition acyclic_vertex :: identity where "acyclic_vertex = 4"

definition path_base :: rule where
  "path_base = rule_new path [RVar 0, RVar 1] [ItemAtom (atom_positive edge [RVar 0, RVar 1])]"

definition path_step :: rule where
  "path_step = rule_new path [RVar 0, RVar 2]
     [ItemAtom (atom_positive path [RVar 0, RVar 1]), ItemAtom (atom_positive edge [RVar 1, RVar 2])]"

definition on_no_cycle :: rule where
  "on_no_cycle = rule_new acyclic_vertex [RVar 0]
     [ItemAtom (atom_positive vertex [RVar 0]), ItemAtom (atom_negated path [RVar 0, RVar 0])]"

definition sample_rules :: "rule list" where
  "sample_rules = [path_base, path_step, on_no_cycle]"

definition sample_arity :: "identity \<Rightarrow> nat" where
  "sample_arity r = (if r = edge \<or> r = path then 2 else 1)"

definition sample_tuples :: tuple_map where
  "sample_tuples = [(edge, [[VInt 1, VInt 2], [VInt 2, VInt 3]]), (vertex, [[VInt 1]])]"

text \<open>A join that scans both sides and pairs the rows that agree.\<close>

definition scan_join :: packed_join where
  "scan_join rd left rd' right ps qs =
     ebind (rd_scan rd (fst left) (snd left)) (\<lambda>ts.
     ebind (rd_scan rd' (fst right) (snd right)) (\<lambda>us.
     Inr (Some [t @ u. t \<leftarrow> ts, u \<leftarrow> us, map (\<lambda>p. t ! p) ps = map (\<lambda>q. u ! q) qs])))"

lemmas sample_defs = edge_def path_def vertex_def acyclic_vertex_def path_base_def path_step_def on_no_cycle_def sample_rules_def
  rule_new_def atom_positive_def atom_negated_def

lemma scan_join_ok: "join_ok ar scan_join"
  unfolding join_ok_def
proof (intro allI impI)
  fix rd M rd' M' r r' ps qs rows
  assume rd: "reads ar rd M" "reads ar rd' M'"
    and res: "scan_join rd (r, replicate (ar r) None) rd' (r', replicate (ar r') None) ps qs = Inr (Some rows)"
  obtain ts us where s: "rd_scan rd r (replicate (ar r) None) = Inr ts" "rd_scan rd' r' (replicate (ar r') None) = Inr us"
    "rows = [t @ u. t \<leftarrow> ts, u \<leftarrow> us, map (\<lambda>p. t ! p) ps = map (\<lambda>q. u ! q) qs]"
    using res by (auto simp: scan_join_def)
  have "set ts = M r" "set us = M' r'"
    using readsD(3) [OF rd(1) _ s(1)] readsD(3) [OF rd(2) _ s(2)] matching_all [OF rd(1)] matching_all [OF rd(2)] by simp_all
  then show "set rows = join_rows (M r) (M' r') ps qs" unfolding s(3) join_rows_def by auto
qed

lemma scan_join_answers: "join_answers ar scan_join"
  unfolding join_answers_def
proof (intro allI impI)
  fix rd rd' r r' ps qs assume a: "answers ar rd" "answers ar rd'"
  obtain ts us where "rd_scan rd r (replicate (ar r) None) = Inr ts" "rd_scan rd' r' (replicate (ar r') None) = Inr us"
    using a unfolding answers_def by (metis length_replicate)
  then show "\<exists>x. scan_join rd (r, replicate (ar r) None) rd' (r', replicate (ar r') None) ps qs = Inr x" by (simp add: scan_join_def)
qed

lemma sample_at:
  "tuples sample_tuples q = (if q = edge then {[VInt 1, VInt 2], [VInt 2, VInt 3]} else if q = vertex then {[VInt 1]} else {})"
  by (auto simp: tuples_def tm_get_def sample_tuples_def)

lemma sample_reads: "reads sample_arity (tuple_map_reader sample_tuples) (tuples sample_tuples)"
  by (rule tuple_map_reader_reads) (simp add: arities_ok_def sample_at sample_arity_def edge_def path_def vertex_def)

lemma sample_serves: "serves sample_arity (tuple_map_reader sample_tuples)"
  by (simp add: serves_def tuple_map_reader_def Let_def hide_unknown_def)

lemma term_variables_simps [simp]:
  "term_variables [] = {}" "term_variables (RVar s # ts) = insert s (term_variables ts)" "term_variables (RValue v # ts) = term_variables ts"
  by (auto simp: term_variables_def)

lemma positive_variables_items:
  "positive_variables r = (\<Union>i \<in> set (ru_body r). case i of ItemAtom a \<Rightarrow> if at_negated a then {} else term_variables (at_terms a) | ItemGuard _ \<Rightarrow> {})"
  by (force simp: positive_variables_def split: rule_body_item.splits if_splits)

lemma sample_rules_ok: "\<forall>r \<in> set sample_rules. rule_arity_ok sample_arity r" "\<forall>r \<in> set sample_rules. safe_rule r"
proof -
  show "\<forall>r \<in> set sample_rules. rule_arity_ok sample_arity r"
    by (simp add: sample_defs sample_arity_def rule_arity_ok_def item_arity_ok_def)
  show "\<forall>r \<in> set sample_rules. safe_rule r"
    by (simp add: sample_defs safe_rule_def positive_variables_items)
qed

lemma sample_finite: "finite {v. \<exists>q t. t \<in> tuples sample_tuples q \<and> v \<in> set t}"
proof (rule finite_subset)
  show "{v. \<exists>q t. t \<in> tuples sample_tuples q \<and> v \<in> set t} \<subseteq> {VInt 1, VInt 2, VInt 3}"
    by (auto simp: sample_at split: if_splits)
qed simp

lemma sample_strata: "strata_ok sample_rules (\<lambda>i. if i = acyclic_vertex then 1 else 0)"
  unfolding strata_ok_alt by (auto simp: sample_defs body_atoms_def List.map_filter_def weight_def)

lemma sample_stratified: "\<not> negative_cycle sample_rules"
  using sample_strata stratifiable by blast

section \<open>Strata and components\<close>

text \<open>
  C22. The division into strata fails exactly when a relation depends on its own negation, directly or
  through other relations. When it succeeds, a relation is in no lower a stratum than the relations it
  depends on and in a higher one than those it negates, and the strata are the least with that property.
\<close>

theorem strata_correct:
  "(relation_strata rules = Inl e \<longleftrightarrow> e = UnstratifiedNegation \<and> negative_cycle rules) \<and>
   (relation_strata rules = Inr strata \<longrightarrow> strata_ok rules strata \<and> (\<forall>other i. strata_ok rules other \<longrightarrow> strata i \<le> other i))"
  using relation_strata_ok(2) [of rules e] stratifiable [of rules] relation_strata_ok(1) [of rules strata]
    relation_strata_ok(3) [of rules strata] least_strata_le le_trans by metis

theorem strata_correct_witness:
  "\<exists>strata. relation_strata sample_rules = Inr strata \<and> strata path = 0 \<and> strata acyclic_vertex = 1"
proof (cases "relation_strata sample_rules")
  case (Inl e)
  then show ?thesis using strata_correct [of sample_rules e] sample_stratified by blast
next
  case (Inr strata)
  then have s: "strata_ok sample_rules strata" "\<And>other i. strata_ok sample_rules other \<Longrightarrow> strata i \<le> other i"
    using strata_correct [of sample_rules undefined strata] by blast+
  have "strata path + 1 \<le> strata acyclic_vertex"
    using s(1) unfolding strata_ok_alt by (auto simp: sample_defs body_atoms_def List.map_filter_def weight_def)
  moreover have "strata path \<le> 0" "strata acyclic_vertex \<le> 1"
    using s(2) [OF sample_strata, of path] s(2) [OF sample_strata, of acyclic_vertex] by (simp_all add: sample_defs)
  ultimately show ?thesis using Inr by simp
qed

text \<open>
  C35. A stratum always compiles: its components are the classes of mutually recursive relations, each
  derived relation in one of them, and a component comes after every component it depends on.
\<close>

theorem components_correct:
  "\<exists>ord. compile_stratum rules = Some \<lparr>st_rules = map compile_rule rules, st_components = map (compile_component (map compile_rule rules)) ord\<rparr> \<and>
     classes (positive_dependencies rules (derived_relations rules)) (ru_head_relation ` set rules) ord \<and>
     dependencies_first (positive_dependencies rules (derived_relations rules)) ord"
  using compile_stratum_ok [of rules] unfolding stratum_components_def .

section \<open>One rule\<close>

text \<open>
  C16. Whatever order the planner takes the items of a body in, and whether or not the packed join
  evaluates it, a rule adds to the relation of its head exactly the heads of the valuations under which
  every item holds, the item at each position read through the reader of that position.
\<close>

theorem rule_evaluation:
  assumes "join_ok ar pj" "rule_arity_ok ar r" "\<And>j. reads ar (reader_for_body_item full delta j) (M j)" "om_ok out"
    and "evaluate_body_with_readers pj full delta (compile_rule r) = Inr bs" "insert_heads (compile_rule r) bs out = Inr out'"
  shows "tuples out' q = (if q = ru_head_relation r then tuples out q \<union>
      {term_values s (ru_head_terms r) |s. \<forall>j < length (ru_body r). holds_item (M j) s (ru_body r ! j)} else tuples out q)"
  using evaluate_rule_ok(2) [OF assms] by (simp add: rule_heads_def)

definition sample_paths :: tuple_map where
  "sample_paths = [(edge, [[VInt 1, VInt 2], [VInt 2, VInt 3]]), (path, [[VInt 1, VInt 2], [VInt 2, VInt 3]])]"

theorem rule_evaluation_witness:
  "\<exists>bs out. evaluate_body_with_readers scan_join (tuple_map_reader sample_paths) None (compile_rule path_step) = Inr bs \<and>
     insert_heads (compile_rule path_step) bs [] = Inr out \<and> [VInt 1, VInt 3] \<in> tuples out path"
proof -
  let ?rd = "\<lambda>j. reader_for_body_item (tuple_map_reader sample_paths) None j"
  have rd: "reads sample_arity (?rd j) (tuples sample_paths)" for j
    unfolding reader_for_body_item_def option.case
    by (rule tuple_map_reader_reads)
       (auto simp: arities_ok_def tuples_def tm_get_def sample_paths_def sample_arity_def edge_def path_def split: if_splits)
  have an: "answers sample_arity (?rd j)" for j by (simp add: reader_for_body_item_def tuple_map_answers)
  have r: "rule_arity_ok sample_arity path_step" "safe_rule path_step" using sample_rules_ok by (simp_all add: sample_rules_def)
  obtain bs out where e: "evaluate_body_with_readers scan_join (tuple_map_reader sample_paths) None (compile_rule path_step) = Inr bs"
    "insert_heads (compile_rule path_step) bs [] = Inr out"
    using evaluate_rule_total [OF scan_join_answers r scan_join_ok rd an] by blast
  have "term_values (\<lambda>s. VInt (int s + 1)) (ru_head_terms path_step) \<in> tuples out path"
    unfolding rule_evaluation [OF scan_join_ok r(1) rd om_ok_Nil e]
    by (auto simp: path_step_def rule_new_def atom_positive_def path_def edge_def less_Suc_eq term_values_def tuples_def tm_get_def sample_paths_def
        intro!: exI [of _ "\<lambda>s. VInt (int s + 1)"])
  then show ?thesis using e by (auto simp: path_step_def rule_new_def term_values_def)
qed

section \<open>A rule set\<close>

lemma evaluation_exists:
  assumes "join_ok ar pj" "reads ar rd M" "\<forall>r \<in> set rules. rule_arity_ok ar r" "finite {v. \<exists>q t. t \<in> M q \<and> v \<in> set t}"
  shows "\<exists>V. evaluation_ok ar pj rd M rules V"
proof -
  have "finite (rule_constants r)" for r
    by (rule finite_subset [of _ "(\<lambda>t. case t of RValue v \<Rightarrow> v | RVar _ \<Rightarrow> undefined) ` set (ru_head_terms r)"]) (force simp: rule_constants_def)+
  then have "evaluation_ok ar pj rd M rules ({v. \<exists>q t. t \<in> M q \<and> v \<in> set t} \<union> (\<Union>r \<in> set rules. rule_constants r))"
    using assms by (auto simp: evaluation_ok_def values_in_def)
  then show ?thesis ..
qed

text \<open>
  C11. Evaluating a rule set over finitely many stored tuples returns: no semi-naive loop runs forever.
  If the relations do not depend on their own negation, every variable occurs in a positive atom of its
  rule and the reader answers, the result is the derived tuples and not an error.
\<close>

theorem evaluation_returns:
  assumes "join_ok ar pj" "reads ar rd M" "\<forall>r \<in> set rules. rule_arity_ok ar r" "finite {v. \<exists>q t. t \<in> M q \<and> v \<in> set t}"
  shows "\<exists>res. evaluate_fixpoint pj rd rules = Some res \<and>
    (serves ar rd \<and> join_answers ar pj \<and> (\<forall>r \<in> set rules. safe_rule r) \<and> \<not> negative_cycle rules \<longrightarrow> (\<exists>dm. res = Inr dm))"
proof -
  obtain V where "evaluation_ok ar pj rd M rules V" using evaluation_exists [OF assms] by blast
  from evaluate_fixpoint_ok [OF this] show ?thesis by (auto simp: answered_def)
qed

theorem evaluation_returns_witness: "\<exists>dm. evaluate_fixpoint scan_join (tuple_map_reader sample_tuples) sample_rules = Some (Inr dm)"
  using evaluation_returns [OF scan_join_ok sample_reads sample_rules_ok(1) sample_finite]
    sample_serves scan_join_answers sample_rules_ok(2) sample_stratified by blast

text \<open>
  C3. The evaluation of a rule set computes its stable model over the stored tuples: a tuple is stored
  or derived exactly when it has a derivation from the stored tuples by the rules, in which negated atoms
  are read from the result itself; and the derived tuples are the heads the rules have in the result.
\<close>

theorem stable_model:
  assumes "join_ok ar pj" "reads ar rd M" "\<forall>r \<in> set rules. rule_arity_ok ar r" "finite {v. \<exists>q t. t \<in> M q \<and> v \<in> set t}"
    and "evaluate_fixpoint pj rd rules = Some (Inr dm)"
  shows "(t \<in> M q \<or> t \<in> tuples dm q \<longleftrightarrow> derivable rules M (\<lambda>q. M q \<union> tuples dm q) q t) \<and>
    tuples dm q = consequences rules (\<lambda>q. M q \<union> tuples dm q) q"
proof -
  obtain V where "evaluation_ok ar pj rd M rules V" using evaluation_exists [OF assms(1-4)] by blast
  then have s: "settled ar M rules V (ru_head_relation ` set rules) dm" using evaluate_fixpoint_ok assms(5) by fastforce
  have k: "known M dm = (\<lambda>q. M q \<union> tuples dm q)" by (rule ext) (simp add: known_def)
  show ?thesis using settled_model(1) [OF s, of t q] settled_model(2) [OF s, of q] unfolding k by simp
qed

lemma sample_derivable:
  "derivable sample_rules (tuples sample_tuples) N path [VInt 1, VInt 2]"
  "derivable sample_rules (tuples sample_tuples) N path [VInt 1, VInt 3]"
proof -
  let ?s = "\<lambda>s. VInt (int s + 1)"
  have e: "derivable sample_rules (tuples sample_tuples) N edge [VInt 1, VInt 2]" "derivable sample_rules (tuples sample_tuples) N edge [VInt 2, VInt 3]"
    by (rule derivable.stored, simp add: sample_at)+
  have "derivable sample_rules (tuples sample_tuples) N (ru_head_relation path_base) (term_values ?s (ru_head_terms path_base))"
    by (rule derivable.derive) (use e(1) in \<open>auto simp: sample_rules_def path_base_def rule_new_def atom_positive_def term_values_def\<close>)
  then show p: "derivable sample_rules (tuples sample_tuples) N path [VInt 1, VInt 2]"
    by (simp add: path_base_def rule_new_def term_values_def)
  have "derivable sample_rules (tuples sample_tuples) N (ru_head_relation path_step) (term_values ?s (ru_head_terms path_step))"
    by (rule derivable.derive) (use e(2) p in \<open>auto simp: sample_rules_def path_step_def rule_new_def atom_positive_def term_values_def\<close>)
  then show "derivable sample_rules (tuples sample_tuples) N path [VInt 1, VInt 3]"
    by (simp add: path_step_def rule_new_def term_values_def)
qed

theorem stable_model_witness:
  "\<exists>dm. evaluate_fixpoint scan_join (tuple_map_reader sample_tuples) sample_rules = Some (Inr dm) \<and> [VInt 1, VInt 3] \<in> tuples dm path"
proof -
  obtain V where V: "evaluation_ok sample_arity scan_join (tuple_map_reader sample_tuples) (tuples sample_tuples) sample_rules V"
    using evaluation_exists [OF scan_join_ok sample_reads sample_rules_ok(1) sample_finite] by blast
  then obtain dm where dm: "evaluate_fixpoint scan_join (tuple_map_reader sample_tuples) sample_rules = Some (Inr dm)"
    using evaluate_fixpoint_ok [OF V] sample_serves scan_join_answers sample_rules_ok(2) sample_stratified unfolding answered_def by blast
  have "[VInt 1, VInt 3] \<in> tuples sample_tuples path \<or> [VInt 1, VInt 3] \<in> tuples dm path"
    using stable_model [OF scan_join_ok sample_reads sample_rules_ok(1) sample_finite dm, of "[VInt 1, VInt 3]" path] sample_derivable(2) by blast
  then show ?thesis using dm by (auto simp: sample_at edge_def path_def vertex_def)
qed

section \<open>Comparisons\<close>

text \<open>
  C38. A guard compares numbers by their values: an integer and a binary32 float compare as the
  rational numbers they stand for, with no rounding, and other values compare in the canonical order.
\<close>

theorem numeric_comparison:
  assumes "valid l" "valid r"
  shows "(case (number l, number r) of
      (Some x, Some y) \<Rightarrow> numeric_cmp l r = cmp_lin x y \<and> (numeric_eq l r \<longleftrightarrow> x = y)
    | _ \<Rightarrow> numeric_cmp l r = val_cmp l r \<and> (numeric_eq l r \<longleftrightarrow> l = r))"
proof (cases "number l = None \<or> number r = None")
  case True
  then show ?thesis using numeric_other [OF True] by (auto split: option.splits)
next
  case False
  then obtain x y where xy: "number l = Some x" "number r = Some y" by auto
  show ?thesis using numeric_exact [OF assms xy] xy by simp
qed

theorem numeric_comparison_witness: "compare_values CmpLt (VInt 16777216) (VFloat 0x4b800001) \<and> compare_values CmpEq (VInt 1) (VFloat 0x3f800000)"
proof -
  have v: "valid (VInt 16777216)" "valid (VInt 1)" "valid (VFloat 0x4b800001)" "valid (VFloat 0x3f800000)"
    by (simp_all add: INT_MIN_def INT_MAX_def U32_LIMIT_def f32_finite_def)
  have "f32_value 0x4b800001 = 16777218" "f32_value 0x3f800000 = 1" by (simp_all add: f32_value_def f32_magnitude_def)
  then show ?thesis using numeric_comparison [OF v(1,3)] numeric_comparison [OF v(2,4)] by (simp add: compare_values_def cmp_lin_def)
qed

end
