(* ===== verification/Dispatch.thy ===== *)
theory Dispatch
  imports RuleBody BufferCommit SymbolTable
begin

text \<open>
  Method dispatch: \<open>crates/relation-kernel/src/dispatch.rs\<close>, the traversal of delegation in
  closure.rs and the primitive prototypes of \<open>crates/var/src/value.rs\<close>. The interned ids of the two
  marker symbols and the names of symbols are read from the process-wide table: they are a parameter.
  A reader of the relations is that of the rules; an error of a visit is raised before its first row.

  A panic is \<open>None\<close>, an error is \<open>Inl\<close>. Parameter rows have six values wherever the code indexes them
  after \<open>parameter_layout\<close>, which refuses every other row; the accesses it does not protect are
  written as accesses that can panic. A B-tree set of values is a list without duplicates.
\<close>

section \<open>Primitive prototypes\<close>

definition BOOL_PROTOTYPE :: identity where "BOOL_PROTOTYPE = 0xc0000000000002"
definition INTEGER_PROTOTYPE :: identity where "INTEGER_PROTOTYPE = 0xc0000000000003"
definition FLOAT_PROTOTYPE :: identity where "FLOAT_PROTOTYPE = 0xc0000000000004"
definition IDENTITY_PROTOTYPE :: identity where "IDENTITY_PROTOTYPE = 0xc0000000000005"
definition SYMBOL_PROTOTYPE :: identity where "SYMBOL_PROTOTYPE = 0xc0000000000006"
definition ERROR_CODE_PROTOTYPE :: identity where "ERROR_CODE_PROTOTYPE = 0xc0000000000007"
definition STRING_PROTOTYPE :: identity where "STRING_PROTOTYPE = 0xc0000000000008"
definition BYTES_PROTOTYPE :: identity where "BYTES_PROTOTYPE = 0xc0000000000009"
definition LIST_PROTOTYPE :: identity where "LIST_PROTOTYPE = 0xc000000000000a"
definition MAP_PROTOTYPE :: identity where "MAP_PROTOTYPE = 0xc000000000000b"
definition RANGE_PROTOTYPE :: identity where "RANGE_PROTOTYPE = 0xc000000000000c"
definition ERROR_PROTOTYPE :: identity where "ERROR_PROTOTYPE = 0xc000000000000d"
definition CAPABILITY_PROTOTYPE :: identity where "CAPABILITY_PROTOTYPE = 0xc000000000000e"
definition FROB_PROTOTYPE :: identity where "FROB_PROTOTYPE = 0xc000000000000f"
definition FUNCTION_PROTOTYPE :: identity where "FUNCTION_PROTOTYPE = 0xc0000000000010"
definition RELATION_PROTOTYPE :: identity where "RELATION_PROTOTYPE = 0xc0000000000011"

fun primitive_prototype_for_value :: "val \<Rightarrow> identity" where
  "primitive_prototype_for_value (VBool _) = BOOL_PROTOTYPE"
| "primitive_prototype_for_value (VInt _) = INTEGER_PROTOTYPE"
| "primitive_prototype_for_value (VFloat _) = FLOAT_PROTOTYPE"
| "primitive_prototype_for_value (VIdentity _) = IDENTITY_PROTOTYPE"
| "primitive_prototype_for_value (VSymbol _) = SYMBOL_PROTOTYPE"
| "primitive_prototype_for_value (VErrorCode _) = ERROR_CODE_PROTOTYPE"
| "primitive_prototype_for_value (VString _) = STRING_PROTOTYPE"
| "primitive_prototype_for_value (VBytes _) = BYTES_PROTOTYPE"
| "primitive_prototype_for_value (VList _) = LIST_PROTOTYPE"
| "primitive_prototype_for_value (VMap _) = MAP_PROTOTYPE"
| "primitive_prototype_for_value (VRange _ _) = RANGE_PROTOTYPE"
| "primitive_prototype_for_value (VError _ _ _) = ERROR_PROTOTYPE"
| "primitive_prototype_for_value (VCapability _) = CAPABILITY_PROTOTYPE"
| "primitive_prototype_for_value (VFrob _ _) = FROB_PROTOTYPE"
| "primitive_prototype_for_value (VFunction _) = FUNCTION_PROTOTYPE"
| "primitive_prototype_for_value (VRelation _ _) = RELATION_PROTOTYPE"

section \<open>Delegation\<close>

text \<open>\<open>values()[i]\<close>.\<close>

definition field :: "tuple \<Rightarrow> nat \<Rightarrow> val option" where
  "field t i = (if i < length t then Some (t ! i) else None)"

text \<open>
  The visitor of an edge: it stops at the ancestor; a prototype seen for the first time goes on the
  stack, whose top is the head of the list.
\<close>

fun visit_edges :: "val \<Rightarrow> tuple list \<Rightarrow> val list \<Rightarrow> val list \<Rightarrow> (bool \<times> val list \<times> val list) option" where
  "visit_edges ancestor [] seen frontier = Some (False, seen, frontier)"
| "visit_edges ancestor (edge # edges) seen frontier =
     (case field edge 1 of
        None \<Rightarrow> None
      | Some proto \<Rightarrow>
          if proto = ancestor then Some (True, seen, frontier)
          else if proto \<in> set seen then visit_edges ancestor edges seen frontier
          else visit_edges ancestor edges (proto # seen) (proto # frontier))"

partial_function (option) reaches_loop :: "reader \<Rightarrow> identity \<Rightarrow> val \<Rightarrow> val list \<Rightarrow> val list \<Rightarrow> (val, bool) kresult" where
  [code]: "reaches_loop rd delegates ancestor seen frontier =
     (case frontier of
        [] \<Rightarrow> Some (Inr False)
      | current # frontier' \<Rightarrow>
          (case rd_visit rd delegates [Some current, None, None] of
             Inl e \<Rightarrow> Some (Inl e)
           | Inr edges \<Rightarrow>
               (case visit_edges ancestor edges seen frontier' of
                  None \<Rightarrow> None
                | Some res \<Rightarrow>
                    if fst res then Some (Inr True)
                    else reaches_loop rd delegates ancestor (fst (snd res)) (snd (snd res)))))"

definition delegates_reaches :: "reader \<Rightarrow> identity \<Rightarrow> val \<Rightarrow> val \<Rightarrow> (val, bool) kresult" where
  "delegates_reaches rd delegates child ancestor = reaches_loop rd delegates ancestor [] [child]"

fun push_edges :: "tuple list \<Rightarrow> val list \<Rightarrow> val list \<Rightarrow> (val list \<times> val list) option" where
  "push_edges [] seen frontier = Some (seen, frontier)"
| "push_edges (edge # edges) seen frontier =
     (case field edge 1 of
        None \<Rightarrow> None
      | Some proto \<Rightarrow>
          if proto \<in> set seen then push_edges edges seen frontier
          else push_edges edges (proto # seen) (proto # frontier))"

partial_function (option) star_loop :: "reader \<Rightarrow> identity \<Rightarrow> val list \<Rightarrow> val list \<Rightarrow> (val, val list) kresult" where
  [code]: "star_loop rd delegates seen frontier =
     (if frontier = [] then Some (Inr seen)
      else case rd_scan rd delegates [Some (hd frontier), None, None] of
        Inl e \<Rightarrow> Some (Inl e)
      | Inr edges \<Rightarrow>
          (case push_edges edges seen (tl frontier) of
             None \<Rightarrow> None
           | Some res \<Rightarrow> star_loop rd delegates (fst res) (snd res)))"

definition delegates_star_from :: "reader \<Rightarrow> identity \<Rightarrow> val \<Rightarrow> (val, val list) kresult" where
  "delegates_star_from rd delegates child =
     kbind (star_loop rd delegates [] [child]) (\<lambda>seen. kok (sort_by val_cmp seen))"

fun star_children :: "reader \<Rightarrow> identity \<Rightarrow> val list \<Rightarrow> (val, tuple list) kresult" where
  "star_children rd delegates [] = kok []"
| "star_children rd delegates (child # child_values) =
     kbind (delegates_star_from rd delegates child) (\<lambda>protos.
     kbind (star_children rd delegates child_values) (\<lambda>rest.
     kok (map (\<lambda>proto. [child, proto]) protos @ rest)))"

fun edge_children :: "tuple list \<Rightarrow> val list option" where
  "edge_children [] = Some []"
| "edge_children (edge # edges) =
     (case field edge 0 of None \<Rightarrow> None | Some child \<Rightarrow> map_option ((#) child) (edge_children edges))"

definition delegates_star :: "reader \<Rightarrow> identity \<Rightarrow> (val, tuple list) kresult" where
  "delegates_star rd delegates =
     kbind (Some (rd_scan rd delegates [None, None, None])) (\<lambda>edges.
     case edge_children edges of
       None \<Rightarrow> None
     | Some child_values \<Rightarrow>
         kbind (star_children rd delegates (remdups_adj (sort_by val_cmp child_values))) (\<lambda>closure.
         kok (finish_tuple_rows closure)))"

section \<open>Parameters\<close>

record dispatch_symbols =
  ds_unrestricted :: symbol
  ds_frob_only :: symbol
  ds_name :: "symbol \<Rightarrow> rstr option"

definition str_of :: "string \<Rightarrow> rstr" where
  "str_of s = map of_char s"

definition unrestricted_marker :: "dispatch_symbols \<Rightarrow> val" where
  "unrestricted_marker sy = VSymbol (ds_unrestricted sy)"

definition frob_only_marker :: "dispatch_symbols \<Rightarrow> val" where
  "frob_only_marker sy = VSymbol (ds_frob_only sy)"

definition unrestricted_dispatch_restriction :: "dispatch_symbols \<Rightarrow> val" where
  "unrestricted_dispatch_restriction sy = unrestricted_marker sy"

definition frob_only_dispatch_restriction :: "dispatch_symbols \<Rightarrow> identity \<Rightarrow> val" where
  "frob_only_dispatch_restriction sy delegate = VFrob delegate (frob_only_marker sy)"

record dispatch_relations =
  dr_method_selector :: identity
  dr_param :: identity
  dr_delegates :: identity

record applicable_method =
  am_method :: val
  am_params :: "tuple list"

record applicable_method_call =
  ac_method :: val
  ac_args :: "val list option"

record argument_binding =
  ab_required :: usize
  ab_defaults :: "val list"
  ab_rest :: bool

record positional_method =
  pm_method :: val
  pm_binding :: "argument_binding option"

text \<open>Binding arguments; \<open>None\<close> is the failed assertion.\<close>

definition bind_arguments :: "positional_method \<Rightarrow> val list \<Rightarrow> val list option" where
  "bind_arguments m args =
     (case pm_binding m of
        None \<Rightarrow> Some args
      | Some b \<Rightarrow>
          (let fixed = ab_required b + length (ab_defaults b) in
           if \<not> (ab_required b \<le> length args \<and> (ab_rest b \<or> length args \<le> fixed)) then None
           else
             let (args1, rest) = (if ab_rest b \<and> fixed < length args then (take fixed args, drop fixed args) else (args, []));
                 args2 = (if length args1 < fixed then args1 @ drop (length args1 - ab_required b) (ab_defaults b) else args1)
             in Some (if ab_rest b then args2 @ [VList rest] else args2)))"

datatype param_mode = ModeRequired | ModeOptional | ModeRest

definition parameter_mode :: "dispatch_symbols \<Rightarrow> tuple \<Rightarrow> param_mode option" where
  "parameter_mode sy param =
     (if length param \<noteq> 6 then None
      else case param ! 4 of
        VSymbol s \<Rightarrow>
          (case ds_name sy s of
             None \<Rightarrow> None
           | Some name \<Rightarrow>
               if name = str_of ''required'' then Some ModeRequired
               else if name = str_of ''optional'' then Some ModeOptional
               else if name = str_of ''rest'' then Some ModeRest
               else None)
      | _ \<Rightarrow> None)"

definition param_position :: "tuple \<Rightarrow> nat option" where
  "param_position param =
     (case field param 3 of
        Some (VInt i) \<Rightarrow> if 0 \<le> i \<and> i \<le> 65535 then Some (nat i) else None
      | _ \<Rightarrow> None)"

fun layout_loop :: "dispatch_symbols \<Rightarrow> nat \<Rightarrow> usize \<Rightarrow> bool \<Rightarrow> bool \<Rightarrow> tuple list \<Rightarrow> (usize \<times> bool) option" where
  "layout_loop sy position required optional rest [] = Some (required, rest)"
| "layout_loop sy position required optional rest (param # params) =
     (case param_position param of
        None \<Rightarrow> None
      | Some p \<Rightarrow>
          if p \<noteq> position \<or> rest then None
          else case parameter_mode sy param of
            None \<Rightarrow> None
          | Some ModeRequired \<Rightarrow>
              if \<not> optional then layout_loop sy (position + 1) (required + 1) optional rest params else None
          | Some ModeOptional \<Rightarrow> layout_loop sy (position + 1) required True rest params
          | Some ModeRest \<Rightarrow> layout_loop sy (position + 1) required optional True params)"

definition parameter_layout :: "dispatch_symbols \<Rightarrow> tuple list \<Rightarrow> (usize \<times> usize \<times> bool) option" where
  "parameter_layout sy params =
     (case layout_loop sy 0 0 False False params of
        None \<Rightarrow> None
      | Some (required, rest) \<Rightarrow> Some (required, length params - (if rest then 1 else 0), rest))"

definition positional_binding :: "dispatch_symbols \<Rightarrow> tuple list \<Rightarrow> argument_binding option option" where
  "positional_binding sy params =
     (case parameter_layout sy params of
        None \<Rightarrow> None
      | Some (required, fixed, rest) \<Rightarrow>
          if required = fixed \<and> \<not> rest then Some None
          else Some (Some \<lparr>ab_required = required,
                           ab_defaults = map (\<lambda>param. param ! 5) (take (fixed - required) (drop required params)),
                           ab_rest = rest\<rparr>))"

definition ordered_params :: "tuple list \<Rightarrow> tuple list option" where
  "ordered_params params =
     (if \<exists>param \<in> set params. param_position param = None then None
      else Some (sort_key (\<lambda>param. case param_position param of Some p \<Rightarrow> p | None \<Rightarrow> 65535) params))"

section \<open>Restrictions\<close>

definition frob_delegate :: "val \<Rightarrow> identity option" where
  "frob_delegate v = (case v of VFrob delegate _ \<Rightarrow> Some delegate | _ \<Rightarrow> None)"

definition frob_only_restriction :: "dispatch_symbols \<Rightarrow> val \<Rightarrow> val option" where
  "frob_only_restriction sy restriction =
     (case restriction of
        VFrob delegate payload \<Rightarrow> if payload = frob_only_marker sy then Some (VIdentity delegate) else None
      | _ \<Rightarrow> None)"

definition identity_matches :: "reader \<Rightarrow> identity \<Rightarrow> identity \<Rightarrow> val \<Rightarrow> (val, bool) kresult" where
  "identity_matches rd delegates i restriction =
     (if VIdentity i = restriction then kok True else delegates_reaches rd delegates (VIdentity i) restriction)"

definition matches_restriction :: "dispatch_symbols \<Rightarrow> reader \<Rightarrow> identity \<Rightarrow> val \<Rightarrow> val \<Rightarrow> (val, bool) kresult" where
  "matches_restriction sy rd delegates v restriction =
     (if restriction = unrestricted_marker sy then kok True
      else if v = restriction then kok True
      else case frob_only_restriction sy restriction of
        Some required_delegate \<Rightarrow>
          (case frob_delegate v of
             None \<Rightarrow> kok False
           | Some value_delegate \<Rightarrow> identity_matches rd delegates value_delegate required_delegate)
      | None \<Rightarrow>
          kbind (if frob_delegate v = None then delegates_reaches rd delegates v restriction else kok False) (\<lambda>reached.
          if reached then kok True
          else case v of
            VIdentity i \<Rightarrow>
              kbind (identity_matches rd delegates i restriction) (\<lambda>b.
              if b then kok True else identity_matches rd delegates (primitive_prototype_for_value v) restriction)
          | VFrob delegate _ \<Rightarrow>
              kbind (identity_matches rd delegates delegate restriction) (\<lambda>b.
              if b then kok True else identity_matches rd delegates FROB_PROTOTYPE restriction)
          | _ \<Rightarrow> identity_matches rd delegates (primitive_prototype_for_value v) restriction))"

definition restriction_implies :: "dispatch_symbols \<Rightarrow> reader \<Rightarrow> identity \<Rightarrow> val \<Rightarrow> val \<Rightarrow> (val, bool) kresult" where
  "restriction_implies sy rd delegates specific general =
     (if specific = general \<or> general = unrestricted_marker sy then kok True
      else if specific = unrestricted_marker sy then kok False
      else matches_restriction sy rd delegates specific general)"

text \<open>Loops that return early: \<open>for x in xs { if !p(x)? { return Ok(false) } } Ok(true)\<close> and its like.\<close>

fun all_k :: "('a \<Rightarrow> (val, bool) kresult) \<Rightarrow> 'a list \<Rightarrow> (val, bool) kresult" where
  "all_k p [] = kok True"
| "all_k p (x # xs) = kbind (p x) (\<lambda>b. if b then all_k p xs else kok False)"

fun any_k :: "('a \<Rightarrow> (val, bool) kresult) \<Rightarrow> 'a list \<Rightarrow> (val, bool) kresult" where
  "any_k p [] = kok False"
| "any_k p (x # xs) = kbind (p x) (\<lambda>b. if b then kok True else any_k p xs)"

fun filter_k :: "('a \<Rightarrow> (val, bool) kresult) \<Rightarrow> 'a list \<Rightarrow> (val, 'a list) kresult" where
  "filter_k p [] = kok []"
| "filter_k p (x # xs) = kbind (p x) (\<lambda>b. kbind (filter_k p xs) (\<lambda>rest. kok (if b then x # rest else rest)))"

section \<open>Applicability\<close>

type_synonym roles = "(val \<times> val) list"

definition role_value :: "roles \<Rightarrow> val \<Rightarrow> val option" where
  "role_value roles role = map_of roles role"

definition normalize_dispatch_roles :: "roles \<Rightarrow> roles" where
  "normalize_dispatch_roles = sort_by (\<lambda>l r. then_cmp (val_cmp (fst l) (fst r)) (val_cmp (snd l) (snd r)))"

text \<open>The value a parameter takes from the roles; \<open>None\<close> when there is none it can take.\<close>

definition param_value :: "dispatch_symbols \<Rightarrow> roles \<Rightarrow> tuple \<Rightarrow> val option" where
  "param_value sy roles param =
     (case (parameter_mode sy param, role_value roles (param ! 1)) of
        (Some ModeOptional, v) \<Rightarrow> Some (case v of Some x \<Rightarrow> x | None \<Rightarrow> param ! 5)
      | (Some ModeRest, None) \<Rightarrow> Some (VList [])
      | (Some ModeRest, Some v) \<Rightarrow> if list_len v = None then None else Some v
      | (_, v) \<Rightarrow> v)"

definition params_match :: "dispatch_symbols \<Rightarrow> reader \<Rightarrow> identity \<Rightarrow> roles \<Rightarrow> tuple list \<Rightarrow> (val, bool) kresult" where
  "params_match sy rd delegates roles params =
     (case ordered_params params of
        None \<Rightarrow> kok False
      | Some sorted_params \<Rightarrow>
          if parameter_layout sy sorted_params = None then kok False
          else all_k (\<lambda>param.
                 case param_value sy roles param of
                   None \<Rightarrow> kok False
                 | Some v \<Rightarrow> matches_restriction sy rd delegates v (param ! 2)) sorted_params)"

fun call_args_loop :: "dispatch_symbols \<Rightarrow> roles \<Rightarrow> tuple list \<Rightarrow> val list option" where
  "call_args_loop sy roles [] = Some []"
| "call_args_loop sy roles (param # params) =
     (case (parameter_mode sy param, role_value roles (param ! 1)) of
        (Some ModeRequired, Some v) \<Rightarrow> map_option ((#) v) (call_args_loop sy roles params)
      | (Some ModeOptional, v) \<Rightarrow>
          map_option ((#) (case v of Some x \<Rightarrow> x | None \<Rightarrow> param ! 5)) (call_args_loop sy roles params)
      | (Some ModeRest, Some v) \<Rightarrow>
          if list_len v \<noteq> None then map_option ((#) v) (call_args_loop sy roles params) else None
      | (Some ModeRest, None) \<Rightarrow> map_option ((#) (VList [])) (call_args_loop sy roles params)
      | _ \<Rightarrow> None)"

definition method_call_args_from_params :: "dispatch_symbols \<Rightarrow> tuple list \<Rightarrow> roles \<Rightarrow> val list option" where
  "method_call_args_from_params sy params roles =
     (case ordered_params params of
        None \<Rightarrow> None
      | Some sorted_params \<Rightarrow>
          if parameter_layout sy sorted_params = None then None else call_args_loop sy roles sorted_params)"

definition named_method_args :: "dispatch_symbols \<Rightarrow> tuple list \<Rightarrow> roles \<Rightarrow> val list option" where
  "named_method_args = method_call_args_from_params"

text \<open>\<open>None\<close> outside is the failed assertion of \<open>bind_arguments\<close>.\<close>

definition positional_method_args :: "dispatch_symbols \<Rightarrow> tuple list \<Rightarrow> val list \<Rightarrow> roles option option" where
  "positional_method_args sy params args =
     (case ordered_params params of
        None \<Rightarrow> Some None
      | Some sorted_params \<Rightarrow>
          (case parameter_layout sy sorted_params of
             None \<Rightarrow> Some None
           | Some (required, fixed, rest) \<Rightarrow>
               if length args < required \<or> \<not> rest \<and> length args > fixed then Some None
               else case positional_binding sy sorted_params of
                 None \<Rightarrow> Some None
               | Some b \<Rightarrow>
                   (case bind_arguments \<lparr>pm_method = VRelation [] [[]], pm_binding = b\<rparr> args of
                      None \<Rightarrow> None
                    | Some bound \<Rightarrow> Some (Some (zip (map (\<lambda>param. param ! 1) sorted_params) bound)))))"

definition positional_params_match ::
  "dispatch_symbols \<Rightarrow> reader \<Rightarrow> identity \<Rightarrow> val list \<Rightarrow> tuple list \<Rightarrow> (val, bool) kresult" where
  "positional_params_match sy rd delegates args params =
     (case ordered_params params of
        None \<Rightarrow> kok False
      | Some sorted_params \<Rightarrow>
          (case parameter_layout sy sorted_params of
             None \<Rightarrow> kok False
           | Some (required, fixed, rest) \<Rightarrow>
               if length args < required \<or> \<not> rest \<and> length args > fixed then kok False
               else
                 kbind (all_k (\<lambda>(position, param).
                          matches_restriction sy rd delegates
                            (if position < length args then args ! position else param ! 5) (param ! 2))
                        (enumerate 0 (take fixed sorted_params))) (\<lambda>b.
                 if \<not> b then kok False
                 else if rest \<and> sorted_params ! fixed ! 2 \<noteq> unrestricted_marker sy then
                   matches_restriction sy rd delegates (VList (drop fixed args)) (sorted_params ! fixed ! 2)
                 else kok True)))"

section \<open>Candidates\<close>

fun collect_candidates :: "reader \<Rightarrow> dispatch_relations \<Rightarrow> tuple list \<Rightarrow> (val, applicable_method list) kresult" where
  "collect_candidates rd rels [] = kok []"
| "collect_candidates rd rels (row # rows) =
     (case field row 0 of
        None \<Rightarrow> None
      | Some m \<Rightarrow>
          kbind (Some (rd_visit rd (dr_param rels) [Some m, None, None, None, None, None])) (\<lambda>params.
          kbind (collect_candidates rd rels rows) (\<lambda>rest.
          kok (\<lparr>am_method = m, am_params = params\<rparr> # rest))))"

definition by_method :: "applicable_method \<Rightarrow> applicable_method \<Rightarrow> ordering" where
  "by_method l r = val_cmp (am_method l) (am_method r)"

definition scan_method_candidates :: "reader \<Rightarrow> dispatch_relations \<Rightarrow> val \<Rightarrow> (val, applicable_method list) kresult" where
  "scan_method_candidates rd rels selector =
     kbind (Some (rd_visit rd (dr_method_selector rels) [None, Some selector])) (\<lambda>rows.
     kbind (collect_candidates rd rels rows) (\<lambda>ms.
     kok (sort_by by_method ms)))"

definition filter_method_candidates ::
  "dispatch_symbols \<Rightarrow> reader \<Rightarrow> dispatch_relations \<Rightarrow> roles \<Rightarrow> applicable_method list \<Rightarrow> (val, applicable_method list) kresult" where
  "filter_method_candidates sy rd rels roles =
     filter_k (\<lambda>candidate. params_match sy rd (dr_delegates rels) roles (am_params candidate))"

section \<open>Specificity\<close>

definition param_for_role :: "tuple list \<Rightarrow> val \<Rightarrow> tuple option" where
  "param_for_role params role = find (\<lambda>param. param ! 1 = role) params"

definition optional_unrestricted :: "dispatch_symbols \<Rightarrow> tuple \<Rightarrow> bool" where
  "optional_unrestricted sy param \<longleftrightarrow> parameter_mode sy param = Some ModeOptional \<and> param ! 2 = unrestricted_marker sy"

text \<open>The comparison of two restrictions: whether the left implies the right, and whether strictly.\<close>

definition compare_restrictions ::
  "dispatch_symbols \<Rightarrow> reader \<Rightarrow> identity \<Rightarrow> tuple \<Rightarrow> tuple \<Rightarrow> bool \<Rightarrow> (bool \<Rightarrow> (val, bool) kresult) \<Rightarrow> (val, bool) kresult" where
  "compare_restrictions sy rd delegates left right stricter continue =
     kbind (restriction_implies sy rd delegates (left ! 2) (right ! 2)) (\<lambda>implied.
     if \<not> implied then kok False
     else kbind (restriction_implies sy rd delegates (right ! 2) (left ! 2)) (\<lambda>converse.
       continue (stricter \<or> \<not> converse)))"

fun named_loop :: "dispatch_symbols \<Rightarrow> reader \<Rightarrow> identity \<Rightarrow> tuple list \<Rightarrow> bool \<Rightarrow> tuple list \<Rightarrow> (val, bool) kresult" where
  "named_loop sy rd delegates left stricter [] = kok stricter"
| "named_loop sy rd delegates left stricter (right_param # right) =
     (case param_for_role left (right_param ! 1) of
        None \<Rightarrow>
          if optional_unrestricted sy right_param then named_loop sy rd delegates left stricter right else kok False
      | Some left_param \<Rightarrow>
          (let lm = parameter_mode sy left_param; rm = parameter_mode sy right_param;
               tighter = (lm = Some ModeRequired \<and> rm = Some ModeOptional) in
           if \<not> tighter \<and> lm \<noteq> rm then kok False
           else compare_restrictions sy rd delegates left_param right_param (stricter \<or> tighter)
                  (\<lambda>s. named_loop sy rd delegates left s right)))"

definition named_method_more_specific ::
  "dispatch_symbols \<Rightarrow> reader \<Rightarrow> identity \<Rightarrow> applicable_method \<Rightarrow> applicable_method \<Rightarrow> (val, bool) kresult" where
  "named_method_more_specific sy rd delegates left right =
     named_loop sy rd delegates (am_params left)
       (\<exists>param \<in> set (am_params left). param_for_role (am_params right) (param ! 1) = None \<and> \<not> optional_unrestricted sy param)
       (am_params right)"

fun positional_loop ::
  "dispatch_symbols \<Rightarrow> reader \<Rightarrow> identity \<Rightarrow> tuple list \<Rightarrow> usize \<Rightarrow> bool \<Rightarrow> usize \<Rightarrow> bool \<Rightarrow> (nat \<times> tuple) list \<Rightarrow> (val, bool) kresult" where
  "positional_loop sy rd delegates left left_fixed left_rest right_fixed stricter [] = kok stricter"
| "positional_loop sy rd delegates left left_fixed left_rest right_fixed stricter ((position, right_param) # right) =
     (if position \<ge> length left then
        if left_rest \<and> right_param ! 2 \<noteq> unrestricted_marker sy then kok False
        else positional_loop sy rd delegates left left_fixed left_rest right_fixed stricter right
      else if position \<ge> left_fixed \<and> position < right_fixed then
        if right_param ! 2 \<noteq> unrestricted_marker sy then kok False
        else positional_loop sy rd delegates left left_fixed left_rest right_fixed stricter right
      else compare_restrictions sy rd delegates (left ! position) right_param stricter
             (\<lambda>s. positional_loop sy rd delegates left left_fixed left_rest right_fixed s right))"

definition positional_method_more_specific ::
  "dispatch_symbols \<Rightarrow> reader \<Rightarrow> identity \<Rightarrow> applicable_method \<Rightarrow> applicable_method \<Rightarrow> (val, bool) kresult" where
  "positional_method_more_specific sy rd delegates left right =
     (case (ordered_params (am_params left), ordered_params (am_params right)) of
        (Some left_params, Some right_params) \<Rightarrow>
          (case (parameter_layout sy left_params, parameter_layout sy right_params) of
             (Some (left_required, left_fixed, left_rest), Some (right_required, right_fixed, right_rest)) \<Rightarrow>
               if left_required < right_required \<or> \<not> right_rest \<and> (left_rest \<or> left_fixed > right_fixed) then kok False
               else if right_rest \<and> right_params ! right_fixed ! 2 \<noteq> unrestricted_marker sy \<and> (\<not> left_rest \<or> left_fixed \<noteq> right_fixed)
               then kok False
               else positional_loop sy rd delegates left_params left_fixed left_rest right_fixed
                      (left_required > right_required \<or> \<not> left_rest \<and> (right_rest \<or> left_fixed < right_fixed))
                      (enumerate 0 right_params)
           | _ \<Rightarrow> kok False)
      | _ \<Rightarrow> kok False)"

definition dominated_by ::
  "(applicable_method \<Rightarrow> applicable_method \<Rightarrow> (val, bool) kresult) \<Rightarrow> applicable_method list \<Rightarrow> applicable_method \<Rightarrow> (val, bool) kresult" where
  "dominated_by more_specific ms candidate =
     any_k (\<lambda>other. if am_method candidate = am_method other then kok False else more_specific other candidate) ms"

definition undominated ::
  "(applicable_method \<Rightarrow> applicable_method \<Rightarrow> (val, bool) kresult) \<Rightarrow> applicable_method list \<Rightarrow> (val, applicable_method list) kresult" where
  "undominated more_specific ms =
     (if length ms \<le> 1 then kok ms
      else filter_k (\<lambda>candidate. kbind (dominated_by more_specific ms candidate) (\<lambda>b. kok (\<not> b))) ms)"

definition prune_named_methods ::
  "dispatch_symbols \<Rightarrow> reader \<Rightarrow> identity \<Rightarrow> applicable_method list \<Rightarrow> (val, applicable_method list) kresult" where
  "prune_named_methods sy rd delegates ms = undominated (named_method_more_specific sy rd delegates) ms"

definition prune_positional_methods ::
  "dispatch_symbols \<Rightarrow> reader \<Rightarrow> identity \<Rightarrow> applicable_method list \<Rightarrow> (val, applicable_method list) kresult" where
  "prune_positional_methods sy rd delegates ms = undominated (positional_method_more_specific sy rd delegates) ms"

section \<open>Resolution\<close>

definition applicable_method_entries_scan ::
  "dispatch_symbols \<Rightarrow> reader \<Rightarrow> dispatch_relations \<Rightarrow> val \<Rightarrow> roles \<Rightarrow> (val, applicable_method list) kresult" where
  "applicable_method_entries_scan sy rd rels selector roles =
     kbind (scan_method_candidates rd rels selector) (\<lambda>candidates.
     kbind (filter_method_candidates sy rd rels roles candidates) (\<lambda>matched.
     prune_named_methods sy rd (dr_delegates rels) matched))"

definition applicable_methods :: "dispatch_symbols \<Rightarrow> reader \<Rightarrow> dispatch_relations \<Rightarrow> val \<Rightarrow> roles \<Rightarrow> (val, val list) kresult" where
  "applicable_methods sy rd rels selector roles =
     kbind (applicable_method_entries_scan sy rd rels selector roles) (\<lambda>entries. kok (map am_method entries))"

definition call_of_entry :: "dispatch_symbols \<Rightarrow> roles \<Rightarrow> applicable_method \<Rightarrow> applicable_method_call" where
  "call_of_entry sy roles entry =
     \<lparr>ac_method = am_method entry, ac_args = method_call_args_from_params sy (am_params entry) roles\<rparr>"

record positional_resolution =
  pr_methods :: "positional_method list"
  pr_argument_independent :: bool

text \<open>\<open>&=\<close> evaluates its right operand always; \<open>all\<close> stops at the first restricted parameter.\<close>

fun all_unrestricted :: "dispatch_symbols \<Rightarrow> tuple list \<Rightarrow> bool option" where
  "all_unrestricted sy [] = Some True"
| "all_unrestricted sy (param # params) =
     (case field param 2 of
        None \<Rightarrow> None
      | Some r \<Rightarrow> if r = unrestricted_marker sy then all_unrestricted sy params else Some False)"

fun positional_candidates ::
  "dispatch_symbols \<Rightarrow> reader \<Rightarrow> identity \<Rightarrow> val list \<Rightarrow> applicable_method list \<Rightarrow> bool \<Rightarrow> (val, applicable_method list \<times> bool) kresult" where
  "positional_candidates sy rd delegates args [] indep = kok ([], indep)"
| "positional_candidates sy rd delegates args (candidate # candidates) indep =
     (case all_unrestricted sy (am_params candidate) of
        None \<Rightarrow> None
      | Some u \<Rightarrow>
          kbind (positional_params_match sy rd delegates args (am_params candidate)) (\<lambda>b.
          kbind (positional_candidates sy rd delegates args candidates (indep \<and> u)) (\<lambda>(rest, i).
          kok (if b then candidate # rest else rest, i))))"

text \<open>\<open>dedup_by\<close> keeps the first of a run of entries with one method.\<close>

fun dedup_methods :: "applicable_method list \<Rightarrow> applicable_method list" where
  "dedup_methods (a # b # ms) =
     (if am_method b = am_method a then dedup_methods (a # ms) else a # dedup_methods (b # ms))"
| "dedup_methods ms = ms"

fun with_bindings :: "dispatch_symbols \<Rightarrow> applicable_method list \<Rightarrow> positional_method list option" where
  "with_bindings sy [] = Some []"
| "with_bindings sy (entry # entries) =
     (case ordered_params (am_params entry) of
        None \<Rightarrow> None
      | Some params \<Rightarrow>
          (case positional_binding sy params of
             None \<Rightarrow> None
           | Some b \<Rightarrow> map_option ((#) \<lparr>pm_method = am_method entry, pm_binding = b\<rparr>) (with_bindings sy entries)))"

definition filter_positional_candidates ::
  "dispatch_symbols \<Rightarrow> reader \<Rightarrow> dispatch_relations \<Rightarrow> val list \<Rightarrow> applicable_method list \<Rightarrow> (val, positional_resolution) kresult" where
  "filter_positional_candidates sy rd rels args candidates =
     kbind (positional_candidates sy rd (dr_delegates rels) args candidates True) (\<lambda>(ms, indep).
     kbind (prune_positional_methods sy rd (dr_delegates rels) (dedup_methods (sort_by by_method ms))) (\<lambda>pruned.
     case with_bindings sy pruned of
       None \<Rightarrow> None
     | Some bound \<Rightarrow> kok \<lparr>pr_methods = bound, pr_argument_independent = indep\<rparr>))"

definition resolve_positional_methods ::
  "dispatch_symbols \<Rightarrow> reader \<Rightarrow> dispatch_relations \<Rightarrow> val \<Rightarrow> val list \<Rightarrow> (val, positional_resolution) kresult" where
  "resolve_positional_methods sy rd rels selector args =
     kbind (scan_method_candidates rd rels selector) (\<lambda>candidates.
     filter_positional_candidates sy rd rels args candidates)"

definition applicable_positional_methods ::
  "dispatch_symbols \<Rightarrow> reader \<Rightarrow> dispatch_relations \<Rightarrow> val \<Rightarrow> val list \<Rightarrow> (val, val list) kresult" where
  "applicable_positional_methods sy rd rels selector args =
     kbind (resolve_positional_methods sy rd rels selector args) (\<lambda>resolved. kok (map pm_method (pr_methods resolved)))"

text \<open>The program of a method: the visitor stops at the first row.\<close>

definition method_program_id_uncached :: "reader \<Rightarrow> identity \<Rightarrow> val \<Rightarrow> (val, val option) kresult" where
  "method_program_id_uncached rd relation m =
     kbind (Some (rd_visit rd relation [Some m, None])) (\<lambda>rows.
     case rows of
       [] \<Rightarrow> kok None
     | row # _ \<Rightarrow> (case field row 1 of None \<Rightarrow> None | Some program \<Rightarrow> kok (Some program)))"

end
