(* ===== verification/DispatchProofs.thy ===== *)
theory DispatchProofs
  imports Dispatch RuleTotal
begin

text \<open>
  Proofs about dispatch: the traversal of delegation ends and computes the transitive closure; with a
  reader that answers no step of a resolution panics or fails, and its results are those of a
  reference written over the closure; the same method and arguments are found by position and by role.
\<close>

section \<open>Results without errors\<close>

lemma kbind_kok [simp]: "kbind (kok x) f = f x"
  by (simp add: kbind_def kok_def)

lemma kbind_SomeInr [simp]: "kbind (Some (Inr x)) f = f x"
  by (simp add: kbind_def)

lemma kok_inject [simp]: "kok x = kok y \<longleftrightarrow> x = y"
  by (simp add: kok_def)

lemma if_kok: "(if c then kok x else kok y) = kok (if c then x else y)"
  by simp

lemma all_k_kok: "(\<And>x. x \<in> set xs \<Longrightarrow> p x = kok (P x)) \<Longrightarrow> all_k p xs = kok (\<forall>x \<in> set xs. P x)"
  by (induction xs) auto

lemma any_k_kok: "(\<And>x. x \<in> set xs \<Longrightarrow> p x = kok (P x)) \<Longrightarrow> any_k p xs = kok (\<exists>x \<in> set xs. P x)"
  by (induction xs) auto

lemma filter_k_kok: "(\<And>x. x \<in> set xs \<Longrightarrow> p x = kok (P x)) \<Longrightarrow> filter_k p xs = kok (filter P xs)"
  by (induction xs) auto

section \<open>Delegation\<close>

definition delegation :: "(identity \<Rightarrow> tuple set) \<Rightarrow> identity \<Rightarrow> (val \<times> val) set" where
  "delegation M d = (\<lambda>t. (t ! 0, t ! 1)) ` M d"

text \<open>The rows visited for a child, and the state of an exploration.\<close>

definition edges_from :: "(val \<times> val) set \<Rightarrow> val \<Rightarrow> tuple list \<Rightarrow> bool" where
  "edges_from E c edges \<longleftrightarrow> (\<forall>e \<in> set edges. 1 < length e) \<and> (\<lambda>e. e ! 1) ` set edges = E `` {c}"

definition explored :: "(val \<times> val) set \<Rightarrow> val \<Rightarrow> val list \<Rightarrow> val list \<Rightarrow> bool" where
  "explored E child seen frontier \<longleftrightarrow>
     set frontier \<subseteq> insert child (set seen) \<and> set seen \<subseteq> E\<^sup>+ `` {child} \<and>
     (\<forall>x \<in> insert child (set seen) - set frontier. E `` {x} \<subseteq> set seen)"

lemma explored_init: "explored E child [] [child]"
  by (simp add: explored_def)

lemma explored_end:
  assumes "explored E child seen []"
  shows "set seen = E\<^sup>+ `` {child}"
proof -
  have closed: "E `` {x} \<subseteq> set seen" if "x \<in> insert child (set seen)" for x using assms that by (auto simp: explored_def)
  have "y \<in> set seen" if "(child, y) \<in> E\<^sup>+" for y
    using that by (induction rule: trancl_induct) (use closed in blast)+
  then show ?thesis using assms by (auto simp: explored_def)
qed

lemma push_edges_ok:
  assumes "\<forall>e \<in> set edges. 1 < length e" "(\<lambda>e. e ! 1) ` set edges \<subseteq> P" "finite P"
  shows "\<exists>seen' frontier'. push_edges edges seen frontier = Some (seen', frontier') \<and>
    set seen' = set seen \<union> (\<lambda>e. e ! 1) ` set edges \<and> set frontier \<subseteq> set frontier' \<and> set frontier' \<subseteq> set frontier \<union> set seen' \<and>
    set seen' - set seen \<subseteq> set frontier' \<and> (distinct seen \<longrightarrow> distinct seen') \<and>
    card (P - set seen') + length frontier' = card (P - set seen) + length frontier"
  using assms
proof (induction edges arbitrary: seen frontier)
  case (Cons e edges)
  let ?p = "e ! 1"
  have f: "field e 1 = Some ?p" using Cons.prems by (simp add: field_def)
  have pre: "\<forall>e \<in> set edges. 1 < length e" "(\<lambda>e. e ! 1) ` set edges \<subseteq> P" "?p \<in> P" using Cons.prems by auto
  show ?case
  proof (cases "?p \<in> set seen")
    case True
    obtain s f' where r: "push_edges edges seen frontier = Some (s, f')"
      "set s = set seen \<union> (\<lambda>e. e ! 1) ` set edges" "set frontier \<subseteq> set f'" "set f' \<subseteq> set frontier \<union> set s"
      "set s - set seen \<subseteq> set f'" "distinct seen \<longrightarrow> distinct s" "card (P - set s) + length f' = card (P - set seen) + length frontier"
      using Cons.IH [OF pre(1,2) assms(3), of seen frontier] by blast
    show ?thesis by (rule exI [of _ s], rule exI [of _ f']) (use f True r in auto)
  next
    case False
    obtain s f' where r: "push_edges edges (?p # seen) (?p # frontier) = Some (s, f')"
      "set s = set (?p # seen) \<union> (\<lambda>e. e ! 1) ` set edges" "set (?p # frontier) \<subseteq> set f'" "set f' \<subseteq> set (?p # frontier) \<union> set s"
      "set s - set (?p # seen) \<subseteq> set f'" "distinct (?p # seen) \<longrightarrow> distinct s"
      "card (P - set s) + length f' = card (P - set (?p # seen)) + length (?p # frontier)"
      using Cons.IH [OF pre(1,2) assms(3), of "?p # seen" "?p # frontier"] by blast
    have "P - set seen = insert ?p (P - set (?p # seen))" "?p \<notin> P - set (?p # seen)" using False pre(3) by auto
    then have "card (P - set seen) = Suc (card (P - set (?p # seen)))" using assms(3) by (metis card_insert_disjoint finite_Diff)
    then have m: "card (P - set s) + length f' = card (P - set seen) + length frontier" using r(7) by simp
    show ?thesis by (rule exI [of _ s], rule exI [of _ f']) (use f False r(1-6) m in auto)
  qed
qed auto

lemma visit_edges_push:
  "\<forall>e \<in> set edges. 1 < length e \<Longrightarrow> a \<notin> (\<lambda>e. e ! 1) ` set edges \<Longrightarrow>
     visit_edges a edges seen frontier = map_option (Pair False) (push_edges edges seen frontier)"
  by (induction edges arbitrary: seen frontier) (auto simp: field_def)

lemma visit_edges_found:
  "\<forall>e \<in> set edges. 1 < length e \<Longrightarrow> a \<in> (\<lambda>e. e ! 1) ` set edges \<Longrightarrow>
     \<exists>res. visit_edges a edges seen frontier = Some (True, res)"
  by (induction edges arbitrary: seen frontier) (auto simp: field_def)

text \<open>One step of an exploration.\<close>

lemma explored_step:
  assumes "explored E child seen (c # frontier)" "edges_from E c edges" "finite (Range E)"
  obtains seen' frontier' where "push_edges edges seen frontier = Some (seen', frontier')" "explored E child seen' frontier'"
    "set seen' = set seen \<union> E `` {c}" "distinct seen \<longrightarrow> distinct seen'"
    "card (Range E - set seen') + length frontier' < card (Range E - set seen) + length (c # frontier)"
proof -
  have e: "\<forall>e \<in> set edges. 1 < length e" "(\<lambda>e. e ! 1) ` set edges = E `` {c}" using assms(2) by (auto simp: edges_from_def)
  then have P: "(\<lambda>e. e ! 1) ` set edges \<subseteq> Range E" by auto
  obtain s f where r: "push_edges edges seen frontier = Some (s, f)"
    "set s = set seen \<union> E `` {c}" "set frontier \<subseteq> set f" "set f \<subseteq> set frontier \<union> set s" "set s - set seen \<subseteq> set f"
    "distinct seen \<longrightarrow> distinct s" "card (Range E - set s) + length f = card (Range E - set seen) + length frontier"
    using push_edges_ok [OF e(1) P assms(3), of seen frontier] unfolding e(2) by blast
  have x: "set (c # frontier) \<subseteq> insert child (set seen)" "set seen \<subseteq> E\<^sup>+ `` {child}"
    "\<And>x. x \<in> insert child (set seen) - set (c # frontier) \<Longrightarrow> E `` {x} \<subseteq> set seen" using assms(1) by (simp_all add: explored_def)
  have c: "c = child \<or> (child, c) \<in> E\<^sup>+" using x(1,2) by auto
  have "explored E child s f" unfolding explored_def
  proof (intro conjI ballI)
    show "set f \<subseteq> insert child (set s)" using r(2,4) x(1) by auto
    show "set s \<subseteq> E\<^sup>+ `` {child}" using r(2) x(2) c by (auto intro: trancl_into_trancl)
    show "E `` {y} \<subseteq> set s" if "y \<in> insert child (set s) - set f" for y
    proof (cases "y = c")
      case False
      then have "y \<in> insert child (set seen) - set (c # frontier)" using that r(3,5) by auto
      then show ?thesis using x(3) r(2) by blast
    qed (use r(2) in simp)
  qed
  then show thesis using that r by simp
qed

lemma reaches_loop_ok:
  assumes visits: "\<And>c. \<exists>edges. rd_visit rd d [Some c, None, None] = Inr edges \<and> edges_from E c edges" and "finite (Range E)"
  shows "explored E child seen frontier \<Longrightarrow> a \<notin> set seen \<Longrightarrow> reaches_loop rd d a seen frontier = kok ((child, a) \<in> E\<^sup>+)"
proof (induction "card (Range E - set seen) + length frontier" arbitrary: seen frontier rule: less_induct)
  case less
  show ?case
  proof (cases frontier)
    case Nil
    then have "(child, a) \<notin> E\<^sup>+" using explored_end less.prems by auto
    then show ?thesis using Nil by (subst reaches_loop.simps) (simp add: kok_def)
  next
    case (Cons c fr)
    obtain edges where v: "rd_visit rd d [Some c, None, None] = Inr edges" "edges_from E c edges" using visits by blast
    then have len: "\<forall>e \<in> set edges. 1 < length e" and im: "(\<lambda>e. e ! 1) ` set edges = E `` {c}" by (auto simp: edges_from_def)
    have reach: "c = child \<or> (child, c) \<in> E\<^sup>+" using less.prems(1) Cons by (auto simp: explored_def)
    show ?thesis
    proof (cases "a \<in> E `` {c}")
      case True
      then have "a \<in> (\<lambda>e. e ! 1) ` set edges" unfolding im .
      then obtain res where "visit_edges a edges seen fr = Some (True, res)" using visit_edges_found [OF len] by blast
      moreover have "(child, a) \<in> E\<^sup>+" using True reach by (auto intro: trancl_into_trancl)
      ultimately show ?thesis using Cons v(1) by (subst reaches_loop.simps) (simp add: kok_def)
    next
      case False
      obtain s f where st: "push_edges edges seen fr = Some (s, f)" "explored E child s f" "set s = set seen \<union> E `` {c}"
        "card (Range E - set s) + length f < card (Range E - set seen) + length (c # fr)"
        by (rule explored_step [OF less.prems(1) [unfolded Cons] v(2) assms(2)])
      have "visit_edges a edges seen fr = Some (False, s, f)" using visit_edges_push [OF len] False im st(1) by simp
      then have "reaches_loop rd d a seen frontier = reaches_loop rd d a s f" using Cons v(1) by (subst reaches_loop.simps) simp
      also have "\<dots> = kok ((child, a) \<in> E\<^sup>+)"
        by (rule less.hyps [OF _ st(2)]) (use st(3,4) False less.prems(2) Cons in simp_all)
      finally show ?thesis .
    qed
  qed
qed

lemma star_loop_ok:
  assumes scans: "\<And>c. \<exists>edges. rd_scan rd d [Some c, None, None] = Inr edges \<and> edges_from E c edges" and "finite (Range E)"
  shows "explored E child seen frontier \<Longrightarrow> distinct seen \<Longrightarrow>
    \<exists>protos. star_loop rd d seen frontier = kok protos \<and> set protos = E\<^sup>+ `` {child} \<and> distinct protos"
proof (induction "card (Range E - set seen) + length frontier" arbitrary: seen frontier rule: less_induct)
  case less
  show ?case
  proof (cases frontier)
    case Nil
    then show ?thesis using explored_end less.prems by (subst star_loop.simps) (auto simp: kok_def)
  next
    case (Cons c fr)
    obtain edges where v: "rd_scan rd d [Some c, None, None] = Inr edges" "edges_from E c edges" using scans by blast
    obtain s f where st: "push_edges edges seen fr = Some (s, f)" "explored E child s f" "distinct seen \<longrightarrow> distinct s"
      "card (Range E - set s) + length f < card (Range E - set seen) + length (c # fr)"
      by (rule explored_step [OF less.prems(1) [unfolded Cons] v(2) assms(2)])
    have "star_loop rd d seen frontier = star_loop rd d s f" using Cons v(1) st(1) by (subst star_loop.simps) simp
    then show ?thesis using less.hyps [of s f] st less.prems(2) Cons by simp
  qed
qed

section \<open>Readers of the dispatch relations\<close>

text \<open>
  The reader answers every read with the rows of \<open>M\<close>, the dispatch relations have the arities the
  code reads them with, and the delegation relation is finite.
\<close>

definition dispatch_reads :: "(identity \<Rightarrow> nat) \<Rightarrow> reader \<Rightarrow> (identity \<Rightarrow> tuple set) \<Rightarrow> dispatch_relations \<Rightarrow> bool" where
  "dispatch_reads ar rd M rels \<longleftrightarrow> reads ar rd M \<and> answers ar rd \<and> ar (dr_method_selector rels) = 2 \<and> ar (dr_param rels) = 6 \<and>
     ar (dr_delegates rels) = 3 \<and> finite (M (dr_delegates rels))"

lemma matches_child: "matches_bindings t [Some c, None, None] \<longleftrightarrow> t ! 0 = c"
  by (auto simp: matches_bindings_def less_Suc_eq numeral_3_eq_3)

lemma matches_selector: "matches_bindings t [None, Some s] \<longleftrightarrow> t ! 1 = s"
  by (auto simp: matches_bindings_def less_Suc_eq)

lemma matches_param: "matches_bindings t [Some m, None, None, None, None, None] \<longleftrightarrow> t ! 0 = m"
proof -
  have "[Some m, None, None, None, None, None] ! i = (if i = 0 then Some m else None)" if "i < 6" for i
    using that by (auto simp: less_Suc_eq eval_nat_numeral)
  then show ?thesis by (auto simp: matches_bindings_def split: if_splits)
qed

lemma dispatch_readsD:
  assumes "dispatch_reads ar rd M rels"
  shows "\<exists>edges. rd_visit rd (dr_delegates rels) [Some c, None, None] = Inr edges \<and> edges_from (delegation M (dr_delegates rels)) c edges"
    "\<exists>edges. rd_scan rd (dr_delegates rels) [Some c, None, None] = Inr edges \<and> edges_from (delegation M (dr_delegates rels)) c edges"
    "finite (Range (delegation M (dr_delegates rels)))"
    "\<exists>rows. rd_visit rd (dr_method_selector rels) [None, Some s] = Inr rows \<and> set rows = {t \<in> M (dr_method_selector rels). t ! 1 = s}"
    "\<exists>rows. rd_visit rd (dr_param rels) [Some m, None, None, None, None, None] = Inr rows \<and> set rows = {t \<in> M (dr_param rels). t ! 0 = m}"
    "t \<in> M (dr_method_selector rels) \<Longrightarrow> length t = 2" "t \<in> M (dr_param rels) \<Longrightarrow> length t = 6"
proof -
  note d = assms [unfolded dispatch_reads_def]
  have R: "reads ar rd M" and A: "answers ar rd" and ar: "ar (dr_method_selector rels) = 2" "ar (dr_param rels) = 6" "ar (dr_delegates rels) = 3"
    using d by blast+
  have ans: "\<exists>ts. rd_visit rd r bs = Inr ts" "\<exists>ts. rd_scan rd r bs = Inr ts" if "length bs = ar r" for r bs
    using A that unfolding answers_def by blast+
  have e: "edges_from (delegation M (dr_delegates rels)) c edges" if "set edges = matching_rows M (dr_delegates rels) [Some c, None, None]" for edges
    using that readsD(1) [OF R, of _ "dr_delegates rels"] ar(3) by (auto simp: edges_from_def matching_rows_def matches_child delegation_def)
  obtain v w where "rd_visit rd (dr_delegates rels) [Some c, None, None] = Inr v" "rd_scan rd (dr_delegates rels) [Some c, None, None] = Inr w"
    using ans [of "[Some c, None, None]" "dr_delegates rels"] ar(3) by auto
  then show "\<exists>edges. rd_visit rd (dr_delegates rels) [Some c, None, None] = Inr edges \<and> edges_from (delegation M (dr_delegates rels)) c edges"
    "\<exists>edges. rd_scan rd (dr_delegates rels) [Some c, None, None] = Inr edges \<and> edges_from (delegation M (dr_delegates rels)) c edges"
    using e readsD(2,3) [OF R, of "[Some c, None, None]" "dr_delegates rels"] ar(3) by auto
  show "finite (Range (delegation M (dr_delegates rels)))"
    using d by (simp add: delegation_def Range_snd)
  obtain v where "rd_visit rd (dr_method_selector rels) [None, Some s] = Inr v"
    using ans(1) [of "[None, Some s]" "dr_method_selector rels"] ar(1) by auto
  then show "\<exists>rows. rd_visit rd (dr_method_selector rels) [None, Some s] = Inr rows \<and> set rows = {t \<in> M (dr_method_selector rels). t ! 1 = s}"
    using readsD(2) [OF R, of "[None, Some s]" "dr_method_selector rels"] ar(1) by (simp add: matching_rows_def matches_selector)
  obtain v where "rd_visit rd (dr_param rels) [Some m, None, None, None, None, None] = Inr v"
    using ans(1) [of "[Some m, None, None, None, None, None]" "dr_param rels"] ar(2) by auto
  then show "\<exists>rows. rd_visit rd (dr_param rels) [Some m, None, None, None, None, None] = Inr rows \<and> set rows = {t \<in> M (dr_param rels). t ! 0 = m}"
    using readsD(2) [OF R, of "[Some m, None, None, None, None, None]" "dr_param rels"] ar(2) by (simp add: matching_rows_def matches_param)
  show "t \<in> M (dr_method_selector rels) \<Longrightarrow> length t = 2" "t \<in> M (dr_param rels) \<Longrightarrow> length t = 6"
    using readsD(1) [OF R] ar by metis+
qed

lemma delegates_reaches_ok:
  assumes "dispatch_reads ar rd M rels"
  shows "delegates_reaches rd (dr_delegates rels) c a = kok ((c, a) \<in> (delegation M (dr_delegates rels))\<^sup>+)"
  unfolding delegates_reaches_def
  by (rule reaches_loop_ok [OF dispatch_readsD(1,3) [OF assms]]) (simp_all add: explored_init)

section \<open>Restrictions\<close>

text \<open>A value fits a restriction: the reference for \<open>matches_restriction\<close>.\<close>

definition fits_restriction :: "dispatch_symbols \<Rightarrow> (val \<times> val) set \<Rightarrow> val \<Rightarrow> val \<Rightarrow> bool" where
  "fits_restriction sy E v r \<longleftrightarrow> r = unrestricted_marker sy \<or> v = r \<or>
     (case frob_only_restriction sy r of
        Some required \<Rightarrow> \<exists>delegate payload. v = VFrob delegate payload \<and> (VIdentity delegate, required) \<in> E\<^sup>*
      | None \<Rightarrow> (case v of VFrob delegate _ \<Rightarrow> (VIdentity delegate, r) \<in> E\<^sup>* | _ \<Rightarrow> (v, r) \<in> E\<^sup>+) \<or>
          (VIdentity (primitive_prototype_for_value v), r) \<in> E\<^sup>*)"

definition implies :: "dispatch_symbols \<Rightarrow> (val \<times> val) set \<Rightarrow> val \<Rightarrow> val \<Rightarrow> bool" where
  "implies sy E specific general \<longleftrightarrow>
     specific = general \<or> general = unrestricted_marker sy \<or> specific \<noteq> unrestricted_marker sy \<and> fits_restriction sy E specific general"

lemma identity_matches_ok:
  assumes "dispatch_reads ar rd M rels"
  shows "identity_matches rd (dr_delegates rels) i r = kok ((VIdentity i, r) \<in> (delegation M (dr_delegates rels))\<^sup>*)"
  by (simp add: identity_matches_def delegates_reaches_ok [OF assms] rtrancl_eq_or_trancl)

lemma matches_restriction_ok:
  assumes "dispatch_reads ar rd M rels"
  shows "matches_restriction sy rd (dr_delegates rels) v r = kok (fits_restriction sy (delegation M (dr_delegates rels)) v r)"
proof (cases "r = unrestricted_marker sy \<or> v = r")
  case False
  note facts = False matches_restriction_def fits_restriction_def frob_delegate_def identity_matches_ok [OF assms] delegates_reaches_ok [OF assms]
  show ?thesis
  proof (cases "frob_only_restriction sy r")
    case None
    then show ?thesis by (cases v) (auto simp: facts rtrancl_eq_or_trancl)
  qed (cases v; simp add: facts)
qed (auto simp: matches_restriction_def fits_restriction_def)

lemma restriction_implies_ok:
  assumes "dispatch_reads ar rd M rels"
  shows "restriction_implies sy rd (dr_delegates rels) s g = kok (implies sy (delegation M (dr_delegates rels)) s g)"
  by (simp add: restriction_implies_def implies_def matches_restriction_ok [OF assms])

section \<open>Layouts and bindings\<close>

lemma parameter_mode_length: "parameter_mode sy p = Some m \<Longrightarrow> length p = 6"
  by (simp add: parameter_mode_def split: if_splits)

lemma layout_loop_modes:
  "layout_loop sy pos req opt rest ps = Some (req', rest') \<Longrightarrow>
     (rest \<longrightarrow> ps = [] \<and> rest') \<and>
     (\<exists>k j. map (parameter_mode sy) ps = replicate k (Some ModeRequired) @ replicate j (Some ModeOptional) @ (if rest' \<and> \<not> rest then [Some ModeRest] else []) \<and>
        req' = req + k \<and> (opt \<longrightarrow> k = 0))"
proof (induction ps arbitrary: pos req opt rest)
  case (Cons p ps)
  have r: "\<not> rest" using Cons.prems by (auto split: option.splits if_splits)
  obtain mode where mode: "parameter_mode sy p = Some mode" using Cons.prems by (auto split: option.splits if_splits)
  show ?case
  proof (cases mode)
    case ModeRequired
    then have "layout_loop sy (pos + 1) (req + 1) opt rest ps = Some (req', rest')" and opt: "\<not> opt"
      using Cons.prems mode by (auto split: option.splits if_splits)
    from Cons.IH [OF this(1)] obtain k j where
      "map (parameter_mode sy) ps = replicate k (Some ModeRequired) @ replicate j (Some ModeOptional) @ (if rest' \<and> \<not> rest then [Some ModeRest] else [])"
      "req' = req + 1 + k" by blast
    then show ?thesis using r mode ModeRequired opt by (intro conjI exI [of _ "Suc k"] exI [of _ j]) auto
  next
    case ModeOptional
    then have "layout_loop sy (pos + 1) req True rest ps = Some (req', rest')" using Cons.prems mode by (auto split: option.splits if_splits)
    from Cons.IH [OF this] obtain j where
      "map (parameter_mode sy) ps = replicate j (Some ModeOptional) @ (if rest' \<and> \<not> rest then [Some ModeRest] else [])" "req' = req" by auto
    then show ?thesis using r mode ModeOptional by (intro conjI exI [of _ 0] exI [of _ "Suc j"]) auto
  next
    case ModeRest
    then have "layout_loop sy (pos + 1) req opt True ps = Some (req', rest')" using Cons.prems mode by (auto split: option.splits if_splits)
    from Cons.IH [OF this] have "ps = []" "rest'" "req' = req" by auto
    then show ?thesis using r mode ModeRest by (intro conjI exI [of _ 0]) auto
  qed
qed auto

lemma layoutD:
  assumes "parameter_layout sy ps = Some (required, fixed, rest)"
  shows "required \<le> fixed" "length ps = fixed + (if rest then 1 else 0)"
    "map (parameter_mode sy) ps =
       replicate required (Some ModeRequired) @ replicate (fixed - required) (Some ModeOptional) @ (if rest then [Some ModeRest] else [])"
proof -
  obtain req where l: "layout_loop sy 0 0 False False ps = Some (req, rest)" "required = req" "fixed = length ps - (if rest then 1 else 0)"
    using assms by (auto simp: parameter_layout_def split: option.splits)
  obtain k j where m: "map (parameter_mode sy) ps = replicate k (Some ModeRequired) @ replicate j (Some ModeOptional) @ (if rest then [Some ModeRest] else [])"
    "req = k" using layout_loop_modes [OF l(1)] by auto
  have "length ps = k + j + (if rest then 1 else 0)" using arg_cong [OF m(1), of length] by simp
  then show "required \<le> fixed" "length ps = fixed + (if rest then 1 else 0)"
    "map (parameter_mode sy) ps =
       replicate required (Some ModeRequired) @ replicate (fixed - required) (Some ModeOptional) @ (if rest then [Some ModeRest] else [])"
    using l(2,3) m by simp_all
qed

lemma layout_length:
  assumes "parameter_layout sy ps = Some (required, fixed, rest)" "p \<in> set ps"
  shows "length p = 6"
proof -
  have "parameter_mode sy p \<in> set (map (parameter_mode sy) ps)" using assms(2) by simp
  then have "parameter_mode sy p \<noteq> None" unfolding layoutD(3) [OF assms(1)] by auto
  then show ?thesis using parameter_mode_length by blast
qed

text \<open>The values bound to the parameters of a positional call: one for each parameter.\<close>

definition bound_values :: "usize \<Rightarrow> bool \<Rightarrow> val list \<Rightarrow> tuple list \<Rightarrow> val list" where
  "bound_values fixed rest args ps =
     map (\<lambda>i. if i < length args then args ! i else ps ! i ! 5) [0..<fixed] @ (if rest then [VList (drop fixed args)] else [])"

definition arity_ok :: "usize \<times> usize \<times> bool \<Rightarrow> val list \<Rightarrow> bool" where
  "arity_ok layout args \<longleftrightarrow> (case layout of (required, fixed, rest) \<Rightarrow> required \<le> length args \<and> (rest \<or> length args \<le> fixed))"

lemma fill_defaults:
  assumes "required \<le> n" "n = length args" "n \<le> fixed" "fixed \<le> length ps"
  shows "args @ drop (n - required) (map f (take (fixed - required) (drop required ps))) = map (\<lambda>i. if i < n then args ! i else f (ps ! i)) [0..<fixed]"
  by (rule nth_equalityI) (use assms in \<open>auto simp: nth_append\<close>)

lemma bind_arguments_ok:
  assumes "parameter_layout sy ps = Some (required, fixed, rest)" "arity_ok (required, fixed, rest) args"
  shows "\<exists>b. positional_binding sy ps = Some b \<and> bind_arguments \<lparr>pm_method = m, pm_binding = b\<rparr> args = Some (bound_values fixed rest args ps)"
proof (cases "required = fixed \<and> \<not> rest")
  case True
  then have "length args = fixed" using assms(2) by (simp add: arity_ok_def)
  then have "bound_values fixed rest args ps = args" using True by (auto simp: bound_values_def intro: nth_equalityI)
  then show ?thesis using True assms(1) by (simp add: positional_binding_def bind_arguments_def)
next
  case False
  note l = layoutD(1,2) [OF assms(1)]
  define D where "D = map (\<lambda>param. param ! 5) (take (fixed - required) (drop required ps))"
  let ?b = "\<lparr>ab_required = required, ab_defaults = D, ab_rest = rest\<rparr>"
  let ?vs = "map (\<lambda>i. if i < length args then args ! i else ps ! i ! 5) [0..<fixed]"
  have fx: "required + length D = fixed" using l by (simp add: D_def)
  have a: "required \<le> length args" "rest \<or> length args \<le> fixed" using assms(2) by (simp_all add: arity_ok_def)
  have "bind_arguments \<lparr>pm_method = m, pm_binding = Some ?b\<rparr> args = Some (bound_values fixed rest args ps)"
  proof (cases "fixed < length args")
    case True
    then have "take fixed args = ?vs" by (intro nth_equalityI) auto
    then show ?thesis using True a fx unfolding bind_arguments_def bound_values_def by (simp add: Let_def)
  next
    case False
    have e: "args @ drop (length args - required) D = ?vs" unfolding D_def by (rule fill_defaults) (use a l False in auto)
    then have "length args = fixed \<Longrightarrow> args = ?vs" using fx by simp
    then show ?thesis using False a fx e unfolding bind_arguments_def bound_values_def by (cases "length args = fixed") (simp_all add: Let_def)
  qed
  then show ?thesis using False assms(1) by (auto simp: positional_binding_def D_def)
qed

lemma length_bound_values:
  assumes "parameter_layout sy ps = Some (required, fixed, rest)"
  shows "length (bound_values fixed rest args ps) = length ps"
  using layoutD(2) [OF assms] by (simp add: bound_values_def)

section \<open>Applicability\<close>

text \<open>A call by position, or by role, applies when its arguments can be bound and every bound value fits.\<close>

definition all_fit :: "dispatch_symbols \<Rightarrow> (val \<times> val) set \<Rightarrow> tuple list \<Rightarrow> val list \<Rightarrow> bool" where
  "all_fit sy E ps vs \<longleftrightarrow> list_all2 (\<lambda>p v. fits_restriction sy E v (p ! 2)) ps vs"

definition positional_applies :: "dispatch_symbols \<Rightarrow> (val \<times> val) set \<Rightarrow> tuple list \<Rightarrow> val list \<Rightarrow> bool" where
  "positional_applies sy E params args \<longleftrightarrow>
     (\<exists>ps required fixed rest. ordered_params params = Some ps \<and> parameter_layout sy ps = Some (required, fixed, rest) \<and>
        arity_ok (required, fixed, rest) args \<and> all_fit sy E ps (bound_values fixed rest args ps))"

definition role_applies :: "dispatch_symbols \<Rightarrow> (val \<times> val) set \<Rightarrow> tuple list \<Rightarrow> roles \<Rightarrow> bool" where
  "role_applies sy E params roles \<longleftrightarrow>
     (\<exists>ps vs. ordered_params params = Some ps \<and> method_call_args_from_params sy params roles = Some vs \<and> all_fit sy E ps vs)"

lemma all_fit_bound:
  assumes "parameter_layout sy ps = Some (required, fixed, rest)"
  shows "all_fit sy E ps (bound_values fixed rest args ps) \<longleftrightarrow>
    (\<forall>(i, p) \<in> set (enumerate 0 (take fixed ps)). fits_restriction sy E (if i < length args then args ! i else p ! 5) (p ! 2)) \<and>
    (rest \<longrightarrow> fits_restriction sy E (VList (drop fixed args)) (ps ! fixed ! 2))"
proof -
  note l = layoutD(2) [OF assms]
  have "all_fit sy E ps (bound_values fixed rest args ps) \<longleftrightarrow> (\<forall>i < length ps. fits_restriction sy E (bound_values fixed rest args ps ! i) (ps ! i ! 2))"
    by (simp add: all_fit_def list_all2_conv_all_nth length_bound_values [OF assms])
  also have "\<dots> \<longleftrightarrow> (\<forall>i < fixed. fits_restriction sy E (if i < length args then args ! i else ps ! i ! 5) (ps ! i ! 2)) \<and>
      (rest \<longrightarrow> fits_restriction sy E (VList (drop fixed args)) (ps ! fixed ! 2))"
    using l by (auto simp: bound_values_def nth_append less_Suc_eq)
  also have "(\<forall>i < fixed. fits_restriction sy E (if i < length args then args ! i else ps ! i ! 5) (ps ! i ! 2)) \<longleftrightarrow>
      (\<forall>(i, p) \<in> set (enumerate 0 (take fixed ps)). fits_restriction sy E (if i < length args then args ! i else p ! 5) (p ! 2))"
    using l by (auto simp: in_set_enumerate_eq)
  finally show ?thesis .
qed

lemma positional_params_match_ok:
  assumes "dispatch_reads ar rd M rels"
  shows "positional_params_match sy rd (dr_delegates rels) args params = kok (positional_applies sy (delegation M (dr_delegates rels)) params args)"
proof (cases "ordered_params params")
  case (Some ps)
  let ?E = "delegation M (dr_delegates rels)"
  show ?thesis
  proof (cases "parameter_layout sy ps")
    case layout: (Some l)
    obtain required fixed rest where l: "l = (required, fixed, rest)" by (cases l)
    note layout = layout [unfolded l]
    have eq: "positional_applies sy ?E params args \<longleftrightarrow> arity_ok (required, fixed, rest) args \<and> all_fit sy ?E ps (bound_values fixed rest args ps)"
      using Some layout by (simp add: positional_applies_def)
    let ?P = "\<lambda>(i, p). fits_restriction sy ?E (if i < length args then args ! i else p ! 5) (p ! 2)"
    have "all_k (\<lambda>(i, p). matches_restriction sy rd (dr_delegates rels) (if i < length args then args ! i else p ! 5) (p ! 2)) (enumerate 0 (take fixed ps)) =
        kok (\<forall>x \<in> set (enumerate 0 (take fixed ps)). ?P x)"
      by (rule all_k_kok) (auto simp: matches_restriction_ok [OF assms])
    moreover have "fits_restriction sy ?E v (unrestricted_marker sy)" for v by (simp add: fits_restriction_def)
    ultimately show ?thesis
      unfolding eq all_fit_bound [OF layout] by (simp add: positional_params_match_def Some layout arity_ok_def matches_restriction_ok [OF assms]) auto
  qed (simp add: positional_params_match_def positional_applies_def Some)
qed (simp add: positional_params_match_def positional_applies_def)

lemma positional_method_args_ok:
  assumes "ordered_params params = Some ps" "parameter_layout sy ps = Some (required, fixed, rest)"
  shows "positional_method_args sy params args =
    Some (if arity_ok (required, fixed, rest) args then Some (zip (map (\<lambda>p. p ! 1) ps) (bound_values fixed rest args ps)) else None)"
proof (cases "arity_ok (required, fixed, rest) args")
  case True
  then obtain b where "positional_binding sy ps = Some b"
    "bind_arguments \<lparr>pm_method = VRelation [] [[]], pm_binding = b\<rparr> args = Some (bound_values fixed rest args ps)"
    using bind_arguments_ok [OF assms(2) True] by blast
  then show ?thesis using True assms by (auto simp: positional_method_args_def arity_ok_def)
qed (use assms in \<open>auto simp: positional_method_args_def arity_ok_def\<close>)

lemma call_args_values:
  "\<forall>p \<in> set ps. parameter_mode sy p \<noteq> None \<Longrightarrow> call_args_loop sy roles ps = Some vs \<longleftrightarrow> list_all2 (\<lambda>p v. param_value sy roles p = Some v) ps vs"
proof (induction ps arbitrary: vs)
  case (Cons p ps)
  then obtain mode where mode: "parameter_mode sy p = Some mode" by auto
  have eq: "call_args_loop sy roles (p # ps) = (case param_value sy roles p of None \<Rightarrow> None | Some v \<Rightarrow> map_option ((#) v) (call_args_loop sy roles ps))"
    by (cases mode; cases "role_value roles (p ! 1)") (simp_all add: mode param_value_def)
  show ?case unfolding eq using Cons.IH Cons.prems by (cases vs) (auto split: option.splits)
qed auto

lemma layout_modes_known:
  assumes "parameter_layout sy ps = Some (required, fixed, rest)" "p \<in> set ps"
  shows "parameter_mode sy p \<noteq> None"
proof -
  have "parameter_mode sy p \<in> set (map (parameter_mode sy) ps)" using assms(2) by simp
  then show ?thesis unfolding layoutD(3) [OF assms(1)] by auto
qed

lemma params_match_ok:
  assumes "dispatch_reads ar rd M rels"
  shows "params_match sy rd (dr_delegates rels) roles params = kok (role_applies sy (delegation M (dr_delegates rels)) params roles)"
proof (cases "ordered_params params")
  case (Some ps)
  let ?E = "delegation M (dr_delegates rels)"
  show ?thesis
  proof (cases "parameter_layout sy ps")
    case layout: (Some l)
    let ?P = "\<lambda>p. case param_value sy roles p of None \<Rightarrow> False | Some v \<Rightarrow> fits_restriction sy ?E v (p ! 2)"
    obtain required fixed rest where l: "l = (required, fixed, rest)" by (cases l)
    have modes: "\<forall>p \<in> set ps. parameter_mode sy p \<noteq> None" using layout_modes_known [OF layout [unfolded l]] by blast
    have "params_match sy rd (dr_delegates rels) roles params = kok (\<forall>p \<in> set ps. ?P p)"
      unfolding params_match_def Some option.case layout by (simp, rule all_k_kok) (simp add: matches_restriction_ok [OF assms] split: option.split)
    moreover have "role_applies sy ?E params roles \<longleftrightarrow> (\<exists>vs. list_all2 (\<lambda>p v. param_value sy roles p = Some v) ps vs \<and> all_fit sy ?E ps vs)"
      using Some layout call_args_values [OF modes] by (simp add: role_applies_def method_call_args_from_params_def)
    moreover have "\<dots> \<longleftrightarrow> (\<forall>p \<in> set ps. ?P p)"
    proof
      assume "\<exists>vs. list_all2 (\<lambda>p v. param_value sy roles p = Some v) ps vs \<and> all_fit sy ?E ps vs"
      then obtain vs where v: "list_all2 (\<lambda>p v. param_value sy roles p = Some v \<and> fits_restriction sy ?E v (p ! 2)) ps vs" by (auto simp: all_fit_def list_all2_conv_all_nth)
      show "\<forall>p \<in> set ps. ?P p"
      proof
        fix p assume "p \<in> set ps"
        then obtain i where "i < length ps" "p = ps ! i" by (auto simp: in_set_conv_nth)
        then show "?P p" using list_all2_nthD [OF v, of i] by simp
      qed
    next
      assume a: "\<forall>p \<in> set ps. ?P p"
      have "list_all2 (\<lambda>p v. param_value sy roles p = Some v) ps (map (\<lambda>p. the (param_value sy roles p)) ps)"
        "all_fit sy ?E ps (map (\<lambda>p. the (param_value sy roles p)) ps)"
        unfolding all_fit_def list_all2_map2 using a by (auto intro!: list_all2_same [THEN iffD2] split: option.splits)
      then show "\<exists>vs. list_all2 (\<lambda>p v. param_value sy roles p = Some v) ps vs \<and> all_fit sy ?E ps vs" by blast
    qed
    ultimately show ?thesis by simp
  qed (simp add: params_match_def role_applies_def method_call_args_from_params_def Some)
qed (simp add: params_match_def role_applies_def)

text \<open>The roles a positional call binds select the same arguments when no role is declared twice.\<close>

lemma roles_of_positional:
  assumes "ordered_params params = Some ps" "parameter_layout sy ps = Some (required, fixed, rest)" "distinct (map (\<lambda>p. p ! 1) ps)"
  shows "method_call_args_from_params sy params (zip (map (\<lambda>p. p ! 1) ps) (bound_values fixed rest args ps)) = Some (bound_values fixed rest args ps)"
proof -
  let ?bv = "bound_values fixed rest args ps" and ?roles = "zip (map (\<lambda>p. p ! 1) ps) (bound_values fixed rest args ps)"
  note len = length_bound_values [OF assms(2), of args] and l = layoutD [OF assms(2)]
  have modes: "\<forall>p \<in> set ps. parameter_mode sy p \<noteq> None" using layout_modes_known [OF assms(2)] by blast
  have "param_value sy ?roles (ps ! i) = Some (?bv ! i)" if i: "i < length ps" for i
  proof -
    have rv: "role_value ?roles (ps ! i ! 1) = Some (?bv ! i)"
      unfolding role_value_def using map_of_zip_nth [of "map (\<lambda>p. p ! 1) ps" ?bv i] i len assms(3) by simp
    obtain mode where m: "parameter_mode sy (ps ! i) = Some mode" using modes i by fastforce
    show ?thesis
    proof (cases mode)
      case ModeRest
      have "map (parameter_mode sy) ps ! i = Some ModeRest" using i m ModeRest by simp
      then have "rest \<and> i = fixed" using i l(1,2) unfolding l(3) by (auto simp: nth_append split: if_splits)
      then have "?bv ! i = VList (drop fixed args)" by (simp add: bound_values_def nth_append)
      then show ?thesis using m rv ModeRest by (simp add: param_value_def list_len_def)
    qed (use rv in \<open>simp_all add: param_value_def m\<close>)
  qed
  then have "list_all2 (\<lambda>p v. param_value sy ?roles p = Some v) ps ?bv" by (simp add: list_all2_conv_all_nth len)
  then show ?thesis using assms(1,2) call_args_values [OF modes] by (simp add: method_call_args_from_params_def)
qed

end
