(* ===== verification/DispatchResolution.thy ===== *)
theory DispatchResolution
  imports DispatchProofs ValueCanon
begin

text \<open>
  The resolution of a call: the candidates are the methods that declare the selector, the result are
  the applicable ones that no other applicable method is more specific than. Among methods with
  required parameters restricted by identities there is always a most specific one.
\<close>

section \<open>The closure of delegation\<close>

lemma mset_insort_by: "mset (insort_by f x xs) = add_mset x (mset xs)"
  by (induction xs) auto

lemma mset_sort_by: "mset (sort_by f xs) = mset xs"
  by (induction xs) (simp_all add: sort_by_def mset_insort_by)

lemma star_from_ok:
  assumes "dispatch_reads ar rd M rels"
  shows "\<exists>protos. delegates_star_from rd (dr_delegates rels) child = kok protos \<and> set protos = (delegation M (dr_delegates rels))\<^sup>+ `` {child} \<and>
    distinct protos \<and> ((\<forall>v \<in> set protos. valid v) \<longrightarrow> strictly val_cmp protos)"
proof -
  obtain protos where p: "star_loop rd (dr_delegates rels) [] [child] = kok protos"
    "set protos = (delegation M (dr_delegates rels))\<^sup>+ `` {child}" "distinct protos"
    using star_loop_ok [OF dispatch_readsD(2,3) [OF assms] explored_init] by auto
  have d: "distinct (sort_by val_cmp protos)" using p(3) mset_sort_by [of val_cmp protos] mset_eq_imp_distinct_iff by blast
  have "strictly val_cmp (sort_by val_cmp protos)" if "\<forall>v \<in> set protos. valid v"
  proof -
    have "strictly val_cmp (remdups_adj (sort_by val_cmp protos))"
      by (rule val_order.strictly_dedup [OF val_order.weakly_sort]) (use that in simp_all)
    then show ?thesis using d by (simp add: remdups_adj_distinct)
  qed
  then show ?thesis using p d by (intro exI [of _ "sort_by val_cmp protos"]) (simp add: delegates_star_from_def)
qed

lemma edge_children_ok: "\<forall>e \<in> set edges. 0 < length e \<Longrightarrow> edge_children edges = Some (map (\<lambda>e. e ! 0) edges)"
  by (induction edges) (simp_all add: field_def)

lemma star_children_ok:
  assumes "dispatch_reads ar rd M rels"
  shows "\<exists>rows. star_children rd (dr_delegates rels) cs = kok rows \<and>
    set rows = {t. \<exists>c \<in> set cs. \<exists>p. t = [c, p] \<and> (c, p) \<in> (delegation M (dr_delegates rels))\<^sup>+}"
proof (induction cs)
  case (Cons c cs)
  obtain rows where rows: "star_children rd (dr_delegates rels) cs = kok rows"
    "set rows = {t. \<exists>c \<in> set cs. \<exists>p. t = [c, p] \<and> (c, p) \<in> (delegation M (dr_delegates rels))\<^sup>+}" using Cons.IH by blast
  obtain protos where p: "delegates_star_from rd (dr_delegates rels) c = kok protos" "set protos = (delegation M (dr_delegates rels))\<^sup>+ `` {c}"
    using star_from_ok [OF assms] by blast
  have "star_children rd (dr_delegates rels) (c # cs) = kok (map (\<lambda>p. [c, p]) protos @ rows)" using rows(1) p(1) by simp
  moreover have "set (map (\<lambda>p. [c, p]) protos @ rows) =
      {t. \<exists>c \<in> set (c # cs). \<exists>p. t = [c, p] \<and> (c, p) \<in> (delegation M (dr_delegates rels))\<^sup>+}"
    unfolding set_append rows(2) set_map p(2) by auto
  ultimately show ?case by blast
qed simp

lemma delegates_star_ok:
  assumes "dispatch_reads ar rd M rels"
  shows "\<exists>rows. delegates_star rd (dr_delegates rels) = kok rows \<and> set rows = {[c, p] | c p. (c, p) \<in> (delegation M (dr_delegates rels))\<^sup>+}"
proof -
  let ?E = "delegation M (dr_delegates rels)"
  note d = assms [unfolded dispatch_reads_def]
  have all: "matches_bindings t [None, None, None]" for t by (auto simp: matches_bindings_def less_Suc_eq numeral_3_eq_3)
  obtain edges where e: "rd_scan rd (dr_delegates rels) [None, None, None] = Inr edges"
    using d unfolding answers_def by (metis length_Cons list.size(3) numeral_3_eq_3)
  have s: "set edges = M (dr_delegates rels)"
    using readsD(3) [OF conjunct1 [OF d] _ e] d all by (simp add: matching_rows_def)
  have "\<forall>e \<in> set edges. 0 < length e" using readsD(1) [OF conjunct1 [OF d], of _ "dr_delegates rels"] d s by simp
  then have c: "edge_children edges = Some (map (\<lambda>e. e ! 0) edges)" by (rule edge_children_ok)
  let ?cs = "remdups_adj (sort_by val_cmp (map (\<lambda>e. e ! 0) edges))"
  have "set ?cs = Domain ?E" using s by (simp add: set_sort_pairs delegation_def Domain_fst image_image)
  moreover obtain rows where rows: "star_children rd (dr_delegates rels) ?cs = kok rows"
    "set rows = {t. \<exists>c \<in> set ?cs. \<exists>p. t = [c, p] \<and> (c, p) \<in> ?E\<^sup>+}" using star_children_ok [OF assms] by blast
  moreover have "c \<in> Domain ?E" if "(c, p) \<in> ?E\<^sup>+" for c p
    using DomainI [OF that] unfolding trancl_domain .
  ultimately have "set rows = {[c, p] | c p. (c, p) \<in> ?E\<^sup>+}" by blast
  then show ?thesis using e c rows(1) by (intro exI [of _ "finish_tuple_rows rows"]) (simp add: delegates_star_def finish_tuple_rows_def set_sort_pairs)
qed

section \<open>Specificity\<close>

lemma compare_restrictions_ok:
  assumes "dispatch_reads ar rd M rels"
  shows "compare_restrictions sy rd (dr_delegates rels) left right stricter continue =
    (if implies sy (delegation M (dr_delegates rels)) (left ! 2) (right ! 2)
     then continue (stricter \<or> \<not> implies sy (delegation M (dr_delegates rels)) (right ! 2) (left ! 2)) else kok False)"
  by (simp add: compare_restrictions_def restriction_implies_ok [OF assms])

lemma named_loop_total:
  assumes "dispatch_reads ar rd M rels"
  shows "\<exists>b. named_loop sy rd (dr_delegates rels) left stricter right = kok b"
proof (induction right arbitrary: stricter)
  case (Cons p right)
  then show ?case by (auto simp: compare_restrictions_ok [OF assms] Let_def split: option.split)
qed simp

lemma positional_loop_total:
  assumes "dispatch_reads ar rd M rels"
  shows "\<exists>b. positional_loop sy rd (dr_delegates rels) left lf lr rf stricter right = kok b"
proof (induction right arbitrary: stricter)
  case (Cons p right)
  then show ?case by (cases p) (auto simp: compare_restrictions_ok [OF assms])
qed simp

lemma more_specific_total:
  assumes "dispatch_reads ar rd M rels"
  shows "\<exists>b. named_method_more_specific sy rd (dr_delegates rels) l r = kok b"
    "\<exists>b. positional_method_more_specific sy rd (dr_delegates rels) l r = kok b"
  by (auto simp: named_method_more_specific_def positional_method_more_specific_def positional_loop_total [OF assms]
      named_loop_total [OF assms] split: option.split)

definition better :: "(applicable_method \<Rightarrow> applicable_method \<Rightarrow> (val, bool) kresult) \<Rightarrow> applicable_method \<Rightarrow> applicable_method \<Rightarrow> bool" where
  "better f a b \<longleftrightarrow> am_method a \<noteq> am_method b \<and> f a b = kok True"

lemma undominated_ok:
  assumes f: "\<And>a b. \<exists>x. f a b = kok x"
  shows "undominated f ms = kok (filter (\<lambda>c. \<not> (\<exists>a \<in> set ms. better f a c)) ms)"
proof (cases "length ms \<le> 1")
  case True
  then consider "ms = []" | m where "ms = [m]" by (cases ms) auto
  then show ?thesis by cases (simp_all add: undominated_def better_def)
next
  case False
  have "dominated_by f ms c = kok (\<exists>a \<in> set ms. better f a c)" for c
    unfolding dominated_by_def
  proof (rule any_k_kok)
    fix a
    obtain x where "f a c = kok x" using f by blast
    then show "(if am_method c = am_method a then kok False else f a c) = kok (better f a c)" by (auto simp: better_def)
  qed
  then have "filter_k (\<lambda>c. kbind (dominated_by f ms c) (\<lambda>b. kok (\<not> b))) ms = kok (filter (\<lambda>c. \<not> (\<exists>a \<in> set ms. better f a c)) ms)"
    by (intro filter_k_kok) simp
  then show ?thesis using False by (simp add: undominated_def)
qed

section \<open>Candidates\<close>

definition params_of :: "reader \<Rightarrow> dispatch_relations \<Rightarrow> val \<Rightarrow> tuple list" where
  "params_of rd rels m = (case rd_visit rd (dr_param rels) [Some m, None, None, None, None, None] of Inr ps \<Rightarrow> ps | Inl _ \<Rightarrow> [])"

definition entry_of :: "reader \<Rightarrow> dispatch_relations \<Rightarrow> val \<Rightarrow> applicable_method" where
  "entry_of rd rels m = \<lparr>am_method = m, am_params = params_of rd rels m\<rparr>"

definition declares :: "(identity \<Rightarrow> tuple set) \<Rightarrow> dispatch_relations \<Rightarrow> val \<Rightarrow> val \<Rightarrow> bool" where
  "declares M rels selector m \<longleftrightarrow> [m, selector] \<in> M (dr_method_selector rels)"

lemma entry_of_sel [simp]: "am_method (entry_of rd rels m) = m" "am_params (entry_of rd rels m) = params_of rd rels m"
  by (simp_all add: entry_of_def)

lemma params_of_ok:
  assumes "dispatch_reads ar rd M rels"
  shows "rd_visit rd (dr_param rels) [Some m, None, None, None, None, None] = Inr (params_of rd rels m)"
    "set (params_of rd rels m) = {t \<in> M (dr_param rels). t ! 0 = m}"
proof -
  obtain ps where "rd_visit rd (dr_param rels) [Some m, None, None, None, None, None] = Inr ps" "set ps = {t \<in> M (dr_param rels). t ! 0 = m}"
    using dispatch_readsD(5) [OF assms] by blast
  then show "rd_visit rd (dr_param rels) [Some m, None, None, None, None, None] = Inr (params_of rd rels m)"
    "set (params_of rd rels m) = {t \<in> M (dr_param rels). t ! 0 = m}" by (simp_all add: params_of_def)
qed

lemma collect_candidates_ok:
  assumes "dispatch_reads ar rd M rels"
  shows "\<forall>row \<in> set rows. 0 < length row \<Longrightarrow> collect_candidates rd rels rows = kok (map (\<lambda>row. entry_of rd rels (row ! 0)) rows)"
  by (induction rows) (simp_all add: field_def params_of_ok [OF assms] entry_of_def)

lemma scan_method_candidates_ok:
  assumes "dispatch_reads ar rd M rels"
  shows "\<exists>cs. scan_method_candidates rd rels selector = kok cs \<and> set cs = entry_of rd rels ` {m. declares M rels selector m}"
proof -
  obtain rows where v: "rd_visit rd (dr_method_selector rels) [None, Some selector] = Inr rows"
    "set rows = {t \<in> M (dr_method_selector rels). t ! 1 = selector}" using dispatch_readsD(4) [OF assms] by blast
  have two: "length row = 2" if "row \<in> set rows" for row using that v(2) dispatch_readsD(6) [OF assms] by blast
  then have "\<forall>row \<in> set rows. 0 < length row" by force
  from collect_candidates_ok [OF assms this] have
    s: "scan_method_candidates rd rels selector = kok (sort_by by_method (map (\<lambda>row. entry_of rd rels (row ! 0)) rows))"
    using v(1) by (simp add: scan_method_candidates_def)
  have "row ! 0 \<in> {m. declares M rels selector m}" if "row \<in> set rows" for row
  proof -
    have "row = [row ! 0, selector]" using that two [OF that] v(2) by (auto simp: length_Suc_conv numeral_2_eq_2)
    then show ?thesis using that v(2) by (auto simp: declares_def)
  qed
  moreover have "m \<in> (\<lambda>row. row ! 0) ` set rows" if "declares M rels selector m" for m
    using that v(2) by (force simp: declares_def)
  ultimately have "(\<lambda>row. row ! 0) ` set rows = {m. declares M rels selector m}" by blast
  then have "set (map (\<lambda>row. entry_of rd rels (row ! 0)) rows) = entry_of rd rels ` {m. declares M rels selector m}"
    unfolding set_map image_image [of "entry_of rd rels" "\<lambda>row. row ! 0", symmetric] by (rule arg_cong)
  then show ?thesis using s by (simp add: set_sort_pairs)
qed

section \<open>Resolution by position\<close>

definition callable :: "dispatch_symbols \<Rightarrow> reader \<Rightarrow> (identity \<Rightarrow> tuple set) \<Rightarrow> dispatch_relations \<Rightarrow> val \<Rightarrow> val list \<Rightarrow> val \<Rightarrow> bool" where
  "callable sy rd M rels selector args m \<longleftrightarrow>
     declares M rels selector m \<and> positional_applies sy (delegation M (dr_delegates rels)) (params_of rd rels m) args"

definition overrides :: "dispatch_symbols \<Rightarrow> reader \<Rightarrow> dispatch_relations \<Rightarrow> val \<Rightarrow> val \<Rightarrow> bool" where
  "overrides sy rd rels m m' \<longleftrightarrow>
     better (positional_method_more_specific sy rd (dr_delegates rels)) (entry_of rd rels m) (entry_of rd rels m')"

lemma all_unrestricted_ok:
  "\<forall>p \<in> set ps. length p = 6 \<Longrightarrow> all_unrestricted sy ps = Some (\<forall>p \<in> set ps. p ! 2 = unrestricted_marker sy)"
  by (induction ps) (auto simp: field_def)

lemma positional_candidates_ok:
  assumes "dispatch_reads ar rd M rels"
  shows "\<forall>c \<in> set cs. \<forall>p \<in> set (am_params c). length p = 6 \<Longrightarrow>
    positional_candidates sy rd (dr_delegates rels) args cs indep =
      kok (filter (\<lambda>c. positional_applies sy (delegation M (dr_delegates rels)) (am_params c) args) cs,
           indep \<and> (\<forall>c \<in> set cs. \<forall>p \<in> set (am_params c). p ! 2 = unrestricted_marker sy))"
proof (induction cs arbitrary: indep)
  case (Cons c cs)
  then have "all_unrestricted sy (am_params c) = Some (\<forall>p \<in> set (am_params c). p ! 2 = unrestricted_marker sy)"
    by (intro all_unrestricted_ok) simp
  then show ?case using Cons by (simp add: positional_params_match_ok [OF assms])
qed simp

lemma insort_map: "map g (insort_by (\<lambda>a b. f (g a) (g b)) x xs) = insort_by f (g x) (map g xs)"
  by (induction xs) auto

lemma sort_map: "map g (sort_by (\<lambda>a b. f (g a) (g b)) xs) = sort_by f (map g xs)"
  by (induction xs) (simp_all add: sort_by_def insort_map)

lemma sort_by_method: "map am_method (sort_by by_method ms) = sort_by val_cmp (map am_method ms)"
proof -
  have m: "by_method = (\<lambda>a b. val_cmp (am_method a) (am_method b))" by (intro ext) (simp add: by_method_def)
  show ?thesis unfolding m by (rule sort_map)
qed

lemma dedup_methods: "map am_method (dedup_methods ms) = remdups_adj (map am_method ms)"
  by (induction ms rule: dedup_methods.induct) auto

lemma set_dedup: "set (dedup_methods ms) \<subseteq> set ms"
  by (induction ms rule: dedup_methods.induct) auto

lemma bindings_ok:
  assumes "\<forall>e \<in> set es. positional_applies sy E (am_params e) args"
  shows "\<exists>bs. with_bindings sy es = Some bs \<and> map pm_method bs = map am_method es \<and>
    (\<forall>pm \<in> set bs. \<exists>e \<in> set es. pm_method pm = am_method e \<and>
       (\<exists>ps vs. ordered_params (am_params e) = Some ps \<and> bind_arguments pm args = Some vs \<and> all_fit sy E ps vs))"
  using assms
proof (induction es)
  case (Cons e es)
  then obtain bs where bs: "with_bindings sy es = Some bs" "map pm_method bs = map am_method es"
    "\<forall>pm \<in> set bs. \<exists>e \<in> set es. pm_method pm = am_method e \<and>
       (\<exists>ps vs. ordered_params (am_params e) = Some ps \<and> bind_arguments pm args = Some vs \<and> all_fit sy E ps vs)" by auto
  obtain ps required fixed rest where e: "ordered_params (am_params e) = Some ps" "parameter_layout sy ps = Some (required, fixed, rest)"
    "arity_ok (required, fixed, rest) args" "all_fit sy E ps (bound_values fixed rest args ps)"
    using Cons.prems by (auto simp: positional_applies_def)
  obtain b where b: "positional_binding sy ps = Some b"
    "bind_arguments \<lparr>pm_method = am_method e, pm_binding = b\<rparr> args = Some (bound_values fixed rest args ps)"
    using bind_arguments_ok [OF e(2,3)] by blast
  then show ?case using bs e(1,4) by auto
qed simp

lemma filter_positional_ok:
  assumes "dispatch_reads ar rd M rels" "set cs = entry_of rd rels ` {m. declares M rels selector m}"
    "\<And>m. declares M rels selector m \<Longrightarrow> valid m"
  shows "\<exists>res. filter_positional_candidates sy rd rels args cs = kok res \<and> strictly val_cmp (map pm_method (pr_methods res)) \<and>
    pm_method ` set (pr_methods res) = {m. callable sy rd M rels selector args m \<and>
      \<not> (\<exists>m'. callable sy rd M rels selector args m' \<and> overrides sy rd rels m' m)} \<and>
    (\<forall>pm \<in> set (pr_methods res). \<exists>ps vs. ordered_params (params_of rd rels (pm_method pm)) = Some ps \<and>
       bind_arguments pm args = Some vs \<and> all_fit sy (delegation M (dr_delegates rels)) ps vs) \<and>
    (pr_argument_independent res \<longleftrightarrow>
       (\<forall>m. declares M rels selector m \<longrightarrow> (\<forall>p \<in> set (params_of rd rels m). p ! 2 = unrestricted_marker sy)))"
proof -
  let ?E = "delegation M (dr_delegates rels)"
  let ?f = "positional_method_more_specific sy rd (dr_delegates rels)"
  let ?ok = "\<lambda>c. positional_applies sy ?E (am_params c) args"
  let ?C = "{m. callable sy rd M rels selector args m}"
  define ms where "ms = dedup_methods (sort_by by_method (filter ?ok cs))"
  have six: "\<forall>c \<in> set cs. \<forall>p \<in> set (am_params c). length p = 6"
    using assms(2) params_of_ok(2) [OF assms(1)] dispatch_readsD(7) [OF assms(1)] by auto
  have methods: "map am_method ms = remdups_adj (sort_by val_cmp (map am_method (filter ?ok cs)))"
    unfolding ms_def dedup_methods sort_by_method ..
  have C: "am_method ` set (filter ?ok cs) = ?C" using assms(2) by (force simp: callable_def)
  have ms_sub: "set ms \<subseteq> set (filter ?ok cs)" using set_dedup [of "sort_by by_method (filter ?ok cs)"] by (simp add: ms_def set_sort_pairs)
  have ms_set: "am_method ` set ms = ?C"
  proof -
    have "am_method ` set ms = set (map am_method ms)" by simp
    also have "\<dots> = ?C" unfolding methods by (simp add: set_sort_pairs C [simplified])
    finally show ?thesis .
  qed
  have entry: "c = entry_of rd rels (am_method c)" if "c \<in> set ms" for c using that ms_sub assms(2) by auto
  have strict: "strictly val_cmp (map am_method ms)"
    unfolding methods by (rule val_order.strictly_dedup [OF val_order.weakly_sort])
      (use assms(2,3) in \<open>auto simp: set_sort_pairs\<close>)
  define kept where "kept = filter (\<lambda>c. \<not> (\<exists>a \<in> set ms. better ?f a c)) ms"
  have prune: "prune_positional_methods sy rd (dr_delegates rels) ms = kok kept"
    unfolding prune_positional_methods_def kept_def by (rule undominated_ok) (rule more_specific_total(2) [OF assms(1)])
  have kept_ok: "\<forall>e \<in> set kept. positional_applies sy ?E (am_params e) args" using ms_sub by (auto simp: kept_def)
  obtain bs where bs: "with_bindings sy kept = Some bs" "map pm_method bs = map am_method kept"
    "\<forall>pm \<in> set bs. \<exists>e \<in> set kept. pm_method pm = am_method e \<and>
       (\<exists>ps vs. ordered_params (am_params e) = Some ps \<and> bind_arguments pm args = Some vs \<and> all_fit sy ?E ps vs)"
    using bindings_ok [OF kept_ok] by blast
  define ind where "ind \<longleftrightarrow> (\<forall>c \<in> set cs. \<forall>p \<in> set (am_params c). p ! 2 = unrestricted_marker sy)"
  have result: "filter_positional_candidates sy rd rels args cs = kok \<lparr>pr_methods = bs, pr_argument_independent = ind\<rparr>"
    using prune bs(1) by (simp add: filter_positional_candidates_def positional_candidates_ok [OF assms(1) six] ms_def [symmetric] ind_def)
  have one: "strictly val_cmp (map pm_method bs)"
    using strict unfolding bs(2) kept_def strictly_def sorted_wrt_map by (rule sorted_wrt_filter)
  have two: "pm_method ` set bs = {m \<in> ?C. \<not> (\<exists>m' \<in> ?C. overrides sy rd rels m' m)}"
  proof -
    have b: "(\<exists>a \<in> set ms. better ?f a c) \<longleftrightarrow> (\<exists>m' \<in> ?C. overrides sy rd rels m' (am_method c))" if "c \<in> set ms" for c
      unfolding ms_set [symmetric] overrides_def using entry that by fastforce
    have "pm_method ` set bs = am_method ` set kept" using arg_cong [OF bs(2), of set] by simp
    also have "\<dots> = {m \<in> am_method ` set ms. \<not> (\<exists>m' \<in> ?C. overrides sy rd rels m' m)}" using b by (auto simp: kept_def)
    finally show ?thesis unfolding ms_set .
  qed
  have three: "\<exists>ps vs. ordered_params (params_of rd rels (pm_method pm)) = Some ps \<and> bind_arguments pm args = Some vs \<and> all_fit sy ?E ps vs"
    if "pm \<in> set bs" for pm
  proof -
    from bspec [OF bs(3) that] obtain e where e: "e \<in> set kept" "pm_method pm = am_method e"
      "\<exists>ps vs. ordered_params (am_params e) = Some ps \<and> bind_arguments pm args = Some vs \<and> all_fit sy ?E ps vs"
      by (elim bexE conjE) (rule that)
    have "e \<in> set ms" using e(1) by (simp add: kept_def)
    from arg_cong [OF entry [OF this], of am_params] have "am_params e = params_of rd rels (pm_method pm)" by (simp add: e(2))
    then show ?thesis using e(3) by simp
  qed
  have four: "ind \<longleftrightarrow> (\<forall>m. declares M rels selector m \<longrightarrow> (\<forall>p \<in> set (params_of rd rels m). p ! 2 = unrestricted_marker sy))"
    unfolding ind_def assms(2) by simp
  have two': "pm_method ` set bs = {m. callable sy rd M rels selector args m \<and> \<not> (\<exists>m'. callable sy rd M rels selector args m' \<and> overrides sy rd rels m' m)}"
    unfolding two by blast
  show ?thesis
    by (rule exI [of _ "\<lparr>pr_methods = bs, pr_argument_independent = ind\<rparr>"], unfold positional_resolution.simps, intro conjI ballI)
      (fact result one two' four | erule three)+
qed

section \<open>A most specific method\<close>

definition simple_restriction :: "dispatch_symbols \<Rightarrow> val \<Rightarrow> bool" where
  "simple_restriction sy r \<longleftrightarrow> (case r of VIdentity _ \<Rightarrow> True | _ \<Rightarrow> r = unrestricted_marker sy)"

definition plain_params :: "dispatch_symbols \<Rightarrow> tuple list \<Rightarrow> bool" where
  "plain_params sy ps \<longleftrightarrow> parameter_layout sy ps = Some (length ps, length ps, False) \<and> (\<forall>p \<in> set ps. simple_restriction sy (p ! 2))"

lemma simple_cases:
  assumes "simple_restriction sy r"
  obtains "r = unrestricted_marker sy" | i where "r = VIdentity i" "r \<noteq> unrestricted_marker sy"
  using assms by (cases r) (auto simp: simple_restriction_def unrestricted_marker_def)

lemma implies_identity:
  "implies sy E (VIdentity i) (VIdentity j) \<longleftrightarrow> (VIdentity i, VIdentity j) \<in> E\<^sup>* \<or> (VIdentity IDENTITY_PROTOTYPE, VIdentity j) \<in> E\<^sup>*"
  by (auto simp: implies_def fits_restriction_def frob_only_restriction_def unrestricted_marker_def rtrancl_eq_or_trancl)

lemma implies_refl [simp]: "implies sy E r r"
  by (simp add: implies_def)

lemma implies_trans:
  assumes "simple_restriction sy a" "simple_restriction sy b" "simple_restriction sy c" "implies sy E a b" "implies sy E b c"
  shows "implies sy E a c"
proof (cases "c = unrestricted_marker sy")
  case False
  then obtain k where k: "c = VIdentity k" using assms(3) by (elim simple_cases) simp_all
  have "b \<noteq> unrestricted_marker sy" using assms(5) False by (auto simp: implies_def)
  then obtain j where j: "b = VIdentity j" using assms(2) by (elim simple_cases) simp_all
  have "a \<noteq> unrestricted_marker sy" using assms(4) \<open>b \<noteq> unrestricted_marker sy\<close> by (auto simp: implies_def)
  then obtain i where i: "a = VIdentity i" using assms(1) by (elim simple_cases) simp_all
  show ?thesis using assms(4,5) unfolding i j k implies_identity by (meson rtrancl_trans)
qed (simp add: implies_def)

lemma positional_loop_plain:
  assumes "dispatch_reads ar rd M rels"
  shows "\<forall>(i, p) \<in> set right. i < length left \<and> i < lf \<Longrightarrow>
    positional_loop sy rd (dr_delegates rels) left lf lr rf stricter right =
      kok ((\<forall>(i, p) \<in> set right. implies sy (delegation M (dr_delegates rels)) (left ! i ! 2) (p ! 2)) \<and>
           (stricter \<or> (\<exists>(i, p) \<in> set right. \<not> implies sy (delegation M (dr_delegates rels)) (p ! 2) (left ! i ! 2))))"
proof (induction right arbitrary: stricter)
  case (Cons x right)
  then show ?case by (cases x) (auto simp: compare_restrictions_ok [OF assms])
qed simp

definition pointwise :: "dispatch_symbols \<Rightarrow> (val \<times> val) set \<Rightarrow> tuple list \<Rightarrow> tuple list \<Rightarrow> bool" where
  "pointwise sy E ls rs \<longleftrightarrow> (\<forall>i < length rs. implies sy E (ls ! i ! 2) (rs ! i ! 2))"

lemma plain_more_specific:
  assumes "dispatch_reads ar rd M rels" "ordered_params (am_params l) = Some ls" "ordered_params (am_params r) = Some rs"
    "plain_params sy ls" "plain_params sy rs" "length ls = length rs"
  shows "positional_method_more_specific sy rd (dr_delegates rels) l r =
    kok (pointwise sy (delegation M (dr_delegates rels)) ls rs \<and> \<not> pointwise sy (delegation M (dr_delegates rels)) rs ls)"
proof -
  let ?E = "delegation M (dr_delegates rels)"
  have lay: "parameter_layout sy ls = Some (length rs, length rs, False)" "parameter_layout sy rs = Some (length rs, length rs, False)"
    using assms(4-6) by (simp_all add: plain_params_def)
  have "\<forall>(i, p) \<in> set (enumerate 0 rs). i < length ls \<and> i < length rs" using assms(6) by (auto simp: in_set_enumerate_eq)
  from positional_loop_plain [OF assms(1) this, of sy False "length rs" False] have
    "positional_method_more_specific sy rd (dr_delegates rels) l r =
      kok ((\<forall>(i, p) \<in> set (enumerate 0 rs). implies sy ?E (ls ! i ! 2) (p ! 2)) \<and>
           (\<exists>(i, p) \<in> set (enumerate 0 rs). \<not> implies sy ?E (p ! 2) (ls ! i ! 2)))"
    by (simp add: positional_method_more_specific_def assms(2,3) lay)
  moreover have "(\<forall>(i, p) \<in> set (enumerate 0 rs). implies sy ?E (ls ! i ! 2) (p ! 2)) \<longleftrightarrow> pointwise sy ?E ls rs"
    "(\<exists>(i, p) \<in> set (enumerate 0 rs). \<not> implies sy ?E (p ! 2) (ls ! i ! 2)) \<longleftrightarrow> \<not> pointwise sy ?E rs ls"
    using assms(6) by (auto simp: pointwise_def in_set_enumerate_eq)
  ultimately show ?thesis by simp
qed

lemma pointwise_trans:
  assumes "plain_params sy as" "plain_params sy bs" "plain_params sy cs" "length as = length bs" "length bs = length cs"
    "pointwise sy E as bs" "pointwise sy E bs cs"
  shows "pointwise sy E as cs"
  unfolding pointwise_def
proof (intro allI impI)
  fix i assume i: "i < length cs"
  have "simple_restriction sy (as ! i ! 2)" "simple_restriction sy (bs ! i ! 2)" "simple_restriction sy (cs ! i ! 2)"
    using assms(1-5) i by (simp_all add: plain_params_def)
  then show "implies sy E (as ! i ! 2) (cs ! i ! 2)" by (rule implies_trans) (use assms(4-7) i in \<open>simp_all add: pointwise_def\<close>)
qed

lemma most_specific_exists:
  assumes R: "dispatch_reads ar rd M rels" and "finite {m. declares M rels selector m}" and m: "callable sy rd M rels selector args m"
    and plain: "\<And>m. callable sy rd M rels selector args m \<Longrightarrow> \<exists>ps. ordered_params (params_of rd rels m) = Some ps \<and> plain_params sy ps"
  shows "\<exists>m. callable sy rd M rels selector args m \<and> \<not> (\<exists>m'. callable sy rd M rels selector args m' \<and> overrides sy rd rels m' m)"
proof -
  let ?E = "delegation M (dr_delegates rels)" and ?C = "{m. callable sy rd M rels selector args m}"
  define P where "P m = the (ordered_params (params_of rd rels m))" for m
  have P: "ordered_params (params_of rd rels m) = Some (P m)" "plain_params sy (P m)" "length (P m) = length args" if mem: "m \<in> ?C" for m
  proof -
    obtain ps where ps: "ordered_params (params_of rd rels m) = Some ps" "plain_params sy ps" using plain mem by blast
    then have "P m = ps" by (simp add: P_def)
    then show "ordered_params (params_of rd rels m) = Some (P m)" "plain_params sy (P m)" using ps by simp_all
    show "length (P m) = length args"
      using mem ps \<open>P m = ps\<close> by (auto simp: callable_def positional_applies_def plain_params_def arity_ok_def)
  qed
  define r where "r = {(a, b). a \<in> ?C \<and> b \<in> ?C \<and> overrides sy rd rels a b}"
  have ov: "(a, b) \<in> r \<longleftrightarrow> a \<in> ?C \<and> b \<in> ?C \<and> a \<noteq> b \<and> pointwise sy ?E (P a) (P b) \<and> \<not> pointwise sy ?E (P b) (P a)" for a b
    using plain_more_specific [OF R, of "entry_of rd rels a" "P a" "entry_of rd rels b" "P b"] P
    by (auto simp: r_def overrides_def better_def)
  have "finite ?C" by (rule finite_subset [OF _ assms(2)]) (auto simp: callable_def)
  then have fin: "finite r" by (rule_tac finite_subset [of _ "?C \<times> ?C"]) (auto simp: r_def)
  have "trans r"
  proof (rule transI)
    fix a b c assume ab: "(a, b) \<in> r" and bc: "(b, c) \<in> r"
    then have mem: "a \<in> ?C" "b \<in> ?C" "c \<in> ?C" by (auto simp: ov)
    note tr = pointwise_trans [OF P(2) P(2) P(2)]
    have len: "length (P a) = length (P b)" "length (P b) = length (P c)" using P(3) mem by auto
    have "pointwise sy ?E (P a) (P c)" by (rule tr [OF mem len]) (use ab bc in \<open>simp_all add: ov\<close>)
    moreover have "\<not> pointwise sy ?E (P c) (P a)"
    proof
      assume "pointwise sy ?E (P c) (P a)"
      then have "pointwise sy ?E (P c) (P b)" by (rule_tac tr [OF mem(3,1,2)]) (use ab len in \<open>simp_all add: ov\<close>)
      then show False using bc by (simp add: ov)
    qed
    ultimately show "(a, c) \<in> r" using mem by (auto simp: ov)
  qed
  then have "acyclic r" by (auto simp: acyclic_def trancl_id ov)
  then have "wf r" using fin by (rule finite_acyclic_wf [rotated])
  then obtain z where "z \<in> ?C" "\<And>y. (y, z) \<in> r \<Longrightarrow> y \<notin> ?C" using m wfE_min [of r m ?C] by blast
  then show ?thesis unfolding r_def by blast
qed

section \<open>Resolution by role\<close>

definition named_callable :: "dispatch_symbols \<Rightarrow> reader \<Rightarrow> (identity \<Rightarrow> tuple set) \<Rightarrow> dispatch_relations \<Rightarrow> roles \<Rightarrow> applicable_method \<Rightarrow> bool" where
  "named_callable sy rd M rels roles c \<longleftrightarrow> role_applies sy (delegation M (dr_delegates rels)) (am_params c) roles"

lemma named_entries_ok:
  assumes "dispatch_reads ar rd M rels"
  shows "kbind (filter_method_candidates sy rd rels roles cs) (prune_named_methods sy rd (dr_delegates rels)) =
    kok (let ms = filter (named_callable sy rd M rels roles) cs in
         filter (\<lambda>c. \<not> (\<exists>a \<in> set ms. better (named_method_more_specific sy rd (dr_delegates rels)) a c)) ms)"
proof -
  have "filter_method_candidates sy rd rels roles cs = kok (filter (named_callable sy rd M rels roles) cs)"
    unfolding filter_method_candidates_def by (rule filter_k_kok) (simp add: params_match_ok [OF assms] named_callable_def)
  then show ?thesis unfolding Let_def
    by (simp only: kbind_kok prune_named_methods_def undominated_ok [OF more_specific_total(1) [OF assms]])
qed

end
