(* ===== verification/DispatchCache.thy ===== *)
theory DispatchCache
  imports DispatchResolution "HOL-Library.AList"
begin

text \<open>
  The dispatch caches of a snapshot: \<open>dispatch_cache.rs\<close>, \<open>method_program_cache.rs\<close> and the cached lookups
  of \<open>snapshot.rs\<close>. The contents of a snapshot never change; its caches are shared by all threads, each
  map behind its own lock. An operation locks several times; \<open>others\<close> is what the other threads do to the
  caches between two of its critical sections. B-tree maps are association lists: only lookups and sizes are
  observed. The keys are the relation ids, the selector and the roles or arguments.
\<close>

section \<open>The cache\<close>

definition MAX_POSITIONAL_ENTRIES_PER_RELATION :: nat where "MAX_POSITIONAL_ENTRIES_PER_RELATION = 1024"
definition MAX_KEYED_ENTRIES :: nat where "MAX_KEYED_ENTRIES = 4096"

record positional_methods =
  pe_by_arity :: "(nat \<times> positional_method list) list"
  pe_by_values :: "(val list \<times> positional_method list) list"

record positional_relation_entries =
  re_selectors :: "(val \<times> positional_methods) list"
  re_count :: usize

type_synonym cache_key = "dispatch_relations \<times> val \<times> roles"

record dispatch_cache =
  dc_entries :: "(cache_key \<times> applicable_method_call list) list"
  dc_positional :: "(dispatch_relations \<times> positional_relation_entries) list"
  dc_candidates :: "((dispatch_relations \<times> val) \<times> applicable_method list) list"

definition dispatch_cache_new :: dispatch_cache where
  "dispatch_cache_new = \<lparr>dc_entries = [], dc_positional = [], dc_candidates = []\<rparr>"

text \<open>\<open>entry(key).or_insert(value)\<close> below a limit.\<close>

definition insert_below :: "nat \<Rightarrow> 'k \<Rightarrow> 'v \<Rightarrow> ('k \<times> 'v) list \<Rightarrow> ('k \<times> 'v) list" where
  "insert_below limit k v m = (if length m < limit \<and> map_of m k = None then (k, v) # m else m)"

definition get_candidates :: "dispatch_cache \<Rightarrow> dispatch_relations \<Rightarrow> val \<Rightarrow> applicable_method list option" where
  "get_candidates c rels selector = map_of (dc_candidates c) (rels, selector)"

definition insert_candidates :: "dispatch_relations \<Rightarrow> val \<Rightarrow> applicable_method list \<Rightarrow> dispatch_cache \<Rightarrow> dispatch_cache" where
  "insert_candidates rels selector cs c = c\<lparr>dc_candidates := insert_below MAX_KEYED_ENTRIES (rels, selector) cs (dc_candidates c)\<rparr>"

definition dispatch_key_new :: "dispatch_relations \<Rightarrow> val \<Rightarrow> roles \<Rightarrow> cache_key" where
  "dispatch_key_new rels selector roles = (rels, selector, normalize_dispatch_roles roles)"

definition dispatch_key_new_normalized :: "dispatch_relations \<Rightarrow> val \<Rightarrow> roles \<Rightarrow> cache_key" where
  "dispatch_key_new_normalized rels selector roles = (rels, selector, roles)"

definition get_key :: "dispatch_cache \<Rightarrow> cache_key \<Rightarrow> applicable_method_call list option" where
  "get_key c key = map_of (dc_entries c) key"

definition insert_key :: "cache_key \<Rightarrow> applicable_method_call list \<Rightarrow> dispatch_cache \<Rightarrow> dispatch_cache" where
  "insert_key key ms c = c\<lparr>dc_entries := insert_below MAX_KEYED_ENTRIES key ms (dc_entries c)\<rparr>"

definition dispatch_get :: "dispatch_cache \<Rightarrow> dispatch_relations \<Rightarrow> val \<Rightarrow> roles \<Rightarrow> applicable_method_call list option" where
  "dispatch_get c rels selector roles = get_key c (dispatch_key_new rels selector roles)"

definition dispatch_get_normalized :: "dispatch_cache \<Rightarrow> dispatch_relations \<Rightarrow> val \<Rightarrow> roles \<Rightarrow> applicable_method_call list option" where
  "dispatch_get_normalized c rels selector roles = get_key c (dispatch_key_new_normalized rels selector roles)"

definition dispatch_put :: "dispatch_relations \<Rightarrow> val \<Rightarrow> roles \<Rightarrow> applicable_method_call list \<Rightarrow> dispatch_cache \<Rightarrow> dispatch_cache" where
  "dispatch_put rels selector roles ms c = insert_key (dispatch_key_new rels selector roles) ms c"

definition dispatch_put_normalized :: "dispatch_relations \<Rightarrow> val \<Rightarrow> roles \<Rightarrow> applicable_method_call list \<Rightarrow> dispatch_cache \<Rightarrow> dispatch_cache" where
  "dispatch_put_normalized rels selector roles ms c = insert_key (dispatch_key_new_normalized rels selector roles) ms c"

definition lookup_positional :: "positional_methods \<Rightarrow> val list \<Rightarrow> positional_method list option" where
  "lookup_positional entry args =
     (case map_of (pe_by_arity entry) (length args) of Some ms \<Rightarrow> Some ms | None \<Rightarrow> map_of (pe_by_values entry) args)"

definition get_positional :: "dispatch_cache \<Rightarrow> dispatch_relations \<Rightarrow> val \<Rightarrow> val list \<Rightarrow> positional_method list option" where
  "get_positional c rels selector args =
     (case map_of (dc_positional c) rels of
        None \<Rightarrow> None
      | Some relation \<Rightarrow>
          (case map_of (re_selectors relation) selector of
             None \<Rightarrow> None
           | Some entry \<Rightarrow> lookup_positional entry args))"

definition no_relation_entries :: positional_relation_entries where
  "no_relation_entries = \<lparr>re_selectors = [], re_count = 0\<rparr>"

definition no_methods :: positional_methods where
  "no_methods = \<lparr>pe_by_arity = [], pe_by_values = []\<rparr>"

definition or_default :: "'v \<Rightarrow> ('k \<times> 'v) list \<Rightarrow> 'k \<Rightarrow> 'v" where
  "or_default d m k = (case map_of m k of Some v \<Rightarrow> v | None \<Rightarrow> d)"

definition insert_vacant :: "bool \<Rightarrow> val list \<Rightarrow> positional_method list \<Rightarrow> positional_methods \<Rightarrow> positional_methods \<times> bool" where
  "insert_vacant argument_independent args ms entry =
     (if argument_independent then
        if map_of (pe_by_arity entry) (length args) = None
        then (entry\<lparr>pe_by_arity := (length args, ms) # pe_by_arity entry\<rparr>, True) else (entry, False)
      else
        if map_of (pe_by_values entry) args = None
        then (entry\<lparr>pe_by_values := (args, ms) # pe_by_values entry\<rparr>, True) else (entry, False))"

definition insert_positional ::
  "dispatch_relations \<Rightarrow> val \<Rightarrow> val list \<Rightarrow> positional_method list \<Rightarrow> bool \<Rightarrow> dispatch_cache \<Rightarrow> dispatch_cache" where
  "insert_positional rels selector args ms argument_independent c =
     (let relation = or_default no_relation_entries (dc_positional c) rels in
      if re_count relation \<ge> MAX_POSITIONAL_ENTRIES_PER_RELATION then c
      else
        let (entry, vacant) = insert_vacant argument_independent args ms (or_default no_methods (re_selectors relation) selector) in
        c\<lparr>dc_positional := AList.update rels
            \<lparr>re_selectors = AList.update selector entry (re_selectors relation),
             re_count = re_count relation + (if vacant then 1 else 0)\<rparr> (dc_positional c)\<rparr>)"

section \<open>Cached lookups of a snapshot\<close>

text \<open>A fallible operation that leaves the caches changed also where it fails.\<close>

type_synonym 'a cached = "(val, 'a) kresult \<times> dispatch_cache"

definition cbind :: "'a cached \<Rightarrow> ('a \<Rightarrow> dispatch_cache \<Rightarrow> 'b cached) \<Rightarrow> 'b cached" where
  "cbind m f = (case m of (None, c) \<Rightarrow> (None, c) | (Some (Inl e), c) \<Rightarrow> (Some (Inl e), c) | (Some (Inr x), c) \<Rightarrow> f x c)"

type_synonym interference = "nat \<Rightarrow> dispatch_cache \<Rightarrow> dispatch_cache"

definition method_candidates :: "reader \<Rightarrow> dispatch_relations \<Rightarrow> val \<Rightarrow> interference \<Rightarrow> dispatch_cache \<Rightarrow> applicable_method list cached" where
  "method_candidates rd rels selector others c =
     (case get_candidates c rels selector of
        Some cs \<Rightarrow> (kok cs, c)
      | None \<Rightarrow> cbind (scan_method_candidates rd rels selector, others 0 c) (\<lambda>cs c1. (kok cs, insert_candidates rels selector cs c1)))"

definition applicable_method_entries ::
  "dispatch_symbols \<Rightarrow> reader \<Rightarrow> dispatch_relations \<Rightarrow> val \<Rightarrow> roles \<Rightarrow> interference \<Rightarrow> dispatch_cache \<Rightarrow> applicable_method list cached" where
  "applicable_method_entries sy rd rels selector roles others c =
     cbind (method_candidates rd rels selector others c) (\<lambda>candidates c1.
     (kbind (filter_method_candidates sy rd rels roles candidates) (\<lambda>matched.
      prune_named_methods sy rd (dr_delegates rels) matched), c1))"

definition applicable_method_calls_uncached ::
  "dispatch_symbols \<Rightarrow> reader \<Rightarrow> dispatch_relations \<Rightarrow> val \<Rightarrow> roles \<Rightarrow> interference \<Rightarrow> dispatch_cache \<Rightarrow> applicable_method_call list cached" where
  "applicable_method_calls_uncached sy rd rels selector roles others c =
     cbind (applicable_method_entries sy rd rels selector roles others c) (\<lambda>entries c1. (kok (map (call_of_entry sy roles) entries), c1))"

definition cached_applicable_method_calls ::
  "dispatch_symbols \<Rightarrow> reader \<Rightarrow> dispatch_relations \<Rightarrow> val \<Rightarrow> roles \<Rightarrow> interference \<Rightarrow> dispatch_cache \<Rightarrow> applicable_method_call list cached" where
  "cached_applicable_method_calls sy rd rels selector roles others c =
     (case dispatch_get c rels selector roles of
        Some ms \<Rightarrow> (kok ms, c)
      | None \<Rightarrow>
          cbind (applicable_method_calls_uncached sy rd rels selector roles others (others 1 c)) (\<lambda>ms c1.
          (kok ms, dispatch_put rels selector roles ms (others 2 c1))))"

definition cached_applicable_method_calls_normalized ::
  "dispatch_symbols \<Rightarrow> reader \<Rightarrow> dispatch_relations \<Rightarrow> val \<Rightarrow> roles \<Rightarrow> interference \<Rightarrow> dispatch_cache \<Rightarrow> applicable_method_call list cached" where
  "cached_applicable_method_calls_normalized sy rd rels selector roles others c =
     (case dispatch_get_normalized c rels selector roles of
        Some ms \<Rightarrow> (kok ms, c)
      | None \<Rightarrow>
          cbind (applicable_method_calls_uncached sy rd rels selector roles others (others 1 c)) (\<lambda>ms c1.
          (kok ms, dispatch_put_normalized rels selector roles ms (others 2 c1))))"

definition cached_applicable_positional_methods ::
  "dispatch_symbols \<Rightarrow> reader \<Rightarrow> dispatch_relations \<Rightarrow> val \<Rightarrow> val list \<Rightarrow> interference \<Rightarrow> dispatch_cache \<Rightarrow> positional_method list cached" where
  "cached_applicable_positional_methods sy rd rels selector args others c =
     (case get_positional c rels selector args of
        Some ms \<Rightarrow> (kok ms, c)
      | None \<Rightarrow>
          cbind (method_candidates rd rels selector others (others 1 c)) (\<lambda>candidates c1.
          cbind (filter_positional_candidates sy rd rels args candidates, c1) (\<lambda>resolved c2.
          (kok (pr_methods resolved),
           insert_positional rels selector args (pr_methods resolved) (pr_argument_independent resolved) (others 2 c2)))))"

text \<open>
  The program cache is one map that is replaced as a whole under a lock; it is read without one.
\<close>

type_synonym program_cache = "((identity \<times> val) \<times> val option) list"

definition program_get :: "program_cache \<Rightarrow> identity \<times> val \<Rightarrow> val option option" where
  "program_get entries key = map_of entries key"

definition program_insert :: "identity \<times> val \<Rightarrow> val option \<Rightarrow> program_cache \<Rightarrow> program_cache" where
  "program_insert key program entries = (if program_get entries key \<noteq> None then entries else AList.update key program entries)"

definition cached_method_program ::
  "reader \<Rightarrow> identity \<Rightarrow> val \<Rightarrow> (program_cache \<Rightarrow> program_cache) \<Rightarrow> program_cache \<Rightarrow> (val, val option) kresult \<times> program_cache" where
  "cached_method_program rd relation m others c =
     (case program_get c (relation, m) of
        Some program \<Rightarrow> (kok program, c)
      | None \<Rightarrow>
          (case method_program_id_uncached rd relation m of
             Some (Inr program) \<Rightarrow> (kok program, program_insert (relation, m) program (others c))
           | failed \<Rightarrow> (failed, others c)))"

section \<open>Memo tables\<close>

text \<open>What a cache relies on of its table: a lookup finds what was there, or what was just stored.\<close>

locale memo =
  fixes look :: "'c \<Rightarrow> 'k \<Rightarrow> 'v option" and put :: "'k \<Rightarrow> 'v \<Rightarrow> 'c \<Rightarrow> 'c"
  assumes look_put: "look (put k v c) l = Some w \<Longrightarrow> look c l = Some w \<or> l = k \<and> w = v"
begin

definition records :: "('k \<Rightarrow> 'v \<Rightarrow> bool) \<Rightarrow> 'c \<Rightarrow> bool" where
  "records f c \<longleftrightarrow> (\<forall>k v. look c k = Some v \<longrightarrow> f k v)"

lemma records_put: "records f c \<Longrightarrow> f k v \<Longrightarrow> records f (put k v c)"
  using look_put unfolding records_def by metis

lemma records_look: "records f c \<Longrightarrow> look c k = Some v \<Longrightarrow> f k v"
  by (simp add: records_def)

end

lemma insert_below_look: "map_of (insert_below n k v m) l = Some w \<Longrightarrow> map_of m l = Some w \<or> l = k \<and> w = v"
  by (auto simp: insert_below_def split: if_splits)

lemma insert_below_length: "length m \<le> n \<Longrightarrow> length (insert_below n k v m) \<le> n"
  by (simp add: insert_below_def)

interpretation keyed: memo get_key insert_key
  by unfold_locales (auto simp: get_key_def insert_key_def dest!: insert_below_look)

interpretation candidate: memo "\<lambda>c (rels, selector). get_candidates c rels selector" "\<lambda>(rels, selector) cs. insert_candidates rels selector cs"
  by unfold_locales (auto simp: get_candidates_def insert_candidates_def dest!: insert_below_look)

interpretation program: memo program_get program_insert
  by unfold_locales (auto simp: program_get_def program_insert_def update_conv split: if_splits)

section \<open>Roles\<close>

text \<open>The resolution by role without a cache; it sees the roles only through \<open>role_value\<close>.\<close>

definition reference_calls :: "dispatch_symbols \<Rightarrow> reader \<Rightarrow> dispatch_relations \<Rightarrow> val \<Rightarrow> roles \<Rightarrow> (val, applicable_method_call list) kresult" where
  "reference_calls sy rd rels selector roles =
     kbind (applicable_method_entries_scan sy rd rels selector roles) (\<lambda>entries. kok (map (call_of_entry sy roles) entries))"

lemma param_value_cong: "role_value roles = role_value roles' \<Longrightarrow> param_value sy roles p = param_value sy roles' p"
  by (simp add: param_value_def)

lemma call_args_cong: "role_value roles = role_value roles' \<Longrightarrow> call_args_loop sy roles ps = call_args_loop sy roles' ps"
  by (induction ps) (auto split: option.split param_mode.split)

lemma reference_calls_cong:
  assumes "role_value roles = role_value roles'"
  shows "reference_calls sy rd rels selector roles = reference_calls sy rd rels selector roles'"
proof -
  have "params_match sy rd d roles ps = params_match sy rd d roles' ps" for d ps
    unfolding params_match_def param_value_cong [OF assms] ..
  moreover have "call_of_entry sy roles = call_of_entry sy roles'"
    unfolding call_of_entry_def method_call_args_from_params_def call_args_cong [OF assms] ..
  ultimately show ?thesis by (simp add: reference_calls_def applicable_method_entries_scan_def filter_method_candidates_def)
qed

lemma normalize_roles_value:
  assumes "distinct (map fst roles)"
  shows "role_value (normalize_dispatch_roles roles) = role_value roles"
proof -
  have m: "mset (normalize_dispatch_roles roles) = mset roles" by (simp add: normalize_dispatch_roles_def mset_sort_by)
  then have "mset (map fst (normalize_dispatch_roles roles)) = mset (map fst roles)" by (simp only: mset_map)
  then have "distinct (map fst (normalize_dispatch_roles roles))" using assms mset_eq_imp_distinct_iff by blast
  then have "map_of (normalize_dispatch_roles roles) = map_of roles"
    using map_of_inject_set [OF _ assms] mset_eq_setD [OF m] by blast
  then show ?thesis by (intro ext) (simp add: role_value_def)
qed

section \<open>Resolution by the number of arguments\<close>

lemma all_unrestrictedD: "all_unrestricted sy ps = Some True \<Longrightarrow> p \<in> set ps \<Longrightarrow> p ! 2 = unrestricted_marker sy"
  by (induction ps) (auto simp: field_def split: if_splits)

lemma matches_unrestricted [simp]: "matches_restriction sy rd d v (unrestricted_marker sy) = kok True"
  by (simp add: matches_restriction_def)

lemma unrestricted_match:
  assumes "all_unrestricted sy params = Some True" "length args = length args'"
  shows "positional_params_match sy rd d args params = positional_params_match sy rd d args' params"
proof (cases "ordered_params params")
  case (Some ps)
  then have u: "p ! 2 = unrestricted_marker sy" if "p \<in> set ps" for p
    using that all_unrestrictedD [OF assms(1)] by (auto simp: ordered_params_def split: if_splits)
  have all: "all_k (\<lambda>(i, p). matches_restriction sy rd d (if i < length xs then xs ! i else p ! 5) (p ! 2)) (enumerate 0 (take n ps)) = kok True" for xs n
  proof -
    have "all_k (\<lambda>(i, p). matches_restriction sy rd d (if i < length xs then xs ! i else p ! 5) (p ! 2)) (enumerate 0 (take n ps)) =
        kok (\<forall>x \<in> set (enumerate 0 (take n ps)). True)"
      by (rule all_k_kok) (auto simp: in_set_enumerate_eq u)
    then show ?thesis by simp
  qed
  show ?thesis
  proof (cases "parameter_layout sy ps")
    case layout: (Some l)
    obtain required fixed rest where l: "l = (required, fixed, rest)" by (cases l)
    have "rest \<Longrightarrow> ps ! fixed ! 2 = unrestricted_marker sy" using u [of "ps ! fixed"] layoutD(2) [OF layout [unfolded l]] by simp
    then have "positional_params_match sy rd d xs params = kok (\<not> (length xs < required \<or> \<not> rest \<and> length xs > fixed))" for xs
      using all [of xs fixed] by (auto simp: positional_params_match_def Some layout l)
    then show ?thesis using assms(2) by simp
  qed (simp add: positional_params_match_def Some)
qed (simp add: positional_params_match_def)

lemma positional_candidates_flag:
  "positional_candidates sy rd d args cs indep = kok (ms, True) \<Longrightarrow> indep \<and> (\<forall>c \<in> set cs. all_unrestricted sy (am_params c) = Some True)"
proof (induction cs arbitrary: indep ms)
  case (Cons c cs)
  then show ?case by (fastforce simp: kbind_Inr kok_def split: option.splits)
qed (simp add: kok_def)

lemma positional_candidates_arity:
  assumes "length args = length args'"
  shows "\<forall>c \<in> set cs. all_unrestricted sy (am_params c) = Some True \<Longrightarrow>
    positional_candidates sy rd d args cs indep = positional_candidates sy rd d args' cs indep"
  by (induction cs arbitrary: indep) (simp_all add: unrestricted_match [OF _ assms])

lemma resolve_by_arity:
  assumes "resolve_positional_methods sy rd rels selector args = kok \<lparr>pr_methods = ms, pr_argument_independent = True\<rparr>"
    "length args' = length args"
  shows "resolve_positional_methods sy rd rels selector args' = kok \<lparr>pr_methods = ms, pr_argument_independent = True\<rparr>"
proof -
  obtain cs where cs: "scan_method_candidates rd rels selector = Some (Inr cs)"
    "filter_positional_candidates sy rd rels args cs = kok \<lparr>pr_methods = ms, pr_argument_independent = True\<rparr>"
    using assms(1) by (auto simp: resolve_positional_methods_def kbind_Inr kok_def)
  obtain found where "positional_candidates sy rd (dr_delegates rels) args cs True = kok (found, True)"
    using cs(2) by (auto simp: filter_positional_candidates_def kbind_Inr kok_def split: option.splits)
  then have "\<forall>c \<in> set cs. all_unrestricted sy (am_params c) = Some True" using positional_candidates_flag by blast
  from positional_candidates_arity [OF assms(2) this] have
    "filter_positional_candidates sy rd rels args' cs = filter_positional_candidates sy rd rels args cs"
    by (simp add: filter_positional_candidates_def)
  then show ?thesis using cs by (simp add: resolve_positional_methods_def)
qed

section \<open>Coherence\<close>

definition cache_right :: "dispatch_symbols \<Rightarrow> reader \<Rightarrow> dispatch_cache \<Rightarrow> bool" where
  "cache_right sy rd c \<longleftrightarrow>
     candidate.records (\<lambda>(rels, selector) cs. scan_method_candidates rd rels selector = kok cs) c \<and>
     keyed.records (\<lambda>(rels, selector, roles) ms. reference_calls sy rd rels selector roles = kok ms) c \<and>
     (\<forall>rels selector args ms. get_positional c rels selector args = Some ms \<longrightarrow>
        (\<exists>i. resolve_positional_methods sy rd rels selector args = kok \<lparr>pr_methods = ms, pr_argument_independent = i\<rparr>))"

definition stored_methods :: "(val \<times> positional_methods) list \<Rightarrow> nat" where
  "stored_methods ss = sum_list (map (\<lambda>(_, e). length (pe_by_arity e) + length (pe_by_values e)) ss)"

definition entries_bounded :: "positional_relation_entries \<Rightarrow> bool" where
  "entries_bounded r \<longleftrightarrow> re_count r = stored_methods (re_selectors r) \<and> re_count r \<le> MAX_POSITIONAL_ENTRIES_PER_RELATION"

definition cache_bounded :: "dispatch_cache \<Rightarrow> bool" where
  "cache_bounded c \<longleftrightarrow> length (dc_entries c) \<le> MAX_KEYED_ENTRIES \<and> length (dc_candidates c) \<le> MAX_KEYED_ENTRIES \<and>
     (\<forall>rels r. map_of (dc_positional c) rels = Some r \<longrightarrow> entries_bounded r)"

definition dcache_ok :: "dispatch_symbols \<Rightarrow> reader \<Rightarrow> dispatch_cache \<Rightarrow> bool" where
  "dcache_ok sy rd c \<longleftrightarrow> cache_right sy rd c \<and> cache_bounded c"

lemma dcache_ok_new: "dcache_ok sy rd dispatch_cache_new"
  unfolding dcache_ok_def cache_right_def candidate.records_def keyed.records_def
  by (simp add: cache_bounded_def dispatch_cache_new_def get_candidates_def get_key_def get_positional_def)

lemma dcache_okD:
  assumes "dcache_ok sy rd c"
  shows "get_candidates c rels selector = Some cs \<Longrightarrow> scan_method_candidates rd rels selector = kok cs"
    "get_key c (rels, selector, roles) = Some ms \<Longrightarrow> reference_calls sy rd rels selector roles = kok ms"
    "get_positional c rels selector args = Some ps \<Longrightarrow>
       \<exists>i. resolve_positional_methods sy rd rels selector args = kok \<lparr>pr_methods = ps, pr_argument_independent = i\<rparr>"
  using assms by (simp_all add: dcache_ok_def cache_right_def candidate.records_def keyed.records_def)

lemma cache_other_parts [simp]:
  "get_key (insert_candidates rels selector cs c) = get_key c"
  "get_positional (insert_candidates rels selector cs c) = get_positional c"
  "get_candidates (insert_key k ms c) = get_candidates c"
  "get_positional (insert_key k ms c) = get_positional c"
  by (intro ext; simp add: get_key_def get_positional_def get_candidates_def insert_candidates_def insert_key_def)+

lemma insert_positional_parts [simp]:
  "get_key (insert_positional rels selector args ms i c) = get_key c"
  "get_candidates (insert_positional rels selector args ms i c) = get_candidates c"
  "dc_entries (insert_positional rels selector args ms i c) = dc_entries c"
  "dc_candidates (insert_positional rels selector args ms i c) = dc_candidates c"
  by (intro ext | simp add: get_key_def get_candidates_def insert_positional_def Let_def split: prod.split)+

lemma insert_candidates_ok:
  assumes "dcache_ok sy rd c" "scan_method_candidates rd rels selector = kok cs"
  shows "dcache_ok sy rd (insert_candidates rels selector cs c)"
proof -
  have "candidate.records (\<lambda>(rels, selector) cs. scan_method_candidates rd rels selector = kok cs) (insert_candidates rels selector cs c)"
    using candidate.records_put [of _ c "(rels, selector)" cs] assms by (simp add: dcache_ok_def cache_right_def)
  moreover have "cache_bounded (insert_candidates rels selector cs c)"
    using assms(1) by (auto simp: dcache_ok_def cache_bounded_def insert_candidates_def insert_below_length)
  ultimately show ?thesis using assms(1) by (simp add: dcache_ok_def cache_right_def keyed.records_def)
qed

lemma insert_key_ok:
  assumes "dcache_ok sy rd c" "reference_calls sy rd rels selector roles = kok ms"
  shows "dcache_ok sy rd (insert_key (rels, selector, roles) ms c)"
proof -
  have "keyed.records (\<lambda>(rels, selector, roles) ms. reference_calls sy rd rels selector roles = kok ms) (insert_key (rels, selector, roles) ms c)"
    using keyed.records_put [of _ c "(rels, selector, roles)" ms] assms by (simp add: dcache_ok_def cache_right_def)
  moreover have "cache_bounded (insert_key (rels, selector, roles) ms c)"
    using assms(1) by (auto simp: dcache_ok_def cache_bounded_def insert_key_def insert_below_length)
  ultimately show ?thesis using assms(1) by (simp add: dcache_ok_def cache_right_def candidate.records_def)
qed

lemma lookup_vacant:
  assumes "lookup_positional (fst (insert_vacant i args ms e)) args' = Some w"
  shows "lookup_positional e args' = Some w \<or> w = ms \<and> (args' = args \<or> i \<and> length args' = length args)"
  using assms by (auto simp: insert_vacant_def lookup_positional_def split: if_splits option.splits)

lemma get_insert_positional:
  assumes "get_positional (insert_positional rels selector args ms i c) rels' selector' args' = Some w"
  shows "get_positional c rels' selector' args' = Some w \<or>
    rels' = rels \<and> selector' = selector \<and> w = ms \<and> (args' = args \<or> i \<and> length args' = length args)"
proof (cases "re_count (or_default no_relation_entries (dc_positional c) rels) \<ge> MAX_POSITIONAL_ENTRIES_PER_RELATION \<or> rels' \<noteq> rels")
  case True
  then have "map_of (dc_positional (insert_positional rels selector args ms i c)) rels' = map_of (dc_positional c) rels'"
    by (auto simp: insert_positional_def Let_def update_conv case_prod_unfold)
  then have "get_positional (insert_positional rels selector args ms i c) rels' selector' args' = get_positional c rels' selector' args'"
    by (simp add: get_positional_def)
  then show ?thesis using assms by simp
next
  case False
  let ?r = "or_default no_relation_entries (dc_positional c) rels"
  let ?e = "or_default no_methods (re_selectors ?r) selector"
  have new: "(if selector' = selector then Some (fst (insert_vacant i args ms ?e)) else map_of (re_selectors ?r) selector') =
      map_of (AList.update selector (fst (insert_vacant i args ms ?e)) (re_selectors ?r)) selector'" by (simp add: update_conv)
  have get: "get_positional c rels selector' args' = (case map_of (re_selectors ?r) selector' of None \<Rightarrow> None | Some e \<Rightarrow> lookup_positional e args')"
    by (simp add: get_positional_def or_default_def no_relation_entries_def split: option.split)
  have none: "lookup_positional no_methods args' = None" by (simp add: lookup_positional_def no_methods_def)
  show ?thesis
  proof (cases "selector' = selector")
    case True
    then have "lookup_positional (fst (insert_vacant i args ms ?e)) args' = Some w"
      using assms False by (simp add: insert_positional_def get_positional_def Let_def update_conv case_prod_unfold)
    from lookup_vacant [OF this] show ?thesis using False True get none by (auto simp: or_default_def split: option.splits)
  next
    case other: False
    then show ?thesis using assms False get
      by (simp add: insert_positional_def get_positional_def [of "dc_positional_update _ _"] Let_def update_conv case_prod_unfold)
  qed
qed

lemma stored_update:
  "stored_methods (AList.update k e ss) + (case map_of ss k of None \<Rightarrow> 0 | Some e' \<Rightarrow> length (pe_by_arity e') + length (pe_by_values e')) =
     stored_methods ss + length (pe_by_arity e) + length (pe_by_values e)"
  by (induction ss) (auto simp: stored_methods_def split: option.split)

lemma insert_vacant_size:
  "insert_vacant i args ms e = (e', vacant) \<Longrightarrow>
     length (pe_by_arity e') + length (pe_by_values e') = length (pe_by_arity e) + length (pe_by_values e) + (if vacant then 1 else 0)"
  by (auto simp: insert_vacant_def split: if_splits)

lemma bounded_put:
  assumes "cache_bounded c" "entries_bounded r" "dc_entries c' = dc_entries c" "dc_candidates c' = dc_candidates c"
    "map_of (dc_positional c') = (map_of (dc_positional c))(rels \<mapsto> r)"
  shows "cache_bounded c'"
  using assms by (auto simp: cache_bounded_def)

lemma insert_positional_bounded:
  assumes "cache_bounded c"
  shows "cache_bounded (insert_positional rels selector args ms i c)"
proof (cases "re_count (or_default no_relation_entries (dc_positional c) rels) \<ge> MAX_POSITIONAL_ENTRIES_PER_RELATION")
  case True
  then show ?thesis using assms by (simp add: insert_positional_def Let_def)
next
  case False
  let ?r = "or_default no_relation_entries (dc_positional c) rels"
  obtain e vacant where v: "insert_vacant i args ms (or_default no_methods (re_selectors ?r) selector) = (e, vacant)" by fastforce
  let ?n = "re_count ?r + (if vacant then 1 else 0)"
  have count: "re_count ?r = stored_methods (re_selectors ?r)"
    using assms by (auto simp: cache_bounded_def entries_bounded_def or_default_def no_relation_entries_def stored_methods_def split: option.split)
  let ?new = "\<lparr>re_selectors = AList.update selector e (re_selectors ?r), re_count = ?n\<rparr>"
  have "stored_methods (AList.update selector e (re_selectors ?r)) = ?n"
    using stored_update [of selector e "re_selectors ?r"] insert_vacant_size [OF v] count
    by (auto simp: or_default_def no_methods_def split: option.splits)
  moreover have "?n \<le> MAX_POSITIONAL_ENTRIES_PER_RELATION" using False by simp
  ultimately have new: "entries_bounded ?new" unfolding entries_bounded_def by simp
  have "dc_positional (insert_positional rels selector args ms i c) = AList.update rels ?new (dc_positional c)"
    using False v by (simp add: insert_positional_def Let_def)
  then have "map_of (dc_positional (insert_positional rels selector args ms i c)) = (map_of (dc_positional c))(rels \<mapsto> ?new)"
    by (simp only: update_conv')
  then show ?thesis by (rule bounded_put [OF assms new insert_positional_parts(3,4)])
qed

lemma insert_positional_ok:
  assumes "dcache_ok sy rd c" "resolve_positional_methods sy rd rels selector args = kok \<lparr>pr_methods = ms, pr_argument_independent = i\<rparr>"
  shows "dcache_ok sy rd (insert_positional rels selector args ms i c)"
proof -
  have pos: "\<exists>j. resolve_positional_methods sy rd rels' selector' args' = kok \<lparr>pr_methods = w, pr_argument_independent = j\<rparr>"
    if "get_positional (insert_positional rels selector args ms i c) rels' selector' args' = Some w" for rels' selector' args' w
    using get_insert_positional [OF that]
  proof
    assume "get_positional c rels' selector' args' = Some w"
    then show ?thesis using assms(1) by (simp add: dcache_ok_def cache_right_def)
  next
    assume new: "rels' = rels \<and> selector' = selector \<and> w = ms \<and> (args' = args \<or> i \<and> length args' = length args)"
    show ?thesis
    proof (cases "args' = args")
      case False
      then show ?thesis using new resolve_by_arity [of sy rd rels selector args ms args'] assms(2) by auto
    qed (use new assms(2) in auto)
  qed
  have "cache_bounded (insert_positional rels selector args ms i c)" using assms(1) insert_positional_bounded by (simp add: dcache_ok_def)
  then show ?thesis using assms(1) pos by (simp add: dcache_ok_def cache_right_def candidate.records_def keyed.records_def)
qed

section \<open>Cached lookups\<close>

definition tolerated :: "dispatch_symbols \<Rightarrow> reader \<Rightarrow> interference \<Rightarrow> bool" where
  "tolerated sy rd others \<longleftrightarrow> (\<forall>i c. dcache_ok sy rd c \<longrightarrow> dcache_ok sy rd (others i c))"

lemma tolerated_step: "tolerated sy rd others \<Longrightarrow> dcache_ok sy rd c \<Longrightarrow> dcache_ok sy rd (others i c)"
  by (simp add: tolerated_def)

text \<open>An operation is right: it answers as without a cache, and the cache it leaves is coherent.\<close>

definition answers_as :: "dispatch_symbols \<Rightarrow> reader \<Rightarrow> (val, 'a) kresult \<Rightarrow> 'a cached \<Rightarrow> bool" where
  "answers_as sy rd r op \<longleftrightarrow> fst op = r \<and> dcache_ok sy rd (snd op)"

lemma answers_bind:
  assumes "answers_as sy rd m op" "\<And>x c. m = kok x \<Longrightarrow> dcache_ok sy rd c \<Longrightarrow> answers_as sy rd (f x) (g x c)"
  shows "answers_as sy rd (kbind m f) (cbind op g)"
proof -
  obtain c where op: "op = (m, c)" "dcache_ok sy rd c" using assms(1) by (cases op) (auto simp: answers_as_def)
  show ?thesis
  proof (cases m)
    case (Some s)
    then show ?thesis using op assms(2) by (cases s) (auto simp: kbind_def cbind_def answers_as_def kok_def)
  qed (simp add: op kbind_def cbind_def answers_as_def)
qed

lemma answers_pure: "dcache_ok sy rd c \<Longrightarrow> answers_as sy rd r (r, c)"
  by (simp add: answers_as_def)

lemma kbind_return: "kbind m kok = m"
  by (auto simp: kbind_def kok_def split: option.split sum.split)

lemma kbind_assoc: "kbind (kbind m f) g = kbind m (\<lambda>x. kbind (f x) g)"
  by (simp add: kbind_def split: option.split sum.split)

lemma method_candidates_ok:
  assumes "dcache_ok sy rd c" "tolerated sy rd others"
  shows "answers_as sy rd (scan_method_candidates rd rels selector) (method_candidates rd rels selector others c)"
proof (cases "get_candidates c rels selector")
  case None
  have "answers_as sy rd (kbind (scan_method_candidates rd rels selector) kok) (method_candidates rd rels selector others c)"
    unfolding method_candidates_def None option.case
  proof (rule answers_bind)
    show "answers_as sy rd (scan_method_candidates rd rels selector) (scan_method_candidates rd rels selector, others 0 c)"
      by (rule answers_pure) (rule tolerated_step [OF assms(2,1)])
  qed (rule answers_pure, rule insert_candidates_ok)
  then show ?thesis by (simp only: kbind_return)
next
  case (Some cs)
  have "scan_method_candidates rd rels selector = kok cs"
    by (rule dcache_okD(1) [OF assms(1) Some])
  then show ?thesis using Some assms(1) by (simp add: method_candidates_def answers_as_def)
qed

lemma uncached_calls_ok:
  assumes "dcache_ok sy rd c" "tolerated sy rd others"
  shows "answers_as sy rd (reference_calls sy rd rels selector roles) (applicable_method_calls_uncached sy rd rels selector roles others c)"
  unfolding reference_calls_def applicable_method_calls_uncached_def applicable_method_entries_scan_def applicable_method_entries_def
  by (intro answers_bind method_candidates_ok [OF assms] answers_pure)

lemma cached_calls_normalized_ok:
  assumes "dcache_ok sy rd c" "tolerated sy rd others"
  shows "answers_as sy rd (reference_calls sy rd rels selector roles) (cached_applicable_method_calls_normalized sy rd rels selector roles others c)"
proof (cases "get_key c (rels, selector, roles)")
  case None
  have "answers_as sy rd (kbind (reference_calls sy rd rels selector roles) kok) (cached_applicable_method_calls_normalized sy rd rels selector roles others c)"
    unfolding cached_applicable_method_calls_normalized_def dispatch_get_normalized_def dispatch_put_normalized_def dispatch_key_new_normalized_def None option.case
    by (rule answers_bind [OF uncached_calls_ok [OF tolerated_step [OF assms(2,1)] assms(2)]])
      (rule answers_pure, erule insert_key_ok [OF tolerated_step [OF assms(2)]])
  then show ?thesis by (simp only: kbind_return)
next
  case (Some ms)
  have "reference_calls sy rd rels selector roles = kok ms"
    by (rule dcache_okD(2) [OF assms(1) Some])
  then show ?thesis using Some assms(1)
    by (simp add: cached_applicable_method_calls_normalized_def dispatch_get_normalized_def dispatch_key_new_normalized_def answers_as_def)
qed

lemma cached_calls_ok:
  assumes "dcache_ok sy rd c" "tolerated sy rd others" "distinct (map fst roles)"
  shows "answers_as sy rd (reference_calls sy rd rels selector roles) (cached_applicable_method_calls sy rd rels selector roles others c)"
proof -
  let ?key = "(rels, selector, normalize_dispatch_roles roles)"
  have eq: "reference_calls sy rd rels selector (normalize_dispatch_roles roles) = reference_calls sy rd rels selector roles"
    by (rule reference_calls_cong [OF normalize_roles_value [OF assms(3)]])
  show ?thesis
  proof (cases "get_key c ?key")
    case None
    have "answers_as sy rd (kbind (reference_calls sy rd rels selector roles) kok) (cached_applicable_method_calls sy rd rels selector roles others c)"
      unfolding cached_applicable_method_calls_def dispatch_get_def dispatch_put_def dispatch_key_new_def None option.case
      by (rule answers_bind [OF uncached_calls_ok [OF tolerated_step [OF assms(2,1)] assms(2)]])
        (rule answers_pure, rule insert_key_ok [OF tolerated_step [OF assms(2)]], simp_all add: eq)
    then show ?thesis by (simp only: kbind_return)
  next
    case (Some ms)
    have "reference_calls sy rd rels selector roles = kok ms"
      using dcache_okD(2) [OF assms(1) Some] by (simp add: eq)
    then show ?thesis using Some assms(1)
      by (simp add: cached_applicable_method_calls_def dispatch_get_def dispatch_key_new_def answers_as_def)
  qed
qed

lemma cached_positional_ok:
  assumes "dcache_ok sy rd c" "tolerated sy rd others"
  shows "answers_as sy rd (kbind (resolve_positional_methods sy rd rels selector args) (\<lambda>r. kok (pr_methods r)))
    (cached_applicable_positional_methods sy rd rels selector args others c)"
proof (cases "get_positional c rels selector args")
  case None
  have "answers_as sy rd (kbind (scan_method_candidates rd rels selector) (\<lambda>cs. kbind (filter_positional_candidates sy rd rels args cs) (\<lambda>r. kok (pr_methods r))))
      (cached_applicable_positional_methods sy rd rels selector args others c)"
    unfolding cached_applicable_positional_methods_def None option.case
  proof (rule answers_bind [OF method_candidates_ok [OF tolerated_step [OF assms(2,1)] assms(2)]], rule answers_bind)
    fix cs c1 assume "dcache_ok sy rd c1"
    then show "answers_as sy rd (filter_positional_candidates sy rd rels args cs) (filter_positional_candidates sy rd rels args cs, c1)" by (rule answers_pure)
  next
    fix cs c1 r c2 assume s: "scan_method_candidates rd rels selector = kok cs" "filter_positional_candidates sy rd rels args cs = kok r" and c2: "dcache_ok sy rd c2"
    then have "resolve_positional_methods sy rd rels selector args = kok \<lparr>pr_methods = pr_methods r, pr_argument_independent = pr_argument_independent r\<rparr>"
      by (simp add: resolve_positional_methods_def)
    then show "answers_as sy rd (kok (pr_methods r))
        (kok (pr_methods r), insert_positional rels selector args (pr_methods r) (pr_argument_independent r) (others 2 c2))"
      by (intro answers_pure insert_positional_ok tolerated_step [OF assms(2) c2])
  qed
  then show ?thesis by (simp only: resolve_positional_methods_def kbind_assoc)
next
  case (Some ms)
  then obtain i where "resolve_positional_methods sy rd rels selector args = kok \<lparr>pr_methods = ms, pr_argument_independent = i\<rparr>"
    using dcache_okD(3) [OF assms(1)] by blast
  then show ?thesis using Some assms(1) by (simp add: cached_applicable_positional_methods_def answers_as_def)
qed

text \<open>The program cache.\<close>

definition programs_right :: "reader \<Rightarrow> program_cache \<Rightarrow> bool" where
  "programs_right rd = program.records (\<lambda>(relation, m) p. method_program_id_uncached rd relation m = kok p)"

lemma cached_program_ok:
  assumes "programs_right rd c" "\<And>c. programs_right rd c \<Longrightarrow> programs_right rd (others c)"
  shows "fst (cached_method_program rd relation m others c) = method_program_id_uncached rd relation m \<and>
    programs_right rd (snd (cached_method_program rd relation m others c))"
proof (cases "program_get c (relation, m)")
  case (Some p)
  have "method_program_id_uncached rd relation m = kok p"
    using assms(1) Some by (simp add: programs_right_def program.records_def)
  then show ?thesis using Some assms(1) by (simp add: cached_method_program_def)
next
  case None
  have o: "programs_right rd (others c)" using assms by blast
  show ?thesis
  proof (cases "\<exists>p. method_program_id_uncached rd relation m = Some (Inr p)")
    case True
    then obtain p where p: "method_program_id_uncached rd relation m = Some (Inr p)" by blast
    then have "programs_right rd (program_insert (relation, m) p (others c))"
      using program.records_put [of _ "others c" "(relation, m)" p] o by (simp add: programs_right_def kok_def)
    then show ?thesis using None p by (simp add: cached_method_program_def kok_def)
  next
    case False
    then show ?thesis using None o by (auto simp: cached_method_program_def split: option.split sum.split)
  qed
qed

end
