(* ===== verification/DispatchTxn.thy ===== *)
theory DispatchTxn
  imports DispatchCache "HOL-Library.Word"
begin

unbundle bit_operations_syntax

text \<open>
  Dispatch in a transaction: the inline caches of \<open>transaction.rs\<close> and the choice between the cached
  lookup in the base snapshot and an uncached resolution over the transaction's own view. What the
  transaction knows of a relation (local writes, an active rule with that head, a computed relation) is
  an argument, as are the readers of the base snapshot and of the transaction: \<open>DispatchWrites\<close> gives
  those of the modelled transaction, proves that the check on them is sound and makes the writes clear
  the inline cache.
\<close>

section \<open>The inline cache\<close>

definition INLINE_DISPATCH_CACHE_CAPACITY :: nat where "INLINE_DISPATCH_CACHE_CAPACITY = 2"
definition POSITIONAL_DISPATCH_SEEN :: "8 word" where "POSITIONAL_DISPATCH_SEEN = 1"
definition POSITIONAL_DISPATCH_CACHED :: "8 word" where "POSITIONAL_DISPATCH_CACHED = 2"
definition METHOD_PROGRAM_ENABLED :: "8 word" where "METHOD_PROGRAM_ENABLED = 4"
definition METHOD_PROGRAM_CACHED :: "8 word" where "METHOD_PROGRAM_CACHED = 8"

datatype positional_args = ArgsEmpty | ArgsOne val | ArgsMany "val list"

fun args_new :: "val list \<Rightarrow> positional_args" where
  "args_new [] = ArgsEmpty"
| "args_new [arg] = ArgsOne arg"
| "args_new args = ArgsMany args"

fun args_match :: "positional_args \<Rightarrow> val list \<Rightarrow> bool" where
  "args_match ArgsEmpty [] = True"
| "args_match (ArgsOne cached_arg) [arg] = (cached_arg = arg)"
| "args_match (ArgsMany cached_args) args = (cached_args = args)"
| "args_match _ _ = False"

record positional_entry =
  pd_relations :: dispatch_relations
  pd_selector :: val
  pd_args :: positional_args
  pd_methods :: "positional_method list"

record program_entry =
  me_relation :: identity
  me_method :: val
  me_program :: "val option"

record inline_entries =
  ie_positional :: "positional_entry option list"
  ie_programs :: "program_entry option list"

record inline_cache =
  ic_state :: "8 word"
  ic_entries :: "inline_entries option"

definition inline_default :: inline_entries where
  "inline_default = \<lparr>ie_positional = replicate INLINE_DISPATCH_CACHE_CAPACITY None, ie_programs = replicate INLINE_DISPATCH_CACHE_CAPACITY None\<rparr>"

definition inline_new :: inline_cache where
  "inline_new = \<lparr>ic_state = 0, ic_entries = None\<rparr>"

definition inline_clear :: "inline_cache \<Rightarrow> inline_cache" where
  "inline_clear c = c\<lparr>ic_state := 0, ic_entries := None\<rparr>"

definition mark_positional_seen :: "8 word \<Rightarrow> inline_cache \<Rightarrow> inline_cache" where
  "mark_positional_seen state c = c\<lparr>ic_state := state OR POSITIONAL_DISPATCH_SEEN\<rparr>"

definition find_positional :: "inline_cache \<Rightarrow> dispatch_relations \<Rightarrow> val \<Rightarrow> val list \<Rightarrow> positional_entry option" where
  "find_positional c rels selector args =
     (case ic_entries c of
        None \<Rightarrow> None
      | Some es \<Rightarrow>
          find (\<lambda>e. pd_relations e = rels \<and> pd_selector e = selector \<and> args_match (pd_args e) args) (List.map_filter id (ie_positional es)))"

definition inline_positional ::
  "dispatch_relations \<Rightarrow> val \<Rightarrow> val list \<Rightarrow> 8 word \<Rightarrow> inline_cache \<Rightarrow> positional_method list option \<times> inline_cache" where
  "inline_positional rels selector args state c =
     (case find_positional c rels selector args of
        None \<Rightarrow> (None, c)
      | Some e \<Rightarrow> (Some (pd_methods e), c\<lparr>ic_state := state OR METHOD_PROGRAM_ENABLED\<rparr>))"

text \<open>The first free slot is filled; a full array stays as it is.\<close>

fun fill_slot :: "'a \<Rightarrow> 'a option list \<Rightarrow> 'a option list" where
  "fill_slot x [] = []"
| "fill_slot x (None # slots) = Some x # slots"
| "fill_slot x (Some y # slots) = Some y # fill_slot x slots"

definition get_or_default :: "inline_cache \<Rightarrow> inline_entries" where
  "get_or_default c = (case ic_entries c of Some es \<Rightarrow> es | None \<Rightarrow> inline_default)"

definition remember_positional ::
  "dispatch_relations \<Rightarrow> val \<Rightarrow> val list \<Rightarrow> positional_method list \<Rightarrow> inline_cache \<Rightarrow> inline_cache" where
  "remember_positional rels selector args ms c =
     (let es = get_or_default c in
      c\<lparr>ic_entries := Some (es\<lparr>ie_positional := fill_slot
          \<lparr>pd_relations = rels, pd_selector = selector, pd_args = args_new args, pd_methods = ms\<rparr> (ie_positional es)\<rparr>)\<rparr>)"

definition promote_positional ::
  "dispatch_relations \<Rightarrow> val \<Rightarrow> val list \<Rightarrow> positional_method list \<Rightarrow> 8 word \<Rightarrow> inline_cache \<Rightarrow> inline_cache" where
  "promote_positional rels selector args ms state c =
     (remember_positional rels selector args ms c)\<lparr>ic_state := state OR POSITIONAL_DISPATCH_CACHED\<rparr>"

definition inline_method_program :: "inline_cache \<Rightarrow> identity \<Rightarrow> val \<Rightarrow> val option option" where
  "inline_method_program c relation m =
     (case ic_entries c of
        None \<Rightarrow> None
      | Some es \<Rightarrow>
          map_option me_program (find (\<lambda>e. me_relation e = relation \<and> me_method e = m) (List.map_filter id (ie_programs es))))"

definition consider_method_program :: "identity \<Rightarrow> val \<Rightarrow> val option \<Rightarrow> 8 word \<Rightarrow> inline_cache \<Rightarrow> inline_cache" where
  "consider_method_program relation m program state c =
     (if state AND METHOD_PROGRAM_ENABLED = 0 then c
      else
        let es = get_or_default c in
        if None \<notin> set (ie_programs es) then c\<lparr>ic_entries := Some es\<rparr>
        else c\<lparr>ic_entries := Some (es\<lparr>ie_programs := fill_slot \<lparr>me_relation = relation, me_method = m, me_program = program\<rparr> (ie_programs es)\<rparr>),
               ic_state := state OR METHOD_PROGRAM_CACHED\<rparr>)"

section \<open>Views\<close>

text \<open>
  The base and the view of a transaction: whether it has neither writes nor restricted reads, which
  relations it wrote, which are heads of active rules, and which are computed (looking the relation
  up fails when it does not exist).
\<close>

record dispatch_view =
  dv_read_view_matches_base :: bool
  dv_has_local_writes :: "identity \<Rightarrow> bool"
  dv_active_rule_head :: "identity \<Rightarrow> bool"
  dv_computed :: "identity \<Rightarrow> (val, bool) kresult"

definition relation_view_matches_base :: "dispatch_view \<Rightarrow> identity \<Rightarrow> (val, bool) kresult" where
  "relation_view_matches_base v relation =
     (if dv_read_view_matches_base v then kok True
      else if dv_has_local_writes v relation then kok False
      else if dv_active_rule_head v relation then kok False
      else kbind (dv_computed v relation) (\<lambda>b. kok (\<not> b)))"

definition dispatch_view_matches_base :: "dispatch_view \<Rightarrow> dispatch_relations \<Rightarrow> (val, bool) kresult" where
  "dispatch_view_matches_base v rels =
     (if dv_read_view_matches_base v then kok True
      else all_k (relation_view_matches_base v) [dr_method_selector rels, dr_param rels, dr_delegates rels])"

definition positional_methods_from_view ::
  "dispatch_symbols \<Rightarrow> dispatch_view \<Rightarrow> reader \<Rightarrow> reader \<Rightarrow> dispatch_relations \<Rightarrow> val \<Rightarrow> val list \<Rightarrow> interference \<Rightarrow> dispatch_cache \<Rightarrow>
     positional_method list cached" where
  "positional_methods_from_view sy v base tx rels selector args others c =
     cbind (dispatch_view_matches_base v rels, c) (\<lambda>same c1.
     if same then cached_applicable_positional_methods sy base rels selector args others c1
     else (kbind (resolve_positional_methods sy tx rels selector args) (\<lambda>resolved. kok (pr_methods resolved)), c1))"

text \<open>
  Where the views differ the candidate cache declines too, so the entries are those of a scan.
\<close>

definition txn_cached_method_calls_unsorted ::
  "dispatch_symbols \<Rightarrow> dispatch_view \<Rightarrow> reader \<Rightarrow> reader \<Rightarrow> dispatch_relations \<Rightarrow> val \<Rightarrow> roles \<Rightarrow> interference \<Rightarrow> dispatch_cache \<Rightarrow>
     applicable_method_call list cached" where
  "txn_cached_method_calls_unsorted sy v base tx rels selector roles others c =
     cbind (dispatch_view_matches_base v rels, c) (\<lambda>same c1.
     if same then cached_applicable_method_calls sy base rels selector roles others c1
     else (kbind (applicable_method_entries_scan sy tx rels selector roles) (\<lambda>entries. kok (map (call_of_entry sy roles) entries)), c1))"

definition txn_cached_method_calls ::
  "dispatch_symbols \<Rightarrow> dispatch_view \<Rightarrow> reader \<Rightarrow> reader \<Rightarrow> dispatch_relations \<Rightarrow> val \<Rightarrow> roles \<Rightarrow> interference \<Rightarrow> dispatch_cache \<Rightarrow>
     applicable_method_call list cached" where
  "txn_cached_method_calls sy v base tx rels selector roles others c =
     cbind (dispatch_view_matches_base v rels, c) (\<lambda>same c1.
     if same then cached_applicable_method_calls_normalized sy base rels selector roles others c1
     else (kbind (applicable_method_entries_scan sy tx rels selector roles) (\<lambda>entries. kok (map (call_of_entry sy roles) entries)), c1))"

definition txn_positional_active ::
  "dispatch_symbols \<Rightarrow> dispatch_view \<Rightarrow> reader \<Rightarrow> reader \<Rightarrow> dispatch_relations \<Rightarrow> val \<Rightarrow> val list \<Rightarrow> 8 word \<Rightarrow> interference \<Rightarrow>
     dispatch_cache \<Rightarrow> inline_cache \<Rightarrow> positional_method list cached \<times> inline_cache" where
  "txn_positional_active sy v base tx rels selector args state others c ic =
     (case inline_positional rels selector args state ic of
        (Some ms, ic1) \<Rightarrow> ((kok ms, c), ic1)
      | (None, ic1) \<Rightarrow>
          (case positional_methods_from_view sy v base tx rels selector args others c of
             (Some (Inr ms), c1) \<Rightarrow> ((kok ms, c1), remember_positional rels selector args ms ic1)
           | failed \<Rightarrow> (failed, ic1)))"

definition txn_positional ::
  "dispatch_symbols \<Rightarrow> dispatch_view \<Rightarrow> reader \<Rightarrow> reader \<Rightarrow> dispatch_relations \<Rightarrow> val \<Rightarrow> val list \<Rightarrow> interference \<Rightarrow>
     dispatch_cache \<Rightarrow> inline_cache \<Rightarrow> positional_method list cached \<times> inline_cache" where
  "txn_positional sy v base tx rels selector args others c ic =
     (let state = ic_state ic in
      if state AND POSITIONAL_DISPATCH_CACHED \<noteq> 0 then txn_positional_active sy v base tx rels selector args state others c ic
      else
        (case positional_methods_from_view sy v base tx rels selector args others c of
           (Some (Inr ms), c1) \<Rightarrow>
             ((kok ms, c1),
              if state AND POSITIONAL_DISPATCH_SEEN = 0 then mark_positional_seen state ic
              else promote_positional rels selector args ms state ic)
         | failed \<Rightarrow> (failed, ic)))"

definition method_program_from_view ::
  "dispatch_view \<Rightarrow> reader \<Rightarrow> reader \<Rightarrow> identity \<Rightarrow> val \<Rightarrow> (program_cache \<Rightarrow> program_cache) \<Rightarrow> program_cache \<Rightarrow>
     (val, val option) kresult \<times> program_cache" where
  "method_program_from_view v base tx relation m others c =
     (case relation_view_matches_base v relation of
        Some (Inr True) \<Rightarrow> cached_method_program base relation m others c
      | Some (Inr False) \<Rightarrow> (method_program_id_uncached tx relation m, c)
      | Some (Inl e) \<Rightarrow> (Some (Inl e), c)
      | None \<Rightarrow> (None, c))"

definition txn_method_program ::
  "dispatch_view \<Rightarrow> reader \<Rightarrow> reader \<Rightarrow> identity \<Rightarrow> val \<Rightarrow> (program_cache \<Rightarrow> program_cache) \<Rightarrow> program_cache \<Rightarrow> inline_cache \<Rightarrow>
     ((val, val option) kresult \<times> program_cache) \<times> inline_cache" where
  "txn_method_program v base tx relation m others c ic =
     (let state = ic_state ic in
      if state AND METHOD_PROGRAM_ENABLED = 0 then (method_program_from_view v base tx relation m others c, ic)
      else
        (case (if state AND METHOD_PROGRAM_CACHED \<noteq> 0 then inline_method_program ic relation m else None) of
           Some program \<Rightarrow> ((kok program, c), ic)
         | None \<Rightarrow>
             (case method_program_from_view v base tx relation m others c of
                (Some (Inr program), c1) \<Rightarrow> ((kok program, c1), consider_method_program relation m program state ic)
              | failed \<Rightarrow> (failed, ic))))"

section \<open>Readers that agree\<close>

definition agree_on :: "identity \<Rightarrow> reader \<Rightarrow> reader \<Rightarrow> bool" where
  "agree_on r a b \<longleftrightarrow> (\<forall>bs. rd_visit a r bs = rd_visit b r bs)"

lemma reaches_loop_le:
  assumes "reaches_loop a d anc seen frontier = Some y" "agree_on d a b"
  shows "reaches_loop b d anc seen frontier = Some y"
  using assms
proof (induction rule: reaches_loop.raw_induct [rotated 1, consumes 1, case_names step])
  case (step loop a d anc seen frontier y)
  have v: "rd_visit b d bs = rd_visit a d bs" for bs using step.prems by (simp add: agree_on_def)
  show ?case
  proof (cases frontier)
    case Nil
    then show ?thesis using step.hyps by (subst reaches_loop.simps) simp
  next
    case (Cons c fr)
    then show ?thesis using step.hyps step.IH [OF _ step.prems]
      by (subst reaches_loop.simps) (auto simp: v split: sum.splits option.splits if_splits)
  qed
qed

lemma agree_sym: "agree_on r a b \<Longrightarrow> agree_on r b a"
  by (simp add: agree_on_def)

lemma delegates_reaches_cong:
  assumes "agree_on d a b"
  shows "delegates_reaches a d = delegates_reaches b d"
proof (intro ext)
  fix c anc
  have "x = z" if "\<And>y. x = Some y \<Longrightarrow> z = Some y" "\<And>y. z = Some y \<Longrightarrow> x = Some y" for x z :: "(val, bool) kresult"
    using that by (cases x) (auto, metis option.exhaust)
  then show "delegates_reaches a d c anc = delegates_reaches b d c anc"
    unfolding delegates_reaches_def using reaches_loop_le [OF _ assms] reaches_loop_le [OF _ agree_sym [OF assms]] by metis
qed

lemma matches_restriction_cong:
  assumes "agree_on d a b"
  shows "matches_restriction sy a d = matches_restriction sy b d"
proof -
  have i: "identity_matches a d = identity_matches b d" by (intro ext) (simp add: identity_matches_def delegates_reaches_cong [OF assms])
  show ?thesis unfolding matches_restriction_def delegates_reaches_cong [OF assms] i ..
qed

lemma restriction_implies_cong:
  assumes "agree_on d a b"
  shows "restriction_implies sy a d = restriction_implies sy b d"
  by (intro ext) (simp add: restriction_implies_def matches_restriction_cong [OF assms])

lemma named_loop_cong:
  assumes "agree_on d a b"
  shows "named_loop sy a d left stricter right = named_loop sy b d left stricter right"
proof (induction right arbitrary: stricter)
  case (Cons p right)
  show ?case unfolding named_loop.simps compare_restrictions_def restriction_implies_cong [OF assms] Cons.IH ..
qed simp

lemma positional_loop_cong:
  assumes "agree_on d a b"
  shows "positional_loop sy a d left lf lr rf stricter right = positional_loop sy b d left lf lr rf stricter right"
proof (induction right arbitrary: stricter)
  case (Cons x right)
  obtain i p where x: "x = (i, p)" by (cases x)
  show ?case unfolding x positional_loop.simps compare_restrictions_def restriction_implies_cong [OF assms] Cons.IH ..
qed simp

lemma prune_cong:
  assumes "agree_on d a b"
  shows "prune_named_methods sy a d = prune_named_methods sy b d" "prune_positional_methods sy a d = prune_positional_methods sy b d"
proof -
  have "named_method_more_specific sy a d = named_method_more_specific sy b d"
    by (intro ext) (simp add: named_method_more_specific_def named_loop_cong [OF assms])
  then show "prune_named_methods sy a d = prune_named_methods sy b d" by (intro ext) (simp add: prune_named_methods_def)
  have "positional_method_more_specific sy a d = positional_method_more_specific sy b d"
    unfolding positional_method_more_specific_def positional_loop_cong [OF assms] ..
  then show "prune_positional_methods sy a d = prune_positional_methods sy b d" by (intro ext) (simp add: prune_positional_methods_def)
qed

definition agree_on_dispatch :: "dispatch_relations \<Rightarrow> reader \<Rightarrow> reader \<Rightarrow> bool" where
  "agree_on_dispatch rels a b \<longleftrightarrow> agree_on (dr_method_selector rels) a b \<and> agree_on (dr_param rels) a b \<and> agree_on (dr_delegates rels) a b"

lemma collect_candidates_cong: "agree_on (dr_param rels) a b \<Longrightarrow> collect_candidates a rels rows = collect_candidates b rels rows"
  by (induction rows) (simp_all add: agree_on_def split: option.split)

lemma scan_candidates_cong: "agree_on_dispatch rels a b \<Longrightarrow> scan_method_candidates a rels selector = scan_method_candidates b rels selector"
  unfolding scan_method_candidates_def using collect_candidates_cong [of rels a b] by (simp add: agree_on_dispatch_def agree_on_def)

lemma positional_candidates_cong:
  assumes "agree_on d a b"
  shows "positional_candidates sy a d args cs i = positional_candidates sy b d args cs i"
proof (induction cs arbitrary: i)
  case (Cons c cs)
  have m: "positional_params_match sy a d args = positional_params_match sy b d args"
    unfolding positional_params_match_def matches_restriction_cong [OF assms] ..
  show ?case unfolding positional_candidates.simps Cons.IH m ..
qed simp

lemma resolve_positional_cong:
  assumes "agree_on_dispatch rels a b"
  shows "resolve_positional_methods sy a rels selector args = resolve_positional_methods sy b rels selector args"
proof -
  have d: "agree_on (dr_delegates rels) a b" using assms by (simp add: agree_on_dispatch_def)
  show ?thesis unfolding resolve_positional_methods_def filter_positional_candidates_def scan_candidates_cong [OF assms]
      positional_candidates_cong [OF d] prune_cong [OF d] ..
qed

lemma entries_scan_cong:
  assumes "agree_on_dispatch rels a b"
  shows "applicable_method_entries_scan sy a rels selector roles = applicable_method_entries_scan sy b rels selector roles"
proof -
  have d: "agree_on (dr_delegates rels) a b" using assms by (simp add: agree_on_dispatch_def)
  have "params_match sy a (dr_delegates rels) roles = params_match sy b (dr_delegates rels) roles"
    unfolding params_match_def matches_restriction_cong [OF d] ..
  then show ?thesis unfolding applicable_method_entries_scan_def filter_method_candidates_def scan_candidates_cong [OF assms] prune_cong [OF d] by simp
qed

section \<open>Inline caches are transparent\<close>

lemma args_match_new [simp]: "args_match (args_new xs) ys \<longleftrightarrow> xs = ys"
  by (cases xs rule: args_new.cases; cases ys rule: args_new.cases) auto

lemma fill_slot_mem: "Some y \<in> set (fill_slot x slots) \<Longrightarrow> Some y \<in> set slots \<or> y = x"
  by (induction x slots rule: fill_slot.induct) auto

lemma length_fill_slot [simp]: "length (fill_slot x slots) = length slots"
  by (induction x slots rule: fill_slot.induct) auto

lemma map_filter_id_mem: "y \<in> set (List.map_filter id slots) \<longleftrightarrow> Some y \<in> set slots"
  by (force simp: List.map_filter_def)

text \<open>Every slot holds the answer over the view, and there are never more than two of a kind.\<close>

definition positional_right :: "dispatch_symbols \<Rightarrow> reader \<Rightarrow> positional_entry \<Rightarrow> bool" where
  "positional_right sy tx e \<longleftrightarrow> (\<forall>args. args_match (pd_args e) args \<longrightarrow>
     kbind (resolve_positional_methods sy tx (pd_relations e) (pd_selector e) args) (\<lambda>r. kok (pr_methods r)) = kok (pd_methods e))"

definition program_right :: "reader \<Rightarrow> program_entry \<Rightarrow> bool" where
  "program_right tx e \<longleftrightarrow> method_program_id_uncached tx (me_relation e) (me_method e) = kok (me_program e)"

definition entries_right :: "dispatch_symbols \<Rightarrow> reader \<Rightarrow> inline_entries \<Rightarrow> bool" where
  "entries_right sy tx es \<longleftrightarrow>
     length (ie_positional es) = INLINE_DISPATCH_CACHE_CAPACITY \<and> length (ie_programs es) = INLINE_DISPATCH_CACHE_CAPACITY \<and>
     (\<forall>e. Some e \<in> set (ie_positional es) \<longrightarrow> positional_right sy tx e) \<and> (\<forall>e. Some e \<in> set (ie_programs es) \<longrightarrow> program_right tx e)"

definition inline_ok :: "dispatch_symbols \<Rightarrow> reader \<Rightarrow> inline_cache \<Rightarrow> bool" where
  "inline_ok sy tx ic \<longleftrightarrow> (case ic_entries ic of None \<Rightarrow> True | Some es \<Rightarrow> entries_right sy tx es)"

lemma inline_ok_cleared [simp]: "inline_ok sy tx inline_new" "inline_ok sy tx (inline_clear ic)"
  by (simp_all add: inline_ok_def inline_new_def inline_clear_def)

lemma inline_ok_state [simp]: "inline_ok sy tx (ic\<lparr>ic_state := s\<rparr>) \<longleftrightarrow> inline_ok sy tx ic"
  by (simp add: inline_ok_def)

lemma entries_right_default: "inline_ok sy tx ic \<Longrightarrow> entries_right sy tx (get_or_default ic)"
  by (auto simp: inline_ok_def get_or_default_def entries_right_def inline_default_def split: option.splits)

lemma remember_ok:
  assumes "inline_ok sy tx ic" "kbind (resolve_positional_methods sy tx rels selector args) (\<lambda>r. kok (pr_methods r)) = kok ms"
  shows "inline_ok sy tx (remember_positional rels selector args ms ic)"
proof -
  let ?e = "\<lparr>pd_relations = rels, pd_selector = selector, pd_args = args_new args, pd_methods = ms\<rparr>"
  have "positional_right sy tx ?e" using assms(2) by (simp add: positional_right_def)
  then show ?thesis using entries_right_default [OF assms(1)]
    by (auto simp: inline_ok_def remember_positional_def Let_def entries_right_def dest: fill_slot_mem)
qed

lemma promote_positional_ok: "inline_ok sy tx (remember_positional rels selector args ms ic) \<Longrightarrow> inline_ok sy tx (promote_positional rels selector args ms s ic)"
  by (simp add: promote_positional_def)

lemma consider_ok:
  assumes "inline_ok sy tx ic" "method_program_id_uncached tx relation m = kok p"
  shows "inline_ok sy tx (consider_method_program relation m p s ic)"
proof -
  have "program_right tx \<lparr>me_relation = relation, me_method = m, me_program = p\<rparr>" using assms(2) by (simp add: program_right_def)
  then show ?thesis using entries_right_default [OF assms(1)] assms(1)
    by (auto simp: consider_method_program_def Let_def inline_ok_def entries_right_def dest: fill_slot_mem)
qed

lemma find_positional_right:
  assumes "inline_ok sy tx ic" "find_positional ic rels selector args = Some e"
  shows "kbind (resolve_positional_methods sy tx rels selector args) (\<lambda>r. kok (pr_methods r)) = kok (pd_methods e)"
proof -
  obtain es where es: "ic_entries ic = Some es" using assms(2) by (auto simp: find_positional_def split: option.splits)
  have f: "pd_relations e = rels" "pd_selector e = selector" "args_match (pd_args e) args" "Some e \<in> set (ie_positional es)"
    using assms(2) es by (auto simp: find_positional_def find_Some_iff map_filter_id_mem [symmetric])
  then have "positional_right sy tx e" using assms(1) es by (simp add: inline_ok_def entries_right_def)
  then show ?thesis using f(1-3) by (simp add: positional_right_def)
qed

lemma inline_program_right:
  assumes "inline_ok sy tx ic" "inline_method_program ic relation m = Some p"
  shows "method_program_id_uncached tx relation m = kok p"
proof -
  obtain es e where es: "ic_entries ic = Some es"
    "find (\<lambda>e. me_relation e = relation \<and> me_method e = m) (List.map_filter id (ie_programs es)) = Some e" "p = me_program e"
    using assms(2) by (auto simp: inline_method_program_def split: option.splits)
  then have f: "me_relation e = relation" "me_method e = m" "Some e \<in> set (ie_programs es)"
    by (auto simp: find_Some_iff map_filter_id_mem [symmetric])
  then show ?thesis using assms(1) es(1,3) by (auto simp: inline_ok_def entries_right_def program_right_def)
qed

text \<open>Where the view matches the base, the two readers agree: what the check is for.\<close>

definition view_sound :: "dispatch_view \<Rightarrow> reader \<Rightarrow> reader \<Rightarrow> bool" where
  "view_sound v base tx \<longleftrightarrow> (\<forall>r. relation_view_matches_base v r = kok True \<longrightarrow> agree_on r tx base)"

lemma view_matches_agree:
  assumes "view_sound v base tx" "dispatch_view_matches_base v rels = kok True"
  shows "agree_on_dispatch rels tx base"
proof -
  have "relation_view_matches_base v r = kok True" if "r \<in> {dr_method_selector rels, dr_param rels, dr_delegates rels}" for r
    using assms(2) that
    by (auto simp: dispatch_view_matches_base_def relation_view_matches_base_def kbind_Inr kok_def split: if_splits)
  then show ?thesis using assms(1) by (simp add: agree_on_dispatch_def view_sound_def)
qed

text \<open>The dispatch relations exist in the base.\<close>

definition dispatch_known :: "dispatch_view \<Rightarrow> dispatch_relations \<Rightarrow> bool" where
  "dispatch_known v rels \<longleftrightarrow> (\<forall>r \<in> {dr_method_selector rels, dr_param rels, dr_delegates rels}. dv_computed v r \<in> {kok True, kok False})"

lemma relation_view_known: "dv_computed v r \<in> {kok True, kok False} \<Longrightarrow> \<exists>b. relation_view_matches_base v r = kok b"
  by (auto simp: relation_view_matches_base_def)

lemma view_known:
  assumes "dispatch_known v rels"
  shows "\<exists>b. dispatch_view_matches_base v rels = kok b"
proof -
  have k: "\<exists>b. relation_view_matches_base v r = kok b" if "r \<in> {dr_method_selector rels, dr_param rels, dr_delegates rels}" for r
    by (rule relation_view_known) (use assms that in \<open>auto simp: dispatch_known_def\<close>)
  obtain x y z where "relation_view_matches_base v (dr_method_selector rels) = kok x" "relation_view_matches_base v (dr_param rels) = kok y"
    "relation_view_matches_base v (dr_delegates rels) = kok z"
    using k [of "dr_method_selector rels"] k [of "dr_param rels"] k [of "dr_delegates rels"] by auto
  then show ?thesis by (auto simp: dispatch_view_matches_base_def)
qed

lemma from_view_ok:
  assumes "dcache_ok sy base c" "tolerated sy base others" "view_sound v base tx" "dispatch_known v rels"
  shows "answers_as sy base (kbind (resolve_positional_methods sy tx rels selector args) (\<lambda>r. kok (pr_methods r)))
    (positional_methods_from_view sy v base tx rels selector args others c)"
proof -
  obtain b where b: "dispatch_view_matches_base v rels = kok b" using view_known [OF assms(4)] by blast
  show ?thesis
  proof (cases b)
    case True
    then have "resolve_positional_methods sy tx rels selector args = resolve_positional_methods sy base rels selector args"
      by (intro resolve_positional_cong view_matches_agree [OF assms(3)]) (simp add: b)
    then show ?thesis using cached_positional_ok [OF assms(1,2)] b True by (simp add: positional_methods_from_view_def cbind_def kok_def)
  next
    case False
    then show ?thesis using b assms(1) by (simp add: positional_methods_from_view_def cbind_def kok_def answers_as_def)
  qed
qed

lemma txn_calls_ok:
  assumes "dcache_ok sy base c" "tolerated sy base others" "view_sound v base tx" "dispatch_known v rels"
  shows "answers_as sy base (reference_calls sy tx rels selector roles) (txn_cached_method_calls sy v base tx rels selector roles others c)"
proof -
  obtain b where b: "dispatch_view_matches_base v rels = kok b" using view_known [OF assms(4)] by blast
  show ?thesis
  proof (cases b)
    case True
    then have "agree_on_dispatch rels tx base" by (intro view_matches_agree [OF assms(3)]) (simp add: b)
    then have "reference_calls sy tx rels selector roles = reference_calls sy base rels selector roles"
      by (simp add: reference_calls_def entries_scan_cong [of rels tx base])
    then show ?thesis using cached_calls_normalized_ok [OF assms(1,2)] b True by (simp add: txn_cached_method_calls_def cbind_def kok_def)
  next
    case False
    then show ?thesis using b assms(1) by (simp add: txn_cached_method_calls_def cbind_def kok_def answers_as_def reference_calls_def)
  qed
qed

lemma txn_calls_unsorted_ok:
  assumes "dcache_ok sy base c" "tolerated sy base others" "view_sound v base tx" "dispatch_known v rels" "distinct (map fst roles)"
  shows "answers_as sy base (reference_calls sy tx rels selector roles) (txn_cached_method_calls_unsorted sy v base tx rels selector roles others c)"
proof -
  obtain b where b: "dispatch_view_matches_base v rels = kok b" using view_known [OF assms(4)] by blast
  show ?thesis
  proof (cases b)
    case True
    then have "agree_on_dispatch rels tx base" by (intro view_matches_agree [OF assms(3)]) (simp add: b)
    then have "reference_calls sy tx rels selector roles = reference_calls sy base rels selector roles"
      by (simp add: reference_calls_def entries_scan_cong [of rels tx base])
    then show ?thesis using cached_calls_ok [OF assms(1,2,5)] b True by (simp add: txn_cached_method_calls_unsorted_def cbind_def kok_def)
  next
    case False
    then show ?thesis using b assms(1) by (simp add: txn_cached_method_calls_unsorted_def cbind_def kok_def answers_as_def reference_calls_def)
  qed
qed

lemma txn_positional_ok:
  assumes "dcache_ok sy base c" "tolerated sy base others" "view_sound v base tx" "dispatch_known v rels" "inline_ok sy tx ic"
  shows "answers_as sy base (kbind (resolve_positional_methods sy tx rels selector args) (\<lambda>r. kok (pr_methods r)))
      (fst (txn_positional sy v base tx rels selector args others c ic)) \<and> inline_ok sy tx (snd (txn_positional sy v base tx rels selector args others c ic))"
proof -
  let ?r = "kbind (resolve_positional_methods sy tx rels selector args) (\<lambda>r. kok (pr_methods r))"
  obtain c1 where c1: "positional_methods_from_view sy v base tx rels selector args others c = (?r, c1)" "dcache_ok sy base c1"
    using from_view_ok [OF assms(1-4)] by (metis answers_as_def prod.collapse)
  have keep: "inline_ok sy tx (remember_positional rels selector args ms ic)" if "?r = Some (Inr ms)" for ms
    using remember_ok [OF assms(5)] that by (simp add: kok_def)
  have active: "answers_as sy base ?r (fst (txn_positional_active sy v base tx rels selector args s others c ic)) \<and>
      inline_ok sy tx (snd (txn_positional_active sy v base tx rels selector args s others c ic))" for s
  proof (cases "find_positional ic rels selector args")
    case (Some e)
    then have "?r = kok (pd_methods e)" by (rule find_positional_right [OF assms(5)])
    then show ?thesis using Some assms(1,5) by (simp add: txn_positional_active_def inline_positional_def answers_as_def)
  next
    case None
    then show ?thesis using c1 assms(5) keep
      by (auto simp: txn_positional_active_def inline_positional_def answers_as_def kok_def split: option.split sum.split)
  qed
  show ?thesis
  proof (cases "ic_state ic AND POSITIONAL_DISPATCH_CACHED = 0")
    case True
    then show ?thesis using c1 assms(5) keep
      by (auto simp: txn_positional_def Let_def answers_as_def kok_def mark_positional_seen_def promote_positional_ok split: option.split sum.split)
  qed (use active in \<open>simp add: txn_positional_def Let_def\<close>)
qed

lemma program_cong: "agree_on r tx base \<Longrightarrow> method_program_id_uncached tx r m = method_program_id_uncached base r m"
  by (simp add: method_program_id_uncached_def agree_on_def)

lemma txn_program_ok:
  assumes "programs_right base c" "\<And>c. programs_right base c \<Longrightarrow> programs_right base (others c)" "view_sound v base tx"
    "dv_computed v relation \<in> {kok True, kok False}" "inline_ok sy tx ic"
  shows "fst (fst (txn_method_program v base tx relation m others c ic)) = method_program_id_uncached tx relation m \<and>
    programs_right base (snd (fst (txn_method_program v base tx relation m others c ic))) \<and>
    inline_ok sy tx (snd (txn_method_program v base tx relation m others c ic))"
proof -
  let ?r = "method_program_id_uncached tx relation m"
  obtain b where b: "relation_view_matches_base v relation = kok b" using relation_view_known [OF assms(4)] by blast
  have "fst (method_program_from_view v base tx relation m others c) = ?r \<and> programs_right base (snd (method_program_from_view v base tx relation m others c))"
  proof (cases b)
    case True
    then have "agree_on relation tx base" using b assms(3) by (simp add: view_sound_def)
    then show ?thesis using True b cached_program_ok [OF assms(1,2)] program_cong by (simp add: method_program_from_view_def kok_def)
  next
    case False
    then show ?thesis using b assms(1) by (simp add: method_program_from_view_def kok_def)
  qed
  then obtain c1 where c1: "method_program_from_view v base tx relation m others c = (?r, c1)" "programs_right base c1" by (metis prod.collapse)
  have keep: "inline_ok sy tx (consider_method_program relation m p s ic)" if "?r = Some (Inr p)" for p s
    by (rule consider_ok [OF assms(5)]) (simp add: that kok_def)
  have hit: "?r = kok p" if "inline_method_program ic relation m = Some p" for p by (rule inline_program_right [OF assms(5) that])
  show ?thesis
    using c1 keep hit assms(1,5) by (auto simp: txn_method_program_def Let_def kok_def split: option.split sum.split)
qed

end
