(* ===== verification/DispatchWrites.thy ===== *)
theory DispatchWrites
  imports DispatchTxn RelationCommit
begin

text \<open>
  Dispatch in the modelled transaction: the reads of a snapshot and of a transaction that dispatch makes
  (\<open>Snapshot::visit\<close>, \<open>Transaction::visit\<close> and what they call), the view of a transaction that decides
  whether the caches of its base may answer, and the life of a transaction as steps: writes of tuples and
  buffers and changes of its read authority, each clearing the inline cache where the code does, mixed
  with lookups. In every state reached from the beginning of a transaction the inline cache is right.

  Parameters stand for the rules of the snapshot, for what the handlers of computed relations return (on a
  snapshot and in a transaction) and for the derived relations, whose maintenance is not modelled. A
  handler in a transaction is given what it can read there: the base, the local writes, the buffer
  writes and the read authority. A read may index the local writes on its way, which changes no later
  read; readers here are functions of the transaction and leave that out.
\<close>

section \<open>Reads\<close>

record rule_definition =
  rf_id :: identity
  rf_rule :: rule
  rf_source :: rstr
  rf_active :: bool

record ('m, 'n, 'e, 'x, 'f) surroundings =
  cx_trees :: "('m, 'n, 'e, 'x, 'f) trees"
  cx_rules :: "rule_definition list"
  cx_computed :: "relation_metadata \<Rightarrow> bool"
  cx_uses_read_authority :: bool
  cx_base_scan :: "('m, 'n) relation_state snapshot \<Rightarrow> relation_metadata \<Rightarrow> val option list \<Rightarrow> (val, tuple list) kresult"
  cx_txn_scan :: "('m, 'n) relation_state snapshot \<Rightarrow> (identity \<Rightarrow> ('e, 'x) overlay option) \<Rightarrow> buffer_writes \<Rightarrow> read_authority \<Rightarrow>
    relation_metadata \<Rightarrow> val option list \<Rightarrow> (val, tuple list) kresult"
  cx_base_derived :: "('m, 'n) relation_state snapshot \<Rightarrow> identity \<Rightarrow> (val, ('m, 'n) relation_state option) kresult"
  cx_txn_derived :: "('m, 'n) relation_state snapshot \<Rightarrow> (identity \<Rightarrow> ('e, 'x) overlay option) \<Rightarrow> buffer_writes \<Rightarrow> read_authority \<Rightarrow>
    identity \<Rightarrow> (val, ('m, 'n) relation_state option) kresult"
  cx_other_reads :: reader

definition relation_has_active_rule_head :: "rule_definition list \<Rightarrow> identity \<Rightarrow> bool" where
  "relation_has_active_rule_head rules relation = list_ex (\<lambda>d. rf_active d \<and> ru_head_relation (rf_rule d) = relation) rules"

text \<open>The rows a visitor that never stops is given, in the order of the visit.\<close>

definition visited_rows ::
  "('m, 'n, 'e, 'x, 'f) trees \<Rightarrow> ('m, 'n) relation_state \<Rightarrow> val option list \<Rightarrow> (val, tuple list) kresult" where
  "visited_rows L st bindings = state_visit (tr_rows L) (tr_index L) st bindings (\<lambda>t rows. kok (Continue, rows @ [t])) []"

definition snapshot_scan_extensional ::
  "('m, 'n, 'e, 'x, 'f) surroundings \<Rightarrow> ('m, 'n) relation_state snapshot \<Rightarrow> identity \<Rightarrow> val option list \<Rightarrow> (val, tuple list) kresult" where
  "snapshot_scan_extensional cx s relation bindings =
     kbind (Some (snapshot_relation s relation)) (\<lambda>st.
       if cx_computed cx (rs_metadata st) then cx_base_scan cx s (rs_metadata st) bindings
       else state_scan (tr_rows (cx_trees cx)) (tr_index (cx_trees cx)) st bindings)"

definition snapshot_visit_extensional ::
  "('m, 'n, 'e, 'x, 'f) surroundings \<Rightarrow> ('m, 'n) relation_state snapshot \<Rightarrow> identity \<Rightarrow> val option list \<Rightarrow> (val, tuple list) kresult" where
  "snapshot_visit_extensional cx s relation bindings =
     kbind (Some (snapshot_relation s relation)) (\<lambda>st.
       if cx_computed cx (rs_metadata st) then cx_base_scan cx s (rs_metadata st) bindings
       else visited_rows (cx_trees cx) st bindings)"

definition with_derived ::
  "('m, 'n, 'e, 'x, 'f) trees \<Rightarrow> val option list \<Rightarrow> (val, ('m, 'n) relation_state option) kresult \<Rightarrow> tuple list \<Rightarrow> (val, tuple list) kresult" where
  "with_derived L bindings derive visible =
     kbind derive (\<lambda>d. case d of
        None \<Rightarrow> kok visible
      | Some rows \<Rightarrow> kbind (state_scan (tr_rows L) (tr_index L) rows bindings) (\<lambda>more_rows. kok (union_ordered_tuple_rows visible more_rows)))"

definition snapshot_scan ::
  "('m, 'n, 'e, 'x, 'f) surroundings \<Rightarrow> ('m, 'n) relation_state snapshot \<Rightarrow> identity \<Rightarrow> val option list \<Rightarrow> (val, tuple list) kresult" where
  "snapshot_scan cx s relation bindings =
     kbind (snapshot_scan_extensional cx s relation bindings) (\<lambda>visible.
       if \<not> relation_has_active_rule_head (cx_rules cx) relation then kok visible
       else with_derived (cx_trees cx) bindings (cx_base_derived cx s relation) visible)"

definition snapshot_visit ::
  "('m, 'n, 'e, 'x, 'f) surroundings \<Rightarrow> ('m, 'n) relation_state snapshot \<Rightarrow> identity \<Rightarrow> val option list \<Rightarrow> (val, tuple list) kresult" where
  "snapshot_visit cx s relation bindings =
     (if \<not> relation_has_active_rule_head (cx_rules cx) relation then snapshot_visit_extensional cx s relation bindings
      else snapshot_scan cx s relation bindings)"

definition is_read_only :: "('m, 'n, 'e, 'x, 'f) rtxn \<Rightarrow> bool" where
  "is_read_only tx \<longleftrightarrow> tx_writes tx = Map.empty \<and> tx_buffer_writes tx = []"

definition has_restricted_computed_reads :: "('m, 'n, 'e, 'x, 'f) surroundings \<Rightarrow> ('m, 'n, 'e, 'x, 'f) rtxn \<Rightarrow> bool" where
  "has_restricted_computed_reads cx tx \<longleftrightarrow> tx_read_authority tx \<noteq> ReadAll \<and> cx_uses_read_authority cx"

definition read_view_matches_base :: "('m, 'n, 'e, 'x, 'f) surroundings \<Rightarrow> ('m, 'n, 'e, 'x, 'f) rtxn \<Rightarrow> bool" where
  "read_view_matches_base cx tx \<longleftrightarrow> is_read_only tx \<and> \<not> has_restricted_computed_reads cx tx"

definition has_local_writes :: "('m, 'n, 'e, 'x, 'f) rtxn \<Rightarrow> identity \<Rightarrow> bool" where
  "has_local_writes tx relation \<longleftrightarrow> tx_writes tx relation \<noteq> None"

text \<open>The rows of \<open>scan_extensional_rows\<close>.\<close>

definition txn_extensional ::
  "('m, 'n, 'e, 'x, 'f) surroundings \<Rightarrow> ('m, 'n, 'e, 'x, 'f) rtxn \<Rightarrow> identity \<Rightarrow> val option list \<Rightarrow> (val, tuple list) kresult" where
  "txn_extensional cx tx relation bindings =
     kbind (scan_extensional_rows (cx_trees cx) (cx_computed cx)
         (\<lambda>t. cx_txn_scan cx (tx_base t) (tx_writes t) (tx_buffer_writes t) (tx_read_authority t)) relation bindings tx)
       (\<lambda>(rows, _). kok rows)"

definition txn_scan ::
  "('m, 'n, 'e, 'x, 'f) surroundings \<Rightarrow> ('m, 'n, 'e, 'x, 'f) rtxn \<Rightarrow> identity \<Rightarrow> val option list \<Rightarrow> (val, tuple list) kresult" where
  "txn_scan cx tx relation bindings =
     kbind (Some (snapshot_relation (tx_base tx) relation)) (\<lambda>st.
       let is_computed = cx_computed cx (rs_metadata st); head = relation_has_active_rule_head (cx_rules cx) relation in
       if is_computed \<and> \<not> head then txn_extensional cx tx relation bindings
       else if read_view_matches_base cx tx then snapshot_scan cx (tx_base tx) relation bindings
       else if cx_rules cx = [] \<and> tx_writes tx relation = None
       then (if is_computed then txn_extensional cx tx relation bindings else snapshot_scan_extensional cx (tx_base tx) relation bindings)
       else kbind (txn_extensional cx tx relation bindings) (\<lambda>visible.
         if head
         then with_derived (cx_trees cx) bindings
                (cx_txn_derived cx (tx_base tx) (tx_writes tx) (tx_buffer_writes tx) (tx_read_authority tx) relation) visible
         else kok visible))"

definition txn_visit ::
  "('m, 'n, 'e, 'x, 'f) surroundings \<Rightarrow> ('m, 'n, 'e, 'x, 'f) rtxn \<Rightarrow> identity \<Rightarrow> val option list \<Rightarrow> (val, tuple list) kresult" where
  "txn_visit cx tx relation bindings =
     kbind (Some (snapshot_relation (tx_base tx) relation)) (\<lambda>st.
       if \<not> relation_has_active_rule_head (cx_rules cx) relation \<and> tx_writes tx relation = None
       then (if cx_computed cx (rs_metadata st) then txn_extensional cx tx relation bindings
             else snapshot_visit_extensional cx (tx_base tx) relation bindings)
       else txn_scan cx tx relation bindings)"

text \<open>
  The \<open>RelationRead\<close> implementations of a snapshot and of a transaction, as far as dispatch calls them. A
  reader has no outcome for a panic; \<open>txn_visit_ok\<close> below excludes it for the stored relations of a
  well-formed transaction.
\<close>

definition snapshot_reader :: "('m, 'n, 'e, 'x, 'f) surroundings \<Rightarrow> ('m, 'n) relation_state snapshot \<Rightarrow> reader" where
  "snapshot_reader cx s =
     (cx_other_reads cx)\<lparr>rd_scan := (\<lambda>r bs. the (snapshot_scan cx s r bs)), rd_visit := (\<lambda>r bs. the (snapshot_visit cx s r bs))\<rparr>"

definition txn_reader :: "('m, 'n, 'e, 'x, 'f) surroundings \<Rightarrow> ('m, 'n, 'e, 'x, 'f) rtxn \<Rightarrow> reader" where
  "txn_reader cx tx =
     (cx_other_reads cx)\<lparr>rd_scan := (\<lambda>r bs. the (txn_scan cx tx r bs)), rd_visit := (\<lambda>r bs. the (txn_visit cx tx r bs))\<rparr>"

text \<open>What \<open>relation_view_matches_base\<close> asks of the transaction.\<close>

definition transaction_view :: "('m, 'n, 'e, 'x, 'f) surroundings \<Rightarrow> ('m, 'n, 'e, 'x, 'f) rtxn \<Rightarrow> dispatch_view" where
  "transaction_view cx tx =
     \<lparr>dv_read_view_matches_base = read_view_matches_base cx tx,
      dv_has_local_writes = has_local_writes tx,
      dv_active_rule_head = relation_has_active_rule_head (cx_rules cx),
      dv_computed = (\<lambda>r. kbind (Some (snapshot_relation (tx_base tx) r)) (\<lambda>st. kok (cx_computed cx (rs_metadata st))))\<rparr>"

section \<open>The check is sound\<close>

text \<open>
  What the trait of computed relations asks of its handlers: a handler sees nothing of a transaction
  without writes but its base, and the grants of the transaction only if some handler declares to use them.
\<close>

definition handlers_read_views :: "('m, 'n, 'e, 'x, 'f) surroundings \<Rightarrow> ('m, 'n) relation_state snapshot \<Rightarrow> bool" where
  "handlers_read_views cx base \<longleftrightarrow> (\<forall>authority md bindings. cx_computed cx md \<longrightarrow> authority = ReadAll \<or> \<not> cx_uses_read_authority cx \<longrightarrow>
     cx_txn_scan cx base Map.empty [] authority md bindings = cx_base_scan cx base md bindings)"

lemma visit_matches_base:
  assumes "handlers_read_views cx (tx_base tx)" "relation_view_matches_base (transaction_view cx tx) r = kok True"
  shows "txn_visit cx tx r bindings = snapshot_visit cx (tx_base tx) r bindings"
proof (cases "snapshot_relation (tx_base tx) r")
  case (Inl e)
  then show ?thesis
    by (simp add: txn_visit_def snapshot_visit_def snapshot_visit_extensional_def snapshot_scan_def snapshot_scan_extensional_def kbind_def)
next
  case (Inr st)
  let ?head = "relation_has_active_rule_head (cx_rules cx) r" and ?c = "cx_computed cx (rs_metadata st)"
  show ?thesis
  proof (cases "read_view_matches_base cx tx")
    case True
    then have ro: "tx_writes tx = Map.empty" "tx_buffer_writes tx = []" "tx_read_authority tx = ReadAll \<or> \<not> cx_uses_read_authority cx"
      by (auto simp: read_view_matches_base_def is_read_only_def has_restricted_computed_reads_def)
    have h: "cx_txn_scan cx (tx_base tx) Map.empty [] (tx_read_authority tx) (rs_metadata st) bindings = cx_base_scan cx (tx_base tx) (rs_metadata st) bindings" if ?c
      using assms(1) ro(3) that unfolding handlers_read_views_def by blast
    show ?thesis
    proof (cases ?head)
      case head: True
      then show ?thesis using Inr True by (simp add: txn_visit_def txn_scan_def snapshot_visit_def kbind_def Let_def)
    next
      case False
      then show ?thesis using Inr ro h
        by (auto simp: txn_visit_def snapshot_visit_def snapshot_visit_extensional_def txn_extensional_def scan_extensional_rows_def kbind_def kok_def
            split: option.split sum.split)
    qed
  next
    case False
    then have "\<not> has_local_writes tx r" "\<not> ?head" "\<not> ?c"
      using assms(2) Inr by (auto simp: relation_view_matches_base_def transaction_view_def kbind_def kok_def split: if_splits)
    then show ?thesis using Inr by (simp add: txn_visit_def snapshot_visit_def has_local_writes_def kbind_def)
  qed
qed

lemma transaction_view_sound:
  assumes "handlers_read_views cx (tx_base tx)"
  shows "view_sound (transaction_view cx tx) (snapshot_reader cx (tx_base tx)) (txn_reader cx tx)"
  using visit_matches_base [OF assms] by (simp add: view_sound_def agree_on_def snapshot_reader_def txn_reader_def)

definition known_relation :: "('m, 'n, 'e, 'x, 'f) rtxn \<Rightarrow> identity \<Rightarrow> bool" where
  "known_relation tx r \<longleftrightarrow> rl_get (sn_relations (tx_base tx)) r \<noteq> None"

lemma known_computed: "known_relation tx r \<Longrightarrow> dv_computed (transaction_view cx tx) r \<in> {kok True, kok False}"
  by (auto simp: known_relation_def transaction_view_def snapshot_relation_def kbind_def kok_def)

definition known_relations :: "('m, 'n, 'e, 'x, 'f) rtxn \<Rightarrow> dispatch_relations \<Rightarrow> bool" where
  "known_relations tx rels \<longleftrightarrow> known_relation tx (dr_method_selector rels) \<and> known_relation tx (dr_param rels) \<and> known_relation tx (dr_delegates rels)"

lemma known_dispatch: "known_relations tx rels \<Longrightarrow> dispatch_known (transaction_view cx tx) rels"
  using known_computed [of tx _ cx] by (auto simp: known_relations_def dispatch_known_def)

text \<open>
  A visit of a stored relation of a well-formed transaction does not panic and returns what the
  transaction sees of it.
\<close>

lemma visited_rows_scan: "state_scan (tr_rows L) (tr_index L) st bindings = kok rows \<Longrightarrow> visited_rows L st bindings = kok rows"
proof -
  assume "state_scan (tr_rows L) (tr_index L) st bindings = kok rows"
  from state_visit_scan(1) [OF this, of "\<lambda>t xs. xs @ [t]" "[]"] have "visited_rows L st bindings = kok (fold (\<lambda>t xs. xs @ [t]) rows [])"
    by (simp add: visited_rows_def)
  moreover have "fold (\<lambda>t xs. xs @ [t]) rows acc = acc @ rows" for acc by (induction rows arbitrary: acc) auto
  ultimately show ?thesis by simp
qed

lemma txn_visit_ok:
  assumes "trees_ok (cx_trees cx)" "txn_ok (cx_trees cx) tx D W" "snapshot_relation (tx_base tx) r = Inr st"
    and "\<not> cx_computed cx (rs_metadata st)" "\<not> relation_has_active_rule_head (cx_rules cx) r"
    and "bindings_ok (state_arity st) bindings" "in_tuple_order st bindings"
  shows "\<exists>rows. txn_visit cx tx r bindings = kok rows \<and> set rows = matching (view (D r) (W r)) bindings \<and> TupleRows.ascending rows"
proof -
  let ?scan = "\<lambda>t. cx_txn_scan cx (tx_base t) (tx_writes t) (tx_buffer_writes t) (tx_read_authority t)"
  obtain rows tx' where rows: "scan_extensional_rows (cx_trees cx) (cx_computed cx) ?scan r bindings tx = kok (rows, tx')"
    "TupleRows.ascending rows" "set rows = matching (view (D r) (W r)) bindings"
    by (rule scan_extensional_ok [where computed = "cx_computed cx" and computed_scan = ?scan, OF assms(1-4,6,7)])
  have ext: "txn_extensional cx tx r bindings = kok rows" using rows(1) by (simp add: txn_extensional_def)
  have "txn_visit cx tx r bindings = kok rows"
  proof (cases "tx_writes tx r")
    case None
    then have "state_scan (tr_rows (cx_trees cx)) (tr_index (cx_trees cx)) st bindings = kok rows"
      using rows(1) assms(3,4) by (auto simp: scan_extensional_rows_def kbind_def kok_def split: option.splits sum.splits)
    then show ?thesis using None assms(3-5) by (simp add: txn_visit_def snapshot_visit_extensional_def visited_rows_scan kbind_def kok_def)
  next
    case (Some ov)
    then have "tx_writes tx \<noteq> Map.empty" by auto
    then show ?thesis using Some assms(3-5) ext
      by (simp add: txn_visit_def txn_scan_def read_view_matches_base_def is_read_only_def Let_def kbind_def kok_def)
  qed
  then show ?thesis using rows(2,3) by blast
qed

section \<open>Operations of a transaction with its caches\<close>

text \<open>
  A transaction with its inline cache and the two caches of its base snapshot, which other threads share.
  The flag \<open>tx_views_cached\<close> says whether the caches that a transaction invalidates may hold something. An
  operation runs with the flag set; where it comes back unset the operation has cleared those caches
  (\<open>invalidate_computed_views\<close>, or the two \<open>clear\<close> calls of \<open>apply_local_change\<close>), the inline cache among them.
\<close>

record ('m, 'n, 'e, 'x, 'f) dispatching =
  dt_txn :: "('m, 'n, 'e, 'x, 'f) rtxn"
  dt_inline :: inline_cache
  dt_cache :: dispatch_cache
  dt_programs :: program_cache

definition begin_dispatch ::
  "('m, 'n) relation_state snapshot \<Rightarrow> dispatch_cache \<Rightarrow> program_cache \<Rightarrow> ('m, 'n, 'e, 'x, 'f) dispatching" where
  "begin_dispatch base c p = \<lparr>dt_txn = txn_new base, dt_inline = inline_new, dt_cache = c, dt_programs = p\<rparr>"

definition cached_txn :: "('m, 'n, 'e, 'x, 'f) dispatching \<Rightarrow> ('m, 'n, 'e, 'x, 'f) rtxn" where
  "cached_txn d = (dt_txn d)\<lparr>tx_views_cached := True\<rparr>"

definition after_operation ::
  "('m, 'n, 'e, 'x, 'f) rtxn \<Rightarrow> ('m, 'n, 'e, 'x, 'f) dispatching \<Rightarrow> ('m, 'n, 'e, 'x, 'f) dispatching" where
  "after_operation tx' d =
     d\<lparr>dt_txn := tx', dt_inline := (if tx_views_cached tx' then dt_inline d else inline_clear (dt_inline d))\<rparr>"

definition dt_apply_local_change ::
  "('m, 'n, 'e, 'x, 'f) surroundings \<Rightarrow> identity \<Rightarrow> tuple \<Rightarrow> local_change \<Rightarrow> ('m, 'n, 'e, 'x, 'f) dispatching \<Rightarrow>
     ('m, 'n, 'e, 'x, 'f) dispatching outcome" where
  "dt_apply_local_change cx i t c d =
     map_option (\<lambda>(r, tx'). (r, after_operation tx' d)) (apply_local_change (cx_trees cx) (cx_computed cx) i t c (cached_txn d))"

definition dt_replace_functional ::
  "('m, 'n, 'e, 'x, 'f) surroundings \<Rightarrow> identity \<Rightarrow> tuple \<Rightarrow> ('m, 'n, 'e, 'x, 'f) dispatching \<Rightarrow> ('m, 'n, 'e, 'x, 'f) dispatching outcome" where
  "dt_replace_functional cx i t d =
     map_option (\<lambda>(r, tx'). (r, after_operation tx' d)) (replace_functional (cx_trees cx) (cx_computed cx) i t (cached_txn d))"

text \<open>Two lists of grants are the same only when they are shared, not when they are equal.\<close>

definition same_grants :: "bool \<Rightarrow> read_authority \<Rightarrow> read_authority \<Rightarrow> bool" where
  "same_grants shared a b =
     (case (a, b) of
        (ReadAll, ReadAll) \<Rightarrow> True
      | (ReadRelations left, ReadRelations right) \<Rightarrow> shared \<and> left = right
      | _ \<Rightarrow> False)"

definition set_read_authority :: "bool \<Rightarrow> read_authority \<Rightarrow> ('m, 'n, 'e, 'x, 'f) rtxn \<Rightarrow> ('m, 'n, 'e, 'x, 'f) rtxn" where
  "set_read_authority shared authority tx =
     (if same_grants shared (tx_read_authority tx) authority then tx
      else tx\<lparr>tx_read_authority := authority, tx_views_cached := False\<rparr>)"

definition dt_set_read_authority ::
  "bool \<Rightarrow> read_authority \<Rightarrow> ('m, 'n, 'e, 'x, 'f) dispatching \<Rightarrow> ('m, 'n, 'e, 'x, 'f) dispatching" where
  "dt_set_read_authority shared authority d = after_operation (set_read_authority shared authority (cached_txn d)) d"

text \<open>The writes of buffers.\<close>

datatype buffer_op =
    CreateBuffer buffer_metadata
  | ReplaceBuffer identity range rstr
  | DeleteBuffer identity
  | CompactBuffer identity
  | RevertBuffer identity revision revision buffer_history
  | ApplyBuffer identity revision "replacement list" "nat option" client_results

fun run_buffer_op :: "(delta \<Rightarrow> nat) \<Rightarrow> buffer_op \<Rightarrow> 'r txn \<Rightarrow> nat \<Rightarrow> (val, 'r txn) kresult" where
  "run_buffer_op sz (CreateBuffer metadata) tx h = create_buffer metadata tx"
| "run_buffer_op sz (ReplaceBuffer i r s) tx h = kbind (replace_buffer i r s tx h) (\<lambda>(tx', _). kok tx')"
| "run_buffer_op sz (DeleteBuffer i) tx h = delete_buffer i tx"
| "run_buffer_op sz (CompactBuffer i) tx h = kbind (compact_buffer i tx h) (\<lambda>(tx', _). kok tx')"
| "run_buffer_op sz (RevertBuffer i revision expected hist) tx h = kbind (revert_buffer i revision expected hist tx h) (\<lambda>(_, tx', _). kok tx')"
| "run_buffer_op sz (ApplyBuffer i expected edits token c) tx h =
     kbind (map_option fst (apply_buffer sz i expected edits token tx c h)) (\<lambda>(_, tx', _). kok tx')"

definition dt_buffer_op ::
  "(delta \<Rightarrow> nat) \<Rightarrow> buffer_op \<Rightarrow> nat \<Rightarrow> ('m, 'n, 'e, 'x, 'f) dispatching \<Rightarrow> (val, ('m, 'n, 'e, 'x, 'f) dispatching) kresult" where
  "dt_buffer_op sz op h d =
     kbind (run_buffer_op sz op (txn.truncate (cached_txn d)) h) (\<lambda>b.
       kok (after_operation ((dt_txn d)\<lparr>tx_buffer_writes := tx_buffer_writes b, tx_views_cached := tx_views_cached b\<rparr>) d))"

text \<open>The lookups.\<close>

definition dispatch_positional ::
  "dispatch_symbols \<Rightarrow> ('m, 'n, 'e, 'x, 'f) surroundings \<Rightarrow> dispatch_relations \<Rightarrow> val \<Rightarrow> val list \<Rightarrow> interference \<Rightarrow>
     ('m, 'n, 'e, 'x, 'f) dispatching \<Rightarrow> (val, positional_method list) kresult \<times> ('m, 'n, 'e, 'x, 'f) dispatching" where
  "dispatch_positional sy cx rels selector args others d =
     (case txn_positional sy (transaction_view cx (dt_txn d)) (snapshot_reader cx (tx_base (dt_txn d))) (txn_reader cx (dt_txn d))
             rels selector args others (dt_cache d) (dt_inline d) of
        ((r, c), ic) \<Rightarrow> (r, d\<lparr>dt_cache := c, dt_inline := ic\<rparr>))"

definition dispatch_calls ::
  "dispatch_symbols \<Rightarrow> ('m, 'n, 'e, 'x, 'f) surroundings \<Rightarrow> dispatch_relations \<Rightarrow> val \<Rightarrow> roles \<Rightarrow> interference \<Rightarrow>
     ('m, 'n, 'e, 'x, 'f) dispatching \<Rightarrow> (val, applicable_method_call list) kresult \<times> ('m, 'n, 'e, 'x, 'f) dispatching" where
  "dispatch_calls sy cx rels selector roles others d =
     (case txn_cached_method_calls sy (transaction_view cx (dt_txn d)) (snapshot_reader cx (tx_base (dt_txn d))) (txn_reader cx (dt_txn d))
             rels selector roles others (dt_cache d) of
        (r, c) \<Rightarrow> (r, d\<lparr>dt_cache := c\<rparr>))"

definition dispatch_calls_unsorted ::
  "dispatch_symbols \<Rightarrow> ('m, 'n, 'e, 'x, 'f) surroundings \<Rightarrow> dispatch_relations \<Rightarrow> val \<Rightarrow> roles \<Rightarrow> interference \<Rightarrow>
     ('m, 'n, 'e, 'x, 'f) dispatching \<Rightarrow> (val, applicable_method_call list) kresult \<times> ('m, 'n, 'e, 'x, 'f) dispatching" where
  "dispatch_calls_unsorted sy cx rels selector roles others d =
     (case txn_cached_method_calls_unsorted sy (transaction_view cx (dt_txn d)) (snapshot_reader cx (tx_base (dt_txn d))) (txn_reader cx (dt_txn d))
             rels selector roles others (dt_cache d) of
        (r, c) \<Rightarrow> (r, d\<lparr>dt_cache := c\<rparr>))"

definition dispatch_program ::
  "('m, 'n, 'e, 'x, 'f) surroundings \<Rightarrow> identity \<Rightarrow> val \<Rightarrow> (program_cache \<Rightarrow> program_cache) \<Rightarrow>
     ('m, 'n, 'e, 'x, 'f) dispatching \<Rightarrow> (val, val option) kresult \<times> ('m, 'n, 'e, 'x, 'f) dispatching" where
  "dispatch_program cx relation m others d =
     (case txn_method_program (transaction_view cx (dt_txn d)) (snapshot_reader cx (tx_base (dt_txn d))) (txn_reader cx (dt_txn d))
             relation m others (dt_programs d) (dt_inline d) of
        ((r, p), ic) \<Rightarrow> (r, d\<lparr>dt_programs := p, dt_inline := ic\<rparr>))"

section \<open>Steps\<close>

text \<open>
  One step of the transaction or of the other threads, which leave the shared caches coherent. A failed
  operation on a buffer leaves the transaction as it was.
\<close>

inductive dispatch_step ::
  "dispatch_symbols \<Rightarrow> ('m, 'n, 'e, 'x, 'f) surroundings \<Rightarrow> ('m, 'n, 'e, 'x, 'f) dispatching \<Rightarrow> ('m, 'n, 'e, 'x, 'f) dispatching \<Rightarrow> bool"
  for sy cx where
  wrote: "dt_apply_local_change cx i t c d = Some (r, d') \<Longrightarrow> dispatch_step sy cx d d'"
| replaced: "dt_replace_functional cx i t d = Some (r, d') \<Longrightarrow> dispatch_step sy cx d d'"
| authorised: "dispatch_step sy cx d (dt_set_read_authority shared authority d)"
| buffered: "dt_buffer_op sz op h d = kok d' \<Longrightarrow> dispatch_step sy cx d d'"
| positional: "tolerated sy (snapshot_reader cx (tx_base (dt_txn d))) others \<Longrightarrow> known_relations (dt_txn d) rels \<Longrightarrow>
    dispatch_positional sy cx rels selector args others d = (answer, d') \<Longrightarrow> dispatch_step sy cx d d'"
| named: "tolerated sy (snapshot_reader cx (tx_base (dt_txn d))) others \<Longrightarrow> known_relations (dt_txn d) rels \<Longrightarrow>
    dispatch_calls sy cx rels selector roles others d = (calls, d') \<Longrightarrow> dispatch_step sy cx d d'"
| named_unsorted: "tolerated sy (snapshot_reader cx (tx_base (dt_txn d))) others \<Longrightarrow> known_relations (dt_txn d) rels \<Longrightarrow>
    distinct (map fst roles) \<Longrightarrow> dispatch_calls_unsorted sy cx rels selector roles others d = (calls, d') \<Longrightarrow> dispatch_step sy cx d d'"
| program: "(\<And>p. programs_right (snapshot_reader cx (tx_base (dt_txn d))) p \<Longrightarrow> programs_right (snapshot_reader cx (tx_base (dt_txn d))) (other p)) \<Longrightarrow>
    known_relation (dt_txn d) relation \<Longrightarrow> dispatch_program cx relation m other d = (prog, d') \<Longrightarrow> dispatch_step sy cx d d'"
| elsewhere: "dcache_ok sy (snapshot_reader cx (tx_base (dt_txn d))) c \<Longrightarrow> programs_right (snapshot_reader cx (tx_base (dt_txn d))) p \<Longrightarrow>
    dispatch_step sy cx d (d\<lparr>dt_cache := c, dt_programs := p\<rparr>)"

definition dispatching_ok ::
  "dispatch_symbols \<Rightarrow> ('m, 'n, 'e, 'x, 'f) surroundings \<Rightarrow> ('m, 'n) relation_state snapshot \<Rightarrow> ('m, 'n, 'e, 'x, 'f) dispatching \<Rightarrow> bool" where
  "dispatching_ok sy cx base d \<longleftrightarrow> tx_base (dt_txn d) = base \<and> inline_ok sy (txn_reader cx (dt_txn d)) (dt_inline d) \<and>
     dcache_ok sy (snapshot_reader cx base) (dt_cache d) \<and> programs_right (snapshot_reader cx base) (dt_programs d)"

subsection \<open>Operations clear the inline cache or leave the view\<close>

definition leaves_view :: "('m, 'n, 'e, 'x, 'f) rtxn \<Rightarrow> ('m, 'n, 'e, 'x, 'f) rtxn \<Rightarrow> bool" where
  "leaves_view tx tx' \<longleftrightarrow> tx_base tx' = tx_base tx \<and>
     (tx_views_cached tx' \<longrightarrow> tx_views_cached tx \<and> tx_writes tx' = tx_writes tx \<and> tx_buffer_writes tx' = tx_buffer_writes tx \<and>
        tx_read_authority tx' = tx_read_authority tx)"

lemma leaves_view_refl [simp]: "leaves_view tx tx"
  by (simp add: leaves_view_def)

lemma leaves_view_trans: "leaves_view a b \<Longrightarrow> leaves_view b c \<Longrightarrow> leaves_view a c"
  by (auto simp: leaves_view_def)

lemma visible_leaves: "visible_tuple_for_key L i t st tx = Some (u, tx') \<Longrightarrow> leaves_view tx tx'"
  by (auto simp: visible_tuple_for_key_def leaves_view_def Let_def split: conflict_policy.splits option.splits)

lemma written_leaves: "record_functional_change L i t c st (write_change L i t c tx) = Some tx' \<Longrightarrow> leaves_view tx tx'"
  by (auto simp: record_functional_change_def write_change_def leaves_view_def split: option.splits)

lemma local_change_leaves:
  assumes "apply_local_change L computed i t c tx = Some (r, tx')"
  shows "leaves_view tx tx'"
proof (cases "require_writable_relation computed tx i")
  case (Inl e)
  then show ?thesis using assms by (simp add: apply_local_change_def)
next
  case (Inr st)
  show ?thesis
  proof (cases "validate_tuple st t")
    case (Inl e)
    then show ?thesis using Inr assms by (simp add: apply_local_change_def)
  next
    case valid: (Inr u)
    let ?look = "if c = Assert \<and> is_functional (rs_metadata st) then visible_tuple_for_key L i t st tx else Some (None, tx)"
    obtain existing tx1 where l: "?look = Some (existing, tx1)" and
      cont: "(if existing \<noteq> None \<and> existing \<noteq> Some t then Some (Inl (FunctionalKeyViolation i (the existing) t), tx1)
         else map_option (\<lambda>tx''. (Inr (), tx'')) (record_functional_change L i t c st (write_change L i t c tx1))) = Some (r, tx')"
      using assms Inr valid by (auto simp: apply_local_change_def split: option.splits)
    have "leaves_view tx tx1" using l visible_leaves by (auto split: if_splits)
    moreover have "leaves_view tx1 tx'" using cont written_leaves by (auto split: if_splits)
    ultimately show ?thesis by (rule leaves_view_trans)
  qed
qed

lemma replace_leaves:
  assumes "replace_functional L computed i t tx = Some (r, tx')"
  shows "leaves_view tx tx'"
proof -
  note l = local_change_leaves [where L = L and computed = computed and i = i]
  have "\<exists>tx1 tx2. leaves_view tx tx1 \<and> leaves_view tx1 tx2 \<and> leaves_view tx2 tx'"
    using assms
    by (auto simp: replace_functional_def txn_assert_def txn_retract_def split: sum.splits if_splits option.splits
        dest!: visible_leaves l) (use leaves_view_refl in blast)+
  then show ?thesis by (auto intro: leaves_view_trans)
qed

lemma authority_leaves: "leaves_view tx (set_read_authority shared authority tx)"
  by (simp add: set_read_authority_def leaves_view_def)

lemma created_clears: "create_buffer m tx = (Some (Inr tx') :: ('v, _) kresult) \<Longrightarrow> \<not> tx_views_cached tx'"
  by (auto simp: create_buffer_def Let_def kok_def kfail_def invalidate_computed_views_def split: if_splits)

lemma kbind_Some_Inr: "kbind m f = Some (Inr y) \<longleftrightarrow> (\<exists>x. m = Some (Inr x) \<and> f x = Some (Inr y))"
  by (auto simp: kbind_def split: option.splits sum.splits)

lemma buffer_op_clears:
  assumes "run_buffer_op sz op tx h = kok tx'"
  shows "tx' = tx \<or> \<not> tx_views_cached tx'"
proof (cases op)
  case (CreateBuffer m)
  then show ?thesis using assms created_clears by (auto simp: kok_def)
next
  case (ReplaceBuffer i r s)
  then show ?thesis using assms
    by (auto simp: kok_def kbind_Some_Inr replace_buffer_def invalidate_computed_views_def split: if_splits)
next
  case (DeleteBuffer i)
  then show ?thesis using assms by (auto simp: kok_def kbind_Some_Inr delete_buffer_def invalidate_computed_views_def)
next
  case (CompactBuffer i)
  then show ?thesis using assms
    by (auto simp: kok_def kbind_Some_Inr kfail_def compact_buffer_def invalidate_computed_views_def split: if_splits option.splits)
next
  case (RevertBuffer i revision expected hist)
  then show ?thesis using assms
    by (auto simp: kok_def kbind_Some_Inr kfail_def revert_buffer_def invalidate_computed_views_def split: if_splits option.splits)
next
  case (ApplyBuffer i expected edits token c)
  then show ?thesis using assms
    by (auto simp: kok_def kbind_Some_Inr apply_buffer_def stage_apply_def invalidate_computed_views_def split: option.splits sum.splits)
qed

section \<open>Every reachable inline cache is right\<close>

lemma reader_cong:
  assumes "tx_base tx' = tx_base tx" "tx_writes tx' = tx_writes tx" "tx_buffer_writes tx' = tx_buffer_writes tx" "tx_read_authority tx' = tx_read_authority tx"
  shows "txn_reader cx tx' = txn_reader cx tx"
proof -
  have e: "txn_extensional cx tx' = txn_extensional cx tx"
    by (intro ext) (auto simp: txn_extensional_def scan_extensional_rows_def assms kbind_def kok_def split: option.split sum.split prod.split)
  have m: "read_view_matches_base cx tx' = read_view_matches_base cx tx"
    by (simp add: read_view_matches_base_def is_read_only_def has_restricted_computed_reads_def assms)
  have "txn_scan cx tx' = txn_scan cx tx"
    by (intro ext) (unfold txn_scan_def e m assms, rule refl)
  moreover from this have "txn_visit cx tx' = txn_visit cx tx"
    by (intro ext) (simp only: txn_visit_def e assms)
  ultimately show ?thesis by (simp add: txn_reader_def)
qed

lemma after_operation_ok:
  assumes "dispatching_ok sy cx base d" "leaves_view (cached_txn d) tx'"
  shows "dispatching_ok sy cx base (after_operation tx' d)"
proof -
  have b: "tx_base tx' = base" using assms by (simp add: leaves_view_def cached_txn_def dispatching_ok_def)
  have "inline_ok sy (txn_reader cx tx') (if tx_views_cached tx' then dt_inline d else inline_clear (dt_inline d))"
  proof (cases "tx_views_cached tx'")
    case True
    then have "txn_reader cx tx' = txn_reader cx (dt_txn d)"
      using assms(2) by (intro reader_cong) (simp_all add: leaves_view_def cached_txn_def)
    then show ?thesis using True assms(1) by (simp add: dispatching_ok_def)
  qed simp
  then show ?thesis using assms(1) b by (simp add: dispatching_ok_def after_operation_def)
qed

lemma buffer_op_leaves:
  assumes "run_buffer_op sz op (txn.truncate (cached_txn d)) h = kok b"
  shows "leaves_view (cached_txn d) ((dt_txn d)\<lparr>tx_buffer_writes := tx_buffer_writes b, tx_views_cached := tx_views_cached b\<rparr>)"
  using buffer_op_clears [OF assms] by (auto simp: leaves_view_def cached_txn_def txn.defs)

lemma dispatch_lookups_ok:
  assumes "handlers_read_views cx base" "dispatching_ok sy cx base d"
  shows "tolerated sy (snapshot_reader cx base) others \<Longrightarrow> known_relations (dt_txn d) rels \<Longrightarrow>
      fst (dispatch_positional sy cx rels selector args others d) =
        kbind (resolve_positional_methods sy (txn_reader cx (dt_txn d)) rels selector args) (\<lambda>r. kok (pr_methods r)) \<and>
      dispatching_ok sy cx base (snd (dispatch_positional sy cx rels selector args others d))"
    "tolerated sy (snapshot_reader cx base) others \<Longrightarrow> known_relations (dt_txn d) rels \<Longrightarrow>
      fst (dispatch_calls sy cx rels selector roles others d) = reference_calls sy (txn_reader cx (dt_txn d)) rels selector roles \<and>
      dispatching_ok sy cx base (snd (dispatch_calls sy cx rels selector roles others d))"
    "tolerated sy (snapshot_reader cx base) others \<Longrightarrow> known_relations (dt_txn d) rels \<Longrightarrow> distinct (map fst roles) \<Longrightarrow>
      fst (dispatch_calls_unsorted sy cx rels selector roles others d) = reference_calls sy (txn_reader cx (dt_txn d)) rels selector roles \<and>
      dispatching_ok sy cx base (snd (dispatch_calls_unsorted sy cx rels selector roles others d))"
    "(\<And>p. programs_right (snapshot_reader cx base) p \<Longrightarrow> programs_right (snapshot_reader cx base) (other p)) \<Longrightarrow> known_relation (dt_txn d) relation \<Longrightarrow>
      fst (dispatch_program cx relation m other d) = method_program_id_uncached (txn_reader cx (dt_txn d)) relation m \<and>
      dispatching_ok sy cx base (snd (dispatch_program cx relation m other d))"
proof -
  let ?tx = "dt_txn d" and ?rd = "snapshot_reader cx base"
  have d: "tx_base ?tx = base" "inline_ok sy (txn_reader cx ?tx) (dt_inline d)" "dcache_ok sy ?rd (dt_cache d)" "programs_right ?rd (dt_programs d)"
    using assms(2) by (simp_all add: dispatching_ok_def)
  have v: "view_sound (transaction_view cx ?tx) ?rd (txn_reader cx ?tx)"
    using transaction_view_sound [of cx ?tx] assms(1) d(1) by simp
  note k = known_dispatch [of ?tx rels cx] and unfold = dispatching_ok_def answers_as_def d
  show "fst (dispatch_positional sy cx rels selector args others d) =
        kbind (resolve_positional_methods sy (txn_reader cx ?tx) rels selector args) (\<lambda>r. kok (pr_methods r)) \<and>
      dispatching_ok sy cx base (snd (dispatch_positional sy cx rels selector args others d))"
    if "tolerated sy ?rd others" "known_relations ?tx rels"
    using txn_positional_ok [OF d(3) that(1) v k [OF that(2)] d(2), of selector args]
    by (auto simp: dispatch_positional_def unfold split: prod.split)
  show "fst (dispatch_calls sy cx rels selector roles others d) = reference_calls sy (txn_reader cx ?tx) rels selector roles \<and>
      dispatching_ok sy cx base (snd (dispatch_calls sy cx rels selector roles others d))"
    if "tolerated sy ?rd others" "known_relations ?tx rels"
    using txn_calls_ok [OF d(3) that(1) v k [OF that(2)], of selector roles] by (auto simp: dispatch_calls_def unfold split: prod.split)
  show "fst (dispatch_calls_unsorted sy cx rels selector roles others d) = reference_calls sy (txn_reader cx ?tx) rels selector roles \<and>
      dispatching_ok sy cx base (snd (dispatch_calls_unsorted sy cx rels selector roles others d))"
    if "tolerated sy ?rd others" "known_relations ?tx rels" "distinct (map fst roles)"
    using txn_calls_unsorted_ok [OF d(3) that(1) v k [OF that(2)] that(3), of selector] by (auto simp: dispatch_calls_unsorted_def unfold split: prod.split)
  show "fst (dispatch_program cx relation m other d) = method_program_id_uncached (txn_reader cx ?tx) relation m \<and>
      dispatching_ok sy cx base (snd (dispatch_program cx relation m other d))"
    if other: "\<And>p. programs_right ?rd p \<Longrightarrow> programs_right ?rd (other p)" and "known_relation ?tx relation"
  proof -
    have "fst (fst (txn_method_program (transaction_view cx ?tx) ?rd (txn_reader cx ?tx) relation m other (dt_programs d) (dt_inline d))) =
        method_program_id_uncached (txn_reader cx ?tx) relation m \<and>
      programs_right ?rd (snd (fst (txn_method_program (transaction_view cx ?tx) ?rd (txn_reader cx ?tx) relation m other (dt_programs d) (dt_inline d)))) \<and>
      inline_ok sy (txn_reader cx ?tx) (snd (txn_method_program (transaction_view cx ?tx) ?rd (txn_reader cx ?tx) relation m other (dt_programs d) (dt_inline d)))"
      by (rule txn_program_ok [OF d(4) _ v known_computed [OF that(2)] d(2)]) (rule other)
    then show ?thesis by (auto simp: dispatch_program_def unfold split: prod.split)
  qed
qed

lemma dispatch_step_ok:
  assumes "dispatch_step sy cx d d'" "handlers_read_views cx base" "dispatching_ok sy cx base d"
  shows "dispatching_ok sy cx base d'"
  using assms(1)
proof cases
  case (wrote i t c r)
  then show ?thesis by (auto simp: dt_apply_local_change_def intro: after_operation_ok [OF assms(3)] dest!: local_change_leaves)
next
  case (replaced i t r)
  then show ?thesis by (auto simp: dt_replace_functional_def intro: after_operation_ok [OF assms(3)] dest!: replace_leaves)
next
  case (authorised shared authority)
  then show ?thesis using after_operation_ok [OF assms(3) authority_leaves] by (simp add: dt_set_read_authority_def)
next
  case (buffered sz op h)
  then obtain b where b: "run_buffer_op sz op (txn.truncate (cached_txn d)) h = kok b"
    "d' = after_operation ((dt_txn d)\<lparr>tx_buffer_writes := tx_buffer_writes b, tx_views_cached := tx_views_cached b\<rparr>) d"
    by (auto simp: dt_buffer_op_def kbind_Some_Inr kok_def)
  show ?thesis unfolding b(2) by (rule after_operation_ok [OF assms(3) buffer_op_leaves [OF b(1)]])
next
  case (positional others rels selector args answer)
  then show ?thesis using dispatch_lookups_ok(1) [OF assms(2,3), of others rels selector args] assms(3) by (simp add: dispatching_ok_def)
next
  case (named others rels selector roles calls)
  then show ?thesis using dispatch_lookups_ok(2) [OF assms(2,3), of others rels selector roles] assms(3) by (simp add: dispatching_ok_def)
next
  case (named_unsorted others rels roles selector calls)
  then show ?thesis using dispatch_lookups_ok(3) [OF assms(2,3), of others rels roles selector] assms(3) by (simp add: dispatching_ok_def)
next
  case (program other relation m prog)
  have b: "tx_base (dt_txn d) = base" using assms(3) by (simp add: dispatching_ok_def)
  have "dispatching_ok sy cx base (snd (dispatch_program cx relation m other d))"
    by (rule conjunct2 [OF dispatch_lookups_ok(4) [OF assms(2,3)]]) (use program b in simp_all)
  then show ?thesis using program by simp
next
  case (elsewhere c p)
  then show ?thesis using assms(3) by (simp add: dispatching_ok_def)
qed

lemma dispatch_reachable_ok:
  assumes "(dispatch_step sy cx)\<^sup>*\<^sup>* (begin_dispatch base c p) d" "handlers_read_views cx base"
    and "dcache_ok sy (snapshot_reader cx base) c" "programs_right (snapshot_reader cx base) p"
  shows "dispatching_ok sy cx base d"
  using assms(1)
proof (induction rule: rtranclp_induct)
  case base
  then show ?case using assms(3,4) by (simp add: dispatching_ok_def begin_dispatch_def txn_new_def)
next
  case (step d d')
  then show ?case using dispatch_step_ok assms(2) by blast
qed

end
