(* ===== verification/DispatchProperties.thy ===== *)
theory DispatchProperties
  imports DispatchWrites KernelSteps RuleMaps
begin

text \<open>
  The correctness of dispatch: delegation, the resolution of calls by position and by role, and the
  caches in front of it. The witnesses are about two methods for one selector, of which the one whose
  restriction delegates to the other's is the more specific.
\<close>

section \<open>A sample\<close>

definition sample_symbols :: dispatch_symbols where
  "sample_symbols = \<lparr>ds_unrestricted = 0, ds_frob_only = 1,
     ds_name = [2 \<mapsto> str_of ''required'', 3 \<mapsto> str_of ''optional'', 4 \<mapsto> str_of ''rest'']\<rparr>"

definition sample_relations :: dispatch_relations where
  "sample_relations = \<lparr>dr_method_selector = 1, dr_param = 2, dr_delegates = 3\<rparr>"

definition sample_param :: "identity \<Rightarrow> identity \<Rightarrow> tuple" where
  "sample_param m r = [VIdentity m, VSymbol 5, VIdentity r, VInt 0, VSymbol 2, VBool False]"

definition sample_methods :: tuple_map where
  "sample_methods =
     [(1, [[VIdentity 100, VSymbol 9], [VIdentity 101, VSymbol 9]]),
      (2, [sample_param 100 50, sample_param 101 51]),
      (3, [[VIdentity 50, VIdentity 51, VInt 0], [VIdentity 60, VIdentity 50, VInt 0]])]"

definition sample_dispatch_arity :: "identity \<Rightarrow> nat" where
  "sample_dispatch_arity r = (if r = 1 then 2 else if r = 2 then 6 else 3)"

lemma sample_dispatch_reads:
  "dispatch_reads sample_dispatch_arity (tuple_map_reader sample_methods) (tuples sample_methods) sample_relations"
proof -
  have "arities_ok sample_dispatch_arity sample_methods"
    by (auto simp: arities_ok_def tuples_def tm_get_def sample_methods_def sample_dispatch_arity_def sample_param_def)
  then show ?thesis using tuple_map_reader_reads tuple_map_answers
    by (simp add: dispatch_reads_def sample_relations_def sample_dispatch_arity_def tuples_def)
qed

lemma sample_delegation: "delegation (tuples sample_methods) 3 = {(VIdentity 50, VIdentity 51), (VIdentity 60, VIdentity 50)}"
  by (simp add: delegation_def tuples_def tm_get_def sample_methods_def)

lemma sample_declares: "declares (tuples sample_methods) sample_relations (VSymbol 9) m \<longleftrightarrow> m = VIdentity 100 \<or> m = VIdentity 101"
  by (auto simp: declares_def sample_relations_def tuples_def tm_get_def sample_methods_def)

lemma sample_params:
  "params_of (tuple_map_reader sample_methods) sample_relations (VIdentity 100) = [sample_param 100 50]"
  "params_of (tuple_map_reader sample_methods) sample_relations (VIdentity 101) = [sample_param 101 51]"
  by (simp_all add: params_of_def sample_relations_def tuple_map_reader_def Let_def tm_get_def sample_methods_def matches_param) 
    (simp_all add: sample_param_def)

lemma sample_layout: "parameter_layout sample_symbols [sample_param m r] = Some (1, 1, False)" "ordered_params [sample_param m r] = Some [sample_param m r]"
proof -
  have p: "param_position (sample_param m r) = Some 0" by (simp add: param_position_def field_def sample_param_def)
  have "sample_param m r ! 4 = VSymbol 2" by (simp add: sample_param_def)
  then have "parameter_mode sample_symbols (sample_param m r) = Some ModeRequired" by (simp add: parameter_mode_def sample_symbols_def) (simp add: sample_param_def)
  then show "parameter_layout sample_symbols [sample_param m r] = Some (1, 1, False)" using p by (simp add: parameter_layout_def)
  show "ordered_params [sample_param m r] = Some [sample_param m r]" using p by (simp add: ordered_params_def)
qed

section \<open>Delegation\<close>

text \<open>
  C21. The traversals of delegation end, cycles included, and compute the transitive closure of the stored
  delegation: \<open>delegates_reaches\<close> tells whether the ancestor is reachable in one or more steps, and
  \<open>delegates_star_from\<close> returns each reachable prototype once, in the order of values when they are valid;
  \<open>delegates_star\<close> returns the whole closure.
\<close>

theorem delegation_closure:
  assumes "dispatch_reads ar rd M rels"
  shows "delegates_reaches rd (dr_delegates rels) child ancestor = kok ((child, ancestor) \<in> (delegation M (dr_delegates rels))\<^sup>+) \<and>
    (\<exists>protos. delegates_star_from rd (dr_delegates rels) child = kok protos \<and> set protos = (delegation M (dr_delegates rels))\<^sup>+ `` {child} \<and>
      distinct protos \<and> ((\<forall>v \<in> set protos. valid v) \<longrightarrow> strictly val_cmp protos)) \<and>
    (\<exists>rows. delegates_star rd (dr_delegates rels) = kok rows \<and> set rows = {[c, p] | c p. (c, p) \<in> (delegation M (dr_delegates rels))\<^sup>+})"
  by (intro conjI delegates_reaches_ok [OF assms] star_from_ok [OF assms] delegates_star_ok [OF assms])

theorem delegation_closure_witness:
  "delegates_reaches (tuple_map_reader sample_methods) 3 (VIdentity 60) (VIdentity 51) = kok True \<and>
   delegates_reaches (tuple_map_reader sample_methods) 3 (VIdentity 51) (VIdentity 51) = kok False"
proof -
  have d: "dr_delegates sample_relations = 3" by (simp add: sample_relations_def)
  have "(VIdentity 60, VIdentity 51) \<in> (delegation (tuples sample_methods) 3)\<^sup>+"
    unfolding sample_delegation by (rule trancl_into_trancl [of _ "VIdentity 50"]) auto
  moreover have "(VIdentity 51, VIdentity 51) \<notin> (delegation (tuples sample_methods) 3)\<^sup>+"
    unfolding sample_delegation by (auto dest: tranclD)
  ultimately show ?thesis
    using delegation_closure [OF sample_dispatch_reads, unfolded d, of "VIdentity 60" "VIdentity 51"]
      delegation_closure [OF sample_dispatch_reads, unfolded d, of "VIdentity 51" "VIdentity 51"] by simp
qed

section \<open>Resolution\<close>

text \<open>
  C12. A call never panics and never fails on a store with the right arities. By position it returns, in
  the order of values and each once, exactly the methods that declare the selector and whose
  parameters accept the arguments, less those that another such method is more specific than; each
  comes with a binding that turns the arguments into one value per parameter, and every such value
  fits the restriction of its parameter. The flag is set exactly when no parameter is restricted. A call
  by role keeps of the same candidates, in their order, those that accept the roles and that no other
  such candidate is more specific than.
\<close>

theorem call_resolution:
  assumes "dispatch_reads ar rd M rels" "\<And>m. declares M rels selector m \<Longrightarrow> valid m"
  shows "(\<exists>res. resolve_positional_methods sy rd rels selector args = kok res \<and> strictly val_cmp (map pm_method (pr_methods res)) \<and>
    pm_method ` set (pr_methods res) = {m. callable sy rd M rels selector args m \<and>
      \<not> (\<exists>m'. callable sy rd M rels selector args m' \<and> overrides sy rd rels m' m)} \<and>
    (\<forall>pm \<in> set (pr_methods res). \<exists>ps vs. ordered_params (params_of rd rels (pm_method pm)) = Some ps \<and>
       bind_arguments pm args = Some vs \<and> all_fit sy (delegation M (dr_delegates rels)) ps vs) \<and>
    (pr_argument_independent res \<longleftrightarrow>
       (\<forall>m. declares M rels selector m \<longrightarrow> (\<forall>p \<in> set (params_of rd rels m). p ! 2 = unrestricted_marker sy)))) \<and>
    (\<exists>cs. set cs = entry_of rd rels ` {m. declares M rels selector m} \<and>
       applicable_method_entries_scan sy rd rels selector roles =
         kok (let ms = filter (named_callable sy rd M rels roles) cs in
              filter (\<lambda>c. \<not> (\<exists>a \<in> set ms. better (named_method_more_specific sy rd (dr_delegates rels)) a c)) ms))"
proof -
  obtain cs where cs: "scan_method_candidates rd rels selector = kok cs" "set cs = entry_of rd rels ` {m. declares M rels selector m}"
    using scan_method_candidates_ok [OF assms(1)] by blast
  have roles: "\<exists>cs. set cs = entry_of rd rels ` {m. declares M rels selector m} \<and>
       applicable_method_entries_scan sy rd rels selector roles =
         kok (let ms = filter (named_callable sy rd M rels roles) cs in
              filter (\<lambda>c. \<not> (\<exists>a \<in> set ms. better (named_method_more_specific sy rd (dr_delegates rels)) a c)) ms)"
    by (rule exI [of _ cs]) (simp add: cs(2) applicable_method_entries_scan_def cs(1) named_entries_ok [OF assms(1)])
  show ?thesis
    using filter_positional_ok [OF assms(1) cs(2) assms(2)] roles unfolding resolve_positional_methods_def cs(1) kbind_kok by (rule conjI)
qed

theorem call_resolution_witness:
  "\<exists>res. resolve_positional_methods sample_symbols (tuple_map_reader sample_methods) sample_relations (VSymbol 9) [VIdentity 60] = kok res \<and>
     \<not> pr_argument_independent res"
proof -
  have "valid m" if "declares (tuples sample_methods) sample_relations (VSymbol 9) m" for m
    using that by (auto simp: sample_declares PAYLOAD_LIMIT_def)
  from call_resolution [OF sample_dispatch_reads this, where sy = sample_symbols and args = "[VIdentity 60]"] obtain res where
    "resolve_positional_methods sample_symbols (tuple_map_reader sample_methods) sample_relations (VSymbol 9) [VIdentity 60] = kok res"
    "pr_argument_independent res \<longleftrightarrow> (\<forall>m. declares (tuples sample_methods) sample_relations (VSymbol 9) m \<longrightarrow>
       (\<forall>p \<in> set (params_of (tuple_map_reader sample_methods) sample_relations m). p ! 2 = unrestricted_marker sample_symbols))" by blast
  then show ?thesis by (auto simp: sample_declares sample_params sample_param_def unrestricted_marker_def)
qed

text \<open>
  C36. A call that some method accepts is never left without a most specific one when the accepting
  methods have required parameters only, restricted by identities or not at all, even where the
  delegation has cycles.
\<close>

theorem most_specific_method:
  assumes "dispatch_reads ar rd M rels" "\<And>m. declares M rels selector m \<Longrightarrow> valid m" "callable sy rd M rels selector args m"
    "\<And>m. callable sy rd M rels selector args m \<Longrightarrow> \<exists>ps. ordered_params (params_of rd rels m) = Some ps \<and> plain_params sy ps"
  shows "\<exists>res. resolve_positional_methods sy rd rels selector args = kok res \<and> pr_methods res \<noteq> []"
proof -
  obtain cs where cs: "scan_method_candidates rd rels selector = kok cs" "set cs = entry_of rd rels ` {m. declares M rels selector m}"
    using scan_method_candidates_ok [OF assms(1)] by blast
  have "am_method ` set cs = {m. declares M rels selector m}" unfolding cs(2) by (simp add: image_image)
  then have fin: "finite {m. declares M rels selector m}" by (metis finite_imageI finite_set)
  obtain res where res: "filter_positional_candidates sy rd rels args cs = kok res"
    "pm_method ` set (pr_methods res) = {m. callable sy rd M rels selector args m \<and>
      \<not> (\<exists>m'. callable sy rd M rels selector args m' \<and> overrides sy rd rels m' m)}"
    using filter_positional_ok [OF assms(1) cs(2) assms(2), of sy args] by blast
  obtain z where "z \<in> pm_method ` set (pr_methods res)"
    using most_specific_exists [OF assms(1) fin assms(3,4)] unfolding res(2) by blast
  then have "pr_methods res \<noteq> []" by auto
  then show ?thesis using res(1) cs(1) by (simp add: resolve_positional_methods_def)
qed

theorem most_specific_method_witness:
  "\<exists>res. resolve_positional_methods sample_symbols (tuple_map_reader sample_methods) sample_relations (VSymbol 9) [VIdentity 60] = kok res \<and>
     pr_methods res \<noteq> []"
proof (rule most_specific_method [OF sample_dispatch_reads])
  let ?E = "delegation (tuples sample_methods) 3"
  show "valid m" if "declares (tuples sample_methods) sample_relations (VSymbol 9) m" for m
    using that by (auto simp: sample_declares PAYLOAD_LIMIT_def)
  have d: "dr_delegates sample_relations = 3" by (simp add: sample_relations_def)
  have "(VIdentity 60, VIdentity 50) \<in> ?E\<^sup>+" unfolding sample_delegation by auto
  then have "fits_restriction sample_symbols ?E (VIdentity 60) (VIdentity 50)" by (simp add: fits_restriction_def frob_only_restriction_def)
  then have "positional_applies sample_symbols ?E [sample_param 100 50] [VIdentity 60]"
    unfolding positional_applies_def
    by (intro exI [of _ "[sample_param 100 50]"] exI [of _ 1] exI [of _ False])
      (simp add: sample_layout arity_ok_def all_fit_def bound_values_def; simp add: sample_param_def)
  then show "callable sample_symbols (tuple_map_reader sample_methods) (tuples sample_methods) sample_relations (VSymbol 9) [VIdentity 60] (VIdentity 100)"
    by (simp add: callable_def sample_declares sample_params d)
  show "\<exists>ps. ordered_params (params_of (tuple_map_reader sample_methods) sample_relations m) = Some ps \<and> plain_params sample_symbols ps"
    if "callable sample_symbols (tuple_map_reader sample_methods) (tuples sample_methods) sample_relations (VSymbol 9) [VIdentity 60] m" for m
  proof -
    have plain: "plain_params sample_symbols [sample_param k r]" for k r
      by (simp add: plain_params_def sample_layout) (simp add: simple_restriction_def sample_param_def)
    have "m = VIdentity 100 \<or> m = VIdentity 101" using that by (simp add: callable_def sample_declares)
    then show ?thesis using plain by (auto simp: sample_params sample_layout)
  qed
qed

text \<open>
  C37. Calling one method by position and by role agree: when the method declares no role twice, the roles
  that \<open>positional_method_args\<close> gives to the arguments of a positional call are accepted by
  \<open>params_match\<close> exactly when \<open>positional_params_match\<close> accepts the arguments, and bind the same values,
  defaults and the rest list included. The choice among several accepted methods is not compared.
\<close>

theorem position_role_agreement:
  assumes "dispatch_reads ar rd M rels" "positional_method_args sy params args = Some (Some roles)" "distinct (map fst roles)"
  shows "method_call_args_from_params sy params roles = Some (map snd roles) \<and> length roles = length params \<and>
    params_match sy rd (dr_delegates rels) roles params = positional_params_match sy rd (dr_delegates rels) args params"
proof -
  obtain ps required fixed rest where o: "ordered_params params = Some ps" and l: "parameter_layout sy ps = Some (required, fixed, rest)"
    using assms(2) by (auto simp: positional_method_args_def split: option.splits)
  let ?bv = "bound_values fixed rest args ps"
  have ar: "arity_ok (required, fixed, rest) args" and r: "roles = zip (map (\<lambda>p. p ! 1) ps) ?bv"
    using assms(2) positional_method_args_ok [OF o l, of args] by (auto split: if_splits)
  have len: "length ?bv = length ps" by (rule length_bound_values [OF l])
  have "distinct (map (\<lambda>p. p ! 1) ps)" using assms(3) len unfolding r by simp
  from roles_of_positional [OF o l this, of args] have args: "method_call_args_from_params sy params roles = Some ?bv" unfolding r .
  have "role_applies sy E params roles = positional_applies sy E params args" for E
    using args o l ar by (simp add: role_applies_def positional_applies_def)
  moreover have "length ps = length params" using o by (auto simp: ordered_params_def split: if_splits)
  ultimately show ?thesis using args len by (simp add: r params_match_ok [OF assms(1)] positional_params_match_ok [OF assms(1)])
qed

theorem position_role_agreement_witness:
  "method_call_args_from_params sample_symbols [sample_param 100 50] [(VSymbol 5, VIdentity 60)] = Some [VIdentity 60]"
proof -
  have "positional_method_args sample_symbols [sample_param 100 50] [VIdentity 60] = Some (Some [(VSymbol 5, VIdentity 60)])"
    by (subst positional_method_args_ok [OF sample_layout(2,1)]) (simp add: arity_ok_def bound_values_def; simp add: sample_param_def)
  from position_role_agreement [OF sample_dispatch_reads this] show ?thesis by simp
qed

section \<open>Caches\<close>

text \<open>
  C13. The caches of a snapshot cannot be observed. Whatever the other threads do to the caches between
  the critical sections of an operation, as long as they leave them coherent, each lookup answers as the
  resolution without a cache does (a call by unsorted roles when no role occurs twice), for an entry stored for an argument count too, and
  leaves the caches coherent: every entry right, at most 4096 entries and candidate lists and at most
  1024 positional entries for each group of relations.
\<close>

theorem dispatch_cache_transparent:
  assumes "dcache_ok sy rd c" "tolerated sy rd others"
  shows "answers_as sy rd (kbind (resolve_positional_methods sy rd rels selector args) (\<lambda>r. kok (pr_methods r)))
      (cached_applicable_positional_methods sy rd rels selector args others c) \<and>
    answers_as sy rd (reference_calls sy rd rels selector roles) (cached_applicable_method_calls_normalized sy rd rels selector roles others c) \<and>
    (distinct (map fst roles) \<longrightarrow>
       answers_as sy rd (reference_calls sy rd rels selector roles) (cached_applicable_method_calls sy rd rels selector roles others c))"
  using cached_positional_ok [OF assms] cached_calls_normalized_ok [OF assms] cached_calls_ok [OF assms] by blast

theorem dispatch_cache_transparent_witness:
  "\<exists>c. answers_as sample_symbols (tuple_map_reader sample_methods)
     (kbind (resolve_positional_methods sample_symbols (tuple_map_reader sample_methods) sample_relations (VSymbol 9) [VIdentity 60]) (\<lambda>r. kok (pr_methods r)))
     (cached_applicable_positional_methods sample_symbols (tuple_map_reader sample_methods) sample_relations (VSymbol 9) [VIdentity 60] (\<lambda>_ c. c) c) \<and>
   answers_as sample_symbols (tuple_map_reader sample_methods)
     (reference_calls sample_symbols (tuple_map_reader sample_methods) sample_relations (VSymbol 9) [(VSymbol 5, VIdentity 60)])
     (cached_applicable_method_calls sample_symbols (tuple_map_reader sample_methods) sample_relations (VSymbol 9) [(VSymbol 5, VIdentity 60)] (\<lambda>_ c. c) c)"
proof -
  have "tolerated sample_symbols (tuple_map_reader sample_methods) (\<lambda>_ c. c)" by (simp add: tolerated_def)
  from dispatch_cache_transparent [OF dcache_ok_new this, of sample_relations "VSymbol 9" "[VIdentity 60]" "[(VSymbol 5, VIdentity 60)]"]
  show ?thesis by (intro exI [of _ dispatch_cache_new]) simp
qed

section \<open>Transactions\<close>

text \<open>
  The sample of a transaction: a base in which the dispatch relations and the relation of method programs
  exist and are empty, without rules and computed relations, and the assertion of a method.
\<close>

type_synonym 'v tree = "'v key_assoc"
type_synonym sample_surroundings = "(tuple tree, tuple_bucket tree, overlay_entry tree, overlay_entry list tree, visible_entry tree) surroundings"
type_synonym sample_dispatching = "(tuple tree, tuple_bucket tree, overlay_entry tree, overlay_entry list tree, visible_entry tree) dispatching"
type_synonym sample_state = "(tuple tree, tuple_bucket tree) relation_state"

definition sample_context :: sample_surroundings where
  "sample_context =
     \<lparr>cx_trees = \<lparr>tr_rows = ka_ops, tr_index = ka_ops, tr_entries = ka_ops, tr_scan = ka_ops, tr_visible = ka_ops\<rparr>,
      cx_rules = [], cx_computed = (\<lambda>_. False), cx_uses_read_authority = False, cx_base_scan = (\<lambda>_ _ _. kok []), cx_txn_scan = (\<lambda>_ _ _ _ _ _. kok []),
      cx_base_derived = (\<lambda>_ _. kok None), cx_txn_derived = (\<lambda>_ _ _ _ _. kok None), cx_other_reads = tuple_map_reader []\<rparr>"

definition sample_stored :: "identity \<Rightarrow> nat \<Rightarrow> sample_state" where
  "sample_stored i n = \<lparr>rs_metadata = metadata_new i (10 + i) n, rs_tuples = store_empty, rs_indexes = [], rs_non_immediate_counts = replicate n 0\<rparr>"

definition sample_base :: "sample_state snapshot" where
  "sample_base = \<lparr>sn_version = 1, sn_buffers = bf_default,
     sn_relations = rl_insert 4 (sample_stored 4 2) (rl_insert 3 (sample_stored 3 3) (rl_insert 2 (sample_stored 2 6) (rl_insert 1 (sample_stored 1 2) rl_new)))\<rparr>"

definition sample_fact :: tuple where
  "sample_fact = [VIdentity 100, VSymbol 9]"

lemma sample_get:
  "rl_get (sn_relations sample_base) i =
     (if i = 1 then Some (sample_stored 1 2) else if i = 2 then Some (sample_stored 2 6)
      else if i = 3 then Some (sample_stored 3 3) else if i = 4 then Some (sample_stored 4 2) else None)"
  by (simp add: sample_base_def rl_insert_def rl_new_def rl_contains_key_def rl_get_def Let_def sample_stored_def metadata_new_def)

lemma sample_stored_ok: "0 < n \<Longrightarrow> rstate_ok ka_ops ka_ops (sample_stored i n) {}"
proof -
  assume "0 < n"
  have "find ((\<le>) n) [0..<n] = None" by (simp add: find_None_iff)
  then have "validate_metadata (metadata_new i (10 + i) n) = Inr ()" by (simp add: validate_metadata_def metadata_new_def)
  then have "state_empty ka_ops (metadata_new i (10 + i) n) = Inr (sample_stored i n)"
    by (simp add: state_empty_def)
      (simp add: metadata_new_def sample_stored_def is_natural_full_tuple_index_def is_natural_full_tuple_positions_def)
  then show ?thesis by (rule state_empty_ok(1) [OF ka_laws]) (simp add: metadata_new_def)
qed

lemma sample_trees: "trees_ok (cx_trees sample_context)"
  by (simp add: trees_ok_def sample_context_def ka_laws)

lemma sample_relations_ok: "relations_ok (cx_trees sample_context) (sn_relations sample_base) (\<lambda>_. {})"
proof -
  have "om_ok (rl_entries (sn_relations sample_base))"
    by (simp add: sample_base_def rl_insert_def rl_new_def rl_contains_key_def rl_get_def Let_def sample_stored_def metadata_new_def)
  moreover have "keys_ok (rs_metadata (sample_stored i n)) {}" for i n by (simp add: keys_ok_def sample_stored_def metadata_new_def)
  ultimately show ?thesis
    using sample_stored_ok by (auto simp: relations_ok_def sample_get sample_context_def split: if_splits)
qed

lemma txn_ok_flag: "txn_ok L (tx\<lparr>tx_views_cached := b\<rparr>) D W = txn_ok L tx D W"
proof -
  have "tx_writes (tx\<lparr>tx_views_cached := b\<rparr>) = tx_writes tx" "tx_functional_visible (tx\<lparr>tx_views_cached := b\<rparr>) = tx_functional_visible tx"
    "tx_base (tx\<lparr>tx_views_cached := b\<rparr>) = tx_base tx" by simp_all
  then show ?thesis unfolding txn_ok_def by (simp only:)
qed

text \<open>The transaction after the assertion.\<close>

definition sample_wrote :: "sample_dispatching \<Rightarrow> sample_dispatching" where
  "sample_wrote d = snd (the (dt_apply_local_change sample_context 1 sample_fact Assert d))"

lemma sample_write:
  assumes "dt_txn d = txn_new sample_base"
  shows "dt_apply_local_change sample_context 1 sample_fact Assert d = Some (Inr (), sample_wrote d)"
    "txn_ok (cx_trees sample_context) (dt_txn (sample_wrote d)) (\<lambda>_. {}) ((\<lambda>_. Map.empty)(1 := Map.empty(sample_fact \<mapsto> Assert)))"
    "tx_base (dt_txn (sample_wrote d)) = sample_base" "ic_entries (dt_inline (sample_wrote d)) = None"
proof -
  let ?tx = "cached_txn d"
  have ok: "txn_ok (cx_trees sample_context) ?tx (\<lambda>_. {}) (\<lambda>_. Map.empty)"
    using new_txn_ok [OF sample_trees sample_relations_ok] by (simp add: cached_txn_def assms txn_ok_flag)
  have row: "row_ok sample_fact" by (simp add: sample_fact_def row_ok_def PAYLOAD_LIMIT_def U32_LIMIT_def)
  have b: "tx_base ?tx = sample_base" by (simp add: cached_txn_def assms txn_new_def)
  have wa: "write_allowed (\<lambda>_. False) ?tx 1 sample_fact Assert (view {} Map.empty)"
    unfolding write_allowed_def b sample_get by (simp add: sample_stored_def metadata_new_def sample_fact_def keys_ok_def)
  obtain tx' where tx': "apply_local_change (cx_trees sample_context) (\<lambda>_. False) 1 sample_fact Assert ?tx = Some (Inr (), tx')"
    "txn_ok (cx_trees sample_context) tx' (\<lambda>_. {}) ((\<lambda>_. Map.empty)(1 := Map.empty(sample_fact \<mapsto> Assert)))" "tx_base tx' = tx_base ?tx"
    by (rule apply_local_change_ok [OF sample_trees ok row, of "\<lambda>_. False" 1 Assert]) (use wa in auto)
  have c: "cx_computed sample_context = (\<lambda>_. False)" by (simp add: sample_context_def)
  show "dt_apply_local_change sample_context 1 sample_fact Assert d = Some (Inr (), sample_wrote d)"
    using tx'(1) by (simp add: sample_wrote_def dt_apply_local_change_def c)
  have w: "sample_wrote d = after_operation tx' d" using tx'(1) by (simp add: sample_wrote_def dt_apply_local_change_def c)
  show "txn_ok (cx_trees sample_context) (dt_txn (sample_wrote d)) (\<lambda>_. {}) ((\<lambda>_. Map.empty)(1 := Map.empty(sample_fact \<mapsto> Assert)))"
    "tx_base (dt_txn (sample_wrote d)) = sample_base" using tx'(2,3) b by (simp_all add: w after_operation_def)
  have "\<not> tx_views_cached tx'"
    using tx'(1) unfolding apply_local_change_def require_writable_relation_def snapshot_relation_def b sample_get
    by (auto simp: is_functional_def sample_stored_def metadata_new_def record_functional_change_def write_change_def
        split: sum.splits option.splits)
  then show "ic_entries (dt_inline (sample_wrote d)) = None" by (simp add: w after_operation_def inline_clear_def)
qed

lemma sample_free: "\<not> cx_computed sample_context md" "\<not> relation_has_active_rule_head (cx_rules sample_context) r"
  by (simp_all add: sample_context_def relation_has_active_rule_head_def)

lemma sample_bindings:
  "bindings_ok (state_arity (sample_stored 1 2)) [None, Some (VSymbol 9)]"
  "bindings_ok (state_arity (sample_stored 2 6)) [Some (VIdentity 100), None, None, None, None, None]"
  by (simp_all add: bindings_ok_def sample_stored_def metadata_new_def PAYLOAD_LIMIT_def U32_LIMIT_def)

lemma sample_in_order: "in_tuple_order (sample_stored i n) bs"
  by (auto simp: in_tuple_order_def best_access_def sample_stored_def bound_counts_def max_by_key_def split: option.splits if_splits)

lemma sample_visits:
  assumes "dt_txn d = txn_new sample_base"
  shows "rd_visit (txn_reader sample_context (dt_txn (sample_wrote d))) 1 [None, Some (VSymbol 9)] = Inr [sample_fact]"
    "rd_visit (txn_reader sample_context (dt_txn (sample_wrote d))) 2 [Some (VIdentity 100), None, None, None, None, None] = Inr []"
proof -
  let ?tx = "dt_txn (sample_wrote d)"
  note w = sample_write [OF assms]
  have rel: "snapshot_relation (tx_base ?tx) 1 = Inr (sample_stored 1 2)" "snapshot_relation (tx_base ?tx) 2 = Inr (sample_stored 2 6)"
    by (simp_all add: w(3) snapshot_relation_def sample_get)
  have v: "matching (view {} (Map.empty(sample_fact \<mapsto> Assert))) [None, Some (VSymbol 9)] = {sample_fact}"
    "matching (view {} Map.empty) bs = {}" for bs
    by (auto simp: matching_def view_def matches_bindings_def sample_fact_def less_Suc_eq)
  obtain rows where "txn_visit sample_context ?tx 1 [None, Some (VSymbol 9)] = kok rows" "set rows = {sample_fact}" "TupleRows.ascending rows"
    using txn_visit_ok [OF sample_trees w(2) rel(1) sample_free sample_bindings(1) sample_in_order] v(1) by auto
  moreover have "rows = [sample_fact]"
  proof -
    have "\<forall>x \<in> set rows. \<forall>v \<in> set x. valid v" using calculation(2) by (simp add: sample_fact_def PAYLOAD_LIMIT_def U32_LIMIT_def)
    then have "distinct rows" using row_order.strictly_distinct [OF calculation(3)] by simp
    then show ?thesis using calculation(2) by (cases rows) (auto simp: subset_singleton_iff)
  qed
  ultimately show "rd_visit (txn_reader sample_context ?tx) 1 [None, Some (VSymbol 9)] = Inr [sample_fact]" by (simp add: txn_reader_def kok_def)
  obtain none where "txn_visit sample_context ?tx 2 [Some (VIdentity 100), None, None, None, None, None] = kok none" "set none = {}"
    using txn_visit_ok [OF sample_trees w(2) rel(2) sample_free sample_bindings(2) sample_in_order] v(2) by auto
  then show "rd_visit (txn_reader sample_context ?tx) 2 [Some (VIdentity 100), None, None, None, None, None] = Inr []" by (simp add: txn_reader_def kok_def)
qed

text \<open>
  C20. Nor can the caches of a transaction be observed. From its beginning on, whatever it writes into
  relations and buffers, however its read authority changes and whichever calls it looked up before, a
  transaction's lookups of calls by position, of calls by role (unsorted roles when no role occurs twice) and
  of method programs answer as an uncached resolution over what the transaction reads at that moment,
  its own writes included, as long as the relations exist. The shared caches stay coherent with the base and
  the inline cache never holds more than two entries of a kind. Assumed are only that other threads leave
  the shared caches coherent and that the handlers of computed relations read what the transaction can read.
\<close>

theorem transaction_dispatch:
  assumes "handlers_read_views cx base" "dcache_ok sy (snapshot_reader cx base) c" "programs_right (snapshot_reader cx base) p"
    and "(dispatch_step sy cx)\<^sup>*\<^sup>* (begin_dispatch base c p) d"
    and "tolerated sy (snapshot_reader cx base) others"
    and "\<And>q. programs_right (snapshot_reader cx base) q \<Longrightarrow> programs_right (snapshot_reader cx base) (other q)"
    and "known_relations (dt_txn d) rels" "known_relation (dt_txn d) relation"
  shows "fst (dispatch_positional sy cx rels selector args others d) =
      kbind (resolve_positional_methods sy (txn_reader cx (dt_txn d)) rels selector args) (\<lambda>r. kok (pr_methods r)) \<and>
    fst (dispatch_calls sy cx rels selector roles others d) = reference_calls sy (txn_reader cx (dt_txn d)) rels selector roles \<and>
    (distinct (map fst roles) \<longrightarrow>
       fst (dispatch_calls_unsorted sy cx rels selector roles others d) = reference_calls sy (txn_reader cx (dt_txn d)) rels selector roles) \<and>
    fst (dispatch_program cx relation m other d) = method_program_id_uncached (txn_reader cx (dt_txn d)) relation m \<and>
    tx_base (dt_txn d) = base \<and> dcache_ok sy (snapshot_reader cx base) (dt_cache d) \<and> programs_right (snapshot_reader cx base) (dt_programs d) \<and>
    (\<forall>es. ic_entries (dt_inline d) = Some es \<longrightarrow> length (ie_positional es) = 2 \<and> length (ie_programs es) = 2)"
proof -
  have ok: "dispatching_ok sy cx base d" by (rule dispatch_reachable_ok [OF assms(4,1-3)])
  note l = dispatch_lookups_ok [OF assms(1) ok]
  have "fst (dispatch_program cx relation m other d) = method_program_id_uncached (txn_reader cx (dt_txn d)) relation m"
    by (rule conjunct1 [OF l(4)], erule assms(6), rule assms(8))
  moreover have "\<forall>es. ic_entries (dt_inline d) = Some es \<longrightarrow> length (ie_positional es) = 2 \<and> length (ie_programs es) = 2"
    using ok by (auto simp: dispatching_ok_def inline_ok_def entries_right_def INLINE_DISPATCH_CACHE_CAPACITY_def)
  ultimately show ?thesis
    using l(1) [OF assms(5,7), of selector args] l(2) [OF assms(5,7), of selector roles] l(3) [OF assms(5,7), of roles selector] ok
    by (simp add: dispatching_ok_def)
qed

text \<open>
  The witness looks a call up twice, which stores its empty answer in the inline cache, asserts a method for
  the selector, and looks the call up again: the method is found although the base and its cache know none.
\<close>

lemma sample_empty_visit:
  "rd_visit (txn_reader sample_context (txn_new sample_base)) 1 [None, Some (VSymbol 9)] = Inr []"
proof -
  have rel: "snapshot_relation (tx_base (txn_new sample_base)) 1 = Inr (sample_stored 1 2)"
    by (simp add: txn_new_def snapshot_relation_def sample_get)
  obtain rows where "txn_visit sample_context (txn_new sample_base) 1 [None, Some (VSymbol 9)] = kok rows" "set rows = {}"
    using txn_visit_ok [OF sample_trees new_txn_ok [OF sample_trees sample_relations_ok] rel sample_free sample_bindings(1) sample_in_order]
    by (auto simp: matching_def view_def)
  then show ?thesis by (simp add: txn_reader_def kok_def)
qed

lemma sample_resolution:
  "resolve_positional_methods sample_symbols (txn_reader sample_context (txn_new sample_base)) sample_relations (VSymbol 9) [] =
     kok \<lparr>pr_methods = [], pr_argument_independent = True\<rparr>"
  "dt_txn d = txn_new sample_base \<Longrightarrow>
     \<exists>res. resolve_positional_methods sample_symbols (txn_reader sample_context (dt_txn (sample_wrote d))) sample_relations (VSymbol 9) [] = kok res \<and>
       map pm_method (pr_methods res) = [VIdentity 100]"
proof -
  note steps = resolve_positional_methods_def scan_method_candidates_def filter_positional_candidates_def prune_positional_methods_def
    undominated_def sort_by_def kbind_def kok_def sample_relations_def
  show "resolve_positional_methods sample_symbols (txn_reader sample_context (txn_new sample_base)) sample_relations (VSymbol 9) [] =
     kok \<lparr>pr_methods = [], pr_argument_independent = True\<rparr>"
    by (simp add: steps sample_empty_visit [simplified])
  assume d: "dt_txn d = txn_new sample_base"
  have f: "field sample_fact 0 = Some (VIdentity 100)" by (simp add: field_def sample_fact_def)
  show "\<exists>res. resolve_positional_methods sample_symbols (txn_reader sample_context (dt_txn (sample_wrote d))) sample_relations (VSymbol 9) [] = kok res \<and>
       map pm_method (pr_methods res) = [VIdentity 100]"
    by (simp add: steps sample_visits [OF d, simplified] f positional_params_match_def ordered_params_def parameter_layout_def positional_binding_def)
qed

lemma sample_lookup:
  assumes "dispatch_positional sy cx rels selector args others d = (kok ms, d')"
  shows "dt_txn d' = dt_txn d"
    "ic_state (dt_inline d) = 0 \<Longrightarrow> ic_state (dt_inline d') = 1 \<and> ic_entries (dt_inline d') = ic_entries (dt_inline d)"
    "ic_state (dt_inline d) = 1 \<Longrightarrow> ic_entries (dt_inline d) = None \<Longrightarrow> find_positional (dt_inline d') rels selector args \<noteq> None"
  using assms
  by (auto simp: dispatch_positional_def txn_positional_def Let_def kok_def POSITIONAL_DISPATCH_CACHED_def POSITIONAL_DISPATCH_SEEN_def
      mark_positional_seen_def promote_positional_def remember_positional_def find_positional_def get_or_default_def inline_default_def
      INLINE_DISPATCH_CACHE_CAPACITY_def numeral_2_eq_2 List.map_filter_def
      split: prod.splits option.splits sum.splits if_splits)

theorem transaction_dispatch_witness:
  "\<exists>d1 d2 (d :: sample_dispatching). dispatch_positional sample_symbols sample_context sample_relations (VSymbol 9) [] (\<lambda>_ c. c)
       (begin_dispatch sample_base dispatch_cache_new []) = (kok [], d1) \<and>
     dispatch_positional sample_symbols sample_context sample_relations (VSymbol 9) [] (\<lambda>_ c. c) d1 = (kok [], d2) \<and>
     find_positional (dt_inline d2) sample_relations (VSymbol 9) [] \<noteq> None \<and>
     dt_apply_local_change sample_context 1 sample_fact Assert d2 = Some (Inr (), d) \<and>
     (\<exists>ms. fst (dispatch_positional sample_symbols sample_context sample_relations (VSymbol 9) [] (\<lambda>_ c. c) d) = kok ms \<and>
       map pm_method ms = [VIdentity 100])"
proof -
  let ?d0 = "begin_dispatch sample_base dispatch_cache_new [] :: sample_dispatching"
  let ?look = "dispatch_positional sample_symbols sample_context sample_relations (VSymbol 9) [] (\<lambda>_ c. c)"
  have h: "handlers_read_views sample_context sample_base" by (simp add: handlers_read_views_def sample_context_def)
  have p: "programs_right (snapshot_reader sample_context sample_base) []" by (simp add: programs_right_def program.records_def program_get_def)
  have others: "tolerated sample_symbols rd (\<lambda>_ c. c)" for rd by (simp add: tolerated_def)
  have known: "known_relations tx sample_relations" "known_relation tx 4" if "tx_base tx = sample_base" for tx :: "(_, _, _, _, _) rtxn"
    using that by (simp_all add: known_relations_def known_relation_def sample_get sample_relations_def)
  have answer: "fst (?look d) = kbind (resolve_positional_methods sample_symbols (txn_reader sample_context (dt_txn d)) sample_relations (VSymbol 9) [])
      (\<lambda>r. kok (pr_methods r))"
    if "(dispatch_step sample_symbols sample_context)\<^sup>*\<^sup>* ?d0 d" "tx_base (dt_txn d) = sample_base" for d
    by (rule conjunct1 [OF transaction_dispatch [OF h dcache_ok_new p that(1) others _ known [OF that(2)], where other = "\<lambda>q. q"]])
  have b: "tx_base (txn_new sample_base) = sample_base" by (simp add: txn_new_def)
  have look: "\<exists>d'. ?look d = (kok [], d') \<and> dispatch_step sample_symbols sample_context d d' \<and> dt_txn d' = txn_new sample_base"
    if "(dispatch_step sample_symbols sample_context)\<^sup>*\<^sup>* ?d0 d" "dt_txn d = txn_new sample_base" for d
  proof -
    have "fst (?look d) = kok []"
      using answer [OF that(1)] that(2) b sample_resolution(1) by (simp add: kbind_def kok_def)
    then obtain d' where d': "?look d = (kok [], d')" by (metis prod.collapse)
    moreover have "dispatch_step sample_symbols sample_context d d'"
      by (rule dispatch_step.positional [OF others _ d']) (simp add: known that(2) b)
    ultimately show ?thesis using sample_lookup(1) [OF d'] that(2) by auto
  qed
  obtain d1 where d1: "?look ?d0 = (kok [], d1)" "dispatch_step sample_symbols sample_context ?d0 d1" "dt_txn d1 = txn_new sample_base"
    using look [of ?d0] by (auto simp: begin_dispatch_def)
  obtain d2 where d2: "?look d1 = (kok [], d2)" "dispatch_step sample_symbols sample_context d1 d2" "dt_txn d2 = txn_new sample_base"
    using look [of d1] d1(2,3) by blast
  have "find_positional (dt_inline d2) sample_relations (VSymbol 9) [] \<noteq> None"
    using sample_lookup(2) [OF d1(1)] by (intro sample_lookup(3) [OF d2(1)]) (simp_all add: begin_dispatch_def inline_new_def)
  moreover note w = sample_write(1) [OF d2(3)]
  moreover have "(dispatch_step sample_symbols sample_context)\<^sup>*\<^sup>* ?d0 (sample_wrote d2)"
    using d1(2) d2(2) dispatch_step.wrote [OF w] by (meson rtranclp.rtrancl_refl rtranclp.rtrancl_into_rtrancl)
  note answer [OF this sample_write(3) [OF d2(3)]]
  ultimately show ?thesis
    using d1(1) d2(1) sample_resolution(2) [OF d2(3)] by (auto simp: kbind_def kok_def)
qed

end
