(* ===== verification/Spec2Isabelle.thy ===== *)
theory Spec2Isabelle
  imports ClientProperties ValueProperties RelationProperties RuleProperties DispatchProperties
begin

text \<open>
  A verification development for Mica, a programming environment whose state is a database of
  relations. It covers the core of that database: the values and their encodings (src/crates/var), and
  the relation kernel (src/crates/relation-kernel) with its transactions, its shared text buffers, its
  rules and the dispatch of methods.

  \<^bold>\<open>The parts and how they interact.\<close> A kernel publishes snapshots: versions of a catalogue of relations and
  of text buffers. A transaction starts from a snapshot, reads it through its own writes, and commits:
  its writes are validated against what was published since its base, merged, handed to the
  persistence provider and published by one compare-and-set. Relations hold tuples of values in a
  store with secondary indexes; buffers hold texts with the edits that led from one revision to the
  next, so that concurrent edits are rebased over each other. Rules derive further relations from the
  stored ones. Methods are stored in relations too: a call is resolved by looking up the methods of a
  selector, comparing the arguments with the restrictions of their parameters along the delegation
  between values, and keeping the most specific ones; caches in front of it are shared by all threads.
  Clients tag their edits with tokens and later ask for the outcome.

  \<^bold>\<open>Buffers\<close> (src/crates/relation-kernel/src/buffer).
  \<^item> \<open>BufferText\<close>, \<open>BufferHeap\<close>: the piece tree of text.rs, with the identities of chunks as allocated;
    replacing a range is splicing the text, the tree stays balanced and its cached counts right, and no
    operation panics on a well-formed text.
  \<^item> \<open>BufferDelta\<close>, \<open>BufferRebase\<close>, \<open>BufferProvenance\<close>, \<open>BufferMarker\<close>: delta.rs. Normal forms, application,
    conflicts, rebasing with convergence, recovery of an edit from the provenance of pieces, and markers of
    both affinities.
  \<^item> \<open>BufferStore\<close>, \<open>BufferRecovery\<close>, \<open>BufferCommit\<close>: store.rs. The pending writes of a transaction, the merge
    policies, publication, checkpoints and replay, with the text of volatile buffers dropped from the log.
  \<^item> \<open>BufferClient\<close>, \<open>BufferClientProofs\<close>, \<open>BufferTokens\<close>, \<open>BufferHistory\<close>: client.rs and history.rs. The bounded
    table of results under every interleaving of transactions, and the rings of retained versions.
  \<^item> \<open>BufferProperties\<close>, \<open>ClientProperties\<close>: the properties of these parts and their witnesses.

  \<^bold>\<open>Values\<close> (src/crates/var).
  \<^item> \<open>Bytes\<close>, \<open>SymbolTable\<close>, \<open>Values\<close>, \<open>ValueCanon\<close>, \<open>LanguageCmp\<close>: byte strings, the symbol interner, the values with
    their representation invariants and canonical constructors, and the comparison of the language.
  \<^item> \<open>OrderedKey\<close>: the canonical order and the byte keys that represent it.
  \<^item> \<open>ValueCodec\<close>, \<open>ValueSegments\<close>, \<open>ValueRoundtrip\<close>, \<open>ValueTotal\<close>: both encoders and the decoder; round trips, agreement
    of the encoders, and that decoding ends with a well-formed value or an error on every input.
  \<^item> \<open>ValueProperties\<close>: their properties.

  \<^bold>\<open>Relations\<close> (src/crates/relation-kernel/src).
  \<^item> \<open>OrderedMap\<close>, \<open>KernelData\<close>, \<open>RadixTree\<close>: ordered maps, metadata, commits and errors, and the interface of the
    radix tree crate.
  \<^item> \<open>TupleRows\<close>, \<open>TupleStore\<close>, \<open>TupleIndex\<close>, \<open>RelationState\<close>: row algebra, buckets, the store and its promotion to a
    tree, indexes, and the state of a relation (relation_algebra.rs, index.rs and index/).
  \<^item> \<open>Overlay\<close>, \<open>RelationTxn\<close>, \<open>RelationCommit\<close>, \<open>KernelSteps\<close>: the local writes of a transaction, reads through them,
    validation, commit and publication (transaction.rs, transaction/overlay.rs, kernel.rs, snapshot.rs),
    and the kernel as a step relation in which transactions interleave.
  \<^item> \<open>RelationProperties\<close>: their properties. Its last section shows that a read of a relation in index order
    can miss a local retraction.

  \<^bold>\<open>Rules\<close> (src/crates/relation-kernel/src/rules.rs).
  \<^item> \<open>RuleData\<close>, \<open>RuleStrata\<close>, \<open>RuleComponents\<close>: rules, their compilation to slots, strata and components. The strata
    are the least ones and exist exactly when no relation depends on its own negation; the components
    are the strongly connected classes, dependencies first.
  \<^item> \<open>RuleEval\<close>: readers, the planner, the evaluation of a body, of a component and of a rule set.
  \<^item> \<open>RuleBody\<close>, \<open>RuleHeads\<close>, \<open>RuleMaps\<close>: a rule derives the heads of the valuations that satisfy its body, whatever
    the order of evaluation.
  \<^item> \<open>RuleFixpoint\<close>, \<open>RuleTotal\<close>, \<open>RuleSemiNaive\<close>, \<open>RuleModel\<close>: the semi-naive loop ends with the least relations closed
    under the rules of a component, and the whole evaluation computes the stable model of the rules; safe
    rules are evaluated without an error.
  \<^item> \<open>RuleProperties\<close>: their properties.

  \<^bold>\<open>Dispatch\<close> (dispatch.rs, closure.rs, dispatch_cache.rs, method_program_cache.rs, and the caches in
  snapshot.rs and transaction.rs).
  \<^item> \<open>Dispatch\<close>: delegation, parameters and the binding of arguments, restrictions, candidates, specificity and
    the resolution of calls by position and by role.
  \<^item> \<open>DispatchProofs\<close>, \<open>DispatchResolution\<close>: the traversals of delegation compute its transitive closure, cycles
    included; a resolution neither panics nor fails and returns the applicable methods that no
    applicable method is more specific than; calls of one method by position and by role agree.
  \<^item> \<open>DispatchCache\<close>: the caches of a snapshot. Each keeps right answers under interference of other threads
    between its critical sections and stays within its bounds; entries by argument count are right for
    every call with that count. The locale \<open>memo\<close> states what a table has to promise, and is interpreted
    by the three keyed tables.
  \<^item> \<open>DispatchTxn\<close>: the inline caches of a transaction, and when it may use those of its base.
  \<^item> \<open>DispatchWrites\<close>: the life of a transaction that looks calls up. The reads it makes, its check whether the
    base answers for it (shown sound on the modelled transaction), the writes of tuples and buffers and
    the changes of authority that clear the inline cache, as a step relation whose invariant is that the
    caches are right.
  \<^item> \<open>DispatchProperties\<close>: their properties. Sorting the roles of a call for its cache key is harmless only when no
    role occurs twice, which is a hypothesis there; the virtual machine sorts before it asks.

  \<^bold>\<open>How the code is represented.\<close> Structures are records, enumerations datatypes, \<open>Result\<close> is a sum type and a
  panic is \<open>None\<close>. Unsigned sizes are natural numbers with the overflow checks of the code written out;
  integers of the language carry their range in the representation invariant of values. B-tree maps
  and sets are their contents in order; hash maps whose iteration order the code exposes are lists with
  the order as a parameter. Shared mutable state is passed explicitly, and threads are interleavings of
  steps. The parameters are the radix tree crate (with its laws as the locales of \<open>RadixTree\<close> and \<open>TupleStore\<close>,
  interpreted by ordered maps), the commit provider, the allocator's size of a retained delta, the
  packed join of the batch engine (with its contract \<open>join_ok\<close>), the names of interned symbols in dispatch,
  and, where a transaction reads through them, the handlers of computed relations and the derived
  relations. A handler is asked only to see no more of a transaction than it can read.

  \<^bold>\<open>Bounds and fuel.\<close> Recursions are structural or have a measure. The decoder has the length of the input as
  fuel, which is enough as each call consumes a byte. The division into components has the number of
  relations as fuel, as each round removes one. The semi-naive loop is a partial function that is shown
  to return: derived values are stored values or constants, so finitely many tuples can be derived. So
  are the traversals of delegation: each prototype enters the frontier once.

  \<^bold>\<open>Where the model is coarser than the code.\<close> The row estimates that rank the atoms of a body are added without
  the bound of \<open>usize\<close>; they decide only the order of evaluation, and the results are proved for every order.
  Completing and failing the tokens of a transaction is one step of the client interleaving, while client.rs
  takes the lock of the result table once per token. The recursion depth of the decoder is not bounded
  by a stack. The step that creates a relation asks for distinct positions in an index over all columns,
  which the code does not check. The next snapshot is built without advancing the maintained state of
  derived relations.

  \<^bold>\<open>Not modelled.\<close> The bounded search in texts, formatting and arithmetic of values, row estimates in
  floating point, columnar batches and query plans, incremental maintenance of derived relations,
  computed relations (parameters), files, databases and metrics. The compiler,
  the virtual machine and the runtime are outside this development, which stops at the interface of the
  relation kernel.
\<close>

end
